(* ===== verification/Prelude.thy ===== *)
theory Prelude
  imports Complex_Main "HOL-Library.AList" "HOL-Library.List_Lexorder"
begin

text \<open>
  Shared vocabulary of the development: Python text as lists of code points, results that may
  raise, dynamically typed JSON-like values, dictionaries as insertion-ordered association lists
  (\<^verbatim>\<open>dict\<close> keeps insertion order; \<open>AList.update\<close> overwrites in place or appends, as an
  item assignment does), and the few integer functions of the standard library that the modelled
  code calls.
\<close>

section \<open>Collections of facts\<close>

named_theorems result_simps \<open>rules that take a computation that may raise apart\<close>
named_theorems dict_simps \<open>rules for insertion-ordered dictionaries\<close>

section \<open>Text\<close>

text \<open>A Python \<^verbatim>\<open>str\<close> is a sequence of code points; \<open>u\<close> is an ASCII literal.\<close>

type_synonym pystr = "nat list"

definition u :: "string \<Rightarrow> pystr" where
  "u s = map of_char s"

lemma u_eq_iff [simp]: "u a = u b \<longleftrightarrow> a = b"
  unfolding u_def by (rule inj_map_eq_map) (auto intro: injI)

lemma u_append: "u (a @ b) = u a @ u b"
  by (simp add: u_def)

lemma u_Nil [simp]: "u [] = []"
  by (simp add: u_def)

lemma u_eq_Nil [simp]: "u a = [] \<longleftrightarrow> a = []" "[] = u a \<longleftrightarrow> a = []"
  by (auto simp: u_def)

lemma length_u [simp]: "length (u a) = length a"
  by (simp add: u_def)

section \<open>Results that may raise\<close>

text \<open>
  \<open>'e + 'a\<close> is the outcome of a call: \<open>Inl\<close> the exception, \<open>Inr\<close> the value. \<open>rbind\<close> sequences
  two calls, \<open>rfold\<close> is a \<^verbatim>\<open>for\<close> loop over a list, \<open>rmap\<close> a comprehension whose body may raise.
\<close>

definition rbind :: "'e + 'a \<Rightarrow> ('a \<Rightarrow> 'e + 'b) \<Rightarrow> 'e + 'b" where
  "rbind m f = (case m of Inl e \<Rightarrow> Inl e | Inr x \<Rightarrow> f x)"

lemma rbind_Inl [simp]: "rbind (Inl e) f = Inl e"
  by (simp add: rbind_def)

lemma rbind_Inr [simp]: "rbind (Inr x) f = f x"
  by (simp add: rbind_def)

lemma rbind_eq_Inr [result_simps]: "rbind m f = Inr y \<longleftrightarrow> (\<exists>x. m = Inr x \<and> f x = Inr y)"
  by (cases m) auto

lemma rbind_eq_Inl [result_simps]:
  "rbind m f = Inl e \<longleftrightarrow> m = Inl e \<or> (\<exists>x. m = Inr x \<and> f x = Inl e)"
  by (cases m) auto

lemma rbind_assoc: "rbind (rbind m f) g = rbind m (\<lambda>x. rbind (f x) g)"
  by (cases m) auto

lemma rbind_cong [fundef_cong]:
  "m = m' \<Longrightarrow> (\<And>x. m' = Inr x \<Longrightarrow> f x = f' x) \<Longrightarrow> rbind m f = rbind m' f'"
  by (cases m') auto

text \<open>\<open>demand c e k\<close> is a guard: raise \<open>e\<close> unless \<open>c\<close>, then go on with \<open>k\<close>.\<close>

definition demand :: "bool \<Rightarrow> 'e \<Rightarrow> 'e + 'a \<Rightarrow> 'e + 'a" where
  "demand c e k = (if c then k else Inl e)"

lemma demand_True [simp]: "demand True e k = k"
  by (simp add: demand_def)

lemma demand_False [simp]: "demand False e k = Inl e"
  by (simp add: demand_def)

lemma demand_eq_Inr [result_simps]: "demand c e k = Inr y \<longleftrightarrow> c \<and> k = Inr y"
  by (simp add: demand_def)

lemma demand_eq_Inl [result_simps]:
  "demand c e k = Inl x \<longleftrightarrow> (c \<and> k = Inl x) \<or> (\<not> c \<and> x = e)"
  by (auto simp: demand_def)

lemma demand_cong [fundef_cong]:
  "c = c' \<Longrightarrow> e = e' \<Longrightarrow> (c' \<Longrightarrow> k = k') \<Longrightarrow> demand c e k = demand c' e' k'"
  by (simp add: demand_def)

fun rfold :: "('a \<Rightarrow> 's \<Rightarrow> 'e + 's) \<Rightarrow> 'a list \<Rightarrow> 's \<Rightarrow> 'e + 's" where
  "rfold f [] s = Inr s"
| "rfold f (x # xs) s = rbind (f x s) (rfold f xs)"

lemma rfold_append: "rfold f (xs @ ys) s = rbind (rfold f xs s) (rfold f ys)"
  by (induction xs arbitrary: s) (simp_all add: rbind_assoc cong: rbind_cong)

lemma rfold_cong [fundef_cong]:
  assumes "xs = ys" and "s = t" and "\<And>x s. x \<in> set ys \<Longrightarrow> f x s = g x s"
  shows "rfold f xs s = rfold g ys t"
proof -
  have "rfold f ys r = rfold g ys r" for r
    using assms(3) by (induction ys arbitrary: r) (auto intro!: rbind_cong)
  then show ?thesis using assms(1,2) by simp
qed

text \<open>The invariant rule of a loop that may raise.\<close>

lemma rfold_invariant:
  assumes "rfold f xs s = Inr t" and "P s"
    and "\<And>x s s'. x \<in> set xs \<Longrightarrow> P s \<Longrightarrow> f x s = Inr s' \<Longrightarrow> P s'"
  shows "P t"
  using assms
proof (induction xs arbitrary: s)
  case Nil
  then show ?case by simp
next
  case (Cons x xs)
  from Cons.prems(1) obtain s' where s': "f x s = Inr s'" "rfold f xs s' = Inr t"
    by (auto simp: rbind_eq_Inr)
  show ?case
    by (rule Cons.IH [OF s'(2)]) (use Cons.prems s'(1) in auto)
qed

fun rmap :: "('a \<Rightarrow> 'e + 'b) \<Rightarrow> 'a list \<Rightarrow> 'e + 'b list" where
  "rmap f [] = Inr []"
| "rmap f (x # xs) = rbind (f x) (\<lambda>y. rbind (rmap f xs) (\<lambda>ys. Inr (y # ys)))"

lemma rmap_cong [fundef_cong]:
  assumes "xs = ys" and "\<And>x. x \<in> set ys \<Longrightarrow> f x = g x"
  shows "rmap f xs = rmap g ys"
proof -
  have "rmap f ys = rmap g ys"
    using assms(2) by (induction ys) (auto intro!: rbind_cong)
  then show ?thesis using assms(1) by simp
qed

lemma rmap_Inr_iff: "rmap f xs = Inr ys \<longleftrightarrow> list_all2 (\<lambda>x y. f x = Inr y) xs ys"
  by (induction xs arbitrary: ys)
    (auto simp: rbind_eq_Inr list_all2_Cons1)

lemma rmap_map_Inr: "rmap (\<lambda>x. Inr (g x)) xs = Inr (map g xs)"
  by (induction xs) simp_all

text \<open>A comprehension whose condition may raise.\<close>

fun rfilter :: "('a \<Rightarrow> 'e + bool) \<Rightarrow> 'a list \<Rightarrow> 'e + 'a list" where
  "rfilter f [] = Inr []"
| "rfilter f (x # xs) = rbind (f x) (\<lambda>b. rbind (rfilter f xs) (\<lambda>ys. Inr (if b then x # ys else ys)))"

lemma rfilter_Inr:
  "rfilter f xs = Inr ys \<longleftrightarrow> (\<forall>x \<in> set xs. \<not> isl (f x)) \<and> ys = filter (\<lambda>x. f x = Inr True) xs"
proof (induction xs arbitrary: ys)
  case (Cons x xs)
  then show ?case by (cases "f x") (auto simp: rbind_eq_Inr)
qed auto

section \<open>Dynamically typed values\<close>

text \<open>
  The values that cross the transport of the runtime: what \<^verbatim>\<open>json.loads\<close> yields and
  \<^verbatim>\<open>json.dumps\<close> accepts. A finite float is the rational it denotes. \<open>VObj\<close> is any other Python
  object, of which only the type name is observed.
\<close>

datatype pyfloat = FFin rat | FInf bool | FNan

datatype pyval =
    VNone
  | VBool bool
  | VInt int
  | VFloat pyfloat
  | VStr pystr
  | VList "pyval list"
  | VDict "(pystr \<times> pyval) list"
  | VObj pystr

type_synonym pydict = "(pystr \<times> pyval) list"

text \<open>\<^verbatim>\<open>d.get(k, default)\<close> and \<^verbatim>\<open>d.get(k)\<close>.\<close>

definition dget :: "('k \<times> 'v) list \<Rightarrow> 'k \<Rightarrow> 'v \<Rightarrow> 'v" where
  "dget d k v = (case map_of d k of None \<Rightarrow> v | Some x \<Rightarrow> x)"

definition dget_none :: "pydict \<Rightarrow> pystr \<Rightarrow> pyval" where
  "dget_none d k = dget d k VNone"

lemma dget_update [dict_simps]: "dget (AList.update k v d) k' w = (if k = k' then v else dget d k' w)"
  by (simp add: dget_def update_conv')

lemma distinct_keys_update: "distinct (map fst d) \<Longrightarrow> distinct (map fst (AList.update k v d))"
  by (rule distinct_update)

fun is_str :: "pyval \<Rightarrow> bool" where
  "is_str (VStr _) = True"
| "is_str _ = False"

text \<open>\<^verbatim>\<open>isinstance(v, int) and not isinstance(v, bool)\<close>.\<close>

fun is_plain_int :: "pyval \<Rightarrow> bool" where
  "is_plain_int (VInt _) = True"
| "is_plain_int _ = False"

fun is_list :: "pyval \<Rightarrow> bool" where
  "is_list (VList _) = True"
| "is_list _ = False"

fun is_dict :: "pyval \<Rightarrow> bool" where
  "is_dict (VDict _) = True"
| "is_dict _ = False"

fun str_val :: "pyval \<Rightarrow> pystr" where
  "str_val (VStr s) = s"
| "str_val _ = []"

fun list_val :: "pyval \<Rightarrow> pyval list" where
  "list_val (VList xs) = xs"
| "list_val _ = []"

fun dict_val :: "pyval \<Rightarrow> pydict" where
  "dict_val (VDict d) = d"
| "dict_val _ = []"

text \<open>A list without repetitions is determined by a singleton set.\<close>

lemma distinct_set_singleton: "set xs = {x} \<Longrightarrow> distinct xs \<Longrightarrow> xs = [x]"
proof (cases xs)
  case (Cons y ys)
  assume "set xs = {x}" "distinct xs"
  with Cons show ?thesis by (cases ys) auto
qed simp

section \<open>Integers\<close>

text \<open>\<^verbatim>\<open>int(x)\<close> truncates towards zero.\<close>

definition int_trunc :: "rat \<Rightarrow> int" where
  "int_trunc x = (if x < 0 then - \<lfloor>- x\<rfloor> else \<lfloor>x\<rfloor>)"

text \<open>\<^verbatim>\<open>int.bit_length\<close>: the number of bits of the magnitude.\<close>

fun bit_length_nat :: "nat \<Rightarrow> nat" where
  "bit_length_nat n = (if n = 0 then 0 else Suc (bit_length_nat (n div 2)))"

declare bit_length_nat.simps [simp del]

definition bit_length :: "int \<Rightarrow> nat" where
  "bit_length i = bit_length_nat (nat \<bar>i\<bar>)"

lemma bit_length_nat_0 [simp]: "bit_length_nat 0 = 0"
  by (simp add: bit_length_nat.simps)

lemma bit_length_nat_le_iff: "bit_length_nat n \<le> k \<longleftrightarrow> n < 2 ^ k"
proof (induction n arbitrary: k rule: bit_length_nat.induct)
  case (1 n)
  show ?case
  proof (cases "n = 0")
    case False
    show ?thesis
    proof (cases k)
      case 0
      with False show ?thesis by (simp add: bit_length_nat.simps [of n])
    next
      case (Suc j)
      have "bit_length_nat n \<le> k \<longleftrightarrow> n div 2 < 2 ^ j"
        using False 1 [of j] Suc by (simp add: bit_length_nat.simps [of n])
      then show ?thesis using Suc by auto
    qed
  qed simp
qed

lemma bit_length_le_iff: "bit_length i \<le> k \<longleftrightarrow> \<bar>i\<bar> < 2 ^ k"
  by (simp add: bit_length_def bit_length_nat_le_iff nat_less_iff)

lemma bit_length_0 [simp]: "bit_length 0 = 0"
  by (simp add: bit_length_def)

text \<open>The parts of a \<^verbatim>\<open>Fraction\<close>, which is kept in lowest terms with a positive denominator.\<close>

definition numerator :: "rat \<Rightarrow> int" where
  "numerator r = fst (quotient_of r)"

definition denominator :: "rat \<Rightarrow> int" where
  "denominator r = snd (quotient_of r)"

lemma denominator_pos [simp]: "0 < denominator r"
  by (simp add: denominator_def quotient_of_denom_pos')

lemma numerator_denominator: "of_int (numerator r) / of_int (denominator r) = r"
  using quotient_of_div [of r] by (cases "quotient_of r") (simp add: numerator_def denominator_def)

text \<open>\<^verbatim>\<open>xs.index(x)\<close> of an element that occurs.\<close>

definition index_of :: "'a \<Rightarrow> 'a list \<Rightarrow> nat" where
  "index_of x xs = length (takeWhile (\<lambda>y. y \<noteq> x) xs)"

lemma index_of_nth: "distinct vs \<Longrightarrow> i < length vs \<Longrightarrow> index_of (vs ! i) vs = i"
  unfolding index_of_def
proof (induction vs arbitrary: i)
  case (Cons v vs)
  then show ?case by (cases i) auto
qed simp

end
