(* ===== verification/Py_Text.thy ===== *)
theory Py_Text
  imports Prelude
begin

text \<open>
  The text functions of Python's standard library that the modelled code calls: \<^verbatim>\<open>str(int)\<close> and
  the \<^verbatim>\<open>b\<close>, \<^verbatim>\<open>o\<close> and \<^verbatim>\<open>X\<close> formats, \<^verbatim>\<open>int(text, base)\<close> on text already known to hold digits,
  \<^verbatim>\<open>strip\<close>, \<^verbatim>\<open>lower\<close> on ASCII, \<^verbatim>\<open>replace\<close>, \<^verbatim>\<open>startswith\<close>, and the UTF-8 length of a text.
\<close>

section \<open>Digits\<close>

definition digit_cp :: "nat \<Rightarrow> nat" where
  "digit_cp d = (if d < 10 then 48 + d else 55 + d)"

definition digit_val :: "nat \<Rightarrow> nat option" where
  "digit_val c =
     (if 48 \<le> c \<and> c \<le> 57 then Some (c - 48)
      else if 65 \<le> c \<and> c \<le> 90 then Some (c - 55)
      else if 97 \<le> c \<and> c \<le> 122 then Some (c - 87)
      else None)"

lemma digit_val_cp [simp]: "d < 36 \<Longrightarrow> digit_val (digit_cp d) = Some d"
  by (auto simp: digit_val_def digit_cp_def)

function nat_text :: "nat \<Rightarrow> nat \<Rightarrow> pystr" where
  "nat_text b n =
     (if b < 2 \<or> n < b then [digit_cp n] else nat_text b (n div b) @ [digit_cp (n mod b)])"
  by pat_completeness auto
termination
  by (relation "measure snd") auto

declare nat_text.simps [simp del]

text \<open>\<^verbatim>\<open>str(i)\<close>, and the zero-padded format \<^verbatim>\<open>f"{n:0{w}b}"\<close> of a nonnegative integer.\<close>

definition int_text :: "int \<Rightarrow> pystr" where
  "int_text i = (if i < 0 then u ''-'' @ nat_text 10 (nat (- i)) else nat_text 10 (nat i))"

definition zero_pad :: "nat \<Rightarrow> pystr \<Rightarrow> pystr" where
  "zero_pad w s = replicate (w - length s) 48 @ s"

text \<open>\<^verbatim>\<open>int(digits, base)\<close> for text that a regular expression has already accepted.\<close>

definition digits_val :: "nat \<Rightarrow> pystr \<Rightarrow> nat" where
  "digits_val b s = foldl (\<lambda>a c. a * b + (case digit_val c of None \<Rightarrow> 0 | Some d \<Rightarrow> d)) 0 s"

lemma digits_val_Nil [simp]: "digits_val b [] = 0"
  by (simp add: digits_val_def)

lemma digits_val_snoc [simp]:
  "digits_val b (s @ [c]) = digits_val b s * b + (case digit_val c of None \<Rightarrow> 0 | Some d \<Rightarrow> d)"
  by (simp add: digits_val_def)

lemma digits_val_nat_text: "2 \<le> b \<Longrightarrow> b \<le> 36 \<Longrightarrow> digits_val b (nat_text b n) = n"
proof (induction b n rule: nat_text.induct)
  case (1 b n)
  show ?case
  proof (cases "n < b")
    case True
    then show ?thesis
      using 1 digits_val_snoc [of b "[]" "digit_cp n"] by (subst nat_text.simps) simp
  next
    case False
    have "n mod b < 36" using 1(2,3) by (meson less_le_trans mod_less_divisor order.strict_trans2 zero_less_numeral)
    then show ?thesis
      using False 1 by (subst nat_text.simps) (simp add: mult.commute)
  qed
qed

lemma digits_val_replicate_0: "digits_val b (replicate k 48 @ s) = digits_val b s"
proof -
  have "foldl (\<lambda>a c. a * b + (case digit_val c of None \<Rightarrow> 0 | Some d \<Rightarrow> d)) 0 (replicate k 48) = 0"
    by (induction k) (simp_all add: digit_val_def)
  then show ?thesis by (simp add: digits_val_def)
qed

lemma digits_val_zero_pad:
  "2 \<le> b \<Longrightarrow> b \<le> 36 \<Longrightarrow> digits_val b (zero_pad w (nat_text b n)) = n"
  by (simp add: zero_pad_def digits_val_replicate_0 digits_val_nat_text)

lemma length_nat_text_le: "2 \<le> b \<Longrightarrow> 0 < w \<Longrightarrow> length (nat_text b n) \<le> w \<longleftrightarrow> n < b ^ w"
proof (induction b n arbitrary: w rule: nat_text.induct)
  case (1 b n)
  show ?case
  proof (cases "n < b")
    case True
    have "b ^ 1 \<le> b ^ w" using 1(2,3) by (intro power_increasing) auto
    with True have "n < b ^ w" by simp
    moreover have "length (nat_text b n) = 1" using True by (subst nat_text.simps) simp
    ultimately show ?thesis using 1(3) by simp
  next
    case False
    have len: "length (nat_text b n) = Suc (length (nat_text b (n div b)))"
      using False 1(2) by (subst nat_text.simps) simp
    have ne: "nat_text b (n div b) \<noteq> []" by (subst nat_text.simps) simp
    show ?thesis
    proof (cases "w = 1")
      case True
      with len ne False show ?thesis by simp
    next
      case w: False
      then obtain v where v: "w = Suc v" "0 < v" using 1(3) by (cases w) auto
      have "n div b < b ^ v \<longleftrightarrow> n < b ^ v * b"
        using 1(2) by (subst div_less_iff_less_mult) auto
      then show ?thesis using len v 1(1) [of v] 1(2) False by (simp add: mult.commute)
    qed
  qed
qed

lemma length_zero_pad: "2 \<le> b \<Longrightarrow> 0 < w \<Longrightarrow> n < b ^ w \<Longrightarrow> length (zero_pad w (nat_text b n)) = w"
  using length_nat_text_le [of b w n] by (simp add: zero_pad_def)

lemma nat_text_digits: "2 \<le> b \<Longrightarrow> c \<in> set (nat_text b n) \<Longrightarrow> \<exists>d. d < b \<and> c = digit_cp d"
proof (induction b n rule: nat_text.induct)
  case (1 b n)
  show ?case
  proof (cases "n < b")
    case True
    with 1(2,3) have "c = digit_cp n" by (simp add: nat_text.simps [of b n])
    with True show ?thesis by (intro exI [of _ n]) simp
  next
    case False
    with 1(2,3) have "c = digit_cp (n mod b) \<or> c \<in> set (nat_text b (n div b))"
      by (auto simp: nat_text.simps [of b n])
    moreover have "n mod b < b" using 1(2) by simp
    ultimately show ?thesis using 1(1) [OF _ 1(2)] False 1(2) by (metis not_less)
  qed
qed

lemma nat_text_inj: "2 \<le> b \<Longrightarrow> b \<le> 36 \<Longrightarrow> nat_text b m = nat_text b n \<longleftrightarrow> m = n"
  by (metis digits_val_nat_text)

section \<open>Stripping, case, replacement\<close>

text \<open>The code points \<^verbatim>\<open>str.strip\<close> removes (those with \<^verbatim>\<open>str.isspace\<close>).\<close>

definition is_space :: "nat \<Rightarrow> bool" where
  "is_space c \<longleftrightarrow>
     (9 \<le> c \<and> c \<le> 13) \<or> (28 \<le> c \<and> c \<le> 32) \<or> c = 133 \<or> c = 160 \<or> c = 5760
     \<or> (8192 \<le> c \<and> c \<le> 8202) \<or> c = 8232 \<or> c = 8233 \<or> c = 8239 \<or> c = 8287 \<or> c = 12288"

definition strip :: "pystr \<Rightarrow> pystr" where
  "strip s = rev (dropWhile is_space (rev (dropWhile is_space s)))"

definition ascii_lower :: "pystr \<Rightarrow> pystr" where
  "ascii_lower s = map (\<lambda>c. if 65 \<le> c \<and> c \<le> 90 then c + 32 else c) s"

definition starts_with :: "pystr \<Rightarrow> pystr \<Rightarrow> bool" where
  "starts_with p s \<longleftrightarrow> take (length p) s = p"

text \<open>\<^verbatim>\<open>s.replace(c, t)\<close> for a one-character pattern.\<close>

definition replace_cp :: "nat \<Rightarrow> pystr \<Rightarrow> pystr \<Rightarrow> pystr" where
  "replace_cp c t s = concat (map (\<lambda>x. if x = c then t else [x]) s)"

text \<open>The regular expression \<^verbatim>\<open>[A-Za-z_][A-Za-z0-9_]*\<close>.\<close>

definition is_variable :: "pystr \<Rightarrow> bool" where
  "is_variable s \<longleftrightarrow>
     (case s of [] \<Rightarrow> False
      | c # cs \<Rightarrow>
          (c = 95 \<or> (65 \<le> c \<and> c \<le> 90) \<or> (97 \<le> c \<and> c \<le> 122))
          \<and> (\<forall>d \<in> set cs. d = 95 \<or> (48 \<le> d \<and> d \<le> 57) \<or> (65 \<le> d \<and> d \<le> 90) \<or> (97 \<le> d \<and> d \<le> 122)))"

lemma length_strip_le: "length (strip s) \<le> length s"
  unfolding strip_def by (metis le_trans length_dropWhile_le length_rev)

lemma hd_dropWhile_not: "dropWhile P xs \<noteq> [] \<Longrightarrow> \<not> P (hd (dropWhile P xs))"
  by (rule hd_dropWhile)

lemma strip_Nil [simp]: "strip [] = []"
  by (simp add: strip_def)

lemma strip_idem [simp]: "strip (strip s) = strip s"
proof (cases "strip s = []")
  case False
  let ?t = "dropWhile is_space s"
  have r: "strip s = rev (dropWhile is_space (rev ?t))" by (simp add: strip_def)
  from False r have ne: "dropWhile is_space (rev ?t) \<noteq> []" by simp
  then have last: "\<not> is_space (last (strip s))"
    using r hd_dropWhile_not [OF ne] by (simp add: last_rev)
  obtain p where p: "rev ?t = p @ dropWhile is_space (rev ?t)"
    by (metis takeWhile_dropWhile_id)
  then have t: "?t = strip s @ rev p" using r by (metis rev_append rev_rev_ident)
  then have "hd ?t = hd (strip s)" using False by simp
  moreover have "?t \<noteq> []" using t False by simp
  ultimately have hd: "\<not> is_space (hd (strip s))" using hd_dropWhile_not [of is_space s] by simp
  have "dropWhile is_space (strip s) = strip s"
    using hd False by (cases "strip s") auto
  moreover have "dropWhile is_space (rev (strip s)) = rev (strip s)"
    using last False by (metis dropWhile_eq_self_iff hd_rev rev_is_Nil_conv)
  ultimately show ?thesis unfolding strip_def [of "strip s"] by simp
next
  case True
  then show ?thesis by simp
qed

section \<open>UTF-8 length\<close>

text \<open>
  \<^verbatim>\<open>len(s.encode("utf-8"))\<close>. A lone surrogate cannot be encoded: \<^verbatim>\<open>None\<close> is the
  \<^verbatim>\<open>UnicodeEncodeError\<close> the call raises.
\<close>

definition utf8_cp_len :: "nat \<Rightarrow> nat option" where
  "utf8_cp_len c =
     (if c < 128 then Some 1
      else if c < 2048 then Some 2
      else if 55296 \<le> c \<and> c \<le> 57343 then None
      else if c < 65536 then Some 3
      else Some 4)"

fun utf8_len :: "pystr \<Rightarrow> nat option" where
  "utf8_len [] = Some 0"
| "utf8_len (c # s) =
     (case utf8_cp_len c of None \<Rightarrow> None
      | Some k \<Rightarrow> (case utf8_len s of None \<Rightarrow> None | Some n \<Rightarrow> Some (k + n)))"

lemma utf8_len_append:
  "utf8_len (s @ t) =
     (case utf8_len s of None \<Rightarrow> None
      | Some m \<Rightarrow> (case utf8_len t of None \<Rightarrow> None | Some n \<Rightarrow> Some (m + n)))"
  by (induction s) (auto split: option.splits)

lemma utf8_len_ge_length: "utf8_len s = Some n \<Longrightarrow> length s \<le> n"
  by (induction s arbitrary: n) (auto simp: utf8_cp_len_def split: option.splits if_splits)

lemma utf8_len_ascii: "\<forall>c \<in> set s. c < 128 \<Longrightarrow> utf8_len s = Some (length s)"
  by (induction s) (auto simp: utf8_cp_len_def)

end
