(* ===== verification/Errors.thy ===== *)
theory Errors
  imports Py_Text
begin

text \<open>
  \<^verbatim>\<open>errors.py\<close> and \<^verbatim>\<open>sandbox_errors.py\<close>: the machine-actionable error contract. \<open>pyexn\<close> is every
  exception the modelled code raises or catches: \<^verbatim>\<open>CalculatorError\<close> with its code, message and
  details, \<^verbatim>\<open>CertificateValidationError\<close>, \<^verbatim>\<open>TransportBudgetError\<close> with its rule, and the built-in
  exceptions by class name.
\<close>

datatype pyexn =
    CalcError pystr pystr "pydict option"
  | CertError pystr
  | BudgetError pystr pystr
  | PyExn pystr pystr

definition calc :: "string \<Rightarrow> pystr \<Rightarrow> pyexn" where
  "calc code msg = CalcError (u code) msg None"

definition RETRYABLE_CODES :: "pystr list" where
  "RETRYABLE_CODES = [u ''E_OVERLOADED'', u ''E_RUNTIME'', u ''E_UNAVAILABLE'']"

definition INPUT_CODES :: "pystr list" where
  "INPUT_CODES =
     [u ''E_AST_BLOCK'', u ''E_DOMAIN'', u ''E_INPUT'', u ''E_LIMIT'', u ''E_NAME'',
      u ''E_OPERATION'', u ''E_SYNTAX'', u ''E_UNIT'']"

definition default_phase :: "pystr \<Rightarrow> pystr" where
  "default_phase code =
     (if code \<in> set INPUT_CODES then u ''input''
      else if code = u ''E_OUTPUT_LIMIT'' then u ''output''
      else if code = u ''E_CANCELLED'' then u ''cancellation''
      else if code = u ''E_MEMORY'' then u ''execution''
      else if code = u ''E_TIMEOUT'' then u ''execution''
      else if code \<in> {u ''E_OVERLOADED'', u ''E_UNAVAILABLE''} then u ''admission''
      else u ''execution'')"

definition default_action :: "pystr \<Rightarrow> pystr \<Rightarrow> pystr" where
  "default_action code phase =
     (if code = u ''E_OPERATION'' then u ''search_operation''
      else if code \<in> set INPUT_CODES then u ''correct_input''
      else if code \<in> {u ''E_OUTPUT_LIMIT'', u ''E_MEMORY''} then u ''reduce_request''
      else if code = u ''E_TIMEOUT'' then u ''split_or_reduce''
      else if code \<in> set RETRYABLE_CODES then u ''retry''
      else if code = u ''E_CANCELLED'' \<or> phase = u ''cancellation'' then u ''stop''
      else u ''stop'')"

text \<open>
  \<^verbatim>\<open>phase or (...)\<close> and \<^verbatim>\<open>suggested_action or ...\<close> also fall through on the empty text; the
  \<^verbatim>\<open>details\<close> item is added only for a non-empty dictionary.
\<close>

definition resolve_phase :: "pystr \<Rightarrow> pydict option \<Rightarrow> pystr option \<Rightarrow> pystr" where
  "resolve_phase code details phase =
     (let fallback =
        (case details of None \<Rightarrow> default_phase code
         | Some d \<Rightarrow> (case dget_none d (u ''phase'') of VStr s \<Rightarrow> s | _ \<Rightarrow> default_phase code))
      in case phase of None \<Rightarrow> fallback | Some p \<Rightarrow> (if p = [] then fallback else p))"

definition error_payload ::
  "pystr \<Rightarrow> pystr \<Rightarrow> pydict option \<Rightarrow> pystr option \<Rightarrow> int option \<Rightarrow> pystr option \<Rightarrow> pydict" where
  "error_payload code message details phase retry_after_ms suggested_action =
     (let resolved_phase = resolve_phase code details phase;
          action = (case suggested_action of None \<Rightarrow> default_action code resolved_phase
                    | Some a \<Rightarrow> (if a = [] then default_action code resolved_phase else a));
          payload =
            [(u ''code'', VStr code),
             (u ''message'', VStr message),
             (u ''retryable'', VBool (code \<in> set RETRYABLE_CODES)),
             (u ''phase'', VStr resolved_phase),
             (u ''suggestedAction'', VStr action)];
          payload = (case retry_after_ms of None \<Rightarrow> payload
                     | Some r \<Rightarrow> AList.update (u ''retryAfterMs'') (VInt (max 1 r)) payload)
      in case details of None \<Rightarrow> payload
         | Some d \<Rightarrow> (if d = [] then payload else AList.update (u ''details'') (VDict d) payload))"

text \<open>\<^verbatim>\<open>CalculatorError.as_dict\<close> and \<^verbatim>\<open>sandbox_errors._error\<close>.\<close>

definition as_dict :: "pystr \<Rightarrow> pystr \<Rightarrow> pydict option \<Rightarrow> pydict" where
  "as_dict code message details = error_payload code message details None None None"

definition error_envelope ::
  "pystr \<Rightarrow> pystr \<Rightarrow> pydict option \<Rightarrow> pystr option \<Rightarrow> int option \<Rightarrow> pystr option \<Rightarrow> pydict" where
  "error_envelope code message details phase retry_after_ms suggested_action =
     [(u ''status'', VStr (u ''error'')),
      (u ''error'', VDict (error_payload code message details phase retry_after_ms suggested_action))]"

text \<open>The envelope with no optional argument, by far the commonest call.\<close>

definition simple_error :: "string \<Rightarrow> pystr \<Rightarrow> pydict" where
  "simple_error code message = error_envelope (u code) message None None None None"

lemma error_payload_code [simp]:
  "map_of (error_payload c m d p r a) (u ''code'') = Some (VStr c)"
  by (simp add: error_payload_def Let_def update_conv' split: option.splits)

lemma error_payload_message [simp]:
  "map_of (error_payload c m d p r a) (u ''message'') = Some (VStr m)"
  by (simp add: error_payload_def Let_def update_conv' split: option.splits)

lemma error_payload_phase [simp]:
  "map_of (error_payload c m d p r a) (u ''phase'') = Some (VStr (resolve_phase c d p))"
  by (simp add: error_payload_def Let_def update_conv' split: option.splits)

lemma error_payload_retryable [simp]:
  "map_of (error_payload c m d p r a) (u ''retryable'') = Some (VBool (c \<in> set RETRYABLE_CODES))"
  by (simp add: error_payload_def Let_def update_conv' split: option.splits)

lemma error_payload_retry_after [simp]:
  "map_of (error_payload c m d p r a) (u ''retryAfterMs'')
     = map_option (\<lambda>r. VInt (max 1 r)) r"
  by (simp add: error_payload_def Let_def update_conv' split: option.splits)

lemma error_payload_action [simp]:
  "map_of (error_payload c m d p r None) (u ''suggestedAction'')
     = Some (VStr (default_action c (resolve_phase c d p)))"
  by (simp add: error_payload_def Let_def update_conv' split: option.splits)

lemma error_payload_keys: "distinct (map fst (error_payload c m d p r a))"
  by (simp add: error_payload_def Let_def distinct_update split: option.splits)

lemma default_action_retry_iff:
  "default_action code phase = u ''retry'' \<longleftrightarrow> code \<in> set RETRYABLE_CODES"
  by (auto simp: default_action_def RETRYABLE_CODES_def INPUT_CODES_def)

text \<open>
  Whatever optional arguments a caller passes, an error payload names its code, advertises
  \<^verbatim>\<open>retryable\<close> exactly for the retryable codes, never asks for a delay below one millisecond, and,
  unless the caller overrides the action, suggests \<^verbatim>\<open>retry\<close> exactly when \<^verbatim>\<open>retryable\<close> is true.
\<close>

theorem error_payload_contract:
  "map_of (error_payload code msg details phase retry action) (u ''code'') = Some (VStr code)
   \<and> map_of (error_payload code msg details phase retry action) (u ''retryable'')
       = Some (VBool (code \<in> set RETRYABLE_CODES))
   \<and> (\<nexists>ms. map_of (error_payload code msg details phase retry action) (u ''retryAfterMs'')
            = Some (VInt ms) \<and> ms < 1)
   \<and> (map_of (error_payload code msg details phase retry None) (u ''suggestedAction'')
        = Some (VStr (u ''retry''))
      \<longleftrightarrow> map_of (error_payload code msg details phase retry None) (u ''retryable'')
            = Some (VBool True))"
  by (auto simp: default_action_retry_iff)

end
