(* ===== verification/Json.thy ===== *)
theory Json
  imports Errors
begin

text \<open>
  The compact encoder \<^verbatim>\<open>json.dumps(..., ensure_ascii=False, separators=(",", ":"))\<close> of the standard
  library, with its two options the code uses (\<^verbatim>\<open>sort_keys\<close>, \<^verbatim>\<open>allow_nan\<close>), the canonical bytes and
  the digests built from it, and Python's \<^verbatim>\<open>==\<close> on decoded values. The interpreter is a record
  \<open>interp\<close> of what the code reads of it: \<^verbatim>\<open>float.__repr__\<close> on the finite floats, \<^verbatim>\<open>sha256\<close>'s
  hexadecimal digest, and the digit limit of \<^verbatim>\<open>str(int)\<close> and \<^verbatim>\<open>int(str)\<close>, which is 4300 in a
  fresh interpreter, 0 when lifted, and process-wide.
\<close>

section \<open>The interpreter\<close>

record interp =
  float_text :: "rat \<Rightarrow> pystr"
  sha256 :: "nat list \<Rightarrow> pystr"
  digit_limit :: nat

text \<open>\<^verbatim>\<open>str(i)\<close> and \<^verbatim>\<open>int(digits)\<close> raise a \<^verbatim>\<open>ValueError\<close> beyond the digit limit.\<close>

definition digits_allowed :: "interp \<Rightarrow> nat \<Rightarrow> bool" where
  "digits_allowed py n \<longleftrightarrow> digit_limit py = 0 \<or> n \<le> digit_limit py"

definition digit_limit_error :: pyexn where
  "digit_limit_error = PyExn (u ''ValueError'') (u ''Exceeds the limit for integer string conversion'')"

definition int_str :: "interp \<Rightarrow> int \<Rightarrow> pyexn + pystr" where
  "int_str py i =
     demand (digits_allowed py (length (nat_text 10 (nat \<bar>i\<bar>)))) digit_limit_error (Inr (int_text i))"

lemma int_str_Inr: "int_str py i = Inr t \<Longrightarrow> t = int_text i"
  by (simp add: int_str_def demand_eq_Inr)

section \<open>Encoding\<close>

definition json_escape_cp :: "nat \<Rightarrow> pystr" where
  "json_escape_cp c =
     (if c = 34 then [92, 34]
      else if c = 92 then [92, 92]
      else if c = 10 then [92, 110]
      else if c = 13 then [92, 114]
      else if c = 9 then [92, 116]
      else if c = 12 then [92, 102]
      else if c = 8 then [92, 98]
      else if c < 32 then
        [92, 117] @ zero_pad 4 (map (\<lambda>d. if 65 \<le> d then d + 32 else d) (nat_text 16 c))
      else [c])"

definition json_string :: "pystr \<Rightarrow> pystr" where
  "json_string s = [34] @ concat (map json_escape_cp s) @ [34]"

fun join :: "pystr \<Rightarrow> pystr list \<Rightarrow> pystr" where
  "join sep [] = []"
| "join sep [t] = t"
| "join sep (t # ts) = t @ sep @ join sep ts"

fun json_float :: "interp \<Rightarrow> bool \<Rightarrow> pyfloat \<Rightarrow> pyexn + pystr" where
  "json_float py allow_nan (FFin r) = Inr (float_text py r)"
| "json_float py allow_nan FNan =
     (if allow_nan then Inr (u ''NaN'')
      else Inl (PyExn (u ''ValueError'') (u ''Out of range float values are not JSON compliant'')))"
| "json_float py allow_nan (FInf neg) =
     (if allow_nan then Inr (if neg then u ''-Infinity'' else u ''Infinity'')
      else Inl (PyExn (u ''ValueError'') (u ''Out of range float values are not JSON compliant'')))"

definition item_order :: "bool \<Rightarrow> pydict \<Rightarrow> pydict" where
  "item_order sort_keys d = (if sort_keys then sort_key fst d else d)"

lemma set_item_order [simp]: "set (item_order b d) = set d"
  by (simp add: item_order_def)

lemma size_pyval_item: "(k, v) \<in> set d \<Longrightarrow> size v < Suc (size_list (size_prod (\<lambda>_. 0) size) d)"
  by (induction d) auto

lemma size_pyval_elem: "v \<in> set xs \<Longrightarrow> size v < Suc (size_list size xs)"
  by (induction xs) auto

function json_text :: "interp \<Rightarrow> bool \<Rightarrow> bool \<Rightarrow> pyval \<Rightarrow> pyexn + pystr" where
  "json_text py srt nan VNone = Inr (u ''null'')"
| "json_text py srt nan (VBool b) = Inr (if b then u ''true'' else u ''false'')"
| "json_text py srt nan (VInt i) = int_str py i"
| "json_text py srt nan (VFloat f) = json_float py nan f"
| "json_text py srt nan (VStr s) = Inr (json_string s)"
| "json_text py srt nan (VList xs) =
     rbind (rmap (json_text py srt nan) xs) (\<lambda>ts. Inr ([91] @ join [44] ts @ [93]))"
| "json_text py srt nan (VDict d) =
     rbind
       (rmap (\<lambda>kv. rbind (json_text py srt nan (snd kv)) (\<lambda>t. Inr (json_string (fst kv) @ [58] @ t)))
          (item_order srt d))
       (\<lambda>ts. Inr ([123] @ join [44] ts @ [125]))"
| "json_text py srt nan (VObj t) =
     Inl (PyExn (u ''TypeError'') (u ''Object of type '' @ t @ u '' is not JSON serializable''))"
  by pat_completeness auto
termination
  by (relation "measure (\<lambda>(_, _, _, v). size v)")
    (auto dest: size_pyval_item size_pyval_elem)

section \<open>UTF-8 bytes and digests\<close>

definition utf8_cp_bytes :: "nat \<Rightarrow> nat list option" where
  "utf8_cp_bytes c =
     (if c < 128 then Some [c]
      else if c < 2048 then Some [192 + c div 64, 128 + c mod 64]
      else if 55296 \<le> c \<and> c \<le> 57343 then None
      else if c < 65536 then Some [224 + c div 4096, 128 + c div 64 mod 64, 128 + c mod 64]
      else Some [240 + c div 262144, 128 + c div 4096 mod 64, 128 + c div 64 mod 64, 128 + c mod 64])"

fun utf8_bytes :: "pystr \<Rightarrow> nat list option" where
  "utf8_bytes [] = Some []"
| "utf8_bytes (c # s) =
     (case utf8_cp_bytes c of None \<Rightarrow> None
      | Some b \<Rightarrow> (case utf8_bytes s of None \<Rightarrow> None | Some bs \<Rightarrow> Some (b @ bs)))"

lemma utf8_len_bytes: "utf8_len s = map_option length (utf8_bytes s)"
  by (induction s) (auto simp: utf8_cp_len_def utf8_cp_bytes_def split: option.splits)

definition unicode_error :: pyexn where
  "unicode_error = PyExn (u ''UnicodeEncodeError'') (u ''surrogates not allowed'')"

definition encode_utf8 :: "pystr \<Rightarrow> pyexn + nat list" where
  "encode_utf8 s = (case utf8_bytes s of None \<Rightarrow> Inl unicode_error | Some b \<Rightarrow> Inr b)"

text \<open>\<^verbatim>\<open>_canonical_json\<close> (with sorted keys) and \<^verbatim>\<open>_digest\<close>.\<close>

definition canonical_json :: "interp \<Rightarrow> bool \<Rightarrow> pyval \<Rightarrow> pyexn + nat list" where
  "canonical_json py allow_nan v = rbind (json_text py True allow_nan v) encode_utf8"

definition digest_of :: "interp \<Rightarrow> bool \<Rightarrow> pyval \<Rightarrow> pyexn + pystr" where
  "digest_of py allow_nan v =
     rbind (canonical_json py allow_nan v) (\<lambda>b. Inr (u ''sha256:'' @ sha256 py b))"

text \<open>\<^verbatim>\<open>len(json.dumps(v, ...).encode())\<close>.\<close>

definition encoded_size :: "interp \<Rightarrow> pyval \<Rightarrow> pyexn + nat" where
  "encoded_size py v =
     rbind (json_text py False True v) (\<lambda>t. rbind (encode_utf8 t) (\<lambda>b. Inr (length b)))"

text \<open>\<^verbatim>\<open>_DIGEST.fullmatch\<close>: \<^verbatim>\<open>sha256:\<close> and 64 lower-case hexadecimal digits.\<close>

definition is_digest :: "pystr \<Rightarrow> bool" where
  "is_digest s \<longleftrightarrow>
     starts_with (u ''sha256:'') s \<and> length s = 71
     \<and> (\<forall>c \<in> set (drop 7 s). (48 \<le> c \<and> c \<le> 57) \<or> (97 \<le> c \<and> c \<le> 102))"

section \<open>Equality of decoded values\<close>

text \<open>
  Python's \<^verbatim>\<open>==\<close>: \<^verbatim>\<open>True == 1 == 1.0\<close>, dictionaries compare as mappings, whatever their order.
\<close>

fun num_val :: "pyval \<Rightarrow> rat option" where
  "num_val (VInt i) = Some (of_int i)"
| "num_val (VBool b) = Some (if b then 1 else 0)"
| "num_val (VFloat (FFin r)) = Some r"
| "num_val _ = None"

lemma size_pyval_map_of: "map_of d k = Some v \<Longrightarrow> size v < Suc (size_list (size_prod (\<lambda>_. 0) size) d)"
  by (auto dest: map_of_SomeD size_pyval_item)

function py_eq :: "pyval \<Rightarrow> pyval \<Rightarrow> bool" where
  "py_eq a b =
     (case (a, b) of
        (VNone, VNone) \<Rightarrow> True
      | (VStr s, VStr t) \<Rightarrow> s = t
      | (VFloat (FInf m), VFloat (FInf n)) \<Rightarrow> m = n
      | (VList xs, VList ys) \<Rightarrow>
          length xs = length ys \<and> list_all (\<lambda>i. py_eq (xs ! i) (ys ! i)) [0..<length xs]
      | (VDict d, VDict e) \<Rightarrow>
          length d = length e
          \<and> list_all (\<lambda>kv. case map_of e (fst kv) of None \<Rightarrow> False | Some w \<Rightarrow> py_eq (snd kv) w) d
      | _ \<Rightarrow> (case (num_val a, num_val b) of (Some x, Some y) \<Rightarrow> x = y | _ \<Rightarrow> False))"
  by pat_completeness auto
termination
  by (relation "measure (\<lambda>(a, _). size a)")
    (auto dest: size_pyval_item intro!: size_pyval_elem nth_mem)

declare py_eq.simps [simp del]

lemma py_eq_simps [simp]:
  "py_eq VNone VNone" "py_eq (VStr s) (VStr t) \<longleftrightarrow> s = t"
  "py_eq (VInt i) (VInt j) \<longleftrightarrow> i = j" "py_eq (VBool b) (VBool c) \<longleftrightarrow> b = c"
  "\<not> py_eq VNone (VStr s)" "\<not> py_eq (VStr s) VNone" "\<not> py_eq (VInt i) (VStr s)" "\<not> py_eq (VStr s) (VInt i)"
  by (subst py_eq.simps, simp)+

lemma py_eq_list:
  "py_eq (VList xs) (VList ys) \<longleftrightarrow> list_all2 py_eq xs ys"
  by (subst py_eq.simps) (auto simp: list_all2_conv_all_nth list_all_iff)

lemma case_option_False: "(case x of None \<Rightarrow> False | Some w \<Rightarrow> P w) \<longleftrightarrow> (\<exists>w. x = Some w \<and> P w)"
  by (cases x) auto

lemma py_eq_dict:
  "py_eq (VDict d) (VDict e) \<longleftrightarrow>
     length d = length e \<and> (\<forall>kv \<in> set d. \<exists>w. map_of e (fst kv) = Some w \<and> py_eq (snd kv) w)"
  by (subst py_eq.simps) (simp add: list_all_iff case_option_False)

text \<open>A value equals only a text of the same code points when the other side is a text.\<close>

lemma py_eq_str_iff: "py_eq a (VStr s) \<longleftrightarrow> a = VStr s"
  by (cases a) (auto simp: py_eq.simps split: pyfloat.splits)

end
