(* ===== verification/Output_Policy.thy ===== *)
theory Output_Policy
  imports Json "HOL-Library.Multiset"
begin

text \<open>
  \<^verbatim>\<open>output_policy.py\<close>: the projection of a result to the requested mode and the byte ceiling of what
  leaves the runtime. The code works on a deep copy in place; here each mutation is the updated
  dictionary.
\<close>

definition DEFAULT_RESULT_MODE :: pystr where "DEFAULT_RESULT_MODE = u ''auto''"

definition DEFAULT_MAX_OUTPUT_BYTES :: int where "DEFAULT_MAX_OUTPUT_BYTES = 64 * 1024"

definition DEFAULT_BATCH_MAX_OUTPUT_BYTES :: int where "DEFAULT_BATCH_MAX_OUTPUT_BYTES = 128 * 1024"

definition MIN_OUTPUT_BYTES :: int where "MIN_OUTPUT_BYTES = 1024"

definition MAX_OUTPUT_BYTES :: int where "MAX_OUTPUT_BYTES = 1048576"

definition RESULT_MODES :: "pystr list" where
  "RESULT_MODES = [u ''auto'', u ''exact'', u ''approx'', u ''both'']"

section \<open>Projection\<close>

definition has_key :: "pystr \<Rightarrow> pydict \<Rightarrow> bool" where
  "has_key k d \<longleftrightarrow> map_of d k \<noteq> None"

text \<open>
  \<^verbatim>\<open>_drop_redundant\<close> and \<^verbatim>\<open>_drop_all\<close>: the field of a dictionary is set to \<^verbatim>\<open>None\<close> before its values are
  visited, so the visit finds \<^verbatim>\<open>None\<close> there.
\<close>

function drop_redundant :: "pystr \<Rightarrow> pystr \<Rightarrow> pyval \<Rightarrow> pyval" where
  "drop_redundant fld counterpart (VDict d) =
     (let redundant = has_key fld d \<and> has_key counterpart d \<and> dget_none d counterpart \<noteq> VNone
      in VDict (map (\<lambda>kv. (fst kv,
           if redundant \<and> fst kv = fld then VNone else drop_redundant fld counterpart (snd kv))) d))"
| "drop_redundant fld counterpart (VList xs) = VList (map (drop_redundant fld counterpart) xs)"
| "drop_redundant fld counterpart VNone = VNone"
| "drop_redundant fld counterpart (VBool b) = VBool b"
| "drop_redundant fld counterpart (VInt i) = VInt i"
| "drop_redundant fld counterpart (VFloat f) = VFloat f"
| "drop_redundant fld counterpart (VStr s) = VStr s"
| "drop_redundant fld counterpart (VObj t) = VObj t"
  by pat_completeness auto
termination
  by (relation "measure (\<lambda>(_, _, v). size v)") (auto dest: size_pyval_item size_pyval_elem)

function drop_all :: "pystr \<Rightarrow> pyval \<Rightarrow> pyval" where
  "drop_all fld (VDict d) =
     VDict (map (\<lambda>kv. (fst kv, if fst kv = fld then VNone else drop_all fld (snd kv))) d)"
| "drop_all fld (VList xs) = VList (map (drop_all fld) xs)"
| "drop_all fld VNone = VNone"
| "drop_all fld (VBool b) = VBool b"
| "drop_all fld (VInt i) = VInt i"
| "drop_all fld (VFloat f) = VFloat f"
| "drop_all fld (VStr s) = VStr s"
| "drop_all fld (VObj t) = VObj t"
  by pat_completeness auto
termination
  by (relation "measure (\<lambda>(_, v). size v)") (auto dest: size_pyval_item size_pyval_elem)

text \<open>\<^verbatim>\<open>v in {...}\<close> for a set of texts: an unhashable value raises.\<close>

definition in_texts :: "pyval \<Rightarrow> pystr list \<Rightarrow> pyexn + bool" where
  "in_texts v ts =
     (if is_list v \<or> is_dict v then Inl (PyExn (u ''TypeError'') (u ''unhashable type''))
      else Inr (v \<in> VStr ` set ts))"

fun as_dict_of :: "pyval \<Rightarrow> pydict" where
  "as_dict_of (VDict d) = d"
| "as_dict_of _ = []"

text \<open>The first part of \<^verbatim>\<open>apply_output_policy\<close>: the projected result and its size.\<close>

definition project_result :: "interp \<Rightarrow> pydict \<Rightarrow> pystr \<Rightarrow> int \<Rightarrow> pyexn + (pydict \<times> nat)" where
  "project_result py result result_mode max_output_bytes =
     rbind (in_texts (dget_none result (u ''status'')) [u ''ok'', u ''uncertain'']) (\<lambda>succeeded.
     let selected =
       (if succeeded \<and> result_mode = u ''exact''
        then as_dict_of (drop_redundant (u ''approx'') (u ''exact'') (VDict result))
        else if succeeded \<and> result_mode = u ''approx''
        then as_dict_of (drop_all (u ''exact'') (VDict result))
        else result)
     in rbind (encoded_size py (VDict selected)) (\<lambda>bytes.
       if succeeded \<and> result_mode = u ''auto'' \<and> int bytes > max_output_bytes
       then
         (let selected = as_dict_of (drop_redundant (u ''approx'') (u ''exact'') (VDict selected))
          in rbind (encoded_size py (VDict selected)) (\<lambda>bytes. Inr (selected, bytes)))
       else Inr (selected, bytes)))"

section \<open>The byte ceiling\<close>

text \<open>The attempts of \<^verbatim>\<open>_trim_error_envelope\<close> at shorter messages; 8230 is the ellipsis.\<close>

fun trim_message ::
  "interp \<Rightarrow> pydict \<Rightarrow> pydict \<Rightarrow> pystr \<Rightarrow> int \<Rightarrow> nat list \<Rightarrow> pyexn + pydict option" where
  "trim_message py selected error message max_output_bytes [] = Inr None"
| "trim_message py selected error message max_output_bytes (limit # limits) =
     (let shorter = take limit message @ (if limit = 0 then [] else [8230]);
          selected = AList.update (u ''error'')
            (VDict (AList.update (u ''message'') (VStr shorter) error)) selected
      in rbind (encoded_size py (VDict selected)) (\<lambda>bytes.
           if int bytes \<le> max_output_bytes then Inr (Some selected)
           else trim_message py selected error message max_output_bytes limits))"

definition trim_error_envelope :: "interp \<Rightarrow> pydict \<Rightarrow> int \<Rightarrow> pyexn + pydict option" where
  "trim_error_envelope py selected max_output_bytes =
     (case dget_none selected (u ''error'') of
        VDict error \<Rightarrow>
          (let error = AList.delete (u ''details'') error;
               selected = AList.update (u ''error'') (VDict error) selected
           in rbind (encoded_size py (VDict selected)) (\<lambda>bytes.
                if int bytes \<le> max_output_bytes then Inr (Some selected)
                else
                  (case dget_none error (u ''message'') of
                     VStr message \<Rightarrow>
                       (if message = [] then Inr None
                        else trim_message py selected error message max_output_bytes
                               [512, 256, 128, 64, 32, 16, 8, 0])
                   | _ \<Rightarrow> Inr None)))
      | _ \<Rightarrow> Inr None)"

definition output_limit_error :: "nat \<Rightarrow> pystr \<Rightarrow> int \<Rightarrow> pydict" where
  "output_limit_error bytes result_mode max_output_bytes =
     [(u ''status'', VStr (u ''error'')),
      (u ''error'', VDict (error_payload (u ''E_OUTPUT_LIMIT'')
         (u ''result requires '' @ int_text (int bytes) @ u '' bytes after applying resultMode='' @ result_mode
          @ u ''; increase maxOutputBytes or request a smaller result'')
         (Some [(u ''bytes'', VInt (int bytes)), (u ''maxOutputBytes'', VInt max_output_bytes),
                (u ''resultMode'', VStr result_mode)])
         None None None))]"

definition apply_output_policy :: "interp \<Rightarrow> pydict \<Rightarrow> pystr \<Rightarrow> int \<Rightarrow> pyexn + pydict" where
  "apply_output_policy py result result_mode max_output_bytes =
     rbind (project_result py result result_mode max_output_bytes) (\<lambda>(selected, bytes).
       if int bytes \<le> max_output_bytes then Inr selected
       else
         rbind (if py_eq (dget_none result (u ''status'')) (VStr (u ''error''))
                then trim_error_envelope py selected max_output_bytes else Inr None) (\<lambda>trimmed.
           case trimmed of
             Some t \<Rightarrow> Inr t
           | None \<Rightarrow> Inr (output_limit_error bytes result_mode max_output_bytes)))"

section \<open>Sizes of plain texts\<close>

definition plain :: "pystr \<Rightarrow> bool" where
  "plain s \<longleftrightarrow> (\<forall>c \<in> set s. 32 \<le> c \<and> c < 127 \<and> c \<noteq> 34 \<and> c \<noteq> 92)"

lemma plain_append [simp]: "plain (s @ t) \<longleftrightarrow> plain s \<and> plain t"
  by (auto simp: plain_def)

lemma json_string_plain: "plain s \<Longrightarrow> json_string s = [34] @ s @ [34]"
proof -
  assume "plain s"
  then have "concat (map json_escape_cp s) = s"
    by (induction s) (auto simp: plain_def json_escape_cp_def)
  then show ?thesis by (simp add: json_string_def)
qed

text \<open>
  An upper bound of the length of the compact text of a tidy value: plain texts, printable integers, no
  floats.
\<close>

fun cost :: "pyval \<Rightarrow> nat" where
  "cost (VStr s) = length s + 2"
| "cost (VInt i) = length (int_text i)"
| "cost (VList xs) = 2 + sum_list (map (\<lambda>x. Suc (cost x)) xs)"
| "cost (VDict d) = 2 + sum_list (map (\<lambda>kv. length (fst kv) + 4 + cost (snd kv)) d)"
| "cost _ = 5"

fun tidy :: "interp \<Rightarrow> pyval \<Rightarrow> bool" where
  "tidy py (VStr s) \<longleftrightarrow> plain s"
| "tidy py (VInt i) \<longleftrightarrow> digits_allowed py (length (nat_text 10 (nat \<bar>i\<bar>)))"
| "tidy py (VList xs) \<longleftrightarrow> list_all (tidy py) xs"
| "tidy py (VDict d) \<longleftrightarrow> list_all (\<lambda>kv. plain (fst kv) \<and> tidy py (snd kv)) d"
| "tidy py (VFloat _) \<longleftrightarrow> False"
| "tidy py (VObj _) \<longleftrightarrow> False"
| "tidy py _ \<longleftrightarrow> True"

definition ascii_text :: "pystr \<Rightarrow> bool" where
  "ascii_text t \<longleftrightarrow> (\<forall>c \<in> set t. c < 128)"

lemma ascii_text_simps [simp]:
  "ascii_text []" "ascii_text (c # t) \<longleftrightarrow> c < 128 \<and> ascii_text t" "ascii_text (s @ t) \<longleftrightarrow> ascii_text s \<and> ascii_text t"
  by (auto simp: ascii_text_def)

lemma plain_ascii [simp]: "plain s \<Longrightarrow> ascii_text s"
  by (auto simp: plain_def ascii_text_def)

lemma int_text_plain [simp]: "plain (int_text i)"
proof -
  have "plain (nat_text 10 n)" for n
    using nat_text_digits [of 10 _ n] by (fastforce simp: plain_def digit_cp_def)
  then show ?thesis by (simp add: int_text_def) (simp add: plain_def u_def)
qed

lemma ascii_join: "ascii_text sep \<Longrightarrow> list_all ascii_text ts \<Longrightarrow> ascii_text (join sep ts)"
  by (induction sep ts rule: join.induct) auto

lemma length_join: "length (join [c] ts) \<le> sum_list (map (\<lambda>t. Suc (length t)) ts)"
  by (induction "[c]" ts rule: join.induct) auto

lemma rmap_bounded:
  assumes "\<And>x. x \<in> set xs \<Longrightarrow> \<exists>t. f x = Inr t \<and> ascii_text t \<and> length t \<le> g x"
  shows "\<exists>ts. rmap f xs = Inr ts \<and> list_all ascii_text ts
    \<and> sum_list (map (\<lambda>t. Suc (length t)) ts) \<le> sum_list (map (\<lambda>x. Suc (g x)) xs)"
  using assms
proof (induction xs)
  case (Cons x xs)
  then obtain t ts where "f x = Inr t" "ascii_text t" "length t \<le> g x" "rmap f xs = Inr ts" "list_all ascii_text ts"
    "sum_list (map (\<lambda>t. Suc (length t)) ts) \<le> sum_list (map (\<lambda>x. Suc (g x)) xs)" by force
  then show ?case by (intro exI [of _ "t # ts"]) simp
qed simp

lemma sum_item_order: "sum_list (map (g :: _ \<Rightarrow> nat) (item_order srt d)) = sum_list (map g d)"
proof -
  have "mset (item_order srt d) = mset d" by (simp add: item_order_def)
  then have "image_mset g (mset (item_order srt d)) = image_mset g (mset d)" by simp
  then show ?thesis by (metis mset_map sum_mset_sum_list)
qed

lemma tidy_json:
  "tidy py v \<Longrightarrow> \<exists>t. json_text py srt nan v = Inr t \<and> ascii_text t \<and> length t \<le> cost v"
proof (induction v rule: cost.induct)
  case (3 xs)
  then obtain ts where "rmap (json_text py srt nan) xs = Inr ts" "list_all ascii_text ts"
    "sum_list (map (\<lambda>t. Suc (length t)) ts) \<le> sum_list (map (\<lambda>x. Suc (cost x)) xs)"
    using rmap_bounded [of xs "json_text py srt nan" cost] by (auto simp: list_all_iff)
  then show ?case using length_join [of 44 ts] ascii_join [of "[44]" ts] by simp
next
  case (4 d)
  let ?f = "\<lambda>kv. rbind (json_text py srt nan (snd kv)) (\<lambda>t. Inr (json_string (fst kv) @ [58] @ t))"
  have "\<exists>t. ?f kv = Inr t \<and> ascii_text t \<and> length t \<le> length (fst kv) + 3 + cost (snd kv)"
    if "kv \<in> set (item_order srt d)" for kv
    using 4 that by (fastforce simp: list_all_iff json_string_plain)
  from rmap_bounded [of "item_order srt d" ?f, OF this] obtain ts where
    "rmap ?f (item_order srt d) = Inr ts" "list_all ascii_text ts"
    "sum_list (map (\<lambda>t. Suc (length t)) ts)
       \<le> sum_list (map (\<lambda>kv. Suc (length (fst kv) + 3 + cost (snd kv))) (item_order srt d))"
    by blast
  moreover have "(\<lambda>kv. Suc (length (fst kv) + 3 + cost (snd kv))) = (\<lambda>kv :: pystr \<times> pyval. length (fst kv) + 4 + cost (snd kv))"
    by (rule ext) simp
  ultimately have "rmap ?f (item_order srt d) = Inr ts" "list_all ascii_text ts"
    "sum_list (map (\<lambda>t. Suc (length t)) ts) \<le> sum_list (map (\<lambda>kv. length (fst kv) + 4 + cost (snd kv)) d)"
    by (simp_all add: sum_item_order)
  then show ?case using length_join [of 44 ts] ascii_join [of "[44]" ts] by simp
qed (auto simp: json_string_plain int_str_def u_def)

lemma tidy_canonical:
  assumes "tidy py v"
  shows "\<exists>b. canonical_json py nan v = Inr b \<and> length b \<le> cost v"
proof -
  obtain t where t: "json_text py True nan v = Inr t" "ascii_text t" "length t \<le> cost v"
    using tidy_json [OF assms] by blast
  have "map_option length (utf8_bytes t) = Some (length t)"
    using utf8_len_ascii [of t] t(2) by (simp add: utf8_len_bytes ascii_text_def)
  then show ?thesis using t by (auto simp: canonical_json_def encode_utf8_def)
qed

lemma tidy_encoded_text:
  assumes "tidy py v"
  shows "\<exists>t. json_text py False True v = Inr t \<and> encoded_size py v = Inr (length t) \<and> length t \<le> cost v"
proof -
  obtain t where t: "json_text py False True v = Inr t" "ascii_text t" "length t \<le> cost v"
    using tidy_json [OF assms] by blast
  have "map_option length (utf8_bytes t) = Some (length t)"
    using utf8_len_ascii [of t] t(2) by (simp add: utf8_len_bytes ascii_text_def)
  then show ?thesis using t by (auto simp: encoded_size_def encode_utf8_def)
qed

lemma tidy_encoded: "tidy py v \<Longrightarrow> \<exists>m. encoded_size py v = Inr m \<and> m \<le> cost v"
  using tidy_encoded_text by blast

definition sane_interp :: "interp \<Rightarrow> bool" where
  "sane_interp py \<longleftrightarrow> digit_limit py = 0 \<or> 640 \<le> digit_limit py"

lemma int_text_length:
  assumes "\<bar>i\<bar> < 10 ^ k" and "0 < k"
  shows "length (int_text i) \<le> Suc k" and "length (nat_text 10 (nat \<bar>i\<bar>)) \<le> k"
proof -
  have "nat \<bar>i\<bar> < 10 ^ k" using assms(1) by (simp add: nat_less_iff)
  then show "length (nat_text 10 (nat \<bar>i\<bar>)) \<le> k"
    using length_nat_text_le [of 10 k "nat \<bar>i\<bar>"] assms(2) by simp
  then show "length (int_text i) \<le> Suc k"
    by (auto simp: int_text_def split: if_splits)
qed

lemma sane_digits: "sane_interp py \<Longrightarrow> n \<le> 640 \<Longrightarrow> digits_allowed py n"
  by (auto simp: sane_interp_def digits_allowed_def)

lemma plain_lit:
  "list_all (\<lambda>c. 32 \<le> (of_char c :: nat) \<and> of_char c < (127 :: nat) \<and> of_char c \<noteq> (34 :: nat)
     \<and> of_char c \<noteq> (92 :: nat)) s \<Longrightarrow> plain (u s)"
  by (auto simp: plain_def u_def list_all_iff)

lemma output_limit_error_sized:
  assumes "sane_interp py" and "bytes < 10 ^ 250" and "mode \<in> set RESULT_MODES" and "0 \<le> m" "m < 10 ^ 8"
  shows "\<exists>n. encoded_size py (VDict (output_limit_error bytes mode m)) = Inr n \<and> n \<le> 1024"
proof -
  have mode: "plain mode" "length mode \<le> 6"
    using assms(3) by (auto simp: RESULT_MODES_def plain_def u_def)
  have b: "\<bar>int bytes\<bar> < 10 ^ 250"
    using assms(2) by (metis abs_of_nat of_nat_less_numeral_power_cancel_iff)
  have m: "\<bar>m\<bar> < 10 ^ 8" using assms(4,5) by simp
  note lens = int_text_length [OF b] int_text_length [OF m]
  have "tidy py (VDict (output_limit_error bytes mode m))"
    using lens mode sane_digits [OF assms(1)]
    by (simp add: output_limit_error_def error_payload_def Let_def resolve_phase_def default_phase_def default_action_def
       INPUT_CODES_def dget_none_def dget_def plain_lit)
  moreover have "cost (VDict (output_limit_error bytes mode m)) \<le> 1024"
    using lens mode
    by (simp add: output_limit_error_def error_payload_def Let_def resolve_phase_def default_phase_def default_action_def
       INPUT_CODES_def dget_none_def dget_def)
  ultimately show ?thesis using tidy_encoded by (meson le_trans)
qed

section \<open>The ceiling holds\<close>

lemma project_size: "project_result py result mode m = Inr (sel, n) \<Longrightarrow> encoded_size py (VDict sel) = Inr n"
  by (auto simp: project_result_def Let_def rbind_eq_Inr split: if_splits)

lemma trim_message_size:
  "trim_message py sel err msg m ls = Inr (Some t) \<Longrightarrow> \<exists>n. encoded_size py (VDict t) = Inr n \<and> int n \<le> m"
proof (induction ls arbitrary: sel)
  case (Cons l ls)
  obtain sel' n where step: "encoded_size py (VDict sel') = Inr n"
      "(if int n \<le> m then Inr (Some sel') else trim_message py sel' err msg m ls) = Inr (Some t)"
    using Cons.prems unfolding trim_message.simps Let_def rbind_eq_Inr by blast
  show ?case
  proof (cases "int n \<le> m")
    case True
    then show ?thesis using step by simp
  next
    case False
    then show ?thesis using step(2) Cons.IH [of sel'] by simp
  qed
qed simp

lemma trim_size:
  "trim_error_envelope py sel m = Inr (Some t) \<Longrightarrow> \<exists>n. encoded_size py (VDict t) = Inr n \<and> int n \<le> m"
proof (cases "dget_none sel (u ''error'')")
  case (VDict err)
  define sel' where "sel' = AList.update (u ''error'') (VDict (AList.delete (u ''details'') err)) sel"
  assume "trim_error_envelope py sel m = Inr (Some t)"
  then obtain n where n: "encoded_size py (VDict sel') = Inr n"
    and t: "(if int n \<le> m then Inr (Some sel')
             else case dget_none (AList.delete (u ''details'') err) (u ''message'') of
                    VStr msg \<Rightarrow> if msg = [] then Inr None
                      else trim_message py sel' (AList.delete (u ''details'') err) msg m [512, 256, 128, 64, 32, 16, 8, 0]
                  | _ \<Rightarrow> Inr None) = Inr (Some t)"
    unfolding trim_error_envelope_def Let_def VDict pyval.case rbind_eq_Inr sel'_def by blast
  show ?thesis
  proof (cases "int n \<le> m")
    case True
    then show ?thesis using n t by simp
  next
    case False
    then show ?thesis
      using t trim_message_size by (auto simp del: trim_message.simps split: pyval.splits if_splits)
  qed
qed (simp_all add: trim_error_envelope_def)

lemma over_ceiling:
  assumes "apply_output_policy py result mode maxb = Inr r"
    and "project_result py result mode maxb = Inr (selected, n)" and "\<not> int n \<le> maxb"
  shows "\<exists>t. (t = None \<or> trim_error_envelope py selected maxb = Inr t)
    \<and> r = (case t of Some x \<Rightarrow> x | None \<Rightarrow> output_limit_error n mode maxb)"
proof -
  have "rbind (if py_eq (dget_none result (u ''status'')) (VStr (u ''error''))
               then trim_error_envelope py selected maxb else Inr None)
          (\<lambda>t. case t of Some x \<Rightarrow> Inr x | None \<Rightarrow> Inr (output_limit_error n mode maxb)) = Inr r"
    using assms by (simp add: apply_output_policy_def)
  then obtain t where "(if py_eq (dget_none result (u ''status'')) (VStr (u ''error''))
      then trim_error_envelope py selected maxb else Inr None) = Inr t"
    "(case t of Some x \<Rightarrow> Inr x | None \<Rightarrow> Inr (output_limit_error n mode maxb)) = (Inr r :: pyexn + pydict)"
    unfolding rbind_eq_Inr by blast
  then show ?thesis by (intro exI [of _ t]) (auto split: option.splits if_splits)
qed

text \<open>
  C32: The byte ceiling holds whatever the result: if the policy returns, what it returns encodes to at
  most \<^verbatim>\<open>maxOutputBytes\<close> bytes, including the error that says the result was too large, which always
  fits the smallest ceiling a caller may ask for. (\<open>10^250\<close> bounds the measured size.)
\<close>

theorem output_within_ceiling:
  assumes "apply_output_policy py result mode maxb = Inr r" and "sane_interp py"
    and "mode \<in> set RESULT_MODES" and "MIN_OUTPUT_BYTES \<le> maxb" and "maxb \<le> MAX_OUTPUT_BYTES"
    and "project_result py result mode maxb = Inr (selected, n)" and "n < 10 ^ 250"
  shows "\<exists>m. encoded_size py (VDict r) = Inr m \<and> int m \<le> maxb"
proof (cases "int n \<le> maxb")
  case True
  then have "r = selected" using assms(1,6) by (simp add: apply_output_policy_def)
  then show ?thesis using project_size [OF assms(6)] True by simp
next
  case False
  obtain t where t: "t = None \<or> trim_error_envelope py selected maxb = Inr t"
    "r = (case t of Some x \<Rightarrow> x | None \<Rightarrow> output_limit_error n mode maxb)"
    using over_ceiling [OF assms(1,6) False] by blast
  show ?thesis
  proof (cases t)
    case None
    have "0 \<le> maxb" "maxb < 10 ^ 8" "1024 \<le> maxb"
      using assms(4,5) by (auto simp: MIN_OUTPUT_BYTES_def MAX_OUTPUT_BYTES_def)
    then show ?thesis
      using output_limit_error_sized [OF assms(2,7,3), of maxb] t(2) None by fastforce
  next
    case (Some x)
    then show ?thesis using t trim_size by auto
  qed
qed

section \<open>Errors keep their code\<close>

definition bare_payload :: "pystr \<Rightarrow> pystr \<Rightarrow> pystr \<Rightarrow> pystr \<Rightarrow> int option \<Rightarrow> pydict" where
  "bare_payload code message phase action retry =
     [(u ''code'', VStr code), (u ''message'', VStr message),
      (u ''retryable'', VBool (code \<in> set RETRYABLE_CODES)), (u ''phase'', VStr phase),
      (u ''suggestedAction'', VStr action)]
     @ (case retry of None \<Rightarrow> [] | Some r \<Rightarrow> [(u ''retryAfterMs'', VInt (max 1 r))])"

lemma delete_details:
  "AList.delete (u ''details'') (error_payload code msg details phase retry None)
     = bare_payload code msg (resolve_phase code details phase)
         (default_action code (resolve_phase code details phase)) retry"
  by (simp add: error_payload_def Let_def bare_payload_def AList.delete_eq split: option.splits)

lemma bare_payload_message:
  "dget_none (bare_payload code msg phase action retry) (u ''message'') = VStr msg"
  "AList.update (u ''message'') (VStr m) (bare_payload code msg phase action retry)
     = bare_payload code m phase action retry"
  by (simp_all add: bare_payload_def dget_none_def dget_def split: option.splits)

lemma default_action_plain: "plain (default_action code phase) \<and> length (default_action code phase) \<le> 16"
  by (simp add: default_action_def plain_lit)

definition envelope :: "pydict \<Rightarrow> pydict" where
  "envelope payload = [(u ''status'', VStr (u ''error'')), (u ''error'', VDict payload)]"

lemma empty_message_sized:
  assumes "sane_interp py" and "plain code" "length code \<le> 64" and "plain phase" "length phase \<le> 64"
    and "\<forall>r. retry = Some r \<longrightarrow> r < 10 ^ 18"
  shows "\<exists>n. encoded_size py (VDict (envelope (bare_payload code [] phase (default_action c p) retry))) = Inr n
    \<and> n \<le> 1024"
proof -
  let ?v = "VDict (envelope (bare_payload code [] phase (default_action c p) retry))"
  have num: "length (int_text (max 1 r)) \<le> 19" "length (nat_text 10 (nat \<bar>max 1 r\<bar>)) \<le> 18" if "retry = Some r" for r
    using int_text_length [of "max 1 r" 18] assms(6) that by auto
  have "tidy py ?v"
    using assms num(2) sane_digits [OF assms(1)] default_action_plain [of c p]
    by (auto simp: envelope_def bare_payload_def plain_lit plain_def [of "[]"] split: option.splits)
  moreover have "cost ?v \<le> 1024"
    using assms num(1) default_action_plain [of c p]
    by (auto simp: envelope_def bare_payload_def split: option.splits)
  ultimately show ?thesis using tidy_encoded by (meson le_trans)
qed

lemma trim_message_envelope:
  "trim_message py (envelope (bare_payload code m' phase action retry)) (bare_payload code m phase action retry) msg maxb ls
     = Inr t \<Longrightarrow>
   \<exists>n. encoded_size py (VDict (envelope (bare_payload code [] phase action retry))) = Inr n \<and> int n \<le> maxb \<Longrightarrow>
   0 \<in> set ls \<Longrightarrow> \<exists>x. t = Some (envelope (bare_payload code x phase action retry))"
proof (induction ls arbitrary: m')
  case (Cons l ls)
  let ?x = "take l msg @ (if l = 0 then [] else [8230])"
  have shorter: "AList.update (u ''error'')
      (VDict (AList.update (u ''message'') (VStr x) (bare_payload code m phase action retry)))
      (envelope (bare_payload code m' phase action retry)) = envelope (bare_payload code x phase action retry)" for x m'
    by (simp add: bare_payload_message envelope_def)
  obtain n where n: "encoded_size py (VDict (envelope (bare_payload code ?x phase action retry))) = Inr n"
    and t: "(if int n \<le> maxb then Inr (Some (envelope (bare_payload code ?x phase action retry)))
             else trim_message py (envelope (bare_payload code ?x phase action retry))
                    (bare_payload code m phase action retry) msg maxb ls) = Inr t"
    using Cons.prems(1) unfolding trim_message.simps Let_def rbind_eq_Inr shorter by blast
  show ?case
  proof (cases "int n \<le> maxb")
    case True
    then show ?thesis using t by auto
  next
    case False
    moreover have "0 \<in> set ls"
    proof (rule ccontr)
      assume "0 \<notin> set ls"
      then have "l = 0" using Cons.prems(3) by simp
      then show False using n Cons.prems(2) False by auto
    qed
    ultimately show ?thesis using Cons.IH t Cons.prems(2) by auto
  qed
qed simp

text \<open>
  However long its message and however large its details, an error that leaves through the policy is
  still that error: same code, phase, action, retryability and retry delay. Only the message may be shortened and
  the details dropped; it is never replaced by \<^verbatim>\<open>E_OUTPUT_LIMIT\<close>, because without message and details it
  fits the smallest ceiling (codes and phases of the runtime have at most 64 plain characters).
\<close>

theorem error_keeps_its_code:
  assumes "apply_output_policy py (error_envelope code msg details phase retry None) mode maxb = Inr r"
    and "sane_interp py" and "MIN_OUTPUT_BYTES \<le> maxb"
    and "plain code" "length code \<le> 64"
    and "plain (resolve_phase code details phase)" "length (resolve_phase code details phase) \<le> 64"
    and "\<forall>ms. retry = Some ms \<longrightarrow> ms < 10 ^ 18"
  shows "r = error_envelope code msg details phase retry None
    \<or> (\<exists>x. r = [(u ''status'', VStr (u ''error'')),
        (u ''error'', VDict (AList.delete (u ''details'') (error_payload code x details phase retry None)))])"
proof -
  let ?phase = "resolve_phase code details phase"
  let ?bare = "\<lambda>x. bare_payload code x ?phase (default_action code ?phase) retry"
  let ?orig = "error_envelope code msg details phase retry None"
  have status: "dget_none ?orig (u ''status'') = VStr (u ''error'')"
    by (simp add: error_envelope_def dget_none_def dget_def)
  have "in_texts (VStr (u ''error'')) [u ''ok'', u ''uncertain''] = Inr False"
    by (auto simp: in_texts_def)
  then obtain n where n: "encoded_size py (VDict ?orig) = Inr n"
    and r: "(if int n \<le> maxb then Inr ?orig
             else rbind (trim_error_envelope py ?orig maxb)
               (\<lambda>trimmed. case trimmed of Some t \<Rightarrow> Inr t
                  | None \<Rightarrow> Inr (output_limit_error n mode maxb))) = Inr r"
    using assms(1) by (auto simp: apply_output_policy_def project_result_def status Let_def rbind_eq_Inr
        cong: if_cong simp del: trim_message.simps)
  obtain e where e: "encoded_size py (VDict (envelope (?bare []))) = Inr e" "int e \<le> maxb"
    using empty_message_sized [OF assms(2,4,5,6,7,8), of code ?phase] assms(3)
    by (auto simp: MIN_OUTPUT_BYTES_def)
  show ?thesis
  proof (cases "int n \<le> maxb")
    case True
    then show ?thesis using r by simp
  next
    case False
    then obtain t where t: "trim_error_envelope py ?orig maxb = Inr t"
      and rt: "r = (case t of Some x \<Rightarrow> x | None \<Rightarrow> output_limit_error n mode maxb)"
      using r by (auto simp: rbind_eq_Inr split: option.splits)
    have step: "trim_error_envelope py ?orig maxb =
        rbind (encoded_size py (VDict (envelope (?bare msg)))) (\<lambda>b.
          if int b \<le> maxb then Inr (Some (envelope (?bare msg)))
          else if msg = [] then Inr None
          else trim_message py (envelope (?bare msg)) (?bare msg) msg maxb [512, 256, 128, 64, 32, 16, 8, 0])"
      by (simp add: trim_error_envelope_def error_envelope_def dget_none_def dget_def envelope_def delete_details
          bare_payload_message [unfolded dget_none_def dget_def] Let_def cong: if_cong del: trim_message.simps)
    have "\<exists>x. t = Some (envelope (?bare x))"
    proof -
      obtain b where b: "encoded_size py (VDict (envelope (?bare msg))) = Inr b"
        using t step by (auto simp: rbind_eq_Inr)
      consider "int b \<le> maxb" | "\<not> int b \<le> maxb" "msg \<noteq> []"
        using b e by fastforce
      then show ?thesis
      proof cases
        case 1
        then show ?thesis using t step b by auto
      next
        case 2
        then have "trim_message py (envelope (?bare msg)) (?bare msg) msg maxb [512, 256, 128, 64, 32, 16, 8, 0] = Inr t"
          using t step b by simp
        from trim_message_envelope [OF this] show ?thesis using e by simp
      qed
    qed
    then show ?thesis using rt by (auto simp: envelope_def delete_details)
  qed
qed

section \<open>Result modes\<close>

text \<open>No dictionary of the value still shows an approximation beside an exact value.\<close>

fun no_redundant :: "pystr \<Rightarrow> pystr \<Rightarrow> pyval \<Rightarrow> bool" where
  "no_redundant fld counterpart (VDict d) \<longleftrightarrow>
     (dget_none d counterpart = VNone \<or> dget_none d fld = VNone)
     \<and> list_all (\<lambda>kv. no_redundant fld counterpart (snd kv)) d"
| "no_redundant fld counterpart (VList xs) \<longleftrightarrow> list_all (no_redundant fld counterpart) xs"
| "no_redundant _ _ _ \<longleftrightarrow> True"

fun nowhere :: "pystr \<Rightarrow> pyval \<Rightarrow> bool" where
  "nowhere fld (VDict d) \<longleftrightarrow> list_all (\<lambda>kv. (fst kv = fld \<longrightarrow> snd kv = VNone) \<and> nowhere fld (snd kv)) d"
| "nowhere fld (VList xs) \<longleftrightarrow> list_all (nowhere fld) xs"
| "nowhere _ _ \<longleftrightarrow> True"

lemma dget_none_map:
  "dget_none (map (\<lambda>kv. (fst kv, f (fst kv) (snd kv))) d) k = (if has_key k d then f k (dget_none d k) else VNone)"
  by (induction d) (auto simp: dget_none_def dget_def has_key_def)

lemma no_key_none: "\<not> has_key k d \<Longrightarrow> dget_none d k = VNone"
  by (simp add: has_key_def dget_none_def dget_def)

lemma drop_redundant_clears:
  "fld \<noteq> counterpart \<Longrightarrow> no_redundant fld counterpart (drop_redundant fld counterpart v)"
proof (induction fld counterpart v rule: drop_redundant.induct)
  case (1 fld counterpart d)
  define c where "c = (has_key fld d \<and> has_key counterpart d \<and> dget_none d counterpart \<noteq> VNone)"
  define f where "f = (\<lambda>k v. if c \<and> k = fld then VNone else drop_redundant fld counterpart v)"
  have result: "drop_redundant fld counterpart (VDict d) = VDict (map (\<lambda>kv. (fst kv, f (fst kv) (snd kv))) d)"
    by (simp add: c_def f_def)
  have "dget_none (map (\<lambda>kv. (fst kv, f (fst kv) (snd kv))) d) counterpart = VNone
      \<or> dget_none (map (\<lambda>kv. (fst kv, f (fst kv) (snd kv))) d) fld = VNone"
    using 1(2) no_key_none [of fld d] no_key_none [of counterpart d]
    unfolding dget_none_map by (auto simp: f_def c_def)
  moreover have "no_redundant fld counterpart (f k v)" if "(k, v) \<in> set d" for k v
    using 1 that by (fastforce simp: f_def c_def)
  ultimately show ?case unfolding result by (auto simp: list_all_iff)
qed (auto simp: list_all_iff)

lemma drop_redundant_only: "drop_all fld (drop_redundant fld counterpart v) = drop_all fld v"
  by (induction fld counterpart v rule: drop_redundant.induct) (auto simp: Let_def)

lemma drop_all_clears: "nowhere fld (drop_all fld v)"
  by (induction fld v rule: drop_all.induct) (auto simp: list_all_iff)

lemma drop_all_again: "drop_all fld (drop_all fld v) = drop_all fld v"
  by (induction fld v rule: drop_all.induct) auto

lemma as_dict_of_dropped [simp]:
  "VDict (as_dict_of (drop_redundant f c (VDict d))) = drop_redundant f c (VDict d)"
  "VDict (as_dict_of (drop_all f (VDict d))) = drop_all f (VDict d)"
  by (simp_all add: Let_def)

text \<open>
  The result mode decides what is left out of a successful result and nothing else is touched: in
  \<^verbatim>\<open>exact\<close> mode only \<^verbatim>\<open>approx\<close> fields are cleared and none is left beside an exact value, in \<^verbatim>\<open>approx\<close>
  mode every \<^verbatim>\<open>exact\<close> field is cleared, in \<^verbatim>\<open>both\<close> mode nothing, in \<^verbatim>\<open>auto\<close> mode the redundant
  approximations and only when the result as it is exceeds the ceiling.
\<close>

theorem result_mode_selects:
  assumes "project_result py result mode maxb = Inr (selected, n)"
    and "dget_none result (u ''status'') \<in> {VStr (u ''ok''), VStr (u ''uncertain'')}"
  shows "(mode = u ''exact'' \<longrightarrow> no_redundant (u ''approx'') (u ''exact'') (VDict selected)
            \<and> drop_all (u ''approx'') (VDict selected) = drop_all (u ''approx'') (VDict result))
       \<and> (mode = u ''approx'' \<longrightarrow> nowhere (u ''exact'') (VDict selected)
            \<and> drop_all (u ''exact'') (VDict selected) = drop_all (u ''exact'') (VDict result))
       \<and> (mode = u ''both'' \<longrightarrow> selected = result)
       \<and> (mode = u ''auto'' \<longrightarrow>
            (\<exists>m. encoded_size py (VDict result) = Inr m
              \<and> (int m \<le> maxb \<longrightarrow> selected = result)
              \<and> (int m > maxb \<longrightarrow> VDict selected = drop_redundant (u ''approx'') (u ''exact'') (VDict result))))"
proof -
  have "in_texts (dget_none result (u ''status'')) [u ''ok'', u ''uncertain''] = Inr True"
    using assms(2) by (auto simp: in_texts_def)
  with assms(1) have p: "rbind (encoded_size py (VDict
       (if mode = u ''exact'' then as_dict_of (drop_redundant (u ''approx'') (u ''exact'') (VDict result))
        else if mode = u ''approx'' then as_dict_of (drop_all (u ''exact'') (VDict result)) else result)))
     (\<lambda>b. if mode = u ''auto'' \<and> int b > maxb
       then rbind (encoded_size py (drop_redundant (u ''approx'') (u ''exact'') (VDict result)))
              (\<lambda>b. Inr (as_dict_of (drop_redundant (u ''approx'') (u ''exact'') (VDict result)), b))
       else Inr (if mode = u ''exact'' then as_dict_of (drop_redundant (u ''approx'') (u ''exact'') (VDict result))
        else if mode = u ''approx'' then as_dict_of (drop_all (u ''exact'') (VDict result)) else result, b))
     = Inr (selected, n)"
    by (simp add: project_result_def Let_def cong: if_cong del: drop_redundant.simps drop_all.simps)
  have modes: "u ''exact'' \<noteq> u ''approx''" "u ''exact'' \<noteq> u ''auto''" "u ''approx'' \<noteq> u ''auto''"
    "u ''both'' \<noteq> u ''exact''" "u ''both'' \<noteq> u ''approx''" "u ''both'' \<noteq> u ''auto''" by (simp_all add: u_def)
  have clears: "no_redundant (u ''approx'') (u ''exact'') (drop_redundant (u ''approx'') (u ''exact'') (VDict result))"
    by (rule drop_redundant_clears) (simp add: u_def)
  have exact: "VDict selected = drop_redundant (u ''approx'') (u ''exact'') (VDict result)" if "mode = u ''exact''"
    using p that modes by (auto simp: rbind_eq_Inr simp del: drop_redundant.simps u_def)
  have approx: "VDict selected = drop_all (u ''exact'') (VDict result)" if "mode = u ''approx''"
    using p that modes by (auto simp: rbind_eq_Inr simp del: drop_all.simps u_def)
  have both: "selected = result" if "mode = u ''both''"
    using p that modes by (auto simp: rbind_eq_Inr simp del: drop_all.simps u_def)
  have auto: "\<exists>m. encoded_size py (VDict result) = Inr m \<and> (int m \<le> maxb \<longrightarrow> selected = result)
      \<and> (int m > maxb \<longrightarrow> VDict selected = drop_redundant (u ''approx'') (u ''exact'') (VDict result))"
    if mode: "mode = u ''auto''"
  proof -
    let ?d = "drop_redundant (u ''approx'') (u ''exact'') (VDict result)"
    have "mode \<noteq> u ''exact''" "mode \<noteq> u ''approx''" using that modes by metis+
    then obtain m where m: "encoded_size py (VDict result) = Inr m"
      and rest: "(if int m > maxb then rbind (encoded_size py ?d) (\<lambda>b. Inr (as_dict_of ?d, b)) else Inr (result, m))
        = Inr (selected, n)"
      using p mode by (auto simp: rbind_eq_Inr modes [symmetric] simp del: drop_redundant.simps u_def cong: if_cong)
    have "int m > maxb \<Longrightarrow> selected = as_dict_of ?d" "int m \<le> maxb \<Longrightarrow> selected = result"
      using rest by (simp_all add: rbind_eq_Inr del: drop_redundant.simps u_def split: if_splits)
    then show ?thesis using m as_dict_of_dropped(1) by (intro exI [of _ m]) metis
  qed
  show ?thesis
    by (intro conjI impI)
      (simp_all only: exact approx both auto clears drop_all_clears drop_redundant_only drop_all_again)
qed

section \<open>A large error and a large result at work\<close>


definition sample_py :: interp where
  "sample_py = \<lparr>float_text = (\<lambda>_. []), sha256 = (\<lambda>_. []), digit_limit = 4300\<rparr>"

definition large_error :: pydict where
  "large_error = error_envelope (u ''E_DOMAIN'') (u ''no'') (Some [(u ''x'', VStr (replicate 2000 120))]) None None None"

definition small_result :: pydict where
  "small_result = [(u ''status'', VStr (u ''ok'')),
     (u ''result'', VList [VDict [(u ''exact'', VStr (u ''1/2'')), (u ''approx'', VStr (u ''0.5''))]])]"

lemmas payload_defs = error_envelope_def error_payload_def Let_def resolve_phase_def default_phase_def
  default_action_def INPUT_CODES_def dget_none_def dget_def

lemma sample_sane: "sane_interp sample_py"
  by (simp add: sane_interp_def sample_py_def)

lemma large_error_size: "\<exists>n. encoded_size sample_py (VDict large_error) = Inr n \<and> 1024 < n \<and> n < 10 ^ 250"
proof -
  have p: "plain (replicate 2000 120)" by (simp add: plain_def)
  have t: "tidy sample_py (VDict large_error)"
    by (simp add: large_error_def payload_defs plain_lit p)
  then obtain t where t: "json_text sample_py False True (VDict large_error) = Inr t"
    "encoded_size sample_py (VDict large_error) = Inr (length t)" "length t \<le> cost (VDict large_error)"
    using tidy_encoded_text by blast
  have "1024 < length t"
    using t(1) by (auto simp: large_error_def payload_defs p json_string_plain plain_lit item_order_def
       )
  moreover have "cost (VDict large_error) < 10 ^ 4"
    by (simp add: large_error_def payload_defs)
  moreover have "(10::nat) ^ 4 \<le> 10 ^ 250" by (rule power_increasing) simp_all
  ultimately show ?thesis using t(2,3) by (intro exI [of _ "length t"]) linarith
qed

lemma large_error_projected:
  "\<exists>n. project_result sample_py large_error (u ''auto'') 1024 = Inr (large_error, n) \<and> n < 10 ^ 250"
proof -
  have "in_texts (dget_none large_error (u ''status'')) [u ''ok'', u ''uncertain''] = Inr False"
    by (auto simp: in_texts_def large_error_def error_envelope_def dget_none_def dget_def)
  then show ?thesis using large_error_size by (auto simp: project_result_def Let_def)
qed

lemma large_error_trimmed:
  "\<exists>r. apply_output_policy sample_py large_error (u ''auto'') 1024 = Inr r"
proof -
  obtain n where n: "project_result sample_py large_error (u ''auto'') 1024 = Inr (large_error, n)"
    using large_error_projected by blast
  let ?e = "bare_payload (u ''E_DOMAIN'') (u ''no'') (u ''input'') (u ''correct_input'') None"
  have "tidy sample_py (VDict (envelope ?e))" "cost (VDict (envelope ?e)) \<le> 1024"
    by (simp_all add: envelope_def bare_payload_def plain_lit)
  then obtain m where m: "encoded_size sample_py (VDict (envelope ?e)) = Inr m" "m \<le> 1024"
    using tidy_encoded by (meson le_trans)
  have "trim_error_envelope sample_py large_error 1024 = Inr (Some (envelope ?e))"
    using m by (simp add: trim_error_envelope_def large_error_def payload_defs AList.delete_eq envelope_def
        bare_payload_def del: trim_message.simps)
  then show ?thesis using n by (simp add: apply_output_policy_def)
qed

theorem output_within_ceiling_witness:
  "\<exists>r m. apply_output_policy sample_py large_error (u ''auto'') 1024 = Inr r
     \<and> encoded_size sample_py (VDict r) = Inr m \<and> m \<le> 1024"
proof -
  obtain r n where r: "apply_output_policy sample_py large_error (u ''auto'') 1024 = Inr r"
    and n: "project_result sample_py large_error (u ''auto'') 1024 = Inr (large_error, n)" "n < 10 ^ 250"
    using large_error_trimmed large_error_projected by blast
  have "u ''auto'' \<in> set RESULT_MODES" "MIN_OUTPUT_BYTES \<le> 1024" "1024 \<le> MAX_OUTPUT_BYTES"
    by (simp_all add: RESULT_MODES_def MIN_OUTPUT_BYTES_def MAX_OUTPUT_BYTES_def)
  from output_within_ceiling [OF r sample_sane this n] r show ?thesis by auto
qed

theorem error_keeps_its_code_witness:
  "\<exists>r e. apply_output_policy sample_py large_error (u ''auto'') 1024 = Inr r
     \<and> map_of r (u ''error'') = Some (VDict e) \<and> map_of e (u ''code'') = Some (VStr (u ''E_DOMAIN''))"
proof -
  obtain r where r: "apply_output_policy sample_py large_error (u ''auto'') 1024 = Inr r"
    using large_error_trimmed by blast
  have phase: "resolve_phase (u ''E_DOMAIN'') (Some [(u ''x'', VStr (replicate 2000 120))]) None = u ''input''"
    by (simp add: payload_defs)
  have "r = large_error \<or> (\<exists>x. r = [(u ''status'', VStr (u ''error'')),
        (u ''error'', VDict (AList.delete (u ''details'') (error_payload (u ''E_DOMAIN'') x
           (Some [(u ''x'', VStr (replicate 2000 120))]) None None None)))])"
    unfolding large_error_def
    by (rule error_keeps_its_code [OF r [unfolded large_error_def] sample_sane])
      (simp_all add: MIN_OUTPUT_BYTES_def plain_lit phase)
  then show ?thesis using r by (auto simp: large_error_def error_envelope_def error_payload_def Let_def AList.delete_eq)
qed

theorem result_mode_selects_witness:
  "\<exists>sel n. project_result sample_py small_result (u ''exact'') 1024 = Inr (sel, n)
     \<and> no_redundant (u ''approx'') (u ''exact'') (VDict sel) \<and> sel \<noteq> small_result"
proof -
  have run: "project_result sample_py small_result (u ''exact'') 1024 =
      Inr ([(u ''status'', VStr (u ''ok'')),
        (u ''result'', VList [VDict [(u ''exact'', VStr (u ''1/2'')), (u ''approx'', VNone)]])], 56)"
    by code_simp
  have ok: "dget_none small_result (u ''status'') \<in> {VStr (u ''ok''), VStr (u ''uncertain'')}"
    by (simp add: small_result_def dget_none_def dget_def)
  show ?thesis using result_mode_selects [OF run ok] run by (auto simp: small_result_def)
qed

end
