(* ===== verification/Obligation_Schemas.thy ===== *)
theory Obligation_Schemas
  imports Output_Policy
begin

text \<open>
  The constants of \<^verbatim>\<open>obligations.py\<close> and the JSON Schemas it hands to the validator, as the values the
  code builds: requests, receipts and feedback are closed objects.
\<close>

section \<open>Versions, limits, statuses\<close>

definition OBLIGATION_SET_SCHEMA_VERSION :: pystr where
  "OBLIGATION_SET_SCHEMA_VERSION = u ''math-anchor.obligation-set.v0.1''"

definition OBLIGATION_RECEIPT_SCHEMA_VERSION :: pystr where
  "OBLIGATION_RECEIPT_SCHEMA_VERSION = u ''math-anchor.obligation-receipt.v0.1''"

definition OBLIGATION_FEEDBACK_SCHEMA_VERSION :: pystr where
  "OBLIGATION_FEEDBACK_SCHEMA_VERSION = u ''math-anchor.obligation-feedback.v0.1''"

definition OBLIGATION_REPLAY_SCHEMA_VERSION :: pystr where
  "OBLIGATION_REPLAY_SCHEMA_VERSION = u ''math-anchor.obligation-replay.v0.1''"

definition MAX_OBLIGATION_REQUEST_BYTES :: nat where "MAX_OBLIGATION_REQUEST_BYTES = 1048576"

definition MAX_OBLIGATION_REQUEST_NODES :: nat where "MAX_OBLIGATION_REQUEST_NODES = 50000"

definition MAX_OBLIGATION_REQUEST_DEPTH :: nat where "MAX_OBLIGATION_REQUEST_DEPTH = 32"

definition MAX_RECEIPT_BYTES :: nat where "MAX_RECEIPT_BYTES = 1048576"

definition DEFAULT_TIMEOUT_MS :: int where "DEFAULT_TIMEOUT_MS = 10000"

definition DEFAULT_MEMORY_MB :: int where "DEFAULT_MEMORY_MB = 2048"

definition DEFAULT_PROVIDER_OUTPUT_BYTES :: int where "DEFAULT_PROVIDER_OUTPUT_BYTES = 64 * 1024"

definition DEFAULT_FEEDBACK_BYTES :: int where "DEFAULT_FEEDBACK_BYTES = 64 * 1024"

definition STATUS_VALUES :: "pystr list" where
  "STATUS_VALUES = [u ''checked'', u ''falsified'', u ''unknown'', u ''unsupported'']"

definition ASSURANCE_VALUES :: "pystr list" where
  "ASSURANCE_VALUES =
     [u ''formal_kernel_checked'', u ''exact_symbolic'', u ''rigorous_interval'', u ''numerical'', u ''heuristic'']"

definition IDENTIFIER :: pystr where "IDENTIFIER = u ''^[A-Za-z][A-Za-z0-9._-]{0,63}$''"

definition KIND :: pystr where "KIND = u ''^[a-z][a-z0-9._-]{0,63}$''"

definition DIGEST :: pystr where "DIGEST = u ''^sha256:[0-9a-f]{64}$''"

definition KNOWN_PROVIDERS :: "(pystr \<times> pystr) list" where
  "KNOWN_PROVIDERS =
     [(u ''polynomial_identity'', u ''certificate.polynomial_identity''),
      (u ''expression_equivalence'', u ''expression.equivalent''),
      (u ''dimension_consistency'', u ''dimension.check''),
      (u ''local_almost_complex_integrability'', u ''geometry.almost_complex.local_check'')]"

definition UNSUPPORTED_PROVIDER_ERRORS :: "pystr list" where
  "UNSUPPORTED_PROVIDER_ERRORS =
     [u ''E_AST_BLOCK'', u ''E_DOMAIN'', u ''E_INPUT'', u ''E_NAME'', u ''E_SYNTAX'', u ''E_UNIT'']"

section \<open>Schema building blocks\<close>

definition texts :: "pystr list \<Rightarrow> pyval" where
  "texts ss = VList (map VStr ss)"

definition closed_object :: "pydict \<Rightarrow> pystr list \<Rightarrow> pydict" where
  "closed_object properties required =
     [(u ''type'', VStr (u ''object'')),
      (u ''additionalProperties'', VBool False),
      (u ''properties'', VDict properties),
      (u ''required'', texts required)]"

definition string_pattern :: "pystr \<Rightarrow> pyval" where
  "string_pattern p = VDict [(u ''type'', VStr (u ''string'')), (u ''pattern'', VStr p)]"

definition string_between :: "int \<Rightarrow> int \<Rightarrow> pyval" where
  "string_between a b =
     VDict [(u ''type'', VStr (u ''string'')), (u ''minLength'', VInt a), (u ''maxLength'', VInt b)]"

definition integer_between :: "int \<Rightarrow> int \<Rightarrow> pyval" where
  "integer_between a b =
     VDict [(u ''type'', VStr (u ''integer'')), (u ''minimum'', VInt a), (u ''maximum'', VInt b)]"

definition integer_default :: "int \<Rightarrow> int \<Rightarrow> int \<Rightarrow> pyval" where
  "integer_default a b d =
     VDict [(u ''type'', VStr (u ''integer'')), (u ''minimum'', VInt a), (u ''maximum'', VInt b),
            (u ''default'', VInt d)]"

definition const_text :: "pystr \<Rightarrow> pyval" where
  "const_text s = VDict [(u ''const'', VStr s)]"

definition enum_texts :: "pystr list \<Rightarrow> pyval" where
  "enum_texts ss = VDict [(u ''enum'', texts ss)]"

definition null_type :: pyval where
  "null_type = VDict [(u ''type'', VStr (u ''null''))]"

definition one_of :: "pyval list \<Rightarrow> pyval" where
  "one_of xs = VDict [(u ''oneOf'', VList xs)]"

definition array_of :: "pydict \<Rightarrow> pyval \<Rightarrow> pyval" where
  "array_of options items = VDict ([(u ''type'', VStr (u ''array''))] @ options @ [(u ''items'', items)])"

section \<open>The error contract of results\<close>

definition ERROR_PHASES :: "pystr list" where
  "ERROR_PHASES =
     [u ''input'', u ''admission'', u ''queue'', u ''startup'', u ''execution'', u ''output'', u ''batch'',
      u ''cancellation'']"

definition ERROR_ACTIONS :: "pystr list" where
  "ERROR_ACTIONS =
     [u ''correct_input'', u ''search_operation'', u ''reduce_request'', u ''split_or_reduce'', u ''retry'',
      u ''stop'']"

definition error_properties :: pydict where
  "error_properties =
     [(u ''code'', VDict [(u ''type'', VStr (u ''string''))]),
      (u ''message'', VDict [(u ''type'', VStr (u ''string''))]),
      (u ''retryable'', VDict [(u ''type'', VStr (u ''boolean''))]),
      (u ''phase'', enum_texts ERROR_PHASES),
      (u ''retryAfterMs'', VDict [(u ''type'', VStr (u ''integer'')), (u ''minimum'', VInt 1)]),
      (u ''suggestedAction'', enum_texts ERROR_ACTIONS),
      (u ''details'', VDict [(u ''type'', VStr (u ''object''))])]"

definition error_object :: "pydict \<Rightarrow> pydict" where
  "error_object properties =
     closed_object properties
       [u ''code'', u ''message'', u ''retryable'', u ''phase'', u ''suggestedAction'']"

definition ERROR_RESULT_SCHEMA :: pydict where
  "ERROR_RESULT_SCHEMA =
     closed_object
       [(u ''status'', const_text (u ''error'')), (u ''error'', VDict (error_object error_properties))]
       [u ''status'', u ''error'']"

definition ERROR_DETAIL_SCHEMA :: pydict where
  "ERROR_DETAIL_SCHEMA = error_object (AList.delete (u ''details'') error_properties)"

definition PROVIDER_ERROR_REASONS :: "pystr list" where
  "PROVIDER_ERROR_REASONS = [u ''provider_rejected_claim'', u ''provider_inconclusive'']"

section \<open>Requests\<close>

definition ASSUMPTION_SET_SCHEMA :: pydict where
  "ASSUMPTION_SET_SCHEMA =
     closed_object
       [(u ''id'', string_pattern IDENTIFIER),
        (u ''assumptions'',
          array_of [(u ''minItems'', VInt 1), (u ''maxItems'', VInt 32), (u ''uniqueItems'', VBool True)]
            (string_between 1 512))]
       [u ''id'', u ''assumptions'']"

definition identifier_array :: "pyval option \<Rightarrow> pyval" where
  "identifier_array dflt =
     VDict ([(u ''type'', VStr (u ''array'')), (u ''maxItems'', VInt 16), (u ''uniqueItems'', VBool True),
             (u ''items'', string_pattern IDENTIFIER)]
            @ (case dflt of None \<Rightarrow> [] | Some d \<Rightarrow> [(u ''default'', d)]))"

definition OBLIGATION_SCHEMA :: pydict where
  "OBLIGATION_SCHEMA =
     closed_object
       [(u ''id'', string_pattern IDENTIFIER),
        (u ''kind'', string_pattern KIND),
        (u ''claim'', VDict
          [(u ''type'', VStr (u ''object'')),
           (u ''maxProperties'', VInt 32),
           (u ''description'', VStr (u ''A bounded provider-native claim. Registered kinds are checked against their exact operation contract; unknown kinds return unsupported without interpreting this object.''))]),
        (u ''assumptionSet'', VDict
          [(u ''oneOf'', VList [string_pattern IDENTIFIER, null_type]), (u ''default'', VNone)]),
        (u ''dependsOn'', identifier_array (Some (VList [])))]
       [u ''id'', u ''kind'', u ''claim'']"

definition LIMITS_SCHEMA :: pydict where
  "LIMITS_SCHEMA =
     closed_object
       [(u ''timeoutMs'', integer_default 100 30000 DEFAULT_TIMEOUT_MS),
        (u ''memoryMb'', integer_default 256 4096 DEFAULT_MEMORY_MB),
        (u ''providerOutputBytes'', integer_default MIN_OUTPUT_BYTES MAX_OUTPUT_BYTES DEFAULT_PROVIDER_OUTPUT_BYTES),
        (u ''feedbackBytes'', integer_default MIN_OUTPUT_BYTES MAX_OUTPUT_BYTES DEFAULT_FEEDBACK_BYTES)]
       []"

definition OBLIGATION_REQUEST_SCHEMA :: pydict where
  "OBLIGATION_REQUEST_SCHEMA =
     closed_object
       [(u ''schemaVersion'', const_text OBLIGATION_SET_SCHEMA_VERSION),
        (u ''assumptionSets'', VDict
          [(u ''type'', VStr (u ''array'')), (u ''maxItems'', VInt 16),
           (u ''items'', VDict ASSUMPTION_SET_SCHEMA), (u ''default'', VList [])]),
        (u ''obligations'',
          array_of [(u ''minItems'', VInt 1), (u ''maxItems'', VInt 32)] (VDict OBLIGATION_SCHEMA)),
        (u ''assurancePolicy'', VDict
          [(u ''const'', VStr (u ''strongest_available'')), (u ''default'', VStr (u ''strongest_available''))]),
        (u ''responseMode'', VDict
          [(u ''enum'', texts [u ''failures_only'', u ''full'']), (u ''default'', VStr (u ''failures_only''))]),
        (u ''limits'', VDict LIMITS_SCHEMA)]
       [u ''schemaVersion'', u ''obligations'']"

section \<open>Receipts and feedback\<close>

definition ASSUMPTION_REFERENCE_SCHEMA :: pydict where
  "ASSUMPTION_REFERENCE_SCHEMA =
     closed_object
       [(u ''setId'', one_of [string_pattern IDENTIFIER, null_type]),
        (u ''digest'', string_pattern DIGEST),
        (u ''count'', integer_between 0 32),
        (u ''interpretation'', const_text (u ''bound_not_evaluated''))]
       [u ''setId'', u ''digest'', u ''count'', u ''interpretation'']"

definition runtime_schema :: pydict where
  "runtime_schema =
     closed_object [(u ''name'', const_text (u ''math-anchor'')), (u ''version'', string_between 1 64)]
       [u ''name'', u ''version'']"

definition PROVIDER_SCHEMA :: pyval where
  "PROVIDER_SCHEMA =
     one_of
       [null_type,
        VDict (closed_object
          [(u ''operation'', string_between 1 128),
           (u ''resultDigest'', string_pattern DIGEST),
           (u ''runtime'', one_of [null_type, VDict runtime_schema]),
           (u ''backends'',
             array_of [(u ''maxItems'', VInt 8)]
               (VDict (closed_object [(u ''name'', string_between 1 64), (u ''version'', string_between 1 64)]
                  [u ''name'', u ''version''])))]
          [u ''operation'', u ''resultDigest'', u ''runtime'', u ''backends''])]"

definition DETAIL_SCHEMA :: pyval where
  "DETAIL_SCHEMA =
     VDict
       [(u ''type'', VStr (u ''object'')),
        (u ''maxProperties'', VInt 32),
        (u ''allOf'', VList
          [VDict
            [(u ''if'', VDict
               [(u ''properties'', VDict [(u ''reason'', enum_texts PROVIDER_ERROR_REASONS)]),
                (u ''required'', texts [u ''reason''])]),
             (u ''then'', VDict (closed_object
               [(u ''reason'', enum_texts PROVIDER_ERROR_REASONS), (u ''error'', VDict ERROR_DETAIL_SCHEMA)]
               [u ''reason'', u ''error'']))]])]"

definition RECEIPT_ENTRY_SCHEMA :: pydict where
  "RECEIPT_ENTRY_SCHEMA =
     closed_object
       [(u ''id'', string_pattern IDENTIFIER),
        (u ''kind'', string_pattern KIND),
        (u ''status'', enum_texts STATUS_VALUES),
        (u ''assuranceLevel'', one_of [enum_texts ASSURANCE_VALUES, null_type]),
        (u ''scope'', string_between 1 160),
        (u ''claimDigest'', string_pattern DIGEST),
        (u ''assumptions'', VDict ASSUMPTION_REFERENCE_SCHEMA),
        (u ''dependsOn'', identifier_array None),
        (u ''blockedBy'', identifier_array None),
        (u ''provider'', PROVIDER_SCHEMA),
        (u ''detail'', DETAIL_SCHEMA),
        (u ''detailDigest'', string_pattern DIGEST),
        (u ''detailOmitted'', VDict [(u ''type'', VStr (u ''boolean''))]),
        (u ''limitations'',
          array_of [(u ''maxItems'', VInt 16), (u ''uniqueItems'', VBool True)] (string_between 1 128))]
       [u ''id'', u ''kind'', u ''status'', u ''assuranceLevel'', u ''scope'', u ''claimDigest'',
        u ''assumptions'', u ''dependsOn'', u ''blockedBy'', u ''provider'', u ''detail'', u ''detailDigest'',
        u ''detailOmitted'', u ''limitations'']"

definition SUMMARY_SCHEMA :: pydict where
  "SUMMARY_SCHEMA =
     closed_object
       (map (\<lambda>status. (status, integer_between 0 32)) STATUS_VALUES @ [(u ''total'', integer_between 1 32)])
       (STATUS_VALUES @ [u ''total''])"

definition OBLIGATION_RECEIPT_SCHEMA :: pydict where
  "OBLIGATION_RECEIPT_SCHEMA =
     closed_object
       [(u ''schemaVersion'', const_text OBLIGATION_RECEIPT_SCHEMA_VERSION),
        (u ''requestSchemaVersion'', const_text OBLIGATION_SET_SCHEMA_VERSION),
        (u ''requestDigest'', string_pattern DIGEST),
        (u ''runtime'', VDict runtime_schema),
        (u ''assurancePolicy'', const_text (u ''strongest_available'')),
        (u ''summary'', VDict SUMMARY_SCHEMA),
        (u ''obligations'',
          array_of [(u ''minItems'', VInt 1), (u ''maxItems'', VInt 32)] (VDict RECEIPT_ENTRY_SCHEMA)),
        (u ''outcomeDigest'', string_pattern DIGEST),
        (u ''receiptDigest'', string_pattern DIGEST)]
       [u ''schemaVersion'', u ''requestSchemaVersion'', u ''requestDigest'', u ''runtime'',
        u ''assurancePolicy'', u ''summary'', u ''obligations'', u ''outcomeDigest'', u ''receiptDigest'']"

definition OBLIGATION_FEEDBACK_SCHEMA :: pydict where
  "OBLIGATION_FEEDBACK_SCHEMA =
     closed_object
       [(u ''schemaVersion'', const_text OBLIGATION_FEEDBACK_SCHEMA_VERSION),
        (u ''status'', enum_texts [u ''checked'', u ''attention_required'']),
        (u ''responseMode'', enum_texts [u ''failures_only'', u ''full'']),
        (u ''requestDigest'', string_pattern DIGEST),
        (u ''receiptDigest'', string_pattern DIGEST),
        (u ''outcomeDigest'', string_pattern DIGEST),
        (u ''summary'', VDict SUMMARY_SCHEMA),
        (u ''obligations'', array_of [(u ''maxItems'', VInt 32)] (VDict RECEIPT_ENTRY_SCHEMA))]
       [u ''schemaVersion'', u ''status'', u ''responseMode'', u ''requestDigest'', u ''receiptDigest'',
        u ''outcomeDigest'', u ''summary'', u ''obligations'']"

end
