(* ===== verification/Transport_Budget.thy ===== *)
theory Transport_Budget
  imports Json "HOL-Library.Countable"
begin

text \<open>
  \<^verbatim>\<open>transport_budget.py\<close>: the shape check of a request before it is encoded, and the encoding
  itself as one line of JSON under a cumulative byte limit. The check looks at object identity, so the
  request is a heap: \<open>heap\<close> maps the \<^verbatim>\<open>id\<close> of an object to the object, whose parts are again
  identities; an object may be shared and may contain itself.
\<close>

section \<open>Objects\<close>

type_synonym addr = nat

datatype obj =
    OStr pystr
  | ODict "(addr \<times> addr) list"
  | OList "addr list"
  | OFloat pyfloat
  | ONone
  | OBool bool
  | OInt int
  | OObj pystr

type_synonym heap = "addr \<Rightarrow> obj"

record limits =
  max_bytes :: nat
  max_nodes :: nat
  max_depth :: nat

definition MAX_REQUEST_BYTES :: nat where "MAX_REQUEST_BYTES = 8 * 1024 * 1024"

definition MAX_REQUEST_NODES :: nat where "MAX_REQUEST_NODES = 250000"

definition MAX_REQUEST_DEPTH :: nat where "MAX_REQUEST_DEPTH = 64"

definition MAX_BATCH_REQUEST_BYTES :: nat where "MAX_BATCH_REQUEST_BYTES = 16 * 1024 * 1024"

definition MAX_BATCH_REQUEST_NODES :: nat where "MAX_BATCH_REQUEST_NODES = 500000"

definition BATCH_ITEM_FIELDS :: "pystr list" where
  "BATCH_ITEM_FIELDS =
     [u ''operation'', u ''arguments'', u ''timeoutMs'', u ''memoryMb'', u ''resultMode'',
      u ''maxOutputBytes'']"

text \<open>What the callers of \<^verbatim>\<open>encode_json_line\<close> catch: \<^verbatim>\<open>except (TypeError, ValueError, OverflowError, RecursionError)\<close>; encoding errors are value errors.\<close>

definition encoding_errors :: "pystr list" where
  "encoding_errors =
     [u ''TypeError'', u ''ValueError'', u ''UnicodeEncodeError'', u ''OverflowError'', u ''RecursionError'']"

definition request_limits :: limits where
  "request_limits =
     \<lparr>max_bytes = MAX_REQUEST_BYTES, max_nodes = MAX_REQUEST_NODES, max_depth = MAX_REQUEST_DEPTH\<rparr>"

section \<open>The shape check\<close>

record walk =
  nodes :: nat
  text_bytes :: nat
  active_containers :: "addr set"

type_synonym stack = "(addr \<times> nat \<times> bool) list"

definition node_error :: "limits \<Rightarrow> pyexn" where
  "node_error lims =
     BudgetError (u ''request exceeds the cumulative '' @ int_text (int (max_nodes lims)) @ u ''-node transport limit'')
       (u ''maxRequestNodes'')"

definition depth_error :: "limits \<Rightarrow> pyexn" where
  "depth_error lims =
     BudgetError (u ''request exceeds the cumulative depth limit of '' @ int_text (int (max_depth lims)))
       (u ''maxRequestDepth'')"

definition text_error :: "limits \<Rightarrow> pyexn" where
  "text_error lims =
     BudgetError (u ''request text exceeds the cumulative '' @ int_text (int (max_bytes lims)) @ u ''-byte transport limit'')
       (u ''maxRequestBytes'')"

definition bytes_error :: "limits \<Rightarrow> pyexn" where
  "bytes_error lims =
     BudgetError (u ''request exceeds the cumulative '' @ int_text (int (max_bytes lims)) @ u ''-byte transport limit'')
       (u ''maxRequestBytes'')"

definition circular_error :: pyexn where
  "circular_error = PyExn (u ''ValueError'') (u ''circular reference in request'')"

text \<open>The stack's top is the head of the list. A dictionary pushes child and key of each item in turn.\<close>

fun push_items :: "heap \<Rightarrow> nat \<Rightarrow> (addr \<times> addr) list \<Rightarrow> stack \<Rightarrow> pyexn + stack" where
  "push_items h depth [] st = Inr st"
| "push_items h depth ((k, c) # items) st =
     (case h k of
        OStr _ \<Rightarrow> push_items h depth items ((k, depth + 1, False) # (c, depth + 1, False) # st)
      | _ \<Rightarrow> Inl (PyExn (u ''TypeError'') (u ''request object keys must be strings'')))"

definition enter_container :: "addr \<Rightarrow> walk \<Rightarrow> pyexn + walk" where
  "enter_container a w =
     (if a \<in> active_containers w then Inl circular_error
      else Inr (w\<lparr>active_containers := insert a (active_containers w)\<rparr>))"

text \<open>One pass of the loop, for the popped entry and the remaining stack.\<close>

definition validate_step ::
  "heap \<Rightarrow> limits \<Rightarrow> addr \<times> nat \<times> bool \<Rightarrow> walk \<Rightarrow> stack \<Rightarrow> pyexn + (walk \<times> stack)" where
  "validate_step h lims entry w rest =
     (case entry of (current, depth, exiting) \<Rightarrow>
       (if exiting then
          (if current \<in> active_containers w
           then Inr (w\<lparr>active_containers := active_containers w - {current}\<rparr>, rest)
           else Inl (PyExn (u ''KeyError'') []))
        else
          (let w = w\<lparr>nodes := Suc (nodes w)\<rparr> in
           demand (nodes w \<le> max_nodes lims) (node_error lims)
          (demand (depth \<le> max_depth lims) (depth_error lims)
            (case h current of
               OStr s \<Rightarrow>
                 (case utf8_len s of
                    None \<Rightarrow> Inl unicode_error
                  | Some k \<Rightarrow>
                      (let w = w\<lparr>text_bytes := text_bytes w + k\<rparr> in
                       demand (text_bytes w \<le> max_bytes lims) (text_error lims) (Inr (w, rest))))
             | ODict items \<Rightarrow>
                 rbind (enter_container current w) (\<lambda>w.
                   rbind (push_items h depth items ((current, depth, True) # rest)) (\<lambda>st. Inr (w, st)))
             | OList cs \<Rightarrow>
                 rbind (enter_container current w) (\<lambda>w.
                   Inr (w, map (\<lambda>c. (c, depth + 1, False)) cs @ (current, depth, True) # rest))
             | OFloat f \<Rightarrow>
                 (case f of FFin _ \<Rightarrow> Inr (w, rest)
                  | _ \<Rightarrow> Inl (PyExn (u ''ValueError'') (u ''request numbers must be finite'')))
             | ONone \<Rightarrow> Inr (w, rest)
             | OBool _ \<Rightarrow> Inr (w, rest)
             | OInt _ \<Rightarrow> Inr (w, rest)
             | OObj t \<Rightarrow>
                 Inl (PyExn (u ''TypeError'') (u ''request contains a non-JSON value: '' @ t)))))))"

lemma validate_step_progress:
  assumes "validate_step h lims entry w rest = Inr (w', st)"
  shows "Suc (max_nodes lims) - nodes w' < Suc (max_nodes lims) - nodes w
    \<or> nodes w' = nodes w \<and> st = rest"
proof (cases entry)
  case (fields current depth exiting)
  show ?thesis
  proof (cases exiting)
    case True
    then show ?thesis using assms fields by (auto simp: validate_step_def split: if_splits)
  next
    case False
    have "nodes w' = Suc (nodes w) \<and> Suc (nodes w) \<le> max_nodes lims"
      using assms fields False
      by (auto simp: validate_step_def Let_def demand_eq_Inr rbind_eq_Inr enter_container_def
          split: obj.splits option.splits pyfloat.splits if_splits)
    then show ?thesis by auto
  qed
qed

function validate_loop :: "heap \<Rightarrow> limits \<Rightarrow> walk \<Rightarrow> stack \<Rightarrow> pyexn + unit" where
  "validate_loop h lims w [] = Inr ()"
| "validate_loop h lims w (entry # rest) =
     rbind (validate_step h lims entry w rest) (\<lambda>r. validate_loop h lims (fst r) (snd r))"
  by pat_completeness auto
termination
  by (relation "measures [\<lambda>(_, lims, w, _). Suc (max_nodes lims) - nodes w, \<lambda>(_, _, _, st). length st]")
    (auto dest!: validate_step_progress)

declare validate_loop.simps(2) [simp del]

definition validate_shape :: "heap \<Rightarrow> limits \<Rightarrow> addr \<Rightarrow> pyexn + unit" where
  "validate_shape h lims value =
     validate_loop h lims \<lparr>nodes = 0, text_bytes = 0, active_containers = {}\<rparr> [(value, 0, False)]"

section \<open>Encoding under the byte limit\<close>

text \<open>
  The chunks \<^verbatim>\<open>JSONEncoder.iterencode\<close> yields for a value without cycles; an exception is the chunk
  whose computation raises it. \<open>scalar_chunk\<close> is the text of anything that is not a container.
\<close>

fun scalar_chunk :: "interp \<Rightarrow> pyval \<Rightarrow> (pyexn + pystr) option" where
  "scalar_chunk py (VList _) = None"
| "scalar_chunk py (VDict _) = None"
| "scalar_chunk py v = Some (json_text py False False v)"

definition prefixed :: "pystr \<Rightarrow> pyexn + pystr \<Rightarrow> pyexn + pystr" where
  "prefixed buf r = rbind r (\<lambda>t. Inr (buf @ t))"

function iter_chunks :: "interp \<Rightarrow> pyval \<Rightarrow> (pyexn + pystr) list" where
  "iter_chunks py (VList []) = [Inr (u ''[]'')]"
| "iter_chunks py (VList (x # xs)) =
     (case scalar_chunk py x of
        Some r \<Rightarrow> [prefixed [91] r]
      | None \<Rightarrow> Inr [91] # iter_chunks py x)
     @ concat (map (\<lambda>y. case scalar_chunk py y of
          Some r \<Rightarrow> [prefixed [44] r]
        | None \<Rightarrow> Inr [44] # iter_chunks py y) xs)
     @ [Inr [93]]"
| "iter_chunks py (VDict []) = [Inr (u ''{}'')]"
| "iter_chunks py (VDict (kx # d)) =
     [Inr [123], Inr (json_string (fst kx)), Inr [58]]
     @ (case scalar_chunk py (snd kx) of Some r \<Rightarrow> [r] | None \<Rightarrow> iter_chunks py (snd kx))
     @ concat (map (\<lambda>ky. [Inr [44], Inr (json_string (fst ky)), Inr [58]]
          @ (case scalar_chunk py (snd ky) of Some r \<Rightarrow> [r] | None \<Rightarrow> iter_chunks py (snd ky))) d)
     @ [Inr [125]]"
| "iter_chunks py VNone = [json_text py False False VNone]"
| "iter_chunks py (VBool b) = [json_text py False False (VBool b)]"
| "iter_chunks py (VInt i) = [json_text py False False (VInt i)]"
| "iter_chunks py (VFloat f) = [json_text py False False (VFloat f)]"
| "iter_chunks py (VStr s) = [json_text py False False (VStr s)]"
| "iter_chunks py (VObj t) = [json_text py False False (VObj t)]"
  by pat_completeness auto
termination
  by (relation "measure (\<lambda>(_, v). size v)")
    (auto dest: size_pyval_elem size_pyval_item)

fun collect_chunks :: "limits \<Rightarrow> (pyexn + pystr) list \<Rightarrow> nat \<Rightarrow> pyexn + pystr" where
  "collect_chunks lims [] encoded_bytes = Inr []"
| "collect_chunks lims (c # cs) encoded_bytes =
     rbind c (\<lambda>chunk.
       (case utf8_len chunk of
          None \<Rightarrow> Inl unicode_error
        | Some k \<Rightarrow>
            demand (encoded_bytes + k \<le> max_bytes lims) (bytes_error lims)
              (rbind (collect_chunks lims cs (encoded_bytes + k)) (\<lambda>t. Inr (chunk @ t)))))"

text \<open>
  \<^verbatim>\<open>encode_json_line\<close>, for the value \<open>v\<close> that the object \<open>value\<close> of the heap denotes.
\<close>

definition encode_json_line :: "interp \<Rightarrow> heap \<Rightarrow> limits \<Rightarrow> addr \<Rightarrow> pyval \<Rightarrow> pyexn + pystr" where
  "encode_json_line py h lims value v =
     rbind (validate_shape h lims value) (\<lambda>_.
     rbind (collect_chunks lims (iter_chunks py v) 1) (\<lambda>t. Inr (t @ [10])))"

section \<open>The values objects denote\<close>

text \<open>
  \<open>denotes h a v\<close>: the object \<open>a\<close> is a finite tree whose value is \<open>v\<close>. Sharing is allowed; an object
  that contains itself denotes nothing, nor does a dictionary with a key that is not a text.
\<close>

inductive denotes :: "heap \<Rightarrow> addr \<Rightarrow> pyval \<Rightarrow> bool" for h :: heap where
  denotes_str: "h a = OStr s \<Longrightarrow> denotes h a (VStr s)"
| denotes_dict:
    "h a = ODict items \<Longrightarrow>
     list_all2 (\<lambda>i e. h (fst i) = OStr (fst e) \<and> denotes h (snd i) (snd e)) items d \<Longrightarrow>
     denotes h a (VDict d)"
| denotes_list: "h a = OList cs \<Longrightarrow> list_all2 (denotes h) cs xs \<Longrightarrow> denotes h a (VList xs)"
| denotes_float: "h a = OFloat f \<Longrightarrow> denotes h a (VFloat f)"
| denotes_none: "h a = ONone \<Longrightarrow> denotes h a VNone"
| denotes_bool: "h a = OBool b \<Longrightarrow> denotes h a (VBool b)"
| denotes_int: "h a = OInt i \<Longrightarrow> denotes h a (VInt i)"
| denotes_obj: "h a = OObj t \<Longrightarrow> denotes h a (VObj t)"
  monos list.rel_mono

text \<open>The cumulative measures of a request: every key counts as a node.\<close>

fun node_count :: "pyval \<Rightarrow> nat" where
  "node_count (VList xs) = Suc (sum_list (map node_count xs))"
| "node_count (VDict d) = Suc (sum_list (map (\<lambda>e. Suc (node_count (snd e))) d))"
| "node_count _ = 1"

fun nesting :: "pyval \<Rightarrow> nat" where
  "nesting (VList xs) = foldr max (map (\<lambda>x. Suc (nesting x)) xs) 0"
| "nesting (VDict d) = foldr max (map (\<lambda>e. Suc (nesting (snd e))) d) 0"
| "nesting _ = 0"

definition str_bytes :: "pystr \<Rightarrow> nat" where
  "str_bytes s = (case utf8_len s of None \<Rightarrow> 0 | Some k \<Rightarrow> k)"

fun text_size :: "pyval \<Rightarrow> nat" where
  "text_size (VStr s) = str_bytes s"
| "text_size (VList xs) = sum_list (map text_size xs)"
| "text_size (VDict d) = sum_list (map (\<lambda>e. str_bytes (fst e) + text_size (snd e)) d)"
| "text_size _ = 0"

fun encodable :: "pyval \<Rightarrow> bool" where
  "encodable (VStr s) \<longleftrightarrow> utf8_len s \<noteq> None"
| "encodable (VList xs) \<longleftrightarrow> list_all encodable xs"
| "encodable (VDict d) \<longleftrightarrow> list_all (\<lambda>e. utf8_len (fst e) \<noteq> None \<and> encodable (snd e)) d"
| "encodable (VFloat f) \<longleftrightarrow> (case f of FFin _ \<Rightarrow> True | _ \<Rightarrow> False)"
| "encodable (VObj _) \<longleftrightarrow> False"
| "encodable _ \<longleftrightarrow> True"

definition within_budget :: "limits \<Rightarrow> pyval \<Rightarrow> bool" where
  "within_budget lims v \<longleftrightarrow>
     encodable v \<and> node_count v \<le> max_nodes lims \<and> nesting v \<le> max_depth lims
     \<and> text_size v \<le> max_bytes lims"

lemma denotes_object:
  "h a = OStr s \<Longrightarrow> denotes h a v \<longleftrightarrow> v = VStr s"
  "h a = ODict items \<Longrightarrow> denotes h a v \<longleftrightarrow> (\<exists>d. v = VDict d \<and>
     list_all2 (\<lambda>i e. h (fst i) = OStr (fst e) \<and> denotes h (snd i) (snd e)) items d)"
  "h a = OList cs \<Longrightarrow> denotes h a v \<longleftrightarrow> (\<exists>xs. v = VList xs \<and> list_all2 (denotes h) cs xs)"
  "h a = OFloat f \<Longrightarrow> denotes h a v \<longleftrightarrow> v = VFloat f"
  "h a = ONone \<Longrightarrow> denotes h a v \<longleftrightarrow> v = VNone"
  "h a = OBool b \<Longrightarrow> denotes h a v \<longleftrightarrow> v = VBool b"
  "h a = OInt i \<Longrightarrow> denotes h a v \<longleftrightarrow> v = VInt i"
  "h a = OObj t \<Longrightarrow> denotes h a v \<longleftrightarrow> v = VObj t"
  by (subst denotes.simps; simp)+

lemma denotes_unique: "denotes h a v \<Longrightarrow> denotes h a w \<Longrightarrow> v = w"
proof (induction arbitrary: w rule: denotes.induct)
  case (denotes_dict a items d)
  from denotes_dict(3) obtain e where w: "w = VDict e"
    "list_all2 (\<lambda>i e. h (fst i) = OStr (fst e) \<and> denotes h (snd i) (snd e)) items e"
    using denotes_object(2) [of h a items w] denotes_dict(1) by blast
  have "d = e"
  proof (rule nth_equalityI)
    show "length d = length e"
      using list_all2_lengthD [OF denotes_dict(2)] list_all2_lengthD [OF w(2)] by simp
    fix i assume "i < length d"
    then show "d ! i = e ! i"
      using denotes_dict(2) w(2) by (auto simp: list_all2_conv_all_nth prod_eq_iff)
  qed
  then show ?case using w by simp
next
  case (denotes_list a cs xs)
  from denotes_list(3) obtain ys where w: "w = VList ys" "list_all2 (denotes h) cs ys"
    using denotes_object(3) [of h a cs w] denotes_list(1) by blast
  have "xs = ys"
  proof (rule nth_equalityI)
    show "length xs = length ys"
      using list_all2_lengthD [OF denotes_list(2)] list_all2_lengthD [OF w(2)] by simp
    fix i assume "i < length xs"
    then show "xs ! i = ys ! i"
      using denotes_list(2) w(2) by (auto simp: list_all2_conv_all_nth)
  qed
  then show ?case using w by simp
qed (simp_all add: denotes_object)

section \<open>The loop against the measures\<close>

text \<open>The subtree \<open>v\<close> at depth \<open>d\<close> fits what is left of the budget after \<open>w\<close>.\<close>

definition fits :: "limits \<Rightarrow> walk \<Rightarrow> nat \<Rightarrow> pyval \<Rightarrow> bool" where
  "fits lims w d v \<longleftrightarrow>
     encodable v \<and> nodes w + node_count v \<le> max_nodes lims \<and> d + nesting v \<le> max_depth lims
     \<and> text_bytes w + text_size v \<le> max_bytes lims"

definition advance :: "pyval \<Rightarrow> walk \<Rightarrow> walk" where
  "advance v w = w\<lparr>nodes := nodes w + node_count v, text_bytes := text_bytes w + text_size v\<rparr>"

definition room :: "limits \<Rightarrow> walk \<Rightarrow> bool" where
  "room lims w \<longleftrightarrow> nodes w \<le> max_nodes lims \<and> text_bytes w \<le> max_bytes lims"

text \<open>The loop, started on the entry \<open>(a, d)\<close> below which lies the tree \<open>v\<close>, does what the measures say.\<close>

definition processes :: "heap \<Rightarrow> limits \<Rightarrow> addr set \<Rightarrow> addr \<Rightarrow> nat \<Rightarrow> pyval \<Rightarrow> bool" where
  "processes h lims act a d v \<longleftrightarrow>
     (\<forall>w rest. active_containers w = act \<longrightarrow> room lims w \<longrightarrow>
        (if fits lims w d v
         then validate_loop h lims w ((a, d, False) # rest) = validate_loop h lims (advance v w) rest
         else isl (validate_loop h lims w ((a, d, False) # rest))))"

lemma isl_rbind: "isl (rbind m f) \<longleftrightarrow> isl m \<or> (\<exists>x. m = Inr x \<and> isl (f x))"
  by (cases m) auto

text \<open>A list of entries at the same depth, such as the children of a container.\<close>

definition fits_all :: "limits \<Rightarrow> walk \<Rightarrow> nat \<Rightarrow> pyval list \<Rightarrow> bool" where
  "fits_all lims w d vs \<longleftrightarrow>
     list_all encodable vs \<and> nodes w + sum_list (map node_count vs) \<le> max_nodes lims
     \<and> (\<forall>v \<in> set vs. d + nesting v \<le> max_depth lims)
     \<and> text_bytes w + sum_list (map text_size vs) \<le> max_bytes lims"

definition advance_all :: "pyval list \<Rightarrow> walk \<Rightarrow> walk" where
  "advance_all vs w =
     w\<lparr>nodes := nodes w + sum_list (map node_count vs), text_bytes := text_bytes w + sum_list (map text_size vs)\<rparr>"

lemma process_list:
  assumes "list_all2 (\<lambda>a v. processes h lims act a d v) as vs" and "active_containers w = act" and "room lims w"
  shows "if fits_all lims w d vs
    then validate_loop h lims w (map (\<lambda>a. (a, d, False)) as @ rest) = validate_loop h lims (advance_all vs w) rest
    else isl (validate_loop h lims w (map (\<lambda>a. (a, d, False)) as @ rest))"
  using assms
proof (induction as vs arbitrary: w rule: list_all2_induct)
  case Nil
  then show ?case by (simp add: fits_all_def advance_all_def room_def)
next
  case (Cons a as v vs)
  let ?rest = "map (\<lambda>a. (a, d, False)) as @ rest"
  have p: "if fits lims w d v
         then validate_loop h lims w ((a, d, False) # ?rest) = validate_loop h lims (advance v w) ?rest
         else isl (validate_loop h lims w ((a, d, False) # ?rest))"
    using Cons.hyps(1) Cons.prems unfolding processes_def by blast
  have act: "active_containers (advance v w) = act" using Cons.prems by (simp add: advance_def)
  show ?case
  proof (cases "fits lims w d v")
    case True
    then have "room lims (advance v w)" by (simp add: room_def fits_def advance_def)
    note IH = Cons.IH [OF act this]
    have "fits_all lims (advance v w) d vs \<longleftrightarrow> fits_all lims w d (v # vs)"
      using True by (auto simp: fits_all_def fits_def advance_def add.assoc)
    moreover have "advance_all vs (advance v w) = advance_all (v # vs) w"
      by (simp add: advance_all_def advance_def add.assoc)
    ultimately show ?thesis using p True IH by (auto split: if_splits)
  next
    case False
    then have "\<not> fits_all lims w d (v # vs)" by (auto simp: fits_all_def fits_def)
    then show ?thesis using p False by simp
  qed
qed

lemma process_leaf:
  assumes "h a = OStr s \<and> v = VStr s \<or> h a = OFloat f \<and> v = VFloat f \<or> h a = ONone \<and> v = VNone
    \<or> h a = OBool b \<and> v = VBool b \<or> h a = OInt i \<and> v = VInt i \<or> h a = OObj t \<and> v = VObj t"
  shows "processes h lims act a d v"
  using assms
  by (auto simp: processes_def room_def fits_def advance_def validate_loop.simps(2) validate_step_def Let_def
      str_bytes_def demand_def split: option.splits pyfloat.splits)

lemma push_items_ok:
  assumes "list_all2 (\<lambda>i e. h (fst i) = OStr (fst e)) items es"
  shows "push_items h d items st
    = Inr (map (\<lambda>a. (a, Suc d, False)) (concat (map (\<lambda>i. [fst i, snd i]) (rev items))) @ st)"
  using assms
proof (induction items es arbitrary: st rule: list_all2_induct)
  case (Cons i items e es)
  then show ?case by (cases i) (simp add: Cons.IH)
qed simp

lemma max_list_le: "foldr max (map f xs) (0::nat) \<le> n \<longleftrightarrow> (\<forall>x \<in> set xs. f x \<le> n)"
  by (induction xs) auto

text \<open>A container at depth \<open>d\<close> whose entries, in the order of the stack, denote \<open>vs\<close>.\<close>

lemma process_container:
  assumes step: "\<And>(w :: walk) rest. active_containers w = act \<Longrightarrow> Suc (nodes w) \<le> max_nodes lims \<Longrightarrow> d \<le> max_depth lims \<Longrightarrow>
      validate_step h lims (a, d, False) w rest
        = Inr (w\<lparr>nodes := Suc (nodes w), active_containers := insert a act\<rparr>,
               map (\<lambda>a. (a, Suc d, False)) as @ (a, d, True) # rest)"
    and fail: "\<And>(w :: walk) rest. \<not> (Suc (nodes w) \<le> max_nodes lims \<and> d \<le> max_depth lims) \<Longrightarrow>
      isl (validate_step h lims (a, d, False) w rest)"
    and children: "list_all2 (\<lambda>c v. processes h lims (insert a act) c (Suc d) v) as vs"
    and fresh: "a \<notin> act"
    and measures: "node_count v = Suc (sum_list (map node_count vs))" "text_size v = sum_list (map text_size vs)"
      "encodable v \<longleftrightarrow> list_all encodable vs" "nesting v = foldr max (map (\<lambda>v. Suc (nesting v)) vs) 0"
  shows "processes h lims act a d v"
  unfolding processes_def
proof (intro allI impI)
  fix w :: walk and rest assume act: "active_containers w = act" and room: "room lims w"
  let ?w = "w\<lparr>nodes := Suc (nodes w), active_containers := insert a act\<rparr>"
  let ?st = "map (\<lambda>a. (a, Suc d, False)) as @ (a, d, True) # rest"
  show "if fits lims w d v
         then validate_loop h lims w ((a, d, False) # rest) = validate_loop h lims (advance v w) rest
         else isl (validate_loop h lims w ((a, d, False) # rest))"
  proof (cases "Suc (nodes w) \<le> max_nodes lims \<and> d \<le> max_depth lims")
    case False
    then have "\<not> fits lims w d v" using measures(1) by (auto simp: fits_def)
    then show ?thesis using fail [OF False, of rest] by (auto simp: validate_loop.simps(2) isl_rbind)
  next
    case True
    have loop: "validate_loop h lims w ((a, d, False) # rest) = validate_loop h lims ?w ?st"
      using step [OF act] True by (simp add: validate_loop.simps(2))
    have exit: "validate_loop h lims (advance_all vs ?w) ((a, d, True) # rest) = validate_loop h lims (advance v w) rest"
      using act fresh measures(1,2)
      by (cases w) (simp add: validate_loop.simps(2) validate_step_def advance_all_def advance_def)
    have "d + nesting v \<le> max_depth lims \<longleftrightarrow> (\<forall>v \<in> set vs. Suc d + nesting v \<le> max_depth lims)"
      using True measures(4) max_list_le [of "\<lambda>v. Suc (nesting v)" vs "max_depth lims - d"] by auto
    then have same: "fits_all lims ?w (Suc d) vs \<longleftrightarrow> fits lims w d v"
      using measures(1-3) by (auto simp: fits_all_def fits_def)
    have "room lims ?w" using room True by (simp add: room_def)
    from process_list [OF children _ this, of "(a, d, True) # rest"] loop exit same
    show ?thesis by auto
  qed
qed

lemma size_VDict_item: "e \<in> set d \<Longrightarrow> size (snd e) < size (VDict d)"
  using size_pyval_item [of "fst e" "snd e" d] by simp

lemma size_VList_elem: "x \<in> set xs \<Longrightarrow> size x < size (VList xs)"
  using size_pyval_elem [of x xs] by simp

definition dict_entries :: "pydict \<Rightarrow> pyval list" where
  "dict_entries d = concat (map (\<lambda>e. [VStr (fst e), snd e]) (rev d))"

lemma dict_entries_measures:
  "node_count (VDict d) = Suc (sum_list (map node_count (dict_entries d)))"
  "text_size (VDict d) = sum_list (map text_size (dict_entries d))"
  "encodable (VDict d) \<longleftrightarrow> list_all encodable (dict_entries d)"
  "nesting (VDict d) = foldr max (map (\<lambda>v. Suc (nesting v)) (dict_entries d)) 0"
proof -
  show "node_count (VDict d) = Suc (sum_list (map node_count (dict_entries d)))"
    "text_size (VDict d) = sum_list (map text_size (dict_entries d))"
    by (induction d) (simp_all add: dict_entries_def)
  show "encodable (VDict d) \<longleftrightarrow> list_all encodable (dict_entries d)"
    by (induction d) (auto simp: dict_entries_def)
  have "nesting (VDict d) \<le> n \<longleftrightarrow> foldr max (map (\<lambda>v. Suc (nesting v)) (dict_entries d)) 0 \<le> n" for n
    by (auto simp: max_list_le dict_entries_def)
  then show "nesting (VDict d) = foldr max (map (\<lambda>v. Suc (nesting v)) (dict_entries d)) 0"
    by (metis le_antisym order_refl)
qed

lemma list_all2_pairs:
  "list_all2 (\<lambda>i p. Q (fst i) (f p) \<and> Q (snd i) (g p)) is ps \<Longrightarrow>
     list_all2 Q (concat (map (\<lambda>i. [fst i, snd i]) is)) (concat (map (\<lambda>p. [f p, g p]) ps))"
  by (induction rule: list_all2_induct) auto

lemma denotes_processes:
  assumes "denotes h a v" and "\<forall>x \<in> act. \<exists>w. denotes h x w \<and> size v < size w"
  shows "processes h lims act a d v"
  using assms
proof (induction arbitrary: act d rule: denotes.induct)
  case (denotes_dict a items e)
  have self: "denotes h a (VDict e)"
    by (rule denotes.denotes_dict [of h a items, OF denotes_dict(1)], rule list_all2_mono [OF denotes_dict(2)]) simp
  have fresh: "a \<notin> act" using denotes_dict(3) denotes_unique [OF self] by blast
  have smaller: "\<forall>x \<in> insert a act. \<exists>w. denotes h x w \<and> size (snd p) < size w" if "p \<in> set e" for p
    using denotes_dict(3) self size_VDict_item [OF that] by (metis insert_iff order.strict_trans)
  have kids: "list_all2 (\<lambda>i p. processes h lims (insert a act) (fst i) (Suc d) (VStr (fst p))
      \<and> processes h lims (insert a act) (snd i) (Suc d) (snd p)) items e"
    using denotes_dict(2) smaller
    by (auto simp: list_all2_conv_all_nth intro!: process_leaf)
  have "list_all2 (\<lambda>c v. processes h lims (insert a act) c (Suc d) v)
      (concat (map (\<lambda>i. [fst i, snd i]) (rev items))) (dict_entries e)"
    unfolding dict_entries_def using kids by (intro list_all2_pairs) simp
  moreover have "list_all2 (\<lambda>i p. h (fst i) = OStr (fst p)) items e"
    using denotes_dict(2) by (auto elim: list_all2_mono)
  ultimately show ?case using fresh denotes_dict(1) push_items_ok [of h items e]
    by (intro process_container [OF _ _ _ _ dict_entries_measures])
      (auto simp: validate_step_def Let_def enter_container_def demand_def)
next
  case (denotes_list a cs xs)
  have self: "denotes h a (VList xs)"
    by (rule denotes.denotes_list [of h a cs, OF denotes_list(1)], rule list_all2_mono [OF denotes_list(2)]) simp
  have fresh: "a \<notin> act" using denotes_list(3) denotes_unique [OF self] by blast
  have smaller: "\<forall>x \<in> insert a act. \<exists>w. denotes h x w \<and> size p < size w" if "p \<in> set xs" for p
    using denotes_list(3) self size_VList_elem [OF that] by (metis insert_iff order.strict_trans)
  have "list_all2 (\<lambda>c v. processes h lims (insert a act) c (Suc d) v) cs xs"
    using denotes_list(2) smaller by (auto simp: list_all2_conv_all_nth)
  then show ?case using fresh denotes_list(1)
    by (intro process_container [of act lims d h a cs xs "VList xs"])
      (auto simp: validate_step_def Let_def enter_container_def demand_def)
qed (rule process_leaf, simp)+

lemma push_items_Inr:
  "push_items h d items st = Inr st' \<Longrightarrow>
     (\<forall>i \<in> set items. (\<exists>s. h (fst i) = OStr s) \<and> (snd i, Suc d, False) \<in> set st') \<and> set st \<subseteq> set st'"
proof (induction h d items st rule: push_items.induct)
  case (2 h d k c items st)
  then show ?case by (fastforce split: obj.splits)
qed simp

lemma list_all2_choice: "\<forall>x \<in> set xs. \<exists>y. P x y \<Longrightarrow> \<exists>ys. list_all2 P xs ys"
proof (induction xs)
  case (Cons x xs)
  then obtain y ys where "P x y" "list_all2 P xs ys" by auto
  then show ?case by (intro exI [of _ "y # ys"]) simp
qed (rule exI [of _ "[]"], simp)

lemma denotes_dict_exists:
  assumes "h a = ODict items" and "\<forall>i \<in> set items. (\<exists>s. h (fst i) = OStr s) \<and> (\<exists>v. denotes h (snd i) v)"
  shows "\<exists>v. denotes h a v"
proof -
  have "\<forall>i \<in> set items. \<exists>e. h (fst i) = OStr (fst e) \<and> denotes h (snd i) (snd e)"
    using assms(2) by (metis fst_conv snd_conv)
  then obtain d where "list_all2 (\<lambda>i e. h (fst i) = OStr (fst e) \<and> denotes h (snd i) (snd e)) items d"
    using list_all2_choice [of items "\<lambda>i e. h (fst i) = OStr (fst e) \<and> denotes h (snd i) (snd e)"] by blast
  then show ?thesis using denotes.denotes_dict [of h a items d] assms(1) by blast
qed

lemma denotes_list_exists:
  assumes "h a = OList cs" and "\<forall>c \<in> set cs. \<exists>v. denotes h c v"
  shows "\<exists>v. denotes h a v"
proof -
  from assms(2) obtain xs where "list_all2 (denotes h) cs xs" by (blast dest: list_all2_choice)
  then show ?thesis using denotes.denotes_list [of h a cs xs] assms(1) by blast
qed

lemma accepted_denotes:
  "validate_loop h lims w st = Inr () \<Longrightarrow> (a, d, False) \<in> set st \<Longrightarrow> \<exists>v. denotes h a v"
proof (induction h lims w st arbitrary: a d rule: validate_loop.induct)
  case (2 h lims w entry rest)
  obtain b k x where entry: "entry = (b, k, x)" by (cases entry)
  from 2(2) obtain w' st' where s: "validate_step h lims entry w rest = Inr (w', st')"
    "validate_loop h lims w' st' = Inr ()"
    by (auto simp: validate_loop.simps(2) rbind_eq_Inr)
  have IH: "(c, d', False) \<in> set st' \<Longrightarrow> \<exists>v. denotes h c v" for c d'
    using 2(1) [OF s(1)] s(2) by simp
  show ?case
  proof (cases x)
    case True
    then have "st' = rest" using s(1) entry by (auto simp: validate_step_def split: if_splits)
    then show ?thesis using IH 2(3) entry True by auto
  next
    case False
    have sub: "set rest \<subseteq> set st'"
      using s(1) entry False
      by (auto simp: validate_step_def Let_def demand_eq_Inr rbind_eq_Inr dest!: push_items_Inr
          split: obj.splits option.splits pyfloat.splits)
    have "\<exists>v. denotes h b v"
    proof (cases "h b")
      case (ODict items)
      from s(1) entry False ODict obtain st where "push_items h k items st = Inr st'"
        by (auto simp: validate_step_def Let_def demand_eq_Inr rbind_eq_Inr)
      from push_items_Inr [OF this] show ?thesis
        using IH denotes_dict_exists [of h b items] ODict by blast
    next
      case (OList cs)
      from s(1) entry False OList have "st' = map (\<lambda>c. (c, k + 1, False)) cs @ (b, k, True) # rest"
        by (auto simp: validate_step_def Let_def demand_eq_Inr rbind_eq_Inr)
      then show ?thesis using IH denotes_list_exists [of h b cs] OList by fastforce
    qed (auto intro: denotes.intros)
    then show ?thesis using IH 2(3) entry False sub by auto
  qed
qed simp

lemma validate_shape_iff:
  "validate_shape h lims a = Inr () \<longleftrightarrow> (\<exists>v. denotes h a v \<and> within_budget lims v)"
proof -
  let ?w = "\<lparr>nodes = 0, text_bytes = 0, active_containers = {}\<rparr>"
  have fits: "fits lims ?w 0 v \<longleftrightarrow> within_budget lims v" for v
    by (simp add: fits_def within_budget_def)
  have accept: "validate_shape h lims a = Inr () \<longleftrightarrow> within_budget lims v" if "denotes h a v" for v
  proof -
    have "processes h lims {} a 0 v" by (rule denotes_processes [OF that]) simp
    moreover have "room lims ?w" by (simp add: room_def)
    ultimately have p: "if fits lims ?w 0 v
         then validate_loop h lims ?w [(a, 0, False)] = validate_loop h lims (advance v ?w) []
         else isl (validate_loop h lims ?w [(a, 0, False)])"
      unfolding processes_def by simp
    then show ?thesis
      unfolding validate_shape_def using fits [of v]
      by (cases "validate_loop h lims ?w [(a, 0, False)]") (auto split: if_splits)
  qed
  show ?thesis
  proof
    assume ok: "validate_shape h lims a = Inr ()"
    then obtain v where "denotes h a v"
      unfolding validate_shape_def using accepted_denotes by fastforce
    with accept ok show "\<exists>v. denotes h a v \<and> within_budget lims v" by blast
  qed (use accept in blast)
qed

text \<open>
  C31: The shape check decides exactly what the transport means by a request: it accepts an object if and
  only if the object is a finite tree of JSON values with text keys, finite numbers and encodable text
  whose nodes (keys included), nesting and text bytes are within the limits. Shared objects are counted
  once per occurrence, and an object that contains itself, at any distance, is rejected; the loop always
  ends.
\<close>

theorem validate_shape_exact:
  "validate_shape h lims a = Inr () \<longleftrightarrow> (\<exists>v. denotes h a v \<and> within_budget lims v)"
  by (rule validate_shape_iff)
section \<open>The encoded line\<close>

fun chunk_text :: "(pyexn + pystr) list \<Rightarrow> pyexn + pystr" where
  "chunk_text [] = Inr []"
| "chunk_text (c # cs) = rbind c (\<lambda>t. rbind (chunk_text cs) (\<lambda>r. Inr (t @ r)))"

lemma chunk_text_append:
  "chunk_text (a @ b) = rbind (chunk_text a) (\<lambda>t. rbind (chunk_text b) (\<lambda>r. Inr (t @ r)))"
  by (induction a) (simp_all add: rbind_assoc cong: rbind_cong, simp_all add: rbind_def split: sum.splits)

text \<open>A list of parts, each preceded by the separator.\<close>

lemma chunk_text_parts:
  assumes "\<And>y. y \<in> set ys \<Longrightarrow> chunk_text (f y) = rbind (g y) (\<lambda>t. Inr (44 # t))"
  shows "chunk_text (concat (map f ys)) = rbind (rmap g ys) (\<lambda>ts. Inr (concat (map (\<lambda>t. 44 # t) ts)))"
  using assms
  by (induction ys) (simp_all add: chunk_text_append rbind_def split: sum.splits)

lemma join_Cons: "join sep (t # ts) = t @ concat (map (\<lambda>r. sep @ r) ts)"
  by (induction ts arbitrary: t) simp_all

lemma scalar_chunk_None: "scalar_chunk py x = None \<longleftrightarrow> is_list x \<or> is_dict x"
  by (cases x) auto

lemma scalar_chunk_Some: "scalar_chunk py x = Some r \<Longrightarrow> r = json_text py False False x"
  by (cases x) auto

lemma chunk_text_iter: "chunk_text (iter_chunks py v) = json_text py False False v"
proof (induction py v rule: iter_chunks.induct)
  case (2 py x xs)
  have part: "chunk_text (case scalar_chunk py y of Some r \<Rightarrow> [prefixed [c] r] | None \<Rightarrow> Inr [c] # iter_chunks py y)
      = rbind (json_text py False False y) (\<lambda>t. Inr (c # t))"
    if "scalar_chunk py y = None \<Longrightarrow> chunk_text (iter_chunks py y) = json_text py False False y" for y c
    using that by (cases "scalar_chunk py y")
      (auto dest!: scalar_chunk_Some simp: prefixed_def rbind_def split: sum.splits)
  show ?case
    using part [of x 91] 2(1) chunk_text_parts [of xs _ "json_text py False False", OF part [OF 2(2)]]
    by (simp add: chunk_text_append) (simp add: rbind_def join_Cons split: sum.splits)
next
  case (4 py kx d)
  have part: "chunk_text (case scalar_chunk py y of Some r \<Rightarrow> [r] | None \<Rightarrow> iter_chunks py y)
      = json_text py False False y"
    if "scalar_chunk py y = None \<Longrightarrow> chunk_text (iter_chunks py y) = json_text py False False y" for y
    using that by (cases "scalar_chunk py y")
      (auto dest!: scalar_chunk_Some simp: rbind_def split: sum.splits)
  let ?item = "\<lambda>kv. rbind (json_text py False False (snd kv)) (\<lambda>t. Inr (json_string (fst kv) @ [58] @ t))"
  let ?f = "\<lambda>ky. [Inr [44], Inr (json_string (fst ky)), Inr [58]]
          @ (case scalar_chunk py (snd ky) of Some r \<Rightarrow> [r] | None \<Rightarrow> iter_chunks py (snd ky))"
  have "chunk_text (?f ky) = rbind (?item ky) (\<lambda>t. Inr (44 # t))" if "ky \<in> set d" for ky
    using part [of "snd ky"] 4(2) [OF that] by (simp add: rbind_def split: sum.splits)
  from chunk_text_parts [of d ?f ?item, OF this] show ?case
    using part [of "snd kx"] 4(1)
    by (simp add: chunk_text_append item_order_def) (simp add: rbind_def join_Cons split: sum.splits)
qed (simp_all add: item_order_def rbind_def u_def split: sum.splits)

lemma collect_chunks_Inr:
  "n \<le> max_bytes lims \<Longrightarrow> collect_chunks lims cs n = Inr t \<longleftrightarrow>
     chunk_text cs = Inr t \<and> (\<exists>k. utf8_len t = Some k \<and> n + k \<le> max_bytes lims)"
proof (induction cs arbitrary: n t)
  case (Cons c cs)
  show ?case
  proof (cases c)
    case (Inr s)
    show ?thesis
    proof (cases "utf8_len s")
      case None
      then show ?thesis using Inr by (auto simp: rbind_eq_Inr utf8_len_append)
    next
      case (Some k)
      show ?thesis
      proof (cases "n + k \<le> max_bytes lims")
        case True
        then show ?thesis using Inr Some
          by (auto simp: rbind_eq_Inr Cons.IH [OF True] utf8_len_append split: option.splits)
      next
        case False
        then show ?thesis using Inr Some
          by (auto simp: rbind_eq_Inr utf8_len_append split: option.splits)
      qed
    qed
  qed simp
qed auto

lemma nat_text_no_control [simp]: "2 \<le> b \<Longrightarrow> c < 48 \<Longrightarrow> c \<notin> set (nat_text b n)"
  by (auto dest!: nat_text_digits simp: digit_cp_def split: if_splits)

lemma json_string_no_newline: "10 \<notin> set (json_string s)"
proof -
  have "10 \<notin> set (zero_pad 4 (map (\<lambda>d. if 65 \<le> d then d + 32 else d) (nat_text 16 c)))" for c
    by (auto simp: zero_pad_def)
  then have "10 \<notin> set (json_escape_cp c)" for c
    by (simp add: json_escape_cp_def)
  then show ?thesis by (auto simp: json_string_def)
qed

lemma join_set: "set (join sep ts) \<subseteq> set sep \<union> \<Union> (set ` set ts)"
  by (induction sep ts rule: join.induct) auto

lemma int_str_no_newline: "int_str py i = Inr t \<Longrightarrow> 10 \<notin> set t"
  by (auto dest!: int_str_Inr simp: int_text_def u_def split: if_splits)

lemma rmap_elem: "rmap f xs = Inr ys \<Longrightarrow> y \<in> set ys \<Longrightarrow> \<exists>x \<in> set xs. f x = Inr y"
  by (induction xs arbitrary: ys) (auto simp: rbind_eq_Inr)

lemma json_text_no_newline:
  assumes "\<forall>r. 10 \<notin> set (float_text py r)"
  shows "json_text py srt nan v = Inr t \<Longrightarrow> 10 \<notin> set t"
  using assms
proof (induction py srt nan v arbitrary: t rule: json_text.induct)
  case (6 py srt nan xs)
  from 6(2) obtain ts where ts: "rmap (json_text py srt nan) xs = Inr ts" "t = [91] @ join [44] ts @ [93]"
    by (auto simp: rbind_eq_Inr)
  have "10 \<notin> set s" if "s \<in> set ts" for s
    using rmap_elem [OF ts(1) that] 6(1,3) by blast
  then show ?case using join_set [of "[44]" ts] ts(2) by auto
next
  case (7 py srt nan d)
  from 7(2) obtain ts where ts: "rmap (\<lambda>kv. rbind (json_text py srt nan (snd kv))
      (\<lambda>t. Inr (json_string (fst kv) @ [58] @ t))) (item_order srt d) = Inr ts" "t = [123] @ join [44] ts @ [125]"
    by (auto simp: rbind_eq_Inr)
  have "10 \<notin> set s" if "s \<in> set ts" for s
    using rmap_elem [OF ts(1) that] 7(1,3) json_string_no_newline by (auto simp: rbind_eq_Inr)
  then show ?case using join_set [of "[44]" ts] ts(2) by auto
next
  case (4 py srt nan f)
  then show ?case by (cases f) (auto simp: u_def split: if_splits)
qed (auto simp: u_def json_string_no_newline dest: int_str_no_newline)

lemma encode_json_line_iff:
  assumes "denotes h a v" and "1 \<le> max_bytes lims" and "\<forall>r. 10 \<notin> set (float_text py r)"
  shows "(encode_json_line py h lims a v = Inr line \<longleftrightarrow>
      within_budget lims v \<and> (\<exists>t k. json_text py False False v = Inr t \<and> line = t @ [10]
        \<and> utf8_len line = Some k \<and> k \<le> max_bytes lims))
    \<and> (encode_json_line py h lims a v = Inr line \<longrightarrow> 10 \<notin> set (butlast line))"
proof -
  have shape: "validate_shape h lims a = Inr () \<longleftrightarrow> within_budget lims v"
    using validate_shape_iff [of h lims a] assms(1) denotes_unique by blast
  have "encode_json_line py h lims a v = Inr line \<longleftrightarrow>
      within_budget lims v \<and> (\<exists>t k. json_text py False False v = Inr t \<and> line = t @ [10]
        \<and> utf8_len line = Some k \<and> k \<le> max_bytes lims)" (is "?l \<longleftrightarrow> ?r")
    using shape collect_chunks_Inr [of 1 lims "iter_chunks py v"] assms(2)
    by (auto simp: encode_json_line_def rbind_eq_Inr chunk_text_iter utf8_len_append utf8_cp_len_def
        split: option.splits)
  then show ?thesis using json_text_no_newline [OF assms(3)] by auto
qed

text \<open>
  A request line is exactly the compact JSON text of the value and a newline, and it exists exactly
  when the shape is within the budget, every number can be written and the whole line, in UTF-8, is
  within the byte limit. The text itself contains no newline, so one request is one line of the worker's
  input.
\<close>

theorem encode_json_line_exact:
  assumes "denotes h a v" and "1 \<le> max_bytes lims" and "\<forall>r. 10 \<notin> set (float_text py r)"
  shows "(encode_json_line py h lims a v = Inr line \<longleftrightarrow>
      within_budget lims v \<and> (\<exists>t k. json_text py False False v = Inr t \<and> line = t @ [10]
        \<and> utf8_len line = Some k \<and> k \<le> max_bytes lims))
    \<and> (encode_json_line py h lims a v = Inr line \<longrightarrow> 10 \<notin> set (butlast line))"
  using assms by (rule encode_json_line_iff)

text \<open>The request \<^verbatim>\<open>{"operation": ["x", "x"]}\<close> with a shared text.\<close>

definition sample_heap :: heap where
  "sample_heap a =
     (if a = 0 then ODict [(1, 2)] else if a = 1 then OStr (u ''operation'')
      else if a = 2 then OList [3, 3] else OStr (u ''x''))"

definition sample_value :: pyval where
  "sample_value = VDict [(u ''operation'', VList [VStr (u ''x''), VStr (u ''x'')])]"

lemma sample_denotes: "denotes sample_heap 0 sample_value"
proof -
  have "denotes sample_heap 3 (VStr (u ''x''))"
    by (rule denotes_str) (simp add: sample_heap_def)
  then have "denotes sample_heap 2 (VList [VStr (u ''x''), VStr (u ''x'')])"
    using denotes_list [of sample_heap 2 "[3, 3]"] by (simp add: sample_heap_def)
  then show ?thesis
    using denotes_dict [of sample_heap 0 "[(1, 2)]" "[(u ''operation'', VList [VStr (u ''x''), VStr (u ''x'')])]"]
    by (simp add: sample_value_def) (simp add: sample_heap_def)
qed

theorem encode_json_line_exact_witness:
  "\<exists>line. encode_json_line \<lparr>float_text = (\<lambda>_. []), sha256 = (\<lambda>_. []), digit_limit = 4300\<rparr>
     sample_heap request_limits 0 sample_value = Inr line \<and> 10 \<notin> set (butlast line)"
proof -
  let ?py = "\<lparr>float_text = (\<lambda>_. []), sha256 = (\<lambda>_. []), digit_limit = 4300\<rparr> :: interp"
  let ?line = "u ''{\"operation\":[\"x\",\"x\"]}'' @ [10]"
  note limits = request_limits_def MAX_REQUEST_BYTES_def MAX_REQUEST_NODES_def MAX_REQUEST_DEPTH_def
  have one: "1 \<le> max_bytes request_limits" by (simp add: limits)
  have "utf8_len (u ''operation'') = Some 9" "utf8_len (u ''x'') = Some 1"
    by (simp_all add: u_def utf8_cp_len_def)
  then have "within_budget request_limits sample_value"
    by (simp add: within_budget_def sample_value_def limits str_bytes_def)
  moreover have "json_text ?py False False sample_value = Inr (u ''{\"operation\":[\"x\",\"x\"]}'')"
    by (simp add: sample_value_def item_order_def json_string_def json_escape_cp_def u_def)
  moreover have "utf8_len ?line = Some 24"
    by (simp add: u_def utf8_cp_len_def)
  ultimately have "encode_json_line ?py sample_heap request_limits 0 sample_value = Inr ?line
      \<and> 10 \<notin> set (butlast ?line)"
    using encode_json_line_exact [OF sample_denotes one, of ?py ?line] by (simp add: limits)
  then show ?thesis by blast
qed

section \<open>A heap for every value\<close>

text \<open>
  Every value is denoted by some object: its parts are placed at the codes of their paths, the key and
  the value of the \<open>i\<close>-th item of a dictionary at \<open>2 * i\<close> and \<open>2 * i + 1\<close>.
\<close>

fun sub_value :: "pyval \<Rightarrow> nat list \<Rightarrow> pyval option" where
  "sub_value v [] = Some v"
| "sub_value (VList xs) (i # p) = (if i < length xs then sub_value (xs ! i) p else None)"
| "sub_value (VDict d) (i # p) =
     (if i div 2 < length d then sub_value (if even i then VStr (fst (d ! (i div 2))) else snd (d ! (i div 2))) p
      else None)"
| "sub_value _ _ = None"

definition place :: "nat list \<Rightarrow> addr" where
  "place p = to_nat p"

fun obj_of :: "nat list \<Rightarrow> pyval \<Rightarrow> obj" where
  "obj_of p (VStr s) = OStr s"
| "obj_of p (VList xs) = OList (map (\<lambda>i. place (p @ [i])) [0..<length xs])"
| "obj_of p (VDict d) = ODict (map (\<lambda>i. (place (p @ [2 * i]), place (p @ [2 * i + 1]))) [0..<length d])"
| "obj_of p (VFloat f) = OFloat f"
| "obj_of p VNone = ONone"
| "obj_of p (VBool b) = OBool b"
| "obj_of p (VInt i) = OInt i"
| "obj_of p (VObj t) = OObj t"

definition heap_of :: "pyval \<Rightarrow> heap" where
  "heap_of v a = (let p = from_nat a in case sub_value v p of Some w \<Rightarrow> obj_of p w | None \<Rightarrow> ONone)"

lemma heap_of_place: "sub_value v p = Some w \<Longrightarrow> heap_of v (place p) = obj_of p w"
  by (simp add: heap_of_def place_def)

lemma sub_value_snoc: "sub_value v p = Some w \<Longrightarrow> sub_value v (p @ q) = sub_value w q"
  by (induction v p rule: sub_value.induct) (auto split: if_splits)

lemma heap_of_denotes: "sub_value v p = Some w \<Longrightarrow> denotes (heap_of v) (place p) w"
proof (induction w arbitrary: p)
  case (VList xs)
  have "list_all2 (denotes (heap_of v)) (map (\<lambda>i. place (p @ [i])) [0..<length xs]) xs"
    using VList sub_value_snoc [OF VList(2)] by (auto simp: list_all2_conv_all_nth)
  then show ?case using heap_of_place [OF VList(2)] by (auto intro: denotes_list)
next
  case (VDict d)
  have "heap_of v (place (p @ [2 * i])) = OStr (fst (d ! i)) \<and> denotes (heap_of v) (place (p @ [2 * i + 1])) (snd (d ! i))"
    if "i < length d" for i
  proof
    show "heap_of v (place (p @ [2 * i])) = OStr (fst (d ! i))"
      using heap_of_place [of v "p @ [2 * i]"] sub_value_snoc [OF VDict(2)] that by simp
    show "denotes (heap_of v) (place (p @ [2 * i + 1])) (snd (d ! i))"
      using VDict(1) [of "d ! i" "snd (d ! i)" "p @ [2 * i + 1]"] sub_value_snoc [OF VDict(2)] that
      by (cases "d ! i") (auto simp: in_set_conv_nth snds.simps)
  qed
  then have "list_all2 (\<lambda>i e. heap_of v (fst i) = OStr (fst e) \<and> denotes (heap_of v) (snd i) (snd e))
      (map (\<lambda>i. (place (p @ [2 * i]), place (p @ [2 * i + 1]))) [0..<length d]) d"
    by (auto simp: list_all2_conv_all_nth)
  then show ?case using heap_of_place [OF VDict(2)] by (auto intro: denotes_dict)
qed (auto dest!: heap_of_place intro: denotes.intros)

lemma every_value_denoted: "denotes (heap_of v) (place []) v"
  by (rule heap_of_denotes) simp

end
