(* ===== verification/Validation.thy ===== *)
theory Validation
  imports Json
begin

text \<open>
  \<^verbatim>\<open>validation.py\<close>, the argument readers that every operation handler starts with, and
  \<^verbatim>\<open>expression_source.py\<close>, the normalisation of expression sources. \<^verbatim>\<open>str.isidentifier\<close> consults
  Unicode tables and is a parameter.
\<close>

section \<open>Expression sources\<close>

text \<open>The code points of the multiplication, division and minus signs and of pi.\<close>

definition normalize_expression_source :: "pystr \<Rightarrow> pystr" where
  "normalize_expression_source source =
     replace_cp 94 (u ''**'') (replace_cp 960 (u ''pi'') (replace_cp 8722 (u ''-'')
       (replace_cp 247 (u ''/'') (replace_cp 215 (u ''*'') (strip source)))))"

section \<open>Argument readers\<close>

definition string_arg :: "pydict \<Rightarrow> pystr \<Rightarrow> pyval \<Rightarrow> nat \<Rightarrow> pyexn + pystr" where
  "string_arg arguments name dflt max_length =
     (case dget arguments name dflt of
        VStr s \<Rightarrow>
          (let value = strip s in
           demand (value \<noteq> []) (calc ''E_INPUT'' (name @ u '' must not be empty''))
             (demand (length value \<le> max_length) (calc ''E_LIMIT'' (name @ u '' is too long''))
                (Inr value)))
      | _ \<Rightarrow> Inl (calc ''E_INPUT'' (name @ u '' must be a string'')))"

definition range_error :: "pystr \<Rightarrow> int \<Rightarrow> int \<Rightarrow> pyexn" where
  "range_error name minimum maximum =
     calc ''E_LIMIT'' (name @ u '' must be between '' @ int_text minimum @ u '' and '' @ int_text maximum)"

definition integer_arg :: "pydict \<Rightarrow> pystr \<Rightarrow> int \<Rightarrow> int \<Rightarrow> int \<Rightarrow> pyexn + int" where
  "integer_arg arguments name dflt minimum maximum =
     (case dget arguments name (VInt dflt) of
        VInt value \<Rightarrow>
          demand (minimum \<le> value \<and> value \<le> maximum) (range_error name minimum maximum) (Inr value)
      | _ \<Rightarrow> Inl (calc ''E_INPUT'' (name @ u '' must be an integer'')))"

text \<open>\<^verbatim>\<open>_ASCII_INTEGER.fullmatch\<close> and \<^verbatim>\<open>int(text)\<close> on the texts it accepts.\<close>

definition is_digits :: "pystr \<Rightarrow> bool" where
  "is_digits s \<longleftrightarrow> s \<noteq> [] \<and> list_all (\<lambda>c. 48 \<le> c \<and> c \<le> 57) s"

definition unsigned :: "pystr \<Rightarrow> pystr" where
  "unsigned s = (case s of c # t \<Rightarrow> (if c = 43 \<or> c = 45 then t else s) | [] \<Rightarrow> [])"

definition ascii_integer :: "pystr \<Rightarrow> bool" where
  "ascii_integer s \<longleftrightarrow> is_digits (unsigned s)"

definition int_of_text :: "interp \<Rightarrow> pystr \<Rightarrow> pyexn + int" where
  "int_of_text py s =
     (let t = strip s; n = int (digits_val 10 (unsigned t)) in
      demand (digits_allowed py (length (unsigned t))) digit_limit_error
        (Inr (if t \<noteq> [] \<and> hd t = 45 then - n else n)))"

definition exact_integer_arg :: "interp \<Rightarrow> pydict \<Rightarrow> pystr \<Rightarrow> int \<Rightarrow> int \<Rightarrow> pyexn + int" where
  "exact_integer_arg py arguments name minimum maximum =
     rbind
       (case dget_none arguments name of
          VInt value \<Rightarrow> Inr value
        | VStr text \<Rightarrow>
            demand (ascii_integer (strip text))
              (calc ''E_INPUT'' (name @ u '' must be an integer or integer text''))
              (int_of_text py text)
        | _ \<Rightarrow> Inl (calc ''E_INPUT'' (name @ u '' must be an integer or integer text'')))
       (\<lambda>parsed. demand (minimum \<le> parsed \<and> parsed \<le> maximum) (range_error name minimum maximum) (Inr parsed))"

definition list_arg :: "pydict \<Rightarrow> pystr \<Rightarrow> nat \<Rightarrow> nat \<Rightarrow> pyexn + pyval list" where
  "list_arg arguments name minimum maximum =
     (case dget_none arguments name of
        VList xs \<Rightarrow>
          demand (minimum \<le> length xs \<and> length xs \<le> maximum)
            (calc ''E_LIMIT'' (name @ u '' must contain '' @ int_text (int minimum) @ u '' to ''
               @ int_text (int maximum) @ u '' items''))
            (Inr xs)
      | _ \<Rightarrow> Inl (calc ''E_INPUT'' (name @ u '' must be an array'')))"

fun text_of :: "pyval \<Rightarrow> pystr" where
  "text_of (VStr s) = s"
| "text_of _ = []"

definition variables_arg :: "(pystr \<Rightarrow> bool) \<Rightarrow> pydict \<Rightarrow> nat \<Rightarrow> pyexn + pystr list" where
  "variables_arg isidentifier arguments maximum =
     rbind (list_arg arguments (u ''variables'') 1 maximum) (\<lambda>values.
     demand (list_all is_str values) (calc ''E_INPUT'' (u ''variables must contain strings''))
     (let normalized = map (\<lambda>v. strip (text_of v)) values in
      demand (list_all isidentifier normalized)
        (calc ''E_INPUT'' (u ''variables must be valid identifiers''))
     (demand (distinct normalized) (calc ''E_INPUT'' (u ''variables must not contain duplicates''))
        (Inr normalized))))"

definition enum_arg :: "pydict \<Rightarrow> pystr \<Rightarrow> pystr list \<Rightarrow> pystr \<Rightarrow> pyexn + pystr" where
  "enum_arg arguments name choices dflt =
     (case dget arguments name (VStr dflt) of
        VStr value \<Rightarrow>
          demand (value \<in> set choices)
            (calc ''E_INPUT'' (name @ u '' must be one of: '' @ join (u '', '') choices)) (Inr value)
      | _ \<Rightarrow> Inl (calc ''E_INPUT'' (name @ u '' must be one of: '' @ join (u '', '') choices)))"

section \<open>What the readers return\<close>

lemma string_arg_Inr:
  "string_arg a name d m = Inr s \<longleftrightarrow>
     (\<exists>t. dget a name d = VStr t \<and> s = strip t \<and> s \<noteq> [] \<and> length s \<le> m)"
  by (cases "dget a name d") (auto simp: string_arg_def Let_def demand_eq_Inr)

lemma integer_arg_Inr:
  "integer_arg a name d lo hi = Inr i \<longleftrightarrow> dget a name (VInt d) = VInt i \<and> lo \<le> i \<and> i \<le> hi"
  by (cases "dget a name (VInt d)") (auto simp: integer_arg_def demand_eq_Inr)

lemma list_arg_Inr:
  "list_arg a name lo hi = Inr xs \<longleftrightarrow> dget_none a name = VList xs \<and> lo \<le> length xs \<and> length xs \<le> hi"
  by (cases "dget_none a name") (auto simp: list_arg_def demand_eq_Inr)

lemma exact_integer_bounds: "exact_integer_arg py a name lo hi = Inr i \<Longrightarrow> lo \<le> i \<and> i \<le> hi"
  by (auto simp: exact_integer_arg_def result_simps)

lemma variables_arg_Inr:
  "variables_arg isid a n = Inr vs \<longleftrightarrow>
     (\<exists>ts. dget_none a (u ''variables'') = VList (map VStr ts) \<and> vs = map strip ts
       \<and> 1 \<le> length ts \<and> length ts \<le> n \<and> list_all isid vs \<and> distinct vs)"
proof -
  have strs: "list_all is_str xs \<longleftrightarrow> (\<exists>ts. xs = map VStr ts)" for xs
  proof
    assume "list_all is_str xs"
    then have "xs = map VStr (map text_of xs)"
      by (induction xs) (auto elim: is_str.elims)
    then show "\<exists>ts. xs = map VStr ts" by blast
  qed (auto simp: list_all_iff)
  show ?thesis
    unfolding variables_arg_def rbind_eq_Inr list_arg_Inr demand_eq_Inr Let_def strs
    by (auto simp: comp_def)
qed

lemma enum_arg_Inr:
  "enum_arg a name cs d = Inr s \<longleftrightarrow> dget a name (VStr d) = VStr s \<and> s \<in> set cs"
  by (cases "dget a name (VStr d)") (auto simp: enum_arg_def demand_eq_Inr)

text \<open>Integer text and integers are read alike: writing an integer and reading it back.\<close>

lemma nat_text_ascii: "is_digits (nat_text 10 n)"
proof -
  have "nat_text 10 n \<noteq> []" by (subst nat_text.simps) simp
  moreover have "48 \<le> c \<and> c \<le> 57" if "c \<in> set (nat_text 10 n)" for c
    using nat_text_digits [of 10 c n] that by (auto simp: digit_cp_def)
  ultimately show ?thesis by (auto simp: is_digits_def list_all_iff)
qed

lemma unsigned_int_text: "unsigned (int_text i) = nat_text 10 (nat \<bar>i\<bar>)"
proof -
  obtain c t where c: "nat_text 10 (nat i) = c # t" "48 \<le> c"
    using nat_text_ascii [of "nat i"] by (cases "nat_text 10 (nat i)") (auto simp: is_digits_def)
  then show ?thesis by (auto simp: unsigned_def int_text_def u_def)
qed

lemma strip_int_text: "strip (int_text i) = int_text i"
proof -
  have no: "\<not> is_space c" if "c \<in> set (int_text i)" for c
  proof -
    have "c = 45 \<or> 48 \<le> c \<and> c \<le> 57"
      using that nat_text_ascii [of "nat i"] nat_text_ascii [of "nat (- i)"]
      by (auto simp: int_text_def is_digits_def list_all_iff u_def split: if_splits)
    then show ?thesis by (auto simp: is_space_def)
  qed
  have "dropWhile is_space (int_text i) = int_text i" using no by (cases "int_text i") auto
  moreover have "dropWhile is_space (rev (int_text i)) = rev (int_text i)"
    using no by (cases "rev (int_text i)") (auto simp: dropWhile_eq_self_iff in_set_conv_decomp hd_rev dest: last_in_set)
  ultimately show ?thesis by (simp add: strip_def)
qed

text \<open>
  An integer survives being written as text: \<^verbatim>\<open>exact_integer_arg\<close> reads the text \<^verbatim>\<open>str(i)\<close> exactly
  as it reads \<^verbatim>\<open>i\<close> itself, within the digit limit of the interpreter.
\<close>

theorem exact_integer_arg_text:
  assumes "digits_allowed py (length (nat_text 10 (nat \<bar>i\<bar>)))"
  shows "exact_integer_arg py [(name, VStr (int_text i))] name lo hi
       = exact_integer_arg py [(name, VInt i)] name lo hi"
proof -
  have "nat_text 10 (nat i) \<noteq> [] \<and> hd (nat_text 10 (nat i)) \<noteq> 45"
    using nat_text_ascii [of "nat i"] by (cases "nat_text 10 (nat i)") (auto simp: is_digits_def)
  then have "hd (int_text i) = 45 \<longleftrightarrow> i < 0" "int_text i \<noteq> []"
    by (auto simp: int_text_def u_def)
  then show ?thesis
    using assms nat_text_ascii [of "nat \<bar>i\<bar>"]
    by (simp add: exact_integer_arg_def dget_none_def dget_def ascii_integer_def strip_int_text
        unsigned_int_text int_of_text_def digits_val_nat_text Let_def)
qed

theorem exact_integer_arg_text_witness:
  "exact_integer_arg \<lparr>float_text = (\<lambda>_. []), sha256 = (\<lambda>_. []), digit_limit = 4300\<rparr>
     [(u ''n'', VStr (int_text (- 42)))] (u ''n'') (- 100) 100 = Inr (- 42)"
  by (subst exact_integer_arg_text)
    (simp_all add: digits_allowed_def nat_text.simps exact_integer_arg_def dget_none_def dget_def)

end
