(* ===== verification/Contracts.thy ===== *)
theory Contracts
  imports Json "HOL-Library.Product_Lexorder"
begin

text \<open>
  \<^verbatim>\<open>contracts.py\<close>: the validation of arguments and results against the JSON Schemas of the registry, the
  validator chosen for a result, and the published tool parameters. The \<^verbatim>\<open>jsonschema\<close> library is a
  parameter: \<open>iter_errors schema instance\<close> lists the errors it reports, each with its path, the keyword
  that failed and its message.
\<close>

record schema_error =
  absolute_path :: "pyval list"
  validator :: pystr
  error_message :: pystr

type_synonym json_validator = "pyval \<Rightarrow> pyval \<Rightarrow> schema_error list"

definition LIMIT_VALIDATORS :: "pystr list" where
  "LIMIT_VALIDATORS =
     [u ''maxItems'', u ''maxLength'', u ''maxProperties'', u ''maximum'', u ''minItems'', u ''minLength'',
      u ''minimum'']"

definition MAX_VALIDATION_MESSAGE_BYTES :: nat where "MAX_VALIDATION_MESSAGE_BYTES = 512"

text \<open>\<^verbatim>\<open>str(part)\<close> of a path: keys are texts, positions are integers.\<close>

fun part_text :: "pyval \<Rightarrow> pystr" where
  "part_text (VStr s) = s"
| "part_text (VInt i) = int_text i"
| "part_text _ = []"

definition path_texts :: "schema_error \<Rightarrow> pystr list" where
  "path_texts e = map part_text (absolute_path e)"

text \<open>\<^verbatim>\<open>".".join(...) or default\<close>: the empty text is replaced as well.\<close>

definition path_text :: "schema_error \<Rightarrow> pystr \<Rightarrow> pystr" where
  "path_text e dflt = (let p = join (u ''.'') (path_texts e) in if p = [] then dflt else p)"

section \<open>Attribute access on schemas\<close>

text \<open>\<^verbatim>\<open>v.get(k, d)\<close> on a value that need not be a dictionary, and \<^verbatim>\<open>x in v\<close>.\<close>

definition get_or :: "pyval \<Rightarrow> pystr \<Rightarrow> pyval \<Rightarrow> pyexn + pyval" where
  "get_or v k d =
     (case v of VDict e \<Rightarrow> Inr (dget e k d)
      | _ \<Rightarrow> Inl (PyExn (u ''AttributeError'') (u ''object has no attribute get'')))"

definition py_in :: "pystr \<Rightarrow> pyval \<Rightarrow> pyexn + bool" where
  "py_in s v =
     (case v of
        VList xs \<Rightarrow> Inr (list_ex (\<lambda>x. py_eq x (VStr s)) xs)
      | VDict d \<Rightarrow> Inr (s \<in> set (map fst d))
      | VStr t \<Rightarrow> Inr (list_ex (\<lambda>i. starts_with s (drop i t)) [0..<Suc (length t)])
      | _ \<Rightarrow> Inl (PyExn (u ''TypeError'') (u ''argument is not iterable'')))"

text \<open>Does a schema variant fix \<^verbatim>\<open>properties.action\<close> to this action?\<close>

definition variant_matches :: "pystr \<Rightarrow> pyval \<Rightarrow> pyexn + bool" where
  "variant_matches action variant =
     rbind (get_or variant (u ''properties'') (VDict [])) (\<lambda>properties.
     rbind (get_or properties (u ''action'') (VDict [])) (\<lambda>action_schema.
     rbind (get_or action_schema (u ''const'') VNone) (\<lambda>const.
       if py_eq const (VStr action) then Inr True
       else rbind (get_or action_schema (u ''enum'') (VList [])) (py_in action))))"

definition select_discriminated_schema :: "pyval \<Rightarrow> pydict \<Rightarrow> pyexn + pyval" where
  "select_discriminated_schema schema instance =
     rbind (get_or schema (u ''oneOf'') VNone) (\<lambda>variants.
       case (variants, dget_none instance (u ''action'')) of
         (VList vs, VStr action) \<Rightarrow>
           rbind (rfilter (variant_matches action) vs) (\<lambda>matching.
             Inr (case matching of [m] \<Rightarrow> m | _ \<Rightarrow> schema))
       | _ \<Rightarrow> Inr schema)"

section \<open>Arguments\<close>

definition argument_error :: "pystr \<Rightarrow> schema_error \<Rightarrow> pyexn + pyexn" where
  "argument_error operation e =
     rbind (encode_utf8 (error_message e)) (\<lambda>bytes.
     (let message = (if length bytes > MAX_VALIDATION_MESSAGE_BYTES
                     then u ''value does not satisfy '' @ validator e else error_message e)
      in Inr (CalcError (if validator e \<in> set LIMIT_VALIDATORS then u ''E_LIMIT'' else u ''E_INPUT'')
               (u ''invalid '' @ operation @ u '' arguments at '' @ path_text e (u ''arguments'') @ u '': '' @ message)
               (Some [(u ''path'', VList (absolute_path e)), (u ''rule'', VStr (validator e))]))))"

definition validate_operation_arguments ::
  "json_validator \<Rightarrow> pystr \<Rightarrow> pyval \<Rightarrow> pydict \<Rightarrow> pyexn + unit" where
  "validate_operation_arguments iter_errors operation schema arguments =
     rbind (select_discriminated_schema schema arguments) (\<lambda>schema.
       case sort_key path_texts (iter_errors schema (VDict arguments)) of
         [] \<Rightarrow> Inr ()
       | e # _ \<Rightarrow> rbind (argument_error operation e) Inl)"

section \<open>Results\<close>

text \<open>
  The table of the result schemas by kind: built once from the variants of \<^verbatim>\<open>RUN_RESULT_SCHEMA\<close> whose
  \<^verbatim>\<open>kind\<close> is a constant text, each completed with the shared definitions.
\<close>

definition validator_for_variant :: "pyval \<Rightarrow> pydict \<Rightarrow> pyval" where
  "validator_for_variant defs schema = VDict (AList.update (u ''$defs'') defs schema)"

record result_contracts =
  run_result_schema :: pydict
  error_result_schema :: pydict

definition result_validator ::
  "result_contracts \<Rightarrow> (pystr \<times> (pyval \<times> pyval) list) list \<Rightarrow> pydict \<Rightarrow> pyexn + pyval" where
  "result_validator rc by_kind result =
     (if py_eq (dget_none result (u ''status'')) (VStr (u ''error''))
      then Inr (validator_for_variant (dget_none (run_result_schema rc) (u ''$defs'')) (error_result_schema rc))
      else
        (case dget_none result (u ''kind'') of
           VStr kind \<Rightarrow>
             (let candidates = dget by_kind kind [] in
              if length candidates = 1 then Inr (snd (hd candidates))
              else if candidates = [] then Inr (VDict (run_result_schema rc))
              else
                (case dget_none result (u ''action'') of
                   VStr action \<Rightarrow>
                     rbind (rfilter (\<lambda>c. variant_matches action (fst c)) candidates) (\<lambda>matching.
                       Inr (if length matching = 1 then snd (hd matching) else VDict (run_result_schema rc)))
                 | _ \<Rightarrow> Inr (VDict (run_result_schema rc))))
         | _ \<Rightarrow> Inr (VDict (run_result_schema rc))))"

definition add_variant ::
  "pyval \<Rightarrow> pyval \<Rightarrow> (pystr \<times> (pyval \<times> pyval) list) list \<Rightarrow> pyexn + (pystr \<times> (pyval \<times> pyval) list) list" where
  "add_variant defs variant table =
     rbind (get_or variant (u ''properties'') (VDict [])) (\<lambda>properties.
     rbind (get_or properties (u ''kind'') (VDict [])) (\<lambda>kind_schema.
     rbind (get_or kind_schema (u ''const'') VNone) (\<lambda>const.
       (case (const, variant) of
          (VStr kind, VDict v) \<Rightarrow>
            Inr (AList.update kind (dget table kind [] @ [(variant, validator_for_variant defs v)]) table)
        | _ \<Rightarrow> Inr table))))"

fun list_items :: "pyval \<Rightarrow> pyval list" where
  "list_items (VList xs) = xs"
| "list_items _ = []"

definition result_validators_by_kind ::
  "result_contracts \<Rightarrow> pyexn + (pystr \<times> (pyval \<times> pyval) list) list" where
  "result_validators_by_kind rc =
     rfold (add_variant (dget_none (run_result_schema rc) (u ''$defs'')))
       (list_items (dget_none (run_result_schema rc) (u ''oneOf''))) []"

text \<open>\<^verbatim>\<open>validator.validate\<close> raises the error the library considers the best match.\<close>

definition validate_result ::
  "json_validator \<Rightarrow> (schema_error list \<Rightarrow> schema_error) \<Rightarrow> result_contracts \<Rightarrow> pydict \<Rightarrow> pyexn + unit" where
  "validate_result iter_errors best_match rc result =
     rbind (result_validators_by_kind rc) (\<lambda>table.
     rbind (result_validator rc table result) (\<lambda>schema.
       (let errors = iter_errors schema (VDict result) in
        if errors = [] then Inr ()
        else Inl (calc ''E_RUNTIME''
               (u ''operation returned a result outside the public contract at ''
                @ path_text (best_match errors) (u ''result''))))))"

section \<open>Correctness\<close>

text \<open>
  Arguments are accepted exactly when the library reports no error for the schema that the action
  selects; otherwise the caller gets \<^verbatim>\<open>E_LIMIT\<close> or \<^verbatim>\<open>E_INPUT\<close> for one of the reported errors whose path is
  least, whatever the order in which the library reports them.
\<close>

theorem argument_verdict:
  assumes "select_discriminated_schema schema arguments = Inr chosen"
    and "\<forall>e \<in> set (iter_errors chosen (VDict arguments)). utf8_bytes (error_message e) \<noteq> None"
  shows "(validate_operation_arguments iter_errors operation schema arguments = Inr ()
            \<longleftrightarrow> iter_errors chosen (VDict arguments) = [])
    \<and> (\<forall>x. validate_operation_arguments iter_errors operation schema arguments = Inl x \<longrightarrow>
        (\<exists>e \<in> set (iter_errors chosen (VDict arguments)).
           (\<forall>f \<in> set (iter_errors chosen (VDict arguments)). path_texts e \<le> path_texts f)
           \<and> (\<exists>msg. x = CalcError (if validator e \<in> set LIMIT_VALIDATORS then u ''E_LIMIT'' else u ''E_INPUT'') msg
                (Some [(u ''path'', VList (absolute_path e)), (u ''rule'', VStr (validator e))]))))"
proof (cases "sort_key path_texts (iter_errors chosen (VDict arguments))")
  case Nil
  then have "iter_errors chosen (VDict arguments) = []"
    by (metis length_0_conv length_sort)
  then show ?thesis using assms(1) by (simp add: validate_operation_arguments_def)
next
  case (Cons e es)
  let ?errs = "iter_errors chosen (VDict arguments)"
  have set: "set (e # es) = set ?errs" using Cons by (metis set_sort)
  then have ne: "?errs \<noteq> []" and e: "e \<in> set ?errs" by auto
  have "sorted (map path_texts (e # es))" using Cons by (metis sorted_sort_key)
  then have least: "\<forall>f \<in> set ?errs. path_texts e \<le> path_texts f"
    unfolding set [symmetric] by auto
  obtain b where "encode_utf8 (error_message e) = Inr b"
    using assms(2) e by (auto simp: encode_utf8_def)
  then obtain msg where "validate_operation_arguments iter_errors operation schema arguments =
      Inl (CalcError (if validator e \<in> set LIMIT_VALIDATORS then u ''E_LIMIT'' else u ''E_INPUT'') msg
        (Some [(u ''path'', VList (absolute_path e)), (u ''rule'', VStr (validator e))]))"
    using assms(1) Cons by (simp add: validate_operation_arguments_def argument_error_def Let_def)
  then show ?thesis using ne e least by auto
qed

text \<open>The kind a variant is filed under, and the invariant of the table.\<close>

definition variant_kind :: "pyval \<Rightarrow> pystr \<Rightarrow> bool" where
  "variant_kind variant kind \<longleftrightarrow>
     rbind (get_or variant (u ''properties'') (VDict [])) (\<lambda>ps.
     rbind (get_or ps (u ''kind'') (VDict [])) (\<lambda>k. get_or k (u ''const'') VNone)) = Inr (VStr kind)"

definition filed :: "pyval \<Rightarrow> pyval list \<Rightarrow> (pystr \<times> (pyval \<times> pyval) list) list \<Rightarrow> bool" where
  "filed defs variants table \<longleftrightarrow>
     (\<forall>kind. \<forall>c \<in> set (dget table kind []). \<exists>v. VDict v \<in> set variants \<and> variant_kind (VDict v) kind
        \<and> c = (VDict v, validator_for_variant defs v))"

lemma add_variant_filed:
  assumes "add_variant defs variant table = Inr table'" and "filed defs variants table" and "variant \<in> set variants"
  shows "filed defs variants table'"
proof -
  consider "table' = table"
    | kind v where "variant = VDict v" "variant_kind variant kind"
        "table' = AList.update kind (dget table kind [] @ [(variant, validator_for_variant defs v)]) table"
  proof -
    obtain ps k const where get: "get_or variant (u ''properties'') (VDict []) = Inr ps"
        "get_or ps (u ''kind'') (VDict []) = Inr k" "get_or k (u ''const'') VNone = Inr const"
      and t: "(case (const, variant) of
          (VStr kind, VDict v) \<Rightarrow>
            Inr (AList.update kind (dget table kind [] @ [(variant, validator_for_variant defs v)]) table)
        | _ \<Rightarrow> Inr table) = (Inr table' :: pyexn + _)"
      using assms(1) unfolding add_variant_def rbind_eq_Inr by blast
    show thesis
    proof (cases const)
      case (VStr kind)
      then have "variant_kind variant kind" using get by (simp add: variant_kind_def)
      then show thesis using that t VStr by (cases variant) simp_all
    qed (use that t in simp_all)
  qed
  then show ?thesis
  proof cases
    case 2
    show ?thesis
      unfolding filed_def
    proof (intro allI ballI)
      fix k c assume c: "c \<in> set (dget table' k [])"
      show "\<exists>v. VDict v \<in> set variants \<and> variant_kind (VDict v) k \<and> c = (VDict v, validator_for_variant defs v)"
      proof (cases "c \<in> set (dget table k [])")
        case False
        then have "k = kind" "c = (variant, validator_for_variant defs v)"
          using c 2(3) by (auto simp: dget_update split: if_splits)
        then show ?thesis using 2 assms(3) by auto
      qed (use assms(2) in \<open>auto simp: filed_def\<close>)
    qed
  qed (use assms(2) in simp)
qed

lemma result_table_filed:
  assumes "result_validators_by_kind rc = Inr table"
  shows "filed (dget_none (run_result_schema rc) (u ''$defs'')) (list_items (dget_none (run_result_schema rc) (u ''oneOf''))) table"
  using assms unfolding result_validators_by_kind_def
proof (rule rfold_invariant)
  show "filed defs variants []" for defs variants by (simp add: filed_def dget_def)
qed (rule add_variant_filed)

lemma chosen_candidate:
  assumes "result_validator rc table result = Inr schema" and "schema \<noteq> VDict (run_result_schema rc)"
    and "dget_none result (u ''status'') \<noteq> VStr (u ''error'')"
  shows "\<exists>kind c. dget_none result (u ''kind'') = VStr kind \<and> c \<in> set (dget table kind []) \<and> schema = snd c"
proof -
  obtain kind where kind: "dget_none result (u ''kind'') = VStr kind"
    using assms by (cases "dget_none result (u ''kind'')") (auto simp: result_validator_def py_eq_str_iff)
  let ?cs = "dget table kind []"
  have "(length ?cs = 1 \<and> schema = snd (hd ?cs))
    \<or> (\<exists>(f :: pyval \<times> pyval \<Rightarrow> pyexn + bool) m. rfilter f ?cs = Inr m \<and> length m = 1 \<and> schema = snd (hd m))"
  proof (cases "length ?cs = 1")
    case False
    with assms kind have ne: "?cs \<noteq> []" by (auto simp: result_validator_def py_eq_str_iff)
    obtain action where action: "dget_none result (u ''action'') = VStr action"
      using assms kind False ne
      by (cases "dget_none result (u ''action'')") (simp_all add: result_validator_def py_eq_str_iff Let_def)
    obtain m where m: "rfilter (\<lambda>c. variant_matches action (fst c)) ?cs = Inr m"
      and "(if length m = 1 then snd (hd m) else VDict (run_result_schema rc)) = schema"
      using assms(1,3) kind False ne action by (auto simp: result_validator_def py_eq_str_iff Let_def rbind_eq_Inr)
    then have "length m = 1 \<and> schema = snd (hd m)" using assms(2) by (simp split: if_splits)
    then show ?thesis using m by blast
  qed (use assms kind in \<open>simp add: result_validator_def py_eq_str_iff Let_def\<close>)
  then consider "length ?cs = 1" "schema = snd (hd ?cs)"
    | f :: "pyval \<times> pyval \<Rightarrow> pyexn + bool" and m where "rfilter f ?cs = Inr m" "length m = 1" "schema = snd (hd m)" by blast
  then show ?thesis
  proof cases
    case 1
    then show ?thesis using kind by (cases ?cs) auto
  next
    case 2
    then have "hd m \<in> set ?cs"
      by (metis filter_is_subset hd_in_set list.size(3) rfilter_Inr subsetD zero_neq_one)
    then show ?thesis using kind 2 by blast
  qed
qed

text \<open>
  The per-kind shortcut cannot weaken the contract of results: what is not an error is checked against
  the complete union or against a variant of that union which declares exactly the kind of the result.
\<close>

theorem result_validator_not_weaker:
  assumes "result_validators_by_kind rc = Inr table" and "result_validator rc table result = Inr schema"
    and "dget_none result (u ''status'') \<noteq> VStr (u ''error'')"
  shows "schema = VDict (run_result_schema rc)
    \<or> (\<exists>v kind. dget_none result (u ''kind'') = VStr kind
        \<and> VDict v \<in> set (list_items (dget_none (run_result_schema rc) (u ''oneOf'')))
        \<and> variant_kind (VDict v) kind
        \<and> schema = validator_for_variant (dget_none (run_result_schema rc) (u ''$defs'')) v)"
proof (cases "schema = VDict (run_result_schema rc)")
  case False
  then obtain kind c where "dget_none result (u ''kind'') = VStr kind" "c \<in> set (dget table kind [])" "schema = snd c"
    using chosen_candidate [OF assms(2) _ assms(3)] by blast
  then show ?thesis using result_table_filed [OF assms(1)] by (fastforce simp: filed_def)
qed simp

text \<open>A union of one variant, and a check of two alternatives by action.\<close>

definition sample_contracts :: result_contracts where
  "sample_contracts =
     \<lparr>run_result_schema =
        [(u ''oneOf'', VList [VDict [(u ''properties'', VDict [(u ''kind'', VDict [(u ''const'', VStr (u ''scalar''))])])]])],
      error_result_schema = []\<rparr>"

theorem result_validator_not_weaker_witness:
  "\<exists>table schema. result_validators_by_kind sample_contracts = Inr table
     \<and> result_validator sample_contracts table [(u ''kind'', VStr (u ''scalar''))] = Inr schema
     \<and> (\<exists>v. schema = validator_for_variant VNone v \<and> variant_kind (VDict v) (u ''scalar''))"
proof -
  let ?v = "[(u ''properties'', VDict [(u ''kind'', VDict [(u ''const'', VStr (u ''scalar''))])])]"
  let ?t = "[(u ''scalar'', [(VDict ?v, validator_for_variant VNone ?v)])]"
  have t: "result_validators_by_kind sample_contracts = Inr ?t"
    by (simp add: result_validators_by_kind_def sample_contracts_def add_variant_def get_or_def dget_none_def dget_def)
  have r: "result_validator sample_contracts ?t [(u ''kind'', VStr (u ''scalar''))] = Inr (validator_for_variant VNone ?v)"
    by (simp add: result_validator_def dget_none_def dget_def)
  have "validator_for_variant VNone ?v \<noteq> VDict (run_result_schema sample_contracts)"
    by (simp add: validator_for_variant_def sample_contracts_def)
  then show ?thesis
    using result_validator_not_weaker [OF t r] t r
    by (auto simp: dget_none_def dget_def sample_contracts_def)
qed

definition sample_errors :: json_validator where
  "sample_errors schema v =
     [\<lparr>absolute_path = [VStr (u ''x''), VInt 1], validator = u ''type'', error_message = u ''no''\<rparr>,
      \<lparr>absolute_path = [VStr (u ''a'')], validator = u ''maximum'', error_message = u ''big''\<rparr>]"

theorem argument_verdict_witness:
  "\<exists>x e. validate_operation_arguments sample_errors (u ''op'') (VDict []) [] = Inl x
     \<and> e \<in> set (sample_errors (VDict []) (VDict [])) \<and> absolute_path e = [VStr (u ''a'')]
     \<and> (\<exists>msg d. x = CalcError (u ''E_LIMIT'') msg d)"
proof -
  have sel: "select_discriminated_schema (VDict []) [] = Inr (VDict [])"
    by (simp add: select_discriminated_schema_def get_or_def dget_none_def dget_def)
  have "\<forall>e \<in> set (sample_errors (VDict []) (VDict [])). utf8_bytes (error_message e) \<noteq> None"
    by (simp add: sample_errors_def u_def utf8_cp_bytes_def)
  note * = argument_verdict [of "VDict []" "[]" "VDict []" sample_errors, OF sel this, of "u ''op''"]
  have "sample_errors (VDict []) (VDict []) \<noteq> []" by (simp add: sample_errors_def)
  with * obtain x where x: "validate_operation_arguments sample_errors (u ''op'') (VDict []) [] = Inl x"
    by (cases "validate_operation_arguments sample_errors (u ''op'') (VDict []) []") auto
  then obtain e msg where e: "e \<in> set (sample_errors (VDict []) (VDict []))"
      "\<forall>f \<in> set (sample_errors (VDict []) (VDict [])). path_texts e \<le> path_texts f"
      "x = CalcError (if validator e \<in> set LIMIT_VALIDATORS then u ''E_LIMIT'' else u ''E_INPUT'') msg
         (Some [(u ''path'', VList (absolute_path e)), (u ''rule'', VStr (validator e))])"
    using * by blast
  have "path_texts e \<le> [u ''a'']" using e(2) by (auto simp: sample_errors_def path_texts_def)
  moreover have "\<not> [u ''x'', int_text 1] \<le> [u ''a'']" by (simp add: u_def)
  ultimately have "absolute_path e = [VStr (u ''a'')]" "validator e = u ''maximum''"
    using e(1) by (auto simp: sample_errors_def path_texts_def)
  then show ?thesis using x e(1,3) by (auto simp: LIMIT_VALIDATORS_def)
qed

end
