(* ===== verification/Py_Ast.thy ===== *)
theory Py_Ast
  imports Errors
begin

text \<open>
  The part of Python's \<^verbatim>\<open>ast\<close> that the expression visitors distinguish. The parser itself
  (\<^verbatim>\<open>ast.parse(source, mode="eval")\<close>) belongs to the interpreter and is a parameter of every
  definition that calls it, of type \<open>pystr \<Rightarrow> pyexn + pyast\<close>, whose exceptions are the ones the call
  can raise (\<^verbatim>\<open>SyntaxError\<close>, \<^verbatim>\<open>ValueError\<close>, ...). Constants, binary operations and calls carry the
  text \<^verbatim>\<open>ast.get_source_segment\<close> returns for them, when it returns one.
\<close>

datatype pyunop = UAdd | USub | UOther pystr

datatype pybinop = OAdd | OSub | OMult | ODiv | OMod | OPow | OOther pystr

datatype pyast =
    EConst "pystr option" pyval
  | EName pystr
  | EUnary pyunop pyast
  | EBin "pystr option" pybinop pyast pyast
  | ECall "pystr option" pyast "pyast list" "pyast list"
  | EOther pystr nat

text \<open>\<open>ECall seg f args kws\<close> is a call with the values \<open>kws\<close> of its keyword arguments; \<open>EOther t n\<close>
  is any other node, of type name \<open>t\<close> with \<open>n\<close> nodes below it.\<close>

fun node_type_name :: "pyast \<Rightarrow> pystr" where
  "node_type_name (EConst _ _) = u ''Constant''"
| "node_type_name (EName _) = u ''Name''"
| "node_type_name (EUnary _ _) = u ''UnaryOp''"
| "node_type_name (EBin _ _ _ _) = u ''BinOp''"
| "node_type_name (ECall _ _ _ _) = u ''Call''"
| "node_type_name (EOther t _) = t"

text \<open>
  \<^verbatim>\<open>sum(1 for _ in ast.walk(node))\<close>: operators and the \<^verbatim>\<open>Load\<close> context of a name are nodes too, and
  a keyword argument is a node above its value.
\<close>

fun walk_count :: "pyast \<Rightarrow> nat" where
  "walk_count (EConst _ _) = 1"
| "walk_count (EName _) = 2"
| "walk_count (EUnary _ e) = 2 + walk_count e"
| "walk_count (EBin _ _ l r) = 2 + walk_count l + walk_count r"
| "walk_count (ECall _ f args kws) =
     1 + walk_count f + sum_list (map walk_count args) + sum_list (map (\<lambda>k. Suc (walk_count k)) kws)"
| "walk_count (EOther _ n) = Suc n"

text \<open>A literal whose value is an \<^verbatim>\<open>int\<close> and not a \<^verbatim>\<open>bool\<close>.\<close>

fun int_literal :: "pyast \<Rightarrow> int option" where
  "int_literal (EConst _ (VInt i)) = Some i"
| "int_literal _ = None"

text \<open>
  The value an arithmetic expression denotes over the rationals: \<open>None\<close> where it divides by zero
  or leaves the language of sums, products, quotients and literal powers.
\<close>

fun ast_value :: "(pystr \<Rightarrow> rat) \<Rightarrow> pyast \<Rightarrow> rat option" where
  "ast_value env (EConst _ v) = (case v of VInt i \<Rightarrow> Some (of_int i) | _ \<Rightarrow> None)"
| "ast_value env (EName x) = Some (env x)"
| "ast_value env (EUnary op e) =
     (case op of UAdd \<Rightarrow> ast_value env e | USub \<Rightarrow> map_option uminus (ast_value env e) | UOther _ \<Rightarrow> None)"
| "ast_value env (EBin _ op l r) =
     (case (op, ast_value env l, ast_value env r) of
        (OAdd, Some x, Some y) \<Rightarrow> Some (x + y)
      | (OSub, Some x, Some y) \<Rightarrow> Some (x - y)
      | (OMult, Some x, Some y) \<Rightarrow> Some (x * y)
      | (ODiv, Some x, Some y) \<Rightarrow> (if y = 0 then None else Some (x / y))
      | (OPow, Some x, _) \<Rightarrow>
          (case int_literal r of None \<Rightarrow> None | Some i \<Rightarrow> (if 0 \<le> i then Some (x ^ nat i) else None))
      | _ \<Rightarrow> None)"
| "ast_value env (ECall _ _ _ _) = None"
| "ast_value env (EOther _ _) = None"

end
