(* ===== verification/Certificate_Checker.thy ===== *)
theory Certificate_Checker
  imports Json Py_Ast
begin

text \<open>
  \<^verbatim>\<open>certificate_checker.py\<close>: the independent checker of rational-polynomial identity certificates.
  A polynomial is the dictionary the code builds, from exponent tuples to \<^verbatim>\<open>Fraction\<close> coefficients,
  in insertion order. The checker re-parses both sides of the statement, recomputes the normalised
  difference under its limits and compares it with the terms and the classification the
  certificate claims.
\<close>

section \<open>Polynomials\<close>

type_synonym poly = "(nat list \<times> rat) list"

definition CERTIFICATE_FORMAT :: pystr where
  "CERTIFICATE_FORMAT = u ''math-anchor.polynomial-identity.v1''"

definition CHECKER_SYSTEM :: pystr where
  "CHECKER_SYSTEM = u ''math-anchor-stdlib-polynomial-checker''"

definition CHECKER_VERSION :: pystr where
  "CHECKER_VERSION = u ''1.0.0''"

definition MAX_CERTIFICATE_TERMS :: nat where
  "MAX_CERTIFICATE_TERMS = 512"

definition MAX_POLYNOMIAL_DEGREE :: nat where
  "MAX_POLYNOMIAL_DEGREE = 64"

definition MAX_AST_NODES :: nat where
  "MAX_AST_NODES = 1024"

definition MAX_COEFFICIENT_BITS :: nat where
  "MAX_COEFFICIENT_BITS = 16384"

definition bounded_fraction :: "rat \<Rightarrow> pyexn + rat" where
  "bounded_fraction value =
     demand (bit_length (numerator value) \<le> MAX_COEFFICIENT_BITS
             \<and> bit_length (denominator value) \<le> MAX_COEFFICIENT_BITS)
       (CertError (u ''certificate coefficient exceeds the checker limit''))
       (Inr value)"

definition max_degree :: "nat list list \<Rightarrow> nat" where
  "max_degree ks = foldr max (map sum_list ks) 0"

definition normalize :: "poly \<Rightarrow> pyexn + poly" where
  "normalize p =
     rbind (rmap (\<lambda>kc. rbind (bounded_fraction (snd kc)) (\<lambda>c. Inr (fst kc, c)))
              (filter (\<lambda>kc. snd kc \<noteq> 0) p))
       (\<lambda>n. demand (length n \<le> MAX_CERTIFICATE_TERMS)
               (CertError (u ''polynomial exceeds the checker term limit''))
               (if n = [] then Inr n
                else demand (max_degree (map fst n) \<le> MAX_POLYNOMIAL_DEGREE)
                       (CertError (u ''polynomial exceeds the checker degree limit''))
                       (Inr n)))"

text \<open>\<^verbatim>\<open>result[powers] = result.get(powers, Fraction(0)) + d\<close>.\<close>

definition add_term :: "nat list \<Rightarrow> rat \<Rightarrow> poly \<Rightarrow> poly" where
  "add_term powers d result = AList.update powers (dget result powers 0 + d) result"

definition poly_add :: "poly \<Rightarrow> poly \<Rightarrow> rat \<Rightarrow> pyexn + poly" where
  "poly_add left right scale =
     normalize (foldl (\<lambda>result kc. add_term (fst kc) (scale * snd kc) result) left right)"

text \<open>\<^verbatim>\<open>tuple(a + b for a, b in zip(left, right, strict=True))\<close>.\<close>

definition add_powers :: "nat list \<Rightarrow> nat list \<Rightarrow> pyexn + nat list" where
  "add_powers a b =
     (if length a = length b then Inr (map2 (+) a b)
      else Inl (PyExn (u ''ValueError'') (u ''zip() arguments have different lengths'')))"

definition poly_multiply :: "poly \<Rightarrow> poly \<Rightarrow> pyexn + poly" where
  "poly_multiply left right =
     rbind
       (rfold (\<lambda>lkc. rfold (\<lambda>rkc result.
            rbind (add_powers (fst lkc) (fst rkc))
              (\<lambda>powers. Inr (add_term powers (snd lkc * snd rkc) result))) right) left [])
       normalize"

function power_loop :: "poly \<Rightarrow> poly \<Rightarrow> nat \<Rightarrow> pyexn + poly" where
  "power_loop result factor remaining =
     (if remaining = 0 then Inr result
      else rbind (if odd remaining then poly_multiply result factor else Inr result)
        (\<lambda>result.
          if remaining div 2 = 0 then Inr result
          else rbind (poly_multiply factor factor)
                 (\<lambda>factor. power_loop result factor (remaining div 2))))"
  by pat_completeness auto
termination
  by (relation "measure (\<lambda>(_, _, n). n)") auto

declare power_loop.simps [simp del]

definition poly_power :: "poly \<Rightarrow> int \<Rightarrow> nat \<Rightarrow> pyexn + poly" where
  "poly_power base exponent variable_count =
     demand (0 \<le> exponent \<and> exponent \<le> int MAX_POLYNOMIAL_DEGREE)
       (CertError (u ''polynomial exponent is outside the checker limit''))
       (power_loop [(replicate variable_count 0, 1)] base (nat exponent))"

section \<open>The parser\<close>

definition unsupported_syntax :: "pyast \<Rightarrow> pyexn" where
  "unsupported_syntax node = CertError (u ''unsupported certificate syntax: '' @ node_type_name node)"

text \<open>
  \<^verbatim>\<open>_PolynomialParser._visit\<close>. The counter \<open>nodes\<close> is the object's field: it goes through every
  call and is shared by the two sides of a statement.
\<close>

fun visit :: "pystr list \<Rightarrow> pyast \<Rightarrow> nat \<Rightarrow> pyexn + (poly \<times> nat)" where
  "visit variables (EConst seg v) nodes =
     demand (Suc nodes \<le> MAX_AST_NODES) (CertError (u ''certificate expression exceeds the AST limit''))
       (case v of
          VInt i \<Rightarrow> Inr (if i = 0 then [] else [(replicate (length variables) 0, of_int i)], Suc nodes)
        | _ \<Rightarrow> Inl (CertError (u ''only integer literals are allowed'')))"
| "visit variables (EName x) nodes =
     demand (Suc nodes \<le> MAX_AST_NODES) (CertError (u ''certificate expression exceeds the AST limit''))
       (demand (x \<in> set variables) (CertError (u ''unknown certificate variable: '' @ x))
          (Inr ([((replicate (length variables) 0)[index_of x variables := 1], 1)], Suc nodes)))"
| "visit variables (EUnary op e) nodes =
     demand (Suc nodes \<le> MAX_AST_NODES) (CertError (u ''certificate expression exceeds the AST limit''))
       (case op of
          UAdd \<Rightarrow> visit variables e (Suc nodes)
        | USub \<Rightarrow> rbind (visit variables e (Suc nodes))
                    (\<lambda>(p, n). Inr (map (\<lambda>kc. (fst kc, - snd kc)) p, n))
        | UOther _ \<Rightarrow> Inl (unsupported_syntax (EUnary op e)))"
| "visit variables (EBin seg op l r) nodes =
     demand (Suc nodes \<le> MAX_AST_NODES) (CertError (u ''certificate expression exceeds the AST limit''))
       (case op of
          OAdd \<Rightarrow> rbind (visit variables l (Suc nodes)) (\<lambda>(p, n).
                   rbind (visit variables r n) (\<lambda>(q, n).
                     rbind (poly_add p q 1) (\<lambda>s. Inr (s, n))))
        | OSub \<Rightarrow> rbind (visit variables l (Suc nodes)) (\<lambda>(p, n).
                   rbind (visit variables r n) (\<lambda>(q, n).
                     rbind (poly_add p q (- 1)) (\<lambda>s. Inr (s, n))))
        | OMult \<Rightarrow> rbind (visit variables l (Suc nodes)) (\<lambda>(p, n).
                    rbind (visit variables r n) (\<lambda>(q, n).
                      rbind (poly_multiply p q) (\<lambda>s. Inr (s, n))))
        | ODiv \<Rightarrow> rbind (visit variables l (Suc nodes)) (\<lambda>(p, n).
                   rbind (visit variables r n) (\<lambda>(q, n).
                     demand (set (map fst q) = {replicate (length variables) 0})
                       (CertError (u ''polynomial division requires a nonzero rational constant''))
                       (let divisor = dget q (replicate (length variables) 0) 0
                        in demand (divisor \<noteq> 0) (CertError (u ''polynomial division by zero''))
                             (rbind (normalize (map (\<lambda>kc. (fst kc, snd kc / divisor)) p))
                                (\<lambda>s. Inr (s, n))))))
        | OPow \<Rightarrow> (case int_literal r of
                     None \<Rightarrow> Inl (CertError (u ''polynomial exponents must be nonnegative integers''))
                   | Some exponent \<Rightarrow>
                       rbind (visit variables l (Suc nodes)) (\<lambda>(p, n).
                         rbind (poly_power p exponent (length variables)) (\<lambda>s. Inr (s, n))))
        | _ \<Rightarrow> Inl (unsupported_syntax (EBin seg op l r)))"
| "visit variables (ECall seg f args kws) nodes =
     demand (Suc nodes \<le> MAX_AST_NODES) (CertError (u ''certificate expression exceeds the AST limit''))
       (Inl (unsupported_syntax (ECall seg f args kws)))"
| "visit variables (EOther t k) nodes =
     demand (Suc nodes \<le> MAX_AST_NODES) (CertError (u ''certificate expression exceeds the AST limit''))
       (Inl (unsupported_syntax (EOther t k)))"

text \<open>\<^verbatim>\<open>_PolynomialParser.parse\<close>: only a \<^verbatim>\<open>SyntaxError\<close> is turned into a checker error.\<close>

definition syntax_as :: "pyexn \<Rightarrow> pyexn + 'a \<Rightarrow> pyexn + 'a" where
  "syntax_as e r =
     (case r of Inl (PyExn cls msg) \<Rightarrow> (if cls = u ''SyntaxError'' then Inl e else r) | _ \<Rightarrow> r)"

definition parse :: "(pystr \<Rightarrow> pyexn + pyast) \<Rightarrow> pystr list \<Rightarrow> pyval \<Rightarrow> nat \<Rightarrow> pyexn + (poly \<times> nat)" where
  "parse ast_parse variables source nodes =
     (case source of
        VStr s \<Rightarrow>
          demand (length s \<le> 4096) (CertError (u ''invalid certificate expression''))
            (rbind (syntax_as (CertError (u ''certificate expression has invalid syntax'')) (ast_parse s))
               (\<lambda>tree. visit variables tree nodes))
      | _ \<Rightarrow> Inl (CertError (u ''invalid certificate expression'')))"

definition fraction_text :: "interp \<Rightarrow> rat \<Rightarrow> pyexn + pystr" where
  "fraction_text py value =
     (if denominator value = 1 then int_str py (numerator value)
      else rbind (int_str py (numerator value)) (\<lambda>n.
             rbind (int_str py (denominator value)) (\<lambda>d. Inr (n @ u ''/'' @ d))))"

definition term_json :: "interp \<Rightarrow> nat list \<times> rat \<Rightarrow> pyexn + pyval" where
  "term_json py kc =
     rbind (fraction_text py (snd kc)) (\<lambda>t.
       Inr (VDict [(u ''powers'', VList (map (\<lambda>e. VInt (int e)) (fst kc))),
                   (u ''coefficient'', VStr t)]))"

text \<open>\<^verbatim>\<open>sorted(polynomial.items(), reverse=True)\<close>: the keys are distinct, so they decide the order.\<close>

definition canonical_terms :: "interp \<Rightarrow> poly \<Rightarrow> pyexn + pyval list" where
  "canonical_terms py p = rmap (term_json py) (rev (sort_key fst p))"

section \<open>The certificate\<close>

definition variables_ok :: "pyval \<Rightarrow> bool" where
  "variables_ok v \<longleftrightarrow>
     (case v of
        VList xs \<Rightarrow>
          1 \<le> length xs \<and> length xs \<le> 8 \<and> (\<forall>x \<in> set xs. is_str x \<and> is_variable (str_val x))
          \<and> distinct (map str_val xs)
      | _ \<Rightarrow> False)"

record check_result =
  valid :: bool
  identity :: bool
  certificate_digest :: pystr
  checker_system :: pystr
  checker_version :: pystr

definition certificate_keys :: "pystr list" where
  "certificate_keys =
     [u ''format'', u ''statement'', u ''statementDigest'', u ''identity'', u ''normalizedDifference'',
      u ''certificateDigest'']"

text \<open>A digest field: a text of the digest format that equals the recomputed digest.\<close>

definition check_digest ::
  "interp \<Rightarrow> pyval \<Rightarrow> pyval \<Rightarrow> pystr \<Rightarrow> pyexn + pystr" where
  "check_digest py field payload message =
     demand (is_str field \<and> is_digest (str_val field)) (CertError message)
       (rbind (digest_of py True payload) (\<lambda>d.
          demand (str_val field = d) (CertError message) (Inr d)))"

definition verify_polynomial_identity_certificate ::
  "(pystr \<Rightarrow> pyexn + pyast) \<Rightarrow> interp \<Rightarrow> pyval \<Rightarrow> pyexn + check_result" where
  "verify_polynomial_identity_certificate ast_parse py certificate =
     demand (is_dict certificate) (CertError (u ''certificate must be an object''))
     (let c = dict_val certificate in
      demand (set (map fst c) = set certificate_keys)
        (CertError (u ''certificate fields do not match the v1 format''))
     (demand (py_eq (dget_none c (u ''format'')) (VStr CERTIFICATE_FORMAT))
        (CertError (u ''unsupported certificate format''))
     (let statement = dget_none c (u ''statement''); s = dict_val statement in
      demand (is_dict statement) (CertError (u ''certificate statement must be an object''))
     (demand (set (map fst s) = {u ''left'', u ''right'', u ''variables''})
        (CertError (u ''certificate statement fields are invalid''))
     (demand (variables_ok (dget_none s (u ''variables'')))
        (CertError (u ''certificate variables are invalid''))
     (let variables = map str_val (list_val (dget_none s (u ''variables''))) in
      rbind (check_digest py (dget_none c (u ''statementDigest'')) statement
               (u ''certificate statement digest mismatch'')) (\<lambda>_.
      rbind (check_digest py (dget_none c (u ''certificateDigest''))
               (VDict (AList.delete (u ''certificateDigest'') c))
               (u ''certificate digest mismatch'')) (\<lambda>certificate_digest.
      case dget_none c (u ''identity'') of
        VBool claimed_identity \<Rightarrow>
          (let claimed_terms = dget_none c (u ''normalizedDifference'') in
           demand (is_list claimed_terms \<and> length (list_val claimed_terms) \<le> MAX_CERTIFICATE_TERMS)
             (CertError (u ''certificate term list is invalid''))
          (rbind (parse ast_parse variables (dget_none s (u ''left'')) 0) (\<lambda>(left, nodes).
           rbind (parse ast_parse variables (dget_none s (u ''right'')) nodes) (\<lambda>(right, nodes).
           rbind (poly_add left right (- 1)) (\<lambda>difference.
           rbind (canonical_terms py difference) (\<lambda>expected_terms.
           demand (py_eq claimed_terms (VList expected_terms))
             (CertError (u ''certificate coefficients do not match the statement''))
          (demand (claimed_identity = (difference = []))
             (CertError (u ''certificate identity classification is wrong''))
             (Inr \<lparr>valid = True, identity = (difference = []),
                   certificate_digest = certificate_digest,
                   checker_system = CHECKER_SYSTEM, checker_version = CHECKER_VERSION\<rparr>))))))))
      | _ \<Rightarrow> Inl (CertError (u ''certificate identity must be a boolean''))))))))))"

section \<open>What a polynomial denotes\<close>

text \<open>
  \<open>peval\<close> evaluates a polynomial at a rational point; \<open>wf_poly\<close> is the representation invariant of
  the dictionaries the checker keeps: distinct exponent tuples of the right length, no zero
  coefficient.
\<close>

definition monomial :: "pystr list \<Rightarrow> (pystr \<Rightarrow> rat) \<Rightarrow> nat list \<Rightarrow> rat" where
  "monomial vs env k = prod_list (map2 (\<lambda>v e. env v ^ e) vs k)"

definition peval :: "pystr list \<Rightarrow> (pystr \<Rightarrow> rat) \<Rightarrow> poly \<Rightarrow> rat" where
  "peval vs env p = sum_list (map (\<lambda>kc. snd kc * monomial vs env (fst kc)) p)"

definition wf_poly :: "nat \<Rightarrow> poly \<Rightarrow> bool" where
  "wf_poly n p \<longleftrightarrow> distinct (map fst p) \<and> (\<forall>kc \<in> set p. length (fst kc) = n \<and> snd kc \<noteq> 0)"

definition key_lengths :: "nat \<Rightarrow> poly \<Rightarrow> bool" where
  "key_lengths n p \<longleftrightarrow> (\<forall>kc \<in> set p. length (fst kc) = n)"

lemma wf_polyD: "wf_poly n p \<Longrightarrow> distinct (map fst p) \<and> key_lengths n p"
  by (simp add: wf_poly_def key_lengths_def)

lemma peval_Nil [simp]: "peval vs env [] = 0"
  by (simp add: peval_def)

lemma peval_Cons [simp]: "peval vs env (kc # p) = snd kc * monomial vs env (fst kc) + peval vs env p"
  by (simp add: peval_def)

lemma peval_append [simp]: "peval vs env (p @ q) = peval vs env p + peval vs env q"
  by (simp add: peval_def)

lemma peval_add_term [simp]:
  "peval vs env (add_term k d p) = peval vs env p + d * monomial vs env k"
  by (induction p) (auto simp: add_term_def dget_def algebra_simps)

lemma peval_filter: "peval vs env (filter (\<lambda>kc. snd kc \<noteq> 0) p) = peval vs env p"
  by (induction p) auto

lemma peval_scale: "peval vs env (map (\<lambda>kc. (fst kc, f (snd kc))) p) = c * peval vs env p"
  if "\<And>x. f x = c * x"
  using that by (induction p) (auto simp: algebra_simps)

lemma distinct_add_term: "distinct (map fst p) \<Longrightarrow> distinct (map fst (add_term k d p))"
  unfolding add_term_def by (rule distinct_update)

lemma keys_add_term: "fst ` set (add_term k d p) = insert k (fst ` set p)"
  by (simp add: add_term_def dom_update flip: dom_map_of_conv_image_fst) (simp add: update_conv')

lemma key_lengths_iff: "key_lengths n p \<longleftrightarrow> (\<forall>k \<in> fst ` set p. length k = n)"
  by (auto simp: key_lengths_def)

lemma key_lengths_Nil [simp]: "key_lengths n []"
  by (simp add: key_lengths_def)

lemma key_lengths_Cons: "key_lengths n (kc # p) \<longleftrightarrow> length (fst kc) = n \<and> key_lengths n p"
  by (simp add: key_lengths_def)

lemma key_lengths_add_term: "key_lengths n p \<Longrightarrow> length k = n \<Longrightarrow> key_lengths n (add_term k d p)"
  by (simp add: key_lengths_iff keys_add_term)

lemma bounded_fraction_Inr: "bounded_fraction c = Inr d \<longleftrightarrow>
    d = c \<and> bit_length (numerator c) \<le> MAX_COEFFICIENT_BITS \<and> bit_length (denominator c) \<le> MAX_COEFFICIENT_BITS"
  by (auto simp: bounded_fraction_def result_simps)

text \<open>Normalisation drops the zero terms and enforces the three limits.\<close>

definition within_limits :: "poly \<Rightarrow> bool" where
  "within_limits q \<longleftrightarrow>
     length q \<le> MAX_CERTIFICATE_TERMS \<and> max_degree (map fst q) \<le> MAX_POLYNOMIAL_DEGREE
     \<and> (\<forall>kc \<in> set q. bit_length (numerator (snd kc)) \<le> MAX_COEFFICIENT_BITS
                    \<and> bit_length (denominator (snd kc)) \<le> MAX_COEFFICIENT_BITS)"

lemma rmap_bounded_Inr:
  "rmap (\<lambda>kc. rbind (bounded_fraction (snd kc)) (\<lambda>c. Inr (fst kc, c))) p = Inr q \<longleftrightarrow>
     q = p \<and> (\<forall>kc \<in> set p. bit_length (numerator (snd kc)) \<le> MAX_COEFFICIENT_BITS
                    \<and> bit_length (denominator (snd kc)) \<le> MAX_COEFFICIENT_BITS)"
  by (induction p arbitrary: q) (auto simp: rbind_eq_Inr bounded_fraction_Inr)

lemma normalize_Inr:
  "normalize p = Inr q \<longleftrightarrow> q = filter (\<lambda>kc. snd kc \<noteq> 0) p \<and> within_limits q"
proof -
  let ?f = "filter (\<lambda>kc. snd kc \<noteq> 0) p"
  show ?thesis
    unfolding normalize_def within_limits_def rbind_eq_Inr rmap_bounded_Inr demand_eq_Inr
    by (cases "?f = []") (auto simp: max_degree_def demand_eq_Inr)
qed

lemma normalize_sound:
  assumes "normalize p = Inr q" and "distinct (map fst p)" and "key_lengths n p"
  shows "wf_poly n q" and "peval vs env q = peval vs env p"
  using assms
  by (auto simp: normalize_Inr wf_poly_def key_lengths_def peval_filter distinct_map_filter)

section \<open>Soundness of the arithmetic\<close>

lemma monomial_replicate_0 [simp]: "monomial vs env (replicate (length vs) 0) = 1"
  by (induction vs) (simp_all add: monomial_def)

lemma monomial_add:
  "length a = length vs \<Longrightarrow> length b = length vs \<Longrightarrow>
   monomial vs env (map2 (+) a b) = monomial vs env a * monomial vs env b"
proof (induction vs arbitrary: a b)
  case (Cons v vs)
  then show ?case
    by (cases a; cases b) (auto simp: monomial_def power_add algebra_simps)
qed (simp add: monomial_def)

lemma monomial_Cons: "monomial (v # vs) env (e # k) = env v ^ e * monomial vs env k"
  by (simp add: monomial_def)

lemma monomial_index:
  "x \<in> set vs \<Longrightarrow> monomial vs env ((replicate (length vs) 0)[index_of x vs := 1]) = env x"
proof (induction vs)
  case (Cons v vs)
  show ?case
  proof (cases "v = x")
    case True
    then show ?thesis by (simp add: index_of_def monomial_Cons)
  next
    case False
    then have "index_of x (v # vs) = Suc (index_of x vs)" by (simp add: index_of_def)
    with False Cons show ?thesis by (simp add: monomial_Cons)
  qed
qed simp

lemma foldl_add_term:
  assumes "distinct (map fst p)" and "key_lengths n p" and "key_lengths n q"
  shows "distinct (map fst (foldl (\<lambda>r kc. add_term (fst kc) (s * snd kc) r) p q))
    \<and> key_lengths n (foldl (\<lambda>r kc. add_term (fst kc) (s * snd kc) r) p q)
    \<and> peval vs env (foldl (\<lambda>r kc. add_term (fst kc) (s * snd kc) r) p q)
        = peval vs env p + s * peval vs env q"
  using assms
proof (induction q arbitrary: p)
  case Nil
  then show ?case by simp
next
  case (Cons kc q)
  let ?p = "add_term (fst kc) (s * snd kc) p"
  have p: "distinct (map fst ?p)" "key_lengths n ?p"
    using Cons.prems by (simp_all add: distinct_add_term key_lengths_add_term key_lengths_Cons)
  have q: "key_lengths n q" using Cons.prems by (simp add: key_lengths_Cons)
  from Cons.IH [OF p q] show ?case by (simp add: algebra_simps)
qed

lemma poly_add_sound:
  assumes "poly_add p q s = Inr r" and "wf_poly n p" and "wf_poly n q"
  shows "wf_poly n r" and "peval vs env r = peval vs env p + s * peval vs env q"
proof -
  let ?t = "foldl (\<lambda>r kc. add_term (fst kc) (s * snd kc) r) p q"
  have n: "normalize ?t = Inr r" using assms(1) by (simp add: poly_add_def)
  have t: "distinct (map fst ?t) \<and> key_lengths n ?t
    \<and> peval vs env ?t = peval vs env p + s * peval vs env q" for vs env
    using assms(2,3) by (intro foldl_add_term) (simp_all add: wf_polyD)
  then have d: "distinct (map fst ?t)" "key_lengths n ?t" by simp_all
  show "wf_poly n r" by (rule normalize_sound(1) [OF n d])
  show "peval vs env r = peval vs env p + s * peval vs env q"
    using normalize_sound(2) [OF n d] t by simp
qed

lemma multiply_row:
  assumes "rfold (\<lambda>rkc result. rbind (add_powers k (fst rkc))
             (\<lambda>powers. Inr (add_term powers (c * snd rkc) result))) q r = Inr t"
    and "distinct (map fst r)" and "key_lengths (length vs) r" and "key_lengths (length vs) q"
    and "length k = length vs"
  shows "distinct (map fst t) \<and> key_lengths (length vs) t
    \<and> peval vs env t = peval vs env r + c * monomial vs env k * peval vs env q"
  using assms
proof (induction q arbitrary: r)
  case (Cons kc q)
  let ?r = "add_term (map2 (+) k (fst kc)) (c * snd kc) r"
  have kc: "length (fst kc) = length vs" using Cons.prems by (simp add: key_lengths_Cons)
  with Cons.prems have "rfold (\<lambda>rkc result. rbind (add_powers k (fst rkc))
             (\<lambda>powers. Inr (add_term powers (c * snd rkc) result))) q ?r = Inr t"
    by (simp add: add_powers_def)
  moreover have "distinct (map fst ?r)" "key_lengths (length vs) ?r" "key_lengths (length vs) q"
    using Cons.prems kc by (simp_all add: distinct_add_term key_lengths_add_term key_lengths_Cons)
  ultimately have "distinct (map fst t) \<and> key_lengths (length vs) t
    \<and> peval vs env t = peval vs env ?r + c * monomial vs env k * peval vs env q"
    using Cons.prems(5) by (intro Cons.IH)
  then show ?case
    using Cons.prems kc by (simp add: monomial_add algebra_simps)
qed simp

lemma multiply_rows:
  assumes "rfold (\<lambda>lkc. rfold (\<lambda>rkc result. rbind (add_powers (fst lkc) (fst rkc))
             (\<lambda>powers. Inr (add_term powers (snd lkc * snd rkc) result))) q) p r = Inr t"
    and "distinct (map fst r)" and "key_lengths (length vs) r" and "key_lengths (length vs) q"
    and "key_lengths (length vs) p"
  shows "distinct (map fst t) \<and> key_lengths (length vs) t
    \<and> peval vs env t = peval vs env r + peval vs env p * peval vs env q"
  using assms
proof (induction p arbitrary: r)
  case (Cons kc p)
  from Cons.prems(1) obtain s where
    s: "rfold (\<lambda>rkc result. rbind (add_powers (fst kc) (fst rkc))
             (\<lambda>powers. Inr (add_term powers (snd kc * snd rkc) result))) q r = Inr s" and
    t: "rfold (\<lambda>lkc. rfold (\<lambda>rkc result. rbind (add_powers (fst lkc) (fst rkc))
             (\<lambda>powers. Inr (add_term powers (snd lkc * snd rkc) result))) q) p s = Inr t"
    by (auto simp: rbind_eq_Inr)
  have kc: "length (fst kc) = length vs" "key_lengths (length vs) p"
    using Cons.prems by (simp_all add: key_lengths_Cons)
  have row: "distinct (map fst s) \<and> key_lengths (length vs) s
    \<and> peval vs env s = peval vs env r + snd kc * monomial vs env (fst kc) * peval vs env q"
    by (rule multiply_row [OF s]) (use Cons.prems kc in auto)
  with Cons.IH [OF t] Cons.prems(4) kc show ?case by (simp add: algebra_simps)
qed simp

lemma poly_multiply_sound:
  assumes "poly_multiply p q = Inr r" and "wf_poly (length vs) p" and "wf_poly (length vs) q"
  shows "wf_poly (length vs) r" and "peval vs env r = peval vs env p * peval vs env q"
proof -
  from assms(1) obtain t where
    t: "rfold (\<lambda>lkc. rfold (\<lambda>rkc result. rbind (add_powers (fst lkc) (fst rkc))
             (\<lambda>powers. Inr (add_term powers (snd lkc * snd rkc) result))) q) p [] = Inr t" and
    n: "normalize t = Inr r"
    by (auto simp: poly_multiply_def rbind_eq_Inr)
  have "distinct (map fst t) \<and> key_lengths (length vs) t
    \<and> peval vs env t = peval vs env [] + peval vs env p * peval vs env q" for env
    by (rule multiply_rows [OF t]) (use assms(2,3) in \<open>simp_all add: wf_polyD\<close>)
  then have d: "distinct (map fst t)" "key_lengths (length vs) t"
    and e: "peval vs env t = peval vs env p * peval vs env q" by simp_all
  show "wf_poly (length vs) r" by (rule normalize_sound(1) [OF n d])
  show "peval vs env r = peval vs env p * peval vs env q"
    using normalize_sound(2) [OF n d] e by simp
qed

lemma wf_poly_Nil [simp]: "wf_poly n []"
  by (simp add: wf_poly_def)

lemma power_loop_sound:
  assumes "power_loop p q m = Inr r" and "wf_poly (length vs) p" and "wf_poly (length vs) q"
  shows "wf_poly (length vs) r \<and> peval vs env r = peval vs env p * peval vs env q ^ m"
  using assms
proof (induction p q m arbitrary: r rule: power_loop.induct)
  case (1 p q m)
  show ?case
  proof (cases "m = 0")
    case True
    with 1(2,3) show ?thesis by (simp add: power_loop.simps)
  next
    case m: False
    with 1(2) obtain p' where
      p': "(if odd m then poly_multiply p q else Inr p) = Inr p'" and
      rest: "(if m div 2 = 0 then Inr p'
              else rbind (poly_multiply q q) (\<lambda>q. power_loop p' q (m div 2))) = Inr r"
      by (subst (asm) power_loop.simps) (auto simp: rbind_eq_Inr)
    have wp: "wf_poly (length vs) p'" and
      ep: "peval vs env p' = peval vs env p * peval vs env q ^ (m mod 2)" for env
      using p' 1(3,4) poly_multiply_sound [of p q p' vs]
      by (auto split: if_splits simp: mod2_eq_if)
    show ?thesis
    proof (cases "m div 2 = 0")
      case True
      with m have "m = 1" by simp
      with rest wp ep show ?thesis by simp
    next
      case False
      with rest obtain q' where q': "poly_multiply q q = Inr q'" "power_loop p' q' (m div 2) = Inr r"
        by (auto simp: rbind_eq_Inr)
      have "wf_poly (length vs) r \<and> peval vs env r = peval vs env p' * peval vs env q' ^ (m div 2)"
        using 1(1) [OF m p' False q'(1,2) wp] poly_multiply_sound(1) [OF q'(1) 1(4,4)] by blast
      moreover have "peval vs env q' ^ (m div 2) = peval vs env q ^ (2 * (m div 2))"
        using poly_multiply_sound(2) [OF q'(1) 1(4,4)]
        by (simp add: power_mult power2_eq_square)
      moreover have "peval vs env q ^ (m mod 2) * peval vs env q ^ (2 * (m div 2)) = peval vs env q ^ m"
        by (simp flip: power_add)
      ultimately show ?thesis using ep [of env] by (simp add: mult.assoc)
    qed
  qed
qed

lemma poly_power_sound:
  assumes "poly_power p i (length vs) = Inr r" and "wf_poly (length vs) p"
  shows "0 \<le> i" and "wf_poly (length vs) r" and "peval vs env r = peval vs env p ^ nat i"
proof -
  have one: "wf_poly (length vs) [(replicate (length vs) 0, 1)]" by (simp add: wf_poly_def)
  from assms(1) have l: "power_loop [(replicate (length vs) 0, 1)] p (nat i) = Inr r" and i: "0 \<le> i"
    by (simp_all add: poly_power_def demand_eq_Inr)
  show "0 \<le> i" by (rule i)
  show "wf_poly (length vs) r" "peval vs env r = peval vs env p ^ nat i"
    using power_loop_sound [OF l one assms(2)] by simp_all
qed

lemma wf_poly_constant:
  assumes "wf_poly n q" and "set (map fst q) = {replicate n 0}"
  shows "\<exists>d. q = [(replicate n 0, d)] \<and> d \<noteq> 0"
proof -
  from assms(2) have "q \<noteq> []" by auto
  then obtain kc q' where q: "q = kc # q'" by (cases q) auto
  with assms have "q' = []" by (cases q') (auto simp: wf_poly_def)
  with q assms show ?thesis by (cases kc) (auto simp: wf_poly_def)
qed

lemma wf_poly_map:
  assumes "wf_poly n p" and "\<And>x. x \<noteq> 0 \<Longrightarrow> f x \<noteq> 0"
  shows "wf_poly n (map (\<lambda>kc. (fst kc, f (snd kc))) p)"
  using assms by (auto simp: wf_poly_def comp_def)

section \<open>Soundness of the parser\<close>

lemma visit_binary:
  assumes "visit vs (EBin seg op l r) m = Inr (p, m')"
  shows "(\<exists>s. op \<in> {OAdd, OSub, OMult} \<and> (\<exists>pl nl pr. visit vs l (Suc m) = Inr (pl, nl)
            \<and> visit vs r nl = Inr (pr, m')
            \<and> (if op = OMult then poly_multiply pl pr = Inr p
               else poly_add pl pr s = Inr p \<and> s = (if op = OAdd then 1 else - 1))))
    \<or> (op = ODiv \<and> (\<exists>pl nl pr d. visit vs l (Suc m) = Inr (pl, nl) \<and> visit vs r nl = Inr (pr, m')
            \<and> set (map fst pr) = {replicate (length vs) 0}
            \<and> d = dget pr (replicate (length vs) 0) 0 \<and> d \<noteq> 0
            \<and> normalize (map (\<lambda>kc. (fst kc, snd kc / d)) pl) = Inr p))
    \<or> (op = OPow \<and> (\<exists>pl i. visit vs l (Suc m) = Inr (pl, m') \<and> int_literal r = Some i
            \<and> poly_power pl i (length vs) = Inr p))"
  using assms
  by (cases op) (auto simp: demand_eq_Inr rbind_eq_Inr Let_def split: option.splits)

lemma visit_sound:
  assumes "visit vs e m = Inr (p, m')"
  shows "wf_poly (length vs) p \<and> (\<forall>env. ast_value env e = Some (peval vs env p))"
  using assms
proof (induction e arbitrary: m p m')
  case (EConst seg v)
  then show ?case
    by (auto simp: demand_eq_Inr wf_poly_def split: pyval.splits if_splits)
next
  case (EName x)
  then show ?case
    by (auto simp: demand_eq_Inr wf_poly_def monomial_index [unfolded One_nat_def])
next
  case (EUnary op e)
  show ?case
  proof (cases op)
    case UAdd
    with EUnary show ?thesis by (auto simp: demand_eq_Inr)
  next
    case USub
    with EUnary.prems obtain q where
      q: "visit vs e (Suc m) = Inr (q, m')" "p = map (\<lambda>kc. (fst kc, - snd kc)) q"
      by (auto simp: demand_eq_Inr rbind_eq_Inr)
    from EUnary.IH [OF q(1)] q(2) USub show ?thesis
      using wf_poly_map [of "length vs" q uminus] peval_scale [of uminus "-1" vs _ q] by auto
  next
    case (UOther t)
    with EUnary.prems show ?thesis by (simp add: demand_eq_Inr)
  qed
next
  case (EBin seg op l r)
  from visit_binary [OF EBin.prems] show ?case
  proof (elim disjE exE conjE)
    fix s pl nl pr
    assume op: "op \<in> {OAdd, OSub, OMult}" and l: "visit vs l (Suc m) = Inr (pl, nl)"
      and r: "visit vs r nl = Inr (pr, m')"
      and p: "if op = OMult then poly_multiply pl pr = Inr p
               else poly_add pl pr s = Inr p \<and> s = (if op = OAdd then 1 else - 1)"
    note L = EBin.IH(1) [OF l] and R = EBin.IH(2) [OF r]
    show ?thesis
    proof (cases "op = OMult")
      case True
      with p have "poly_multiply pl pr = Inr p" by simp
      from poly_multiply_sound [OF this] L R True show ?thesis by simp
    next
      case False
      have a: "poly_add pl pr s = Inr p" using p False by metis
      from poly_add_sound [OF a] L R False op p show ?thesis by (auto split: if_splits)
    qed
  next
    fix pl nl pr d
    assume op: "op = ODiv" and l: "visit vs l (Suc m) = Inr (pl, nl)"
      and r: "visit vs r nl = Inr (pr, m')"
      and s: "set (map fst pr) = {replicate (length vs) 0}"
      and d: "d = dget pr (replicate (length vs) 0) 0" "d \<noteq> 0"
      and p: "normalize (map (\<lambda>kc. (fst kc, snd kc / d)) pl) = Inr p"
    note L = EBin.IH(1) [OF l] and R = EBin.IH(2) [OF r]
    from wf_poly_constant [of "length vs" pr] R s d have pr: "pr = [(replicate (length vs) 0, d)]"
      by (auto simp: dget_def)
    have w: "wf_poly (length vs) (map (\<lambda>kc. (fst kc, snd kc / d)) pl)"
      using L d(2) wf_poly_map [of "length vs" pl "\<lambda>x. x / d"] by simp
    from normalize_sound [OF p] wf_polyD [OF w]
    have "wf_poly (length vs) p" "peval vs env p = peval vs env (map (\<lambda>kc. (fst kc, snd kc / d)) pl)" for env
      by auto
    moreover have "peval vs env (map (\<lambda>kc. (fst kc, snd kc / d)) pl) = (1 / d) * peval vs env pl" for env
      by (rule peval_scale) simp
    ultimately show ?thesis using L R op d(2) pr by simp
  next
    fix pl i
    assume op: "op = OPow" and l: "visit vs l (Suc m) = Inr (pl, m')" and i: "int_literal r = Some i"
      and p: "poly_power pl i (length vs) = Inr p"
    note L = EBin.IH(1) [OF l]
    from poly_power_sound [OF p] L have "0 \<le> i" "wf_poly (length vs) p"
      "peval vs env p = peval vs env pl ^ nat i" for env by auto
    then show ?thesis using L op i by (auto split: option.splits)
  qed
qed (simp_all add: demand_eq_Inr)

section \<open>A non-empty normalised polynomial is not the zero function\<close>

text \<open>
  Kronecker substitution: sending the variable at position \<open>i\<close> to \<open>t ^ B ^ i\<close>, for \<open>B\<close> above every
  exponent, sends distinct exponent tuples to distinct powers of \<open>t\<close>; a univariate polynomial with a
  non-zero coefficient has finitely many roots, so some natural \<open>t\<close> is not one.
\<close>

fun kron :: "nat \<Rightarrow> nat list \<Rightarrow> nat" where
  "kron B [] = 0"
| "kron B (e # k) = e + B * kron B k"

lemma kron_inj:
  "length a = length b \<Longrightarrow> \<forall>e \<in> set a \<union> set b. e < B \<Longrightarrow> kron B a = kron B b \<Longrightarrow> a = b"
proof (induction a b rule: list_induct2)
  case (Cons x a y b)
  then have xy: "x < B" "y < B" by simp_all
  from Cons.prems(2) have "x + B * kron B a = y + B * kron B b" by simp
  then have "(x + B * kron B a) mod B = (y + B * kron B b) mod B"
    and "(x + B * kron B a) div B = (y + B * kron B b) div B" by simp_all
  with xy have "x = y" "kron B a = kron B b" by simp_all
  with Cons show ?case by simp
qed simp

lemma prod_list_kron:
  "prod_list (map2 (\<lambda>x e. x ^ e) (map (\<lambda>i. (t::rat) ^ B ^ i) [j..<j + length k]) k) = t ^ (B ^ j * kron B k)"
proof (induction k arbitrary: j)
  case (Cons e k)
  have "[j..<j + length (e # k)] = j # [Suc j..<Suc j + length k]"
    using upt_conv_Cons [of j "j + length (e # k)"] by simp
  then show ?case
    using Cons [of "Suc j"] by (simp add: power_add power_mult algebra_simps flip: power_mult)
qed simp

lemma monomial_map: "monomial vs env k = prod_list (map2 (\<lambda>x e. x ^ e) (map env vs) k)"
proof (induction vs arbitrary: k)
  case (Cons v vs)
  then show ?case by (cases k) (simp_all add: monomial_def)
qed (simp add: monomial_def)

lemma monomial_kron:
  assumes "distinct vs" and "length k = length vs"
  shows "monomial vs (\<lambda>v. t ^ B ^ index_of v vs) k = t ^ kron B k"
proof -
  have "map (\<lambda>v. t ^ B ^ index_of v vs) vs = map (\<lambda>i. t ^ B ^ i) [0..<0 + length k]"
    by (rule nth_equalityI) (simp_all add: assms index_of_nth)
  then have "monomial vs (\<lambda>v. t ^ B ^ index_of v vs) k =
      prod_list (map2 (\<lambda>x e. x ^ e) (map (\<lambda>i. t ^ B ^ i) [0..<0 + length k]) k)"
    by (simp only: monomial_map)
  then show ?thesis by (simp only: prod_list_kron) simp
qed

lemma sum_list_by_degree:
  fixes t :: rat
  assumes "\<forall>x \<in> set p. f x \<le> N"
  shows "sum_list (map (\<lambda>x. g x * t ^ f x) p)
       = (\<Sum>j\<le>N. sum_list (map g (filter (\<lambda>x. f x = j) p)) * t ^ j)"
  using assms
proof (induction p)
  case (Cons x p)
  have "(\<Sum>j\<le>N. sum_list (map g (filter (\<lambda>y. f y = j) (x # p))) * t ^ j)
      = (\<Sum>j\<le>N. (if f x = j then g x * t ^ j else 0)
            + sum_list (map g (filter (\<lambda>y. f y = j) p)) * t ^ j)"
    by (rule sum.cong) (auto simp: algebra_simps)
  with Cons show ?case by (simp add: sum.distrib)
qed simp

lemma rat_polynomial_nonroot:
  fixes c :: "nat \<Rightarrow> rat"
  assumes "c i \<noteq> 0" and "i \<le> N"
  shows "\<exists>t::nat. (\<Sum>j\<le>N. c j * of_nat t ^ j) \<noteq> 0"
proof (rule ccontr)
  assume none: "\<not> ?thesis"
  have "(\<Sum>j\<le>N. real_of_rat (c j) * real t ^ j) = 0" for t
  proof -
    have "(\<Sum>j\<le>N. real_of_rat (c j) * real t ^ j) = real_of_rat (\<Sum>j\<le>N. c j * of_nat t ^ j)"
      by (simp add: of_rat_sum of_rat_mult of_rat_power)
    with none show ?thesis by simp
  qed
  then have "range real \<subseteq> {x. (\<Sum>j\<le>N. real_of_rat (c j) * x ^ j) = 0}" by auto
  moreover have "finite {x. (\<Sum>j\<le>N. real_of_rat (c j) * x ^ j) = 0}"
    using assms by (subst polyfun_finite_roots) auto
  ultimately have "finite (range real)" by (rule finite_subset)
  then show False using finite_imageD [of real UNIV] by (simp add: inj_on_def)
qed

lemma nonempty_poly_nonroot:
  assumes "wf_poly (length vs) p" and "distinct vs" and "p \<noteq> []"
  shows "\<exists>env. peval vs env p \<noteq> 0"
proof -
  from assms(3) obtain kc where kc: "kc \<in> set p" by (cases p) auto
  define B where "B = Suc (Max (insert 0 (\<Union>x \<in> set p. set (fst x))))"
  define f where "f x = kron B (fst x)" for x :: "nat list \<times> rat"
  define N where "N = Max (f ` set p)"
  define c where "c j = sum_list (map snd (filter (\<lambda>x. f x = j) p))" for j
  have B: "e < B" if "x \<in> set p" "e \<in> set (fst x)" for x e
    unfolding B_def using that by (subst less_Suc_eq_le) (rule Max_ge, auto)
  have fN: "f x \<le> N" if "x \<in> set p" for x using that by (simp add: N_def)
  have inj: "x = kc" if "x \<in> set p" "f x = f kc" for x
  proof -
    have "fst x = fst kc"
    proof (rule kron_inj [of _ _ B])
      show "length (fst x) = length (fst kc)" using that(1) kc assms(1) by (simp add: wf_poly_def)
      show "\<forall>e \<in> set (fst x) \<union> set (fst kc). e < B" using B [OF that(1)] B [OF kc] by blast
      show "kron B (fst x) = kron B (fst kc)" using that(2) by (simp add: f_def)
    qed
    with that(1) kc assms(1) show ?thesis
      by (auto simp: wf_poly_def distinct_map inj_on_def)
  qed
  have "filter (\<lambda>x. f x = f kc) p = [kc]"
  proof -
    have "set (filter (\<lambda>x. f x = f kc) p) = {kc}" using inj kc by auto
    moreover have "distinct (filter (\<lambda>x. f x = f kc) p)"
      using assms(1) by (auto simp: wf_poly_def distinct_map)
    ultimately show ?thesis by (rule distinct_set_singleton)
  qed
  then have "c (f kc) \<noteq> 0" using kc assms(1) by (simp add: c_def wf_poly_def)
  from rat_polynomial_nonroot [of c, OF this fN [OF kc]] obtain t :: nat where
    t: "(\<Sum>j\<le>N. c j * of_nat t ^ j) \<noteq> 0" by blast
  let ?env = "\<lambda>v. (of_nat t :: rat) ^ B ^ index_of v vs"
  have "peval vs ?env p = sum_list (map (\<lambda>x. snd x * of_nat t ^ f x) p)"
    unfolding peval_def using assms(1,2)
    by (intro arg_cong [of _ _ sum_list] map_cong) (auto simp: monomial_kron f_def wf_poly_def)
  also have "\<dots> = (\<Sum>j\<le>N. c j * of_nat t ^ j)"
    unfolding c_def using fN by (intro sum_list_by_degree) auto
  finally have "peval vs ?env p \<noteq> 0" using t by simp
  then show ?thesis by blast
qed

section \<open>The verdict of the checker\<close>

lemma parse_sound:
  assumes "parse ast_parse vs source m = Inr (p, m')"
  shows "\<exists>t e. source = VStr t \<and> ast_parse t = Inr e \<and> wf_poly (length vs) p
    \<and> (\<forall>env. ast_value env e = Some (peval vs env p))"
proof -
  from assms obtain t where t: "source = VStr t"
    by (auto simp: parse_def split: pyval.splits)
  with assms obtain e where
    e: "syntax_as (CertError (u ''certificate expression has invalid syntax'')) (ast_parse t) = Inr e"
      "visit vs e m = Inr (p, m')"
    by (auto simp: parse_def result_simps)
  from e(1) have "ast_parse t = Inr e"
    by (auto simp: syntax_as_def split: sum.splits pyexn.splits if_splits)
  with t visit_sound [OF e(2)] show ?thesis by blast
qed

text \<open>What an accepted certificate has been checked for.\<close>

lemma verify_accepts:
  assumes "verify_polynomial_identity_certificate ast_parse py cert = Inr r"
  obtains s vs left right nl nr d ts where
    "cert = VDict (dict_val cert)" and
    "dget_none (dict_val cert) (u ''statement'') = VDict s" and
    "vs = map str_val (list_val (dget_none s (u ''variables'')))" and "distinct vs" and
    "parse ast_parse vs (dget_none s (u ''left'')) 0 = Inr (left, nl)" and
    "parse ast_parse vs (dget_none s (u ''right'')) nl = Inr (right, nr)" and
    "poly_add left right (- 1) = Inr d" and
    "dget_none (dict_val cert) (u ''identity'') = VBool (d = [])" and
    "identity r \<longleftrightarrow> d = []" and
    "canonical_terms py d = Inr ts" and
    "py_eq (dget_none (dict_val cert) (u ''normalizedDifference'')) (VList ts)"
proof -
  have dict: "is_dict v \<Longrightarrow> v = VDict (dict_val v)" for v by (cases v) simp_all
  have vars: "variables_ok v \<Longrightarrow> distinct (map str_val (list_val v))" for v
    by (cases v) (simp_all add: variables_ok_def)
  let ?c = "dict_val cert" and ?s = "dict_val (dget_none (dict_val cert) (u ''statement''))"
  let ?vs = "map str_val (list_val (dget_none ?s (u ''variables'')))"
  note A = assms [unfolded verify_polynomial_identity_certificate_def Let_def result_simps]
  from A obtain b where b: "dget_none ?c (u ''identity'') = VBool b"
    by (cases "dget_none ?c (u ''identity'')") auto
  from A [unfolded b pyval.case result_simps] obtain p nl q nr d ts where
    "is_dict cert" "is_dict (dget_none ?c (u ''statement''))" "variables_ok (dget_none ?s (u ''variables''))"
    "parse ast_parse ?vs (dget_none ?s (u ''left'')) 0 = Inr (p, nl)"
    "parse ast_parse ?vs (dget_none ?s (u ''right'')) nl = Inr (q, nr)"
    "poly_add p q (- 1) = Inr d"
    "canonical_terms py d = Inr ts"
    "py_eq (dget_none ?c (u ''normalizedDifference'')) (VList ts)"
    "b = (d = [])" "identity r = (d = [])"
    by (auto simp: result_simps)
  then show ?thesis by (intro that [of ?s ?vs p nl q nr d ts]) (simp_all add: dict vars b)
qed

lemma checker_verdict:
  assumes "verify_polynomial_identity_certificate ast_parse py cert = Inr r"
  shows "\<exists>s lt rt left right. dget_none (dict_val cert) (u ''statement'') = VDict s
    \<and> dget_none s (u ''left'') = VStr lt \<and> dget_none s (u ''right'') = VStr rt
    \<and> ast_parse lt = Inr left \<and> ast_parse rt = Inr right
    \<and> (\<forall>env. ast_value env left \<noteq> None \<and> ast_value env right \<noteq> None)
    \<and> (identity r \<longleftrightarrow> (\<forall>env. ast_value env left = ast_value env right))"
proof -
  from verify_accepts [OF assms] obtain s vs p q nl nr d where
    st: "dget_none (dict_val cert) (u ''statement'') = VDict s" and vs: "distinct vs" and
    l: "parse ast_parse vs (dget_none s (u ''left'')) 0 = Inr (p, nl)" and
    r: "parse ast_parse vs (dget_none s (u ''right'')) nl = Inr (q, nr)" and
    d: "poly_add p q (- 1) = Inr d" and id: "identity r \<longleftrightarrow> d = []"
    by metis
  from parse_sound [OF l] parse_sound [OF r] obtain lt rt left right where
    L: "dget_none s (u ''left'') = VStr lt" "ast_parse lt = Inr left" "wf_poly (length vs) p"
      "\<forall>env. ast_value env left = Some (peval vs env p)" and
    R: "dget_none s (u ''right'') = VStr rt" "ast_parse rt = Inr right" "wf_poly (length vs) q"
      "\<forall>env. ast_value env right = Some (peval vs env q)"
    by blast
  have wd: "wf_poly (length vs) d" by (rule poly_add_sound(1) [OF d L(3) R(3)])
  have ed: "peval vs env d = peval vs env p - peval vs env q" for env
    using poly_add_sound(2) [OF d L(3) R(3)] by simp
  have "d = [] \<longleftrightarrow> (\<forall>env. peval vs env d = 0)"
    using nonempty_poly_nonroot [OF wd vs] by auto
  then have "identity r \<longleftrightarrow> (\<forall>env. ast_value env left = ast_value env right)"
    using id L(4) R(4) ed by simp
  with st L R show ?thesis by auto
qed

text \<open>
  C8: The checker's verdict is exact. Whenever it accepts a certificate, both sides of its statement
  parse to expressions that are defined at every rational point (no division by zero), and the
  classification it returns is \<^verbatim>\<open>identity\<close> precisely when the two sides take the same value at every
  point: a false identity is never certified and a true one is never called false.
\<close>

theorem checker_verdict_exact:
  assumes "verify_polynomial_identity_certificate ast_parse py cert = Inr r"
  shows "\<exists>s lt rt left right. dget_none (dict_val cert) (u ''statement'') = VDict s
    \<and> dget_none s (u ''left'') = VStr lt \<and> dget_none s (u ''right'') = VStr rt
    \<and> ast_parse lt = Inr left \<and> ast_parse rt = Inr right
    \<and> (\<forall>env. ast_value env left \<noteq> None \<and> ast_value env right \<noteq> None)
    \<and> (identity r \<longleftrightarrow> (\<forall>env. ast_value env left = ast_value env right))"
  using assms by (rule checker_verdict)

section \<open>A checked certificate\<close>

text \<open>
  The certificate that \<^verbatim>\<open>(x+1)*(x-1)\<close> and \<^verbatim>\<open>x*x\<close> differ by \<open>-1\<close>, under an interpreter whose
  digest is constant.
\<close>

definition sample_digest :: pystr where
  "sample_digest = u ''sha256:'' @ replicate 64 48"

definition sample_interp :: interp where
  "sample_interp = \<lparr>float_text = (\<lambda>_. []), sha256 = (\<lambda>_. replicate 64 48), digit_limit = 4300\<rparr>"

definition sample_statement :: pydict where
  "sample_statement =
     [(u ''left'', VStr (u ''(x+1)*(x-1)'')), (u ''right'', VStr (u ''x*x'')),
      (u ''variables'', VList [VStr (u ''x'')])]"

definition sample_difference :: "pyval list" where
  "sample_difference = [VDict [(u ''powers'', VList [VInt 0]), (u ''coefficient'', VStr (u ''-1''))]]"

definition sample_certificate :: pydict where
  "sample_certificate =
     [(u ''format'', VStr CERTIFICATE_FORMAT),
      (u ''statement'', VDict sample_statement),
      (u ''statementDigest'', VStr sample_digest),
      (u ''identity'', VBool False),
      (u ''normalizedDifference'', VList sample_difference),
      (u ''certificateDigest'', VStr sample_digest)]"

definition sample_parse :: "pystr \<Rightarrow> pyexn + pyast" where
  "sample_parse s =
     (let x = EName (u ''x''); one = EConst None (VInt 1) in
      if s = u ''x*x'' then Inr (EBin None OMult x x)
      else Inr (EBin None OMult (EBin None OAdd x one) (EBin None OSub x one)))"

lemma bit_length_one: "bit_length 1 = 1" "bit_length (- 1) = 1"
  by code_simp+

lemma fraction_parts:
  "numerator 1 = 1" "denominator 1 = 1" "numerator (- 1) = - 1" "denominator (- 1) = 1"
  by (simp_all add: numerator_def denominator_def quotient_of_number)

lemmas poly_eval =
  poly_multiply_def poly_add_def add_powers_def add_term_def dget_def normalize_def
  bounded_fraction_def MAX_COEFFICIENT_BITS_def MAX_CERTIFICATE_TERMS_def
  MAX_POLYNOMIAL_DEGREE_def max_degree_def bit_length_one fraction_parts

lemmas parse_eval = parse_def sample_parse_def syntax_as_def Let_def MAX_AST_NODES_def index_of_def poly_eval

lemma sample_sides:
  "parse sample_parse [u ''x''] (VStr (u ''(x+1)*(x-1)'')) 0 = Inr ([([2], 1), ([0], - 1)], 7)"
  "parse sample_parse [u ''x''] (VStr (u ''x*x'')) 7 = Inr ([([2], 1)], 10)"
  "poly_add [([2], 1), ([0], - 1)] [([2], 1)] (- 1) = Inr [([0], - 1)]"
  by (simp add: parse_eval)+

lemma sample_terms: "canonical_terms sample_interp [([0], - 1)] = Inr sample_difference"
  by (simp add: canonical_terms_def term_json_def fraction_text_def fraction_parts int_str_def
      digits_allowed_def sample_interp_def sample_difference_def int_text_def nat_text.simps
      digit_cp_def u_def)

lemma sample_digest_ok: "is_digest sample_digest"
  by code_simp

lemma sample_encodable:
  "\<not> isl (canonical_json sample_interp True (VDict sample_statement))"
  "\<not> isl (canonical_json sample_interp True
            (VDict (AList.delete (u ''certificateDigest'') sample_certificate)))"
  by code_simp+

lemma sample_digest_of:
  "\<not> isl (canonical_json sample_interp b v) \<Longrightarrow> digest_of sample_interp b v = Inr sample_digest"
  by (cases "canonical_json sample_interp b v")
    (simp_all add: digest_of_def sample_digest_def sample_interp_def)

lemma sample_fields:
  "set (map fst sample_certificate) = set certificate_keys"
  "dget_none sample_certificate (u ''statement'') = VDict sample_statement"
  "dget_none sample_certificate (u ''format'') = VStr CERTIFICATE_FORMAT"
  "dget_none sample_certificate (u ''statementDigest'') = VStr sample_digest"
  "dget_none sample_certificate (u ''certificateDigest'') = VStr sample_digest"
  "dget_none sample_certificate (u ''identity'') = VBool False"
  "dget_none sample_certificate (u ''normalizedDifference'') = VList sample_difference"
  by (auto simp: sample_certificate_def certificate_keys_def dget_none_def dget_def)

lemma sample_statement_fields:
  "set (map fst sample_statement) = {u ''left'', u ''right'', u ''variables''}"
  "dget_none sample_statement (u ''left'') = VStr (u ''(x+1)*(x-1)'')"
  "dget_none sample_statement (u ''right'') = VStr (u ''x*x'')"
  "dget_none sample_statement (u ''variables'') = VList [VStr (u ''x'')]"
  "variables_ok (VList [VStr (u ''x'')])"
  by (auto simp: sample_statement_def dget_none_def dget_def variables_ok_def is_variable_def u_def)

lemma sample_accepted:
  "verify_polynomial_identity_certificate sample_parse sample_interp (VDict sample_certificate)
     = Inr \<lparr>valid = True, identity = False, certificate_digest = sample_digest,
            checker_system = CHECKER_SYSTEM, checker_version = CHECKER_VERSION\<rparr>"
proof -
  have "py_eq (VList sample_difference) (VList sample_difference)"
    by (simp add: sample_difference_def py_eq_list py_eq_dict)
  moreover have "length sample_difference = 1"
    by (simp add: sample_difference_def)
  ultimately show ?thesis
    by (simp add: verify_polynomial_identity_certificate_def sample_fields sample_statement_fields
        Let_def check_digest_def sample_digest_of sample_encodable sample_digest_ok sample_sides
        sample_terms MAX_CERTIFICATE_TERMS_def del: set_map)
qed

theorem checker_verdict_exact_witness:
  "\<exists>s lt rt left right. dget_none sample_certificate (u ''statement'') = VDict s
    \<and> dget_none s (u ''left'') = VStr lt \<and> dget_none s (u ''right'') = VStr rt
    \<and> sample_parse lt = Inr left \<and> sample_parse rt = Inr right
    \<and> (\<forall>env. ast_value env left \<noteq> None \<and> ast_value env right \<noteq> None)
    \<and> \<not> (\<forall>env. ast_value env left = ast_value env right)"
  using checker_verdict_exact [OF sample_accepted] by simp

end
