(* ===== verification/Obligations.thy ===== *)
theory Obligations
  imports Obligation_Schemas Transport_Budget Validation Contracts Certificate_Checker "HOL-Library.Multiset"
begin

text \<open>
  \<^verbatim>\<open>obligations.py\<close>: checking a set of claims that depend on each other. A request is validated, its
  obligations are ordered in layers of the dependency graph, each layer is gated on the layers before
  it, executed by the registered providers through the runtime, and what comes back is mapped to a
  status with an assurance level; the outcome is a receipt bound by digests and a feedback of bounded
  size. A receipt can be replayed.

  Documents stay the dictionaries the code works on; the accessors below read them where the schema or
  \<^verbatim>\<open>_entry\<close> guarantees the field. The interpreter, the parser, the JSON Schema library, the registry of
  operations and what \<^verbatim>\<open>str\<close> yields for a value that is not a text are the fields of \<open>runtime_env\<close>.
  What the runtime answers, and the readings of the monotonic clock, are the fields of
  \<open>provider_calls\<close>, one answer per layer: every theorem holds whatever they are.
\<close>

record runtime_env =
  python :: interp
  parser :: "pystr \<Rightarrow> pyexn + pyast"
  json_schema :: json_validator
  operations :: "pystr \<Rightarrow> (pyval \<times> pystr) option"
  text_repr :: "pyval \<Rightarrow> pystr"
  version :: pystr

record provider_calls =
  clock :: "nat \<Rightarrow> rat"
  single_result :: "nat \<Rightarrow> pydict \<Rightarrow> pyexn + pyval"
  batch_results :: "nat \<Rightarrow> pydict list \<Rightarrow> int \<Rightarrow> pyexn + pyval"

section \<open>Reading the documents\<close>

definition ob_id :: "pydict \<Rightarrow> pystr" where
  "ob_id ob = text_of (dget_none ob (u ''id''))"

definition ob_kind :: "pydict \<Rightarrow> pystr" where
  "ob_kind ob = text_of (dget_none ob (u ''kind''))"

definition ob_claim :: "pydict \<Rightarrow> pydict" where
  "ob_claim ob = as_dict_of (dget_none ob (u ''claim''))"

definition ob_deps :: "pydict \<Rightarrow> pystr list" where
  "ob_deps ob = map text_of (list_items (dget_none ob (u ''dependsOn'')))"

definition ob_set :: "pydict \<Rightarrow> pystr option" where
  "ob_set ob = (case dget_none ob (u ''assumptionSet'') of VStr s \<Rightarrow> Some s | _ \<Rightarrow> None)"

definition obligations_of :: "pydict \<Rightarrow> pydict list" where
  "obligations_of request = map as_dict_of (list_items (dget_none request (u ''obligations'')))"

definition assumption_entries :: "pydict \<Rightarrow> pydict list" where
  "assumption_entries request = map as_dict_of (list_items (dget_none request (u ''assumptionSets'')))"

definition assumption_sets_of :: "pydict \<Rightarrow> (pystr \<times> pyval list) list" where
  "assumption_sets_of request =
     foldl (\<lambda>m e. AList.update (ob_id e) (list_items (dget_none e (u ''assumptions''))) m) []
       (assumption_entries request)"

definition entry_status :: "pydict \<Rightarrow> pyval" where
  "entry_status e = dget_none e (u ''status'')"

definition rat_of :: "pyval \<Rightarrow> rat" where
  "rat_of v = (case num_val v of Some r \<Rightarrow> r | None \<Rightarrow> 0)"

section \<open>Validation of a request\<close>

definition validate_document :: "runtime_env \<Rightarrow> pydict \<Rightarrow> pyval \<Rightarrow> pystr \<Rightarrow> pyexn + unit" where
  "validate_document env schema value label =
     (case sort_key (\<lambda>e. (path_texts e, error_message e)) (json_schema env (VDict schema) value) of
        [] \<Rightarrow> Inr ()
      | e # _ \<Rightarrow> Inl (calc ''E_INPUT'' (label @ u '' '' @ path_text e (u ''$'') @ u '': '' @ error_message e)))"

definition bounded_document ::
  "interp \<Rightarrow> heap \<Rightarrow> limits \<Rightarrow> addr \<Rightarrow> pyval \<Rightarrow> pystr \<Rightarrow> pyexn + unit" where
  "bounded_document py h lims a value message =
     (case encode_json_line py h lims a value of
        Inr _ \<Rightarrow> Inr ()
      | Inl (BudgetError msg rule) \<Rightarrow> Inl (CalcError (u ''E_LIMIT'') msg (Some [(u ''rule'', VStr rule)]))
      | Inl (PyExn cls msg) \<Rightarrow>
          (if cls \<in> set encoding_errors then Inl (calc ''E_INPUT'' (message @ msg)) else Inl (PyExn cls msg))
      | Inl e \<Rightarrow> Inl e)"

definition obligation_limits :: limits where
  "obligation_limits =
     \<lparr>max_bytes = MAX_OBLIGATION_REQUEST_BYTES, max_nodes = MAX_OBLIGATION_REQUEST_NODES,
      max_depth = MAX_OBLIGATION_REQUEST_DEPTH\<rparr>"

definition receipt_limits :: limits where
  "receipt_limits =
     \<lparr>max_bytes = MAX_RECEIPT_BYTES, max_nodes = MAX_OBLIGATION_REQUEST_NODES,
      max_depth = MAX_OBLIGATION_REQUEST_DEPTH\<rparr>"

definition bounded_request :: "interp \<Rightarrow> heap \<Rightarrow> addr \<Rightarrow> pyval \<Rightarrow> pyexn + unit" where
  "bounded_request py h a value =
     bounded_document py h obligation_limits a value (u ''obligation request must be bounded JSON: '')"

definition bounded_receipt :: "interp \<Rightarrow> heap \<Rightarrow> addr \<Rightarrow> pyval \<Rightarrow> pyexn + unit" where
  "bounded_receipt py h a value =
     bounded_document py h receipt_limits a value (u ''obligation receipt must be bounded JSON: '')"

text \<open>
  \<^verbatim>\<open>_dependency_layers\<close>: \<open>pending\<close> and \<open>completed\<close> are the sets of the code as lists without
  repetitions; every round completes at least one pending obligation or raises.
\<close>

definition ready :: "pystr list \<Rightarrow> pystr list \<Rightarrow> pydict \<Rightarrow> bool" where
  "ready pending completed ob \<longleftrightarrow> ob_id ob \<in> set pending \<and> set (ob_deps ob) \<subseteq> set completed"

function layers_from :: "pydict list \<Rightarrow> pystr list \<Rightarrow> pystr list \<Rightarrow> pyexn + pydict list list" where
  "layers_from obligations pending completed =
     (if pending = [] then Inr []
      else
        (let layer = filter (ready pending completed) obligations;
             ids = map ob_id layer
         in if layer = [] then Inl (calc ''E_INPUT'' (u ''obligation dependency graph contains a cycle''))
            else
              rbind (layers_from obligations (filter (\<lambda>i. i \<notin> set ids) pending) (List.union completed ids))
                (\<lambda>rest. Inr (layer # rest))))"
  by pat_completeness auto

lemma some_ready_leaves_pending:
  assumes "filter (ready pending completed) obligations \<noteq> []"
  shows "length (filter (\<lambda>i. i \<notin> ob_id ` {ob \<in> set obligations. ready pending completed ob}) pending) < length pending"
proof -
  obtain x where x: "x \<in> set obligations" "ready pending completed x"
    using assms by (auto simp: filter_empty_conv)
  then have "ob_id x \<in> set pending" by (simp add: ready_def)
  then show ?thesis using x by (intro length_filter_less [of "ob_id x"]) auto
qed

termination layers_from
  by (relation "measure (\<lambda>(_, p, _). length p)") (use some_ready_leaves_pending in auto)

definition dependency_layers :: "pydict list \<Rightarrow> pyexn + pydict list list" where
  "dependency_layers obligations = layers_from obligations (remdups (map ob_id obligations)) []"

definition check_references ::
  "runtime_env \<Rightarrow> pystr list \<Rightarrow> pystr list \<Rightarrow> pydict \<Rightarrow> pyexn + unit" where
  "check_references env known_assumption_ids known_obligation_ids obligation =
     demand (case dget_none obligation (u ''assumptionSet'') of
               VNone \<Rightarrow> True | v \<Rightarrow> v \<in> VStr ` set known_assumption_ids)
       (calc ''E_INPUT'' (u ''obligation '' @ ob_id obligation @ u '' references an unknown assumption set''))
    (demand (ob_id obligation \<notin> set (ob_deps obligation))
       (calc ''E_INPUT'' (u ''obligation '' @ ob_id obligation @ u '' cannot depend on itself''))
    (demand (set (ob_deps obligation) \<subseteq> set known_obligation_ids)
       (calc ''E_INPUT'' (u ''obligation '' @ ob_id obligation @ u '' references an unknown dependency''))
    (case map_of KNOWN_PROVIDERS (ob_kind obligation) of
       None \<Rightarrow> Inr ()
     | Some operation \<Rightarrow>
         (case operations env operation of
            None \<Rightarrow> Inl (calc ''E_OPERATION'' (u ''registered obligation provider is unavailable: '' @ operation))
          | Some spec \<Rightarrow>
              validate_operation_arguments (json_schema env) operation (fst spec) (ob_claim obligation)))))"

definition validate_request :: "runtime_env \<Rightarrow> heap \<Rightarrow> addr \<Rightarrow> pyval \<Rightarrow> pyexn + pydict" where
  "validate_request env h a value =
     rbind (bounded_request (python env) h a value) (\<lambda>_.
     rbind (validate_document env OBLIGATION_REQUEST_SCHEMA value (u ''obligation request'')) (\<lambda>_.
     demand (is_dict value) (PyExn (u ''AssertionError'') [])
    (let request = as_dict_of value;
         assumption_ids = map ob_id (assumption_entries request);
         obligations = obligations_of request;
         obligation_ids = map ob_id obligations
     in demand (distinct assumption_ids) (calc ''E_INPUT'' (u ''assumption-set ids must be unique''))
       (demand (distinct obligation_ids) (calc ''E_INPUT'' (u ''obligation ids must be unique''))
       (rbind (rfold (\<lambda>ob _. check_references env assumption_ids obligation_ids ob) obligations ()) (\<lambda>_.
        rbind (dependency_layers obligations) (\<lambda>_. Inr request)))))))"

section \<open>Entries\<close>

definition assumption_reference ::
  "interp \<Rightarrow> pydict \<Rightarrow> (pystr \<times> pyval list) list \<Rightarrow> pyexn + pydict" where
  "assumption_reference py obligation assumption_sets =
     (let assumptions = (case ob_set obligation of None \<Rightarrow> [] | Some s \<Rightarrow> dget assumption_sets s [])
      in rbind (digest_of py False (VList assumptions)) (\<lambda>d.
         Inr [(u ''setId'', dget_none obligation (u ''assumptionSet'')),
              (u ''digest'', VStr d),
              (u ''count'', VInt (int (length assumptions))),
              (u ''interpretation'', VStr (u ''bound_not_evaluated''))]))"

text \<open>\<^verbatim>\<open>list(dict.fromkeys(xs))\<close>.\<close>

definition first_occurrences :: "'a list \<Rightarrow> 'a list" where
  "first_occurrences xs = rev (remdups (rev xs))"

definition entry ::
  "interp \<Rightarrow> pydict \<Rightarrow> (pystr \<times> pyval list) list \<Rightarrow> pystr \<Rightarrow> pystr option \<Rightarrow> pystr \<Rightarrow> pyval \<Rightarrow> pydict
   \<Rightarrow> pystr list \<Rightarrow> pystr list \<Rightarrow> pyexn + pydict" where
  "entry py obligation assumption_sets status assurance_level scope provider detail blocked_by limitations =
     rbind (digest_of py False (VDict detail)) (\<lambda>detail_digest.
     rbind (digest_of py False (dget_none obligation (u ''claim''))) (\<lambda>claim_digest.
     rbind (assumption_reference py obligation assumption_sets) (\<lambda>reference.
       Inr [(u ''id'', VStr (ob_id obligation)),
            (u ''kind'', VStr (ob_kind obligation)),
            (u ''status'', VStr status),
            (u ''assuranceLevel'', case assurance_level of None \<Rightarrow> VNone | Some l \<Rightarrow> VStr l),
            (u ''scope'', VStr scope),
            (u ''claimDigest'', VStr claim_digest),
            (u ''assumptions'', VDict reference),
            (u ''dependsOn'', VList (list_items (dget_none obligation (u ''dependsOn'')))),
            (u ''blockedBy'', texts blocked_by),
            (u ''provider'', provider),
            (u ''detail'', VDict detail),
            (u ''detailDigest'', VStr detail_digest),
            (u ''detailOmitted'', VBool False),
            (u ''limitations'', texts (first_occurrences limitations))])))"

definition provider_of :: "interp \<Rightarrow> pydict \<Rightarrow> pystr \<Rightarrow> pyexn + pyval" where
  "provider_of py raw_result operation =
     (let provenance = dget_none raw_result (u ''provenance'');
          runtime = (case provenance of VDict p \<Rightarrow> dget_none p (u ''runtime'') | _ \<Rightarrow> VNone);
          backends = (case provenance of VDict p \<Rightarrow> dget_none p (u ''backends'') | _ \<Rightarrow> VList [])
      in rbind (digest_of py False (VDict raw_result)) (\<lambda>d.
           Inr (VDict
             [(u ''operation'', VStr operation),
              (u ''resultDigest'', VStr d),
              (u ''runtime'', if is_dict runtime then runtime else VNone),
              (u ''backends'', if is_list backends then backends else VList [])])))"

definition assurance_levels :: "(pystr \<times> pystr) list" where
  "assurance_levels =
     [(u ''kernel_checked'', u ''formal_kernel_checked''),
      (u ''certified'', u ''exact_symbolic''),
      (u ''deterministic'', u ''exact_symbolic''),
      (u ''diagnostic'', u ''numerical''),
      (u ''heuristic'', u ''heuristic'')]"

text \<open>\<^verbatim>\<open>{...}.get(level)\<close> on a table of texts: an unhashable level raises.\<close>

definition assurance_level_of :: "pydict \<Rightarrow> pyexn + pystr option" where
  "assurance_level_of raw_result =
     (let level = dget_none raw_result (u ''assurance'') in
      rbind (in_texts level (map fst assurance_levels)) (\<lambda>known.
        Inr (if known then map_of assurance_levels (text_of level) else None)))"

definition normalized_provider_error :: "pyval \<Rightarrow> pyexn + pydict" where
  "normalized_provider_error value =
     (let raw = as_dict_of value;
          code = (case dget_none raw (u ''code'') of
                    VStr c \<Rightarrow> if c = [] \<or> 64 < length c then u ''E_RUNTIME'' else c
                  | _ \<Rightarrow> u ''E_RUNTIME'');
          message = (case dget_none raw (u ''message'') of
                       VStr m \<Rightarrow> if m = [] then u ''provider returned an invalid error envelope''
                                 else if 1024 < length m then take 1021 m @ u ''...'' else m
                     | _ \<Rightarrow> u ''provider returned an invalid error envelope'')
      in rbind (in_texts (dget_none raw (u ''phase'')) ERROR_PHASES) (\<lambda>phase_ok.
         rbind (in_texts (dget_none raw (u ''suggestedAction'')) ERROR_ACTIONS) (\<lambda>action_ok.
         (let phase = (if phase_ok then Some (text_of (dget_none raw (u ''phase''))) else None);
              action = (if action_ok then Some (text_of (dget_none raw (u ''suggestedAction''))) else None);
              retry_after_ms = (case dget_none raw (u ''retryAfterMs'') of
                                  VInt ms \<Rightarrow> if ms < 1 then None else Some ms
                                | _ \<Rightarrow> None)
          in Inr (error_payload code message None phase retry_after_ms action)))))"

definition scope_of :: "runtime_env \<Rightarrow> pystr \<Rightarrow> pystr" where
  "scope_of env operation = (case operations env operation of Some spec \<Rightarrow> snd spec | None \<Rightarrow> [])"

definition error_entry ::
  "runtime_env \<Rightarrow> pydict \<Rightarrow> (pystr \<times> pyval list) list \<Rightarrow> pystr \<Rightarrow> pydict \<Rightarrow> pyexn + pydict" where
  "error_entry env obligation assumption_sets operation raw_result =
     rbind (normalized_provider_error (dget_none raw_result (u ''error''))) (\<lambda>error.
     (let status = (if text_of (dget_none error (u ''code'')) \<in> set UNSUPPORTED_PROVIDER_ERRORS
                    then u ''unsupported'' else u ''unknown'')
      in rbind (provider_of (python env) raw_result operation) (\<lambda>provider.
         entry (python env) obligation assumption_sets status None (scope_of env operation) provider
           [(u ''reason'', VStr (if status = u ''unsupported'' then u ''provider_rejected_claim''
                                 else u ''provider_inconclusive'')),
            (u ''error'', VDict error)]
           [] [u ''provider_did_not_establish_the_claim''])))"

section \<open>What a provider result establishes\<close>

definition polynomial_statement :: "pydict \<Rightarrow> pyexn + pydict" where
  "polynomial_statement claim =
     (case (dget_none claim (u ''left''), dget_none claim (u ''right''), dget_none claim (u ''variables'')) of
        (VStr left, VStr right, VList variables) \<Rightarrow>
          demand (list_all is_str variables)
            (CertError (u ''obligation claim does not define a polynomial statement''))
            (Inr [(u ''left'', VStr (normalize_expression_source left)),
                  (u ''right'', VStr (normalize_expression_source right)),
                  (u ''variables'', texts (map (\<lambda>v. strip (text_of v)) variables))])
      | _ \<Rightarrow> Inl (CertError (u ''obligation claim does not define a polynomial statement'')))"

text \<open>The body of the \<^verbatim>\<open>try\<close> of \<^verbatim>\<open>_polynomial_entry\<close>.\<close>

definition checked_certificate :: "runtime_env \<Rightarrow> pydict \<Rightarrow> pyval \<Rightarrow> pyexn + check_result" where
  "checked_certificate env obligation certificate =
     rbind (verify_polynomial_identity_certificate (parser env) (python env) certificate) (\<lambda>check.
     rbind (polynomial_statement (ob_claim obligation)) (\<lambda>expected.
     demand (py_eq (dget_none (as_dict_of certificate) (u ''statement'')) (VDict expected))
       (CertError (u ''certificate does not match the requested statement''))
       (Inr check)))"

definition polynomial_entry ::
  "runtime_env \<Rightarrow> pydict \<Rightarrow> (pystr \<times> pyval list) list \<Rightarrow> pydict \<Rightarrow> pyexn + pydict" where
  "polynomial_entry env obligation assumption_sets raw_result =
     (let certificate = dget_none raw_result (u ''certificate'');
          c = as_dict_of certificate;
          provider = provider_of (python env) raw_result (u ''certificate.polynomial_identity'');
          scope = u ''polynomial_identity_over_rationals''
      in case checked_certificate env obligation certificate of
           Inl (CertError message) \<Rightarrow>
             rbind provider (\<lambda>p.
               entry (python env) obligation assumption_sets (u ''unknown'') None scope p
                 [(u ''reason'', VStr (u ''certificate_rejected'')), (u ''message'', VStr message)]
                 [] [u ''independent_checker_rejected_provider_output''])
         | Inl e \<Rightarrow> Inl e
         | Inr check \<Rightarrow>
             (let terms = list_items (dget_none c (u ''normalizedDifference'')) in
              rbind provider (\<lambda>p.
                entry (python env) obligation assumption_sets
                  (if identity check then u ''checked'' else u ''falsified'') (Some (u ''exact_symbolic'')) scope p
                  [(u ''identity'', VBool (identity check)),
                   (u ''statementDigest'', dget_none c (u ''statementDigest'')),
                   (u ''certificateDigest'', VStr (certificate_digest check)),
                   (u ''differenceTermCount'', VInt (int (length terms))),
                   (u ''firstDifferenceTerm'', case terms of [] \<Rightarrow> VNone | t # _ \<Rightarrow> t),
                   (u ''checker'', VDict [(u ''system'', VStr (checker_system check)),
                                          (u ''version'', VStr (checker_version check))])]
                  [] [u ''natural_language_to_claim_translation_unchecked''])))"

definition equivalence_entry ::
  "runtime_env \<Rightarrow> pydict \<Rightarrow> (pystr \<times> pyval list) list \<Rightarrow> pydict \<Rightarrow> pyexn + pydict" where
  "equivalence_entry env obligation assumption_sets raw_result =
     (let equivalence = dget_none raw_result (u ''equivalence'');
          proven = (dget_none raw_result (u ''proven'') = VBool True);
          status = (if proven \<and> equivalence = VStr (u ''equivalent'') then u ''checked''
                    else if proven \<and> equivalence = VStr (u ''not_equivalent'') then u ''falsified''
                    else u ''unknown'');
          detail = [(u ''equivalence'', equivalence),
                    (u ''proven'', VBool proven),
                    (u ''definedness'', dget_none raw_result (u ''definedness'')),
                    (u ''difference'', dget_none raw_result (u ''difference'')),
                    (u ''counterexample'', dget_none raw_result (u ''counterexample''))];
          limitations = [u ''natural_language_to_claim_translation_unchecked'']
            @ (if status = u ''unknown'' then [u ''symbolic_and_bounded_probe_result_inconclusive''] else []);
          scope = (case dget raw_result (u ''scope'') (VStr (u ''declared_domain_and_definedness_policy'')) of
                     VStr s \<Rightarrow> s | v \<Rightarrow> text_repr env v)
      in rbind (assurance_level_of raw_result) (\<lambda>level.
         rbind (provider_of (python env) raw_result (u ''expression.equivalent'')) (\<lambda>p.
           entry (python env) obligation assumption_sets status level scope p detail [] limitations)))"

definition dimension_entry ::
  "runtime_env \<Rightarrow> pydict \<Rightarrow> (pystr \<times> pyval list) list \<Rightarrow> pydict \<Rightarrow> pyexn + pydict" where
  "dimension_entry env obligation assumption_sets raw_result =
     (let consistent = (dget_none raw_result (u ''dimensionallyConsistent'') = VBool True);
          detail = [(u ''dimensionallyConsistent'', VBool consistent),
                    (u ''leftDimension'', dget_none raw_result (u ''leftDimension'')),
                    (u ''rightDimension'', dget_none raw_result (u ''rightDimension'')),
                    (u ''issues'', dget raw_result (u ''issues'') (VList []))]
      in rbind (provider_of (python env) raw_result (u ''dimension.check'')) (\<lambda>p.
           entry (python env) obligation assumption_sets
             (if consistent then u ''checked'' else u ''falsified'') (Some (u ''exact_symbolic''))
             (u ''dimensional_consistency_only'') p detail []
             [u ''formula_correctness_and_coefficients_unchecked'',
              u ''natural_language_to_claim_translation_unchecked'']))"

definition geometry_entry ::
  "runtime_env \<Rightarrow> pydict \<Rightarrow> (pystr \<times> pyval list) list \<Rightarrow> pydict \<Rightarrow> pyexn + pydict" where
  "geometry_entry env obligation assumption_sets raw_result =
     (let square = dget_none raw_result (u ''square'');
          nijenhuis = dget_none raw_result (u ''nijenhuis'');
          satisfied = (is_dict square \<and> dget_none (as_dict_of square) (u ''satisfied'') = VBool True
                       \<and> is_dict nijenhuis \<and> dget_none (as_dict_of nijenhuis) (u ''vanished'') = VBool True);
          detail = [(u ''localConclusion'', dget_none raw_result (u ''localConclusion'')),
                    (u ''square'', square),
                    (u ''nijenhuis'', nijenhuis),
                    (u ''uncheckedGlobalObligations'', dget raw_result (u ''uncheckedGlobalObligations'') (VList []))]
      in rbind (provider_of (python env) raw_result (u ''geometry.almost_complex.local_check'')) (\<lambda>p.
           entry (python env) obligation assumption_sets
             (if satisfied then u ''checked'' else u ''falsified'') (Some (u ''exact_symbolic''))
             (u ''local_coordinate_rational_polynomial_almost_complex_check'') p detail []
             [u ''chart_and_global_manifold_obligations_unchecked'',
              u ''natural_language_to_claim_translation_unchecked'']))"

definition provider_operation :: "pydict \<Rightarrow> pystr" where
  "provider_operation ob = dget KNOWN_PROVIDERS (ob_kind ob) []"

definition map_provider_result ::
  "runtime_env \<Rightarrow> pydict \<Rightarrow> (pystr \<times> pyval list) list \<Rightarrow> pydict \<Rightarrow> pyexn + pydict" where
  "map_provider_result env obligation assumption_sets raw_result =
     (if dget_none raw_result (u ''status'') \<noteq> VStr (u ''ok'')
      then error_entry env obligation assumption_sets (provider_operation obligation) raw_result
      else if ob_kind obligation = u ''polynomial_identity''
      then polynomial_entry env obligation assumption_sets raw_result
      else if ob_kind obligation = u ''expression_equivalence''
      then equivalence_entry env obligation assumption_sets raw_result
      else if ob_kind obligation = u ''dimension_consistency''
      then dimension_entry env obligation assumption_sets raw_result
      else geometry_entry env obligation assumption_sets raw_result)"

definition unsupported_entry ::
  "runtime_env \<Rightarrow> pydict \<Rightarrow> (pystr \<times> pyval list) list \<Rightarrow> pyexn + pydict" where
  "unsupported_entry env obligation assumption_sets =
     entry (python env) obligation assumption_sets (u ''unsupported'') None (u ''unregistered_obligation_kind'') VNone
       [(u ''reason'', VStr (u ''no_registered_obligation_provider'')),
        (u ''supportedKinds'', texts (sort (map fst KNOWN_PROVIDERS)))]
       [] [u ''claim_not_interpreted_or_executed'']"

definition blocked_entry ::
  "runtime_env \<Rightarrow> pydict \<Rightarrow> (pystr \<times> pyval list) list \<Rightarrow> pystr list \<Rightarrow> pyexn + pydict" where
  "blocked_entry env obligation assumption_sets blocked_by =
     entry (python env) obligation assumption_sets (u ''unknown'') None (u ''dependency_gated_obligation'') VNone
       [(u ''reason'', VStr (u ''dependency_not_checked'')), (u ''blockedBy'', texts blocked_by)]
       blocked_by [u ''provider_not_executed'']"

definition deadline_entry ::
  "runtime_env \<Rightarrow> pydict \<Rightarrow> (pystr \<times> pyval list) list \<Rightarrow> pyexn + pydict" where
  "deadline_entry env obligation assumption_sets =
     error_entry env obligation assumption_sets (provider_operation obligation)
       [(u ''status'', VStr (u ''error'')),
        (u ''error'', VDict (error_payload (u ''E_TIMEOUT'') (u ''obligation set exhausted its cumulative deadline'')
           None (Some (u ''batch'')) None (Some (u ''split_or_reduce''))))]"

section \<open>Receipts\<close>

definition summary :: "pydict list \<Rightarrow> pyexn + pydict" where
  "summary entries =
     demand (list_all (\<lambda>e. entry_status e \<in> VStr ` set STATUS_VALUES) entries) (PyExn (u ''KeyError'') [])
       (Inr (map (\<lambda>s. (s, VInt (int (length (filter (\<lambda>e. entry_status e = VStr s) entries))))) STATUS_VALUES
             @ [(u ''total'', VInt (int (length entries)))]))"

definition outcome_payload :: "pydict list \<Rightarrow> pyval" where
  "outcome_payload entries =
     VList (map (\<lambda>e. VDict
       [(u ''id'', dget_none e (u ''id'')),
        (u ''kind'', dget_none e (u ''kind'')),
        (u ''status'', entry_status e),
        (u ''assuranceLevel'', dget_none e (u ''assuranceLevel'')),
        (u ''scope'', dget_none e (u ''scope'')),
        (u ''claimDigest'', dget_none e (u ''claimDigest'')),
        (u ''assumptionsDigest'', dget_none (as_dict_of (dget_none e (u ''assumptions''))) (u ''digest'')),
        (u ''blockedBy'', dget_none e (u ''blockedBy'')),
        (u ''detailDigest'', dget_none e (u ''detailDigest''))]) entries)"

definition receipt_error :: "pystr \<Rightarrow> pyexn" where
  "receipt_error message = calc ''E_RECEIPT'' message"

definition check_detail :: "interp \<Rightarrow> pydict \<Rightarrow> pyexn + unit" where
  "check_detail py e =
     demand (dget_none e (u ''detailOmitted'') \<noteq> VBool True)
       (receipt_error (u ''previous full receipt omits obligation detail''))
     (rbind (digest_of py False (dget_none e (u ''detail''))) (\<lambda>d.
      demand (dget_none e (u ''detailDigest'') = VStr d)
        (receipt_error (u ''previous receipt detail digest does not match obligation '' @ ob_id e))
        (Inr ())))"

definition validate_receipt_integrity :: "interp \<Rightarrow> pydict \<Rightarrow> pyexn + unit" where
  "validate_receipt_integrity py receipt =
     rbind (digest_of py False (VDict (AList.delete (u ''receiptDigest'') receipt))) (\<lambda>d.
     demand (dget_none receipt (u ''receiptDigest'') = VStr d)
       (receipt_error (u ''previous receipt digest does not match its content''))
    (let entries = obligations_of receipt in
     rbind (summary entries) (\<lambda>s.
     demand (py_eq (dget_none receipt (u ''summary'')) (VDict s))
       (receipt_error (u ''previous receipt summary does not match its obligations''))
    (rbind (digest_of py False (outcome_payload entries)) (\<lambda>d.
     demand (dget_none receipt (u ''outcomeDigest'') = VStr d)
       (receipt_error (u ''previous outcome digest does not match its obligations''))
       (rfold (\<lambda>e _. check_detail py e) entries ()))))))"

text \<open>\<^verbatim>\<open>_fit_feedback\<close>: the details are replaced by their digests when the feedback is too long.\<close>

definition omit_detail :: "pydict \<Rightarrow> pydict" where
  "omit_detail e =
     AList.update (u ''detailOmitted'') (VBool True)
       (AList.update (u ''detail'') (VDict [(u ''digest'', dget_none e (u ''detailDigest''))]) e)"

definition fit_feedback :: "interp \<Rightarrow> pydict \<Rightarrow> pyval \<Rightarrow> pyexn + pydict" where
  "fit_feedback py feedback maximum =
     rbind (canonical_json py False (VDict feedback)) (\<lambda>b.
       if of_nat (length b) \<le> rat_of maximum then Inr feedback
       else
         (let entries = obligations_of feedback;
              compact = AList.update (u ''obligations'') (VList (map (\<lambda>e. VDict (omit_detail e)) entries)) feedback
          in rbind (canonical_json py False (VDict compact)) (\<lambda>b.
               if of_nat (length b) \<le> rat_of maximum then Inr compact
               else Inl (CalcError (u ''E_OUTPUT_LIMIT'')
                      (u ''obligation feedback exceeds feedbackBytes even after detail omission'')
                      (Some [(u ''feedbackBytes'', maximum),
                             (u ''obligationCount'', VInt (int (length entries)))])))))"

section \<open>Execution by layers\<close>

type_synonym entry_map = "(pystr \<times> pydict) list"

definition blocked_by :: "entry_map \<Rightarrow> pydict \<Rightarrow> pyexn + pystr list" where
  "blocked_by entries obligation =
     rfilter (\<lambda>d. case map_of entries d of
                None \<Rightarrow> Inl (PyExn (u ''KeyError'') d)
              | Some e \<Rightarrow> Inr (entry_status e \<noteq> VStr (u ''checked'')))
       (ob_deps obligation)"

text \<open>The first loop over a layer: what is blocked or unregistered is settled, the rest is runnable.\<close>

definition gate ::
  "runtime_env \<Rightarrow> (pystr \<times> pyval list) list \<Rightarrow> pydict \<Rightarrow> entry_map \<times> pydict list
   \<Rightarrow> pyexn + entry_map \<times> pydict list" where
  "gate env assumption_sets obligation st =
     (let (entries, runnable) = st in
      rbind (blocked_by entries obligation) (\<lambda>blockers.
        if blockers \<noteq> [] then
          rbind (blocked_entry env obligation assumption_sets blockers) (\<lambda>e.
            Inr (AList.update (ob_id obligation) e entries, runnable))
        else if map_of KNOWN_PROVIDERS (ob_kind obligation) = None then
          rbind (unsupported_entry env obligation assumption_sets) (\<lambda>e.
            Inr (AList.update (ob_id obligation) e entries, runnable))
        else Inr (entries, runnable @ [obligation])))"

definition provider_item :: "pydict \<Rightarrow> int \<Rightarrow> pyval \<Rightarrow> pyval \<Rightarrow> pydict" where
  "provider_item obligation remaining_ms memory_mb provider_output_bytes =
     [(u ''operation'', VStr (provider_operation obligation)),
      (u ''arguments'', dget_none obligation (u ''claim'')),
      (u ''timeoutMs'', VInt remaining_ms),
      (u ''memoryMb'', memory_mb),
      (u ''resultMode'', VStr (u ''auto'')),
      (u ''maxOutputBytes'', provider_output_bytes)]"

definition raw_results_of ::
  "provider_calls \<Rightarrow> nat \<Rightarrow> pydict list \<Rightarrow> int \<Rightarrow> pyexn + pyval list" where
  "raw_results_of calls n items remaining_ms =
     (if length items = 1 then rbind (single_result calls n (hd items)) (\<lambda>r. Inr [r])
      else
        rbind (batch_results calls n items remaining_ms) (\<lambda>batch.
        rbind (get_or batch (u ''results'') VNone) (\<lambda>results.
          Inr (if is_list results \<and> length (list_items results) = length items then list_items results
               else replicate (length items) batch))))"

text \<open>What the result loop passes on: an envelope that is a dictionary, without its index.\<close>

definition provider_envelope :: "pyval \<Rightarrow> pydict" where
  "provider_envelope raw =
     filter (\<lambda>kv. fst kv \<noteq> u ''index'')
       (case raw of
          VDict d \<Rightarrow> d
        | _ \<Rightarrow> [(u ''status'', VStr (u ''error'')),
                (u ''error'', VDict [(u ''code'', VStr (u ''E_RUNTIME'')),
                                     (u ''message'', VStr (u ''obligation provider returned an invalid envelope''))])])"

definition settle_with ::
  "(pydict \<Rightarrow> 'a \<Rightarrow> pyexn + pydict) \<Rightarrow> (pydict \<times> 'a) \<Rightarrow> entry_map \<Rightarrow> pyexn + entry_map" where
  "settle_with f = (\<lambda>(obligation, x) entries.
     rbind (f obligation x) (\<lambda>e. Inr (AList.update (ob_id obligation) e entries)))"

definition run_layer ::
  "runtime_env \<Rightarrow> provider_calls \<Rightarrow> (pystr \<times> pyval list) list \<Rightarrow> rat \<Rightarrow> pyval \<Rightarrow> pyval
   \<Rightarrow> nat \<times> pydict list \<Rightarrow> entry_map \<Rightarrow> pyexn + entry_map" where
  "run_layer env calls assumption_sets deadline memory_mb provider_output_bytes = (\<lambda>(n, layer) entries.
     rbind (rfold (gate env assumption_sets) layer (entries, [])) (\<lambda>(entries, runnable).
       if runnable = [] then Inr entries
       else
         (let remaining_ms = int_trunc ((deadline - clock calls (Suc n)) * 1000) in
          if remaining_ms < 100
          then rfold (settle_with (\<lambda>ob (_ :: unit). deadline_entry env ob assumption_sets))
                 (map (\<lambda>ob. (ob, ())) runnable) entries
          else
            rbind (raw_results_of calls n
                     (map (\<lambda>ob. provider_item ob remaining_ms memory_mb provider_output_bytes) runnable)
                     remaining_ms) (\<lambda>raw_results.
              rfold (settle_with (\<lambda>ob raw. map_provider_result env ob assumption_sets (provider_envelope raw)))
                (zip runnable raw_results) entries))))"

definition limit_of :: "pydict \<Rightarrow> pystr \<Rightarrow> int \<Rightarrow> pyval" where
  "limit_of request name dflt = dget (as_dict_of (dget_none request (u ''limits''))) name (VInt dflt)"

definition run_layers ::
  "runtime_env \<Rightarrow> provider_calls \<Rightarrow> pydict \<Rightarrow> pydict list list \<Rightarrow> pyexn + entry_map" where
  "run_layers env calls request layers =
     (let deadline = clock calls 0 + rat_of (limit_of request (u ''timeoutMs'') DEFAULT_TIMEOUT_MS) / 1000
      in rfold
           (run_layer env calls (assumption_sets_of request) deadline
             (limit_of request (u ''memoryMb'') DEFAULT_MEMORY_MB)
             (limit_of request (u ''providerOutputBytes'') DEFAULT_PROVIDER_OUTPUT_BYTES))
           (zip [0..<length layers] layers) [])"

section \<open>The receipt and the feedback\<close>

definition build_receipt :: "runtime_env \<Rightarrow> pydict \<Rightarrow> pydict list \<Rightarrow> pyexn + pydict" where
  "build_receipt env request entries =
     rbind (summary entries) (\<lambda>s.
     rbind (digest_of (python env) False (VDict request)) (\<lambda>request_digest.
     rbind (digest_of (python env) False (outcome_payload entries)) (\<lambda>outcome_digest.
     (let receipt =
        [(u ''schemaVersion'', VStr OBLIGATION_RECEIPT_SCHEMA_VERSION),
         (u ''requestSchemaVersion'', VStr OBLIGATION_SET_SCHEMA_VERSION),
         (u ''requestDigest'', VStr request_digest),
         (u ''runtime'', VDict [(u ''name'', VStr (u ''math-anchor'')), (u ''version'', VStr (version env))]),
         (u ''assurancePolicy'', dget request (u ''assurancePolicy'') (VStr (u ''strongest_available''))),
         (u ''summary'', VDict s),
         (u ''obligations'', VList (map VDict entries)),
         (u ''outcomeDigest'', VStr outcome_digest)]
      in rbind (digest_of (python env) False (VDict receipt)) (\<lambda>d.
           Inr (AList.update (u ''receiptDigest'') (VStr d) receipt))))))"

definition selected_entries :: "pydict \<Rightarrow> pydict list \<Rightarrow> pydict list" where
  "selected_entries request entries =
     (if dget request (u ''responseMode'') (VStr (u ''failures_only'')) = VStr (u ''full'') then entries
      else filter (\<lambda>e. entry_status e \<noteq> VStr (u ''checked'')) entries)"

definition build_feedback :: "pydict \<Rightarrow> pydict \<Rightarrow> pydict list \<Rightarrow> pydict" where
  "build_feedback request receipt entries =
     (let s = as_dict_of (dget_none receipt (u ''summary'')) in
      [(u ''schemaVersion'', VStr OBLIGATION_FEEDBACK_SCHEMA_VERSION),
       (u ''status'', VStr (if py_eq (dget_none s (u ''checked'')) (dget_none s (u ''total''))
                            then u ''checked'' else u ''attention_required'')),
       (u ''responseMode'', dget request (u ''responseMode'') (VStr (u ''failures_only''))),
       (u ''requestDigest'', dget_none receipt (u ''requestDigest'')),
       (u ''receiptDigest'', dget_none receipt (u ''receiptDigest'')),
       (u ''outcomeDigest'', dget_none receipt (u ''outcomeDigest'')),
       (u ''summary'', VDict s),
       (u ''obligations'', VList (map VDict (selected_entries request entries)))])"

definition check_obligation_set ::
  "runtime_env \<Rightarrow> provider_calls \<Rightarrow> heap \<Rightarrow> addr \<Rightarrow> pyval \<Rightarrow> pyexn + (pydict \<times> pydict)" where
  "check_obligation_set env calls h a value =
     rbind (validate_request env h a value) (\<lambda>request.
     rbind (dependency_layers (obligations_of request)) (\<lambda>layers.
     rbind (run_layers env calls request layers) (\<lambda>entries_by_id.
     rbind (rmap (\<lambda>ob. case map_of entries_by_id (ob_id ob) of
                     Some e \<Rightarrow> Inr e | None \<Rightarrow> Inl (PyExn (u ''KeyError'') (ob_id ob)))
              (obligations_of request)) (\<lambda>entries.
     rbind (build_receipt env request entries) (\<lambda>receipt.
     rbind (canonical_json (python env) False (VDict receipt)) (\<lambda>bytes.
     demand (length bytes \<le> MAX_RECEIPT_BYTES)
       (calc ''E_OUTPUT_LIMIT'' (u ''obligation receipt exceeds the 1048576-byte artifact limit''))
    (rbind (validate_document env OBLIGATION_RECEIPT_SCHEMA (VDict receipt) (u ''obligation receipt'')) (\<lambda>_.
     rbind (fit_feedback (python env) (build_feedback request receipt entries)
              (limit_of request (u ''feedbackBytes'') DEFAULT_FEEDBACK_BYTES)) (\<lambda>feedback.
     rbind (validate_document env OBLIGATION_FEEDBACK_SCHEMA (VDict feedback) (u ''obligation feedback'')) (\<lambda>_.
       Inr (feedback, receipt)))))))))))"

section \<open>Replay\<close>

definition replay_status :: "pydict \<Rightarrow> pydict \<Rightarrow> pystr" where
  "replay_status previous_receipt current_receipt =
     (if py_eq (dget_none previous_receipt (u ''receiptDigest'')) (dget_none current_receipt (u ''receiptDigest''))
      then u ''matched''
      else if py_eq (dget_none previous_receipt (u ''outcomeDigest'')) (dget_none current_receipt (u ''outcomeDigest''))
      then u ''runtime_drift'' else u ''outcome_drift'')"

definition replay_obligation_set ::
  "runtime_env \<Rightarrow> provider_calls \<Rightarrow> heap \<Rightarrow> addr \<Rightarrow> pyval \<Rightarrow> addr \<Rightarrow> pyval
   \<Rightarrow> pyexn + (pydict \<times> pydict \<times> pydict)" where
  "replay_obligation_set env calls h a value ra previous =
     rbind (bounded_receipt (python env) h ra previous) (\<lambda>_.
     rbind (validate_document env OBLIGATION_RECEIPT_SCHEMA previous (u ''previous receipt'')) (\<lambda>_.
     (let previous_receipt = as_dict_of previous in
      rbind (validate_receipt_integrity (python env) previous_receipt) (\<lambda>_.
      rbind (validate_request env h a value) (\<lambda>request.
      rbind (digest_of (python env) False (VDict request)) (\<lambda>d.
      demand (dget_none previous_receipt (u ''requestDigest'') = VStr d)
        (calc ''E_INPUT'' (u ''previous receipt is bound to a different obligation request''))
     (rbind (check_obligation_set env calls h a value) (\<lambda>(feedback, current_receipt).
        Inr ([(u ''schemaVersion'', VStr OBLIGATION_REPLAY_SCHEMA_VERSION),
              (u ''status'', VStr (replay_status previous_receipt current_receipt)),
              (u ''requestDigest'', dget_none current_receipt (u ''requestDigest'')),
              (u ''previousReceiptDigest'', dget_none previous_receipt (u ''receiptDigest'')),
              (u ''currentReceiptDigest'', dget_none current_receipt (u ''receiptDigest'')),
              (u ''previousOutcomeDigest'', dget_none previous_receipt (u ''outcomeDigest'')),
              (u ''currentOutcomeDigest'', dget_none current_receipt (u ''outcomeDigest'')),
              (u ''outcomeMatch'', VBool (py_eq (dget_none previous_receipt (u ''outcomeDigest''))
                                               (dget_none current_receipt (u ''outcomeDigest'')))),
              (u ''runtimeMatch'', VBool (py_eq (dget_none previous_receipt (u ''runtime''))
                                               (dget_none current_receipt (u ''runtime''))))],
             feedback, current_receipt)))))))))"

section \<open>Layers are a topological order\<close>

text \<open>
  \<open>layered C ls\<close>: the dependencies of each layer lie in \<open>C\<close> or in earlier layers. \<open>depth ls i\<close> is the
  layer of the obligation \<open>i\<close>.
\<close>

fun layered :: "pystr set \<Rightarrow> pydict list list \<Rightarrow> bool" where
  "layered C [] \<longleftrightarrow> True"
| "layered C (l # ls) \<longleftrightarrow> (\<forall>ob \<in> set l. set (ob_deps ob) \<subseteq> C) \<and> layered (C \<union> ob_id ` set l) ls"

fun depth :: "pydict list list \<Rightarrow> pystr \<Rightarrow> nat" where
  "depth [] i = 0"
| "depth (l # ls) i = (if i \<in> ob_id ` set l then 0 else Suc (depth ls i))"

definition dependency :: "pydict list \<Rightarrow> (pystr \<times> pystr) set" where
  "dependency obligations = (\<Union>ob \<in> set obligations. (\<lambda>d. (d, ob_id ob)) ` set (ob_deps ob))"

declare layers_from.simps [simp del]

lemma pending_split:
  assumes "distinct (map ob_id obs)"
  shows "mset (filter (\<lambda>ob. ob_id ob \<in> P) obs)
    = mset (filter (\<lambda>ob. ob_id ob \<in> P \<and> Q ob) obs)
      + mset (filter (\<lambda>ob. ob_id ob \<in> P \<and> ob_id ob \<notin> ob_id ` {ob \<in> set obs. ob_id ob \<in> P \<and> Q ob}) obs)"
proof -
  let ?p = "\<lambda>ob. ob_id ob \<in> P"
  have "ob_id ob \<in> ob_id ` {ob \<in> set obs. ob_id ob \<in> P \<and> Q ob} \<longleftrightarrow> Q ob" if "ob \<in> set obs" "?p ob" for ob
    using assms that by (auto simp: distinct_map inj_on_def)
  then have "filter (\<lambda>ob. ?p ob \<and> ob_id ob \<notin> ob_id ` {ob \<in> set obs. ob_id ob \<in> P \<and> Q ob}) obs
      = filter (\<lambda>ob. ?p ob \<and> \<not> Q ob) obs"
    by (intro filter_cong) auto
  moreover have "mset (filter ?p obs) = mset (filter (\<lambda>ob. ?p ob \<and> Q ob) obs) + mset (filter (\<lambda>ob. ?p ob \<and> \<not> Q ob) obs)"
    by (induction obs) auto
  ultimately show ?thesis by simp
qed

lemma layers_from_order:
  assumes "layers_from obs pending completed = Inr ls" and "distinct (map ob_id obs)"
  shows "layered (set completed) ls \<and> mset (concat ls) = mset (filter (\<lambda>ob. ob_id ob \<in> set pending) obs)
    \<and> [] \<notin> set ls"
  using assms
proof (induction obs pending completed arbitrary: ls rule: layers_from.induct)
  case (1 obs pending completed)
  show ?case
  proof (cases "pending = []")
    case True
    then show ?thesis using 1(2) by (simp add: layers_from.simps)
  next
    case False
    let ?layer = "filter (ready pending completed) obs"
    let ?ids = "map ob_id ?layer"
    from 1(2) False obtain rest where ne: "?layer \<noteq> []" and ls: "ls = ?layer # rest" and
      rest: "layers_from obs (filter (\<lambda>i. i \<notin> set ?ids) pending) (List.union completed ?ids) = Inr rest"
      by (auto simp: layers_from.simps [of obs pending] Let_def rbind_eq_Inr split: if_splits)
    note IH = 1(1) [OF False refl refl ne rest 1(3)]
    have "mset (filter (\<lambda>ob. ob_id ob \<in> set pending) obs) = mset ?layer
        + mset (filter (\<lambda>ob. ob_id ob \<in> set (filter (\<lambda>i. i \<notin> set ?ids) pending)) obs)"
      using pending_split [OF 1(3), of "set pending" "\<lambda>ob. set (ob_deps ob) \<subseteq> set completed"]
      by (simp add: ready_def [abs_def] conj_ac)
    then show ?thesis
      using IH ls ne by (auto simp: ready_def)
  qed
qed

lemma layered_depth:
  assumes "layered C ls" and "distinct (map ob_id (concat ls))" and "ob \<in> set (concat ls)"
    and "d \<in> set (ob_deps ob)" and "d \<notin> C"
  shows "d \<in> ob_id ` set (concat ls) \<and> depth ls d < depth ls (ob_id ob)"
  using assms
proof (induction C ls rule: layered.induct)
  case (2 C l ls)
  then have notin: "ob \<in> set (concat ls)" by auto
  with 2(3) have "ob_id ob \<notin> ob_id ` set l" by auto
  then show ?case using 2 notin by auto
qed simp


lemma dependency_layers_order:
  assumes "dependency_layers obs = Inr ls" and "distinct (map ob_id obs)"
  shows "layered {} ls \<and> mset (concat ls) = mset obs \<and> [] \<notin> set ls"
  using layers_from_order [of obs "map ob_id obs" "[]" ls] assms
  by (simp add: dependency_layers_def distinct_remdups_id cong: filter_cong)

lemma layers_acyclic:
  assumes "dependency_layers obs = Inr ls" and "distinct (map ob_id obs)"
  shows "acyclic (dependency obs)"
proof -
  note order = dependency_layers_order [OF assms]
  have "distinct (map ob_id (concat ls))"
    using order assms(2) by (metis mset_eq_imp_distinct_iff mset_map)
  moreover have "set (concat ls) = set obs" using order by (metis mset_eq_setD)
  ultimately have "dependency obs \<subseteq> measure (depth ls)"
    using order layered_depth [of "{}" ls] by (auto simp: dependency_def simp del: set_concat)
  then show ?thesis by (meson acyclic_subset wf_acyclic wf_measure)
qed

lemma acyclic_layers_from:
  assumes "acyclic (dependency obs)" and "set pending \<union> set completed = ob_id ` set obs"
    and "\<forall>ob \<in> set obs. set (ob_deps ob) \<subseteq> ob_id ` set obs"
  shows "\<exists>ls. layers_from obs pending completed = Inr ls"
  using assms
proof (induction obs pending completed rule: layers_from.induct)
  case (1 obs pending completed)
  show ?case
  proof (cases "pending = []")
    case False
    let ?layer = "filter (ready pending completed) obs"
    have ne: "?layer \<noteq> []"
    proof
      assume empty: "?layer = []"
      have "finite (dependency obs)" by (simp add: dependency_def)
      then have "wf (dependency obs)" using 1(2) finite_acyclic_wf by blast
      moreover obtain x where "x \<in> set pending" using False by (cases pending) auto
      ultimately obtain z where z: "z \<in> set pending" "\<forall>y. (y, z) \<in> dependency obs \<longrightarrow> y \<notin> set pending"
        unfolding wf_eq_minimal by metis
      then obtain ob where ob: "ob \<in> set obs" "z = ob_id ob" using 1(3) by auto
      then obtain d where d: "d \<in> set (ob_deps ob)" "d \<notin> set completed"
        using empty z(1) by (auto simp: filter_empty_conv ready_def)
      then have "d \<in> set pending" using 1(3,4) ob(1) by blast
      moreover have "(d, z) \<in> dependency obs" using ob d by (auto simp: dependency_def)
      ultimately show False using z(2) by blast
    qed
    have "\<exists>rest. layers_from obs (filter (\<lambda>i. i \<notin> set (map ob_id ?layer)) pending) (List.union completed (map ob_id ?layer)) = Inr rest"
      by (rule 1(1) [OF False refl refl ne]) (use 1(2,3,4) in \<open>auto simp: ready_def\<close>)
    then show ?thesis using False ne by (auto simp: layers_from.simps [of obs pending] Let_def)
  qed (simp add: layers_from.simps)
qed

text \<open>
  C28: \<^verbatim>\<open>_dependency_layers\<close> succeeds exactly when the dependency graph has no cycle, and then its layers are
  a topological order of the obligations: every obligation occurs once, no layer is empty, and all
  dependencies of a layer lie in earlier layers.
\<close>

theorem dependency_layers_exact:
  assumes "distinct (map ob_id obs)" and "\<forall>ob \<in> set obs. set (ob_deps ob) \<subseteq> ob_id ` set obs"
  shows "((\<exists>ls. dependency_layers obs = Inr ls) \<longleftrightarrow> acyclic (dependency obs))
    \<and> (\<forall>ls. dependency_layers obs = Inr ls \<longrightarrow>
         layered {} ls \<and> mset (concat ls) = mset obs \<and> [] \<notin> set ls)"
proof -
  have "\<exists>ls. dependency_layers obs = Inr ls" if "acyclic (dependency obs)"
    unfolding dependency_layers_def by (rule acyclic_layers_from [OF that]) (use assms(2) in simp_all)
  then show ?thesis using layers_acyclic [OF _ assms(1)] dependency_layers_order [OF _ assms(1)] by blast
qed


text \<open>Three obligations, the last of which depends on the other two.\<close>

definition plain_obligation :: "pystr \<Rightarrow> pystr list \<Rightarrow> pydict" where
  "plain_obligation i deps =
     [(u ''id'', VStr i), (u ''kind'', VStr (u ''lemma'')), (u ''claim'', VDict []), (u ''dependsOn'', texts deps)]"

lemma plain_obligation_fields [simp]:
  "ob_id (plain_obligation i deps) = i" "ob_deps (plain_obligation i deps) = deps"
  by (simp_all add: plain_obligation_def ob_id_def ob_deps_def dget_none_def dget_def texts_def comp_def)

definition sample_obligations :: "pydict list" where
  "sample_obligations =
     [plain_obligation (u ''c'') [u ''a'', u ''b''], plain_obligation (u ''a'') [], plain_obligation (u ''b'') [u ''a'']]"

theorem dependency_layers_exact_witness:
  "(\<exists>ls. dependency_layers sample_obligations = Inr ls \<and> layered {} ls) \<and> acyclic (dependency sample_obligations)"
proof -
  have "distinct (map ob_id sample_obligations)"
    "\<forall>ob \<in> set sample_obligations. set (ob_deps ob) \<subseteq> ob_id ` set sample_obligations"
    by (simp_all add: sample_obligations_def)
  note exact = dependency_layers_exact [OF this]
  have "\<exists>ls. dependency_layers sample_obligations = Inr ls"
    by (simp add: dependency_layers_def layers_from.simps sample_obligations_def ready_def Let_def)
  with exact show ?thesis by blast
qed

section \<open>Entries\<close>

lemma entry_fields:
  assumes "entry py ob sets st lvl sc prov det blk lms = Inr e"
  shows "dget_none e (u ''id'') = VStr (ob_id ob)" "dget_none e (u ''kind'') = VStr (ob_kind ob)"
    "entry_status e = VStr st"
    "dget_none e (u ''assuranceLevel'') = (case lvl of None \<Rightarrow> VNone | Some l \<Rightarrow> VStr l)"
    "dget_none e (u ''dependsOn'') = VList (list_items (dget_none ob (u ''dependsOn'')))"
    "dget_none e (u ''blockedBy'') = texts blk" "dget_none e (u ''provider'') = prov"
    "dget_none e (u ''detail'') = VDict det" "dget_none e (u ''detailOmitted'') = VBool False"
    "\<exists>d. digest_of py False (VDict det) = Inr d \<and> dget_none e (u ''detailDigest'') = VStr d"
    "\<exists>d. digest_of py False (dget_none ob (u ''claim'')) = Inr d \<and> dget_none e (u ''claimDigest'') = VStr d"
  using assms by (auto simp: entry_def rbind_eq_Inr entry_status_def dget_none_def dget_def)

lemma entry_deps [simp]: "entry py ob sets st lvl sc prov det blk lms = Inr e \<Longrightarrow> ob_deps e = ob_deps ob"
  by (simp add: ob_deps_def entry_fields(5))

lemma entry_id [simp]: "entry py ob sets st lvl sc prov det blk lms = Inr e \<Longrightarrow> ob_id e = ob_id ob"
  by (simp add: ob_id_def [of e] entry_fields(1))

text \<open>
  \<open>answers calls ob raw\<close>: the envelope \<open>raw\<close> is what the runtime returned for the item of the obligation
  \<open>ob\<close> itself, alone or at its own position of a batch, or the error of a set whose deadline has passed.
\<close>

definition deadline_envelope :: pydict where
  "deadline_envelope =
     [(u ''status'', VStr (u ''error'')),
      (u ''error'', VDict (error_payload (u ''E_TIMEOUT'') (u ''obligation set exhausted its cumulative deadline'')
         None (Some (u ''batch'')) None (Some (u ''split_or_reduce''))))]"

definition answers :: "provider_calls \<Rightarrow> pydict \<Rightarrow> pydict \<Rightarrow> bool" where
  "answers calls ob raw \<longleftrightarrow>
     raw = deadline_envelope
     \<or> (\<exists>n ms mb pb v. single_result calls n (provider_item ob ms mb pb) = Inr v \<and> raw = provider_envelope v)
     \<or> (\<exists>n ms mb pb items i batch v. batch_results calls n items ms = Inr batch
          \<and> i < length items \<and> items ! i = provider_item ob ms mb pb
          \<and> (v = batch \<or> (\<exists>rs. get_or batch (u ''results'') VNone = Inr (VList rs) \<and> length rs = length items \<and> v = rs ! i))
          \<and> raw = provider_envelope v)"

text \<open>
  \<open>settled env calls sets status ob e\<close>: what the loops make of the obligation \<open>ob\<close> when \<open>status\<close> gives the
  statuses of the obligations it depends on.
\<close>

definition settled ::
  "runtime_env \<Rightarrow> provider_calls \<Rightarrow> (pystr \<times> pyval list) list \<Rightarrow> (pystr \<Rightarrow> pyval) \<Rightarrow> pydict \<Rightarrow> pydict \<Rightarrow> bool" where
  "settled env calls sets status ob e \<longleftrightarrow>
     (let blockers = filter (\<lambda>d. status d \<noteq> VStr (u ''checked'')) (ob_deps ob) in
      if blockers \<noteq> [] then blocked_entry env ob sets blockers = Inr e
      else if map_of KNOWN_PROVIDERS (ob_kind ob) = None then unsupported_entry env ob sets = Inr e
      else \<exists>raw. answers calls ob raw \<and> map_provider_result env ob sets raw = Inr e)"

definition status_in :: "entry_map \<Rightarrow> pystr \<Rightarrow> pyval" where
  "status_in E d = (case map_of E d of Some e \<Rightarrow> entry_status e | None \<Rightarrow> VNone)"

definition extends :: "entry_map \<Rightarrow> entry_map \<Rightarrow> bool" where
  "extends E E' \<longleftrightarrow> (\<forall>k e. map_of E k = Some e \<longrightarrow> map_of E' k = Some e)"

lemma extends_refl [simp]: "extends E E"
  by (simp add: extends_def)

lemma extends_trans: "extends E F \<Longrightarrow> extends F G \<Longrightarrow> extends E G"
  by (simp add: extends_def)

lemma extends_update: "map_of E k = None \<Longrightarrow> extends E (AList.update k e E)"
  by (auto simp: extends_def update_conv')

lemma status_extends: "extends E E' \<Longrightarrow> d \<in> dom (map_of E) \<Longrightarrow> status_in E' d = status_in E d"
  by (auto simp: extends_def status_in_def)

lemma settled_cong:
  "\<forall>d \<in> set (ob_deps ob). status d = status' d \<Longrightarrow> settled env calls sets status ob e = settled env calls sets status' ob e"
proof -
  assume "\<forall>d \<in> set (ob_deps ob). status d = status' d"
  then have eq: "filter (\<lambda>d. status d \<noteq> VStr (u ''checked'')) (ob_deps ob)
      = filter (\<lambda>d. status' d \<noteq> VStr (u ''checked'')) (ob_deps ob)"
    by (intro filter_cong) auto
  show ?thesis unfolding settled_def Let_def eq ..
qed

lemma blocked_by_status:
  "blocked_by E ob = Inr bs \<Longrightarrow> bs = filter (\<lambda>d. status_in E d \<noteq> VStr (u ''checked'')) (ob_deps ob)
     \<and> set (ob_deps ob) \<subseteq> dom (map_of E)"
  by (auto simp: blocked_by_def rfilter_Inr status_in_def split: option.splits intro!: filter_cong)

definition runs :: "entry_map \<Rightarrow> pydict \<Rightarrow> bool" where
  "runs E ob \<longleftrightarrow> (\<forall>d \<in> set (ob_deps ob). status_in E d = VStr (u ''checked''))
     \<and> map_of KNOWN_PROVIDERS (ob_kind ob) \<noteq> None"

lemma gate_step:
  assumes "gate env sets ob (E, R) = Inr (E', R')"
  shows "set (ob_deps ob) \<subseteq> dom (map_of E)"
    and "if runs E ob then E' = E \<and> R' = R @ [ob]
         else R' = R \<and> (\<exists>e. settled env calls sets (status_in E) ob e \<and> E' = AList.update (ob_id ob) e E)"
proof -
  obtain bs where bs: "blocked_by E ob = Inr bs"
    using assms by (auto simp: gate_def rbind_eq_Inr)
  note b = blocked_by_status [OF bs]
  then show "set (ob_deps ob) \<subseteq> dom (map_of E)" by simp
  have runs: "runs E ob \<longleftrightarrow> bs = [] \<and> map_of KNOWN_PROVIDERS (ob_kind ob) \<noteq> None"
    using b by (auto simp: runs_def filter_empty_conv)
  show "if runs E ob then E' = E \<and> R' = R @ [ob]
         else R' = R \<and> (\<exists>e. settled env calls sets (status_in E) ob e \<and> E' = AList.update (ob_id ob) e E)"
    using assms b unfolding runs
    by (auto simp: gate_def bs rbind_eq_Inr settled_def Let_def split: if_splits)
qed


lemma gate_loop:
  assumes "rfold (gate env sets) layer (E, R) = Inr (E', R')" and "extends E0 E"
    and "distinct (map ob_id layer)" and "ob_id ` set layer \<inter> dom (map_of E) = {}"
    and "\<forall>ob \<in> set layer. set (ob_deps ob) \<subseteq> dom (map_of E0)"
  shows "extends E E' \<and> R' = R @ filter (runs E0) layer
    \<and> dom (map_of E') = dom (map_of E) \<union> ob_id ` {ob \<in> set layer. \<not> runs E0 ob}
    \<and> (\<forall>ob \<in> set layer. \<not> runs E0 ob \<longrightarrow>
         (\<exists>e. map_of E' (ob_id ob) = Some e \<and> settled env calls sets (status_in E0) ob e))"
  using assms
proof (induction layer arbitrary: E R)
  case (Cons ob layer)
  then obtain E1 R1 where g: "gate env sets ob (E, R) = Inr (E1, R1)"
    and rest: "rfold (gate env sets) layer (E1, R1) = Inr (E', R')"
    by (auto simp: rbind_eq_Inr)
  have same: "\<forall>d \<in> set (ob_deps ob). status_in E d = status_in E0 d"
    using status_extends [OF Cons.prems(2)] Cons.prems(5) by (meson list.set_intros(1) subsetD)
  then have runs: "runs E ob = runs E0 ob" by (simp add: runs_def)
  show ?case
  proof (cases "runs E0 ob")
    case True
    with gate_step(2) [OF g] runs have "E1 = E" "R1 = R @ [ob]" by auto
    then show ?thesis
      using Cons.IH [OF rest] Cons.prems(2-5) True by (auto simp: inf_commute)
  next
    case False
    with gate_step(2) [OF g] runs obtain e where e: "R1 = R" "settled env calls sets (status_in E) ob e"
      "E1 = AList.update (ob_id ob) e E" by auto
    have new: "map_of E (ob_id ob) = None" using Cons.prems(4) by (auto simp: dom_def)
    have ext: "extends E E1" using extends_update [OF new] e(3) by simp
    have dom1: "dom (map_of E1) = insert (ob_id ob) (dom (map_of E))" by (simp add: e(3) update_conv')
    have IH: "extends E1 E' \<and> R' = R1 @ filter (runs E0) layer
      \<and> dom (map_of E') = dom (map_of E1) \<union> ob_id ` {ob \<in> set layer. \<not> runs E0 ob}
      \<and> (\<forall>ob \<in> set layer. \<not> runs E0 ob \<longrightarrow>
         (\<exists>e. map_of E' (ob_id ob) = Some e \<and> settled env calls sets (status_in E0) ob e))"
      by (rule Cons.IH [OF rest])
        (use Cons.prems(2-5) ext dom1 in \<open>auto intro: extends_trans\<close>)
    have "settled env calls sets (status_in E0) ob e" using e(2) settled_cong [OF same] by simp
    moreover have "map_of E' (ob_id ob) = Some e"
      using IH e(3) by (auto simp: extends_def update_conv')
    ultimately show ?thesis using IH ext False e(1) dom1 by (auto intro: extends_trans)
  qed
qed simp

lemma settle_loop:
  assumes "rfold (settle_with f) ps E = Inr E'"
    and "distinct (map (\<lambda>p. ob_id (fst p)) ps)" and "(\<lambda>p. ob_id (fst p)) ` set ps \<inter> dom (map_of E) = {}"
  shows "extends E E' \<and> dom (map_of E') = dom (map_of E) \<union> (\<lambda>p. ob_id (fst p)) ` set ps
    \<and> (\<forall>p \<in> set ps. \<exists>e. f (fst p) (snd p) = Inr e \<and> map_of E' (ob_id (fst p)) = Some e)"
  using assms
proof (induction ps arbitrary: E)
  case (Cons p ps)
  then obtain e where e: "f (fst p) (snd p) = Inr e"
    and rest: "rfold (settle_with f) ps (AList.update (ob_id (fst p)) e E) = Inr E'"
    by (cases p) (auto simp: settle_with_def rbind_eq_Inr)
  let ?E = "AList.update (ob_id (fst p)) e E"
  have new: "map_of E (ob_id (fst p)) = None" using Cons.prems(3) by (auto simp: dom_def)
  have dom1: "dom (map_of ?E) = insert (ob_id (fst p)) (dom (map_of E))" by (simp add: update_conv')
  have IH: "extends ?E E' \<and> dom (map_of E') = dom (map_of ?E) \<union> (\<lambda>p. ob_id (fst p)) ` set ps
    \<and> (\<forall>p \<in> set ps. \<exists>e. f (fst p) (snd p) = Inr e \<and> map_of E' (ob_id (fst p)) = Some e)"
    by (rule Cons.IH [OF rest]) (use Cons.prems(2,3) dom1 in auto)
  moreover have "map_of E' (ob_id (fst p)) = Some e" using IH by (auto simp: extends_def update_conv')
  moreover have "extends E E'" using extends_trans [OF extends_update [OF new]] IH by blast
  ultimately show ?case using e dom1 by simp
qed simp

lemma raw_results_length: "raw_results_of calls n items ms = Inr rs \<Longrightarrow> length rs = length items"
  by (auto simp: raw_results_of_def rbind_eq_Inr split: if_splits)

lemma raw_results_answer:
  assumes "raw_results_of calls n (map (\<lambda>ob. provider_item ob ms mb pb) R) ms = Inr rs" and "i < length R"
  shows "answers calls (R ! i) (provider_envelope (rs ! i))"
proof (cases "length R = 1")
  case True
  then have "i = 0" "hd (map (\<lambda>ob. provider_item ob ms mb pb) R) = provider_item (R ! i) ms mb pb"
    using assms(2) by (cases R; simp)+
  moreover from assms(1) True obtain v where
    "single_result calls n (hd (map (\<lambda>ob. provider_item ob ms mb pb) R)) = Inr v" "rs = [v]"
    by (auto simp: raw_results_of_def rbind_eq_Inr)
  ultimately have "single_result calls n (provider_item (R ! i) ms mb pb) = Inr v
      \<and> provider_envelope (rs ! i) = provider_envelope v" by simp
  then show ?thesis unfolding answers_def by blast
next
  case False
  let ?items = "map (\<lambda>ob. provider_item ob ms mb pb) R"
  from assms(1) False obtain batch results where b: "batch_results calls n ?items ms = Inr batch"
      "get_or batch (u ''results'') VNone = Inr results"
      "rs = (if is_list results \<and> length (list_items results) = length ?items then list_items results
             else replicate (length ?items) batch)"
    by (auto simp: raw_results_of_def rbind_eq_Inr)
  have "rs ! i = batch \<or> (\<exists>xs. results = VList xs \<and> length xs = length ?items \<and> rs ! i = xs ! i)"
    using b(3) assms(2) by (cases results) (auto split: if_splits)
  then have "\<exists>v. (v = batch \<or> (\<exists>xs. get_or batch (u ''results'') VNone = Inr (VList xs) \<and> length xs = length ?items \<and> v = xs ! i))
      \<and> provider_envelope (rs ! i) = provider_envelope v"
    using b(2) by auto
  moreover have "i < length ?items" "?items ! i = provider_item (R ! i) ms mb pb" using assms(2) by simp_all
  ultimately show ?thesis unfolding answers_def using b(1) by blast
qed

lemma deadline_is_provider_result:
  "deadline_entry env ob sets = map_provider_result env ob sets deadline_envelope"
  by (simp add: deadline_entry_def map_provider_result_def deadline_envelope_def dget_none_def dget_def)

lemma settle_provider_results:
  assumes "rfold (settle_with f) ps E = Inr E'" and "map fst ps = R"
    and "distinct (map ob_id R)" and "ob_id ` set R \<inter> dom (map_of E) = {}"
    and "\<And>ob x e. (ob, x) \<in> set ps \<Longrightarrow> f ob x = Inr e \<Longrightarrow>
           \<exists>raw. answers calls ob raw \<and> map_provider_result env ob sets raw = Inr e"
  shows "extends E E' \<and> dom (map_of E') = dom (map_of E) \<union> ob_id ` set R
    \<and> (\<forall>ob \<in> set R. \<exists>e raw. map_of E' (ob_id ob) = Some e \<and> answers calls ob raw \<and> map_provider_result env ob sets raw = Inr e)"
proof -
  have ids: "map (\<lambda>p. ob_id (fst p)) ps = map ob_id R" "(\<lambda>p. ob_id (fst p)) ` set ps = ob_id ` set R"
    unfolding assms(2) [symmetric] by (simp_all add: comp_def image_image)
  have L: "extends E E' \<and> dom (map_of E') = dom (map_of E) \<union> ob_id ` set R
    \<and> (\<forall>p \<in> set ps. \<exists>e. f (fst p) (snd p) = Inr e \<and> map_of E' (ob_id (fst p)) = Some e)"
    using settle_loop [OF assms(1)] ids assms(3,4) by simp
  have "\<exists>e raw. map_of E' (ob_id ob) = Some e \<and> answers calls ob raw \<and> map_provider_result env ob sets raw = Inr e" if ob: "ob \<in> set R" for ob
  proof -
    obtain p where "p \<in> set ps" "fst p = ob" using ob assms(2) by auto
    with L obtain e where "f ob (snd p) = Inr e" "map_of E' (ob_id ob) = Some e" by blast
    then show ?thesis using assms(5) [of ob "snd p" e] \<open>p \<in> set ps\<close> \<open>fst p = ob\<close> by auto
  qed
  then show ?thesis using L by blast
qed

text \<open>The invariant of the layers: every obligation met so far is settled by the statuses recorded.\<close>

definition all_settled ::
  "runtime_env \<Rightarrow> provider_calls \<Rightarrow> (pystr \<times> pyval list) list \<Rightarrow> pydict list \<Rightarrow> entry_map \<Rightarrow> bool" where
  "all_settled env calls sets P E \<longleftrightarrow>
     dom (map_of E) = ob_id ` set P
     \<and> (\<forall>ob \<in> set P. set (ob_deps ob) \<subseteq> ob_id ` set P
          \<and> (\<exists>e. map_of E (ob_id ob) = Some e \<and> settled env calls sets (status_in E) ob e))"

lemma run_layer_settles:
  assumes "run_layer env calls sets dl mb pb (n, layer) E = Inr E'"
    and "all_settled env calls sets P E" and "distinct (map ob_id (P @ layer))"
    and "\<forall>ob \<in> set layer. set (ob_deps ob) \<subseteq> ob_id ` set P"
  shows "all_settled env calls sets (P @ layer) E'"
proof -
  have dom: "dom (map_of E) = ob_id ` set P" using assms(2) by (simp add: all_settled_def)
  obtain E1 R where g: "rfold (gate env sets) layer (E, []) = Inr (E1, R)"
    using assms(1) by (auto simp: run_layer_def rbind_eq_Inr)
  have G: "extends E E1 \<and> R = [] @ filter (runs E) layer
    \<and> dom (map_of E1) = dom (map_of E) \<union> ob_id ` {ob \<in> set layer. \<not> runs E ob}
    \<and> (\<forall>ob \<in> set layer. \<not> runs E ob \<longrightarrow>
         (\<exists>e. map_of E1 (ob_id ob) = Some e \<and> settled env calls sets (status_in E) ob e))"
    by (rule gate_loop [OF g]) (use assms(3,4) dom in \<open>auto\<close>)
  then have R: "R = filter (runs E) layer" by simp
  have fresh: "distinct (map ob_id R)" "ob_id ` set R \<inter> dom (map_of E1) = {}"
  proof -
    have layer: "distinct (map ob_id layer)" "ob_id ` set P \<inter> ob_id ` set layer = {}" using assms(3) by auto
    show "distinct (map ob_id R)" using layer(1) R by (simp add: distinct_map_filter)
    have "ob_id ob \<noteq> ob_id ob'" if "ob \<in> set R" "ob' \<in> set layer" "\<not> runs E ob'" for ob ob'
      using layer(1) that R by (auto simp: distinct_map inj_on_def)
    then show "ob_id ` set R \<inter> dom (map_of E1) = {}"
      using G dom layer(2) R by auto
  qed
  have "extends E1 E' \<and> dom (map_of E') = dom (map_of E1) \<union> ob_id ` set R
    \<and> (\<forall>ob \<in> set R. \<exists>e raw. map_of E' (ob_id ob) = Some e \<and> answers calls ob raw \<and> map_provider_result env ob sets raw = Inr e)"
  proof -
    let ?ms = "int_trunc ((dl - clock calls (Suc n)) * 1000)"
    have rest: "(if R = [] then Inr E1
       else if ?ms < 100
          then rfold (settle_with (\<lambda>ob (_ :: unit). deadline_entry env ob sets)) (map (\<lambda>ob. (ob, ())) R) E1
          else rbind (raw_results_of calls n (map (\<lambda>ob. provider_item ob ?ms mb pb) R) ?ms) (\<lambda>rs.
              rfold (settle_with (\<lambda>ob raw. map_provider_result env ob sets (provider_envelope raw))) (zip R rs) E1))
      = Inr E'"
      using assms(1) unfolding run_layer_def prod.case g rbind_Inr Let_def .
    have "R = [] \<and> E' = E1
      \<or> rfold (settle_with (\<lambda>ob (_ :: unit). deadline_entry env ob sets)) (map (\<lambda>ob. (ob, ())) R) E1 = Inr E'
      \<or> (\<exists>rs. length rs = length R \<and> (\<forall>i < length R. answers calls (R ! i) (provider_envelope (rs ! i))) \<and>
          rfold (settle_with (\<lambda>ob raw. map_provider_result env ob sets (provider_envelope raw))) (zip R rs) E1 = Inr E')"
    proof (cases "R = [] \<or> ?ms < 100")
      case False
      then obtain rs where rs: "raw_results_of calls n (map (\<lambda>ob. provider_item ob ?ms mb pb) R) ?ms = Inr rs"
        "rfold (settle_with (\<lambda>ob raw. map_provider_result env ob sets (provider_envelope raw))) (zip R rs) E1 = Inr E'"
        using rest by (auto simp: rbind_eq_Inr)
      then show ?thesis using raw_results_length [OF rs(1)] raw_results_answer [OF rs(1)] by auto
    qed (use rest in \<open>auto split: if_splits\<close>)
    then consider "R = []" "E' = E1"
      | "rfold (settle_with (\<lambda>ob (_ :: unit). deadline_entry env ob sets)) (map (\<lambda>ob. (ob, ())) R) E1 = Inr E'"
      | rs where "length rs = length R" "\<forall>i < length R. answers calls (R ! i) (provider_envelope (rs ! i))"
          "rfold (settle_with (\<lambda>ob raw. map_provider_result env ob sets (provider_envelope raw))) (zip R rs) E1 = Inr E'"
      by blast
    then show ?thesis
    proof cases
      case 2
      show ?thesis
        by (rule settle_provider_results [OF 2 _ fresh])
          (auto simp: comp_def deadline_is_provider_result answers_def)
    next
      case 3
      show ?thesis
        by (rule settle_provider_results [OF 3(3) _ fresh]) (use 3(1,2) in \<open>auto simp: set_zip\<close>)
    next
      case 1
      then show ?thesis by simp
    qed
  qed
  note S = this
  have ext: "extends E E'" by (rule extends_trans [of E E1]) (use G S in simp_all)
  have status: "status_in E' d = status_in E d" if "d \<in> ob_id ` set P" for d
    using status_extends [OF ext] dom that by simp
  show ?thesis
    unfolding all_settled_def
  proof (intro conjI ballI)
    have "set layer = {ob \<in> set layer. \<not> runs E ob} \<union> set R" using R by auto
    then have "ob_id ` set layer = ob_id ` {ob \<in> set layer. \<not> runs E ob} \<union> ob_id ` set R"
      by (metis image_Un)
    then show "dom (map_of E') = ob_id ` set (P @ layer)" using S G dom by (simp add: image_Un Un_assoc)
    fix ob assume ob: "ob \<in> set (P @ layer)"
    have deps: "set (ob_deps ob) \<subseteq> ob_id ` set P"
      using ob assms(2,4) by (auto simp: all_settled_def)
    then show "set (ob_deps ob) \<subseteq> ob_id ` set (P @ layer)" by auto
    have same: "\<forall>d \<in> set (ob_deps ob). status_in E' d = status_in E d" using status deps by blast
    consider "ob \<in> set P" | "ob \<in> set layer" "\<not> runs E ob" | "ob \<in> set R"
      using ob R by auto
    then have "\<exists>e. map_of E' (ob_id ob) = Some e \<and> settled env calls sets (status_in E) ob e"
    proof cases
      case 1
      then show ?thesis using assms(2) ext by (auto simp: all_settled_def extends_def)
    next
      case 2
      then obtain e where "map_of E1 (ob_id ob) = Some e" "settled env calls sets (status_in E) ob e" using G by blast
      then show ?thesis using S by (auto simp: extends_def)
    next
      case 3
      then have "runs E ob" using R by simp
      moreover obtain e raw where "map_of E' (ob_id ob) = Some e" "answers calls ob raw"
          "map_provider_result env ob sets raw = Inr e"
        using S 3 by blast
      ultimately show ?thesis by (auto simp: runs_def settled_def filter_empty_conv)
    qed
    then show "\<exists>e. map_of E' (ob_id ob) = Some e \<and> settled env calls sets (status_in E') ob e"
      using settled_cong [OF same] by simp
  qed
qed

lemma run_layers_settle:
  assumes "rfold (run_layer env calls sets dl mb pb) (zip ns ls) E = Inr E'" and "length ns = length ls"
    and "all_settled env calls sets P E" and "distinct (map ob_id (P @ concat ls))" and "layered (ob_id ` set P) ls"
  shows "all_settled env calls sets (P @ concat ls) E'"
  using assms
proof (induction ls arbitrary: ns P E)
  case (Cons l ls)
  then obtain n ns' where ns: "ns = n # ns'" by (cases ns) auto
  with Cons.prems(1) obtain E1 where E1: "run_layer env calls sets dl mb pb (n, l) E = Inr E1"
    and rest: "rfold (run_layer env calls sets dl mb pb) (zip ns' ls) E1 = Inr E'"
    by (auto simp: rbind_eq_Inr)
  have "all_settled env calls sets (P @ l) E1"
    by (rule run_layer_settles [OF E1 Cons.prems(3)]) (use Cons.prems(4,5) in auto)
  then have "all_settled env calls sets ((P @ l) @ concat ls) E'"
    using Cons.IH [OF rest, of "P @ l"] Cons.prems ns by (auto simp: image_Un)
  then show ?case by simp
qed simp


section \<open>What a receipt says\<close>

lemma rfold_unit_Inr: "rfold (\<lambda>x _. f x) xs () = Inr () \<longleftrightarrow> (\<forall>x \<in> set xs. f x = Inr ())"
  by (induction xs) (auto simp: rbind_eq_Inr)

lemma validated_request:
  assumes "validate_request env h a value = Inr request"
  shows "value = VDict request" "distinct (map ob_id (obligations_of request))"
    "\<forall>ob \<in> set (obligations_of request). set (ob_deps ob) \<subseteq> ob_id ` set (obligations_of request) \<and> ob_id ob \<notin> set (ob_deps ob)"
    "\<exists>ls. dependency_layers (obligations_of request) = Inr ls"
proof -
  have request: "is_dict value" "request = as_dict_of value"
    and ids: "distinct (map ob_id (obligations_of request))"
    and refs: "rfold (\<lambda>ob _. check_references env (map ob_id (assumption_entries request))
        (map ob_id (obligations_of request)) ob) (obligations_of request) () = Inr ()"
    and "\<exists>ls. dependency_layers (obligations_of request) = Inr ls"
    using assms by (auto simp: validate_request_def result_simps Let_def)
  then show "value = VDict request" "distinct (map ob_id (obligations_of request))"
    "\<exists>ls. dependency_layers (obligations_of request) = Inr ls" by (cases "value"; simp)+
  show "\<forall>ob \<in> set (obligations_of request). set (ob_deps ob) \<subseteq> ob_id ` set (obligations_of request) \<and> ob_id ob \<notin> set (ob_deps ob)"
    using refs unfolding rfold_unit_Inr by (auto simp: check_references_def demand_eq_Inr)
qed

lemma obligations_of_receipt:
  "build_receipt env request entries = Inr receipt \<Longrightarrow> obligations_of receipt = entries"
  by (auto simp: build_receipt_def rbind_eq_Inr Let_def obligations_of_def dget_none_def dget_def comp_def)

lemma check_outcome:
  assumes "check_obligation_set env calls h a value = Inr (feedback, receipt)"
  obtains request layers E where
    "validate_request env h a value = Inr request" "dependency_layers (obligations_of request) = Inr layers"
    "all_settled env calls (assumption_sets_of request) (concat layers) E"
    "set (concat layers) = set (obligations_of request)"
    "obligations_of receipt = map (\<lambda>ob. the (map_of E (ob_id ob))) (obligations_of request)"
    "build_receipt env request (obligations_of receipt) = Inr receipt"
    "fit_feedback (python env) (build_feedback request receipt (obligations_of receipt))
       (limit_of request (u ''feedbackBytes'') DEFAULT_FEEDBACK_BYTES) = Inr feedback"
proof -
  from assms obtain request layers E entries where
    r: "validate_request env h a value = Inr request" and
    l: "dependency_layers (obligations_of request) = Inr layers" and
    E: "run_layers env calls request layers = Inr E" and
    e: "rmap (\<lambda>ob. case map_of E (ob_id ob) of Some e \<Rightarrow> Inr e | None \<Rightarrow> Inl (PyExn (u ''KeyError'') (ob_id ob)))
          (obligations_of request) = Inr entries" and
    b: "build_receipt env request entries = Inr receipt" and
    f: "fit_feedback (python env) (build_feedback request receipt entries)
          (limit_of request (u ''feedbackBytes'') DEFAULT_FEEDBACK_BYTES) = Inr feedback"
    unfolding check_obligation_set_def result_simps by blast
  note order = dependency_layers_order [OF l validated_request(2) [OF r]]
  then have "distinct (map ob_id (concat layers))"
    using validated_request(2) [OF r] by (metis mset_eq_imp_distinct_iff mset_map)
  moreover have "all_settled env calls (assumption_sets_of request) [] []" by (simp add: all_settled_def)
  ultimately have "all_settled env calls (assumption_sets_of request) ([] @ concat layers) E"
    using E order unfolding run_layers_def Let_def by (intro run_layers_settle) auto
  moreover have "set (concat layers) = set (obligations_of request)" using order by (metis mset_eq_setD)
  moreover have "entries = map (\<lambda>ob. the (map_of E (ob_id ob))) (obligations_of request)"
    using e unfolding rmap_Inr_iff by (induction rule: list_all2_induct) (auto split: option.splits)
  ultimately show thesis using that [OF r l] b f obligations_of_receipt [OF b] by simp
qed

definition from_provider :: "interp \<Rightarrow> pydict \<Rightarrow> (pystr \<times> pyval list) list \<Rightarrow> pydict \<Rightarrow> bool" where
  "from_provider py ob sets e \<longleftrightarrow>
     (\<exists>st lvl sc raw op prov det lms. provider_of py raw op = Inr prov
        \<and> entry py ob sets st lvl sc prov det [] lms = Inr e)"

lemma from_providerI:
  "provider_of py raw op = Inr prov \<Longrightarrow> entry py ob sets st lvl sc prov det [] lms = Inr e \<Longrightarrow> from_provider py ob sets e"
  unfolding from_provider_def by blast

lemma provider_result_entry:
  assumes "map_provider_result env ob sets raw = Inr e"
  shows "from_provider (python env) ob sets e"
  using assms
  unfolding map_provider_result_def error_entry_def polynomial_entry_def equivalence_entry_def
    dimension_entry_def geometry_entry_def Let_def
  by (auto simp: rbind_eq_Inr simp del: u_eq_iff split: if_splits sum.splits pyexn.splits intro: from_providerI)

lemma from_provider_fields:
  assumes "from_provider py ob sets e"
  shows "dget_none e (u ''blockedBy'') = texts []" "dget_none e (u ''provider'') \<noteq> VNone"
    "ob_id e = ob_id ob" "ob_deps e = ob_deps ob"
  using assms by (auto simp: from_provider_def entry_fields provider_of_def rbind_eq_Inr Let_def)


lemma settled_fields:
  assumes "settled env calls sets status ob e"
  defines "blockers \<equiv> filter (\<lambda>d. status d \<noteq> VStr (u ''checked'')) (ob_deps ob)"
  shows "ob_id e = ob_id ob" "ob_deps e = ob_deps ob" "dget_none e (u ''blockedBy'') = texts blockers"
    "blockers \<noteq> [] \<Longrightarrow> entry_status e = VStr (u ''unknown'') \<and> dget_none e (u ''provider'') = VNone"
proof -
  consider "blockers \<noteq> []" "blocked_entry env ob sets blockers = Inr e"
    | "blockers = []" "unsupported_entry env ob sets = Inr e"
    | "blockers = []" "from_provider (python env) ob sets e"
    using assms provider_result_entry unfolding settled_def Let_def by (metis (no_types, lifting))
  then have "ob_id e = ob_id ob \<and> ob_deps e = ob_deps ob \<and> dget_none e (u ''blockedBy'') = texts blockers
    \<and> (blockers \<noteq> [] \<longrightarrow> entry_status e = VStr (u ''unknown'') \<and> dget_none e (u ''provider'') = VNone)"
  proof cases
    case 1
    then show ?thesis by (simp add: blocked_entry_def entry_fields)
  next
    case 2
    then show ?thesis by (simp add: unsupported_entry_def entry_fields)
  next
    case 3
    then show ?thesis by (simp add: from_provider_fields)
  qed
  then show "ob_id e = ob_id ob" "ob_deps e = ob_deps ob" "dget_none e (u ''blockedBy'') = texts blockers"
    "blockers \<noteq> [] \<Longrightarrow> entry_status e = VStr (u ''unknown'') \<and> dget_none e (u ''provider'') = VNone" by simp_all
qed

definition status_of :: "pydict list \<Rightarrow> pystr \<Rightarrow> pyval" where
  "status_of entries = status_in (map (\<lambda>e. (ob_id e, e)) entries)"

text \<open>Every entry of a receipt is settled by the statuses of the receipt itself.\<close>

lemma receipt_settled:
  assumes "check_obligation_set env calls h a value = Inr (feedback, receipt)"
  obtains request where "validate_request env h a value = Inr request"
    "map ob_id (obligations_of receipt) = map ob_id (obligations_of request)"
    "list_all2 (settled env calls (assumption_sets_of request) (status_of (obligations_of receipt)))
       (obligations_of request) (obligations_of receipt)"
proof -
  from check_outcome [OF assms] obtain request layers E where
    r: "validate_request env h a value = Inr request" and
    E: "all_settled env calls (assumption_sets_of request) (concat layers) E" and
    set: "set (concat layers) = set (obligations_of request)" and
    e: "obligations_of receipt = map (\<lambda>ob. the (map_of E (ob_id ob))) (obligations_of request)"
    by metis
  let ?obs = "obligations_of request"
  have one: "\<exists>e. map_of E (ob_id ob) = Some e \<and> settled env calls (assumption_sets_of request) (status_in E) ob e"
    if "ob \<in> set ?obs" for ob
    using E [unfolded all_settled_def set] that by blast
  have ids: "ob_id (the (map_of E (ob_id ob))) = ob_id ob" if "ob \<in> set ?obs" for ob
    using one [OF that] settled_fields(1) by fastforce
  have "map_of (map (\<lambda>e. (ob_id e, e)) (obligations_of receipt)) d = map_of E d" for d
  proof (cases "d \<in> ob_id ` set ?obs")
    case True
    have "map_of (map (\<lambda>ob. (ob_id ob, the (map_of E (ob_id ob)))) xs) d = Some (the (map_of E d))"
      if "d \<in> ob_id ` set xs" for xs using that by (induction xs) auto
    moreover have "map (\<lambda>e. (ob_id e, e)) (obligations_of receipt) = map (\<lambda>ob. (ob_id ob, the (map_of E (ob_id ob)))) ?obs"
      using e ids by simp
    moreover have "\<exists>e. map_of E d = Some e" using True one by blast
    ultimately show ?thesis using True by auto
  next
    case False
    then have "d \<notin> dom (map_of E)" using E set by (auto simp: all_settled_def simp del: set_concat)
    moreover have "d \<notin> ob_id ` set (obligations_of receipt)" using False e ids by (auto simp: image_iff)
    moreover have "ob_id ` set (obligations_of receipt) = fst ` set (map (\<lambda>e. (ob_id e, e)) (obligations_of receipt))"
      by (simp add: image_image)
    ultimately have "map_of E d = None" "map_of (map (\<lambda>e. (ob_id e, e)) (obligations_of receipt)) d = None"
      by (auto simp only: domIff map_of_eq_None_iff not_not)
    then show ?thesis by simp
  qed
  then have status: "status_of (obligations_of receipt) = status_in E"
    by (intro ext) (simp add: status_of_def status_in_def)
  have "settled env calls (assumption_sets_of request) (status_in E) ob (the (map_of E (ob_id ob)))" if "ob \<in> set ?obs" for ob
    using one [OF that] by auto
  then have "list_all2 (settled env calls (assumption_sets_of request) (status_in E)) ?obs (obligations_of receipt)"
    unfolding e by (simp add: list_all2_conv_all_nth)
  then have "list_all2 (settled env calls (assumption_sets_of request) (status_of (obligations_of receipt))) ?obs (obligations_of receipt)"
    unfolding status .
  moreover have "map ob_id (obligations_of receipt) = map ob_id ?obs" using e ids by simp
  ultimately show thesis using that r by blast
qed

lemma status_of_nth:
  assumes "distinct (map ob_id entries)" and "i < length entries"
  shows "status_of entries (ob_id (entries ! i)) = entry_status (entries ! i)"
proof -
  have "map_of (map (\<lambda>e. (ob_id e, e)) entries) (ob_id (entries ! i)) = Some (entries ! i)"
    using assms by (intro map_of_is_SomeI) (auto simp: comp_def)
  then show ?thesis by (simp add: status_of_def status_in_def)
qed

text \<open>
  C12: Dependencies gate the outcome. The receipt has one entry per obligation in the order of the request;
  the \<^verbatim>\<open>blockedBy\<close> of an entry is exactly the list of those dependencies that are not \<^verbatim>\<open>checked\<close> in this
  very receipt; an obligation with such a dependency is \<^verbatim>\<open>unknown\<close> and no provider was executed for it;
  hence everything a checked obligation depends on, directly or not, is checked.
\<close>

theorem obligations_gated:
  assumes "check_obligation_set env calls h a value = Inr (feedback, receipt)"
  shows "\<exists>request. value = VDict request
    \<and> map ob_id (obligations_of receipt) = map ob_id (obligations_of request)
    \<and> distinct (map ob_id (obligations_of request))
    \<and> (\<forall>i < length (obligations_of request).
         let ob = obligations_of request ! i; e = obligations_of receipt ! i;
             blockers = filter (\<lambda>d. status_of (obligations_of receipt) d \<noteq> VStr (u ''checked'')) (ob_deps ob)
         in dget_none e (u ''blockedBy'') = texts blockers
            \<and> (blockers \<noteq> [] \<longrightarrow> entry_status e = VStr (u ''unknown'') \<and> dget_none e (u ''provider'') = VNone))
    \<and> (\<forall>d i. (d, i) \<in> (dependency (obligations_of request))\<^sup>+
         \<longrightarrow> status_of (obligations_of receipt) i = VStr (u ''checked'')
         \<longrightarrow> status_of (obligations_of receipt) d = VStr (u ''checked''))"
proof -
  from receipt_settled [OF assms] obtain request where
    r: "validate_request env h a value = Inr request" and
    ids: "map ob_id (obligations_of receipt) = map ob_id (obligations_of request)" and
    all: "list_all2 (settled env calls (assumption_sets_of request) (status_of (obligations_of receipt)))
       (obligations_of request) (obligations_of receipt)" by metis
  let ?obs = "obligations_of request" and ?es = "obligations_of receipt"
  note v = validated_request [OF r]
  have step: "status_of ?es d = VStr (u ''checked'')"
    if "(d, i) \<in> dependency ?obs" "status_of ?es i = VStr (u ''checked'')" for d i
  proof -
    from that(1) obtain ob where ob: "ob \<in> set ?obs" "i = ob_id ob" "d \<in> set (ob_deps ob)"
      by (auto simp: dependency_def)
    then obtain k where k: "k < length ?obs" "?obs ! k = ob" by (auto simp: in_set_conv_nth)
    have s: "settled env calls (assumption_sets_of request) (status_of ?es) ob (?es ! k)"
      using all k by (auto simp: list_all2_conv_all_nth)
    have "entry_status (?es ! k) = VStr (u ''checked'')"
      using that(2) status_of_nth [of ?es k] k ids v(2) settled_fields(1) [OF s] list_all2_lengthD [OF all] ob(2)
      by simp
    then show ?thesis using settled_fields(4) [OF s] ob(3) by (auto simp: filter_empty_conv)
  qed
  have chain: "status_of ?es d = VStr (u ''checked'')"
    if "(d, i) \<in> (dependency ?obs)\<^sup>+" "status_of ?es i = VStr (u ''checked'')" for d i
    using that by (induction rule: trancl_induct) (auto dest: step)
  have "\<forall>i < length ?obs.
     let ob = ?obs ! i; e = ?es ! i; blockers = filter (\<lambda>d. status_of ?es d \<noteq> VStr (u ''checked'')) (ob_deps ob)
     in dget_none e (u ''blockedBy'') = texts blockers
        \<and> (blockers \<noteq> [] \<longrightarrow> entry_status e = VStr (u ''unknown'') \<and> dget_none e (u ''provider'') = VNone)"
    using all settled_fields(3,4) unfolding Let_def list_all2_conv_all_nth by blast
  then show ?thesis using v ids chain by blast
qed


section \<open>What a verdict rests on\<close>

lemma error_entry_status:
  "error_entry env ob sets op raw = Inr e \<Longrightarrow> entry_status e = VStr (u ''unsupported'') \<or> entry_status e = VStr (u ''unknown'')"
  by (auto simp: error_entry_def rbind_eq_Inr Let_def entry_fields(3) simp del: u_eq_iff split: if_splits)

definition verdict :: "pydict \<Rightarrow> bool" where
  "verdict e \<longleftrightarrow> entry_status e = VStr (u ''checked'') \<or> entry_status e = VStr (u ''falsified'')"

lemma verdict_provider_result:
  assumes "settled env calls sets status ob e" and "verdict e"
  obtains raw where "answers calls ob raw" "dget_none raw (u ''status'') = VStr (u ''ok'')"
    "map_provider_result env ob sets raw = Inr e" "map_of KNOWN_PROVIDERS (ob_kind ob) \<noteq> None"
proof -
  have "filter (\<lambda>d. status d \<noteq> VStr (u ''checked'')) (ob_deps ob) = []"
    by (rule ccontr) (use settled_fields(4) [OF assms(1)] assms(2) in \<open>auto simp: verdict_def\<close>)
  moreover have "map_of KNOWN_PROVIDERS (ob_kind ob) \<noteq> None"
  proof
    assume none: "map_of KNOWN_PROVIDERS (ob_kind ob) = None"
    then have "unsupported_entry env ob sets = Inr e"
      using assms(1) calculation by (simp add: settled_def)
    then show False using assms(2) by (auto simp: unsupported_entry_def verdict_def dest: entry_fields(3))
  qed
  ultimately obtain raw where raw: "answers calls ob raw" "map_provider_result env ob sets raw = Inr e"
    using assms(1) by (auto simp: settled_def)
  moreover have "dget_none raw (u ''status'') = VStr (u ''ok'')"
  proof (rule ccontr)
    assume "dget_none raw (u ''status'') \<noteq> VStr (u ''ok'')"
    then show False
      using raw(2) assms(2) error_entry_status by (fastforce simp: map_provider_result_def verdict_def)
  qed
  ultimately show thesis using that \<open>map_of KNOWN_PROVIDERS (ob_kind ob) \<noteq> None\<close> by blast
qed

lemma dict_val_as_dict_of: "dict_val v = as_dict_of v"
  by (cases v) simp_all

lemma statement_field:
  assumes "py_eq (VDict s) (VDict [(u ''left'', VStr l), (u ''right'', VStr r), (u ''variables'', vs)])"
    and "dget_none s (u ''left'') = VStr l'" "dget_none s (u ''right'') = VStr r'"
  shows "l' = l \<and> r' = r"
proof -
  have "(u ''left'', VStr l') \<in> set s" "(u ''right'', VStr r') \<in> set s"
    using assms(2,3) by (auto simp: dget_none_def dget_def dest: map_of_SomeD split: option.splits)
  then show ?thesis using assms(1) by (fastforce simp: py_eq_dict)
qed

lemma polynomial_verdict:
  assumes "polynomial_entry env ob sets raw = Inr e" and "verdict e"
  shows "\<exists>left right l r. dget_none (ob_claim ob) (u ''left'') = VStr left \<and> dget_none (ob_claim ob) (u ''right'') = VStr right
    \<and> parser env (normalize_expression_source left) = Inr l \<and> parser env (normalize_expression_source right) = Inr r
    \<and> (\<forall>x. ast_value x l \<noteq> None \<and> ast_value x r \<noteq> None)
    \<and> (entry_status e = VStr (u ''checked'') \<longleftrightarrow> (\<forall>x. ast_value x l = ast_value x r))"
proof -
  let ?cert = "dget_none raw (u ''certificate'')"
  obtain check where check: "checked_certificate env ob ?cert = Inr check"
    and st: "entry_status e = VStr (if identity check then u ''checked'' else u ''falsified'')"
    using assms
    by (auto simp: polynomial_entry_def Let_def rbind_eq_Inr verdict_def dest!: entry_fields(3)
        split: sum.splits pyexn.splits)
  obtain expected where
    v: "verify_polynomial_identity_certificate (parser env) (python env) ?cert = Inr check" and
    ex: "polynomial_statement (ob_claim ob) = Inr expected" and
    eq: "py_eq (dget_none (as_dict_of ?cert) (u ''statement'')) (VDict expected)"
    using check by (auto simp: checked_certificate_def result_simps)
  obtain left right vs where claim: "dget_none (ob_claim ob) (u ''left'') = VStr left"
    "dget_none (ob_claim ob) (u ''right'') = VStr right"
    "expected = [(u ''left'', VStr (normalize_expression_source left)),
                 (u ''right'', VStr (normalize_expression_source right)), (u ''variables'', vs)]"
    using ex by (auto simp: polynomial_statement_def demand_eq_Inr split: pyval.splits)
  from checker_verdict [OF v] obtain s lt rt l r where
    s: "dget_none (dict_val ?cert) (u ''statement'') = VDict s"
      "dget_none s (u ''left'') = VStr lt" "dget_none s (u ''right'') = VStr rt" and
    p: "parser env lt = Inr l" "parser env rt = Inr r" "\<forall>x. ast_value x l \<noteq> None \<and> ast_value x r \<noteq> None"
      "identity check \<longleftrightarrow> (\<forall>x. ast_value x l = ast_value x r)" by blast
  have "lt = normalize_expression_source left \<and> rt = normalize_expression_source right"
    using statement_field [OF _ s(2,3)] eq s(1) claim(3) by (simp add: dict_val_as_dict_of)
  moreover have "entry_status e = VStr (u ''checked'') \<longleftrightarrow> identity check" using st by simp
  ultimately show ?thesis using claim p by auto
qed

text \<open>
  C1: Soundness against a faulty provider. Whatever the workers answer, when a receipt calls a
  \<^verbatim>\<open>polynomial_identity\<close> obligation \<^verbatim>\<open>checked\<close> or \<^verbatim>\<open>falsified\<close>, the two sides of the claim as the caller
  wrote it parse to expressions defined at every rational point, and they are equal at every point
  exactly when the verdict is \<^verbatim>\<open>checked\<close>.
\<close>

theorem polynomial_obligation_sound:
  assumes "check_obligation_set env calls h a value = Inr (feedback, receipt)"
    and "i < length (obligations_of receipt)" and "ob_kind (obligations_of receipt ! i) = u ''polynomial_identity''"
    and "verdict (obligations_of receipt ! i)"
  shows "\<exists>request left right l r. value = VDict request
    \<and> dget_none (ob_claim (obligations_of request ! i)) (u ''left'') = VStr left
    \<and> dget_none (ob_claim (obligations_of request ! i)) (u ''right'') = VStr right
    \<and> parser env (normalize_expression_source left) = Inr l \<and> parser env (normalize_expression_source right) = Inr r
    \<and> (\<forall>x. ast_value x l \<noteq> None \<and> ast_value x r \<noteq> None)
    \<and> (entry_status (obligations_of receipt ! i) = VStr (u ''checked'') \<longleftrightarrow> (\<forall>x. ast_value x l = ast_value x r))"
proof -
  from receipt_settled [OF assms(1)] obtain request where
    r: "validate_request env h a value = Inr request" and
    all: "list_all2 (settled env calls (assumption_sets_of request) (status_of (obligations_of receipt)))
       (obligations_of request) (obligations_of receipt)" by metis
  let ?ob = "obligations_of request ! i" and ?e = "obligations_of receipt ! i"
  have "settled env calls (assumption_sets_of request) (status_of (obligations_of receipt)) ?ob ?e"
    using all assms(2) by (auto simp: list_all2_conv_all_nth)
  from verdict_provider_result [OF this assms(4)] obtain raw where
    raw: "dget_none raw (u ''status'') = VStr (u ''ok'')"
      "map_provider_result env ?ob (assumption_sets_of request) raw = Inr ?e" by metis
  have "ob_kind ?e = ob_kind ?ob"
    using provider_result_entry [OF raw(2)] by (auto simp: from_provider_def ob_kind_def [of ?e] entry_fields(2))
  then have "polynomial_entry env ?ob (assumption_sets_of request) raw = Inr ?e"
    using raw assms(3) by (simp add: map_provider_result_def)
  from polynomial_verdict [OF this assms(4)] show ?thesis using validated_request(1) [OF r] by blast
qed


end
