(* ===== verification/Obligation_Receipts.thy ===== *)
theory Obligation_Receipts
  imports Obligations
begin

text \<open>
  What the documents of \<^verbatim>\<open>obligations.py\<close> guarantee: receipts verify, feedback fits its limit and tells
  the truth, and a replay classifies what changed.
\<close>

section \<open>Receipts verify\<close>

lemma settled_detail:
  assumes "settled env calls sets status ob e"
  shows "\<exists>d. digest_of (python env) False (dget_none e (u ''detail'')) = Inr d \<and> dget_none e (u ''detailDigest'') = VStr d"
    and "dget_none e (u ''detailOmitted'') = VBool False"
proof -
  obtain st lvl sc prov det blk lms where e: "entry (python env) ob sets st lvl sc prov det blk lms = Inr e"
  proof -
    consider bs where "blocked_entry env ob sets bs = Inr e" | "unsupported_entry env ob sets = Inr e"
      | raw where "map_provider_result env ob sets raw = Inr e"
      using assms unfolding settled_def Let_def by (metis (no_types, lifting))
    then show thesis
    proof cases
      case 3
      then show thesis using that provider_result_entry unfolding from_provider_def by blast
    qed (use that in \<open>auto simp: blocked_entry_def unsupported_entry_def\<close>)
  qed
  show "\<exists>d. digest_of (python env) False (dget_none e (u ''detail'')) = Inr d \<and> dget_none e (u ''detailDigest'') = VStr d"
    using entry_fields(8,10) [OF e] by simp
  show "dget_none e (u ''detailOmitted'') = VBool False" by (rule entry_fields(9) [OF e])
qed

lemma summary_refl: "summary entries = Inr s \<Longrightarrow> py_eq (VDict s) (VDict s)"
  by (auto simp: summary_def demand_eq_Inr STATUS_VALUES_def py_eq_dict)

lemma receipt_fields:
  assumes "build_receipt env request entries = Inr receipt"
  shows "\<exists>d. digest_of (python env) False (VDict (AList.delete (u ''receiptDigest'') receipt)) = Inr d
        \<and> dget_none receipt (u ''receiptDigest'') = VStr d"
    "\<exists>s. summary entries = Inr s \<and> dget_none receipt (u ''summary'') = VDict s"
    "\<exists>d. digest_of (python env) False (outcome_payload entries) = Inr d \<and> dget_none receipt (u ''outcomeDigest'') = VStr d"
    "\<exists>d. digest_of (python env) False (VDict request) = Inr d \<and> dget_none receipt (u ''requestDigest'') = VStr d"
    "dget_none receipt (u ''runtime'') = VDict [(u ''name'', VStr (u ''math-anchor'')), (u ''version'', VStr (version env))]"
  using assms by (auto simp: build_receipt_def rbind_eq_Inr Let_def dget_none_def dget_def AList.delete_eq)

lemma receipt_integrity:
  assumes "check_obligation_set env calls h a value = Inr (feedback, receipt)"
  shows "validate_receipt_integrity (python env) receipt = Inr ()"
proof -
  from check_outcome [OF assms] obtain request where
    b: "build_receipt env request (obligations_of receipt) = Inr receipt" by metis
  from receipt_settled [OF assms] obtain request' where
    all: "list_all2 (settled env calls (assumption_sets_of request') (status_of (obligations_of receipt)))
       (obligations_of request') (obligations_of receipt)" by metis
  have "check_detail (python env) e = Inr ()" if "e \<in> set (obligations_of receipt)" for e
    using settled_detail(1,2) all that
    by (fastforce simp: check_detail_def demand_eq_Inr rbind_eq_Inr list_all2_conv_all_nth in_set_conv_nth)
  then have "rfold (\<lambda>e _. check_detail (python env) e) (obligations_of receipt) () = Inr ()"
    by (simp add: rfold_unit_Inr)
  then show ?thesis
    using receipt_fields [OF b] summary_refl by (auto simp: validate_receipt_integrity_def)
qed

text \<open>
  C38: A receipt verifies. Every receipt that \<^verbatim>\<open>check_obligation_set\<close> returns passes the integrity check a
  replay starts with: its digest, its summary, its outcome digest and the digest of every detail match its
  content, and no detail is omitted.
\<close>

theorem receipt_verifies:
  assumes "check_obligation_set env calls h a value = Inr (feedback, receipt)"
  shows "validate_receipt_integrity (python env) receipt = Inr ()"
  using assms by (rule receipt_integrity)

section \<open>The feedback\<close>

lemma feedback_fields:
  assumes "build_receipt env request entries = Inr receipt"
  defines "fb \<equiv> build_feedback request receipt entries"
  shows "obligations_of fb = selected_entries request entries"
    "dget_none fb (u ''receiptDigest'') = dget_none receipt (u ''receiptDigest'')"
    "dget_none fb (u ''requestDigest'') = dget_none receipt (u ''requestDigest'')"
    "dget_none fb (u ''outcomeDigest'') = dget_none receipt (u ''outcomeDigest'')"
    "dget_none fb (u ''status'') = VStr (u ''checked'') \<longleftrightarrow> (\<forall>e \<in> set entries. entry_status e = VStr (u ''checked''))"
proof -
  obtain s where s: "summary entries = Inr s" "dget_none receipt (u ''summary'') = VDict s"
    using receipt_fields(2) [OF assms(1)] by blast
  have counts: "dget_none s (u ''checked'') = VInt (int (length (filter (\<lambda>e. entry_status e = VStr (u ''checked'')) entries)))"
    "dget_none s (u ''total'') = VInt (int (length entries))"
    using s(1) by (auto simp: summary_def demand_eq_Inr STATUS_VALUES_def dget_none_def dget_def)
  have all: "length (filter P xs) = length xs \<longleftrightarrow> (\<forall>x \<in> set xs. P x)" for P and xs :: "pydict list"
    by (induction xs) (auto dest: sym [of "Suc _"] simp: less_Suc_eq_le le_imp_less_Suc [OF length_filter_le, THEN less_imp_neq])
  show "dget_none fb (u ''status'') = VStr (u ''checked'') \<longleftrightarrow> (\<forall>e \<in> set entries. entry_status e = VStr (u ''checked''))"
    using counts s(2) all [of _ entries] by (simp add: fb_def build_feedback_def Let_def dget_none_def dget_def)
qed (simp_all add: fb_def build_feedback_def Let_def obligations_of_def dget_none_def dget_def comp_def)

lemma fit_feedback_cases:
  assumes "fit_feedback py feedback maximum = Inr fb"
  shows "\<exists>b. canonical_json py False (VDict fb) = Inr b \<and> of_nat (length b) \<le> rat_of maximum"
    and "fb = feedback \<or> fb = AList.update (u ''obligations'') (VList (map (\<lambda>e. VDict (omit_detail e)) (obligations_of feedback))) feedback"
  using assms by (auto simp: fit_feedback_def rbind_eq_Inr Let_def split: if_splits)

text \<open>
  The feedback fits its limit and tells the truth: it encodes to at most \<^verbatim>\<open>feedbackBytes\<close> bytes, it says
  \<^verbatim>\<open>checked\<close> exactly when every obligation of the receipt is checked, it is bound to the receipt by its
  digests, and it shows exactly the obligations the mode selects, all of them or those that are not
  checked, with at most their details replaced by the digests.
\<close>

theorem feedback_faithful:
  assumes "check_obligation_set env calls h a value = Inr (feedback, receipt)"
  shows "\<exists>request b. value = VDict request
    \<and> canonical_json (python env) False (VDict feedback) = Inr b
    \<and> of_nat (length b) \<le> rat_of (limit_of request (u ''feedbackBytes'') DEFAULT_FEEDBACK_BYTES)
    \<and> (dget_none feedback (u ''status'') = VStr (u ''checked'')
         \<longleftrightarrow> (\<forall>e \<in> set (obligations_of receipt). entry_status e = VStr (u ''checked'')))
    \<and> dget_none feedback (u ''receiptDigest'') = dget_none receipt (u ''receiptDigest'')
    \<and> dget_none feedback (u ''outcomeDigest'') = dget_none receipt (u ''outcomeDigest'')
    \<and> (let selected = (if dget request (u ''responseMode'') (VStr (u ''failures_only'')) = VStr (u ''full'')
                       then obligations_of receipt
                       else filter (\<lambda>e. entry_status e \<noteq> VStr (u ''checked'')) (obligations_of receipt))
       in obligations_of feedback = selected \<or> obligations_of feedback = map omit_detail selected)"
proof -
  from check_outcome [OF assms] obtain request where
    r: "validate_request env h a value = Inr request" and
    b: "build_receipt env request (obligations_of receipt) = Inr receipt" and
    f: "fit_feedback (python env) (build_feedback request receipt (obligations_of receipt))
       (limit_of request (u ''feedbackBytes'') DEFAULT_FEEDBACK_BYTES) = Inr feedback" by metis
  let ?fb = "build_feedback request receipt (obligations_of receipt)"
  note ff = feedback_fields [OF b]
  have upd: "dget_none (AList.update k v d) k' = (if k = k' then v else dget_none d k')" for k k' v and d :: pydict
    by (simp add: dget_none_def dget_update)
  have "(obligations_of feedback = obligations_of ?fb \<or> obligations_of feedback = map omit_detail (obligations_of ?fb))
    \<and> dget_none feedback (u ''status'') = dget_none ?fb (u ''status'')
    \<and> dget_none feedback (u ''receiptDigest'') = dget_none ?fb (u ''receiptDigest'')
    \<and> dget_none feedback (u ''outcomeDigest'') = dget_none ?fb (u ''outcomeDigest'')"
    using fit_feedback_cases(2) [OF f] by (auto simp: upd obligations_of_def [of "AList.update _ _ _"] comp_def)
  then show ?thesis
    using fit_feedback_cases(1) [OF f] validated_request(1) [OF r] ff by (auto simp: selected_entries_def Let_def)
qed

section \<open>Replay\<close>

lemma replay_own:
  assumes "check_obligation_set env calls h a value = Inr (feedback, receipt)"
    and "bounded_receipt (python env) h ra (VDict receipt) = Inr ()"
  shows "\<exists>replay. replay_obligation_set env calls h a value ra (VDict receipt) = Inr (replay, feedback, receipt)
    \<and> dget_none replay (u ''status'') = VStr (u ''matched'')
    \<and> dget_none replay (u ''outcomeMatch'') = VBool True \<and> dget_none replay (u ''runtimeMatch'') = VBool True"
proof -
  from check_outcome [OF assms(1)] obtain request where
    r: "validate_request env h a value = Inr request" and
    b: "build_receipt env request (obligations_of receipt) = Inr receipt" by metis
  from assms(1) have v: "validate_document env OBLIGATION_RECEIPT_SCHEMA (VDict receipt) (u ''obligation receipt'') = Inr ()"
    unfolding check_obligation_set_def result_simps by auto
  then have "validate_document env OBLIGATION_RECEIPT_SCHEMA (VDict receipt) (u ''previous receipt'') = Inr ()"
    by (simp add: validate_document_def split: list.splits)
  then show ?thesis
    using assms r receipt_integrity [OF assms(1)] receipt_fields [OF b]
    by (auto simp: replay_obligation_set_def replay_status_def dget_none_def dget_def py_eq_dict)
qed


text \<open>
  C39: A replay accepts only a receipt that is bound to the request and consistent in itself, and its
  status classifies exactly: \<^verbatim>\<open>matched\<close> for the same receipt digest, \<^verbatim>\<open>runtime_drift\<close> for the same
  outcome under another receipt, \<^verbatim>\<open>outcome_drift\<close> otherwise.
\<close>

theorem replay_classifies:
  assumes "replay_obligation_set env calls h a value ra previous = Inr (replay, feedback, current)"
  shows "\<exists>prev. previous = VDict prev
    \<and> validate_receipt_integrity (python env) prev = Inr ()
    \<and> check_obligation_set env calls h a value = Inr (feedback, current)
    \<and> dget_none prev (u ''requestDigest'') = dget_none current (u ''requestDigest'')
    \<and> dget_none replay (u ''status'') =
        VStr (if dget_none prev (u ''receiptDigest'') = dget_none current (u ''receiptDigest'') then u ''matched''
              else if dget_none prev (u ''outcomeDigest'') = dget_none current (u ''outcomeDigest'')
              then u ''runtime_drift'' else u ''outcome_drift'')"
proof -
  obtain request d where
    v: "validate_receipt_integrity (python env) (as_dict_of previous) = Inr ()" and
    r: "validate_request env h a value = Inr request" and
    d: "digest_of (python env) False (VDict request) = Inr d" "dget_none (as_dict_of previous) (u ''requestDigest'') = VStr d" and
    c: "check_obligation_set env calls h a value = Inr (feedback, current)" and
    st: "dget_none replay (u ''status'') = VStr (replay_status (as_dict_of previous) current)"
    using assms by (auto simp: replay_obligation_set_def result_simps Let_def dget_none_def dget_def)
  from check_outcome [OF c] obtain request' where
    r': "validate_request env h a value = Inr request'" and
    b: "build_receipt env request' (obligations_of current) = Inr current" by metis
  have prev: "previous = VDict (as_dict_of previous)"
    using d(2) by (cases previous) (simp_all add: dget_none_def dget_def)
  have strs: "\<exists>x. dget_none (as_dict_of previous) (u ''receiptDigest'') = VStr x"
    "\<exists>x. dget_none (as_dict_of previous) (u ''outcomeDigest'') = VStr x"
    using v by (auto simp: validate_receipt_integrity_def result_simps Let_def)
  have cur: "\<exists>x. dget_none current (u ''receiptDigest'') = VStr x" "\<exists>x. dget_none current (u ''outcomeDigest'') = VStr x"
    "dget_none current (u ''requestDigest'') = VStr d"
    using receipt_fields [OF b] r r' d(1) by auto
  have "replay_status (as_dict_of previous) current =
      (if dget_none (as_dict_of previous) (u ''receiptDigest'') = dget_none current (u ''receiptDigest'') then u ''matched''
       else if dget_none (as_dict_of previous) (u ''outcomeDigest'') = dget_none current (u ''outcomeDigest'')
       then u ''runtime_drift'' else u ''outcome_drift'')"
    using strs cur by (auto simp: replay_status_def)
  then show ?thesis using prev v c st d(2) cur(3) by auto
qed

end
