(* ===== verification/Request_Lines.thy ===== *)
theory Request_Lines
  imports Transport_Budget Output_Policy
begin

text \<open>
  A value of plain texts and printable integers whose estimated length is within the limits has a request
  line: the estimate of the output policy bounds what the transport budget counts.
\<close>

lemma str_bytes_plain: "plain s \<Longrightarrow> utf8_len s \<noteq> None \<and> str_bytes s = length s"
  using utf8_len_ascii [of s] plain_ascii [of s] by (auto simp: str_bytes_def ascii_text_def)

lemma tidy_sizes:
  "tidy py v \<Longrightarrow> encodable v \<and> node_count v \<le> cost v \<and> text_size v \<le> cost v"
proof (induction v rule: cost.induct)
  case (2 i)
  have "nat_text 10 n \<noteq> []" for n by (subst nat_text.simps) simp
  then show ?case by (auto simp: int_text_def Suc_le_eq)
next
  case (3 xs)
  then have "list_all encodable xs" "sum_list (map node_count xs) \<le> sum_list (map (\<lambda>x. Suc (cost x)) xs)"
    "sum_list (map text_size xs) \<le> sum_list (map (\<lambda>x. Suc (cost x)) xs)"
    by (auto simp: list_all_iff intro!: sum_list_mono le_SucI)
  then show ?case by simp
next
  case (4 d)
  have e: "encodable (snd kv) \<and> node_count (snd kv) \<le> cost (snd kv) \<and> text_size (snd kv) \<le> cost (snd kv)
      \<and> utf8_len (fst kv) \<noteq> None \<and> str_bytes (fst kv) = length (fst kv)" if "kv \<in> set d" for kv
    using 4 that str_bytes_plain [of "fst kv"] by (auto simp: list_all_iff)
  have "list_all (\<lambda>e. utf8_len (fst e) \<noteq> None \<and> encodable (snd e)) d" using e by (simp add: list_all_iff)
  moreover have "sum_list (map (\<lambda>e. Suc (node_count (snd e))) d) \<le> sum_list (map (\<lambda>kv. length (fst kv) + 4 + cost (snd kv)) d)"
    "sum_list (map (\<lambda>e. str_bytes (fst e) + text_size (snd e)) d) \<le> sum_list (map (\<lambda>kv. length (fst kv) + 4 + cost (snd kv)) d)"
    using e by (auto intro!: sum_list_mono) fastforce+
  ultimately show ?case by simp
qed (auto dest: str_bytes_plain)

lemma tidy_line:
  assumes "denotes h a v" and "tidy py v" and "cost v < max_bytes lims" and "cost v \<le> max_nodes lims"
    and "nesting v \<le> max_depth lims" and "\<forall>r. 10 \<notin> set (float_text py r)"
  shows "\<exists>line. encode_json_line py h lims a v = Inr line"
proof -
  obtain t where t: "json_text py False False v = Inr t" "ascii_text t" "length t \<le> cost v"
    using tidy_json [OF assms(2)] by blast
  have "utf8_len (t @ [10]) = Some (Suc (length t))"
    using utf8_len_ascii [of "t @ [10]"] t(2) by (simp add: ascii_text_def)
  moreover have "1 \<le> max_bytes lims" "Suc (length t) \<le> max_bytes lims" using t(3) assms(3) by simp_all
  moreover have "within_budget lims v"
    using tidy_sizes [OF assms(2)] assms(3-5) by (simp add: within_budget_def)
  ultimately show ?thesis
    using encode_json_line_iff [OF assms(1) _ assms(6), of lims] t(1) by auto
qed

end
