(* ===== verification/Obligation_Samples.thy ===== *)
theory Obligation_Samples
  imports Obligation_Receipts Request_Lines
begin

text \<open>
  A set of two obligations run to the end, and the properties of the obligation theories at it: the first is
  refuted by the certificate the worker returns, the second is blocked by the first.
\<close>

lemma sample_digest_tidy: "tidy sample_interp v \<Longrightarrow> digest_of sample_interp b v = Inr sample_digest"
  using tidy_canonical [of sample_interp v b] by (intro sample_digest_of) auto

lemma tidy_texts [simp]: "tidy py (texts ss) \<longleftrightarrow> list_all plain ss"
  by (simp add: texts_def list_all_length)

section \<open>A set of two obligations\<close>

text \<open>
  \<open>q\<close> depends on \<open>p\<close>, the false claim that \<^verbatim>\<open>(x+1)*(x-1)\<close> and \<^verbatim>\<open>x*x\<close> agree; the worker returns the
  certificate of the difference.
\<close>

definition claim_p :: pydict where
  "claim_p =
     [(u ''left'', VStr (u ''(x+1)*(x-1)'')), (u ''right'', VStr (u ''x*x'')),
      (u ''variables'', VList [VStr (u ''x'')])]"

definition obligation_p :: pydict where
  "obligation_p = [(u ''id'', VStr (u ''p'')), (u ''kind'', VStr (u ''polynomial_identity'')), (u ''claim'', VDict claim_p)]"

definition obligation_q :: pydict where
  "obligation_q =
     [(u ''id'', VStr (u ''q'')), (u ''kind'', VStr (u ''lemma'')), (u ''claim'', VDict []),
      (u ''dependsOn'', texts [u ''p''])]"

definition sample_request :: pydict where
  "sample_request =
     [(u ''schemaVersion'', VStr OBLIGATION_SET_SCHEMA_VERSION),
      (u ''obligations'', VList [VDict obligation_p, VDict obligation_q])]"

definition sample_env :: runtime_env where
  "sample_env =
     \<lparr>python = sample_interp, parser = sample_parse, json_schema = (\<lambda>_ _. []),
      operations = (\<lambda>_. Some (VDict [], u ''scope'')), text_repr = (\<lambda>_. []), version = u ''0.7.1''\<rparr>"

definition provider_result :: pydict where
  "provider_result = [(u ''status'', VStr (u ''ok'')), (u ''certificate'', VDict sample_certificate)]"

definition sample_calls :: provider_calls where
  "sample_calls =
     \<lparr>clock = (\<lambda>_. 0), single_result = (\<lambda>_ _. Inr (VDict provider_result)),
      batch_results = (\<lambda>_ _ _. Inr VNone)\<rparr>"

lemma sample_obligation_fields:
  "ob_id obligation_p = u ''p''" "ob_kind obligation_p = u ''polynomial_identity''" "ob_deps obligation_p = []"
  "ob_claim obligation_p = claim_p" "ob_set obligation_p = None"
  "ob_id obligation_q = u ''q''" "ob_kind obligation_q = u ''lemma''" "ob_deps obligation_q = [u ''p'']"
  "ob_claim obligation_q = []" "ob_set obligation_q = None"
  by (simp_all add: obligation_p_def obligation_q_def ob_id_def ob_kind_def ob_deps_def ob_claim_def ob_set_def
      dget_none_def dget_def texts_def)

lemma sample_request_obligations:
  "obligations_of sample_request = [obligation_p, obligation_q]" "assumption_entries sample_request = []"
  "assumption_sets_of sample_request = []" "limit_of sample_request k d = VInt d"
  by (simp_all add: sample_request_def obligations_of_def assumption_entries_def assumption_sets_of_def limit_of_def
      dget_none_def dget_def)

lemma sample_interp_sane: "sane_interp sample_interp" "\<forall>r. 10 \<notin> set (float_text sample_interp r)"
  by (simp_all add: sane_interp_def sample_interp_def)

lemma sample_request_tidy: "tidy sample_interp (VDict sample_request)"
  by (simp add: sample_request_def obligation_p_def obligation_q_def claim_p_def plain_lit OBLIGATION_SET_SCHEMA_VERSION_def)

lemma sample_layers: "dependency_layers [obligation_p, obligation_q] = Inr [[obligation_p], [obligation_q]]"
  by (simp add: dependency_layers_def layers_from.simps ready_def Let_def sample_obligation_fields)

lemma sample_request_size:
  "cost (VDict sample_request) \<le> 1000" "nesting (VDict sample_request) \<le> 32"
  by (simp_all add: sample_request_def obligation_p_def obligation_q_def claim_p_def texts_def OBLIGATION_SET_SCHEMA_VERSION_def)

lemma sample_validates:
  assumes "denotes h a (VDict sample_request)"
  shows "validate_request sample_env h a (VDict sample_request) = Inr sample_request"
proof -
  have "\<exists>line. encode_json_line sample_interp h obligation_limits a (VDict sample_request) = Inr line"
    using sample_request_size
    by (intro tidy_line [OF assms sample_request_tidy]) (simp_all add: obligation_limits_def MAX_OBLIGATION_REQUEST_BYTES_def
        MAX_OBLIGATION_REQUEST_NODES_def MAX_OBLIGATION_REQUEST_DEPTH_def sample_interp_sane(2) del: cost.simps nesting.simps)
  then have "bounded_request sample_interp h a (VDict sample_request) = Inr ()"
    by (auto simp: bounded_request_def bounded_document_def)
  moreover have "check_references sample_env [] [u ''p'', u ''q''] obligation_p = Inr ()"
    by (simp add: check_references_def sample_obligation_fields)
      (simp add: obligation_p_def dget_none_def dget_def sample_env_def KNOWN_PROVIDERS_def
        validate_operation_arguments_def select_discriminated_schema_def get_or_def)
  moreover have "check_references sample_env [] [u ''p'', u ''q''] obligation_q = Inr ()"
    by (simp add: check_references_def sample_obligation_fields)
      (simp add: obligation_q_def dget_none_def dget_def KNOWN_PROVIDERS_def)
  ultimately show ?thesis
    by (simp add: validate_request_def sample_request_obligations sample_obligation_fields sample_layers
        validate_document_def Let_def sample_env_def)
qed

section \<open>Its run\<close>

lemma sample_entry:
  assumes "tidy sample_interp (VDict det)" and "tidy sample_interp (dget_none ob (u ''claim''))"
    and "dget_none ob (u ''assumptionSet'') = VNone"
  shows "entry sample_interp ob sets st lvl sc prov det blk lms = Inr
     [(u ''id'', VStr (ob_id ob)), (u ''kind'', VStr (ob_kind ob)), (u ''status'', VStr st),
      (u ''assuranceLevel'', case lvl of None \<Rightarrow> VNone | Some l \<Rightarrow> VStr l), (u ''scope'', VStr sc),
      (u ''claimDigest'', VStr sample_digest),
      (u ''assumptions'', VDict [(u ''setId'', VNone), (u ''digest'', VStr sample_digest), (u ''count'', VInt 0),
         (u ''interpretation'', VStr (u ''bound_not_evaluated''))]),
      (u ''dependsOn'', VList (list_items (dget_none ob (u ''dependsOn'')))), (u ''blockedBy'', texts blk),
      (u ''provider'', prov), (u ''detail'', VDict det), (u ''detailDigest'', VStr sample_digest),
      (u ''detailOmitted'', VBool False), (u ''limitations'', texts (first_occurrences lms))]"
  using assms by (simp add: entry_def sample_digest_tidy assumption_reference_def ob_set_def Let_def)

lemma sample_unit_texts: "tidy sample_interp (VStr sample_digest)" "plain sample_digest" "length sample_digest = 71"
  by (auto simp: sample_digest_def plain_def u_def)

lemma sample_int [simp]: "digits_allowed sample_interp (Suc 0)" "int_text 0 = [48]" "int_text 1 = [49]"
  "nat_text 10 (Suc 0) = [49]" "nat_text 10 0 = [48]"
  by (simp_all add: digits_allowed_def sample_interp_def nat_text.simps int_text_def digit_cp_def)

lemma first_occurrences_single [simp]: "first_occurrences [x] = [x]"
  by (simp add: first_occurrences_def)

lemma sample_p:
  "\<exists>e. map_provider_result sample_env obligation_p [] (provider_envelope (VDict provider_result)) = Inr e
     \<and> tidy sample_interp (VDict e) \<and> cost (VDict e) \<le> 2000 \<and> nesting (VDict e) \<le> 5 \<and> entry_status e = VStr (u ''falsified'') \<and> ob_id e = u ''p''
     \<and> ob_kind e = u ''polynomial_identity''"
proof -
  have env: "provider_envelope (VDict provider_result) = provider_result"
    by (simp add: provider_envelope_def provider_result_def)
  have ok: "dget_none provider_result (u ''status'') = VStr (u ''ok'')"
    "dget_none provider_result (u ''certificate'') = VDict sample_certificate"
    "dget_none provider_result (u ''provenance'') = VNone"
    by (simp_all add: provider_result_def dget_none_def dget_def)
  have claim_fields: "dget_none claim_p (u ''left'') = VStr (u ''(x+1)*(x-1)'')" "dget_none claim_p (u ''right'') = VStr (u ''x*x'')"
    "dget_none claim_p (u ''variables'') = VList [VStr (u ''x'')]"
    by (simp_all add: claim_p_def dget_none_def dget_def)
  have n: "normalize_expression_source (u ''(x+1)*(x-1)'') = u ''(x+1)*(x-1)''" "normalize_expression_source (u ''x*x'') = u ''x*x''"
    "strip (u ''x'') = u ''x''"
    by (simp_all add: normalize_expression_source_def u_def strip_def is_space_def replace_cp_def)
  have eq: "py_eq (VDict sample_statement) (VDict [(u ''left'', VStr (u ''(x+1)*(x-1)'')), (u ''right'', VStr (u ''x*x'')),
      (u ''variables'', texts [u ''x''])])"
    by (simp add: sample_statement_def py_eq_dict py_eq_list texts_def)
  have chk: "checked_certificate sample_env obligation_p (VDict sample_certificate)
    = Inr \<lparr>valid = True, identity = False, certificate_digest = sample_digest,
            checker_system = CHECKER_SYSTEM, checker_version = CHECKER_VERSION\<rparr>"
    using eq by (simp add: checked_certificate_def sample_env_def sample_accepted sample_obligation_fields polynomial_statement_def
        sample_fields claim_fields n)
  have t: "tidy sample_interp (VDict provider_result)"
    by (simp add: provider_result_def sample_certificate_def sample_statement_def sample_difference_def plain_lit
        sample_unit_texts CERTIFICATE_FORMAT_def sample_int)
  define prov where "prov = VDict [(u ''operation'', VStr (u ''certificate.polynomial_identity'')), (u ''resultDigest'', VStr sample_digest),
                  (u ''runtime'', VNone), (u ''backends'', VList [])]"
  have prov: "provider_of sample_interp provider_result (u ''certificate.polynomial_identity'') = Inr prov"
    using ok sample_digest_tidy [OF t] by (simp add: provider_of_def Let_def prov_def)
  have kc: "dget_none obligation_p (u ''claim'') = VDict claim_p" "dget_none obligation_p (u ''assumptionSet'') = VNone"
    "tidy sample_interp (VDict claim_p)" "dget_none obligation_p (u ''dependsOn'') = VNone"
    by (simp_all add: obligation_p_def dget_none_def dget_def claim_p_def plain_lit)
  note kk = CHECKER_SYSTEM_def CHECKER_VERSION_def sample_difference_def sample_fields
  have td: "tidy sample_interp (VDict
     [(u ''identity'', VBool False), (u ''statementDigest'', VStr sample_digest), (u ''certificateDigest'', VStr sample_digest),
      (u ''differenceTermCount'', VInt 1),
      (u ''firstDifferenceTerm'', VDict [(u ''powers'', VList [VInt 0]), (u ''coefficient'', VStr (u ''-1''))]),
      (u ''checker'', VDict [(u ''system'', VStr CHECKER_SYSTEM), (u ''version'', VStr CHECKER_VERSION)])])"
    by (simp add: kk plain_lit sample_unit_texts)
  show ?thesis
    unfolding env map_provider_result_def polynomial_entry_def Let_def ok
    apply (simp add: sample_obligation_fields chk)
    apply (simp add: sample_env_def prov kk(3-))
    apply (subst sample_entry)
    using td kc apply (simp_all add: sample_obligation_fields)
    apply (simp add: prov_def claim_p_def plain_lit sample_unit_texts kk(1,2) texts_def entry_status_def ob_id_def ob_kind_def
        dget_none_def dget_def)
    done
qed

lemma sample_q:
  "\<exists>e. blocked_entry sample_env obligation_q [] [u ''p''] = Inr e
     \<and> tidy sample_interp (VDict e) \<and> cost (VDict e) \<le> 2000 \<and> nesting (VDict e) \<le> 5 \<and> entry_status e = VStr (u ''unknown'') \<and> ob_id e = u ''q''"
proof -
  have kc: "dget_none obligation_q (u ''claim'') = VDict []" "dget_none obligation_q (u ''assumptionSet'') = VNone"
    "dget_none obligation_q (u ''dependsOn'') = texts [u ''p'']"
    by (simp_all add: obligation_q_def dget_none_def dget_def)
  then show ?thesis
    by (simp add: blocked_entry_def sample_env_def sample_entry sample_obligation_fields plain_lit)
      (simp add: sample_unit_texts texts_def entry_status_def dget_none_def dget_def plain_lit ob_id_def)
qed

lemma sample_run:
  "\<exists>p q. run_layers sample_env sample_calls sample_request [[obligation_p], [obligation_q]] = Inr [(u ''p'', p), (u ''q'', q)]
     \<and> tidy sample_interp (VList [VDict p, VDict q]) \<and> cost (VList [VDict p, VDict q]) \<le> 4004
     \<and> nesting (VList [VDict p, VDict q]) \<le> 6
     \<and> entry_status p = VStr (u ''falsified'') \<and> entry_status q = VStr (u ''unknown'')
     \<and> ob_id p = u ''p'' \<and> ob_id q = u ''q'' \<and> ob_kind p = u ''polynomial_identity''"
proof -
  obtain p where p: "map_provider_result sample_env obligation_p [] (provider_envelope (VDict provider_result)) = Inr p"
    "tidy sample_interp (VDict p)" "cost (VDict p) \<le> 2000" "nesting (VDict p) \<le> 5" "entry_status p = VStr (u ''falsified'')" "ob_id p = u ''p''"
    "ob_kind p = u ''polynomial_identity''"
    using sample_p by blast
  obtain q where q: "blocked_entry sample_env obligation_q [] [u ''p''] = Inr q" "tidy sample_interp (VDict q)"
    "cost (VDict q) \<le> 2000" "nesting (VDict q) \<le> 5" "entry_status q = VStr (u ''unknown'')" "ob_id q = u ''q''"
    using sample_q by blast
  have calls: "raw_results_of sample_calls n [item] ms = Inr [VDict provider_result]" "clock sample_calls n = 0" for n item ms
    by (simp_all add: raw_results_of_def sample_calls_def)
  have "run_layers sample_env sample_calls sample_request [[obligation_p], [obligation_q]] = Inr [(u ''p'', p), (u ''q'', q)]"
    using p(1,5) q(1)
    by (simp add: run_layers_def run_layer_def Let_def gate_def blocked_by_def sample_obligation_fields calls settle_with_def
        KNOWN_PROVIDERS_def sample_request_obligations rat_of_def int_trunc_def DEFAULT_TIMEOUT_MS_def)
  then show ?thesis using p q by (auto simp del: nesting.simps(2) simp: le_max_iff_disj)
qed


lemma tidy_dget: "tidy py (VDict d) \<Longrightarrow> tidy py (dget_none d k)"
  by (auto simp: dget_none_def dget_def list_all_iff dest!: map_of_SomeD split: option.splits)

lemma tidy_outcome:
  assumes "list_all (\<lambda>e. tidy py (VDict e)) es"
  shows "tidy py (outcome_payload es)"
proof -
  have "tidy py (dget_none (as_dict_of (dget_none e k)) k')" if "tidy py (VDict e)" for e k k'
    using tidy_dget [OF that, of k] tidy_dget by (cases "dget_none e k") (auto simp: dget_none_def dget_def)
  then show ?thesis using assms by (auto simp: outcome_payload_def list_all_iff plain_lit entry_status_def tidy_dget)
qed

definition sample_summary :: pydict where
  "sample_summary =
     [(u ''checked'', VInt 0), (u ''falsified'', VInt 1), (u ''unknown'', VInt 1), (u ''unsupported'', VInt 0),
      (u ''total'', VInt 2)]"

lemma two_text [simp]: "digits_allowed sample_interp (length (nat_text 10 2))" "int_text 2 = [50]" "nat_text 10 2 = [50]"
  by (simp_all add: digits_allowed_def sample_interp_def nat_text.simps int_text_def digit_cp_def)

definition sample_receipt :: "pydict \<Rightarrow> pydict \<Rightarrow> pydict" where
  "sample_receipt p q =
     [(u ''schemaVersion'', VStr OBLIGATION_RECEIPT_SCHEMA_VERSION), (u ''requestSchemaVersion'', VStr OBLIGATION_SET_SCHEMA_VERSION),
      (u ''requestDigest'', VStr sample_digest),
      (u ''runtime'', VDict [(u ''name'', VStr (u ''math-anchor'')), (u ''version'', VStr (u ''0.7.1''))]),
      (u ''assurancePolicy'', VStr (u ''strongest_available'')), (u ''summary'', VDict sample_summary),
      (u ''obligations'', VList [VDict p, VDict q]), (u ''outcomeDigest'', VStr sample_digest),
      (u ''receiptDigest'', VStr sample_digest)]"

lemma sample_receipt_tidy:
  assumes "tidy sample_interp (VList [VDict p, VDict q])" and "cost (VList [VDict p, VDict q]) \<le> 4004"
    and "nesting (VList [VDict p, VDict q]) \<le> 6"
  shows "tidy sample_interp (VDict (sample_receipt p q))" "cost (VDict (sample_receipt p q)) \<le> 6000"
    "nesting (VDict (sample_receipt p q)) \<le> 32"
proof -
  let ?es = "VList [VDict p, VDict q]"
  show "tidy sample_interp (VDict (sample_receipt p q))"
    using assms(1) by (simp add: sample_receipt_def sample_summary_def plain_lit sample_unit_texts
        OBLIGATION_RECEIPT_SCHEMA_VERSION_def OBLIGATION_SET_SCHEMA_VERSION_def)
  have "cost (VDict (sample_receipt p q)) \<le> cost ?es + 1500"
    by (simp add: sample_receipt_def sample_summary_def sample_unit_texts OBLIGATION_RECEIPT_SCHEMA_VERSION_def
        OBLIGATION_SET_SCHEMA_VERSION_def)
  then show "cost (VDict (sample_receipt p q)) \<le> 6000" using assms(2) by linarith
  show "nesting (VDict (sample_receipt p q)) \<le> 32"
    using assms(3) by (simp add: sample_receipt_def sample_summary_def del: nesting.simps(1)) 
qed

lemma sample_outcome:
  obtains fb r where
    "\<forall>h a. denotes h a (VDict sample_request) \<longrightarrow>
       check_obligation_set sample_env sample_calls h a (VDict sample_request) = Inr (fb, r)"
    "tidy sample_interp (VDict r)" "cost (VDict r) \<le> 6000" "nesting (VDict r) \<le> 32"
    "length (obligations_of r) = 2"
    "ob_kind (obligations_of r ! 0) = u ''polynomial_identity''" "entry_status (obligations_of r ! 0) = VStr (u ''falsified'')"
proof -
  obtain p q where run: "run_layers sample_env sample_calls sample_request [[obligation_p], [obligation_q]] = Inr [(u ''p'', p), (u ''q'', q)]"
    and pq: "tidy sample_interp (VList [VDict p, VDict q])" "cost (VList [VDict p, VDict q]) \<le> 4004"
      "nesting (VList [VDict p, VDict q]) \<le> 6"
    and st: "entry_status p = VStr (u ''falsified'')" "entry_status q = VStr (u ''unknown'')" "ob_id p = u ''p''" "ob_id q = u ''q''"
      "ob_kind p = u ''polynomial_identity''"
    using sample_run by blast
  note r = sample_receipt_tidy [OF pq]
  have sum: "summary [p, q] = Inr sample_summary"
    using st by (simp add: summary_def STATUS_VALUES_def sample_summary_def)
  have od: "digest_of sample_interp False (outcome_payload [p, q]) = Inr sample_digest"
    using pq(1) by (intro sample_digest_tidy tidy_outcome) simp
  have policy: "dget sample_request (u ''assurancePolicy'') v = v" "dget sample_request (u ''responseMode'') v = v" for v
    by (simp_all add: sample_request_def dget_def)
  have b: "build_receipt sample_env sample_request [p, q] = Inr (sample_receipt p q)"
    using r(1) sum od sample_request_tidy
    by (simp add: build_receipt_def sample_env_def sample_digest_tidy policy Let_def) (simp add: sample_receipt_def sample_digest_tidy)
  obtain bs where bs: "canonical_json sample_interp False (VDict (sample_receipt p q)) = Inr bs" "length bs \<le> 6000"
    using tidy_canonical [OF r(1), of False] r(2) by auto
  let ?fb = "build_feedback sample_request (sample_receipt p q) [p, q]"
  have fields: "dget_none (sample_receipt p q) (u ''summary'') = VDict sample_summary"
    "dget_none (sample_receipt p q) (u ''requestDigest'') = VStr sample_digest"
    "dget_none (sample_receipt p q) (u ''receiptDigest'') = VStr sample_digest"
    "dget_none (sample_receipt p q) (u ''outcomeDigest'') = VStr sample_digest"
    "selected_entries sample_request [p, q] = [p, q]"
    using st by (simp_all add: sample_receipt_def dget_none_def dget_def selected_entries_def policy [unfolded dget_def])
  have "tidy sample_interp (VDict ?fb)"
    using pq(1) by (simp add: build_feedback_def fields policy Let_def sample_summary_def plain_lit sample_unit_texts
        OBLIGATION_FEEDBACK_SCHEMA_VERSION_def)
  moreover have "cost (VDict ?fb) \<le> cost (VList [VDict p, VDict q]) + 1500"
    by (simp add: build_feedback_def fields policy Let_def sample_summary_def sample_unit_texts
        OBLIGATION_FEEDBACK_SCHEMA_VERSION_def)
  ultimately have "tidy sample_interp (VDict ?fb) \<and> cost (VDict ?fb) \<le> 6000" using pq(2) by linarith
  then obtain fs where fs: "canonical_json sample_interp False (VDict ?fb) = Inr fs" "length fs \<le> 6000"
    using tidy_canonical [of sample_interp "VDict ?fb" False] by auto
  have f: "fit_feedback sample_interp ?fb (VInt DEFAULT_FEEDBACK_BYTES) = Inr ?fb"
    using fs by (simp add: fit_feedback_def rat_of_def DEFAULT_FEEDBACK_BYTES_def)
  have "check_obligation_set sample_env sample_calls h a (VDict sample_request) = Inr (?fb, sample_receipt p q)"
    if "denotes h a (VDict sample_request)" for h a
    using bs f 
    by (simp add: check_obligation_set_def sample_validates [OF that] sample_request_obligations sample_layers run
        sample_obligation_fields b validate_document_def MAX_RECEIPT_BYTES_def) (simp add: sample_env_def)
  moreover have "obligations_of (sample_receipt p q) = [p, q]"
    by (simp add: sample_receipt_def obligations_of_def dget_none_def dget_def)
  ultimately show thesis using that [of ?fb "sample_receipt p q"] r st by simp
qed


section \<open>The properties hold of it\<close>

definition sample_document :: pyval where
  "sample_document = VDict sample_request"

lemma sample_denoted: "denotes (heap_of sample_document) (place []) (VDict sample_request)"
  using every_value_denoted by (simp add: sample_document_def)

theorem obligations_gated_witness:
  "\<exists>fb r request. check_obligation_set sample_env sample_calls (heap_of sample_document) (place []) sample_document = Inr (fb, r)
     \<and> sample_document = VDict request \<and> map ob_id (obligations_of r) = map ob_id (obligations_of request)"
proof -
  obtain fb r where r: "check_obligation_set sample_env sample_calls (heap_of sample_document) (place []) sample_document = Inr (fb, r)"
    using sample_outcome [of thesis] sample_denoted by (auto simp: sample_document_def)
  from obligations_gated [OF r] r show ?thesis by blast
qed

theorem polynomial_obligation_sound_witness:
  "\<exists>fb r. check_obligation_set sample_env sample_calls (heap_of sample_document) (place []) sample_document = Inr (fb, r)
     \<and> (\<exists>left right l r. sample_parse left = Inr l \<and> sample_parse right = Inr r
         \<and> \<not> (\<forall>x. ast_value x l = ast_value x r))"
proof -
  obtain fb r where r: "check_obligation_set sample_env sample_calls (heap_of sample_document) (place []) sample_document = Inr (fb, r)"
    and k: "length (obligations_of r) = 2" "ob_kind (obligations_of r ! 0) = u ''polynomial_identity''"
      "entry_status (obligations_of r ! 0) = VStr (u ''falsified'')"
    using sample_outcome [of thesis] sample_denoted by (auto simp: sample_document_def)
  have "0 < length (obligations_of r)" "verdict (obligations_of r ! 0)" using k by (simp_all add: verdict_def)
  from polynomial_obligation_sound [OF r this(1) k(2) this(2)] obtain left right :: pystr and lt rt where
    s: "parser sample_env (normalize_expression_source left) = Inr lt" "parser sample_env (normalize_expression_source right) = Inr rt"
    and v: "entry_status (obligations_of r ! 0) = VStr (u ''checked'') \<longleftrightarrow> (\<forall>x. ast_value x lt = ast_value x rt)" by metis
  have "parser sample_env = sample_parse" by (simp add: sample_env_def)
  moreover have "\<not> (\<forall>x. ast_value x lt = ast_value x rt)" using v k(3) by simp
  ultimately show ?thesis using r s by metis
qed


theorem receipt_verifies_witness:
  "\<exists>fb r. check_obligation_set sample_env sample_calls (heap_of sample_document) (place []) sample_document = Inr (fb, r)
     \<and> validate_receipt_integrity sample_interp r = Inr ()"
proof -
  obtain fb r where r: "check_obligation_set sample_env sample_calls (heap_of sample_document) (place []) sample_document = Inr (fb, r)"
    using sample_outcome [of thesis] sample_denoted by (auto simp: sample_document_def)
  from receipt_verifies [OF r] r show ?thesis by (auto simp: sample_env_def)
qed

theorem feedback_faithful_witness:
  "\<exists>fb r b. check_obligation_set sample_env sample_calls (heap_of sample_document) (place []) sample_document = Inr (fb, r)
     \<and> canonical_json sample_interp False (VDict fb) = Inr b \<and> length b \<le> 65536"
proof -
  obtain fb r where r: "check_obligation_set sample_env sample_calls (heap_of sample_document) (place []) sample_document = Inr (fb, r)"
    using sample_outcome [of thesis] sample_denoted by (auto simp: sample_document_def)
  from feedback_faithful [OF r] r show ?thesis
    by (auto simp: sample_document_def sample_request_obligations rat_of_def DEFAULT_FEEDBACK_BYTES_def sample_env_def)
qed

text \<open>A request and its receipt in one memory.\<close>

lemma sample_replay_inputs:
  obtains fb r h where "check_obligation_set sample_env sample_calls h (place [0]) (VDict sample_request) = Inr (fb, r)"
    "bounded_receipt (python sample_env) h (place [1]) (VDict r) = Inr ()"
proof -
  obtain fb r where r: "\<forall>h a. denotes h a (VDict sample_request) \<longrightarrow>
       check_obligation_set sample_env sample_calls h a (VDict sample_request) = Inr (fb, r)"
    and t: "tidy sample_interp (VDict r)" "cost (VDict r) \<le> 6000" "nesting (VDict r) \<le> 32"
      "length (obligations_of r) = 2" "ob_kind (obligations_of r ! 0) = u ''polynomial_identity''"
      "entry_status (obligations_of r ! 0) = VStr (u ''falsified'')"
    by (rule sample_outcome)
  let ?h = "heap_of (VList [VDict sample_request, VDict r])"
  have d: "denotes ?h (place [0]) (VDict sample_request)" "denotes ?h (place [1]) (VDict r)"
    by (rule heap_of_denotes; simp)+
  have "\<exists>line. encode_json_line sample_interp ?h receipt_limits (place [1]) (VDict r) = Inr line"
    using t(1-3) by (intro tidy_line [OF d(2)]) (simp_all add: receipt_limits_def MAX_RECEIPT_BYTES_def
        MAX_OBLIGATION_REQUEST_NODES_def MAX_OBLIGATION_REQUEST_DEPTH_def sample_interp_sane(2) del: cost.simps nesting.simps)
  then have "bounded_receipt (python sample_env) ?h (place [1]) (VDict r) = Inr ()"
    by (auto simp: bounded_receipt_def bounded_document_def sample_env_def)
  then show thesis using that r d(1) by blast
qed



theorem replay_classifies_witness:
  "\<exists>h r replay fb cur. replay_obligation_set sample_env sample_calls h (place [0]) (VDict sample_request) (place [1]) (VDict r)
     = Inr (replay, fb, cur) \<and> validate_receipt_integrity sample_interp r = Inr ()"
proof -
  obtain fb r h where "check_obligation_set sample_env sample_calls h (place [0]) (VDict sample_request) = Inr (fb, r)"
    "bounded_receipt (python sample_env) h (place [1]) (VDict r) = Inr ()"
    using sample_replay_inputs by blast
  from replay_own [OF this] obtain replay where
    "replay_obligation_set sample_env sample_calls h (place [0]) (VDict sample_request) (place [1]) (VDict r) = Inr (replay, fb, r)"
    by blast
  moreover from replay_classifies [OF this] have "validate_receipt_integrity (python sample_env) r = Inr ()" by blast
  moreover have "python sample_env = sample_interp" by (simp add: sample_env_def)
  ultimately show ?thesis by metis
qed

end
