(* ===== verification/Step_Systems.thy ===== *)
theory Step_Systems
  imports Prelude
begin

text \<open>
  Labelled transition systems: the reachable states of a component whose operations run one at a
  time under its lock, in any order, and the interface by which a component offers an invariant.
\<close>

inductive reach :: "('s \<Rightarrow> bool) \<Rightarrow> ('s \<Rightarrow> 'e \<Rightarrow> 's \<Rightarrow> bool) \<Rightarrow> 's \<Rightarrow> bool"
  for init :: "'s \<Rightarrow> bool" and step :: "'s \<Rightarrow> 'e \<Rightarrow> 's \<Rightarrow> bool" where
  reach_init: "init s \<Longrightarrow> reach init step s"
| reach_step: "reach init step s \<Longrightarrow> step s e t \<Longrightarrow> reach init step t"

text \<open>A finite run with its events, first event first.\<close>

inductive run :: "('s \<Rightarrow> 'e \<Rightarrow> 's \<Rightarrow> bool) \<Rightarrow> 's \<Rightarrow> 'e list \<Rightarrow> 's \<Rightarrow> bool"
  for step :: "'s \<Rightarrow> 'e \<Rightarrow> 's \<Rightarrow> bool" where
  run_Nil: "run step s [] s"
| run_Cons: "step s e t \<Longrightarrow> run step t es r \<Longrightarrow> run step s (e # es) r"

inductive_simps run_Nil_iff [simp]: "run step s [] t"
inductive_simps run_Cons_iff: "run step s (e # es) t"

lemma reach_run: "run step s es t \<Longrightarrow> reach init step s \<Longrightarrow> reach init step t"
  by (induction rule: run.induct) (auto intro: reach_step)

lemma run_append: "run step s es t \<Longrightarrow> run step t fs r \<Longrightarrow> run step s (es @ fs) r"
  by (induction rule: run.induct) (auto intro: run_Cons)

text \<open>What a component promises: an invariant that holds initially and that every step keeps.\<close>

locale guarded_system =
  fixes init :: "'s \<Rightarrow> bool"
    and step :: "'s \<Rightarrow> 'e \<Rightarrow> 's \<Rightarrow> bool"
    and inv :: "'s \<Rightarrow> bool"
  assumes init_inv: "init s \<Longrightarrow> inv s"
    and step_inv: "inv s \<Longrightarrow> step s e t \<Longrightarrow> inv t"
begin

lemma reach_inv: "reach init step s \<Longrightarrow> inv s"
  by (induction rule: reach.induct) (auto intro: init_inv step_inv)

lemma run_inv: "run step s es t \<Longrightarrow> inv s \<Longrightarrow> inv t"
  by (induction rule: run.induct) (auto intro: step_inv)

end

text \<open>
  A component of a larger system: seen through \<open>view\<close>, every step of the system is a step of the component or
  leaves it alone, so whatever holds of the component in isolation holds of it within the system.
\<close>

locale component = guarded_system init step inv
  for init :: "'s \<Rightarrow> bool" and step :: "'s \<Rightarrow> 'e \<Rightarrow> 's \<Rightarrow> bool" and inv :: "'s \<Rightarrow> bool" +
  fixes init_of :: "'c \<Rightarrow> bool"
    and step_of :: "'c \<Rightarrow> 'f \<Rightarrow> 'c \<Rightarrow> bool"
    and part :: "'s \<Rightarrow> 'c"
  assumes init_part: "init s \<Longrightarrow> init_of (part s)"
    and step_part: "inv s \<Longrightarrow> step s e t \<Longrightarrow> part t = part s \<or> (\<exists>f. step_of (part s) f (part t))"
begin

lemma reach_part: "reach init step s \<Longrightarrow> reach init_of step_of (part s)"
proof (induction rule: reach.induct)
  case (reach_init s)
  then show ?case by (blast intro: reach.reach_init init_part)
next
  case (reach_step s e t)
  then show ?case using step_part [OF reach_inv [OF reach_step(1)] reach_step(2)] by (metis reach.reach_step)
qed

end

end
