(* ===== verification/Admission.thy ===== *)
theory Admission
  imports Errors Step_Systems "HOL-Library.Multiset"
begin

text \<open>
  \<^verbatim>\<open>runtime_control.AdmissionController\<close>: the queue that bounds concurrency and memory over every
  caller. The condition variable's lock makes each passage between two waits atomic, so a call of
  \<^verbatim>\<open>acquire\<close> is \<open>acquire_start\<close> (up to the loop) followed by any number of \<open>acquire_poll\<close> (one pass
  of the loop), interleaved with the passages of other threads. A ticket is an object: \<open>ident\<close> is
  its identity, which \<^verbatim>\<open>is\<close> compares, while the generated \<^verbatim>\<open>==\<close> of the dataclass compares its two
  fields.
\<close>

section \<open>State\<close>

datatype request_class = Single | Batch

record ticket =
  ident :: nat
  ticket_memory :: int
  ticket_class :: request_class

record lease =
  lease_memory :: int
  lease_class :: request_class
  queue_ms :: rat

record admission =
  maximum_active :: int
  maximum_batch_active :: int
  maximum_queued :: int
  memory_budget_mb :: int
  queue :: "ticket list"
  active :: int
  active_batch :: int
  memory_mb :: int

definition MAX_ACTIVE_REQUESTS :: int where "MAX_ACTIVE_REQUESTS = 4"

definition MAX_ACTIVE_BATCH_REQUESTS :: int where "MAX_ACTIVE_BATCH_REQUESTS = 3"

definition MAX_QUEUED_REQUESTS :: int where "MAX_QUEUED_REQUESTS = 32"

definition GLOBAL_MEMORY_BUDGET_MB :: int where "GLOBAL_MEMORY_BUDGET_MB = 4096"

definition new_admission :: "int \<Rightarrow> int \<Rightarrow> int \<Rightarrow> int \<Rightarrow> admission" where
  "new_admission max_active max_batch max_queued budget =
     \<lparr>maximum_active = max_active, maximum_batch_active = min max_batch max_active,
      maximum_queued = max_queued, memory_budget_mb = budget,
      queue = [], active = 0, active_batch = 0, memory_mb = 0\<rparr>"

section \<open>Operations\<close>

text \<open>The dataclass \<^verbatim>\<open>==\<close>, and \<^verbatim>\<open>deque.remove\<close>, which removes the first equal element or raises.\<close>

definition ticket_eq :: "ticket \<Rightarrow> ticket \<Rightarrow> bool" where
  "ticket_eq a b \<longleftrightarrow> ticket_memory a = ticket_memory b \<and> ticket_class a = ticket_class b"

fun deque_remove :: "ticket \<Rightarrow> ticket list \<Rightarrow> pyexn + ticket list" where
  "deque_remove t [] = Inl (PyExn (u ''ValueError'') (u ''deque.remove(x): x not in deque''))"
| "deque_remove t (q # qs) =
     (if ticket_eq q t then Inr qs else rbind (deque_remove t qs) (\<lambda>r. Inr (q # r)))"

text \<open>The loop at the end of \<^verbatim>\<open>_may_enter\<close>.\<close>

fun scan_queue :: "ticket \<Rightarrow> ticket list \<Rightarrow> bool" where
  "scan_queue t [] = False"
| "scan_queue t (q # qs) =
     (if ident q = ident t then True
      else if ticket_class t = Single then
        (if ticket_class q = Single then False else scan_queue t qs)
      else False)"

definition may_enter :: "ticket \<Rightarrow> admission \<Rightarrow> bool" where
  "may_enter t a =
     (if active a \<ge> maximum_active a then False
      else if memory_mb a + ticket_memory t > memory_budget_mb a then False
      else if ticket_class t = Batch \<and> active_batch a \<ge> maximum_batch_active a then False
      else if ticket_class t = Batch \<and> (\<exists>q \<in> set (queue a). ticket_class q = Single) then False
      else scan_queue t (queue a))"

definition request_class_of :: "pystr \<Rightarrow> pyexn + request_class" where
  "request_class_of c =
     (if c = u ''single'' then Inr Single
      else if c = u ''batch'' then Inr Batch
      else Inl (PyExn (u ''ValueError'') (u ''unsupported request class: '' @ c)))"

text \<open>\<^verbatim>\<open>acquire\<close> up to its loop; \<open>None\<close> is the outcome \<^verbatim>\<open>overloaded\<close>. \<open>i\<close> is the new object's identity.\<close>

definition acquire_start ::
  "nat \<Rightarrow> int \<Rightarrow> pystr \<Rightarrow> admission \<Rightarrow> pyexn + (ticket option \<times> admission)" where
  "acquire_start i memory request_class a =
     rbind (request_class_of request_class) (\<lambda>c.
       let t = \<lparr>ident = i, ticket_memory = memory, ticket_class = c\<rparr> in
       if int (length (queue a)) \<ge> maximum_queued a then Inr (None, a)
       else Inr (Some t, a\<lparr>queue := queue a @ [t]\<rparr>))"

datatype admission_outcome = Cancelled | TimedOut | Entered lease | Waiting

text \<open>One pass of the loop: \<open>cancelled\<close> is the event's state and \<open>now\<close> the clock.\<close>

definition acquire_poll ::
  "ticket \<Rightarrow> bool \<Rightarrow> rat \<Rightarrow> rat \<Rightarrow> rat \<Rightarrow> admission \<Rightarrow> pyexn + (admission_outcome \<times> admission)" where
  "acquire_poll t cancelled started deadline now a =
     (if cancelled then
        rbind (deque_remove t (queue a)) (\<lambda>q. Inr (Cancelled, a\<lparr>queue := q\<rparr>))
      else if may_enter t a then
        rbind (deque_remove t (queue a)) (\<lambda>q.
          Inr (Entered \<lparr>lease_memory = ticket_memory t, lease_class = ticket_class t,
                        queue_ms = (now - started) * 1000\<rparr>,
               a\<lparr>queue := q, active := active a + 1, memory_mb := memory_mb a + ticket_memory t,
                 active_batch := active_batch a + (if ticket_class t = Batch then 1 else 0)\<rparr>))
      else if deadline - now \<le> 0 then
        rbind (deque_remove t (queue a)) (\<lambda>q. Inr (TimedOut, a\<lparr>queue := q\<rparr>))
      else Inr (Waiting, a))"

definition release_lease :: "lease \<Rightarrow> admission \<Rightarrow> admission" where
  "release_lease l a =
     a\<lparr>active := active a - 1, memory_mb := memory_mb a - lease_memory l,
       active_batch := active_batch a - (if lease_class l = Batch then 1 else 0)\<rparr>"

definition admission_snapshot :: "admission \<Rightarrow> pydict" where
  "admission_snapshot a =
     [(u ''active'', VInt (active a)), (u ''activeBatch'', VInt (active_batch a)),
      (u ''queued'', VInt (int (length (queue a)))), (u ''memoryMb'', VInt (memory_mb a))]"

section \<open>The controller and its callers\<close>

text \<open>
  \<open>waiters\<close> are the tickets of the threads inside the loop, \<open>leases\<close> the leases not yet released. A
  caller passes a memory request that \<^verbatim>\<open>_run_operation_impl\<close> has checked to lie between 256 and
  4096.
\<close>

record admission_system =
  ctl :: admission
  waiters :: "ticket list"
  leases :: "lease list"
  fresh :: nat

datatype admission_event =
    Arrive int pystr bool rat rat rat
  | Poll ticket bool rat rat rat
  | Release lease

text \<open>What a pass of the loop does to the callers: the thread stays, leaves, or leaves with a lease.\<close>

fun settle :: "ticket \<Rightarrow> admission_outcome \<times> admission \<Rightarrow> admission_system \<Rightarrow> admission_system" where
  "settle t (Waiting, a) s = s\<lparr>ctl := a\<rparr>"
| "settle t (Cancelled, a) s = s\<lparr>ctl := a, waiters := remove1 t (waiters s)\<rparr>"
| "settle t (TimedOut, a) s = s\<lparr>ctl := a, waiters := remove1 t (waiters s)\<rparr>"
| "settle t (Entered l, a) s =
     s\<lparr>ctl := a, waiters := remove1 t (waiters s), leases := l # leases s\<rparr>"

text \<open>The first pass of the loop follows the enqueueing under the same hold of the lock.\<close>

inductive admission_step :: "admission_system \<Rightarrow> admission_event \<Rightarrow> admission_system \<Rightarrow> bool" where
  arrive_overloaded:
    "256 \<le> m \<Longrightarrow> m \<le> 4096 \<Longrightarrow> acquire_start (fresh s) m c (ctl s) = Inr (None, a) \<Longrightarrow>
     admission_step s (Arrive m c b st d n) (s\<lparr>ctl := a, fresh := Suc (fresh s)\<rparr>)"
| arrive_queued:
    "256 \<le> m \<Longrightarrow> m \<le> 4096 \<Longrightarrow> acquire_start (fresh s) m c (ctl s) = Inr (Some t, a) \<Longrightarrow>
     acquire_poll t b st d n a = Inr r \<Longrightarrow>
     admission_step s (Arrive m c b st d n)
       (settle t r (s\<lparr>ctl := a, waiters := waiters s @ [t], fresh := Suc (fresh s)\<rparr>))"
| poll_again:
    "t \<in> set (waiters s) \<Longrightarrow> acquire_poll t b st d n (ctl s) = Inr r \<Longrightarrow>
     admission_step s (Poll t b st d n) (settle t r s)"
| release_held:
    "l \<in> set (leases s) \<Longrightarrow>
     admission_step s (Release l) (s\<lparr>ctl := release_lease l (ctl s), leases := remove1 l (leases s)\<rparr>)"

inductive_simps poll_step_iff: "admission_step s (Poll t b st d n) s'"
inductive_simps release_step_iff: "admission_step s (Release l) s'"

definition admission_init :: "admission_system \<Rightarrow> bool" where
  "admission_init s \<longleftrightarrow>
     (\<exists>ma mb mq budget. 0 \<le> ma \<and> 0 \<le> mb \<and> 0 \<le> mq \<and> 0 \<le> budget \<and>
        ctl s = new_admission ma mb mq budget)
     \<and> waiters s = [] \<and> leases s = []"

abbreviation admission_reach :: "admission_system \<Rightarrow> bool" where
  "admission_reach \<equiv> reach admission_init admission_step"

section \<open>The invariant\<close>

text \<open>What \<^verbatim>\<open>==\<close> sees of a ticket.\<close>

definition ticket_key :: "ticket \<Rightarrow> int \<times> request_class" where
  "ticket_key t = (ticket_memory t, ticket_class t)"

lemma ticket_eq_key: "ticket_eq a b \<longleftrightarrow> ticket_key a = ticket_key b"
  by (simp add: ticket_eq_def ticket_key_def)

lemma deque_remove_split:
  "deque_remove t q = Inr r \<Longrightarrow>
     \<exists>xs y ys. q = xs @ y # ys \<and> r = xs @ ys \<and> ticket_eq y t \<and> (\<forall>x \<in> set xs. \<not> ticket_eq x t)"
proof (induction q arbitrary: r)
  case (Cons a q)
  show ?case
  proof (cases "ticket_eq a t")
    case True
    with Cons.prems show ?thesis by (intro exI [of _ "[]"]) simp
  next
    case False
    with Cons.prems obtain r' where r': "r = a # r'" "deque_remove t q = Inr r'"
      by (auto simp: rbind_eq_Inr)
    from Cons.IH [OF r'(2)] obtain xs y ys where
      "q = xs @ y # ys" "r' = xs @ ys" "ticket_eq y t" "\<forall>x \<in> set xs. \<not> ticket_eq x t" by blast
    then show ?thesis using False r'(1)
      by (intro exI [of _ "a # xs"] exI [of _ y] exI [of _ ys]) simp
  qed
qed simp

lemma deque_remove_first:
  "\<forall>x \<in> set xs. \<not> ticket_eq x t \<Longrightarrow> ticket_eq y t \<Longrightarrow> deque_remove t (xs @ y # ys) = Inr (xs @ ys)"
  by (induction xs) auto

lemma deque_remove_ok: "ticket_key t \<in> ticket_key ` set q \<Longrightarrow> \<exists>r. deque_remove t q = Inr r"
proof (induction q)
  case (Cons a q)
  then show ?case by (cases "ticket_eq a t") (auto simp: ticket_eq_key)
qed simp

lemma deque_remove_keys:
  assumes "deque_remove t q = Inr r"
  shows "image_mset ticket_key (mset q) = add_mset (ticket_key t) (image_mset ticket_key (mset r))"
    and "length q = Suc (length r)" and "set r \<subseteq> set q" and "distinct (map ident q) \<Longrightarrow> distinct (map ident r)"
  using deque_remove_split [OF assms] by (auto simp: ticket_eq_key)

definition bounded :: "admission \<Rightarrow> bool" where
  "bounded a \<longleftrightarrow>
     0 \<le> active a \<and> active a \<le> maximum_active a
     \<and> 0 \<le> active_batch a \<and> active_batch a \<le> maximum_batch_active a
     \<and> 0 \<le> memory_mb a \<and> memory_mb a \<le> memory_budget_mb a
     \<and> int (length (queue a)) \<le> maximum_queued a
     \<and> maximum_batch_active a \<le> maximum_active a"

definition ledger :: "admission \<Rightarrow> lease list \<Rightarrow> bool" where
  "ledger a ls \<longleftrightarrow>
     active a = int (length ls)
     \<and> active_batch a = int (length (filter (\<lambda>l. lease_class l = Batch) ls))
     \<and> memory_mb a = sum_list (map lease_memory ls)
     \<and> (\<forall>l \<in> set ls. 0 \<le> lease_memory l)"

definition queue_matches :: "admission_system \<Rightarrow> bool" where
  "queue_matches s \<longleftrightarrow>
     image_mset ticket_key (mset (queue (ctl s))) = image_mset ticket_key (mset (waiters s))
     \<and> (\<forall>t \<in> set (waiters s). 0 \<le> ticket_memory t \<and> ident t < fresh s)
     \<and> (\<forall>q \<in> set (queue (ctl s)). ident q < fresh s
           \<and> (\<forall>t \<in> set (waiters s). ident q = ident t \<longrightarrow> q = t))
     \<and> distinct (map ident (waiters s)) \<and> distinct (map ident (queue (ctl s)))"

definition admission_inv :: "admission_system \<Rightarrow> bool" where
  "admission_inv s \<longleftrightarrow> bounded (ctl s) \<and> ledger (ctl s) (leases s) \<and> queue_matches s"

lemma waiter_key: "queue_matches s \<Longrightarrow> t \<in> set (waiters s) \<Longrightarrow> ticket_key t \<in> ticket_key ` set (queue (ctl s))"
  unfolding queue_matches_def by (metis image_eqI set_image_mset set_mset_mset)

lemma acquire_start_cases:
  assumes "acquire_start i m c a = Inr (r, a')"
  obtains "r = None" "a' = a"
  | k where "r = Some \<lparr>ident = i, ticket_memory = m, ticket_class = k\<rparr>"
      "a' = a\<lparr>queue := queue a @ [\<lparr>ident = i, ticket_memory = m, ticket_class = k\<rparr>]\<rparr>"
      "int (length (queue a)) < maximum_queued a"
  using assms by (auto simp: acquire_start_def rbind_eq_Inr Let_def split: if_splits)

lemma acquire_poll_cases:
  assumes "acquire_poll t b st d n a = Inr (r, a')"
  obtains "r = Waiting" "a' = a"
  | q where "r = Cancelled \<or> r = TimedOut" "deque_remove t (queue a) = Inr q" "a' = a\<lparr>queue := q\<rparr>"
  | q where "r = Entered \<lparr>lease_memory = ticket_memory t, lease_class = ticket_class t, queue_ms = (n - st) * 1000\<rparr>"
      "may_enter t a" "deque_remove t (queue a) = Inr q"
      "a' = a\<lparr>queue := q, active := active a + 1, memory_mb := memory_mb a + ticket_memory t,
              active_batch := active_batch a + (if ticket_class t = Batch then 1 else 0)\<rparr>"
proof (cases "b \<or> \<not> may_enter t a")
  case True
  show ?thesis
  proof (cases "b \<or> d - n \<le> 0")
    case True
    with \<open>b \<or> \<not> may_enter t a\<close> assms obtain q where
      "deque_remove t (queue a) = Inr q" "r = (if b then Cancelled else TimedOut)" "a' = a\<lparr>queue := q\<rparr>"
      by (cases b) (simp_all add: acquire_poll_def rbind_eq_Inr, blast+)
    then show ?thesis using that(2) [of q] by simp
  next
    case False
    with True assms that(1) show ?thesis by (simp add: acquire_poll_def)
  qed
next
  case False
  with assms obtain q where "deque_remove t (queue a) = Inr q"
    "r = Entered \<lparr>lease_memory = ticket_memory t, lease_class = ticket_class t, queue_ms = (n - st) * 1000\<rparr>"
    "a' = a\<lparr>queue := q, active := active a + 1, memory_mb := memory_mb a + ticket_memory t,
            active_batch := active_batch a + (if ticket_class t = Batch then 1 else 0)\<rparr>"
    unfolding acquire_poll_def by (auto simp add: rbind_eq_Inr)
  then show ?thesis using that(3) [of q] False by simp
qed

lemma may_enter_capacity:
  "may_enter t a \<Longrightarrow> active a < maximum_active a \<and> memory_mb a + ticket_memory t \<le> memory_budget_mb a
     \<and> (ticket_class t = Batch \<longrightarrow> active_batch a < maximum_batch_active a)"
  by (auto simp: may_enter_def split: if_splits)

lemma release_bounded:
  assumes "bounded a" "ledger a ls" "l \<in> set ls"
  shows "bounded (release_lease l a)" "ledger (release_lease l a) (remove1 l ls)"
proof -
  obtain xs ys where s: "ls = xs @ l # ys" "l \<notin> set xs"
    using assms(3) by (meson split_list_first)
  then show "ledger (release_lease l a) (remove1 l ls)"
    using assms(2) by (auto simp: ledger_def release_lease_def remove1_append)
  then have "0 \<le> active (release_lease l a)" "0 \<le> active_batch (release_lease l a)"
     "0 \<le> memory_mb (release_lease l a)"
    by (auto simp: ledger_def intro!: sum_list_nonneg dest: in_set_remove1)
  with assms show "bounded (release_lease l a)"
    by (auto simp: bounded_def release_lease_def ledger_def split: if_splits)
qed

lemma start_keeps:
  assumes "admission_inv s" "0 \<le> m" "acquire_start (fresh s) m c (ctl s) = Inr (r, a)"
  shows "r = None \<Longrightarrow> admission_inv (s\<lparr>ctl := a, fresh := Suc (fresh s)\<rparr>)"
    and "r = Some t \<Longrightarrow> admission_inv (s\<lparr>ctl := a, waiters := waiters s @ [t], fresh := Suc (fresh s)\<rparr>)"
proof -
  show "admission_inv (s\<lparr>ctl := a, fresh := Suc (fresh s)\<rparr>)" if "r = None"
    using assms(3)
  proof (cases rule: acquire_start_cases)
    case 1
    then show ?thesis using assms(1) less_SucI
      by (fastforce simp: admission_inv_def queue_matches_def)
  qed (use that in simp)
  show "admission_inv (s\<lparr>ctl := a, waiters := waiters s @ [t], fresh := Suc (fresh s)\<rparr>)" if "r = Some t"
    using assms(3)
  proof (cases rule: acquire_start_cases)
    case (2 k)
    then have t: "ident t = fresh s" "ticket_memory t = m"
      "a = ctl s\<lparr>queue := queue (ctl s) @ [t]\<rparr>" "int (length (queue (ctl s))) < maximum_queued (ctl s)"
      using that by auto
    have "fresh s \<notin> ident ` set (waiters s)" "fresh s \<notin> ident ` set (queue (ctl s))"
      using assms(1) by (auto simp: admission_inv_def queue_matches_def)
    then show ?thesis using assms(1,2) t
      by (auto simp: admission_inv_def bounded_def ledger_def queue_matches_def)
  qed (use that in simp)
qed

lemma distinct_map_remove1: "distinct (map f xs) \<Longrightarrow> distinct (map f (remove1 x xs))"
  by (auto simp: distinct_map distinct_remove1 intro: inj_on_subset)

lemma queue_matches_leave:
  assumes "queue_matches s" "t \<in> set (waiters s)" "deque_remove t (queue (ctl s)) = Inr q"
  shows "queue_matches (s\<lparr>ctl := a\<lparr>queue := q\<rparr>, waiters := remove1 t (waiters s)\<rparr>)"
proof -
  note d = deque_remove_keys [OF assms(3)]
  have "add_mset (ticket_key t) (image_mset ticket_key (mset q))
      = image_mset ticket_key (mset (waiters s))"
    using assms(1) d(1) by (simp add: queue_matches_def)
  also have "\<dots> = add_mset (ticket_key t) (image_mset ticket_key (mset (remove1 t (waiters s))))"
    using assms(2) by (metis image_mset_add_mset mset_remove1 insert_DiffM set_mset_mset)
  finally have "image_mset ticket_key (mset q) = image_mset ticket_key (mset (remove1 t (waiters s)))"
    by simp
  then show ?thesis
    using assms(1) d(3,4) set_remove1_subset [of t "waiters s"]
    by (simp add: queue_matches_def distinct_map_remove1) blast
qed

lemma admission_init_inv: "admission_init s \<Longrightarrow> admission_inv s"
  by (auto simp: admission_init_def admission_inv_def bounded_def ledger_def queue_matches_def new_admission_def)

lemma leave_keeps:
  assumes "admission_inv s" "t \<in> set (waiters s)" "deque_remove t (queue (ctl s)) = Inr q"
  shows "admission_inv (s\<lparr>ctl := (ctl s)\<lparr>queue := q\<rparr>, waiters := remove1 t (waiters s)\<rparr>)"
  using assms(1) queue_matches_leave [OF _ assms(2,3), of "ctl s"] deque_remove_keys(2) [OF assms(3)]
  by (simp add: admission_inv_def bounded_def ledger_def)

lemma enter_keeps:
  assumes "admission_inv s" "t \<in> set (waiters s)" "may_enter t (ctl s)"
    "deque_remove t (queue (ctl s)) = Inr q"
  shows "admission_inv (s\<lparr>ctl := (ctl s)\<lparr>queue := q, active := active (ctl s) + 1,
        memory_mb := memory_mb (ctl s) + ticket_memory t,
        active_batch := active_batch (ctl s) + (if ticket_class t = Batch then 1 else 0)\<rparr>,
      waiters := remove1 t (waiters s),
      leases := \<lparr>lease_memory = ticket_memory t, lease_class = ticket_class t, queue_ms = w\<rparr> # leases s\<rparr>)"
proof -
  have "0 \<le> ticket_memory t"
    using assms(1,2) by (simp add: admission_inv_def queue_matches_def)
  moreover have "queue_matches (s\<lparr>ctl := (ctl s)\<lparr>queue := q\<rparr>, waiters := remove1 t (waiters s)\<rparr>)"
    using assms(1) queue_matches_leave [OF _ assms(2,4), of "ctl s"] by (simp add: admission_inv_def)
  ultimately show ?thesis
    using assms(1) may_enter_capacity [OF assms(3)] deque_remove_keys(2) [OF assms(4)]
    by (auto simp: admission_inv_def bounded_def ledger_def queue_matches_def)
qed

lemma release_keeps:
  assumes "admission_inv s" "l \<in> set (leases s)"
  shows "admission_inv (s\<lparr>ctl := release_lease l (ctl s), leases := remove1 l (leases s)\<rparr>)"
proof -
  have "queue (release_lease l (ctl s)) = queue (ctl s)"
    by (simp add: release_lease_def)
  then show ?thesis
    using assms release_bounded [OF _ _ assms(2), of "ctl s"]
    by (simp add: admission_inv_def queue_matches_def)
qed

lemma settle_keeps:
  assumes "admission_inv s" "t \<in> set (waiters s)" "acquire_poll t b st d n (ctl s) = Inr r"
  shows "admission_inv (settle t r s)"
proof -
  obtain o' a where r: "r = (o', a)" by (cases r)
  from assms(3) [unfolded r] show ?thesis
  proof (cases rule: acquire_poll_cases)
    case (2 q)
    with r leave_keeps [OF assms(1,2) 2(2)] show ?thesis by auto
  next
    case (3 q)
    with r enter_keeps [OF assms(1,2) 3(2,3)] show ?thesis by simp
  qed (use r assms(1) in simp)
qed

lemma admission_step_inv: "admission_inv s \<Longrightarrow> admission_step s e s' \<Longrightarrow> admission_inv s'"
proof (erule admission_step.cases, goal_cases)
  case (1 m r c a)
  then show ?case using start_keeps(1) [of s m c None a] by simp
next
  case (2 m r c t a b st d n x)
  let ?r = "s\<lparr>ctl := a, waiters := waiters s @ [t], fresh := Suc (fresh s)\<rparr>"
  have "admission_inv ?r" using 2 start_keeps(2) [of s m c "Some t" a t] by simp
  then show ?case using 2 settle_keeps [of ?r t b st d n x] by simp
qed (auto intro: settle_keeps release_keeps)

interpretation admission: guarded_system admission_init admission_step admission_inv
  by unfold_locales (auto intro: admission_init_inv admission_step_inv)

text \<open>
  C5: In every state the callers can reach, in any interleaving, the controller's counters are exactly
  those of the leases it has handed out, at most \<^verbatim>\<open>maximum_active\<close> requests run, at most
  \<^verbatim>\<open>maximum_batch_active\<close> of them batch items, the memory granted never exceeds the budget and the
  queue never exceeds its bound.
\<close>

theorem admission_within_bounds:
  assumes "admission_reach s"
  shows "active (ctl s) = int (length (leases s))
    \<and> active (ctl s) \<le> maximum_active (ctl s)
    \<and> active_batch (ctl s) = int (length (filter (\<lambda>l. lease_class l = Batch) (leases s)))
    \<and> active_batch (ctl s) \<le> maximum_batch_active (ctl s)
    \<and> memory_mb (ctl s) = sum_list (map lease_memory (leases s))
    \<and> memory_mb (ctl s) \<le> memory_budget_mb (ctl s)
    \<and> int (length (queue (ctl s))) \<le> maximum_queued (ctl s)"
  using admission.reach_inv [OF assms]
  by (simp add: admission_inv_def bounded_def ledger_def)

text \<open>
  The loop of \<^verbatim>\<open>acquire\<close> never raises: whatever the interleaving, \<^verbatim>\<open>queue.remove(ticket)\<close> finds an
  element equal to the waiting thread's ticket.
\<close>

theorem admission_poll_never_raises:
  assumes "admission_reach s" and "t \<in> set (waiters s)"
  shows "\<exists>outcome a. acquire_poll t cancelled started deadline now (ctl s) = Inr (outcome, a)"
proof -
  have "queue_matches s"
    using admission.reach_inv [OF assms(1)] by (simp add: admission_inv_def)
  from deque_remove_ok [OF waiter_key [OF this assms(2)]] obtain q where
    "deque_remove t (queue (ctl s)) = Inr q" ..
  then show ?thesis by (simp add: acquire_poll_def)
qed

section \<open>Order of admission\<close>

lemma request_class_other [simp]: "c \<noteq> Single \<longleftrightarrow> c = Batch" "c \<noteq> Batch \<longleftrightarrow> c = Single"
  by (cases c; simp)+

lemma scan_queue_single:
  "ticket_class t = Single \<Longrightarrow> scan_queue t q \<Longrightarrow>
     \<exists>xs y ys. q = xs @ y # ys \<and> ident y = ident t \<and> (\<forall>x \<in> set xs. ticket_class x = Batch)"
proof (induction q)
  case (Cons a q)
  show ?case
  proof (cases "ident a = ident t")
    case True
    then show ?thesis by (intro exI [of _ "[]"]) simp
  next
    case False
    with Cons obtain xs y ys where
      "q = xs @ y # ys" "ident y = ident t" "\<forall>x \<in> set xs. ticket_class x = Batch" "ticket_class a = Batch"
      by (auto split: if_splits)
    then show ?thesis by (intro exI [of _ "a # xs"] exI [of _ y] exI [of _ ys]) simp
  qed
qed simp

lemma scan_queue_found:
  "ticket_class t = Single \<Longrightarrow> ident y = ident t \<Longrightarrow> \<forall>x \<in> set xs. ticket_class x = Batch \<Longrightarrow>
     scan_queue t (xs @ y # ys)"
  by (induction xs) auto

lemma scan_queue_batch:
  "ticket_class t = Batch \<Longrightarrow> scan_queue t q \<longleftrightarrow> (\<exists>y ys. q = y # ys \<and> ident y = ident t)"
  by (cases q) auto

text \<open>
  Admission is first come, first served within a class, and batch items yield to interactive calls:
  a ticket that enters is removed itself, not an equal one; a single request enters only when no single
  request is queued before it; a batch item only at the head of a queue without single requests.
\<close>

theorem admission_order:
  assumes "admission_reach s" and "t \<in> set (waiters s)"
    and "acquire_poll t cancelled started deadline now (ctl s) = Inr (Entered l, a)"
  shows "\<exists>xs ys. queue (ctl s) = xs @ t # ys \<and> queue a = xs @ ys
    \<and> (ticket_class t = Single \<longrightarrow> (\<forall>x \<in> set xs. ticket_class x = Batch))
    \<and> (ticket_class t = Batch \<longrightarrow> xs = [] \<and> (\<forall>y \<in> set ys. ticket_class y = Batch))"
proof -
  have qm: "queue_matches s"
    using admission.reach_inv [OF assms(1)] by (simp add: admission_inv_def)
  from assms(3) obtain q where q: "may_enter t (ctl s)" "deque_remove t (queue (ctl s)) = Inr q" "queue a = q"
    by (cases rule: acquire_poll_cases) auto
  have scan: "scan_queue t (queue (ctl s))"
    and batch: "ticket_class t = Batch \<Longrightarrow> \<forall>y \<in> set (queue (ctl s)). ticket_class y = Batch"
    using q(1) by (auto simp: may_enter_def split: if_splits)
  have "\<exists>xs y ys. queue (ctl s) = xs @ y # ys \<and> ident y = ident t
      \<and> (\<forall>x \<in> set xs. ticket_class x \<noteq> ticket_class t) \<and> (ticket_class t = Batch \<longrightarrow> xs = [])"
  proof (cases "ticket_class t")
    case Single
    with scan_queue_single [OF Single scan] show ?thesis by auto
  next
    case Batch
    with scan show ?thesis by (auto simp: scan_queue_batch)
  qed
  then obtain xs y ys where s: "queue (ctl s) = xs @ y # ys" "ident y = ident t"
    "\<forall>x \<in> set xs. ticket_class x \<noteq> ticket_class t" "ticket_class t = Batch \<longrightarrow> xs = []" by blast
  have y: "y = t" using qm assms(2) s(1,2) by (auto simp: queue_matches_def)
  have "\<forall>x \<in> set xs. \<not> ticket_eq x t" "ticket_eq y t"
    using s(3) y by (simp_all add: ticket_eq_def)
  then have after: "q = xs @ ys" using q(2) s(1) deque_remove_first by simp
  have "ticket_class t = Single \<Longrightarrow> \<forall>x \<in> set xs. ticket_class x = Batch"
    using s(3) by simp
  moreover have "ticket_class t = Batch \<Longrightarrow> xs = [] \<and> (\<forall>z \<in> set ys. ticket_class z = Batch)"
    using s(1,4) batch by simp
  ultimately show ?thesis using s(1) y q(3) after by blast
qed

text \<open>
  A queue that holds exactly the waiting threads' own tickets lets somebody in as soon as nothing
  runs.
\<close>

lemma idle_progress:
  assumes "admission_inv s" and "mset (queue (ctl s)) = mset (waiters s)" and "waiters s \<noteq> []"
    and "leases s = []" and "0 < maximum_active (ctl s)" and "0 < maximum_batch_active (ctl s)"
    and "\<forall>t \<in> set (waiters s). ticket_memory t \<le> memory_budget_mb (ctl s)"
  shows "\<exists>t \<in> set (waiters s). may_enter t (ctl s)"
proof -
  let ?q = "queue (ctl s)"
  have same: "set ?q = set (waiters s)" using assms(2) by (metis set_mset_mset)
  have idle: "active (ctl s) = 0" "active_batch (ctl s) = 0" "memory_mb (ctl s) = 0"
    using assms(1,4) by (auto simp: admission_inv_def ledger_def)
  show ?thesis
  proof (cases "\<exists>t \<in> set ?q. ticket_class t = Single")
    case True
    then obtain xs t ys where t: "?q = xs @ t # ys" "ticket_class t = Single" "\<forall>x \<in> set xs. ticket_class x = Batch"
      by (auto dest!: split_list_first_prop)
    moreover have "t \<in> set (waiters s)" using t(1) same by auto
    moreover have "scan_queue t ?q" unfolding t(1) using t(2,3) by (simp add: scan_queue_found)
    ultimately show ?thesis using assms(5,7) idle
      by (intro bexI [of _ t]) (auto simp: may_enter_def)
  next
    case False
    obtain t ys where t: "?q = t # ys" using assms(3) same by (cases ?q) auto
    then have "ticket_class t = Batch" "t \<in> set (waiters s)" using False same by auto
    then show ?thesis using False t assms(5-7) idle
      by (intro bexI [of _ t]) (auto simp: may_enter_def)
  qed
qed

text \<open>The step relation as a function, to evaluate concrete runs.\<close>

fun admission_exec :: "admission_event \<Rightarrow> admission_system \<Rightarrow> admission_system option" where
  "admission_exec (Arrive m c b st d n) s =
     (if 256 \<le> m \<and> m \<le> 4096
      then (case acquire_start (fresh s) m c (ctl s) of
              Inl e \<Rightarrow> None
            | Inr (None, a) \<Rightarrow> Some (s\<lparr>ctl := a, fresh := Suc (fresh s)\<rparr>)
            | Inr (Some t, a) \<Rightarrow>
                (case acquire_poll t b st d n a of
                   Inl e \<Rightarrow> None
                 | Inr r \<Rightarrow> Some (settle t r
                     (s\<lparr>ctl := a, waiters := waiters s @ [t], fresh := Suc (fresh s)\<rparr>))))
      else None)"
| "admission_exec (Poll t b st d n) s =
     (if t \<in> set (waiters s)
      then (case acquire_poll t b st d n (ctl s) of Inl e \<Rightarrow> None | Inr r \<Rightarrow> Some (settle t r s))
      else None)"
| "admission_exec (Release l) s =
     (if l \<in> set (leases s)
      then Some (s\<lparr>ctl := release_lease l (ctl s), leases := remove1 l (leases s)\<rparr>) else None)"

lemma admission_exec_step: "admission_exec e s = Some s' \<longleftrightarrow> admission_step s e s'"
proof
  show "admission_exec e s = Some s' \<Longrightarrow> admission_step s e s'"
    by (cases e) (auto split: if_splits sum.splits option.splits intro: admission_step.intros)
  show "admission_step s e s' \<Longrightarrow> admission_exec e s = Some s'"
    by (induction rule: admission_step.induct) auto
qed

fun admission_exec_all :: "admission_event list \<Rightarrow> admission_system \<Rightarrow> admission_system option" where
  "admission_exec_all [] s = Some s"
| "admission_exec_all (e # es) s =
     (case admission_exec e s of None \<Rightarrow> None | Some t \<Rightarrow> admission_exec_all es t)"

lemma admission_exec_all_reach:
  "admission_exec_all es s = Some t \<Longrightarrow> admission_reach s \<Longrightarrow> admission_reach t"
  by (induction es arbitrary: s)
    (auto split: option.splits simp: admission_exec_step intro: reach_step)

definition idle_system :: admission_system where
  "idle_system =
     \<lparr>ctl = new_admission MAX_ACTIVE_REQUESTS MAX_ACTIVE_BATCH_REQUESTS MAX_QUEUED_REQUESTS
              GLOBAL_MEMORY_BUDGET_MB,
      waiters = [], leases = [], fresh = 0\<rparr>"

lemma idle_system_reach: "admission_reach idle_system"
proof (rule reach_init, unfold admission_init_def, intro conjI exI)
  show "ctl idle_system = new_admission 4 3 32 4096"
    by (simp add: idle_system_def MAX_ACTIVE_REQUESTS_def MAX_ACTIVE_BATCH_REQUESTS_def
        MAX_QUEUED_REQUESTS_def GLOBAL_MEMORY_BUDGET_MB_def)
qed (simp_all add: idle_system_def)

text \<open>
  Four default requests run, two more wait; the second of these is cancelled; then the four finish.
\<close>

definition single_ticket :: "nat \<Rightarrow> ticket" where
  "single_ticket i = \<lparr>ident = i, ticket_memory = 1024, ticket_class = Single\<rparr>"

definition single_lease :: lease where
  "single_lease = \<lparr>lease_memory = 1024, lease_class = Single, queue_ms = 0\<rparr>"

definition cancel_run :: "admission_event list" where
  "cancel_run =
     replicate 6 (Arrive 1024 (u ''single'') False 0 10 0)
     @ [Poll (single_ticket 5) True 0 10 0]
     @ replicate 4 (Release single_lease)"

definition stranded_system :: admission_system where
  "stranded_system =
     \<lparr>ctl = new_admission 4 3 32 4096 \<lparr>queue := [single_ticket 5]\<rparr>,
      waiters = [single_ticket 4], leases = [], fresh = 6\<rparr>"

lemma cancel_run_result: "admission_exec_all cancel_run idle_system = Some stranded_system"
  by code_simp

text \<open>
  Cancelling one request can strand another. \<^verbatim>\<open>queue.remove(ticket)\<close> compares tickets by value, so
  the departing thread removes the first equal ticket, another thread's, and leaves its own in the
  queue. A reachable state follows in which nothing runs, all memory is free and a single request
  waits, yet it may not enter, and neither may a request that arrives after it.
\<close>

theorem admission_cancel_strands_waiter:
  "\<exists>s s' t t'. admission_reach s \<and> leases s = [] \<and> active (ctl s) = 0 \<and> memory_mb (ctl s) = 0
     \<and> waiters s = [t] \<and> ticket_class t = Single \<and> ticket_memory t \<le> memory_budget_mb (ctl s)
     \<and> \<not> may_enter t (ctl s)
     \<and> admission_exec (Arrive 1024 (u ''single'') False 0 10 0) s = Some s'
     \<and> waiters s' = [t, t'] \<and> leases s' = [] \<and> \<not> may_enter t (ctl s') \<and> \<not> may_enter t' (ctl s')"
proof -
  have "admission_reach stranded_system"
    using admission_exec_all_reach [OF cancel_run_result idle_system_reach] .
  moreover obtain s' where s': "admission_exec (Arrive 1024 (u ''single'') False 0 10 0) stranded_system = Some s'"
    and "waiters s' = [single_ticket 4, single_ticket 6]" "leases s' = []"
      "\<not> may_enter (single_ticket 4) (ctl s')" "\<not> may_enter (single_ticket 6) (ctl s')"
    by (simp add: stranded_system_def acquire_start_def request_class_of_def new_admission_def
        acquire_poll_def may_enter_def single_ticket_def Let_def)
  moreover have "\<not> may_enter (single_ticket 4) (ctl stranded_system)"
    "leases stranded_system = []" "active (ctl stranded_system) = 0" "memory_mb (ctl stranded_system) = 0"
    "waiters stranded_system = [single_ticket 4]" "ticket_class (single_ticket 4) = Single"
    "ticket_memory (single_ticket 4) \<le> memory_budget_mb (ctl stranded_system)"
    by (simp_all add: stranded_system_def new_admission_def may_enter_def single_ticket_def)
  ultimately show ?thesis by blast
qed

text \<open>
  Without such a departure there is always progress: in a reachable state whose queue holds exactly
  the waiting threads' own tickets, when no lease is held and each waiting request fits the budget on
  its own, some waiting thread may enter.
\<close>

theorem admission_idle_progress:
  assumes "admission_reach s" and "mset (queue (ctl s)) = mset (waiters s)" and "waiters s \<noteq> []"
    and "leases s = []" and "0 < maximum_active (ctl s)" and "0 < maximum_batch_active (ctl s)"
    and "\<forall>t \<in> set (waiters s). ticket_memory t \<le> memory_budget_mb (ctl s)"
  shows "\<exists>t \<in> set (waiters s). may_enter t (ctl s)"
  using idle_progress [OF admission.reach_inv [OF assms(1)]] assms(2-) by blast

text \<open>Two requests that wait behind four running ones, which then finish.\<close>

definition waiting_system :: admission_system where
  "waiting_system =
     \<lparr>ctl = new_admission 4 3 32 4096 \<lparr>queue := [single_ticket 4, single_ticket 5]\<rparr>,
      waiters = [single_ticket 4, single_ticket 5], leases = [], fresh = 6\<rparr>"

lemma waiting_system_reach: "admission_reach waiting_system"
proof (rule admission_exec_all_reach [OF _ idle_system_reach])
  show "admission_exec_all (replicate 6 (Arrive 1024 (u ''single'') False 0 10 0)
      @ replicate 4 (Release single_lease)) idle_system = Some waiting_system"
    by code_simp
qed

theorem admission_within_bounds_witness:
  "int (length (queue (ctl waiting_system))) \<le> maximum_queued (ctl waiting_system)"
  using admission_within_bounds [OF waiting_system_reach] by blast

theorem admission_poll_never_raises_witness:
  "\<exists>outcome a. acquire_poll (single_ticket 5) True 0 10 1 (ctl waiting_system) = Inr (outcome, a)"
  by (rule admission_poll_never_raises [OF waiting_system_reach]) (simp add: waiting_system_def)

lemma waiting_system_entry:
  "\<exists>l a. acquire_poll (single_ticket 4) False 0 10 1 (ctl waiting_system) = Inr (Entered l, a)"
  by (simp add: waiting_system_def acquire_poll_def may_enter_def single_ticket_def new_admission_def
      ticket_eq_def)

theorem admission_order_witness:
  "\<exists>xs ys. queue (ctl waiting_system) = xs @ single_ticket 4 # ys
     \<and> (\<forall>x \<in> set xs. ticket_class x = Batch)"
proof -
  from waiting_system_entry obtain l a where
    "acquire_poll (single_ticket 4) False 0 10 1 (ctl waiting_system) = Inr (Entered l, a)" by blast
  from admission_order [OF waiting_system_reach _ this] show ?thesis
    by (auto simp: waiting_system_def single_ticket_def)
qed

theorem admission_idle_progress_witness:
  "\<exists>t \<in> set (waiters waiting_system). may_enter t (ctl waiting_system)"
  by (rule admission_idle_progress [OF waiting_system_reach])
    (simp_all add: waiting_system_def single_ticket_def new_admission_def)
end
