(* ===== verification/Circuit_Breaker.thy ===== *)
theory Circuit_Breaker
  imports Errors Step_Systems
begin

text \<open>
  \<^verbatim>\<open>runtime_control.CircuitBreaker\<close>: fail fast after repeated provider faults, then allow one
  half-open probe. Every method runs under the breaker's lock. The clock is an argument, an exact
  rational number of seconds; \<^verbatim>\<open>record\<close> distinguishes three outcomes and treats every other text like
  \<^verbatim>\<open>error\<close>.
\<close>

section \<open>State and operations\<close>

record permit =
  permit_generation :: nat
  probe_id :: "nat option"

record breaker =
  failure_threshold :: int
  open_seconds :: rat
  consecutive_failures :: int
  opened_at :: "rat option"
  generation :: nat
  next_probe_id :: nat
  active_probe_id :: "nat option"

datatype outcome = Success | CallerError | InfrastructureFailure

definition CIRCUIT_FAILURE_THRESHOLD :: int where "CIRCUIT_FAILURE_THRESHOLD = 3"

definition CIRCUIT_OPEN_SECONDS :: rat where "CIRCUIT_OPEN_SECONDS = 1"

definition new_breaker :: "int \<Rightarrow> rat \<Rightarrow> breaker" where
  "new_breaker threshold seconds =
     \<lparr>failure_threshold = threshold, open_seconds = seconds, consecutive_failures = 0,
      opened_at = None, generation = 0, next_probe_id = 0, active_probe_id = None\<rparr>"

definition allow :: "rat \<Rightarrow> breaker \<Rightarrow> (permit option \<times> int option) \<times> breaker" where
  "allow now b =
     (case opened_at b of
        None \<Rightarrow> ((Some \<lparr>permit_generation = generation b, probe_id = None\<rparr>, None), b)
      | Some t \<Rightarrow>
          (let remaining = open_seconds b - (now - t) in
           if remaining > 0 then ((None, Some (max 1 (int_trunc (remaining * 1000)))), b)
           else if active_probe_id b \<noteq> None then
             ((None, Some (max 1 (int_trunc (open_seconds b * 1000)))), b)
           else
             (let k = Suc (next_probe_id b) in
              ((Some \<lparr>permit_generation = generation b, probe_id = Some k\<rparr>, None),
               b\<lparr>next_probe_id := k, active_probe_id := Some k\<rparr>))))"

definition abandon_probe :: "permit \<Rightarrow> breaker \<Rightarrow> breaker" where
  "abandon_probe p b =
     (if permit_generation p = generation b \<and> probe_id p = active_probe_id b
      then b\<lparr>active_probe_id := None\<rparr> else b)"

definition is_current_probe :: "permit option \<Rightarrow> breaker \<Rightarrow> bool" where
  "is_current_probe permit b \<longleftrightarrow>
     (case permit of None \<Rightarrow> False
      | Some p \<Rightarrow> permit_generation p = generation b \<and> probe_id p \<noteq> None
                  \<and> probe_id p = active_probe_id b)"

text \<open>\<^verbatim>\<open>record\<close> returns whether this call opened the circuit.\<close>

definition record_outcome :: "outcome \<Rightarrow> permit option \<Rightarrow> rat \<Rightarrow> breaker \<Rightarrow> bool \<times> breaker" where
  "record_outcome out permit now b =
     (let is_current_generation =
        (case permit of None \<Rightarrow> True | Some p \<Rightarrow> permit_generation p = generation b)
      in
      if opened_at b \<noteq> None then
        (if \<not> is_current_probe permit b then (False, b)
         else
           (let b = b\<lparr>active_probe_id := None\<rparr> in
            case out of
              Success \<Rightarrow> (False, b\<lparr>consecutive_failures := 0, opened_at := None\<rparr>)
            | InfrastructureFailure \<Rightarrow>
                (True, b\<lparr>consecutive_failures := max (consecutive_failures b) (failure_threshold b),
                         generation := Suc (generation b), opened_at := Some now\<rparr>)
            | CallerError \<Rightarrow> (False, b)))
      else if \<not> is_current_generation \<or> (case permit of None \<Rightarrow> False | Some p \<Rightarrow> probe_id p \<noteq> None)
      then (False, b)
      else
        (case out of
           InfrastructureFailure \<Rightarrow>
             (let b = b\<lparr>consecutive_failures := consecutive_failures b + 1\<rparr> in
              if consecutive_failures b \<ge> failure_threshold b
              then (True, b\<lparr>generation := Suc (generation b), opened_at := Some now\<rparr>)
              else (False, b))
         | Success \<Rightarrow> (False, b\<lparr>consecutive_failures := 0, opened_at := None\<rparr>)
         | CallerError \<Rightarrow> (False, b)))"

definition reset_breaker :: "breaker \<Rightarrow> breaker" where
  "reset_breaker b =
     b\<lparr>consecutive_failures := 0, opened_at := None, active_probe_id := None,
       generation := Suc (generation b)\<rparr>"

definition breaker_snapshot :: "breaker \<Rightarrow> pydict" where
  "breaker_snapshot b =
     [(u ''consecutiveFailures'', VInt (consecutive_failures b)),
      (u ''state'', VStr (if opened_at b \<noteq> None then u ''open'' else u ''closed'')),
      (u ''halfOpenProbe'', VBool (active_probe_id b \<noteq> None))]"

section \<open>The breaker and the permits in flight\<close>

text \<open>\<open>flight\<close> are the permits handed out whose holder has neither recorded an outcome nor abandoned them.\<close>

record breaker_system =
  circuit :: breaker
  flight :: "permit list"

datatype breaker_event = Allow rat | Record permit outcome rat | Abandon permit | Reset

inductive breaker_step :: "breaker_system \<Rightarrow> breaker_event \<Rightarrow> breaker_system \<Rightarrow> bool" where
  allow_granted:
    "allow now (circuit s) = ((Some p, r), b) \<Longrightarrow>
     breaker_step s (Allow now) (s\<lparr>circuit := b, flight := p # flight s\<rparr>)"
| allow_refused:
    "allow now (circuit s) = ((None, r), b) \<Longrightarrow> breaker_step s (Allow now) (s\<lparr>circuit := b\<rparr>)"
| record_done:
    "p \<in> set (flight s) \<Longrightarrow> record_outcome out (Some p) now (circuit s) = (opened, b) \<Longrightarrow>
     breaker_step s (Record p out now) (s\<lparr>circuit := b, flight := remove1 p (flight s)\<rparr>)"
| abandon_done:
    "p \<in> set (flight s) \<Longrightarrow>
     breaker_step s (Abandon p)
       (s\<lparr>circuit := abandon_probe p (circuit s), flight := remove1 p (flight s)\<rparr>)"
| reset_done: "breaker_step s Reset (s\<lparr>circuit := reset_breaker (circuit s)\<rparr>)"

inductive_simps record_step_iff: "breaker_step s (Record p out now) s'"
inductive_simps abandon_step_iff: "breaker_step s (Abandon p) s'"

definition breaker_init :: "breaker_system \<Rightarrow> bool" where
  "breaker_init s \<longleftrightarrow>
     (\<exists>threshold seconds. 1 \<le> threshold \<and> circuit s = new_breaker threshold seconds) \<and> flight s = []"

abbreviation breaker_reach :: "breaker_system \<Rightarrow> bool" where
  "breaker_reach \<equiv> reach breaker_init breaker_step"

section \<open>The invariant\<close>

definition probe_ids :: "permit list \<Rightarrow> nat list" where
  "probe_ids ps = List.map_filter probe_id ps"

definition circuit_ok :: "breaker \<Rightarrow> bool" where
  "circuit_ok b \<longleftrightarrow>
     1 \<le> failure_threshold b \<and> 0 \<le> consecutive_failures b
     \<and> (opened_at b = None \<longrightarrow> consecutive_failures b < failure_threshold b \<and> active_probe_id b = None)"

text \<open>
  The permits in flight: the reserved probe is held by somebody, probe numbers are distinct and were
  issued, and an ordinary permit in flight while the circuit is open belongs to an older generation.
\<close>

definition permit_ok :: "breaker \<Rightarrow> permit \<Rightarrow> bool" where
  "permit_ok b p \<longleftrightarrow>
     permit_generation p \<le> generation b
     \<and> (case probe_id p of
          None \<Rightarrow> opened_at b \<noteq> None \<longrightarrow> permit_generation p < generation b
        | Some k \<Rightarrow> k \<le> next_probe_id b)"

definition flight_ok :: "breaker \<Rightarrow> permit list \<Rightarrow> bool" where
  "flight_ok b ps \<longleftrightarrow>
     (\<forall>k. active_probe_id b = Some k \<longrightarrow>
        \<lparr>permit_generation = generation b, probe_id = Some k\<rparr> \<in> set ps)
     \<and> distinct (probe_ids ps) \<and> (\<forall>p \<in> set ps. permit_ok b p)"

definition breaker_inv :: "breaker_system \<Rightarrow> bool" where
  "breaker_inv s \<longleftrightarrow> circuit_ok (circuit s) \<and> flight_ok (circuit s) (flight s)"

lemma set_probe_ids: "set (probe_ids ps) = {k. \<exists>p \<in> set ps. probe_id p = Some k}"
  by (auto simp: probe_ids_def map_filter_def) force

lemma probe_ids_simps [simp]:
  "probe_ids [] = []"
  "probe_ids (p # ps) = (case probe_id p of None \<Rightarrow> probe_ids ps | Some k \<Rightarrow> k # probe_ids ps)"
  by (auto simp: probe_ids_def map_filter_def split: option.splits)

lemma probe_ids_remove1: "distinct (probe_ids ps) \<Longrightarrow> distinct (probe_ids (remove1 p ps))"
proof (induction ps)
  case (Cons a ps)
  have "set (probe_ids (remove1 p ps)) \<subseteq> set (probe_ids ps)"
    using set_remove1_subset [of p ps] by (auto simp: set_probe_ids)
  with Cons show ?case by (auto split: option.splits)
qed simp

text \<open>Two outstanding probes with the same number are the same permit, and it occurs once.\<close>

lemma probe_unique:
  "distinct (probe_ids ps) \<Longrightarrow> p \<in> set ps \<Longrightarrow> q \<in> set ps \<Longrightarrow> probe_id p = Some k \<Longrightarrow> probe_id q = Some k \<Longrightarrow> p = q"
  by (induction ps) (auto simp: set_probe_ids split: option.splits)

lemma probe_once:
  "distinct (probe_ids ps) \<Longrightarrow> p \<in> set ps \<Longrightarrow> probe_id p = Some k \<Longrightarrow> q \<in> set (remove1 p ps) \<Longrightarrow> probe_id q \<noteq> Some k"
  by (induction ps) (auto simp: set_probe_ids split: option.splits if_splits)

lemma allow_keeps:
  assumes "breaker_inv s" "allow now (circuit s) = ((r, h), b)"
  shows "r = Some p \<Longrightarrow> breaker_inv (s\<lparr>circuit := b, flight := p # flight s\<rparr>)"
    and "r = None \<Longrightarrow> breaker_inv (s\<lparr>circuit := b\<rparr>)"
proof -
  have num: "k \<le> next_probe_id (circuit s)" if "q \<in> set (flight s)" "probe_id q = Some k" for q k
    using assms(1) that by (auto simp: breaker_inv_def flight_ok_def permit_ok_def)
  then have new: "Suc (next_probe_id (circuit s)) \<notin> set (probe_ids (flight s))"
    by (fastforce simp: set_probe_ids)
  show "breaker_inv (s\<lparr>circuit := b, flight := p # flight s\<rparr>)" if "r = Some p"
  proof (cases "opened_at (circuit s)")
    case None
    with assms that show ?thesis
      by (auto simp: allow_def breaker_inv_def circuit_ok_def flight_ok_def permit_ok_def)
  next
    case (Some t)
    with assms(2) that have b: "b = circuit s\<lparr>next_probe_id := Suc (next_probe_id (circuit s)),
        active_probe_id := Some (Suc (next_probe_id (circuit s)))\<rparr>"
      "p = \<lparr>permit_generation = generation (circuit s), probe_id = Some (Suc (next_probe_id (circuit s)))\<rparr>"
      by (auto simp: allow_def Let_def split: if_splits)
    have "permit_ok b q" if "q \<in> set (flight s)" for q
      using assms(1) that b(1) by (auto simp: breaker_inv_def flight_ok_def permit_ok_def split: option.splits)
    then show ?thesis using assms(1) Some new
      by (simp add: b breaker_inv_def circuit_ok_def flight_ok_def permit_ok_def)
  qed
  show "breaker_inv (s\<lparr>circuit := b\<rparr>)" if "r = None"
  proof -
    have "b = circuit s" using assms(2) that by (auto simp: allow_def Let_def split: option.splits if_splits)
    then show ?thesis using assms(1) by (simp add: breaker_inv_def)
  qed
qed

lemma flight_ok_drop:
  assumes "flight_ok b ps" and "\<not> is_current_probe (Some p) b"
  shows "flight_ok b (remove1 p ps)"
proof -
  have "\<lparr>permit_generation = generation b, probe_id = Some k\<rparr> \<noteq> p" if "active_probe_id b = Some k" for k
    using assms(2) that by (auto simp: is_current_probe_def)
  then show ?thesis using assms(1) set_remove1_subset [of p ps]
    by (auto simp: flight_ok_def probe_ids_remove1 in_set_remove1)
qed

lemma flight_ok_weaken:
  assumes "flight_ok b ps" and "generation b \<le> generation b'" and "next_probe_id b' = next_probe_id b"
    and "opened_at b' \<noteq> None \<Longrightarrow> opened_at b = None \<Longrightarrow> generation b < generation b'" and "active_probe_id b' = None"
  shows "flight_ok b' ps"
  using assms
  by (fastforce simp: flight_ok_def permit_ok_def split: option.splits)

lemma reset_keeps: "breaker_inv s \<Longrightarrow> breaker_inv (s\<lparr>circuit := reset_breaker (circuit s)\<rparr>)"
  by (auto simp: breaker_inv_def circuit_ok_def reset_breaker_def intro: flight_ok_weaken)

lemma abandon_keeps:
  assumes "breaker_inv s"
  shows "breaker_inv (s\<lparr>circuit := abandon_probe p (circuit s), flight := remove1 p (flight s)\<rparr>)"
proof (cases "is_current_probe (Some p) (circuit s)")
  case True
  let ?b = "circuit s\<lparr>active_probe_id := None\<rparr>"
  have "flight_ok ?b (flight s)"
    using assms by (auto simp: breaker_inv_def intro: flight_ok_weaken)
  then have "flight_ok ?b (remove1 p (flight s))"
    by (rule flight_ok_drop) (auto simp: is_current_probe_def)
  then show ?thesis using assms True
    by (simp add: breaker_inv_def circuit_ok_def abandon_probe_def is_current_probe_def)
next
  case False
  have "abandon_probe p (circuit s) = circuit s"
    using False by (auto simp: abandon_probe_def is_current_probe_def)
  then show ?thesis using assms flight_ok_drop [OF _ False] by (simp add: breaker_inv_def)
qed

lemma record_keeps:
  assumes "breaker_inv s" and r: "record_outcome out (Some p) now (circuit s) = (opened, b)"
  shows "breaker_inv (s\<lparr>circuit := b, flight := remove1 p (flight s)\<rparr>)"
proof (cases "is_current_probe (Some p) (circuit s)")
  case True
  have op: "opened_at (circuit s) \<noteq> None"
    using assms(1) True by (auto simp: breaker_inv_def circuit_ok_def is_current_probe_def)
  have act: "active_probe_id b = None" and c: "circuit_ok b"
    and g: "generation (circuit s) \<le> generation b" "next_probe_id b = next_probe_id (circuit s)"
    using assms True op by (auto simp: record_outcome_def breaker_inv_def circuit_ok_def Let_def split: outcome.splits)
  have "flight_ok b (flight s)"
    using flight_ok_weaken [of "circuit s" "flight s" b] assms(1) act g op by (simp add: breaker_inv_def)
  then have "flight_ok b (remove1 p (flight s))"
    by (rule flight_ok_drop) (auto simp: act is_current_probe_def)
  then show ?thesis using c by (simp add: breaker_inv_def)
next
  case False
  have "flight_ok (circuit s) (remove1 p (flight s))"
    using flight_ok_drop [OF _ False] assms(1) by (simp add: breaker_inv_def)
  moreover have "b = circuit s \<or> active_probe_id b = None \<and> generation (circuit s) \<le> generation b
      \<and> next_probe_id b = next_probe_id (circuit s)
      \<and> (opened_at b \<noteq> None \<longrightarrow> opened_at (circuit s) = None \<longrightarrow> generation (circuit s) < generation b)"
    and "circuit_ok b"
    using assms False
    by (auto simp: record_outcome_def breaker_inv_def circuit_ok_def Let_def split: outcome.splits if_splits)
  ultimately show ?thesis
    using assms(1) flight_ok_weaken [of "circuit s" "remove1 p (flight s)" b]
    by (auto simp: breaker_inv_def)
qed

lemma breaker_step_inv: "breaker_inv s \<Longrightarrow> breaker_step s e s' \<Longrightarrow> breaker_inv s'"
  by (erule breaker_step.cases) (auto intro: allow_keeps record_keeps abandon_keeps reset_keeps)

lemma breaker_init_inv: "breaker_init s \<Longrightarrow> breaker_inv s"
  by (auto simp: breaker_init_def breaker_inv_def circuit_ok_def flight_ok_def new_breaker_def)

interpretation breaker: guarded_system breaker_init breaker_step breaker_inv
  by unfold_locales (auto intro: breaker_init_inv breaker_step_inv)

section \<open>What the breaker promises\<close>

lemma filter_one:
  "distinct (probe_ids ps) \<Longrightarrow> \<lparr>permit_generation = g, probe_id = Some k\<rparr> \<in> set ps \<Longrightarrow>
     filter (\<lambda>p. permit_generation p = g \<and> probe_id p = Some k) ps
       = [\<lparr>permit_generation = g, probe_id = Some k\<rparr>]"
proof (induction ps)
  case (Cons a ps)
  show ?case
  proof (cases "probe_id a = Some k")
    case True
    then have "k \<notin> set (probe_ids ps)" using Cons.prems(1) by simp
    then have none: "\<forall>p \<in> set ps. probe_id p \<noteq> Some k" by (auto simp: set_probe_ids)
    then have "a = \<lparr>permit_generation = g, probe_id = Some k\<rparr>" using Cons.prems(2) by auto
    then show ?thesis using none by (simp add: filter_empty_conv)
  next
    case False
    then show ?thesis using Cons by (auto split: option.splits)
  qed
qed simp

text \<open>
  An open circuit closes only through its current half-open probe: whatever step the callers take,
  it is either a reset or the success of the one reserved probe of the current generation, never the
  late success of a call admitted earlier.
\<close>

theorem circuit_closes_only_by_probe:
  assumes "breaker_step s e s'" and "opened_at (circuit s) \<noteq> None" and "opened_at (circuit s') = None"
  shows "e = Reset \<or>
    (\<exists>p now. e = Record p Success now \<and> p \<in> set (flight s) \<and> is_current_probe (Some p) (circuit s))"
  using assms
proof (cases rule: breaker_step.cases)
  case (record_done p out now opened b)
  then show ?thesis using assms(2,3)
    by (auto simp: record_outcome_def Let_def split: if_splits outcome.splits)
next
  case (abandon_done p)
  then show ?thesis using assms(2,3) by (auto simp: abandon_probe_def split: if_splits)
qed (auto simp: allow_def Let_def split: option.splits if_splits)

text \<open>
  C33: The half-open probe is never duplicated and never stranded: in every reachable state with a
  reserved probe exactly one permit in flight is that probe, and whichever way its holder settles it,
  by any outcome or by abandoning it, the reservation is released.
\<close>

theorem circuit_probe_accounted:
  assumes "breaker_reach s" and "active_probe_id (circuit s) = Some k"
  shows "filter (\<lambda>p. is_current_probe (Some p) (circuit s)) (flight s)
      = [\<lparr>permit_generation = generation (circuit s), probe_id = Some k\<rparr>]
    \<and> active_probe_id (snd (record_outcome out
          (Some \<lparr>permit_generation = generation (circuit s), probe_id = Some k\<rparr>) now (circuit s))) = None
    \<and> active_probe_id (abandon_probe
          \<lparr>permit_generation = generation (circuit s), probe_id = Some k\<rparr> (circuit s)) = None"
proof -
  have inv: "breaker_inv s" by (rule breaker.reach_inv [OF assms(1)])
  have "is_current_probe (Some p) (circuit s)
      \<longleftrightarrow> permit_generation p = generation (circuit s) \<and> probe_id p = Some k" for p
    using assms(2) by (auto simp: is_current_probe_def)
  then have "filter (\<lambda>p. is_current_probe (Some p) (circuit s)) (flight s)
      = [\<lparr>permit_generation = generation (circuit s), probe_id = Some k\<rparr>]"
    using inv assms(2) filter_one by (simp add: breaker_inv_def flight_ok_def)
  moreover have "opened_at (circuit s) \<noteq> None"
    using inv assms(2) by (auto simp: breaker_inv_def circuit_ok_def)
  ultimately show ?thesis using assms(2)
    by (auto simp: record_outcome_def abandon_probe_def is_current_probe_def Let_def split: outcome.splits)
qed

text \<open>
  Permits of an earlier generation, and probes that are no longer the reserved one, are inert:
  neither their outcome nor their abandonment changes the breaker or reports it opened.
\<close>

theorem stale_permits_are_inert:
  assumes "permit_generation p \<noteq> generation b \<or> probe_id p \<noteq> None \<and> probe_id p \<noteq> active_probe_id b"
  shows "record_outcome out (Some p) now b = (False, b) \<and> abandon_probe p b = b"
  using assms by (auto simp: record_outcome_def abandon_probe_def is_current_probe_def)

text \<open>\<open>n\<close> calls in a row, each allowed and then failing in the provider.\<close>

fun failing_calls :: "nat \<Rightarrow> rat \<Rightarrow> breaker \<Rightarrow> bool list \<times> breaker" where
  "failing_calls 0 now b = ([], b)"
| "failing_calls (Suc n) now b =
     (case allow now b of
        ((None, _), b) \<Rightarrow> ([], b)
      | ((Some p, _), b) \<Rightarrow>
          (case record_outcome InfrastructureFailure (Some p) now b of
             (opened, b) \<Rightarrow> (case failing_calls n now b of (r, b) \<Rightarrow> (opened # r, b))))"

lemma failing_calls_below:
  assumes "opened_at b = None" and "active_probe_id b = None" and "consecutive_failures b + int n < failure_threshold b"
  shows "failing_calls n now b
    = (replicate n False, b\<lparr>consecutive_failures := consecutive_failures b + int n\<rparr>)"
  using assms
proof (induction n arbitrary: b)
  case (Suc n)
  let ?b = "b\<lparr>consecutive_failures := consecutive_failures b + 1\<rparr>"
  have "failing_calls n now ?b = (replicate n False, ?b\<lparr>consecutive_failures := consecutive_failures ?b + int n\<rparr>)"
    by (rule Suc.IH) (use Suc.prems in simp_all)
  with Suc.prems show ?case
    by (simp add: allow_def record_outcome_def Let_def algebra_simps)
qed simp

lemma failing_calls_append:
  "failing_calls n now b = (replicate n False, b') \<Longrightarrow>
     failing_calls (n + m) now b = (case failing_calls m now b' of (r, c) \<Rightarrow> (replicate n False @ r, c))"
  by (induction n arbitrary: b) (auto split: prod.splits option.splits)

text \<open>
  A closed circuit without failures opens exactly at its threshold: of any run of provider
  failures the first \<^verbatim>\<open>failure_threshold - 1\<close> leave it closed, the next opens it, under a new generation,
  and from then on calls are refused until \<^verbatim>\<open>open_seconds\<close> have passed.
\<close>

theorem circuit_opens_at_threshold:
  assumes "failure_threshold b = int (Suc n)" and "consecutive_failures b = 0"
    and "opened_at b = None" and "active_probe_id b = None"
  shows "failing_calls (Suc n) now b
      = (replicate n False @ [True],
         b\<lparr>consecutive_failures := int (Suc n), generation := Suc (generation b), opened_at := Some now\<rparr>)
    \<and> (fst (fst (allow later (snd (failing_calls (Suc n) now b)))) = None
        \<longleftrightarrow> later < now + open_seconds b)"
proof -
  have "failing_calls n now b = (replicate n False, b\<lparr>consecutive_failures := int n\<rparr>)"
    using failing_calls_below [of b n now] assms by simp
  from failing_calls_append [OF this, of 1]
  have "failing_calls (Suc n) now b = (replicate n False @ [True],
      b\<lparr>consecutive_failures := int (Suc n), generation := Suc (generation b), opened_at := Some now\<rparr>)"
    using assms by (simp add: allow_def record_outcome_def Let_def)
  then show ?thesis using assms by (auto simp: allow_def Let_def)
qed

text \<open>
  An open circuit without a reserved probe recovers: it refuses with a positive delay in
  milliseconds while \<^verbatim>\<open>open_seconds\<close> have not passed, a call one millisecond after the advertised delay
  is granted, and once the time has passed the next call is granted as the probe, whose success closes
  the circuit with no failures counted.
\<close>

theorem circuit_recovers:
  assumes "opened_at b = Some t" and "active_probe_id b = None"
  shows "if now < t + open_seconds b
    then \<exists>ms. allow now b = ((None, Some ms), b) \<and> 1 \<le> ms
           \<and> fst (fst (allow (now + of_int (ms + 1) / 1000) b)) \<noteq> None
    else \<exists>p b'. allow now b = ((Some p, None), b') \<and> is_current_probe (Some p) b'
           \<and> (\<exists>c. record_outcome Success (Some p) now b' = (False, c)
                   \<and> opened_at c = None \<and> consecutive_failures c = 0 \<and> active_probe_id c = None)"
proof (cases "now < t + open_seconds b")
  case True
  let ?r = "open_seconds b - (now - t)"
  let ?ms = "max 1 (int_trunc (?r * 1000))"
  have r: "0 < ?r" using True by simp
  have "?r * 1000 < of_int (?ms + 1)"
    using r by (simp add: int_trunc_def) linarith
  then have "open_seconds b - (now + of_int (?ms + 1) / 1000 - t) < 0"
    by (simp add: field_simps)
  then have "fst (fst (allow (now + of_int (?ms + 1) / 1000) b)) \<noteq> None"
    using assms by (simp add: allow_def Let_def)
  moreover have "allow now b = ((None, Some ?ms), b)"
    using assms r by (simp add: allow_def Let_def)
  ultimately show ?thesis using True by (simp only: if_True) (intro exI conjI, auto)
next
  case False
  then show ?thesis using assms
    by (simp add: allow_def Let_def is_current_probe_def record_outcome_def)
qed

section \<open>Concrete runs\<close>

definition probing_breaker :: breaker where
  "probing_breaker = (new_breaker 1 1)\<lparr>consecutive_failures := 1, opened_at := Some 0, generation := 1,
     next_probe_id := 1, active_probe_id := Some 1\<rparr>"

definition probe_permit :: permit where
  "probe_permit = \<lparr>permit_generation = 1, probe_id = Some 1\<rparr>"

definition probing_system :: breaker_system where
  "probing_system = \<lparr>circuit = probing_breaker, flight = [probe_permit]\<rparr>"

lemma probing_system_reach: "breaker_reach probing_system"
proof -
  let ?s0 = "\<lparr>circuit = new_breaker 1 1, flight = []\<rparr>"
  let ?s1 = "\<lparr>circuit = new_breaker 1 1, flight = [\<lparr>permit_generation = 0, probe_id = None\<rparr>]\<rparr>"
  let ?s2 = "\<lparr>circuit = (new_breaker 1 1)\<lparr>consecutive_failures := 1, opened_at := Some 0, generation := 1\<rparr>,
    flight = []\<rparr>"
  have "breaker_reach ?s0"
    by (rule reach_init) (auto simp: breaker_init_def)
  moreover have "breaker_step ?s0 (Allow 0) ?s1"
    using allow_granted [of 0 ?s0] by (simp add: allow_def new_breaker_def)
  moreover have "breaker_step ?s1 (Record \<lparr>permit_generation = 0, probe_id = None\<rparr> InfrastructureFailure 0) ?s2"
    by (auto simp: record_step_iff record_outcome_def new_breaker_def Let_def)
  moreover have "breaker_step ?s2 (Allow 1) probing_system"
    using allow_granted [of 1 ?s2]
    by (simp add: allow_def new_breaker_def probing_system_def probing_breaker_def probe_permit_def)
  ultimately show ?thesis by (meson reach_step)
qed

theorem circuit_probe_accounted_witness:
  "filter (\<lambda>p. is_current_probe (Some p) (circuit probing_system)) (flight probing_system)
     = [\<lparr>permit_generation = generation (circuit probing_system), probe_id = Some 1\<rparr>]"
  using circuit_probe_accounted [OF probing_system_reach, of 1 Success 0]
  by (simp add: probing_system_def probing_breaker_def)

lemma probe_success_step:
  "breaker_step probing_system (Record probe_permit Success 1)
     \<lparr>circuit = probing_breaker\<lparr>active_probe_id := None, consecutive_failures := 0, opened_at := None\<rparr>,
      flight = []\<rparr>"
  by (auto simp: record_step_iff probing_system_def probing_breaker_def probe_permit_def
      record_outcome_def is_current_probe_def new_breaker_def Let_def)

theorem circuit_closes_only_by_probe_witness:
  "\<exists>p now. Record probe_permit Success 1 = Record p Success now \<and> p \<in> set (flight probing_system)
     \<and> is_current_probe (Some p) (circuit probing_system)"
  using circuit_closes_only_by_probe [OF probe_success_step]
  by (simp add: probing_system_def probing_breaker_def new_breaker_def)

theorem stale_permits_are_inert_witness:
  "record_outcome Success (Some \<lparr>permit_generation = 0, probe_id = None\<rparr>) 5 probing_breaker
     = (False, probing_breaker)"
  using stale_permits_are_inert [of "\<lparr>permit_generation = 0, probe_id = None\<rparr>" probing_breaker Success 5]
  by (simp add: probing_breaker_def)

theorem circuit_opens_at_threshold_witness:
  "fst (failing_calls 3 0 (new_breaker CIRCUIT_FAILURE_THRESHOLD CIRCUIT_OPEN_SECONDS)) = [False, False, True]"
  using circuit_opens_at_threshold [of "new_breaker 3 1" 2 0]
  by (simp add: new_breaker_def CIRCUIT_FAILURE_THRESHOLD_def CIRCUIT_OPEN_SECONDS_def numeral_2_eq_2
      numeral_3_eq_3)

theorem circuit_recovers_witness:
  "\<exists>ms. allow (1 / 2) (probing_breaker\<lparr>active_probe_id := None\<rparr>)
      = ((None, Some ms), probing_breaker\<lparr>active_probe_id := None\<rparr>) \<and> 1 \<le> ms"
  using circuit_recovers [of "probing_breaker\<lparr>active_probe_id := None\<rparr>" 0 "1 / 2"]
  by (auto simp: probing_breaker_def new_breaker_def)
end
