(* ===== verification/Worker_Pool.thy ===== *)
theory Worker_Pool
  imports Errors Step_Systems "HOL-Library.Multiset"
begin

text \<open>
  \<^verbatim>\<open>worker_pool._WorkerPool\<close>: the bounded pool of reusable worker processes. As with admission, every
  method's passage under the condition's lock is one step. What the operating system says of a worker,
  \<^verbatim>\<open>is_running\<close> and the resident memory of its process, is an observation passed to the step that
  makes it. Starting and terminating a process happen outside the lock: a start in progress is a
  reservation, a terminated worker is simply no longer held by anyone.
\<close>

section \<open>State\<close>

record worker =
  wid :: nat
  requests_completed :: int
  unit_registry_loaded :: bool
  pool_generation :: int

record observation =
  is_running :: "worker \<Rightarrow> bool"
  resident_bytes :: "worker \<Rightarrow> int option"

record pool =
  pool_maximum :: int
  available :: "worker list"
  total :: int
  pool_gen :: int
  prewarm_generation :: "int option"
  prewarm_cancel :: "int option"
  prewarm_thread :: "nat option"
  desired_warm :: int

definition MAX_REUSABLE_WORKERS :: int where "MAX_REUSABLE_WORKERS = 4"

definition MAX_REQUESTS_PER_WORKER :: int where "MAX_REQUESTS_PER_WORKER = 5000"

definition WORKER_RECYCLE_RSS_MB :: int where "WORKER_RECYCLE_RSS_MB = 768"

definition new_pool :: "int \<Rightarrow> pool" where
  "new_pool maximum =
     \<lparr>pool_maximum = maximum, available = [], total = 0, pool_gen = 0, prewarm_generation = None,
      prewarm_cancel = None, prewarm_thread = None, desired_warm = 1\<rparr>"

section \<open>Taking a worker\<close>

fun pop_first :: "('a \<Rightarrow> bool) \<Rightarrow> 'a list \<Rightarrow> ('a \<times> 'a list) option" where
  "pop_first P [] = None"
| "pop_first P (x # xs) =
     (if P x then Some (x, xs) else map_option (\<lambda>(y, ys). (y, x # ys)) (pop_first P xs))"

text \<open>
  \<^verbatim>\<open>_pop_available_worker\<close> scans from the end of the list; \<open>None\<close> is the empty list, on which the code
  never calls it.
\<close>

definition pop_available_worker :: "bool \<Rightarrow> worker list \<Rightarrow> (worker \<times> worker list) option" where
  "pop_available_worker prefer_unit_registries ws =
     map_option (\<lambda>(w, r). (w, rev r))
       (case (if prefer_unit_registries then pop_first unit_registry_loaded (rev ws) else None) of
          Some r \<Rightarrow> Some r
        | None \<Rightarrow> pop_first (\<lambda>_. True) (rev ws))"

lemma pop_first_length: "pop_first P xs = Some (y, ys) \<Longrightarrow> length xs = Suc (length ys)"
  by (induction xs arbitrary: ys) (auto split: if_splits)

lemma pop_available_length: "pop_available_worker b ws = Some (w, rest) \<Longrightarrow> length ws = Suc (length rest)"
  by (auto simp: pop_available_worker_def dest!: pop_first_length split: option.splits if_splits)

definition should_replenish :: "int \<Rightarrow> pool \<Rightarrow> bool" where
  "should_replenish generation p \<longleftrightarrow>
     generation = pool_gen p \<and> total p < desired_warm p \<and> prewarm_generation p = None"

definition usable :: "observation \<Rightarrow> int \<Rightarrow> worker \<Rightarrow> bool" where
  "usable obs memory_bytes w \<longleftrightarrow>
     is_running obs w \<and> (case resident_bytes obs w of None \<Rightarrow> True | Some r \<Rightarrow> r \<le> memory_bytes)"

text \<open>The inner loop of \<^verbatim>\<open>acquire\<close>: the selected worker and the discarded ones.\<close>

function select_worker ::
  "bool \<Rightarrow> (worker \<Rightarrow> bool) \<Rightarrow> pool \<Rightarrow> (worker option \<times> worker list) \<times> pool" where
  "select_worker prefer ok p =
     (case pop_available_worker prefer (available p) of
        None \<Rightarrow> ((None, []), p)
      | Some (w, rest) \<Rightarrow>
          (if ok w then ((Some w, []), p\<lparr>available := rest\<rparr>)
           else
             (case select_worker prefer ok (p\<lparr>available := rest, total := total p - 1\<rparr>) of
                ((r, ds), p') \<Rightarrow> ((r, w # ds), p'))))"
  by pat_completeness auto
termination
  by (relation "measure (\<lambda>(_, _, p). length (available p))") (auto dest: pop_available_length)

declare select_worker.simps [simp del]

datatype acquire_outcome =
    AcquireCancelled
  | AcquireSelected worker bool
  | AcquireTimeout
  | AcquireWait
  | AcquireStart int

text \<open>
  One pass of the outer loop of \<^verbatim>\<open>acquire\<close> under the lock: \<open>expired\<close> is \<^verbatim>\<open>remaining <= 0\<close>. The flag of
  a selection is \<^verbatim>\<open>under_warm\<close>, a start carries the generation it is made for.
\<close>

definition acquire_pass ::
  "bool \<Rightarrow> bool \<Rightarrow> (worker \<Rightarrow> bool) \<Rightarrow> bool \<Rightarrow> pool \<Rightarrow> (acquire_outcome \<times> worker list) \<times> pool" where
  "acquire_pass cancelled prefer ok expired p =
     (if cancelled then ((AcquireCancelled, []), p)
      else
        (case select_worker prefer ok p of
           ((Some w, ds), p) \<Rightarrow> ((AcquireSelected w (should_replenish (pool_gen p) p), ds), p)
         | ((None, ds), p) \<Rightarrow>
             if prewarm_generation p = Some (pool_gen p) then
               ((if expired then AcquireTimeout else AcquireWait, ds), p)
             else if total p < pool_maximum p then
               ((AcquireStart (pool_gen p), ds),
                p\<lparr>total := total p + 1, desired_warm := max (desired_warm p) (total p + 1)\<rparr>)
             else ((if expired then AcquireTimeout else AcquireWait, ds), p)))"

text \<open>\<^verbatim>\<open>acquire\<close> after \<^verbatim>\<open>_start_worker\<close>: the reservation becomes a worker or is returned.\<close>

definition start_succeeded :: "int \<Rightarrow> worker \<Rightarrow> worker" where
  "start_succeeded generation w = w\<lparr>pool_generation := generation\<rparr>"

definition start_failed :: "pool \<Rightarrow> pool" where
  "start_failed p = p\<lparr>total := total p - 1\<rparr>"

section \<open>Returning a worker\<close>

text \<open>\<^verbatim>\<open>release\<close>: the result says whether the worker is terminated and whether a prewarm follows.\<close>

definition release_worker :: "observation \<Rightarrow> worker \<Rightarrow> bool \<Rightarrow> pool \<Rightarrow> (bool \<times> bool) \<times> pool" where
  "release_worker obs w reusable p =
     (let (w, reusable) =
        (if reusable then
           (let w = w\<lparr>requests_completed := requests_completed w + 1\<rparr>;
                recycle = requests_completed w \<ge> MAX_REQUESTS_PER_WORKER
                  \<or> (case resident_bytes obs w of None \<Rightarrow> False
                     | Some r \<Rightarrow> r > WORKER_RECYCLE_RSS_MB * 1024 * 1024)
            in (w, \<not> recycle))
         else (w, False))
      in
      if reusable \<and> is_running obs w \<and> pool_generation w = pool_gen p
      then ((False, False), p\<lparr>available := available p @ [w]\<rparr>)
      else
        (let p = p\<lparr>total := total p - 1\<rparr>
         in ((True, should_replenish (pool_generation w) p), p)))"

section \<open>Prewarming and shutdown\<close>

definition reserve_prewarm :: "pool \<Rightarrow> int option \<times> pool" where
  "reserve_prewarm p =
     (if total p \<ge> desired_warm p \<or> prewarm_generation p \<noteq> None \<or> prewarm_thread p \<noteq> None
      then (None, p)
      else (Some (pool_gen p),
            p\<lparr>total := total p + 1, prewarm_generation := Some (pool_gen p),
              prewarm_cancel := Some (pool_gen p)\<rparr>))"

definition prewarm_cancel_event :: "int \<Rightarrow> pool \<Rightarrow> int option" where
  "prewarm_cancel_event generation p =
     (if prewarm_generation p \<noteq> Some generation then None else prewarm_cancel p)"

text \<open>
  \<^verbatim>\<open>start_prewarm_thread\<close>: \<open>spawns\<close> says whether \<^verbatim>\<open>thread.start()\<close> succeeds; when the system has no
  thread left it raises, after the field has been assigned.
\<close>

definition start_prewarm_thread :: "nat \<Rightarrow> int \<Rightarrow> bool \<Rightarrow> pool \<Rightarrow> (pyexn + bool) \<times> pool" where
  "start_prewarm_thread thread generation spawns p =
     (if prewarm_generation p \<noteq> Some generation \<or> prewarm_thread p \<noteq> None then (Inr False, p)
      else
        (if spawns then Inr True else Inl (PyExn (u ''RuntimeError'') (u ''can't start new thread'')),
         p\<lparr>prewarm_thread := Some thread\<rparr>))"

definition owns_prewarm :: "int \<Rightarrow> pool \<Rightarrow> bool" where
  "owns_prewarm generation p \<longleftrightarrow> prewarm_generation p = Some generation"

text \<open>The first critical section of \<^verbatim>\<open>finish_prewarm\<close>; the result is whether the worker is terminated.\<close>

definition finish_prewarm :: "observation \<Rightarrow> worker option \<Rightarrow> int \<Rightarrow> pool \<Rightarrow> bool \<times> pool" where
  "finish_prewarm obs worker generation p =
     (let owns_reservation = prewarm_generation p = Some generation;
          q = (if owns_reservation then p\<lparr>prewarm_generation := None, prewarm_cancel := None\<rparr> else p)
      in case worker of
           Some w \<Rightarrow>
             (if owns_reservation \<and> generation = pool_gen q \<and> is_running obs w
              then (False, q\<lparr>available := available q @ [w\<lparr>pool_generation := generation\<rparr>]\<rparr>)
              else (True, if owns_reservation then q\<lparr>total := total q - 1\<rparr> else q))
         | None \<Rightarrow> (False, if owns_reservation then q\<lparr>total := total q - 1\<rparr> else q))"

text \<open>Its second critical section, run by thread \<open>thread\<close>.\<close>

definition finish_prewarm_thread :: "nat \<Rightarrow> pool \<Rightarrow> pool" where
  "finish_prewarm_thread thread p =
     (if prewarm_thread p = Some thread then p\<lparr>prewarm_thread := None\<rparr> else p)"

definition shutdown_pool :: "pool \<Rightarrow> worker list \<times> pool" where
  "shutdown_pool p =
     (available p,
      p\<lparr>pool_gen := pool_gen p + 1, available := [],
        total := total p - int (length (available p)) - (if prewarm_generation p \<noteq> None then 1 else 0),
        prewarm_generation := None, prewarm_cancel := None, desired_warm := 1\<rparr>)"

section \<open>The pool and its callers\<close>

text \<open>
  Beside the pool: the workers handed out, the starts in progress with their generation, the calls of
  \<^verbatim>\<open>warm_worker_pool\<close> between their reservation and the start of the thread, the prewarm threads that
  run, and those that have left the first critical section of \<^verbatim>\<open>finish_prewarm\<close>.
\<close>

record pool_system =
  the_pool :: pool
  leased :: "worker list"
  starting :: "int list"
  reserved :: "int list"
  warming :: "(nat \<times> int) list"
  ending :: "nat list"
  next_wid :: nat
  next_thread :: nat

definition fresh_worker :: "pool_system \<Rightarrow> worker" where
  "fresh_worker s =
     \<lparr>wid = next_wid s, requests_completed = 0, unit_registry_loaded = False, pool_generation = - 1\<rparr>"

datatype pool_event =
    Acquire bool bool observation int bool
  | StartOk int
  | StartFail int
  | LoadRegistry worker
  | ReleaseWorker observation worker bool
  | ReservePrewarm
  | DropPrewarm int
  | StartThread int bool
  | FinishPrewarm observation nat int bool
  | FinishThread nat
  | Shutdown

fun after_acquire :: "acquire_outcome \<Rightarrow> pool_system \<Rightarrow> pool_system" where
  "after_acquire (AcquireSelected w under_warm) s = s\<lparr>leased := w # leased s\<rparr>"
| "after_acquire (AcquireStart g) s = s\<lparr>starting := g # starting s\<rparr>"
| "after_acquire _ s = s"

inductive pool_step :: "pool_system \<Rightarrow> pool_event \<Rightarrow> pool_system \<Rightarrow> bool" where
  acquire_passed:
    "acquire_pass c pf (usable obs m) ex (the_pool s) = ((r, ds), p) \<Longrightarrow>
     pool_step s (Acquire c pf obs m ex) (after_acquire r (s\<lparr>the_pool := p\<rparr>))"
| start_ok:
    "g \<in> set (starting s) \<Longrightarrow>
     pool_step s (StartOk g)
       (s\<lparr>starting := remove1 g (starting s), leased := start_succeeded g (fresh_worker s) # leased s,
         next_wid := Suc (next_wid s)\<rparr>)"
| start_fail:
    "g \<in> set (starting s) \<Longrightarrow>
     pool_step s (StartFail g)
       (s\<lparr>starting := remove1 g (starting s), the_pool := start_failed (the_pool s)\<rparr>)"
| registry_loaded:
    "w \<in> set (leased s) \<Longrightarrow>
     pool_step s (LoadRegistry w)
       (s\<lparr>leased := w\<lparr>unit_registry_loaded := True\<rparr> # remove1 w (leased s)\<rparr>)"
| released:
    "w \<in> set (leased s) \<Longrightarrow> release_worker obs w reusable (the_pool s) = (r, p) \<Longrightarrow>
     pool_step s (ReleaseWorker obs w reusable)
       (s\<lparr>leased := remove1 w (leased s), the_pool := p\<rparr>)"
| prewarm_reserved:
    "reserve_prewarm (the_pool s) = (Some g, p) \<Longrightarrow>
     pool_step s ReservePrewarm (s\<lparr>the_pool := p, reserved := g # reserved s\<rparr>)"
| prewarm_dropped:
    "g \<in> set (reserved s) \<Longrightarrow> prewarm_cancel_event g (the_pool s) = None \<Longrightarrow>
     pool_step s (DropPrewarm g) (s\<lparr>reserved := remove1 g (reserved s)\<rparr>)"
| thread_started:
    "g \<in> set (reserved s) \<Longrightarrow> start_prewarm_thread (next_thread s) g spawns (the_pool s) = (r, p) \<Longrightarrow>
     pool_step s (StartThread g spawns)
       (s\<lparr>the_pool := p, reserved := remove1 g (reserved s), next_thread := Suc (next_thread s),
         warming := (if r = Inr True then (next_thread s, g) # warming s else warming s)\<rparr>)"
| prewarm_finished:
    "(t, g) \<in> set (warming s) \<Longrightarrow>
     finish_prewarm obs (if built then Some (fresh_worker s) else None) g (the_pool s) = (r, p) \<Longrightarrow>
     pool_step s (FinishPrewarm obs t g built)
       (s\<lparr>the_pool := p, warming := remove1 (t, g) (warming s), ending := t # ending s,
         next_wid := Suc (next_wid s)\<rparr>)"
| thread_finished:
    "t \<in> set (ending s) \<Longrightarrow>
     pool_step s (FinishThread t)
       (s\<lparr>the_pool := finish_prewarm_thread t (the_pool s), ending := remove1 t (ending s)\<rparr>)"
| pool_shutdown:
    "shutdown_pool (the_pool s) = (ws, p) \<Longrightarrow> pool_step s Shutdown (s\<lparr>the_pool := p\<rparr>)"

definition pool_init :: "pool_system \<Rightarrow> bool" where
  "pool_init s \<longleftrightarrow>
     (\<exists>maximum. 1 \<le> maximum \<and> the_pool s = new_pool maximum)
     \<and> leased s = [] \<and> starting s = [] \<and> reserved s = [] \<and> warming s = [] \<and> ending s = []"

abbreviation pool_reach :: "pool_system \<Rightarrow> bool" where
  "pool_reach \<equiv> reach pool_init pool_step"

section \<open>The invariant\<close>

definition slots :: "pool_system \<Rightarrow> int" where
  "slots s =
     int (length (available (the_pool s))) + int (length (leased s)) + int (length (starting s))
     + (if prewarm_generation (the_pool s) = None then 0 else 1)"

definition pool_ok :: "pool \<Rightarrow> bool" where
  "pool_ok p \<longleftrightarrow>
     1 \<le> pool_maximum p \<and> total p \<le> pool_maximum p
     \<and> 1 \<le> desired_warm p \<and> desired_warm p \<le> pool_maximum p
     \<and> (\<forall>w \<in> set (available p). pool_generation w = pool_gen p)
     \<and> (prewarm_generation p = None \<or> prewarm_generation p = Some (pool_gen p))
     \<and> prewarm_cancel p = prewarm_generation p"

definition workers_ok :: "pool_system \<Rightarrow> bool" where
  "workers_ok s \<longleftrightarrow>
     distinct (map wid (available (the_pool s) @ leased s))
     \<and> (\<forall>w \<in> set (available (the_pool s) @ leased s). wid w < next_wid s)"

definition pool_inv :: "pool_system \<Rightarrow> bool" where
  "pool_inv s \<longleftrightarrow> pool_ok (the_pool s) \<and> total (the_pool s) = slots s \<and> workers_ok s"

lemma pop_first_mset: "pop_first P xs = Some (y, ys) \<Longrightarrow> mset xs = add_mset y (mset ys)"
  by (induction xs arbitrary: ys) (auto split: if_splits)

lemma pop_available_mset:
  "pop_available_worker b ws = Some (w, rest) \<Longrightarrow> mset ws = add_mset w (mset rest)"
  by (auto simp: pop_available_worker_def dest!: pop_first_mset split: option.splits if_splits)

lemma pop_first_None: "pop_first P xs = None \<longleftrightarrow> (\<forall>x \<in> set xs. \<not> P x)"
  by (induction xs) auto

lemma pop_available_None: "pop_available_worker b ws = None \<longleftrightarrow> ws = []"
  by (auto simp: pop_available_worker_def pop_first_None split: option.splits)

lemma select_worker_spec:
  assumes "select_worker pf ok p = ((r, ds), p')"
  shows "mset (available p) = mset (available p') + mset ds + mset (case r of None \<Rightarrow> [] | Some w \<Rightarrow> [w])"
    and "p' = p\<lparr>available := available p', total := total p - int (length ds)\<rparr>"
    and "\<forall>d \<in> set ds. \<not> ok d"
    and "case r of None \<Rightarrow> available p' = [] | Some w \<Rightarrow> ok w"
proof -
  have "mset (available p) = mset (available p') + mset ds + mset (case r of None \<Rightarrow> [] | Some w \<Rightarrow> [w])
    \<and> p' = p\<lparr>available := available p', total := total p - int (length ds)\<rparr>
    \<and> (\<forall>d \<in> set ds. \<not> ok d) \<and> (case r of None \<Rightarrow> available p' = [] | Some w \<Rightarrow> ok w)"
    using assms
  proof (induction pf ok p arbitrary: r ds p' rule: select_worker.induct)
    case (1 pf ok p)
    show ?case
    proof (cases "pop_available_worker pf (available p)")
      case None
      with 1(2) show ?thesis by (auto simp: pop_available_None select_worker.simps [of pf ok p])
    next
      case (Some x)
      obtain w rest where x: "x = (w, rest)" by (cases x)
      note m = pop_available_mset [OF Some [unfolded x]]
      show ?thesis
      proof (cases "ok w")
        case True
        with Some x 1(2) m show ?thesis by (auto simp: select_worker.simps [of pf ok p])
      next
        case False
        let ?q = "p\<lparr>available := rest, total := total p - 1\<rparr>"
        obtain ds' where ds: "select_worker pf ok ?q = ((r, ds'), p')" "ds = w # ds'"
          using False Some x 1(2) by (auto simp: select_worker.simps [of pf ok p] split: prod.splits)
        from 1(1) [OF Some [unfolded x] refl False ds(1)] show ?thesis
          using m ds(2) False by (auto simp: algebra_simps)
      qed
    qed
  qed
  then show "mset (available p) = mset (available p') + mset ds + mset (case r of None \<Rightarrow> [] | Some w \<Rightarrow> [w])"
    "p' = p\<lparr>available := available p', total := total p - int (length ds)\<rparr>"
    "\<forall>d \<in> set ds. \<not> ok d" "case r of None \<Rightarrow> available p' = [] | Some w \<Rightarrow> ok w"
    by blast+
qed

lemma acquire_pass_cases:
  assumes "acquire_pass c pf ok ex p = ((r, ds), p')"
  obtains "r = AcquireCancelled" "ds = []" "p' = p"
  | w where "select_worker pf ok p = ((Some w, ds), p')" "r = AcquireSelected w (should_replenish (pool_gen p') p')"
  | "select_worker pf ok p = ((None, ds), p')" "r = AcquireTimeout \<or> r = AcquireWait"
  | q where "select_worker pf ok p = ((None, ds), q)" "r = AcquireStart (pool_gen q)"
      "prewarm_generation q \<noteq> Some (pool_gen q)" "total q < pool_maximum q"
      "p' = q\<lparr>total := total q + 1, desired_warm := max (desired_warm q) (total q + 1)\<rparr>"
proof (cases c)
  case True
  with assms that(1) show ?thesis by (simp add: acquire_pass_def)
next
  case False
  obtain x q where "select_worker pf ok p = ((x, ds), q)" using assms False
    by (auto simp: acquire_pass_def split: prod.splits option.splits if_splits)
  with assms False that(2-4) show ?thesis
    by (cases x) (auto simp: acquire_pass_def split: if_splits)
qed

lemma distinct_submset:
  assumes "distinct xs" "mset ys \<subseteq># mset xs" shows "distinct ys"
proof -
  obtain zs where "mset xs = mset (ys @ zs)"
    using assms(2) by (metis ex_mset mset_append mset_subset_eq_exists_conv)
  then have "distinct (ys @ zs)" using assms(1) by (metis mset_eq_imp_distinct_iff)
  then show ?thesis by simp
qed

lemma workers_ok_sub:
  assumes "workers_ok s" "mset (available (the_pool s') @ leased s') \<subseteq># mset (available (the_pool s) @ leased s)"
    "next_wid s \<le> next_wid s'"
  shows "workers_ok s'"
proof -
  have "mset (map wid (available (the_pool s') @ leased s')) \<subseteq># mset (map wid (available (the_pool s) @ leased s))"
    using image_mset_subseteq_mono [OF assms(2), of wid] by simp
  moreover have "set (available (the_pool s') @ leased s') \<subseteq> set (available (the_pool s) @ leased s)"
    using set_mset_mono [OF assms(2)] by simp
  ultimately show ?thesis using assms(1,3) distinct_submset
    unfolding workers_ok_def by (meson le_trans less_le_trans subsetD)
qed

lemma select_worker_pool_ok:
  assumes "select_worker pf ok p = ((r, ds), q)" and "pool_ok p"
  shows "pool_ok q"
proof -
  note sp = select_worker_spec [OF assms(1)]
  have "mset (available q) \<subseteq># mset (available p)"
    unfolding sp(1) by (simp add: add.assoc)
  then have "set (available q) \<subseteq> set (available p)"
    using set_mset_mono by fastforce
  moreover have "total q \<le> total p" by (subst sp(2)) simp
  ultimately show ?thesis
    using assms(2) by (subst sp(2)) (auto simp: pool_ok_def)
qed

lemma acquire_keeps:
  assumes inv: "pool_inv s" and p: "acquire_pass c pf ok ex (the_pool s) = ((r, ds), p)"
  shows "pool_inv (after_acquire r (s\<lparr>the_pool := p\<rparr>))"
  using p
proof (cases rule: acquire_pass_cases)
  case 1
  then show ?thesis using inv by simp
next
  case (2 w)
  note sp = select_worker_spec [OF 2(1)]
  have l: "length (available (the_pool s)) = length (available p) + length ds + 1"
    using arg_cong [OF sp(1), of size] by simp
  have "total p = total (the_pool s) - int (length ds)" "prewarm_generation p = prewarm_generation (the_pool s)"
    by (subst sp(2), simp)+
  moreover have "mset (available p @ w # leased s) \<subseteq># mset (available (the_pool s) @ leased s)"
    using sp(1) by (simp add: subset_mset.add_increasing)
  ultimately show ?thesis
    using inv l select_worker_pool_ok [OF 2(1)] workers_ok_sub [of s "after_acquire r (s\<lparr>the_pool := p\<rparr>)"] 2(2)
    by (simp add: pool_inv_def slots_def)
next
  case 3
  note sp = select_worker_spec [OF 3(1)]
  have l: "length (available (the_pool s)) = length (available p) + length ds"
    using arg_cong [OF sp(1), of size] by simp
  have "total p = total (the_pool s) - int (length ds)" "prewarm_generation p = prewarm_generation (the_pool s)"
    by (subst sp(2), simp)+
  moreover have "mset (available p @ leased s) \<subseteq># mset (available (the_pool s) @ leased s)"
    using sp(1) by (simp add: subset_mset.add_increasing)
  ultimately show ?thesis
    using inv l select_worker_pool_ok [OF 3(1)] workers_ok_sub [of s "s\<lparr>the_pool := p\<rparr>"] 3(2)
    by (auto simp add: pool_inv_def slots_def)
next
  case (4 q)
  note sp = select_worker_spec [OF 4(1)]
  have l: "length (available (the_pool s)) = length ds" and q: "available q = []"
    using arg_cong [OF sp(1), of size] sp(4) by simp_all
  have "total q = total (the_pool s) - int (length ds)" "prewarm_generation q = prewarm_generation (the_pool s)"
    by (subst sp(2), simp)+
  moreover have "mset (leased s) \<subseteq># mset (available (the_pool s) @ leased s)"
    by simp
  moreover have "pool_ok q" using inv select_worker_pool_ok [OF 4(1)] by (simp add: pool_inv_def)
  then have "pool_ok p" using 4(3-5) by (auto simp: pool_ok_def)
  ultimately show ?thesis
    using inv l q workers_ok_sub [of s "after_acquire r (s\<lparr>the_pool := p\<rparr>)"] 4(2-5)
    by (simp add: pool_inv_def slots_def)
qed

lemma remove1_length: "x \<in> set xs \<Longrightarrow> int (length (remove1 x xs)) = int (length xs) - 1"
  by (cases "length xs") (auto simp: length_remove1)

lemma fresh_keeps_workers:
  "workers_ok s \<Longrightarrow> wid w = next_wid s \<Longrightarrow> next_wid s' = Suc (next_wid s) \<Longrightarrow>
     mset (available (the_pool s') @ leased s') = add_mset w (mset (available (the_pool s) @ leased s)) \<Longrightarrow>
     workers_ok s'"
proof -
  assume a: "workers_ok s" "wid w = next_wid s" "next_wid s' = Suc (next_wid s)"
    "mset (available (the_pool s') @ leased s') = add_mset w (mset (available (the_pool s) @ leased s))"
  let ?xs = "available (the_pool s') @ leased s'" and ?ys = "w # available (the_pool s) @ leased s"
  have m: "mset ?xs = mset ?ys" using a(4) by simp
  have "distinct (map wid ?ys)" using a(1,2) by (auto simp: workers_ok_def)
  moreover have "mset (map wid ?xs) = mset (map wid ?ys)" using m by (metis mset_map)
  ultimately have "distinct (map wid ?xs)" by (metis mset_eq_imp_distinct_iff)
  moreover have "\<forall>v \<in> set ?xs. wid v < next_wid s'"
    using a(1-3) mset_eq_setD [OF m] by (auto simp: workers_ok_def less_SucI)
  ultimately show ?thesis by (simp add: workers_ok_def)
qed

lemma start_ok_keeps:
  assumes "pool_inv s" "g \<in> set (starting s)"
  shows "pool_inv (s\<lparr>starting := remove1 g (starting s),
      leased := start_succeeded g (fresh_worker s) # leased s, next_wid := Suc (next_wid s)\<rparr>)"
  using assms fresh_keeps_workers [of s "start_succeeded g (fresh_worker s)"]
  by (simp add: pool_inv_def slots_def remove1_length start_succeeded_def fresh_worker_def)

lemma start_fail_keeps:
  assumes "pool_inv s" "g \<in> set (starting s)"
  shows "pool_inv (s\<lparr>starting := remove1 g (starting s), the_pool := start_failed (the_pool s)\<rparr>)"
  using assms
  by (simp add: pool_inv_def slots_def remove1_length start_failed_def pool_ok_def workers_ok_def)

lemma load_keeps:
  assumes "pool_inv s" "w \<in> set (leased s)"
  shows "pool_inv (s\<lparr>leased := w\<lparr>unit_registry_loaded := True\<rparr> # remove1 w (leased s)\<rparr>)"
proof -
  let ?s = "s\<lparr>leased := w\<lparr>unit_registry_loaded := True\<rparr> # remove1 w (leased s)\<rparr>"
  have "mset (map wid (leased ?s)) = mset (map wid (leased s))"
    using assms(2) by (simp add: image_mset_Diff)
  then have "mset (map wid (available (the_pool s) @ leased ?s)) = mset (map wid (available (the_pool s) @ leased s))"
    by simp
  then have "distinct (map wid (available (the_pool s) @ leased ?s)) = distinct (map wid (available (the_pool s) @ leased s))"
    by (rule mset_eq_imp_distinct_iff)
  moreover have "set (remove1 w (leased s)) \<subseteq> set (leased s)" by (rule set_remove1_subset)
  ultimately show ?thesis using assms
    by (auto simp: pool_inv_def slots_def remove1_length workers_ok_def)
qed

lemma release_keeps_pool:
  assumes "pool_inv s" "w \<in> set (leased s)" "release_worker obs w reusable (the_pool s) = (r, p)"
  shows "pool_inv (s\<lparr>leased := remove1 w (leased s), the_pool := p\<rparr>)"
proof -
  from assms(3) consider
    v where "p = (the_pool s)\<lparr>available := available (the_pool s) @ [v]\<rparr>"
      "v = w\<lparr>requests_completed := requests_completed v\<rparr>" "pool_generation v = pool_gen (the_pool s)"
    | "p = (the_pool s)\<lparr>total := total (the_pool s) - 1\<rparr>"
    by (auto simp: release_worker_def Let_def split: if_splits)
  then show ?thesis
  proof cases
    case (1 v)
    have "wid v = wid w" using 1(2) by (metis worker.select_convs(1) worker.simps(7) worker.surjective worker.update_convs(2))
    have m: "mset (map wid (available p @ remove1 w (leased s))) = mset (map wid (available (the_pool s) @ leased s))"
      using assms(2) 1(1) \<open>wid v = wid w\<close> by (simp add: image_mset_Diff)
    then have "distinct (map wid (available p @ remove1 w (leased s)))"
      using assms(1) by (metis mset_eq_imp_distinct_iff pool_inv_def workers_ok_def)
    moreover have "set (remove1 w (leased s)) \<subseteq> set (leased s)" by (rule set_remove1_subset)
    ultimately show ?thesis using assms(1,2) 1 \<open>wid v = wid w\<close>
      by (auto simp: pool_inv_def slots_def remove1_length workers_ok_def pool_ok_def)
  next
    case 2
    have "mset (available p @ remove1 w (leased s)) \<subseteq># mset (available (the_pool s) @ leased s)"
      using 2 by simp
    then show ?thesis using assms(1,2) 2 workers_ok_sub [of s "s\<lparr>leased := remove1 w (leased s), the_pool := p\<rparr>"]
      by (simp add: pool_inv_def slots_def remove1_length pool_ok_def)
  qed
qed

lemma workers_ok_same:
  "workers_ok s \<Longrightarrow> available (the_pool s') = available (the_pool s) \<Longrightarrow> leased s' = leased s \<Longrightarrow>
     next_wid s' = next_wid s \<Longrightarrow> workers_ok s'"
  by (simp add: workers_ok_def)

lemma reserve_keeps:
  assumes "pool_inv s" "reserve_prewarm (the_pool s) = (Some g, p)"
  shows "pool_inv (s\<lparr>the_pool := p, reserved := g # reserved s\<rparr>)"
  using assms
  by (auto simp: reserve_prewarm_def pool_inv_def slots_def pool_ok_def elim: workers_ok_same split: if_splits)

lemma drop_keeps: "pool_inv s \<Longrightarrow> pool_inv (s\<lparr>reserved := r\<rparr>)"
  by (auto simp: pool_inv_def slots_def elim: workers_ok_same)

lemma thread_keeps:
  assumes "pool_inv s" "start_prewarm_thread t g spawns (the_pool s) = (r, p)"
  shows "pool_inv (s\<lparr>the_pool := p, reserved := rs, next_thread := n, warming := ws\<rparr>)"
  using assms
  by (auto simp: start_prewarm_thread_def pool_inv_def slots_def pool_ok_def elim: workers_ok_same split: if_splits)

lemma finish_keeps:
  assumes "pool_inv s"
    "finish_prewarm obs (if built then Some (fresh_worker s) else None) g (the_pool s) = (r, p)"
  shows "pool_inv (s\<lparr>the_pool := p, warming := ws, ending := es, next_wid := Suc (next_wid s)\<rparr>)"
proof -
  let ?s = "s\<lparr>the_pool := p, warming := ws, ending := es, next_wid := Suc (next_wid s)\<rparr>"
  from assms(2) consider
    v where "p = (the_pool s)\<lparr>prewarm_generation := None, prewarm_cancel := None,
        available := available (the_pool s) @ [v]\<rparr>"
      "wid v = next_wid s" "pool_generation v = pool_gen (the_pool s)" "prewarm_generation (the_pool s) \<noteq> None"
    | "p = (the_pool s)\<lparr>prewarm_generation := None, prewarm_cancel := None, total := total (the_pool s) - 1\<rparr>"
      "prewarm_generation (the_pool s) \<noteq> None"
    | "p = the_pool s"
    by (auto simp: finish_prewarm_def Let_def fresh_worker_def split: if_splits)
  then show ?thesis
  proof cases
    case (1 v)
    then show ?thesis using assms(1) fresh_keeps_workers [of s v ?s]
      by (auto simp: pool_inv_def slots_def pool_ok_def)
  next
    case 2
    then show ?thesis using assms(1) workers_ok_sub [of s ?s]
      by (auto simp: pool_inv_def slots_def pool_ok_def)
  next
    case 3
    then show ?thesis using assms(1) workers_ok_sub [of s ?s]
      by (auto simp: pool_inv_def slots_def)
  qed
qed

lemma finish_thread_keeps:
  "pool_inv s \<Longrightarrow> pool_inv (s\<lparr>the_pool := finish_prewarm_thread t (the_pool s), ending := es\<rparr>)"
  by (auto simp: finish_prewarm_thread_def pool_inv_def slots_def pool_ok_def elim: workers_ok_same)

lemma shutdown_keeps:
  assumes "pool_inv s" "shutdown_pool (the_pool s) = (ws, p)"
  shows "pool_inv (s\<lparr>the_pool := p\<rparr>)"
  using assms workers_ok_sub [of s "s\<lparr>the_pool := p\<rparr>"]
  by (auto simp: shutdown_pool_def pool_inv_def slots_def pool_ok_def)

lemma pool_step_inv: "pool_inv s \<Longrightarrow> pool_step s e s' \<Longrightarrow> pool_inv s'"
  by (erule pool_step.cases)
    (simp_all add: acquire_keeps start_ok_keeps start_fail_keeps load_keeps release_keeps_pool
      reserve_keeps drop_keeps thread_keeps finish_keeps finish_thread_keeps shutdown_keeps)

lemma pool_init_inv: "pool_init s \<Longrightarrow> pool_inv s"
  by (auto simp: pool_init_def pool_inv_def slots_def pool_ok_def workers_ok_def new_pool_def)

interpretation pool: guarded_system pool_init pool_step pool_inv
  by unfold_locales (auto intro: pool_init_inv pool_step_inv)
section \<open>What the pool promises\<close>

text \<open>
  C6: The pool never loses count. In every reachable state, in any interleaving of acquisitions, starts,
  releases, prewarming and shutdowns, \<^verbatim>\<open>total\<close> is exactly the number of idle workers, workers handed
  out, starts in progress and the reserved prewarm slot; it never exceeds the maximum; no process is
  idle twice, handed out twice, or both; and every idle worker is of the current generation.
\<close>

theorem pool_never_loses_count:
  assumes "pool_reach s"
  shows "total (the_pool s)
      = int (length (available (the_pool s))) + int (length (leased s)) + int (length (starting s))
        + (if prewarm_generation (the_pool s) = None then 0 else 1)
    \<and> total (the_pool s) \<le> pool_maximum (the_pool s)
    \<and> distinct (map wid (available (the_pool s) @ leased s))
    \<and> (\<forall>w \<in> set (available (the_pool s)). pool_generation w = pool_gen (the_pool s))"
  using pool.reach_inv [OF assms] by (simp add: pool_inv_def slots_def pool_ok_def workers_ok_def)

lemma pop_first_holds: "pop_first P xs = Some (y, ys) \<Longrightarrow> P y"
  by (induction xs arbitrary: ys) (auto split: if_splits)

lemma select_worker_preference:
  assumes "select_worker True ok p = ((Some w, ds), p')" and "\<not> unit_registry_loaded w"
  shows "\<forall>v \<in> set (available p). unit_registry_loaded v \<longrightarrow> v \<in> set ds"
  using assms
proof (induction True ok p arbitrary: ds p' rule: select_worker.induct)
  case (1 ok p)
  obtain v rest where v: "pop_available_worker True (available p) = Some (v, rest)"
    using 1(2) by (auto simp: select_worker.simps [of True ok p] split: option.splits)
  have m: "set (available p) = insert v (set rest)"
    using pop_available_mset [OF v] by (metis set_mset_add_mset_insert set_mset_mset)
  show ?case
  proof (cases "ok v")
    case True
    then have "v = w" using 1(2) v by (simp add: select_worker.simps [of True ok p])
    then have "pop_first unit_registry_loaded (rev (available p)) = None"
      using v 1(3) by (auto simp: pop_available_worker_def dest: pop_first_holds split: option.splits)
    then show ?thesis by (simp add: pop_first_None)
  next
    case False
    let ?q = "p\<lparr>available := rest, total := total p - 1\<rparr>"
    obtain ds' where ds: "select_worker True ok ?q = ((Some w, ds'), p')" "ds = v # ds'"
      using False v 1(2) by (auto simp: select_worker.simps [of True ok p] split: prod.splits)
    from 1(1) [OF v refl False ds(1) 1(3)] show ?thesis using m ds(2) by auto
  qed
qed

text \<open>
  A worker is handed out only if it was idle, runs and fits the caller's memory limit; exactly the
  unusable workers met before it are evicted; and when unit registries are preferred, a worker without
  them is handed out only if every idle worker that has them was unusable.
\<close>

theorem acquire_hands_out_usable_worker:
  assumes "acquire_pass c pf ok ex p = ((AcquireSelected w under_warm, ds), p')"
  shows "ok w \<and> (\<forall>d \<in> set ds. \<not> ok d)
    \<and> mset (available p) = add_mset w (mset ds + mset (available p'))
    \<and> total p' = total p - int (length ds)
    \<and> (pf \<and> \<not> unit_registry_loaded w \<longrightarrow>
         (\<forall>v \<in> set (available p). unit_registry_loaded v \<longrightarrow> \<not> ok v))"
proof -
  from assms have s: "select_worker pf ok p = ((Some w, ds), p')"
    by (cases rule: acquire_pass_cases) auto
  note sp = select_worker_spec [OF s]
  have "total p' = total p - int (length ds)" by (subst sp(2)) simp
  then show ?thesis using sp(1,3,4) select_worker_preference [of ok p w ds p'] s
    by (cases pf) (auto simp: add.commute)
qed

section \<open>Prewarming always ends, unless the thread cannot start\<close>

definition owner_inv :: "pool_system \<Rightarrow> bool" where
  "owner_inv s \<longleftrightarrow>
     length (filter (\<lambda>g. g = pool_gen (the_pool s)) (reserved s @ map snd (warming s)))
       = (if prewarm_generation (the_pool s) = None then 0 else 1)
     \<and> (\<forall>g \<in> set (reserved s @ map snd (warming s)). g \<le> pool_gen (the_pool s))
     \<and> (pool_gen (the_pool s) \<in> set (reserved s) \<longrightarrow> prewarm_thread (the_pool s) = None)"

definition spawning_step :: "pool_system \<Rightarrow> pool_event \<Rightarrow> pool_system \<Rightarrow> bool" where
  "spawning_step s e s' \<longleftrightarrow> pool_step s e s' \<and> (\<forall>g. e \<noteq> StartThread g False)"

lemma select_same:
  assumes "select_worker pf ok p = ((r, ds), q)"
  shows "pool_gen q = pool_gen p" "prewarm_generation q = prewarm_generation p"
    "prewarm_thread q = prewarm_thread p"
proof -
  obtain a t where "q = p\<lparr>available := a, total := t\<rparr>"
    using select_worker_spec(2) [OF assms] by blast
  then show "pool_gen q = pool_gen p" "prewarm_generation q = prewarm_generation p"
    "prewarm_thread q = prewarm_thread p" by simp_all
qed

lemma acquire_same:
  assumes "acquire_pass c pf ok ex p = ((r, ds), p')"
  shows "pool_gen p' = pool_gen p" "prewarm_generation p' = prewarm_generation p"
    "prewarm_thread p' = prewarm_thread p"
  using assms by (cases rule: acquire_pass_cases; auto dest: select_same)+

lemma length_filter_remove1:
  "x \<in> set xs \<Longrightarrow> length (filter P (remove1 x xs)) = length (filter P xs) - (if P x then 1 else 0)"
proof (induction xs)
  case (Cons a xs)
  then show ?case
    by (cases "filter P xs") (auto simp: filter_empty_conv)
qed simp

text \<open>How a step moves generations between \<open>reserved\<close> and \<open>warming\<close>, seen from the current generation.\<close>

definition current :: "pool_system \<Rightarrow> int" where
  "current s = pool_gen (the_pool s)"

lemma owner_invI:
  "length (filter (\<lambda>g. g = current s) (reserved s)) + length (filter (\<lambda>x. snd x = current s) (warming s))
     = (if prewarm_generation (the_pool s) = None then 0 else 1) \<Longrightarrow>
   \<forall>g \<in> set (reserved s). g \<le> current s \<Longrightarrow> \<forall>x \<in> set (warming s). snd x \<le> current s \<Longrightarrow>
   (current s \<in> set (reserved s) \<Longrightarrow> prewarm_thread (the_pool s) = None) \<Longrightarrow> owner_inv s"
  by (auto simp: owner_inv_def current_def filter_map comp_def)

lemma owner_invD:
  assumes "owner_inv s"
  shows "length (filter (\<lambda>g. g = current s) (reserved s)) + length (filter (\<lambda>x. snd x = current s) (warming s))
     = (if prewarm_generation (the_pool s) = None then 0 else 1)"
   "\<forall>g \<in> set (reserved s). g \<le> current s" "\<forall>x \<in> set (warming s). snd x \<le> current s"
   "current s \<in> set (reserved s) \<Longrightarrow> prewarm_thread (the_pool s) = None"
  using assms by (auto simp: owner_inv_def current_def filter_map comp_def)

lemma owner_unchanged:
  "owner_inv s \<Longrightarrow> pool_gen (the_pool s') = pool_gen (the_pool s) \<Longrightarrow>
     prewarm_generation (the_pool s') = prewarm_generation (the_pool s) \<Longrightarrow>
     prewarm_thread (the_pool s') = prewarm_thread (the_pool s) \<Longrightarrow>
     reserved s' = reserved s \<Longrightarrow> warming s' = warming s \<Longrightarrow> owner_inv s'"
  by (simp add: owner_inv_def)

lemma filter_pos: "x \<in> set xs \<Longrightarrow> P x \<Longrightarrow> 0 < length (filter P xs)"
  by (induction xs) auto

lemma sum_at_most_one:
  "0 < (m::nat) \<Longrightarrow> m + n = (if b then 0 else 1) \<Longrightarrow> \<not> b \<and> m = 1 \<and> n = 0"
  by (cases b) auto

lemma reserve_owned:
  assumes "owner_inv s" "reserve_prewarm (the_pool s) = (Some g, p)"
  shows "owner_inv (s\<lparr>the_pool := p, reserved := g # reserved s\<rparr>)"
  using owner_invD [OF assms(1)] assms(2)
  by (intro owner_invI) (auto simp: reserve_prewarm_def current_def split: if_splits)

lemma drop_owned:
  assumes "owner_inv s" "pool_inv s" "g \<in> set (reserved s)" "prewarm_cancel_event g (the_pool s) = None"
  shows "owner_inv (s\<lparr>reserved := remove1 g (reserved s)\<rparr>)"
proof -
  have "g \<noteq> current s"
  proof
    assume g: "g = current s"
    have "prewarm_generation (the_pool s) \<noteq> None"
      using owner_invD(1) [OF assms(1)] filter_pos [OF assms(3), of "\<lambda>g. g = current s"] g by (auto split: if_splits)
    then show False using assms(2,4) g
      by (auto simp: prewarm_cancel_event_def pool_inv_def pool_ok_def current_def split: if_splits)
  qed
  then show ?thesis using owner_invD [OF assms(1)] assms(3) set_remove1_subset [of g "reserved s"]
    by (intro owner_invI) (auto simp: current_def length_filter_remove1 in_set_remove1)
qed

lemma start_owned:
  assumes "owner_inv s" "pool_inv s" "g \<in> set (reserved s)"
    "start_prewarm_thread t g True (the_pool s) = (r, p)"
  shows "owner_inv (s\<lparr>the_pool := p, reserved := remove1 g (reserved s), next_thread := n,
      warming := (if r = Inr True then (t, g) # warming s else warming s)\<rparr>)"
proof (cases "g = current s")
  case True
  note d = owner_invD [OF assms(1)]
  have pos: "0 < length (filter (\<lambda>g. g = current s) (reserved s))"
    using filter_pos [OF assms(3), of "\<lambda>g. g = current s"] True by simp
  then have pre: "prewarm_generation (the_pool s) \<noteq> None" "length (filter (\<lambda>g. g = current s) (reserved s)) = 1"
    "length (filter (\<lambda>x. snd x = current s) (warming s)) = 0"
    using sum_at_most_one [OF pos d(1)] by blast+
  then have "prewarm_generation (the_pool s) = Some g" "prewarm_thread (the_pool s) = None"
    using assms(2,3) d(4) True by (auto simp: pool_inv_def pool_ok_def current_def)
  then have p: "r = Inr True" "p = (the_pool s)\<lparr>prewarm_thread := Some t\<rparr>"
    using assms(4) by (auto simp: start_prewarm_thread_def)
  have none: "length (filter (\<lambda>g. g = current s) (remove1 g (reserved s))) = 0"
    using pre(2) True assms(3) by (simp add: length_filter_remove1)
  then have "current s \<notin> set (remove1 g (reserved s))"
    using filter_pos [of "current s" _ "\<lambda>g. g = current s"] by fastforce
  then show ?thesis using d none p pre True set_remove1_subset [of g "reserved s"]
    by (intro owner_invI) (auto simp: current_def)
next
  case False
  then have p: "r = Inr False" "p = the_pool s"
    using assms(2,4) by (auto simp: start_prewarm_thread_def pool_inv_def pool_ok_def current_def split: if_splits)
  show ?thesis using owner_invD [OF assms(1)] False p assms(3) set_remove1_subset [of g "reserved s"]
    by (intro owner_invI) (auto simp: current_def length_filter_remove1 in_set_remove1)
qed

lemma finish_owned:
  assumes "owner_inv s" "pool_inv s" "(t, g) \<in> set (warming s)"
    "finish_prewarm obs w g (the_pool s) = (r, p)"
  shows "owner_inv (s\<lparr>the_pool := p, warming := remove1 (t, g) (warming s), ending := es, next_wid := n\<rparr>)"
proof -
  note d = owner_invD [OF assms(1)]
  have rem: "length (filter (\<lambda>x. snd x = current s) (remove1 (t, g) (warming s)))
      = length (filter (\<lambda>x. snd x = current s) (warming s)) - (if g = current s then 1 else 0)"
    using assms(3) by (simp add: length_filter_remove1)
  have same: "pool_gen p = pool_gen (the_pool s)" "prewarm_thread p = prewarm_thread (the_pool s)"
    using assms(4) by (auto simp: finish_prewarm_def Let_def split: if_splits option.splits)
  have pre: "prewarm_generation p = (if prewarm_generation (the_pool s) = Some g then None else prewarm_generation (the_pool s))"
    using assms(4) by (auto simp: finish_prewarm_def Let_def split: if_splits option.splits)
  show ?thesis
  proof (cases "g = current s")
    case True
    have pos: "0 < length (filter (\<lambda>x. snd x = current s) (warming s))"
      using filter_pos [OF assms(3), of "\<lambda>x. snd x = current s"] True by simp
    have one: "prewarm_generation (the_pool s) \<noteq> None"
      "length (filter (\<lambda>x. snd x = current s) (warming s)) = 1" "length (filter (\<lambda>g. g = current s) (reserved s)) = 0"
      using sum_at_most_one [OF pos d(1) [unfolded add.commute [of "length (filter (\<lambda>g. g = current s) (reserved s))"]]] by blast+
    moreover have "prewarm_generation (the_pool s) = Some g"
      using one(1) assms(2) True by (auto simp: pool_inv_def pool_ok_def current_def)
    ultimately show ?thesis using d rem same pre True set_remove1_subset [of "(t, g)" "warming s"]
      by (intro owner_invI) (auto simp: current_def)
  next
    case False
    then have "prewarm_generation p = prewarm_generation (the_pool s)"
      using pre assms(2) by (auto simp: pool_inv_def pool_ok_def current_def)
    then show ?thesis using d rem same False set_remove1_subset [of "(t, g)" "warming s"]
      by (intro owner_invI) (auto simp: current_def)
  qed
qed

lemma shutdown_owned:
  assumes "owner_inv s" "shutdown_pool (the_pool s) = (ws, p)"
  shows "owner_inv (s\<lparr>the_pool := p\<rparr>)"
proof -
  note d = owner_invD [OF assms(1)]
  have p: "pool_gen p = current s + 1" "prewarm_generation p = None"
    using assms(2) by (auto simp: shutdown_pool_def current_def)
  have "filter (\<lambda>g. g = current s + 1) (reserved s) = []"
    "filter (\<lambda>x. snd x = current s + 1) (warming s) = []"
    using d(2,3) by (auto simp: filter_empty_conv)
  then show ?thesis using d p by (intro owner_invI) (auto simp: current_def)
qed

lemma spawning_step_inv:
  assumes "pool_inv s \<and> owner_inv s" "spawning_step s e s'"
  shows "pool_inv s' \<and> owner_inv s'"
proof -
  from assms(2) have st: "pool_step s e s'" by (simp add: spawning_step_def)
  then have "owner_inv s'"
  proof (cases rule: pool_step.cases)
    case (acquire_passed c pf obs m ex r ds p)
    then show ?thesis using assms(1) acquire_same [OF acquire_passed(3)]
      by (cases r) (auto elim: owner_unchanged)
  next
    case (released w obs reusable r p)
    then have "pool_gen p = pool_gen (the_pool s)" "prewarm_generation p = prewarm_generation (the_pool s)"
      "prewarm_thread p = prewarm_thread (the_pool s)"
      by (auto simp: release_worker_def Let_def split: if_splits)
    then show ?thesis using assms(1) released by (auto elim: owner_unchanged)
  next
    case (prewarm_reserved g p)
    then show ?thesis using assms(1) reserve_owned by simp
  next
    case (prewarm_dropped g)
    then show ?thesis using assms(1) drop_owned by simp
  next
    case (thread_started g spawns r p)
    then have "spawns" using assms(2) by (cases spawns) (auto simp: spawning_step_def)
    then show ?thesis using thread_started assms(1) start_owned [of s g "next_thread s" r p] by simp
  next
    case (prewarm_finished t g obs built r p)
    then show ?thesis using assms(1) finish_owned by simp
  next
    case (thread_finished t)
    then show ?thesis using assms(1)
      by (auto simp: owner_inv_def finish_prewarm_thread_def)
  next
    case (pool_shutdown ws p)
    then show ?thesis using assms(1) shutdown_owned by simp
  qed (use assms(1) in \<open>auto simp: start_failed_def elim: owner_unchanged\<close>)
  then show ?thesis using assms(1) pool_step_inv [OF _ st] by blast
qed

interpretation spawning: guarded_system pool_init spawning_step "\<lambda>s. pool_inv s \<and> owner_inv s"
proof unfold_locales
  show "pool_init s \<Longrightarrow> pool_inv s \<and> owner_inv s" for s
    using pool_init_inv by (auto simp: pool_init_def owner_inv_def new_pool_def)
qed (rule spawning_step_inv)

text \<open>
  As long as the system can start threads, a reserved prewarm slot always has somebody who will
  settle it: either a call that still has to start the thread, which then succeeds, or a running prewarm
  thread, whose \<^verbatim>\<open>finish_prewarm\<close> clears the reservation with or without a worker.
\<close>

theorem prewarm_always_settled:
  assumes "reach pool_init spawning_step s" and "prewarm_generation (the_pool s) = Some g"
  shows "(g \<in> set (reserved s) \<and> fst (start_prewarm_thread thread g True (the_pool s)) = Inr True)
    \<or> (\<exists>t. (t, g) \<in> set (warming s)
          \<and> prewarm_generation (snd (finish_prewarm obs worker g (the_pool s))) = None)"
proof -
  have inv: "pool_inv s" "owner_inv s" using spawning.reach_inv [OF assms(1)] by simp_all
  note d = owner_invD [OF inv(2)]
  have g: "g = current s" using inv(1) assms(2) by (auto simp: pool_inv_def pool_ok_def current_def)
  have fin: "prewarm_generation (snd (finish_prewarm obs worker g (the_pool s))) = None"
    using assms(2) by (auto simp: finish_prewarm_def Let_def split: option.splits)
  show ?thesis
  proof (cases "g \<in> set (reserved s)")
    case True
    then show ?thesis using d(4) g assms(2) by (simp add: start_prewarm_thread_def)
  next
    case False
    then have "filter (\<lambda>g. g = current s) (reserved s) = []" using g by (auto simp: filter_empty_conv)
    then have "length (filter (\<lambda>x. snd x = current s) (warming s)) = 1" using d(1) assms(2) by simp
    then obtain x where "x \<in> set (warming s)" "snd x = g" using g
      by (metis (mono_tags, lifting) filter_empty_conv list.size(3) zero_neq_one)
    then show ?thesis using fin by (metis prod.collapse)
  qed
qed

text \<open>
  A pool is stuck when a prewarm slot is reserved for the current generation and nobody is left to
  settle it.
\<close>

definition stuck :: "pool_system \<Rightarrow> bool" where
  "stuck s \<longleftrightarrow>
     prewarm_generation (the_pool s) = Some (pool_gen (the_pool s))
     \<and> available (the_pool s) = [] \<and> leased s = [] \<and> starting s = []
     \<and> reserved s = [] \<and> warming s = []"

lemma stuck_acquire:
  assumes "available p = []" "prewarm_generation p = Some (pool_gen p)"
    "acquire_pass c pf ok ex p = ((r, ds), p')"
  shows "p' = p \<and> (r = AcquireCancelled \<or> r = AcquireTimeout \<or> r = AcquireWait)"
proof -
  have "select_worker pf ok p = ((None, []), p)"
    using assms(1) by (simp add: select_worker.simps pop_available_worker_def)
  then show ?thesis using assms(2,3) by (auto simp: acquire_pass_def split: if_splits)
qed

text \<open>
  If \<^verbatim>\<open>thread.start()\<close> raises, the prewarm reservation is never returned: from then on, whatever
  the callers do short of a shutdown, no worker is ever started, handed out or prewarmed again; every
  acquisition waits until it is cancelled or times out.
\<close>

theorem failed_prewarm_thread_blocks_pool:
  assumes "run pool_step s es s'" and "stuck s" and "Shutdown \<notin> set es"
  shows "leased s' = [] \<and> starting s' = [] \<and> available (the_pool s') = []
    \<and> reserve_prewarm (the_pool s') = (None, the_pool s')
    \<and> fst (fst (acquire_pass cancelled pf ok expired (the_pool s')))
        \<in> {AcquireCancelled, AcquireTimeout, AcquireWait}"
proof -
  have "stuck s'" using assms
  proof (induction rule: run.induct)
    case (run_Cons s e t es r)
    have "stuck t" using run_Cons(1)
    proof (cases rule: pool_step.cases)
      case (acquire_passed c pf obs m ex r ds p)
      then have "p = the_pool s" "after_acquire r (s\<lparr>the_pool := p\<rparr>) = s\<lparr>the_pool := p\<rparr>"
        using run_Cons.prems(1) stuck_acquire [OF _ _ acquire_passed(3)] by (auto simp: stuck_def)
      then show ?thesis using run_Cons.prems(1) acquire_passed(2) by (simp add: stuck_def)
    next
      case (prewarm_reserved g p)
      then show ?thesis using run_Cons.prems(1) by (auto simp: stuck_def reserve_prewarm_def)
    next
      case (thread_finished th)
      then show ?thesis using run_Cons.prems(1) by (auto simp: stuck_def finish_prewarm_thread_def)
    qed (use run_Cons.prems in \<open>auto simp: stuck_def\<close>)
    then show ?case using run_Cons by simp
  qed
  moreover obtain r ds p where "acquire_pass cancelled pf ok expired (the_pool s') = ((r, ds), p)"
    by (metis prod.exhaust)
  ultimately show ?thesis using stuck_acquire [of "the_pool s'"]
    by (auto simp: stuck_def reserve_prewarm_def)
qed

section \<open>Concrete runs\<close>

definition empty_pool_system :: pool_system where
  "empty_pool_system =
     \<lparr>the_pool = new_pool MAX_REUSABLE_WORKERS, leased = [], starting = [], reserved = [], warming = [],
      ending = [], next_wid = 0, next_thread = 0\<rparr>"

lemma empty_pool_init: "pool_init empty_pool_system"
  by (auto simp: pool_init_def empty_pool_system_def MAX_REUSABLE_WORKERS_def intro!: exI [of _ 4])

definition reserved_pool :: pool where
  "reserved_pool = (new_pool 4)\<lparr>total := 1, prewarm_generation := Some 0, prewarm_cancel := Some 0\<rparr>"

lemma reserve_run:
  "pool_step empty_pool_system ReservePrewarm
     (empty_pool_system\<lparr>the_pool := reserved_pool, reserved := [0]\<rparr>)"
  using prewarm_reserved [of empty_pool_system 0 reserved_pool]
  by (simp add: empty_pool_system_def reserve_prewarm_def new_pool_def reserved_pool_def MAX_REUSABLE_WORKERS_def)

text \<open>The prewarm thread runs.\<close>

definition warming_system :: pool_system where
  "warming_system = empty_pool_system\<lparr>the_pool := reserved_pool\<lparr>prewarm_thread := Some 0\<rparr>,
     next_thread := 1, warming := [(0, 0)]\<rparr>"

lemma warming_run:
  "pool_step (empty_pool_system\<lparr>the_pool := reserved_pool, reserved := [0]\<rparr>) (StartThread 0 True) warming_system"
  using thread_started [of 0 "empty_pool_system\<lparr>the_pool := reserved_pool, reserved := [0]\<rparr>" True]
  by (simp add: start_prewarm_thread_def empty_pool_system_def reserved_pool_def new_pool_def warming_system_def)

lemma warming_system_reach: "reach pool_init spawning_step warming_system"
proof -
  have "spawning_step empty_pool_system ReservePrewarm
      (empty_pool_system\<lparr>the_pool := reserved_pool, reserved := [0]\<rparr>)"
    "spawning_step (empty_pool_system\<lparr>the_pool := reserved_pool, reserved := [0]\<rparr>) (StartThread 0 True)
      warming_system"
    using reserve_run warming_run by (simp_all add: spawning_step_def)
  with reach_init [of pool_init, OF empty_pool_init] show ?thesis by (meson reach_step)
qed

theorem prewarm_always_settled_witness:
  "\<exists>t. (t, 0) \<in> set (warming warming_system)
     \<and> prewarm_generation (snd (finish_prewarm \<lparr>is_running = (\<lambda>_. True), resident_bytes = (\<lambda>_. None)\<rparr>
          None 0 (the_pool warming_system))) = None"
  using prewarm_always_settled [OF warming_system_reach, of 0 7 _ None]
  by (auto simp: warming_system_def reserved_pool_def empty_pool_system_def)

text \<open>The prewarm thread cannot be started.\<close>

definition stuck_system :: pool_system where
  "stuck_system = empty_pool_system\<lparr>the_pool := reserved_pool\<lparr>prewarm_thread := Some 0\<rparr>, next_thread := 1\<rparr>"

lemma stuck_run:
  "pool_step (empty_pool_system\<lparr>the_pool := reserved_pool, reserved := [0]\<rparr>) (StartThread 0 False) stuck_system"
  using thread_started [of 0 "empty_pool_system\<lparr>the_pool := reserved_pool, reserved := [0]\<rparr>" False]
  by (simp add: start_prewarm_thread_def empty_pool_system_def reserved_pool_def new_pool_def stuck_system_def)

lemma stuck_system_reach: "pool_reach stuck_system"
  using reach_init [of pool_init, OF empty_pool_init] reserve_run stuck_run by (meson reach_step)

theorem failed_prewarm_thread_blocks_pool_witness:
  "pool_reach stuck_system \<and> total (the_pool stuck_system) < pool_maximum (the_pool stuck_system)
   \<and> fst (fst (acquire_pass False False (\<lambda>_. True) False (the_pool stuck_system)))
       \<in> {AcquireCancelled, AcquireTimeout, AcquireWait}"
  using stuck_system_reach
    failed_prewarm_thread_blocks_pool [OF run_Nil, of stuck_system False False "\<lambda>_. True" False]
  by (simp add: stuck_def stuck_system_def reserved_pool_def empty_pool_system_def new_pool_def)

theorem pool_never_loses_count_witness:
  "total (the_pool stuck_system) \<le> pool_maximum (the_pool stuck_system)"
  using pool_never_loses_count [OF stuck_system_reach] by blast

definition idle_worker :: worker where
  "idle_worker = \<lparr>wid = 0, requests_completed = 3, unit_registry_loaded = False, pool_generation = 0\<rparr>"

theorem acquire_hands_out_usable_worker_witness:
  "usable \<lparr>is_running = (\<lambda>_. True), resident_bytes = (\<lambda>_. Some 10)\<rparr> 20 idle_worker"
proof -
  let ?p = "(new_pool 4)\<lparr>available := [idle_worker], total := 1\<rparr>"
  let ?ok = "usable \<lparr>is_running = (\<lambda>_. True), resident_bytes = (\<lambda>_. Some 10)\<rparr> 20"
  have "acquire_pass False True ?ok False ?p = ((AcquireSelected idle_worker False, []), ?p\<lparr>available := []\<rparr>)"
    by (simp add: acquire_pass_def select_worker.simps pop_available_worker_def usable_def
        should_replenish_def new_pool_def idle_worker_def)
  from acquire_hands_out_usable_worker [OF this] show ?thesis by blast
qed
end
