(* ===== verification/Runtime_System.thy ===== *)
theory Runtime_System
  imports Admission Circuit_Breaker Worker_Pool
begin

text \<open>
  \<^verbatim>\<open>_run_operation_impl\<close> and \<^verbatim>\<open>_execute_admitted_operation\<close> of \<^verbatim>\<open>sandbox.py\<close> as threads over the three shared
  controllers: a call asks the circuit breaker, then the admission controller, then the pool, runs, and
  gives everything back in the order of the code. The steps of all calls interleave with the prewarm
  threads, shutdowns and resets; each is one operation of a controller under its lock.
\<close>

section \<open>Calls in progress\<close>

text \<open>
  How far a call of \<^verbatim>\<open>_run_operation_impl\<close> has come, with what it holds: the permit of the circuit breaker,
  its ticket in the queue or its lease, and the worker it has or is starting.
\<close>

datatype stage =
    Permitted permit
  | Queueing permit ticket
  | Denied permit
  | Admitted permit lease
  | Starting permit lease int
  | Working permit lease worker
  | Settled permit lease outcome
  | Unrecorded permit outcome
  | Raising lease

record runtime =
  breakers :: breaker_system
  controller :: admission_system
  workers :: pool_system
  calls :: "stage list"

fun after_poll :: "permit \<Rightarrow> ticket \<Rightarrow> admission_outcome \<Rightarrow> stage" where
  "after_poll p t Waiting = Queueing p t"
| "after_poll p t (Entered l) = Admitted p l"
| "after_poll p t Cancelled = Denied p"
| "after_poll p t TimedOut = Denied p"

fun after_pass :: "permit \<Rightarrow> lease \<Rightarrow> acquire_outcome \<Rightarrow> stage" where
  "after_pass p l (AcquireSelected w under_warm) = Working p l w"
| "after_pass p l (AcquireStart g) = Starting p l g"
| "after_pass p l AcquireWait = Admitted p l"
| "after_pass p l AcquireCancelled = Settled p l CallerError"
| "after_pass p l AcquireTimeout = Settled p l CallerError"

definition background :: "pool_event \<Rightarrow> bool" where
  "background e \<longleftrightarrow>
     (case e of ReservePrewarm \<Rightarrow> True | DropPrewarm _ \<Rightarrow> True | StartThread _ _ \<Rightarrow> True
      | FinishPrewarm _ _ _ _ \<Rightarrow> True | FinishThread _ \<Rightarrow> True | Shutdown \<Rightarrow> True | _ \<Rightarrow> False)"

text \<open>The event names the call that moves and what it does.\<close>

datatype runtime_event =
    Call rat
  | Ask permit int pystr bool rat rat rat
  | AskAgain permit ticket bool rat rat rat
  | Abandons permit
  | Pass permit lease bool bool observation int bool
  | Started permit lease int
  | StartFailed permit lease int outcome
  | Loaded permit lease worker
  | Finished permit lease worker observation bool outcome
  | Leaves permit lease outcome
  | Records permit outcome rat
  | Fails permit lease outcome rat
  | Unwinds lease
  | Background pool_event
  | ResetCircuit

definition moves :: "runtime \<Rightarrow> stage \<Rightarrow> stage list \<Rightarrow> runtime" where
  "moves s old new = s\<lparr>calls := new @ remove1 old (calls s)\<rparr>"

inductive runtime_step :: "runtime \<Rightarrow> runtime_event \<Rightarrow> runtime \<Rightarrow> bool" where
  call_permitted:
    "allow now (circuit (breakers s)) = ((Some p, r), b) \<Longrightarrow>
     runtime_step s (Call now)
       (s\<lparr>breakers := (breakers s)\<lparr>circuit := b, flight := p # flight (breakers s)\<rparr>,
          calls := Permitted p # calls s\<rparr>)"
| call_refused:
    "allow now (circuit (breakers s)) = ((None, r), b) \<Longrightarrow>
     runtime_step s (Call now) (s\<lparr>breakers := (breakers s)\<lparr>circuit := b\<rparr>\<rparr>)"
| asks_overloaded:
    "Permitted p \<in> set (calls s) \<Longrightarrow> 256 \<le> m \<Longrightarrow> m \<le> 4096 \<Longrightarrow>
     acquire_start (fresh (controller s)) m c (ctl (controller s)) = Inr (None, a) \<Longrightarrow>
     runtime_step s (Ask p m c b st d n)
       (moves (s\<lparr>controller := (controller s)\<lparr>ctl := a, fresh := Suc (fresh (controller s))\<rparr>\<rparr>) (Permitted p) [Denied p])"
| asks_queued:
    "Permitted p \<in> set (calls s) \<Longrightarrow> 256 \<le> m \<Longrightarrow> m \<le> 4096 \<Longrightarrow>
     acquire_start (fresh (controller s)) m c (ctl (controller s)) = Inr (Some t, a) \<Longrightarrow>
     acquire_poll t b st d n a = Inr (r, a') \<Longrightarrow>
     runtime_step s (Ask p m c b st d n)
       (moves (s\<lparr>controller := settle t (r, a') ((controller s)\<lparr>ctl := a, waiters := waiters (controller s) @ [t],
                                                        fresh := Suc (fresh (controller s))\<rparr>)\<rparr>)
          (Permitted p) [after_poll p t r])"
| asks_again:
    "Queueing p t \<in> set (calls s) \<Longrightarrow> acquire_poll t b st d n (ctl (controller s)) = Inr (r, a) \<Longrightarrow>
     runtime_step s (AskAgain p t b st d n)
       (moves (s\<lparr>controller := settle t (r, a) (controller s)\<rparr>) (Queueing p t) [after_poll p t r])"
| abandons:
    "Denied p \<in> set (calls s) \<Longrightarrow>
     runtime_step s (Abandons p)
       (moves (s\<lparr>breakers := (breakers s)\<lparr>circuit := abandon_probe p (circuit (breakers s)),
                                          flight := remove1 p (flight (breakers s))\<rparr>\<rparr>) (Denied p) [])"
| passes:
    "Admitted p l \<in> set (calls s) \<Longrightarrow> acquire_pass c pf (usable obs m) ex (the_pool (workers s)) = ((r, ds), q) \<Longrightarrow>
     runtime_step s (Pass p l c pf obs m ex)
       (moves (s\<lparr>workers := after_acquire r ((workers s)\<lparr>the_pool := q\<rparr>)\<rparr>) (Admitted p l) [after_pass p l r])"
| started:
    "Starting p l g \<in> set (calls s) \<Longrightarrow> pool_step (workers s) (StartOk g) q \<Longrightarrow>
     runtime_step s (Started p l g)
       (moves (s\<lparr>workers := q\<rparr>) (Starting p l g) [Working p l (start_succeeded g (fresh_worker (workers s)))])"
| start_failed:
    "Starting p l g \<in> set (calls s) \<Longrightarrow> out \<noteq> Success \<Longrightarrow> pool_step (workers s) (StartFail g) q \<Longrightarrow>
     runtime_step s (StartFailed p l g out) (moves (s\<lparr>workers := q\<rparr>) (Starting p l g) [Settled p l out])"
| loaded:
    "Working p l w \<in> set (calls s) \<Longrightarrow> pool_step (workers s) (LoadRegistry w) q \<Longrightarrow>
     runtime_step s (Loaded p l w)
       (moves (s\<lparr>workers := q\<rparr>) (Working p l w) [Working p l (w\<lparr>unit_registry_loaded := True\<rparr>)])"
| finished:
    "Working p l w \<in> set (calls s) \<Longrightarrow> pool_step (workers s) (ReleaseWorker obs w reusable) q \<Longrightarrow>
     runtime_step s (Finished p l w obs reusable out) (moves (s\<lparr>workers := q\<rparr>) (Working p l w) [Settled p l out])"
| leaves:
    "Settled p l out \<in> set (calls s) \<Longrightarrow> admission_step (controller s) (Release l) c \<Longrightarrow>
     runtime_step s (Leaves p l out) (moves (s\<lparr>controller := c\<rparr>) (Settled p l out) [Unrecorded p out])"
| records:
    "Unrecorded p out \<in> set (calls s) \<Longrightarrow> breaker_step (breakers s) (Record p out now) b \<Longrightarrow>
     runtime_step s (Records p out now) (moves (s\<lparr>breakers := b\<rparr>) (Unrecorded p out) [])"
| fails:
    "Settled p l out \<in> set (calls s) \<Longrightarrow> breaker_step (breakers s) (Record p InfrastructureFailure now) b \<Longrightarrow>
     runtime_step s (Fails p l out now) (moves (s\<lparr>breakers := b\<rparr>) (Settled p l out) [Raising l])"
| unwinds:
    "Raising l \<in> set (calls s) \<Longrightarrow> admission_step (controller s) (Release l) c \<Longrightarrow>
     runtime_step s (Unwinds l) (moves (s\<lparr>controller := c\<rparr>) (Raising l) [])"
| in_background:
    "background e \<Longrightarrow> pool_step (workers s) e q \<Longrightarrow> runtime_step s (Background e) (s\<lparr>workers := q\<rparr>)"
| circuit_reset:
    "runtime_step s ResetCircuit (s\<lparr>breakers := (breakers s)\<lparr>circuit := reset_breaker (circuit (breakers s))\<rparr>\<rparr>)"

definition runtime_init :: "runtime \<Rightarrow> bool" where
  "runtime_init s \<longleftrightarrow>
     breaker_init (breakers s) \<and> admission_init (controller s) \<and> pool_init (workers s) \<and> calls s = []"

section \<open>What the calls hold\<close>

fun permit_of :: "stage \<Rightarrow> permit option" where
  "permit_of (Raising l) = None"
| "permit_of (Permitted p) = Some p"
| "permit_of (Queueing p t) = Some p"
| "permit_of (Denied p) = Some p"
| "permit_of (Admitted p l) = Some p"
| "permit_of (Starting p l g) = Some p"
| "permit_of (Working p l w) = Some p"
| "permit_of (Settled p l out) = Some p"
| "permit_of (Unrecorded p out) = Some p"

fun ticket_of :: "stage \<Rightarrow> ticket option" where
  "ticket_of (Queueing p t) = Some t"
| "ticket_of _ = None"

fun lease_of :: "stage \<Rightarrow> lease option" where
  "lease_of (Admitted p l) = Some l"
| "lease_of (Starting p l g) = Some l"
| "lease_of (Working p l w) = Some l"
| "lease_of (Settled p l out) = Some l"
| "lease_of (Raising l) = Some l"
| "lease_of _ = None"

fun start_of :: "stage \<Rightarrow> int option" where
  "start_of (Starting p l g) = Some g"
| "start_of _ = None"

fun worker_of :: "stage \<Rightarrow> worker option" where
  "worker_of (Working p l w) = Some w"
| "worker_of _ = None"

definition held :: "(stage \<Rightarrow> 'a option) \<Rightarrow> stage list \<Rightarrow> 'a multiset" where
  "held f cs = mset (List.map_filter f cs)"

definition conserved :: "runtime \<Rightarrow> bool" where
  "conserved s \<longleftrightarrow>
     mset (flight (breakers s)) = held permit_of (calls s)
     \<and> mset (waiters (controller s)) = held ticket_of (calls s)
     \<and> mset (leases (controller s)) = held lease_of (calls s)
     \<and> mset (starting (workers s)) = held start_of (calls s)
     \<and> mset (leased (workers s)) = held worker_of (calls s)"

definition option_mset :: "'a option \<Rightarrow> 'a multiset" where
  "option_mset x = (case x of None \<Rightarrow> {#} | Some a \<Rightarrow> {#a#})"

lemma held_simps [simp]: "held f [] = {#}" "held f (c # cs) = option_mset (f c) + held f cs"
  by (simp_all add: held_def option_mset_def List.map_filter_simps split: option.splits)

lemma option_mset_simps [simp]: "option_mset None = {#}" "option_mset (Some a) = {#a#}"
  by (simp_all add: option_mset_def)

lemma held_remove: "c \<in> set cs \<Longrightarrow> held f cs = option_mset (f c) + held f (remove1 c cs)"
  by (induction cs) (auto simp: ac_simps)

lemma held_mem: "c \<in> set cs \<Longrightarrow> f c = Some x \<Longrightarrow> x \<in># held f cs"
  using held_remove [of c cs f] by simp

lemma moves_fields [simp]:
  "breakers (moves s old new) = breakers s" "controller (moves s old new) = controller s"
  "workers (moves s old new) = workers s" "calls (moves s old new) = new @ remove1 old (calls s)"
  by (simp_all add: moves_def)

lemma held_append: "held f (xs @ ys) = held f xs + held f ys"
  by (induction xs) simp_all

lemma held_remove1: "c \<in> set cs \<Longrightarrow> held f (remove1 c cs) = held f cs - option_mset (f c)"
  using held_remove [of c cs f] by simp

lemma settle_conserved:
  assumes "t \<in> set (waiters c)"
  shows "mset (waiters (settle t (r, a) c)) = mset (waiters c) - {#t#} + option_mset (ticket_of (after_poll p t r))"
    and "mset (leases (settle t (r, a) c)) = mset (leases c) + option_mset (lease_of (after_poll p t r))"
  using assms by (cases r; simp)+

lemma after_poll_held [simp]:
  "permit_of (after_poll p t r) = Some p" "start_of (after_poll p t r) = None" "worker_of (after_poll p t r) = None"
  by (cases r; simp)+

lemma after_pass_held [simp]:
  "permit_of (after_pass p l r) = Some p" "ticket_of (after_pass p l r) = None" "lease_of (after_pass p l r) = Some l"
  by (cases r; simp)+

lemma after_acquire_held:
  "mset (starting (after_acquire r (q\<lparr>the_pool := x\<rparr>))) = mset (starting q) + option_mset (start_of (after_pass p l r))"
  "mset (leased (after_acquire r (q\<lparr>the_pool := x\<rparr>))) = mset (leased q) + option_mset (worker_of (after_pass p l r))"
  by (cases r; simp)+

lemma background_step: "pool_step q e q' \<Longrightarrow> background e \<Longrightarrow> starting q' = starting q \<and> leased q' = leased q"
  by (induction rule: pool_step.induct) (auto simp: background_def)

inductive_cases start_okE: "pool_step q (StartOk g) q'"
inductive_cases start_failE: "pool_step q (StartFail g) q'"
inductive_cases load_registryE: "pool_step q (LoadRegistry w) q'"
inductive_cases release_workerE: "pool_step q (ReleaseWorker obs w reusable) q'"

lemma conserved_step: "runtime_step s e s' \<Longrightarrow> conserved s \<Longrightarrow> conserved s'"
proof (induction rule: runtime_step.induct)
  case (asks_queued p s m c t a b st d n r a')
  let ?c = "(controller s)\<lparr>ctl := a, waiters := waiters (controller s) @ [t], fresh := Suc (fresh (controller s))\<rparr>"
  have "t \<in> set (waiters ?c)" by simp
  from settle_conserved [OF this, of r a' p] show ?case
    using asks_queued by (simp add: conserved_def held_append held_remove [OF asks_queued(1)])
next
  case (asks_again p t s b st d n r a)
  note h = held_remove [OF asks_again(1)]
  have "t \<in># mset (waiters (controller s))" using asks_again(3) by (simp add: conserved_def h)
  then have "t \<in> set (waiters (controller s))" by simp
  from settle_conserved [OF this, of r a p] show ?case
    using asks_again by (simp add: conserved_def held_append h)
next
  case (passes p l s c pf obs m ex r ds q)
  then show ?case
    using after_acquire_held [of r q "workers s" p l]
    by (simp add: conserved_def held_append held_remove [OF passes(1)])
next
  case (in_background e s q)
  then show ?case using background_step by (simp add: conserved_def)
next
  case (asks_overloaded p s m c a b st d n)
  then show ?case by (simp add: conserved_def held_remove [OF asks_overloaded(1)])
next
  case (abandons p s)
  then show ?case by (simp add: conserved_def held_remove [OF abandons(1)])
next
  case (started p l g s q)
  then show ?case by (auto simp: conserved_def held_remove [OF started(1)] elim!: start_okE)
next
  case (start_failed p l g s out q)
  then show ?case by (auto simp: conserved_def held_remove [OF start_failed(1)] elim!: start_failE)
next
  case (loaded p l w s q)
  then show ?case by (auto simp: conserved_def held_remove [OF loaded(1)] elim!: load_registryE)
next
  case (finished p l w s obs reusable q out)
  then show ?case by (auto simp: conserved_def held_remove [OF finished(1)] elim!: release_workerE)
next
  case (leaves p l out s c)
  then show ?case by (auto simp: conserved_def held_remove [OF leaves(1)] release_step_iff)
next
  case (records p out s now b)
  then show ?case by (auto simp: conserved_def held_remove [OF records(1)] record_step_iff)
next
  case (fails p l out s now b)
  then show ?case by (auto simp: conserved_def held_remove [OF fails(1)] record_step_iff)
next
  case (unwinds l s c)
  then show ?case by (auto simp: conserved_def held_remove [OF unwinds(1)] release_step_iff)
qed (auto simp: conserved_def)


section \<open>The components within the runtime\<close>

lemma conserved_init: "runtime_init s \<Longrightarrow> conserved s"
  by (auto simp: runtime_init_def conserved_def breaker_init_def admission_init_def pool_init_def)

interpretation runtime: guarded_system runtime_init runtime_step conserved
  by unfold_locales (rule conserved_init, assumption, rule conserved_step)

lemma flight_mem: "conserved s \<Longrightarrow> c \<in> set (calls s) \<Longrightarrow> permit_of c = Some p \<Longrightarrow> p \<in> set (flight (breakers s))"
  using held_mem [of c "calls s" permit_of p] by (simp add: conserved_def flip: set_mset_mset)

lemma waiter_mem: "conserved s \<Longrightarrow> c \<in> set (calls s) \<Longrightarrow> ticket_of c = Some t \<Longrightarrow> t \<in> set (waiters (controller s))"
  using held_mem [of c "calls s" ticket_of t] by (simp add: conserved_def flip: set_mset_mset)

interpretation circuit_part: component runtime_init runtime_step conserved breaker_init breaker_step breakers
proof unfold_locales
  show "breaker_init (breakers s)" if "runtime_init s" for s using that by (simp add: runtime_init_def)
  show "breakers t = breakers s \<or> (\<exists>f. breaker_step (breakers s) f (breakers t))"
    if "conserved s" "runtime_step s e t" for s e t
    using that(2,1)
  proof (induction rule: runtime_step.induct)
    case (abandons p s)
    then show ?case using breaker_step.abandon_done [of p "breakers s"] flight_mem [of s "Denied p" p] by auto
  qed (auto intro: breaker_step.intros)
qed

interpretation admission_part: component runtime_init runtime_step conserved admission_init admission_step controller
proof unfold_locales
  show "admission_init (controller s)" if "runtime_init s" for s using that by (simp add: runtime_init_def)
  show "controller t = controller s \<or> (\<exists>f. admission_step (controller s) f (controller t))"
    if "conserved s" "runtime_step s e t" for s e t
    using that(2,1)
  proof (induction rule: runtime_step.induct)
    case (asks_again p t s b st d n r a)
    then show ?case using admission_step.poll_again [of t "controller s" b st d n "(r, a)"] waiter_mem by auto
  qed (auto intro: admission_step.intros)
qed

interpretation pool_part: component runtime_init runtime_step conserved pool_init pool_step workers
proof unfold_locales
  show "pool_init (workers s)" if "runtime_init s" for s using that by (simp add: runtime_init_def)
  show "workers t = workers s \<or> (\<exists>f. pool_step (workers s) f (workers t))"
    if "conserved s" "runtime_step s e t" for s e t
    using that(2,1) by (induction rule: runtime_step.induct) (auto intro: pool_step.intros)
qed


lemma runtime_parts:
  assumes "reach runtime_init runtime_step s"
  shows "conserved s" "breaker_inv (breakers s)" "admission_inv (controller s)" "pool_inv (workers s)"
  using runtime.reach_inv [OF assms] breaker.reach_inv [OF circuit_part.reach_part [OF assms]]
    admission.reach_inv [OF admission_part.reach_part [OF assms]] pool.reach_inv [OF pool_part.reach_part [OF assms]]
  by blast+



lemma poll_total:
  assumes "admission_inv c" and "t \<in> set (waiters c)"
  shows "\<exists>r a. acquire_poll t b st d n (ctl c) = Inr (r, a)"
proof -
  have "queue_matches c" using assms(1) by (simp add: admission_inv_def)
  from deque_remove_ok [OF waiter_key [OF this assms(2)]] obtain q where "deque_remove t (queue (ctl c)) = Inr q" ..
  then show ?thesis by (simp add: acquire_poll_def)
qed

lemma lease_mem: "conserved s \<Longrightarrow> c \<in> set (calls s) \<Longrightarrow> lease_of c = Some l \<Longrightarrow> l \<in> set (leases (controller s))"
  using held_mem [of c "calls s" lease_of l] by (simp add: conserved_def flip: set_mset_mset)

lemma start_mem: "conserved s \<Longrightarrow> c \<in> set (calls s) \<Longrightarrow> start_of c = Some g \<Longrightarrow> g \<in> set (starting (workers s))"
  using held_mem [of c "calls s" start_of g] by (simp add: conserved_def flip: set_mset_mset)

lemma worker_mem: "conserved s \<Longrightarrow> c \<in> set (calls s) \<Longrightarrow> worker_of c = Some w \<Longrightarrow> w \<in> set (leased (workers s))"
  using held_mem [of c "calls s" worker_of w] by (simp add: conserved_def flip: set_mset_mset)


lemma ask_total:
  assumes "Permitted p \<in> set (calls s)"
  shows "\<exists>e s' new. runtime_step s e s' \<and> calls s' = new @ remove1 (Permitted p) (calls s)"
proof -
  let ?c = "ctl (controller s)"
  let ?t = "\<lparr>ident = fresh (controller s), ticket_memory = 1024, ticket_class = Single\<rparr>"
  show ?thesis
  proof (cases "int (length (queue ?c)) \<ge> maximum_queued ?c")
    case True
    then have "acquire_start (fresh (controller s)) 1024 (u ''single'') ?c = Inr (None, ?c)"
      by (simp add: acquire_start_def request_class_of_def)
    from runtime_step.asks_overloaded [OF assms _ _ this] show ?thesis by (auto intro!: exI)
  next
    case False
    let ?a = "?c\<lparr>queue := queue ?c @ [?t]\<rparr>"
    have a: "acquire_start (fresh (controller s)) 1024 (u ''single'') ?c = Inr (Some ?t, ?a)"
      using False by (simp add: acquire_start_def request_class_of_def Let_def)
    obtain q where "deque_remove ?t (queue ?a) = Inr q" using deque_remove_ok [of ?t "queue ?a"] by auto
    then obtain r a' where "acquire_poll ?t True 0 0 0 ?a = Inr (r, a')" by (simp add: acquire_poll_def)
    from runtime_step.asks_queued [OF assms _ _ a this] show ?thesis by (auto intro!: exI)
  qed
qed


section \<open>One call from start to end\<close>

definition fresh_runtime :: runtime where
  "fresh_runtime =
     \<lparr>breakers = \<lparr>circuit = new_breaker 3 1, flight = []\<rparr>,
      controller = \<lparr>ctl = new_admission 4 3 32 4096, waiters = [], leases = [], fresh = 0\<rparr>,
      workers = empty_pool_system, calls = []\<rparr>"

lemma fresh_runtime_init: "runtime_init fresh_runtime"
proof -
  have "breaker_init (breakers fresh_runtime)"
    unfolding breaker_init_def fresh_runtime_def by (rule conjI, rule exI [of _ 3], rule exI [of _ 1]) simp_all
  moreover have "admission_init (controller fresh_runtime)"
    unfolding admission_init_def fresh_runtime_def
    by (rule conjI, rule exI [of _ 4], rule exI [of _ 3], rule exI [of _ 32], rule exI [of _ 4096]) simp_all
  moreover have "pool_init (workers fresh_runtime)"
    unfolding pool_init_def fresh_runtime_def empty_pool_system_def
    by (rule conjI, rule exI [of _ 4]) (simp_all add: MAX_REUSABLE_WORKERS_def)
  ultimately show ?thesis by (simp add: runtime_init_def fresh_runtime_def)
qed

definition first_permit :: permit where
  "first_permit = \<lparr>permit_generation = 0, probe_id = None\<rparr>"

definition called_runtime :: runtime where
  "called_runtime = fresh_runtime\<lparr>breakers := \<lparr>circuit = new_breaker 3 1, flight = [first_permit]\<rparr>,
     calls := [Permitted first_permit]\<rparr>"

lemma called_runtime_reach: "reach runtime_init runtime_step called_runtime"
proof -
  have "allow 0 (circuit (breakers fresh_runtime)) = ((Some first_permit, None), new_breaker 3 1)"
    by (simp add: fresh_runtime_def allow_def new_breaker_def first_permit_def)
  from runtime_step.call_permitted [OF this] have "runtime_step fresh_runtime (Call 0) called_runtime"
    by (simp add: called_runtime_def fresh_runtime_def)
  then show ?thesis using fresh_runtime_init by (blast intro: reach_init reach_step)
qed

text \<open>The call asks while it is already cancelled, and gives its permit back.\<close>

lemma returned_runtime_reach: "\<exists>s. reach runtime_init runtime_step s \<and> calls s = [] \<and> fresh (controller s) = 1"
proof -
  let ?t = "\<lparr>ident = 0, ticket_memory = 1024, ticket_class = Single\<rparr>"
  let ?c = "ctl (controller called_runtime)"
  have a: "acquire_start (fresh (controller called_runtime)) 1024 (u ''single'') ?c = Inr (Some ?t, ?c\<lparr>queue := [?t]\<rparr>)"
    by (simp add: acquire_start_def request_class_of_def called_runtime_def fresh_runtime_def new_admission_def Let_def)
  have b: "acquire_poll ?t True 0 10 0 (?c\<lparr>queue := [?t]\<rparr>) = Inr (Cancelled, ?c\<lparr>queue := []\<rparr>)"
    by (simp add: acquire_poll_def ticket_eq_def)
  have in1: "Permitted first_permit \<in> set (calls called_runtime)" by (simp add: called_runtime_def)
  from runtime_step.asks_queued [OF in1 _ _ a b] obtain s1 where
    s1: "runtime_step called_runtime (Ask first_permit 1024 (u ''single'') True 0 10 0) s1"
      "calls s1 = [Denied first_permit]" "fresh (controller s1) = 1"
    by (simp add: called_runtime_def fresh_runtime_def moves_def)
  have in2: "Denied first_permit \<in> set (calls s1)" using s1(2) by simp
  from runtime_step.abandons [OF in2] obtain s2 where
    "runtime_step s1 (Abandons first_permit) s2" "calls s2 = []" "fresh (controller s2) = 1"
    using s1(2,3) by (simp add: moves_def)
  then show ?thesis using called_runtime_reach s1(1) by (blast intro: reach_step)
qed




end
