(* ===== verification/Json_Reader.thy ===== *)
theory Json_Reader
  imports Transport_Budget
begin

text \<open>
  \<^verbatim>\<open>json.loads\<close> of the standard library, which reads what crosses the pipes: a record \<open>reader\<close> holds what the
  interpreter adds (\<^verbatim>\<open>float(text)\<close>, the decoding of bytes, the digit limit, the recursion limit). What
  the encoder of \<open>Json\<close> writes is read back.
\<close>

section \<open>The decoder\<close>

record reader =
  text_float :: "pystr \<Rightarrow> pyfloat"
  bytes_text :: "nat list \<Rightarrow> pyexn + pystr"
  int_digits :: nat
  max_nesting :: nat

definition json_error :: pyexn where
  "json_error = PyExn (u ''JSONDecodeError'') []"

definition recursion_error :: pyexn where
  "recursion_error = PyExn (u ''RecursionError'') (u ''maximum recursion depth exceeded'')"

definition json_space :: "nat \<Rightarrow> bool" where
  "json_space c \<longleftrightarrow> c = 32 \<or> c = 9 \<or> c = 10 \<or> c = 13"

definition skip_space :: "pystr \<Rightarrow> pystr" where
  "skip_space s = dropWhile json_space s"

definition hex_digit :: "nat \<Rightarrow> nat option" where
  "hex_digit c =
     (if 48 \<le> c \<and> c \<le> 57 then Some (c - 48)
      else if 97 \<le> c \<and> c \<le> 102 then Some (c - 87)
      else if 65 \<le> c \<and> c \<le> 70 then Some (c - 55) else None)"

definition hex4 :: "pystr \<Rightarrow> nat option" where
  "hex4 s =
     (case map hex_digit (take 4 s) of
        [Some a, Some b, Some c, Some d] \<Rightarrow> Some (((a * 16 + b) * 16 + c) * 16 + d)
      | _ \<Rightarrow> None)"

definition escape_cp :: "nat \<Rightarrow> nat option" where
  "escape_cp e =
     map_of [(34, 34), (92, 92), (47, 47), (98, 8), (102, 12), (110, 10), (114, 13), (116, 9)] e"

text \<open>The text after \<^verbatim>\<open>\\u\<close>: the code point it denotes and how many characters it takes.\<close>

definition unicode_escape :: "pystr \<Rightarrow> (nat \<times> nat) option" where
  "unicode_escape s =
     (case hex4 s of
        None \<Rightarrow> None
      | Some x \<Rightarrow>
          (if 55296 \<le> x \<and> x \<le> 56319 \<and> take 2 (drop 4 s) = [92, 117] then
             (case hex4 (drop 6 s) of
                None \<Rightarrow> None
              | Some y \<Rightarrow>
                  if 56320 \<le> y \<and> y \<le> 57343
                  then Some (65536 + (x - 55296) * 1024 + (y - 56320), 10) else Some (x, 4))
           else Some (x, 4)))"

fun scan_string :: "pystr \<Rightarrow> pyexn + pystr \<times> pystr" where
  "scan_string [] = Inl json_error"
| "scan_string (c # s) =
     (if c = 34 then Inr ([], s)
      else if c < 32 then Inl json_error
      else if c \<noteq> 92 then rbind (scan_string s) (\<lambda>(t, r). Inr (c # t, r))
      else
        (case s of
           [] \<Rightarrow> Inl json_error
         | e # s' \<Rightarrow>
             if e = 117 then
               (case unicode_escape s' of
                  None \<Rightarrow> Inl json_error
                | Some (x, n) \<Rightarrow> rbind (scan_string (drop n s')) (\<lambda>(t, r). Inr (x # t, r)))
             else
               (case escape_cp e of
                  None \<Rightarrow> Inl json_error
                | Some x \<Rightarrow> rbind (scan_string s') (\<lambda>(t, r). Inr (x # t, r)))))"

definition is_digit :: "nat \<Rightarrow> bool" where
  "is_digit c \<longleftrightarrow> 48 \<le> c \<and> c \<le> 57"

text \<open>The longest number at the start of a text: its integer part, its fraction and its exponent.\<close>

definition whole_part :: "pystr \<Rightarrow> pystr" where
  "whole_part s = (if take 1 s = [48] then [48] else takeWhile is_digit s)"

definition frac_part :: "pystr \<Rightarrow> pystr" where
  "frac_part s =
     (let ds = takeWhile is_digit (drop 1 s) in if take 1 s = [46] \<and> ds \<noteq> [] then 46 # ds else [])"

definition exp_part :: "pystr \<Rightarrow> pystr" where
  "exp_part s =
     (let sign = (if take 1 (drop 1 s) \<in> {[45], [43]} then take 1 (drop 1 s) else []);
          ds = takeWhile is_digit (drop (Suc (length sign)) s)
      in if take 1 s \<in> {[101], [69]} \<and> ds \<noteq> [] then take 1 s @ sign @ ds else [])"

definition number_parts :: "pystr \<Rightarrow> (pystr \<times> pystr \<times> pystr) option" where
  "number_parts s =
     (let sign = (if take 1 s = [45] then [45] else []);
          whole = whole_part (drop (length sign) s);
          r = drop (length whole) (drop (length sign) s);
          frac = frac_part r;
          r' = drop (length frac) r
      in if whole = [] then None else Some (sign @ whole, frac @ exp_part r', drop (length (exp_part r')) r'))"

definition scan_number :: "reader \<Rightarrow> pystr \<Rightarrow> pyexn + pyval \<times> pystr" where
  "scan_number rd s =
     (case number_parts s of
        None \<Rightarrow> Inl json_error
      | Some (whole, rest, r) \<Rightarrow>
          if rest \<noteq> [] then Inr (VFloat (text_float rd (whole @ rest)), r)
          else
            (let digits = (if take 1 whole = [45] then drop 1 whole else whole) in
             demand (int_digits rd = 0 \<or> length digits \<le> int_digits rd) digit_limit_error
               (Inr (VInt (if take 1 whole = [45] then - int (digits_val 10 digits) else int (digits_val 10 digits)), r))))"

definition literals :: "(pystr \<times> pyval) list" where
  "literals =
     [(u ''null'', VNone), (u ''true'', VBool True), (u ''false'', VBool False), (u ''NaN'', VFloat FNan),
      (u ''Infinity'', VFloat (FInf False)), (u ''-Infinity'', VFloat (FInf True))]"

definition json_scalar :: "reader \<Rightarrow> pystr \<Rightarrow> pyexn + pyval \<times> pystr" where
  "json_scalar rd s =
     (if take 1 s = [34] then rbind (scan_string (drop 1 s)) (\<lambda>(t, r). Inr (VStr t, r))
      else
        (case filter (\<lambda>(l, _). starts_with l s) literals of
           (l, v) # _ \<Rightarrow> Inr (v, drop (length l) s)
         | [] \<Rightarrow> scan_number rd s))"

text \<open>The elements of an array and the members of an object; \<open>f\<close> reads a value, \<open>n\<close> bounds the loop.\<close>

fun json_elements ::
  "nat \<Rightarrow> (pystr \<Rightarrow> pyexn + pyval \<times> pystr) \<Rightarrow> pystr \<Rightarrow> pyexn + pyval list \<times> pystr" where
  "json_elements 0 f s = Inl json_error"
| "json_elements (Suc n) f s =
     rbind (f s) (\<lambda>(v, r).
       (case skip_space r of
          [] \<Rightarrow> Inl json_error
        | c # r' \<Rightarrow>
            if c = 93 then Inr ([v], r')
            else if c = 44 then rbind (json_elements n f (skip_space r')) (\<lambda>(vs, r''). Inr (v # vs, r''))
            else Inl json_error))"

fun json_members ::
  "nat \<Rightarrow> (pystr \<Rightarrow> pyexn + pyval \<times> pystr) \<Rightarrow> pydict \<Rightarrow> pystr \<Rightarrow> pyexn + pydict \<times> pystr" where
  "json_members 0 f d s = Inl json_error"
| "json_members (Suc n) f d s =
     (if take 1 s \<noteq> [34] then Inl json_error
      else
        rbind (scan_string (drop 1 s)) (\<lambda>(k, r).
          (case skip_space r of
             [] \<Rightarrow> Inl json_error
           | c # r' \<Rightarrow>
               if c \<noteq> 58 then Inl json_error
               else
                 rbind (f (skip_space r')) (\<lambda>(v, r).
                   (case skip_space r of
                      [] \<Rightarrow> Inl json_error
                    | c # r' \<Rightarrow>
                        if c = 125 then Inr (AList.update k v d, r')
                        else if c = 44 then json_members n f (AList.update k v d) (skip_space r')
                        else Inl json_error)))))"

primrec json_value :: "reader \<Rightarrow> nat \<Rightarrow> pystr \<Rightarrow> pyexn + pyval \<times> pystr" where
  "json_value rd 0 = (\<lambda>s.
     if take 1 s = [91] \<or> take 1 s = [123] then Inl recursion_error else json_scalar rd s)"
| "json_value rd (Suc n) = (\<lambda>s.
     if take 1 s = [91] then
       (let r = skip_space (drop 1 s) in
        if take 1 r = [93] then Inr (VList [], drop 1 r)
        else rbind (json_elements (length s) (json_value rd n) r) (\<lambda>(vs, r). Inr (VList vs, r)))
     else if take 1 s = [123] then
       (let r = skip_space (drop 1 s) in
        if take 1 r = [125] then Inr (VDict [], drop 1 r)
        else rbind (json_members (length s) (json_value rd n) [] r) (\<lambda>(d, r). Inr (VDict d, r)))
     else json_scalar rd s)"

text \<open>\<^verbatim>\<open>json.loads\<close> on a text, which must not start with a byte-order mark, and on bytes.\<close>

definition json_decode :: "reader \<Rightarrow> pystr \<Rightarrow> pyexn + pyval" where
  "json_decode rd s =
     rbind (json_value rd (max_nesting rd) (skip_space s)) (\<lambda>(v, r).
       if skip_space r = [] then Inr v else Inl json_error)"

definition json_loads :: "reader \<Rightarrow> pystr \<Rightarrow> pyexn + pyval" where
  "json_loads rd s = (if take 1 s = [65279] then Inl json_error else json_decode rd s)"

definition json_loads_bytes :: "reader \<Rightarrow> nat list \<Rightarrow> pyexn + pyval" where
  "json_loads_bytes rd b = rbind (bytes_text rd b) (json_decode rd)"

section \<open>What is written is read back\<close>

lemma escape_control:
  assumes "c < 32"
  shows "json_escape_cp c = [92, 117] @ zero_pad 4 (map (\<lambda>d. if 65 \<le> d then d + 32 else d) (nat_text 16 c))
      \<longrightarrow> unicode_escape (zero_pad 4 (map (\<lambda>d. if 65 \<le> d then d + 32 else d) (nat_text 16 c)) @ t) = Some (c, 4)
        \<and> length (zero_pad 4 (map (\<lambda>d. if 65 \<le> d then d + 32 else d) (nat_text 16 c))) = 4"
proof -
  have one: "nat_text 16 n = [digit_cp n]" if "n < 16" for n
    using that by (subst nat_text.simps) simp
  have two: "nat_text 16 c = [digit_cp 1, digit_cp (c - 16)]" if "16 \<le> c"
  proof -
    have "c div 16 = 1" "c mod 16 = c - 16" using assms that by (simp_all add: div_nat_eqI mod_if)
    then show ?thesis using that one [of 1] by (subst nat_text.simps) simp
  qed
  have hex: "hex_digit (if 65 \<le> digit_cp n then digit_cp n + 32 else digit_cp n) = Some n" if "n < 16" for n
    using that by (auto simp: hex_digit_def digit_cp_def)
  have h1: "hex_digit 49 = Some 1" "hex_digit 48 = Some 0" "digit_cp (Suc 0) = 49" by (simp_all add: hex_digit_def digit_cp_def)
  show ?thesis
  proof (cases "c < 16")
    case True
    then show ?thesis using one [OF True] hex [OF True] h1
      by (simp add: unicode_escape_def hex4_def zero_pad_def numeral_3_eq_3)
  next
    case False
    then have "c - 16 < 16" using assms by simp
    then show ?thesis using two False hex [of "c - 16"] h1 assms
      by (simp add: unicode_escape_def hex4_def zero_pad_def numeral_2_eq_2)
  qed
qed

lemma scan_escape:
  "scan_string (json_escape_cp c @ t) = rbind (scan_string t) (\<lambda>(s, r). Inr (c # s, r))"
proof (cases "c \<in> {34, 92, 10, 13, 9, 12, 8}")
  case True
  then show ?thesis by (auto simp: json_escape_cp_def escape_cp_def)
next
  case False
  show ?thesis
  proof (cases "c < 32")
    case True
    then show ?thesis using escape_control [OF True, of t] False by (simp add: json_escape_cp_def)
  next
    case False': False
    then show ?thesis using False by (simp add: json_escape_cp_def)
  qed
qed

lemma scan_string_text: "scan_string (concat (map json_escape_cp s) @ 34 # rest) = Inr (s, rest)"
  by (induction s) (simp_all add: scan_escape)


text \<open>What may follow a number without becoming part of it.\<close>

definition ends_number :: "pystr \<Rightarrow> bool" where
  "ends_number r \<longleftrightarrow> r = [] \<or> \<not> is_digit (hd r) \<and> hd r \<notin> {46, 101, 69}"

lemma ends_number_head: "ends_number r \<Longrightarrow> r = [] \<or> \<not> is_digit (hd r)"
  by (auto simp: ends_number_def)

lemma nat_text_head: "nat_text 10 n \<noteq> []" "\<forall>c \<in> set (nat_text 10 n). is_digit c"
  "hd (nat_text 10 n) = 48 \<longleftrightarrow> n = 0"
proof -
  show "nat_text 10 n \<noteq> []" by (subst nat_text.simps) simp
  show "\<forall>c \<in> set (nat_text 10 n). is_digit c"
    using nat_text_digits [of 10 _ n] by (fastforce simp: is_digit_def digit_cp_def)
  show "hd (nat_text 10 n) = 48 \<longleftrightarrow> n = 0"
  proof (induction n rule: less_induct)
    case (less n)
    show ?case
    proof (cases "n < 10")
      case True then show ?thesis by (subst nat_text.simps) (simp add: digit_cp_def)
    next
      case False
      have "nat_text 10 (n div 10) \<noteq> []" by (subst nat_text.simps) simp
      then have "hd (nat_text 10 n) = hd (nat_text 10 (n div 10))" using False by (subst nat_text.simps) simp
      then show ?thesis using False less [of "n div 10"] by auto
    qed
  qed
qed

lemma whole_digits:
  assumes "r = [] \<or> \<not> is_digit (hd r)"
  shows "whole_part (nat_text 10 n @ r) = nat_text 10 n"
proof (cases "n = 0")
  case True then show ?thesis by (simp add: nat_text.simps digit_cp_def whole_part_def)
next
  case False
  obtain c cs where t: "nat_text 10 n = c # cs" using nat_text_head(1) [of n] by (cases "nat_text 10 n") auto
  have "takeWhile is_digit (nat_text 10 n @ r) = nat_text 10 n @ takeWhile is_digit r"
    using nat_text_head(2) [of n] by (simp add: takeWhile_append2)
  moreover have "takeWhile is_digit r = []" using assms by (cases r) simp_all
  ultimately show ?thesis using nat_text_head(3) [of n] False t by (simp add: whole_part_def)
qed

lemma number_parts_int:
  assumes "ends_number r"
  shows "number_parts (int_text i @ r) = Some (int_text i, [], r)"
proof -
  have h: "hd (nat_text 10 n) \<noteq> 45" for n
    using nat_text_head(1,2) [of n] by (auto simp: is_digit_def dest!: hd_in_set)
  have sign: "take 1 (nat_text 10 n @ r) \<noteq> [45]" for n
    using h [of n] nat_text_head(1) [of n] by (cases "nat_text 10 n") auto
  have tail: "frac_part r = []" "exp_part r = []"
    using assms by (cases r; simp add: ends_number_def frac_part_def exp_part_def Let_def)+
  have parts: "number_parts (sg @ nat_text 10 n @ r) = Some (sg @ nat_text 10 n, [], r)"
    if "(if take 1 (sg @ nat_text 10 n @ r) = [45] then [45] else []) = sg" for sg n
    unfolding number_parts_def Let_def that
    using whole_digits [OF ends_number_head [OF assms], of n] tail nat_text_head(1) [of n] by simp
  show ?thesis using parts [of "[]"] parts [of "[45]"] sign by (simp add: int_text_def u_def)
qed

lemma scan_int:
  assumes "ends_number r" and "int_digits rd = 0 \<or> length (nat_text 10 (nat \<bar>i\<bar>)) \<le> int_digits rd"
  shows "scan_number rd (int_text i @ r) = Inr (VInt i, r)"
proof -
  have h: "hd (nat_text 10 n) \<noteq> 45" for n
    using nat_text_head(1,2) [of n] by (auto simp: is_digit_def dest!: hd_in_set)
  have sign: "take 1 (nat_text 10 n) \<noteq> [45]" for n
    using h [of n] nat_text_head(1) [of n] by (cases "nat_text 10 n") auto
  show ?thesis
    unfolding scan_number_def number_parts_int [OF assms(1)]
    using assms(2) sign digits_val_nat_text [of 10] by (auto simp: int_text_def u_def)
qed


fun distinct_keys :: "pyval \<Rightarrow> bool" where
  "distinct_keys (VList xs) \<longleftrightarrow> list_all distinct_keys xs"
| "distinct_keys (VDict d) \<longleftrightarrow> distinct (map fst d) \<and> list_all (\<lambda>kv. distinct_keys (snd kv)) d"
| "distinct_keys _ \<longleftrightarrow> True"

text \<open>\<^verbatim>\<open>float(repr(x)) == x\<close>: the text of a finite float is a number that denotes it.\<close>

definition reads_back :: "reader \<Rightarrow> interp \<Rightarrow> bool" where
  "reads_back rd py \<longleftrightarrow>
     int_digits rd = digit_limit py
     \<and> (\<forall>r rest. ends_number rest \<longrightarrow> scan_number rd (float_text py r @ rest) = Inr (VFloat (FFin r), rest))"

definition value_head :: "pystr \<Rightarrow> bool" where
  "value_head t \<longleftrightarrow> t \<noteq> [] \<and> \<not> json_space (hd t) \<and> hd t \<noteq> 93 \<and> hd t \<noteq> 125"

lemma number_parts_head:
  assumes "number_parts s \<noteq> None"
  obtains c r where "s = c # r" "is_digit c" | c r where "s = 45 # c # r" "is_digit c"
proof -
  have d: "\<exists>c r. s' = c # r \<and> is_digit c" if "whole_part s' \<noteq> []" for s'
    using that by (cases s') (auto simp: whole_part_def is_digit_def split: if_splits)
  show thesis
  proof (cases "take 1 s = [45]")
    case True
    then have "whole_part (drop 1 s) \<noteq> []" using assms by (auto simp: number_parts_def Let_def)
    then show thesis using d [of "drop 1 s"] True that by (cases s) auto
  next
    case False
    then have "whole_part s \<noteq> []" using assms by (auto simp: number_parts_def Let_def)
    then show thesis using d [of s] that by auto
  qed
qed

lemma number_head:
  assumes "scan_number rd s = Inr x"
  shows "value_head s \<and> take 1 s \<notin> {[91], [123], [34]} \<and> filter (\<lambda>(l, _). starts_with l s) literals = []"
proof -
  have "number_parts s \<noteq> None" using assms by (cases "number_parts s") (simp_all add: scan_number_def)
  then show ?thesis
    by (rule number_parts_head)
      (auto simp: value_head_def json_space_def is_digit_def literals_def starts_with_def u_def)
qed

lemma scalar_number:
  assumes "scan_number rd s = Inr x"
  shows "json_value rd n s = Inr x" "value_head s"
proof -
  have "json_scalar rd s = Inr x" using number_head [OF assms] assms by (simp add: json_scalar_def)
  then show "json_value rd n s = Inr x" using number_head [OF assms] by (cases n) simp_all
  show "value_head s" using number_head [OF assms] by simp
qed

lemma literal_text:
  "json_value rd n (u ''null'' @ rest) = Inr (VNone, rest)" "json_value rd n (u ''true'' @ rest) = Inr (VBool True, rest)"
  "json_value rd n (u ''false'' @ rest) = Inr (VBool False, rest)" "json_value rd n (u ''NaN'' @ rest) = Inr (VFloat FNan, rest)"
  "json_value rd n (u ''Infinity'' @ rest) = Inr (VFloat (FInf False), rest)"
  "json_value rd n (u ''-Infinity'' @ rest) = Inr (VFloat (FInf True), rest)"
  by (cases n; simp add: literals_def json_scalar_def starts_with_def u_def)+

lemma literal_heads:
  "value_head (u ''null'')" "value_head (u ''true'')" "value_head (u ''false'')" "value_head (u ''NaN'')"
  "value_head (u ''Infinity'')" "value_head (u ''-Infinity'')"
  by (simp_all add: u_def value_head_def json_space_def)

lemma string_text: "json_value rd n (json_string s @ rest) = Inr (VStr s, rest)"
  by (cases n) (simp_all add: json_scalar_def json_string_def scan_string_text)

lemma skip_value: "value_head t \<Longrightarrow> skip_space (t @ rest) = t @ rest"
  by (cases t) (simp_all add: value_head_def skip_space_def)

lemma json_elements_text:
  assumes "list_all2 (\<lambda>v t. value_head t \<and> (\<forall>rest. ends_number rest \<longrightarrow> f (t @ rest) = Inr (v, rest))) vs ts"
    and "vs \<noteq> []" and "length vs \<le> m"
  shows "json_elements m f (join [44] ts @ 93 # rest) = Inr (vs, rest)"
  using assms
proof (induction vs ts arbitrary: m rule: list_all2_induct)
  case (Cons v vs t ts)
  then obtain m' where m: "m = Suc m'" by (cases m) auto
  have sp: "skip_space (c # r) = c # r" if "c \<in> {44, 93}" for c r
    using that by (auto simp: skip_space_def json_space_def)
  have en: "ends_number (c # r)" if "c \<in> {44, 93}" for c r
    using that by (auto simp: ends_number_def is_digit_def)
  show ?case
  proof (cases ts)
    case Nil
    then show ?thesis using Cons m sp en by simp
  next
    case (Cons t' ts')
    then have "vs \<noteq> []" using Cons.hyps(2) by auto
    moreover have "length vs \<le> m'" using Cons.prems(2) m by simp
    moreover have "value_head t'" using Cons.hyps(2) \<open>ts = t' # ts'\<close> by (auto simp: list_all2_Cons2)
    then have "skip_space (join [44] (t' # ts') @ 93 # rest) = join [44] (t' # ts') @ 93 # rest"
      using skip_value [of t' "(if ts' = [] then [] else 44 # join [44] ts') @ 93 # rest"] by (cases ts') auto
    ultimately show ?thesis using Cons.IH [of m'] Cons.hyps(1) m sp en \<open>ts = t' # ts'\<close> by simp
  qed
qed simp


lemma update_fresh: "k \<notin> fst ` set d \<Longrightarrow> AList.update k v d = d @ [(k, v)]"
  by (induction d) auto

lemma json_members_text:
  assumes "list_all2 (\<lambda>kv t. \<exists>w. t = json_string (fst kv) @ [58] @ w \<and> value_head w
      \<and> (\<forall>rest. ends_number rest \<longrightarrow> f (w @ rest) = Inr (snd kv, rest))) es ts"
    and "es \<noteq> []" and "length es \<le> m" and "distinct (map fst (d @ es))"
  shows "json_members m f d (join [44] ts @ 125 # rest) = Inr (d @ es, rest)"
  using assms
proof (induction es ts arbitrary: m d rule: list_all2_induct)
  case (Cons kv es t ts)
  obtain w where w: "t = json_string (fst kv) @ [58] @ w" "value_head w"
    "\<And>rest. ends_number rest \<Longrightarrow> f (w @ rest) = Inr (snd kv, rest)" using Cons.hyps(1) by blast
  obtain m' where m: "m = Suc m'" using Cons.prems(2) by (cases m) auto
  have upd: "AList.update (fst kv) (snd kv) d = d @ [kv]"
    using Cons.prems(3) update_fresh [of "fst kv" d "snd kv"] by auto
  have sp: "skip_space (c # r) = c # r" if "c \<in> {44, 125, 58, 34}" for c r
    using that by (auto simp: skip_space_def json_space_def)
  have en: "ends_number (c # r)" if "c \<in> {44, 125}" for c r
    using that by (auto simp: ends_number_def is_digit_def)
  have str: "scan_string (concat (map json_escape_cp k) @ 34 # r) = Inr (k, r)" for k r by (rule scan_string_text)
  have key: "json_members m f d (t @ r) =
      (case r of [] \<Rightarrow> Inl json_error | c # r' \<Rightarrow>
         if c = 125 then Inr (d @ [kv], r')
         else if c = 44 then json_members m' f (d @ [kv]) (skip_space r') else Inl json_error)"
    if "\<exists>c r'. r = c # r' \<and> c \<in> {44, 125}" for r
    using that w(3) [of r] en sp upd skip_value [OF w(2), of r]
    by (auto simp: w(1) m json_string_def str)
  show ?case
  proof (cases ts)
    case Nil
    then show ?thesis using Cons.hyps(2) key [of "125 # rest"] by simp
  next
    case (Cons t' ts')
    then obtain es' kv' where es: "es = kv' # es'" using Cons.hyps(2) by (auto simp: list_all2_Cons2)
    have "\<exists>r. join [44] ts = 34 # r" using Cons.hyps(2) Cons es by (cases ts') (auto simp: json_string_def)
    then have "skip_space (join [44] ts @ 125 # rest) = join [44] ts @ 125 # rest" using sp by auto
    then show ?thesis
      using Cons.IH [of m' "d @ [kv]"] Cons.prems m es key [of "44 # join [44] ts @ 125 # rest"] Cons by simp
  qed
qed simp

lemma join_length: "\<forall>t \<in> set ts. t \<noteq> [] \<Longrightarrow> length ts \<le> length (join sep ts)"
  by (induction sep ts rule: join.induct) (auto simp: neq_Nil_conv)


lemma foldr_max_less: "foldr max ns 0 < Suc k \<longleftrightarrow> (\<forall>n \<in> set ns. n \<le> (k :: nat))"
  by (induction ns) auto

lemma json_read_text:
  assumes "reads_back rd py"
  shows "json_text py False nan v = Inr t \<Longrightarrow> distinct_keys v \<Longrightarrow> nesting v < n
    \<Longrightarrow> value_head t \<and> (\<forall>rest. ends_number rest \<longrightarrow> json_value rd n (t @ rest) = Inr (v, rest))"
proof (induction v arbitrary: t n)
  case (VInt i)
  have en: "ends_number []" by (simp add: ends_number_def)
  have "t = int_text i" "digits_allowed py (length (nat_text 10 (nat \<bar>i\<bar>)))"
    using VInt(1) by (auto simp: int_str_def demand_eq_Inr)
  then have "scan_number rd (t @ rest) = Inr (VInt i, rest)" if "ends_number rest" for rest
    using scan_int [OF that, of rd i] assms by (simp add: reads_back_def digits_allowed_def)
  then show ?case using scalar_number(1) scalar_number(2) [of rd "t @ []"] en by fastforce
next
  case (VFloat f)
  have en: "ends_number []" by (simp add: ends_number_def)
  show ?case
  proof (cases f)
    case (FFin r)
    then have "scan_number rd (t @ rest) = Inr (VFloat (FFin r), rest)" if "ends_number rest" for rest
      using VFloat assms that by (auto simp: reads_back_def)
    then show ?thesis using scalar_number(1) scalar_number(2) [of rd "t @ []"] en FFin by fastforce
  qed (use VFloat in \<open>auto simp: literal_text literal_heads split: if_splits\<close>)
next
  case (VStr s)
  then show ?case
    using string_text [of rd n s] by (auto simp: value_head_def json_string_def json_space_def)
next
  case (VList vs)
  then obtain ts where ts: "list_all2 (\<lambda>v t. json_text py False nan v = Inr t) vs ts" "t = [91] @ join [44] ts @ [93]"
    by (auto simp: rbind_eq_Inr rmap_Inr_iff)
  have head: "value_head t" using ts(2) by (simp add: value_head_def json_space_def)
  show ?case
  proof (cases vs)
    case Nil
    then show ?thesis using ts head VList.prems(3) by (cases n) (auto simp: skip_space_def json_space_def)
  next
    case (Cons v0 vs0)
    then obtain n' where n: "n = Suc n'" using VList.prems(3) by (cases n) auto
    have el: "list_all2 (\<lambda>v t. value_head t \<and> (\<forall>rest. ends_number rest \<longrightarrow> json_value rd n' (t @ rest) = Inr (v, rest))) vs ts"
      unfolding list_all2_conv_all_nth
    proof (intro conjI allI impI)
      show "length vs = length ts" using ts(1) by (rule list_all2_lengthD)
      fix i assume i: "i < length vs"
      then have "json_text py False nan (vs ! i) = Inr (ts ! i)" using ts(1) by (simp add: list_all2_conv_all_nth)
      moreover have "distinct_keys (vs ! i)" "nesting (vs ! i) < n'"
        using VList.prems(2,3) i n by (auto simp: list_all_length foldr_max_less Suc_le_eq)
      ultimately show "value_head (ts ! i)" "ends_number rest \<Longrightarrow> json_value rd n' (ts ! i @ rest) = Inr (vs ! i, rest)" for rest
        using VList.IH [of "vs ! i" "ts ! i" n'] i by auto
    qed
    have "\<forall>t \<in> set ts. t \<noteq> []" using el by (auto simp: list_all2_conv_all_nth in_set_conv_nth value_head_def)
    then have len: "length vs \<le> length (join [44] ts)" using join_length list_all2_lengthD [OF el] by metis
    obtain t0 ts0 where t0: "ts = t0 # ts0" "value_head t0" using el Cons by (auto simp: list_all2_Cons1)
    have sk: "skip_space (join [44] ts @ r) = join [44] ts @ r \<and> take 1 (join [44] ts @ r) \<noteq> [93]" for r
      using t0 skip_value [OF t0(2), of "(if ts0 = [] then [] else 44 # join [44] ts0) @ r"]
      by (cases ts0; cases t0) (auto simp: value_head_def)
    have "json_elements (length (t @ rest)) (json_value rd n') (join [44] ts @ 93 # rest) = Inr (vs, rest)" for rest
      by (rule json_elements_text [OF el]) (use len Cons ts(2) in simp_all)
    then show ?thesis using head sk n ts(2) by (simp add: Let_def)
  qed
next
  case (VDict d)
  have member: "rbind m (\<lambda>t. Inr (k @ [58] @ t)) = Inr t' \<longleftrightarrow> (\<exists>w. m = Inr w \<and> t' = k @ [58] @ w)"
    for m :: "pyexn + pystr" and k t' by (auto simp: rbind_eq_Inr)
  obtain ts where ts: "list_all2 (\<lambda>kv t. \<exists>w. json_text py False nan (snd kv) = Inr w \<and> t = json_string (fst kv) @ [58] @ w) d ts"
    "t = [123] @ join [44] ts @ [125]"
    using VDict.prems(1) unfolding json_text.simps item_order_def rbind_eq_Inr [of "rmap _ _"] rmap_Inr_iff member by auto
  have head: "value_head t" using ts(2) by (simp add: value_head_def json_space_def)
  show ?case
  proof (cases d)
    case Nil
    then show ?thesis using ts head VDict.prems(3) by (cases n) (auto simp: skip_space_def json_space_def)
  next
    case (Cons kv0 d0)
    then obtain n' where n: "n = Suc n'" using VDict.prems(3) by (cases n) auto
    have el: "list_all2 (\<lambda>kv t. \<exists>w. t = json_string (fst kv) @ [58] @ w \<and> value_head w
      \<and> (\<forall>rest. ends_number rest \<longrightarrow> json_value rd n' (w @ rest) = Inr (snd kv, rest))) d ts"
      unfolding list_all2_conv_all_nth
    proof (intro conjI allI impI)
      show "length d = length ts" using ts(1) by (rule list_all2_lengthD)
      fix i assume i: "i < length d"
      then obtain w where w: "json_text py False nan (snd (d ! i)) = Inr w" "ts ! i = json_string (fst (d ! i)) @ [58] @ w"
        using ts(1) by (auto simp: list_all2_conv_all_nth)
      have "distinct_keys (snd (d ! i))" "nesting (snd (d ! i)) < n'"
        using VDict.prems(2,3) i n by (auto simp: list_all_length foldr_max_less Suc_le_eq)
      then show "\<exists>w. ts ! i = json_string (fst (d ! i)) @ [58] @ w \<and> value_head w
          \<and> (\<forall>rest. ends_number rest \<longrightarrow> json_value rd n' (w @ rest) = Inr (snd (d ! i), rest))"
        using VDict.IH [of "d ! i" "snd (d ! i)" w n'] w i nth_mem [OF i] by (cases "d ! i") (auto simp: snds.simps)
    qed
    have "\<forall>t \<in> set ts. t \<noteq> []"
      using el by (fastforce simp: list_all2_conv_all_nth in_set_conv_nth json_string_def)
    then have len: "length d \<le> length (join [44] ts)" using join_length list_all2_lengthD [OF el] by metis
    have "\<exists>q. join [44] ts = 34 # q"
      using el Cons by (cases ts; cases "tl ts") (auto simp: json_string_def list_all2_Cons1)
    then have sk: "skip_space (join [44] ts @ r) = join [44] ts @ r \<and> take 1 (join [44] ts @ r) \<noteq> [125]" for r
      by (auto simp: skip_space_def json_space_def)
    have "json_members (length (t @ rest)) (json_value rd n') [] (join [44] ts @ 125 # rest) = Inr (d, rest)" for rest
      using json_members_text [OF el, of "length (t @ rest)" "[]" rest] len Cons ts(2) VDict.prems(2)
      by (simp del: json_members.simps)
    then show ?thesis using head sk n ts(2) by (simp add: Let_def)
  qed
qed (auto simp: literal_text literal_heads split: if_splits)

lemma json_roundtrip:
  assumes "reads_back rd py" and "json_text py False nan v = Inr t" and "distinct_keys v" and "nesting v < max_nesting rd"
    and "skip_space end_of_line = []"
  shows "json_decode rd (t @ end_of_line) = Inr v"
proof -
  have "ends_number end_of_line"
    using assms(5) by (cases end_of_line) (auto simp: ends_number_def skip_space_def json_space_def is_digit_def split: if_splits)
  then show ?thesis
    using json_read_text [OF assms(1-4)] skip_value [of t end_of_line] assms(5) by (simp add: json_decode_def)
qed


text \<open>
  An interpreter and a reader that agree: a float is written as the number of its rational in an
  enumeration, followed by a fraction.
\<close>

definition counting_interp :: interp where
  "counting_interp =
     \<lparr>float_text = (\<lambda>r. nat_text 10 (to_nat r) @ [46, 48]), sha256 = (\<lambda>_. replicate 64 48), digit_limit = 4300\<rparr>"

definition counting_reader :: reader where
  "counting_reader =
     \<lparr>text_float = (\<lambda>s. FFin (from_nat (digits_val 10 (takeWhile is_digit s)))), bytes_text = Inr,
      int_digits = 4300, max_nesting = 1000\<rparr>"

lemma counting_reads_back: "reads_back counting_reader counting_interp"
proof -
  have "scan_number counting_reader (float_text counting_interp r @ rest) = Inr (VFloat (FFin r), rest)"
    if rest: "ends_number rest" for r rest
  proof -
    let ?n = "nat_text 10 (to_nat r)"
    have n: "?n \<noteq> []" "\<forall>c \<in> set ?n. is_digit c" using nat_text_head(1,2) by blast+
    have sign: "take 1 (?n @ s) \<noteq> [45]" for s using n by (cases ?n) (auto simp: is_digit_def)
    have zero: "takeWhile is_digit (48 # rest) = [48]"
      using rest by (cases rest) (auto simp: ends_number_def is_digit_def)
    have f: "frac_part (46 # 48 # rest) = [46, 48]" using zero by (simp add: frac_part_def)
    have e: "exp_part rest = []" using rest by (cases rest) (auto simp: exp_part_def ends_number_def Let_def)
    have "number_parts (?n @ 46 # 48 # rest) = Some (?n, [46, 48], rest)"
      using sign [of "46 # 48 # rest"] whole_digits [of "46 # 48 # rest" "to_nat r"] n(1) f e
      by (simp add: number_parts_def Let_def is_digit_def)
    moreover have "takeWhile is_digit (?n @ [46, 48]) = ?n"
      using n(2) by (simp add: takeWhile_append2 is_digit_def)
    ultimately show ?thesis
      by (simp add: scan_number_def counting_interp_def counting_reader_def digits_val_nat_text)
  qed
  then show ?thesis by (simp add: reads_back_def counting_interp_def counting_reader_def)
qed

end
