(* ===== verification/Worker_Protocol.thy ===== *)
theory Worker_Protocol
  imports Json_Reader Output_Policy
begin

text \<open>
  \<^verbatim>\<open>worker.py\<close>: the process that executes operations. It reads one request per line from its input, runs
  each under a processor limit of its own, applies the output policy and writes one response per line,
  stamped with the monotonic clock. \<^verbatim>\<open>execute_direct\<close>, the clock and the consumed processor time are the
  fields of \<open>worker_env\<close>.
\<close>

section \<open>The budget of a request\<close>

definition request_timeout_ms :: "pydict \<Rightarrow> int" where
  "request_timeout_ms payload =
     (case dget payload (u ''timeoutMs'') (VInt 10000) of
        VInt t \<Rightarrow> max 100 (min t 30000)
      | _ \<Rightarrow> 10000)"

text \<open>
  \<^verbatim>\<open>resource.getrlimit(RLIMIT_CPU)\<close>: the soft limit and the hard limit, \<open>None\<close> for no limit. A soft limit
  above the hard limit is refused.
\<close>

type_synonym cpu_limits = "int option \<times> int option"

definition cpu_budget_seconds :: "pydict \<Rightarrow> int" where
  "cpu_budget_seconds payload = max 1 \<lceil>rat_of_int (request_timeout_ms payload) / 1000\<rceil>"

definition apply_limits :: "rat \<Rightarrow> pydict \<Rightarrow> cpu_limits \<Rightarrow> pyexn + cpu_limits" where
  "apply_limits consumed_seconds payload limits =
     (let soft = \<lceil>consumed_seconds\<rceil> + cpu_budget_seconds payload; hard = snd limits
      in demand (case hard of None \<Rightarrow> True | Some h \<Rightarrow> soft \<le> h)
           (PyExn (u ''ValueError'') (u ''current limit exceeds maximum limit''))
           (Inr (Some soft, hard)))"

definition clear_cpu_limit :: "cpu_limits \<Rightarrow> cpu_limits" where
  "clear_cpu_limit limits = (snd limits, snd limits)"

section \<open>Executing a request\<close>

text \<open>
  What the worker reads of its surroundings, per request: the processor time it has consumed, the
  monotonic clock when it writes, and \<^verbatim>\<open>execute_direct\<close>.
\<close>

record worker_env =
  worker_python :: interp
  worker_reader :: reader
  cpu_seconds :: "nat \<Rightarrow> rat"
  completed_at :: "nat \<Rightarrow> rat"
  direct :: "nat \<Rightarrow> pyval \<Rightarrow> pyval \<Rightarrow> int \<Rightarrow> pyexn + pydict"

text \<open>
  \<^verbatim>\<open>str(error)\<close>. The output options of a payload are the text and the integer the supervisor has
  validated; without them the defaults apply.
\<close>

fun exn_text :: "pyexn \<Rightarrow> pystr" where
  "exn_text (CalcError code message details) = message"
| "exn_text (CertError message) = message"
| "exn_text (BudgetError message rule) = message"
| "exn_text (PyExn cls message) = message"

definition bounded_result :: "interp \<Rightarrow> pydict \<Rightarrow> pydict \<Rightarrow> pyexn + pydict" where
  "bounded_result py payload result =
     (case (dget payload (u ''resultMode'') (VStr DEFAULT_RESULT_MODE),
            dget payload (u ''maxOutputBytes'') (VInt DEFAULT_MAX_OUTPUT_BYTES)) of
        (VStr mode, VInt bytes) \<Rightarrow> apply_output_policy py result mode bytes
      | _ \<Rightarrow> Inl (PyExn (u ''TypeError'') (u ''output options must be a text and an integer'')))"

definition failed_request :: "interp \<Rightarrow> pydict \<Rightarrow> pydict \<Rightarrow> pyexn + pydict" where
  "failed_request py payload error =
     rbind (bounded_result py payload [(u ''status'', VStr (u ''error'')), (u ''error'', VDict error)]) (\<lambda>r.
       case dget_none r (u ''error'') of
         VNone \<Rightarrow> Inl (PyExn (u ''KeyError'') (u ''error''))
       | e \<Rightarrow> Inr [(u ''ok'', VBool False), (u ''error'', e)])"

definition execute_payload :: "worker_env \<Rightarrow> nat \<Rightarrow> pydict \<Rightarrow> cpu_limits \<Rightarrow> (pyexn + pydict) \<times> cpu_limits" where
  "execute_payload env n payload limits =
     (case apply_limits (cpu_seconds env n) payload limits of
        Inl e \<Rightarrow> (Inl e, limits)
      | Inr armed \<Rightarrow>
          (let py = worker_python env;
               attempt =
                 (case map_of payload (u ''operation'') of
                    None \<Rightarrow> Inl (PyExn (u ''KeyError'') (u ''operation''))
                  | Some operation \<Rightarrow>
                      rbind (direct env n operation (dget payload (u ''arguments'') (VDict []))
                               (request_timeout_ms payload)) (\<lambda>result.
                      rbind (bounded_result py payload result) (\<lambda>r.
                        Inr [(u ''ok'', VBool True), (u ''result'', VDict r)])))
           in (case attempt of
                 Inr response \<Rightarrow> Inr response
               | Inl (CalcError code message details) \<Rightarrow> failed_request py payload (as_dict code message details)
               | Inl e \<Rightarrow>
                   failed_request py payload
                     (error_payload (u ''E_RUNTIME'') (u ''worker failed: '' @ exn_text e) None None None None),
               clear_cpu_limit armed)))"

text \<open>\<^verbatim>\<open>_write_response\<close>: the response is stamped and written as one line.\<close>

definition write_response :: "interp \<Rightarrow> rat \<Rightarrow> pydict \<Rightarrow> pyexn + pystr" where
  "write_response py now response =
     rbind (json_text py False True
              (VDict (AList.update (u ''_completedAtMonotonic'') (VFloat (FFin now)) response)))
       (\<lambda>t. Inr (t @ [10]))"

section \<open>Reading requests\<close>

text \<open>\<^verbatim>\<open>stdin.buffer.readline(n)\<close>: up to a newline, \<open>n\<close> bytes or the end of the stream.\<close>

fun readline :: "nat \<Rightarrow> nat list \<Rightarrow> nat list \<times> nat list" where
  "readline 0 bs = ([], bs)"
| "readline (Suc n) [] = ([], [])"
| "readline (Suc n) (b # bs) =
     (if b = 10 then ([b], bs) else (case readline n bs of (l, r) \<Rightarrow> (b # l, r)))"

lemma readline_append: "readline n bs = (l, r) \<Longrightarrow> bs = l @ r"
  by (induction n bs arbitrary: l r rule: readline.induct) (auto split: if_splits prod.splits)

lemma readline_progress: "bs \<noteq> [] \<Longrightarrow> readline (Suc n) bs = (l, r) \<Longrightarrow> length r < length bs"
  using readline_append [of "Suc n" bs l r] by (cases bs) (auto split: if_splits prod.splits)

lemma readline_rest: "(l, r) = readline n bs \<Longrightarrow> l \<noteq> [] \<Longrightarrow> length r < length bs"
  by (frule readline_append [OF sym]) simp

text \<open>The loop that drops the rest of a line that is too long; \<open>line\<close> is what was read last.\<close>

function drop_line :: "nat list \<Rightarrow> nat list \<Rightarrow> nat list" where
  "drop_line line bs =
     (if line = [] \<or> last line = 10 then bs
      else (case readline (Suc MAX_REQUEST_BYTES) bs of (l, r) \<Rightarrow> if l = [] then r else drop_line l r))"
  by pat_completeness auto
termination
  by (relation "measure (length \<circ> snd)") (auto, metis readline_rest snd_conv)

declare drop_line.simps [simp del]

definition oversize_error :: pyexn where
  "oversize_error =
     PyExn (u ''ValueError'')
       (u ''worker request exceeds the cumulative '' @ int_text (int MAX_REQUEST_BYTES) @ u ''-byte transport limit'')"

definition read_request_line :: "nat list \<Rightarrow> (pyexn + nat list option) \<times> nat list" where
  "read_request_line bs =
     (case readline (Suc MAX_REQUEST_BYTES) bs of (line, rest) \<Rightarrow>
        if line = [] then (Inr None, rest)
        else if MAX_REQUEST_BYTES < length line then (Inl oversize_error, drop_line line rest)
        else (Inr (Some line), rest))"

definition decode_request :: "reader \<Rightarrow> nat list \<Rightarrow> pyexn + pydict" where
  "decode_request rd line =
     (case json_loads_bytes rd line of
        Inr (VDict payload) \<Rightarrow> Inr payload
      | Inr _ \<Rightarrow> Inl (PyExn (u ''ValueError'') (u ''worker request must be a JSON object''))
      | Inl (PyExn cls message) \<Rightarrow>
          Inl (if cls \<in> {u ''JSONDecodeError'', u ''UnicodeDecodeError''}
               then PyExn (u ''ValueError'') (u ''worker request must be JSON'') else PyExn cls message)
      | Inl e \<Rightarrow> Inl e)"

definition request_error :: "string \<Rightarrow> pystr \<Rightarrow> pydict" where
  "request_error code message =
     [(u ''ok'', VBool False), (u ''error'', VDict [(u ''code'', VStr (u code)), (u ''message'', VStr message)])]"

section \<open>The loop of a persistent worker\<close>

text \<open>
  One request: its response, or the exception that ends the worker. A refused line raises \<^verbatim>\<open>ValueError\<close>,
  every other exception of decoding is not caught.
\<close>

definition answer_line :: "worker_env \<Rightarrow> nat \<Rightarrow> nat list \<Rightarrow> cpu_limits \<Rightarrow> (pyexn + pydict) \<times> cpu_limits" where
  "answer_line env n line limits =
     (case decode_request (worker_reader env) line of
        Inl (PyExn cls message) \<Rightarrow>
          (if cls = u ''ValueError'' then Inr (request_error ''E_INPUT'' message) else Inl (PyExn cls message), limits)
      | Inl e \<Rightarrow> (Inl e, limits)
      | Inr payload \<Rightarrow> execute_payload env n payload limits)"

text \<open>
  \<open>serve env n limits bs\<close> is what the worker writes, line by line, for the bytes that remain on its
  input, and the exception that ended it, if any; \<open>n\<close> counts the requests.
\<close>

definition written :: "worker_env \<Rightarrow> nat \<Rightarrow> (pyexn + pydict) \<times> cpu_limits \<Rightarrow> (pyexn + pystr) \<times> cpu_limits" where
  "written env n r = (rbind (fst r) (write_response (worker_python env) (completed_at env n)), snd r)"

lemma drop_line_shorter: "length (drop_line line bs) \<le> length bs"
proof (induction line bs rule: drop_line.induct)
  case (1 line bs)
  obtain l r where lr: "readline (Suc MAX_REQUEST_BYTES) bs = (l, r)" by fastforce
  then show ?case
    using 1 [OF _ lr [symmetric]] readline_append [OF lr] by (subst drop_line.simps) (auto simp: lr)
qed

lemma read_request_progress:
  assumes "read_request_line bs = (r, rest)" and "r \<noteq> Inr None"
  shows "length rest < length bs"
proof -
  obtain l q where lq: "readline (Suc MAX_REQUEST_BYTES) bs = (l, q)" by fastforce
  then have "bs = l @ q" by (rule readline_append)
  then show ?thesis
    using assms lq drop_line_shorter [of l q] by (auto simp: read_request_line_def split: if_splits)
qed

function serve :: "worker_env \<Rightarrow> nat \<Rightarrow> cpu_limits \<Rightarrow> nat list \<Rightarrow> pystr list \<times> pyexn option" where
  "serve env n limits bs =
     (case read_request_line bs of
        (Inr None, _) \<Rightarrow> ([], None)
      | (r, rest) \<Rightarrow>
          (case written env n
                  (case r of
                     Inl e \<Rightarrow> (Inr (request_error ''E_LIMIT'' (exn_text e)), limits)
                   | Inr line \<Rightarrow> answer_line env n (the line) limits) of
             (Inl e, _) \<Rightarrow> ([], Some e)
           | (Inr text, limits') \<Rightarrow> (case serve env (Suc n) limits' rest of (ts, end) \<Rightarrow> (text # ts, end))))"
  by pat_completeness auto
termination
  by (relation "measure (\<lambda>(_, _, _, bs). length bs)") (auto dest!: sym [of "(_, _)" "read_request_line _"] read_request_progress)

declare serve.simps [simp del]


section \<open>Requests are answered line by line\<close>

definition request_line :: "nat list \<Rightarrow> bool" where
  "request_line l \<longleftrightarrow> l \<noteq> [] \<and> last l = 10 \<and> 10 \<notin> set (butlast l)"

fun serve_lines :: "worker_env \<Rightarrow> nat \<Rightarrow> cpu_limits \<Rightarrow> nat list list \<Rightarrow> pystr list \<times> pyexn option" where
  "serve_lines env n limits [] = ([], None)"
| "serve_lines env n limits (l # ls) =
     (case written env n
             (if MAX_REQUEST_BYTES < length l then (Inr (request_error ''E_LIMIT'' (exn_text oversize_error)), limits)
              else answer_line env n l limits) of
        (Inl e, _) \<Rightarrow> ([], Some e)
      | (Inr text, limits') \<Rightarrow> (case serve_lines env (Suc n) limits' ls of (ts, end) \<Rightarrow> (text # ts, end)))"

lemma readline_line:
  assumes "request_line l"
  shows "readline n (l @ rest) = (take n l, drop n l @ rest)"
  using assms
proof (induction n arbitrary: l)
  case (Suc n)
  then obtain b bs where l: "l = b # bs" by (cases l) (auto simp: request_line_def)
  show ?case
  proof (cases "b = 10")
    case True
    then have "bs = []" using Suc.prems l by (cases bs) (auto simp: request_line_def)
    then show ?thesis using True l by simp
  next
    case False
    then have "request_line bs" using Suc.prems l by (cases bs) (auto simp: request_line_def)
    then show ?thesis using Suc.IH False l by simp
  qed
qed simp

lemma request_line_drop: "request_line l \<Longrightarrow> n < length l \<Longrightarrow> request_line (drop n l)"
  by (auto simp: request_line_def butlast_drop dest: in_set_dropD)

lemma take_not_end: "request_line l \<Longrightarrow> 0 < n \<Longrightarrow> n < length l \<Longrightarrow> take n l \<noteq> [] \<and> last (take n l) \<noteq> 10"
proof -
  assume l: "request_line l" "0 < n" "n < length l"
  then have "take n l \<noteq> []" by auto
  then have "last (take n l) = take n l ! (length (take n l) - 1)" by (rule last_conv_nth)
  then have "last (take n l) = l ! (n - 1)" "n - 1 < length (butlast l)" using l by simp_all
  moreover have "butlast l ! (n - 1) \<in> set (butlast l)" using calculation(2) by (rule nth_mem)
  ultimately show ?thesis using l by (auto simp: request_line_def nth_butlast)
qed

lemma drop_line_rest:
  assumes "request_line l" and "line \<noteq> []" "last line \<noteq> 10"
  shows "drop_line line (l @ rest) = rest"
  using assms
proof (induction "length l" arbitrary: l line rule: less_induct)
  case less
  let ?n = "Suc MAX_REQUEST_BYTES"
  have step: "drop_line line (l @ rest) = drop_line (take ?n l) (drop ?n l @ rest)"
    using less.prems readline_line [OF less.prems(1), of ?n rest]
    by (subst drop_line.simps) (auto simp: request_line_def)
  show ?case
  proof (cases "?n < length l")
    case True
    then show ?thesis
      using step less.hyps [of "drop ?n l" "take ?n l"] request_line_drop [OF less.prems(1) True]
        take_not_end [OF less.prems(1) _ True] by auto
  next
    case False
    then show ?thesis using step less.prems(1) by (subst (asm) (2) drop_line.simps) (simp add: request_line_def)
  qed
qed

lemma read_request_line_line:
  assumes "request_line l"
  shows "read_request_line (l @ rest)
    = (if MAX_REQUEST_BYTES < length l then Inl oversize_error else Inr (Some l), rest)"
proof (cases "MAX_REQUEST_BYTES < length l")
  case False
  then show ?thesis using readline_line [OF assms, of "Suc MAX_REQUEST_BYTES" rest] assms
    by (auto simp: read_request_line_def request_line_def)
next
  case True
  show ?thesis
  proof (cases "length l = Suc MAX_REQUEST_BYTES")
    case True
    then show ?thesis using readline_line [OF assms, of "Suc MAX_REQUEST_BYTES" rest] assms
      by (auto simp: read_request_line_def request_line_def drop_line.simps)
  next
    case False
    with True have n: "Suc MAX_REQUEST_BYTES < length l" by simp
    then show ?thesis
      using readline_line [OF assms, of "Suc MAX_REQUEST_BYTES" rest] take_not_end [OF assms _ n]
        drop_line_rest [OF request_line_drop [OF assms n]]
      by (auto simp: read_request_line_def)
  qed
qed

lemma serve_request_lines:
  "\<forall>l \<in> set ls. request_line l \<Longrightarrow> serve env n limits (concat ls) = serve_lines env n limits ls"
proof (induction ls arbitrary: n limits)
  case Nil
  show ?case by (subst serve.simps) (simp add: read_request_line_def)
next
  case (Cons l ls)
  then show ?case
    by (subst serve.simps) (auto simp: read_request_line_line split: sum.splits prod.splits)
qed

lemma serve_lines_length:
  "serve_lines env n limits ls = (ts, e) \<Longrightarrow> length ts \<le> length ls \<and> (e = None \<longleftrightarrow> length ts = length ls)"
  by (induction ls arbitrary: n limits ts e) (fastforce split: sum.splits prod.splits)+


lemma written_line:
  assumes "written env n r = (Inr t, limits)"
  shows "\<exists>response. fst r = Inr response \<and> write_response (worker_python env) (completed_at env n) response = Inr t"
  using assms by (auto simp: written_def rbind_eq_Inr)

lemma execute_payload_limits:
  "execute_payload env n payload limits = (Inr response, limits') \<Longrightarrow> limits' = (snd limits, snd limits)"
  by (auto simp: execute_payload_def apply_limits_def clear_cpu_limit_def Let_def demand_eq_Inr split: sum.splits)

text \<open>
  C10: The persistent worker answers its input line by line. However the bytes arrive, a line that exceeds
  the transport limit is refused with \<^verbatim>\<open>E_LIMIT\<close> and dropped to its end, so the next request starts at the
  next line; every line gets one response, in order, unless an exception ends the worker.
\<close>

theorem worker_answers_line_by_line:
  assumes "\<forall>l \<in> set ls. request_line l"
  shows "serve env n limits (concat ls) = serve_lines env n limits ls
    \<and> (\<forall>ts end. serve env n limits (concat ls) = (ts, end) \<longrightarrow>
         length ts \<le> length ls \<and> (end = None \<longleftrightarrow> length ts = length ls))"
  using serve_request_lines [OF assms] serve_lines_length by simp

text \<open>
  Every request runs under a processor limit of its own budget on top of what the worker has already
  consumed, between one and thirty seconds and no shorter than its timeout; afterwards the soft limit is
  lifted to the hard limit, whatever the outcome, so no request inherits the limit of another.
\<close>

theorem request_cpu_limit:
  "1 \<le> cpu_budget_seconds payload \<and> cpu_budget_seconds payload \<le> 30
   \<and> request_timeout_ms payload \<le> 1000 * cpu_budget_seconds payload
   \<and> (\<forall>consumed limits armed. apply_limits consumed payload limits = Inr armed \<longrightarrow>
        (\<exists>soft. fst armed = Some soft \<and> consumed + 1 \<le> of_int soft \<and> of_int soft < consumed + 32
          \<and> snd armed = snd limits \<and> (\<forall>h. snd limits = Some h \<longrightarrow> soft \<le> h)))
   \<and> (\<forall>env n limits response limits'. execute_payload env n payload limits = (Inr response, limits')
        \<longrightarrow> limits' = (snd limits, snd limits))"
proof -
  let ?t = "request_timeout_ms payload" and ?b = "cpu_budget_seconds payload"
  have t: "100 \<le> ?t" "?t \<le> 30000" by (auto simp: request_timeout_ms_def split: pyval.splits)
  have "\<lceil>rat_of_int ?t / 1000\<rceil> \<le> 30" using t(2) by (simp add: ceiling_le_iff)
  then have b: "1 \<le> ?b" "?b \<le> 30" by (simp_all add: cpu_budget_seconds_def)
  have "rat_of_int ?t \<le> of_int \<lceil>rat_of_int ?t / 1000\<rceil> * 1000"
    using le_of_int_ceiling [of "rat_of_int ?t / 1000"] by (subst (asm) pos_divide_le_eq) simp_all
  then have "rat_of_int ?t \<le> rat_of_int (\<lceil>rat_of_int ?t / 1000\<rceil> * 1000)" by (simp only: of_int_mult of_int_numeral)
  then have "?t \<le> \<lceil>rat_of_int ?t / 1000\<rceil> * 1000" by (simp only: of_int_le_iff)
  then have "?t \<le> 1000 * ?b" by (simp add: cpu_budget_seconds_def)
  moreover have "consumed + 1 \<le> of_int (\<lceil>consumed\<rceil> + ?b) \<and> of_int (\<lceil>consumed\<rceil> + ?b) < consumed + 32" for consumed :: rat
  proof -
    have "1 \<le> rat_of_int ?b" "rat_of_int ?b \<le> 30" using b by simp_all
    then show ?thesis using ceiling_correct [of consumed] unfolding of_int_add by linarith
  qed
  ultimately show ?thesis
    using b execute_payload_limits by (auto simp: apply_limits_def Let_def demand_eq_Inr)
qed


text \<open>A worker that reads two lines that are not JSON.\<close>

definition sample_worker :: worker_env where
  "sample_worker =
     \<lparr>worker_python = \<lparr>float_text = (\<lambda>_. u ''0.5''), sha256 = (\<lambda>_. []), digit_limit = 4300\<rparr>,
      worker_reader = \<lparr>text_float = (\<lambda>_. FFin (1 / 2)), bytes_text = Inr, int_digits = 4300, max_nesting = 1000\<rparr>,
      cpu_seconds = (\<lambda>_. 7 / 2), completed_at = (\<lambda>_. 1 / 2), direct = (\<lambda>_ _ _ _. Inr [(u ''status'', VStr (u ''ok''))])\<rparr>"

lemma sample_line: "\<exists>t. written sample_worker n (answer_line sample_worker n [10] limits) = (Inr t, limits)"
proof -
  have "decode_request (worker_reader sample_worker) [10]
      = Inl (PyExn (u ''ValueError'') (u ''worker request must be JSON''))"
    by (simp add: decode_request_def sample_worker_def json_loads_bytes_def json_decode_def skip_space_def json_space_def
        eval_nat_numeral json_scalar_def literals_def starts_with_def u_def scan_number_def number_parts_def whole_part_def
        json_error_def del: json_value.simps(2)) (simp add: json_scalar_def literals_def starts_with_def u_def scan_number_def
        number_parts_def whole_part_def json_error_def)
  then show ?thesis
    by (simp add: answer_line_def written_def write_response_def request_error_def sample_worker_def rbind_def item_order_def)
qed

theorem worker_answers_line_by_line_witness:
  "snd (serve sample_worker 0 (None, None) [10, 10]) = None \<and> length (fst (serve sample_worker 0 (None, None) [10, 10])) = 2"
proof -
  have "\<forall>l \<in> set [[10], [10]]. request_line l" by (simp add: request_line_def)
  note run = worker_answers_line_by_line [OF this, of sample_worker 0 "(None, None)"]
  obtain a b where "written sample_worker 0 (answer_line sample_worker 0 [10] (None, None)) = (Inr a, (None, None))"
    "written sample_worker (Suc 0) (answer_line sample_worker (Suc 0) [10] (None, None)) = (Inr b, (None, None))"
    using sample_line by metis
  then have "serve_lines sample_worker 0 (None, None) [[10], [10]] = ([a, b], None)"
    by (simp add: MAX_REQUEST_BYTES_def)
  then show ?thesis using run by simp
qed

theorem request_cpu_limit_witness:
  "\<exists>soft. apply_limits 4 [(u ''timeoutMs'', VInt 3000)] (None, None) = Inr (Some soft, None) \<and> soft < 36"
proof -
  have run: "apply_limits 4 [(u ''timeoutMs'', VInt 3000)] (None, None) = Inr (Some 7, None)"
    by (simp add: apply_limits_def cpu_budget_seconds_def request_timeout_ms_def dget_def Let_def)
  have "\<exists>soft. fst (Some 7, None :: int option) = Some soft \<and> rat_of_int soft < 4 + 32"
    using request_cpu_limit [of "[(u ''timeoutMs'', VInt 3000)]"] run by blast
  then show ?thesis using run by simp
qed

end
