(* ===== verification/Worker_Supervision.thy ===== *)
theory Worker_Supervision
  imports Worker_Protocol Worker_Pool
begin

text \<open>
  \<^verbatim>\<open>worker_process.py\<close>: the supervisor of one worker process. Starting it and waiting for a response are
  loops whose passes read the queue, the cancel event, the clock and the resident memory; a run of the
  loop is a function of the list of what its passes read, and \<open>None\<close> when they do not end it. The queues
  between the supervisor and the reader thread of a worker are a step relation.
\<close>

definition STARTUP_TIMEOUT_MS :: int where "STARTUP_TIMEOUT_MS = 5000"

definition STDERR_TAIL_BYTES :: nat where "STDERR_TAIL_BYTES = 8192"

section \<open>Diagnostics\<close>

text \<open>\<^verbatim>\<open>os.pread\<close> of the last bytes of a file; \<open>None\<close> when the descriptor fails.\<close>

definition stderr_tail_bytes :: "nat list option \<Rightarrow> nat list" where
  "stderr_tail_bytes file =
     (case file of None \<Rightarrow> []
      | Some content \<Rightarrow>
          take (min (length content) STDERR_TAIL_BYTES) (drop (length content - STDERR_TAIL_BYTES) content))"

definition line_break :: "nat \<Rightarrow> bool" where
  "line_break c \<longleftrightarrow> c \<in> {10, 11, 12, 13, 28, 29, 30, 133, 8232, 8233}"

text \<open>\<^verbatim>\<open>s.splitlines()[-1]\<close> of a non-empty stripped text, which does not end in a line break.\<close>

definition last_line :: "pystr \<Rightarrow> pystr" where
  "last_line s = rev (takeWhile (\<lambda>c. \<not> line_break c) (rev s))"

section \<open>Waiting for a response\<close>

text \<open>
  One pass of the loop: the answers of \<^verbatim>\<open>take_response\<close> (a line and the text of the reader's exception),
  the cancel event, the clock, the second look at the queue when the deadline has passed, the resident
  memory, and the bounded wait at the end of the pass.
\<close>

type_synonym taken = "(pystr \<times> pystr option) option"

record view =
  queued_now :: taken
  cancel_is_set :: bool
  monotonic :: rat
  queued_late :: taken
  resident_now :: "int option"
  queued_soon :: taken

datatype wait_end = Answer pystr "pystr option" | Limit pydict

definition megabytes :: "int \<Rightarrow> int" where
  "megabytes memory_mb = memory_mb * 1024 * 1024"

fun await_response :: "rat \<Rightarrow> int \<Rightarrow> int \<Rightarrow> view list \<Rightarrow> wait_end option" where
  "await_response deadline timeout_ms memory_mb [] = None"
| "await_response deadline timeout_ms memory_mb (v # vs) =
     (case queued_now v of
        Some (line, err) \<Rightarrow> Some (Answer line err)
      | None \<Rightarrow>
          if cancel_is_set v then Some (Limit (simple_error ''E_CANCELLED'' (u ''operation was cancelled'')))
          else if deadline - monotonic v \<le> 0 then
            (case queued_late v of
               Some (line, err) \<Rightarrow> Some (Answer line err)
             | None \<Rightarrow> Some (Limit (simple_error ''E_TIMEOUT''
                        (u ''operation exceeded '' @ int_text timeout_ms @ u '' ms''))))
          else if (case resident_now v of None \<Rightarrow> False | Some r \<Rightarrow> megabytes memory_mb < r)
          then Some (Limit (simple_error ''E_MEMORY''
                  (u ''operation exceeded '' @ int_text memory_mb @ u '' MB of resident memory'')))
          else
            (case queued_soon v of
               Some (line, err) \<Rightarrow> Some (Answer line err)
             | None \<Rightarrow> await_response deadline timeout_ms memory_mb vs))"

section \<open>Reading the response\<close>

text \<open>
  What \<^verbatim>\<open>_execute_worker\<close> returns, the result and its two flags, or raises; the flag beside it tells
  whether the process was killed.
\<close>

record execution =
  exec_result :: pyval
  exec_reusable :: bool
  policy_applied :: bool

type_synonym supervised = "(pyexn + execution) \<times> bool"

definition rejected :: "pydict \<Rightarrow> execution" where
  "rejected err = \<lparr>exec_result = VDict err, exec_reusable = False, policy_applied = False\<rparr>"

text \<open>\<^verbatim>\<open>completed_at >= deadline\<close> on a number; \<^verbatim>\<open>nan\<close> compares as false.\<close>

definition not_before :: "pyval \<Rightarrow> rat \<Rightarrow> bool" where
  "not_before completed deadline \<longleftrightarrow>
     (case completed of
        VInt i \<Rightarrow> deadline \<le> of_int i
      | VFloat (FFin r) \<Rightarrow> deadline \<le> r
      | VFloat (FInf negative) \<Rightarrow> \<not> negative
      | _ \<Rightarrow> False)"

definition is_number :: "pyval \<Rightarrow> bool" where
  "is_number v \<longleftrightarrow> (case v of VInt _ \<Rightarrow> True | VFloat _ \<Rightarrow> True | _ \<Rightarrow> False)"

definition read_envelope :: "pydict \<Rightarrow> pyexn + execution" where
  "read_envelope response =
     (if dget_none response (u ''ok'') = VBool True then
        (case map_of response (u ''result'') of
           None \<Rightarrow> Inl (PyExn (u ''KeyError'') (u ''result''))
         | Some r \<Rightarrow> Inr \<lparr>exec_result = r, exec_reusable = True, policy_applied = True\<rparr>)
      else
        (let error = (case dget_none response (u ''error'') of
                        VDict e \<Rightarrow> e
                      | _ \<Rightarrow> error_payload (u ''E_RUNTIME'') (u ''unknown worker error'') None None None None)
         in rbind (in_texts (dget_none error (u ''code'')) [u ''E_RUNTIME'', u ''E_TIMEOUT'']) (\<lambda>suspect.
              Inr \<lparr>exec_result = VDict [(u ''status'', VStr (u ''error'')), (u ''error'', VDict error)],
                   exec_reusable = \<not> suspect, policy_applied = True\<rparr>)))"

definition read_response :: "reader \<Rightarrow> rat \<Rightarrow> int \<Rightarrow> pystr \<Rightarrow> supervised" where
  "read_response rd deadline timeout_ms line =
     (case json_loads rd line of
        Inl (PyExn cls message) \<Rightarrow>
          (if cls = u ''JSONDecodeError''
           then Inr (rejected (simple_error ''E_RUNTIME'' (u ''worker returned an invalid response'')))
           else Inl (PyExn cls message), False)
      | Inl e \<Rightarrow> (Inl e, False)
      | Inr (VDict d) \<Rightarrow>
          (let completed = dget_none d (u ''_completedAtMonotonic'');
               response = AList.delete (u ''_completedAtMonotonic'') d
           in if \<not> is_number completed
              then (Inr (rejected (simple_error ''E_RUNTIME'' (u ''worker response omitted completion timing''))), True)
              else if not_before completed deadline
              then (Inr (rejected (simple_error ''E_TIMEOUT'' (u ''operation exceeded '' @ int_text timeout_ms @ u '' ms''))), True)
              else (read_envelope response, False))
      | Inr (VList _) \<Rightarrow> (Inl (PyExn (u ''TypeError'') (u ''pop expected at most 1 argument, got 2'')), False)
      | Inr _ \<Rightarrow> (Inl (PyExn (u ''AttributeError'') (u ''object has no attribute pop'')), False))"

record exchange =
  has_pipes :: bool
  accepts_request :: bool
  views :: "view list"
  return_code :: "int option"
  diagnostics :: pystr

definition end_of_output :: "exchange \<Rightarrow> pydict" where
  "end_of_output ex =
     (let stderr = (case return_code ex of None \<Rightarrow> [] | Some _ \<Rightarrow> strip (diagnostics ex));
          message = (if stderr = [] then u ''worker terminated'' else last_line stderr);
          details = (case return_code ex of None \<Rightarrow> None | Some c \<Rightarrow> Some [(u ''returnCode'', VInt c)])
      in error_envelope (u ''E_RUNTIME'') message details None None None)"

definition execute_worker :: "reader \<Rightarrow> exchange \<Rightarrow> rat \<Rightarrow> int \<Rightarrow> int \<Rightarrow> supervised option" where
  "execute_worker rd ex deadline timeout_ms memory_mb =
     (if \<not> has_pipes ex then Some (Inr (rejected (simple_error ''E_RUNTIME'' (u ''worker pipes were unavailable''))), False)
      else if \<not> accepts_request ex
      then Some (Inr (rejected (simple_error ''E_RUNTIME'' (u ''worker input was unavailable''))), False)
      else
        map_option
          (\<lambda>end. case end of
             Limit e \<Rightarrow> (Inr (rejected e), True)
           | Answer line (Some err) \<Rightarrow>
               (Inr (rejected (simple_error ''E_RUNTIME'' (u ''worker output reader failed: '' @ err))), True)
           | Answer line None \<Rightarrow>
               if line = [] then (Inr (rejected (end_of_output ex)), False)
               else read_response rd deadline timeout_ms line)
          (await_response deadline timeout_ms memory_mb (views ex)))"

section \<open>Starting a worker\<close>

record start_view =
  output_ready :: bool
  start_cancelled :: bool
  start_clock :: rat
  start_resident :: "int option"
  has_exited :: bool

text \<open>
  The loop of \<^verbatim>\<open>_await_worker_ready\<close>: \<open>Some None\<close> when it goes on to the line, \<open>Some (Some e)\<close> when the
  process is killed.
\<close>

fun await_start :: "rat \<Rightarrow> rat \<Rightarrow> int \<Rightarrow> int \<Rightarrow> start_view list \<Rightarrow> pydict option option" where
  "await_start startup_deadline deadline timeout_ms memory_bytes [] = None"
| "await_start startup_deadline deadline timeout_ms memory_bytes (v # vs) =
     (if output_ready v then Some None
      else if start_cancelled v then Some (Some (simple_error ''E_CANCELLED'' (u ''operation was cancelled'')))
      else if startup_deadline \<le> start_clock v then
        Some (Some
          (if startup_deadline = deadline
           then error_envelope (u ''E_TIMEOUT'') (u ''operation exceeded '' @ int_text timeout_ms @ u '' ms while starting a worker'')
                  (Some [(u ''phase'', VStr (u ''startup'')), (u ''timeoutMs'', VInt timeout_ms)]) None None None
           else error_envelope (u ''E_RUNTIME'') (u ''worker did not start within '' @ int_text STARTUP_TIMEOUT_MS @ u '' ms'')
                  None (Some (u ''startup'')) None None))
      else if (case start_resident v of None \<Rightarrow> False | Some r \<Rightarrow> memory_bytes < r)
      then Some (Some (error_envelope (u ''E_MEMORY'') (u ''worker exceeded the memory limit during startup'')
                         None (Some (u ''startup'')) None None))
      else if has_exited v then Some None
      else await_start startup_deadline deadline timeout_ms memory_bytes vs)"

record startup =
  cancel_at_start :: bool
  diagnostics_error :: "pystr option"
  spawn_error :: "pystr option"
  has_output :: bool
  started_at :: rat
  start_views :: "start_view list"
  first_line :: pystr
  start_diagnostics :: pystr

text \<open>
  \<^verbatim>\<open>_await_worker_ready\<close>: \<open>None\<close> for a ready worker, or the error; on every error the process is killed
  and the diagnostics descriptor closed.
\<close>

definition await_worker_ready :: "reader \<Rightarrow> startup \<Rightarrow> int \<Rightarrow> rat \<Rightarrow> int \<Rightarrow> (pyexn + pydict option) option" where
  "await_worker_ready rd st memory_bytes deadline timeout_ms =
     (if \<not> has_output st
      then Some (Inr (Some (error_envelope (u ''E_RUNTIME'') (u ''worker output was unavailable'') None (Some (u ''startup'')) None None)))
      else
        map_option
          (\<lambda>end. case end of
             Some e \<Rightarrow> Inr (Some e)
           | None \<Rightarrow>
               (let ready = (case json_loads rd (first_line st) of
                               Inl (PyExn cls message) \<Rightarrow>
                                 if cls = u ''JSONDecodeError'' then Inr VNone else Inl (PyExn cls message)
                             | r \<Rightarrow> r)
                in rbind ready (\<lambda>ready.
                     if py_eq ready (VDict [(u ''ready'', VBool True)]) then Inr None
                     else
                       (let stderr = strip (start_diagnostics st) in
                        Inr (Some (error_envelope (u ''E_RUNTIME'')
                          (if stderr = [] then u ''worker failed to start'' else last_line stderr)
                          None (Some (u ''startup'')) None None))))))
          (await_start (min deadline (started_at st + of_int STARTUP_TIMEOUT_MS / 1000)) deadline timeout_ms memory_bytes
            (start_views st)))"

definition start_worker_impl :: "reader \<Rightarrow> startup \<Rightarrow> int \<Rightarrow> rat \<Rightarrow> int \<Rightarrow> (pyexn + pydict option) option" where
  "start_worker_impl rd st memory_bytes deadline timeout_ms =
     (if cancel_at_start st then Some (Inr (Some (simple_error ''E_CANCELLED'' (u ''operation was cancelled''))))
      else
        (case diagnostics_error st of
           Some e \<Rightarrow> Some (Inr (Some (error_envelope (u ''E_RUNTIME'') (u ''worker diagnostics could not be created: '' @ e)
                               None (Some (u ''startup'')) None None)))
         | None \<Rightarrow>
             (case spawn_error st of
                Some e \<Rightarrow> Some (Inr (Some (error_envelope (u ''E_RUNTIME'') (u ''worker failed to start: '' @ e)
                               None (Some (u ''startup'')) None None)))
              | None \<Rightarrow> await_worker_ready rd st memory_bytes deadline timeout_ms)))"

text \<open>\<^verbatim>\<open>_start_worker\<close>: the counter that is incremented for an outcome.\<close>

definition start_counter :: "pydict option \<Rightarrow> pystr" where
  "start_counter error =
     (case error of
        None \<Rightarrow> u ''workers.started''
      | Some e \<Rightarrow>
          if dget_none (as_dict_of (dget_none e (u ''error''))) (u ''code'') = VStr (u ''E_CANCELLED'')
          then u ''workers.startCancelled'' else u ''workers.startFailed'')"


section \<open>What supervision guarantees\<close>

lemma await_response_ends:
  "v \<in> set vs \<Longrightarrow> deadline \<le> monotonic v \<Longrightarrow> await_response deadline t m vs \<noteq> None"
  by (induction deadline t m vs rule: await_response.induct) (auto split: option.splits)

lemma await_limit:
  "await_response deadline t m vs = Some (Limit e) \<Longrightarrow>
     \<exists>v \<in> set vs. queued_now v = None \<and>
       (cancel_is_set v \<and> e = simple_error ''E_CANCELLED'' (u ''operation was cancelled'')
        \<or> \<not> cancel_is_set v \<and> deadline \<le> monotonic v \<and> queued_late v = None
          \<and> e = simple_error ''E_TIMEOUT'' (u ''operation exceeded '' @ int_text t @ u '' ms'')
        \<or> \<not> cancel_is_set v \<and> monotonic v < deadline \<and> (\<exists>r. resident_now v = Some r \<and> megabytes m < r)
          \<and> e = simple_error ''E_MEMORY'' (u ''operation exceeded '' @ int_text m @ u '' MB of resident memory''))"
  by (induction deadline t m vs rule: await_response.induct) (auto split: option.splits if_splits)

lemma not_before_number:
  assumes "is_number c" and "\<not> not_before c deadline"
  shows "c = VFloat FNan \<or> c = VFloat (FInf True) \<or> (\<exists>r. num_val c = Some r \<and> r < deadline)"
  using assms by (auto simp: is_number_def not_before_def split: pyval.splits pyfloat.splits)

lemma read_response_reusable:
  assumes "read_response rd deadline t line = (Inr e, killed)" and "exec_reusable e"
  shows "\<not> killed \<and> policy_applied e \<and> (\<exists>d. json_loads rd line = Inr (VDict d)
      \<and> is_number (dget_none d (u ''_completedAtMonotonic''))
      \<and> \<not> not_before (dget_none d (u ''_completedAtMonotonic'')) deadline
      \<and> read_envelope (AList.delete (u ''_completedAtMonotonic'') d) = Inr e)"
proof -
  have "\<not> exec_reusable (rejected x)" for x by (simp add: rejected_def)
  then obtain d where d: "json_loads rd line = Inr (VDict d)" "is_number (dget_none d (u ''_completedAtMonotonic''))"
    "\<not> not_before (dget_none d (u ''_completedAtMonotonic'')) deadline"
    "read_envelope (AList.delete (u ''_completedAtMonotonic'') d) = Inr e" "\<not> killed"
    using assms by (auto simp: read_response_def Let_def split: sum.splits pyexn.splits pyval.splits if_splits)
  moreover have "policy_applied e"
    using d(4) by (auto simp: read_envelope_def Let_def rbind_eq_Inr split: if_splits option.splits)
  ultimately show ?thesis by blast
qed

lemma read_envelope_code:
  assumes "read_envelope d = Inr e" and "exec_reusable e" and "dget_none d (u ''ok'') \<noteq> VBool True"
  shows "\<exists>error. exec_result e = VDict [(u ''status'', VStr (u ''error'')), (u ''error'', VDict error)]
    \<and> dget_none error (u ''code'') \<notin> {VStr (u ''E_RUNTIME''), VStr (u ''E_TIMEOUT'')}"
proof -
  define err where "err = (case dget_none d (u ''error'') of VDict x \<Rightarrow> x
      | _ \<Rightarrow> error_payload (u ''E_RUNTIME'') (u ''unknown worker error'') None None None None)"
  obtain suspect where s: "in_texts (dget_none err (u ''code'')) [u ''E_RUNTIME'', u ''E_TIMEOUT''] = Inr suspect"
    "e = \<lparr>exec_result = VDict [(u ''status'', VStr (u ''error'')), (u ''error'', VDict err)],
          exec_reusable = \<not> suspect, policy_applied = True\<rparr>"
    using assms(1,3) unfolding read_envelope_def Let_def err_def [symmetric] by (auto simp: rbind_eq_Inr)
  then have "\<not> suspect" using assms(2) by simp
  then have "dget_none err (u ''code'') \<notin> {VStr (u ''E_RUNTIME''), VStr (u ''E_TIMEOUT'')}"
    using s(1) by (auto simp: in_texts_def)
  then show ?thesis using s(2) by auto
qed

text \<open>
  C9: A worker goes back to the pool only after a settled exchange: its process was not killed, it
  answered with a stamped JSON object whose completion is a number that is not at or past the deadline,
  the output policy was applied, and the answer is a result or an error other than \<^verbatim>\<open>E_RUNTIME\<close> and
  \<^verbatim>\<open>E_TIMEOUT\<close>. Every limit that ends the wait kills the process.
\<close>

theorem reusable_worker_is_settled:
  assumes "execute_worker rd ex deadline t m = Some (Inr e, killed)"
  shows "(exec_reusable e \<longrightarrow> \<not> killed \<and> policy_applied e \<and>
      (\<exists>line d. await_response deadline t m (views ex) = Some (Answer line None)
        \<and> json_loads rd line = Inr (VDict d)
        \<and> is_number (dget_none d (u ''_completedAtMonotonic''))
        \<and> \<not> not_before (dget_none d (u ''_completedAtMonotonic'')) deadline
        \<and> (dget_none d (u ''ok'') = VBool True \<and> map_of d (u ''result'') = Some (exec_result e)
           \<or> (\<exists>error. exec_result e = VDict [(u ''status'', VStr (u ''error'')), (u ''error'', VDict error)]
                \<and> dget_none error (u ''code'') \<notin> {VStr (u ''E_RUNTIME''), VStr (u ''E_TIMEOUT'')}))))
    \<and> (\<forall>l. await_response deadline t m (views ex) = Some (Limit l) \<and> has_pipes ex \<and> accepts_request ex
          \<longrightarrow> killed \<and> \<not> exec_reusable e \<and> exec_result e = VDict l)"
proof -
  have rej: "\<not> exec_reusable (rejected x)" "exec_result (rejected x) = VDict x" for x by (simp_all add: rejected_def)
  have lim: "killed \<and> \<not> exec_reusable e \<and> exec_result e = VDict l"
    if "await_response deadline t m (views ex) = Some (Limit l)" "has_pipes ex" "accepts_request ex" for l
    using assms that rej by (auto simp: execute_worker_def)
  have "\<not> killed \<and> policy_applied e \<and> (\<exists>line d. await_response deadline t m (views ex) = Some (Answer line None)
        \<and> json_loads rd line = Inr (VDict d) \<and> is_number (dget_none d (u ''_completedAtMonotonic''))
        \<and> \<not> not_before (dget_none d (u ''_completedAtMonotonic'')) deadline
        \<and> (dget_none d (u ''ok'') = VBool True \<and> map_of d (u ''result'') = Some (exec_result e)
           \<or> (\<exists>error. exec_result e = VDict [(u ''status'', VStr (u ''error'')), (u ''error'', VDict error)]
                \<and> dget_none error (u ''code'') \<notin> {VStr (u ''E_RUNTIME''), VStr (u ''E_TIMEOUT'')})))"
    if re: "exec_reusable e"
  proof -
    obtain line where l: "await_response deadline t m (views ex) = Some (Answer line None)"
      "read_response rd deadline t line = (Inr e, killed)"
    proof -
      have "has_pipes ex" "accepts_request ex" using assms re rej by (auto simp: execute_worker_def split: if_splits)
      then obtain w where w: "await_response deadline t m (views ex) = Some w"
        "(case w of Limit e \<Rightarrow> (Inr (rejected e), True)
          | Answer line (Some err) \<Rightarrow>
              (Inr (rejected (simple_error ''E_RUNTIME'' (u ''worker output reader failed: '' @ err))), True)
          | Answer line None \<Rightarrow>
              if line = [] then (Inr (rejected (end_of_output ex)), False)
              else read_response rd deadline t line) = (Inr e, killed)"
        using assms by (auto simp: execute_worker_def)
      then show thesis using that re rej by (cases w) (auto split: option.splits if_splits)
    qed
    from read_response_reusable [OF l(2) re] obtain d where
      d: "\<not> killed" "policy_applied e" "json_loads rd line = Inr (VDict d)"
        "is_number (dget_none d (u ''_completedAtMonotonic''))" "\<not> not_before (dget_none d (u ''_completedAtMonotonic'')) deadline"
        "read_envelope (AList.delete (u ''_completedAtMonotonic'') d) = Inr e" by blast
    have del: "map_of (AList.delete (u ''_completedAtMonotonic'') d) k = map_of d k" if "k \<noteq> u ''_completedAtMonotonic''" for k
      using that by (simp add: delete_conv')
    have "dget_none d (u ''ok'') = VBool True \<and> map_of d (u ''result'') = Some (exec_result e)"
      if "dget_none (AList.delete (u ''_completedAtMonotonic'') d) (u ''ok'') = VBool True"
      using that d(6) del by (auto simp: read_envelope_def dget_none_def dget_def split: option.splits)
    then show ?thesis using read_envelope_code [OF d(6) re] l(1) d by blast
  qed
  then show ?thesis using lim by blast
qed

text \<open>
  Supervision ends, and no later than the deadline: once a pass of the loop reads the clock at or past
  the deadline, the exchange is over. A response that is already queued then is still taken; a time limit
  is reported only when none is, and a memory limit only while the process is over its budget.
\<close>

theorem supervision_ends:
  "(\<forall>v \<in> set (views ex). deadline \<le> monotonic v \<longrightarrow> execute_worker rd ex deadline t m \<noteq> None)
   \<and> (\<forall>l. await_response deadline t m (views ex) = Some (Limit l) \<longrightarrow>
        (\<exists>v \<in> set (views ex). queued_now v = None \<and>
           (cancel_is_set v \<and> l = simple_error ''E_CANCELLED'' (u ''operation was cancelled'')
            \<or> deadline \<le> monotonic v \<and> queued_late v = None
              \<and> l = simple_error ''E_TIMEOUT'' (u ''operation exceeded '' @ int_text t @ u '' ms'')
            \<or> (\<exists>r. resident_now v = Some r \<and> megabytes m < r)
              \<and> l = simple_error ''E_MEMORY'' (u ''operation exceeded '' @ int_text m @ u '' MB of resident memory''))))"
proof -
  have "execute_worker rd ex deadline t m \<noteq> None" if "v \<in> set (views ex)" "deadline \<le> monotonic v" for v
    using await_response_ends [OF that, of t m] by (auto simp: execute_worker_def)
  then show ?thesis using await_limit by blast
qed


section \<open>A response crosses the pipe\<close>

lemma update_delete: "k \<notin> fst ` set d \<Longrightarrow> AList.delete k (AList.update k v d) = d"
  by (force simp: update_fresh AList.delete_eq filter_id_conv)

lemma read_written_response:
  assumes "write_response py now response = Inr line" and "reads_back rd py"
    and "distinct_keys (VDict response)" and "u ''_completedAtMonotonic'' \<notin> fst ` set response"
    and "nesting (VDict response) < max_nesting rd" and "1 < max_nesting rd"
  shows "json_loads rd line = Inr (VDict (response @ [(u ''_completedAtMonotonic'', VFloat (FFin now))]))"
proof -
  let ?r = "response @ [(u ''_completedAtMonotonic'', VFloat (FFin now))]"
  obtain t where t: "json_text py False True (VDict ?r) = Inr t" "line = t @ [10]"
    using assms(1) by (auto simp: write_response_def update_fresh [OF assms(4)] rbind_eq_Inr)
  have keys: "distinct_keys (VDict ?r)" using assms(3,4) by auto
  have "foldr max (map (\<lambda>e. Suc (nesting (snd e))) response) (Suc 0) < max_nesting rd"
    using assms(5,6) by (induction response) auto
  then have "nesting (VDict ?r) < max_nesting rd" by simp
  then have "json_decode rd (t @ [10]) = Inr (VDict ?r)"
    by (rule json_roundtrip [OF assms(2) t(1) keys]) (simp add: skip_space_def json_space_def)
  moreover have "take 1 line \<noteq> [65279]" using t by (auto simp: rbind_eq_Inr)
  ultimately show ?thesis using t(2) by (simp add: json_loads_def)
qed

text \<open>
  What the worker writes is what the supervisor reads: an envelope that a worker stamps and writes
  before the deadline is read back as itself, so a result arrives unchanged and the worker stays reusable.
  (\<^verbatim>\<open>float(repr(x)) == x\<close> is the documented property of the two conversions.)
\<close>

theorem response_crosses_the_pipe:
  assumes "write_response py now response = Inr line" and "reads_back rd py"
    and "distinct_keys (VDict response)" and "u ''_completedAtMonotonic'' \<notin> fst ` set response"
    and "nesting (VDict response) < max_nesting rd" and "1 < max_nesting rd" and "now < deadline"
  shows "read_response rd deadline timeout_ms line = (read_envelope response, False)
    \<and> (\<forall>result. response = [(u ''ok'', VBool True), (u ''result'', result)] \<longrightarrow>
         read_envelope response = Inr \<lparr>exec_result = result, exec_reusable = True, policy_applied = True\<rparr>)"
proof -
  let ?k = "u ''_completedAtMonotonic''"
  let ?d = "response @ [(?k, VFloat (FFin now))]"
  have "map_of response ?k = None" using assms(4) by (simp add: map_of_eq_None_iff)
  then have "dget_none ?d ?k = VFloat (FFin now)" by (simp add: dget_none_def dget_def map_add_def)
  moreover have "AList.delete ?k ?d = response"
    using update_delete [OF assms(4), of "VFloat (FFin now)"] update_fresh [OF assms(4)] by simp
  ultimately show ?thesis
    using read_written_response [OF assms(1-6)] assms(7)
    by (simp add: read_response_def is_number_def not_before_def read_envelope_def dget_none_def dget_def)
qed

theorem response_crosses_the_pipe_witness:
  "\<exists>line. write_response counting_interp 5 [(u ''ok'', VBool True), (u ''result'', VDict [(u ''status'', VStr (u ''ok''))])] = Inr line
     \<and> read_response counting_reader 10 1000 line
       = (Inr \<lparr>exec_result = VDict [(u ''status'', VStr (u ''ok''))], exec_reusable = True, policy_applied = True\<rparr>, False)"
proof -
  let ?r = "[(u ''ok'', VBool True), (u ''result'', VDict [(u ''status'', VStr (u ''ok''))])]"
  obtain line where w: "write_response counting_interp 5 ?r = Inr line"
    by (simp add: write_response_def item_order_def)
  have "read_response counting_reader 10 1000 line = (read_envelope ?r, False)
    \<and> (\<forall>result. ?r = [(u ''ok'', VBool True), (u ''result'', result)] \<longrightarrow>
         read_envelope ?r = Inr \<lparr>exec_result = result, exec_reusable = True, policy_applied = True\<rparr>)"
    by (rule response_crosses_the_pipe [OF w counting_reads_back]) (simp_all add: counting_reader_def)
  then show ?thesis using w by simp
qed

text \<open>An exchange that ends in time, and one that is over its memory budget.\<close>

definition quiet_view :: view where
  "quiet_view =
     \<lparr>queued_now = None, cancel_is_set = False, monotonic = 1, queued_late = None, resident_now = Some 100, queued_soon = None\<rparr>"

definition sample_exchange :: "view list \<Rightarrow> exchange" where
  "sample_exchange vs =
     \<lparr>has_pipes = True, accepts_request = True, views = vs, return_code = None, diagnostics = []\<rparr>"

theorem reusable_worker_is_settled_witness:
  "\<exists>line e. execute_worker counting_reader (sample_exchange [quiet_view, quiet_view\<lparr>queued_now := Some (line, None)\<rparr>]) 10 1000 256
       = Some (Inr e, False) \<and> exec_reusable e \<and> policy_applied e"
proof -
  let ?r = "[(u ''ok'', VBool True), (u ''result'', VDict [])]"
  obtain line where w: "write_response counting_interp 5 ?r = Inr line"
    by (simp add: write_response_def item_order_def)
  then have ne: "line \<noteq> []" by (auto simp: write_response_def rbind_eq_Inr)
  have "json_loads counting_reader line = Inr (VDict (?r @ [(u ''_completedAtMonotonic'', VFloat (FFin 5))]))"
    by (rule read_written_response [OF w counting_reads_back]) (simp_all add: counting_reader_def)
  then have "read_response counting_reader 10 1000 line
      = (Inr \<lparr>exec_result = VDict [], exec_reusable = True, policy_applied = True\<rparr>, False)"
    by (simp add: read_response_def is_number_def not_before_def read_envelope_def dget_none_def dget_def Let_def)
  then have run: "execute_worker counting_reader (sample_exchange [quiet_view, quiet_view\<lparr>queued_now := Some (line, None)\<rparr>]) 10 1000 256
      = Some (Inr \<lparr>exec_result = VDict [], exec_reusable = True, policy_applied = True\<rparr>, False)"
    using ne by (simp add: execute_worker_def sample_exchange_def quiet_view_def megabytes_def)
  have "policy_applied \<lparr>exec_result = VDict [], exec_reusable = True, policy_applied = True\<rparr>"
    using conjunct1 [OF reusable_worker_is_settled [OF run]] by simp
  then show ?thesis using run by (metis execution.select_convs(2))
qed

theorem supervision_ends_witness:
  "execute_worker counting_reader (sample_exchange [quiet_view, quiet_view\<lparr>monotonic := 11\<rparr>]) 10 1000 256 \<noteq> None"
  using supervision_ends [of "sample_exchange [quiet_view, quiet_view\<lparr>monotonic := 11\<rparr>]" 10 counting_reader 1000 256]
  by (simp add: sample_exchange_def)


section \<open>The reader thread\<close>

text \<open>
  \<^verbatim>\<open>_ReusableWorker\<close> as the two queues between the supervisor and the reader thread. \<open>asked\<close> counts the
  requests, \<open>tokens\<close> are the entries of \<^verbatim>\<open>_read_requests\<close>, \<open>produced\<close> the lines read, and \<open>responses\<close> is
  \<^verbatim>\<open>_responses\<close>, each with the number of its line. \<open>pending\<close>: an exchange is open. \<open>retired\<close>: the worker
  does not return to the pool. The thread ends after an exception or at the end of the output.
\<close>

record channel =
  asked :: nat
  tokens :: nat
  produced :: nat
  responses :: "(nat \<times> pystr \<times> pystr option) list"
  pending :: bool
  reader_ended :: bool
  retired :: bool

datatype channel_event = ExpectResponse | ReadOutput pystr "pystr option" | TakeResponse nat bool | GiveUp

inductive channel_step :: "channel \<Rightarrow> channel_event \<Rightarrow> channel \<Rightarrow> bool" where
  expect_response:
    "\<not> pending c \<Longrightarrow> \<not> retired c \<Longrightarrow>
     channel_step c ExpectResponse (c\<lparr>asked := Suc (asked c), tokens := Suc (tokens c), pending := True\<rparr>)"
| read_output:
    "tokens c = Suc n \<Longrightarrow> \<not> reader_ended c \<Longrightarrow>
     channel_step c (ReadOutput line err)
       (c\<lparr>tokens := n, produced := Suc (produced c), responses := responses c @ [(produced c, line, err)],
          reader_ended := (err \<noteq> None \<or> line = [])\<rparr>)"
| take_response:
    "pending c \<Longrightarrow> responses c = (i, line, err) # rs \<Longrightarrow> (err \<noteq> None \<or> line = [] \<longrightarrow> \<not> reusable) \<Longrightarrow>
     channel_step c (TakeResponse i reusable) (c\<lparr>responses := rs, pending := False, retired := \<not> reusable\<rparr>)"
| give_up:
    "pending c \<Longrightarrow> channel_step c GiveUp (c\<lparr>pending := False, retired := True\<rparr>)"

inductive_cases take_stepE: "channel_step c (TakeResponse i r) c'"

definition channel_init :: "channel \<Rightarrow> bool" where
  "channel_init c \<longleftrightarrow>
     c = \<lparr>asked = 0, tokens = 0, produced = 0, responses = [], pending = False, reader_ended = False, retired = False\<rparr>"

definition channel_inv :: "channel \<Rightarrow> bool" where
  "channel_inv c \<longleftrightarrow>
     produced c + tokens c = asked c
     \<and> (\<not> retired c \<and> \<not> pending c \<longrightarrow> responses c = [] \<and> tokens c = 0 \<and> \<not> reader_ended c)
     \<and> (\<not> retired c \<and> pending c \<longrightarrow>
          responses c = [] \<and> tokens c = 1 \<and> \<not> reader_ended c
          \<or> tokens c = 0 \<and> (\<exists>line err. responses c = [(produced c - 1, line, err)] \<and> 0 < produced c
                             \<and> (reader_ended c \<longrightarrow> err \<noteq> None \<or> line = [])))
     \<and> (pending c \<longrightarrow> \<not> retired c)"

lemma channel_step_inv: "channel_step c e c' \<Longrightarrow> channel_inv c \<Longrightarrow> channel_inv c'"
  by (induction rule: channel_step.induct) (auto simp: channel_inv_def)

interpretation channel: guarded_system channel_init channel_step channel_inv
  by unfold_locales (simp add: channel_init_def channel_inv_def, rule channel_step_inv)

text \<open>
  C34: Responses are never confused. However the two threads interleave, the response that an exchange
  takes is the one to its own request, and a worker that returns to the pool leaves no token and no
  response behind, and its reader thread is alive.
\<close>

theorem responses_match_requests:
  assumes "reach channel_init channel_step c"
  shows "(channel_step c (TakeResponse i reusable) c' \<longrightarrow>
       Suc i = asked c \<and> (reusable \<longrightarrow> responses c' = [] \<and> tokens c' = 0 \<and> \<not> reader_ended c'))
    \<and> (\<not> pending c \<and> \<not> retired c \<longrightarrow> responses c = [] \<and> tokens c = 0 \<and> \<not> reader_ended c)"
  using channel.reach_inv [OF assms] by (auto simp: channel_inv_def elim!: take_stepE)

definition idle_channel :: channel where
  "idle_channel =
     \<lparr>asked = 0, tokens = 0, produced = 0, responses = [], pending = False, reader_ended = False, retired = False\<rparr>"

theorem responses_match_requests_witness:
  "\<exists>c c'. run channel_step idle_channel [ExpectResponse, ReadOutput (u ''{}'') None] c
     \<and> channel_step c (TakeResponse 0 True) c' \<and> asked c = 1 \<and> responses c' = []"
proof -
  let ?c1 = "idle_channel\<lparr>asked := 1, tokens := 1, pending := True\<rparr>"
  let ?c2 = "?c1\<lparr>tokens := 0, produced := 1, responses := [(0, u ''{}'', None)], reader_ended := False\<rparr>"
  let ?c3 = "?c2\<lparr>responses := [], pending := False, retired := False\<rparr>"
  have 1: "channel_step idle_channel ExpectResponse ?c1"
    using expect_response [of idle_channel] by (simp add: idle_channel_def)
  have 2: "channel_step ?c1 (ReadOutput (u ''{}'') None) ?c2"
    using read_output [of ?c1 0 "u ''{}''" None] by (simp add: idle_channel_def)
  have 3: "channel_step ?c2 (TakeResponse 0 True) ?c3"
    using take_response [of ?c2 0 "u ''{}''" None "[]" True] by (simp add: idle_channel_def)
  have "channel_init idle_channel" by (simp add: channel_init_def idle_channel_def)
  then have r: "reach channel_init channel_step ?c2" using 1 2 by (blast intro: reach_init reach_step)
  have "run channel_step idle_channel [ExpectResponse, ReadOutput (u ''{}'') None] ?c2"
    using 1 2 by (blast intro: run_Cons run_Nil)
  moreover have "Suc 0 = asked ?c2" "responses ?c3 = []" using responses_match_requests [OF r, of 0 True ?c3] 3 by blast+
  ultimately show ?thesis using 3 by (metis One_nat_def)
qed

end
