(* ===== verification/Sandbox.thy ===== *)
theory Sandbox
  imports "HOL-Library.Multiset" Worker_Supervision Circuit_Breaker Admission Contracts Validation Request_Lines
begin

text \<open>
  \<^verbatim>\<open>sandbox.py\<close> and \<^verbatim>\<open>runtime_telemetry.py\<close>: one supervised call and a batch of calls. What the shared
  controllers, the pool, the clock and the cancel events answer a call is its environment, the effects of
  the call on the breaker and the admission controller are its second result; the runtime that composes the
  calls of many threads is the theory \<open>Runtime_System\<close>. A batch groups equal items, runs one call per
  group and collects the futures in the order they complete.
\<close>

definition DEFAULT_WORKER_TIMEOUT_MS :: int where "DEFAULT_WORKER_TIMEOUT_MS = 10000"

definition DEFAULT_WORKER_MEMORY_MB :: int where "DEFAULT_WORKER_MEMORY_MB = 1024"

definition UNIT_REGISTRY_OPERATIONS :: "pystr list" where
  "UNIT_REGISTRY_OPERATIONS =
     [u ''units.convert'', u ''quantity.evaluate'', u ''dimension.check'', u ''dimension.infer'',
      u ''dimension.pi_groups'']"

section \<open>Telemetry\<close>

record timing =
  observations :: rat
  total_ms :: rat
  max_ms :: rat

record telemetry =
  counters :: "(pystr \<times> int) list"
  timings :: "(pystr \<times> timing) list"

definition increment :: "pystr \<Rightarrow> int \<Rightarrow> telemetry \<Rightarrow> telemetry" where
  "increment name amount t = t\<lparr>counters := AList.update name (dget (counters t) name 0 + amount) (counters t)\<rparr>"

definition observe :: "pystr \<Rightarrow> rat \<Rightarrow> telemetry \<Rightarrow> telemetry" where
  "observe name milliseconds t =
     (let s = dget (timings t) name \<lparr>observations = 0, total_ms = 0, max_ms = 0\<rparr>
      in t\<lparr>timings := AList.update name
             \<lparr>observations = observations s + 1, total_ms = total_ms s + max 0 milliseconds,
              max_ms = max (max_ms s) milliseconds\<rparr> (timings t)\<rparr>)"

definition average_ms :: "timing \<Rightarrow> rat" where
  "average_ms s = (if observations s = 0 then 0 else total_ms s / observations s)"

definition telemetry_snapshot :: "telemetry \<Rightarrow> pydict" where
  "telemetry_snapshot t =
     [(u ''counters'', VDict (map (\<lambda>(k, n). (k, VInt n)) (counters t))),
      (u ''timings'', VDict (map (\<lambda>(k, s). (k, VDict
         [(u ''count'', VInt (int_trunc (observations s))), (u ''totalMs'', VFloat (FFin (total_ms s))),
          (u ''maxMs'', VFloat (FFin (max_ms s))), (u ''averageMs'', VFloat (FFin (average_ms s)))])) (timings t)))]"

definition reset_telemetry :: "telemetry \<Rightarrow> telemetry" where
  "reset_telemetry t = \<lparr>counters = [], timings = []\<rparr>"

section \<open>The arguments of a call\<close>

record operation_request =
  rq_operation :: pyval
  rq_arguments :: pyval
  rq_timeout_ms :: pyval
  rq_memory_mb :: pyval
  rq_result_mode :: pyval
  rq_max_output_bytes :: pyval

text \<open>The integer of a value that passes \<^verbatim>\<open>isinstance(v, int) and not isinstance(v, bool)\<close>.\<close>

definition plain_int :: "pyval \<Rightarrow> int option" where
  "plain_int v = (case v of VInt i \<Rightarrow> Some i | _ \<Rightarrow> None)"

definition refuse_integer :: "string \<Rightarrow> int \<Rightarrow> int \<Rightarrow> pyval \<Rightarrow> pydict option \<Rightarrow> pydict option" where
  "refuse_integer name least greatest v otherwise =
     (let range = int_text least @ u '' and '' @ int_text greatest in
      case plain_int v of
        None \<Rightarrow> Some (simple_error ''E_LIMIT'' (u name @ u '' must be an integer between '' @ range))
      | Some i \<Rightarrow>
          if least \<le> i \<and> i \<le> greatest then otherwise
          else Some (simple_error ''E_LIMIT'' (u name @ u '' must be between '' @ range)))"

definition refusal :: "operation_request \<Rightarrow> pydict option" where
  "refusal rq =
     refuse_integer ''timeoutMs'' 100 30000 (rq_timeout_ms rq)
    (refuse_integer ''memoryMb'' 256 4096 (rq_memory_mb rq)
    (case rq_operation rq of
       VStr name \<Rightarrow>
         if name = [] then Some (simple_error ''E_INPUT'' (u ''operation must be a non-empty string''))
         else if \<not> is_dict (rq_arguments rq) then Some (simple_error ''E_INPUT'' (u ''arguments must be an object''))
         else if rq_result_mode rq \<notin> VStr ` set RESULT_MODES
         then Some (simple_error ''E_INPUT'' (u ''resultMode must be one of '' @ join (u '', '') RESULT_MODES))
         else refuse_integer ''maxOutputBytes'' MIN_OUTPUT_BYTES MAX_OUTPUT_BYTES (rq_max_output_bytes rq) None
     | _ \<Rightarrow> Some (simple_error ''E_INPUT'' (u ''operation must be a non-empty string''))))"

definition request_payload :: "operation_request \<Rightarrow> pydict" where
  "request_payload rq =
     [(u ''operation'', rq_operation rq), (u ''arguments'', rq_arguments rq), (u ''timeoutMs'', rq_timeout_ms rq),
      (u ''memoryMb'', rq_memory_mb rq), (u ''resultMode'', rq_result_mode rq),
      (u ''maxOutputBytes'', rq_max_output_bytes rq)]"

section \<open>An admitted operation\<close>

text \<open>
  What the pool, the cancel event, the clock and the worker answer; the second result is the worker that
  is given back, with the flag it is given back with.
\<close>

record execution_env =
  ex_acquired :: "worker option \<times> pydict option"
  ex_cancelled :: bool
  ex_expired :: bool
  ex_supervised :: "pyexn + execution"

fun exn_class :: "pyexn \<Rightarrow> pystr" where
  "exn_class (CalcError code message details) = u ''CalculatorError''"
| "exn_class (CertError message) = u ''CertificateValidationError''"
| "exn_class (BudgetError message rule) = u ''TransportBudgetError''"
| "exn_class (PyExn cls message) = cls"

definition supervision_error :: "pyexn \<Rightarrow> pyval" where
  "supervision_error e = VDict (simple_error ''E_RUNTIME'' (u ''worker supervision failed: '' @ exn_class e))"

definition no_get :: pyexn where
  "no_get = PyExn (u ''AttributeError'') (u ''object has no attribute get'')"

text \<open>The result, the two flags and the worker after the \<^verbatim>\<open>try\<close> statement.\<close>

definition attempt :: "execution_env \<Rightarrow> bool \<Rightarrow> worker \<Rightarrow> pyval \<times> bool \<times> bool \<times> worker" where
  "attempt ex requires_unit_registries w =
     (case ex_supervised ex of
        Inl e \<Rightarrow> (supervision_error e, False, False, w)
      | Inr x \<Rightarrow>
          if exec_reusable x \<and> requires_unit_registries then
            (case exec_result x of
               VDict d \<Rightarrow>
                 (VDict d, exec_reusable x, policy_applied x,
                  if py_eq (dget_none d (u ''status'')) (VStr (u ''ok'')) then w\<lparr>unit_registry_loaded := True\<rparr> else w)
             | _ \<Rightarrow> (supervision_error no_get, exec_reusable x, policy_applied x, w))
          else (exec_result x, exec_reusable x, policy_applied x, w))"

definition execute_admitted ::
  "interp \<Rightarrow> execution_env \<Rightarrow> bool \<Rightarrow> int \<Rightarrow> pystr \<Rightarrow> int \<Rightarrow> (pyexn + pyval) \<times> (worker \<times> bool) option" where
  "execute_admitted py ex requires_unit_registries timeout_ms result_mode max_output_bytes =
     (case ex_acquired ex of
        (None, startup_error) \<Rightarrow>
          (let failed = error_envelope (u ''E_RUNTIME'') (u ''worker failed to start'') None (Some (u ''startup'')) None None in
           (Inr (VDict (case startup_error of None \<Rightarrow> failed | Some e \<Rightarrow> if e = [] then failed else e)), None))
      | (Some w, _) \<Rightarrow>
          if ex_cancelled ex then (Inr (VDict (simple_error ''E_CANCELLED'' (u ''operation was cancelled''))), Some (w, True))
          else if ex_expired ex then
            (Inr (VDict (error_envelope (u ''E_TIMEOUT'')
               (u ''operation exceeded '' @ int_text timeout_ms @ u '' ms before execution began'')
               (Some [(u ''phase'', VStr (u ''startup'')), (u ''timeoutMs'', VInt timeout_ms)]) None None None)),
             Some (w, True))
          else
            (case attempt ex requires_unit_registries w of
               (result, reusable, applied, w') \<Rightarrow>
                 (if applied then Inr result
                  else (case result of
                          VDict d \<Rightarrow> rbind (apply_output_policy py d result_mode max_output_bytes) (\<lambda>r. Inr (VDict r))
                        | _ \<Rightarrow> Inl no_get),
                  Some (w', reusable))))"

section \<open>One call\<close>

text \<open>
  The answers of the shared controllers to a call, and what the call does to them: \<open>Abandoned\<close> is
  \<^verbatim>\<open>abandon_probe\<close>, \<open>Returned\<close> the release of the lease, \<open>Recorded\<close> the outcome told to the breaker.
\<close>

record call_env =
  cl_cancelled :: bool
  cl_permit :: "permit option \<times> int option"
  cl_admission :: "lease option \<times> pystr"
  cl_queue_limit :: int
  cl_execution :: execution_env

datatype effect = Abandoned permit | Returned lease | Recorded permit outcome

definition outcome_of :: "pyval \<Rightarrow> pyexn + outcome" where
  "outcome_of result =
     (case result of
        VDict d \<Rightarrow>
          if py_eq (dget_none d (u ''status'')) (VStr (u ''error'')) then
            rbind (get_or (dget d (u ''error'') (VDict [])) (u ''code'') VNone) (\<lambda>code.
              Inr (if py_eq code (VStr (u ''E_RUNTIME'')) then InfrastructureFailure else CallerError))
          else Inr Success
      | _ \<Rightarrow> Inl no_get)"

definition admission_denied :: "pystr \<Rightarrow> int \<Rightarrow> int \<Rightarrow> pydict" where
  "admission_denied reason queue_limit timeout_ms =
     (if reason = u ''overloaded'' then
        error_envelope (u ''E_OVERLOADED'') (u ''calculation queue is full; retry after the current burst'')
          (Some [(u ''queueLimit'', VInt queue_limit)]) (Some (u ''admission'')) (Some 100) None
      else if reason = u ''cancelled'' then simple_error ''E_CANCELLED'' (u ''operation was cancelled'')
      else
        error_envelope (u ''E_TIMEOUT'') (u ''operation exceeded '' @ int_text timeout_ms @ u '' ms while waiting for admission'')
          (Some [(u ''phase'', VStr (u ''admission'')), (u ''timeoutMs'', VInt timeout_ms)]) (Some (u ''admission'')) None None)"

text \<open>The call from the circuit breaker on: \<open>answer\<close> is what the admitted operation returns.\<close>

definition controlled_call ::
  "call_env \<Rightarrow> int \<Rightarrow> (pyexn + pyval) \<Rightarrow> (pyexn + pyval) \<times> effect list" where
  "controlled_call env timeout_ms answer =
     (case cl_permit env of
        (None, retry_after_ms) \<Rightarrow>
          (Inr (VDict (error_envelope (u ''E_UNAVAILABLE'')
             (u ''calculation workers are temporarily unavailable after repeated provider failures'')
             None (Some (u ''admission'')) retry_after_ms None)), [])
      | (Some p, _) \<Rightarrow>
          (case cl_admission env of
             (None, reason) \<Rightarrow> (Inr (VDict (admission_denied reason (cl_queue_limit env) timeout_ms)), [Abandoned p])
           | (Some l, _) \<Rightarrow>
               (case answer of
                  Inl e \<Rightarrow> (Inl e, [Recorded p InfrastructureFailure, Returned l])
                | Inr result \<Rightarrow>
                    (case outcome_of result of
                       Inl e \<Rightarrow> (Inl e, [Returned l])
                     | Inr out \<Rightarrow> (Inr result, [Returned l, Recorded p out])))))"

definition run_operation_impl ::
  "interp \<Rightarrow> heap \<Rightarrow> addr \<Rightarrow> call_env \<Rightarrow> operation_request \<Rightarrow> (pyexn + pyval) \<times> effect list" where
  "run_operation_impl py h a env rq =
     (if cl_cancelled env then (Inr (VDict (simple_error ''E_CANCELLED'' (u ''operation was cancelled''))), [])
      else
        (case refusal rq of
           Some e \<Rightarrow> (Inr (VDict e), [])
         | None \<Rightarrow>
             (let timeout_ms = the (plain_int (rq_timeout_ms rq));
                  mode = text_of (rq_result_mode rq);
                  bytes = the (plain_int (rq_max_output_bytes rq));
                  policy = (\<lambda>e. rbind (apply_output_policy py e mode bytes) (\<lambda>r. Inr (VDict r)))
              in (case encode_json_line py h request_limits a (VDict (request_payload rq)) of
                    Inl (BudgetError message rule) \<Rightarrow>
                      (policy (error_envelope (u ''E_LIMIT'') message
                         (Some [(u ''rule'', VStr rule), (u ''maxRequestBytes'', VInt (int MAX_REQUEST_BYTES)),
                                (u ''maxRequestNodes'', VInt (int MAX_REQUEST_NODES))])
                         (Some (u ''input'')) None None), [])
                  | Inl (PyExn cls message) \<Rightarrow>
                      (if cls \<in> set encoding_errors
                       then policy (simple_error ''E_INPUT'' (u ''arguments must be JSON-serializable: '' @ message))
                       else Inl (PyExn cls message), [])
                  | Inl e \<Rightarrow> (Inl e, [])
                  | Inr line \<Rightarrow>
                      controlled_call env timeout_ms
                        (fst (execute_admitted py (cl_execution env)
                                (text_of (rq_operation rq) \<in> set UNIT_REGISTRY_OPERATIONS) timeout_ms mode bytes))))))"

text \<open>
  \<^verbatim>\<open>run_operation\<close>: the call and its counters. \<open>shown\<close> is \<^verbatim>\<open>str\<close> of a code that is no text.
\<close>

definition count_request :: "(pyval \<Rightarrow> pystr) \<Rightarrow> pystr \<Rightarrow> rat \<Rightarrow> pydict \<Rightarrow> telemetry \<Rightarrow> pyexn + telemetry" where
  "count_request shown request_class elapsed_ms result t =
     (let t = increment (u ''requests.'' @ request_class) 1 (increment (u ''requests.total'') 1 t) in
      rbind
        (if py_eq (dget_none result (u ''status'')) (VStr (u ''error'')) then
           rbind (get_or (dget result (u ''error'') (VDict [])) (u ''code'') (VStr (u ''E_RUNTIME''))) (\<lambda>code.
             Inr (increment (u ''errors.'' @ (case code of VStr s \<Rightarrow> s | v \<Rightarrow> shown v)) 1 t))
         else Inr t)
        (\<lambda>t. Inr (observe (u ''requests.totalMs'') elapsed_ms t)))"

definition run_operation ::
  "interp \<Rightarrow> heap \<Rightarrow> addr \<Rightarrow> (pyval \<Rightarrow> pystr) \<Rightarrow> call_env \<Rightarrow> pystr \<Rightarrow> rat \<Rightarrow> operation_request \<Rightarrow> telemetry
     \<Rightarrow> (pyexn + pydict \<times> telemetry) \<times> effect list" where
  "run_operation py h a shown env request_class elapsed_ms rq t =
     (case run_operation_impl py h a env rq of
        (answer, effects) \<Rightarrow>
          (rbind answer (\<lambda>result.
             case result of
               VDict d \<Rightarrow> rbind (count_request shown request_class elapsed_ms d t) (\<lambda>t. Inr (d, t))
             | _ \<Rightarrow> Inl no_get),
           effects))"

section \<open>A batch\<close>

definition batch_worker_count :: "pyval list \<Rightarrow> int \<Rightarrow> int" where
  "batch_worker_count items default_memory_mb =
     (let asked = (\<lambda>v. case v of
                VDict d \<Rightarrow> plain_int (dget d (u ''memoryMb'') (VInt default_memory_mb)) | _ \<Rightarrow> None);
          requested_limits = List.map_filter asked items;
          largest_limit = (if requested_limits = [] then default_memory_mb else Max (set requested_limits));
          memory_bounded_workers = max 1 (GLOBAL_MEMORY_BUDGET_MB div max default_memory_mb largest_limit)
      in max 1 (min MAX_ACTIVE_BATCH_REQUESTS (min (int (length items)) memory_bounded_workers)))"

definition combined_is_set :: "bool option list \<Rightarrow> bool" where
  "combined_is_set events = list_ex id (List.map_filter id events)"

text \<open>
  What one item asks for, decided when its thread starts with \<open>remaining_ms\<close> left: an error of the item,
  or a call of \<^verbatim>\<open>run_operation\<close>. \<open>call\<close> is what that call returns.
\<close>

datatype item_plan = ItemError pydict | ItemCall operation_request

definition batch_remaining_ms :: "rat \<Rightarrow> rat \<Rightarrow> int" where
  "batch_remaining_ms batch_deadline now = int_trunc ((batch_deadline - now) * 1000)"

definition plan_item :: "int \<Rightarrow> int \<Rightarrow> pyval \<Rightarrow> item_plan" where
  "plan_item remaining_ms batch_timeout_ms item =
     (case item of
        VDict d \<Rightarrow>
          if \<not> is_str (dget_none d (u ''operation'')) \<or> \<not> is_dict (dget_none d (u ''arguments''))
          then ItemError (simple_error ''E_INPUT'' (u ''each item requires an operation string and arguments object''))
          else
            (let unexpected = filter (\<lambda>k. k \<notin> set BATCH_ITEM_FIELDS) (remdups (map fst d));
                 asked = dget d (u ''timeoutMs'') (VInt DEFAULT_WORKER_TIMEOUT_MS) in
             if unexpected \<noteq> [] then
               ItemError (error_envelope (u ''E_INPUT'') (u ''batch item contains unsupported fields'')
                 (Some [(u ''fieldCount'', VInt (int (length unexpected)))]) None None None)
             else if remaining_ms < 100 then
               ItemError (error_envelope (u ''E_TIMEOUT'')
                 (u ''batch exceeded its cumulative '' @ int_text batch_timeout_ms @ u '' ms deadline'')
                 (Some [(u ''phase'', VStr (u ''batch'')), (u ''timeoutMs'', VInt batch_timeout_ms)]) None None None)
             else
               ItemCall \<lparr>rq_operation = dget_none d (u ''operation''), rq_arguments = dget_none d (u ''arguments''),
                 rq_timeout_ms = (case plain_int asked of None \<Rightarrow> asked | Some i \<Rightarrow> VInt (min i remaining_ms)),
                 rq_memory_mb = dget d (u ''memoryMb'') (VInt DEFAULT_WORKER_MEMORY_MB),
                 rq_result_mode = dget d (u ''resultMode'') (VStr DEFAULT_RESULT_MODE),
                 rq_max_output_bytes = dget d (u ''maxOutputBytes'') (VInt DEFAULT_MAX_OUTPUT_BYTES)\<rparr>)
      | _ \<Rightarrow> ItemError (simple_error ''E_INPUT'' (u ''each item requires an operation string and arguments object'')))"

text \<open>\<^verbatim>\<open>{"index": index, **result}\<close>.\<close>

definition with_index :: "nat \<Rightarrow> pydict \<Rightarrow> pydict" where
  "with_index i result = fold (\<lambda>(k, v). AList.update k v) result [(u ''index'', VInt (int i))]"

definition run_batch_item ::
  "(operation_request \<Rightarrow> pyexn + pydict) \<Rightarrow> int \<Rightarrow> int \<Rightarrow> nat \<times> pyval \<Rightarrow> pyexn + pydict" where
  "run_batch_item call remaining_ms batch_timeout_ms entry =
     (case plan_item remaining_ms batch_timeout_ms (snd entry) of
        ItemError e \<Rightarrow> Inr (with_index (fst entry) e)
      | ItemCall rq \<Rightarrow> rbind (call rq) (\<lambda>result. Inr (with_index (fst entry) result)))"

type_synonym entries = "(nat \<times> pyval) list"

definition batch_key :: "interp \<Rightarrow> nat \<Rightarrow> pyval \<Rightarrow> pystr" where
  "batch_key py i item =
     (case json_text py True True item of Inr t \<Rightarrow> t | Inl _ \<Rightarrow> u ''unserializable:'' @ int_text (int i))"

fun group_items :: "interp \<Rightarrow> nat \<Rightarrow> pyval list \<Rightarrow> (pystr \<times> entries) list \<Rightarrow> (pystr \<times> entries) list" where
  "group_items py i [] grouped = grouped"
| "group_items py i (item # items) grouped =
     group_items py (Suc i) items
       (let key = batch_key py i item in AList.update key (dget grouped key [] @ [(i, item)]) grouped)"

record batch_state =
  results_by_index :: "(nat \<times> pydict) list"
  encoded_bytes :: nat
  aborted :: "pydict option"

definition batch_start :: batch_state where
  "batch_start = \<lparr>results_by_index = [], encoded_bytes = 0, aborted = None\<rparr>"

definition output_abort :: "nat \<Rightarrow> int \<Rightarrow> pydict" where
  "output_abort bytes max_output_bytes =
     error_envelope (u ''E_OUTPUT_LIMIT'')
       (u ''batch result requires at least '' @ int_text (int bytes)
          @ u '' bytes; reduce the batch or increase maxOutputBytes'')
       (Some [(u ''bytes'', VInt (int bytes)), (u ''maxOutputBytes'', VInt max_output_bytes)])
       (Some (u ''output'')) None None"

text \<open>The inner loop charges every index of a finished group, duplicates included.\<close>

fun charge_entries :: "interp \<Rightarrow> int \<Rightarrow> pydict \<Rightarrow> entries \<Rightarrow> batch_state \<Rightarrow> pyexn + batch_state" where
  "charge_entries py max_output_bytes representative [] s = Inr s"
| "charge_entries py max_output_bytes representative (entry # entries) s =
     (let indexed = AList.update (u ''index'') (VInt (int (fst entry))) representative in
      rbind (encoded_size py (VDict indexed)) (\<lambda>n.
        let s = s\<lparr>results_by_index := AList.update (fst entry) indexed (results_by_index s),
                  encoded_bytes := encoded_bytes s + n\<rparr> in
        if max_output_bytes < int (encoded_bytes s)
        then Inr (s\<lparr>aborted := Some (output_abort (encoded_bytes s) max_output_bytes)\<rparr>)
        else charge_entries py max_output_bytes representative entries s))"

definition representative_of :: "pyexn + pydict \<Rightarrow> pydict" where
  "representative_of answer =
     (case answer of
        Inl e \<Rightarrow> simple_error ''E_RUNTIME'' (u ''batch item supervision failed: '' @ exn_class e)
      | Inr r \<Rightarrow> r)"

text \<open>The loop over the futures in the order \<^verbatim>\<open>as_completed\<close> yields them.\<close>

fun collect_futures ::
  "interp \<Rightarrow> int \<Rightarrow> (entries \<times> (pyexn + pydict)) list \<Rightarrow> batch_state \<Rightarrow> pyexn + batch_state" where
  "collect_futures py max_output_bytes [] s = Inr s"
| "collect_futures py max_output_bytes (future # futures) s =
     rbind (charge_entries py max_output_bytes (representative_of (snd future)) (fst future) s) (\<lambda>s.
       if aborted s \<noteq> None then Inr s else collect_futures py max_output_bytes futures s)"

definition batch_result :: "pydict list \<Rightarrow> pydict" where
  "batch_result results =
     [(u ''status'', VStr (if list_all (\<lambda>r. py_eq (dget_none r (u ''status'')) (VStr (u ''ok''))) results
                            then u ''ok'' else u ''partial'')),
      (u ''count'', VInt (int (length results))),
      (u ''results'', VList (map VDict results))]"

definition final_result :: "interp \<Rightarrow> int \<Rightarrow> pydict list \<Rightarrow> pyexn + pydict" where
  "final_result py max_output_bytes results =
     (let result = batch_result results in
      rbind (encoded_size py (VDict result)) (\<lambda>n.
        Inr (if max_output_bytes < int n then
               error_envelope (u ''E_OUTPUT_LIMIT'')
                 (u ''batch result requires '' @ int_text (int n)
                    @ u '' bytes; reduce the batch or increase maxOutputBytes'')
                 (Some [(u ''bytes'', VInt (int n)), (u ''maxOutputBytes'', VInt max_output_bytes)]) None None None
             else result)))"

text \<open>
  The environment of a batch: the cancel event at the start and at the end, whether the deadline passed
  during the preflight, the order in which the futures of the groups complete, and for each group the
  time left when its thread starts and what its call returns.
\<close>

record batch_env =
  bt_cancelled :: bool
  bt_expired :: bool
  bt_order :: "nat list"
  bt_remaining :: "nat \<Rightarrow> int"
  bt_run :: "nat \<Rightarrow> operation_request \<Rightarrow> pyexn + pydict"
  bt_cancelled_after :: bool

definition group_answer :: "batch_env \<Rightarrow> int \<Rightarrow> (pystr \<times> entries) list \<Rightarrow> nat \<Rightarrow> pyexn + pydict" where
  "group_answer env timeout_ms groups g =
     run_batch_item (bt_run env g) (bt_remaining env g) timeout_ms (hd (snd (groups ! g)))"

definition batch_refusal :: "pyval \<Rightarrow> pyval \<Rightarrow> pyval \<Rightarrow> pydict option" where
  "batch_refusal items timeout_ms max_output_bytes =
     (case items of
        VList xs \<Rightarrow>
          if 1 \<le> length xs \<and> length xs \<le> 32 then
            refuse_integer ''timeoutMs'' 100 30000 timeout_ms
           (refuse_integer ''maxOutputBytes'' MIN_OUTPUT_BYTES MAX_OUTPUT_BYTES max_output_bytes None)
          else Some (simple_error ''E_LIMIT'' (u ''items must contain 1 to 32 operations''))
      | _ \<Rightarrow> Some (simple_error ''E_LIMIT'' (u ''items must contain 1 to 32 operations'')))"

definition batch_limits :: limits where
  "batch_limits =
     \<lparr>max_bytes = MAX_BATCH_REQUEST_BYTES, max_nodes = MAX_BATCH_REQUEST_NODES, max_depth = MAX_REQUEST_DEPTH\<rparr>"

definition preflight_error :: "pyexn \<Rightarrow> pyexn + pydict" where
  "preflight_error e =
     (case e of
        BudgetError message rule \<Rightarrow>
          Inr (error_envelope (u ''E_LIMIT'') message
            (Some [(u ''rule'', VStr rule), (u ''maxRequestBytes'', VInt (int MAX_BATCH_REQUEST_BYTES)),
                   (u ''maxRequestNodes'', VInt (int MAX_BATCH_REQUEST_NODES))]) (Some (u ''input'')) None None)
      | PyExn cls message \<Rightarrow>
          if cls \<in> set encoding_errors then
            Inr (error_envelope (u ''E_INPUT'') (u ''batch items must be JSON-serializable: '' @ message)
              None (Some (u ''input'')) None None)
          else Inl e
      | _ \<Rightarrow> Inl e)"

text \<open>The groups of a batch, and the loop over their futures in the order of the environment.\<close>

definition completed ::
  "interp \<Rightarrow> batch_env \<Rightarrow> pyval list \<Rightarrow> int \<Rightarrow> (entries \<times> (pyexn + pydict)) list" where
  "completed py env items timeout_ms =
     (let groups = group_items py 0 items [] in
      map (\<lambda>g. (snd (groups ! g), group_answer env timeout_ms groups g)) (bt_order env))"

definition run_batch ::
  "interp \<Rightarrow> heap \<Rightarrow> addr \<Rightarrow> batch_env \<Rightarrow> pyval \<Rightarrow> pyval \<Rightarrow> pyval \<Rightarrow> pyexn + pydict" where
  "run_batch py h a env items timeout_ms max_output_bytes =
     (if bt_cancelled env then Inr (simple_error ''E_CANCELLED'' (u ''batch was cancelled''))
      else
        (case batch_refusal items timeout_ms max_output_bytes of
           Some e \<Rightarrow> Inr e
         | None \<Rightarrow>
             (let xs = (case items of VList xs \<Rightarrow> xs | _ \<Rightarrow> []);
                  timeout = the (plain_int timeout_ms);
                  bytes = the (plain_int max_output_bytes)
              in (case encode_json_line py h batch_limits a (VDict [(u ''items'', items)]) of
                    Inl e \<Rightarrow> preflight_error e
                  | Inr line \<Rightarrow>
                      if bt_expired env then
                        Inr (error_envelope (u ''E_TIMEOUT'')
                          (u ''batch exceeded its cumulative '' @ int_text timeout
                             @ u '' ms deadline during input preflight'')
                          (Some [(u ''phase'', VStr (u ''input'')), (u ''timeoutMs'', VInt timeout)])
                          (Some (u ''input'')) None None)
                      else
                        rbind (collect_futures py bytes (completed py env xs timeout) batch_start) (\<lambda>s.
                          case aborted s of
                            Some e \<Rightarrow> Inr e
                          | None \<Rightarrow>
                              if bt_cancelled_after env
                              then Inr (simple_error ''E_CANCELLED'' (u ''batch was cancelled''))
                              else final_result py bytes
                                     (map (\<lambda>i. the (map_of (results_by_index s) i)) [0..<length xs]))))))"

section \<open>The groups of a batch\<close>

lemma mset_update_group:
  "mset (concat (map snd (AList.update k (dget g k [] @ [x]) g))) = add_mset x (mset (concat (map snd g)))"
proof (induction g)
  case (Cons e g)
  obtain k' es where e: "e = (k', es)" by (cases e)
  show ?case
  proof (cases "k = k'")
    case True
    then show ?thesis by (simp add: e dget_def)
  next
    case False
    then show ?thesis using Cons.IH by (simp add: e dget_def)
  qed
qed (simp add: dget_def)

definition grouped_by :: "interp \<Rightarrow> entries \<Rightarrow> (pystr \<times> entries) list \<Rightarrow> bool" where
  "grouped_by py entries groups \<longleftrightarrow>
     distinct (map fst groups) \<and> mset (concat (map snd groups)) = mset entries
     \<and> (\<forall>(k, es) \<in> set groups. es \<noteq> [] \<and> (\<forall>(i, item) \<in> set es. batch_key py i item = k))"

lemma grouped_by_step:
  assumes "grouped_by py entries groups"
  shows "grouped_by py (entries @ [(i, item)])
    (AList.update (batch_key py i item) (dget groups (batch_key py i item) [] @ [(i, item)]) groups)"
proof -
  let ?k = "batch_key py i item"
  have "\<forall>(j, x) \<in> set (dget groups ?k []). batch_key py j x = ?k"
    using assms by (auto simp: grouped_by_def dget_def split: option.splits dest!: map_of_SomeD)
  then have new: "es \<noteq> [] \<and> (\<forall>(j, x) \<in> set es. batch_key py j x = ?k)"
    if "es = dget groups ?k [] @ [(i, item)]" for es
    using that by auto
  have "set (AList.update ?k es groups) \<subseteq> insert (?k, es) (set groups)" for es :: entries
    by (induction groups) auto
  then have "snd e \<noteq> [] \<and> (\<forall>x \<in> set (snd e). batch_key py (fst x) (snd x) = fst e)"
    if "e \<in> set (AList.update ?k (dget groups ?k [] @ [(i, item)]) groups)" for e
    using that new assms unfolding grouped_by_def by fastforce
  then show ?thesis
    using assms unfolding grouped_by_def mset_update_group
    by (intro conjI ballI) (simp_all add: distinct_update split_beta)
qed

lemma group_items_grouped:
  "grouped_by py entries groups \<Longrightarrow>
   grouped_by py (entries @ enumerate i items) (group_items py i items groups)"
proof (induction items arbitrary: i entries groups)
  case (Cons item items)
  from Cons.IH [OF grouped_by_step [OF Cons.prems, of i item], of "Suc i"] show ?case
    by (simp add: Let_def)
qed simp

lemma batch_grouped: "grouped_by py (enumerate 0 items) (group_items py 0 items [])"
  using group_items_grouped [of py "[]" "[]" 0 items] by (simp add: grouped_by_def)

section \<open>Collecting the futures\<close>

definition indexed :: "nat \<Rightarrow> pydict \<Rightarrow> pydict" where
  "indexed i r = AList.update (u ''index'') (VInt (int i)) r"

fun charge_all :: "interp \<Rightarrow> int \<Rightarrow> (nat \<times> pydict) list \<Rightarrow> batch_state \<Rightarrow> pyexn + batch_state" where
  "charge_all py m [] s = Inr s"
| "charge_all py m (e # es) s =
     rbind (encoded_size py (VDict (snd e))) (\<lambda>n.
        let s = s\<lparr>results_by_index := AList.update (fst e) (snd e) (results_by_index s),
                  encoded_bytes := encoded_bytes s + n\<rparr> in
        if m < int (encoded_bytes s)
        then Inr (s\<lparr>aborted := Some (output_abort (encoded_bytes s) m)\<rparr>)
        else charge_all py m es s)"

lemma charge_entries_all:
  "charge_entries py m r es s = charge_all py m (map (\<lambda>e. (fst e, indexed (fst e) r)) es) s"
proof (induction es arbitrary: s)
  case (Cons e es)
  show ?case
    by (cases "encoded_size py (VDict (indexed (fst e) r))") (simp_all add: indexed_def Let_def Cons.IH [unfolded indexed_def])
qed simp

lemma charge_all_append:
  "aborted s = None \<Longrightarrow>
   charge_all py m (es @ fs) s
     = rbind (charge_all py m es s) (\<lambda>s. if aborted s \<noteq> None then Inr s else charge_all py m fs s)"
proof (induction es arbitrary: s)
  case (Cons e es)
  then show ?case
    by (cases "encoded_size py (VDict (snd e))") (simp_all add: Let_def)
qed simp

definition flat_results :: "(entries \<times> (pyexn + pydict)) list \<Rightarrow> (nat \<times> pydict) list" where
  "flat_results futures =
     concat (map (\<lambda>(es, a). map (\<lambda>e. (fst e, indexed (fst e) (representative_of a))) es) futures)"

lemma collect_futures_flat:
  "aborted s = None \<Longrightarrow> collect_futures py m futures s = charge_all py m (flat_results futures) s"
proof (induction futures arbitrary: s)
  case (Cons f futures)
  have "rbind (charge_all py m es s) (\<lambda>s. if aborted s \<noteq> None then Inr s else collect_futures py m futures s)
      = rbind (charge_all py m es s) (\<lambda>s. if aborted s \<noteq> None then Inr s
           else charge_all py m (flat_results futures) s)" for es
    by (rule rbind_cong) (auto simp: Cons.IH)
  moreover have "flat_results (f # futures)
      = map (\<lambda>e. (fst e, indexed (fst e) (representative_of (snd f)))) (fst f) @ flat_results futures"
    by (simp add: flat_results_def split_beta)
  ultimately show ?case using Cons.prems by (simp add: charge_all_append charge_entries_all)
qed (simp add: flat_results_def)

text \<open>When every result encodes, the loop ends with all of them or with the abort.\<close>

definition sizes :: "interp \<Rightarrow> (nat \<times> pydict) list \<Rightarrow> nat" where
  "sizes py es = sum_list (map (\<lambda>e. case encoded_size py (VDict (snd e)) of Inr n \<Rightarrow> n | Inl _ \<Rightarrow> 0) es)"

lemma charge_all_total:
  assumes "\<forall>e \<in> set es. \<not> isl (encoded_size py (VDict (snd e)))" and "int b \<le> m"
  shows "if int (b + sizes py es) \<le> m
    then charge_all py m es \<lparr>results_by_index = d, encoded_bytes = b, aborted = None\<rparr>
           = Inr \<lparr>results_by_index = fold (\<lambda>(i, r). AList.update i r) es d, encoded_bytes = b + sizes py es,
                  aborted = None\<rparr>
    else \<exists>s c. charge_all py m es \<lparr>results_by_index = d, encoded_bytes = b, aborted = None\<rparr> = Inr s
           \<and> m < int c \<and> aborted s = Some (output_abort c m)"
  using assms
proof (induction es arbitrary: d b)
  case Nil
  then show ?case by (simp add: sizes_def)
next
  case (Cons e es)
  obtain n where n: "encoded_size py (VDict (snd e)) = Inr n"
    using Cons.prems(1) by (cases "encoded_size py (VDict (snd e))") auto
  have sz: "b + sizes py (e # es) = (b + n) + sizes py es" by (simp add: sizes_def n)
  show ?case
  proof (cases "m < int (b + n)")
    case True
    then show ?thesis unfolding sz
      by (auto simp: n Let_def intro!: exI [where P = "\<lambda>c. _ < int c \<and> _ c", of "b + n"] exI [of _ "b + n"])
  next
    case False
    then show ?thesis using Cons.IH [of "b + n" "AList.update (fst e) (snd e) d"] Cons.prems unfolding sz
      by (auto simp: n Let_def split_beta split: if_splits)
  qed
qed

lemma sizes_perm: "mset es = mset fs \<Longrightarrow> sizes py es = sizes py fs"
proof -
  assume "mset es = mset fs"
  then have "sum_mset (image_mset f (mset es)) = sum_mset (image_mset f (mset fs))" for f :: "nat \<times> pydict \<Rightarrow> nat"
    by simp
  then show ?thesis unfolding sizes_def by (simp flip: sum_mset_sum_list)
qed

lemma fold_update_lookup:
  assumes "\<forall>e \<in> set es. snd e = f (fst e)"
  shows "map_of (fold (\<lambda>(i, r). AList.update i r) es d) i
    = (if i \<in> fst ` set es then Some (f i) else map_of d i)"
  using assms
proof (induction es arbitrary: d)
  case (Cons e es)
  obtain j r where e: "e = (j, r)" by (cases e)
  show ?case using Cons by (auto simp: e update_conv')
qed simp

section \<open>The reference answer of a batch\<close>

text \<open>The result item \<open>i\<close> would have alone: that of the representative of its group.\<close>

definition group_of :: "interp \<Rightarrow> pyval list \<Rightarrow> nat \<Rightarrow> nat" where
  "group_of py items i =
     length (takeWhile (\<lambda>k. k \<noteq> batch_key py i (items ! i)) (map fst (group_items py 0 items [])))"

definition item_result :: "interp \<Rightarrow> batch_env \<Rightarrow> pyval list \<Rightarrow> int \<Rightarrow> nat \<Rightarrow> pydict" where
  "item_result py env items timeout_ms i =
     indexed i (representative_of
       (group_answer env timeout_ms (group_items py 0 items []) (group_of py items i)))"

lemma takeWhile_index:
  assumes "distinct ks" and "g < length ks"
  shows "length (takeWhile (\<lambda>k. k \<noteq> ks ! g) ks) = g"
proof -
  have "takeWhile (\<lambda>k. k \<noteq> ks ! g) ks = take g ks"
    by (rule takeWhile_eq_take_P_nth) (use assms in \<open>auto simp: nth_eq_iff_index_eq\<close>)
  then show ?thesis using assms(2) by simp
qed

lemma group_of_entry:
  assumes "g < length (group_items py 0 items [])" and "e \<in> set (snd (group_items py 0 items [] ! g))"
  shows "group_of py items (fst e) = g"
proof -
  let ?G = "group_items py 0 items []"
  have G: "grouped_by py (enumerate 0 items) ?G" by (rule batch_grouped)
  have in_G: "?G ! g \<in> set ?G" using assms(1) by simp
  have "e \<in># mset (concat (map snd ?G))" using in_G assms(2) by auto
  then have "e \<in> set (enumerate 0 items)" using G unfolding grouped_by_def by (metis set_mset_mset)
  then have "snd e = items ! fst e" by (auto simp: enumerate_eq_zip set_zip)
  moreover have "batch_key py (fst e) (snd e) = fst (?G ! g)"
    using G in_G assms(2) unfolding grouped_by_def by (auto simp: split_beta dest!: bspec)
  ultimately show ?thesis
    using takeWhile_index [of "map fst ?G" g] G assms(1) by (simp add: group_of_def grouped_by_def)
qed

lemma completed_flat:
  assumes "mset (bt_order env) = mset [0..<length (group_items py 0 items [])]"
  shows "mset (flat_results (completed py env items timeout_ms))
    = mset (map (\<lambda>i. (i, item_result py env items timeout_ms i)) [0..<length items])"
proof -
  let ?G = "group_items py 0 items []" and ?r = "item_result py env items timeout_ms"
  let ?f = "\<lambda>g. map (\<lambda>e. (fst e, indexed (fst e) (representative_of (group_answer env timeout_ms ?G g)))) (snd (?G ! g))"
  have order: "flat_results (completed py env items timeout_ms) = concat (map ?f (bt_order env))"
    by (simp add: flat_results_def completed_def Let_def comp_def)
  have mset_concat': "mset (concat xss) = sum_mset (image_mset mset (mset xss))" for xss :: "(nat \<times> pydict) list list"
    by (simp add: mset_concat sum_mset_sum_list flip: mset_map)
  have "mset (concat (map ?f (bt_order env))) = mset (concat (map ?f [0..<length ?G]))"
    unfolding mset_concat' mset_map assms by simp
  also have "map ?f [0..<length ?G] = map (\<lambda>g. map (\<lambda>e. (fst e, ?r (fst e))) (snd (?G ! g))) [0..<length ?G]"
    by (auto simp: item_result_def group_of_entry)
  also have "\<dots> = map (map (\<lambda>e. (fst e, ?r (fst e)))) (map snd ?G)"
    by (rule nth_equalityI) auto
  also have "mset (concat \<dots>) = image_mset (\<lambda>e. (fst e, ?r (fst e))) (mset (concat (map snd ?G)))"
    by (simp only: map_concat [symmetric] mset_map)
  also have "\<dots> = mset (map (\<lambda>e. (fst e, ?r (fst e))) (enumerate 0 items))"
    using batch_grouped [of py items] by (simp add: grouped_by_def)
  also have "map (\<lambda>e. (fst e, ?r (fst e))) (enumerate 0 items) = map (\<lambda>i. (i, ?r i)) [0..<length items]"
    by (rule nth_equalityI) (auto simp: nth_enumerate_eq)
  finally show ?thesis by (simp add: order)
qed

section \<open>The envelope is longer than its results\<close>

lemma encode_utf8_append:
  "encode_utf8 (s @ t) = rbind (encode_utf8 s) (\<lambda>b. rbind (encode_utf8 t) (\<lambda>c. Inr (b @ c)))"
  unfolding encode_utf8_def by (induction s) (auto split: option.splits)

lemma encode_join:
  assumes "list_all2 (\<lambda>t n. \<exists>b. encode_utf8 t = Inr b \<and> length b = n) ts ns"
  shows "\<exists>b. encode_utf8 (join [44] ts) = Inr b \<and> sum_list ns \<le> length b"
  using assms
proof (induction ts ns rule: list_all2_induct)
  case Nil
  then show ?case by (simp add: encode_utf8_def)
next
  case (Cons t ts n ns)
  have "encode_utf8 (44 # s) = rbind (encode_utf8 s) (\<lambda>b. Inr (44 # b))" for s
    by (simp add: encode_utf8_def utf8_cp_bytes_def split: option.splits)
  then show ?case using Cons by (cases ts) (auto simp: encode_utf8_append)
qed

lemma ascii_encodes: "ascii_text t \<Longrightarrow> \<exists>b. encode_utf8 t = Inr b"
  using utf8_len_ascii [of t] by (auto simp: utf8_len_bytes ascii_text_def encode_utf8_def)

lemma encoded_size_text:
  "encoded_size py v = Inr n \<longleftrightarrow>
     (\<exists>t b. json_text py False True v = Inr t \<and> encode_utf8 t = Inr b \<and> length b = n)"
  by (auto simp: encoded_size_def rbind_eq_Inr)

lemma batch_result_size:
  assumes "list_all2 (\<lambda>r n. encoded_size py (VDict r) = Inr n) rs ns"
    and "sane_interp py" and "length rs \<le> 32"
  shows "\<exists>n. encoded_size py (VDict (batch_result rs)) = Inr n \<and> sum_list ns \<le> n"
proof -
  obtain ts where ts: "list_all2 (\<lambda>r t. json_text py False True (VDict r) = Inr t) rs ts"
    "list_all2 (\<lambda>t n. \<exists>b. encode_utf8 t = Inr b \<and> length b = n) ts ns"
    using assms(1)
  proof (induction rs ns arbitrary: thesis rule: list_all2_induct)
    case (Cons r rs n ns)
    show ?case
    proof (rule Cons.IH)
      fix ts
      assume IH: "list_all2 (\<lambda>r t. json_text py False True (VDict r) = Inr t) rs ts"
        "list_all2 (\<lambda>t n. \<exists>b. encode_utf8 t = Inr b \<and> length b = n) ts ns"
      from Cons.hyps(1) obtain t b where "json_text py False True (VDict r) = Inr t"
        "encode_utf8 t = Inr b" "length b = n" by (auto simp only: encoded_size_text)
      with IH show thesis by (intro Cons.prems [of "t # ts"]) (auto simp del: json_text.simps)
    qed
  qed simp
  obtain c where c: "encode_utf8 (join [44] ts) = Inr c" "sum_list ns \<le> length c"
    using encode_join [OF ts(2)] by blast
  have rs: "rmap (json_text py False True) (map VDict rs) = Inr ts"
    using ts(1) by (simp only: rmap_Inr_iff list_all2_map1)
  have "length (nat_text 10 (nat \<bar>int (length rs)\<bar>)) \<le> 2"
    by (rule int_text_length(2)) (use assms(3) in auto)
  then have count: "int_str py (int (length rs)) = Inr (int_text (int (length rs)))"
    using sane_digits [OF assms(2)] by (simp add: int_str_def)
  define st where "st = (if list_all (\<lambda>r. py_eq (dget_none r (u ''status'')) (VStr (u ''ok''))) rs
                            then u ''ok'' else u ''partial'')"
  have st: "plain st" by (simp add: st_def plain_lit)
  define pre where "pre = [123] @ json_string (u ''status'') @ [58] @ json_string st @ [44]
    @ json_string (u ''count'') @ [58] @ int_text (int (length rs)) @ [44] @ json_string (u ''results'') @ [58, 91]"
  have "json_text py False True (VDict (batch_result rs)) = Inr (pre @ join [44] ts @ [93, 125])"
    using rs count by (simp add: batch_result_def st_def pre_def item_order_def)
  moreover have "ascii_text pre" "ascii_text [93, 125]"
    by (simp_all add: pre_def st json_string_plain plain_lit)
  then obtain x y where "encode_utf8 pre = Inr x" "encode_utf8 [93, 125] = Inr y"
    using ascii_encodes by metis
  ultimately show ?thesis using c by (auto simp: encoded_size_text encode_utf8_append)
qed

section \<open>Properties\<close>

lemma set_map_filter_iff: "y \<in> set (List.map_filter f xs) \<longleftrightarrow> (\<exists>x \<in> set xs. f x = Some y)"
  by (induction xs) (auto split: option.splits)

lemma batch_accepted:
  assumes "batch_refusal (VList xs) (VInt timeout) (VInt bytes) = None"
  shows "1 \<le> length xs \<and> length xs \<le> 32 \<and> 0 \<le> bytes"
  using assms by (simp add: batch_refusal_def refuse_integer_def plain_int_def Let_def MIN_OUTPUT_BYTES_def split: if_splits)

text \<open>
  C7: The answer of an accepted batch is independent of the order in which the futures of its groups
  complete: it is the envelope of the results the items have one by one, in the order of the items and
  with duplicates expanded, exactly when that envelope fits the byte limit, and \<^verbatim>\<open>E_OUTPUT_LIMIT\<close>
  otherwise. In particular the early abort of the loop, which counts only the results, never drops an
  answer that would have fitted.
\<close>

theorem batch_ignores_completion_order:
  assumes "\<not> bt_cancelled env" "\<not> bt_expired env" "\<not> bt_cancelled_after env"
    and "batch_refusal (VList xs) (VInt timeout) (VInt bytes) = None"
    and "encode_json_line py h batch_limits a (VDict [(u ''items'', VList xs)]) = Inr line"
    and "mset (bt_order env) = mset [0..<length (group_items py 0 xs [])]"
    and "\<forall>i < length xs. \<not> isl (encoded_size py (VDict (item_result py env xs timeout i)))"
    and "sane_interp py"
  shows "\<exists>n. encoded_size py (VDict (batch_result (map (item_result py env xs timeout) [0..<length xs]))) = Inr n
    \<and> (if int n \<le> bytes
       then run_batch py h a env (VList xs) (VInt timeout) (VInt bytes)
              = Inr (batch_result (map (item_result py env xs timeout) [0..<length xs]))
       else \<exists>message details phase. run_batch py h a env (VList xs) (VInt timeout) (VInt bytes)
              = Inr (error_envelope (u ''E_OUTPUT_LIMIT'') message (Some details) phase None None))"
proof -
  let ?r = "item_result py env xs timeout" and ?es = "flat_results (completed py env xs timeout)"
  let ?rs = "map ?r [0..<length xs]"
  let ?ps = "map (\<lambda>i. (i, ?r i)) [0..<length xs]"
  have acc: "1 \<le> length xs" "length xs \<le> 32" "0 \<le> bytes" using batch_accepted [OF assms(4)] by auto
  have flat: "mset ?es = mset ?ps" by (rule completed_flat [OF assms(6)])
  then have set_flat: "set ?es = set ?ps" by (rule mset_eq_setD)
  define ns where "ns = map (\<lambda>r. case encoded_size py (VDict r) of Inr n \<Rightarrow> n | Inl _ \<Rightarrow> 0) ?rs"
  have "list_all2 (\<lambda>r n. encoded_size py (VDict r) = Inr n) ?rs ns"
  proof (rule list_all2_all_nthI)
    fix i
    assume "i < length ?rs"
    then show "encoded_size py (VDict (?rs ! i)) = Inr (ns ! i)"
      using assms(7) by (cases "encoded_size py (VDict (?r i))") (auto simp: ns_def)
  qed (simp add: ns_def)
  from batch_result_size [OF this assms(8)] acc(2)
  obtain n where n: "encoded_size py (VDict (batch_result ?rs)) = Inr n" "sum_list ns \<le> n"
    by (simp only: length_map length_upt diff_zero) blast
  have total: "sizes py ?es = sum_list ns"
    unfolding sizes_perm [OF flat] by (simp add: sizes_def ns_def comp_def)
  have enc: "\<forall>e \<in> set ?es. \<not> isl (encoded_size py (VDict (snd e)))"
    unfolding set_flat using assms(7) by auto
  note loop = charge_all_total [OF enc, of 0 bytes "[]"]
  have start: "collect_futures py bytes (completed py env xs timeout) batch_start
      = charge_all py bytes ?es \<lparr>results_by_index = [], encoded_bytes = 0, aborted = None\<rparr>"
    by (simp add: collect_futures_flat batch_start_def)
  have unfold: "run_batch py h a env (VList xs) (VInt timeout) (VInt bytes)
      = rbind (charge_all py bytes ?es \<lparr>results_by_index = [], encoded_bytes = 0, aborted = None\<rparr>)
          (\<lambda>s. case aborted s of Some e \<Rightarrow> Inr e | None \<Rightarrow>
             final_result py bytes (map (\<lambda>i. the (map_of (results_by_index s) i)) [0..<length xs]))"
    using assms(1-5) by (simp add: run_batch_def start plain_int_def Let_def cong: option.case_cong)
  show ?thesis
  proof (cases "int (sizes py ?es) \<le> bytes")
    case True
    have "map (\<lambda>i. the (map_of (fold (\<lambda>(i, r). AList.update i r) ?es []) i)) [0..<length xs] = ?rs"
      using fold_update_lookup [of ?es ?r "[]"] set_flat by (auto simp: image_image)
    then have "run_batch py h a env (VList xs) (VInt timeout) (VInt bytes) = final_result py bytes ?rs"
      using loop acc(3) True by (simp add: unfold del: map_eq_conv)
    then show ?thesis using n(1) by (auto simp: final_result_def)
  next
    case False
    then obtain s c where "charge_all py bytes ?es \<lparr>results_by_index = [], encoded_bytes = 0, aborted = None\<rparr> = Inr s"
      "aborted s = Some (output_abort c bytes)"
      using loop acc(3) by auto
    then show ?thesis using False n total by (auto simp: unfold output_abort_def)
  qed
qed

text \<open>
  A batch of at least one item runs on one to three threads, never more than it has items, and the
  calls running together fit the memory budget of the runtime when each of them does.
\<close>

theorem batch_workers_fit_memory:
  assumes "items \<noteq> []" and "VDict d \<in> set items"
    and "plain_int (dget d (u ''memoryMb'') (VInt DEFAULT_WORKER_MEMORY_MB)) = Some mb" and "mb \<le> GLOBAL_MEMORY_BUDGET_MB"
  shows "1 \<le> batch_worker_count items DEFAULT_WORKER_MEMORY_MB
    \<and> batch_worker_count items DEFAULT_WORKER_MEMORY_MB \<le> MAX_ACTIVE_BATCH_REQUESTS
    \<and> batch_worker_count items DEFAULT_WORKER_MEMORY_MB \<le> int (length items)
    \<and> batch_worker_count items DEFAULT_WORKER_MEMORY_MB * mb \<le> GLOBAL_MEMORY_BUDGET_MB"
proof -
  let ?asked = "\<lambda>v. case v of VDict d \<Rightarrow> plain_int (dget d (u ''memoryMb'') (VInt DEFAULT_WORKER_MEMORY_MB)) | _ \<Rightarrow> None"
  define limits where "limits = List.map_filter ?asked items"
  define largest where "largest = max DEFAULT_WORKER_MEMORY_MB (Max (set limits))"
  have mem: "mb \<in> set limits"
    using assms(2,3) unfolding limits_def set_map_filter_iff by (intro bexI [of _ "VDict d"]) simp_all
  then have "mb \<le> Max (set limits)" "limits \<noteq> []" by (auto intro: Max_ge)
  then have le: "mb \<le> largest" "limits \<noteq> []" by (simp_all add: largest_def)
  define n where "n = max 1 (min MAX_ACTIVE_BATCH_REQUESTS (min (int (length items))
      (max 1 (GLOBAL_MEMORY_BUDGET_MB div largest))))"
  have count: "batch_worker_count items DEFAULT_WORKER_MEMORY_MB = n"
    using le(2) unfolding batch_worker_count_def Let_def limits_def [symmetric] n_def largest_def
    by (simp only: if_False)
  have pos: "1024 \<le> largest" by (simp add: largest_def DEFAULT_WORKER_MEMORY_MB_def)
  have len: "1 \<le> int (length items)" using assms(1) by (cases items) auto
  have "n * mb \<le> GLOBAL_MEMORY_BUDGET_MB"
  proof (cases "n = 1")
    case True
    then show ?thesis using assms(4) by simp
  next
    case False
    then have n: "1 \<le> n" "n \<le> GLOBAL_MEMORY_BUDGET_MB div largest" by (auto simp: n_def)
    then have "n * largest \<le> (GLOBAL_MEMORY_BUDGET_MB div largest) * largest"
      using pos by (intro mult_right_mono) auto
    also have "\<dots> \<le> GLOBAL_MEMORY_BUDGET_MB"
      using pos div_mult_mod_eq [of GLOBAL_MEMORY_BUDGET_MB largest] pos_mod_sign [of largest GLOBAL_MEMORY_BUDGET_MB] by linarith
    finally show ?thesis using le(1) n(1) mult_left_mono [of mb largest n] by linarith
  qed
  then show ?thesis using len by (simp add: count) (auto simp: n_def MAX_ACTIVE_BATCH_REQUESTS_def)
qed

text \<open>
  A batch item that reaches \<^verbatim>\<open>run_operation\<close> with a timeout it accepts runs with between 100
  milliseconds and what is left of the deadline of the batch, and with no more than it asked for.
\<close>

theorem batch_item_within_deadline:
  assumes "plan_item remaining_ms batch_timeout_ms (VDict d) = ItemCall rq" and "refusal rq = None"
  shows "\<exists>t. rq_timeout_ms rq = VInt t \<and> 100 \<le> t \<and> t \<le> remaining_ms
    \<and> (\<exists>asked. dget d (u ''timeoutMs'') (VInt DEFAULT_WORKER_TIMEOUT_MS) = VInt asked \<and> t = min asked remaining_ms)
    \<and> set (map fst d) \<subseteq> set BATCH_ITEM_FIELDS"
proof -
  let ?asked = "dget d (u ''timeoutMs'') (VInt DEFAULT_WORKER_TIMEOUT_MS)"
  have "rq_timeout_ms rq = (case plain_int ?asked of None \<Rightarrow> ?asked | Some i \<Rightarrow> VInt (min i remaining_ms))"
    "set (map fst d) \<subseteq> set BATCH_ITEM_FIELDS"
    using assms(1) by (auto simp: plan_item_def Let_def filter_empty_conv split: if_splits)
  moreover have "\<exists>t. rq_timeout_ms rq = VInt t \<and> 100 \<le> t"
    using assms(2) by (auto simp: refusal_def refuse_integer_def plain_int_def Let_def split: if_splits pyval.splits)
  ultimately show ?thesis by (cases ?asked) (auto simp: plain_int_def)
qed

section \<open>Examples\<close>

definition sample_items :: "pyval list" where
  "sample_items = [VInt 1, VNone, VInt 1]"

definition sample_batch :: batch_env where
  "sample_batch = \<lparr>bt_cancelled = False, bt_expired = False, bt_order = [1, 0], bt_remaining = (\<lambda>_. 900),
     bt_run = (\<lambda>_ _. Inr []), bt_cancelled_after = False\<rparr>"

definition item_error :: pydict where
  "item_error = simple_error ''E_INPUT'' (u ''each item requires an operation string and arguments object'')"

lemma sample_groups:
  "group_items sample_py 0 sample_items []
     = [(u ''1'', [(0, VInt 1), (2, VInt 1)]), (u ''null'', [(1, VNone)])]"
proof -
  have "batch_key sample_py i (VInt 1) = u ''1''" "batch_key sample_py i VNone = u ''null''" for i
    by (simp_all add: batch_key_def int_str_def digits_allowed_def sample_py_def int_text_def nat_text.simps digit_cp_def u_def)
  then show ?thesis by (simp add: sample_items_def dget_def)
qed

lemma sample_item_result:
  assumes "i < 3"
  shows "\<exists>j. item_result sample_py sample_batch sample_items 1000 i = indexed i (with_index j item_error)"
proof -
  have "representative_of (group_answer sample_batch 1000 (group_items sample_py 0 sample_items []) g)
      = with_index (fst (hd (snd (group_items sample_py 0 sample_items [] ! g)))) item_error" if "g < 2" for g
    using that unfolding sample_groups
    by (auto simp: less_2_cases_iff group_answer_def run_batch_item_def plan_item_def item_error_def representative_of_def)
  moreover have "group_of sample_py sample_items i < 2"
  proof -
    have "batch_key sample_py i (sample_items ! i) \<in> {u ''1'', u ''null''}"
      using assms by (auto simp: less_Suc_eq numeral_3_eq_3 sample_items_def batch_key_def int_str_def digits_allowed_def
          sample_py_def int_text_def nat_text.simps digit_cp_def u_def)
    then show ?thesis unfolding group_of_def sample_groups by auto
  qed
  ultimately show ?thesis by (auto simp: item_result_def)
qed

lemma item_error_tidy:
  assumes "i < 3"
  shows "tidy sample_py (VDict (indexed i (with_index j item_error)))"
    and "cost (VDict (indexed i (with_index j item_error))) \<le> 300"
proof -
  have "i = 0 \<or> i = 1 \<or> i = 2" using assms by auto
  moreover have "length (nat_text 10 0) = 1" "length (nat_text 10 1) = 1" "length (nat_text 10 2) = 1"
    by (simp_all add: nat_text.simps)
  ultimately have "length (nat_text 10 i) = 1" by auto
  then have i: "digits_allowed sample_py (length (nat_text 10 i))" "length (int_text (int i)) = 1"
    by (simp_all add: sample_py_def digits_allowed_def int_text_def)
  have e: "indexed i (with_index j item_error) = (u ''index'', VInt (int i)) # item_error"
    by (simp add: indexed_def with_index_def item_error_def simple_error_def error_envelope_def)
  show "tidy sample_py (VDict (indexed i (with_index j item_error)))"
    "cost (VDict (indexed i (with_index j item_error))) \<le> 300"
    using i unfolding e by (simp_all add: item_error_def simple_error_def payload_defs plain_lit)
qed

definition sample_items_value :: pyval where
  "sample_items_value = VDict [(u ''items'', VList sample_items)]"

lemma sample_items_line:
  "\<exists>line. encode_json_line sample_py (heap_of sample_items_value) batch_limits (place []) sample_items_value = Inr line"
proof (rule tidy_line)
  show "denotes (heap_of sample_items_value) (place []) sample_items_value" by (rule every_value_denoted)
qed (simp_all add: sample_items_value_def sample_items_def batch_limits_def MAX_BATCH_REQUEST_BYTES_def
    MAX_BATCH_REQUEST_NODES_def MAX_REQUEST_DEPTH_def plain_lit sample_py_def digits_allowed_def int_text_def nat_text.simps)

theorem batch_ignores_completion_order_witness:
  "run_batch sample_py (heap_of sample_items_value) (place []) sample_batch (VList sample_items) (VInt 1000) (VInt 131072)
     = Inr (batch_result (map (item_result sample_py sample_batch sample_items 1000) [0..<3]))"
proof -
  let ?rs = "map (item_result sample_py sample_batch sample_items 1000) [0..<3]"
  have len: "length sample_items = 3" by (simp add: sample_items_def)
  obtain line where line: "encode_json_line sample_py (heap_of sample_items_value) batch_limits (place [])
      (VDict [(u ''items'', VList sample_items)]) = Inr line"
    using sample_items_line by (auto simp: sample_items_value_def)
  have tidy: "tidy sample_py (VDict r) \<and> cost (VDict r) \<le> 300" if "r \<in> set ?rs" for r
    using that sample_item_result item_error_tidy by fastforce
  have order: "mset (bt_order sample_batch) = mset [0..<length (group_items sample_py 0 sample_items [])]"
    by (simp add: sample_batch_def sample_groups upt_rec)
  have enc: "\<forall>i < length sample_items. \<not> isl (encoded_size sample_py
      (VDict (item_result sample_py sample_batch sample_items 1000 i)))"
  proof (intro allI impI)
    fix i
    assume "i < length sample_items"
    then have "item_result sample_py sample_batch sample_items 1000 i \<in> set ?rs" by (simp add: len)
    then have "tidy sample_py (VDict (item_result sample_py sample_batch sample_items 1000 i))" using tidy by blast
    from tidy_encoded [OF this] show "\<not> isl (encoded_size sample_py (VDict (item_result sample_py sample_batch sample_items 1000 i)))"
      by auto
  qed
  have ok: "batch_refusal (VList sample_items) (VInt 1000) (VInt 131072) = None"
    by (simp add: batch_refusal_def refuse_integer_def plain_int_def len MIN_OUTPUT_BYTES_def MAX_OUTPUT_BYTES_def)
  have digits: "digits_allowed sample_py (length (nat_text 10 3))" "length (int_text 3) = 1"
    by (simp_all add: sample_py_def digits_allowed_def int_text_def nat_text.simps)
  have three: "\<exists>r0 r1 r2. ?rs = [r0, r1, r2] \<and> list_all (\<lambda>r. tidy sample_py (VDict r) \<and> cost (VDict r) \<le> 300) [r0, r1, r2]"
    using tidy by (auto simp: upt_rec)
  have "tidy sample_py (VDict (batch_result ?rs)) \<and> cost (VDict (batch_result ?rs)) \<le> 2000"
    using three digits by (auto simp: batch_result_def plain_lit)
  then obtain m where "encoded_size sample_py (VDict (batch_result ?rs)) = Inr m" "m \<le> 2000"
    using tidy_encoded by fastforce
  then show ?thesis
    using batch_ignores_completion_order [OF _ _ _ ok line order enc sample_sane]
    by (simp add: len sample_batch_def)
qed

theorem batch_workers_fit_memory_witness:
  "batch_worker_count [VDict [(u ''memoryMb'', VInt 2048)], VNone] DEFAULT_WORKER_MEMORY_MB * 2048 \<le> GLOBAL_MEMORY_BUDGET_MB"
  using batch_workers_fit_memory [of "[VDict [(u ''memoryMb'', VInt 2048)], VNone]" "[(u ''memoryMb'', VInt 2048)]" 2048]
  by (simp add: dget_def plain_int_def GLOBAL_MEMORY_BUDGET_MB_def)

definition sample_item :: pydict where
  "sample_item = [(u ''operation'', VStr (u ''sum'')), (u ''arguments'', VDict [])]"

theorem batch_item_within_deadline_witness:
  "\<exists>rq. plan_item 900 1000 (VDict sample_item) = ItemCall rq \<and> rq_timeout_ms rq = VInt 900"
proof -
  obtain rq where rq: "plan_item 900 1000 (VDict sample_item) = ItemCall rq" "refusal rq = None"
    by (simp add: plan_item_def sample_item_def dget_none_def dget_def BATCH_ITEM_FIELDS_def Let_def refusal_def
        refuse_integer_def plain_int_def DEFAULT_WORKER_TIMEOUT_MS_def DEFAULT_WORKER_MEMORY_MB_def DEFAULT_RESULT_MODE_def
        RESULT_MODES_def DEFAULT_MAX_OUTPUT_BYTES_def MIN_OUTPUT_BYTES_def MAX_OUTPUT_BYTES_def)
  from batch_item_within_deadline [OF this] rq(1) show ?thesis
    by (auto simp: sample_item_def dget_def DEFAULT_WORKER_TIMEOUT_MS_def)
qed

text \<open>
  An answer of the worker that is no object raises after the lease is returned and before the permit is
  settled; the probe of a half-open circuit is then never returned.
\<close>

lemma malformed_answer_strands_probe:
  "cl_permit env = (Some p, retry) \<Longrightarrow> cl_admission env = (Some l, reason) \<Longrightarrow> \<not> is_dict result \<Longrightarrow>
   controlled_call env timeout_ms (Inr result) = (Inl no_get, [Returned l])"
  by (cases result) (simp_all add: controlled_call_def outcome_of_def)

end
