(* ===== verification/Programmer.thy ===== *)
theory Programmer
  imports Validation "HOL-Library.Word"
begin

text \<open>
  \<^verbatim>\<open>operations/programmer.py\<close>: fixed-width integers. A machine value is the Python integer the code calls
  \<^verbatim>\<open>raw\<close>, between 0 and \<open>2 ^ w\<close>; the handlers \<^verbatim>\<open>represent\<close>, \<^verbatim>\<open>bitwise\<close> and \<^verbatim>\<open>machine_arithmetic\<close> are
  functions of the argument dictionary. They are compared with the operations on machine words of the
  library.
\<close>

unbundle bit_operations_syntax

section \<open>Literals\<close>

definition BIT_WIDTHS :: "nat list" where "BIT_WIDTHS = [8, 16, 32, 64, 128, 256]"

definition SIGNEDNESS :: "pystr list" where "SIGNEDNESS = [u ''unsigned'', u ''twos_complement'']"

definition INPUT_MODES :: "pystr list" where "INPUT_MODES = [u ''value'', u ''bits'']"

definition literal_ok :: "pystr \<Rightarrow> bool" where
  "literal_ok s \<longleftrightarrow>
     (let t = Validation.unsigned s; p = take 2 t; d = drop 2 t in
      d \<noteq> [] \<and> p \<in> {u ''0b'', u ''0B''} \<and> list_all (\<lambda>c. 48 \<le> c \<and> c \<le> 49) d
      \<or> d \<noteq> [] \<and> p \<in> {u ''0o'', u ''0O''} \<and> list_all (\<lambda>c. 48 \<le> c \<and> c \<le> 55) d
      \<or> d \<noteq> [] \<and> p \<in> {u ''0x'', u ''0X''}
          \<and> list_all (\<lambda>c. 48 \<le> c \<and> c \<le> 57 \<or> 65 \<le> c \<and> c \<le> 70 \<or> 97 \<le> c \<and> c \<le> 102) d
      \<or> is_digits t)"

definition literal_parts :: "pystr \<Rightarrow> nat \<times> pystr" where
  "literal_parts s =
     (let t = Validation.unsigned s; p = ascii_lower t in
      if starts_with (u ''0b'') p then (2, drop 2 t)
      else if starts_with (u ''0o'') p then (8, drop 2 t)
      else if starts_with (u ''0x'') p then (16, drop 2 t)
      else (10, t))"

definition literal_negative :: "pystr \<Rightarrow> bool" where
  "literal_negative s \<longleftrightarrow> starts_with (u ''-'') s"

definition literal_error :: "pystr \<Rightarrow> pyexn" where
  "literal_error name = calc ''E_INPUT'' (name @ u '' must be decimal text or use a 0b, 0o, or 0x prefix'')"

definition decode_unbounded_literal :: "pydict \<Rightarrow> pystr \<Rightarrow> pyexn + int" where
  "decode_unbounded_literal arguments name =
     rbind (string_arg arguments name VNone 260) (\<lambda>literal.
     demand (literal_ok literal) (literal_error name)
     (let value = int (case literal_parts literal of (base, digits) \<Rightarrow> digits_val base digits)
      in Inr (if literal_negative literal then - value else value)))"

text \<open>Python's \<^verbatim>\<open>(1 << w) - 1\<close>.\<close>

definition width_mask :: "nat \<Rightarrow> int" where
  "width_mask w = push_bit w 1 - 1"

definition decode_literal :: "pydict \<Rightarrow> pystr \<Rightarrow> nat \<Rightarrow> pystr \<Rightarrow> pystr \<Rightarrow> pyexn + int" where
  "decode_literal arguments name bit_width signedness input_mode =
     rbind (string_arg arguments name VNone 260) (\<lambda>literal.
     demand (literal_ok literal) (literal_error name)
     (let parsed = int (case literal_parts literal of (base, digits) \<Rightarrow> digits_val base digits);
          value = (if literal_negative literal then - parsed else parsed)
      in if input_mode = u ''bits'' then
           demand (\<not> literal_negative literal) (calc ''E_INPUT'' (name @ u '' must be nonnegative when inputMode is bits''))
          (demand (parsed \<le> width_mask bit_width)
             (calc ''E_LIMIT'' (name @ u '' does not fit in '' @ int_text (int bit_width) @ u '' bits''))
             (Inr parsed))
         else if signedness = u ''unsigned'' then
           demand (0 \<le> value \<and> value \<le> width_mask bit_width)
             (calc ''E_LIMIT'' (name @ u '' does not fit the selected unsigned width''))
             (Inr (value AND width_mask bit_width))
         else
           demand (- push_bit (bit_width - 1) 1 \<le> value \<and> value \<le> push_bit (bit_width - 1) 1 - 1)
             (calc ''E_LIMIT'' (name @ u '' does not fit the selected two's-complement width''))
             (Inr (value AND width_mask bit_width))))"

definition decode_field_literal :: "pydict \<Rightarrow> pystr \<Rightarrow> nat \<Rightarrow> pyexn + int" where
  "decode_field_literal arguments name field_width =
     rbind (decode_unbounded_literal arguments name) (\<lambda>value.
     demand (0 \<le> value) (calc ''E_INPUT'' (name @ u '' must be nonnegative''))
    (demand (value < push_bit field_width 1) (calc ''E_LIMIT'' (name @ u '' does not fit fieldWidth''))
       (Inr value)))"

definition common_arguments :: "pydict \<Rightarrow> pyexn + (nat \<times> pystr \<times> pystr)" where
  "common_arguments arguments =
     rbind (integer_arg arguments (u ''bitWidth'') 64 8 256) (\<lambda>bit_width.
     demand (bit_width \<in> int ` set BIT_WIDTHS) (calc ''E_INPUT'' (u ''bitWidth must be one of: 8, 16, 32, 64, 128, 256''))
    (rbind (enum_arg arguments (u ''signedness'') SIGNEDNESS (u ''unsigned'')) (\<lambda>signedness.
     rbind (enum_arg arguments (u ''inputMode'') INPUT_MODES (u ''value'')) (\<lambda>input_mode.
     Inr (nat bit_width, signedness, input_mode)))))"

section \<open>Machine values\<close>

definition signed_value :: "int \<Rightarrow> nat \<Rightarrow> int" where
  "signed_value raw w = (if raw AND push_bit (w - 1) 1 \<noteq> 0 then raw - push_bit w 1 else raw)"

definition selected_value :: "int \<Rightarrow> nat \<Rightarrow> pystr \<Rightarrow> int" where
  "selected_value raw w signedness = (if signedness = u ''twos_complement'' then signed_value raw w else raw)"

definition selected_range :: "nat \<Rightarrow> pystr \<Rightarrow> int \<times> int" where
  "selected_range w signedness =
     (if signedness = u ''unsigned'' then (0, push_bit w 1 - 1)
      else (- push_bit (w - 1) 1, push_bit (w - 1) 1 - 1))"

definition selected_range_contains :: "int \<Rightarrow> nat \<Rightarrow> pystr \<Rightarrow> bool" where
  "selected_range_contains value w signedness \<longleftrightarrow>
     (if signedness = u ''unsigned'' then 0 \<le> value \<and> value \<le> push_bit w 1 - 1
      else - push_bit (w - 1) 1 \<le> value \<and> value \<le> push_bit (w - 1) 1 - 1)"

definition machine_divide :: "int \<Rightarrow> int \<Rightarrow> pystr \<Rightarrow> int \<times> int" where
  "machine_divide dividend divisor division_mode =
     (let q =
        (if division_mode = u ''floor'' then dividend div divisor
         else if division_mode = u ''euclidean'' then
           (if 0 < divisor then dividend div divisor else - (dividend div - divisor))
         else (let m = \<bar>dividend\<bar> div \<bar>divisor\<bar> in if (dividend < 0) \<noteq> (divisor < 0) then - m else m))
      in (q, dividend - divisor * q))"

definition reverse_chunks :: "int \<Rightarrow> nat \<Rightarrow> nat \<Rightarrow> int" where
  "reverse_chunks raw w chunk_width =
     fold (\<lambda>i result. result OR push_bit (w - (i + 1) * chunk_width)
             (drop_bit (i * chunk_width) raw AND width_mask chunk_width))
       [0..<w div chunk_width] 0"

fun bit_count :: "nat \<Rightarrow> nat" where
  "bit_count n = (if n = 0 then 0 else n mod 2 + bit_count (n div 2))"

declare bit_count.simps [simp del]

text \<open>\<^verbatim>\<open>f"{raw:0{w}b}"\<close>.\<close>

definition bits_text :: "int \<Rightarrow> nat \<Rightarrow> pystr" where
  "bits_text raw w = zero_pad w (nat_text 2 (nat raw))"

text \<open>The tables of \<^verbatim>\<open>unicodedata\<close> the code asks: the name of a character and \<^verbatim>\<open>isprintable\<close>.\<close>

record unicode_db =
  character_name :: "nat \<Rightarrow> pystr option"
  is_printable :: "nat \<Rightarrow> bool"

definition character_info :: "unicode_db \<Rightarrow> int \<Rightarrow> pydict" where
  "character_info db raw =
     (if raw \<le> 1114111 \<and> \<not> (55296 \<le> raw \<and> raw \<le> 57343) then
        [(u ''validUnicodeScalar'', VBool True),
         (u ''unicodeScalar'', VStr (u ''U+'' @ zero_pad 4 (nat_text 16 (nat raw)))),
         (u ''unicodeName'', case character_name db (nat raw) of None \<Rightarrow> VNone | Some n \<Rightarrow> VStr n),
         (u ''character'', if is_printable db (nat raw) then VStr [nat raw] else VNone),
         (u ''ascii'', VBool (raw \<le> 127)),
         (u ''printable'', VBool (is_printable db (nat raw)))]
      else
        [(u ''validUnicodeScalar'', VBool False), (u ''unicodeScalar'', VNone), (u ''unicodeName'', VNone),
         (u ''character'', VNone), (u ''ascii'', VBool False), (u ''printable'', VBool False)])"

definition representation :: "unicode_db \<Rightarrow> int \<Rightarrow> nat \<Rightarrow> pystr \<Rightarrow> pydict" where
  "representation db raw w signedness =
     [(u ''unsignedDecimal'', VStr (int_text raw)),
      (u ''signedDecimal'', VStr (int_text (signed_value raw w))),
      (u ''decimal'', VStr (int_text (selected_value raw w signedness))),
      (u ''binary'', VStr (bits_text raw w)),
      (u ''octal'', VStr (zero_pad ((w + 2) div 3) (nat_text 8 (nat raw)))),
      (u ''hexadecimal'', VStr (zero_pad (w div 4) (nat_text 16 (nat raw)))),
      (u ''character'', VDict (character_info db raw))]"

section \<open>\<^verbatim>\<open>represent\<close> and \<^verbatim>\<open>bitwise\<close>\<close>

definition BINARY_ACTIONS :: "pystr list" where
  "BINARY_ACTIONS = [u ''and'', u ''or'', u ''xor'', u ''nor'']"

definition UNARY_ACTIONS :: "pystr list" where
  "UNARY_ACTIONS = [u ''not'', u ''negate'', u ''count_ones'', u ''leading_zeros'', u ''trailing_zeros'', u ''reverse_bits'']"

definition SHIFT_ACTIONS :: "pystr list" where
  "SHIFT_ACTIONS =
     [u ''shift_left'', u ''logical_shift_right'', u ''arithmetic_shift_right'', u ''rotate_left'', u ''rotate_right'']"

definition REVERSAL_ACTIONS :: "pystr list" where
  "REVERSAL_ACTIONS = [u ''reverse_bytes'', u ''reverse_words'']"

definition BIT_FIELD_ACTIONS :: "pystr list" where "BIT_FIELD_ACTIONS = [u ''extract'', u ''insert'']"

definition ALIGN_ACTIONS :: "pystr list" where "ALIGN_ACTIONS = [u ''align_up'', u ''align_down'']"
text \<open>What one action computes, before the answer is written.\<close>

record bit_outcome =
  raw_result :: int
  overflow :: bool
  discarded_bits :: "pystr option"
  shift_count :: "int option"
  effective_count :: "int option"
  more_operands :: "pydict list"
  metadata :: pydict

definition raw_outcome :: "int \<Rightarrow> bit_outcome" where
  "raw_outcome raw =
     \<lparr>raw_result = raw, overflow = False, discarded_bits = None, shift_count = None, effective_count = None,
      more_operands = [], metadata = []\<rparr>"

definition binary_action :: "pystr \<Rightarrow> int \<Rightarrow> int \<Rightarrow> nat \<Rightarrow> int" where
  "binary_action action left right w =
     (if action = u ''and'' then left AND right
      else if action = u ''or'' then left OR right
      else if action = u ''xor'' then left XOR right
      else NOT (left OR right) AND width_mask w)"

definition unary_action :: "pystr \<Rightarrow> int \<Rightarrow> nat \<Rightarrow> pystr \<Rightarrow> bit_outcome" where
  "unary_action action raw w signedness =
     (if action = u ''not'' then raw_outcome (NOT raw AND width_mask w)
      else if action = u ''negate'' then
        (raw_outcome (- raw AND width_mask w))
          \<lparr>overflow := \<not> selected_range_contains (- selected_value raw w signedness) w signedness\<rparr>
      else if action = u ''count_ones'' then raw_outcome (int (bit_count (nat raw)))
      else if action = u ''leading_zeros'' then raw_outcome (int w - int (bit_length raw))
      else if action = u ''trailing_zeros'' then
        raw_outcome (if raw = 0 then int w else int (bit_length (raw AND - raw)) - 1)
      else raw_outcome (int (digits_val 2 (rev (bits_text raw w)))))"

definition shift_action :: "pystr \<Rightarrow> int \<Rightarrow> nat \<Rightarrow> pystr \<Rightarrow> nat \<Rightarrow> pyexn + bit_outcome" where
  "shift_action action raw w signedness count =
     (let bits = bits_text raw w; k = min count w;
          first = (if k = 0 then None else Some (take k bits));
          last = (if k = 0 then None else Some (drop (length bits - k) bits));
          outcome = (\<lambda>raw discarded effective over.
            \<lparr>raw_result = raw, overflow = over, discarded_bits = discarded, shift_count = Some (int count),
             effective_count = Some (int effective), more_operands = [], metadata = []\<rparr>)
      in if action = u ''shift_left'' then
           Inr (outcome (if w \<le> count then 0 else push_bit count raw AND width_mask w) first k
             (\<not> selected_range_contains (selected_value raw w signedness * push_bit count 1) w signedness))
         else if action = u ''logical_shift_right'' then
           Inr (outcome (if w \<le> count then 0 else drop_bit count raw) last k False)
         else if action = u ''arithmetic_shift_right'' then
           demand (signedness = u ''twos_complement'')
             (calc ''E_INPUT'' (u ''arithmetic_shift_right requires twos_complement signedness''))
             (Inr (outcome (drop_bit count (signed_value raw w) AND width_mask w) last k False))
         else
           (let c = count mod w in
            if action = u ''rotate_left'' then
              Inr (outcome (if c = 0 then raw else (push_bit c raw OR drop_bit (w - c) raw) AND width_mask w) None c False)
            else
              Inr (outcome (if c = 0 then raw else (drop_bit c raw OR push_bit (w - c) raw) AND width_mask w) None c False)))"

definition field_action :: "unicode_db \<Rightarrow> pydict \<Rightarrow> pystr \<Rightarrow> int \<Rightarrow> nat \<Rightarrow> pyexn + bit_outcome" where
  "field_action db arguments action raw w =
     rbind (integer_arg arguments (u ''offset'') 0 0 255) (\<lambda>offset.
     rbind (integer_arg arguments (u ''fieldWidth'') 1 1 256) (\<lambda>field_width.
     demand (offset + field_width \<le> int w) (calc ''E_INPUT'' (u ''offset + fieldWidth must not exceed bitWidth''))
     (let i = nat offset; n = nat field_width; meta = [(u ''offset'', VInt offset), (u ''fieldWidth'', VInt field_width)]
      in if action = u ''extract'' then Inr ((raw_outcome (drop_bit i raw AND width_mask n))\<lparr>metadata := meta\<rparr>)
         else
           rbind (decode_field_literal arguments (u ''field'') n) (\<lambda>fld.
           Inr ((raw_outcome ((raw AND NOT (push_bit i (width_mask n))) OR push_bit i fld))
             \<lparr>more_operands := [representation db fld n (u ''unsigned'')], metadata := meta\<rparr>)))))"

definition align_action ::
  "pydict \<Rightarrow> pystr \<Rightarrow> int \<Rightarrow> nat \<Rightarrow> pystr \<Rightarrow> pystr \<Rightarrow> pyexn + bit_outcome" where
  "align_action arguments action raw w signedness input_mode =
     demand (signedness = u ''unsigned'') (calc ''E_INPUT'' (action @ u '' requires unsigned signedness''))
    (demand (input_mode = u ''value'') (calc ''E_INPUT'' (action @ u '' requires inputMode=value''))
    (rbind (decode_unbounded_literal arguments (u ''alignment'')) (\<lambda>alignment.
     demand (0 < alignment \<and> alignment AND (alignment - 1) = 0)
       (calc ''E_INPUT'' (u ''alignment must be a positive power of two''))
     (let selected = selected_value raw w signedness; meta = [(u ''alignment'', VStr (int_text alignment))]
      in if action = u ''align_up'' then
           (let mathematical = (selected + alignment - 1) AND - alignment
            in Inr ((raw_outcome (mathematical AND width_mask w))
                 \<lparr>overflow := \<not> selected_range_contains mathematical w signedness, metadata := meta\<rparr>))
         else Inr ((raw_outcome (selected AND - alignment))\<lparr>metadata := meta\<rparr>)))))"

definition reversal_action :: "pystr \<Rightarrow> int \<Rightarrow> nat \<Rightarrow> pyexn + bit_outcome" where
  "reversal_action action raw w =
     (if action = u ''reverse_bytes'' then Inr (raw_outcome (reverse_chunks raw w 8))
      else demand (w mod 16 = 0) (calc ''E_INPUT'' (u ''reverse_words requires a bitWidth divisible by 16''))
             (Inr (raw_outcome (reverse_chunks raw w 16))))"

definition operand_action ::
  "unicode_db \<Rightarrow> pydict \<Rightarrow> pystr \<Rightarrow> int \<Rightarrow> nat \<Rightarrow> pystr \<Rightarrow> pystr \<Rightarrow> pyexn + bit_outcome" where
  "operand_action db arguments action raw w signedness input_mode =
     (if action \<in> set UNARY_ACTIONS then Inr (unary_action action raw w signedness)
      else if action \<in> set SHIFT_ACTIONS then
        rbind (integer_arg arguments (u ''count'') 1 0 256) (\<lambda>count. shift_action action raw w signedness (nat count))
      else if action \<in> set REVERSAL_ACTIONS then reversal_action action raw w
      else if action \<in> set BIT_FIELD_ACTIONS then field_action db arguments action raw w
      else align_action arguments action raw w signedness input_mode)"

definition opt_int :: "int option \<Rightarrow> pyval" where
  "opt_int i = (case i of None \<Rightarrow> VNone | Some i \<Rightarrow> VInt i)"

definition programmer_result ::
  "pystr \<Rightarrow> pystr \<Rightarrow> nat \<Rightarrow> pystr \<Rightarrow> pystr \<Rightarrow> pydict list \<Rightarrow> pydict \<Rightarrow> bit_outcome \<Rightarrow> bool \<Rightarrow> pystr list \<Rightarrow> pydict" where
  "programmer_result operation action w signedness input_mode operands result out truncated warnings =
     fold (\<lambda>(k, v). AList.update k v) (metadata out)
       [(u ''status'', VStr (u ''ok'')), (u ''operation'', VStr operation), (u ''kind'', VStr (u ''programmer_integer'')),
        (u ''action'', VStr action), (u ''bitWidth'', VInt (int w)), (u ''signedness'', VStr signedness),
        (u ''inputMode'', VStr input_mode), (u ''operands'', VList (map VDict operands)), (u ''result'', VDict result),
        (u ''overflow'', VBool (overflow out)), (u ''wrapped'', VBool (overflow out)), (u ''truncated'', VBool truncated),
        (u ''discardedBits'', case discarded_bits out of None \<Rightarrow> VNone | Some b \<Rightarrow> VStr b),
        (u ''count'', opt_int (shift_count out)), (u ''effectiveCount'', opt_int (effective_count out)),
        (u ''warnings'', VList (map VStr warnings))]"

definition represent :: "unicode_db \<Rightarrow> pydict \<Rightarrow> pyexn + pydict" where
  "represent db arguments =
     rbind (common_arguments arguments) (\<lambda>(w, signedness, input_mode).
     rbind (decode_literal arguments (u ''value'') w signedness input_mode) (\<lambda>raw.
     (let r = representation db raw w signedness in
      Inr (programmer_result (u ''integer.represent'') (u ''represent'') w signedness input_mode [r] r (raw_outcome raw) False []))))"

definition truncates :: "bit_outcome \<Rightarrow> bool" where
  "truncates out \<longleftrightarrow> (case discarded_bits out of None \<Rightarrow> False | Some b \<Rightarrow> 49 \<in> set b)"

definition bitwise :: "unicode_db \<Rightarrow> pydict \<Rightarrow> pyexn + pydict" where
  "bitwise db arguments =
     rbind (enum_arg arguments (u ''action'')
       (BINARY_ACTIONS @ UNARY_ACTIONS @ SHIFT_ACTIONS @ REVERSAL_ACTIONS @ BIT_FIELD_ACTIONS @ ALIGN_ACTIONS) (u ''and'')) (\<lambda>action.
     rbind (common_arguments arguments) (\<lambda>(w, signedness, input_mode).
     rbind
       (if action \<in> set BINARY_ACTIONS then
          rbind (decode_literal arguments (u ''left'') w signedness input_mode) (\<lambda>left.
          rbind (decode_literal arguments (u ''right'') w signedness input_mode) (\<lambda>right.
          Inr ([representation db left w signedness, representation db right w signedness],
               raw_outcome (binary_action action left right w))))
        else
          rbind (decode_literal arguments (u ''value'') w signedness input_mode) (\<lambda>raw.
          rbind (operand_action db arguments action raw w signedness input_mode) (\<lambda>out.
          Inr (representation db raw w signedness # more_operands out, out))))
       (\<lambda>(operands, out).
          Inr (programmer_result (u ''integer.bitwise'') action w signedness input_mode operands
            (representation db (raw_result out) w signedness) out (truncates out)
            ((if overflow out then [u ''The mathematical result overflowed and wrapped to the selected fixed width.''] else [])
             @ (if truncates out then [u ''The shift discarded one or more nonzero bits.''] else []))))))"

section \<open>\<^verbatim>\<open>machine_arithmetic\<close>\<close>

definition ARITHMETIC_ACTIONS :: "pystr list" where
  "ARITHMETIC_ACTIONS = [u ''add'', u ''subtract'', u ''multiply'', u ''divide'', u ''remainder'']"

definition OVERFLOW_BEHAVIORS :: "pystr list" where
  "OVERFLOW_BEHAVIORS = [u ''checked'', u ''wrapping'', u ''saturating'']"

definition DIVISION_MODES :: "pystr list" where
  "DIVISION_MODES = [u ''truncating'', u ''floor'', u ''euclidean'']"

definition mathematical_result ::
  "pydict \<Rightarrow> pystr \<Rightarrow> int \<Rightarrow> int \<Rightarrow> pyexn + (int \<times> int option \<times> pystr option)" where
  "mathematical_result arguments action left right =
     (if action = u ''add'' then Inr (left + right, None, None)
      else if action = u ''subtract'' then Inr (left - right, None, None)
      else if action = u ''multiply'' then Inr (left * right, None, None)
      else
        demand (right \<noteq> 0) (calc ''E_DOMAIN'' (u ''integer division by zero is undefined''))
       (rbind (enum_arg arguments (u ''divisionMode'') DIVISION_MODES (u ''truncating'')) (\<lambda>division_mode.
        (case machine_divide left right division_mode of (q, r) \<Rightarrow>
           if action = u ''divide'' then Inr (q, Some r, Some division_mode)
           else Inr (r, None, Some division_mode)))))"

text \<open>The machine value of a mathematical result, \<open>None\<close> for the outcome \<^verbatim>\<open>overflow\<close>.\<close>

definition machine_value :: "int \<Rightarrow> nat \<Rightarrow> pystr \<Rightarrow> pystr \<Rightarrow> int option" where
  "machine_value mathematical w signedness overflow_behavior =
     (let over = \<not> selected_range_contains mathematical w signedness;
          (minimum, maximum) = selected_range w signedness
      in if over \<and> overflow_behavior = u ''checked'' then None
         else Some ((if over \<and> overflow_behavior = u ''saturating'' then min (max mathematical minimum) maximum
                     else mathematical) AND width_mask w))"

definition overflow_warning :: "pystr \<Rightarrow> pystr" where
  "overflow_warning overflow_behavior =
     (if overflow_behavior = u ''checked'' then
        u ''The mathematical result does not fit the selected width; checked arithmetic produced no machine value.''
      else if overflow_behavior = u ''wrapping'' then
        u ''The mathematical result overflowed and wrapped to the selected fixed width.''
      else u ''The mathematical result overflowed and was clamped to the selected fixed-width boundary.'')"

definition machine_arithmetic :: "unicode_db \<Rightarrow> pydict \<Rightarrow> pyexn + pydict" where
  "machine_arithmetic db arguments =
     rbind (enum_arg arguments (u ''action'') ARITHMETIC_ACTIONS (u ''add'')) (\<lambda>action.
     rbind (common_arguments arguments) (\<lambda>(w, signedness, input_mode).
     rbind (enum_arg arguments (u ''overflowBehavior'') OVERFLOW_BEHAVIORS (u ''checked'')) (\<lambda>overflow_behavior.
     rbind (decode_literal arguments (u ''left'') w signedness input_mode) (\<lambda>left_raw.
     rbind (decode_literal arguments (u ''right'') w signedness input_mode) (\<lambda>right_raw.
     rbind (mathematical_result arguments action (selected_value left_raw w signedness) (selected_value right_raw w signedness))
       (\<lambda>(mathematical, mathematical_remainder, division_mode).
     (let over = \<not> selected_range_contains mathematical w signedness;
          value = machine_value mathematical w signedness overflow_behavior;
          shown = (\<lambda>i. VDict (representation db i w signedness))
      in Inr
        [(u ''status'', VStr (u ''ok'')), (u ''operation'', VStr (u ''integer.machine_arithmetic'')),
         (u ''kind'', VStr (u ''machine_integer_arithmetic'')), (u ''action'', VStr action),
         (u ''bitWidth'', VInt (int w)), (u ''signedness'', VStr signedness), (u ''inputMode'', VStr input_mode),
         (u ''overflowBehavior'', VStr overflow_behavior),
         (u ''divisionMode'', case division_mode of None \<Rightarrow> VNone | Some m \<Rightarrow> VStr m),
         (u ''operands'', VList [shown left_raw, shown right_raw]),
         (u ''mathematicalResult'', VStr (int_text mathematical)),
         (u ''mathematicalRemainder'', case mathematical_remainder of None \<Rightarrow> VNone | Some r \<Rightarrow> VStr (int_text r)),
         (u ''outcome'', VStr (if value = None then u ''overflow'' else u ''value'')),
         (u ''overflow'', VBool over),
         (u ''wrapped'', VBool (over \<and> overflow_behavior = u ''wrapping'')),
         (u ''saturated'', VBool (over \<and> overflow_behavior = u ''saturating'')),
         (u ''result'', case value of None \<Rightarrow> VNone | Some v \<Rightarrow> shown v),
         (u ''remainder'', case mathematical_remainder of None \<Rightarrow> VNone | Some r \<Rightarrow> shown (r AND width_mask w)),
         (u ''warnings'', VList (if over then [VStr (overflow_warning overflow_behavior)] else []))])))))))"

section \<open>Machine words\<close>

text \<open>A masked integer is the word of that integer.\<close>

lemma width_mask_eq: "v AND width_mask w = take_bit w v"
  by (simp add: width_mask_def take_bit_eq_mask mask_eq_exp_minus_1 push_bit_of_1)

lemma masked_word: "v AND width_mask LENGTH('a) = uint (word_of_int v :: 'a::len word)"
  by (simp add: width_mask_eq unsigned_of_int)

lemma word_range: "0 \<le> uint (x :: 'a::len word) \<and> uint x \<le> width_mask LENGTH('a)"
  using uint_bounded [of x] by (simp add: width_mask_def push_bit_of_1)

lemma word_of_range: "0 \<le> v \<Longrightarrow> v \<le> width_mask LENGTH('a) \<Longrightarrow> \<exists>x :: 'a::len word. v = uint x"
  by (rule exI [of _ "word_of_int v"])
    (simp add: unsigned_of_int width_mask_def push_bit_of_1 take_bit_int_eq_self)

lemma signed_value_word: "signed_value (uint (x :: 'a::len word)) LENGTH('a) = sint x"
proof -
  have top: "uint x AND push_bit (LENGTH('a) - 1) 1 \<noteq> 0 \<longleftrightarrow> bit (uint x) (LENGTH('a) - Suc 0)"
    by (simp add: bit_iff_and_push_bit_not_eq_0)
  have "sint x = take_bit LENGTH('a) (uint x) - 2 ^ LENGTH('a) * of_bool (bit (uint x) (LENGTH('a) - Suc 0))"
    by (simp add: sint_uint signed_take_bit_eq_take_bit_minus)
  moreover have "take_bit LENGTH('a) (uint x) = uint x"
    by (rule take_bit_int_eq_self) simp_all
  ultimately show ?thesis
    unfolding signed_value_def top by (simp add: push_bit_of_1)
qed

definition machine_int :: "pystr \<Rightarrow> 'a::len word \<Rightarrow> int" where
  "machine_int signedness x = (if signedness = u ''twos_complement'' then sint x else uint x)"

lemma selected_value_word: "selected_value (uint x) LENGTH('a) signedness = machine_int signedness (x :: 'a::len word)"
  by (simp add: selected_value_def machine_int_def signed_value_word)

lemma machine_int_word: "word_of_int (machine_int signedness x) = x"
  by (simp add: machine_int_def)

lemma selected_contains_word:
  "signedness \<in> set SIGNEDNESS \<Longrightarrow>
   selected_range_contains v LENGTH('a) signedness \<longleftrightarrow> machine_int signedness (word_of_int v :: 'a::len word) = v"
  unfolding selected_range_contains_def machine_int_def SIGNEDNESS_def
  by (auto simp: push_bit_of_1 unsigned_of_int take_bit_int_eq_self_iff signed_of_int signed_take_bit_int_eq_self_iff)

section \<open>The operations as word operations\<close>

definition bit_cp :: "bool \<Rightarrow> nat" where
  "bit_cp b = (if b then 49 else 48)"

lemma zero_pad_bits:
  "0 < w \<Longrightarrow> n < 2 ^ w \<Longrightarrow> zero_pad w (nat_text 2 n) = map bit_cp (rev (map (bit n) [0..<w]))"
proof (induction w arbitrary: n rule: nat_induct_non_zero)
  case 1
  then have "n = 0 \<or> n = 1" by auto
  then show ?case by (auto simp: zero_pad_def nat_text.simps digit_cp_def bit_cp_def bit_0)
next
  case (Suc w)
  have "zero_pad (Suc w) (nat_text 2 n) = zero_pad w (nat_text 2 (n div 2)) @ [digit_cp (n mod 2)]"
  proof (cases "n < 2")
    case True
    have "nat_text 2 0 = [48]" by (simp add: nat_text.simps digit_cp_def)
    moreover have "replicate w 48 = replicate (w - Suc 0) 48 @ [48 :: nat]"
      using Suc.hyps by (cases w) (simp_all flip: replicate_append_same)
    ultimately show ?thesis using True Suc.hyps by (simp add: zero_pad_def nat_text.simps [of 2 n])
  next
    case False
    then show ?thesis by (simp add: zero_pad_def nat_text.simps [of 2 n])
  qed
  also have "zero_pad w (nat_text 2 (n div 2)) = map bit_cp (rev (map (bit (n div 2)) [0..<w]))"
    using Suc.prems by (intro Suc.IH) simp
  also have "map (bit (n div 2)) [0..<w] = map (bit n) (map Suc [0..<w])"
    by (simp add: bit_Suc comp_def)
  also have "[digit_cp (n mod 2)] = [bit_cp (bit n 0)]"
    by (simp add: digit_cp_def bit_cp_def bit_0 odd_iff_mod_2_eq_one)
  finally show ?case by (simp add: map_Suc_upt upt_conv_Cons del: upt_Suc)
qed

lemma bits_text_word:
  "bits_text (uint (x :: 'a::len word)) LENGTH('a) = map bit_cp (rev (map (bit x) [0..<LENGTH('a)]))"
proof -
  have "nat (uint x) < 2 ^ LENGTH('a)" by (simp add: nat_less_iff)
  then have "bits_text (uint x) LENGTH('a) = map bit_cp (rev (map (bit (nat (uint x))) [0..<LENGTH('a)]))"
    unfolding bits_text_def by (intro zero_pad_bits) simp_all
  also have "map (bit (nat (uint x))) [0..<LENGTH('a)] = map (bit x) [0..<LENGTH('a)]"
    by (simp add: bit_nat_iff bit_simps)
  finally show ?thesis .
qed

lemma digits_val_bits: "digits_val 2 (map bit_cp bs) = horner_sum of_bool 2 (rev bs)"
proof (induction bs rule: rev_induct)
  case (snoc b bs)
  then show ?case by (simp add: bit_cp_def digit_val_def)
qed simp

lemma reversed_bits_word:
  "int (digits_val 2 (rev (bits_text (uint x) LENGTH('a)))) = uint (word_reverse (x :: 'a::len word))"
proof -
  let ?y = "word_reverse x"
  have int_horner: "int (horner_sum of_bool 2 bs) = horner_sum of_bool 2 bs" for bs
    by (induction bs) simp_all
  have "rev (map (bit x) [0..<LENGTH('a)]) = map (bit ?y) [0..<LENGTH('a)]"
    by (rule nth_equalityI) (simp_all add: rev_nth bit_simps)
  also have "\<dots> = map (bit (uint ?y)) [0..<LENGTH('a)]" by (simp add: bit_simps)
  finally have bits: "rev (map (bit x) [0..<LENGTH('a)]) = map (bit (uint ?y)) [0..<LENGTH('a)]" .
  have rev_text: "rev (bits_text (uint x) LENGTH('a)) = map bit_cp (map (bit x) [0..<LENGTH('a)])"
    by (simp add: bits_text_word rev_map)
  have "int (digits_val 2 (rev (bits_text (uint x) LENGTH('a)))) = horner_sum of_bool 2 (rev (map (bit x) [0..<LENGTH('a)]))"
    unfolding rev_text digits_val_bits int_horner ..
  also have "\<dots> = take_bit LENGTH('a) (uint ?y)"
    unfolding bits by (rule horner_sum_bit_eq_take_bit)
  also have "\<dots> = uint ?y" by (rule take_bit_int_eq_self) simp_all
  finally show ?thesis .
qed

definition word_operation :: "pystr \<Rightarrow> 'a::len word \<Rightarrow> 'a word \<Rightarrow> nat \<Rightarrow> 'a word" where
  "word_operation action x y n =
     (if action = u ''and'' then x AND y
      else if action = u ''or'' then x OR y
      else if action = u ''xor'' then x XOR y
      else if action = u ''nor'' then NOT (x OR y)
      else if action = u ''not'' then NOT x
      else if action = u ''negate'' then - x
      else if action = u ''reverse_bits'' then word_reverse x
      else if action = u ''shift_left'' then push_bit n x
      else if action = u ''logical_shift_right'' then drop_bit n x
      else if action = u ''arithmetic_shift_right'' then signed_drop_bit n x
      else if action = u ''rotate_left'' then word_rotl n x
      else word_rotr n x)"

lemma binary_action_word:
  "action \<in> set BINARY_ACTIONS \<Longrightarrow>
   binary_action action (uint x) (uint y) LENGTH('a) = uint (word_operation action (x :: 'a::len word) y n)"
  by (auto simp: BINARY_ACTIONS_def binary_action_def word_operation_def masked_word unsigned_and_eq unsigned_or_eq
      unsigned_xor_eq unsigned_not_eq width_mask_eq)

lemma not_word: "NOT (uint x) AND width_mask LENGTH('a) = uint (NOT (x :: 'a::len word))"
  by (simp add: width_mask_eq unsigned_not_eq)

lemma neg_word: "- uint x AND width_mask LENGTH('a) = uint (- (x :: 'a::len word))"
  by (simp only: masked_word) simp

lemma unary_action_word:
  assumes "action \<in> {u ''not'', u ''negate'', u ''reverse_bits''}"
  shows "raw_result (unary_action action (uint x) LENGTH('a) signedness) = uint (word_operation action (x :: 'a::len word) y n)"
  using assms
  by (auto simp: unary_action_def word_operation_def raw_outcome_def not_word neg_word reversed_bits_word)

lemma rotate_left_word:
  assumes "0 < c" "c < LENGTH('a)"
  shows "(push_bit c (uint x) OR drop_bit (LENGTH('a) - c) (uint x)) AND width_mask LENGTH('a) = uint (word_rotl c (x :: 'a::len word))"
proof (rule bit_eqI)
  fix i
  have "(i + LENGTH('a) - c) mod LENGTH('a) = (if c \<le> i then i - c else i + LENGTH('a) - c)" if "i < LENGTH('a)"
    using that assms by (auto simp: mod_if)
  moreover have "\<not> bit x (i + LENGTH('a) - c)" if "c \<le> i"
    using that bit_imp_le_length [of x "i + LENGTH('a) - c"] by auto
  ultimately show "bit ((push_bit c (uint x) OR drop_bit (LENGTH('a) - c) (uint x)) AND width_mask LENGTH('a)) i
      \<longleftrightarrow> bit (uint (word_rotl c x)) i"
    using assms by (auto simp: width_mask_eq bit_simps add.commute split: if_splits dest: bit_imp_le_length)
qed

lemma rotate_right_word:
  assumes "0 < c" "c < LENGTH('a)"
  shows "(drop_bit c (uint x) OR push_bit (LENGTH('a) - c) (uint x)) AND width_mask LENGTH('a) = uint (word_rotr c (x :: 'a::len word))"
proof (rule bit_eqI)
  fix i
  have "(i + c) mod LENGTH('a) = (if i + c < LENGTH('a) then i + c else i + c - LENGTH('a))" if "i < LENGTH('a)"
    using that assms by (auto simp: mod_if)
  moreover have "\<not> bit x (i + c)" if "\<not> i + c < LENGTH('a)"
    using that bit_imp_le_length [of x "i + c"] by auto
  ultimately show "bit ((drop_bit c (uint x) OR push_bit (LENGTH('a) - c) (uint x)) AND width_mask LENGTH('a)) i
      \<longleftrightarrow> bit (uint (word_rotr c x)) i"
    using assms by (auto simp: width_mask_eq bit_simps add.commute split: if_splits dest: bit_imp_le_length)
qed

lemma rotate_mod: "word_rotl (n mod LENGTH('a)) x = word_rotl n (x :: 'a::len word)"
  "word_rotr (n mod LENGTH('a)) x = word_rotr n (x :: 'a::len word)"
  by (auto intro!: bit_word_eqI simp: bit_simps mod_add_right_eq)

lemma rotate_zero: "word_rotl 0 x = x" "word_rotr 0 x = (x :: 'a::len word)"
  by (auto intro!: bit_word_eqI simp: bit_simps)

lemma shift_action_word:
  assumes "shift_action action (uint x) LENGTH('a) signedness n = Inr out" and "action \<in> set SHIFT_ACTIONS"
  shows "raw_result out = uint (word_operation action (x :: 'a::len word) y n) \<and> shift_count out = Some (int n)
    \<and> more_operands out = [] \<and> metadata out = []"
proof -
  have left: "(if LENGTH('a) \<le> n then 0 else push_bit n (uint x) AND width_mask LENGTH('a)) = uint (push_bit n x)"
    by (auto simp: width_mask_eq unsigned_push_bit_eq take_bit_push_bit)
  have right: "(if LENGTH('a) \<le> n then 0 else drop_bit n (uint x)) = uint (drop_bit n x)"
  proof -
    have "drop_bit n (uint x) = 0" if "LENGTH('a) \<le> n"
    proof -
      have "uint x < 2 ^ LENGTH('a)" by simp
      also have "(2 :: int) ^ LENGTH('a) \<le> 2 ^ n" using that by (simp add: power_increasing)
      finally show ?thesis by (simp add: drop_bit_eq_div)
    qed
    then show ?thesis by (simp add: unsigned_drop_bit_eq take_bit_int_eq_self)
  qed
  have arith: "drop_bit n (sint x) AND width_mask LENGTH('a) = uint (signed_drop_bit n x)"
    by (simp add: width_mask_eq uint_sint sint_signed_drop_bit_eq)
  have rotl: "(if n mod LENGTH('a) = 0 then uint x
      else (push_bit (n mod LENGTH('a)) (uint x) OR drop_bit (LENGTH('a) - n mod LENGTH('a)) (uint x)) AND width_mask LENGTH('a))
      = uint (word_rotl n x)"
    using rotate_left_word [of "n mod LENGTH('a)" x] rotate_mod(1) [of n x] rotate_zero(1) [of x]
    by (cases "n mod LENGTH('a) = 0") simp_all
  have rotr: "(if n mod LENGTH('a) = 0 then uint x
      else (drop_bit (n mod LENGTH('a)) (uint x) OR push_bit (LENGTH('a) - n mod LENGTH('a)) (uint x)) AND width_mask LENGTH('a))
      = uint (word_rotr n x)"
    using rotate_right_word [of "n mod LENGTH('a)" x] rotate_mod(2) [of n x] rotate_zero(2) [of x]
    by (cases "n mod LENGTH('a) = 0") simp_all
  show ?thesis
    using assms unfolding shift_action_def word_operation_def SHIFT_ACTIONS_def Let_def left right signed_value_word arith rotl rotr
    by (auto simp: demand_eq_Inr rotl rotr split: if_splits)
qed

text \<open>Every literal that is accepted denotes a word of the width.\<close>

lemma decode_literal_word:
  assumes "decode_literal arguments name LENGTH('a) signedness input_mode = Inr raw"
  shows "\<exists>x :: 'a::len word. raw = uint x"
proof -
  have "0 \<le> int n" for n by simp
  then show ?thesis
    using assms unfolding decode_literal_def
    by (auto simp: result_simps Let_def masked_word conjunct2 [OF word_range] split: if_splits intro!: word_of_range)
qed

section \<open>Reading an answer\<close>

definition answer_field :: "pydict \<Rightarrow> string \<Rightarrow> pyval" where
  "answer_field r name = dget_none r (u name)"

text \<open>The metadata of an action never overwrites the fields of every answer.\<close>

definition own_keys :: "pydict \<Rightarrow> bool" where
  "own_keys d \<longleftrightarrow> set (map fst d) \<subseteq> {u ''offset'', u ''fieldWidth'', u ''alignment''}"

lemma dget_fold_update:
  "k \<notin> set (map fst d) \<Longrightarrow> dget (fold (\<lambda>(k, v). AList.update k v) d e) k x = dget e k x"
  by (induction d arbitrary: e) (auto simp: dict_simps)

lemma programmer_result_fields:
  assumes "own_keys (metadata out)"
  shows "answer_field (programmer_result operation action w signedness input_mode operands result out tr ws) ''bitWidth'' = VInt (int w)"
    "answer_field (programmer_result operation action w signedness input_mode operands result out tr ws) ''action'' = VStr action"
    "answer_field (programmer_result operation action w signedness input_mode operands result out tr ws) ''signedness'' = VStr signedness"
    "answer_field (programmer_result operation action w signedness input_mode operands result out tr ws) ''operands'' = VList (map VDict operands)"
    "answer_field (programmer_result operation action w signedness input_mode operands result out tr ws) ''result'' = VDict result"
    "answer_field (programmer_result operation action w signedness input_mode operands result out tr ws) ''count'' = opt_int (shift_count out)"
    "answer_field (programmer_result operation action w signedness input_mode operands result out tr ws) ''overflow'' = VBool (overflow out)"
    "answer_field (programmer_result operation action w signedness input_mode operands result out tr ws) ''truncated'' = VBool tr"
proof -
  have "k \<notin> set (map fst (metadata out))" if "k \<in> {u ''bitWidth'', u ''action'', u ''signedness'', u ''operands'', u ''result'',
      u ''count'', u ''overflow'', u ''truncated''}" for k
    using assms that by (auto simp: own_keys_def)
  note keep = dget_fold_update [OF this]
  show "answer_field (programmer_result operation action w signedness input_mode operands result out tr ws) ''bitWidth'' = VInt (int w)"
    "answer_field (programmer_result operation action w signedness input_mode operands result out tr ws) ''action'' = VStr action"
    "answer_field (programmer_result operation action w signedness input_mode operands result out tr ws) ''signedness'' = VStr signedness"
    "answer_field (programmer_result operation action w signedness input_mode operands result out tr ws) ''operands'' = VList (map VDict operands)"
    "answer_field (programmer_result operation action w signedness input_mode operands result out tr ws) ''result'' = VDict result"
    "answer_field (programmer_result operation action w signedness input_mode operands result out tr ws) ''count'' = opt_int (shift_count out)"
    "answer_field (programmer_result operation action w signedness input_mode operands result out tr ws) ''overflow'' = VBool (overflow out)"
    "answer_field (programmer_result operation action w signedness input_mode operands result out tr ws) ''truncated'' = VBool tr"
    unfolding programmer_result_def answer_field_def dget_none_def by (simp_all add: keep) (simp_all add: dget_def)
qed

lemma raw_metadata: "own_keys (metadata (raw_outcome v))"
  by (simp add: raw_outcome_def own_keys_def)

lemma action_metadata:
  assumes "operand_action db arguments action raw w signedness input_mode = Inr out"
  shows "own_keys (metadata out)"
proof -
  have "own_keys (metadata (unary_action action raw w signedness))"
    by (simp add: unary_action_def raw_outcome_def own_keys_def)
  moreover have "own_keys (metadata out)" if "shift_action action raw w signedness n = Inr out" for n
    using that by (auto simp: shift_action_def Let_def demand_eq_Inr own_keys_def split: if_splits)
  moreover have "own_keys (metadata out)" if "reversal_action action raw w = Inr out"
    using that by (auto simp: reversal_action_def demand_eq_Inr own_keys_def raw_outcome_def split: if_splits)
  moreover have "own_keys (metadata out)" if "field_action db arguments action raw w = Inr out"
    using that by (auto simp: field_action_def result_simps Let_def own_keys_def raw_outcome_def split: if_splits)
  moreover have "own_keys (metadata out)" if "align_action arguments action raw w signedness input_mode = Inr out"
    using that by (auto simp: align_action_def result_simps Let_def own_keys_def raw_outcome_def split: if_splits)
  ultimately show ?thesis
    using assms by (auto simp: operand_action_def rbind_eq_Inr split: if_splits)
qed


definition WORD_ACTIONS :: "pystr list" where
  "WORD_ACTIONS = BINARY_ACTIONS @ [u ''not'', u ''negate'', u ''reverse_bits''] @ SHIFT_ACTIONS"

lemma bitwise_parts:
  assumes "bitwise db arguments = Inr r"
  obtains action w signedness input_mode operands out tr ws where
    "r = programmer_result (u ''integer.bitwise'') action w signedness input_mode operands
        (representation db (raw_result out) w signedness) out tr ws"
    "if action \<in> set BINARY_ACTIONS then
        \<exists>l m. decode_literal arguments (u ''left'') w signedness input_mode = Inr l
          \<and> decode_literal arguments (u ''right'') w signedness input_mode = Inr m
          \<and> operands = [representation db l w signedness, representation db m w signedness]
          \<and> out = raw_outcome (binary_action action l m w)
      else \<exists>raw. decode_literal arguments (u ''value'') w signedness input_mode = Inr raw
          \<and> operand_action db arguments action raw w signedness input_mode = Inr out
          \<and> operands = representation db raw w signedness # more_operands out"
    "own_keys (metadata out)"
proof -
  from assms obtain action where r1: "rbind (common_arguments arguments) (\<lambda>(w, signedness, input_mode).
     rbind
       (if action \<in> set BINARY_ACTIONS then
          rbind (decode_literal arguments (u ''left'') w signedness input_mode) (\<lambda>left.
          rbind (decode_literal arguments (u ''right'') w signedness input_mode) (\<lambda>right.
          Inr ([representation db left w signedness, representation db right w signedness],
               raw_outcome (binary_action action left right w))))
        else
          rbind (decode_literal arguments (u ''value'') w signedness input_mode) (\<lambda>raw.
          rbind (operand_action db arguments action raw w signedness input_mode) (\<lambda>out.
          Inr (representation db raw w signedness # more_operands out, out))))
       (\<lambda>(operands, out).
          Inr (programmer_result (u ''integer.bitwise'') action w signedness input_mode operands
            (representation db (raw_result out) w signedness) out (truncates out)
            ((if overflow out then [u ''The mathematical result overflowed and wrapped to the selected fixed width.''] else [])
             @ (if truncates out then [u ''The shift discarded one or more nonzero bits.''] else []))))) = Inr r"
    unfolding bitwise_def rbind_eq_Inr [of "enum_arg _ _ _ _"] by blast
  from r1 obtain w signedness input_mode operands out where
    "(if action \<in> set BINARY_ACTIONS then
          rbind (decode_literal arguments (u ''left'') w signedness input_mode) (\<lambda>left.
          rbind (decode_literal arguments (u ''right'') w signedness input_mode) (\<lambda>right.
          Inr ([representation db left w signedness, representation db right w signedness],
               raw_outcome (binary_action action left right w))))
        else
          rbind (decode_literal arguments (u ''value'') w signedness input_mode) (\<lambda>raw.
          rbind (operand_action db arguments action raw w signedness input_mode) (\<lambda>out.
          Inr (representation db raw w signedness # more_operands out, out)))) = Inr (operands, out)"
    "r = programmer_result (u ''integer.bitwise'') action w signedness input_mode operands
        (representation db (raw_result out) w signedness) out (truncates out)
            ((if overflow out then [u ''The mathematical result overflowed and wrapped to the selected fixed width.''] else [])
             @ (if truncates out then [u ''The shift discarded one or more nonzero bits.''] else []))"
    by (auto simp: rbind_eq_Inr [of "common_arguments _"] rbind_eq_Inr [of "if _ then _ else _"])
  then show thesis
    by (intro that [of action w signedness input_mode operands out])
      (auto simp: rbind_eq_Inr raw_metadata dest!: action_metadata split: if_splits)
qed

lemma word_action_outcome:
  assumes "operand_action db arguments action (uint x) LENGTH('a) signedness input_mode = Inr out"
    and "action \<in> set WORD_ACTIONS" "action \<notin> set BINARY_ACTIONS"
  shows "\<exists>n. raw_result out = uint (word_operation action (x :: 'a::len word) x n) \<and> more_operands out = []
    \<and> metadata out = [] \<and> (action \<in> set SHIFT_ACTIONS \<longrightarrow> shift_count out = Some (int n))"
proof (cases "action \<in> set SHIFT_ACTIONS")
  case True
  have "action \<notin> set UNARY_ACTIONS" using True by (auto simp: SHIFT_ACTIONS_def UNARY_ACTIONS_def)
  then obtain n where "shift_action action (uint x) LENGTH('a) signedness n = Inr out"
    using assms(1) True by (auto simp: operand_action_def rbind_eq_Inr)
  from shift_action_word [OF this True] show ?thesis by metis
next
  case False
  then have act: "action \<in> {u ''not'', u ''negate'', u ''reverse_bits''}"
    using assms(2,3) by (auto simp: WORD_ACTIONS_def)
  then have out: "out = unary_action action (uint x) LENGTH('a) signedness"
    using assms(1) by (auto simp: operand_action_def UNARY_ACTIONS_def)
  have "more_operands out = [] \<and> metadata out = []"
    by (simp add: out unary_action_def raw_outcome_def)
  then show ?thesis using unary_action_word [OF act] False out by blast
qed

text \<open>
  C37: Every bitwise operation is the operation on machine words. For each of the four binary actions,
  complement, negation, bit reversal, the three shifts and the two rotations, at every width: the operands
  an answer shows are those of two words (one for the unary actions), and the result it shows is that of
  the word operation on them, by the count it shows.
\<close>

theorem bitwise_agrees_with_words:
  assumes "bitwise db arguments = Inr r" and "answer_field r ''bitWidth'' = VInt (int LENGTH('a::len))"
    and "answer_field r ''action'' = VStr action" and "action \<in> set WORD_ACTIONS"
  shows "\<exists>(x :: 'a word) y n signedness. answer_field r ''signedness'' = VStr signedness
    \<and> answer_field r ''operands'' = VList (map (\<lambda>z. VDict (representation db (uint z) LENGTH('a) signedness))
        (if action \<in> set BINARY_ACTIONS then [x, y] else [x]))
    \<and> answer_field r ''result'' = VDict (representation db (uint (word_operation action x y n)) LENGTH('a) signedness)
    \<and> (action \<in> set SHIFT_ACTIONS \<longrightarrow> answer_field r ''count'' = VInt (int n))"
proof -
  from bitwise_parts [OF assms(1)] obtain act w signedness input_mode operands out tr ws where
    r: "r = programmer_result (u ''integer.bitwise'') act w signedness input_mode operands
        (representation db (raw_result out) w signedness) out tr ws"
    and parts: "if act \<in> set BINARY_ACTIONS then
        \<exists>l m. decode_literal arguments (u ''left'') w signedness input_mode = Inr l
          \<and> decode_literal arguments (u ''right'') w signedness input_mode = Inr m
          \<and> operands = [representation db l w signedness, representation db m w signedness]
          \<and> out = raw_outcome (binary_action act l m w)
      else \<exists>raw. decode_literal arguments (u ''value'') w signedness input_mode = Inr raw
          \<and> operand_action db arguments act raw w signedness input_mode = Inr out
          \<and> operands = representation db raw w signedness # more_operands out"
    and meta: "own_keys (metadata out)" .
  note shown = programmer_result_fields [OF meta]
  have w: "w = LENGTH('a)" and act: "act = action" using assms(2,3) by (simp_all add: r shown)
  show ?thesis
  proof (cases "action \<in> set BINARY_ACTIONS")
    case True
    then obtain x y :: "'a word" where operands: "operands = [representation db (uint x) w signedness, representation db (uint y) w signedness]"
      and out: "out = raw_outcome (binary_action action (uint x) (uint y) w)"
      using parts decode_literal_word [where 'a = 'a] unfolding act w by (simp, metis)
    have "action \<notin> set SHIFT_ACTIONS" using True by (auto simp: BINARY_ACTIONS_def SHIFT_ACTIONS_def)
    moreover have "raw_result out = uint (word_operation action x y 0)" "metadata out = []"
      using binary_action_word [OF True] by (simp_all add: out w raw_outcome_def)
    ultimately show ?thesis using True operands by (intro exI [of _ x] exI [of _ y]) (auto simp: r shown w)
  next
    case False
    then obtain x :: "'a word" where operands: "operands = representation db (uint x) w signedness # more_operands out"
      and op: "operand_action db arguments action (uint x) LENGTH('a) signedness input_mode = Inr out"
      using parts decode_literal_word [where 'a = 'a] unfolding act w by (simp, metis)
    from word_action_outcome [OF op assms(4) False] obtain n where
      "raw_result out = uint (word_operation action x x n)" "more_operands out = []" "metadata out = []"
      "action \<in> set SHIFT_ACTIONS \<longrightarrow> shift_count out = Some (int n)" by blast
    then show ?thesis using False operands
      by (intro exI [of _ x] exI [of _ x] exI [of _ n]) (auto simp: r shown w opt_int_def)
  qed
qed

section \<open>Arithmetic\<close>

text \<open>The three divisions.\<close>

lemma div_bounds:
  assumes "0 < (y :: int)"
  shows "0 \<le> x mod y" "x mod y < y" "x = y * (x div y) + x mod y" "\<bar>x div y\<bar> \<le> \<bar>x\<bar>"
proof -
  show "0 \<le> x mod y" "x mod y < y" "x = y * (x div y) + x mod y"
    using assms by simp_all
  show "\<bar>x div y\<bar> \<le> \<bar>x\<bar>"
  proof (cases "0 \<le> x")
    case True
    then have "x \<le> y * x" using assms mult_right_mono [of 1 y x] by simp
    then have "x div y \<le> (y * x) div y" using assms by (rule zdiv_mono1)
    then show ?thesis using True assms by (simp add: pos_imp_zdiv_nonneg_iff)
  next
    case False
    then have "y * x \<le> x" using assms mult_right_mono_neg [of 1 y x] by simp
    then have "(y * x) div y \<le> x div y" using assms by (rule zdiv_mono1)
    moreover have "x div y < 0" using False assms by (simp add: pos_imp_zdiv_neg_iff)
    ultimately show ?thesis using False assms by simp
  qed
qed

lemma floor_divide:
  assumes "b \<noteq> (0 :: int)"
  shows "\<bar>a mod b\<bar> < \<bar>b\<bar> \<and> (a mod b = 0 \<or> sgn (a mod b) = sgn b) \<and> \<bar>a div b\<bar> \<le> \<bar>a\<bar>"
proof -
  define m d where "m = a mod b" and "d = a div b"
  have "0 < b \<and> 0 \<le> m \<and> m < b \<and> \<bar>d\<bar> \<le> \<bar>a\<bar> \<or> b < 0 \<and> 0 \<le> - m \<and> - m < - b \<and> \<bar>d\<bar> \<le> \<bar>a\<bar>"
  proof (cases "0 < b")
    case True
    with div_bounds [OF True, of a] show ?thesis by (simp add: m_def d_def)
  next
    case False
    then have b: "0 < - b" using assms by simp
    have "- m = - a mod - b" "d = - a div - b" by (simp_all add: m_def d_def)
    with div_bounds [OF b, of "- a"] b show ?thesis by simp
  qed
  then show ?thesis unfolding m_def [symmetric] d_def [symmetric]
    by (elim disjE conjE) (auto simp: sgn_if abs_if)
qed

lemma euclidean_divide:
  assumes "b \<noteq> (0 :: int)" and q: "q = (if 0 < b then a div b else - (a div - b))"
  shows "0 \<le> a - b * q \<and> a - b * q < \<bar>b\<bar> \<and> \<bar>q\<bar> \<le> \<bar>a\<bar>"
proof -
  have b: "0 < \<bar>b\<bar>" using assms(1) by simp
  obtain d m where d: "d = a div \<bar>b\<bar>" and dm: "a = \<bar>b\<bar> * d + m" "0 \<le> m" "m < \<bar>b\<bar>" "\<bar>d\<bar> \<le> \<bar>a\<bar>"
    using div_bounds [OF b, of a] by blast
  have "b * q = \<bar>b\<bar> * d" "\<bar>q\<bar> = \<bar>d\<bar>" using assms by (cases "0 < b"; simp add: d)+
  with dm show ?thesis by linarith
qed

lemma truncating_divide:
  assumes "b \<noteq> (0 :: int)" and q: "q = (if (a < 0) \<noteq> (b < 0) then - (\<bar>a\<bar> div \<bar>b\<bar>) else \<bar>a\<bar> div \<bar>b\<bar>)"
  shows "\<bar>a - b * q\<bar> < \<bar>b\<bar> \<and> (a - b * q = 0 \<or> sgn (a - b * q) = sgn a) \<and> \<bar>q\<bar> \<le> \<bar>a\<bar>"
proof -
  have b: "0 < \<bar>b\<bar>" using assms(1) by simp
  obtain d m where d: "d = \<bar>a\<bar> div \<bar>b\<bar>" and dm: "\<bar>a\<bar> = \<bar>b\<bar> * d + m" "0 \<le> m" "m < \<bar>b\<bar>" "\<bar>d\<bar> \<le> \<bar>a\<bar>"
    using div_bounds [OF b, of "\<bar>a\<bar>", unfolded abs_idempotent] by blast
  have q': "q = (if (a < 0) \<noteq> (b < 0) then - d else d)" by (simp only: q d)
  then have "b * q = (if a < 0 then - (\<bar>b\<bar> * d) else \<bar>b\<bar> * d)" by (cases "b < 0") auto
  then have m: "a - b * q = (if a < 0 then - m else m)" using dm(1) by (cases "a < 0") simp_all
  have "0 \<le> d" using b by (simp add: d pos_imp_zdiv_nonneg_iff)
  then have "m \<le> \<bar>a\<bar>" using dm(1) by simp
  moreover have "\<bar>q\<bar> \<le> \<bar>a\<bar>" using q' dm(4) by simp
  ultimately show ?thesis unfolding m using dm(2,3) by (cases "a < 0") (simp_all add: sgn_if)
qed

lemma machine_divide_laws:
  assumes "b \<noteq> 0" and "machine_divide a b mode = (q, r)"
  shows "a = b * q + r \<and> \<bar>r\<bar> < \<bar>b\<bar> \<and> \<bar>q\<bar> \<le> \<bar>a\<bar>
    \<and> (mode = u ''floor'' \<longrightarrow> r = 0 \<or> sgn r = sgn b)
    \<and> (mode = u ''euclidean'' \<longrightarrow> 0 \<le> r)
    \<and> (mode = u ''truncating'' \<longrightarrow> r = 0 \<or> sgn r = sgn a)"
proof -
  have r: "r = a - b * q" using assms(2) by (auto simp: machine_divide_def Let_def)
  have q: "q = (if mode = u ''floor'' then a div b
         else if mode = u ''euclidean'' then (if 0 < b then a div b else - (a div - b))
         else if (a < 0) \<noteq> (b < 0) then - (\<bar>a\<bar> div \<bar>b\<bar>) else \<bar>a\<bar> div \<bar>b\<bar>)"
    using assms(2) unfolding machine_divide_def Let_def by simp
  consider "mode = u ''floor''" | "mode = u ''euclidean''" | "mode \<noteq> u ''floor''" "mode \<noteq> u ''euclidean''" by blast
  then show ?thesis
  proof cases
    case 1
    then show ?thesis using floor_divide [OF assms(1), of a] by (simp add: r q minus_mult_div_eq_mod)
  next
    case 2
    then have "q = (if 0 < b then a div b else - (a div - b))" by (simp add: q)
    from euclidean_divide [OF assms(1) this] 2 show ?thesis by (simp add: r)
  next
    case 3
    then have "q = (if (a < 0) \<noteq> (b < 0) then - (\<bar>a\<bar> div \<bar>b\<bar>) else \<bar>a\<bar> div \<bar>b\<bar>)" by (simp add: q)
    from truncating_divide [OF assms(1) this] 3 show ?thesis by (simp add: r)
  qed
qed

text \<open>The machine value of a mathematical result.\<close>

lemma machine_int_range:
  assumes "signedness \<in> set SIGNEDNESS"
  shows "selected_range_contains (machine_int signedness (x :: 'a::len word)) LENGTH('a) signedness"
  using selected_contains_word [OF assms, of "machine_int signedness x", where 'a = 'a] by (simp add: machine_int_word)

lemma selected_range_bounds:
  "selected_range_contains v w signedness \<longleftrightarrow>
     fst (selected_range w signedness) \<le> v \<and> v \<le> snd (selected_range w signedness)"
  by (simp add: selected_range_contains_def selected_range_def)

text \<open>\<open>nearest v z\<close>: no word is closer to \<open>v\<close> than \<open>z\<close>.\<close>

definition nearest :: "pystr \<Rightarrow> int \<Rightarrow> 'a::len word \<Rightarrow> bool" where
  "nearest signedness v z \<longleftrightarrow>
     (\<forall>y :: 'a word. \<bar>machine_int signedness z - v\<bar> \<le> \<bar>machine_int signedness y - v\<bar>)"

lemma clamped_nearest:
  fixes v :: int
  assumes "signedness \<in> set SIGNEDNESS" and "\<not> selected_range_contains v LENGTH('a::len) signedness"
  defines "z \<equiv> (word_of_int (min (max v (fst (selected_range LENGTH('a) signedness)))
                                    (snd (selected_range LENGTH('a) signedness))) :: 'a word)"
  shows "nearest signedness v z"
proof -
  define lo hi where "lo = fst (selected_range LENGTH('a) signedness)" and "hi = snd (selected_range LENGTH('a) signedness)"
  have lohi: "lo \<le> hi" using machine_int_range [OF assms(1), of "0 :: 'a word"] by (simp add: selected_range_bounds lo_def hi_def)
  then have "selected_range_contains (min (max v lo) hi) LENGTH('a) signedness"
    by (simp add: selected_range_bounds flip: lo_def hi_def)
  then have z: "machine_int signedness z = min (max v lo) hi"
    using selected_contains_word [OF assms(1), of "min (max v lo) hi", where 'a = 'a] by (simp add: z_def lo_def hi_def)
  have "lo \<le> machine_int signedness y \<and> machine_int signedness y \<le> hi" for y :: "'a word"
    using machine_int_range [OF assms(1), of y] by (simp add: selected_range_bounds lo_def hi_def)
  moreover have "\<not> (lo \<le> v \<and> v \<le> hi)" using assms(2) by (simp add: selected_range_bounds lo_def hi_def)
  ultimately show ?thesis unfolding nearest_def z using lohi
    by (auto simp: min_def max_def) (smt (verit))+
qed

definition result_states :: "unicode_db \<Rightarrow> pydict \<Rightarrow> pystr \<Rightarrow> pystr \<Rightarrow> int \<Rightarrow> 'a::len word itself \<Rightarrow> bool" where
  "result_states db r signedness behavior v _ \<longleftrightarrow>
     (let shown = (\<lambda>z :: 'a word. VDict (representation db (uint z) LENGTH('a) signedness)) in
      if \<exists>z :: 'a word. machine_int signedness z = v then
        answer_field r ''overflow'' = VBool False
        \<and> (\<exists>z. machine_int signedness z = v \<and> answer_field r ''result'' = shown z)
      else
        answer_field r ''overflow'' = VBool True
        \<and> (behavior = u ''checked'' \<longrightarrow> answer_field r ''result'' = VNone)
        \<and> (behavior = u ''wrapping'' \<longrightarrow> answer_field r ''result'' = shown (word_of_int v))
        \<and> (behavior = u ''saturating'' \<longrightarrow> (\<exists>z. nearest signedness v z \<and> answer_field r ''result'' = shown z)))"

lemma machine_value_states:
  assumes "signedness \<in> set SIGNEDNESS"
    and "answer_field r ''overflow'' = VBool (\<not> selected_range_contains v LENGTH('a) signedness)"
    and "answer_field r ''result'' = (case machine_value v LENGTH('a) signedness behavior of None \<Rightarrow> VNone
           | Some z \<Rightarrow> VDict (representation db z LENGTH('a::len) signedness))"
  shows "result_states db r signedness behavior v TYPE('a word)"
proof (cases "selected_range_contains v LENGTH('a) signedness")
  case True
  then have v: "machine_int signedness (word_of_int v :: 'a word) = v" using selected_contains_word [OF assms(1)] by blast
  have "machine_value v LENGTH('a) signedness behavior = Some (uint (word_of_int v :: 'a word))"
    using True by (simp add: machine_value_def masked_word split_beta)
  then show ?thesis using v assms(2,3) True unfolding result_states_def Let_def by auto
next
  case False
  then have no: "\<nexists>z :: 'a word. machine_int signedness z = v" using machine_int_range [OF assms(1), where 'a = 'a] by blast
  have val: "machine_value v LENGTH('a) signedness behavior =
      (if behavior = u ''checked'' then None
       else Some (uint (word_of_int (if behavior = u ''saturating'' then min (max v (fst (selected_range LENGTH('a) signedness)))
                                    (snd (selected_range LENGTH('a) signedness)) else v) :: 'a word)))"
    using False by (simp add: machine_value_def masked_word split_beta Let_def)
  show ?thesis using clamped_nearest [OF assms(1) False] no assms(2,3) False unfolding result_states_def Let_def val by auto
qed

lemma common_signedness: "common_arguments arguments = Inr (w, signedness, mode) \<Longrightarrow> signedness \<in> set SIGNEDNESS"
  by (auto simp: common_arguments_def result_simps enum_arg_Inr)

lemma arithmetic_parts:
  assumes "machine_arithmetic db arguments = Inr r"
  obtains action w signedness mode behavior left right v rem division where
    "common_arguments arguments = Inr (w, signedness, mode)" "action \<in> set ARITHMETIC_ACTIONS"
    "decode_literal arguments (u ''left'') w signedness mode = Inr left"
    "decode_literal arguments (u ''right'') w signedness mode = Inr right"
    "mathematical_result arguments action (selected_value left w signedness) (selected_value right w signedness)
       = Inr (v, rem, division)"
    "answer_field r ''bitWidth'' = VInt (int w)" "answer_field r ''action'' = VStr action"
    "answer_field r ''signedness'' = VStr signedness" "answer_field r ''overflowBehavior'' = VStr behavior"
    "answer_field r ''divisionMode'' = (case division of None \<Rightarrow> VNone | Some m \<Rightarrow> VStr m)"
    "answer_field r ''operands'' = VList [VDict (representation db left w signedness), VDict (representation db right w signedness)]"
    "answer_field r ''mathematicalResult'' = VStr (int_text v)"
    "answer_field r ''mathematicalRemainder'' = (case rem of None \<Rightarrow> VNone | Some m \<Rightarrow> VStr (int_text m))"
    "answer_field r ''overflow'' = VBool (\<not> selected_range_contains v w signedness)"
    "answer_field r ''result'' = (case machine_value v w signedness behavior of None \<Rightarrow> VNone
           | Some z \<Rightarrow> VDict (representation db z w signedness))"
proof -
  note fields = answer_field_def dget_none_def dget_def
  from assms obtain action w signedness mode behavior left right v rem division where
    parts: "action \<in> set ARITHMETIC_ACTIONS" "common_arguments arguments = Inr (w, signedness, mode)"
      "decode_literal arguments (u ''left'') w signedness mode = Inr left"
      "decode_literal arguments (u ''right'') w signedness mode = Inr right"
      "mathematical_result arguments action (selected_value left w signedness) (selected_value right w signedness)
         = Inr (v, rem, division)"
    and r: "answer_field r ''bitWidth'' = VInt (int w) \<and> answer_field r ''action'' = VStr action
      \<and> answer_field r ''signedness'' = VStr signedness \<and> answer_field r ''overflowBehavior'' = VStr behavior
      \<and> answer_field r ''divisionMode'' = (case division of None \<Rightarrow> VNone | Some m \<Rightarrow> VStr m)
      \<and> answer_field r ''operands'' = VList [VDict (representation db left w signedness), VDict (representation db right w signedness)]
      \<and> answer_field r ''mathematicalResult'' = VStr (int_text v)
      \<and> answer_field r ''mathematicalRemainder'' = (case rem of None \<Rightarrow> VNone | Some m \<Rightarrow> VStr (int_text m))
      \<and> answer_field r ''overflow'' = VBool (\<not> selected_range_contains v w signedness)
      \<and> answer_field r ''result'' = (case machine_value v w signedness behavior of None \<Rightarrow> VNone
           | Some z \<Rightarrow> VDict (representation db z w signedness))"
    by (clarsimp simp: machine_arithmetic_def rbind_eq_Inr Let_def enum_arg_Inr fields)
  from that [OF parts(2,1,3-5)] r show thesis by blast
qed

lemma mathematical_word:
  assumes "mathematical_result arguments action (machine_int signedness x) (machine_int signedness (y :: 'a::len word)) = Inr (v, rem, division)"
  shows "action = u ''add'' \<Longrightarrow> v = machine_int signedness x + machine_int signedness y \<and> word_of_int v = x + y"
    "action = u ''subtract'' \<Longrightarrow> v = machine_int signedness x - machine_int signedness y \<and> word_of_int v = x - y"
    "action = u ''multiply'' \<Longrightarrow> v = machine_int signedness x * machine_int signedness y \<and> word_of_int v = x * y"
  using assms by (auto simp: mathematical_result_def machine_int_word)

lemma mathematical_division:
  assumes "mathematical_result arguments action a b = Inr (v, rem, division)" and "action \<in> {u ''divide'', u ''remainder''}"
  shows "\<exists>mode q m. b \<noteq> 0 \<and> division = Some mode \<and> machine_divide a b mode = (q, m)
       \<and> v = (if action = u ''divide'' then q else m)"
proof -
  have b: "b \<noteq> 0" and "\<exists>mode. (case machine_divide a b mode of (q, m) \<Rightarrow>
      if action = u ''divide'' then Inr (q, Some m, Some mode) else Inr (m, None, Some mode)) = (Inr (v, rem, division) :: pyexn + _)"
    using assms by (auto simp: mathematical_result_def result_simps)
  then obtain mode where m: "(case machine_divide a b mode of (q, m) \<Rightarrow>
      if action = u ''divide'' then Inr (q, Some m, Some mode) else Inr (m, None, Some mode)) = (Inr (v, rem, division) :: pyexn + _)"
    by blast
  obtain q m where "machine_divide a b mode = (q, m)" by (cases "machine_divide a b mode")
  then show ?thesis using m b by (intro exI [of _ mode] exI [of _ q] exI [of _ m]) (simp split: if_splits)
qed

text \<open>
  Machine arithmetic is exact and then fitted. An answer of \<^verbatim>\<open>machine_arithmetic\<close> shows the operands of
  two words and the exact mathematical result \<open>v\<close>. Sum, difference and product are those of the integers
  the words stand for, and as words those of the library; a quotient and remainder satisfy
  \<open>a = b * q + r\<close> with \<open>\<bar>r\<bar> < \<bar>b\<bar>\<close> and the sign the division mode promises. The result field then is the
  word that stands for \<open>v\<close> when there is one, and otherwise, as the overflow behaviour says, nothing, the
  word of \<open>v\<close>, or the word nearest to \<open>v\<close>.
\<close>

theorem machine_arithmetic_exact:
  assumes "machine_arithmetic db arguments = Inr r" and "answer_field r ''bitWidth'' = VInt (int LENGTH('a::len))"
    and "answer_field r ''action'' = VStr action"
  shows "\<exists>(x :: 'a word) y signedness behavior v.
    answer_field r ''signedness'' = VStr signedness \<and> answer_field r ''overflowBehavior'' = VStr behavior
    \<and> answer_field r ''operands'' = VList [VDict (representation db (uint x) LENGTH('a) signedness),
                                          VDict (representation db (uint y) LENGTH('a) signedness)]
    \<and> answer_field r ''mathematicalResult'' = VStr (int_text v)
    \<and> result_states db r signedness behavior v TYPE('a word)
    \<and> (action = u ''add'' \<longrightarrow> v = machine_int signedness x + machine_int signedness y \<and> word_of_int v = x + y)
    \<and> (action = u ''subtract'' \<longrightarrow> v = machine_int signedness x - machine_int signedness y \<and> word_of_int v = x - y)
    \<and> (action = u ''multiply'' \<longrightarrow> v = machine_int signedness x * machine_int signedness y \<and> word_of_int v = x * y)
    \<and> (action \<in> {u ''divide'', u ''remainder''} \<longrightarrow>
        (\<exists>q m. v = (if action = u ''divide'' then q else m)
          \<and> machine_int signedness x = machine_int signedness y * q + m \<and> \<bar>m\<bar> < \<bar>machine_int signedness y\<bar>
          \<and> (answer_field r ''divisionMode'' = VStr (u ''floor'') \<longrightarrow> m = 0 \<or> sgn m = sgn (machine_int signedness y))
          \<and> (answer_field r ''divisionMode'' = VStr (u ''euclidean'') \<longrightarrow> 0 \<le> m)
          \<and> (answer_field r ''divisionMode'' = VStr (u ''truncating'') \<longrightarrow> m = 0 \<or> sgn m = sgn (machine_int signedness x))))"
proof -
  from arithmetic_parts [OF assms(1)] obtain act w signedness mode behavior left right v rem division where
    parts: "common_arguments arguments = Inr (w, signedness, mode)" "act \<in> set ARITHMETIC_ACTIONS"
      "decode_literal arguments (u ''left'') w signedness mode = Inr left"
      "decode_literal arguments (u ''right'') w signedness mode = Inr right"
      "mathematical_result arguments act (selected_value left w signedness) (selected_value right w signedness)
         = Inr (v, rem, division)"
    and r: "answer_field r ''bitWidth'' = VInt (int w)" "answer_field r ''action'' = VStr act"
      "answer_field r ''signedness'' = VStr signedness" "answer_field r ''overflowBehavior'' = VStr behavior"
      "answer_field r ''divisionMode'' = (case division of None \<Rightarrow> VNone | Some m \<Rightarrow> VStr m)"
      "answer_field r ''operands'' = VList [VDict (representation db left w signedness), VDict (representation db right w signedness)]"
      "answer_field r ''mathematicalResult'' = VStr (int_text v)"
      "answer_field r ''mathematicalRemainder'' = (case rem of None \<Rightarrow> VNone | Some m \<Rightarrow> VStr (int_text m))"
      "answer_field r ''overflow'' = VBool (\<not> selected_range_contains v w signedness)"
      "answer_field r ''result'' = (case machine_value v w signedness behavior of None \<Rightarrow> VNone
           | Some z \<Rightarrow> VDict (representation db z w signedness))" .
  have w: "w = LENGTH('a)" "act = action" using assms(2,3) r(1,2) by simp_all
  note sgn = common_signedness [OF parts(1)]
  obtain x y :: "'a word" where xy: "left = uint x" "right = uint y"
    using decode_literal_word [where 'a = 'a] parts(3,4) unfolding w by metis
  have math: "mathematical_result arguments action (machine_int signedness x) (machine_int signedness y) = Inr (v, rem, division)"
    using parts(5) by (simp add: w xy selected_value_word)
  have states: "result_states db r signedness behavior v TYPE('a word)"
    using machine_value_states [OF sgn r(9,10) [unfolded w]] .
  have division: "\<exists>q m. v = (if action = u ''divide'' then q else m)
          \<and> machine_int signedness x = machine_int signedness y * q + m \<and> \<bar>m\<bar> < \<bar>machine_int signedness y\<bar>
          \<and> (answer_field r ''divisionMode'' = VStr (u ''floor'') \<longrightarrow> m = 0 \<or> sgn m = sgn (machine_int signedness y))
          \<and> (answer_field r ''divisionMode'' = VStr (u ''euclidean'') \<longrightarrow> 0 \<le> m)
          \<and> (answer_field r ''divisionMode'' = VStr (u ''truncating'') \<longrightarrow> m = 0 \<or> sgn m = sgn (machine_int signedness x))"
    if "action \<in> {u ''divide'', u ''remainder''}"
  proof -
    from mathematical_division [OF math that] obtain md q m where nz: "machine_int signedness y \<noteq> 0" and d: "division = Some md"
      and qm: "machine_divide (machine_int signedness x) (machine_int signedness y) md = (q, m)"
      and v: "v = (if action = u ''divide'' then q else m)" by blast
    from machine_divide_laws [OF nz qm] show ?thesis
      unfolding r(5) d using v by - (rule exI [of _ q], rule exI [of _ m], elim conjE, simp)
  qed
  have operands: "answer_field r ''operands'' = VList [VDict (representation db (uint x) LENGTH('a) signedness),
      VDict (representation db (uint y) LENGTH('a) signedness)]"
    using r(6) by (simp only: w xy)
  show ?thesis
    by (rule exI [of _ x], rule exI [of _ y], rule exI [of _ signedness], rule exI [of _ behavior], rule exI [of _ v],
        intro conjI impI)
      (rule r(3) r(4) operands r(7) states | erule mathematical_word [OF math, THEN conjunct1]
        mathematical_word [OF math, THEN conjunct2] division)+
qed

section \<open>Printing and reading\<close>

definition digits_of :: "nat \<Rightarrow> pystr \<Rightarrow> bool" where
  "digits_of b t \<longleftrightarrow> t \<noteq> [] \<and> (\<forall>c \<in> set t. \<exists>d < b. c = digit_cp d)"

lemma nat_text_digits_of: "2 \<le> b \<Longrightarrow> digits_of b (nat_text b n)"
  using nat_text_digits [of b _ n] by (auto simp: digits_of_def nat_text.simps [of b n])

lemma zero_pad_digits_of: "0 < b \<Longrightarrow> digits_of b t \<Longrightarrow> digits_of b (zero_pad w t)"
  by (force simp: digits_of_def zero_pad_def digit_cp_def)

lemma digits_codes:
  assumes "digits_of b t" and "c \<in> set t" and "b \<le> 16"
  shows "48 \<le> c \<and> c \<le> 57 \<and> c < 48 + b \<or> 65 \<le> c \<and> c \<le> 70 \<and> 10 < b"
  using assms by (auto simp: digits_of_def digit_cp_def dest!: bspec split: if_splits)

lemma strip_no_space: "list_all (\<lambda>c. \<not> is_space c) t \<Longrightarrow> strip t = t"
proof -
  have keep: "dropWhile is_space s = s" if "list_all (\<lambda>c. \<not> is_space c) s" for s
    using that by (cases s) simp_all
  assume "list_all (\<lambda>c. \<not> is_space c) t"
  then show ?thesis using keep [of t] keep [of "rev t"] by (simp add: strip_def)
qed

lemma length_zero_pad_le: "length t \<le> w \<Longrightarrow> length (zero_pad w t) = w"
  by (simp add: zero_pad_def)

lemma not_space: "48 \<le> c \<Longrightarrow> c \<le> 120 \<Longrightarrow> \<not> is_space c"
  by (simp add: is_space_def)

text \<open>A literal made of a sign or a prefix and digits.\<close>

lemma literal_arg:
  assumes "list_all (\<lambda>c. \<not> is_space c) t" and "t \<noteq> []" and "length t \<le> 260"
  shows "string_arg [(name, VStr t)] name VNone 260 = Inr t"
  using assms by (simp add: string_arg_Inr strip_no_space dget_def)

lemma prefixed_literal:
  assumes "digits_of b t" and "(b, p) \<in> {(2, u ''0b''), (8, u ''0o''), (16, u ''0x'')}"
  shows "literal_ok (p @ t)" "literal_parts (p @ t) = (b, t)" "\<not> literal_negative (p @ t)"
    "list_all (\<lambda>c. \<not> is_space c) (p @ t)"
proof -
  have t: "t \<noteq> []" using assms(1) by (simp add: digits_of_def)
  have b: "b \<le> 16" using assms(2) by auto
  note codes = digits_codes [OF assms(1) _ b]
  have p: "p = [48, 98] \<and> b = 2 \<or> p = [48, 111] \<and> b = 8 \<or> p = [48, 120] \<and> b = 16"
    using assms(2) by (auto simp: u_def)
  have un: "Validation.unsigned (p @ t) = p @ t" using p by (auto simp: Validation.unsigned_def)
  show "literal_ok (p @ t)"
  proof -
    have "list_all (\<lambda>c. 48 \<le> c \<and> c \<le> 49) t" if "b = 2"
      unfolding list_all_iff using codes that by force
    moreover have "list_all (\<lambda>c. 48 \<le> c \<and> c \<le> 55) t" if "b = 8"
      unfolding list_all_iff using codes that by force
    moreover have "list_all (\<lambda>c. 48 \<le> c \<and> c \<le> 57 \<or> 65 \<le> c \<and> c \<le> 70 \<or> 97 \<le> c \<and> c \<le> 102) t"
      unfolding list_all_iff using codes by blast
    ultimately show ?thesis
      using p t unfolding literal_ok_def un Let_def by (elim disjE conjE) (simp_all add: u_def)
  qed
  show "literal_parts (p @ t) = (b, t)"
    using p unfolding literal_parts_def un by (auto simp: Let_def starts_with_def u_def ascii_lower_def)
  show "\<not> literal_negative (p @ t)" using p by (auto simp: literal_negative_def starts_with_def u_def)
  show "list_all (\<lambda>c. \<not> is_space c) (p @ t)"
  proof -
    have "\<not> is_space c" if "c \<in> set t" for c using codes [OF that] by (intro not_space) auto
    moreover have "\<not> is_space c" if "c \<in> set p" for c using p that by (intro not_space) auto
    ultimately show ?thesis by (auto simp: list_all_iff)
  qed
qed

lemma decimal_literal:
  shows "literal_ok (int_text i)" "literal_parts (int_text i) = (10, nat_text 10 (nat \<bar>i\<bar>))"
    "literal_negative (int_text i) \<longleftrightarrow> i < 0" "list_all (\<lambda>c. \<not> is_space c) (int_text i)" "int_text i \<noteq> []"
proof -
  let ?t = "nat_text 10 (nat \<bar>i\<bar>)"
  have d: "digits_of 10 ?t" by (rule nat_text_digits_of) simp
  have t: "?t \<noteq> []" using d by (simp add: digits_of_def)
  have codes: "48 \<le> c \<and> c \<le> 57" if "c \<in> set ?t" for c
    using digits_codes [OF d that] by auto
  have i: "int_text i = (if i < 0 then 45 # ?t else ?t)" by (simp add: int_text_def u_def)
  have un: "Validation.unsigned (int_text i) = ?t"
    using t codes [of "hd ?t"] unfolding i by (cases ?t) (auto simp: Validation.unsigned_def)
  show "literal_ok (int_text i)"
    using t codes unfolding literal_ok_def un by (auto simp: Let_def is_digits_def list_all_iff)
  have "\<not> starts_with (u [CHR ''0'', x]) (ascii_lower ?t)" if "x \<in> {CHR ''b'', CHR ''o'', CHR ''x''}" for x
  proof
    assume "starts_with (u [CHR ''0'', x]) (ascii_lower ?t)"
    then have "of_char x \<in> set (ascii_lower ?t)"
      unfolding starts_with_def by (metis in_set_takeD list.set_intros(1) list.set_intros(2) list.simps(9) u_def)
    then obtain c where "c \<in> set ?t" "of_char x = (if 65 \<le> c \<and> c \<le> 90 then c + 32 else c)"
      by (auto simp: ascii_lower_def)
    then show False using codes [of c] that by auto
  qed
  then show "literal_parts (int_text i) = (10, ?t)"
    unfolding literal_parts_def un by (simp add: Let_def)
  show "literal_negative (int_text i) \<longleftrightarrow> i < 0"
    using t codes [of "hd ?t"] unfolding i literal_negative_def starts_with_def u_def by (cases ?t) auto
  show "list_all (\<lambda>c. \<not> is_space c) (int_text i)" proof -
    have "\<not> is_space c" if "c \<in> set ?t" for c using codes [OF that] by (intro not_space) auto
    moreover have "\<not> is_space 45" by (simp add: is_space_def)
    ultimately show ?thesis unfolding i by (auto simp: list_all_iff)
  qed
  show "int_text i \<noteq> []" using t by (cases "i < 0") (simp_all add: i)
qed

lemma decimal_length:
  assumes "\<bar>i\<bar> < 2 ^ 256"
  shows "length (int_text i) \<le> 260"
proof -
  have "(2 :: int) ^ 256 \<le> 10 ^ 250" by simp
  then have "nat \<bar>i\<bar> < 10 ^ 250" using assms by (simp add: nat_less_iff)
  then have "length (nat_text 10 (nat \<bar>i\<bar>)) \<le> 250"
    using length_nat_text_le [of 10 250 "nat \<bar>i\<bar>"] by simp
  then show ?thesis by (cases "i < 0") (simp_all add: int_text_def)
qed

text \<open>The value a literal is read as.\<close>

definition literal_value :: "pystr \<Rightarrow> int" where
  "literal_value s = (let n = int (case literal_parts s of (base, digits) \<Rightarrow> digits_val base digits)
     in if literal_negative s then - n else n)"

lemma decode_bits:
  assumes "digits_of b t" and "(b, p) \<in> {(2, u ''0b''), (8, u ''0o''), (16, u ''0x'')}" and "length t \<le> 258"
    and "digits_val b t = n" and "int n \<le> width_mask w"
  shows "decode_literal [(name, VStr (p @ t))] name w signedness (u ''bits'') = Inr (int n)"
proof -
  note lit = prefixed_literal [OF assms(1,2)]
  have "p @ t \<noteq> []" "length (p @ t) \<le> 260" using assms(1-3) by (auto simp: digits_of_def)
  then show ?thesis
    using literal_arg [OF lit(4)] lit assms(4,5) by (simp add: decode_literal_def Let_def)
qed

lemma decode_in_range:
  assumes "string_arg arguments name VNone 260 = Inr s" and "literal_ok s" and "selected_range_contains (literal_value s) w signedness"
  shows "decode_literal arguments name w signedness (u ''value'') = Inr (literal_value s AND width_mask w)"
proof -
  define v where "v = literal_value s"
  have "decode_literal arguments name w signedness (u ''value'') =
      (if signedness = u ''unsigned'' then
         demand (0 \<le> v \<and> v \<le> width_mask w)
           (calc ''E_LIMIT'' (name @ u '' does not fit the selected unsigned width'')) (Inr (v AND width_mask w))
       else
         demand (- push_bit (w - 1) 1 \<le> v \<and> v \<le> push_bit (w - 1) 1 - 1)
           (calc ''E_LIMIT'' (name @ u '' does not fit the selected two's-complement width'')) (Inr (v AND width_mask w)))"
    unfolding decode_literal_def v_def literal_value_def Let_def assms(1) rbind_Inr by (simp only: assms(2) demand_True) simp
  moreover have "selected_range_contains v w signedness" using assms(3) by (simp add: v_def)
  ultimately show ?thesis
    unfolding selected_range_contains_def width_mask_def v_def [symmetric] by (simp only: demand_True simp_thms if_True if_False split: if_splits)
qed

lemma decode_value:
  assumes "signedness \<in> set SIGNEDNESS" and "\<bar>machine_int signedness x\<bar> < 2 ^ 256"
  shows "decode_literal [(name, VStr (int_text (machine_int signedness (x :: 'a::len word))))] name LENGTH('a) signedness (u ''value'')
    = Inr (uint x)"
proof -
  note lit = decimal_literal [of "machine_int signedness x"]
  have val: "literal_value (int_text (machine_int signedness x)) = machine_int signedness x"
    by (simp add: literal_value_def lit(2,3) digits_val_nat_text Let_def)
  have fits: "selected_range_contains (machine_int signedness x) LENGTH('a) signedness"
    by (rule machine_int_range [OF assms(1)])
  have "machine_int signedness x AND width_mask LENGTH('a) = uint x"
    by (simp only: masked_word machine_int_word)
  then show ?thesis
    using decode_in_range [OF literal_arg [OF lit(4,5) decimal_length [OF assms(2)]] lit(1)] fits unfolding val by simp
qed

text \<open>
  What is printed can be read back. For every machine word of at most 256 bits, the decimal field of its
  representation, read as a value of the same signedness and width, and the binary, octal and hexadecimal
  fields, read as bits with their prefix, all decode to that word.
\<close>

theorem representation_reads_back:
  fixes x :: "'a::len word"
  assumes "LENGTH('a) \<le> 256" and "signedness \<in> set SIGNEDNESS"
    and "answer_field (representation db (uint x) LENGTH('a) signedness) fld = VStr t"
    and "(fld, p, mode) \<in> {(''decimal'', [], u ''value''), (''binary'', u ''0b'', u ''bits''),
       (''octal'', u ''0o'', u ''bits''), (''hexadecimal'', u ''0x'', u ''bits'')}"
  shows "decode_literal [(name, VStr (p @ t))] name LENGTH('a) signedness mode = Inr (uint x)"
proof -
  have n: "nat (uint x) < 2 ^ LENGTH('a)" by (simp add: nat_less_iff)
  have fits: "int (nat (uint x)) \<le> width_mask LENGTH('a)" using word_range [of x] by simp
  have small: "\<bar>machine_int signedness x\<bar> < 2 ^ 256"
  proof -
    have "uint x < 2 ^ LENGTH('a)" by simp
    also have "(2 :: int) ^ LENGTH('a) \<le> 2 ^ 256" using assms(1) by (intro power_increasing) simp_all
    finally have un: "\<bar>uint x\<bar> < 2 ^ 256" by simp
    have "\<bar>sint x\<bar> \<le> 2 ^ (LENGTH('a) - 1)"
      using sint_ge [of x] sint_lt [of x] by (simp add: abs_le_iff)
    also have "(2 :: int) ^ (LENGTH('a) - 1) < 2 ^ 256"
      using assms(1) len_gt_0 [where 'a = 'a] by (intro power_strict_increasing) linarith+
    finally show ?thesis using un by (simp add: machine_int_def del: power_numeral)
  qed
  have short: "length (zero_pad k (nat_text b (nat (uint x)))) \<le> 258" if "2 \<le> b" "k \<le> 258" for b k
  proof -
    have "nat (uint x) < b ^ 256"
    proof -
      have "nat (uint x) < 2 ^ LENGTH('a)" by (rule n)
      also have "(2 :: nat) ^ LENGTH('a) \<le> 2 ^ 256" using assms(1) by (intro power_increasing) simp_all
      also have "(2 :: nat) ^ 256 \<le> b ^ 256" using that(1) by (rule power_mono) simp
      finally show ?thesis .
    qed
    then have "length (nat_text b (nat (uint x))) \<le> 256" using length_nat_text_le [of b 256] that(1) by simp
    then show ?thesis using that(2) by (simp add: zero_pad_def)
  qed
  have bits: "decode_literal [(name, VStr (p @ zero_pad k (nat_text b (nat (uint x)))))] name LENGTH('a) signedness (u ''bits'') = Inr (uint x)"
    if "(b, p) \<in> {(2, u ''0b''), (8, u ''0o''), (16, u ''0x'')}" "k \<le> 258" for b k p
  proof -
    have b: "2 \<le> b" "b \<le> 36" using that(1) by auto
    then have "digits_of b (zero_pad k (nat_text b (nat (uint x))))"
      by (intro zero_pad_digits_of nat_text_digits_of) simp_all
    from decode_bits [OF this that(1) short [OF b(1) that(2)] digits_val_zero_pad [OF b] fits] show ?thesis by simp
  qed
  have fields: "answer_field (representation db (uint x) LENGTH('a) signedness) ''decimal'' = VStr (int_text (machine_int signedness x))"
    "answer_field (representation db (uint x) LENGTH('a) signedness) ''binary'' = VStr (zero_pad LENGTH('a) (nat_text 2 (nat (uint x))))"
    "answer_field (representation db (uint x) LENGTH('a) signedness) ''octal'' = VStr (zero_pad ((LENGTH('a) + 2) div 3) (nat_text 8 (nat (uint x))))"
    "answer_field (representation db (uint x) LENGTH('a) signedness) ''hexadecimal'' = VStr (zero_pad (LENGTH('a) div 4) (nat_text 16 (nat (uint x))))"
    by (simp_all add: answer_field_def dget_none_def dget_def representation_def selected_value_word bits_text_def)
  have "LENGTH('a) \<le> 258" "(LENGTH('a) + 2) div 3 \<le> 258" "LENGTH('a) div 4 \<le> 258" using assms(1) by auto
  then show ?thesis
    using assms(3,4) bits [of 2 "u ''0b''" "LENGTH('a)"] bits [of 8 "u ''0o''" "(LENGTH('a) + 2) div 3"]
      bits [of 16 "u ''0x''" "LENGTH('a) div 4"] decode_value [OF assms(2) small, of name]
    by (elim insertE) (simp_all add: fields)
qed

section \<open>Examples\<close>

definition sample_db :: unicode_db where
  "sample_db = \<lparr>character_name = (\<lambda>_. None), is_printable = (\<lambda>_. False)\<rparr>"

definition sample_bits :: pydict where
  "sample_bits = [(u ''action'', VStr (u ''xor'')), (u ''bitWidth'', VInt 8), (u ''left'', VStr (u ''60'')), (u ''right'', VStr (u ''0x0f''))]"

definition sample_division :: pydict where
  "sample_division = [(u ''action'', VStr (u ''divide'')), (u ''bitWidth'', VInt 8), (u ''signedness'', VStr (u ''twos_complement'')),
     (u ''overflowBehavior'', VStr (u ''saturating'')), (u ''left'', VStr (u ''-128'')), (u ''right'', VStr (u ''-1''))]"

lemmas reading = string_arg_def decode_literal_def common_arguments_def integer_arg_def enum_arg_def dget_def Let_def
  BIT_WIDTHS_def SIGNEDNESS_def INPUT_MODES_def literal_ok_def literal_parts_def literal_negative_def
  Validation.unsigned_def starts_with_def ascii_lower_def is_digits_def strip_def is_space_def digits_val_def
  digit_val_def width_mask_def u_def

lemma sample_common: "common_arguments sample_bits = Inr (8, u ''unsigned'', u ''value'')"
  by (simp add: sample_bits_def common_arguments_def integer_arg_def enum_arg_def dget_def BIT_WIDTHS_def SIGNEDNESS_def INPUT_MODES_def)

lemma sample_literals:
  "decode_literal sample_bits (u ''left'') 8 (u ''unsigned'') (u ''value'') = Inr 60"
  "decode_literal sample_bits (u ''right'') 8 (u ''unsigned'') (u ''value'') = Inr 15"
  by (simp_all add: sample_bits_def reading)

theorem bitwise_agrees_with_words_witness:
  "\<exists>r. bitwise sample_db sample_bits = Inr r
     \<and> (\<exists>(x :: 8 word) y n signedness. answer_field r ''result''
          = VDict (representation sample_db (uint (word_operation (u ''xor'') x y n)) 8 signedness))"
proof -
  obtain r where r: "bitwise sample_db sample_bits = Inr r" "answer_field r ''bitWidth'' = VInt (int LENGTH(8))"
    "answer_field r ''action'' = VStr (u ''xor'')"
  proof -
    have "enum_arg sample_bits (u ''action'')
       (BINARY_ACTIONS @ UNARY_ACTIONS @ SHIFT_ACTIONS @ REVERSAL_ACTIONS @ BIT_FIELD_ACTIONS @ ALIGN_ACTIONS) (u ''and'') = Inr (u ''xor'')"
      by (simp add: sample_bits_def enum_arg_def dget_def BINARY_ACTIONS_def)
    moreover have "u ''xor'' \<in> set BINARY_ACTIONS" by (simp add: BINARY_ACTIONS_def)
    moreover have "\<not> overflow (raw_outcome v)" "\<not> truncates (raw_outcome v)" for v
      by (simp_all add: raw_outcome_def truncates_def)
    ultimately have "\<exists>operands result tr ws. bitwise sample_db sample_bits = Inr (programmer_result (u ''integer.bitwise'') (u ''xor'') 8
        (u ''unsigned'') (u ''value'') operands result (raw_outcome (binary_action (u ''xor'') 60 15 8)) tr ws)"
      by (simp add: bitwise_def sample_common sample_literals) blast
    then show thesis using that programmer_result_fields(1,2) [OF raw_metadata] by auto
  qed
  have "u ''xor'' \<in> set WORD_ACTIONS" by (simp add: WORD_ACTIONS_def BINARY_ACTIONS_def)
  from bitwise_agrees_with_words [OF r this] r(1) show ?thesis by auto
qed

lemma sample_division_reads:
  "common_arguments sample_division = Inr (8, u ''twos_complement'', u ''value'')"
  "decode_literal sample_division (u ''left'') 8 (u ''twos_complement'') (u ''value'') = Inr 128"
  "decode_literal sample_division (u ''right'') 8 (u ''twos_complement'') (u ''value'') = Inr 255"
  by (simp_all add: sample_division_def reading)

theorem machine_arithmetic_exact_witness:
  "\<exists>r v. machine_arithmetic sample_db sample_division = Inr r
     \<and> result_states sample_db r (u ''twos_complement'') (u ''saturating'') v TYPE(8 word)"
proof -
  have reads: "enum_arg sample_division (u ''action'') ARITHMETIC_ACTIONS (u ''add'') = Inr (u ''divide'')"
    "enum_arg sample_division (u ''overflowBehavior'') OVERFLOW_BEHAVIORS (u ''checked'') = Inr (u ''saturating'')"
    "enum_arg sample_division (u ''divisionMode'') DIVISION_MODES (u ''truncating'') = Inr (u ''truncating'')"
    by (simp_all add: sample_division_def enum_arg_def dget_def ARITHMETIC_ACTIONS_def OVERFLOW_BEHAVIORS_def DIVISION_MODES_def)
  have "mathematical_result sample_division (u ''divide'') (selected_value 128 8 (u ''twos_complement''))
      (selected_value 255 8 (u ''twos_complement'')) = Inr (128, Some 0, Some (u ''truncating''))"
    by (simp add: mathematical_result_def reads selected_value_def signed_value_def machine_divide_def)
  then obtain r where r: "machine_arithmetic sample_db sample_division = Inr r" "answer_field r ''bitWidth'' = VInt (int LENGTH(8))"
    "answer_field r ''action'' = VStr (u ''divide'')" "answer_field r ''signedness'' = VStr (u ''twos_complement'')"
    "answer_field r ''overflowBehavior'' = VStr (u ''saturating'')"
    by (simp add: machine_arithmetic_def reads sample_division_reads Let_def) (simp add: answer_field_def dget_none_def dget_def)
  from machine_arithmetic_exact [OF r(1-3)] obtain signedness behavior v where
    "answer_field r ''signedness'' = VStr signedness" "answer_field r ''overflowBehavior'' = VStr behavior"
    and states: "result_states sample_db r signedness behavior v TYPE(8 word)" by blast
  then have "signedness = u ''twos_complement''" "behavior = u ''saturating''" using r(4,5) by simp_all
  with r(1) states show ?thesis by blast
qed

theorem representation_reads_back_witness:
  "decode_literal [(u ''value'', VStr (u ''0x'' @ u ''F0''))] (u ''value'') 8 (u ''unsigned'') (u ''bits'') = Inr 240"
proof -
  have "answer_field (representation sample_db (uint (240 :: 8 word)) LENGTH(8) (u ''unsigned'')) ''hexadecimal'' = VStr (u ''F0'')"
    by (simp add: answer_field_def dget_none_def dget_def representation_def zero_pad_def nat_text.simps digit_cp_def u_def)
  from representation_reads_back [OF _ _ this, of "u ''0x''" "u ''bits''" "u ''value''"] show ?thesis
    by (simp add: SIGNEDNESS_def)
qed

end
