(* ===== verification/Direct_Runtime.thy ===== *)
theory Direct_Runtime
  imports Output_Policy Contracts
begin

text \<open>
  Operations run in the process itself (\<^verbatim>\<open>runtime.py\<close>): the specification of an operation
  (\<^verbatim>\<open>models.py\<close>), the assurance envelope put around its result (\<^verbatim>\<open>research_contract.py\<close>), the timer
  that bounds it without postponing an outer deadline, and \<^verbatim>\<open>execute_direct\<close>, with the outcomes it can have.
\<close>

section \<open>Operation specifications and assurance\<close>

definition ASSURANCE_LEVELS :: "pystr list" where
  "ASSURANCE_LEVELS = [u ''heuristic'', u ''deterministic'', u ''diagnostic'', u ''certified'', u ''kernel_checked'']"

definition ASSURANCE_CONTRACT_VERSION :: pystr where "ASSURANCE_CONTRACT_VERSION = u ''1.0''"

text \<open>The fields of \<^verbatim>\<open>OperationSpec\<close> that are used at run time; the handler is the operation itself.\<close>

record op_spec =
  spec_id :: pystr
  spec_category :: pystr
  spec_summary :: pystr
  spec_description :: pystr
  spec_schema :: pyval
  spec_examples :: "pyval list"
  spec_handler :: "pydict \<Rightarrow> pyexn + pydict"
  handler_module :: pystr
  handler_name :: pystr
  spec_assurance :: pystr
  assurance_scope :: pystr
  spec_backends :: "pystr list"

definition check_spec :: "op_spec \<Rightarrow> pyexn + unit" where
  "check_spec spec =
     demand (spec_assurance spec \<in> set ASSURANCE_LEVELS)
       (PyExn (u ''ValueError'') (u ''unsupported assurance level for '' @ spec_id spec @ u '': '' @ spec_assurance spec))
    (demand (assurance_scope spec \<noteq> [] \<and> length (assurance_scope spec) \<le> 128)
       (PyExn (u ''ValueError'') (u ''invalid assurance scope for '' @ spec_id spec))
    (demand (spec_backends spec \<noteq> [] \<and> list_all (\<lambda>b. b \<noteq> [] \<and> length b \<le> 64) (spec_backends spec))
       (PyExn (u ''ValueError'') (u ''invalid backend identity for '' @ spec_id spec)) (Inr ())))"

definition compact_spec :: "op_spec \<Rightarrow> pydict" where
  "compact_spec spec =
     [(u ''id'', VStr (spec_id spec)), (u ''category'', VStr (spec_category spec)), (u ''summary'', VStr (spec_summary spec))]"

definition describe_spec :: "op_spec \<Rightarrow> pydict" where
  "describe_spec spec =
     compact_spec spec @
     [(u ''description'', VStr (spec_description spec)), (u ''inputSchema'', spec_schema spec),
      (u ''examples'', VList (spec_examples spec)),
      (u ''assurance'', VDict [(u ''level'', VStr (spec_assurance spec)), (u ''scope'', VStr (assurance_scope spec)),
         (u ''certificateAvailable'', VBool (spec_assurance spec \<in> {u ''certified'', u ''kernel_checked''}))])]"

text \<open>The installed versions, and \<^verbatim>\<open>str\<close> of a value that is no text.\<close>

record installation =
  backend_version :: "pystr \<Rightarrow> pyexn + pystr"
  runtime_version :: pystr
  shown_value :: "pyval \<Rightarrow> pystr"

definition backend_error :: "op_spec \<Rightarrow> pyexn" where
  "backend_error spec =
     PyExn (u ''ValueError'') (u ''operation '' @ spec_id spec @ u '' reported invalid execution backends'')"

definition backend_names :: "op_spec \<Rightarrow> pydict \<Rightarrow> pyexn + pystr list" where
  "backend_names spec result =
     (case dget_none result (u ''_usedBackends'') of
        VNone \<Rightarrow> Inr (spec_backends spec)
      | VList selected \<Rightarrow>
          demand (selected \<noteq> [] \<and> list_all (\<lambda>v. is_str v \<and> v \<in> VStr ` set (spec_backends spec)) selected)
            (backend_error spec)
            (Inr (rev (remdups (rev (map (\<lambda>v. case v of VStr s \<Rightarrow> s | _ \<Rightarrow> []) selected)))))
      | _ \<Rightarrow> Inl (backend_error spec))"

definition result_assurance :: "op_spec \<Rightarrow> pydict \<Rightarrow> pystr" where
  "result_assurance spec result =
     (if spec_id spec = u ''expression.equivalent'' \<and> dget_none result (u ''proven'') = VBool False
      then u ''heuristic'' else spec_assurance spec)"

definition setdefault :: "pystr \<Rightarrow> pyval \<Rightarrow> pydict \<Rightarrow> pydict" where
  "setdefault k v d = (if k \<in> set (map fst d) then d else d @ [(k, v)])"

definition last_segment :: "pystr \<Rightarrow> pystr" where
  "last_segment s = rev (takeWhile (\<lambda>c. c \<noteq> 46) (rev s))"

definition provenance :: "installation \<Rightarrow> op_spec \<Rightarrow> pystr list \<Rightarrow> pyexn + pyval" where
  "provenance ins spec names =
     rbind (rmap (\<lambda>name. rbind (backend_version ins name) (\<lambda>v.
         Inr (VDict [(u ''name'', VStr name), (u ''version'', VStr v)]))) names) (\<lambda>backends.
     Inr (VDict
       [(u ''entrypoint'', VStr (last_segment (handler_module spec) @ u ''.'' @ handler_name spec)),
        (u ''runtime'', VDict [(u ''name'', VStr (u ''math-anchor'')), (u ''version'', VStr (runtime_version ins))]),
        (u ''backends'', VList backends)]))"

definition apply_research_contract :: "installation \<Rightarrow> op_spec \<Rightarrow> pydict \<Rightarrow> pyexn + pydict" where
  "apply_research_contract ins spec result =
     rbind (in_texts (dget_none result (u ''status'')) [u ''ok'', u ''uncertain'']) (\<lambda>concluded.
     if \<not> concluded then Inr result
     else
       (let assurance = result_assurance spec result;
            claim = (case dget result (u ''kind'') (VStr (spec_id spec)) of VStr s \<Rightarrow> s | v \<Rightarrow> shown_value ins v);
            annotated = setdefault (u ''assumptions'') (VList [])
             (AList.update (u ''scope'') (VStr (assurance_scope spec))
             (AList.update (u ''claim'') (VStr claim)
             (AList.update (u ''assurance'') (VStr assurance)
             (AList.update (u ''assuranceContractVersion'') (VStr ASSURANCE_CONTRACT_VERSION) result))))
        in rbind (backend_names spec annotated) (\<lambda>names.
           rbind (provenance ins spec names) (\<lambda>origin.
           (let annotated = setdefault (u ''checkedBy'') VNone (setdefault (u ''certificate'') VNone
                  (AList.update (u ''provenance'') origin (AList.delete (u ''_usedBackends'') annotated)))
            in demand (\<not> (assurance = u ''certified'' \<and> dget_none annotated (u ''certificate'') = VNone))
                 (PyExn (u ''ValueError'') (u ''certified operation '' @ spec_id spec @ u '' returned no certificate''))
              (demand (\<not> (assurance = u ''kernel_checked'' \<and> dget_none annotated (u ''checkedBy'') = VNone))
                 (PyExn (u ''ValueError'') (u ''kernel-checked operation '' @ spec_id spec @ u '' returned no checker identity''))
                 (Inr annotated)))))))"

section \<open>The evaluation timer\<close>

text \<open>
  The real-time timer of the process and the handler of its signal. A remaining time of 0 is a disarmed
  timer. What the signal functions answer is an environment: they raise outside the main thread, and an
  outer handler may raise an exception (a subclass of \<^verbatim>\<open>Exception\<close>) or let the operation go on. Times are
  rationals where the code has floats.
\<close>

datatype handler = Installed nat | RaiseTimeout int

record itimer =
  time_left :: rat
  period :: rat

record alarm =
  on_alarm :: handler
  timer :: itimer

record signal_env =
  query_raises :: bool
  signal_raises :: bool
  setitimer_raises :: bool
  outer_raises :: "nat \<Rightarrow> pyexn option"

definition disarmed :: itimer where
  "disarmed = \<lparr>time_left = 0, period = 0\<rparr>"

definition outer_is_earlier :: "rat \<Rightarrow> itimer \<Rightarrow> bool" where
  "outer_is_earlier timeout_seconds previous \<longleftrightarrow>
     0 < time_left previous \<and> time_left previous \<le> timeout_seconds"

text \<open>\<^verbatim>\<open>int(round(timeout_seconds * 1000))\<close> rounds ties to even.\<close>

definition round_half_even :: "rat \<Rightarrow> int" where
  "round_half_even x =
     (let f = \<lfloor>x\<rfloor>; d = x - of_int f in
      if d < 1/2 then f else if 1/2 < d then f + 1 else if even f then f else f + 1)"

text \<open>The alarm while the guarded code runs, and whether the guard is in force.\<close>

definition guard_enter :: "signal_env \<Rightarrow> rat \<Rightarrow> alarm \<Rightarrow> alarm \<times> bool" where
  "guard_enter env timeout_seconds a =
     (if query_raises env \<or> signal_raises env then (a, False)
      else if setitimer_raises env then (a, False)
      else
        (let previous = timer a; outer = outer_is_earlier timeout_seconds previous in
         (\<lparr>on_alarm = (if outer then on_alarm a else RaiseTimeout (round_half_even (timeout_seconds * 1000))),
           timer = \<lparr>time_left = (if outer then time_left previous else timeout_seconds),
                    period = (if outer then period previous else 0)\<rparr>\<rparr>, True)))"

definition fmod :: "rat \<Rightarrow> rat \<Rightarrow> rat" where
  "fmod x y = x - y * of_int \<lfloor>x / y\<rfloor>"

text \<open>The \<^verbatim>\<open>finally\<close> block, \<open>elapsed\<close> after the guard was armed.\<close>

definition time_remaining :: "rat \<Rightarrow> itimer \<Rightarrow> rat" where
  "time_remaining elapsed previous =
     (if elapsed < time_left previous then time_left previous - elapsed
      else if 0 < period previous then period previous - fmod (elapsed - time_left previous) (period previous)
      else 0)"

definition guard_exit :: "alarm \<Rightarrow> rat \<Rightarrow> alarm" where
  "guard_exit previous elapsed_clock =
     (let elapsed = max 0 elapsed_clock; remaining = time_remaining elapsed (timer previous)
      in \<lparr>on_alarm = on_alarm previous,
          timer = (if 0 < time_left (timer previous) \<and> 0 < remaining
                   then \<lparr>time_left = remaining, period = period (timer previous)\<rparr> else disarmed)\<rparr>)"

section \<open>\<^verbatim>\<open>execute_direct\<close>\<close>

definition MPMATH_PRECISION_CEILING :: int where "MPMATH_PRECISION_CEILING = 10000"

definition DEFAULT_MPMATH_PRECISION :: int where "DEFAULT_MPMATH_PRECISION = 53"

definition EVALUATION_TIMEOUT_SECONDS :: rat where "EVALUATION_TIMEOUT_SECONDS = 10"

definition ensure_mpmath_default_precision :: "int option \<Rightarrow> int option" where
  "ensure_mpmath_default_precision prec =
     (case prec of None \<Rightarrow> None
      | Some p \<Rightarrow> Some (if MPMATH_PRECISION_CEILING < p then DEFAULT_MPMATH_PRECISION else p))"

definition timeout_seconds_of :: "pyval \<Rightarrow> pyexn + rat" where
  "timeout_seconds_of timeout_ms =
     (case timeout_ms of
        VNone \<Rightarrow> Inr EVALUATION_TIMEOUT_SECONDS
      | VInt ms \<Rightarrow>
          demand (100 \<le> ms \<and> ms \<le> 30000) (calc ''E_LIMIT'' (u ''timeoutMs must be between 100 and 30000''))
            (Inr (of_int ms / 1000))
      | _ \<Rightarrow> Inl (calc ''E_LIMIT'' (u ''timeoutMs must be an integer between 100 and 30000'')))"

record registry =
  find_spec :: "pystr \<Rightarrow> op_spec option"
  schemas :: json_validator
  best_error :: "schema_error list \<Rightarrow> schema_error"
  contracts :: result_contracts
  installed :: installation

text \<open>\<^verbatim>\<open>str\<close> of an exception.\<close>

fun exn_message :: "pyexn \<Rightarrow> pystr" where
  "exn_message (CalcError code message details) = message"
| "exn_message (CertError message) = message"
| "exn_message (BudgetError message rule) = message"
| "exn_message (PyExn cls message) = message"

definition evaluated :: "registry \<Rightarrow> op_spec \<Rightarrow> pyexn + pydict \<Rightarrow> pyexn + pydict" where
  "evaluated reg spec answer =
     (case rbind answer (\<lambda>r.
        rbind (apply_research_contract (installed reg) spec r) (\<lambda>result.
        rbind (validate_result (schemas reg) (best_error reg) (contracts reg) result) (\<lambda>_. Inr result))) of
        Inr result \<Rightarrow> Inr result
      | Inl (CalcError code message details) \<Rightarrow> Inl (CalcError code message details)
      | Inl e \<Rightarrow> Inl (calc ''E_RUNTIME'' (u ''operation failed: '' @ exn_message e)))"

text \<open>The operation under the timer, which may fire while it runs.\<close>

definition guarded_call :: "signal_env \<Rightarrow> alarm \<Rightarrow> bool \<Rightarrow> op_spec \<Rightarrow> rat \<Rightarrow> pydict \<Rightarrow> pyexn + pydict" where
  "guarded_call env a fires spec timeout_seconds arguments =
     (case guard_enter env timeout_seconds a of
        (armed, in_force) \<Rightarrow>
          if in_force \<and> fires then
            (case on_alarm armed of
               RaiseTimeout ms \<Rightarrow>
                 Inl (CalcError (u ''E_TIMEOUT'') (u ''operation exceeded the in-process evaluation limit'')
                   (Some [(u ''timeoutMs'', VInt ms)]))
             | Installed n \<Rightarrow> (case outer_raises env n of Some e \<Rightarrow> Inl e | None \<Rightarrow> spec_handler spec arguments))
          else spec_handler spec arguments)"

text \<open>
  The outcome, and the precision of \<^verbatim>\<open>mpmath\<close> afterwards (\<open>None\<close> while it is not imported); \<open>leaves\<close> is what
  the handler makes of it. The \<^verbatim>\<open>finally\<close> block runs once the guard has been entered.
\<close>

definition execute_direct ::
  "registry \<Rightarrow> signal_env \<Rightarrow> alarm \<Rightarrow> bool \<Rightarrow> (int option \<Rightarrow> int option) \<Rightarrow> int option \<Rightarrow> pystr \<Rightarrow> pyval \<Rightarrow> pyval
    \<Rightarrow> (pyexn + pydict) \<times> int option" where
  "execute_direct reg env a fires leaves prec operation arguments timeout_ms =
     (case find_spec reg operation of
        None \<Rightarrow> (Inl (calc ''E_OPERATION'' (u ''unknown operation: '' @ operation)), prec)
      | Some spec \<Rightarrow>
          (case arguments of
             VDict d \<Rightarrow>
               (case rbind (validate_operation_arguments (schemas reg) operation (spec_schema spec) d)
                       (\<lambda>_. timeout_seconds_of timeout_ms) of
                  Inl e \<Rightarrow> (Inl e, prec)
                | Inr seconds \<Rightarrow>
                    (evaluated reg spec (guarded_call env a fires spec seconds d),
                     ensure_mpmath_default_precision (leaves prec)))
           | _ \<Rightarrow> (Inl (calc ''E_INPUT'' (u ''arguments must be an object'')), prec)))"

section \<open>The outer deadline\<close>

text \<open>The times at which a timer fires, from now.\<close>

definition fires_at :: "itimer \<Rightarrow> rat set" where
  "fires_at t =
     (if time_left t = 0 then {}
      else if period t = 0 then {time_left t}
      else {time_left t + of_nat k * period t | k. True})"

lemma fmod_bounds: "0 < y \<Longrightarrow> 0 \<le> fmod x y \<and> fmod x y < y"
proof -
  assume y: "0 < y"
  have "of_int \<lfloor>x / y\<rfloor> \<le> x / y" "x / y < of_int \<lfloor>x / y\<rfloor> + 1" by linarith+
  then have "of_int \<lfloor>x / y\<rfloor> * y \<le> x" "x < (of_int \<lfloor>x / y\<rfloor> + 1) * y"
    using y pos_le_divide_eq [OF y, of "of_int \<lfloor>x / y\<rfloor>" x] pos_divide_less_eq [OF y, of x "of_int \<lfloor>x / y\<rfloor> + 1"] by simp_all
  then show ?thesis by (simp add: fmod_def algebra_simps)
qed

lemma later_firings:
  assumes "0 < p" and "t \<le> e"
  shows "{f - e | f. (\<exists>k :: nat. f = t + of_nat k * p) \<and> e < f}
    = {p - fmod (e - t) p + of_nat k * p | k. True}"
proof -
  define n where "n = \<lfloor>(e - t) / p\<rfloor>"
  have n: "0 \<le> n" using assms by (simp add: n_def)
  have m: "fmod (e - t) p = e - t - p * of_int n" by (simp add: fmod_def n_def)
  have b: "0 \<le> fmod (e - t) p" "fmod (e - t) p < p" using fmod_bounds [OF assms(1)] by auto
  have later: "e < t + of_nat k * p \<longleftrightarrow> nat n < k" for k :: nat
  proof -
    have "e < t + of_nat k * p \<longleftrightarrow> fmod (e - t) p + p * of_int n < of_nat k * p" unfolding m by auto
    also have "\<dots> \<longleftrightarrow> n < int k"
    proof
      assume "fmod (e - t) p + p * of_int n < of_nat k * p"
      then have "p * of_int n < p * of_nat k" using b(1) by (simp add: mult.commute)
      then show "n < int k" using assms(1) by (simp add: of_nat_less_of_int_iff [symmetric])
    next
      assume "n < int k"
      then have "of_int n + 1 \<le> (of_nat k :: rat)" by (metis of_int_add of_int_1 of_int_le_iff of_int_of_nat_eq zless_imp_add1_zle)
      then have "p * (of_int n + 1) \<le> p * of_nat k" using assms(1) by simp
      then show "fmod (e - t) p + p * of_int n < of_nat k * p" using b(2) by (simp add: algebra_simps)
    qed
    also have "\<dots> \<longleftrightarrow> nat n < k" using n by linarith
    finally show ?thesis .
  qed
  show ?thesis
  proof (intro set_eqI iffI)
    fix x
    assume "x \<in> {f - e | f. (\<exists>k :: nat. f = t + of_nat k * p) \<and> e < f}"
    then obtain k where x: "x = t + of_nat k * p - e" and k: "nat n < k" using later by blast
    obtain j where "k = j + Suc (nat n)" using k less_imp_add_positive by (metis add.commute add_Suc_shift gr0_implies_Suc)
    then have "x = p - fmod (e - t) p + of_nat j * p"
      using n by (simp add: x m algebra_simps)
    then show "x \<in> {p - fmod (e - t) p + of_nat k * p | k. True}" by blast
  next
    fix x
    assume "x \<in> {p - fmod (e - t) p + of_nat k * p | k. True}"
    then obtain k :: nat where x: "x = p - fmod (e - t) p + of_nat k * p" by blast
    let ?j = "k + Suc (nat n)"
    have "x = t + of_nat ?j * p - e" using n by (simp add: x m algebra_simps)
    moreover have "e < t + of_nat ?j * p" using later [of ?j] by simp
    ultimately show "x \<in> {f - e | f. (\<exists>k :: nat. f = t + of_nat k * p) \<and> e < f}" by blast
  qed
qed

lemma exit_firings:
  assumes "0 \<le> time_left t" and "0 \<le> period t" and "0 \<le> e"
  shows "fires_at (timer (guard_exit \<lparr>on_alarm = h, timer = t\<rparr> e)) = {f - e | f. f \<in> fires_at t \<and> e < f}"
proof (cases "time_left t = 0")
  case True
  then show ?thesis by (simp add: guard_exit_def fires_at_def disarmed_def)
next
  case False
  then have left: "0 < time_left t" using assms(1) by simp
  show ?thesis
  proof (cases "e < time_left t")
    case True
    then have e: "timer (guard_exit \<lparr>on_alarm = h, timer = t\<rparr> e) = \<lparr>time_left = time_left t - e, period = period t\<rparr>"
      using assms left by (simp add: guard_exit_def Let_def time_remaining_def)
    have "e < time_left t + of_nat k * period t" for k
    proof -
      have "0 \<le> of_nat k * period t" using assms(2) by simp
      with True show ?thesis by linarith
    qed
    then show ?thesis using left True unfolding e
      by (auto simp: fires_at_def)
  next
    case False
    show ?thesis
    proof (cases "period t = 0")
      case True
      then show ?thesis using False assms(3) left
        by (simp add: guard_exit_def Let_def time_remaining_def fires_at_def disarmed_def)
    next
      case period: False
      then have p: "0 < period t" using assms(2) by simp
      have pos: "0 < period t - fmod (e - time_left t) (period t)" using fmod_bounds [OF p] by simp
      have "timer (guard_exit \<lparr>on_alarm = h, timer = t\<rparr> e)
          = \<lparr>time_left = period t - fmod (e - time_left t) (period t), period = period t\<rparr>"
        using assms(3) left False p pos by (simp add: guard_exit_def Let_def time_remaining_def)
      then show ?thesis using later_firings [OF p, of "time_left t" e] False left p pos by (simp add: fires_at_def)
    qed
  qed
qed

text \<open>
  C35: A nested evaluation guard is transparent for the timer around it. While the guarded code runs, the
  alarm fires no later than the outer timer would have and no later than the limit, and when the outer
  timer is the earlier one it keeps its own handler. Afterwards the outer handler is installed again and
  the timer fires exactly at those moments at which the outer one would still have fired. Where signals
  are not available nothing is changed.
\<close>

theorem guard_keeps_outer_deadline:
  assumes "guard_enter env timeout_seconds a = (armed, in_force)" and "0 < timeout_seconds"
    and "0 \<le> time_left (timer a)" and "0 \<le> period (timer a)" and "0 \<le> elapsed"
  shows "if in_force then
      (\<forall>t \<in> fires_at (timer a). \<exists>f \<in> fires_at (timer armed). f \<le> t)
      \<and> (\<exists>f \<in> fires_at (timer armed). f \<le> timeout_seconds)
      \<and> (\<forall>n. on_alarm armed = Installed n \<longrightarrow> armed = a)
      \<and> on_alarm (guard_exit a elapsed) = on_alarm a
      \<and> fires_at (timer (guard_exit a elapsed)) = {t - elapsed | t. t \<in> fires_at (timer a) \<and> elapsed < t}
    else armed = a"
proof (cases "query_raises env \<or> signal_raises env \<or> setitimer_raises env")
  case True
  then have "armed = a \<and> \<not> in_force" using assms(1) by (auto simp: guard_enter_def split: if_splits)
  then show ?thesis by simp
next
  case False
  obtain h t where a: "a = \<lparr>on_alarm = h, timer = t\<rparr>" by (cases a)
  have armed: "armed = (if outer_is_earlier timeout_seconds t then a
      else \<lparr>on_alarm = RaiseTimeout (round_half_even (timeout_seconds * 1000)), timer = \<lparr>time_left = timeout_seconds, period = 0\<rparr>\<rparr>)"
    and force: "in_force"
    using assms(1) False by (auto simp: guard_enter_def Let_def a)
  have first: "time_left t \<le> f" if "f \<in> fires_at t" for f
    using that assms(4) by (auto simp: fires_at_def a split: if_splits)
  have head: "time_left t \<in> fires_at t" if "time_left t \<noteq> 0"
  proof -
    have "time_left t = time_left t + of_nat 0 * period t" by simp
    then show ?thesis using that unfolding fires_at_def by auto
  qed
  have "(\<forall>f \<in> fires_at t. \<exists>g \<in> fires_at (timer armed). g \<le> f) \<and> (\<exists>g \<in> fires_at (timer armed). g \<le> timeout_seconds)
      \<and> (\<forall>n. on_alarm armed = Installed n \<longrightarrow> armed = a)"
  proof (cases "outer_is_earlier timeout_seconds t")
    case True
    then show ?thesis using head by (auto simp: armed a outer_is_earlier_def)
  next
    case later: False
    have "timeout_seconds \<le> f" if "f \<in> fires_at t" for f
      using first [OF that] that later assms(3) by (auto simp: outer_is_earlier_def fires_at_def a split: if_splits)
    moreover have "fires_at (timer armed) = {timeout_seconds}"
      using later assms(2) by (simp add: armed fires_at_def)
    ultimately show ?thesis using later by (auto simp: armed)
  qed
  moreover have "fires_at (timer (guard_exit a elapsed)) = {f - elapsed | f. f \<in> fires_at t \<and> elapsed < f}"
    using exit_firings [of t elapsed h] assms(3-5) by (simp add: a)
  ultimately show ?thesis using force by (simp add: a) (simp add: guard_exit_def Let_def)
qed

definition nested_alarm :: alarm where
  "nested_alarm = \<lparr>on_alarm = Installed 7, timer = \<lparr>time_left = 2, period = 3\<rparr>\<rparr>"

definition main_thread :: signal_env where
  "main_thread = \<lparr>query_raises = False, signal_raises = False, setitimer_raises = False,
     outer_raises = (\<lambda>_. Some (PyExn (u ''TimeoutError'') []))\<rparr>"

theorem guard_keeps_outer_deadline_witness:
  "fires_at (timer (guard_exit nested_alarm 6)) = {t - 6 | t. t \<in> fires_at (timer nested_alarm) \<and> 6 < t}"
proof -
  have "guard_enter main_thread 10 nested_alarm = (nested_alarm, True)"
    by (simp add: guard_enter_def main_thread_def nested_alarm_def outer_is_earlier_def)
  from guard_keeps_outer_deadline [OF this, of 6] show ?thesis by (simp add: nested_alarm_def)
qed

text \<open>An installation with one operation, whose handler claims more than its specification grants.\<close>

definition sample_spec :: op_spec where
  "sample_spec = \<lparr>spec_id = u ''number.claim'', spec_category = u ''number'', spec_summary = u ''claim'',
     spec_description = u ''claim'', spec_schema = VDict [], spec_examples = [],
     spec_handler = (\<lambda>_. Inr [(u ''status'', VStr (u ''ok'')), (u ''assurance'', VStr (u ''kernel_checked''))]),
     handler_module = u ''a.b'', handler_name = u ''f'', spec_assurance = u ''deterministic'',
     assurance_scope = u ''declared_operation_result'', spec_backends = [u ''python'']\<rparr>"

definition sample_installation :: installation where
  "sample_installation = \<lparr>backend_version = (\<lambda>_. Inr (u ''3.13'')), runtime_version = u ''1.0'', shown_value = (\<lambda>_. [])\<rparr>"

definition sample_registry :: registry where
  "sample_registry = \<lparr>find_spec = (\<lambda>operation. if operation = u ''number.claim'' then Some sample_spec else None),
     schemas = (\<lambda>_ _. []), best_error = hd, contracts = sample_contracts, installed = sample_installation\<rparr>"

section \<open>What a handler cannot claim\<close>

lemma map_of_setdefault [dict_simps]:
  "map_of (setdefault k v d) k' = (if k' = k \<and> map_of d k = None then Some v else map_of d k')"
proof -
  have "map_of d k = None \<longleftrightarrow> k \<notin> set (map fst d)" by (simp add: map_of_eq_None_iff)
  then show ?thesis by (auto simp: setdefault_def map_add_def split: option.splits)
qed

lemma backend_names_declared:
  "backend_names spec result = Inr names \<Longrightarrow> set names \<subseteq> set (spec_backends spec)"
proof (cases "dget_none result (u ''_usedBackends'')")
  case (VList selected)
  assume "backend_names spec result = Inr names"
  then have "\<forall>v \<in> set selected. v \<in> VStr ` set (spec_backends spec)"
    and names: "set names = (\<lambda>v. case v of VStr s \<Rightarrow> s | _ \<Rightarrow> []) ` set selected"
    by (auto simp: backend_names_def demand_eq_Inr list_all_iff VList)
  then show ?thesis unfolding names by fastforce
qed (simp_all add: backend_names_def)

text \<open>
  A handler cannot promote its own result. Whatever fields it returns, the assurance, the scope and the
  version of a concluded result are those of the registered specification (an undecided equivalence is
  only heuristic), its backends are among the declared ones, a certified result carries a certificate and
  a kernel-checked one a checker, and the fields that are not the runtime's are the handler's own.
\<close>

theorem handler_cannot_promote:
  assumes "apply_research_contract ins spec result = Inr r"
    and "dget_none result (u ''status'') \<in> {VStr (u ''ok''), VStr (u ''uncertain'')}"
  shows "dget_none r (u ''assurance'') = VStr (result_assurance spec result)
    \<and> result_assurance spec result \<in> {spec_assurance spec, u ''heuristic''}
    \<and> (check_spec spec = Inr () \<longrightarrow> result_assurance spec result \<in> set ASSURANCE_LEVELS)
    \<and> dget_none r (u ''scope'') = VStr (assurance_scope spec)
    \<and> dget_none r (u ''assuranceContractVersion'') = VStr ASSURANCE_CONTRACT_VERSION
    \<and> (\<exists>names. set names \<subseteq> set (spec_backends spec) \<and> provenance ins spec names = Inr (dget_none r (u ''provenance'')))
    \<and> (result_assurance spec result = u ''certified'' \<longrightarrow> dget_none r (u ''certificate'') \<noteq> VNone)
    \<and> (result_assurance spec result = u ''kernel_checked'' \<longrightarrow> dget_none r (u ''checkedBy'') \<noteq> VNone)
    \<and> (\<forall>k. k \<notin> {u ''assurance'', u ''assuranceContractVersion'', u ''claim'', u ''scope'', u ''assumptions'', u ''provenance'',
          u ''certificate'', u ''checkedBy'', u ''_usedBackends''} \<longrightarrow> map_of r k = map_of result k)"
proof -
  define annotated where "annotated = setdefault (u ''assumptions'') (VList [])
             (AList.update (u ''scope'') (VStr (assurance_scope spec))
             (AList.update (u ''claim'') (VStr (case dget result (u ''kind'') (VStr (spec_id spec)) of VStr s \<Rightarrow> s | v \<Rightarrow> shown_value ins v))
             (AList.update (u ''assurance'') (VStr (result_assurance spec result))
             (AList.update (u ''assuranceContractVersion'') (VStr ASSURANCE_CONTRACT_VERSION) result))))"
  have "in_texts (dget_none result (u ''status'')) [u ''ok'', u ''uncertain''] = Inr True"
    using assms(2) by (auto simp: in_texts_def)
  then obtain names origin where names: "backend_names spec annotated = Inr names" "provenance ins spec names = Inr origin"
    and r: "r = setdefault (u ''checkedBy'') VNone (setdefault (u ''certificate'') VNone
                  (AList.update (u ''provenance'') origin (AList.delete (u ''_usedBackends'') annotated)))"
    and req: "\<not> (result_assurance spec result = u ''certified'' \<and> dget_none r (u ''certificate'') = VNone)"
      "\<not> (result_assurance spec result = u ''kernel_checked'' \<and> dget_none r (u ''checkedBy'') = VNone)"
    using assms(1) unfolding apply_research_contract_def Let_def unfolding annotated_def [symmetric]
    by (auto simp: result_simps)
  have look: "map_of r k = (if k = u ''provenance'' then Some origin else if k = u ''_usedBackends'' then None
      else if k = u ''checkedBy'' \<and> map_of annotated k = None \<or> k = u ''certificate'' \<and> map_of annotated k = None
      then Some VNone else map_of annotated k)" for k
    by (auto simp: r dict_simps update_conv' delete_conv')
  have ann: "map_of annotated k = (if k = u ''scope'' then Some (VStr (assurance_scope spec))
      else if k = u ''assurance'' then Some (VStr (result_assurance spec result))
      else if k = u ''assuranceContractVersion'' then Some (VStr ASSURANCE_CONTRACT_VERSION)
      else map_of annotated k)" for k
    by (simp add: annotated_def dict_simps update_conv')
  have kept: "map_of annotated k = map_of result k"
    if "k \<notin> {u ''assurance'', u ''assuranceContractVersion'', u ''claim'', u ''scope'', u ''assumptions''}" for k
    using that by (auto simp: annotated_def dict_simps update_conv')
  have "dget_none r (u ''provenance'') = origin" by (simp add: dget_none_def dget_def look)
  moreover have "dget_none r (u ''assurance'') = VStr (result_assurance spec result)"
    "dget_none r (u ''scope'') = VStr (assurance_scope spec)"
    "dget_none r (u ''assuranceContractVersion'') = VStr ASSURANCE_CONTRACT_VERSION"
    using ann [of "u ''assurance''"] ann [of "u ''scope''"] ann [of "u ''assuranceContractVersion''"]
    by (simp_all add: dget_none_def dget_def look)
  moreover have "result_assurance spec result \<in> {spec_assurance spec, u ''heuristic''}" by (simp add: result_assurance_def)
  moreover have "check_spec spec = Inr () \<longrightarrow> result_assurance spec result \<in> set ASSURANCE_LEVELS"
    by (auto simp: result_assurance_def check_spec_def ASSURANCE_LEVELS_def demand_eq_Inr)
  moreover have "map_of r k = map_of result k" if "k \<notin> {u ''assurance'', u ''assuranceContractVersion'', u ''claim'', u ''scope'',
      u ''assumptions'', u ''provenance'', u ''certificate'', u ''checkedBy'', u ''_usedBackends''}" for k
    using that kept [of k] look [of k] by simp
  ultimately show ?thesis using names backend_names_declared [OF names(1)] req by blast
qed

lemma sample_annotated:
  "\<exists>r. apply_research_contract sample_installation sample_spec
      [(u ''status'', VStr (u ''ok'')), (u ''assurance'', VStr (u ''kernel_checked''))] = Inr r
    \<and> dget_none r (u ''kind'') = VNone \<and> dget_none r (u ''status'') = VStr (u ''ok'')"
  by (simp add: apply_research_contract_def in_texts_def Let_def result_assurance_def sample_spec_def setdefault_def
      backend_names_def dget_none_def dget_def provenance_def sample_installation_def ASSURANCE_CONTRACT_VERSION_def)

theorem handler_cannot_promote_witness:
  "\<exists>r. apply_research_contract sample_installation sample_spec
      [(u ''status'', VStr (u ''ok'')), (u ''assurance'', VStr (u ''kernel_checked''))] = Inr r
    \<and> dget_none r (u ''assurance'') = VStr (u ''deterministic'')"
proof -
  let ?handled = "[(u ''status'', VStr (u ''ok'')), (u ''assurance'', VStr (u ''kernel_checked''))]"
  obtain r where r: "apply_research_contract sample_installation sample_spec ?handled = Inr r" using sample_annotated by blast
  have "dget_none ?handled (u ''status'') \<in> {VStr (u ''ok''), VStr (u ''uncertain'')}" by (simp add: dget_none_def dget_def)
  with handler_cannot_promote [OF r] have "dget_none r (u ''assurance'') = VStr (result_assurance sample_spec ?handled)" by blast
  then show ?thesis using r by (simp add: result_assurance_def sample_spec_def)
qed

section \<open>The outcomes of an operation\<close>

fun is_calculator_error :: "pyexn \<Rightarrow> bool" where
  "is_calculator_error (CalcError _ _ _) = True"
| "is_calculator_error _ = False"

lemma calc_is_calculator_error [simp]: "is_calculator_error (calc code message)"
  by (simp add: calc_def)

text \<open>The schemas of the registry are well formed: selecting a variant raises nothing, and messages are Unicode.\<close>

definition registry_ok :: "registry \<Rightarrow> bool" where
  "registry_ok reg \<longleftrightarrow>
     (\<forall>operation spec d. find_spec reg operation = Some spec \<longrightarrow>
        (\<exists>schema. select_discriminated_schema (spec_schema spec) d = Inr schema
          \<and> (\<forall>e \<in> set (schemas reg schema (VDict d)). utf8_bytes (error_message e) \<noteq> None)))"

lemma validation_raises:
  assumes "select_discriminated_schema schema d = Inr chosen"
    and "\<forall>e \<in> set (iter_errors chosen (VDict d)). utf8_bytes (error_message e) \<noteq> None"
    and "validate_operation_arguments iter_errors operation schema d = Inl x"
  shows "is_calculator_error x"
proof -
  obtain e es where es: "sort_key path_texts (iter_errors chosen (VDict d)) = e # es"
    using assms(1,3) by (auto simp: validate_operation_arguments_def split: list.splits)
  then have "e \<in> set (iter_errors chosen (VDict d))" by (metis list.set_intros(1) set_sort)
  then obtain b where "utf8_bytes (error_message e) = Some b" using assms(2) by blast
  then show ?thesis using assms(1,3) es
    by (auto simp: validate_operation_arguments_def argument_error_def encode_utf8_def Let_def)
qed

lemma evaluated_outcome:
  "(\<forall>x. evaluated reg spec answer = Inl x \<longrightarrow> is_calculator_error x)
   \<and> (\<forall>r. evaluated reg spec answer = Inr r \<longrightarrow>
        (\<exists>handled. answer = Inr handled \<and> apply_research_contract (installed reg) spec handled = Inr r
          \<and> validate_result (schemas reg) (best_error reg) (contracts reg) r = Inr ()))"
  by (auto simp: evaluated_def result_simps split: sum.splits pyexn.splits)

definition precision_ok :: "int option \<Rightarrow> bool" where
  "precision_ok prec \<longleftrightarrow> (\<forall>p. prec = Some p \<longrightarrow> p \<le> MPMATH_PRECISION_CEILING)"

lemma ensured_precision [simp]: "precision_ok (ensure_mpmath_default_precision prec)"
  by (auto simp: precision_ok_def ensure_mpmath_default_precision_def MPMATH_PRECISION_CEILING_def
      DEFAULT_MPMATH_PRECISION_def split: option.splits)

text \<open>The armed alarm ends the operation with an exception when it fires.\<close>

definition guard_raises :: "signal_env \<Rightarrow> rat \<Rightarrow> alarm \<Rightarrow> bool" where
  "guard_raises env seconds a =
     (case on_alarm (fst (guard_enter env seconds a)) of
        RaiseTimeout _ \<Rightarrow> True | Installed n \<Rightarrow> outer_raises env n \<noteq> None)"

text \<open>
  C11: \<^verbatim>\<open>execute_direct\<close> has two kinds of outcomes only. It raises nothing but a \<^verbatim>\<open>CalculatorError\<close>, whatever
  the handler raises or returns and whether or not the timer fires; and what it returns is the annotated
  result of the registered handler, not cut short by the timer, on accepted arguments with a timeout from 100
  milliseconds to 30 seconds, and accepted by the public result contract. An unusable precision of
  \<^verbatim>\<open>mpmath\<close> never outlives it.
\<close>

theorem execute_direct_outcomes:
  assumes "registry_ok reg"
  shows "(precision_ok prec \<longrightarrow> precision_ok (snd (execute_direct reg env a fires leaves prec operation arguments timeout_ms)))
    \<and> (case fst (execute_direct reg env a fires leaves prec operation arguments timeout_ms) of
      Inl x \<Rightarrow> is_calculator_error x
    | Inr r \<Rightarrow> (\<exists>spec d seconds handled. find_spec reg operation = Some spec \<and> arguments = VDict d
        \<and> validate_operation_arguments (schemas reg) operation (spec_schema spec) d = Inr ()
        \<and> 1/10 \<le> seconds \<and> seconds \<le> 30 \<and> spec_handler spec d = Inr handled
        \<and> (snd (guard_enter env seconds a) \<and> fires \<longrightarrow> \<not> guard_raises env seconds a)
        \<and> apply_research_contract (installed reg) spec handled = Inr r
        \<and> validate_result (schemas reg) (best_error reg) (contracts reg) r = Inr ()))"
proof (cases "find_spec reg operation")
  case None
  then show ?thesis by (simp add: execute_direct_def)
next
  case (Some spec)
  show ?thesis
  proof (cases arguments)
    case (VDict d)
    show ?thesis
    proof (cases "validate_operation_arguments (schemas reg) operation (spec_schema spec) d")
      case (Inl x)
      obtain schema where "select_discriminated_schema (spec_schema spec) d = Inr schema"
        "\<forall>e \<in> set (schemas reg schema (VDict d)). utf8_bytes (error_message e) \<noteq> None"
        using assms Some unfolding registry_ok_def by blast
      from validation_raises [OF this Inl] show ?thesis by (simp add: execute_direct_def Some VDict Inl)
    next
      case (Inr un)
      show ?thesis
      proof (cases "timeout_seconds_of timeout_ms")
        case (Inl x)
        then have "is_calculator_error x"
          by (auto simp: timeout_seconds_of_def demand_eq_Inl split: pyval.splits)
        then show ?thesis by (simp add: execute_direct_def Some VDict Inr Inl)
      next
        case secs: (Inr seconds)
        then have range: "1/10 \<le> seconds" "seconds \<le> 30"
          by (auto simp: timeout_seconds_of_def demand_eq_Inr EVALUATION_TIMEOUT_SECONDS_def split: pyval.splits)
        have run: "execute_direct reg env a fires leaves prec operation arguments timeout_ms
            = (evaluated reg spec (guarded_call env a fires spec seconds d), ensure_mpmath_default_precision (leaves prec))"
          by (simp add: execute_direct_def Some VDict Inr secs)
        have handled: "spec_handler spec d = Inr h \<and> (snd (guard_enter env seconds a) \<and> fires \<longrightarrow> \<not> guard_raises env seconds a)"
          if "guarded_call env a fires spec seconds d = Inr h" for h
          using that by (auto simp: guarded_call_def guard_raises_def split: prod.splits handler.splits if_splits option.splits)
        show ?thesis
        proof (cases "evaluated reg spec (guarded_call env a fires spec seconds d)")
          case (Inl x)
          then show ?thesis using evaluated_outcome [of reg spec] by (auto simp: run)
        next
          case res: (Inr r)
          obtain h where "guarded_call env a fires spec seconds d = Inr h"
            "apply_research_contract (installed reg) spec h = Inr r"
            "validate_result (schemas reg) (best_error reg) (contracts reg) r = Inr ()"
            using evaluated_outcome [of reg spec "guarded_call env a fires spec seconds d"] res by blast
          moreover note handled [OF calculation(1)] range Some VDict Inr
          ultimately show ?thesis unfolding run res by auto
        qed
      qed
    qed
  qed (simp_all add: execute_direct_def Some)
qed

theorem execute_direct_outcomes_witness:
  "registry_ok sample_registry
   \<and> (\<exists>r. execute_direct sample_registry main_thread nested_alarm False (map_option (\<lambda>_. 20000)) (Some 53) (u ''number.claim'') (VDict []) (VInt 500) = (Inr r, Some 53)
        \<and> apply_research_contract sample_installation sample_spec
            [(u ''status'', VStr (u ''ok'')), (u ''assurance'', VStr (u ''kernel_checked''))] = Inr r)"
proof -
  let ?handled = "[(u ''status'', VStr (u ''ok'')), (u ''assurance'', VStr (u ''kernel_checked''))]"
  let ?outcome = "execute_direct sample_registry main_thread nested_alarm False (map_option (\<lambda>_. 20000)) (Some 53) (u ''number.claim'') (VDict []) (VInt 500)"
  have sel: "select_discriminated_schema (VDict []) d = Inr (VDict [])" for d
    by (simp add: select_discriminated_schema_def get_or_def dget_none_def dget_def)
  have ok: "registry_ok sample_registry"
    using sel by (auto simp: registry_ok_def sample_registry_def sample_spec_def)
  have find: "find_spec sample_registry (u ''number.claim'') = Some sample_spec" by (simp add: sample_registry_def)
  obtain r where r: "apply_research_contract sample_installation sample_spec ?handled = Inr r"
    "dget_none r (u ''kind'') = VNone" "dget_none r (u ''status'') = VStr (u ''ok'')" using sample_annotated by blast
  have valid: "validate_result (schemas sample_registry) (best_error sample_registry) (contracts sample_registry) r = Inr ()"
    using r(2,3) by (simp add: validate_result_def sample_registry_def result_validator_def result_validators_by_kind_def
        sample_contracts_def add_variant_def get_or_def dget_none_def dget_def)
  have handled: "guarded_call main_thread nested_alarm False sample_spec (1/2) [] = Inr ?handled"
    by (simp add: guarded_call_def sample_spec_def split: prod.splits)
  have "installed sample_registry = sample_installation" "spec_schema sample_spec = VDict []" "schemas sample_registry s v = []" for s v
    by (simp_all add: sample_registry_def sample_spec_def)
  then have out: "?outcome = (Inr r, Some 53)"
    using find r(1) valid handled sel
    by (simp add: execute_direct_def validate_operation_arguments_def timeout_seconds_of_def evaluated_def
        ensure_mpmath_default_precision_def MPMATH_PRECISION_CEILING_def DEFAULT_MPMATH_PRECISION_def)
  show ?thesis using execute_direct_outcomes [OF ok, where env = main_thread and a = nested_alarm and fires = False and prec = "Some 53"
        and leaves = "map_option (\<lambda>_. 20000)" and operation = "u ''number.claim''"
        and arguments = "VDict []" and timeout_ms = "VInt 500"]
      ok out r(1) find by auto
qed

end
