(* ===== verification/Py_Decimal.thy ===== *)
theory Py_Decimal
  imports Validation
begin

text \<open>
  Decimal numbers of the standard library as the code uses them: \<^verbatim>\<open>Decimal(text)\<close>, the parts of a
  decimal and its exact value. Exponents that the C implementation cannot store (beyond 10 to the 18)
  are outside the model.
\<close>

section \<open>The constructor\<close>

text \<open>
  A decimal number is a sign, a coefficient and an exponent, as in \<^verbatim>\<open>Decimal.as_tuple\<close>: \<open>1.50\<close> and
  \<open>1.5\<close> are different decimals of the same value.
\<close>

datatype decimal = DecFin bool nat int | DecInf bool | DecNan

text \<open>
  The text forms of the constructor. White space around the number and underscores anywhere are ignored,
  and a decimal digit of any script counts: \<open>udigit\<close> is the table \<^verbatim>\<open>unicodedata.decimal\<close>.
\<close>

definition ascii_digit :: "nat \<Rightarrow> nat option" where
  "ascii_digit c = (if 48 \<le> c \<and> c \<le> 57 then Some (c - 48) else None)"

definition numeric_as_ascii :: "(nat \<Rightarrow> nat option) \<Rightarrow> pystr \<Rightarrow> pystr" where
  "numeric_as_ascii udigit s =
     map (\<lambda>c. case udigit c of Some d \<Rightarrow> 48 + d | None \<Rightarrow> c) (filter (\<lambda>c. c \<noteq> 95) (strip s))"

definition split_at :: "nat \<Rightarrow> pystr \<Rightarrow> pystr \<times> pystr option" where
  "split_at c s =
     (takeWhile (\<lambda>x. x \<noteq> c) s, case dropWhile (\<lambda>x. x \<noteq> c) s of [] \<Rightarrow> None | _ # t \<Rightarrow> Some t)"

definition mantissa_of :: "pystr \<Rightarrow> (nat \<times> nat) option" where
  "mantissa_of s =
     (case split_at 46 s of (whole, rest) \<Rightarrow>
        let fraction = (case rest of None \<Rightarrow> [] | Some f \<Rightarrow> f) in
        if is_digits (whole @ fraction) then Some (digits_val 10 (whole @ fraction), length fraction) else None)"

definition signed_digits :: "pystr \<Rightarrow> int option" where
  "signed_digits s =
     (if is_digits (unsigned s)
      then Some (if hd s = 45 then - int (digits_val 10 (unsigned s)) else int (digits_val 10 (unsigned s))) else None)"

definition decimal_of_text :: "(nat \<Rightarrow> nat option) \<Rightarrow> pystr \<Rightarrow> decimal option" where
  "decimal_of_text udigit s =
     (let t = ascii_lower (numeric_as_ascii udigit s);
          neg = (t \<noteq> [] \<and> hd t = 45);
          body = unsigned t in
      if body \<in> {u ''inf'', u ''infinity''} then Some (DecInf neg)
      else if starts_with (u ''nan'') body \<and> list_all (\<lambda>c. ascii_digit c \<noteq> None) (drop 3 body)
        \<or> starts_with (u ''snan'') body \<and> list_all (\<lambda>c. ascii_digit c \<noteq> None) (drop 4 body) then Some DecNan
      else
        (case split_at 101 body of (m, e) \<Rightarrow>
           (case (mantissa_of m, case e of None \<Rightarrow> Some 0 | Some ds \<Rightarrow> signed_digits ds) of
              (Some (c, places), Some x) \<Rightarrow> Some (DecFin neg c (x - int places))
            | _ \<Rightarrow> None)))"

section \<open>Values\<close>

definition pow10 :: "int \<Rightarrow> rat" where
  "pow10 e = (if 0 \<le> e then 10 ^ nat e else 1 / 10 ^ nat (- e))"

fun dec_value :: "decimal \<Rightarrow> rat option" where
  "dec_value (DecFin neg c e) = Some ((if neg then -1 else 1) * of_nat c * pow10 e)"
| "dec_value _ = None"

text \<open>\<^verbatim>\<open>len(as_tuple().digits)\<close> and \<^verbatim>\<open>adjusted()\<close>.\<close>

definition digit_count :: "nat \<Rightarrow> nat" where
  "digit_count c = length (nat_text 10 c)"

lemma pow10_0 [simp]: "pow10 0 = 1"
  by (simp add: pow10_def)

lemma pow10_pos [simp]: "0 < pow10 e"
  by (simp add: pow10_def)

lemma pow10_powi: "pow10 e = 10 powi e"
  unfolding pow10_def power_int_def by (cases "0 \<le> e") (simp_all add: inverse_eq_divide power_one_over)

lemma pow10_add: "pow10 (a + b) = pow10 a * pow10 b"
  by (simp add: pow10_powi power_int_add)

section \<open>Context arithmetic\<close>

text \<open>
  Division and multiplication in a context: the exact result rounded to the precision of the context, in
  its rounding mode and exponent range, with the exponent as close to the ideal one as it can be.
\<close>

datatype rounding = HalfEven | HalfUp | HalfDown | RoundDown | RoundUp | RoundCeiling | RoundFloor

definition round_magnitude :: "rounding \<Rightarrow> bool \<Rightarrow> rat \<Rightarrow> int" where
  "round_magnitude mode negative x =
     (let f = \<lfloor>x\<rfloor>; d = x - of_int f in
      if d = 0 then f
      else case mode of
        HalfEven \<Rightarrow> if d < 1/2 then f else if 1/2 < d then f + 1 else if even f then f else f + 1
      | HalfUp \<Rightarrow> if d < 1/2 then f else f + 1
      | HalfDown \<Rightarrow> if d \<le> 1/2 then f else f + 1
      | RoundDown \<Rightarrow> f
      | RoundUp \<Rightarrow> f + 1
      | RoundCeiling \<Rightarrow> if negative then f else f + 1
      | RoundFloor \<Rightarrow> if negative then f + 1 else f)"

text \<open>\<open>ilog10 x\<close> is the exponent of the largest power of ten that is at most the positive \<open>x\<close>.\<close>

definition ilog10 :: "rat \<Rightarrow> int" where
  "ilog10 x =
     (let e = int (digit_count (nat (numerator x))) - int (digit_count (nat (denominator x))) in
      if pow10 e \<le> x then e else e - 1)"

definition EMAX :: int where
  "EMAX = 999999"

definition etiny :: "nat \<Rightarrow> int" where
  "etiny prec = - EMAX - int prec + 1"

fun strip_zeros :: "nat \<Rightarrow> nat \<Rightarrow> nat \<times> nat" where
  "strip_zeros 0 c = (c, 0)"
| "strip_zeros (Suc k) c =
     (if c mod 10 = 0 then (case strip_zeros k (c div 10) of (c', n) \<Rightarrow> (c', Suc n)) else (c, 0))"

definition last_digit :: "nat \<Rightarrow> rat \<Rightarrow> int" where
  "last_digit prec x = max (ilog10 x - int prec + 1) (etiny prec)"

definition dec_fix :: "rounding \<Rightarrow> nat \<Rightarrow> bool \<Rightarrow> rat \<Rightarrow> int \<Rightarrow> pyexn + decimal" where
  "dec_fix mode prec negative x ideal =
     (if x = 0 then Inr (DecFin negative 0 (max (etiny prec) (min ideal EMAX)))
      else
        let e = last_digit prec x; y = x / pow10 e; c = nat (round_magnitude mode negative y);
            (c', n) = (if of_int \<lfloor>y\<rfloor> = y then strip_zeros (nat (ideal - e)) c
                       else if c = 10 ^ prec then (10 ^ (prec - 1), 1) else (c, 0)) in
        demand (c' = 0 \<or> int (digit_count c') - 1 + e + int n \<le> EMAX)
          (PyExn (u ''Overflow'') (u ''[<class 'decimal.Overflow'>]''))
          (Inr (DecFin negative c' (e + int n))))"

fun dec_times :: "rounding \<Rightarrow> nat \<Rightarrow> decimal \<Rightarrow> decimal \<Rightarrow> pyexn + decimal" where
  "dec_times mode prec (DecFin s c e) (DecFin t d f) =
     dec_fix mode prec (s \<noteq> t) (of_nat c * of_nat d * pow10 (e + f)) (e + f)"
| "dec_times mode prec _ _ = Inl (PyExn (u ''InvalidOperation'') (u ''not a finite number''))"

text \<open>The divisor is not zero wherever the code divides.\<close>

fun dec_divide :: "rounding \<Rightarrow> nat \<Rightarrow> decimal \<Rightarrow> decimal \<Rightarrow> pyexn + decimal" where
  "dec_divide mode prec (DecFin s c e) (DecFin t d f) =
     demand (d \<noteq> 0) (PyExn (u ''DivisionByZero'') (u ''[<class 'decimal.DivisionByZero'>]''))
       (dec_fix mode prec (s \<noteq> t) (of_nat c / of_nat d * pow10 (e - f)) (e - f))"
| "dec_divide mode prec _ _ = Inl (PyExn (u ''InvalidOperation'') (u ''not a finite number''))"

lemma pow10_simps [simp]: "pow10 e \<noteq> 0" "0 \<le> pow10 e" "\<not> pow10 e \<le> 0" "\<not> pow10 e < 0"
  using pow10_pos [of e] by (simp_all add: less_imp_le less_imp_neq [symmetric] not_le not_less)

lemma pow10_diff: "pow10 (a - b) = pow10 a / pow10 b"
  using pow10_add [of "a - b" b] by simp

lemma pow10_nat: "pow10 (int n) = 10 ^ n"
  by (simp add: pow10_def)

lemma pow10_mono: "e \<le> f \<Longrightarrow> pow10 e \<le> pow10 f"
proof -
  assume "e \<le> f"
  then have "pow10 f = pow10 e * 10 ^ nat (f - e)" using pow10_add [of e "f - e"] pow10_nat [of "nat (f - e)"] by simp
  moreover have "(1::rat) \<le> 10 ^ nat (f - e)" by simp
  ultimately show ?thesis by (simp add: mult_le_cancel_left1)
qed

lemma pow10_less_iff: "pow10 e < pow10 f \<longleftrightarrow> e < f"
proof
  assume "pow10 e < pow10 f"
  then show "e < f" using pow10_mono [of f e] by linarith
next
  assume "e < f"
  then have "pow10 (e + 1) \<le> pow10 f" by (intro pow10_mono) simp
  moreover have "pow10 e < pow10 (e + 1)" 
    using pow10_pos [of e] pow10_add [of e 1] by (simp add: pow10_def [of 1])
  ultimately show "pow10 e < pow10 f" by linarith
qed

lemma digit_count_bounds:
  assumes "0 < n" shows "10 ^ (digit_count n - 1) \<le> n" and "n < 10 ^ digit_count n" and "0 < digit_count n"
proof -
  show pos: "0 < digit_count n" unfolding digit_count_def by (subst nat_text.simps) simp
  show "n < 10 ^ digit_count n" using length_nat_text_le [of 10 "digit_count n" n] pos by (simp add: digit_count_def)
  show "10 ^ (digit_count n - 1) \<le> n"
  proof (cases "digit_count n = 1")
    case True
    then show ?thesis using assms by simp
  next
    case False
    then have "0 < digit_count n - 1" "\<not> digit_count n \<le> digit_count n - 1" using pos by simp_all
    then show ?thesis using length_nat_text_le [of 10 "digit_count n - 1" n] by (simp add: digit_count_def not_less)
  qed
qed

lemma digit_count_pow10:
  assumes "0 < n" shows "pow10 (int (digit_count (nat n)) - 1) \<le> of_int n" and "of_int n < pow10 (int (digit_count (nat n)))"
proof -
  let ?k = "digit_count (nat n)"
  have b: "10 ^ (?k - 1) \<le> nat n" "nat n < 10 ^ ?k" "0 < ?k" using digit_count_bounds [of "nat n"] assms by simp_all
  have "rat_of_nat (10 ^ (?k - 1)) \<le> rat_of_nat (nat n)" "rat_of_nat (nat n) < rat_of_nat (10 ^ ?k)"
    using b by (simp_all only: of_nat_le_iff of_nat_less_iff)
  then show "pow10 (int ?k - 1) \<le> of_int n" "of_int n < pow10 (int ?k)"
    using assms b(3) pow10_nat [of "?k - 1"] pow10_nat [of ?k] by (simp_all add: of_nat_diff)
qed

lemma ilog10_bounds:
  assumes "0 < x" shows "pow10 (ilog10 x) \<le> x" and "x < pow10 (ilog10 x + 1)"
proof -
  define n where "n = numerator x"
  define d where "d = denominator x"
  have x: "x = of_int n / of_int d" and d: "0 < d" by (simp_all add: n_def d_def numerator_denominator)
  have n: "0 < n" using \<open>0 < x\<close> d unfolding x by (simp add: zero_less_divide_iff)
  define a where "a = int (digit_count (nat n))"
  define b where "b = int (digit_count (nat d))"
  note n' = digit_count_pow10 [OF n, folded a_def] and d' = digit_count_pow10 [OF d, folded b_def]
  have upper: "x < pow10 (a - b + 1)"
  proof -
    have "of_int n < pow10 (a - b + 1) * pow10 (b - 1)" using n'(2) pow10_add [of "a - b + 1" "b - 1"] by simp
    also have "\<dots> \<le> pow10 (a - b + 1) * of_int d" using d'(1) by (simp add: mult_left_mono)
    finally show ?thesis unfolding x using d by (simp add: divide_less_eq)
  qed
  have lower: "pow10 (a - b - 1) \<le> x"
  proof -
    have "pow10 (a - b - 1) * of_int d \<le> pow10 (a - b - 1) * pow10 b" using d'(2) by (simp add: mult_left_mono)
    also have "\<dots> \<le> of_int n" using n'(1) pow10_add [of "a - b - 1" b] by simp
    finally show ?thesis unfolding x using d by (simp add: le_divide_eq)
  qed
  have "ilog10 x = (if pow10 (a - b) \<le> x then a - b else a - b - 1)"
    by (simp add: ilog10_def Let_def n_def d_def a_def b_def)
  then show "pow10 (ilog10 x) \<le> x" "x < pow10 (ilog10 x + 1)" using upper lower by (auto split: if_splits)
qed

lemma round_magnitude_near:
  assumes "0 \<le> x"
  shows "0 \<le> round_magnitude mode negative x" and "\<bar>of_int (round_magnitude mode negative x) - x\<bar> < 1"
    and "mode = HalfEven \<Longrightarrow> \<bar>of_int (round_magnitude mode negative x) - x\<bar> \<le> 1/2"
    and "of_int \<lfloor>x\<rfloor> = x \<Longrightarrow> round_magnitude mode negative x = \<lfloor>x\<rfloor>"
proof -
  have f: "of_int \<lfloor>x\<rfloor> \<le> x" "x < of_int \<lfloor>x\<rfloor> + 1" "0 \<le> \<lfloor>x\<rfloor>" using assms by (simp_all, linarith?)
  show "0 \<le> round_magnitude mode negative x"
    using f(3) by (auto simp: round_magnitude_def Let_def split: rounding.splits)
  have "round_magnitude mode negative x = \<lfloor>x\<rfloor>
      \<or> round_magnitude mode negative x = \<lfloor>x\<rfloor> + 1 \<and> of_int \<lfloor>x\<rfloor> \<noteq> x"
    by (auto simp: round_magnitude_def Let_def split: rounding.splits)
  then show "\<bar>of_int (round_magnitude mode negative x) - x\<bar> < 1" using f(1,2) by (elim disjE conjE; linarith)
  show "\<bar>of_int (round_magnitude mode negative x) - x\<bar> \<le> 1/2" if "mode = HalfEven"
  proof -
    have "round_magnitude mode negative x = \<lfloor>x\<rfloor> \<and> x - of_int \<lfloor>x\<rfloor> \<le> 1/2
        \<or> round_magnitude mode negative x = \<lfloor>x\<rfloor> + 1 \<and> 1/2 \<le> x - of_int \<lfloor>x\<rfloor>"
      using that by (auto simp: round_magnitude_def Let_def)
    then show ?thesis
    proof (elim disjE conjE)
      assume r: "round_magnitude mode negative x = \<lfloor>x\<rfloor>" and "x - of_int \<lfloor>x\<rfloor> \<le> 1/2"
      then show ?thesis using f(1) unfolding r abs_le_iff by linarith
    next
      assume r: "round_magnitude mode negative x = \<lfloor>x\<rfloor> + 1" and "1/2 \<le> x - of_int \<lfloor>x\<rfloor>"
      then show ?thesis using f(2) unfolding r abs_le_iff of_int_add of_int_1 by linarith
    qed
  qed
  show "round_magnitude mode negative x = \<lfloor>x\<rfloor>" if "of_int \<lfloor>x\<rfloor> = x"
    using that by (auto simp: round_magnitude_def Let_def)
qed

lemma strip_zeros_value: "strip_zeros k c = (c', n) \<Longrightarrow> c = c' * 10 ^ n \<and> n \<le> k"
proof (induction k arbitrary: c n)
  case (Suc k)
  show ?case
  proof (cases "c mod 10 = 0")
    case True
    then obtain m where m: "strip_zeros k (c div 10) = (c', m)" "n = Suc m" using Suc.prems by (auto split: prod.splits)
    then have "c div 10 = c' * 10 ^ m" "m \<le> k" using Suc.IH by auto
    moreover have "c = c div 10 * 10" using True by auto
    ultimately show ?thesis using m(2) by simp
  next
    case False
    then show ?thesis using Suc.prems by simp
  qed
qed simp

lemma dec_fix_zero: "dec_fix mode prec negative 0 ideal = Inr (DecFin negative 0 (max (etiny prec) (min ideal EMAX)))"
  by (simp add: dec_fix_def)

text \<open>The value of a result is the exact one rounded to a multiple of its last digit.\<close>

lemma dec_fix_value:
  assumes "0 < x" and "0 < prec" and "dec_fix mode prec negative x ideal = Inr d"
  obtains c e where "d = DecFin negative c e"
    and "of_nat c * pow10 e = of_int (round_magnitude mode negative (x / pow10 (last_digit prec x))) * pow10 (last_digit prec x)"
proof -
  define q where "q = last_digit prec x"
  define y where "y = x / pow10 q"
  define c where "c = nat (round_magnitude mode negative y)"
  have y: "0 \<le> y" using assms(1) by (simp add: y_def)
  have "int c = round_magnitude mode negative y" using round_magnitude_near(1) [OF y(1)] by (simp add: c_def)
  then have c: "rat_of_nat c = of_int (round_magnitude mode negative y)" by (metis of_int_of_nat_eq)
  define pair where "pair = (if of_int \<lfloor>y\<rfloor> = y then strip_zeros (nat (ideal - q)) c
    else if c = 10 ^ prec then (10 ^ (prec - 1), 1) else (c, 0))"
  obtain c' n where pair': "pair = (c', n)" by fastforce
  have d: "d = DecFin negative c' (q + int n)"
    using assms(1,3)
    unfolding dec_fix_def Let_def q_def [symmetric] y_def [symmetric] c_def [symmetric] pair_def [symmetric] pair'
    by (simp add: demand_eq_Inr)
  have "c = c' * 10 ^ n"
  proof (cases "of_int \<lfloor>y\<rfloor> = y")
    case True
    then show ?thesis using pair' strip_zeros_value [of "nat (ideal - q)" c c' n] by (simp add: pair_def)
  next
    case False
    then show ?thesis using pair' assms(2) by (cases prec) (auto simp: pair_def split: if_splits)
  qed
  then have "of_nat c' * pow10 (q + int n) = of_nat c * pow10 q" by (simp add: pow10_add pow10_nat)
  then show thesis using that [OF d] c by (simp add: q_def y_def)
qed

lemma dec_fix_near:
  assumes "0 \<le> x" and "0 < prec" and "dec_fix mode prec negative x ideal = Inr d"
  obtains c e where "d = DecFin negative c e"
    and "0 < x \<Longrightarrow> \<bar>of_nat c * pow10 e - x\<bar> < pow10 (last_digit prec x)"
    and "0 < x \<Longrightarrow> mode = HalfEven \<Longrightarrow> \<bar>of_nat c * pow10 e - x\<bar> \<le> pow10 (last_digit prec x) / 2"
    and "x = 0 \<Longrightarrow> c = 0"
    and "0 < x \<Longrightarrow> of_int \<lfloor>x / pow10 (last_digit prec x)\<rfloor> = x / pow10 (last_digit prec x) \<Longrightarrow> of_nat c * pow10 e = x"
proof (cases "x = 0")
  case True
  then have "d = DecFin negative 0 (max (etiny prec) (min ideal EMAX))" using assms(3) by (simp add: dec_fix_zero)
  then show thesis by (rule that) (simp_all add: True)
next
  case False
  then have "0 < x" using assms(1) by simp
  define q where "q = last_digit prec x"
  define y where "y = x / pow10 q"
  obtain c e where d: "d = DecFin negative c e" and v: "of_nat c * pow10 e = of_int (round_magnitude mode negative y) * pow10 q"
    using dec_fix_value [OF \<open>0 < x\<close> assms(2,3)] unfolding q_def y_def by metis
  have y: "0 \<le> y" "x = y * pow10 q" using assms(1) by (simp_all add: y_def)
  have diff: "\<bar>of_nat c * pow10 e - x\<bar> = \<bar>of_int (round_magnitude mode negative y) - y\<bar> * pow10 q"
    by (simp add: v y(2) left_diff_distrib [symmetric] abs_mult)
  show thesis
  proof (rule that [OF d])
    show "\<bar>of_nat c * pow10 e - x\<bar> < pow10 (last_digit prec x)"
      unfolding diff q_def [symmetric] using round_magnitude_near(2) [OF y(1), of mode negative] by simp
    show "\<bar>of_nat c * pow10 e - x\<bar> \<le> pow10 (last_digit prec x) / 2" if "mode = HalfEven"
      unfolding diff q_def [symmetric] using round_magnitude_near(3) [OF y(1) that, of negative]
        mult_right_mono [of _ "1/2" "pow10 q"] by fastforce
    assume "of_int \<lfloor>x / pow10 (last_digit prec x)\<rfloor> = x / pow10 (last_digit prec x)"
    then have whole: "of_int \<lfloor>y\<rfloor> = y" by (simp only: q_def y_def)
    then show "of_nat c * pow10 e = x" using round_magnitude_near(4) [OF y(1) whole, of mode negative] v y(2) by simp
  qed (use False in simp_all)
qed

section \<open>Text\<close>

text \<open>\<^verbatim>\<open>format(d, "f")\<close>.\<close>

fun fixed_text :: "decimal \<Rightarrow> pystr" where
  "fixed_text (DecFin negative c e) =
     (if negative then u ''-'' else [])
     @ (if 0 \<le> e then nat_text 10 c @ (if c = 0 then [] else replicate (nat e) 48)
        else let digits = zero_pad (Suc (nat (- e))) (nat_text 10 c); whole = length digits - nat (- e) in
             take whole digits @ u ''.'' @ drop whole digits)"
| "fixed_text (DecInf negative) = (if negative then u ''-Infinity'' else u ''Infinity'')"
| "fixed_text DecNan = u ''NaN''"

text \<open>
  \<^verbatim>\<open>str(d)\<close> (with \<open>E\<close>) and the text of \<^verbatim>\<open>format(d, ".<p>g")\<close> after rounding (with \<open>e\<close>): positional unless
  the exponent is positive or the number is below a millionth.
\<close>

definition scientific_text :: "nat \<Rightarrow> bool \<Rightarrow> nat \<Rightarrow> int \<Rightarrow> pystr" where
  "scientific_text mark negative c e =
     (let digits = nat_text 10 c; left = e + int (length digits) in
      if e \<le> 0 \<and> - 6 < left then fixed_text (DecFin negative c e)
      else (if negative then u ''-'' else []) @ [hd digits] @ (if tl digits = [] then [] else u ''.'' @ tl digits)
        @ [mark] @ (if left - 1 < 0 then u ''-'' else u ''+'') @ nat_text 10 (nat \<bar>left - 1\<bar>))"

fun decimal_str :: "decimal \<Rightarrow> pystr" where
  "decimal_str (DecFin negative c e) = scientific_text 69 negative c e"
| "decimal_str (DecInf negative) = (if negative then u ''-Infinity'' else u ''Infinity'')"
| "decimal_str DecNan = u ''NaN''"

definition round_digits :: "nat \<Rightarrow> nat \<Rightarrow> int \<Rightarrow> nat \<times> int" where
  "round_digits p c e =
     (let excess = digit_count c - p; c' = nat (round_magnitude HalfEven False (of_nat c / 10 ^ excess)) in
      if excess = 0 then (c, e)
      else if c' = 10 ^ p then (10 ^ (p - 1), e + int excess + 1) else (c', e + int excess))"

fun general_text :: "nat \<Rightarrow> decimal \<Rightarrow> pystr" where
  "general_text p (DecFin negative c e) = (case round_digits p c e of (c', e') \<Rightarrow> scientific_text 101 negative c' e')"
| "general_text p d = decimal_str d"

section \<open>Reading back\<close>

lemma strip_plain: "\<forall>c \<in> set s. \<not> is_space c \<Longrightarrow> strip s = s"
proof -
  assume no: "\<forall>c \<in> set s. \<not> is_space c"
  then have "dropWhile is_space s = s" by (cases s) auto
  moreover have "dropWhile is_space (rev s) = rev s" using no by (cases "rev s") (auto simp: rev_eq_Cons_iff)
  ultimately show ?thesis by (simp add: strip_def)
qed

lemma split_at_absent: "c \<notin> set s \<Longrightarrow> split_at c s = (s, None)"
  unfolding split_at_def by (metis (mono_tags, lifting) dropWhile_eq_Nil_conv list.simps(4) takeWhile_eq_all_conv)

lemma split_at_present: "c \<notin> set s \<Longrightarrow> split_at c (s @ c # t) = (s, Some t)"
  by (simp add: split_at_def takeWhile_append dropWhile_append)

definition exponent_text :: "nat \<Rightarrow> int \<Rightarrow> pystr" where
  "exponent_text mark i = mark # (if i < 0 then u ''-'' else u ''+'') @ nat_text 10 (nat \<bar>i\<bar>)"

lemma signed_digits_exponent: "signed_digits (tl (exponent_text mark i)) = Some i"
  using nat_text_ascii [of "nat i"] nat_text_ascii [of "nat (- i)"]
  by (simp add: signed_digits_def exponent_text_def unsigned_def u_def digits_val_nat_text)

lemma mantissa_of_digits:
  assumes "is_digits w" and "list_all (\<lambda>c. 48 \<le> c \<and> c \<le> 57) g" and "m = w @ 46 # g \<or> g = [] \<and> m = w"
  shows "mantissa_of m = Some (digits_val 10 (w @ g), length g)"
proof -
  have "46 \<notin> set w" "is_digits (w @ g)" using assms(1,2) by (auto simp: is_digits_def list_all_iff)
  then show ?thesis
    using assms(3) by (auto simp: mantissa_of_def split_at_absent split_at_present)
qed

lemma decimal_of_mantissa:
  assumes ascii: "\<forall>c < 128. udigit c = ascii_digit c" and mark: "mark = 69 \<or> mark = 101"
    and w: "is_digits w" and g: "list_all (\<lambda>c. 48 \<le> c \<and> c \<le> 57) g"
    and m: "m = w @ 46 # g \<or> g = [] \<and> m = w"
    and s: "s = (if neg then [45] else []) @ m @ (case ex of None \<Rightarrow> [] | Some i \<Rightarrow> exponent_text mark i)"
  shows "decimal_of_text udigit s = Some (DecFin neg (digits_val 10 (w @ g)) ((case ex of None \<Rightarrow> 0 | Some i \<Rightarrow> i) - int (length g)))"
proof -
  define low where "low = (if neg then [45] else []) @ m @ (case ex of None \<Rightarrow> [] | Some i \<Rightarrow> exponent_text 101 i)"
  have digits: "48 \<le> c \<and> c \<le> 57 \<or> c = 46" if "c \<in> set m" for c
    using that w g m by (auto simp: is_digits_def list_all_iff)
  have chars: "48 \<le> c \<and> c \<le> 57 \<or> c \<in> {43, 45, 46, 69, 101}" if "c \<in> set s" for c
    using that mark digits [of c] nat_text_ascii [of "nat \<bar>the ex\<bar>"]
    by (auto simp: s exponent_text_def is_digits_def list_all_iff u_def split: option.splits if_splits)
  have "strip s = s" by (rule strip_plain) (use chars in \<open>fastforce simp: is_space_def\<close>)
  moreover have "filter (\<lambda>c. c \<noteq> 95) s = s" using chars by (fastforce simp: filter_id_conv)
  moreover have "map (\<lambda>c. case udigit c of Some d \<Rightarrow> 48 + d | None \<Rightarrow> c) s = s"
  proof (rule map_idI)
    fix c assume "c \<in> set s"
    with chars have "48 \<le> c \<and> c \<le> 57 \<or> c \<in> {43, 45, 46, 69, 101}" by blast
    then show "(case udigit c of Some d \<Rightarrow> 48 + d | None \<Rightarrow> c) = c" using ascii by (auto simp: ascii_digit_def)
  qed
  ultimately have "numeric_as_ascii udigit s = s" by (simp add: numeric_as_ascii_def)
  moreover have "ascii_lower s = low"
  proof -
    have same: "ascii_lower t = t" if "\<forall>c \<in> set t. c < 65" for t
      unfolding ascii_lower_def using that by (intro map_idI) auto
    have "ascii_lower m = m" by (rule same) (use digits in fastforce)
    moreover have "ascii_lower (exponent_text mark i) = exponent_text 101 i" for i
    proof -
      have "ascii_lower (nat_text 10 (nat \<bar>i\<bar>)) = nat_text 10 (nat \<bar>i\<bar>)"
        by (rule same) (use nat_text_ascii [of "nat \<bar>i\<bar>"] in \<open>auto simp: is_digits_def list_all_iff\<close>)
      then show ?thesis using mark by (auto simp: exponent_text_def ascii_lower_def u_def)
    qed
    ultimately show ?thesis by (simp add: s low_def ascii_lower_def split: option.splits)
  qed
  moreover obtain c rest where first: "m = c # rest" "48 \<le> c" "c \<le> 57" using w m by (cases w) (auto simp: is_digits_def)
  define body where "body = m @ (case ex of None \<Rightarrow> [] | Some i \<Rightarrow> exponent_text 101 i)"
  have "unsigned low = body" "(low \<noteq> [] \<and> hd low = 45) = neg" using first by (simp_all add: low_def body_def unsigned_def)
  moreover have "body \<notin> {u ''inf'', u ''infinity''}" "\<not> starts_with (u ''nan'') body" "\<not> starts_with (u ''snan'') body"
    using first by (auto simp: body_def u_def starts_with_def)
  moreover have "split_at 101 body = (m, case ex of None \<Rightarrow> None | Some i \<Rightarrow> Some (tl (exponent_text 101 i)))"
  proof -
    have no: "101 \<notin> set m" using digits [of 101] by auto
    show ?thesis
    proof (cases ex)
      case None
      then show ?thesis by (simp add: body_def split_at_absent [OF no])
    next
      case (Some i)
      then show ?thesis by (simp add: body_def exponent_text_def split_at_present [OF no])
    qed
  qed
  ultimately show ?thesis
    unfolding decimal_of_text_def Let_def
    using mantissa_of_digits [OF w g m] by (simp add: signed_digits_exponent split: option.splits)
qed

lemma decimal_of_written:
  assumes "\<forall>c < 128. udigit c = ascii_digit c" and "mark = 69 \<or> mark = 101"
    and "is_digits w" and "list_all (\<lambda>c. 48 \<le> c \<and> c \<le> 57) g"
  shows "decimal_of_text udigit ((if neg then [45] else []) @ (w @ (if g = [] then [] else 46 # g))
      @ (case ex of None \<Rightarrow> [] | Some i \<Rightarrow> exponent_text mark i))
    = Some (DecFin neg (digits_val 10 (w @ g)) ((case ex of None \<Rightarrow> 0 | Some i \<Rightarrow> i) - int (length g)))"
  by (rule decimal_of_mantissa [OF assms]) auto

lemma decimal_str_reads_back:
  assumes ascii: "\<forall>c < 128. udigit c = ascii_digit c"
  shows "decimal_of_text udigit (decimal_str (DecFin neg c e)) = Some (DecFin neg c e)"
proof -
  let ?digits = "nat_text 10 c"
  note written = decimal_of_written [OF ascii disjI1 [OF refl]]
  have digits: "is_digits ?digits" by (rule nat_text_ascii)
  then have all: "list_all (\<lambda>c. 48 \<le> c \<and> c \<le> 57) ?digits" "?digits \<noteq> []" by (simp_all add: is_digits_def)
  have val: "digits_val 10 ?digits = c" by (simp add: digits_val_nat_text)
  consider (integer) "e = 0" | (point) "e < 0" "- 6 < e + int (length ?digits)"
    | (power) "\<not> (e \<le> 0 \<and> - 6 < e + int (length ?digits))" by linarith
  then show ?thesis
  proof cases
    case integer
    then show ?thesis using written [OF digits, of "[]" neg None] val by (cases neg) (auto simp: scientific_text_def u_def)
  next
    case point
    let ?n = "nat (- e)" and ?padded = "zero_pad (Suc (nat (- e))) ?digits"
    let ?whole = "length ?padded - ?n"
    have n: "0 < ?n" using point by simp
    have long: "Suc ?n \<le> length ?padded" by (simp add: zero_pad_def)
    have padded: "list_all (\<lambda>c. 48 \<le> c \<and> c \<le> 57) ?padded" using all by (auto simp: zero_pad_def list_all_iff)
    define w where "w = take ?whole ?padded"
    define g where "g = drop ?whole ?padded"
    have wg: "w @ g = ?padded" "length g = ?n" "w \<noteq> []" using long by (auto simp: w_def g_def)
    then have parts: "is_digits w" "list_all (\<lambda>c. 48 \<le> c \<and> c \<le> 57) g" "g \<noteq> []"
      using padded n by (auto simp: is_digits_def simp flip: wg(1))
    from written [OF parts(1,2), of neg None] wg(1,2) parts(3) point(1)
    have "decimal_of_text udigit ((if neg then [45] else []) @ w @ 46 # g) = Some (DecFin neg (digits_val 10 ?padded) e)" by simp
    moreover have "digits_val 10 ?padded = c" by (simp add: digits_val_zero_pad val)
    moreover have "scientific_text 69 neg c e = (if neg then [45] else []) @ w @ 46 # g"
      using point by (simp add: scientific_text_def Let_def u_def w_def g_def)
    ultimately show ?thesis by simp
  next
    case power
    obtain d rest where d: "?digits = d # rest" using all(2) by (cases ?digits) auto
    have "is_digits [d]" "list_all (\<lambda>c. 48 \<le> c \<and> c \<le> 57) rest" using all(1) d by (simp_all add: is_digits_def)
    from written [OF this, of neg "Some (e + int (length ?digits) - 1)"]
    have "decimal_of_text udigit ((if neg then [45] else []) @ ([d] @ (if rest = [] then [] else 46 # rest))
        @ exponent_text 69 (e + int (length ?digits) - 1)) = Some (DecFin neg (digits_val 10 (d # rest)) e)" by (simp add: d)
    moreover have "scientific_text 69 neg c e = (if neg then [45] else []) @ ([d] @ (if rest = [] then [] else 46 # rest))
        @ exponent_text 69 (e + int (length ?digits) - 1)"
      unfolding scientific_text_def Let_def if_not_P [OF power] by (simp add: d u_def exponent_text_def)
    ultimately show ?thesis using d val by simp
  qed
qed

text \<open>Rounding to a number of digits.\<close>

lemma round_digits_near:
  assumes "0 < p" and "round_digits p c e = (c', e')"
  shows "\<bar>of_nat c' * pow10 e' - of_nat c * pow10 e\<bar> \<le> pow10 (e + int (digit_count c) - int p) / 2"
    and "digit_count c \<le> p \<Longrightarrow> c' = c \<and> e' = e"
proof -
  define excess where "excess = digit_count c - p"
  define y where "y = rat_of_nat c / 10 ^ excess"
  define r where "r = nat (round_magnitude HalfEven False y)"
  have y: "0 \<le> y" by (simp add: y_def)
  have c': "(c', e') = (if excess = 0 then (c, e) else if r = 10 ^ p then (10 ^ (p - 1), e + int excess + 1) else (r, e + int excess))"
    unfolding assms(2) [symmetric] round_digits_def Let_def excess_def y_def r_def ..
  then show "digit_count c \<le> p \<Longrightarrow> c' = c \<and> e' = e" by (simp add: excess_def)
  show "\<bar>of_nat c' * pow10 e' - of_nat c * pow10 e\<bar> \<le> pow10 (e + int (digit_count c) - int p) / 2"
  proof (cases "excess = 0")
    case False
    have ten: "(10::rat) * 10 ^ (p - 1) = 10 ^ p" using assms(1) by (simp flip: power_Suc)
    have "of_nat c' * pow10 e' = of_nat r * pow10 (e + int excess)"
      using c' False ten pow10_add [of "e + int excess" 1] by (auto simp: pow10_def [of 1] split: if_splits)
    moreover have "of_nat c * pow10 e = y * pow10 (e + int excess)" by (simp add: y_def pow10_add pow10_nat)
    moreover have r: "rat_of_nat r = of_int (round_magnitude HalfEven False y)" using round_magnitude_near(1) [OF y] by (simp add: r_def)
    ultimately have "\<bar>of_nat c' * pow10 e' - of_nat c * pow10 e\<bar> = \<bar>of_int (round_magnitude HalfEven False y) - y\<bar> * pow10 (e + int excess)"
      by (simp add: left_diff_distrib [symmetric] abs_mult)
    also have "\<dots> \<le> 1/2 * pow10 (e + int excess)" using round_magnitude_near(3) [OF y] by (intro mult_right_mono) simp_all
    also have "e + int excess = e + int (digit_count c) - int p" using False by (simp add: excess_def)
    finally show ?thesis by simp
  qed (use c' in simp)
qed

end
