(* ===== verification/Dimensions.thy ===== *)
theory Dimensions
  imports Py_Decimal Py_Ast
begin

text \<open>
  Dimensions and the dimensional analysis of expressions (\<^verbatim>\<open>dimension_expression.py\<close>): dimension vectors
  with bounded rational exponents, formulas over unknown dimensions, and the visitor that gives an
  expression its dimension and collects the constraints under which it has one.
\<close>

section \<open>Names and exponents\<close>

definition MAX_DIMENSION_COMPONENTS :: nat where "MAX_DIMENSION_COMPONENTS = 16"
definition MAX_DIMENSION_EXPONENT_PART :: int where "MAX_DIMENSION_EXPONENT_PART = 1000000"
definition MAX_DIMENSION_POWER :: rat where "MAX_DIMENSION_POWER = 12"
definition MAX_DIMENSION_CONSTRAINTS :: nat where "MAX_DIMENSION_CONSTRAINTS = 256"
definition MAX_LITERAL_DIGIT_BUDGET :: nat where "MAX_LITERAL_DIGIT_BUDGET = 2048"

definition BASE_DIMENSION_ORDER :: "pystr list" where
  "BASE_DIMENSION_ORDER =
     [u ''mass'', u ''length'', u ''time'', u ''current'', u ''temperature'', u ''substance'', u ''luminosity'',
      u ''information'']"

text \<open>The sort key of a dimension: the base dimensions first, in their order, then the others by name.\<close>

datatype dimension_key = DimensionKey nat pystr

instantiation dimension_key :: linorder
begin

fun less_eq_dimension_key :: "dimension_key \<Rightarrow> dimension_key \<Rightarrow> bool" where
  "less_eq_dimension_key (DimensionKey i a) (DimensionKey j b) \<longleftrightarrow> i < j \<or> (i = j \<and> a \<le> b)"

definition less_dimension_key :: "dimension_key \<Rightarrow> dimension_key \<Rightarrow> bool" where
  "less_dimension_key k l \<longleftrightarrow> k \<le> l \<and> \<not> l \<le> k"

instance
proof
  fix k l m :: dimension_key
  show "(k < l) = (k \<le> l \<and> \<not> l \<le> k)" by (simp add: less_dimension_key_def)
  show "k \<le> k" by (cases k) simp
  show "k \<le> l \<Longrightarrow> l \<le> m \<Longrightarrow> k \<le> m" by (cases k; cases l; cases m) auto
  show "k \<le> l \<Longrightarrow> l \<le> k \<Longrightarrow> k = l" by (cases k; cases l) auto
  show "k \<le> l \<or> l \<le> k" by (cases k; cases l) auto
qed

end

definition dimension_sort_key :: "pystr \<Rightarrow> dimension_key" where
  "dimension_sort_key name = DimensionKey (index_of name BASE_DIMENSION_ORDER) name"

text \<open>\<^verbatim>\<open>DIMENSION_VECTOR_NAME_PATTERN\<close>: an ASCII identifier, plain or in brackets.\<close>

definition identifier_start :: "nat \<Rightarrow> bool" where
  "identifier_start c \<longleftrightarrow> 65 \<le> c \<and> c \<le> 90 \<or> 97 \<le> c \<and> c \<le> 122 \<or> c = 95"

definition ascii_identifier :: "pystr \<Rightarrow> bool" where
  "ascii_identifier s \<longleftrightarrow>
     s \<noteq> [] \<and> identifier_start (hd s) \<and> list_all (\<lambda>c. identifier_start c \<or> 48 \<le> c \<and> c \<le> 57) s"

definition bracketed :: "pystr \<Rightarrow> bool" where
  "bracketed s \<longleftrightarrow> 2 \<le> length s \<and> hd s = 91 \<and> last s = 93"

definition dimension_vector_name :: "pystr \<Rightarrow> bool" where
  "dimension_vector_name s \<longleftrightarrow> ascii_identifier s \<or> bracketed s \<and> ascii_identifier (butlast (tl s))"

definition canonical_dimension_name :: "pyval \<Rightarrow> pyexn + pystr" where
  "canonical_dimension_name v =
     (case v of
        VStr name \<Rightarrow>
          demand (length name \<le> 64) (calc ''E_LIMIT'' (u ''dimension names may not exceed 64 characters''))
            (demand (dimension_vector_name name) (calc ''E_INPUT'' (u ''invalid dimension name: '' @ name))
               (Inr (if bracketed name then butlast (tl name) else name)))
      | _ \<Rightarrow> Inl (calc ''E_INPUT'' (u ''dimension names must be strings'')))"

text \<open>
  An exponent is a value of a request or a \<^verbatim>\<open>Fraction\<close>. Request text is a canonical integer or rational:
  \<^verbatim>\<open>Fraction(text)\<close> reads its two digit strings with \<^verbatim>\<open>int\<close>.
\<close>

datatype exponent = Given pyval | Derived rat

definition canonical_digits :: "pystr \<Rightarrow> bool" where
  "canonical_digits s \<longleftrightarrow> is_digits s \<and> hd s \<noteq> 48"

definition dimension_rational_text :: "pystr \<Rightarrow> bool" where
  "dimension_rational_text s \<longleftrightarrow>
     (case split_at 47 (unsigned s) of (n, d) \<Rightarrow>
        (n = [48] \<or> canonical_digits n) \<and> (case d of None \<Rightarrow> True | Some t \<Rightarrow> canonical_digits t))"

definition fraction_of_text :: "interp \<Rightarrow> pystr \<Rightarrow> pyexn + rat" where
  "fraction_of_text py s =
     (case split_at 47 (unsigned s) of (n, d) \<Rightarrow>
        let ds = (case d of None \<Rightarrow> u ''1'' | Some t \<Rightarrow> t) in
        demand (digits_allowed py (length n) \<and> digits_allowed py (length ds)) digit_limit_error
          (Inr ((if hd s = 45 then -1 else 1) * of_nat (digits_val 10 n) / of_nat (digits_val 10 ds))))"

definition exponent_bounded :: "rat \<Rightarrow> bool" where
  "exponent_bounded r \<longleftrightarrow>
     \<bar>numerator r\<bar> \<le> MAX_DIMENSION_EXPONENT_PART \<and> denominator r \<le> MAX_DIMENSION_EXPONENT_PART"

definition bounded_exponent :: "interp \<Rightarrow> pystr \<Rightarrow> exponent \<Rightarrow> pyexn + rat" where
  "bounded_exponent py label value =
     rbind
       (case value of
          Given (VBool _) \<Rightarrow> Inl (calc ''E_INPUT'' (label @ u '' must be a rational number''))
        | Given (VInt i) \<Rightarrow> Inr (of_int i)
        | Given (VStr s) \<Rightarrow>
            demand (dimension_rational_text s)
              (calc ''E_INPUT'' (label @ u '' must be canonical integer or rational text''))
              (case fraction_of_text py s of
                 Inr r \<Rightarrow> Inr r
               | Inl _ \<Rightarrow> Inl (calc ''E_INPUT'' (label @ u '' must be an integer or canonical rational text'')))
        | Derived r \<Rightarrow> Inr r
        | _ \<Rightarrow> Inl (calc ''E_INPUT'' (label @ u '' must be an integer or canonical rational text'')))
       (\<lambda>parsed. demand (exponent_bounded parsed) (calc ''E_LIMIT'' (label @ u '' is too complex'')) (Inr parsed))"

text \<open>\<^verbatim>\<open>len(str(abs(n)))\<close> raises beyond the digit limit of the interpreter.\<close>

definition digit_length :: "interp \<Rightarrow> int \<Rightarrow> pyexn + nat" where
  "digit_length py i = rbind (int_str py \<bar>i\<bar>) (\<lambda>t. Inr (length t))"

definition bounded_derived_exponent :: "interp \<Rightarrow> pystr \<Rightarrow> rat \<Rightarrow> pyexn + rat" where
  "bounded_derived_exponent py label parsed =
     rbind (digit_length py (numerator parsed)) (\<lambda>n.
     rbind (if n \<le> MAX_LITERAL_DIGIT_BUDGET
            then rbind (digit_length py (denominator parsed)) (\<lambda>d. Inr (d \<le> MAX_LITERAL_DIGIT_BUDGET))
            else Inr False) (\<lambda>small.
     demand small (calc ''E_LIMIT'' (label @ u '' is too complex'')) (Inr parsed)))"

section \<open>Dimension vectors\<close>

datatype dimension_vector = DimensionVector (components: "(pystr \<times> rat) list")

definition dimensionless :: dimension_vector where "dimensionless = DimensionVector []"

definition add_component ::
  "(pystr \<Rightarrow> 'a \<Rightarrow> pyexn + rat) \<Rightarrow> pyval \<times> 'a \<Rightarrow> (pystr \<times> rat) list \<Rightarrow> pyexn + (pystr \<times> rat) list" where
  "add_component read item normalized =
     rbind (canonical_dimension_name (fst item)) (\<lambda>name.
     demand (name \<notin> set (map fst normalized)) (calc ''E_INPUT'' (u ''duplicate dimension component: '' @ name))
     (rbind (read name (snd item)) (\<lambda>exponent.
        Inr (if exponent \<noteq> 0 then normalized @ [(name, exponent)] else normalized))))"

definition vector_from_mapping ::
  "(pystr \<Rightarrow> 'a \<Rightarrow> pyexn + rat) \<Rightarrow> (pyval \<times> 'a) list \<Rightarrow> pyexn + dimension_vector" where
  "vector_from_mapping read values =
     demand (length values \<le> MAX_DIMENSION_COMPONENTS)
       (calc ''E_LIMIT'' (u ''dimension vectors may contain at most 16 components''))
       (rbind (rfold (add_component read) values []) (\<lambda>normalized.
          Inr (DimensionVector (sort_key (\<lambda>item. dimension_sort_key (fst item)) normalized))))"

definition from_mapping :: "interp \<Rightarrow> (pyval \<times> exponent) list \<Rightarrow> pyexn + dimension_vector" where
  "from_mapping py = vector_from_mapping (\<lambda>name. bounded_exponent py (u ''dimension exponent for '' @ name))"

definition from_derived_mapping :: "interp \<Rightarrow> (pystr \<times> rat) list \<Rightarrow> pyexn + dimension_vector" where
  "from_derived_mapping py values =
     vector_from_mapping (\<lambda>name. bounded_derived_exponent py (u ''derived dimension exponent for '' @ name))
       (map (\<lambda>(name, exponent). (VStr name, exponent)) values)"

definition combine :: "(pystr \<times> rat) list \<Rightarrow> (pystr \<times> rat) list \<Rightarrow> (pystr \<times> rat) list" where
  "combine combined other =
     foldl (\<lambda>combined (name, exponent). AList.update name (dget combined name 0 + exponent) combined) combined other"

definition vector_add :: "interp \<Rightarrow> dimension_vector \<Rightarrow> dimension_vector \<Rightarrow> pyexn + dimension_vector" where
  "vector_add py v w = from_derived_mapping py (combine (components v) (components w))"

definition vector_scale :: "interp \<Rightarrow> dimension_vector \<Rightarrow> rat \<Rightarrow> pyexn + dimension_vector" where
  "vector_scale py v factor =
     from_derived_mapping py (map (\<lambda>(name, exponent). (name, exponent * factor)) (components v))"

definition vector_sub :: "interp \<Rightarrow> dimension_vector \<Rightarrow> dimension_vector \<Rightarrow> pyexn + dimension_vector" where
  "vector_sub py v w = rbind (vector_scale py w (- 1)) (vector_add py v)"

definition vector_exponent :: "dimension_vector \<Rightarrow> pystr \<Rightarrow> rat" where
  "vector_exponent v name = dget (components v) name 0"

text \<open>\<^verbatim>\<open>str(Fraction)\<close>, and the two presentations of a vector.\<close>

definition fraction_str :: "interp \<Rightarrow> rat \<Rightarrow> pyexn + pystr" where
  "fraction_str py r =
     rbind (int_str py (numerator r)) (\<lambda>n.
     if denominator r = 1 then Inr n
     else rbind (int_str py (denominator r)) (\<lambda>d. Inr (n @ u ''/'' @ d)))"

definition vector_to_json :: "interp \<Rightarrow> dimension_vector \<Rightarrow> pyexn + pydict" where
  "vector_to_json py v =
     rmap (\<lambda>(name, exponent). rbind (fraction_str py exponent) (\<lambda>t. Inr (name, VStr t))) (components v)"

definition factor_text :: "interp \<Rightarrow> pystr \<times> rat \<Rightarrow> pyexn + pystr" where
  "factor_text py item =
     (let absolute = \<bar>snd item\<bar>; name = u ''['' @ fst item @ u '']'' in
      if absolute = 1 then Inr name
      else rbind (fraction_str py absolute) (\<lambda>rendered.
        Inr (name @ u ''^'' @ (if denominator absolute = 1 then rendered else u ''('' @ rendered @ u '')''))))"

text \<open>The loop renders the components in order; the first one that cannot be rendered raises.\<close>

definition vector_display :: "interp \<Rightarrow> dimension_vector \<Rightarrow> pyexn + pystr" where
  "vector_display py v =
     (if components v = [] then Inr (u ''dimensionless'')
      else rbind (rmap (\<lambda>item. rbind (factor_text py item) (\<lambda>t. Inr (0 < snd item, t))) (components v)) (\<lambda>texts.
        let positive = map snd (filter fst texts);
            negative = map snd (filter (\<lambda>t. \<not> fst t) texts);
            numerator = (if positive = [] then u ''1'' else join (u '' * '') positive);
            denominator = (if 1 < length negative then u ''('' @ join (u '' * '') negative @ u '')'' else join (u '' * '') negative)
        in Inr (if negative = [] then numerator else numerator @ u '' / '' @ denominator)))"

section \<open>Formulas with unknown dimensions\<close>

datatype dimension_formula = DimensionFormula (formula_constant: dimension_vector) (coefficients: "(pystr \<times> rat) list")

definition known :: "dimension_vector \<Rightarrow> dimension_formula" where
  "known dimension = DimensionFormula dimension []"

definition unknown :: "pystr \<Rightarrow> dimension_formula" where
  "unknown symbol = DimensionFormula dimensionless [(symbol, 1)]"

definition bounded_coefficient :: "interp \<Rightarrow> pystr \<times> rat \<Rightarrow> pyexn + pystr \<times> rat" where
  "bounded_coefficient py item =
     rbind (bounded_exponent py (u ''dimension coefficient for '' @ fst item) (Derived (snd item)))
       (\<lambda>v. Inr (fst item, v))"

definition formula_add :: "interp \<Rightarrow> dimension_formula \<Rightarrow> dimension_formula \<Rightarrow> pyexn + dimension_formula" where
  "formula_add py f g =
     rbind (vector_add py (formula_constant f) (formula_constant g)) (\<lambda>c.
     rbind (rmap (bounded_coefficient py) (filter (\<lambda>item. snd item \<noteq> 0) (combine (coefficients f) (coefficients g)))) (\<lambda>bounded.
       Inr (DimensionFormula c (sort_key fst bounded))))"

definition formula_scale :: "interp \<Rightarrow> dimension_formula \<Rightarrow> rat \<Rightarrow> pyexn + dimension_formula" where
  "formula_scale py f factor =
     rbind (vector_scale py (formula_constant f) factor) (\<lambda>c.
     rbind (rmap (bounded_coefficient py)
         (filter (\<lambda>item. snd item \<noteq> 0) (map (\<lambda>(name, coefficient). (name, coefficient * factor)) (coefficients f)))) (\<lambda>scaled.
       Inr (DimensionFormula c scaled)))"

definition formula_sub :: "interp \<Rightarrow> dimension_formula \<Rightarrow> dimension_formula \<Rightarrow> pyexn + dimension_formula" where
  "formula_sub py f g = rbind (formula_scale py g (- 1)) (formula_add py f)"

section \<open>Constraints\<close>

record dimension_constraint =
  constraint_code :: pystr
  constraint_expression :: pystr
  constraint_message :: pystr
  left_side :: dimension_formula
  right_side :: dimension_formula
  constraint_function :: "pystr option"

definition constraint_difference :: "interp \<Rightarrow> dimension_constraint \<Rightarrow> pyexn + dimension_formula" where
  "constraint_difference py c = formula_sub py (left_side c) (right_side c)"

definition constant_issue :: "interp \<Rightarrow> dimension_constraint \<Rightarrow> pyexn + pydict option" where
  "constant_issue py c =
     rbind (constraint_difference py c) (\<lambda>difference.
     demand (coefficients difference = [])
       (calc ''E_RUNTIME'' (u ''a concrete dimension check retained unresolved symbols''))
     (if components (formula_constant difference) = [] then Inr None
      else
        (let issue = [(u ''code'', VStr (constraint_code c)), (u ''expression'', VStr (constraint_expression c)),
                      (u ''message'', VStr (constraint_message c))] in
         rbind (vector_to_json py (formula_constant (left_side c))) (\<lambda>l.
         case constraint_function c of
           None \<Rightarrow> rbind (vector_to_json py (formula_constant (right_side c))) (\<lambda>r.
             Inr (Some (issue @ [(u ''left'', VDict l), (u ''right'', VDict r)])))
         | Some f \<Rightarrow> Inr (Some (issue @ [(u ''function'', VStr f), (u ''actual'', VDict l)]))))))"

definition concrete_issues :: "interp \<Rightarrow> dimension_constraint list \<Rightarrow> pyexn + pydict list" where
  "concrete_issues py cs =
     rbind (rmap (constant_issue py) cs) (\<lambda>issues. Inr (List.map_filter id issues))"

section \<open>The analyzer\<close>

definition DIMENSIONLESS_FUNCTIONS :: "pystr list" where
  "DIMENSIONLESS_FUNCTIONS = [u ''sin'', u ''cos'', u ''tan'', u ''log'', u ''exp'']"

definition SUPPORTED_FUNCTIONS :: "pystr list" where
  "SUPPORTED_FUNCTIONS = DIMENSIONLESS_FUNCTIONS @ [u ''sqrt'', u ''abs'']"

text \<open>The superscripts two and three.\<close>

definition normalize_dimension_source :: "pystr \<Rightarrow> pystr" where
  "normalize_dimension_source source =
     replace_cp 179 (u ''**3'') (replace_cp 178 (u ''**2'') (normalize_expression_source source))"

text \<open>\<^verbatim>\<open>Fraction(_bounded_decimal(text))\<close>: \<open>e\<close> is raised where the text is no finite decimal.\<close>

definition decimal_fraction :: "pyexn \<Rightarrow> pystr \<Rightarrow> pyexn + rat" where
  "decimal_fraction e s =
     (case decimal_of_text ascii_digit s of
        Some (DecFin neg c x) \<Rightarrow>
          demand (int (digit_count c) + \<bar>x\<bar> \<le> int MAX_LITERAL_DIGIT_BUDGET)
            (calc ''E_LIMIT'' (u ''numeric literal is too complex''))
            (Inr ((if neg then -1 else 1) * of_nat c * pow10 x))
      | Some DecNan \<Rightarrow> Inl e
      | Some (DecInf _) \<Rightarrow> Inl (PyExn (u ''OverflowError'') (u ''cannot convert Infinity to integer ratio''))
      | None \<Rightarrow> Inl e)"

definition segment_of :: "pystr \<Rightarrow> pystr option \<Rightarrow> pystr" where
  "segment_of source seg = (case seg of None \<Rightarrow> source | Some s \<Rightarrow> if s = [] then source else s)"

text \<open>\<^verbatim>\<open>_literal_fraction\<close>: a power must be a constant rational number.\<close>

definition bounded_literal :: "rat \<Rightarrow> pyexn + rat" where
  "bounded_literal parsed =
     demand (exponent_bounded parsed)
       (calc ''E_LIMIT'' (u ''dimension power is too complex; use a simpler rational exponent'')) (Inr parsed)"

definition not_rational :: pyexn where
  "not_rational = calc ''E_INPUT'' (u ''dimension powers must be constant rational numbers'')"

fun literal_fraction :: "pystr \<Rightarrow> pyast \<Rightarrow> pyexn + rat" where
  "literal_fraction source (EConst seg v) =
     (case v of
        VInt i \<Rightarrow> bounded_literal (of_int i)
      | VFloat _ \<Rightarrow>
          rbind (decimal_fraction (calc ''E_INPUT'' (u ''dimension powers must be exact numeric literals''))
                  (segment_of source seg)) bounded_literal
      | _ \<Rightarrow> Inl not_rational)"
| "literal_fraction source (EUnary op e) =
     (case op of
        UAdd \<Rightarrow> rbind (literal_fraction source e) bounded_literal
      | USub \<Rightarrow> rbind (literal_fraction source e) (\<lambda>r. bounded_literal (- r))
      | UOther _ \<Rightarrow> Inl not_rational)"
| "literal_fraction source (EBin _ op l r) =
     (case op of
        ODiv \<Rightarrow>
          rbind (literal_fraction source l) (\<lambda>n.
          rbind (literal_fraction source r) (\<lambda>d.
          demand (d \<noteq> 0) (calc ''E_INPUT'' (u ''dimension power denominator may not be zero''))
            (bounded_literal (n / d))))
      | _ \<Rightarrow> Inl not_rational)"
| "literal_fraction source _ = Inl not_rational"

text \<open>
  \<^verbatim>\<open>visit\<close>: the dimension of an expression, and the constraints that make it one. They go through
  every call, as the object's list does.
\<close>

definition add_constraint :: "dimension_constraint \<Rightarrow> dimension_constraint list \<Rightarrow> pyexn + dimension_constraint list" where
  "add_constraint c cs =
     demand (length cs < MAX_DIMENSION_CONSTRAINTS)
       (calc ''E_LIMIT'' (u ''dimensional analysis may generate at most 256 constraints'')) (Inr (cs @ [c]))"

definition additive_constraint :: "pystr \<Rightarrow> dimension_formula \<Rightarrow> dimension_formula \<Rightarrow> dimension_constraint" where
  "additive_constraint expression l r =
     \<lparr>constraint_code = u ''DIMENSION_ADD_MISMATCH'', constraint_expression = expression,
      constraint_message = u ''additive terms must have the same dimension'', left_side = l, right_side = r,
      constraint_function = None\<rparr>"

definition argument_constraint :: "pystr \<Rightarrow> pystr \<Rightarrow> dimension_formula \<Rightarrow> dimension_constraint" where
  "argument_constraint expression function argument =
     \<lparr>constraint_code = u ''DIMENSION_FUNCTION_ARGUMENT'', constraint_expression = expression,
      constraint_message = function @ u '' requires a dimensionless argument'', left_side = argument,
      right_side = known dimensionless, constraint_function = Some function\<rparr>"

definition equation_constraint :: "pystr \<Rightarrow> dimension_formula \<Rightarrow> dimension_formula \<Rightarrow> dimension_constraint" where
  "equation_constraint expression l r =
     \<lparr>constraint_code = u ''DIMENSION_EQUATION_MISMATCH'', constraint_expression = expression,
      constraint_message = u ''the two sides of the equation have different dimensions'', left_side = l, right_side = r,
      constraint_function = None\<rparr>"

definition constant_dimension :: "pystr \<Rightarrow> pystr option \<Rightarrow> pyval \<Rightarrow> pyexn + dimension_formula" where
  "constant_dimension source seg v =
     (case v of
        VInt _ \<Rightarrow> Inr (known dimensionless)
      | VFloat _ \<Rightarrow>
          rbind (decimal_fraction (calc ''E_SYNTAX'' (u ''numeric literal could not be read exactly'')) (segment_of source seg)) (\<lambda>value.
          demand (\<bar>value\<bar> \<le> 10 ^ 300) (calc ''E_LIMIT'' (u ''numeric literal is too large'')) (Inr (known dimensionless)))
      | _ \<Rightarrow> Inl (calc ''E_AST_BLOCK'' (u ''only numeric literals and declared symbols are allowed'')))"

fun visit_dimension ::
  "interp \<Rightarrow> (pystr \<times> dimension_formula) list \<Rightarrow> pystr \<Rightarrow> pyast \<Rightarrow> dimension_constraint list
    \<Rightarrow> pyexn + (dimension_formula \<times> dimension_constraint list)" where
  "visit_dimension py bindings source (EConst seg v) cs =
     rbind (constant_dimension source seg v) (\<lambda>f. Inr (f, cs))"
| "visit_dimension py bindings source (EName x) cs =
     (case map_of bindings x of
        None \<Rightarrow> Inl (CalcError (u ''E_NAME'') (u ''unknown dimension symbol: '' @ x) (Some [(u ''symbol'', VStr x)]))
      | Some f \<Rightarrow> Inr (f, cs))"
| "visit_dimension py bindings source (EUnary op e) cs =
     (case op of
        UOther _ \<Rightarrow> Inl (calc ''E_AST_BLOCK'' (u ''unsupported unary operator in dimension expression''))
      | _ \<Rightarrow> visit_dimension py bindings source e cs)"
| "visit_dimension py bindings source (EBin seg op l r) cs =
     (if op = OPow then
        rbind (visit_dimension py bindings source l cs) (\<lambda>(base, cs).
        rbind (literal_fraction source r) (\<lambda>exponent.
        demand (\<bar>exponent\<bar> \<le> MAX_DIMENSION_POWER)
          (calc ''E_LIMIT'' (u ''dimension power magnitude may not exceed 12''))
          (rbind (formula_scale py base exponent) (\<lambda>f. Inr (f, cs)))))
      else
        rbind (visit_dimension py bindings source l cs) (\<lambda>(left, cs).
        rbind (visit_dimension py bindings source r cs) (\<lambda>(right, cs).
        if op = OAdd \<or> op = OSub then
          rbind (add_constraint (additive_constraint (segment_of source seg) left right) cs) (\<lambda>cs. Inr (left, cs))
        else if op = OMult then rbind (formula_add py left right) (\<lambda>f. Inr (f, cs))
        else if op = ODiv then rbind (formula_sub py left right) (\<lambda>f. Inr (f, cs))
        else Inl (calc ''E_AST_BLOCK'' (u ''unsupported binary operator in dimension expression'')))))"
| "visit_dimension py bindings source (ECall seg func args kws) cs =
     (case func of
        EName function \<Rightarrow>
          demand (function \<in> set SUPPORTED_FUNCTIONS)
            (calc ''E_AST_BLOCK'' (u ''unsupported function in dimension expression''))
          (case (kws, args) of
             ([], [arg]) \<Rightarrow>
               rbind (visit_dimension py bindings source arg cs) (\<lambda>(argument, cs).
               if function = u ''abs'' then Inr (argument, cs)
               else if function = u ''sqrt'' then rbind (formula_scale py argument (1/2)) (\<lambda>f. Inr (f, cs))
               else rbind (add_constraint (argument_constraint (segment_of source seg) function argument) cs)
                      (\<lambda>cs. Inr (known dimensionless, cs)))
           | _ \<Rightarrow> Inl (calc ''E_INPUT'' (u ''dimension functions require one positional argument'')))
      | _ \<Rightarrow> Inl (calc ''E_AST_BLOCK'' (u ''unsupported function in dimension expression'')))"
| "visit_dimension py bindings source (EOther t _) cs =
     Inl (calc ''E_AST_BLOCK'' (u ''unsupported dimension syntax: '' @ t))"

record dimension_analyzer =
  symbol_bindings :: "(pystr \<times> dimension_formula) list"
  max_total_nodes :: nat
  total_nodes :: nat
  generated :: "dimension_constraint list"

definition new_analyzer :: "(pystr \<times> dimension_formula) list \<Rightarrow> nat \<Rightarrow> dimension_analyzer" where
  "new_analyzer bindings limit = \<lparr>symbol_bindings = bindings, max_total_nodes = limit, total_nodes = 0, generated = []\<rparr>"

text \<open>The exceptions of \<^verbatim>\<open>ast.parse\<close> that become \<^verbatim>\<open>E_SYNTAX\<close>, by class: syntax errors and value errors.\<close>

definition SYNTAX_CLASSES :: "pystr list" where
  "SYNTAX_CLASSES =
     [u ''SyntaxError'', u ''IndentationError'', u ''TabError'', u ''ValueError'', u ''UnicodeEncodeError'']"

definition invalid_expression :: "pyexn \<Rightarrow> pyexn" where
  "invalid_expression e =
     (case e of
        PyExn cls message \<Rightarrow>
          if cls \<in> set SYNTAX_CLASSES then calc ''E_SYNTAX'' (u ''invalid dimension expression: '' @ message) else e
      | _ \<Rightarrow> e)"

text \<open>The \<^verbatim>\<open>Expression\<close> node above the body is counted too.\<close>

definition analyze ::
  "interp \<Rightarrow> (pystr \<Rightarrow> pyexn + pyast) \<Rightarrow> pystr \<Rightarrow> dimension_analyzer \<Rightarrow> pyexn + (dimension_formula \<times> dimension_analyzer)" where
  "analyze py ast_parse source a =
     (let normalized = normalize_dimension_source source in
      case ast_parse normalized of
        Inl e \<Rightarrow> Inl (invalid_expression e)
      | Inr body \<Rightarrow>
          (let expression_nodes = Suc (walk_count body) in
           demand (expression_nodes \<le> 256) (calc ''E_LIMIT'' (u ''dimension expression is too complex''))
           (demand (total_nodes a + expression_nodes \<le> max_total_nodes a)
             (calc ''E_LIMIT'' (u ''dimensional analysis request contains too many expression nodes''))
           (rbind (visit_dimension py (symbol_bindings a) normalized body (generated a)) (\<lambda>(f, cs).
              Inr (f, a\<lparr>total_nodes := total_nodes a + expression_nodes, generated := cs\<rparr>))))))"

definition add_equation ::
  "dimension_formula \<Rightarrow> dimension_formula \<Rightarrow> pystr \<Rightarrow> dimension_analyzer \<Rightarrow> pyexn + dimension_analyzer" where
  "add_equation l r expression a =
     rbind (add_constraint (equation_constraint expression l r) (generated a)) (\<lambda>cs. Inr (a\<lparr>generated := cs\<rparr>))"

end
