(* ===== verification/Dimension_Soundness.thy ===== *)
theory Dimension_Soundness
  imports Dimensions "HOL-Library.Multiset"
begin

text \<open>
  The dimensional analyzer is sound: vectors and formulas are well formed and their sums, differences
  and multiples have the exponents they should; and where its constraints hold, a change of units
  multiplies the value of an expression by exactly the factor of the dimension it computed.
\<close>

section \<open>Well-formed vectors and formulas\<close>

definition wf_vector :: "dimension_vector \<Rightarrow> bool" where
  "wf_vector v \<longleftrightarrow>
     distinct (map fst (components v)) \<and> sorted (map (\<lambda>item. dimension_sort_key (fst item)) (components v))
     \<and> (\<forall>(name, exponent) \<in> set (components v). ascii_identifier name \<and> length name \<le> 64 \<and> exponent \<noteq> 0)"

definition wf_formula :: "dimension_formula \<Rightarrow> bool" where
  "wf_formula f \<longleftrightarrow> wf_vector (formula_constant f) \<and> distinct (map fst (coefficients f))"

text \<open>The exponent of a dimension in a formula under an assignment of the unknowns.\<close>

definition weighted :: "(pystr \<times> rat) list \<Rightarrow> (pystr \<Rightarrow> rat) \<Rightarrow> rat" where
  "weighted xs g = (\<Sum>(s, c) \<leftarrow> xs. c * g s)"

definition formula_exponent :: "(pystr \<Rightarrow> pystr \<Rightarrow> rat) \<Rightarrow> dimension_formula \<Rightarrow> pystr \<Rightarrow> rat" where
  "formula_exponent assignment f name =
     vector_exponent (formula_constant f) name + weighted (coefficients f) (\<lambda>s. assignment s name)"

lemma identifier_not_bracketed: "ascii_identifier s \<Longrightarrow> \<not> bracketed s"
  by (auto simp: ascii_identifier_def bracketed_def identifier_start_def)

lemma canonical_identifier:
  "canonical_dimension_name v = Inr name \<Longrightarrow> ascii_identifier name \<and> length name \<le> 64"
  by (auto simp: canonical_dimension_name_def dimension_vector_name_def result_simps
      identifier_not_bracketed split: pyval.splits if_splits)

lemma canonical_of_identifier:
  "canonical_dimension_name (VStr name) = Inr n \<Longrightarrow> ascii_identifier name \<Longrightarrow> n = name"
  by (auto simp: canonical_dimension_name_def result_simps identifier_not_bracketed)

lemma map_of_sort_key:
  "distinct (map fst xs) \<Longrightarrow> map_of (sort_key f xs) = map_of xs"
  by (rule map_of_inject_set [THEN iffD2]) (simp_all add: distinct_map)

lemma dget_sort_key [dict_simps]: "distinct (map fst xs) \<Longrightarrow> dget (sort_key f xs) k v = dget xs k v"
  by (simp add: dget_def map_of_sort_key)

lemma sorted_distinct_keys: "distinct (map fst (sort_key f xs)) \<longleftrightarrow> distinct (map fst xs)"
  by (rule mset_eq_imp_distinct_iff) simp

lemma add_component_wf:
  assumes "add_component read item xs = Inr ys"
    and "distinct (map fst xs) \<and> (\<forall>(name, e) \<in> set xs. ascii_identifier name \<and> length name \<le> 64 \<and> e \<noteq> 0)"
  shows "distinct (map fst ys) \<and> (\<forall>(name, e) \<in> set ys. ascii_identifier name \<and> length name \<le> 64 \<and> e \<noteq> 0)"
  using assms by (auto simp: add_component_def result_simps split: if_splits dest: canonical_identifier)

lemma vector_from_mapping_wf:
  assumes "vector_from_mapping read values = Inr v"
  shows "wf_vector v"
proof -
  obtain xs where xs: "rfold (add_component read) values [] = Inr xs"
    "v = DimensionVector (sort_key (\<lambda>item. dimension_sort_key (fst item)) xs)"
    using assms by (auto simp: vector_from_mapping_def result_simps)
  have "distinct (map fst xs) \<and> (\<forall>(name, e) \<in> set xs. ascii_identifier name \<and> length name \<le> 64 \<and> e \<noteq> 0)"
    using xs(1) by (rule rfold_invariant) (simp, rule add_component_wf)
  then show ?thesis by (simp add: wf_vector_def xs(2) sorted_distinct_keys)
qed

lemma from_mapping_wf: "from_mapping py values = Inr v \<Longrightarrow> wf_vector v"
  unfolding from_mapping_def by (rule vector_from_mapping_wf)

lemma derived_exponent_unchanged: "bounded_derived_exponent py label r = Inr r' \<Longrightarrow> r' = r"
  by (auto simp: bounded_derived_exponent_def result_simps)

lemma derived_components:
  assumes "rfold (add_component (\<lambda>name. bounded_derived_exponent py (u ''derived dimension exponent for '' @ name)))
      (map (\<lambda>(name, exponent). (VStr name, exponent)) items) xs = Inr ys"
    and "distinct (map fst (xs @ items))" and "\<forall>k \<in> fst ` set items. ascii_identifier k"
  shows "dget ys n 0 = dget (xs @ items) n 0"
  using assms
proof (induction items arbitrary: xs)
  case (Cons item items)
  obtain name e where item: "item = (name, e)" by (cases item)
  obtain zs where zs: "add_component (\<lambda>name. bounded_derived_exponent py (u ''derived dimension exponent for '' @ name)) (VStr name, e) xs = Inr zs"
    and rest: "rfold (add_component (\<lambda>name. bounded_derived_exponent py (u ''derived dimension exponent for '' @ name)))
      (map (\<lambda>(name, exponent). (VStr name, exponent)) items) zs = Inr ys"
    using Cons.prems(1) by (auto simp: item result_simps)
  have z: "zs = (if e \<noteq> 0 then xs @ [(name, e)] else xs)"
    using zs Cons.prems(3)
    by (auto simp: item add_component_def result_simps dest!: canonical_of_identifier derived_exponent_unchanged)
  have "dget ys n 0 = dget (zs @ items) n 0"
    using Cons.IH [OF rest] Cons.prems(2,3) by (auto simp: z item split: if_splits)
  also have "\<dots> = dget (xs @ item # items) n 0"
  proof (cases "e = 0 \<and> n = name")
    case True
    then have "map_of xs n = None" "map_of items n = None"
      using Cons.prems(2) by (auto simp: item map_of_eq_None_iff)
    then show ?thesis using True by (simp add: z item dget_def map_add_def)
  next
    case False
    then show ?thesis by (auto simp: z item dget_def map_add_def split: option.splits)
  qed
  finally show ?case .
qed (simp add: dget_def)

lemma from_derived_wf: "from_derived_mapping py items = Inr v \<Longrightarrow> wf_vector v"
  unfolding from_derived_mapping_def by (rule vector_from_mapping_wf)

lemma from_derived_exponent:
  assumes "from_derived_mapping py items = Inr v" and "distinct (map fst items)"
    and "\<forall>k \<in> fst ` set items. ascii_identifier k"
  shows "vector_exponent v n = dget items n 0"
proof -
  obtain xs where xs: "rfold (add_component (\<lambda>name. bounded_derived_exponent py (u ''derived dimension exponent for '' @ name)))
      (map (\<lambda>(name, exponent). (VStr name, exponent)) items) [] = Inr xs"
    "v = DimensionVector (sort_key (\<lambda>item. dimension_sort_key (fst item)) xs)"
    using assms(1) by (auto simp: from_derived_mapping_def vector_from_mapping_def result_simps)
  have "wf_vector v" by (rule from_derived_wf [OF assms(1)])
  then have "distinct (map fst xs)" by (simp add: wf_vector_def xs(2) sorted_distinct_keys)
  then show ?thesis using derived_components [OF xs(1)] assms(2,3)
    by (simp add: vector_exponent_def xs(2) dict_simps)
qed

section \<open>The algebra of exponents\<close>

lemma combine_Nil [simp]: "combine xs [] = xs"
  by (simp add: combine_def)

lemma combine_Cons: "combine xs ((s, c) # ys) = combine (AList.update s (dget xs s 0 + c) xs) ys"
  by (simp add: combine_def)

lemma combine_keys: "fst ` set (combine xs ys) = fst ` set xs \<union> fst ` set ys"
proof (induction ys arbitrary: xs)
  case (Cons y ys)
  then show ?case by (cases y) (auto simp: combine_Cons dom_update)
qed simp

lemma combine_distinct: "distinct (map fst xs) \<Longrightarrow> distinct (map fst (combine xs ys))"
proof (induction ys arbitrary: xs)
  case (Cons y ys)
  then show ?case by (cases y) (simp add: combine_Cons distinct_update)
qed simp

lemma weighted_update:
  "distinct (map fst xs) \<Longrightarrow> weighted (AList.update s (dget xs s 0 + c) xs) g = weighted xs g + c * g s"
  by (induction xs) (auto simp: weighted_def dget_def algebra_simps split: prod.splits)

lemma weighted_Nil [simp]: "weighted [] g = 0"
  by (simp add: weighted_def)

lemma weighted_Cons: "weighted ((s, c) # xs) g = c * g s + weighted xs g"
  by (simp add: weighted_def)

lemma weighted_combine:
  "distinct (map fst xs) \<Longrightarrow> weighted (combine xs ys) g = weighted xs g + weighted ys g"
proof (induction ys arbitrary: xs)
  case (Cons y ys)
  then show ?case
    by (cases y) (simp add: combine_Cons distinct_update weighted_update weighted_Cons)
qed simp

lemma dget_combine:
  assumes "distinct (map fst xs)" and "distinct (map fst ys)"
  shows "dget (combine xs ys) n 0 = dget xs n 0 + dget ys n (0 :: rat)"
  using assms
proof (induction ys arbitrary: xs)
  case (Cons y ys)
  obtain s c where y: "y = (s, c)" by (cases y)
  have "dget ys s 0 = (0 :: rat)" using Cons.prems(2) by (auto simp: y dget_def map_of_eq_None_iff split: option.splits dest: map_of_SomeD intro: rev_image_eqI)
  then show ?case using Cons by (auto simp: y combine_Cons distinct_update dict_simps) (auto simp: dget_def)
qed (simp add: dget_def)

lemma weighted_mset: "mset xs = mset ys \<Longrightarrow> weighted xs g = weighted ys g"
  unfolding weighted_def by (simp flip: sum_mset_sum_list)

lemma weighted_filter [simp]: "weighted (filter (\<lambda>item. snd item \<noteq> 0) xs) g = weighted xs g"
  by (induction xs) (auto simp: weighted_Cons)

lemma weighted_scale: "weighted (map (\<lambda>(name, c). (name, c * r)) xs) g = r * weighted xs g"
  by (induction xs) (auto simp: weighted_Cons algebra_simps)

lemma bounded_coefficients: "rmap (bounded_coefficient py) xs = Inr ys \<Longrightarrow> ys = xs"
proof -
  have "bounded_coefficient py item = Inr item' \<Longrightarrow> item' = item" for item item'
    by (cases item) (auto simp: bounded_coefficient_def bounded_exponent_def result_simps)
  then show "rmap (bounded_coefficient py) xs = Inr ys \<Longrightarrow> ys = xs"
    by (induction xs arbitrary: ys) (auto simp: rbind_eq_Inr)
qed

lemma dget_map_scale: "dget (map (\<lambda>(name, c). (name, c * r)) xs) n 0 = dget xs n 0 * (r :: rat)"
  by (induction xs) (auto simp: dget_def)

lemma map_fst_scale [simp]: "map (fst \<circ> (\<lambda>(name, c). (name, c * r))) xs = map fst xs"
  by (induction xs) auto

lemma wf_vector_names: "wf_vector v \<Longrightarrow> distinct (map fst (components v)) \<and> (\<forall>k \<in> fst ` set (components v). ascii_identifier k)"
  by (auto simp: wf_vector_def)

lemma vector_add_sound:
  assumes "vector_add py v w = Inr x" and "wf_vector v" and "wf_vector w"
  shows "wf_vector x \<and> vector_exponent x n = vector_exponent v n + vector_exponent w n"
proof -
  have k: "\<forall>k \<in> fst ` set (combine (components v) (components w)). ascii_identifier k"
    using assms(2,3) wf_vector_names unfolding combine_keys by blast
  have "vector_exponent x n = dget (combine (components v) (components w)) n 0"
    using from_derived_exponent [OF assms(1) [unfolded vector_add_def] combine_distinct k] assms(2) wf_vector_names by blast
  also have "\<dots> = vector_exponent v n + vector_exponent w n"
    using dget_combine wf_vector_names assms(2,3) unfolding vector_exponent_def by blast
  finally show ?thesis using from_derived_wf assms(1) unfolding vector_add_def by blast
qed

lemma vector_scale_sound:
  assumes "vector_scale py v r = Inr x" and "wf_vector v"
  shows "wf_vector x \<and> vector_exponent x n = vector_exponent v n * r"
proof -
  let ?items = "map (\<lambda>(name, exponent). (name, exponent * r)) (components v)"
  have "fst ` set ?items = fst ` set (components v)" by (auto simp: image_image split_beta)
  then have k: "distinct (map fst ?items)" "\<forall>k \<in> fst ` set ?items. ascii_identifier k"
    using wf_vector_names [OF assms(2)] by simp_all
  show ?thesis using from_derived_exponent [OF assms(1) [unfolded vector_scale_def] k] from_derived_wf assms(1)
    unfolding vector_scale_def by (auto simp: vector_exponent_def dget_map_scale)
qed

lemma formula_add_sound:
  assumes "formula_add py f g = Inr h" and "wf_formula f" and "wf_formula g"
  shows "wf_formula h \<and> formula_exponent a h n = formula_exponent a f n + formula_exponent a g n"
proof -
  let ?c = "combine (coefficients f) (coefficients g)"
  obtain c xs where c: "vector_add py (formula_constant f) (formula_constant g) = Inr c"
    and xs: "rmap (bounded_coefficient py) (filter (\<lambda>item. snd item \<noteq> 0) ?c) = Inr xs"
    and h: "h = DimensionFormula c (sort_key fst xs)"
    using assms(1) by (auto simp: formula_add_def result_simps)
  have x: "xs = filter (\<lambda>item. snd item \<noteq> 0) ?c" by (rule bounded_coefficients [OF xs])
  have d: "distinct (map fst ?c)" using assms(2) combine_distinct by (auto simp: wf_formula_def)
  have "weighted (sort_key fst xs) g' = weighted (coefficients f) g' + weighted (coefficients g) g'" for g'
    using weighted_mset [of "sort_key fst xs" xs] weighted_combine assms(2) by (simp add: x wf_formula_def)
  moreover have "distinct (map fst xs)" unfolding x by (rule distinct_map_filter [OF d])
  ultimately show ?thesis using vector_add_sound [OF c, of n] assms(2,3)
    by (simp add: wf_formula_def h formula_exponent_def sorted_distinct_keys)
qed

lemma formula_scale_sound:
  assumes "formula_scale py f r = Inr h" and "wf_formula f"
  shows "wf_formula h \<and> formula_exponent a h n = formula_exponent a f n * r"
proof -
  let ?c = "map (\<lambda>(name, coefficient). (name, coefficient * r)) (coefficients f)"
  obtain c xs where c: "vector_scale py (formula_constant f) r = Inr c"
    and xs: "rmap (bounded_coefficient py) (filter (\<lambda>item. snd item \<noteq> 0) ?c) = Inr xs"
    and h: "h = DimensionFormula c xs"
    using assms(1) by (auto simp: formula_scale_def result_simps)
  have x: "xs = filter (\<lambda>item. snd item \<noteq> 0) ?c" by (rule bounded_coefficients [OF xs])
  have "distinct (map fst xs)" unfolding x by (rule distinct_map_filter) (use assms(2) in \<open>simp add: wf_formula_def\<close>)
  then show ?thesis using vector_scale_sound [OF c, of n] assms(2)
    by (simp add: wf_formula_def h formula_exponent_def x weighted_scale algebra_simps)
qed

lemma formula_sub_sound:
  assumes "formula_sub py f g = Inr h" and "wf_formula f" and "wf_formula g"
  shows "wf_formula h \<and> formula_exponent a h n = formula_exponent a f n - formula_exponent a g n"
proof -
  obtain g' where "formula_scale py g (- 1) = Inr g'" "formula_add py f g' = Inr h"
    using assms(1) by (auto simp: formula_sub_def result_simps)
  then show ?thesis using formula_scale_sound [of py g "- 1" g' a n] formula_add_sound [of py f g' h a n] assms(2,3) by simp
qed


section \<open>What an expression denotes, and changes of units\<close>

text \<open>The exact rational a constant expression denotes.\<close>

fun exact_value :: "pystr \<Rightarrow> pyast \<Rightarrow> rat option" where
  "exact_value source (EConst seg v) =
     (case v of
        VInt i \<Rightarrow> Some (of_int i)
      | VFloat _ \<Rightarrow> Option.bind (decimal_of_text ascii_digit (segment_of source seg)) dec_value
      | _ \<Rightarrow> None)"
| "exact_value source (EUnary op e) =
     (case op of UAdd \<Rightarrow> exact_value source e | USub \<Rightarrow> map_option uminus (exact_value source e) | UOther _ \<Rightarrow> None)"
| "exact_value source (EBin _ op l r) =
     (case (op, exact_value source l, exact_value source r) of
        (ODiv, Some x, Some y) \<Rightarrow> (if y = 0 then None else Some (x / y)) | _ \<Rightarrow> None)"
| "exact_value source _ = None"

text \<open>A power with a rational exponent, over the reals: undefined at zero with a negative exponent and for a
  fractional power of a negative number.\<close>

definition real_power :: "real \<Rightarrow> rat \<Rightarrow> real option" where
  "real_power x q =
     (if 0 < x then Some (x powr of_rat q)
      else if q \<in> \<int> then (if x = 0 \<and> q < 0 then None else Some (x powi \<lfloor>q\<rfloor>))
      else if x = 0 \<and> 0 < q then Some 0 else None)"

text \<open>\<open>fn\<close> gives the functions that need a dimensionless argument; they may be undefined.\<close>

fun quantity :: "(pystr \<Rightarrow> real \<Rightarrow> real option) \<Rightarrow> pystr \<Rightarrow> (pystr \<Rightarrow> real) \<Rightarrow> pyast \<Rightarrow> real option" where
  "quantity fn source env (EConst seg v) = map_option of_rat (exact_value source (EConst seg v))"
| "quantity fn source env (EName x) = Some (env x)"
| "quantity fn source env (EUnary op e) =
     (case op of
        UAdd \<Rightarrow> quantity fn source env e
      | USub \<Rightarrow> map_option uminus (quantity fn source env e)
      | UOther _ \<Rightarrow> None)"
| "quantity fn source env (EBin _ op l r) =
     (if op = OPow then
        Option.bind (quantity fn source env l) (\<lambda>x. Option.bind (exact_value source r) (real_power x))
      else
        Option.bind (quantity fn source env l) (\<lambda>x. Option.bind (quantity fn source env r) (\<lambda>y.
          case op of
            OAdd \<Rightarrow> Some (x + y) | OSub \<Rightarrow> Some (x - y) | OMult \<Rightarrow> Some (x * y)
          | ODiv \<Rightarrow> (if y = 0 then None else Some (x / y)) | _ \<Rightarrow> None)))"
| "quantity fn source env (ECall _ func args kws) =
     (case (func, args, kws) of
        (EName f, [a], []) \<Rightarrow>
          Option.bind (quantity fn source env a) (\<lambda>x.
            if f = u ''abs'' then Some \<bar>x\<bar> else if f = u ''sqrt'' then real_power x (1/2) else fn f x)
      | _ \<Rightarrow> None)"
| "quantity fn source env (EOther _ _) = None"

text \<open>
  A change of units multiplies the unit of each dimension by a positive number. A quantity whose dimension
  has the exponents \<open>d\<close> is then multiplied by \<open>unit_factor k d\<close>.
\<close>

definition unit_factor :: "(pystr \<Rightarrow> real) \<Rightarrow> pystr set \<Rightarrow> (pystr \<Rightarrow> rat) \<Rightarrow> real" where
  "unit_factor k N d = (\<Prod>n\<in>N. k n powr of_rat (d n))"

definition unit_change :: "(pystr \<Rightarrow> real) \<Rightarrow> bool" where
  "unit_change k \<longleftrightarrow> (\<forall>n. 0 < k n)"

lemma unit_factor_pos: "unit_change k \<Longrightarrow> 0 < unit_factor k N d"
  unfolding unit_factor_def unit_change_def by (intro prod_pos) (simp add: less_imp_neq [symmetric])

lemma unit_factor_zero: "unit_change k \<Longrightarrow> (\<And>n. d n = 0) \<Longrightarrow> unit_factor k N d = 1"
  unfolding unit_factor_def unit_change_def by (intro prod.neutral) (simp add: less_imp_neq [symmetric])

lemma unit_factor_add:
  "unit_change k \<Longrightarrow> (\<And>n. d n = a n + b n) \<Longrightarrow> unit_factor k N d = unit_factor k N a * unit_factor k N b"
  unfolding unit_factor_def unit_change_def by (simp add: of_rat_add powr_add prod.distrib)

lemma unit_factor_sub:
  "unit_change k \<Longrightarrow> (\<And>n. d n = a n - b n) \<Longrightarrow> unit_factor k N d = unit_factor k N a / unit_factor k N b"
  unfolding unit_factor_def unit_change_def by (simp add: of_rat_diff powr_diff prod_dividef)

lemma unit_factor_scale:
  assumes "unit_change k" and "\<And>n. d n = a n * r"
  shows "unit_factor k N d = unit_factor k N a powr of_rat r"
proof -
  have "unit_factor k N d = (\<Prod>n\<in>N. (k n powr of_rat (a n)) powr of_rat r)"
    unfolding unit_factor_def by (simp add: assms(2) of_rat_mult powr_powr)
  also have "\<dots> = unit_factor k N a powr of_rat r"
    unfolding unit_factor_def by (rule prod_powr_distrib [symmetric])
  finally show ?thesis .
qed

lemma real_power_scale:
  assumes "0 < c"
  shows "real_power (c * x) q = map_option (\<lambda>y. c powr of_rat q * y) (real_power x q)"
proof (cases "0 < x")
  case True
  then show ?thesis using assms by (simp add: real_power_def powr_mult)
next
  case False
  then have neg: "\<not> 0 < c * x" using assms by (simp add: zero_less_mult_iff)
  have z: "c * x = 0 \<longleftrightarrow> x = 0" using assms by simp
  show ?thesis
  proof (cases "q \<in> \<int>")
    case True
    then obtain i where i: "q = of_int i" by (elim Ints_cases)
    have "(c * x) powi i = c powr of_int i * x powi i"
      using assms by (simp add: power_int_mult_distrib powr_real_of_int')
    then show ?thesis using False neg z by (simp add: real_power_def i)
  next
    case ints: False
    then show ?thesis using False neg z by (simp add: real_power_def)
  qed
qed

lemma literal_fraction_exact: "literal_fraction source e = Inr q \<Longrightarrow> exact_value source e = Some q"
proof (induction source e arbitrary: q rule: literal_fraction.induct)
  case (1 source seg v)
  then show ?case
    by (auto simp: result_simps bounded_literal_def decimal_fraction_def split: pyval.splits option.splits decimal.splits)
next
  case (2 source unop e)
  then show ?case by (cases unop) (auto simp: result_simps bounded_literal_def)
next
  case (3 source seg op l r)
  then obtain n d where "op = ODiv" "literal_fraction source l = Inr n" "literal_fraction source r = Inr d" "d \<noteq> 0" "q = n / d"
    by (cases op) (auto simp: result_simps bounded_literal_def)
  then show ?case using 3(1) [of n] 3(2) [of n d] by simp
qed (simp_all)


section \<open>Soundness of the analyzer\<close>

definition wf_bindings :: "(pystr \<times> dimension_formula) list \<Rightarrow> bool" where
  "wf_bindings bindings \<longleftrightarrow> (\<forall>(x, f) \<in> set bindings. wf_formula f)"

definition wf_constraint :: "dimension_constraint \<Rightarrow> bool" where
  "wf_constraint c \<longleftrightarrow> wf_formula (left_side c) \<and> wf_formula (right_side c)"

lemma wf_dimensionless [simp]: "wf_formula (known dimensionless)"
  by (simp add: known_def dimensionless_def wf_formula_def wf_vector_def)

lemma exponent_dimensionless [simp]: "formula_exponent a (known dimensionless) n = 0"
  by (simp add: known_def dimensionless_def formula_exponent_def vector_exponent_def dget_def)

lemma add_constraint_Inr: "add_constraint c cs = Inr cs' \<longleftrightarrow> length cs < MAX_DIMENSION_CONSTRAINTS \<and> cs' = cs @ [c]"
  by (auto simp: add_constraint_def demand_eq_Inr)

lemma constraint_sides [simp]:
  "left_side (additive_constraint t l r) = l" "right_side (additive_constraint t l r) = r"
  "left_side (argument_constraint t f l) = l" "right_side (argument_constraint t f l) = known dimensionless"
  "left_side (equation_constraint t l r) = l" "right_side (equation_constraint t l r) = r"
  by (simp_all add: additive_constraint_def argument_constraint_def equation_constraint_def)

lemma visit_call_Inr:
  assumes "visit_dimension py bindings source (ECall seg func args kws) cs = Inr (f, cs')"
  shows "\<exists>fname arg g csa. func = EName fname \<and> args = [arg] \<and> kws = [] \<and> fname \<in> set SUPPORTED_FUNCTIONS
    \<and> visit_dimension py bindings source arg cs = Inr (g, csa)
    \<and> (if fname = u ''abs'' then f = g \<and> cs' = csa
       else if fname = u ''sqrt'' then formula_scale py g (1/2) = Inr f \<and> cs' = csa
       else add_constraint (argument_constraint (segment_of source seg) fname g) csa = Inr cs' \<and> f = known dimensionless)"
proof -
  obtain fname where f: "func = EName fname" using assms by (cases func) simp_all
  have sup: "fname \<in> set SUPPORTED_FUNCTIONS" using assms by (simp add: f demand_eq_Inr)
  moreover obtain arg where "args = [arg]" "kws = []"
    using assms sup by (auto simp: f split: list.splits)
  ultimately show ?thesis using assms by (auto simp: f result_simps split: if_splits)
qed

text \<open>
  What holds of the dimensionless formula and is kept by sums, differences and multiples holds of every
  formula the visitor computes and of both sides of its constraints.
\<close>

locale closed_formulas =
  fixes P :: "dimension_formula \<Rightarrow> bool" and py :: interp
  assumes unit_formula: "P (known dimensionless)"
    and added: "formula_add py f g = Inr h \<Longrightarrow> P f \<Longrightarrow> P g \<Longrightarrow> P h"
    and subtracted: "formula_sub py f g = Inr h \<Longrightarrow> P f \<Longrightarrow> P g \<Longrightarrow> P h"
    and scaled: "formula_scale py f r = Inr h \<Longrightarrow> P f \<Longrightarrow> P h"
begin

definition both_sides :: "dimension_constraint \<Rightarrow> bool" where
  "both_sides c \<longleftrightarrow> P (left_side c) \<and> P (right_side c)"

lemma visit_closed:
  assumes "visit_dimension py bindings source e cs = Inr (f, cs')" and "\<forall>(x, f) \<in> set bindings. P f"
  shows "P f \<and> (\<exists>new. cs' = cs @ new \<and> list_all both_sides new)"
  using assms(1)
proof (induction py\<equiv>py bindings\<equiv>bindings source e cs arbitrary: f cs' rule: visit_dimension.induct)
  case (1 source seg v cs)
  then show ?case using unit_formula by (auto simp: result_simps constant_dimension_def split: pyval.splits)
next
  case (2 source x cs)
  then show ?case using assms(2) by (auto split: option.splits dest!: map_of_SomeD)
next
  case (3 source op e cs)
  then show ?case by (cases op) auto
next
  case (4 source seg op l r cs)
  show ?case
  proof (cases "op = OPow")
    case True
    then show ?thesis using 4(1,4) scaled by (fastforce simp: result_simps)
  next
    case False
    then obtain fl csl fr csr where l: "visit_dimension py bindings source l cs = Inr (fl, csl)"
      and r: "visit_dimension py bindings source r csl = Inr (fr, csr)"
      using 4(4) by (auto simp: result_simps)
    from 4(2) [OF False l] obtain nl where nl: "P fl" "csl = cs @ nl" "list_all both_sides nl" by blast
    from 4(3) [OF False l refl r] obtain nr where nr: "P fr" "csr = csl @ nr" "list_all both_sides nr" by blast
    show ?thesis using 4(4) False l r nl nr added subtracted
      by (auto simp: result_simps add_constraint_Inr both_sides_def split: if_splits)
  qed
next
  case (5 source seg func args kws cs)
  obtain fname arg g csa where c: "func = EName fname" "args = [arg]" "kws = []" "fname \<in> set SUPPORTED_FUNCTIONS"
    and g: "visit_dimension py bindings source arg cs = Inr (g, csa)"
    and f: "if fname = u ''abs'' then f = g \<and> cs' = csa
       else if fname = u ''sqrt'' then formula_scale py g (1/2) = Inr f \<and> cs' = csa
       else add_constraint (argument_constraint (segment_of source seg) fname g) csa = Inr cs' \<and> f = known dimensionless"
    using visit_call_Inr [OF 5(2)] by blast
  have "P g \<and> (\<exists>new. csa = cs @ new \<and> list_all both_sides new)"
    using 5(1) c g by simp
  then show ?case using f scaled unit_formula by (auto simp: add_constraint_Inr both_sides_def split: if_splits)
next
  case (6 source t n cs)
  then show ?case by simp
qed

end

interpretation well_formed: closed_formulas wf_formula py for py
  by unfold_locales (simp_all add: formula_add_sound formula_sub_sound formula_scale_sound)

lemma visit_dimension_wf:
  assumes "visit_dimension py bindings source e cs = Inr (f, cs')" and "wf_bindings bindings"
  shows "wf_formula f \<and> (\<exists>new. cs' = cs @ new \<and> list_all wf_constraint new)"
  using well_formed.visit_closed [OF assms(1)] assms(2)
  by (auto simp: wf_bindings_def list_all_iff well_formed.both_sides_def wf_constraint_def)

text \<open>A constraint holds when its sides have the same dimension; \<open>rescaled\<close> are the values after a change of units.\<close>

definition satisfied :: "(pystr \<Rightarrow> pystr \<Rightarrow> rat) \<Rightarrow> dimension_constraint \<Rightarrow> bool" where
  "satisfied a c \<longleftrightarrow> (\<forall>n. formula_exponent a (left_side c) n = formula_exponent a (right_side c) n)"

definition formula_factor :: "(pystr \<Rightarrow> real) \<Rightarrow> pystr set \<Rightarrow> (pystr \<Rightarrow> pystr \<Rightarrow> rat) \<Rightarrow> dimension_formula \<Rightarrow> real" where
  "formula_factor k N a f = unit_factor k N (formula_exponent a f)"

definition rescaled ::
  "(pystr \<Rightarrow> real) \<Rightarrow> pystr set \<Rightarrow> (pystr \<Rightarrow> pystr \<Rightarrow> rat) \<Rightarrow> (pystr \<times> dimension_formula) list \<Rightarrow> (pystr \<Rightarrow> real)
    \<Rightarrow> pystr \<Rightarrow> real" where
  "rescaled k N a bindings env x =
     (case map_of bindings x of None \<Rightarrow> env x | Some f \<Rightarrow> formula_factor k N a f * env x)"

lemma satisfied_factor: "satisfied a c \<Longrightarrow> formula_factor k N a (left_side c) = formula_factor k N a (right_side c)"
  by (simp add: satisfied_def formula_factor_def unit_factor_def)

lemma factor_dimensionless [simp]: "unit_change k \<Longrightarrow> formula_factor k N a (known dimensionless) = 1"
  by (simp add: formula_factor_def unit_factor_zero)

lemma factor_pos: "unit_change k \<Longrightarrow> 0 < formula_factor k N a f"
  by (simp add: formula_factor_def unit_factor_pos)

lemma factor_add:
  "unit_change k \<Longrightarrow> formula_add py f g = Inr h \<Longrightarrow> wf_formula f \<Longrightarrow> wf_formula g
    \<Longrightarrow> formula_factor k N a h = formula_factor k N a f * formula_factor k N a g"
  unfolding formula_factor_def by (rule unit_factor_add) (use formula_add_sound in blast)+

lemma factor_sub:
  "unit_change k \<Longrightarrow> formula_sub py f g = Inr h \<Longrightarrow> wf_formula f \<Longrightarrow> wf_formula g
    \<Longrightarrow> formula_factor k N a h = formula_factor k N a f / formula_factor k N a g"
  unfolding formula_factor_def by (rule unit_factor_sub) (use formula_sub_sound in blast)+

lemma factor_scale:
  "unit_change k \<Longrightarrow> formula_scale py f r = Inr h \<Longrightarrow> wf_formula f
    \<Longrightarrow> formula_factor k N a h = formula_factor k N a f powr of_rat r"
  unfolding formula_factor_def by (rule unit_factor_scale) (use formula_scale_sound in blast)+

lemma map_option_one [simp]: "map_option ((*) (1 :: real)) x = x"
  by (cases x) auto

lemma visit_dimension_sound:
  assumes "visit_dimension py bindings source e cs = Inr (f, cs')" and "wf_bindings bindings" and "unit_change k"
    and "\<forall>c \<in> set cs'. satisfied a c"
  shows "quantity fn source (rescaled k N a bindings env) e
    = map_option (\<lambda>y. formula_factor k N a f * y) (quantity fn source env e)"
  using assms(1,4)
proof (induction py bindings\<equiv>bindings source e cs arbitrary: f cs' rule: visit_dimension.induct)
  case (1 py source seg v cs)
  then have "f = known dimensionless" by (auto simp: result_simps constant_dimension_def split: pyval.splits)
  then show ?case using assms(3) by (simp add: option.map_comp comp_def)
next
  case (2 py source x cs)
  then show ?case by (auto simp: rescaled_def split: option.splits)
next
  case (3 py source op e cs)
  then show ?case by (cases op) (auto simp: option.map_comp comp_def)
next
  case (4 py source seg op l r cs)
  show ?case
  proof (cases "op = OPow")
    case True
    then obtain base csl q where l: "visit_dimension py bindings source l cs = Inr (base, csl)"
      and q: "literal_fraction source r = Inr q" and f: "formula_scale py base q = Inr f" "cs' = csl"
      using 4(4) by (auto simp: result_simps)
    have wf: "wf_formula base" using visit_dimension_wf [OF l assms(2)] by blast
    have "quantity fn source (rescaled k N a bindings env) l = map_option (\<lambda>y. formula_factor k N a base * y) (quantity fn source env l)"
      using 4(1) [OF True l] 4(5) f by blast
    then show ?thesis using True factor_scale [OF assms(3) f(1) wf] factor_pos [OF assms(3), of N a base]
      by (cases "quantity fn source env l") (simp_all add: literal_fraction_exact [OF q] real_power_scale)
  next
    case False
    then obtain fl csl fr csr where l: "visit_dimension py bindings source l cs = Inr (fl, csl)"
      and r: "visit_dimension py bindings source r csl = Inr (fr, csr)"
      using 4(4) by (auto simp: result_simps)
    obtain nl nr where wf: "wf_formula fl" "wf_formula fr" and new: "csl = cs @ nl" "csr = csl @ nr"
      using visit_dimension_wf [OF l assms(2)] visit_dimension_wf [OF r assms(2)] by blast
    have sub: "set csr \<subseteq> set cs'"
      using 4(4) False l r by (auto simp: result_simps add_constraint_Inr split: if_splits)
    have ql: "quantity fn source (rescaled k N a bindings env) l = map_option (\<lambda>y. formula_factor k N a fl * y) (quantity fn source env l)"
      using 4(2) [OF False l] 4(5) sub new(2) by auto
    have qr: "quantity fn source (rescaled k N a bindings env) r = map_option (\<lambda>y. formula_factor k N a fr * y) (quantity fn source env r)"
      using 4(3) [OF False l refl r] 4(5) sub by auto
    show ?thesis
    proof (cases "op = OAdd \<or> op = OSub")
      case True
      then have "f = fl" "additive_constraint (segment_of source seg) fl fr \<in> set cs'"
        using 4(4) False l r by (auto simp: result_simps add_constraint_Inr)
      then have "formula_factor k N a fr = formula_factor k N a f"
        using 4(5) satisfied_factor [of a "additive_constraint (segment_of source seg) fl fr"] \<open>f = fl\<close> by simp
      then show ?thesis using True ql qr \<open>f = fl\<close>
        by (cases "quantity fn source env l"; cases "quantity fn source env r") (auto simp: algebra_simps)
    next
      case other: False
      then consider "op = OMult" "formula_add py fl fr = Inr f" | "op = ODiv" "formula_sub py fl fr = Inr f"
        using 4(4) False l r by (auto simp: result_simps split: if_splits)
      then show ?thesis
      proof cases
        case 1
        then show ?thesis using ql qr factor_add [OF assms(3) 1(2) wf]
          by (cases "quantity fn source env l"; cases "quantity fn source env r") auto
      next
        case 2
        then show ?thesis using ql qr factor_sub [OF assms(3) 2(2) wf] factor_pos [OF assms(3), of N a fr]
          by (cases "quantity fn source env l"; cases "quantity fn source env r") auto
      qed
    qed
  qed
next
  case (5 py source seg func args kws cs)
  obtain fname arg g csa where c: "func = EName fname" "args = [arg]" "kws = []" "fname \<in> set SUPPORTED_FUNCTIONS"
    and g: "visit_dimension py bindings source arg cs = Inr (g, csa)"
    and f: "if fname = u ''abs'' then f = g \<and> cs' = csa
       else if fname = u ''sqrt'' then formula_scale py g (1/2) = Inr f \<and> cs' = csa
       else add_constraint (argument_constraint (segment_of source seg) fname g) csa = Inr cs' \<and> f = known dimensionless"
    using visit_call_Inr [OF 5(2)] by blast
  have wf: "wf_formula g" using visit_dimension_wf [OF g assms(2)] by blast
  have sat: "\<forall>c \<in> set csa. satisfied a c" using f 5(3) by (auto simp: add_constraint_Inr split: if_splits)
  have q: "quantity fn source (rescaled k N a bindings env) arg = map_option (\<lambda>y. formula_factor k N a g * y) (quantity fn source env arg)"
    using 5(1) c g sat by simp
  consider "fname = u ''abs''" | "fname = u ''sqrt''"
    | "fname \<noteq> u ''abs''" "fname \<noteq> u ''sqrt''" by blast
  then show ?case
  proof cases
    case 1
    then show ?thesis using f q c factor_pos [OF assms(3), of N a g]
      by (cases "quantity fn source env arg") (auto simp: abs_mult)
  next
    case 2
    then show ?thesis using f q c factor_scale [OF assms(3) _ wf] factor_pos [OF assms(3), of N a g]
      by (cases "quantity fn source env arg") (auto simp: real_power_scale)
  next
    case 3
    then have "argument_constraint (segment_of source seg) fname g \<in> set cs'" "f = known dimensionless"
      using f by (auto simp: add_constraint_Inr)
    moreover from this have "formula_factor k N a g = 1"
      using 5(3) satisfied_factor [of a "argument_constraint (segment_of source seg) fname g" k N] assms(3) by simp
    ultimately show ?thesis using 3 q c assms(3)
      by (cases "quantity fn source env arg") auto
  qed
next
  case (6 py source t n cs)
  then show ?case by simp
qed

end
