(* ===== verification/Dimension_Analysis.thy ===== *)
theory Dimension_Analysis
  imports Dimension_Soundness
begin

text \<open>
  The operations on dimensions (\<^verbatim>\<open>operations/dimension.py\<close>): checking an equation, inferring unknown
  dimensions from equations, and dimensionless groups. The unit registry and the rational linear
  algebra (rank, null space, solutions) belong to third-party packages and are parameters; what the
  theorems rely on is stated as their documented laws.
\<close>

section \<open>Declarations\<close>

definition MAX_SYMBOLS :: nat where "MAX_SYMBOLS = 64"
definition MAX_UNKNOWNS :: nat where "MAX_UNKNOWNS = 16"
definition MAX_EQUATIONS :: nat where "MAX_EQUATIONS = 32"
definition MAX_PI_VARIABLES :: nat where "MAX_PI_VARIABLES = 16"

text \<open>
  The two libraries behind the operations. \<open>dimensionality\<close> parses a unit expression and gives its
  dimensions; an exception of a subclass of a caught class carries the name of that class. The linear
  algebra is over rational matrices, given by their rows: an entry of a solution is a rational, an
  expression in free parameters, or some other number.
\<close>

datatype solution_entry = SRational rat | SParametric | SOther

record engines =
  dimensionality :: "pystr \<Rightarrow> pyexn + (pystr \<times> exponent) list"
  matrix_rank :: "rat list list \<Rightarrow> nat"
  matrix_nullspace :: "nat \<Rightarrow> rat list list \<Rightarrow> rat list list"
  linear_solve :: "rat list list \<Rightarrow> rat list \<Rightarrow> solution_entry list option"

definition UNIT_ERRORS :: "pystr list" where "UNIT_ERRORS = [u ''PintError'', u ''TypeError'', u ''ValueError'']"

definition unit_error :: "pystr \<Rightarrow> pyexn \<Rightarrow> pyexn" where
  "unit_error label e =
     (case e of
        PyExn cls message \<Rightarrow>
          if cls \<in> set UNIT_ERRORS
          then calc ''E_UNIT'' (u ''invalid unit declaration for '' @ label @ u '': '' @ message) else e
      | _ \<Rightarrow> e)"

definition dimension_declaration :: "interp \<Rightarrow> engines \<Rightarrow> pyval \<Rightarrow> pystr \<Rightarrow> pyexn + dimension_vector" where
  "dimension_declaration py eng value label =
     (case value of
        VStr s \<Rightarrow>
          (let unit_expression = strip s in
           demand (unit_expression \<noteq> []) (calc ''E_INPUT'' (label @ u '' must not be empty''))
           (demand (length unit_expression \<le> 128) (calc ''E_LIMIT'' (label @ u '' is too long''))
           (case rbind (dimensionality eng (normalize_dimension_source unit_expression))
                   (\<lambda>d. from_mapping py (map (\<lambda>(name, x). (VStr name, x)) d)) of
              Inr v \<Rightarrow> Inr v
            | Inl e \<Rightarrow> Inl (unit_error label e))))
      | VDict d \<Rightarrow> from_mapping py (map (\<lambda>(name, x). (VStr name, Given x)) d)
      | _ \<Rightarrow> Inl (calc ''E_INPUT'' (label @ u '' must be a unit-expression string or a dimension-vector object'')))"

text \<open>\<^verbatim>\<open>DIMENSION_SYMBOL_PATTERN\<close>: an ASCII identifier that is no keyword.\<close>

definition PYTHON_KEYWORDS :: "pystr list" where
  "PYTHON_KEYWORDS = map u
     [''False'', ''None'', ''True'', ''and'', ''as'', ''assert'', ''async'', ''await'', ''break'', ''class'', ''continue'',
      ''def'', ''del'', ''elif'', ''else'', ''except'', ''finally'', ''for'', ''from'', ''global'', ''if'', ''import'', ''in'',
      ''is'', ''lambda'', ''nonlocal'', ''not'', ''or'', ''pass'', ''raise'', ''return'', ''try'', ''while'', ''with'', ''yield'']"

definition validate_identifier :: "pyval \<Rightarrow> pystr \<Rightarrow> pyexn + pystr" where
  "validate_identifier value label =
     (case value of
        VStr s \<Rightarrow>
          demand (s = strip s \<and> ascii_identifier s \<and> s \<notin> set PYTHON_KEYWORDS)
            (calc ''E_INPUT'' (label @ u '' must be a valid identifier''))
            (demand (length s \<le> 64) (calc ''E_LIMIT'' (label @ u '' may not exceed 64 characters'')) (Inr s))
      | _ \<Rightarrow> Inl (calc ''E_INPUT'' (label @ u '' must be a valid identifier'')))"

definition dimension_declarations ::
  "interp \<Rightarrow> engines \<Rightarrow> pydict \<Rightarrow> pystr \<Rightarrow> nat \<Rightarrow> pyval \<Rightarrow> pyexn + (pystr \<times> dimension_vector) list" where
  "dimension_declarations py eng arguments name maximum dflt =
     (case dget arguments name dflt of
        VDict value \<Rightarrow>
          demand (length value \<le> maximum)
            (calc ''E_LIMIT'' (name @ u '' may contain at most '' @ int_text (int maximum) @ u '' symbols''))
            (rmap (\<lambda>(symbol, declaration).
               rbind (validate_identifier (VStr symbol) (name @ u '' symbol'')) (\<lambda>_.
               rbind (dimension_declaration py eng declaration (name @ u ''.'' @ symbol)) (\<lambda>d. Inr (symbol, d)))) value)
      | _ \<Rightarrow> Inl (calc ''E_INPUT'' (name @ u '' must be an object'')))"

section \<open>\<^verbatim>\<open>dimension.check\<close>\<close>

definition equation_text :: "pystr \<Rightarrow> pystr \<Rightarrow> pystr" where
  "equation_text l r = normalize_dimension_source l @ u '' = '' @ normalize_dimension_source r"

definition optional :: "('a \<Rightarrow> pyexn + pyval) \<Rightarrow> 'a option \<Rightarrow> pyexn + pyval" where
  "optional f x = (case x of None \<Rightarrow> Inr VNone | Some y \<Rightarrow> f y)"

text \<open>What \<^verbatim>\<open>check\<close> finds: the dimensions of the two sides and the issues of each part.\<close>

record check_outcome =
  left_formula :: dimension_formula
  right_formula :: dimension_formula
  left_issues :: "pydict list"
  right_issues :: "pydict list"
  equation_issues :: "pydict list"

definition check_expressions ::
  "interp \<Rightarrow> (pystr \<Rightarrow> pyexn + pyast) \<Rightarrow> (pystr \<times> dimension_vector) list \<Rightarrow> pystr \<Rightarrow> pystr \<Rightarrow> pyexn + check_outcome" where
  "check_expressions py ast_parse dimensions left_expression right_expression =
     rbind (analyze py ast_parse left_expression (new_analyzer (map (\<lambda>(s, d). (s, known d)) dimensions) 512)) (\<lambda>(left, a1).
     rbind (concrete_issues py (generated a1)) (\<lambda>li.
     rbind (analyze py ast_parse right_expression a1) (\<lambda>(right, a2).
     rbind (concrete_issues py (drop (length (generated a1)) (generated a2))) (\<lambda>ri.
     rbind
       (if li = [] \<and> ri = [] then
          rbind (add_equation left right (equation_text left_expression right_expression) a2) (\<lambda>a3.
            concrete_issues py (drop (length (generated a2)) (generated a3)))
        else Inr []) (\<lambda>ei.
     Inr \<lparr>left_formula = left, right_formula = right, left_issues = li, right_issues = ri, equation_issues = ei\<rparr>)))))"

definition check :: "interp \<Rightarrow> (pystr \<Rightarrow> pyexn + pyast) \<Rightarrow> engines \<Rightarrow> pydict \<Rightarrow> pyexn + pydict" where
  "check py ast_parse eng arguments =
     rbind (string_arg arguments (u ''left'') VNone 2048) (\<lambda>left_expression.
     rbind (string_arg arguments (u ''right'') VNone 2048) (\<lambda>right_expression.
     rbind (dimension_declarations py eng arguments (u ''symbols'') MAX_SYMBOLS VNone) (\<lambda>dimensions.
     rbind (check_expressions py ast_parse dimensions left_expression right_expression) (\<lambda>outcome.
     (let issues = left_issues outcome @ right_issues outcome @ equation_issues outcome;
          left_dimension = (if left_issues outcome = [] then Some (formula_constant (left_formula outcome)) else None);
          right_dimension = (if right_issues outcome = [] then Some (formula_constant (right_formula outcome)) else None);
          json = optional (\<lambda>v. rbind (vector_to_json py v) (\<lambda>d. Inr (VDict d)));
          display = optional (\<lambda>v. rbind (vector_display py v) (\<lambda>t. Inr (VStr t)))
      in rbind (json left_dimension) (\<lambda>lj.
         rbind (json right_dimension) (\<lambda>rj.
         rbind (display left_dimension) (\<lambda>ld.
         rbind (display right_dimension) (\<lambda>rd.
         Inr [(u ''status'', VStr (u ''ok'')), (u ''operation'', VStr (u ''dimension.check'')),
              (u ''kind'', VStr (u ''dimensional_analysis'')), (u ''scope'', VStr (u ''dimensional_consistency_only'')),
              (u ''dimensionallyConsistent'', VBool (issues = [])),
              (u ''leftExpression'', VStr left_expression), (u ''rightExpression'', VStr right_expression),
              (u ''leftDimension'', lj), (u ''rightDimension'', rj), (u ''leftDisplay'', ld), (u ''rightDisplay'', rd),
              (u ''issues'', VList (map VDict issues)), (u ''warnings'', VList [])])))))))))"

section \<open>\<^verbatim>\<open>dimension.infer\<close>\<close>

definition unknown_symbols :: "pydict \<Rightarrow> pyexn + pystr list" where
  "unknown_symbols arguments =
     rbind (list_arg arguments (u ''unknown'') 1 MAX_UNKNOWNS) (\<lambda>values.
     rbind (rmap (\<lambda>(index, value). validate_identifier value (u ''unknown['' @ int_text (int index) @ u '']''))
              (enumerate 0 values)) (\<lambda>normalized.
     demand (distinct normalized) (calc ''E_INPUT'' (u ''unknown symbols must not contain duplicates'')) (Inr normalized)))"

definition bounded_expression_field :: "pydict \<Rightarrow> pystr \<Rightarrow> nat \<Rightarrow> pyexn + pystr" where
  "bounded_expression_field equation name index =
     (let field = u ''equations['' @ int_text (int index) @ u ''].'' @ name in
      case dget_none equation name of
        VStr s \<Rightarrow>
          demand (strip s \<noteq> []) (calc ''E_INPUT'' (field @ u '' must not be empty''))
            (demand (length (strip s) \<le> 2048) (calc ''E_LIMIT'' (field @ u '' is too long'')) (Inr (strip s)))
      | _ \<Rightarrow> Inl (calc ''E_INPUT'' (field @ u '' must be a string'')))"

definition infer_equation ::
  "interp \<Rightarrow> (pystr \<Rightarrow> pyexn + pyast) \<Rightarrow> nat \<times> pyval \<Rightarrow> dimension_analyzer \<Rightarrow> pyexn + dimension_analyzer" where
  "infer_equation py ast_parse item a =
     (case item of (index, equation) \<Rightarrow>
        case equation of
          VDict d \<Rightarrow>
            rbind (bounded_expression_field d (u ''left'') index) (\<lambda>left_expression.
            rbind (bounded_expression_field d (u ''right'') index) (\<lambda>right_expression.
            rbind (analyze py ast_parse left_expression a) (\<lambda>(left, a).
            rbind (analyze py ast_parse right_expression a) (\<lambda>(right, a).
              add_equation left right (equation_text left_expression right_expression) a))))
        | _ \<Rightarrow> Inl (calc ''E_INPUT'' (u ''equations['' @ int_text (int index) @ u ''] must be an object'')))"

text \<open>The linear system of the exponents: a row per constraint, a right side per base dimension.\<close>

definition coefficient_matrix :: "pystr list \<Rightarrow> dimension_formula list \<Rightarrow> rat list list" where
  "coefficient_matrix unknowns differences = map (\<lambda>f. map (\<lambda>s. dget (coefficients f) s 0) unknowns) differences"

definition base_dimensions :: "dimension_formula list \<Rightarrow> pystr list" where
  "base_dimensions differences = sort (remdups (concat (map (\<lambda>f. map fst (components (formula_constant f))) differences)))"

definition right_sides :: "dimension_formula list \<Rightarrow> pystr \<Rightarrow> rat list" where
  "right_sides differences name = map (\<lambda>f. - dget (components (formula_constant f)) name 0) differences"

definition row_join :: "rat list list \<Rightarrow> rat list \<Rightarrow> rat list list" where
  "row_join matrix column = map (\<lambda>(row, x). row @ [x]) (zip matrix column)"

definition resolved_value :: "solution_entry \<Rightarrow> pyexn + rat" where
  "resolved_value entry =
     (case entry of
        SRational r \<Rightarrow> Inr r
      | SParametric \<Rightarrow>
          Inl (calc ''E_RUNTIME'' (u ''dimension solver left a resolved symbol dependent on a free parameter''))
      | SOther \<Rightarrow> Inl (calc ''E_RUNTIME'' (u ''dimension solver returned a non-rational exponent'')))"

definition solve_dimension ::
  "engines \<Rightarrow> pystr list \<Rightarrow> dimension_formula list \<Rightarrow> nat list \<Rightarrow> pystr \<Rightarrow> pyexn + (pystr \<times> (nat \<times> rat) list)" where
  "solve_dimension eng unknowns differences resolved name =
     (case linear_solve eng (coefficient_matrix unknowns differences) (right_sides differences name) of
        None \<Rightarrow> Inl (calc ''E_RUNTIME'' (u ''dimension solver lost a consistent solution''))
      | Some solution \<Rightarrow>
          demand (length solution = length unknowns)
            (calc ''E_RUNTIME'' (u ''dimension solver returned the wrong shape''))
            (rbind (rmap (\<lambda>index. rbind (resolved_value (solution ! index)) (\<lambda>r. Inr (index, r))) resolved) (\<lambda>values.
               Inr (name, values))))"

text \<open>The components inferred for the symbol at an index, in the order of the base dimensions.\<close>

definition inferred_components :: "(pystr \<times> (nat \<times> rat) list) list \<Rightarrow> nat \<Rightarrow> (pystr \<times> rat) list" where
  "inferred_components solved index =
     filter (\<lambda>item. snd item \<noteq> 0) (map (\<lambda>(name, values). (name, dget values index 0)) solved)"

record inference =
  classification :: pystr
  inferred :: "(pystr \<times> dimension_vector) list"
  unresolved :: "pystr list"
  system_rank :: nat
  conflicting :: "pystr list"

definition infer_system ::
  "interp \<Rightarrow> engines \<Rightarrow> pystr list \<Rightarrow> dimension_formula list \<Rightarrow> pyexn + inference" where
  "infer_system py eng unknowns differences =
     (let matrix = coefficient_matrix unknowns differences;
          rank = matrix_rank eng matrix;
          names = base_dimensions differences;
          conflicts = filter (\<lambda>name. rank < matrix_rank eng (row_join matrix (right_sides differences name))) names in
      if conflicts \<noteq> [] then
        Inr \<lparr>classification = u ''inconsistent'', inferred = [], unresolved = unknowns, system_rank = rank, conflicting = conflicts\<rparr>
      else
        (let nullspace = matrix_nullspace eng (length unknowns) matrix;
             resolved = filter (\<lambda>index. \<forall>v \<in> set nullspace. v ! index = 0) [0..<length unknowns];
             free = map (\<lambda>index. unknowns ! index) (filter (\<lambda>index. index \<notin> set resolved) [0..<length unknowns])
         in rbind (rmap (solve_dimension eng unknowns differences resolved) names) (\<lambda>solved.
            rbind (rmap (\<lambda>index. rbind (from_derived_mapping py (inferred_components solved index)) (\<lambda>d.
                Inr (unknowns ! index, d))) resolved) (\<lambda>inferred.
            Inr \<lparr>classification = (if free = [] then u ''unique'' else u ''underdetermined''), inferred = inferred,
                 unresolved = free, system_rank = rank, conflicting = []\<rparr>))))"

text \<open>The linear system of a request: its unknowns, the analyzer with all constraints, and their differences.\<close>

definition infer_setup ::
  "interp \<Rightarrow> (pystr \<Rightarrow> pyexn + pyast) \<Rightarrow> engines \<Rightarrow> pydict
    \<Rightarrow> pyexn + (pystr list \<times> dimension_analyzer \<times> dimension_formula list)" where
  "infer_setup py ast_parse eng arguments =
     rbind (list_arg arguments (u ''equations'') 1 MAX_EQUATIONS) (\<lambda>equations.
     rbind (dimension_declarations py eng arguments (u ''known'') MAX_SYMBOLS (VDict [])) (\<lambda>declared.
     rbind (unknown_symbols arguments) (\<lambda>unknowns.
     demand (set (map fst declared) \<inter> set unknowns = {}) (calc ''E_INPUT'' (u ''known and unknown symbols must not overlap''))
     (rbind (rfold (infer_equation py ast_parse) (enumerate 0 equations)
         (new_analyzer (map (\<lambda>(s, d). (s, known d)) declared @ map (\<lambda>s. (s, unknown s)) unknowns) 2048)) (\<lambda>a.
     rbind (rmap (constraint_difference py) (generated a)) (\<lambda>differences.
     Inr (unknowns, a, differences)))))))"

definition infer :: "interp \<Rightarrow> (pystr \<Rightarrow> pyexn + pyast) \<Rightarrow> engines \<Rightarrow> pydict \<Rightarrow> pyexn + pydict" where
  "infer py ast_parse eng arguments =
     rbind (infer_setup py ast_parse eng arguments) (\<lambda>(unknowns, a, differences).
     rbind (infer_system py eng unknowns differences) (\<lambda>outcome.
     rbind (rmap (\<lambda>(symbol, d). rbind (vector_to_json py d) (\<lambda>j. rbind (vector_display py d) (\<lambda>t.
         Inr (symbol, VDict [(u ''dimension'', VDict j), (u ''display'', VStr t)])))) (inferred outcome)) (\<lambda>shown.
     Inr [(u ''status'', VStr (u ''ok'')), (u ''operation'', VStr (u ''dimension.infer'')),
          (u ''kind'', VStr (u ''dimensional_inference'')), (u ''scope'', VStr (u ''dimensional_consistency_only'')),
          (u ''classification'', VStr (classification outcome)), (u ''unknowns'', VList (map VStr unknowns)),
          (u ''inferred'', VDict shown), (u ''unresolved'', VList (map VStr (unresolved outcome))),
          (u ''rank'', VInt (int (system_rank outcome))), (u ''constraintCount'', VInt (int (length (generated a)))),
          (u ''degreesOfFreedom'', VInt (max 0 (int (length unknowns) - int (system_rank outcome)))),
          (u ''conflictingDimensions'', VList (map VStr (conflicting outcome))), (u ''warnings'', VList [])])))"

section \<open>\<^verbatim>\<open>dimension.pi_groups\<close>\<close>

definition lcm_all :: "rat list \<Rightarrow> int" where
  "lcm_all xs = foldl (\<lambda>m x. lcm m (denominator x)) 1 xs"

definition gcd_all :: "int list \<Rightarrow> int" where
  "gcd_all xs = foldl (\<lambda>g x. gcd g \<bar>x\<bar>) 0 xs"

definition count_if :: "('a \<Rightarrow> bool) \<Rightarrow> 'a list \<Rightarrow> nat" where
  "count_if p xs = length (filter p xs)"

definition oriented :: "int list \<Rightarrow> int list" where
  "oriented xs =
     (let positive_count = count_if (\<lambda>x. 0 < x) xs; negative_count = count_if (\<lambda>x. x < 0) xs;
          first_nonzero = hd (filter (\<lambda>x. x \<noteq> 0) xs)
      in if positive_count < negative_count \<or> (negative_count = positive_count \<and> first_nonzero < 0)
         then map uminus xs else xs)"

definition primitive_integer_exponents :: "interp \<Rightarrow> rat list \<Rightarrow> pyexn + int list" where
  "primitive_integer_exponents py fractions =
     (let denominator_lcm = lcm_all fractions;
          integers = map (\<lambda>x. numerator x * (denominator_lcm div denominator x)) fractions;
          common_divisor = gcd_all integers in
      demand (0 < common_divisor) (calc ''E_RUNTIME'' (u ''dimension solver returned an empty basis vector''))
        (let integers = oriented (map (\<lambda>x. x div common_divisor) integers) in
         rbind (rmap (digit_length py) integers) (\<lambda>lengths.
           demand (\<forall>n \<in> set lengths. n \<le> 2048)
             (calc ''E_LIMIT'' (u ''dimensionless group exponents are too complex'')) (Inr integers))))"

definition power_text :: "pystr \<times> int \<Rightarrow> pystr" where
  "power_text item = (if \<bar>snd item\<bar> = 1 then fst item else fst item @ u ''^'' @ int_text \<bar>snd item\<bar>)"

definition render_pi_group :: "(pystr \<times> int) list \<Rightarrow> pystr" where
  "render_pi_group exponents =
     (let positive = map power_text (filter (\<lambda>item. 0 < snd item) exponents);
          negative = map power_text (filter (\<lambda>item. \<not> 0 < snd item) exponents);
          numerator = (if positive = [] then u ''1'' else join (u '' * '') positive);
          denominator = (if 1 < length negative then u ''('' @ join (u '' * '') negative @ u '')'' else join (u '' * '') negative)
      in if negative = [] then numerator else numerator @ u '' / '' @ denominator)"

definition pi_unit_declarations :: "interp \<Rightarrow> engines \<Rightarrow> pydict \<Rightarrow> pyexn + (pystr \<times> dimension_vector) list" where
  "pi_unit_declarations py eng arguments =
     (case dget_none arguments (u ''variables'') of
        VDict value \<Rightarrow>
          demand (value \<noteq> []) (calc ''E_INPUT'' (u ''variables must contain at least one symbol''))
          (demand (length value \<le> MAX_PI_VARIABLES) (calc ''E_LIMIT'' (u ''variables may contain at most 16 symbols''))
          (rmap (\<lambda>(symbol, declaration).
             demand (symbol = strip symbol \<and> ascii_identifier symbol)
               (calc ''E_INPUT'' (u ''Pi-group variable names must be ASCII identifiers''))
             (demand (length symbol \<le> 64) (calc ''E_LIMIT'' (u ''Pi-group variable names may not exceed 64 characters''))
             (demand (is_str declaration) (calc ''E_INPUT'' (u ''variables.'' @ symbol @ u '' must be a unit-expression string''))
             (rbind (dimension_declaration py eng declaration (u ''variables.'' @ symbol)) (\<lambda>d. Inr (symbol, d)))))) value))
      | _ \<Rightarrow> Inl (calc ''E_INPUT'' (u ''variables must be an object'')))"

definition dimension_matrix :: "(pystr \<times> dimension_vector) list \<Rightarrow> rat list list" where
  "dimension_matrix declarations =
     map (\<lambda>dimension. map (\<lambda>(_, v). vector_exponent v dimension) declarations)
       (sort (remdups (concat (map (\<lambda>(_, v). map fst (components v)) declarations))))"

definition group_json :: "interp \<Rightarrow> nat \<times> (pystr \<times> int) list \<Rightarrow> pyexn + pyval" where
  "group_json py member =
     rbind (rmap (\<lambda>(variable, x). rbind (int_str py x) (\<lambda>t. Inr (variable, VStr t))) (snd member)) (\<lambda>exponents.
       Inr (VDict [(u ''index'', VInt (int (fst member))), (u ''exponents'', VDict exponents),
                   (u ''expression'', VStr (render_pi_group (snd member)))]))"

definition pi_basis ::
  "interp \<Rightarrow> engines \<Rightarrow> (pystr \<times> dimension_vector) list \<Rightarrow> pyexn + (pystr \<times> int) list list" where
  "pi_basis py eng declarations =
     rbind (rmap (primitive_integer_exponents py)
              (matrix_nullspace eng (length declarations) (dimension_matrix declarations))) (\<lambda>basis.
       Inr (map (\<lambda>xs. filter (\<lambda>item. snd item \<noteq> 0) (zip (map fst declarations) xs)) basis))"

definition pi_groups :: "interp \<Rightarrow> engines \<Rightarrow> pydict \<Rightarrow> pyexn + pydict" where
  "pi_groups py eng arguments =
     rbind (pi_unit_declarations py eng arguments) (\<lambda>unsorted.
     (let declarations = sort_key fst unsorted;
          rank = matrix_rank eng (dimension_matrix declarations) in
      rbind (pi_basis py eng declarations) (\<lambda>basis.
      rbind (rmap (group_json py) (enumerate 1 basis)) (\<lambda>groups.
      Inr [(u ''status'', VStr (u ''ok'')), (u ''operation'', VStr (u ''dimension.pi_groups'')),
           (u ''kind'', VStr (u ''dimensionless_groups'')), (u ''scope'', VStr (u ''dimensionless_basis_only'')),
           (u ''basisConvention'', VStr (u ''primitive_integer_exponents'')),
           (u ''variables'', VList (map (\<lambda>(s, _). VStr s) declarations)), (u ''rank'', VInt (int rank)),
           (u ''nullity'', VInt (int (length groups))), (u ''groups'', VList groups),
           (u ''warnings'', VList (if groups = [] then [] else
              [VStr (u ''A dimensionless basis is not unique; equivalent products or powers span the same space.'')]))]))))"

section \<open>A consistent equation does not depend on the units\<close>

lemma known_bindings_wf:
  "\<forall>(s, d) \<in> set dims. wf_vector d \<Longrightarrow> wf_bindings (map (\<lambda>(s, d). (s, known d)) dims)"
  by (auto simp: wf_bindings_def known_def wf_formula_def)

lemma dimension_declaration_wf: "dimension_declaration py eng value label = Inr v \<Longrightarrow> wf_vector v"
  by (auto simp: dimension_declaration_def result_simps Let_def from_mapping_wf split: pyval.splits sum.splits)

lemma dimension_declarations_wf:
  assumes "dimension_declarations py eng arguments name maximum dflt = Inr dims"
  shows "\<forall>(s, d) \<in> set dims. wf_vector d"
proof -
  obtain items where "rmap (\<lambda>(symbol, declaration).
               rbind (validate_identifier (VStr symbol) (name @ u '' symbol'')) (\<lambda>_.
               rbind (dimension_declaration py eng declaration (name @ u ''.'' @ symbol)) (\<lambda>d. Inr (symbol, d)))) items = Inr dims"
    using assms by (auto simp: dimension_declarations_def demand_eq_Inr split: pyval.splits)
  then have "list_all (\<lambda>(s, d). wf_vector d) dims"
    by (induction items arbitrary: dims) (auto simp: result_simps dest: dimension_declaration_wf)
  then show ?thesis by (simp add: list_all_iff)
qed

lemma constant_issue_None:
  assumes "constant_issue py c = Inr None" and "wf_constraint c"
  shows "satisfied a c"
proof -
  obtain d where d: "formula_sub py (left_side c) (right_side c) = Inr d" "coefficients d = []" "components (formula_constant d) = []"
    using assms(1) by (auto simp: constant_issue_def constraint_difference_def result_simps Let_def split: if_splits option.splits)
  then have "formula_exponent a d n = 0" for n
    by (simp add: formula_exponent_def vector_exponent_def dget_def weighted_def)
  then show ?thesis using formula_sub_sound [OF d(1), of a] assms(2) by (simp add: satisfied_def wf_constraint_def)
qed

lemma no_issues:
  assumes "concrete_issues py cs = Inr []" and "list_all wf_constraint cs"
  shows "\<forall>c \<in> set cs. satisfied a c"
proof -
  obtain issues where "rmap (constant_issue py) cs = Inr issues" and "List.map_filter id issues = []"
    using assms(1) by (auto simp: concrete_issues_def result_simps)
  then show ?thesis using assms(2)
    by (induction cs arbitrary: issues) (auto simp: result_simps List.map_filter_def constant_issue_None split: if_splits)
qed

lemma analyze_Inr:
  "analyze py ast_parse source a = Inr (f, a') \<Longrightarrow>
     \<exists>body. ast_parse (normalize_dimension_source source) = Inr body
       \<and> visit_dimension py (symbol_bindings a) (normalize_dimension_source source) body (generated a) = Inr (f, generated a')
       \<and> symbol_bindings a' = symbol_bindings a"
  by (auto simp: analyze_def Let_def result_simps split: sum.splits)

text \<open>What \<^verbatim>\<open>check_expressions\<close> has established when it reports no issue in an expression or in both.\<close>

lemma check_expressions_Inr:
  assumes "check_expressions py ast_parse dims l r = Inr outcome" and "\<forall>(s, d) \<in> set dims. wf_vector d"
    and "left_issues outcome = []" and "right_issues outcome = []"
  shows "\<exists>el er csl csr. ast_parse (normalize_dimension_source l) = Inr el \<and> ast_parse (normalize_dimension_source r) = Inr er
    \<and> visit_dimension py (map (\<lambda>(s, d). (s, known d)) dims) (normalize_dimension_source l) el [] = Inr (left_formula outcome, csl)
    \<and> visit_dimension py (map (\<lambda>(s, d). (s, known d)) dims) (normalize_dimension_source r) er csl = Inr (right_formula outcome, csr)
    \<and> (\<forall>a. \<forall>c \<in> set csr. satisfied a c)
    \<and> concrete_issues py [equation_constraint (equation_text l r) (left_formula outcome) (right_formula outcome)] = Inr (equation_issues outcome)"
proof -
  let ?b = "map (\<lambda>(s, d). (s, known d)) dims"
  note wf = known_bindings_wf [OF assms(2)]
  obtain a1 a2 a3 where a1: "analyze py ast_parse l (new_analyzer ?b 512) = Inr (left_formula outcome, a1)"
    and li: "concrete_issues py (generated a1) = Inr []"
    and a2: "analyze py ast_parse r a1 = Inr (right_formula outcome, a2)"
    and ri: "concrete_issues py (drop (length (generated a1)) (generated a2)) = Inr []"
    and a3: "add_equation (left_formula outcome) (right_formula outcome) (equation_text l r) a2 = Inr a3"
      "concrete_issues py (drop (length (generated a2)) (generated a3)) = Inr (equation_issues outcome)"
    using assms(1,3,4) by (auto simp: check_expressions_def result_simps)
  obtain el er where el: "ast_parse (normalize_dimension_source l) = Inr el"
      "visit_dimension py ?b (normalize_dimension_source l) el [] = Inr (left_formula outcome, generated a1)"
    and b1: "symbol_bindings a1 = ?b"
    and er: "ast_parse (normalize_dimension_source r) = Inr er"
      "visit_dimension py ?b (normalize_dimension_source r) er (generated a1) = Inr (right_formula outcome, generated a2)"
    using analyze_Inr [OF a1] analyze_Inr [OF a2] by (auto simp: new_analyzer_def)
  obtain n1 n2 where n: "generated a1 = n1" "list_all wf_constraint n1" "generated a2 = n1 @ n2" "list_all wf_constraint n2"
    using visit_dimension_wf [OF el(2) wf] visit_dimension_wf [OF er(2) wf] by auto
  have "\<forall>c \<in> set (generated a2). satisfied a c" for a
    using no_issues [OF li, of a] no_issues [OF ri, of a] n by auto
  moreover have "drop (length (generated a2)) (generated a3)
      = [equation_constraint (equation_text l r) (left_formula outcome) (right_formula outcome)]"
    using a3(1) by (auto simp: add_equation_def result_simps add_constraint_Inr)
  ultimately show ?thesis using el er a3(2) by auto
qed

text \<open>The value of a source text under the declared dimensions, and after a change of units.\<close>

definition source_value ::
  "(pystr \<Rightarrow> pyexn + pyast) \<Rightarrow> (pystr \<Rightarrow> real \<Rightarrow> real option) \<Rightarrow> (pystr \<Rightarrow> real) \<Rightarrow> pystr \<Rightarrow> real option" where
  "source_value ast_parse fn env source =
     (case ast_parse (normalize_dimension_source source) of
        Inl _ \<Rightarrow> None | Inr e \<Rightarrow> quantity fn (normalize_dimension_source source) env e)"

definition in_new_units ::
  "(pystr \<Rightarrow> real) \<Rightarrow> pystr set \<Rightarrow> (pystr \<times> dimension_vector) list \<Rightarrow> (pystr \<Rightarrow> real) \<Rightarrow> pystr \<Rightarrow> real" where
  "in_new_units k N dims env x =
     (case map_of dims x of None \<Rightarrow> env x | Some d \<Rightarrow> unit_factor k N (vector_exponent d) * env x)"

lemma known_exponent [simp]: "formula_exponent a (known d) = vector_exponent d"
  by (simp add: known_def formula_exponent_def weighted_def fun_eq_iff)

lemma rescaled_known: "rescaled k N a (map (\<lambda>(s, d). (s, known d)) dims) env = in_new_units k N dims env"
proof
  fix x
  have "map_of (map (\<lambda>(s, d). (s, known d)) dims) x = map_option known (map_of dims x)"
    by (induction dims) auto
  then show "rescaled k N a (map (\<lambda>(s, d). (s, known d)) dims) env x = in_new_units k N dims env x"
    by (simp add: rescaled_def in_new_units_def formula_factor_def split: option.splits)
qed

lemma check_scales:
  assumes "check_expressions py ast_parse dims l r = Inr outcome" and "\<forall>(s, d) \<in> set dims. wf_vector d"
    and "left_issues outcome = []" and "right_issues outcome = []" and "unit_change k"
  shows "source_value ast_parse fn (in_new_units k N dims env) l
      = map_option (\<lambda>y. formula_factor k N a (left_formula outcome) * y) (source_value ast_parse fn env l)
    \<and> source_value ast_parse fn (in_new_units k N dims env) r
      = map_option (\<lambda>y. formula_factor k N a (right_formula outcome) * y) (source_value ast_parse fn env r)"
proof -
  note wf = known_bindings_wf [OF assms(2)]
  obtain el er csl csr where el: "ast_parse (normalize_dimension_source l) = Inr el"
      "visit_dimension py (map (\<lambda>(s, d). (s, known d)) dims) (normalize_dimension_source l) el [] = Inr (left_formula outcome, csl)"
    and er: "ast_parse (normalize_dimension_source r) = Inr er"
      "visit_dimension py (map (\<lambda>(s, d). (s, known d)) dims) (normalize_dimension_source r) er csl = Inr (right_formula outcome, csr)"
    and sat: "\<forall>a. \<forall>c \<in> set csr. satisfied a c"
    using check_expressions_Inr [OF assms(1-4)] by blast
  obtain new where "csr = csl @ new" using visit_dimension_wf [OF er(2) wf] by blast
  then have "\<forall>c \<in> set csl. satisfied a c" using sat by auto
  from visit_dimension_sound [OF el(2) wf assms(5) this, of fn N env]
    visit_dimension_sound [OF er(2) wf assms(5) sat [rule_format, of _ a, THEN ballI], of fn N env]
  show ?thesis by (simp add: source_value_def el er rescaled_known)
qed

lemma check_Inr:
  assumes "check py ast_parse eng arguments = Inr result"
  shows "\<exists>l r dims outcome. string_arg arguments (u ''left'') VNone 2048 = Inr l \<and> string_arg arguments (u ''right'') VNone 2048 = Inr r
    \<and> dimension_declarations py eng arguments (u ''symbols'') MAX_SYMBOLS VNone = Inr dims
    \<and> check_expressions py ast_parse dims l r = Inr outcome
    \<and> dget_none result (u ''dimensionallyConsistent'')
      = VBool (left_issues outcome = [] \<and> right_issues outcome = [] \<and> equation_issues outcome = [])
    \<and> (dget_none result (u ''leftDimension'') = VNone \<longleftrightarrow> left_issues outcome \<noteq> [])
    \<and> (dget_none result (u ''rightDimension'') = VNone \<longleftrightarrow> right_issues outcome \<noteq> [])"
proof -
  obtain l r dims outcome where *: "string_arg arguments (u ''left'') VNone 2048 = Inr l" "string_arg arguments (u ''right'') VNone 2048 = Inr r"
    "dimension_declarations py eng arguments (u ''symbols'') MAX_SYMBOLS VNone = Inr dims"
    "check_expressions py ast_parse dims l r = Inr outcome"
    using assms by (auto simp: check_def result_simps)
  then show ?thesis using assms
    by (auto simp: check_def Let_def result_simps dget_none_def dget_def optional_def split: if_splits)
qed

text \<open>
  C3: A positive verdict of \<^verbatim>\<open>dimension.check\<close> means that the equation does not depend on the units. Both
  sides parse, and under every change of units, for all values of the symbols and all functions sin, cos,
  tan, log and exp, the equation holds after the change exactly when it held before (undefined sides
  included).
\<close>

theorem check_unit_independent:
  assumes "check py ast_parse eng arguments = Inr result"
    and "dget_none result (u ''dimensionallyConsistent'') = VBool True"
  shows "\<exists>l r dims. string_arg arguments (u ''left'') VNone 2048 = Inr l \<and> string_arg arguments (u ''right'') VNone 2048 = Inr r
    \<and> dimension_declarations py eng arguments (u ''symbols'') MAX_SYMBOLS VNone = Inr dims
    \<and> (\<forall>k N fn env. unit_change k \<longrightarrow>
        (source_value ast_parse fn (in_new_units k N dims env) l = source_value ast_parse fn (in_new_units k N dims env) r
         \<longleftrightarrow> source_value ast_parse fn env l = source_value ast_parse fn env r))"
proof -
  obtain l r dims outcome where *: "string_arg arguments (u ''left'') VNone 2048 = Inr l" "string_arg arguments (u ''right'') VNone 2048 = Inr r"
    "dimension_declarations py eng arguments (u ''symbols'') MAX_SYMBOLS VNone = Inr dims"
    and out: "check_expressions py ast_parse dims l r = Inr outcome"
    and no: "left_issues outcome = []" "right_issues outcome = []" "equation_issues outcome = []"
    using check_Inr [OF assms(1)] assms(2) by auto
  note wf = dimension_declarations_wf [OF *(3)]
  have "satisfied a (equation_constraint (equation_text l r) (left_formula outcome) (right_formula outcome))" for a
  proof -
    obtain el er csl csr where "visit_dimension py (map (\<lambda>(s, d). (s, known d)) dims) (normalize_dimension_source l) el [] = Inr (left_formula outcome, csl)"
      "visit_dimension py (map (\<lambda>(s, d). (s, known d)) dims) (normalize_dimension_source r) er csl = Inr (right_formula outcome, csr)"
      and i: "concrete_issues py [equation_constraint (equation_text l r) (left_formula outcome) (right_formula outcome)] = Inr []"
      using check_expressions_Inr [OF out wf no(1,2)] no(3) by metis
    then have "wf_formula (left_formula outcome)" "wf_formula (right_formula outcome)"
      using visit_dimension_wf known_bindings_wf [OF wf] by blast+
    then show ?thesis using no_issues [OF i] by (simp add: wf_constraint_def)
  qed
  then have same: "formula_factor k N a (left_formula outcome) = formula_factor k N a (right_formula outcome)" for k N a
    using satisfied_factor [of a "equation_constraint (equation_text l r) (left_formula outcome) (right_formula outcome)" k N] by simp
  have "source_value ast_parse fn (in_new_units k N dims env) l = source_value ast_parse fn (in_new_units k N dims env) r
      \<longleftrightarrow> source_value ast_parse fn env l = source_value ast_parse fn env r" if k: "unit_change k" for k N fn env
  proof -
    define a :: "pystr \<Rightarrow> pystr \<Rightarrow> rat" where "a = (\<lambda>_ _. 0)"
    have "formula_factor k N a (right_formula outcome) \<noteq> 0" using factor_pos [OF k, of N a "right_formula outcome"] by simp
    then have "inj (map_option (\<lambda>y. formula_factor k N a (right_formula outcome) * y))"
      by (intro option.inj_map injI) simp
    note inj_eq [OF this]
    then show ?thesis using check_scales [OF out wf no(1,2) k, of fn N env a] unfolding same [of k N a] by simp
  qed
  then show ?thesis using * by blast
qed

text \<open>
  A mismatch is real. When both sides have a dimension and the equation is reported as inconsistent,
  there is a change of units under which no equation with a non-zero value survives: wherever the two
  sides agreed on such a value, they differ afterwards.
\<close>

theorem check_mismatch_breaks_equation:
  assumes "check py ast_parse eng arguments = Inr result"
    and "dget_none result (u ''dimensionallyConsistent'') = VBool False"
    and "dget_none result (u ''leftDimension'') \<noteq> VNone" and "dget_none result (u ''rightDimension'') \<noteq> VNone"
  shows "\<exists>l r dims k N. string_arg arguments (u ''left'') VNone 2048 = Inr l \<and> string_arg arguments (u ''right'') VNone 2048 = Inr r
    \<and> dimension_declarations py eng arguments (u ''symbols'') MAX_SYMBOLS VNone = Inr dims \<and> unit_change k
    \<and> (\<forall>fn env v. source_value ast_parse fn env l = Some v \<and> source_value ast_parse fn env r = Some v \<and> v \<noteq> 0 \<longrightarrow>
        source_value ast_parse fn (in_new_units k N dims env) l \<noteq> source_value ast_parse fn (in_new_units k N dims env) r)"
proof -
  obtain l r dims outcome where *: "string_arg arguments (u ''left'') VNone 2048 = Inr l" "string_arg arguments (u ''right'') VNone 2048 = Inr r"
    "dimension_declarations py eng arguments (u ''symbols'') MAX_SYMBOLS VNone = Inr dims"
    and out: "check_expressions py ast_parse dims l r = Inr outcome"
    and no: "left_issues outcome = []" "right_issues outcome = []" "equation_issues outcome \<noteq> []"
    using check_Inr [OF assms(1)] assms(2-4) by auto
  note wf = dimension_declarations_wf [OF *(3)]
  let ?lf = "left_formula outcome" and ?rf = "right_formula outcome"
  obtain el er csl csr where l: "visit_dimension py (map (\<lambda>(s, d). (s, known d)) dims) (normalize_dimension_source l) el [] = Inr (?lf, csl)"
    and r: "visit_dimension py (map (\<lambda>(s, d). (s, known d)) dims) (normalize_dimension_source r) er csl = Inr (?rf, csr)"
    and i: "concrete_issues py [equation_constraint (equation_text l r) ?lf ?rf] = Inr (equation_issues outcome)"
    using check_expressions_Inr [OF out wf no(1,2)] by metis
  have wff: "wf_formula ?lf" "wf_formula ?rf" using l r visit_dimension_wf known_bindings_wf [OF wf] by blast+
  obtain d where d: "formula_sub py ?lf ?rf = Inr d" "coefficients d = []" "components (formula_constant d) \<noteq> []"
    using i no(3) by (auto simp: concrete_issues_def constant_issue_def constraint_difference_def result_simps Let_def
        List.map_filter_def split: if_splits option.splits)
  obtain n e where ne: "(n, e) \<in> set (components (formula_constant d))" using d(3) by (metis list.set_intros(1) neq_Nil_conv surj_pair)
  have "wf_formula d" using formula_sub_sound [OF d(1) wff] by blast
  then have "wf_vector (formula_constant d)" by (simp add: wf_formula_def)
  then have "vector_exponent (formula_constant d) n \<noteq> 0"
    using ne by (auto simp: wf_vector_def vector_exponent_def dget_def)
  define a :: "pystr \<Rightarrow> pystr \<Rightarrow> rat" where "a = (\<lambda>_ _. 0)"
  have "formula_exponent a ?lf n \<noteq> formula_exponent a ?rf n"
    using formula_sub_sound [OF d(1) wff, of a n] \<open>vector_exponent (formula_constant d) n \<noteq> 0\<close> d(2)
    by (simp add: formula_exponent_def weighted_def)
  define k :: "pystr \<Rightarrow> real" where "k = (\<lambda>_. 2)"
  have k: "unit_change k" by (simp add: unit_change_def k_def)
  have f: "formula_factor k {n} a f = 2 powr of_rat (formula_exponent a f n)" for f
    by (simp add: formula_factor_def unit_factor_def k_def)
  have ne: "formula_factor k {n} a ?lf \<noteq> formula_factor k {n} a ?rf"
    using \<open>formula_exponent a ?lf n \<noteq> formula_exponent a ?rf n\<close> by (simp add: f powr_inj)
  have "source_value ast_parse fn (in_new_units k {n} dims env) l \<noteq> source_value ast_parse fn (in_new_units k {n} dims env) r"
    if "source_value ast_parse fn env l = Some v" "source_value ast_parse fn env r = Some v" "v \<noteq> 0" for fn env v
    using check_scales [OF out wf no(1,2) k, of fn "{n}" env a] that ne by simp
  then show ?thesis using * k by blast
qed

text \<open>Distance, speed and time: a consistent and an inconsistent equation.\<close>

definition sample_interp :: interp where
  "sample_interp = \<lparr>float_text = (\<lambda>_. []), sha256 = (\<lambda>_. []), digit_limit = 4300\<rparr>"

definition sample_parser :: "pystr \<Rightarrow> pyexn + pyast" where
  "sample_parser s =
     (if s = u ''d'' then Inr (EName (u ''d'')) else if s = u ''v'' then Inr (EName (u ''v''))
      else if s = u ''v*t'' then Inr (EBin (Some s) OMult (EName (u ''v'')) (EName (u ''t'')))
      else Inl (PyExn (u ''SyntaxError'') []))"

definition sample_engines :: engines where
  "sample_engines = \<lparr>dimensionality = (\<lambda>_. Inl (PyExn (u ''PintError'') [])), matrix_rank = (\<lambda>_. 0),
     matrix_nullspace = (\<lambda>_ _. []), linear_solve = (\<lambda>_ _. None)\<rparr>"

definition motion_request :: "string \<Rightarrow> pydict" where
  "motion_request right_text =
     [(u ''left'', VStr (u ''d'')), (u ''right'', VStr (u right_text)),
      (u ''symbols'', VDict [(u ''d'', VDict [(u ''length'', VInt 1)]),
         (u ''v'', VDict [(u ''length'', VInt 1), (u ''time'', VInt (- 1))]), (u ''t'', VDict [(u ''time'', VInt 1)])])]"

definition motion_dimensions :: "(pystr \<times> dimension_vector) list" where
  "motion_dimensions =
     [(u ''d'', DimensionVector [(u ''length'', 1)]), (u ''v'', DimensionVector [(u ''length'', 1), (u ''time'', - 1)]),
      (u ''t'', DimensionVector [(u ''time'', 1)])]"

lemma quotient_parts:
  "numerator 0 = 0" "denominator 0 = 1" "numerator 1 = 1" "denominator 1 = 1" "numerator (- 1) = - 1" "denominator (- 1) = 1"
  by (simp_all add: numerator_def denominator_def quotient_of_number)

lemma motion_names:
  "canonical_dimension_name (VStr (u ''length'')) = Inr (u ''length'')" "canonical_dimension_name (VStr (u ''time'')) = Inr (u ''time'')"
  by (simp_all add: canonical_dimension_name_def dimension_vector_name_def ascii_identifier_def identifier_start_def bracketed_def u_def)

lemma motion_order: "dimension_sort_key (u ''length'') \<le> dimension_sort_key (u ''time'')"
  "\<not> dimension_sort_key (u ''time'') \<le> dimension_sort_key (u ''length'')"
  by (simp_all add: dimension_sort_key_def index_of_def BASE_DIMENSION_ORDER_def)

lemma motion_symbols:
  "validate_identifier (VStr (u ''d'')) label = Inr (u ''d'')" "validate_identifier (VStr (u ''v'')) label = Inr (u ''v'')"
  "validate_identifier (VStr (u ''t'')) label = Inr (u ''t'')"
  by (simp_all add: validate_identifier_def strip_def is_space_def ascii_identifier_def identifier_start_def PYTHON_KEYWORDS_def u_def)

lemma motion_digits: "digit_length sample_interp 1 = Inr 1" "digit_length sample_interp (- 1) = Inr 1" "digit_length sample_interp 0 = Inr 1"
  by (simp_all add: digit_length_def int_str_def digits_allowed_def sample_interp_def nat_text.simps int_text_def)

lemmas motion_eval = vector_from_mapping_def add_component_def motion_names motion_order MAX_DIMENSION_COMPONENTS_def sort_key_def

lemma motion_declarations:
  "dimension_declarations sample_interp sample_engines (motion_request t) (u ''symbols'') MAX_SYMBOLS VNone = Inr motion_dimensions"
  by (simp add: dimension_declarations_def motion_request_def dget_def MAX_SYMBOLS_def motion_symbols dimension_declaration_def
      from_mapping_def motion_eval bounded_exponent_def exponent_bounded_def quotient_parts MAX_DIMENSION_EXPONENT_PART_def
      motion_dimensions_def)

lemma motion_texts:
  "string_arg (motion_request t) (u ''left'') VNone 2048 = Inr (u ''d'')"
  "string_arg (motion_request ''v*t'') (u ''right'') VNone 2048 = Inr (u ''v*t'')"
  "string_arg (motion_request ''v'') (u ''right'') VNone 2048 = Inr (u ''v'')"
  by (simp_all add: string_arg_def motion_request_def dget_def) (simp_all add: strip_def is_space_def u_def)

lemma motion_sources:
  "normalize_dimension_source (u ''d'') = u ''d''" "normalize_dimension_source (u ''v'') = u ''v''"
  "normalize_dimension_source (u ''v*t'') = u ''v*t''"
  by (simp_all add: normalize_dimension_source_def normalize_expression_source_def replace_cp_def strip_def is_space_def u_def)

definition motion_bindings :: "(pystr \<times> dimension_formula) list" where
  "motion_bindings = map (\<lambda>(s, d). (s, known d)) motion_dimensions"

lemmas derived_eval = from_derived_mapping_def motion_eval bounded_derived_exponent_def quotient_parts motion_digits MAX_LITERAL_DIGIT_BUDGET_def

lemma motion_product:
  "vector_add sample_interp (DimensionVector [(u ''length'', 1), (u ''time'', - 1)]) (DimensionVector [(u ''time'', 1)])
    = Inr (DimensionVector [(u ''length'', 1)])"
  by (simp add: vector_add_def combine_def dget_def derived_eval)

lemma motion_differences:
  "vector_sub sample_interp (DimensionVector [(u ''length'', 1)]) (DimensionVector [(u ''length'', 1)]) = Inr dimensionless"
  "vector_sub sample_interp (DimensionVector [(u ''length'', 1)]) (DimensionVector [(u ''length'', 1), (u ''time'', - 1)])
    = Inr (DimensionVector [(u ''time'', 1)])"
  by (simp_all add: vector_sub_def vector_scale_def vector_add_def combine_def dget_def derived_eval dimensionless_def)

lemma motion_formulas:
  "formula_add sample_interp (known (DimensionVector [(u ''length'', 1), (u ''time'', - 1)])) (known (DimensionVector [(u ''time'', 1)]))
    = Inr (known (DimensionVector [(u ''length'', 1)]))"
  "formula_sub sample_interp (known (DimensionVector [(u ''length'', 1)])) (known (DimensionVector [(u ''length'', 1)]))
    = Inr (known dimensionless)"
  "formula_sub sample_interp (known (DimensionVector [(u ''length'', 1)])) (known (DimensionVector [(u ''length'', 1), (u ''time'', - 1)]))
    = Inr (known (DimensionVector [(u ''time'', 1)]))"
  using motion_product motion_differences
  by (auto simp: formula_add_def formula_sub_def formula_scale_def known_def vector_sub_def result_simps)

lemma motion_analysis:
  "analyze sample_interp sample_parser (u ''d'') (new_analyzer (map (\<lambda>(s, d). (s, known d)) motion_dimensions) 512)
    = Inr (known (DimensionVector [(u ''length'', 1)]), (new_analyzer (map (\<lambda>(s, d). (s, known d)) motion_dimensions) 512)\<lparr>total_nodes := 3\<rparr>)"
  "analyze sample_interp sample_parser (u ''v*t'') ((new_analyzer (map (\<lambda>(s, d). (s, known d)) motion_dimensions) 512)\<lparr>total_nodes := 3\<rparr>)
    = Inr (known (DimensionVector [(u ''length'', 1)]), (new_analyzer (map (\<lambda>(s, d). (s, known d)) motion_dimensions) 512)\<lparr>total_nodes := 10\<rparr>)"
  "analyze sample_interp sample_parser (u ''v'') ((new_analyzer (map (\<lambda>(s, d). (s, known d)) motion_dimensions) 512)\<lparr>total_nodes := 3\<rparr>)
    = Inr (known (DimensionVector [(u ''length'', 1), (u ''time'', - 1)]),
        (new_analyzer (map (\<lambda>(s, d). (s, known d)) motion_dimensions) 512)\<lparr>total_nodes := 6\<rparr>)"
  by (simp_all add: analyze_def motion_sources sample_parser_def new_analyzer_def motion_dimensions_def motion_formulas)

lemma motion_verdicts:
  "concrete_issues sample_interp [] = Inr []"
  "concrete_issues sample_interp [equation_constraint t (known (DimensionVector [(u ''length'', 1)])) (known (DimensionVector [(u ''length'', 1)]))]
    = Inr []"
  "\<exists>i. concrete_issues sample_interp
      [equation_constraint t (known (DimensionVector [(u ''length'', 1)])) (known (DimensionVector [(u ''length'', 1), (u ''time'', - 1)]))] = Inr [i]"
proof -
  show "concrete_issues sample_interp [] = Inr []" by (simp add: concrete_issues_def List.map_filter_def)
  show "concrete_issues sample_interp [equation_constraint t (known (DimensionVector [(u ''length'', 1)])) (known (DimensionVector [(u ''length'', 1)]))]
    = Inr []"
    by (simp add: concrete_issues_def constant_issue_def constraint_difference_def motion_formulas List.map_filter_def known_def dimensionless_def
        motion_formulas(2) [unfolded known_def dimensionless_def])
  have "vector_to_json sample_interp (DimensionVector [(u ''length'', 1)]) = Inr [(u ''length'', VStr (u ''1''))]"
    "vector_to_json sample_interp (DimensionVector [(u ''length'', 1), (u ''time'', - 1)])
      = Inr [(u ''length'', VStr (u ''1'')), (u ''time'', VStr (u ''-1''))]"
    by (simp_all add: vector_to_json_def fraction_str_def quotient_parts int_str_def digits_allowed_def sample_interp_def int_text_def nat_text.simps digit_cp_def u_def)
  then show "\<exists>i. concrete_issues sample_interp
      [equation_constraint t (known (DimensionVector [(u ''length'', 1)])) (known (DimensionVector [(u ''length'', 1), (u ''time'', - 1)]))] = Inr [i]"
    by (simp add: concrete_issues_def constant_issue_def constraint_difference_def List.map_filter_def known_def equation_constraint_def
        motion_formulas(3) [unfolded known_def])
qed

lemma generated_new [simp]: "generated (new_analyzer b n) = []"
  by (simp add: new_analyzer_def)

lemma motion_checked:
  "\<exists>outcome. check_expressions sample_interp sample_parser motion_dimensions (u ''d'') (u ''v*t'') = Inr outcome
     \<and> left_issues outcome = [] \<and> right_issues outcome = [] \<and> equation_issues outcome = []
     \<and> formula_constant (left_formula outcome) = DimensionVector [(u ''length'', 1)]
     \<and> formula_constant (right_formula outcome) = DimensionVector [(u ''length'', 1)]"
  "\<exists>outcome. check_expressions sample_interp sample_parser motion_dimensions (u ''d'') (u ''v'') = Inr outcome
     \<and> left_issues outcome = [] \<and> right_issues outcome = [] \<and> equation_issues outcome \<noteq> []
     \<and> formula_constant (left_formula outcome) = DimensionVector [(u ''length'', 1)]
     \<and> formula_constant (right_formula outcome) = DimensionVector [(u ''length'', 1), (u ''time'', - 1)]"
  using motion_verdicts(3) [of "equation_text (u ''d'') (u ''v'')", unfolded known_def]
  by (auto simp: check_expressions_def motion_analysis motion_verdicts add_equation_def add_constraint_def
      MAX_DIMENSION_CONSTRAINTS_def) (simp_all add: known_def)

lemma motion_displays:
  "\<exists>j. vector_to_json sample_interp (DimensionVector [(u ''length'', 1)]) = Inr j"
  "\<exists>j. vector_to_json sample_interp (DimensionVector [(u ''length'', 1), (u ''time'', - 1)]) = Inr j"
  "\<exists>d. vector_display sample_interp (DimensionVector [(u ''length'', 1)]) = Inr d"
  "\<exists>d. vector_display sample_interp (DimensionVector [(u ''length'', 1), (u ''time'', - 1)]) = Inr d"
  by (simp_all add: vector_to_json_def vector_display_def factor_text_def Let_def fraction_str_def quotient_parts int_str_def digits_allowed_def
      sample_interp_def nat_text.simps)

lemma motion_results:
  "\<exists>r. check sample_interp sample_parser sample_engines (motion_request ''v*t'') = Inr r
     \<and> dget_none r (u ''dimensionallyConsistent'') = VBool True"
  "\<exists>r. check sample_interp sample_parser sample_engines (motion_request ''v'') = Inr r
     \<and> dget_none r (u ''dimensionallyConsistent'') = VBool False
     \<and> dget_none r (u ''leftDimension'') \<noteq> VNone \<and> dget_none r (u ''rightDimension'') \<noteq> VNone"
  using motion_checked motion_displays
  by (auto simp: check_def motion_texts motion_declarations optional_def Let_def dget_none_def dget_def)

theorem check_unit_independent_witness:
  "\<exists>dims. dimension_declarations sample_interp sample_engines (motion_request ''v*t'') (u ''symbols'') MAX_SYMBOLS VNone = Inr dims
    \<and> (\<forall>fn env. source_value sample_parser fn (in_new_units (\<lambda>_. 1000) UNIV dims env) (u ''d'')
          = source_value sample_parser fn (in_new_units (\<lambda>_. 1000) UNIV dims env) (u ''v*t'')
       \<longleftrightarrow> source_value sample_parser fn env (u ''d'') = source_value sample_parser fn env (u ''v*t''))"
proof -
  obtain r where "check sample_interp sample_parser sample_engines (motion_request ''v*t'') = Inr r"
    "dget_none r (u ''dimensionallyConsistent'') = VBool True"
    using motion_results(1) by blast
  from check_unit_independent [OF this] show ?thesis using motion_texts by (auto simp: unit_change_def)
qed

theorem check_mismatch_breaks_equation_witness:
  "\<exists>dims k N. dimension_declarations sample_interp sample_engines (motion_request ''v'') (u ''symbols'') MAX_SYMBOLS VNone = Inr dims
    \<and> unit_change k
    \<and> (\<forall>fn env v. source_value sample_parser fn env (u ''d'') = Some v \<and> source_value sample_parser fn env (u ''v'') = Some v \<and> v \<noteq> 0 \<longrightarrow>
          source_value sample_parser fn (in_new_units k N dims env) (u ''d'')
          \<noteq> source_value sample_parser fn (in_new_units k N dims env) (u ''v''))"
proof -
  obtain r where "check sample_interp sample_parser sample_engines (motion_request ''v'') = Inr r"
    "dget_none r (u ''dimensionallyConsistent'') = VBool False" "dget_none r (u ''leftDimension'') \<noteq> VNone"
    "dget_none r (u ''rightDimension'') \<noteq> VNone"
    using motion_results(2) by blast
  from check_mismatch_breaks_equation [OF this] show ?thesis using motion_texts by auto
qed

end
