(* ===== verification/Dimension_Inference.thy ===== *)
theory Dimension_Inference
  imports Dimension_Analysis
begin

text \<open>
  The inference of unknown dimensions is exact: what the operation calls inconsistent has no solution,
  what it infers is common to all solutions, and what it leaves unresolved is not determined.
\<close>

section \<open>Inference is exact\<close>

text \<open>What the operation relies on of the linear algebra: Rouche--Capelli, a spanning null space, and that an
  entry of a solution is a number exactly when the equations determine it.\<close>

definition dot :: "rat list \<Rightarrow> rat list \<Rightarrow> rat" where
  "dot xs ys = (\<Sum>(x, y) \<leftarrow> zip xs ys. x * y)"

definition solves :: "rat list list \<Rightarrow> rat list \<Rightarrow> rat list \<Rightarrow> bool" where
  "solves matrix column x \<longleftrightarrow> map (\<lambda>row. dot row x) matrix = column"

definition zero_column :: "rat list list \<Rightarrow> rat list" where
  "zero_column matrix = map (\<lambda>_. 0) matrix"

definition in_span :: "nat \<Rightarrow> rat list list \<Rightarrow> rat list \<Rightarrow> bool" where
  "in_span n basis x \<longleftrightarrow>
     (\<exists>cs. length cs = length basis \<and> x = map (\<lambda>i. dot cs (map (\<lambda>v. v ! i) basis)) [0..<n])"

definition linear_algebra_laws :: "engines \<Rightarrow> nat \<Rightarrow> rat list list \<Rightarrow> bool" where
  "linear_algebra_laws eng n matrix \<longleftrightarrow>
     (\<forall>column. length column = length matrix \<longrightarrow>
        (matrix_rank eng matrix < matrix_rank eng (row_join matrix column)
           \<longleftrightarrow> (\<nexists>x. length x = n \<and> solves matrix column x))
        \<and> (\<forall>entries i r. linear_solve eng matrix column = Some entries \<and> i < n \<and> entries ! i = SRational r \<longrightarrow>
             (\<forall>x. length x = n \<and> solves matrix column x \<longrightarrow> x ! i = r)))
     \<and> (\<forall>v \<in> set (matrix_nullspace eng n matrix). length v = n \<and> solves matrix (zero_column matrix) v)
     \<and> (\<forall>x. length x = n \<and> solves matrix (zero_column matrix) x \<longrightarrow> in_span n (matrix_nullspace eng n matrix) x)"

text \<open>An assignment of dimensions to the unknowns that satisfies the differences of all constraints.\<close>

definition consistent :: "dimension_formula list \<Rightarrow> (pystr \<Rightarrow> pystr \<Rightarrow> rat) \<Rightarrow> bool" where
  "consistent differences a \<longleftrightarrow> (\<forall>f \<in> set differences. \<forall>n. formula_exponent a f n = 0)"

definition ranges_over :: "pystr list \<Rightarrow> dimension_formula list \<Rightarrow> bool" where
  "ranges_over unknowns differences \<longleftrightarrow>
     distinct unknowns \<and> (\<forall>f \<in> set differences. wf_formula f \<and> fst ` set (coefficients f) \<subseteq> set unknowns)"

lemma dget_absent: "k \<notin> fst ` set d \<Longrightarrow> dget d k v = v"
  by (simp add: dget_def map_of_eq_None_iff [THEN iffD2])

lemma weighted_dot:
  assumes "distinct (map fst xs)" and "fst ` set xs \<subseteq> set ys" and "distinct ys"
  shows "weighted xs g = dot (map (\<lambda>s. dget xs s 0) ys) (map g ys)"
proof -
  have "dot (map (\<lambda>s. dget xs s 0) ys) (map g ys) = (\<Sum>s \<leftarrow> ys. dget xs s 0 * g s)"
    unfolding dot_def by (induction ys) auto
  also have "\<dots> = (\<Sum>s \<in> set ys. dget xs s 0 * g s)" using assms(3) by (simp add: sum_list_distinct_conv_sum_set)
  also have "\<dots> = (\<Sum>s \<in> fst ` set xs. dget xs s 0 * g s)"
    using assms(2) by (intro sum.mono_neutral_right) (auto simp: dget_absent)
  also have "\<dots> = (\<Sum>p \<in> set xs. dget xs (fst p) 0 * g (fst p))"
    using assms(1) by (simp add: sum.reindex distinct_map)
  also have "\<dots> = (\<Sum>p \<in> set xs. snd p * g (fst p))"
    using assms(1) by (intro sum.cong) (auto simp: dget_def)
  also have "\<dots> = weighted xs g"
    using assms(1) by (simp add: weighted_def sum_list_distinct_conv_sum_set distinct_map split_beta)
  finally show ?thesis by simp
qed

lemma consistent_iff_solves:
  assumes "ranges_over unknowns differences"
  shows "consistent differences a \<longleftrightarrow>
    (\<forall>n. solves (coefficient_matrix unknowns differences) (right_sides differences n) (map (\<lambda>s. a s n) unknowns))"
proof -
  have "formula_exponent a f n = 0 \<longleftrightarrow> dot (map (\<lambda>s. dget (coefficients f) s 0) unknowns) (map (\<lambda>s. a s n) unknowns)
      = - dget (components (formula_constant f)) n 0" if "f \<in> set differences" for f n
    using weighted_dot [of "coefficients f" unknowns "\<lambda>s. a s n"] that assms
    by (auto simp: ranges_over_def wf_formula_def formula_exponent_def vector_exponent_def)
  then show ?thesis by (auto simp: consistent_def solves_def coefficient_matrix_def right_sides_def)
qed

lemma base_dimension_absent:
  "n \<notin> set (base_dimensions differences) \<Longrightarrow> right_sides differences n = zero_column (coefficient_matrix unknowns differences)"
  by (auto simp: base_dimensions_def right_sides_def zero_column_def coefficient_matrix_def intro!: dget_absent)

lemma dot_zero: "dot xs (map (\<lambda>_. 0) ys) = 0"
  unfolding dot_def by (induction xs ys rule: list_induct2') auto

lemma dot_zeros: "\<forall>y \<in> set ys. y = 0 \<Longrightarrow> dot xs ys = 0"
  unfolding dot_def by (induction xs ys rule: list_induct2') auto

lemma dot_add: "length ys = length zs \<Longrightarrow> dot xs (map2 (+) ys zs) = dot xs ys + dot xs zs"
  unfolding dot_def by (induction ys zs arbitrary: xs rule: list_induct2) (auto simp: zip_Cons algebra_simps split: list.splits)

lemma solves_add:
  assumes "solves matrix column x" and "solves matrix (zero_column matrix) v" and "length v = length x"
  shows "solves matrix column (map2 (+) x v)"
  using assms by (auto simp: solves_def zero_column_def dot_add map_eq_conv)

lemma resolved_value_Inr [result_simps]: "resolved_value entry = Inr r \<longleftrightarrow> entry = SRational r"
  by (cases entry) (auto simp: resolved_value_def)

lemma solve_dimension_Inr:
  assumes "solve_dimension eng unknowns differences resolved name = Inr (m, values)"
  shows "m = name \<and> (\<exists>entries. linear_solve eng (coefficient_matrix unknowns differences) (right_sides differences name) = Some entries
    \<and> (\<forall>i \<in> set resolved. entries ! i = SRational (dget values i 0)))"
proof -
  obtain entries where e: "linear_solve eng (coefficient_matrix unknowns differences) (right_sides differences name) = Some entries"
    and v: "rmap (\<lambda>index. rbind (resolved_value (entries ! index)) (\<lambda>r. Inr (index, r))) resolved = Inr values" and "m = name"
    using assms by (auto simp: solve_dimension_def result_simps split: option.splits)
  have "\<forall>i \<in> set is. entries ! i = SRational (dget vs i 0)"
    if "rmap (\<lambda>index. rbind (resolved_value (entries ! index)) (\<lambda>r. Inr (index, r))) is = Inr vs" for "is" vs
    using that
  proof (induction "is" arbitrary: vs)
    case (Cons i "is")
    then obtain r ws where "entries ! i = SRational r" "vs = (i, r) # ws"
      "rmap (\<lambda>index. rbind (resolved_value (entries ! index)) (\<lambda>r. Inr (index, r))) is = Inr ws"
      by (auto simp: result_simps)
    then show ?case using Cons.IH [of ws] by (auto simp: dget_def)
  qed simp
  then show ?thesis using e v \<open>m = name\<close> by blast
qed

lemma solved_lookup:
  assumes "rmap (solve_dimension eng unknowns differences resolved) names = Inr solved" and "distinct names" and "i \<in> set resolved"
  shows "map fst (inferred_components solved i) = filter (\<lambda>n. dget (inferred_components solved i) n 0 \<noteq> 0) names
    \<and> (\<forall>n \<in> set names. \<exists>entries. linear_solve eng (coefficient_matrix unknowns differences) (right_sides differences n) = Some entries
        \<and> entries ! i = SRational (dget (inferred_components solved i) n 0))"
  using assms(1,2)
proof (induction names arbitrary: solved)
  case Nil
  then show ?case by (simp add: inferred_components_def)
next
  case (Cons name names)
  then obtain m "values" rest where s: "solve_dimension eng unknowns differences resolved name = Inr (m, values)"
    "rmap (solve_dimension eng unknowns differences resolved) names = Inr rest" "solved = (m, values) # rest"
    by (auto simp: result_simps)
  from solve_dimension_Inr [OF s(1)] have m: "m = name"
    and e: "\<exists>entries. linear_solve eng (coefficient_matrix unknowns differences) (right_sides differences name) = Some entries
       \<and> entries ! i = SRational (dget values i 0)" using assms(3) by blast+
  from Cons.IH [OF s(2)] Cons.prems(2)
  have ih: "map fst (inferred_components rest i) = filter (\<lambda>n. dget (inferred_components rest i) n 0 \<noteq> 0) names"
    and es: "\<forall>n \<in> set names. \<exists>entries. linear_solve eng (coefficient_matrix unknowns differences) (right_sides differences n) = Some entries
        \<and> entries ! i = SRational (dget (inferred_components rest i) n 0)" by auto
  have c: "inferred_components solved i = (if dget values i 0 \<noteq> 0 then (name, dget values i 0) # inferred_components rest i else inferred_components rest i)"
    by (simp add: inferred_components_def s(3) m)
  have "name \<notin> fst ` set (inferred_components rest i)" using ih Cons.prems(2) by (metis distinct.simps(2) filter_is_subset set_map subsetD)
  then have "dget (inferred_components solved i) name 0 = dget values i 0" by (auto simp: c dget_absent) (simp add: dget_def)
  moreover have "dget (inferred_components solved i) n 0 = dget (inferred_components rest i) n 0" if "n \<in> set names" for n
    using that Cons.prems(2) by (auto simp: c dget_def)
  ultimately show ?case using ih es e
    by (auto simp: c cong: filter_cong)
qed

text \<open>The formulas of an analysis over given unknowns.\<close>

definition over :: "pystr list \<Rightarrow> dimension_formula \<Rightarrow> bool" where
  "over unknowns f \<longleftrightarrow> wf_formula f \<and> fst ` set (coefficients f) \<subseteq> set unknowns"

lemma formula_add_over: "formula_add py f g = Inr h \<Longrightarrow> over unknowns f \<Longrightarrow> over unknowns g \<Longrightarrow> over unknowns h"
proof -
  assume a: "formula_add py f g = Inr h" "over unknowns f" "over unknowns g"
  then have "fst ` set (coefficients h) \<subseteq> fst ` set (combine (coefficients f) (coefficients g))"
    by (auto simp: formula_add_def result_simps dest!: bounded_coefficients)
  also have "\<dots> \<subseteq> set unknowns" using a(2,3) by (simp add: combine_keys over_def)
  finally have "fst ` set (coefficients h) \<subseteq> set unknowns" .
  then show ?thesis using a formula_add_sound [OF a(1)] by (simp add: over_def)
qed

lemma formula_scale_over: "formula_scale py f r = Inr h \<Longrightarrow> over unknowns f \<Longrightarrow> over unknowns h"
proof -
  assume a: "formula_scale py f r = Inr h" "over unknowns f"
  then have "fst ` set (coefficients h) \<subseteq> fst ` set (coefficients f)"
    by (force simp: formula_scale_def result_simps dest!: bounded_coefficients)
  also have "\<dots> \<subseteq> set unknowns" using a(2) by (simp add: over_def)
  finally have "fst ` set (coefficients h) \<subseteq> set unknowns" .
  then show ?thesis using a formula_scale_sound [OF a(1)] by (simp add: over_def)
qed

lemma formula_sub_over: "formula_sub py f g = Inr h \<Longrightarrow> over unknowns f \<Longrightarrow> over unknowns g \<Longrightarrow> over unknowns h"
  by (auto simp: formula_sub_def result_simps intro: formula_add_over formula_scale_over)

lemma over_dimensionless: "over unknowns (known dimensionless)"
  by (simp add: over_def) (simp add: known_def)

interpretation over_unknowns: closed_formulas "over unknowns" py for unknowns py
  by unfold_locales (rule over_dimensionless formula_add_over formula_sub_over formula_scale_over; assumption?)+

definition over_constraints :: "pystr list \<Rightarrow> dimension_analyzer \<Rightarrow> bool" where
  "over_constraints unknowns a \<longleftrightarrow>
     (\<forall>(x, f) \<in> set (symbol_bindings a). over unknowns f)
     \<and> (\<forall>c \<in> set (generated a). over unknowns (left_side c) \<and> over unknowns (right_side c))"

lemma analyze_over:
  assumes "analyze py ast_parse source a = Inr (f, a')" and "over_constraints unknowns a"
  shows "over unknowns f \<and> over_constraints unknowns a'"
proof -
  obtain body where v: "visit_dimension py (symbol_bindings a) (normalize_dimension_source source) body (generated a) = Inr (f, generated a')"
    and b: "symbol_bindings a' = symbol_bindings a" using analyze_Inr [OF assms(1)] by blast
  have "\<forall>(x, f) \<in> set (symbol_bindings a). over unknowns f" using assms(2) by (simp add: over_constraints_def)
  from over_unknowns.visit_closed [OF v this] assms(2) show ?thesis
    by (auto simp: over_constraints_def b over_unknowns.both_sides_def list_all_iff)
qed

lemma infer_equation_over:
  assumes "infer_equation py ast_parse item a = Inr a'" and "over_constraints unknowns a"
  shows "over_constraints unknowns a'"
proof -
  obtain l r el er f g a1 a2 where 1: "analyze py ast_parse l a = Inr (f, a1)" and 2: "analyze py ast_parse r a1 = Inr (g, a2)"
    and 3: "add_equation f g (equation_text l r) a2 = Inr a'"
    using assms(1) by (auto simp: infer_equation_def result_simps split: prod.splits pyval.splits)
  from analyze_over [OF 1 assms(2)] analyze_over [OF 2] have "over unknowns f" "over unknowns g" "over_constraints unknowns a2" by blast+
  with 3 show ?thesis by (auto simp: add_equation_def add_constraint_Inr result_simps over_constraints_def)
qed

lemma differences_over:
  assumes "rmap (constraint_difference py) cs = Inr ds" and "\<forall>c \<in> set cs. over unknowns (left_side c) \<and> over unknowns (right_side c)"
  shows "(\<forall>f \<in> set ds. over unknowns f) \<and> (consistent ds a \<longleftrightarrow> (\<forall>c \<in> set cs. satisfied a c))"
  using assms
proof (induction cs arbitrary: ds)
  case (Cons c cs)
  obtain d ds' where d: "formula_sub py (left_side c) (right_side c) = Inr d" and ds: "ds = d # ds'"
    and rest: "rmap (constraint_difference py) cs = Inr ds'"
    using Cons.prems(1) by (auto simp: constraint_difference_def [of py c] result_simps)
  have ov: "over unknowns (left_side c)" "over unknowns (right_side c)" using Cons.prems(2) by auto
  have "(\<forall>n. formula_exponent a d n = 0) \<longleftrightarrow> satisfied a c"
    using formula_sub_sound [OF d, of a] ov by (simp add: over_def satisfied_def)
  then show ?case using Cons.IH [OF rest] Cons.prems(2) formula_sub_over [OF d ov] by (auto simp: ds consistent_def)
qed (simp add: consistent_def)

text \<open>The solution of a system, its dimensions and the differences of two solutions.\<close>

lemma coefficient_rows: "\<forall>row \<in> set (coefficient_matrix unknowns differences). length row = length unknowns"
  by (simp add: coefficient_matrix_def)

lemma right_sides_length: "length (right_sides differences n) = length (coefficient_matrix unknowns differences)"
  by (simp add: coefficient_matrix_def right_sides_def)

definition assemble :: "pystr list \<Rightarrow> (pystr \<Rightarrow> rat list) \<Rightarrow> pystr \<Rightarrow> pystr \<Rightarrow> rat" where
  "assemble unknowns column s n = column n ! index_of s unknowns"

lemma assemble_column: "distinct unknowns \<Longrightarrow> length (column n) = length unknowns \<Longrightarrow> map (\<lambda>s. assemble unknowns column s n) unknowns = column n"
  by (simp add: list_eq_iff_nth_eq assemble_def index_of_nth)

lemma solution_exists:
  assumes "linear_algebra_laws eng (length unknowns) (coefficient_matrix unknowns differences)" and "ranges_over unknowns differences"
    and "\<forall>name \<in> set (base_dimensions differences).
      \<not> matrix_rank eng (coefficient_matrix unknowns differences)
        < matrix_rank eng (row_join (coefficient_matrix unknowns differences) (right_sides differences name))"
  shows "\<exists>a. consistent differences a"
proof -
  let ?A = "coefficient_matrix unknowns differences" and ?m = "length unknowns"
  have "\<exists>x. length x = ?m \<and> solves ?A (right_sides differences n) x" for n
  proof (cases "n \<in> set (base_dimensions differences)")
    case True
    then show ?thesis using assms(1,3) coefficient_rows right_sides_length unfolding linear_algebra_laws_def by blast
  next
    case False
    have "solves ?A (zero_column ?A) (map (\<lambda>_. 0) unknowns)" by (simp add: solves_def zero_column_def dot_zero)
    then show ?thesis using base_dimension_absent [OF False] by (intro exI [of _ "map (\<lambda>_. 0) unknowns"]) simp
  qed
  then obtain column where c: "\<forall>n. length (column n) = ?m \<and> solves ?A (right_sides differences n) (column n)" by metis
  have "consistent differences (assemble unknowns column)"
    unfolding consistent_iff_solves [OF assms(2)] using c assms(2) by (simp add: assemble_column ranges_over_def)
  then show ?thesis by blast
qed

lemma resolved_coordinate:
  assumes "linear_algebra_laws eng (length unknowns) (coefficient_matrix unknowns differences)" and "length x = length unknowns"
    and "solves (coefficient_matrix unknowns differences) (zero_column (coefficient_matrix unknowns differences)) x"
    and "\<forall>v \<in> set (matrix_nullspace eng (length unknowns) (coefficient_matrix unknowns differences)). v ! i = 0" and "i < length unknowns"
  shows "x ! i = 0"
proof -
  let ?A = "coefficient_matrix unknowns differences"
  have "length (zero_column ?A) = length ?A" by (simp add: zero_column_def)
  then have "in_span (length unknowns) (matrix_nullspace eng (length unknowns) ?A) x"
    using assms(1-3) coefficient_rows unfolding linear_algebra_laws_def by blast
  then obtain cs where "x = map (\<lambda>i. dot cs (map (\<lambda>v. v ! i) (matrix_nullspace eng (length unknowns) ?A))) [0..<length unknowns]"
    by (auto simp: in_span_def)
  moreover have "dot cs (map (\<lambda>v. v ! i) (matrix_nullspace eng (length unknowns) ?A)) = 0"
    using assms(4) by (intro dot_zeros) simp
  ultimately show ?thesis using assms(5) by simp
qed

lemma determined_coordinate:
  assumes "linear_algebra_laws eng (length unknowns) (coefficient_matrix unknowns differences)"
    and "linear_solve eng (coefficient_matrix unknowns differences) (right_sides differences n) = Some entries"
    and "i < length unknowns" and "entries ! i = SRational r" and "length x = length unknowns"
    and "solves (coefficient_matrix unknowns differences) (right_sides differences n) x"
  shows "x ! i = r"
  using assms coefficient_rows right_sides_length unfolding linear_algebra_laws_def by blast

lemma inferred_exact:
  assumes "linear_algebra_laws eng (length unknowns) (coefficient_matrix unknowns differences)" and "ranges_over unknowns differences"
    and "rmap (solve_dimension eng unknowns differences resolved) (base_dimensions differences) = Inr solved"
    and "i \<in> set resolved" and "i < length unknowns"
    and "\<forall>v \<in> set (matrix_nullspace eng (length unknowns) (coefficient_matrix unknowns differences)). v ! i = 0"
    and "from_derived_mapping py (inferred_components solved i) = Inr d" and "consistent differences a"
  shows "a (unknowns ! i) n = vector_exponent d n"
proof -
  let ?A = "coefficient_matrix unknowns differences"
  have names: "distinct (base_dimensions differences)" by (simp add: base_dimensions_def)
  note look = solved_lookup [OF assms(3) names assms(4)]
  have "distinct (map fst (inferred_components solved i))" using look names by (metis distinct_filter)
  moreover have "\<forall>k \<in> fst ` set (inferred_components solved i). ascii_identifier k"
  proof
    fix k assume "k \<in> fst ` set (inferred_components solved i)"
    then have "k \<in> set (base_dimensions differences)" using look by (metis filter_is_subset set_map subsetD)
    then obtain f where f: "f \<in> set differences" "k \<in> fst ` set (components (formula_constant f))" by (auto simp: base_dimensions_def)
    then have "wf_vector (formula_constant f)" using assms(2) by (simp add: ranges_over_def wf_formula_def)
    then show "ascii_identifier k" using wf_vector_names f(2) by blast
  qed
  ultimately have d: "vector_exponent d n = dget (inferred_components solved i) n 0"
    using from_derived_exponent [OF assms(7)] by blast
  have s: "solves ?A (right_sides differences n) (map (\<lambda>s. a s n) unknowns)"
    using assms(8) consistent_iff_solves [OF assms(2)] by blast
  show ?thesis
  proof (cases "n \<in> set (base_dimensions differences)")
    case True
    then obtain entries where "linear_solve eng ?A (right_sides differences n) = Some entries"
      "entries ! i = SRational (dget (inferred_components solved i) n 0)" using look by blast
    then have "map (\<lambda>s. a s n) unknowns ! i = dget (inferred_components solved i) n 0"
      using determined_coordinate [OF assms(1) _ assms(5) _ _ s] by simp
    then show ?thesis using assms(5) d by simp
  next
    case False
    then have "solves ?A (zero_column ?A) (map (\<lambda>s. a s n) unknowns)" using s base_dimension_absent by metis
    then have "map (\<lambda>s. a s n) unknowns ! i = 0" using resolved_coordinate [OF assms(1)] assms(5,6) by simp
    moreover have "n \<notin> fst ` set (inferred_components solved i)" using look False by (metis filter_is_subset set_map subsetD)
    ultimately show ?thesis using assms(5) d by (simp add: dget_absent)
  qed
qed

lemma unresolved_varies:
  assumes "linear_algebra_laws eng (length unknowns) (coefficient_matrix unknowns differences)" and "ranges_over unknowns differences" and "consistent differences a"
    and "v \<in> set (matrix_nullspace eng (length unknowns) (coefficient_matrix unknowns differences))" and "v ! i \<noteq> 0" and "i < length unknowns"
  shows "\<exists>b. consistent differences b \<and> b (unknowns ! i) \<noteq> a (unknowns ! i)"
proof -
  let ?A = "coefficient_matrix unknowns differences"
  define column where "column n = map2 (+) (map (\<lambda>s. a s n) unknowns) v" for n
  have "length (zero_column ?A) = length ?A" by (simp add: zero_column_def)
  then have v: "length v = length unknowns" "solves ?A (zero_column ?A) v"
    using assms(1,4) coefficient_rows unfolding linear_algebra_laws_def by blast+
  have len: "length (column n) = length unknowns" for n by (simp add: column_def v(1))
  have dist: "distinct unknowns" using assms(2) by (simp add: ranges_over_def)
  have "solves ?A (right_sides differences n) (column n)" for n
    unfolding column_def using solves_add v assms(3) consistent_iff_solves [OF assms(2)] by (metis length_map)
  then have "consistent differences (assemble unknowns column)"
    unfolding consistent_iff_solves [OF assms(2)] using assemble_column [OF dist len] by simp
  moreover have "assemble unknowns column (unknowns ! i) [] \<noteq> a (unknowns ! i) []"
    using assms(5,6) v(1) by (simp add: assemble_def index_of_nth [OF dist] column_def)
  ultimately show ?thesis by metis
qed

definition solution_of :: "dimension_analyzer \<Rightarrow> (pystr \<Rightarrow> pystr \<Rightarrow> rat) \<Rightarrow> bool" where
  "solution_of a assignment \<longleftrightarrow> (\<forall>c \<in> set (generated a). satisfied assignment c)"

lemma infer_setup_over:
  assumes "infer_setup py ast_parse eng arguments = Inr (unknowns, a, differences)"
  shows "ranges_over unknowns differences \<and> (\<forall>assignment. consistent differences assignment \<longleftrightarrow> solution_of a assignment)"
proof -
  obtain equations declared where d: "dimension_declarations py eng arguments (u ''known'') MAX_SYMBOLS (VDict []) = Inr declared"
    and un: "unknown_symbols arguments = Inr unknowns"
    and f: "rfold (infer_equation py ast_parse) (enumerate 0 equations)
         (new_analyzer (map (\<lambda>(s, d). (s, known d)) declared @ map (\<lambda>s. (s, unknown s)) unknowns) 2048) = Inr a"
    and diff: "rmap (constraint_difference py) (generated a) = Inr differences"
    using assms by (auto simp: infer_setup_def result_simps)
  have "distinct unknowns" using un by (auto simp: unknown_symbols_def result_simps)
  have "over_constraints unknowns (new_analyzer (map (\<lambda>(s, d). (s, known d)) declared @ map (\<lambda>s. (s, unknown s)) unknowns) 2048)"
    using dimension_declarations_wf [OF d] wf_dimensionless
    by (auto simp: over_constraints_def new_analyzer_def over_def known_def unknown_def wf_formula_def)
  with f have "over_constraints unknowns a" by (rule rfold_invariant) (rule infer_equation_over)
  then have "\<forall>c \<in> set (generated a). over unknowns (left_side c) \<and> over unknowns (right_side c)" by (simp add: over_constraints_def)
  from differences_over [OF diff this] \<open>distinct unknowns\<close> show ?thesis
    by (auto simp: ranges_over_def over_def solution_of_def)
qed

lemma infer_system_inconsistent:
  assumes "infer_system py eng unknowns differences = Inr out" and "classification out = u ''inconsistent''"
    and "linear_algebra_laws eng (length unknowns) (coefficient_matrix unknowns differences)" and "ranges_over unknowns differences"
  shows "\<not> consistent differences a"
proof -
  let ?A = "coefficient_matrix unknowns differences"
  obtain name where "matrix_rank eng ?A < matrix_rank eng (row_join ?A (right_sides differences name))"
    using assms(1,2) by (auto simp: infer_system_def Let_def result_simps filter_empty_conv split: if_splits)
  then have "\<nexists>x. length x = length unknowns \<and> solves ?A (right_sides differences name) x"
    using assms(3) right_sides_length [of differences name unknowns] unfolding linear_algebra_laws_def by blast
  then have "\<not> solves ?A (right_sides differences name) (map (\<lambda>s. a s name) unknowns)" by (metis length_map)
  then show ?thesis using consistent_iff_solves [OF assms(4)] by blast
qed

lemma infer_system_consistent:
  assumes "infer_system py eng unknowns differences = Inr out" and "classification out \<noteq> u ''inconsistent''"
    and laws: "linear_algebra_laws eng (length unknowns) (coefficient_matrix unknowns differences)" and over: "ranges_over unknowns differences"
  shows "(\<exists>a. consistent differences a)
    \<and> (\<forall>(s, d) \<in> set (inferred out). \<forall>a. consistent differences a \<longrightarrow> (\<forall>n. a s n = vector_exponent d n))
    \<and> (\<forall>s \<in> set (unresolved out). \<exists>a b. consistent differences a \<and> consistent differences b \<and> a s \<noteq> b s)
    \<and> set unknowns = fst ` set (inferred out) \<union> set (unresolved out)
    \<and> (classification out = u ''unique'' \<longleftrightarrow> unresolved out = [])"
proof -
  let ?A = "coefficient_matrix unknowns differences" and ?m = "length unknowns"
  let ?null = "matrix_nullspace eng ?m ?A"
  define resolved where "resolved = filter (\<lambda>index. \<forall>v \<in> set ?null. v ! index = 0) [0..<?m]"
  define free where "free = map (\<lambda>index. unknowns ! index) (filter (\<lambda>index. index \<notin> set resolved) [0..<?m])"
  have no: "\<forall>name \<in> set (base_dimensions differences). \<not> matrix_rank eng ?A < matrix_rank eng (row_join ?A (right_sides differences name))"
    using assms(1,2) by (auto simp: infer_system_def Let_def filter_empty_conv result_simps split: if_splits)
  then obtain solved vs where solved: "rmap (solve_dimension eng unknowns differences resolved) (base_dimensions differences) = Inr solved"
    and vs: "rmap (\<lambda>index. rbind (from_derived_mapping py (inferred_components solved index)) (\<lambda>d.
                Inr (unknowns ! index, d))) resolved = Inr vs"
    and out: "inferred out = vs" "unresolved out = free" "classification out = (if free = [] then u ''unique'' else u ''underdetermined'')"
    using assms(1) by (auto simp: infer_system_def Let_def filter_empty_conv result_simps resolved_def free_def)
  obtain a0 where a0: "consistent differences a0" using solution_exists [OF laws over no] by blast
  have vs2: "list_all2 (\<lambda>i sd. fst sd = unknowns ! i \<and> from_derived_mapping py (inferred_components solved i) = Inr (snd sd)) resolved vs"
    using vs by (auto simp: rmap_Inr_iff result_simps elim: list_all2_mono)
  have 1: "\<forall>(s, d) \<in> set vs. \<forall>a. consistent differences a \<longrightarrow> (\<forall>n. a s n = vector_exponent d n)"
  proof (intro ballI allI impI, clarify)
    fix s d a n assume sd: "(s, d) \<in> set vs" and a: "consistent differences a"
    obtain j where "j < length vs" "vs ! j = (s, d)" using sd by (auto simp: in_set_conv_nth)
    then have i: "resolved ! j \<in> set resolved" "s = unknowns ! (resolved ! j)"
        "from_derived_mapping py (inferred_components solved (resolved ! j)) = Inr d"
      using vs2 by (auto simp: list_all2_conv_all_nth)
    then show "a s n = vector_exponent d n"
      using inferred_exact [OF laws over solved i(1) _ _ i(3) a] by (simp add: resolved_def)
  qed
  have 2: "\<forall>s \<in> set free. \<exists>a b. consistent differences a \<and> consistent differences b \<and> a s \<noteq> b s"
  proof
    fix s assume "s \<in> set free"
    then obtain i v where "s = unknowns ! i" "i < ?m" "v \<in> set ?null" "v ! i \<noteq> 0" by (auto simp: free_def resolved_def)
    then show "\<exists>a b. consistent differences a \<and> consistent differences b \<and> a s \<noteq> b s"
      using unresolved_varies [OF laws over a0] a0 by metis
  qed
  have "map fst vs = map (\<lambda>i. unknowns ! i) resolved"
    using vs2 by (simp add: list_all2_conv_all_nth list_eq_iff_nth_eq)
  then have "fst ` set vs = (\<lambda>i. unknowns ! i) ` set resolved" by (metis set_map)
  moreover have "{0..<?m} = set resolved \<union> set (filter (\<lambda>index. index \<notin> set resolved) [0..<?m])" by (auto simp: resolved_def)
  ultimately have "set unknowns = fst ` set vs \<union> set free"
    using nth_image [of ?m unknowns] unfolding free_def set_map by (metis image_Un order_refl take_all_iff)
  then show ?thesis using 1 2 a0 by (auto simp: out)
qed

text \<open>
  C13: The inference of dimensions is exact. Given what it relies on of the linear algebra, the request is
  called inconsistent only when no dimensions of the unknowns satisfy the constraints; otherwise they can
  be satisfied, every inferred dimension is the one that all solutions have, every unresolved symbol has
  different dimensions in two solutions, every unknown is one or the other, and the answer is called
  unique exactly when nothing is unresolved.
\<close>

theorem infer_exact:
  assumes "infer py ast_parse eng arguments = Inr result"
    and "infer_setup py ast_parse eng arguments = Inr (unknowns, a, differences)"
    and "linear_algebra_laws eng (length unknowns) (coefficient_matrix unknowns differences)"
  shows "\<exists>outcome. infer_system py eng unknowns differences = Inr outcome
    \<and> dget_none result (u ''classification'') = VStr (classification outcome)
    \<and> dget_none result (u ''unresolved'') = VList (map VStr (unresolved outcome))
    \<and> (if classification outcome = u ''inconsistent'' then \<not> (\<exists>assignment. solution_of a assignment)
       else (\<exists>assignment. solution_of a assignment)
         \<and> (\<forall>(s, d) \<in> set (inferred outcome). \<forall>assignment. solution_of a assignment \<longrightarrow> (\<forall>n. assignment s n = vector_exponent d n))
         \<and> (\<forall>s \<in> set (unresolved outcome). \<exists>x y. solution_of a x \<and> solution_of a y \<and> x s \<noteq> y s)
         \<and> set unknowns = fst ` set (inferred outcome) \<union> set (unresolved outcome)
         \<and> (classification outcome = u ''unique'' \<longleftrightarrow> unresolved outcome = []))"
proof -
  obtain outcome where out: "infer_system py eng unknowns differences = Inr outcome"
    using assms(1,2) by (auto simp: infer_def result_simps)
  have shown: "dget_none result (u ''classification'') = VStr (classification outcome)"
    "dget_none result (u ''unresolved'') = VList (map VStr (unresolved outcome))"
    using assms(1,2) out by (auto simp: infer_def result_simps dget_none_def dget_def)
  from infer_setup_over [OF assms(2)] have over: "ranges_over unknowns differences"
    and sol: "\<And>assignment. consistent differences assignment \<longleftrightarrow> solution_of a assignment" by blast+
  show ?thesis
  proof (cases "classification outcome = u ''inconsistent''")
    case True
    then show ?thesis using infer_system_inconsistent [OF out True assms(3) over] out shown by (simp add: sol)
  next
    case False
    show ?thesis
      by (intro exI [of _ outcome])
        (use infer_system_consistent [OF out False assms(3) over, unfolded sol] False out shown in simp)
  qed
qed

text \<open>The dimension of a speed, inferred from distance and time.\<close>

definition single_engines :: engines where
  "single_engines = \<lparr>dimensionality = (\<lambda>_. Inl (PyExn (u ''PintError'') [])),
     matrix_rank = (\<lambda>matrix. if \<exists>row \<in> set matrix. \<exists>x \<in> set row. x \<noteq> 0 then 1 else 0),
     matrix_nullspace = (\<lambda>_ _. []), linear_solve = (\<lambda>_ column. Some (map (\<lambda>x. SRational (- x)) column))\<rparr>"

definition speed_request :: pydict where
  "speed_request =
     [(u ''equations'', VList [VDict [(u ''left'', VStr (u ''d'')), (u ''right'', VStr (u ''v*t''))]]),
      (u ''known'', VDict [(u ''d'', VDict [(u ''length'', VInt 1)]), (u ''t'', VDict [(u ''time'', VInt 1)])]),
      (u ''unknown'', VList [VStr (u ''v'')])]"

definition speed_bindings :: "(pystr \<times> dimension_formula) list" where
  "speed_bindings = [(u ''d'', known (DimensionVector [(u ''length'', 1)])), (u ''t'', known (DimensionVector [(u ''time'', 1)])),
     (u ''v'', unknown (u ''v''))]"

definition speed_constraint :: dimension_constraint where
  "speed_constraint = equation_constraint (equation_text (u ''d'') (u ''v*t'')) (known (DimensionVector [(u ''length'', 1)]))
     (DimensionFormula (DimensionVector [(u ''time'', 1)]) [(u ''v'', 1)])"

definition speed_difference :: dimension_formula where
  "speed_difference = DimensionFormula (DimensionVector [(u ''length'', 1), (u ''time'', - 1)]) [(u ''v'', - 1)]"

lemma speed_declarations:
  "dimension_declarations sample_interp single_engines speed_request (u ''known'') MAX_SYMBOLS (VDict [])
    = Inr [(u ''d'', DimensionVector [(u ''length'', 1)]), (u ''t'', DimensionVector [(u ''time'', 1)])]"
  by (simp add: dimension_declarations_def speed_request_def dget_def MAX_SYMBOLS_def motion_symbols dimension_declaration_def
      from_mapping_def motion_eval bounded_exponent_def exponent_bounded_def quotient_parts MAX_DIMENSION_EXPONENT_PART_def)

lemma speed_unknowns: "unknown_symbols speed_request = Inr [u ''v'']"
  by (simp add: unknown_symbols_def list_arg_def speed_request_def dget_none_def dget_def MAX_UNKNOWNS_def motion_symbols)

lemmas coefficient_eval = bounded_coefficient_def bounded_exponent_def exponent_bounded_def quotient_parts MAX_DIMENSION_EXPONENT_PART_def

lemma speed_formulas:
  "formula_add sample_interp (unknown (u ''v'')) (known (DimensionVector [(u ''time'', 1)]))
    = Inr (DimensionFormula (DimensionVector [(u ''time'', 1)]) [(u ''v'', 1)])"
  "formula_sub sample_interp (known (DimensionVector [(u ''length'', 1)])) (DimensionFormula (DimensionVector [(u ''time'', 1)]) [(u ''v'', 1)])
    = Inr speed_difference"
  by (simp_all add: formula_sub_def formula_scale_def formula_add_def vector_scale_def vector_add_def combine_def dget_def derived_eval
      dimensionless_def unknown_def known_def coefficient_eval speed_difference_def sort_key_def)

lemma speed_analysis:
  "analyze sample_interp sample_parser (u ''d'') (new_analyzer speed_bindings 2048)
    = Inr (known (DimensionVector [(u ''length'', 1)]), (new_analyzer speed_bindings 2048)\<lparr>total_nodes := 3\<rparr>)"
  "analyze sample_interp sample_parser (u ''v*t'') ((new_analyzer speed_bindings 2048)\<lparr>total_nodes := 3\<rparr>)
    = Inr (DimensionFormula (DimensionVector [(u ''time'', 1)]) [(u ''v'', 1)], (new_analyzer speed_bindings 2048)\<lparr>total_nodes := 10\<rparr>)"
  by (simp_all add: analyze_def motion_sources sample_parser_def new_analyzer_def speed_bindings_def speed_formulas)

lemma speed_stripped: "strip (u ''d'') = u ''d''" "strip (u ''v*t'') = u ''v*t''"
  by (simp_all add: strip_def is_space_def u_def)

lemma speed_setup:
  "infer_setup sample_interp sample_parser single_engines speed_request
    = Inr ([u ''v''], (new_analyzer speed_bindings 2048)\<lparr>total_nodes := 10, generated := [speed_constraint]\<rparr>, [speed_difference])"
proof -
  have "infer_equation sample_interp sample_parser (0, VDict [(u ''left'', VStr (u ''d'')), (u ''right'', VStr (u ''v*t''))])
      (new_analyzer speed_bindings 2048)
    = Inr ((new_analyzer speed_bindings 2048)\<lparr>total_nodes := 10, generated := [speed_constraint]\<rparr>)"
    by (simp add: infer_equation_def bounded_expression_field_def dget_none_def dget_def speed_stripped speed_analysis
        add_equation_def add_constraint_def MAX_DIMENSION_CONSTRAINTS_def speed_constraint_def)
  moreover have "constraint_difference sample_interp speed_constraint = Inr speed_difference"
    by (simp add: constraint_difference_def speed_constraint_def speed_formulas)
  moreover have "list_arg speed_request (u ''equations'') 1 MAX_EQUATIONS
      = Inr [VDict [(u ''left'', VStr (u ''d'')), (u ''right'', VStr (u ''v*t''))]]"
    by (simp add: list_arg_def speed_request_def dget_none_def dget_def MAX_EQUATIONS_def)
  ultimately show ?thesis
    by (simp add: infer_setup_def speed_declarations speed_unknowns enumerate_eq_zip) (simp add: speed_bindings_def [symmetric])
qed

lemma speed_matrix: "coefficient_matrix [u ''v''] [speed_difference] = [[- 1]]"
  by (simp add: coefficient_matrix_def speed_difference_def dget_def)

lemma single_laws: "linear_algebra_laws single_engines 1 [[- 1]]"
proof -
  have one: "length x = Suc 0 \<longleftrightarrow> (\<exists>a. x = [a])" for x :: "rat list" by (auto simp: length_Suc_conv)
  have sol: "\<exists>x. length x = Suc 0 \<and> solves [[- 1]] [c] x" for c
    by (rule exI [of _ "[- c]"]) (simp add: solves_def dot_def)
  show ?thesis using sol
    by (auto simp: linear_algebra_laws_def single_engines_def one row_join_def solves_def dot_def zero_column_def in_span_def)
qed

lemma speed_system:
  "infer_system sample_interp single_engines [u ''v''] [speed_difference]
    = Inr \<lparr>classification = u ''unique'', inferred = [(u ''v'', DimensionVector [(u ''length'', 1), (u ''time'', - 1)])],
        unresolved = [], system_rank = 1, conflicting = []\<rparr>"
proof -
  have names: "base_dimensions [speed_difference] = [u ''length'', u ''time'']"
    by (simp add: base_dimensions_def speed_difference_def u_def)
  have sides: "right_sides [speed_difference] (u ''length'') = [- 1]" "right_sides [speed_difference] (u ''time'') = [1]"
    by (simp_all add: right_sides_def speed_difference_def dget_def)
  have "from_derived_mapping sample_interp [(u ''length'', 1), (u ''time'', - 1)] = Inr (DimensionVector [(u ''length'', 1), (u ''time'', - 1)])"
    by (simp add: derived_eval)
  then show ?thesis
    by (simp add: infer_system_def names speed_matrix sides single_engines_def row_join_def solve_dimension_def resolved_value_def
        inferred_components_def dget_def)
qed

lemma speed_result:
  "\<exists>result. infer sample_interp sample_parser single_engines speed_request = Inr result"
  using motion_displays by (auto simp: infer_def speed_setup speed_system)

theorem infer_exact_witness:
  "\<exists>result. infer sample_interp sample_parser single_engines speed_request = Inr result
    \<and> dget_none result (u ''classification'') = VStr (u ''unique'')
    \<and> (\<exists>assignment. satisfied assignment speed_constraint)
    \<and> (\<forall>assignment. satisfied assignment speed_constraint \<longrightarrow>
          assignment (u ''v'') (u ''length'') = 1 \<and> assignment (u ''v'') (u ''time'') = - 1)"
proof -
  obtain result where r: "infer sample_interp sample_parser single_engines speed_request = Inr result" using speed_result by blast
  have "linear_algebra_laws single_engines (length [u ''v'']) (coefficient_matrix [u ''v''] [speed_difference])"
    using single_laws by (simp add: speed_matrix)
  from infer_exact [OF r speed_setup this] show ?thesis using r
    by (auto simp: speed_system solution_of_def vector_exponent_def dget_def)
qed

end
