(* ===== verification/Dimension_Groups.thy ===== *)
theory Dimension_Groups
  imports Dimension_Inference
begin

text \<open>
  The dimensionless groups of \<^verbatim>\<open>dimension.pi_groups\<close> are primitive integer products of dimension one, and
  they span all dimensionless products of the variables.
\<close>

section \<open>Dimensionless groups\<close>

lemma gcd_all_Gcd: "gcd_all xs = Gcd (set xs)"
proof -
  have "foldl (\<lambda>g x. gcd g \<bar>x\<bar>) a xs = gcd a (Gcd (set xs))" if "0 \<le> a" for a :: int
    using that by (induction xs arbitrary: a) (simp_all add: gcd.assoc)
  then show ?thesis by (simp add: gcd_all_def)
qed

lemma lcm_all_dvd:
  "m dvd foldl (\<lambda>m x. lcm m (denominator x)) m xs \<and> (\<forall>x \<in> set xs. denominator x dvd foldl (\<lambda>m x. lcm m (denominator x)) m xs)"
proof (induction xs arbitrary: m)
  case (Cons x xs)
  from Cons [of "lcm m (denominator x)"] show ?case by (auto intro: dvd_trans [OF dvd_lcm1] dvd_trans [OF dvd_lcm2])
qed simp

lemma lcm_all_pos: "0 < lcm_all xs"
proof -
  have "0 < m \<Longrightarrow> 0 < foldl (\<lambda>m x. lcm m (denominator x)) m xs" for m :: int
    by (induction xs arbitrary: m) (simp_all add: lcm_pos_int less_imp_neq [symmetric])
  then show ?thesis by (simp add: lcm_all_def)
qed

lemma cleared: "x \<in> set xs \<Longrightarrow> of_int (numerator x * (lcm_all xs div denominator x)) = of_int (lcm_all xs) * x"
proof -
  assume "x \<in> set xs"
  then have "denominator x dvd lcm_all xs" using lcm_all_dvd [of 1 xs] by (simp add: lcm_all_def)
  then obtain k where k: "lcm_all xs = denominator x * k" by blast
  have "denominator x \<noteq> 0" using denominator_pos [of x] by linarith
  then have "of_int (numerator x) = x * of_int (denominator x)" using numerator_denominator [of x] by (simp add: field_simps)
  then show ?thesis using \<open>denominator x \<noteq> 0\<close> by (simp add: k)
qed

lemma Gcd_times: "Gcd ((*) c ` A) = \<bar>c\<bar> * Gcd (A :: int set)"
  by (simp add: Gcd_mult abs_mult)

lemma Gcd_without_zero: "Gcd (A - {0}) = Gcd (A :: int set)"
proof (cases "0 \<in> A")
  case True
  then have "Gcd A = Gcd (insert 0 (A - {0}))" by (simp add: insert_absorb)
  then show ?thesis by (simp only: Gcd_insert gcd_0_left normalize_Gcd)
qed simp

lemma oriented_cases: "oriented xs = xs \<or> oriented xs = map uminus xs"
  by (simp add: oriented_def Let_def)

lemma primitive_exponents:
  assumes "primitive_integer_exponents py fractions = Inr xs"
  shows "Gcd (set xs) = 1 \<and> (\<exists>c. c \<noteq> 0 \<and> map of_int xs = map (\<lambda>x. c * x) fractions)
    \<and> length xs = length fractions"
proof -
  let ?l = "lcm_all fractions"
  define ints where "ints = map (\<lambda>x. numerator x * (?l div denominator x)) fractions"
  define g where "g = gcd_all ints"
  have g: "0 < g" and xs: "xs = oriented (map (\<lambda>x. x div g) ints)"
    using assms by (auto simp: primitive_integer_exponents_def Let_def result_simps ints_def g_def)
  have gG: "g = Gcd (set ints)" by (simp add: g_def gcd_all_Gcd)
  have dv: "g dvd x" if "x \<in> set ints" for x using that by (simp add: gG)
  define ys where "ys = map (\<lambda>x. x div g) ints"
  have "g * Gcd (set ys) = Gcd ((*) g ` set ys)" using g by (simp add: Gcd_times)
  also have "(*) g ` set ys = set ints" unfolding ys_def using dv by (force simp: image_image)
  finally have "g * Gcd (set ys) = g" unfolding gG [symmetric] .
  then have "Gcd (set ys) = 1" using g by simp
  moreover have "Gcd (set (map uminus ys)) = Gcd (set ys)"
    using Gcd_times [of "- 1" "set ys"] by (simp add: image_image)
  ultimately have one: "Gcd (set xs) = 1" using oriented_cases [of ys] by (auto simp: xs ys_def)
  have y: "map of_int ys = map (\<lambda>x. (of_int ?l / of_int g) * x) fractions"
  proof -
    have "of_int (numerator x * (?l div denominator x) div g) = (of_int ?l / of_int g) * x" if "x \<in> set fractions" for x
    proof -
      have "g dvd numerator x * (?l div denominator x)" using that by (intro dv) (simp add: ints_def)
      then have "of_int (numerator x * (?l div denominator x) div g) = (of_int (numerator x * (?l div denominator x)) / of_int g :: rat)"
        by (rule of_int_div [rotated])
      then show ?thesis using cleared [OF that] by simp
    qed
    then show ?thesis by (simp add: ys_def ints_def)
  qed
  define k where "k = (of_int ?l / of_int g :: rat)"
  have "k \<noteq> 0" using g lcm_all_pos [of fractions] by (simp add: k_def)
  moreover have "map of_int xs = map (\<lambda>x. k * x) fractions \<or> map of_int xs = map (\<lambda>x. - k * x) fractions"
    using y oriented_cases [of ys] by (auto simp: xs ys_def [symmetric] k_def [symmetric] list_eq_iff_nth_eq)
  moreover have "length xs = length fractions" using oriented_cases [of ys] by (auto simp: xs ys_def ints_def)
  ultimately show ?thesis using one by (metis neg_equal_0_iff_equal)
qed

text \<open>The exponents of a group over all variables, and those of a basis vector.\<close>

definition kernel_laws :: "engines \<Rightarrow> nat \<Rightarrow> rat list list \<Rightarrow> bool" where
  "kernel_laws eng n matrix \<longleftrightarrow>
     (\<forall>v \<in> set (matrix_nullspace eng n matrix). length v = n \<and> solves matrix (zero_column matrix) v)
     \<and> (\<forall>x. length x = n \<and> solves matrix (zero_column matrix) x \<longrightarrow> in_span n (matrix_nullspace eng n matrix) x)"

definition group_exponents :: "(pystr \<times> dimension_vector) list \<Rightarrow> (pystr \<times> int) list \<Rightarrow> rat list" where
  "group_exponents declarations group_items = map (\<lambda>(s, _). of_int (dget group_items s 0)) declarations"

text \<open>The product of the variables with the given powers has no dimension.\<close>

definition dimensionless_product :: "(pystr \<times> dimension_vector) list \<Rightarrow> rat list \<Rightarrow> bool" where
  "dimensionless_product declarations x \<longleftrightarrow> (\<forall>n. dot (map (\<lambda>(_, v). vector_exponent v n) declarations) x = 0)"

lemma dimension_matrix_solves:
  "solves (dimension_matrix declarations) (zero_column (dimension_matrix declarations)) x \<longleftrightarrow> dimensionless_product declarations x"
proof -
  let ?names = "concat (map (\<lambda>(_, v). map fst (components v)) declarations)"
  have absent: "dot (map (\<lambda>(_, v). vector_exponent v n) declarations) x = 0" if "n \<notin> set ?names" for n
  proof -
    have "\<forall>y \<in> set (map (\<lambda>(_, v). vector_exponent v n) declarations). y = 0"
      using that by (auto simp: vector_exponent_def intro!: dget_absent)
    then show ?thesis unfolding dot_def by (induction "map (\<lambda>(_, v). vector_exponent v n) declarations" x arbitrary: declarations rule: list_induct2') auto
  qed
  have "solves (dimension_matrix declarations) (zero_column (dimension_matrix declarations)) x
      \<longleftrightarrow> (\<forall>n \<in> set ?names. dot (map (\<lambda>(_, v). vector_exponent v n) declarations) x = 0)"
    by (simp add: solves_def zero_column_def dimension_matrix_def)
  then show ?thesis using absent unfolding dimensionless_product_def by blast
qed

lemma dot_scale: "dot xs (map (\<lambda>y. c * y) ys) = c * dot xs ys"
  unfolding dot_def by (induction xs ys rule: list_induct2') (auto simp: algebra_simps)

lemma group_exponents_of_vector:
  assumes "distinct (map fst declarations)" and "length xs = length declarations"
  shows "group_exponents declarations (filter (\<lambda>item. snd item \<noteq> 0) (zip (map fst declarations) xs)) = map of_int xs"
  using assms
proof (induction declarations xs rule: list_induct2')
  case (4 p ds y ys)
  obtain s v where p: "p = (s, v)" by (cases p)
  have none: "s \<notin> fst ` set (filter (\<lambda>item. snd item \<noteq> 0) (zip (map fst ds) ys))"
    using 4(2) by (auto simp: p dest: set_zip_leftD)
  define rest where "rest = filter (\<lambda>item. snd item \<noteq> 0) (zip (map fst ds) ys)"
  define all where "all = (if y \<noteq> 0 then (s, y) # rest else rest)"
  have "dget all s 0 = y" using none by (auto simp: all_def rest_def dget_absent) (simp add: dget_def)
  moreover have "group_exponents ds all = group_exponents ds rest"
    unfolding group_exponents_def using 4(2) by (intro map_cong refl) (force simp: p all_def dget_def)
  ultimately have "group_exponents (p # ds) all = of_int y # group_exponents ds rest"
    by (simp add: group_exponents_def p)
  then show ?case using 4 by (simp add: p rest_def all_def split: if_splits)
qed (simp_all add: group_exponents_def)

lemma in_span_rescaled:
  assumes "in_span n basis x" and "list_all2 (\<lambda>v w. length w = n \<and> (\<exists>c. c \<noteq> 0 \<and> w = map (\<lambda>y. c * y) v)) basis basis'"
  shows "in_span n basis' x"
proof -
  obtain cs where cs: "length cs = length basis" "x = map (\<lambda>i. dot cs (map (\<lambda>v. v ! i) basis)) [0..<n]"
    using assms(1) by (auto simp: in_span_def)
  have "\<exists>ds. length ds = length basis' \<and> (\<forall>i < n. dot cs (map (\<lambda>v. v ! i) basis) = dot ds (map (\<lambda>v. v ! i) basis'))"
    using assms(2) cs(1)
  proof (induction basis basis' arbitrary: cs rule: list_all2_induct)
    case (Cons v vs w ws)
    then obtain d ds where cs: "cs = d # ds" "length ds = length vs" by (cases cs) auto
    obtain c where c: "c \<noteq> 0" "w = map (\<lambda>y. c * y) v" and n: "length w = n" using Cons.hyps(1) by blast
    obtain es where es: "length es = length ws" "\<forall>i < n. dot ds (map (\<lambda>v. v ! i) vs) = dot es (map (\<lambda>v. v ! i) ws)"
      using Cons.IH [OF cs(2)] by blast
    have "\<forall>i < n. dot cs (map (\<lambda>v. v ! i) (v # vs)) = dot (d / c # es) (map (\<lambda>v. v ! i) (w # ws))"
      using es(2) c n by (auto simp: cs dot_def)
    then show ?case using es(1) by (intro exI [of _ "d / c # es"]) simp
  qed (simp add: dot_def)
  then show ?thesis unfolding in_span_def cs(2) by (metis (no_types, lifting) atLeastLessThan_iff map_eq_conv set_upt)
qed

text \<open>
  C14: The groups \<^verbatim>\<open>dimension.pi_groups\<close> reports are dimensionless and complete. Every group is a non-empty
  product of non-zero integer powers, without a common divisor, whose dimension is one; and every
  dimensionless product of powers of the variables, whatever its rational exponents, is a product of
  rational powers of the groups.
\<close>

theorem pi_groups_exact:
  assumes "pi_groups py eng arguments = Inr result" and "pi_unit_declarations py eng arguments = Inr unsorted"
    and "distinct (map fst unsorted)" and "kernel_laws eng (length unsorted) (dimension_matrix (sort_key fst unsorted))"
  shows "\<exists>basis. pi_basis py eng (sort_key fst unsorted) = Inr basis
    \<and> dget_none result (u ''nullity'') = VInt (int (length basis))
    \<and> (\<forall>items \<in> set basis. items \<noteq> [] \<and> (\<forall>(s, e) \<in> set items. e \<noteq> 0) \<and> Gcd (snd ` set items) = 1
         \<and> dimensionless_product (sort_key fst unsorted) (group_exponents (sort_key fst unsorted) items))
    \<and> (\<forall>x. length x = length unsorted \<and> dimensionless_product (sort_key fst unsorted) x \<longrightarrow>
         in_span (length unsorted) (map (group_exponents (sort_key fst unsorted)) basis) x)"
proof -
  define ds where "ds = sort_key fst unsorted"
  let ?null = "matrix_nullspace eng (length ds) (dimension_matrix ds)"
  have ds: "length ds = length unsorted" "distinct (map fst ds)" using assms(3) by (simp_all add: ds_def sorted_distinct_keys)
  note laws = assms(4) [folded ds_def ds(1), unfolded kernel_laws_def dimension_matrix_solves]
  obtain basis where basis: "pi_basis py eng ds = Inr basis" and nullity: "dget_none result (u ''nullity'') = VInt (int (length basis))"
    using assms(1,2) by (auto simp: pi_groups_def Let_def ds_def result_simps rmap_Inr_iff dget_none_def dget_def
        dest!: list_all2_lengthD)
  obtain xss where xss: "list_all2 (\<lambda>v xs. primitive_integer_exponents py v = Inr xs) ?null xss"
    and b: "basis = map (\<lambda>xs. filter (\<lambda>item. snd item \<noteq> 0) (zip (map fst ds) xs)) xss"
    using basis by (auto simp: pi_basis_def result_simps rmap_Inr_iff)
  have vec: "length xs = length ds \<and> Gcd (set xs) = 1 \<and> (\<exists>c. c \<noteq> 0 \<and> map of_int xs = map (\<lambda>x. c * x) v)"
    if "v \<in> set ?null" "primitive_integer_exponents py v = Inr xs" for v xs
    using primitive_exponents [OF that(2)] laws that(1) by auto
  have each: "items \<noteq> [] \<and> (\<forall>(s, e) \<in> set items. e \<noteq> 0) \<and> Gcd (snd ` set items) = 1 \<and> dimensionless_product ds (group_exponents ds items)"
    if it: "items \<in> set basis" for items
  proof -
    obtain xs where x: "xs \<in> set xss" and i: "items = filter (\<lambda>item. snd item \<noteq> 0) (zip (map fst ds) xs)"
      using it unfolding b by auto
    obtain j where j: "j < length xss" "xs = xss ! j" using x by (metis in_set_conv_nth)
    define v where "v = ?null ! j"
    have v: "v \<in> set ?null" "primitive_integer_exponents py v = Inr xs"
      using list_all2_lengthD [OF xss] list_all2_nthD2 [OF xss j(1)] j by (simp_all add: v_def)
    note vx = vec [OF v]
    have "snd ` set items = set xs - {0}"
      using vx by (auto simp: i in_set_zip in_set_conv_nth image_iff)
    then have g: "Gcd (snd ` set items) = 1" using vx by (simp add: Gcd_without_zero)
    then have "items \<noteq> []" by auto
    moreover obtain c where "group_exponents ds items = map (\<lambda>x. c * x) v"
      using vx group_exponents_of_vector [OF ds(2)] by (auto simp: i)
    then have "dimensionless_product ds (group_exponents ds items)"
      using laws v(1) by (simp add: dimensionless_product_def dot_scale)
    ultimately show ?thesis using g by (auto simp: i)
  qed
  have "list_all2 (\<lambda>v w. length w = length ds \<and> (\<exists>c. c \<noteq> 0 \<and> w = map (\<lambda>y. c * y) v)) ?null (map (group_exponents ds) basis)"
    unfolding b list.map_comp list_all2_map2
  proof (rule list.rel_mono_strong [OF xss], unfold comp_def)
    fix v xs assume "v \<in> set ?null" "primitive_integer_exponents py v = Inr xs"
    from vec [OF this] group_exponents_of_vector [OF ds(2), of xs]
    show "length (group_exponents ds (filter (\<lambda>item. snd item \<noteq> 0) (zip (map fst ds) xs))) = length ds
      \<and> (\<exists>c. c \<noteq> 0 \<and> group_exponents ds (filter (\<lambda>item. snd item \<noteq> 0) (zip (map fst ds) xs)) = map (\<lambda>y. c * y) v)"
      by simp
  qed
  then have "in_span (length ds) (map (group_exponents ds) basis) x"
    if "length x = length ds" "dimensionless_product ds x" for x
    using in_span_rescaled laws that by blast
  then show ?thesis using each basis nullity ds(1) unfolding ds_def by auto
qed

text \<open>The ratio of two lengths.\<close>

definition length_engines :: engines where
  "length_engines = \<lparr>dimensionality = (\<lambda>_. Inr [(u ''length'', Given (VInt 1))]), matrix_rank = (\<lambda>_. 1),
     matrix_nullspace = (\<lambda>_ _. [[- 1, 1]]), linear_solve = (\<lambda>_ _. None)\<rparr>"

definition ratio_request :: pydict where
  "ratio_request = [(u ''variables'', VDict [(u ''d'', VStr (u ''m'')), (u ''l'', VStr (u ''m''))])]"

definition ratio_declarations :: "(pystr \<times> dimension_vector) list" where
  "ratio_declarations = [(u ''d'', DimensionVector [(u ''length'', 1)]), (u ''l'', DimensionVector [(u ''length'', 1)])]"

lemma ratio_declared: "pi_unit_declarations sample_interp length_engines ratio_request = Inr ratio_declarations"
proof -
  have "strip (u ''m'') = u ''m''" "strip (u ''d'') = u ''d''" "strip (u ''l'') = u ''l''" "ascii_identifier (u ''d'')" "ascii_identifier (u ''l'')"
    by (simp_all add: strip_def is_space_def ascii_identifier_def identifier_start_def u_def)
  then show ?thesis
    by (simp add: pi_unit_declarations_def ratio_request_def dget_none_def dget_def MAX_PI_VARIABLES_def dimension_declaration_def
        length_engines_def from_mapping_def motion_eval bounded_exponent_def exponent_bounded_def quotient_parts
        MAX_DIMENSION_EXPONENT_PART_def ratio_declarations_def)
qed

lemma ratio_sorted: "sort_key fst ratio_declarations = ratio_declarations"
  by (simp add: ratio_declarations_def sort_key_def u_def)

lemma ratio_basis: "pi_basis sample_interp length_engines ratio_declarations = Inr [[(u ''d'', 1), (u ''l'', - 1)]]"
  by (simp add: pi_basis_def length_engines_def ratio_declarations_def primitive_integer_exponents_def lcm_all_def gcd_all_def quotient_parts
      oriented_def count_if_def motion_digits)

lemma ratio_matrix: "dimension_matrix ratio_declarations = [[1, 1]]"
  by (simp add: dimension_matrix_def ratio_declarations_def vector_exponent_def dget_def)

lemma ratio_laws: "kernel_laws length_engines 2 [[1, 1]]"
proof -
  have two: "length x = 2 \<longleftrightarrow> (\<exists>a b. x = [a, b])" for x :: "rat list" by (auto simp: length_Suc_conv numeral_2_eq_2)
  have "in_span 2 [[- 1, 1]] [a, b]" if "a + b = 0" for a b :: rat
    unfolding in_span_def using that by (intro exI [of _ "[b]"]) (auto simp: dot_def upt_rec numeral_2_eq_2)
  then show ?thesis by (auto simp: kernel_laws_def length_engines_def solves_def dot_def zero_column_def two)
qed

theorem pi_groups_exact_witness:
  "\<exists>result. pi_groups sample_interp length_engines ratio_request = Inr result
    \<and> dget_none result (u ''nullity'') = VInt 1
    \<and> dimensionless_product ratio_declarations (group_exponents ratio_declarations [(u ''d'', 1), (u ''l'', - 1)])"
proof -
  have "\<exists>groups. rmap (group_json sample_interp) (enumerate 1 [[(u ''d'', 1), (u ''l'', - 1)]]) = Inr groups"
    by (simp add: group_json_def int_str_def digits_allowed_def sample_interp_def nat_text.simps)
  then obtain result where r: "pi_groups sample_interp length_engines ratio_request = Inr result"
    by (auto simp: pi_groups_def ratio_declared ratio_sorted ratio_basis)
  have "distinct (map fst ratio_declarations)" "length ratio_declarations = 2" by (simp_all add: ratio_declarations_def)
  from pi_groups_exact [OF r ratio_declared this(1)] this(2) r ratio_laws show ?thesis
    by (auto simp: ratio_sorted ratio_basis ratio_matrix)
qed

end
