(* ===== verification/Safe_Expression.thy ===== *)
theory Safe_Expression
  imports Py_Ast Validation
begin

text \<open>
  \<^verbatim>\<open>safe_expression.py\<close>: the only way expression text reaches the algebra engine. \<^verbatim>\<open>ast.parse\<close> and
  \<^verbatim>\<open>sympy\<close> are parameters: \<open>cas\<close> holds the engine's operations over its own type of expressions, and
  an exception is named by the class under which the handlers distinguish it.
\<close>

section \<open>The algebra engine\<close>

text \<open>
  The operations of \<^verbatim>\<open>sympy\<close> that the translator calls. Every one may raise. \<open>cas_is_zero\<close> and
  \<open>cas_is_real\<close> are three-valued (\<open>None\<close> is undecided); \<open>cas_magnitude\<close> is
  \<^verbatim>\<open>float(sp.N(sp.Abs(e), 20))\<close>; \<open>cas_call\<close> applies the function with a given name in \<^verbatim>\<open>sympy\<close>.
\<close>

record 'e cas =
  cas_integer :: "int \<Rightarrow> 'e"
  cas_float :: "pystr \<Rightarrow> pyexn + 'e"
  cas_symbol :: "pystr \<Rightarrow> 'e"
  cas_constant :: "pystr \<Rightarrow> 'e"
  cas_neg :: "'e \<Rightarrow> pyexn + 'e"
  cas_binary :: "pybinop \<Rightarrow> 'e \<Rightarrow> 'e \<Rightarrow> pyexn + 'e"
  cas_call :: "pystr \<Rightarrow> 'e list \<Rightarrow> pyexn + 'e"
  cas_is_number :: "'e \<Rightarrow> pyexn + bool"
  cas_has_nan :: "'e \<Rightarrow> pyexn + bool"
  cas_is_zero :: "'e \<Rightarrow> pyexn + bool option"
  cas_is_real :: "'e \<Rightarrow> pyexn + bool option"
  cas_magnitude :: "'e \<Rightarrow> pyexn + pyfloat"

text \<open>\<^verbatim>\<open>_CONSTANTS\<close> and \<^verbatim>\<open>_FUNCTIONS\<close>: the registered names and the \<^verbatim>\<open>sympy\<close> names behind them.\<close>

definition CONSTANTS :: "(pystr \<times> pystr) list" where
  "CONSTANTS =
     [(u ''pi'', u ''pi''), (u ''e'', u ''E''), (u ''E'', u ''E''), (u ''i'', u ''I''), (u ''I'', u ''I''),
      (u ''inf'', u ''oo'')]"

datatype cas_function = Plain pystr | LogBase int

definition FUNCTIONS :: "(pystr \<times> cas_function) list" where
  "FUNCTIONS =
     [(u ''abs'', Plain (u ''Abs'')), (u ''acos'', Plain (u ''acos'')), (u ''airyai'', Plain (u ''airyai'')),
      (u ''airybi'', Plain (u ''airybi'')), (u ''asin'', Plain (u ''asin'')), (u ''atan'', Plain (u ''atan'')),
      (u ''atan2'', Plain (u ''atan2'')), (u ''beta'', Plain (u ''beta'')), (u ''besselj'', Plain (u ''besselj'')),
      (u ''bessely'', Plain (u ''bessely'')), (u ''ceil'', Plain (u ''ceiling'')), (u ''cos'', Plain (u ''cos'')),
      (u ''cosh'', Plain (u ''cosh'')), (u ''erf'', Plain (u ''erf'')), (u ''exp'', Plain (u ''exp'')),
      (u ''factorial'', Plain (u ''factorial'')), (u ''floor'', Plain (u ''floor'')), (u ''gamma'', Plain (u ''gamma'')),
      (u ''lambertw'', Plain (u ''LambertW'')), (u ''ln'', Plain (u ''log'')), (u ''log'', Plain (u ''log'')),
      (u ''log10'', LogBase 10), (u ''log2'', LogBase 2), (u ''max'', Plain (u ''Max'')), (u ''min'', Plain (u ''Min'')),
      (u ''polygamma'', Plain (u ''polygamma'')), (u ''sin'', Plain (u ''sin'')), (u ''sinh'', Plain (u ''sinh'')),
      (u ''sqrt'', Plain (u ''sqrt'')), (u ''tan'', Plain (u ''tan'')), (u ''tanh'', Plain (u ''tanh'')),
      (u ''zeta'', Plain (u ''zeta''))]"

text \<open>A registered function applied; the two logarithms are one-argument \<^verbatim>\<open>lambda\<close>s.\<close>

definition arity_error :: "nat \<Rightarrow> pyexn" where
  "arity_error n =
     PyExn (u ''TypeError'')
       (if n = 0 then u ''<lambda>() missing 1 required positional argument: '' @ [39] @ u ''x'' @ [39]
        else u ''<lambda>() takes 1 positional argument but '' @ int_text (int n) @ u '' were given'')"

definition apply_function :: "'e cas \<Rightarrow> cas_function \<Rightarrow> 'e list \<Rightarrow> pyexn + 'e" where
  "apply_function cas f args =
     (case f of
        Plain name \<Rightarrow> cas_call cas name args
      | LogBase b \<Rightarrow> (case args of [x] \<Rightarrow> cas_call cas (u ''log'') [x, cas_integer cas b]
                      | _ \<Rightarrow> Inl (arity_error (length args))))"

section \<open>Guards of the translator\<close>

definition MAX_TRANSLATED_NODES :: nat where
  "MAX_TRANSLATED_NODES = 512"

definition undefined_result :: pyexn where
  "undefined_result = calc ''E_DOMAIN'' (u ''result is undefined for the supplied input'')"

text \<open>\<open>catching classes f r\<close> is \<^verbatim>\<open>except classes as error: raise f(error) from error\<close>.\<close>

definition catching :: "pystr list \<Rightarrow> (pystr \<Rightarrow> pyexn) \<Rightarrow> pyexn + 'a \<Rightarrow> pyexn + 'a" where
  "catching classes f r =
     (case r of Inl (PyExn cls msg) \<Rightarrow> (if cls \<in> set classes then Inl (f msg) else r) | _ \<Rightarrow> r)"

definition PROBE_ERRORS :: "pystr list" where
  "PROBE_ERRORS = [u ''AttributeError'', u ''OverflowError'', u ''RecursionError'', u ''TypeError'', u ''ValueError'']"

definition NUMBER_ERRORS :: "pystr list" where
  "NUMBER_ERRORS = [u ''TypeError'', u ''ValueError'', u ''OverflowError'']"

fun float_at_most :: "pyfloat \<Rightarrow> rat \<Rightarrow> bool" where
  "float_at_most (FFin r) b \<longleftrightarrow> r \<le> b"
| "float_at_most (FInf negative) b \<longleftrightarrow> negative"
| "float_at_most FNan b \<longleftrightarrow> False"

definition require_exponent_bound :: "'e cas \<Rightarrow> 'e \<Rightarrow> pyexn + unit" where
  "require_exponent_bound cas right =
     rbind (cas_is_number cas right) (\<lambda>number.
     if number then
       rbind (catching NUMBER_ERRORS (\<lambda>_. calc ''E_LIMIT'' (u ''exponent magnitude must be finite'')) (cas_magnitude cas right))
         (\<lambda>numeric_exponent. demand (float_at_most numeric_exponent 10000) (calc ''E_LIMIT'' (u ''exponent is too large'')) (Inr ()))
     else Inr ())"

definition guarded_division :: "'e cas \<Rightarrow> 'e \<Rightarrow> 'e \<Rightarrow> pyexn + 'e" where
  "guarded_division cas left right =
     catching PROBE_ERRORS (\<lambda>_. undefined_result)
       (rbind (cas_has_nan cas right) (\<lambda>nan.
        if nan then Inl undefined_result
        else rbind (cas_is_zero cas right) (\<lambda>zero.
          if zero = Some True then Inl undefined_result else cas_binary cas ODiv left right)))"

definition guarded_modulo :: "'e cas \<Rightarrow> 'e \<Rightarrow> 'e \<Rightarrow> pyexn + 'e" where
  "guarded_modulo cas left right =
     catching PROBE_ERRORS (\<lambda>_. undefined_result)
       (rbind (cas_has_nan cas left) (\<lambda>lnan.
        rbind (if lnan then Inr True else cas_has_nan cas right) (\<lambda>nan.
        if nan then Inl undefined_result
        else rbind (cas_is_zero cas right) (\<lambda>zero.
          if zero = Some True then Inl undefined_result
          else rbind (cas_is_real cas left) (\<lambda>lreal.
            rbind (if lreal = Some False then Inr (Some False) else cas_is_real cas right) (\<lambda>real.
              if real = Some False then Inl (calc ''E_DOMAIN'' (u ''modulo is not defined for non-real arguments''))
              else cas_binary cas OMod left right))))))"

text \<open>
  \<^verbatim>\<open>_require_factorial_bound\<close>. \<^verbatim>\<open>math.floor\<close> of an infinite or undefined float raises, outside of the
  \<^verbatim>\<open>try\<close>.
\<close>

definition floor_of_float :: "pyfloat \<Rightarrow> pyexn + int" where
  "floor_of_float f =
     (case f of
        FFin r \<Rightarrow> Inr \<lfloor>r\<rfloor>
      | FInf _ \<Rightarrow> Inl (PyExn (u ''OverflowError'') (u ''cannot convert float infinity to integer''))
      | FNan \<Rightarrow> Inl (PyExn (u ''ValueError'') (u ''cannot convert float NaN to integer'')))"

definition absolute_float :: "pyfloat \<Rightarrow> pyfloat" where
  "absolute_float f = (case f of FFin r \<Rightarrow> FFin \<bar>r\<bar> | FInf _ \<Rightarrow> FInf False | FNan \<Rightarrow> FNan)"

definition require_factorial_bound :: "'e cas \<Rightarrow> 'e \<Rightarrow> pyexn + unit" where
  "require_factorial_bound cas argument =
     rbind (cas_is_number cas argument) (\<lambda>number.
     if \<not> number then Inr ()
     else
       rbind (case cas_magnitude cas argument of
                Inr f \<Rightarrow> Inr (absolute_float f)
              | Inl (PyExn cls msg) \<Rightarrow> if cls \<in> set NUMBER_ERRORS then Inr (FInf False) else Inl (PyExn cls msg)
              | Inl e \<Rightarrow> Inl e) (\<lambda>magnitude.
       rbind (floor_of_float magnitude) (\<lambda>n.
         demand (n \<le> 5000) (calc ''E_LIMIT'' (u ''factorial input is too large'')) (Inr ()))))"

section \<open>The translator\<close>

definition translate_constant :: "'e cas \<Rightarrow> interp \<Rightarrow> pystr option \<Rightarrow> pyval \<Rightarrow> pyexn + 'e" where
  "translate_constant cas py seg v =
     (case v of
        VInt i \<Rightarrow>
          rbind (int_str py \<bar>i\<bar>) (\<lambda>s.
            demand (length s \<le> 1000) (calc ''E_LIMIT'' (u ''integer literal is too large'')) (Inr (cas_integer cas i)))
      | VFloat _ \<Rightarrow>
          (case seg of
             None \<Rightarrow> Inl (calc ''E_SYNTAX'' (u ''numeric literal could not be read''))
           | Some s \<Rightarrow> cas_float cas s)
      | _ \<Rightarrow> Inl (calc ''E_AST_BLOCK'' (u ''only numeric literals are allowed'')))"

definition translate_name :: "'e cas \<Rightarrow> (pystr \<times> 'e) list \<Rightarrow> (pystr \<times> 'e) list \<Rightarrow> pystr \<Rightarrow> pyexn + 'e" where
  "translate_name cas symbols values x =
     (case map_of values x of
        Some e \<Rightarrow> Inr e
      | None \<Rightarrow> (case map_of symbols x of
          Some e \<Rightarrow> Inr e
        | None \<Rightarrow> (case map_of CONSTANTS x of
            Some c \<Rightarrow> Inr (cas_constant cas c)
          | None \<Rightarrow> Inl (calc ''E_NAME'' (u ''unknown name: '' @ x)))))"

text \<open>What remains of \<^verbatim>\<open>visit_BinOp\<close> and \<^verbatim>\<open>visit_Call\<close> once the operands are translated.\<close>

definition combine_operands :: "'e cas \<Rightarrow> pybinop \<Rightarrow> 'e \<Rightarrow> 'e \<Rightarrow> pyexn + 'e" where
  "combine_operands cas op left right =
     rbind (if op = OPow then require_exponent_bound cas right else Inr ()) (\<lambda>_.
       if op = ODiv then guarded_division cas left right
       else if op = OMod then guarded_modulo cas left right
       else cas_binary cas op left right)"

definition some_not_real :: "'e cas \<Rightarrow> 'e list \<Rightarrow> pyexn + bool" where
  "some_not_real cas args =
     rfold (\<lambda>e found. if found then Inr True else rbind (cas_is_real cas e) (\<lambda>r. Inr (r = Some False))) args False"

definition call_registered :: "'e cas \<Rightarrow> pystr \<Rightarrow> cas_function \<Rightarrow> 'e list \<Rightarrow> pyexn + 'e" where
  "call_registered cas name f args =
     rbind (if name \<in> {u ''max'', u ''min''} then some_not_real cas args else Inr False) (\<lambda>not_real.
     demand (\<not> not_real) undefined_result
     (rbind (if name = u ''factorial'' \<and> args \<noteq> [] then require_factorial_bound cas (hd args) else Inr ()) (\<lambda>_.
      catching [u ''TypeError'', u ''ValueError''] (\<lambda>msg. calc ''E_INPUT'' (u ''invalid arguments for '' @ name @ u '': '' @ msg))
        (catching [u ''OverflowError''] (\<lambda>_. calc ''E_LIMIT'' (u ''result of '' @ name @ u '' is too large to evaluate''))
          (apply_function cas f args)))))"

fun translate ::
  "'e cas \<Rightarrow> interp \<Rightarrow> (pystr \<times> 'e) list \<Rightarrow> (pystr \<times> 'e) list \<Rightarrow> pyast \<Rightarrow> nat \<Rightarrow> pyexn + ('e \<times> nat)" where
  "translate cas py symbols values (EConst seg v) nodes =
     demand (Suc nodes \<le> MAX_TRANSLATED_NODES) (calc ''E_LIMIT'' (u ''expression is too complex''))
       (rbind (translate_constant cas py seg v) (\<lambda>e. Inr (e, Suc nodes)))"
| "translate cas py symbols values (EName x) nodes =
     demand (Suc nodes \<le> MAX_TRANSLATED_NODES) (calc ''E_LIMIT'' (u ''expression is too complex''))
       (rbind (translate_name cas symbols values x) (\<lambda>e. Inr (e, Suc nodes)))"
| "translate cas py symbols values (EUnary op a) nodes =
     demand (Suc nodes \<le> MAX_TRANSLATED_NODES) (calc ''E_LIMIT'' (u ''expression is too complex''))
       (rbind (translate cas py symbols values a (Suc nodes)) (\<lambda>(operand, nodes).
          case op of
            UAdd \<Rightarrow> Inr (operand, nodes)
          | USub \<Rightarrow> rbind (cas_neg cas operand) (\<lambda>e. Inr (e, nodes))
          | UOther _ \<Rightarrow> Inl (calc ''E_AST_BLOCK'' (u ''unsupported unary operator''))))"
| "translate cas py symbols values (EBin seg op l r) nodes =
     demand (Suc nodes \<le> MAX_TRANSLATED_NODES) (calc ''E_LIMIT'' (u ''expression is too complex''))
       (case op of
          OOther _ \<Rightarrow> Inl (calc ''E_AST_BLOCK'' (u ''unsupported binary operator''))
        | _ \<Rightarrow>
            rbind (translate cas py symbols values l (Suc nodes)) (\<lambda>(left, nodes).
            rbind (translate cas py symbols values r nodes) (\<lambda>(right, nodes).
            rbind (combine_operands cas op left right) (\<lambda>e. Inr (e, nodes)))))"
| "translate cas py symbols values (ECall seg func args kws) nodes =
     demand (Suc nodes \<le> MAX_TRANSLATED_NODES) (calc ''E_LIMIT'' (u ''expression is too complex''))
       (case (func, kws) of
          (EName name, []) \<Rightarrow>
            (case map_of FUNCTIONS name of
               None \<Rightarrow> Inl (calc ''E_NAME'' (u ''unknown function: '' @ name))
             | Some f \<Rightarrow>
                 demand (length args \<le> 16) (calc ''E_LIMIT'' (u ''too many function arguments''))
                 (demand (name \<in> {u ''max'', u ''min''} \<longrightarrow> 1 \<le> length args)
                    (calc ''E_INPUT'' (name @ u '' requires at least one argument''))
                 (rbind (rfold (\<lambda>a (es, nodes). rbind (translate cas py symbols values a nodes)
                                (\<lambda>(e, nodes). Inr (es @ [e], nodes))) args ([], Suc nodes)) (\<lambda>(es, nodes).
                  rbind (call_registered cas name f es) (\<lambda>e. Inr (e, nodes))))))
        | _ \<Rightarrow> Inl (calc ''E_AST_BLOCK'' (u ''only registered function calls are allowed'')))"
| "translate cas py symbols values (EOther t k) nodes =
     demand (Suc nodes \<le> MAX_TRANSLATED_NODES) (calc ''E_LIMIT'' (u ''expression is too complex''))
       (Inl (calc ''E_AST_BLOCK'' (u ''unsupported expression syntax: '' @ t)))"

section \<open>Entry points\<close>

text \<open>
  \<^verbatim>\<open>parse_expression\<close>; the counter starts at one because \<^verbatim>\<open>visit\<close> is entered at the \<^verbatim>\<open>Expression\<close>
  node. Values given as text are expressions without names of their own.
\<close>

definition invalid_syntax :: "pyexn + 'a \<Rightarrow> pyexn + 'a" where
  "invalid_syntax r = catching [u ''SyntaxError''] (\<lambda>msg. calc ''E_SYNTAX'' (u ''invalid expression: '' @ msg)) r"

definition parse_source :: "(pystr \<Rightarrow> pyexn + pyast) \<Rightarrow> pyval \<Rightarrow> pyexn + pyast" where
  "parse_source ast_parse source =
     (case source of
        VStr s \<Rightarrow>
          demand (0 < length s \<and> length s \<le> 4096) (calc ''E_LIMIT'' (u ''expression must contain 1 to 4096 characters''))
            (invalid_syntax (ast_parse (normalize_expression_source s)))
      | _ \<Rightarrow> Inl (calc ''E_INPUT'' (u ''expression must be a string'')))"

definition translate_tree ::
  "'e cas \<Rightarrow> interp \<Rightarrow> (pystr \<times> 'e) list \<Rightarrow> (pystr \<times> 'e) list \<Rightarrow> pyast \<Rightarrow> pyexn + 'e" where
  "translate_tree cas py symbols values tree =
     rbind (translate cas py symbols values tree 1) (\<lambda>(e, _). Inr e)"

text \<open>\<^verbatim>\<open>str(value)\<close> of a float.\<close>

fun float_str :: "interp \<Rightarrow> pyfloat \<Rightarrow> pystr" where
  "float_str py (FFin r) = float_text py r"
| "float_str py (FInf negative) = (if negative then u ''-inf'' else u ''inf'')"
| "float_str py FNan = u ''nan''"

definition numeric_value :: "'e cas \<Rightarrow> interp \<Rightarrow> (pystr \<Rightarrow> pyexn + pyast) \<Rightarrow> pyval \<Rightarrow> pyexn + 'e" where
  "numeric_value cas py ast_parse value =
     (case value of
        VBool _ \<Rightarrow> Inl (calc ''E_INPUT'' (u ''boolean variable values are not allowed''))
      | VInt i \<Rightarrow> Inr (cas_integer cas i)
      | VFloat f \<Rightarrow> cas_float cas (float_str py f)
      | VStr s \<Rightarrow> rbind (parse_source ast_parse (VStr s)) (translate_tree cas py [] [])
      | _ \<Rightarrow> Inl (calc ''E_INPUT'' (u ''variable values must be numbers or numeric expressions'')))"

definition parse_expression ::
  "'e cas \<Rightarrow> interp \<Rightarrow> (pystr \<Rightarrow> pyexn + pyast) \<Rightarrow> (pystr \<times> 'e) list \<Rightarrow> pydict \<Rightarrow> pyval \<Rightarrow> pyexn + 'e" where
  "parse_expression cas py ast_parse symbols values source =
     rbind (parse_source ast_parse source) (\<lambda>parsed.
     rbind (rmap (\<lambda>(name, value). rbind (numeric_value cas py ast_parse value) (\<lambda>e. Inr (name, e))) values)
       (\<lambda>translated_values. translate_tree cas py symbols translated_values parsed))"

text \<open>\<^verbatim>\<open>make_symbols\<close>: \<^verbatim>\<open>$\<close> in the pattern also matches before a final newline.\<close>

definition identifier_match :: "pystr \<Rightarrow> bool" where
  "identifier_match s \<longleftrightarrow> is_variable s \<or> s \<noteq> [] \<and> last s = 10 \<and> is_variable (butlast s)"

definition make_symbols :: "'e cas \<Rightarrow> pystr list \<Rightarrow> pyexn + (pystr \<times> 'e) list" where
  "make_symbols cas names =
     demand (length names \<le> 16) (calc ''E_LIMIT'' (u ''too many variables''))
     (demand (distinct names) (calc ''E_INPUT'' (u ''variables must not contain duplicates''))
     (rbind (rfold (\<lambda>name _.
          demand (length name \<le> 64) (calc ''E_LIMIT'' (u ''variable names must be at most 64 characters''))
          (demand (identifier_match name) (calc ''E_INPUT'' (u ''invalid variable name: '' @ name))
          (demand (name \<notin> set (map fst CONSTANTS) \<and> name \<notin> set (map fst FUNCTIONS))
             (calc ''E_INPUT'' (u ''reserved variable name: '' @ name)) (Inr ())))) names ())
        (\<lambda>_. Inr (map (\<lambda>name. (name, cas_symbol cas name)) names))))"

text \<open>\<^verbatim>\<open>parse_equation\<close>: the two sides; \<^verbatim>\<open>sp.Eq\<close> is applied to them.\<close>

fun split_on :: "nat \<Rightarrow> pystr \<Rightarrow> pystr list" where
  "split_on c [] = [[]]"
| "split_on c (x # xs) =
     (if x = c then [] # split_on c xs
      else (case split_on c xs of [] \<Rightarrow> [[x]] | part # parts \<Rightarrow> (x # part) # parts))"

definition parse_equation ::
  "'e cas \<Rightarrow> interp \<Rightarrow> (pystr \<Rightarrow> pyexn + pyast) \<Rightarrow> (pystr \<times> 'e) list \<Rightarrow> pystr \<Rightarrow> pyexn + ('e \<times> 'e)" where
  "parse_equation cas py ast_parse symbols source =
     (let side = (\<lambda>s. parse_expression cas py ast_parse symbols [] (VStr s)) in
      case split_on 61 source of
        [only] \<Rightarrow> rbind (side only) (\<lambda>e. Inr (e, cas_integer cas 0))
      | [left, right] \<Rightarrow>
          demand (strip left \<noteq> [] \<and> strip right \<noteq> [])
            (calc ''E_SYNTAX'' (u ''both sides of an equation are required''))
            (rbind (side left) (\<lambda>l. rbind (side right) (\<lambda>r. Inr (l, r))))
      | _ \<Rightarrow> Inl (calc ''E_SYNTAX'' (u ''equation may contain at most one equals sign'')))"

text \<open>\<^verbatim>\<open>parse_matrix\<close>: the rows of the matrix; \<open>py_str\<close> is \<^verbatim>\<open>str(cell)\<close>.\<close>

definition parse_matrix ::
  "'e cas \<Rightarrow> interp \<Rightarrow> (pystr \<Rightarrow> pyexn + pyast) \<Rightarrow> (pyval \<Rightarrow> pyexn + pystr) \<Rightarrow> pyval \<Rightarrow> pyexn + 'e list list" where
  "parse_matrix cas py ast_parse py_str values =
     demand (is_list values \<and> list_val values \<noteq> []) (calc ''E_INPUT'' (u ''matrix must be a non-empty array of rows''))
     (let rows = list_val values in
      demand (length rows \<le> 50) (calc ''E_LIMIT'' (u ''matrix may contain at most 50 rows''))
     (demand (\<forall>row \<in> set rows. is_list row \<and> list_val row \<noteq> [])
        (calc ''E_INPUT'' (u ''matrix rows must be non-empty arrays''))
     (let width = length (list_val (hd rows)) in
      demand (width \<le> 50) (calc ''E_LIMIT'' (u ''matrix may contain at most 50 columns''))
     (demand (\<forall>row \<in> set rows. length (list_val row) = width)
        (calc ''E_INPUT'' (u ''matrix rows must have equal length''))
     (rmap (\<lambda>row. rmap (\<lambda>cell. rbind (py_str cell) (\<lambda>s. parse_expression cas py ast_parse [] [] (VStr s)))
              (list_val row)) rows)))))"

section \<open>What the translator lets through\<close>

text \<open>
  \<open>visited_nodes\<close> counts the nodes the visitor enters. \<open>registered\<close> is the language the translator
  promises: numeric literals of bounded length, known names, six operations and calls of registered
  functions with positional arguments.
\<close>

fun visited_nodes :: "pyast \<Rightarrow> nat" where
  "visited_nodes (EUnary _ a) = Suc (visited_nodes a)"
| "visited_nodes (EBin _ _ l r) = Suc (visited_nodes l + visited_nodes r)"
| "visited_nodes (ECall _ _ args _) = Suc (sum_list (map visited_nodes args))"
| "visited_nodes _ = 1"

fun registered :: "pystr set \<Rightarrow> pyast \<Rightarrow> bool" where
  "registered names (EConst _ v) \<longleftrightarrow>
     (case v of VInt i \<Rightarrow> length (int_text \<bar>i\<bar>) \<le> 1000 | VFloat _ \<Rightarrow> True | _ \<Rightarrow> False)"
| "registered names (EName x) \<longleftrightarrow> x \<in> names \<or> x \<in> set (map fst CONSTANTS)"
| "registered names (EUnary op a) \<longleftrightarrow> op \<in> {UAdd, USub} \<and> registered names a"
| "registered names (EBin _ op l r) \<longleftrightarrow>
     op \<in> {OAdd, OSub, OMult, ODiv, OMod, OPow} \<and> registered names l \<and> registered names r"
| "registered names (ECall _ func args kws) \<longleftrightarrow>
     (\<exists>name \<in> set (map fst FUNCTIONS). func = EName name) \<and> kws = [] \<and> length args \<le> 16
     \<and> (func \<in> {EName (u ''max''), EName (u ''min'')} \<longrightarrow> args \<noteq> []) \<and> list_all (registered names) args"
| "registered names (EOther _ _) \<longleftrightarrow> False"

lemma translated_constant:
  "translate_constant cas py seg v = Inr e \<Longrightarrow> registered names (EConst seg v)"
  by (auto simp: translate_constant_def result_simps dest: int_str_Inr split: pyval.splits)

lemma translated_name:
  "translate_name cas symbols values x = Inr e \<Longrightarrow> registered (fst ` set symbols \<union> fst ` set values) (EName x)"
  by (auto simp: translate_name_def map_of_eq_None_iff [symmetric] split: option.splits dest!: map_of_SomeD intro: rev_image_eqI)

lemma translated_arguments:
  assumes "rfold (\<lambda>a (es, nodes). rbind (f a nodes) (\<lambda>(e, nodes). Inr (es @ [e], nodes))) args (es0, n) = Inr (es, n')"
    and "\<And>a n e n'. a \<in> set args \<Longrightarrow> f a n = Inr (e, n') \<Longrightarrow> P a \<and> n' = n + g a \<and> n' \<le> m"
    and "n \<le> m"
  shows "list_all P args \<and> n' = n + sum_list (map g args) \<and> n' \<le> (m::nat)"
  using assms
proof (induction args arbitrary: es0 n)
  case (Cons a args)
  from Cons.prems(1) obtain e n1 where a: "f a n = Inr (e, n1)"
    and rest: "rfold (\<lambda>a (es, nodes). rbind (f a nodes) (\<lambda>(e, nodes). Inr (es @ [e], nodes))) args (es0 @ [e], n1) = Inr (es, n')"
    by (auto simp: result_simps)
  have "P a \<and> n1 = n + g a \<and> n1 \<le> m" using Cons.prems(2) [OF _ a] by simp
  then show ?case using Cons.IH [OF rest] Cons.prems(2) by fastforce
qed simp

lemma translated:
  "translate cas py symbols vals t n = Inr (e, n') \<Longrightarrow>
     registered (fst ` set symbols \<union> fst ` set vals) t \<and> n' = n + visited_nodes t \<and> n' \<le> MAX_TRANSLATED_NODES"
proof (induction t arbitrary: n e n')
  case (EConst seg v)
  then show ?case by (auto simp: result_simps dest: translated_constant simp del: registered.simps)
next
  case (EName x)
  then show ?case by (auto simp: result_simps dest: translated_name simp del: registered.simps)
next
  case (EUnary op a)
  then show ?case by (cases op) (fastforce simp: result_simps)+
next
  case (EBin seg op l r)
  from EBin.prems have op: "op \<in> {OAdd, OSub, OMult, ODiv, OMod, OPow}"
    by (cases op) (simp_all add: result_simps)
  obtain el n1 er where lr: "translate cas py symbols vals l (Suc n) = Inr (el, n1)"
      "translate cas py symbols vals r n1 = Inr (er, n')"
    using EBin.prems op by (auto simp: result_simps)
  show ?case using EBin.IH(1) [OF lr(1)] EBin.IH(2) [OF lr(2)] op by auto
next
  case (ECall seg func args kws)
  from ECall.prems obtain name f where func: "func = EName name" "kws = []" "map_of FUNCTIONS name = Some f"
    by (auto simp: result_simps split: pyast.splits list.splits option.splits)
  from ECall.prems [unfolded func(1,2), simplified, unfolded func(3), simplified] obtain es n1 where
    guards: "Suc n \<le> MAX_TRANSLATED_NODES" "length args \<le> 16" "name \<in> {u ''max'', u ''min''} \<longrightarrow> 1 \<le> length args"
    and loop: "rfold (\<lambda>a (es, nodes). rbind (translate cas py symbols vals a nodes)
      (\<lambda>(e, nodes). Inr (es @ [e], nodes))) args ([], Suc n) = Inr (es, n1)" and n': "n' = n1"
    by (auto simp: result_simps)
  have "list_all (registered (fst ` set symbols \<union> fst ` set vals)) args
      \<and> n1 = Suc n + sum_list (map visited_nodes args) \<and> n1 \<le> MAX_TRANSLATED_NODES"
    by (rule translated_arguments [OF loop ECall.IH(2) guards(1)])
  moreover have "name \<in> set (map fst FUNCTIONS)"
    using func(3) by (auto dest: map_of_SomeD intro: rev_image_eqI)
  ultimately show ?case using func guards n' by auto
qed (simp add: result_simps)


lemma translated_values:
  "rmap (\<lambda>(name, value). rbind (f value) (\<lambda>e. Inr (name, e))) vs = Inr ws \<Longrightarrow> map fst ws = map fst vs"
  by (induction vs arbitrary: ws) (auto simp: result_simps)

lemma parsed_expression:
  assumes "parse_expression cas py ast_parse symbols vals source = Inr e"
  obtains s tree ws n where "source = VStr s" "0 < length s" "length s \<le> 4096"
    "ast_parse (normalize_expression_source s) = Inr tree" "map fst ws = map fst vals"
    "translate cas py symbols ws tree 1 = Inr (e, n)"
proof -
  from assms obtain tree ws where p: "parse_source ast_parse source = Inr tree"
    and w: "rmap (\<lambda>(name, value). rbind (numeric_value cas py ast_parse value) (\<lambda>e. Inr (name, e))) vals = Inr ws"
    and t: "translate_tree cas py symbols ws tree = Inr e"
    by (auto simp: parse_expression_def rbind_eq_Inr)
  from p obtain s where "source = VStr s" "0 < length s" "length s \<le> 4096"
    "ast_parse (normalize_expression_source s) = Inr tree"
    by (auto simp: parse_source_def invalid_syntax_def catching_def result_simps
        split: pyval.splits sum.splits pyexn.splits if_splits)
  with t translated_values [OF w] show ?thesis
    using that by (auto simp: translate_tree_def result_simps)
qed

text \<open>
  C16: Nothing outside the registered language reaches the engine. Whenever \<^verbatim>\<open>parse_expression\<close> returns,
  its source is a text of 1 to 4096 characters that parses to a tree of at most 511 nodes, built only of
  numeric literals of at most 1000 digits, names that are declared or constants, the six arithmetic
  operations and calls of registered functions with at most 16 positional arguments; any other source
  is rejected.
\<close>

theorem parse_expression_registered:
  assumes "parse_expression cas py ast_parse symbols vals source = Inr e"
  shows "\<exists>s tree. source = VStr s \<and> 1 \<le> length s \<and> length s \<le> 4096
    \<and> ast_parse (normalize_expression_source s) = Inr tree
    \<and> visited_nodes tree \<le> 511 \<and> registered (fst ` set symbols \<union> fst ` set vals) tree"
proof -
  from assms obtain s tree ws n where s: "source = VStr s" "0 < length s" "length s \<le> 4096"
    "ast_parse (normalize_expression_source s) = Inr tree"
    and w: "map fst ws = map fst vals" and t: "translate cas py symbols ws tree 1 = Inr (e, n)"
    by (rule parsed_expression)
  from arg_cong [OF w, of set] have "fst ` set ws = fst ` set vals" by simp
  then have "registered (fst ` set symbols \<union> fst ` set vals) tree" "visited_nodes tree \<le> 511"
    using translated [OF t] by (simp_all add: MAX_TRANSLATED_NODES_def)
  with s show ?thesis by (metis One_nat_def Suc_leI)
qed

text \<open>
  The factorial guard replaces a magnitude it cannot compute by infinity and then takes its floor, which
  raises: the limit error it means to report is never raised for such an argument.
\<close>

lemma infinite_factorial_escapes:
  assumes "cas_is_number cas x = Inr True" and "cas_magnitude cas x = Inl (PyExn (u ''OverflowError'') msg)"
  shows "call_registered cas (u ''factorial'') f [x]
    = Inl (PyExn (u ''OverflowError'') (u ''cannot convert float infinity to integer''))"
  using assms by (simp add: call_registered_def require_factorial_bound_def NUMBER_ERRORS_def floor_of_float_def)

section \<open>A translated expression\<close>

text \<open>The engine that builds terms and never raises.\<close>

definition term_cas :: "pyast cas" where
  "term_cas =
     \<lparr>cas_integer = (\<lambda>i. EConst None (VInt i)), cas_float = (\<lambda>s. Inr (EConst (Some s) (VFloat (FFin 0)))),
      cas_symbol = EName, cas_constant = EName, cas_neg = (\<lambda>e. Inr (EUnary USub e)),
      cas_binary = (\<lambda>op l r. Inr (EBin None op l r)), cas_call = (\<lambda>f es. Inr (ECall None (EName f) es [])),
      cas_is_number = (\<lambda>_. Inr False), cas_has_nan = (\<lambda>_. Inr False), cas_is_zero = (\<lambda>_. Inr None),
      cas_is_real = (\<lambda>_. Inr None), cas_magnitude = (\<lambda>_. Inr FNan)\<rparr>"

definition sine_tree :: pyast where
  "sine_tree = ECall None (EName (u ''sin'')) [EBin None OMult (EConst None (VInt 2)) (EName (u ''pi''))] []"

definition sample_python :: interp where
  "sample_python = \<lparr>float_text = (\<lambda>_. []), sha256 = (\<lambda>_. replicate 64 48), digit_limit = 4300\<rparr>"

lemma sine_translated:
  "parse_expression term_cas sample_python (\<lambda>_. Inr sine_tree) [] [] (VStr (u ''sin(2*pi)''))
     = Inr (ECall None (EName (u ''sin'')) [EBin None OMult (EConst None (VInt 2)) (EName (u ''pi''))] [])"
proof -
  have name: "translate_name term_cas [] [] (u ''pi'') = Inr (EName (u ''pi''))"
    by (simp add: translate_name_def CONSTANTS_def term_cas_def)
  have two: "translate_constant term_cas sample_python None (VInt 2) = Inr (EConst None (VInt 2))"
    by (simp add: translate_constant_def term_cas_def sample_python_def int_str_def digits_allowed_def int_text_def nat_text.simps)
  have mult: "combine_operands term_cas OMult l r = Inr (EBin None OMult l r)" for l r
    by (simp add: combine_operands_def term_cas_def)
  have sin: "map_of FUNCTIONS (u ''sin'') = Some (Plain (u ''sin''))"
    by (simp add: FUNCTIONS_def)
  have app: "call_registered term_cas (u ''sin'') (Plain (u ''sin'')) es = Inr (ECall None (EName (u ''sin'')) es [])" for es
    by (simp add: call_registered_def apply_function_def catching_def term_cas_def)
  show ?thesis
    by (simp add: parse_expression_def parse_source_def invalid_syntax_def catching_def translate_tree_def sine_tree_def
        MAX_TRANSLATED_NODES_def name two mult sin app)
qed

theorem parse_expression_registered_witness:
  "visited_nodes sine_tree \<le> 511 \<and> registered {} sine_tree"
  using parse_expression_registered [OF sine_translated] by simp

end
