(* ===== verification/Certificates.thy ===== *)
theory Certificates
  imports Safe_Expression Certificate_Checker "HOL-Library.Multiset"
begin

text \<open>
  \<^verbatim>\<open>operations/certificate.py\<close>: how a polynomial-identity certificate is produced. The shape analyzer
  bounds the expansion before the algebra engine performs it; the difference of the two sides is read off
  the engine's polynomial; and the certificate names its statement and its terms under two digests. The
  second half relates it to \<^verbatim>\<open>certificate_checker.py\<close>, which recomputes the difference without the engine.
\<close>

section \<open>The engine\<close>

text \<open>
  \<open>poly_view\<close> holds what is read of a \<^verbatim>\<open>sympy.Poly\<close>: \<^verbatim>\<open>terms()\<close>, \<^verbatim>\<open>is_zero\<close> and \<^verbatim>\<open>total_degree()\<close>.
  \<open>to_polynomial host gens e\<close> is \<^verbatim>\<open>Poly(expand(e), *gens, domain=QQ)\<close>. \<open>iteration\<close> is the order in
  which a set of exponent tuples is iterated.
\<close>

record poly_view =
  view_terms :: poly
  view_is_zero :: bool
  view_degree :: int

record 'e symbolic_host =
  symbolic :: "'e cas"
  to_polynomial :: "'e list \<Rightarrow> 'e \<Rightarrow> pyexn + poly_view"
  iteration :: "nat list set \<Rightarrow> nat list list"
  python_parse :: "pystr \<Rightarrow> pyexn + pyast"
  is_identifier :: "pystr \<Rightarrow> bool"
  python :: interp

section \<open>Shapes\<close>

text \<open>A shape over-approximates the exponent tuples of a polynomial.\<close>

type_synonym shape = "nat list set"

definition term_limit :: pyexn where
  "term_limit = calc ''E_LIMIT'' (u ''polynomial certificate may contain at most 512 terms'')"

definition degree_limit :: pyexn where
  "degree_limit = calc ''E_LIMIT'' (u ''polynomial certificate degree may not exceed 64'')"

definition bounded_shape :: "shape \<Rightarrow> pyexn + shape" where
  "bounded_shape s =
     demand (card s \<le> MAX_CERTIFICATE_TERMS) term_limit
     (demand (s = {} \<or> Max (sum_list ` s) \<le> MAX_POLYNOMIAL_DEGREE) degree_limit (Inr s))"

definition multiply_shapes :: "(shape \<Rightarrow> nat list list) \<Rightarrow> shape \<Rightarrow> shape \<Rightarrow> pyexn + shape" where
  "multiply_shapes order left right =
     rfold (\<lambda>left_powers. rfold (\<lambda>right_powers result.
         rbind (add_powers left_powers right_powers) (\<lambda>powers. bounded_shape (insert powers result)))
       (order right)) (order left) {}"

function shape_power_loop :: "(shape \<Rightarrow> nat list list) \<Rightarrow> shape \<Rightarrow> shape \<Rightarrow> nat \<Rightarrow> pyexn + shape" where
  "shape_power_loop order result factor remaining =
     (if remaining = 0 then Inr result
      else rbind (if odd remaining then multiply_shapes order result factor else Inr result)
        (\<lambda>result.
          if remaining div 2 = 0 then Inr result
          else rbind (multiply_shapes order factor factor)
                 (\<lambda>factor. shape_power_loop order result factor (remaining div 2))))"
  by pat_completeness auto
termination
  by (relation "measure (\<lambda>(_, _, _, n). n)") auto

declare shape_power_loop.simps [simp del]

definition power_shape :: "(shape \<Rightarrow> nat list list) \<Rightarrow> shape \<Rightarrow> int \<Rightarrow> nat \<Rightarrow> pyexn + shape" where
  "power_shape order base exponent variable_count =
     demand (0 \<le> exponent) (calc ''E_DOMAIN'' (u ''polynomial exponents must be nonnegative integers''))
     (demand (exponent \<le> int MAX_POLYNOMIAL_DEGREE) degree_limit
        (shape_power_loop order {replicate variable_count 0} base (nat exponent)))"

section \<open>The shape analyzer\<close>

fun call_shape_error :: "pyast \<Rightarrow> pyexn" where
  "call_shape_error (EName f) =
     (if starts_with (u ''_'') f then calc ''E_AST_BLOCK'' (u ''unsupported certificate call syntax'')
      else calc ''E_DOMAIN'' (u ''certificate.polynomial_identity requires a polynomial over rational coefficients''))"
| "call_shape_error _ = calc ''E_AST_BLOCK'' (u ''unsupported certificate call syntax'')"

definition too_complex :: pyexn where
  "too_complex = calc ''E_LIMIT'' (u ''certificate expression is too complex'')"

fun visit_shape :: "(shape \<Rightarrow> nat list list) \<Rightarrow> pystr list \<Rightarrow> pyast \<Rightarrow> nat \<Rightarrow> pyexn + (shape \<times> nat)" where
  "visit_shape order variables (EConst seg v) node_count =
     demand (Suc node_count \<le> MAX_AST_NODES) too_complex
       (demand (is_plain_int v)
          (calc ''E_DOMAIN'' (u ''polynomial certificates require integer literals; write exact rational coefficients as integer division''))
          (Inr ({replicate (length variables) 0}, Suc node_count)))"
| "visit_shape order variables (EName x) node_count =
     demand (Suc node_count \<le> MAX_AST_NODES) too_complex
       (demand (x \<in> set variables)
          (calc ''E_DOMAIN'' (u ''polynomial certificate contains an undeclared variable: '' @ x))
          (Inr ({(replicate (length variables) 0)[index_of x variables := 1]}, Suc node_count)))"
| "visit_shape order variables (EUnary op a) node_count =
     demand (Suc node_count \<le> MAX_AST_NODES) too_complex
       (demand (op \<in> {UAdd, USub})
          (calc ''E_DOMAIN'' (u ''polynomial certificate contains an unsupported unary operator''))
          (visit_shape order variables a (Suc node_count)))"
| "visit_shape order variables (EBin seg op l r) node_count =
     demand (Suc node_count \<le> MAX_AST_NODES) too_complex
       (if op = OAdd \<or> op = OSub then
          rbind (visit_shape order variables l (Suc node_count)) (\<lambda>(left, n).
          rbind (visit_shape order variables r n) (\<lambda>(right, n).
          rbind (bounded_shape (left \<union> right)) (\<lambda>s. Inr (s, n))))
        else if op = OMult then
          rbind (visit_shape order variables l (Suc node_count)) (\<lambda>(left, n).
          rbind (visit_shape order variables r n) (\<lambda>(right, n).
          rbind (multiply_shapes order left right) (\<lambda>s. Inr (s, n))))
        else if op = ODiv then
          demand (int_literal r \<noteq> Some 0) (calc ''E_DOMAIN'' (u ''polynomial division by zero''))
          (rbind (visit_shape order variables l (Suc node_count)) (\<lambda>(numerator, n).
           rbind (visit_shape order variables r n) (\<lambda>(denominator, n).
           demand (denominator = {replicate (length variables) 0})
             (calc ''E_DOMAIN'' (u ''polynomial division requires a nonzero rational constant''))
             (Inr (numerator, n)))))
        else if op = OPow then
          (case int_literal r of
             None \<Rightarrow> Inl (calc ''E_DOMAIN'' (u ''polynomial exponents must be nonnegative integers''))
           | Some exponent \<Rightarrow>
               rbind (visit_shape order variables l (Suc node_count)) (\<lambda>(base, n).
               rbind (power_shape order base exponent (length variables)) (\<lambda>s. Inr (s, n))))
        else Inl (calc ''E_DOMAIN''
          (u ''certificate.polynomial_identity supports only +, -, *, / by a constant, and nonnegative integer powers'')))"
| "visit_shape order variables (ECall seg func args kws) node_count =
     demand (Suc node_count \<le> MAX_AST_NODES) too_complex (Inl (call_shape_error func))"
| "visit_shape order variables (EOther t k) node_count =
     demand (Suc node_count \<le> MAX_AST_NODES) too_complex
       (Inl (calc ''E_AST_BLOCK'' (u ''unsupported certificate syntax: '' @ t)))"

text \<open>\<^verbatim>\<open>visit\<close> is entered at the \<^verbatim>\<open>Expression\<close> node, which counts as one.\<close>

definition preflight_shape ::
  "(shape \<Rightarrow> nat list list) \<Rightarrow> (pystr \<Rightarrow> pyexn + pyast) \<Rightarrow> pystr \<Rightarrow> pystr list \<Rightarrow> pyexn + shape" where
  "preflight_shape order ast_parse source variables =
     rbind (invalid_syntax (ast_parse source)) (\<lambda>parsed.
     rbind (visit_shape order variables parsed 1) (\<lambda>(s, _). Inr s))"

section \<open>The operation\<close>

definition not_polynomial :: pyexn where
  "not_polynomial =
     calc ''E_DOMAIN'' (u ''certificate.polynomial_identity requires a polynomial over rational coefficients'')"

definition certificate_fraction_text :: "interp \<Rightarrow> rat \<Rightarrow> pyexn + pystr" where
  "certificate_fraction_text py value =
     demand (bit_length (numerator value) \<le> MAX_COEFFICIENT_BITS \<and> bit_length (denominator value) \<le> MAX_COEFFICIENT_BITS)
       (calc ''E_LIMIT'' (u ''polynomial certificate coefficients are too large''))
       (fraction_text py value)"

definition certificate_term :: "interp \<Rightarrow> nat list \<times> rat \<Rightarrow> pyexn + pyval" where
  "certificate_term py kc =
     rbind (certificate_fraction_text py (snd kc)) (\<lambda>t.
       Inr (VDict [(u ''powers'', VList (map (\<lambda>e. VInt (int e)) (fst kc))), (u ''coefficient'', VStr t)]))"

text \<open>The terms of the difference; \<^verbatim>\<open>polynomial.terms()\<close> has distinct monomials, which decide the order.\<close>

definition difference_terms :: "interp \<Rightarrow> poly_view \<Rightarrow> pyexn + pyval list" where
  "difference_terms py polynomial =
     demand (view_is_zero polynomial \<or> view_degree polynomial \<le> int MAX_POLYNOMIAL_DEGREE) degree_limit
     (rbind (rmap (certificate_term py) (filter (\<lambda>kc. snd kc \<noteq> 0) (rev (sort_key fst (view_terms polynomial))))) (\<lambda>terms.
      demand (length terms \<le> MAX_CERTIFICATE_TERMS) term_limit (Inr terms)))"

definition build_certificate :: "interp \<Rightarrow> pydict \<Rightarrow> bool \<Rightarrow> pyval list \<Rightarrow> pyexn + pydict" where
  "build_certificate py statement is_identity terms =
     rbind (digest_of py True (VDict statement)) (\<lambda>statement_digest.
     (let certificate =
        [(u ''format'', VStr CERTIFICATE_FORMAT), (u ''statement'', VDict statement),
         (u ''statementDigest'', VStr statement_digest), (u ''identity'', VBool is_identity),
         (u ''normalizedDifference'', VList terms)] in
      rbind (digest_of py True (VDict certificate)) (\<lambda>d.
        Inr (AList.update (u ''certificateDigest'') (VStr d) certificate))))"

definition difference_polynomial ::
  "'e symbolic_host \<Rightarrow> pystr list \<Rightarrow> pystr \<Rightarrow> pystr \<Rightarrow> pyexn + poly_view" where
  "difference_polynomial host variable_names left_source right_source =
     rbind (make_symbols (symbolic host) variable_names) (\<lambda>symbols.
     rbind (preflight_shape (iteration host) (python_parse host) left_source variable_names) (\<lambda>left_shape.
     rbind (preflight_shape (iteration host) (python_parse host) right_source variable_names) (\<lambda>right_shape.
     rbind (bounded_shape (left_shape \<union> right_shape)) (\<lambda>_.
     rbind (parse_expression (symbolic host) (python host) (python_parse host) symbols [] (VStr left_source)) (\<lambda>left.
     rbind (parse_expression (symbolic host) (python host) (python_parse host) symbols [] (VStr right_source)) (\<lambda>right.
     catching [u ''CoercionFailed'', u ''PolynomialError''] (\<lambda>_. not_polynomial)
       (rbind (cas_binary (symbolic host) OSub left right) (\<lambda>difference.
        to_polynomial host (map (cas_symbol (symbolic host)) variable_names) difference))))))))"

definition polynomial_identity :: "'e symbolic_host \<Rightarrow> pydict \<Rightarrow> pyexn + pydict" where
  "polynomial_identity host arguments =
     rbind (string_arg arguments (u ''left'') VNone 4096) (\<lambda>left_text.
     rbind (string_arg arguments (u ''right'') VNone 4096) (\<lambda>right_text.
     rbind (variables_arg (is_identifier host) arguments 8) (\<lambda>variable_names.
     (let left_source = normalize_expression_source left_text;
          right_source = normalize_expression_source right_text;
          statement =
            [(u ''left'', VStr left_source), (u ''right'', VStr right_source),
             (u ''variables'', VList (map VStr variable_names))] in
      rbind (difference_polynomial host variable_names left_source right_source) (\<lambda>polynomial.
      rbind (difference_terms (python host) polynomial) (\<lambda>terms.
      rbind (build_certificate (python host) statement (view_is_zero polynomial) terms) (\<lambda>certificate.
        Inr [(u ''status'', VStr (u ''ok'')),
             (u ''operation'', VStr (u ''certificate.polynomial_identity'')),
             (u ''kind'', VStr (u ''polynomial_identity_certificate'')),
             (u ''identity'', VBool (view_is_zero polynomial)),
             (u ''variables'', VList (map VStr variable_names)),
             (u ''assumptions'', VList [VStr (u ''Variables are commuting indeterminates.''),
                                        VStr (u ''All coefficients are rational numbers.'')]),
             (u ''certificate'', VDict certificate),
             (u ''checkedBy'', VNone),
             (u ''warnings'', VList [VStr (u ''The certificate is independently checkable but has not been accepted by a formal proof kernel.'')])])))))))"

section \<open>What a shape bounds\<close>

text \<open>
  \<open>shape_ok n s\<close> is the invariant of the shapes the analyzer returns; \<open>iterates\<close> is what a set's
  iteration order guarantees.
\<close>

definition small_shape :: "shape \<Rightarrow> bool" where
  "small_shape s \<longleftrightarrow> finite s \<and> card s \<le> MAX_CERTIFICATE_TERMS \<and> (\<forall>k \<in> s. sum_list k \<le> MAX_POLYNOMIAL_DEGREE)"

definition shape_ok :: "nat \<Rightarrow> shape \<Rightarrow> bool" where
  "shape_ok n s \<longleftrightarrow> s \<noteq> {} \<and> small_shape s \<and> (\<forall>k \<in> s. length k = n)"

definition iterates :: "(shape \<Rightarrow> nat list list) \<Rightarrow> bool" where
  "iterates order \<longleftrightarrow> (\<forall>s. finite s \<longrightarrow> set (order s) = s)"

lemma bounded_shape_Inr: "finite s \<Longrightarrow> bounded_shape s = Inr t \<longleftrightarrow> t = s \<and> small_shape s"
  by (cases "s = {}") (auto simp: bounded_shape_def small_shape_def result_simps)

definition minkowski :: "shape \<Rightarrow> shape \<Rightarrow> shape" where
  "minkowski s t = (\<lambda>(a, b). map2 (+) a b) ` (s \<times> t)"

lemma finite_minkowski [simp]: "finite s \<Longrightarrow> finite t \<Longrightarrow> finite (minkowski s t)"
  by (simp add: minkowski_def)

lemma minkowski_insert: "minkowski (insert a s) t = map2 (+) a ` t \<union> minkowski s t"
  by (auto simp: minkowski_def)

lemma minkowski_empty [simp]: "minkowski {} t = {}"
  by (simp add: minkowski_def)

lemma multiply_shape_row:
  assumes "rfold (\<lambda>b result. rbind (add_powers a b) (\<lambda>k. bounded_shape (insert k result))) bs s = Inr t"
    and "small_shape s"
  shows "t = s \<union> map2 (+) a ` set bs \<and> small_shape t"
  using assms
proof (induction bs arbitrary: s)
  case (Cons b bs)
  from Cons.prems(2) have "finite s" by (simp add: small_shape_def)
  with Cons.prems(1) have "small_shape (insert (map2 (+) a b) s)"
    and rest: "rfold (\<lambda>b result. rbind (add_powers a b) (\<lambda>k. bounded_shape (insert k result))) bs (insert (map2 (+) a b) s) = Inr t"
    by (auto simp: result_simps add_powers_def bounded_shape_Inr split: if_splits)
  from Cons.IH [OF rest this(1)] show ?case by auto
qed simp

lemma multiply_shape_rows:
  assumes "rfold (\<lambda>a. rfold (\<lambda>b result. rbind (add_powers a b) (\<lambda>k. bounded_shape (insert k result))) bs) ls s = Inr t"
    and "small_shape s"
  shows "t = s \<union> minkowski (set ls) (set bs) \<and> small_shape t"
  using assms
proof (induction ls arbitrary: s)
  case (Cons a ls)
  from Cons.prems(1) obtain r where
    row: "rfold (\<lambda>b result. rbind (add_powers a b) (\<lambda>k. bounded_shape (insert k result))) bs s = Inr r" and
    rest: "rfold (\<lambda>a. rfold (\<lambda>b result. rbind (add_powers a b) (\<lambda>k. bounded_shape (insert k result))) bs) ls r = Inr t"
    by (auto simp: result_simps)
  from multiply_shape_row [OF row Cons.prems(2)] Cons.IH [OF rest] show ?case by (auto simp: minkowski_insert)
qed simp

lemma multiply_shapes_Inr:
  assumes "iterates order" and "multiply_shapes order s t = Inr r" and "finite s" and "finite t"
  shows "r = minkowski s t \<and> small_shape r"
proof -
  have "set (order s) = s" "set (order t) = t" "small_shape {}"
    using assms(1,3,4) by (simp_all add: iterates_def small_shape_def)
  with multiply_shape_rows [OF assms(2) [unfolded multiply_shapes_def]] show ?thesis by auto
qed

lemma multiply_shapes_ok:
  assumes "iterates order" and "multiply_shapes order s t = Inr r" and "shape_ok n s" and "shape_ok n t"
  shows "r = minkowski s t" and "shape_ok n r"
proof -
  have "finite s" "finite t" using assms(3,4) by (simp_all add: shape_ok_def small_shape_def)
  from multiply_shapes_Inr [OF assms(1,2) this] have r: "r = minkowski s t" "small_shape r" by auto
  show "r = minkowski s t" by (rule r)
  show "shape_ok n r" using r assms(3,4) by (auto simp: shape_ok_def minkowski_def)
qed

lemma shape_power_loop_ok:
  assumes "shape_power_loop order s t m = Inr r" and "iterates order" and "shape_ok n s" and "shape_ok n t"
  shows "shape_ok n r \<and> (\<forall>a \<in> s. \<forall>b \<in> t. map2 (+) a (map ((*) m) b) \<in> r)"
  using assms(1,3,4)
proof (induction m arbitrary: s t r rule: less_induct)
  case (less m)
  show ?case
  proof (cases "m = 0")
    case True
    have "map2 (+) a (map (\<lambda>_. 0) b) = a" if "a \<in> s" "b \<in> t" for a b
      using that less.prems(2,3) by (auto simp: shape_ok_def list_eq_iff_nth_eq)
    with True less.prems(1,2) show ?thesis by (simp add: shape_power_loop.simps)
  next
    case m: False
    with less.prems(1) obtain s' where
      s': "(if odd m then multiply_shapes order s t else Inr s) = Inr s'" and
      rest: "(if m div 2 = 0 then Inr s'
              else rbind (multiply_shapes order t t) (\<lambda>t. shape_power_loop order s' t (m div 2))) = Inr r"
      by (subst (asm) shape_power_loop.simps) (auto simp: rbind_eq_Inr)
    have ok: "shape_ok n s'"
      using s' multiply_shapes_ok(2) [OF assms(2) _ less.prems(2,3), of s'] less.prems(2) by (cases "odd m") simp_all
    have step: "map2 (+) a (map ((*) (m mod 2)) b) \<in> s'" if "a \<in> s" "b \<in> t" for a b
    proof (cases "odd m")
      case True
      then have "s' = minkowski s t" using s' multiply_shapes_ok(1) [OF assms(2) _ less.prems(2,3), of s'] by simp
      moreover have "map ((*) (m mod 2)) b = b" using True by (simp add: odd_iff_mod_2_eq_one list_eq_iff_nth_eq)
      ultimately show ?thesis using that by (auto simp: minkowski_def)
    next
      case False
      then have "map ((*) (m mod 2)) b = map (\<lambda>_. 0) b" by (simp add: even_iff_mod_2_eq_zero)
      moreover have "map2 (+) a (map (\<lambda>_. 0) b) = a" using that less.prems(2,3) by (auto simp: shape_ok_def list_eq_iff_nth_eq)
      ultimately have eq: "map2 (+) a (map ((*) (m mod 2)) b) = a" by (simp only:)
      show ?thesis unfolding eq using False s' that by simp
    qed
    show ?thesis
    proof (cases "m div 2 = 0")
      case True
      with m have "m = 1" by simp
      moreover have "(*) (Suc 0) = (\<lambda>x. x)" by auto
      ultimately show ?thesis using rest ok step by simp
    next
      case False
      with rest obtain t' where t': "multiply_shapes order t t = Inr t'" "shape_power_loop order s' t' (m div 2) = Inr r"
        by (auto simp: rbind_eq_Inr)
      note tt = multiply_shapes_ok [OF assms(2) t'(1) less.prems(3,3)]
      have IH: "shape_ok n r \<and> (\<forall>a \<in> s'. \<forall>b \<in> t'. map2 (+) a (map ((*) (m div 2)) b) \<in> r)"
        by (rule less.IH [OF _ t'(2) ok tt(2)]) (use m in simp)
      have "map2 (+) a (map ((*) m) b) \<in> r" if ab: "a \<in> s" "b \<in> t" for a b
      proof -
        have "map2 (+) b b \<in> t'" using tt(1) ab(2) by (auto simp: minkowski_def)
        with IH step [OF ab] have "map2 (+) (map2 (+) a (map ((*) (m mod 2)) b)) (map ((*) (m div 2)) (map2 (+) b b)) \<in> r"
          by blast
        moreover have "m mod 2 * x + m div 2 * (x + x) = m * x" for x
        proof -
          have "r * x + d * (x + x) = (r + 2 * d) * x" for r d :: nat by (simp add: algebra_simps)
          then show ?thesis by (simp only: mod_mult_div_eq)
        qed
        then have "map2 (+) (map2 (+) a (map ((*) (m mod 2)) b)) (map ((*) (m div 2)) (map2 (+) b b)) = map2 (+) a (map ((*) m) b)"
          using ab less.prems(2,3) by (auto simp: shape_ok_def list_eq_iff_nth_eq add.assoc)
        ultimately show ?thesis by simp
      qed
      with IH show ?thesis by blast
    qed
  qed
qed



lemma unit_shape_ok:
  "i < n \<Longrightarrow> shape_ok n {(replicate n 0)[i := 1]}"
  by (simp add: shape_ok_def small_shape_def MAX_CERTIFICATE_TERMS_def MAX_POLYNOMIAL_DEGREE_def sum_list_update sum_list_replicate)

lemma zero_shape_ok: "shape_ok n {replicate n 0}"
  by (simp add: shape_ok_def small_shape_def MAX_CERTIFICATE_TERMS_def MAX_POLYNOMIAL_DEGREE_def sum_list_replicate)

lemma index_of_less: "x \<in> set xs \<Longrightarrow> index_of x xs < length xs"
  by (induction xs) (auto simp: index_of_def)

lemma power_shape_ok:
  assumes "power_shape order s i n = Inr r" and "iterates order" and "shape_ok n s"
  shows "0 \<le> i" and "i \<le> int MAX_POLYNOMIAL_DEGREE" and "shape_ok n r" and "b \<in> s \<Longrightarrow> map ((*) (nat i)) b \<in> r"
proof -
  from assms(1) have l: "shape_power_loop order {replicate n 0} s (nat i) = Inr r" and i: "0 \<le> i" "i \<le> int MAX_POLYNOMIAL_DEGREE"
    by (simp_all add: power_shape_def result_simps)
  note P = shape_power_loop_ok [OF l assms(2) zero_shape_ok assms(3)]
  show "0 \<le> i" "i \<le> int MAX_POLYNOMIAL_DEGREE" "shape_ok n r" using i P by simp_all
  assume b: "b \<in> s"
  then have "map2 (+) (replicate n 0) (map ((*) (nat i)) b) = map ((*) (nat i)) b"
    using assms(3) by (auto simp: shape_ok_def list_eq_iff_nth_eq)
  with P b show "map ((*) (nat i)) b \<in> r" by fastforce
qed

lemma bounded_union_ok:
  assumes "bounded_shape (s \<union> t) = Inr r" and "shape_ok n s" and "shape_ok n t"
  shows "r = s \<union> t" and "shape_ok n r"
  using assms bounded_shape_Inr [of "s \<union> t" r] by (auto simp: shape_ok_def small_shape_def)

lemma visit_shape_ok:
  "iterates order \<Longrightarrow> visit_shape order vs t k = Inr (s, k') \<Longrightarrow> shape_ok (length vs) s"
proof (induction t arbitrary: k s k')
  case (EConst seg v)
  then show ?case by (auto simp: result_simps zero_shape_ok)
next
  case (EName x)
  then show ?case using unit_shape_ok [OF index_of_less] by (auto simp: result_simps)
next
  case (EUnary op a)
  then show ?case by (auto simp: result_simps)
next
  case (EBin seg op l r)
  from EBin.prems(2) obtain sl k1 where l: "visit_shape order vs l (Suc k) = Inr (sl, k1)"
    by (auto simp: result_simps split: if_splits option.splits)
  have L: "shape_ok (length vs) sl" by (rule EBin.IH(1) [OF EBin.prems(1) l])
  consider (sum) sr where "visit_shape order vs r k1 = Inr (sr, k')" "bounded_shape (sl \<union> sr) = Inr s"
    | (mult) sr where "visit_shape order vs r k1 = Inr (sr, k')" "multiply_shapes order sl sr = Inr s"
    | (same) "s = sl" | (pow) i where "power_shape order sl i (length vs) = Inr s"
    using EBin.prems(2) l by (auto simp: result_simps split: if_splits option.splits)
  then show ?case
  proof cases
    case sum
    show ?thesis by (rule bounded_union_ok(2) [OF sum(2) L EBin.IH(2) [OF EBin.prems(1) sum(1)]])
  next
    case mult
    show ?thesis by (rule multiply_shapes_ok(2) [OF EBin.prems(1) mult(2) L EBin.IH(2) [OF EBin.prems(1) mult(1)]])
  next
    case pow
    show ?thesis by (rule power_shape_ok(3) [OF pow EBin.prems(1) L])
  qed (use L in simp)
qed (simp_all add: result_simps)

section \<open>The checker's arithmetic within a shape\<close>

text \<open>
  \<open>settled P r\<close>: the computation returns a value with \<open>P\<close>, or fails because a coefficient is too long.
\<close>

definition coefficient_limit :: pyexn where
  "coefficient_limit = CertError (u ''certificate coefficient exceeds the checker limit'')"

definition settled :: "('a \<Rightarrow> bool) \<Rightarrow> pyexn + 'a \<Rightarrow> bool" where
  "settled P r \<longleftrightarrow> (case r of Inr x \<Rightarrow> P x | Inl e \<Rightarrow> e = coefficient_limit)"

lemma settled_simps [simp]: "settled P (Inr x) = P x" "settled P (Inl e) \<longleftrightarrow> e = coefficient_limit"
  by (simp_all add: settled_def)

lemma settled_rbind: "settled P r \<Longrightarrow> (\<And>x. r = Inr x \<Longrightarrow> P x \<Longrightarrow> settled Q (f x)) \<Longrightarrow> settled Q (rbind r f)"
  by (cases r) simp_all

lemma settled_mono: "settled P r \<Longrightarrow> (\<And>x. r = Inr x \<Longrightarrow> P x \<Longrightarrow> Q x) \<Longrightarrow> settled Q r"
  by (cases r) simp_all

text \<open>\<open>covers s p\<close>: the polynomial \<open>p\<close> is well formed and has its exponent tuples in the shape \<open>s\<close>.\<close>

definition covers :: "nat \<Rightarrow> shape \<Rightarrow> poly \<Rightarrow> bool" where
  "covers n s p \<longleftrightarrow> shape_ok n s \<and> wf_poly n p \<and> fst ` set p \<subseteq> s"

lemma max_degree_le: "max_degree ks \<le> d \<longleftrightarrow> (\<forall>k \<in> set ks. sum_list k \<le> d)"
  unfolding max_degree_def by (induction ks) auto

lemma bounded_terms_fail:
  "rmap (\<lambda>kc. rbind (bounded_fraction (snd kc)) (\<lambda>c. Inr (fst kc, c))) p = Inl e \<Longrightarrow> e = coefficient_limit"
  by (induction p) (auto simp: result_simps bounded_fraction_def coefficient_limit_def)

lemma normalize_covered:
  assumes "distinct (map fst p)" and "fst ` set p \<subseteq> s" and "shape_ok n s"
  shows "settled (covers n s) (normalize p)"
proof -
  let ?f = "filter (\<lambda>kc. snd kc \<noteq> 0) p"
  let ?r = "rmap (\<lambda>kc. rbind (bounded_fraction (snd kc)) (\<lambda>c. Inr (fst kc, c))) ?f"
  show ?thesis
  proof (cases ?r)
    case (Inl e)
    with bounded_terms_fail [OF Inl] show ?thesis by (simp add: normalize_def)
  next
    case (Inr q)
    then have q: "q = ?f" by (simp add: rmap_bounded_Inr)
    have keys: "fst ` set q \<subseteq> s" "distinct (map fst q)" using assms(1,2) q by (auto simp: distinct_map_filter)
    have fin: "finite s" "card s \<le> MAX_CERTIFICATE_TERMS" "\<forall>k \<in> s. sum_list k \<le> MAX_POLYNOMIAL_DEGREE"
      using assms(3) by (simp_all add: shape_ok_def small_shape_def)
    have "length q = card (fst ` set q)" using distinct_card [OF keys(2)] by simp
    also have "\<dots> \<le> card s" by (rule card_mono [OF fin(1) keys(1)])
    finally have "length q \<le> MAX_CERTIFICATE_TERMS" using fin(2) by simp
    moreover have "max_degree (map fst q) \<le> MAX_POLYNOMIAL_DEGREE"
      using keys(1) fin(3) by (auto simp: max_degree_le)
    moreover have "length (fst kc) = n \<and> snd kc \<noteq> 0" if "kc \<in> set q" for kc
    proof -
      have "fst kc \<in> s" using that keys(1) by blast
      with that assms(3) q show ?thesis by (simp add: shape_ok_def)
    qed
    then have "wf_poly n q" using keys(2) by (simp add: wf_poly_def)
    ultimately show ?thesis using Inr keys assms(3) by (simp add: normalize_def covers_def)
  qed
qed

lemma poly_add_covered:
  assumes "covers n s p" and "covers n t q" and "bounded_shape (s \<union> t) = Inr r"
  shows "settled (covers n r) (poly_add p q c)"
proof -
  let ?f = "foldl (\<lambda>result kc. add_term (fst kc) (c * snd kc) result) p q"
  have "distinct (map fst ?f) \<and> key_lengths n ?f \<and> peval [] (\<lambda>_. 0) ?f = peval [] (\<lambda>_. 0) p + c * peval [] (\<lambda>_. 0) q"
    using assms(1,2) by (intro foldl_add_term) (auto simp: covers_def wf_poly_def key_lengths_def)
  moreover have "fst ` set (foldl (\<lambda>result kc. add_term (fst kc) (c * snd kc) result) p q) = fst ` set p \<union> fst ` set q" for p q
    by (induction q arbitrary: p) (auto simp: keys_add_term)
  moreover have r: "r = s \<union> t" "shape_ok n r"
    using bounded_union_ok [OF assms(3), of n] assms(1,2) by (auto simp: covers_def)
  ultimately show ?thesis
    using assms(1,2) unfolding poly_add_def by (intro normalize_covered) (auto simp: covers_def)
qed

lemma multiply_row_total:
  assumes "length a = n" and "key_lengths n q" and "distinct (map fst r)"
  shows "\<exists>t. rfold (\<lambda>rkc result. rbind (add_powers a (fst rkc)) (\<lambda>powers. Inr (add_term powers (c * snd rkc) result))) q r = Inr t
    \<and> distinct (map fst t) \<and> fst ` set t = fst ` set r \<union> map2 (+) a ` fst ` set q"
  using assms(2,3)
proof (induction q arbitrary: r)
  case (Cons kc q)
  have "\<exists>t. rfold (\<lambda>rkc result. rbind (add_powers a (fst rkc)) (\<lambda>powers. Inr (add_term powers (c * snd rkc) result))) q
      (add_term (map2 (+) a (fst kc)) (c * snd kc) r) = Inr t
    \<and> distinct (map fst t) \<and> fst ` set t = fst ` set (add_term (map2 (+) a (fst kc)) (c * snd kc) r) \<union> map2 (+) a ` fst ` set q"
    by (rule Cons.IH) (use Cons.prems in \<open>simp_all add: key_lengths_Cons distinct_add_term\<close>)
  then show ?case using Cons.prems assms(1) by (auto simp: add_powers_def key_lengths_Cons keys_add_term)
qed simp

lemma multiply_rows_total:
  assumes "key_lengths n p" and "key_lengths n q" and "distinct (map fst r)"
  shows "\<exists>t. rfold (\<lambda>lkc. rfold (\<lambda>rkc result. rbind (add_powers (fst lkc) (fst rkc))
             (\<lambda>powers. Inr (add_term powers (snd lkc * snd rkc) result))) q) p r = Inr t
    \<and> distinct (map fst t) \<and> fst ` set t = fst ` set r \<union> minkowski (fst ` set p) (fst ` set q)"
  using assms(1,3)
proof (induction p arbitrary: r)
  case (Cons kc p)
  from multiply_row_total [OF _ assms(2) Cons.prems(2), of "fst kc" "snd kc"] Cons.prems(1) obtain s where
    s: "rfold (\<lambda>rkc result. rbind (add_powers (fst kc) (fst rkc)) (\<lambda>powers. Inr (add_term powers (snd kc * snd rkc) result))) q r = Inr s"
      "distinct (map fst s)" "fst ` set s = fst ` set r \<union> map2 (+) (fst kc) ` fst ` set q"
    by (auto simp: key_lengths_Cons)
  from Cons.IH [OF _ s(2)] Cons.prems(1) obtain t where
    "rfold (\<lambda>lkc. rfold (\<lambda>rkc result. rbind (add_powers (fst lkc) (fst rkc))
             (\<lambda>powers. Inr (add_term powers (snd lkc * snd rkc) result))) q) p s = Inr t"
      "distinct (map fst t)" "fst ` set t = fst ` set s \<union> minkowski (fst ` set p) (fst ` set q)"
    by (auto simp: key_lengths_Cons)
  with s show ?case by (auto simp: minkowski_insert)
qed simp

lemma minkowski_mono: "a \<subseteq> s \<Longrightarrow> b \<subseteq> t \<Longrightarrow> minkowski a b \<subseteq> minkowski s t"
  unfolding minkowski_def by (intro image_mono Sigma_mono)

lemma poly_multiply_covered:
  assumes "covers n s p" and "covers n t q" and "iterates order" and "multiply_shapes order s t = Inr r"
  shows "settled (covers n r) (poly_multiply p q)"
proof -
  have ok: "shape_ok n s" "shape_ok n t" "key_lengths n p" "key_lengths n q"
    using assms(1,2) by (simp_all add: covers_def wf_polyD)
  note R = multiply_shapes_ok [OF assms(3,4) ok(1,2)]
  obtain m where m: "rfold (\<lambda>lkc. rfold (\<lambda>rkc result. rbind (add_powers (fst lkc) (fst rkc))
             (\<lambda>powers. Inr (add_term powers (snd lkc * snd rkc) result))) q) p [] = Inr m"
      "distinct (map fst m)" "fst ` set m = minkowski (fst ` set p) (fst ` set q)"
    using multiply_rows_total [OF ok(3,4), of "[]"] by (auto simp del: rfold.simps)
  have "fst ` set m \<subseteq> r"
    unfolding m(3) R(1) using assms(1,2) by (intro minkowski_mono) (simp_all add: covers_def)
  then show ?thesis using m(1,2) R(2) by (simp add: poly_multiply_def normalize_covered)
qed


lemma power_loop_covered:
  assumes "shape_power_loop order s t m = Inr r" and "iterates order" and "covers n s p" and "covers n t q"
  shows "settled (covers n r) (power_loop p q m)"
  using assms(1,3,4)
proof (induction m arbitrary: s t p q rule: less_induct)
  case (less m)
  show ?case
  proof (cases "m = 0")
    case True
    with less.prems show ?thesis by (simp add: shape_power_loop.simps power_loop.simps)
  next
    case m: False
    with less.prems(1) obtain s' where
      s': "(if odd m then multiply_shapes order s t else Inr s) = Inr s'" and
      rest: "(if m div 2 = 0 then Inr s'
              else rbind (multiply_shapes order t t) (\<lambda>t. shape_power_loop order s' t (m div 2))) = Inr r"
      by (subst (asm) shape_power_loop.simps) (auto simp: rbind_eq_Inr)
    have first: "settled (covers n s') (if odd m then poly_multiply p q else Inr p)"
      using s' poly_multiply_covered [OF less.prems(2,3) assms(2), of s'] less.prems(2) by (cases "odd m") simp_all
    have "settled (covers n r) (if m div 2 = 0 then Inr p'
        else rbind (poly_multiply q q) (\<lambda>factor. power_loop p' factor (m div 2)))" if p': "covers n s' p'" for p'
    proof (cases "m div 2 = 0")
      case True
      with rest p' show ?thesis by simp
    next
      case False
      with rest obtain t' where t': "multiply_shapes order t t = Inr t'" "shape_power_loop order s' t' (m div 2) = Inr r"
        by (auto simp: rbind_eq_Inr)
      have "settled (covers n t') (poly_multiply q q)"
        by (rule poly_multiply_covered [OF less.prems(3,3) assms(2) t'(1)])
      moreover have "settled (covers n r) (power_loop p' f (m div 2))" if "covers n t' f" for f
        by (rule less.IH [OF _ t'(2) p' that]) (use m in simp)
      ultimately show ?thesis using False by (auto intro: settled_rbind)
    qed
    with first m show ?thesis by (subst power_loop.simps) (auto intro: settled_rbind)
  qed
qed

lemma poly_power_covered:
  assumes "power_shape order s i n = Inr r" and "iterates order" and "covers n s p"
  shows "settled (covers n r) (poly_power p i n)"
proof -
  have s: "shape_ok n s" using assms(3) by (simp add: covers_def)
  note i = power_shape_ok(1,2) [OF assms(1,2) s]
  have "shape_power_loop order {replicate n 0} s (nat i) = Inr r"
    using assms(1) by (simp add: power_shape_def result_simps)
  moreover have "covers n {replicate n 0} [(replicate n 0, 1)]"
    by (simp add: covers_def zero_shape_ok wf_poly_def)
  ultimately show ?thesis
    using i power_loop_covered [OF _ assms(2) _ assms(3)] by (simp add: poly_power_def)
qed

lemma scaled_covered:
  assumes "covers n s p" and "\<And>x. x \<noteq> 0 \<Longrightarrow> f x \<noteq> 0"
  shows "covers n s (map (\<lambda>kc. (fst kc, f (snd kc))) p)"
  using assms wf_poly_map [OF _ assms(2), of n p] by (auto simp: covers_def)

lemma covered_constant:
  assumes "covers n {replicate n 0} p" and "p \<noteq> []"
  shows "set (map fst p) = {replicate n 0}" and "dget p (replicate n 0) 0 \<noteq> 0"
proof -
  show k: "set (map fst p) = {replicate n 0}" using assms by (cases p) (auto simp: covers_def)
  from assms(1) obtain d where "p = [(replicate n 0, d)]" "d \<noteq> 0"
    using wf_poly_constant [OF _ k] by (auto simp: covers_def)
  then show "dget p (replicate n 0) 0 \<noteq> 0" by (simp add: dget_def)
qed

lemma rbind_demand: "rbind (demand c e k) f = demand c e (rbind k f)"
  by (simp add: demand_def)

section \<open>The checker follows the analyzer\<close>

text \<open>
  The interface between the two visitors: \<open>bounds s p\<close> relates a shape of the producer to a polynomial of
  the checker, and every operation of the checker keeps the relation or stops at the length of a
  coefficient. Whatever the relation is, the checker then follows the analyzer through the whole tree.
\<close>

locale covering =
  fixes vs :: "pystr list"
    and order :: "shape \<Rightarrow> nat list list"
    and bounds :: "shape \<Rightarrow> poly \<Rightarrow> bool"
  assumes bounds_zero: "bounds {replicate (length vs) 0} []"
    and bounds_constant: "c \<noteq> 0 \<Longrightarrow> bounds {replicate (length vs) 0} [(replicate (length vs) 0, c)]"
    and bounds_variable:
      "i < length vs \<Longrightarrow> bounds {(replicate (length vs) 0)[i := 1]} [((replicate (length vs) 0)[i := 1], 1)]"
    and bounds_neg: "bounds s p \<Longrightarrow> bounds s (map (\<lambda>kc. (fst kc, - snd kc)) p)"
    and bounds_add: "bounds s p \<Longrightarrow> bounds t q \<Longrightarrow> bounded_shape (s \<union> t) = Inr r \<Longrightarrow> settled (bounds r) (poly_add p q c)"
    and bounds_multiply:
      "iterates order \<Longrightarrow> bounds s p \<Longrightarrow> bounds t q \<Longrightarrow> multiply_shapes order s t = Inr r \<Longrightarrow> settled (bounds r) (poly_multiply p q)"
    and bounds_power:
      "iterates order \<Longrightarrow> bounds s p \<Longrightarrow> power_shape order s e (length vs) = Inr r \<Longrightarrow> settled (bounds r) (poly_power p e (length vs))"
    and bounds_divide:
      "bounds s p \<Longrightarrow> d \<noteq> 0 \<Longrightarrow> settled (bounds s) (normalize (map (\<lambda>kc. (fst kc, snd kc / d)) p))"
    and bounds_constant_shape: "bounds {replicate (length vs) 0} p \<Longrightarrow> p \<noteq> [] \<Longrightarrow>
      set (map fst p) = {replicate (length vs) 0} \<and> dget p (replicate (length vs) 0) 0 \<noteq> 0"
begin

definition followed :: "shape \<Rightarrow> nat \<Rightarrow> poly \<times> nat \<Rightarrow> bool" where
  "followed s m = (\<lambda>(p, m'). bounds s p \<and> m' \<le> m)"

lemma followed_binary:
  assumes "settled (followed sl m) rl" and "\<And>p n. rl = Inr (p, n) \<Longrightarrow> n \<le> m \<Longrightarrow> settled (followed sr b) (rr n)"
    and "\<And>p n q n'. bounds sl p \<Longrightarrow> bounds sr q \<Longrightarrow> rr n = Inr (q, n') \<Longrightarrow> settled (bounds s) (f p q)"
  shows "settled (followed s b) (rbind rl (\<lambda>(p, n). rbind (rr n) (\<lambda>(q, n). rbind (f p q) (\<lambda>s. Inr (s, n)))))"
  by (rule settled_rbind [OF assms(1)], clarsimp simp: followed_def split del: if_split, rule settled_rbind [OF assms(2)])
    (auto simp: followed_def intro!: settled_rbind [OF assms(3)])

lemma followed_unary:
  assumes "settled (followed sl m) rl" and "m \<le> b" and "\<And>p. bounds sl p \<Longrightarrow> settled (bounds s) (f p)"
  shows "settled (followed s b) (rbind rl (\<lambda>(p, n). rbind (f p) (\<lambda>s. Inr (s, n))))"
  by (rule settled_rbind [OF assms(1)])
    (use assms(2) in \<open>auto simp: followed_def intro!: settled_rbind [OF assms(3)]\<close>)

lemma visit_follows:
  assumes "iterates order" and "visit_shape order vs t k = Inr (s, k')" and "\<And>env. ast_value env t \<noteq> None"
    and "m + visited_nodes t \<le> MAX_AST_NODES"
  shows "settled (followed s (m + visited_nodes t)) (visit vs t m)"
  using assms(2-)
proof (induction t arbitrary: k s k' m)
  case (EConst seg v)
  then obtain i where "v = VInt i" "s = {replicate (length vs) 0}"
    by (cases v) (auto simp: result_simps)
  with EConst.prems(3) show ?case by (simp add: followed_def bounds_zero bounds_constant)
next
  case (EName x)
  then show ?case using bounds_variable [OF index_of_less] by (auto simp: result_simps followed_def)
next
  case (EUnary op a)
  then have op: "op = UAdd \<or> op = USub" and s: "visit_shape order vs a (Suc k) = Inr (s, k')"
    by (auto simp: result_simps)
  have "ast_value env a \<noteq> None" for env using EUnary.prems(2) [of env] op by auto
  from EUnary.IH [OF s this, of "Suc m"] EUnary.prems(3)
  have a: "settled (followed s (m + visited_nodes (EUnary op a))) (visit vs a (Suc m))" by simp
  show ?case
  proof (cases "op = UAdd")
    case True
    with a EUnary.prems(3) show ?thesis by simp
  next
    case False
    with op have "op = USub" by simp
    with EUnary.prems(3) show ?thesis
      by (auto intro!: settled_rbind [OF a] simp: followed_def bounds_neg)
  qed
next
  case (EBin seg op l r)
  let ?b = "m + visited_nodes (EBin seg op l r)"
  have defined: "ast_value env l \<noteq> None" for env
    using EBin.prems(2) [of env] by (auto split: pybinop.splits option.splits)
  from EBin.prems(1) obtain sl k1 where l: "visit_shape order vs l (Suc k) = Inr (sl, k1)"
    by (auto simp: result_simps split: if_splits option.splits)
  have L: "settled (followed sl (Suc m + visited_nodes l)) (visit vs l (Suc m))"
    by (rule EBin.IH(1) [OF l defined]) (use EBin.prems(3) in simp)
  have R: "settled (followed sr ?b) (visit vs r n)"
    if "visit_shape order vs r k1 = Inr (sr, k2)" "op \<noteq> OPow" "n \<le> Suc m + visited_nodes l" for sr k2 n
  proof -
    have "ast_value env r \<noteq> None" for env
      using EBin.prems(2) [of env] that(2) by (auto split: pybinop.splits option.splits)
    from EBin.IH(2) [OF that(1) this, of n] that(3) EBin.prems(3)
    show ?thesis by (auto elim!: settled_mono simp: followed_def)
  qed
  have m: "Suc m \<le> MAX_AST_NODES" using EBin.prems(3) by simp
  consider (sum) sr where "op = OAdd \<or> op = OSub" "visit_shape order vs r k1 = Inr (sr, k')" "bounded_shape (sl \<union> sr) = Inr s"
    | (mult) sr where "op = OMult" "visit_shape order vs r k1 = Inr (sr, k')" "multiply_shapes order sl sr = Inr s"
    | (div) "op = ODiv" "visit_shape order vs r k1 = Inr ({replicate (length vs) 0}, k')" "s = sl"
    | (pow) i where "op = OPow" "int_literal r = Some i" "power_shape order sl i (length vs) = Inr s"
    using EBin.prems(1) l by (auto simp: result_simps split: if_splits option.splits)
  then show ?case
  proof cases
    case sum
    define c :: rat where "c = (if op = OAdd then 1 else - 1)"
    have "visit vs (EBin seg op l r) m = rbind (visit vs l (Suc m)) (\<lambda>(p, n). rbind (visit vs r n) (\<lambda>(q, n).
        rbind (poly_add p q c) (\<lambda>s. Inr (s, n))))"
      using sum(1) m by (auto simp: c_def)
    moreover have "op \<noteq> OPow" using sum(1) by auto
    ultimately show ?thesis
      using followed_binary [OF L R [OF sum(2)] bounds_add [OF _ _ sum(3)]] by simp
  next
    case mult
    have "visit vs (EBin seg op l r) m = rbind (visit vs l (Suc m)) (\<lambda>(p, n). rbind (visit vs r n) (\<lambda>(q, n).
        rbind (poly_multiply p q) (\<lambda>s. Inr (s, n))))"
      using mult(1) m by simp
    with mult(1) show ?thesis
      using followed_binary [OF L R [OF mult(2)] bounds_multiply [OF assms(1) _ _ mult(3)]] by simp
  next
    case div
    let ?z = "replicate (length vs) 0"
    define f where "f p q = demand (set (map fst q) = {?z}) (CertError (u ''polynomial division requires a nonzero rational constant''))
       (demand (dget q ?z 0 \<noteq> 0) (CertError (u ''polynomial division by zero''))
         (normalize (map (\<lambda>kc. (fst kc, snd kc / dget q ?z 0)) p)))" for p q :: poly
    have "visit vs (EBin seg op l r) m = rbind (visit vs l (Suc m)) (\<lambda>(p, n). rbind (visit vs r n) (\<lambda>(q, n).
        rbind (f p q) (\<lambda>s. Inr (s, n))))"
      using div(1) m by (simp add: f_def Let_def rbind_demand)
    moreover have "settled (bounds s) (f p q)" if p: "bounds sl p" and q: "bounds {?z} q" "visit vs r n = Inr (q, n')" for p q n n'
    proof -
      have "ast_value env (EBin seg op l r) \<noteq> None" for env by (rule EBin.prems(2))
      moreover have "ast_value (\<lambda>_. 0) r = Some (peval vs (\<lambda>_. 0) q)" using visit_sound [OF q(2)] by simp
      ultimately have "peval vs (\<lambda>_. 0) q \<noteq> 0" using div(1) by (force split: option.splits)
      then have "q \<noteq> []" by auto
      from bounds_constant_shape [OF q(1) this] show ?thesis
        using bounds_divide [OF p, of "dget q ?z 0"] div(3) by (simp add: f_def)
    qed
    ultimately show ?thesis
      using div(1) followed_binary [OF L R [OF div(2)]] by simp
  next
    case pow
    have "visit vs (EBin seg op l r) m = rbind (visit vs l (Suc m)) (\<lambda>(p, n). rbind (poly_power p i (length vs)) (\<lambda>s. Inr (s, n)))"
      using pow(1,2) m by simp
    then show ?thesis
      using followed_unary [OF L _ bounds_power [OF assms(1) _ pow(3)], of ?b] by simp
  qed
qed (simp_all add: result_simps)

end

interpretation shapes: covering vs order "covers (length vs)" for vs order
proof
  fix c :: rat
  show "covers (length vs) {replicate (length vs) 0} []"
    by (simp add: covers_def zero_shape_ok)
  show "covers (length vs) {replicate (length vs) 0} [(replicate (length vs) 0, c)]" if "c \<noteq> 0"
    using that by (simp add: covers_def zero_shape_ok wf_poly_def)
next
  fix i
  assume "i < length vs"
  then show "covers (length vs) {(replicate (length vs) 0)[i := 1]} [((replicate (length vs) 0)[i := 1], 1)]"
    using unit_shape_ok [of i "length vs"] by (simp add: covers_def wf_poly_def)
next
  fix s p and d :: rat
  assume "covers (length vs) s p"
  then show "settled (covers (length vs) s) (normalize (map (\<lambda>kc. (fst kc, snd kc / d)) p))"
    by (intro normalize_covered) (auto simp: covers_def wf_poly_def comp_def)
next
  fix s t r p q and c :: rat and e
  assume p: "covers (length vs) s p"
  show "covers (length vs) s (map (\<lambda>kc. (fst kc, - snd kc)) p)"
    using scaled_covered [OF p, of uminus] by simp
  show "settled (covers (length vs) r) (poly_power p e (length vs))"
    if "iterates order" "power_shape order s e (length vs) = Inr r"
    using that p by (intro poly_power_covered)
  assume q: "covers (length vs) t q"
  show "settled (covers (length vs) r) (poly_add p q c)" if "bounded_shape (s \<union> t) = Inr r"
    using p q that by (rule poly_add_covered)
  show "settled (covers (length vs) r) (poly_multiply p q)"
    if "iterates order" "multiply_shapes order s t = Inr r"
    using p q that by (rule poly_multiply_covered)
qed (simp_all add: covered_constant [simplified])

section \<open>The engine's arithmetic is exact\<close>

text \<open>
  What the documentation of \<^verbatim>\<open>sympy\<close> promises of polynomial expressions in the variables \<open>vs\<close>.
  \<open>exprs\<close> are the engine's expressions of polynomials over the rationals, \<open>nums\<close> those that are
  rational numbers, \<open>den\<close> what they denote: arithmetic is exact, a rational number is decided to be zero
  or not, an expression to the power zero is one, and \<^verbatim>\<open>Poly\<close> collects the terms.
\<close>

definition exact_arithmetic :: "'e cas \<Rightarrow> pystr list \<Rightarrow> 'e set \<Rightarrow> 'e set \<Rightarrow> ('e \<Rightarrow> (pystr \<Rightarrow> rat) \<Rightarrow> rat) \<Rightarrow> bool" where
  "exact_arithmetic cas vs exprs nums den \<longleftrightarrow>
     nums \<subseteq> exprs
     \<and> (\<forall>i. cas_integer cas i \<in> nums \<and> (\<forall>env. den (cas_integer cas i) env = of_int i))
     \<and> (\<forall>x \<in> set vs. cas_symbol cas x \<in> exprs \<and> (\<forall>env. den (cas_symbol cas x) env = env x))
     \<and> (\<forall>a \<in> exprs. \<forall>e. cas_neg cas a = Inr e \<longrightarrow>
          e \<in> exprs \<and> (\<forall>env. den e env = - den a env) \<and> (a \<in> nums \<longrightarrow> e \<in> nums))
     \<and> (\<forall>a \<in> exprs. \<forall>b \<in> exprs. \<forall>e op. cas_binary cas op a b = Inr e \<longrightarrow> op \<in> {OAdd, OSub, OMult} \<longrightarrow>
          e \<in> exprs \<and> (a \<in> nums \<and> b \<in> nums \<longrightarrow> e \<in> nums)
          \<and> (\<forall>env. den e env = (if op = OAdd then den a env + den b env else if op = OSub then den a env - den b env
                                 else den a env * den b env)))"

definition exact_quotients :: "'e cas \<Rightarrow> 'e set \<Rightarrow> 'e set \<Rightarrow> ('e \<Rightarrow> (pystr \<Rightarrow> rat) \<Rightarrow> rat) \<Rightarrow> bool" where
  "exact_quotients cas exprs nums den \<longleftrightarrow>
     (\<forall>b \<in> nums. (\<forall>z. cas_is_zero cas b = Inr z \<longrightarrow> z \<noteq> Some True \<longrightarrow> (\<forall>env. den b env \<noteq> 0))
        \<and> (\<forall>a \<in> exprs. \<forall>e. cas_binary cas ODiv a b = Inr e \<longrightarrow> (\<forall>env. den b env \<noteq> 0) \<longrightarrow>
             e \<in> exprs \<and> (a \<in> nums \<longrightarrow> e \<in> nums) \<and> (\<forall>env. den e env = den a env / den b env)))
     \<and> (\<forall>a \<in> exprs. \<forall>i e. 0 \<le> i \<longrightarrow> cas_binary cas OPow a (cas_integer cas i) = Inr e \<longrightarrow>
          e \<in> exprs \<and> (a \<in> nums \<or> i = 0 \<longrightarrow> e \<in> nums) \<and> (\<forall>env. den e env = den a env ^ nat i))"

definition exact_polynomials ::
  "('e list \<Rightarrow> 'e \<Rightarrow> pyexn + poly_view) \<Rightarrow> ('e list) \<Rightarrow> pystr list \<Rightarrow> 'e set \<Rightarrow> ('e \<Rightarrow> (pystr \<Rightarrow> rat) \<Rightarrow> rat) \<Rightarrow> bool" where
  "exact_polynomials poly_of gens vs exprs den \<longleftrightarrow>
     (\<forall>e \<in> exprs. \<forall>v. poly_of gens e = Inr v \<longrightarrow>
        distinct (map fst (view_terms v)) \<and> (\<forall>kc \<in> set (view_terms v). length (fst kc) = length vs)
        \<and> (\<forall>env. peval vs env (view_terms v) = den e env)
        \<and> (view_is_zero v \<longleftrightarrow> (\<forall>kc \<in> set (view_terms v). snd kc = 0)))"

definition exact_engine ::
  "'e symbolic_host \<Rightarrow> pystr list \<Rightarrow> 'e set \<Rightarrow> 'e set \<Rightarrow> ('e \<Rightarrow> (pystr \<Rightarrow> rat) \<Rightarrow> rat) \<Rightarrow> bool" where
  "exact_engine host vs exprs nums den \<longleftrightarrow>
     exact_arithmetic (symbolic host) vs exprs nums den \<and> exact_quotients (symbolic host) exprs nums den
     \<and> exact_polynomials (to_polynomial host) (map (cas_symbol (symbolic host)) vs) vs exprs den
     \<and> iterates (iteration host)"

lemma exact_integer:
  "exact_arithmetic cas vs exprs nums den \<Longrightarrow>
     cas_integer cas i \<in> nums \<and> cas_integer cas i \<in> exprs \<and> (\<forall>env. den (cas_integer cas i) env = of_int i)"
  unfolding exact_arithmetic_def by blast

lemma exact_symbol:
  "exact_arithmetic cas vs exprs nums den \<Longrightarrow> x \<in> set vs \<Longrightarrow>
     cas_symbol cas x \<in> exprs \<and> (\<forall>env. den (cas_symbol cas x) env = env x)"
  unfolding exact_arithmetic_def by blast

lemma exact_neg:
  "exact_arithmetic cas vs exprs nums den \<Longrightarrow> a \<in> exprs \<Longrightarrow> cas_neg cas a = Inr e \<Longrightarrow>
     e \<in> exprs \<and> (\<forall>env. den e env = - den a env) \<and> (a \<in> nums \<longrightarrow> e \<in> nums)"
  unfolding exact_arithmetic_def by blast

lemma exact_binary:
  assumes "exact_arithmetic cas vs exprs nums den" and "a \<in> exprs" and "b \<in> exprs" and "cas_binary cas op a b = Inr e"
    and "op \<in> {OAdd, OSub, OMult}"
  shows "e \<in> exprs" and "a \<in> nums \<Longrightarrow> b \<in> nums \<Longrightarrow> e \<in> nums"
    and "den e env = (if op = OAdd then den a env + den b env else if op = OSub then den a env - den b env
                      else den a env * den b env)"
proof -
  from assms(1) have "\<forall>a \<in> exprs. \<forall>b \<in> exprs. \<forall>e op. cas_binary cas op a b = Inr e \<longrightarrow> op \<in> {OAdd, OSub, OMult} \<longrightarrow>
      e \<in> exprs \<and> (a \<in> nums \<and> b \<in> nums \<longrightarrow> e \<in> nums)
      \<and> (\<forall>env. den e env = (if op = OAdd then den a env + den b env else if op = OSub then den a env - den b env
                             else den a env * den b env))"
    unfolding exact_arithmetic_def by (elim conjE)
  from this [rule_format, OF assms(2,3,4,5)] show "e \<in> exprs" "a \<in> nums \<Longrightarrow> b \<in> nums \<Longrightarrow> e \<in> nums"
    "den e env = (if op = OAdd then den a env + den b env else if op = OSub then den a env - den b env
                      else den a env * den b env)"
    by simp_all
qed

lemma exact_quotient:
  assumes "exact_quotients cas exprs nums den" and "b \<in> nums" and "cas_is_zero cas b = Inr z" and "z \<noteq> Some True"
    and "a \<in> exprs" and "cas_binary cas ODiv a b = Inr e"
  shows "\<forall>env. den b env \<noteq> 0" and "e \<in> exprs \<and> (a \<in> nums \<longrightarrow> e \<in> nums) \<and> (\<forall>env. den e env = den a env / den b env)"
proof -
  from assms(1) have q: "\<forall>b \<in> nums. (\<forall>z. cas_is_zero cas b = Inr z \<longrightarrow> z \<noteq> Some True \<longrightarrow> (\<forall>env. den b env \<noteq> 0))
        \<and> (\<forall>a \<in> exprs. \<forall>e. cas_binary cas ODiv a b = Inr e \<longrightarrow> (\<forall>env. den b env \<noteq> 0) \<longrightarrow>
             e \<in> exprs \<and> (a \<in> nums \<longrightarrow> e \<in> nums) \<and> (\<forall>env. den e env = den a env / den b env))"
    unfolding exact_quotients_def by (elim conjE)
  from bspec [OF q assms(2)] assms(3,4) show nz: "\<forall>env. den b env \<noteq> 0" by blast
  from bspec [OF q assms(2), THEN conjunct2, rule_format, OF assms(5,6)] nz
  show "e \<in> exprs \<and> (a \<in> nums \<longrightarrow> e \<in> nums) \<and> (\<forall>env. den e env = den a env / den b env)" by blast
qed

lemma exact_power:
  assumes "exact_quotients cas exprs nums den" and "a \<in> exprs" and "0 \<le> i"
    and "cas_binary cas OPow a (cas_integer cas i) = Inr e"
  shows "e \<in> exprs \<and> (a \<in> nums \<or> i = 0 \<longrightarrow> e \<in> nums) \<and> (\<forall>env. den e env = den a env ^ nat i)"
proof -
  from assms(1) have "\<forall>a \<in> exprs. \<forall>i e. 0 \<le> i \<longrightarrow> cas_binary cas OPow a (cas_integer cas i) = Inr e \<longrightarrow>
          e \<in> exprs \<and> (a \<in> nums \<or> i = 0 \<longrightarrow> e \<in> nums) \<and> (\<forall>env. den e env = den a env ^ nat i)"
    unfolding exact_quotients_def by (elim conjE)
  from this [rule_format, OF assms(2-4)] show ?thesis by blast
qed

lemma catching_Inr: "catching cs f r = Inr x \<longleftrightarrow> r = Inr x"
  by (auto simp: catching_def split: sum.splits pyexn.splits)

lemma minkowski_zero:
  assumes "minkowski s t = {replicate n 0}" and "shape_ok n s" and "shape_ok n t"
  shows "s = {replicate n 0}" and "t = {replicate n 0}"
proof -
  have z: "a = replicate n 0 \<and> b = replicate n 0" if "a \<in> s" "b \<in> t" for a b
  proof -
    have "map2 (+) a b \<in> minkowski s t" using that by (force simp: minkowski_def)
    with assms(1) have "map2 (+) a b = replicate n 0" by simp
    moreover have "length a = n" "length b = n" using that assms(2,3) by (simp_all add: shape_ok_def)
    ultimately show ?thesis by (auto simp: list_eq_iff_nth_eq)
  qed
  moreover have "s \<noteq> {}" "t \<noteq> {}" using assms(2,3) by (simp_all add: shape_ok_def)
  ultimately show "s = {replicate n 0}" "t = {replicate n 0}" by blast+
qed

lemma power_zero:
  assumes "power_shape order s i n = Inr {replicate n 0}" and "iterates order" and "shape_ok n s" and "i \<noteq> 0"
  shows "s = {replicate n 0}"
proof -
  have i: "0 < nat i" using power_shape_ok(1) [OF assms(1-3)] assms(4) by simp
  have "b = replicate n 0" if "b \<in> s" for b
  proof -
    have "map ((*) (nat i)) b = replicate n 0" using power_shape_ok(4) [OF assms(1-3) that] by simp
    moreover have "length b = n" using that assms(3) by (simp add: shape_ok_def)
    ultimately show ?thesis using i by (auto simp: list_eq_iff_nth_eq)
  qed
  moreover have "s \<noteq> {}" using assms(3) by (simp add: shape_ok_def)
  ultimately show ?thesis by blast
qed

lemma int_literal_Some: "int_literal t = Some i \<Longrightarrow> \<exists>seg. t = EConst seg (VInt i)"
  by (cases t rule: int_literal.cases) auto

text \<open>
  On a tree the analyzer accepts, the engine's expression denotes the value of the tree at every
  point, and it is a number where the shape is that of a constant.
\<close>

lemma translate_sound:
  assumes exact: "exact_arithmetic cas vs exprs nums den" "exact_quotients cas exprs nums den" and "iterates order"
    and "visit_shape order vs t k = Inr (s, k')"
    and "translate cas py (map (\<lambda>x. (x, cas_symbol cas x)) vs) [] t j = Inr (e, j')"
  shows "e \<in> exprs \<and> (\<forall>env. ast_value env t = Some (den e env)) \<and> (s = {replicate (length vs) 0} \<longrightarrow> e \<in> nums)"
  using assms(4,5)
proof (induction t arbitrary: k s k' j e j')
  case (EConst seg v)
  then obtain i where "v = VInt i" by (cases v) (auto simp: result_simps)
  with EConst.prems have "e = cas_integer cas i" by (auto simp: result_simps translate_constant_def)
  with \<open>v = VInt i\<close> exact_integer [OF exact(1)] show ?case by simp
next
  case (EName x)
  then have x: "x \<in> set vs" and s: "s = {(replicate (length vs) 0)[index_of x vs := 1]}" by (auto simp: result_simps)
  have "map_of (map (\<lambda>x. (x, cas_symbol cas x)) vs) x = Some (cas_symbol cas x)"
    using x by (simp add: map_of_map_restrict)
  with EName.prems have "e = cas_symbol cas x" by (auto simp: result_simps translate_name_def)
  moreover have "s \<noteq> {replicate (length vs) 0}"
    using index_of_less [OF x] s by (auto dest: arg_cong [where f = "\<lambda>k. k ! index_of x vs"])
  ultimately show ?case using exact_symbol [OF exact(1) x] by simp
next
  case (EUnary op a)
  from EUnary.prems(1) have op: "op = UAdd \<or> op = USub" and s: "visit_shape order vs a (Suc k) = Inr (s, k')"
    by (auto simp: result_simps)
  from EUnary.prems(2) obtain ea n where a: "translate cas py (map (\<lambda>x. (x, cas_symbol cas x)) vs) [] a (Suc j) = Inr (ea, n)"
    and e: "if op = UAdd then e = ea else cas_neg cas ea = Inr e"
    using op by (auto simp: result_simps)
  note A = EUnary.IH [OF s a]
  show ?case
  proof (cases "op = UAdd")
    case False
    with op e have "op = USub" "cas_neg cas ea = Inr e" by simp_all
    with A exact_neg [OF exact(1), of ea e] show ?thesis by simp
  qed (use A e in simp)
next
  case (EBin seg op l r)
  let ?syms = "map (\<lambda>x. (x, cas_symbol cas x)) vs" and ?z = "{replicate (length vs) 0}"
  from EBin.prems(1) obtain sl k1 where sl: "visit_shape order vs l (Suc k) = Inr (sl, k1)"
    by (auto simp: result_simps split: if_splits option.splits)
  from EBin.prems(2) obtain el n1 er n2 where el: "translate cas py ?syms [] l (Suc j) = Inr (el, n1)"
    and er: "translate cas py ?syms [] r n1 = Inr (er, n2)" and e: "combine_operands cas op el er = Inr e"
    by (cases op) (auto simp: result_simps)
  note L = EBin.IH(1) [OF sl el]
  have lok: "shape_ok (length vs) sl" by (rule visit_shape_ok [OF assms(3) sl])
  consider (sum) sr where "op = OAdd \<or> op = OSub" "visit_shape order vs r k1 = Inr (sr, k')" "bounded_shape (sl \<union> sr) = Inr s"
    | (mult) sr where "op = OMult" "visit_shape order vs r k1 = Inr (sr, k')" "multiply_shapes order sl sr = Inr s"
    | (div) "op = ODiv" "visit_shape order vs r k1 = Inr (?z, k')" "s = sl"
    | (pow) i where "op = OPow" "int_literal r = Some i" "power_shape order sl i (length vs) = Inr s"
    using EBin.prems(1) sl by (auto simp: result_simps split: if_splits option.splits)
  then show ?case
  proof cases
    case sum
    have R: "shape_ok (length vs) sr" by (rule visit_shape_ok [OF assms(3) sum(2)])
    have "cas_binary cas op el er = Inr e" using e sum(1) by (auto simp: combine_operands_def)
    moreover have "s = ?z \<Longrightarrow> sl = ?z \<and> sr = ?z"
      using bounded_union_ok(1) [OF sum(3) lok R] lok R
      by (metis Un_upper1 Un_upper2 shape_ok_def subset_singletonD)
    ultimately show ?thesis
      using sum(1) L EBin.IH(2) [OF sum(2) er] exact_binary [OF exact(1), of el er op e] by auto
  next
    case mult
    have R: "shape_ok (length vs) sr" by (rule visit_shape_ok [OF assms(3) mult(2)])
    have "cas_binary cas op el er = Inr e" using e mult(1) by (auto simp: combine_operands_def)
    moreover have "s = ?z \<Longrightarrow> sl = ?z \<and> sr = ?z"
      using multiply_shapes_ok(1) [OF assms(3) mult(3) lok R] minkowski_zero [OF _ lok R] by simp
    ultimately show ?thesis
      using mult(1) L EBin.IH(2) [OF mult(2) er] exact_binary [OF exact(1), of el er op e] by auto
  next
    case div
    from e div(1) obtain z where "cas_is_zero cas er = Inr z" "z \<noteq> Some True" "cas_binary cas ODiv el er = Inr e"
      by (auto simp: combine_operands_def guarded_division_def catching_Inr result_simps split: if_splits)
    moreover have "er \<in> nums" using EBin.IH(2) [OF div(2) er] by simp
    ultimately show ?thesis
      using div L EBin.IH(2) [OF div(2) er] exact_quotient [OF exact(2), of er z el e] by auto
  next
    case pow
    from int_literal_Some [OF pow(2)] obtain sg where "r = EConst sg (VInt i)" by blast
    with er have "er = cas_integer cas i" by (auto simp: result_simps translate_constant_def)
    moreover have "cas_binary cas op el er = Inr e" using e pow(1) by (auto simp: combine_operands_def result_simps)
    moreover have "0 \<le> i" by (rule power_shape_ok(1) [OF pow(3) assms(3) lok])
    moreover have "s = ?z \<Longrightarrow> i = 0 \<or> sl = ?z" using power_zero [OF _ assms(3) lok] pow(3) by blast
    ultimately show ?thesis
      using pow(1,2) L exact_power [OF exact(2), of el i e] by auto
  qed
qed (simp_all add: result_simps)

section \<open>Sources are normalised once\<close>

definition trimmed :: "pystr \<Rightarrow> bool" where
  "trimmed s \<longleftrightarrow> s = [] \<or> \<not> is_space (hd s) \<and> \<not> is_space (last s)"

lemma trimmed_strip: "trimmed (strip s)"
proof (cases "strip s = []")
  case False
  let ?t = "dropWhile is_space s"
  have ne: "dropWhile is_space (rev ?t) \<noteq> []" using False by (simp add: strip_def)
  have "\<not> is_space (hd (dropWhile is_space (rev ?t)))" by (rule hd_dropWhile [OF ne])
  then have l: "\<not> is_space (last (strip s))" using ne by (simp add: strip_def last_rev)
  have "?t \<noteq> []" using ne by (metis dropWhile.simps(1) rev.simps(1))
  then have "\<not> is_space (hd ?t)" by (rule hd_dropWhile)
  moreover obtain pre where "rev ?t = pre @ dropWhile is_space (rev ?t)" by (metis takeWhile_dropWhile_id)
  then have "?t = strip s @ rev pre" by (metis rev_append rev_rev_ident strip_def)
  ultimately have "\<not> is_space (hd (strip s))" using False by (metis hd_append2)
  with l show ?thesis by (simp add: trimmed_def)
qed (simp add: trimmed_def)

lemma strip_trimmed: "trimmed s \<Longrightarrow> strip s = s"
proof (cases "s = []")
  case False
  assume "trimmed s"
  with False have "dropWhile is_space s = s" "dropWhile is_space (rev s) = rev s"
    by (simp_all add: trimmed_def dropWhile_eq_self_iff hd_rev)
  then show ?thesis by (simp add: strip_def)
qed (simp add: strip_def)

lemma replace_cp_ends: "s \<noteq> [] \<Longrightarrow> t \<noteq> [] \<Longrightarrow> replace_cp c t s \<noteq> []
    \<and> hd (replace_cp c t s) = (if hd s = c then hd t else hd s) \<and> last (replace_cp c t s) = (if last s = c then last t else last s)"
  by (induction s) (auto simp: replace_cp_def)

lemma trimmed_replace:
  "trimmed s \<Longrightarrow> t \<noteq> [] \<Longrightarrow> \<not> is_space (hd t) \<Longrightarrow> \<not> is_space (last t) \<Longrightarrow> trimmed (replace_cp c t s)"
  using replace_cp_ends [of s t c] by (cases "s = []") (auto simp: trimmed_def replace_cp_def)

lemma set_replace_cp: "x \<in> set (replace_cp c t s) \<longleftrightarrow> x \<in> set s \<and> x \<noteq> c \<or> c \<in> set s \<and> x \<in> set t"
  by (auto simp: replace_cp_def)

lemma replace_cp_id: "c \<notin> set s \<Longrightarrow> replace_cp c t s = s"
  by (induction s) (auto simp: replace_cp_def)

lemma normalized_trimmed: "trimmed (normalize_expression_source s)"
  unfolding normalize_expression_source_def
  by (intro trimmed_replace trimmed_strip) (simp_all add: u_def is_space_def)

lemma normalized_plain:
  "94 \<notin> set (normalize_expression_source s)" "960 \<notin> set (normalize_expression_source s)"
  "8722 \<notin> set (normalize_expression_source s)" "247 \<notin> set (normalize_expression_source s)"
  "215 \<notin> set (normalize_expression_source s)"
  by (simp_all add: normalize_expression_source_def set_replace_cp u_def)

lemma normalize_source_idem: "normalize_expression_source (normalize_expression_source s) = normalize_expression_source s"
  by (subst normalize_expression_source_def) (simp add: strip_trimmed [OF normalized_trimmed] replace_cp_id normalized_plain)

section \<open>One polynomial, one list of terms\<close>

lemma dget_add_term: "dget (add_term k d p) k' 0 = (if k = k' then dget p k 0 + d else dget p k' 0)"
  by (auto simp: add_term_def dget_update)

lemma dget_fold_add:
  "distinct (map fst q) \<Longrightarrow>
     dget (foldl (\<lambda>r kc. add_term (fst kc) (s * snd kc) r) p q) k 0 = dget p k 0 + s * dget q k (0::rat)"
proof (induction q arbitrary: p)
  case (Cons kc q)
  have "k = fst kc \<Longrightarrow> dget q k 0 = 0"
    using Cons.prems by (auto simp: dget_def map_of_eq_None_iff [symmetric] split: option.splits)
  moreover have "dget (kc # q) k 0 = (if k = fst kc then snd kc else dget q k 0)"
    by (cases kc) (simp add: dget_def)
  ultimately show ?case using Cons by (cases "k = fst kc") (simp_all add: dget_add_term)
qed (simp add: dget_def)

lemma wf_poly_mem: "wf_poly n p \<Longrightarrow> (k, c) \<in> set p \<longleftrightarrow> c = dget p k 0 \<and> c \<noteq> 0"
  using map_of_eq_Some_iff [of p k c]
  by (auto simp: wf_poly_def dget_def dest: map_of_SomeD eq_key_imp_eq_value split: option.splits)

lemma wf_poly_unique:
  assumes "wf_poly (length vs) p" and "wf_poly (length vs) q" and "distinct vs"
    and "\<And>env. peval vs env p = peval vs env q"
  shows "sort_key fst p = sort_key fst q"
proof -
  let ?f = "foldl (\<lambda>r kc. add_term (fst kc) (- 1 * snd kc) r) p q"
  let ?d = "filter (\<lambda>kc. snd kc \<noteq> 0) ?f"
  have f: "distinct (map fst ?f) \<and> key_lengths (length vs) ?f \<and> peval vs env ?f = peval vs env p + - 1 * peval vs env q" for env
    using assms(1,2) by (intro foldl_add_term) (auto simp: wf_poly_def key_lengths_def)
  then have "wf_poly (length vs) ?d" by (auto simp: wf_poly_def key_lengths_def distinct_map_filter)
  moreover have "peval vs env ?d = 0" for env using f assms(4) by (simp add: peval_filter)
  ultimately have "?d = []" using nonempty_poly_nonroot [OF _ assms(3)] by blast
  then have zero: "c = 0" if "(k, c) \<in> set ?f" for k c using that by (auto simp: filter_empty_conv)
  have same: "dget p k 0 = dget q k 0" for k
  proof -
    have "dget ?f k 0 = 0"
      using zero by (auto simp: dget_def dest!: map_of_SomeD split: option.splits)
    then show ?thesis using dget_fold_add [of q "- 1" p k] assms(2) by (simp add: wf_poly_def)
  qed
  then have "set p = set q" using wf_poly_mem [OF assms(1)] wf_poly_mem [OF assms(2)] by auto
  moreover have d: "distinct (map fst p)" "distinct (map fst q)" using assms(1,2) by (simp_all add: wf_poly_def)
  then have "distinct p" "distinct q" by (simp_all add: distinct_map)
  ultimately have "mset p = mset q" by (simp add: set_eq_iff_mset_eq_distinct)
  moreover have "inj_on fst (set p)" using d by (simp add: distinct_map)
  ultimately show ?thesis by (intro sort_key_inj_key_eq) simp_all
qed

lemma py_eq_terms: "list_all2 (\<lambda>kc v. term_json py kc = Inr v) kcs vs \<Longrightarrow> py_eq (VList vs) (VList vs)"
proof -
  assume a: "list_all2 (\<lambda>kc v. term_json py kc = Inr v) kcs vs"
  have e: "py_eq v v" if "term_json py kc = Inr v" for kc v
    using that by (auto simp: term_json_def result_simps py_eq_dict py_eq_list list_all2_same)
  from a have "list_all2 py_eq vs vs"
    unfolding list_all2_conv_all_nth by (metis e)
  then show ?thesis by (simp add: py_eq_list)
qed

lemma certificate_term_Inr: "certificate_term py kc = Inr v \<Longrightarrow> term_json py kc = Inr v"
  by (simp add: certificate_term_def term_json_def certificate_fraction_text_def rbind_demand demand_eq_Inr)

lemma sort_key_Nil: "sort_key f xs = [] \<longleftrightarrow> xs = []"
  unfolding set_empty [symmetric] set_sort ..

text \<open>The producer's terms are the checker's terms of any polynomial with the same values.\<close>

lemma certificate_terms:
  assumes "difference_terms py view = Inr terms" and "distinct (map fst (view_terms view))"
    and "\<forall>kc \<in> set (view_terms view). length (fst kc) = length vs" and "distinct vs"
    and "wf_poly (length vs) d" and "\<And>env. peval vs env d = peval vs env (view_terms view)"
  shows "canonical_terms py d = Inr terms" and "py_eq (VList terms) (VList terms)"
    and "length terms \<le> MAX_CERTIFICATE_TERMS" and "d = [] \<longleftrightarrow> (\<forall>kc \<in> set (view_terms view). snd kc = 0)"
proof -
  let ?t = "filter (\<lambda>kc. snd kc \<noteq> 0) (view_terms view)"
  have w: "wf_poly (length vs) ?t" using assms(2,3) by (auto simp: wf_poly_def distinct_map_filter)
  have eq: "sort_key fst d = sort_key fst ?t"
    by (rule wf_poly_unique [OF assms(5) w assms(4)]) (simp add: assms(6) peval_filter)
  have "filter (\<lambda>kc. snd kc \<noteq> 0) (rev (sort_key fst (view_terms view))) = rev (sort_key fst d)"
    by (simp add: eq filter_sort flip: rev_filter)
  with assms(1) have r: "rmap (certificate_term py) (rev (sort_key fst d)) = Inr terms"
    and "length terms \<le> MAX_CERTIFICATE_TERMS"
    by (simp_all add: difference_terms_def result_simps)
  then show "length terms \<le> MAX_CERTIFICATE_TERMS" by simp
  from r have l: "list_all2 (\<lambda>kc v. term_json py kc = Inr v) (rev (sort_key fst d)) terms"
    unfolding rmap_Inr_iff by (rule list_all2_mono) (rule certificate_term_Inr)
  then show "canonical_terms py d = Inr terms" by (simp add: canonical_terms_def rmap_Inr_iff)
  show "py_eq (VList terms) (VList terms)" by (rule py_eq_terms [OF l])
  have "d = [] \<longleftrightarrow> sort_key fst d = []" by (simp only: sort_key_Nil)
  also have "\<dots> \<longleftrightarrow> ?t = []" by (simp only: eq sort_key_Nil)
  finally show "d = [] \<longleftrightarrow> (\<forall>kc \<in> set (view_terms view). snd kc = 0)" by (simp add: filter_empty_conv)
qed

section \<open>Producer and checker\<close>

lemma preflight_Inr:
  "preflight_shape order ast_parse source vs = Inr s \<longleftrightarrow>
     (\<exists>t n. ast_parse source = Inr t \<and> visit_shape order vs t 1 = Inr (s, n))"
  by (auto simp: preflight_shape_def invalid_syntax_def catching_Inr result_simps)

lemma make_symbols_Inr:
  assumes "make_symbols cas names = Inr syms"
  shows "syms = map (\<lambda>x. (x, cas_symbol cas x)) names" and "x \<in> set names \<Longrightarrow> identifier_match x"
proof -
  from assms show "syms = map (\<lambda>x. (x, cas_symbol cas x)) names" by (auto simp: make_symbols_def result_simps)
  from assms have "rfold (\<lambda>name _.
          demand (length name \<le> 64) (calc ''E_LIMIT'' (u ''variable names must be at most 64 characters''))
          (demand (identifier_match name) (calc ''E_INPUT'' (u ''invalid variable name: '' @ name))
          (demand (name \<notin> set (map fst CONSTANTS) \<and> name \<notin> set (map fst FUNCTIONS))
             (calc ''E_INPUT'' (u ''reserved variable name: '' @ name)) (Inr ())))) names () = Inr ()"
    by (auto simp: make_symbols_def result_simps)
  then have "\<forall>x \<in> set names. identifier_match x"
    by (induction names) (auto simp: result_simps)
  then show "x \<in> set names \<Longrightarrow> identifier_match x" by blast
qed

text \<open>What a successful request has gone through, side by side with the checker's reading of each side.\<close>

lemma difference_side:
  assumes "exact_engine host vs exprs nums den"
    and "preflight_shape (iteration host) (python_parse host) (normalize_expression_source source) vs = Inr s"
    and "parse_expression (symbolic host) (python host) (python_parse host)
      (map (\<lambda>x. (x, cas_symbol (symbolic host) x)) vs) [] (VStr (normalize_expression_source source)) = Inr e"
  obtains tree where "python_parse host (normalize_expression_source source) = Inr tree" "shape_ok (length vs) s"
    "length (normalize_expression_source source) \<le> 4096" "visited_nodes tree \<le> 511"
    "e \<in> exprs" "\<And>env. ast_value env tree = Some (den e env)"
    "\<And>m. m + visited_nodes tree \<le> MAX_AST_NODES \<Longrightarrow>
      settled (shapes.followed vs s (m + visited_nodes tree)) (visit vs tree m)"
proof -
  let ?src = "normalize_expression_source source" and ?syms = "map (\<lambda>x. (x, cas_symbol (symbolic host) x)) vs"
  have exact: "exact_arithmetic (symbolic host) vs exprs nums den" "exact_quotients (symbolic host) exprs nums den"
    and order: "iterates (iteration host)"
    using assms(1) by (simp_all add: exact_engine_def)
  from assms(2) obtain tree n where t: "python_parse host ?src = Inr tree"
    and v: "visit_shape (iteration host) vs tree 1 = Inr (s, n)" by (auto simp: preflight_Inr)
  from assms(3) obtain s' tree' ws j where p: "VStr ?src = VStr s'" "length s' \<le> 4096"
    "python_parse host (normalize_expression_source s') = Inr tree'" "map fst ws = map fst ([] :: pydict)"
    "translate (symbolic host) (python host) ?syms ws tree' 1 = Inr (e, j)"
    by (rule parsed_expression)
  have "tree' = tree" using p(1,3) t normalize_source_idem [of source] by auto
  with p have tr: "translate (symbolic host) (python host) ?syms [] tree 1 = Inr (e, j)" by simp
  note S = translate_sound [OF exact order v tr]
  have "visited_nodes tree \<le> 511" using translated [OF tr] by (simp add: MAX_TRANSLATED_NODES_def)
  moreover have "settled (shapes.followed vs s (m + visited_nodes tree)) (visit vs tree m)"
    if "m + visited_nodes tree \<le> MAX_AST_NODES" for m
    by (rule shapes.visit_follows [OF order v _ that]) (use S in simp)
  ultimately show ?thesis
    using that [OF t visit_shape_ok [OF order v]] S p(1,2) by simp
qed

lemma produced:
  assumes "polynomial_identity host arguments = Inr result"
    and "variables_arg (is_identifier host) arguments 8 = Inr vs" and "exact_engine host vs exprs nums den"
  obtains left right sl sr lt rt view terms c l r where
    "string_arg arguments (u ''left'') VNone 4096 = Inr left" "string_arg arguments (u ''right'') VNone 4096 = Inr right"
    "python_parse host (normalize_expression_source left) = Inr lt" "python_parse host (normalize_expression_source right) = Inr rt"
    "length (normalize_expression_source left) \<le> 4096" "length (normalize_expression_source right) \<le> 4096"
    "visited_nodes lt \<le> 511" "visited_nodes rt \<le> 511"
    "\<And>env. ast_value env lt = Some (l env)" "\<And>env. ast_value env rt = Some (r env)"
    "\<And>m. m + visited_nodes lt \<le> MAX_AST_NODES \<Longrightarrow> settled (shapes.followed vs sl (m + visited_nodes lt)) (visit vs lt m)"
    "\<And>m. m + visited_nodes rt \<le> MAX_AST_NODES \<Longrightarrow> settled (shapes.followed vs sr (m + visited_nodes rt)) (visit vs rt m)"
    "bounded_shape (sl \<union> sr) = Inr (sl \<union> sr)" "\<And>x. x \<in> set vs \<Longrightarrow> identifier_match x"
    "distinct (map fst (view_terms view))" "\<forall>kc \<in> set (view_terms view). length (fst kc) = length vs"
    "\<And>env. peval vs env (view_terms view) = l env - r env"
    "view_is_zero view \<longleftrightarrow> (\<forall>kc \<in> set (view_terms view). snd kc = 0)"
    "difference_terms (python host) view = Inr terms"
    "build_certificate (python host) [(u ''left'', VStr (normalize_expression_source left)),
       (u ''right'', VStr (normalize_expression_source right)), (u ''variables'', VList (map VStr vs))]
       (view_is_zero view) terms = Inr c"
    "dget_none result (u ''certificate'') = VDict c" "dget_none result (u ''identity'') = VBool (view_is_zero view)"
proof -
  let ?n = normalize_expression_source and ?cas = "symbolic host"
  let ?syms = "map (\<lambda>x. (x, cas_symbol ?cas x)) vs"
  from assms(1,2) obtain left right view terms c where
    src: "string_arg arguments (u ''left'') VNone 4096 = Inr left" "string_arg arguments (u ''right'') VNone 4096 = Inr right"
    and d: "difference_polynomial host vs (?n left) (?n right) = Inr view"
    and t: "difference_terms (python host) view = Inr terms"
    and c: "build_certificate (python host) [(u ''left'', VStr (?n left)), (u ''right'', VStr (?n right)),
       (u ''variables'', VList (map VStr vs))] (view_is_zero view) terms = Inr c"
    and res: "dget_none result (u ''certificate'') = VDict c" "dget_none result (u ''identity'') = VBool (view_is_zero view)"
    by (auto simp: polynomial_identity_def Let_def rbind_eq_Inr dget_none_def dget_def)
  from d obtain syms sl sr w el er diff where
    sy: "make_symbols ?cas vs = Inr syms"
    and pre: "preflight_shape (iteration host) (python_parse host) (?n left) vs = Inr sl"
      "preflight_shape (iteration host) (python_parse host) (?n right) vs = Inr sr"
    and w: "bounded_shape (sl \<union> sr) = Inr w"
    and ex: "parse_expression ?cas (python host) (python_parse host) syms [] (VStr (?n left)) = Inr el"
      "parse_expression ?cas (python host) (python_parse host) syms [] (VStr (?n right)) = Inr er"
    and diff: "cas_binary ?cas OSub el er = Inr diff" and view: "to_polynomial host (map (cas_symbol ?cas) vs) diff = Inr view"
    by (auto simp: difference_polynomial_def rbind_eq_Inr catching_Inr)
  note syms = make_symbols_Inr [OF sy]
  obtain lt where L: "python_parse host (?n left) = Inr lt" "shape_ok (length vs) sl" "length (?n left) \<le> 4096" "visited_nodes lt \<le> 511"
    "el \<in> exprs" "\<And>env. ast_value env lt = Some (den el env)"
    "\<And>m. m + visited_nodes lt \<le> MAX_AST_NODES \<Longrightarrow> settled (shapes.followed vs sl (m + visited_nodes lt)) (visit vs lt m)"
    by (rule difference_side [OF assms(3) pre(1) ex(1) [unfolded syms(1)]]) (rule that)
  obtain rt where R: "python_parse host (?n right) = Inr rt" "shape_ok (length vs) sr" "length (?n right) \<le> 4096" "visited_nodes rt \<le> 511"
    "er \<in> exprs" "\<And>env. ast_value env rt = Some (den er env)"
    "\<And>m. m + visited_nodes rt \<le> MAX_AST_NODES \<Longrightarrow> settled (shapes.followed vs sr (m + visited_nodes rt)) (visit vs rt m)"
    by (rule difference_side [OF assms(3) pre(2) ex(2) [unfolded syms(1)]]) (rule that)
  have exact: "exact_arithmetic ?cas vs exprs nums den"
    "exact_polynomials (to_polynomial host) (map (cas_symbol ?cas) vs) vs exprs den"
    using assms(3) by (simp_all add: exact_engine_def)
  note D = exact_binary [OF exact(1) L(5) R(5) diff]
  from exact(2) view D(1) have V: "distinct (map fst (view_terms view))" "\<forall>kc \<in> set (view_terms view). length (fst kc) = length vs"
    "\<And>env. peval vs env (view_terms view) = den diff env" "view_is_zero view \<longleftrightarrow> (\<forall>kc \<in> set (view_terms view). snd kc = 0)"
    unfolding exact_polynomials_def by blast+
  have "\<And>env. peval vs env (view_terms view) = den el env - den er env" using V(3) D(3) by simp
  moreover have "bounded_shape (sl \<union> sr) = Inr (sl \<union> sr)"
    using w bounded_union_ok(1) [OF w L(2) R(2)] by simp
  ultimately show ?thesis
    using that [OF src L(1) R(1) L(3) R(3) L(4) R(4) L(6) R(6) L(7) R(7) _ syms(2) V(1,2) _ V(4) t c res] by blast
qed

text \<open>The end of the verification: the difference of the recomputed sides against the certified terms.\<close>

definition compare_difference ::
  "interp \<Rightarrow> pyval list \<Rightarrow> bool \<Rightarrow> pystr \<Rightarrow> poly \<Rightarrow> poly \<Rightarrow> pyexn + check_result" where
  "compare_difference py terms claimed d left right =
     rbind (poly_add left right (- 1)) (\<lambda>difference.
     rbind (canonical_terms py difference) (\<lambda>expected_terms.
     demand (py_eq (VList terms) (VList expected_terms)) (CertError (u ''certificate coefficients do not match the statement''))
     (demand (claimed = (difference = [])) (CertError (u ''certificate identity classification is wrong''))
       (Inr \<lparr>valid = True, identity = (difference = []), certificate_digest = d,
             checker_system = CHECKER_SYSTEM, checker_version = CHECKER_VERSION\<rparr>))))"

text \<open>The fields of a certificate that was just built satisfy every test that precedes the recomputation.\<close>

lemma built_certificate:
  assumes "build_certificate py [(u ''left'', VStr ls), (u ''right'', VStr rs), (u ''variables'', VList (map VStr vs))] b terms = Inr c"
    and "\<And>bs. is_digest (u ''sha256:'' @ sha256 py bs)"
    and "\<forall>x \<in> set vs. is_variable x" and "distinct vs" and "1 \<le> length vs" and "length vs \<le> 8"
    and "length terms \<le> MAX_CERTIFICATE_TERMS"
  shows "\<exists>d. verify_polynomial_identity_certificate ast_parse py (VDict c) =
    rbind (parse ast_parse vs (VStr ls) 0) (\<lambda>(left, nodes).
    rbind (parse ast_parse vs (VStr rs) nodes) (\<lambda>(right, nodes). compare_difference py terms b d left right))"
proof -
  let ?s = "[(u ''left'', VStr ls), (u ''right'', VStr rs), (u ''variables'', VList (map VStr vs))]"
  from assms(1) obtain sd d where sd: "digest_of py True (VDict ?s) = Inr sd"
    and d: "digest_of py True (VDict [(u ''format'', VStr CERTIFICATE_FORMAT), (u ''statement'', VDict ?s),
         (u ''statementDigest'', VStr sd), (u ''identity'', VBool b), (u ''normalizedDifference'', VList terms)]) = Inr d"
    and c: "c = [(u ''format'', VStr CERTIFICATE_FORMAT), (u ''statement'', VDict ?s),
         (u ''statementDigest'', VStr sd), (u ''identity'', VBool b), (u ''normalizedDifference'', VList terms),
         (u ''certificateDigest'', VStr d)]"
    by (auto simp: build_certificate_def Let_def rbind_eq_Inr)
  have digests: "is_digest sd" "is_digest d"
    using sd d assms(2) by (auto simp: digest_of_def rbind_eq_Inr)
  have get: "dget_none c (u ''format'') = VStr CERTIFICATE_FORMAT" "dget_none c (u ''statement'') = VDict ?s"
    "dget_none c (u ''statementDigest'') = VStr sd" "dget_none c (u ''identity'') = VBool b"
    "dget_none c (u ''normalizedDifference'') = VList terms" "dget_none c (u ''certificateDigest'') = VStr d"
    "dget_none ?s (u ''left'') = VStr ls" "dget_none ?s (u ''right'') = VStr rs"
    "dget_none ?s (u ''variables'') = VList (map VStr vs)"
    by (simp_all add: c dget_none_def dget_def)
  have keys: "set (map fst c) = set certificate_keys" "set (map fst ?s) = {u ''left'', u ''right'', u ''variables''}"
    by (auto simp: c certificate_keys_def)
  have del: "AList.delete (u ''certificateDigest'') c = [(u ''format'', VStr CERTIFICATE_FORMAT), (u ''statement'', VDict ?s),
         (u ''statementDigest'', VStr sd), (u ''identity'', VBool b), (u ''normalizedDifference'', VList terms)]"
    by (simp add: c)
  have vars: "variables_ok (VList (map VStr vs))"
    using assms(3-6) by (simp add: variables_ok_def comp_def)
  have names: "map str_val (map VStr vs) = vs" by (simp add: comp_def)
  have "check_digest py (VStr sd) (VDict ?s) m = Inr sd" for m
    using digests sd by (simp add: check_digest_def)
  moreover have "check_digest py (VStr d) (VDict (AList.delete (u ''certificateDigest'') c)) m = Inr d" for m
    unfolding del using digests d by (simp add: check_digest_def)
  ultimately show ?thesis
    using assms(7) by (simp only: verify_polynomial_identity_certificate_def Let_def is_dict.simps dict_val.simps get keys vars
        names list_val.simps py_eq_simps demand_True simp_thms rbind_Inr pyval.case is_list.simps compare_difference_def) blast
qed

lemma stripped_identifier:
  assumes "identifier_match (strip t)"
  shows "is_variable (strip t)"
proof -
  have "is_space 10" by (simp add: is_space_def)
  then have "strip t \<noteq> [] \<Longrightarrow> last (strip t) \<noteq> 10" using trimmed_strip [of t] by (auto simp: trimmed_def)
  with assms show ?thesis by (auto simp: identifier_match_def)
qed

lemma compare_settled:
  assumes "difference_terms py view = Inr terms" and "distinct (map fst (view_terms view))"
    and "\<forall>kc \<in> set (view_terms view). length (fst kc) = length vs" and "distinct vs"
    and "view_is_zero view \<longleftrightarrow> (\<forall>kc \<in> set (view_terms view). snd kc = 0)"
    and "covers (length vs) s p" and "covers (length vs) t q" and "bounded_shape (s \<union> t) = Inr (s \<union> t)"
    and "\<And>env. peval vs env p - peval vs env q = peval vs env (view_terms view)"
  shows "settled (\<lambda>r. valid r \<and> identity r = view_is_zero view) (compare_difference py terms (view_is_zero view) d p q)"
  unfolding compare_difference_def
proof (rule settled_rbind [OF poly_add_covered [OF assms(6,7,8)]])
  fix diff
  assume diff: "poly_add p q (- 1) = Inr diff"
  have wf: "wf_poly (length vs) p" "wf_poly (length vs) q" using assms(6,7) by (simp_all add: covers_def)
  have "peval vs env diff = peval vs env (view_terms view)" for env
    using poly_add_sound(2) [OF diff wf] assms(9) by simp
  note T = certificate_terms [OF assms(1-4) poly_add_sound(1) [OF diff wf] this]
  show "settled (\<lambda>r. valid r \<and> identity r = view_is_zero view) (rbind (canonical_terms py diff) (\<lambda>expected_terms.
     demand (py_eq (VList terms) (VList expected_terms)) (CertError (u ''certificate coefficients do not match the statement''))
     (demand (view_is_zero view = (diff = [])) (CertError (u ''certificate identity classification is wrong''))
       (Inr \<lparr>valid = True, identity = (diff = []), certificate_digest = d,
             checker_system = CHECKER_SYSTEM, checker_version = CHECKER_VERSION\<rparr>))))"
    using T assms(5) by simp
qed

lemma checker_agrees:
  assumes "polynomial_identity host arguments = Inr result"
    and "variables_arg (is_identifier host) arguments 8 = Inr vs" and "exact_engine host vs exprs nums den"
    and "\<And>bs. is_digest (u ''sha256:'' @ sha256 (python host) bs)"
  shows "\<exists>c. dget_none result (u ''certificate'') = VDict c
    \<and> settled (\<lambda>r. valid r \<and> VBool (identity r) = dget_none result (u ''identity''))
        (verify_polynomial_identity_certificate (python_parse host) (python host) (VDict c))"
proof -
  let ?n = normalize_expression_source
  obtain left right sl sr lt rt view terms c l r where
    trees: "python_parse host (?n left) = Inr lt" "python_parse host (?n right) = Inr rt"
      "length (?n left) \<le> 4096" "length (?n right) \<le> 4096" "visited_nodes lt \<le> 511" "visited_nodes rt \<le> 511"
    and vals: "\<And>env. ast_value env lt = Some (l env)" "\<And>env. ast_value env rt = Some (r env)"
    and follow: "\<And>m. m + visited_nodes lt \<le> MAX_AST_NODES \<Longrightarrow> settled (shapes.followed vs sl (m + visited_nodes lt)) (visit vs lt m)"
      "\<And>m. m + visited_nodes rt \<le> MAX_AST_NODES \<Longrightarrow> settled (shapes.followed vs sr (m + visited_nodes rt)) (visit vs rt m)"
    and union: "bounded_shape (sl \<union> sr) = Inr (sl \<union> sr)" and ids: "\<And>x. x \<in> set vs \<Longrightarrow> identifier_match x"
    and view: "distinct (map fst (view_terms view))" "\<forall>kc \<in> set (view_terms view). length (fst kc) = length vs"
      "\<And>env. peval vs env (view_terms view) = l env - r env" "view_is_zero view \<longleftrightarrow> (\<forall>kc \<in> set (view_terms view). snd kc = 0)"
    and terms: "difference_terms (python host) view = Inr terms"
    and c: "build_certificate (python host) [(u ''left'', VStr (?n left)), (u ''right'', VStr (?n right)),
       (u ''variables'', VList (map VStr vs))] (view_is_zero view) terms = Inr c"
    and res: "dget_none result (u ''certificate'') = VDict c" "dget_none result (u ''identity'') = VBool (view_is_zero view)"
    by (rule produced [OF assms(1-3)]) (rule that)
  from assms(2) obtain ts where ts: "vs = map strip ts" "1 \<le> length vs" "length vs \<le> 8" "distinct vs"
    by (auto simp: variables_arg_Inr)
  have variables: "\<forall>x \<in> set vs. is_variable x" using ids ts(1) by (auto intro: stripped_identifier)
  have "length terms \<le> MAX_CERTIFICATE_TERMS" using terms by (simp add: difference_terms_def result_simps)
  from built_certificate [OF c assms(4) variables ts(4,2,3) this, of "python_parse host"] obtain d where
    verify: "verify_polynomial_identity_certificate (python_parse host) (python host) (VDict c) =
    rbind (parse (python_parse host) vs (VStr (?n left)) 0) (\<lambda>(left, nodes).
    rbind (parse (python_parse host) vs (VStr (?n right)) nodes) (\<lambda>(right, nodes).
      compare_difference (python host) terms (view_is_zero view) d left right))" by blast
  have parse: "parse (python_parse host) vs (VStr (?n left)) m = visit vs lt m"
    "parse (python_parse host) vs (VStr (?n right)) m = visit vs rt m" for m
    using trees(1-4) by (simp_all add: parse_def syntax_as_def)
  have "settled (\<lambda>v. valid v \<and> identity v = view_is_zero view)
      (verify_polynomial_identity_certificate (python_parse host) (python host) (VDict c))"
    unfolding verify parse
  proof (rule settled_rbind [OF follow(1)], goal_cases)
    case (2 x)
    then obtain p n where x: "x = (p, n)" "visit vs lt 0 = Inr (p, n)" "covers (length vs) sl p" "n \<le> 511"
      using trees(5) by (cases x) (auto simp: shapes.followed_def)
    have "n + visited_nodes rt \<le> MAX_AST_NODES" using x(4) trees(6) by (simp add: MAX_AST_NODES_def)
    from follow(2) [OF this] have "settled (\<lambda>v. valid v \<and> identity v = view_is_zero view)
      (rbind (visit vs rt n) (\<lambda>(right, nodes). compare_difference (python host) terms (view_is_zero view) d p right))"
    proof (rule settled_rbind, clarify)
      fix q n'
      assume q: "visit vs rt n = Inr (q, n')" "shapes.followed vs sr (n + visited_nodes rt) (q, n')"
      have "peval vs env p - peval vs env q = peval vs env (view_terms view)" for env
        using visit_sound [OF x(2)] visit_sound [OF q(1)] vals view(3) by simp
      then show "settled (\<lambda>v. valid v \<and> identity v = view_is_zero view) (compare_difference (python host) terms (view_is_zero view) d p q)"
        using q(2) by (intro compare_settled [OF terms view(1,2) ts(4) view(4) x(3) _ union]) (simp_all add: shapes.followed_def)
    qed
    with x show ?case by simp
  qed (use trees(5) in \<open>simp add: MAX_AST_NODES_def\<close>)
  with res show ?thesis by auto
qed

text \<open>
  C15: The \<^verbatim>\<open>identity\<close> a certificate claims is right. When the engine's polynomial arithmetic is exact
  and the operation answers, both sides of the normalised statement parse to expressions that are defined
  at every rational point, and the answer is \<^verbatim>\<open>identity\<close> precisely when they agree at every point.
\<close>

theorem certificate_identity_exact:
  assumes "polynomial_identity host arguments = Inr result"
    and "variables_arg (is_identifier host) arguments 8 = Inr vs" and "exact_engine host vs exprs nums den"
  shows "\<exists>left right lt rt b.
    string_arg arguments (u ''left'') VNone 4096 = Inr left \<and> string_arg arguments (u ''right'') VNone 4096 = Inr right
    \<and> python_parse host (normalize_expression_source left) = Inr lt \<and> python_parse host (normalize_expression_source right) = Inr rt
    \<and> (\<forall>env. ast_value env lt \<noteq> None \<and> ast_value env rt \<noteq> None)
    \<and> dget_none result (u ''identity'') = VBool b \<and> (b \<longleftrightarrow> (\<forall>env. ast_value env lt = ast_value env rt))"
proof -
  let ?n = normalize_expression_source
  obtain left right sl sr lt rt view terms c l r where
    P: "string_arg arguments (u ''left'') VNone 4096 = Inr left" "string_arg arguments (u ''right'') VNone 4096 = Inr right"
      "python_parse host (?n left) = Inr lt" "python_parse host (?n right) = Inr rt"
      "length (?n left) \<le> 4096" "length (?n right) \<le> 4096" "visited_nodes lt \<le> 511" "visited_nodes rt \<le> 511"
      "\<And>env. ast_value env lt = Some (l env)" "\<And>env. ast_value env rt = Some (r env)"
    and "\<And>m. m + visited_nodes lt \<le> MAX_AST_NODES \<Longrightarrow> settled (shapes.followed vs sl (m + visited_nodes lt)) (visit vs lt m)"
      "\<And>m. m + visited_nodes rt \<le> MAX_AST_NODES \<Longrightarrow> settled (shapes.followed vs sr (m + visited_nodes rt)) (visit vs rt m)"
      "bounded_shape (sl \<union> sr) = Inr (sl \<union> sr)" "\<And>x. x \<in> set vs \<Longrightarrow> identifier_match x"
    and view: "distinct (map fst (view_terms view))" "\<forall>kc \<in> set (view_terms view). length (fst kc) = length vs"
      "\<And>env. peval vs env (view_terms view) = l env - r env" "view_is_zero view \<longleftrightarrow> (\<forall>kc \<in> set (view_terms view). snd kc = 0)"
    and "difference_terms (python host) view = Inr terms"
      "build_certificate (python host) [(u ''left'', VStr (?n left)), (u ''right'', VStr (?n right)),
       (u ''variables'', VList (map VStr vs))] (view_is_zero view) terms = Inr c"
      "dget_none result (u ''certificate'') = VDict c"
    and res: "dget_none result (u ''identity'') = VBool (view_is_zero view)"
    by (rule produced [OF assms]) (rule that)
  have vs: "distinct vs" using assms(2) by (auto simp: variables_arg_Inr)
  let ?t = "filter (\<lambda>kc. snd kc \<noteq> 0) (view_terms view)"
  have w: "wf_poly (length vs) ?t" using view(1,2) by (auto simp: wf_poly_def distinct_map_filter)
  have "view_is_zero view \<longleftrightarrow> ?t = []" using view(4) by (simp add: filter_empty_conv)
  also have "\<dots> \<longleftrightarrow> (\<forall>env. peval vs env ?t = 0)" using nonempty_poly_nonroot [OF w vs] by auto
  also have "\<dots> \<longleftrightarrow> (\<forall>env. ast_value env lt = ast_value env rt)" by (simp add: peval_filter view(3) P(9,10))
  finally show ?thesis using P res by auto
qed

text \<open>
  C4: Every certificate survives its independent check. The checker, which parses the statement again and
  computes the difference with its own arithmetic, accepts each certificate the operation produces and
  reaches the same classification; the one thing that can stop it is its limit on the length of
  intermediate coefficients. It never finds a digest, a term, the classification or any other limit wrong.
\<close>

theorem certificate_passes_checker:
  assumes "polynomial_identity host arguments = Inr result"
    and "variables_arg (is_identifier host) arguments 8 = Inr vs" and "exact_engine host vs exprs nums den"
    and "\<forall>bs. is_digest (u ''sha256:'' @ sha256 (python host) bs)"
  shows "\<exists>c. dget_none result (u ''certificate'') = VDict c
    \<and> (case verify_polynomial_identity_certificate (python_parse host) (python host) (VDict c) of
         Inr r \<Rightarrow> valid r \<and> VBool (identity r) = dget_none result (u ''identity'')
       | Inl e \<Rightarrow> e = CertError (u ''certificate coefficient exceeds the checker limit''))"
proof -
  from checker_agrees [OF assms(1-3)] assms(4) obtain c where c: "dget_none result (u ''certificate'') = VDict c"
    "settled (\<lambda>r. valid r \<and> VBool (identity r) = dget_none result (u ''identity''))
      (verify_polynomial_identity_certificate (python_parse host) (python host) (VDict c))" by blast
  then show ?thesis
    by (cases "verify_polynomial_identity_certificate (python_parse host) (python host) (VDict c)")
      (auto simp: settled_def coefficient_limit_def)
qed

end
