(* ===== verification/Certificate_Samples.thy ===== *)
theory Certificate_Samples
  imports Certificates Output_Policy
begin

text \<open>
  A certificate produced by an engine with exact arithmetic, the polynomials of the checker itself:
  the hypotheses of the theorems about certificates hold of it.
\<close>

section \<open>A certificate\<close>

text \<open>
  An engine that does exact arithmetic: the polynomials of the checker, over the variable \<open>x\<close>, with
  the checker's own operations. It certifies that \<^verbatim>\<open>x*x\<close> and \<^verbatim>\<open>x\<close> differ.
\<close>

definition poly_integer :: "int \<Rightarrow> poly" where
  "poly_integer i = (if i = 0 then [] else [([0], of_int i)])"

definition poly_quotient :: "poly \<Rightarrow> poly \<Rightarrow> pyexn + poly" where
  "poly_quotient p q =
     (case q of [(k, d)] \<Rightarrow> normalize (map (\<lambda>kc. (fst kc, snd kc / d)) p) | _ \<Rightarrow> Inl (PyExn (u ''ZeroDivisionError'') []))"

definition poly_raise :: "poly \<Rightarrow> poly \<Rightarrow> pyexn + poly" where
  "poly_raise p q = (case q of [] \<Rightarrow> Inr [([0], 1)] | [(k, d)] \<Rightarrow> poly_power p \<lfloor>d\<rfloor> 1 | _ \<Rightarrow> Inl (PyExn (u ''TypeError'') []))"

definition poly_cas :: "poly cas" where
  "poly_cas =
     \<lparr>cas_integer = poly_integer, cas_float = (\<lambda>_. Inl (PyExn (u ''TypeError'') [])), cas_symbol = (\<lambda>_. [([1], 1)]),
      cas_constant = (\<lambda>_. []), cas_neg = (\<lambda>p. Inr (map (\<lambda>kc. (fst kc, - snd kc)) p)),
      cas_binary = (\<lambda>op p q. case op of
         OAdd \<Rightarrow> poly_add p q 1 | OSub \<Rightarrow> poly_add p q (- 1) | OMult \<Rightarrow> poly_multiply p q
       | ODiv \<Rightarrow> poly_quotient p q | OPow \<Rightarrow> poly_raise p q | _ \<Rightarrow> Inl (PyExn (u ''TypeError'') [])),
      cas_call = (\<lambda>_ _. Inl (PyExn (u ''TypeError'') [])), cas_is_number = (\<lambda>_. Inr False), cas_has_nan = (\<lambda>_. Inr False),
      cas_is_zero = (\<lambda>p. Inr (Some (p = []))), cas_is_real = (\<lambda>_. Inr None), cas_magnitude = (\<lambda>_. Inr FNan)\<rparr>"

definition square_parse :: "pystr \<Rightarrow> pyexn + pyast" where
  "square_parse s = (if s = u ''x*x'' then Inr (EBin None OMult (EName (u ''x'')) (EName (u ''x''))) else Inr (EName (u ''x'')))"

definition poly_host :: "poly symbolic_host" where
  "poly_host =
     \<lparr>symbolic = poly_cas,
      to_polynomial = (\<lambda>gens p. Inr \<lparr>view_terms = p, view_is_zero = (p = []), view_degree = int (max_degree (map fst p))\<rparr>),
      iteration = sorted_list_of_set, python_parse = square_parse, is_identifier = is_variable, python = sample_interp\<rparr>"

definition x_exprs :: "poly set" where
  "x_exprs = {p. wf_poly 1 p}"

definition x_nums :: "poly set" where
  "x_nums = {p. covers 1 {[0]} p}"

definition x_den :: "poly \<Rightarrow> (pystr \<Rightarrow> rat) \<Rightarrow> rat" where
  "x_den p env = peval [u ''x''] env p"

lemma x_num_cases: "p \<in> x_nums \<longleftrightarrow> p = [] \<or> (\<exists>d. p = [([0], d)] \<and> d \<noteq> 0)"
proof
  assume p: "p \<in> x_nums"
  show "p = [] \<or> (\<exists>d. p = [([0], d)] \<and> d \<noteq> 0)"
    using p wf_poly_constant [of 1 p] by (cases p) (auto simp: x_nums_def covers_def)
next
  have "shape_ok 1 {[0]}" using zero_shape_ok [of 1] by simp
  then show "p = [] \<or> (\<exists>d. p = [([0], d)] \<and> d \<noteq> 0) \<Longrightarrow> p \<in> x_nums"
    by (auto simp: x_nums_def covers_def wf_poly_def)
qed

lemma x_exact_arithmetic: "exact_arithmetic poly_cas [u ''x''] x_exprs x_nums x_den"
proof -
  have sub: "x_nums \<subseteq> x_exprs" by (auto simp: x_num_cases x_exprs_def wf_poly_def)
  have order: "iterates sorted_list_of_set" by (simp add: iterates_def)
  have binary: "e \<in> x_exprs \<and> (a \<in> x_nums \<and> b \<in> x_nums \<longrightarrow> e \<in> x_nums)
      \<and> (\<forall>env. x_den e env = (if op = OAdd then x_den a env + x_den b env else if op = OSub then x_den a env - x_den b env
                              else x_den a env * x_den b env))"
    if ab: "a \<in> x_exprs" "b \<in> x_exprs" "cas_binary poly_cas op a b = Inr e" "op \<in> {OAdd, OSub, OMult}" for a b e op
  proof (cases "op = OMult")
    case True
    with ab(3) have m: "poly_multiply a b = Inr e" by (simp add: poly_cas_def)
    have "e \<in> x_nums" if n: "a \<in> x_nums" "b \<in> x_nums"
    proof -
      have "bounded_shape {[0 :: nat]} = Inr {[0]}"
        using bounded_shape_Inr [of "{[0]}" "{[0]}"] zero_shape_ok [of 1] by (simp add: shape_ok_def)
      then have "multiply_shapes sorted_list_of_set {[0]} {[0]} = Inr {[0]}"
        by (simp add: multiply_shapes_def add_powers_def)
      from poly_multiply_covered [OF _ _ order this, of 1 a b] n m show ?thesis by (simp add: x_nums_def)
    qed
    with poly_multiply_sound [of a b e "[u ''x'']"] m ab True show ?thesis by (simp add: x_exprs_def x_den_def)
  next
    case False
    define s :: rat where "s = (if op = OAdd then 1 else - 1)"
    have a: "poly_add a b s = Inr e" using ab(3,4) False by (auto simp: poly_cas_def s_def)
    have "bounded_shape ({[0 :: nat]} \<union> {[0]}) = Inr {[0]}"
      using bounded_shape_Inr [of "{[0]}" "{[0]}"] zero_shape_ok [of 1] by (simp add: shape_ok_def)
    from poly_add_covered [OF _ _ this, of 1 a b s] a have "a \<in> x_nums \<and> b \<in> x_nums \<longrightarrow> e \<in> x_nums"
      by (simp add: x_nums_def)
    with poly_add_sound [OF a, of 1] ab False show ?thesis by (auto simp: x_exprs_def x_den_def s_def)
  qed
  have neg: "e \<in> x_exprs \<and> (\<forall>env. x_den e env = - x_den a env) \<and> (a \<in> x_nums \<longrightarrow> e \<in> x_nums)"
    if "a \<in> x_exprs" "cas_neg poly_cas a = Inr e" for a e
    using that wf_poly_map [of 1 a uminus] scaled_covered [of 1 "{[0]}" a uminus] peval_scale [of uminus "- 1" "[u ''x'']" _ a]
    by (auto simp: x_exprs_def poly_cas_def x_den_def x_nums_def)
  have int: "cas_integer poly_cas i \<in> x_nums \<and> (\<forall>env. x_den (cas_integer poly_cas i) env = of_int i)" for i
    by (simp add: x_num_cases poly_cas_def poly_integer_def x_den_def monomial_def)
  have sym: "cas_symbol poly_cas x \<in> x_exprs \<and> (\<forall>env. x_den (cas_symbol poly_cas x) env = env x)" if "x \<in> set [u ''x'']" for x
    using that by (simp add: poly_cas_def x_exprs_def x_den_def wf_poly_def monomial_def)
  show ?thesis
    unfolding exact_arithmetic_def using sub int sym neg binary by blast
qed

lemma x_constant_power:
  "shape_power_loop sorted_list_of_set {[0]} {[0]} m = Inr {[0 :: nat]}"
proof (induction m rule: less_induct)
  case (less m)
  have "bounded_shape {[0 :: nat]} = Inr {[0]}"
    using bounded_shape_Inr [of "{[0]}" "{[0]}"] zero_shape_ok [of 1] by (simp add: shape_ok_def)
  then have "multiply_shapes sorted_list_of_set {[0]} {[0]} = Inr {[0 :: nat]}"
    by (simp add: multiply_shapes_def add_powers_def)
  with less show ?case by (subst shape_power_loop.simps) simp
qed

lemma x_exact_quotients: "exact_quotients poly_cas x_exprs x_nums x_den"
proof -
  have order: "iterates sorted_list_of_set" by (simp add: iterates_def)
  have nonzero: "\<forall>env. x_den b env \<noteq> 0" if "b \<in> x_nums" "cas_is_zero poly_cas b = Inr z" "z \<noteq> Some True" for b z
    using that by (auto simp: x_num_cases poly_cas_def x_den_def monomial_def)
  have quot: "e \<in> x_exprs \<and> (a \<in> x_nums \<longrightarrow> e \<in> x_nums) \<and> (\<forall>env. x_den e env = x_den a env / x_den b env)"
    if ab: "b \<in> x_nums" "a \<in> x_exprs" "cas_binary poly_cas ODiv a b = Inr e" "\<forall>env. x_den b env \<noteq> 0" for a b e
  proof -
    from ab(1,4) obtain d where d: "b = [([0], d)]" "d \<noteq> 0" by (auto simp: x_num_cases x_den_def)
    let ?m = "map (\<lambda>kc. (fst kc, snd kc / d)) a"
    have n: "normalize ?m = Inr e" using ab(3) d by (simp add: poly_cas_def poly_quotient_def)
    have a: "wf_poly 1 a" using ab(2) by (simp add: x_exprs_def)
    then have m: "distinct (map fst ?m)" "key_lengths 1 ?m"
      by (auto simp: wf_poly_def key_lengths_def comp_def)
    have "peval [u ''x''] env ?m = 1 / d * peval [u ''x''] env a" for env by (rule peval_scale) simp
    then have "x_den e env = x_den a env / x_den b env" for env
      using normalize_sound(2) [OF n m] d by (simp add: x_den_def monomial_def)
    moreover have "fst ` set ?m = fst ` set a" by force
    then have "a \<in> x_nums \<longrightarrow> e \<in> x_nums"
      using normalize_covered [OF m(1), of "{[0]}" 1] n by (auto simp: x_nums_def covers_def)
    ultimately show ?thesis using normalize_sound(1) [OF n m] by (simp add: x_exprs_def)
  qed
  have power: "e \<in> x_exprs \<and> (a \<in> x_nums \<or> i = 0 \<longrightarrow> e \<in> x_nums) \<and> (\<forall>env. x_den e env = x_den a env ^ nat i)"
    if a: "a \<in> x_exprs" "0 \<le> i" "cas_binary poly_cas OPow a (cas_integer poly_cas i) = Inr e" for a i e
  proof (cases "i = 0")
    case True
    with a have "e = [([0], 1)]" by (simp add: poly_cas_def poly_integer_def poly_raise_def)
    with True show ?thesis by (simp add: x_num_cases x_exprs_def wf_poly_def x_den_def monomial_def)
  next
    case False
    with a(3) have p: "poly_power a i (length [u ''x'']) = Inr e" by (simp add: poly_cas_def poly_integer_def poly_raise_def)
    note S = poly_power_sound [OF p]
    have "e \<in> x_nums" if n: "a \<in> x_nums"
    proof -
      from p have "i \<le> int MAX_POLYNOMIAL_DEGREE" by (simp add: poly_power_def demand_eq_Inr)
      then have "power_shape sorted_list_of_set {[0]} i 1 = Inr {[0]}"
        using a(2) x_constant_power by (simp add: power_shape_def)
      from poly_power_covered [OF this order, of a] n p show ?thesis by (simp add: x_nums_def)
    qed
    with S a False show ?thesis by (simp add: x_exprs_def x_den_def)
  qed
  show ?thesis
    unfolding exact_quotients_def
  proof (rule conjI; rule ballI)
    fix b assume b: "b \<in> x_nums"
    have "\<forall>z. cas_is_zero poly_cas b = Inr z \<longrightarrow> z \<noteq> Some True \<longrightarrow> (\<forall>env. x_den b env \<noteq> 0)"
      by (intro allI impI nonzero [OF b, THEN spec])
    moreover have "\<forall>a \<in> x_exprs. \<forall>e. cas_binary poly_cas ODiv a b = Inr e \<longrightarrow> (\<forall>env. x_den b env \<noteq> 0) \<longrightarrow>
             e \<in> x_exprs \<and> (a \<in> x_nums \<longrightarrow> e \<in> x_nums) \<and> (\<forall>env. x_den e env = x_den a env / x_den b env)"
      by (intro ballI allI impI) (rule quot [OF b])
    ultimately show "(\<forall>z. cas_is_zero poly_cas b = Inr z \<longrightarrow> z \<noteq> Some True \<longrightarrow> (\<forall>env. x_den b env \<noteq> 0))
        \<and> (\<forall>a \<in> x_exprs. \<forall>e. cas_binary poly_cas ODiv a b = Inr e \<longrightarrow> (\<forall>env. x_den b env \<noteq> 0) \<longrightarrow>
             e \<in> x_exprs \<and> (a \<in> x_nums \<longrightarrow> e \<in> x_nums) \<and> (\<forall>env. x_den e env = x_den a env / x_den b env))"
      by (rule conjI)
  next
    fix a assume "a \<in> x_exprs"
    then show "\<forall>i e. 0 \<le> i \<longrightarrow> cas_binary poly_cas OPow a (cas_integer poly_cas i) = Inr e \<longrightarrow>
        e \<in> x_exprs \<and> (a \<in> x_nums \<or> i = 0 \<longrightarrow> e \<in> x_nums) \<and> (\<forall>env. x_den e env = x_den a env ^ nat i)"
      by (intro allI impI power)
  qed
qed

lemma x_exact: "exact_engine poly_host [u ''x''] x_exprs x_nums x_den"
proof -
  have "p = [] \<longleftrightarrow> (\<forall>kc \<in> set p. snd kc = 0)" if "wf_poly 1 p" for p
    using that by (cases p) (auto simp: wf_poly_def)
  then have "exact_polynomials (to_polynomial poly_host) (map (cas_symbol (symbolic poly_host)) [u ''x'']) [u ''x''] x_exprs x_den"
    by (simp add: exact_polynomials_def poly_host_def x_exprs_def x_den_def) (simp add: wf_poly_def)
  with x_exact_arithmetic x_exact_quotients show ?thesis
    by (simp add: exact_engine_def poly_host_def iterates_def)
qed

definition square_arguments :: pydict where
  "square_arguments = [(u ''left'', VStr (u ''x*x'')), (u ''right'', VStr (u ''x'')), (u ''variables'', VList [VStr (u ''x'')])]"

lemma square_texts:
  "strip (u ''x*x'') = u ''x*x''" "strip (u ''x'') = u ''x''" "normalize_expression_source (u ''x*x'') = u ''x*x''"
  "normalize_expression_source (u ''x'') = u ''x''"
  by (simp_all add: normalize_expression_source_def strip_def is_space_def u_def replace_cp_def)

lemma square_variables: "variables_arg (is_identifier poly_host) square_arguments 8 = Inr [u ''x'']"
proof -
  have "is_variable (u ''x'')" by (simp add: is_variable_def u_def)
  then show ?thesis
    by (simp add: variables_arg_Inr poly_host_def square_arguments_def dget_none_def dget_def)
      (rule exI [of _ "[u ''x'']"], simp add: square_texts)
qed

lemma x_operations: "cas_binary poly_cas OSub p q = poly_add p q (- 1)" "cas_symbol poly_cas x = [([1], 1)]"
  by (simp_all add: poly_cas_def)

lemma x_normalized: "normalize [([2], 1)] = Inr [([2], 1)]" "normalize [([2], 1), ([1], - 1)] = Inr [([2], 1), ([1], - 1)]"
  by (simp_all add: poly_eval)

lemma square_difference:
  "difference_polynomial poly_host [u ''x''] (u ''x*x'') (u ''x'')
     = Inr \<lparr>view_terms = [([2], 1), ([1], - 1)], view_is_zero = False, view_degree = 2\<rparr>"
proof -
  have b: "bounded_shape s = Inr s" if "small_shape s" for s using that bounded_shape_Inr [of s s] by (simp add: small_shape_def)
  have ok: "small_shape {[2 :: nat]}" "small_shape {[2 :: nat], [1]}"
    by (simp_all add: small_shape_def MAX_CERTIFICATE_TERMS_def MAX_POLYNOMIAL_DEGREE_def)
  have shapes: "preflight_shape sorted_list_of_set square_parse (u ''x*x'') [u ''x''] = Inr {[2]}"
    "preflight_shape sorted_list_of_set square_parse (u ''x'') [u ''x''] = Inr {[1]}"
    using b [OF ok(1)] by (simp_all add: preflight_shape_def invalid_syntax_def catching_def square_parse_def MAX_AST_NODES_def
        index_of_def multiply_shapes_def add_powers_def numeral_2_eq_2)
  have "is_variable (u ''x'')" by (simp add: is_variable_def u_def)
  then have syms: "make_symbols poly_cas [u ''x''] = Inr [(u ''x'', [([1], 1)])]"
    by (simp add: make_symbols_def identifier_match_def CONSTANTS_def FUNCTIONS_def poly_cas_def)
  have mult: "poly_multiply [([Suc 0], 1)] [([Suc 0], 1)] = Inr [([2], 1)]"
    using x_normalized(1) by (simp add: poly_multiply_def add_powers_def add_term_def dget_def numeral_2_eq_2)
  have sub: "poly_add [([2], 1)] [([Suc 0], 1)] (- 1) = Inr [([2], 1), ([1], - 1)]"
    using x_normalized(2) by (simp add: poly_add_def add_term_def dget_def)
  have name: "translate_name poly_cas [(u ''x'', [([1], 1)])] [] (u ''x'') = Inr [([1], 1)]"
    by (simp add: translate_name_def)
  have exprs: "parse_expression poly_cas sample_interp square_parse [(u ''x'', [([1], 1)])] [] (VStr (u ''x*x'')) = Inr [([2], 1)]"
    "parse_expression poly_cas sample_interp square_parse [(u ''x'', [([1], 1)])] [] (VStr (u ''x'')) = Inr [([1], 1)]"
    using mult name
    by (simp_all add: parse_expression_def parse_source_def square_texts invalid_syntax_def catching_def square_parse_def
        translate_tree_def MAX_TRANSLATED_NODES_def combine_operands_def poly_cas_def)
  have "{[2 :: nat]} \<union> {[1]} = {[2], [1]}" by auto
  then show ?thesis
    using sub b [OF ok(2)]
    by (simp add: difference_polynomial_def poly_host_def syms [simplified] shapes [simplified] exprs [simplified] catching_def
        insert_commute [of "[2]"] x_operations max_degree_def)
qed

definition square_terms :: "pyval list" where
  "square_terms =
     [VDict [(u ''powers'', VList [VInt 2]), (u ''coefficient'', VStr (u ''1''))],
      VDict [(u ''powers'', VList [VInt 1]), (u ''coefficient'', VStr (u ''-1''))]]"

definition square_statement :: pydict where
  "square_statement = [(u ''left'', VStr (u ''x*x'')), (u ''right'', VStr (u ''x'')), (u ''variables'', VList [VStr (u ''x'')])]"

definition square_certificate :: pydict where
  "square_certificate =
     [(u ''format'', VStr CERTIFICATE_FORMAT), (u ''statement'', VDict square_statement),
      (u ''statementDigest'', VStr sample_digest), (u ''identity'', VBool False),
      (u ''normalizedDifference'', VList square_terms)]"

lemma square_terms_shown:
  "difference_terms sample_interp \<lparr>view_terms = [([2], 1), ([1], - 1)], view_is_zero = False, view_degree = 2\<rparr> = Inr square_terms"
proof -
  have s: "sort_key fst [([2 :: nat], 1 :: rat), ([1], - 1)] = [([1], - 1), ([2], 1)]" by simp
  have t: "certificate_term sample_interp ([2], 1) = Inr (VDict [(u ''powers'', VList [VInt 2]), (u ''coefficient'', VStr (u ''1''))])"
    "certificate_term sample_interp ([1], - 1) = Inr (VDict [(u ''powers'', VList [VInt 1]), (u ''coefficient'', VStr (u ''-1''))])"
    by (simp_all add: certificate_term_def certificate_fraction_text_def fraction_text_def fraction_parts bit_length_one
        MAX_COEFFICIENT_BITS_def int_str_def digits_allowed_def sample_interp_def int_text_def nat_text.simps digit_cp_def u_def)
  show ?thesis
    unfolding difference_terms_def poly_view.simps s
    using t by (simp add: MAX_POLYNOMIAL_DEGREE_def MAX_CERTIFICATE_TERMS_def square_terms_def)
qed

lemma square_encodable:
  "\<not> isl (canonical_json sample_interp True (VDict square_statement))"
  "\<not> isl (canonical_json sample_interp True (VDict square_certificate))"
proof -
  have "tidy sample_interp (VDict square_statement)" "tidy sample_interp (VDict square_certificate)"
    by (simp_all add: square_certificate_def square_statement_def square_terms_def CERTIFICATE_FORMAT_def sample_digest_def plain_lit
        sample_interp_def digits_allowed_def nat_text.simps plain_def [of "replicate 64 48"])
  from this [THEN tidy_canonical, of True]
  show "\<not> isl (canonical_json sample_interp True (VDict square_statement))"
    "\<not> isl (canonical_json sample_interp True (VDict square_certificate))" by auto
qed

lemma square_built: "\<exists>c. build_certificate sample_interp square_statement False square_terms = Inr c"
  using sample_digest_of [OF square_encodable(1)] sample_digest_of [OF square_encodable(2)]
  by (simp add: build_certificate_def Let_def square_certificate_def)

lemma square_produced: "\<exists>result. polynomial_identity poly_host square_arguments = Inr result"
proof -
  have l: "string_arg square_arguments (u ''left'') VNone 4096 = Inr (u ''x*x'')"
    "string_arg square_arguments (u ''right'') VNone 4096 = Inr (u ''x'')"
    by (simp_all add: string_arg_Inr square_arguments_def dget_def square_texts)
  have py: "python poly_host = sample_interp" by (simp add: poly_host_def)
  show ?thesis
    using square_built
    by (auto simp: polynomial_identity_def Let_def l square_variables square_texts square_difference py square_terms_shown [unfolded One_nat_def]
        square_statement_def)
qed

lemma sample_hash: "\<forall>bs. is_digest (u ''sha256:'' @ sha256 sample_interp bs)"
  using sample_digest_ok by (simp add: sample_digest_def sample_interp_def)

theorem certificate_identity_exact_witness:
  "\<exists>result. polynomial_identity poly_host square_arguments = Inr result
    \<and> (\<exists>left right lt rt b.
      string_arg square_arguments (u ''left'') VNone 4096 = Inr left \<and> string_arg square_arguments (u ''right'') VNone 4096 = Inr right
      \<and> python_parse poly_host (normalize_expression_source left) = Inr lt
      \<and> python_parse poly_host (normalize_expression_source right) = Inr rt
      \<and> (\<forall>env. ast_value env lt \<noteq> None \<and> ast_value env rt \<noteq> None)
      \<and> dget_none result (u ''identity'') = VBool b \<and> (b \<longleftrightarrow> (\<forall>env. ast_value env lt = ast_value env rt)))"
proof -
  obtain result where r: "polynomial_identity poly_host square_arguments = Inr result" using square_produced by blast
  with certificate_identity_exact [OF r square_variables x_exact] show ?thesis by blast
qed

theorem certificate_passes_checker_witness:
  "\<exists>result. polynomial_identity poly_host square_arguments = Inr result
    \<and> (\<exists>c. dget_none result (u ''certificate'') = VDict c
      \<and> (case verify_polynomial_identity_certificate square_parse sample_interp (VDict c) of
           Inr r \<Rightarrow> valid r \<and> VBool (identity r) = dget_none result (u ''identity'')
         | Inl e \<Rightarrow> e = CertError (u ''certificate coefficient exceeds the checker limit'')))"
proof -
  obtain result where r: "polynomial_identity poly_host square_arguments = Inr result" using square_produced by blast
  have py: "python poly_host = sample_interp" "python_parse poly_host = square_parse" by (simp_all add: poly_host_def)
  from certificate_passes_checker [OF r square_variables x_exact] sample_hash r show ?thesis unfolding py by blast
qed

end
