(* ===== verification/Floating.thy ===== *)
theory Floating
  imports Certificate_Checker Py_Decimal "HOL-Library.Word"
begin

text \<open>
  \<^verbatim>\<open>operations/floating.py\<close>: IEEE 754 inspection and comparison of binary32 and binary64 numbers. What
  the standard library computes (\<^verbatim>\<open>struct\<close>, \<^verbatim>\<open>float\<close>, \<^verbatim>\<open>decimal\<close>) is written out; only the shortest
  decimal forms of a float are a parameter.
\<close>

unbundle bit_operations_syntax

section \<open>Formats\<close>

datatype float_format = Binary32 | Binary64

text \<open>The table \<^verbatim>\<open>_FORMATS\<close>.\<close>

definition FORMATS :: "(pystr \<times> float_format) list" where
  "FORMATS = [(u ''binary32'', Binary32), (u ''binary64'', Binary64)]"

fun total_bits :: "float_format \<Rightarrow> nat" where
  "total_bits Binary32 = 32"
| "total_bits Binary64 = 64"

fun exponent_width :: "float_format \<Rightarrow> nat" where
  "exponent_width Binary32 = 8"
| "exponent_width Binary64 = 11"

fun fraction_width :: "float_format \<Rightarrow> nat" where
  "fraction_width Binary32 = 23"
| "fraction_width Binary64 = 52"

definition bias :: "float_format \<Rightarrow> int" where
  "bias fmt = push_bit (exponent_width fmt - 1) 1 - 1"

definition positive_infinity :: "float_format \<Rightarrow> int" where
  "positive_infinity fmt = push_bit (fraction_width fmt) (push_bit (exponent_width fmt) 1 - 1)"

definition sign_bit :: "float_format \<Rightarrow> int" where
  "sign_bit fmt = push_bit (total_bits fmt - 1) 1"

section \<open>Python's floats\<close>

text \<open>
  A \<^verbatim>\<open>float\<close> is a binary64 number: a sign and a magnitude, an infinity, or a NaN with its sign.
  \<open>unpack\<close> and \<open>pack\<close> are \<^verbatim>\<open>struct.unpack\<close> and \<^verbatim>\<open>struct.pack\<close> on the big-endian integer of the bytes:
  the value of a pattern, and the pattern nearest to a value, ties to even.
\<close>

datatype double = DFin bool rat | DInf bool | DNan bool

definition pow2 :: "int \<Rightarrow> rat" where
  "pow2 e = (if 0 \<le> e then 2 ^ nat e else 1 / 2 ^ nat (- e))"

definition min_exponent :: "float_format \<Rightarrow> int" where
  "min_exponent fmt = 1 - bias fmt - int (fraction_width fmt)"

definition sign_field :: "float_format \<Rightarrow> int \<Rightarrow> int" where
  "sign_field fmt bits = drop_bit (total_bits fmt - 1) bits"

definition fraction_field :: "float_format \<Rightarrow> int \<Rightarrow> int" where
  "fraction_field fmt bits = bits AND (push_bit (fraction_width fmt) 1 - 1)"

definition exponent_field :: "float_format \<Rightarrow> int \<Rightarrow> int" where
  "exponent_field fmt bits = drop_bit (fraction_width fmt) bits AND (push_bit (exponent_width fmt) 1 - 1)"

definition bits_to_float :: "float_format \<Rightarrow> int \<Rightarrow> double" where
  "bits_to_float fmt bits =
     (let negative = (sign_field fmt bits = 1); e = exponent_field fmt bits; f = fraction_field fmt bits in
      if e = push_bit (exponent_width fmt) 1 - 1 then (if f = 0 then DInf negative else DNan negative)
      else if e = 0 then DFin negative (of_int f * pow2 (min_exponent fmt))
      else DFin negative (of_int (push_bit (fraction_width fmt) 1 + f) * pow2 (e - 1 + min_exponent fmt)))"

text \<open>\<open>ilog2 r\<close> is the exponent of the largest power of two that is at most the positive \<open>r\<close>.\<close>

definition ilog2 :: "rat \<Rightarrow> int" where
  "ilog2 r =
     (let e = int (bit_length (numerator r)) - int (bit_length (denominator r)) in
      if pow2 e \<le> r then e else e - 1)"

definition nearest_even :: "rat \<Rightarrow> int" where
  "nearest_even x =
     (let f = \<lfloor>x\<rfloor>; d = x - of_int f in
      if d < 1/2 then f else if 1/2 < d then f + 1 else if even f then f else f + 1)"

definition last_place :: "float_format \<Rightarrow> rat \<Rightarrow> int" where
  "last_place fmt r = max (ilog2 r - int (fraction_width fmt)) (min_exponent fmt)"

definition nearest_magnitude :: "float_format \<Rightarrow> rat \<Rightarrow> int" where
  "nearest_magnitude fmt r =
     (if r = 0 then 0
      else push_bit (fraction_width fmt) (last_place fmt r - min_exponent fmt)
           + nearest_even (r / pow2 (last_place fmt r)))"

definition signed_bits :: "float_format \<Rightarrow> bool \<Rightarrow> int \<Rightarrow> int" where
  "signed_bits fmt negative m = (if negative then sign_bit fmt + m else m)"

definition struct_pack :: "float_format \<Rightarrow> double \<Rightarrow> pyexn + int" where
  "struct_pack fmt v =
     (case v of
        DFin negative r \<Rightarrow>
          demand (nearest_magnitude fmt r < positive_infinity fmt)
            (PyExn (u ''OverflowError'') (u ''float too large to pack with f format''))
            (Inr (signed_bits fmt negative (nearest_magnitude fmt r)))
      | DInf negative \<Rightarrow> Inr (signed_bits fmt negative (positive_infinity fmt))
      | DNan negative \<Rightarrow>
          Inr (signed_bits fmt negative (positive_infinity fmt + push_bit (fraction_width fmt - 1) 1)))"

text \<open>\<^verbatim>\<open>float(decimal)\<close> rounds correctly and overflows to an infinity.\<close>

definition float_of_rational :: "bool \<Rightarrow> rat \<Rightarrow> double" where
  "float_of_rational negative r =
     (if nearest_magnitude Binary64 r < positive_infinity Binary64
      then bits_to_float Binary64 (signed_bits Binary64 negative (nearest_magnitude Binary64 r))
      else DInf negative)"

fun float_of_decimal :: "decimal \<Rightarrow> double" where
  "float_of_decimal (DecFin negative c e) = float_of_rational negative (of_nat c * pow10 e)"
| "float_of_decimal (DecInf negative) = DInf negative"
| "float_of_decimal DecNan = DNan False"

fun is_negative :: "double \<Rightarrow> bool" where
  "is_negative (DFin negative _) = negative"
| "is_negative (DInf negative) = negative"
| "is_negative (DNan negative) = negative"

fun is_nan :: "double \<Rightarrow> bool" where
  "is_nan (DNan _) = True"
| "is_nan _ = False"

text \<open>\<^verbatim>\<open>Fraction.from_float\<close> of a finite float.\<close>

fun finite_value :: "double \<Rightarrow> rat option" where
  "finite_value (DFin negative r) = Some (if negative then - r else r)"
| "finite_value _ = None"

text \<open>\<^verbatim>\<open><\<close> and \<^verbatim>\<open>==\<close> between floats that are not NaN.\<close>

fun float_less :: "double \<Rightarrow> double \<Rightarrow> bool" where
  "float_less (DFin s r) (DFin t q) \<longleftrightarrow> (if s then - r else r) < (if t then - q else q)"
| "float_less (DFin _ _) (DInf t) \<longleftrightarrow> \<not> t"
| "float_less (DInf s) (DFin _ _) \<longleftrightarrow> s"
| "float_less (DInf s) (DInf t) \<longleftrightarrow> s \<and> \<not> t"
| "float_less _ _ \<longleftrightarrow> False"

fun float_equal :: "double \<Rightarrow> double \<Rightarrow> bool" where
  "float_equal (DFin s r) (DFin t q) \<longleftrightarrow> (if s then - r else r) = (if t then - q else q)"
| "float_equal (DInf s) (DInf t) \<longleftrightarrow> s = t"
| "float_equal _ _ \<longleftrightarrow> False"

section \<open>Exact text\<close>

text \<open>
  \<^verbatim>\<open>Decimal(numerator) / Decimal(denominator)\<close> in a context of 1200 digits, for a denominator that is a
  power of two (every fraction of a float, and every difference of two): exact when it fits, otherwise
  rounded half to even.
\<close>

definition DECIMAL_PRECISION :: nat where
  "DECIMAL_PRECISION = 1200"

definition decimal_quotient :: "rat \<Rightarrow> decimal" where
  "decimal_quotient x =
     (let k = bit_length (denominator x) - 1; c = nat \<bar>numerator x\<bar> * 5 ^ k; excess = digit_count c - DECIMAL_PRECISION in
      if excess = 0 then DecFin (x < 0) c (- int k)
      else
        (let c' = nat (nearest_even (of_nat c / 10 ^ excess)) in
         if c' = 10 ^ DECIMAL_PRECISION then DecFin (x < 0) (10 ^ (DECIMAL_PRECISION - 1)) (int excess + 1 - int k)
         else DecFin (x < 0) c' (int excess - int k)))"

definition fraction_value :: "interp \<Rightarrow> rat \<Rightarrow> pyexn + pyval" where
  "fraction_value py x =
     rbind (fraction_text py x) (\<lambda>rational.
       Inr (VDict [(u ''rational'', VStr rational), (u ''decimal'', VStr (fixed_text (decimal_quotient x)))]))"



section \<open>Neighbours and distance\<close>

definition adjacent_bits :: "float_format \<Rightarrow> int \<Rightarrow> int \<Rightarrow> pystr \<Rightarrow> int option" where
  "adjacent_bits fmt bits direction classification =
     (if classification = u ''nan'' then None
      else
        let negative_infinity = sign_bit fmt OR positive_infinity fmt in
        if 0 < direction then
          (if bits = positive_infinity fmt then None
           else if bits = negative_infinity then Some (negative_infinity - 1)
           else if bits = sign_bit fmt then Some 0
           else if bits AND sign_bit fmt \<noteq> 0 then Some (bits - 1) else Some (bits + 1))
        else if bits = negative_infinity then None
        else if bits = positive_infinity fmt then Some (positive_infinity fmt - 1)
        else if bits = 0 then Some (sign_bit fmt)
        else
          let candidate = (if bits AND sign_bit fmt \<noteq> 0 then bits + 1 else bits - 1) in
          Some (candidate AND (push_bit (total_bits fmt) 1 - 1)))"

definition ordered_bits :: "float_format \<Rightarrow> int \<Rightarrow> int" where
  "ordered_bits fmt bits =
     (if bits AND sign_bit fmt \<noteq> 0 then NOT bits AND (push_bit (total_bits fmt) 1 - 1) else bits OR sign_bit fmt)"

definition ulp_distance :: "float_format \<Rightarrow> int \<Rightarrow> int \<Rightarrow> int" where
  "ulp_distance fmt l r = \<bar>ordered_bits fmt l - ordered_bits fmt r\<bar>"

section \<open>Display\<close>

text \<open>
  The shortest texts of a float come from the interpreter: \<^verbatim>\<open>repr(value)\<close> and
  \<^verbatim>\<open>format(value, ".{p}g")\<close>. \<open>decimal_digit\<close> is the table of decimal digits of \<^verbatim>\<open>Decimal(text)\<close>.
\<close>

record float_host =
  float_repr :: "double \<Rightarrow> pystr"
  general_format :: "nat \<Rightarrow> double \<Rightarrow> pystr"
  decimal_digit :: "nat \<Rightarrow> nat option"
  float_python :: interp

definition float_of_text :: "pystr \<Rightarrow> pyexn + double" where
  "float_of_text s =
     (case decimal_of_text ascii_digit s of
        Some d \<Rightarrow> Inr (float_of_decimal d)
      | None \<Rightarrow> Inl (PyExn (u ''ValueError'') (u ''could not convert string to float'')))"

definition float_to_bits :: "float_format \<Rightarrow> double \<Rightarrow> int" where
  "float_to_bits fmt v =
     (case struct_pack fmt v of
        Inr bits \<Rightarrow> bits
      | Inl _ \<Rightarrow> signed_bits fmt (is_negative v) (positive_infinity fmt))"

fun shortest_round_trip :: "float_host \<Rightarrow> double \<Rightarrow> int \<Rightarrow> nat list \<Rightarrow> pyexn + pystr" where
  "shortest_round_trip host v original [] = Inr (general_format host 9 v)"
| "shortest_round_trip host v original (p # ps) =
     rbind (float_of_text (general_format host p v)) (\<lambda>f.
       if float_to_bits Binary32 f = original then Inr (general_format host p v)
       else shortest_round_trip host v original ps)"

definition round_trip_decimal :: "float_host \<Rightarrow> double \<Rightarrow> float_format \<Rightarrow> pyexn + pystr" where
  "round_trip_decimal host v fmt =
     (case v of
        DNan _ \<Rightarrow> Inr (u ''NaN'')
      | DInf negative \<Rightarrow> Inr (if negative then u ''-Infinity'' else u ''Infinity'')
      | DFin _ _ \<Rightarrow>
          if fmt = Binary64 then Inr (float_repr host v)
          else shortest_round_trip host v (float_to_bits Binary32 v) [1..<10])"

definition hex_text :: "float_format \<Rightarrow> int \<Rightarrow> pystr" where
  "hex_text fmt bits = zero_pad (total_bits fmt div 4) (nat_text 16 (nat bits))"

definition neighbor :: "float_host \<Rightarrow> float_format \<Rightarrow> int option \<Rightarrow> pyexn + pyval" where
  "neighbor host fmt bits =
     (case bits of
        None \<Rightarrow> Inr VNone
      | Some b \<Rightarrow>
          rbind (round_trip_decimal host (bits_to_float fmt b) fmt) (\<lambda>t.
            Inr (VDict [(u ''rawHex'', VStr (hex_text fmt b)), (u ''roundTripDecimal'', VStr t)])))"

definition classification_of :: "float_format \<Rightarrow> int \<Rightarrow> pystr" where
  "classification_of fmt bits =
     (let e = exponent_field fmt bits; f = fraction_field fmt bits in
      if e = push_bit (exponent_width fmt) 1 - 1 then (if f = 0 then u ''infinity'' else u ''nan'')
      else if e = 0 then (if f = 0 then u ''zero'' else u ''subnormal'')
      else u ''normal'')"

definition ulp_exponent :: "float_format \<Rightarrow> int \<Rightarrow> int" where
  "ulp_exponent fmt bits =
     (if exponent_field fmt bits = 0 then 1 - bias fmt - int (fraction_width fmt)
      else exponent_field fmt bits - bias fmt - int (fraction_width fmt))"

definition projection :: "float_host \<Rightarrow> float_format \<Rightarrow> int \<Rightarrow> double \<Rightarrow> pyexn + pydict" where
  "projection host fmt bits v =
     (let py = float_python host; classification = classification_of fmt bits in
      rbind (case finite_value v of None \<Rightarrow> Inr VNone | Some x \<Rightarrow> fraction_value py x) (\<lambda>exact_value.
      rbind (if classification \<in> {u ''zero'', u ''subnormal'', u ''normal''}
             then fraction_value py (pow2 (ulp_exponent fmt bits)) else Inr VNone) (\<lambda>ulp.
      rbind (round_trip_decimal host v fmt) (\<lambda>shown.
      rbind (neighbor host fmt (adjacent_bits fmt bits (- 1) classification)) (\<lambda>previous_value.
      rbind (neighbor host fmt (adjacent_bits fmt bits 1 classification)) (\<lambda>next_value.
      Inr [(u ''classification'', VStr classification),
           (u ''sign'', VInt (sign_field fmt bits)),
           (u ''negativeZero'', VBool (classification = u ''zero'' \<and> sign_field fmt bits = 1)),
           (u ''rawHex'', VStr (hex_text fmt bits)),
           (u ''exponentBits'', VStr (zero_pad (exponent_width fmt) (nat_text 2 (nat (exponent_field fmt bits))))),
           (u ''fractionBits'', VStr (zero_pad (fraction_width fmt) (nat_text 2 (nat (fraction_field fmt bits))))),
           (u ''unbiasedExponent'', if classification = u ''normal'' then VInt (exponent_field fmt bits - bias fmt) else VNone),
           (u ''exactValue'', exact_value),
           (u ''roundTripDecimal'', VStr shown),
           (u ''ulp'', ulp),
           (u ''previous'', previous_value),
           (u ''next'', next_value),
           (u ''inputRounded'', VBool False),
           (u ''roundingDirection'', VStr (u ''exact''))]))))))"

section \<open>Input\<close>

text \<open>\<^verbatim>\<open>_SPECIAL_DECIMALS\<close>.\<close>

definition SPECIAL_DECIMALS :: "(pystr \<times> double) list" where
  "SPECIAL_DECIMALS =
     [(u ''nan'', DNan False), (u ''+nan'', DNan False), (u ''-nan'', DNan True),
      (u ''infinity'', DInf False), (u ''+infinity'', DInf False), (u ''inf'', DInf False), (u ''+inf'', DInf False),
      (u ''-infinity'', DInf True), (u ''-inf'', DInf True)]"

definition decimal_input :: "float_host \<Rightarrow> pystr \<Rightarrow> pystr \<Rightarrow> pyexn + (decimal option \<times> double)" where
  "decimal_input host text name =
     (case map_of SPECIAL_DECIMALS (ascii_lower (strip text)) of
        Some special \<Rightarrow> Inr (None, special)
      | None \<Rightarrow>
          (case decimal_of_text (decimal_digit host) text of
             None \<Rightarrow> Inl (calc ''E_INPUT'' (name @ u '' must be decimal text, Infinity, -Infinity, or NaN''))
           | Some d \<Rightarrow>
               demand (dec_value d \<noteq> None) (calc ''E_INPUT'' (name @ u '' is not a supported IEEE 754 decimal input''))
                 (Inr (Some d, float_of_decimal d))))"

text \<open>\<^verbatim>\<open>_BIT_LITERAL\<close> and the two readings of \<^verbatim>\<open>int\<close>: the base of the prefix, or ten.\<close>

definition bit_literal :: "pystr \<Rightarrow> (nat \<times> pystr) option" where
  "bit_literal s =
     (let prefixed = (\<lambda>base c. 2 < length s \<and> s ! 0 = 48 \<and> (s ! 1 = c \<or> s ! 1 = c - 32)
            \<and> list_all (\<lambda>d. case digit_val d of Some n \<Rightarrow> n < base | None \<Rightarrow> False) (drop 2 s)) in
      if prefixed 2 98 then Some (2, drop 2 s)
      else if prefixed 8 111 then Some (8, drop 2 s)
      else if prefixed 16 120 then Some (16, drop 2 s)
      else if is_digits s then Some (10, s) else None)"

definition rounding_metadata :: "decimal option \<Rightarrow> double \<Rightarrow> bool \<times> pystr" where
  "rounding_metadata source v =
     (case (source, finite_value v) of
        (None, _) \<Rightarrow> (False, u ''exact'')
      | (Some _, None) \<Rightarrow> (True, u ''overflow'')
      | (Some d, Some x) \<Rightarrow>
          (let represented = the (dec_value (decimal_quotient x)); given = the (dec_value d) in
           if represented = given then (False, u ''exact'')
           else (True, if given < represented then u ''up'' else u ''down'')))"

record decoded =
  decoded_bits :: int
  decoded_value :: double
  decoded_projection :: pydict
  decoded_warnings :: "pystr list"

definition read_bits :: "float_host \<Rightarrow> pystr \<Rightarrow> pystr \<Rightarrow> pystr \<times> float_format \<Rightarrow> pyexn + int" where
  "read_bits host text name fmt =
     (case bit_literal text of
        None \<Rightarrow> Inl (calc ''E_INPUT'' (name @ u '' must be a nonnegative integer bit pattern''))
      | Some (base, digits) \<Rightarrow>
          (let bits = int (digits_val base digits) in
           demand (bits < push_bit (total_bits (snd fmt)) 1) (calc ''E_LIMIT'' (name @ u '' does not fit '' @ fst fmt)) (Inr bits)))"

definition decode :: "float_host \<Rightarrow> pydict \<Rightarrow> pystr \<Rightarrow> pystr \<times> float_format \<Rightarrow> pystr \<Rightarrow> pyexn + decoded" where
  "decode host arguments name fmt input_mode =
     rbind (string_arg arguments name VNone 256) (\<lambda>text.
     rbind (if input_mode = u ''bits'' then rbind (read_bits host text name fmt) (\<lambda>bits. Inr (None, bits))
            else rbind (decimal_input host text name) (\<lambda>(source, v). Inr (source, float_to_bits (snd fmt) v)))
       (\<lambda>(source_decimal, bits).
     (let v = bits_to_float (snd fmt) bits in
      rbind (projection host (snd fmt) bits v) (\<lambda>shown.
      (let (rounded, direction) = (if input_mode = u ''bits'' then (False, u ''exact'') else rounding_metadata source_decimal v) in
       Inr \<lparr>decoded_bits = bits, decoded_value = v,
            decoded_projection = AList.update (u ''roundingDirection'') (VStr direction)
              (AList.update (u ''inputRounded'') (VBool rounded) shown),
            decoded_warnings =
              (if rounded then [name @ u '' was rounded to the nearest representable '' @ fst fmt @ u '' value using ties-to-even.'']
               else [])\<rparr>)))))"

section \<open>The operation\<close>

definition float_result ::
  "pystr \<Rightarrow> pystr \<Rightarrow> pystr \<Rightarrow> pyval \<Rightarrow> pyval \<Rightarrow> pyval \<Rightarrow> pyval \<Rightarrow> pyval \<Rightarrow> pyval \<Rightarrow> pyval \<Rightarrow> pystr list \<Rightarrow> pydict" where
  "float_result action fmt mode shown right comparison numeric_equal bits_equal distance difference warnings =
     [(u ''status'', VStr (u ''ok'')), (u ''operation'', VStr (u ''float.ieee754'')), (u ''kind'', VStr (u ''ieee754'')),
      (u ''action'', VStr action), (u ''format'', VStr fmt), (u ''inputMode'', VStr mode), (u ''value'', shown),
      (u ''right'', right), (u ''comparison'', comparison), (u ''numericEqual'', numeric_equal), (u ''bitsEqual'', bits_equal),
      (u ''ulpDistance'', distance), (u ''absoluteDifference'', difference), (u ''warnings'', VList (map VStr warnings))]"

definition compare_decoded :: "float_host \<Rightarrow> float_format \<Rightarrow> decoded \<Rightarrow> decoded \<Rightarrow> pyexn + (pyval \<times> pyval \<times> pyval \<times> pyval)" where
  "compare_decoded host fmt l r =
     (if is_nan (decoded_value l) \<or> is_nan (decoded_value r)
      then Inr (VStr (u ''unordered''), VBool False, VNone, VNone)
      else
        let numeric_equal = float_equal (decoded_value l) (decoded_value r);
            comparison = (if numeric_equal then u ''equal''
                          else if float_less (decoded_value l) (decoded_value r) then u ''less'' else u ''greater'') in
        rbind (int_str (float_python host) (ulp_distance fmt (decoded_bits l) (decoded_bits r))) (\<lambda>distance.
        rbind (case (finite_value (decoded_value l), finite_value (decoded_value r)) of
                 (Some x, Some y) \<Rightarrow> fraction_value (float_python host) \<bar>x - y\<bar>
               | _ \<Rightarrow> Inr VNone) (\<lambda>difference.
        Inr (VStr comparison, VBool numeric_equal, VStr distance, difference))))"

definition ieee754 :: "float_host \<Rightarrow> pydict \<Rightarrow> pyexn + pydict" where
  "ieee754 host arguments =
     rbind (enum_arg arguments (u ''action'') [u ''inspect'', u ''compare''] (u ''inspect'')) (\<lambda>action.
     rbind (enum_arg arguments (u ''format'') (map fst FORMATS) (u ''binary64'')) (\<lambda>format_name.
     rbind (enum_arg arguments (u ''inputMode'') [u ''decimal'', u ''bits''] (u ''decimal'')) (\<lambda>input_mode.
     (let fmt = the (map_of FORMATS format_name) in
      if action = u ''inspect'' then
        rbind (decode host arguments (u ''value'') (format_name, fmt) input_mode) (\<lambda>d.
        Inr (float_result action format_name input_mode (VDict (decoded_projection d)) VNone VNone VNone VNone VNone VNone
               (decoded_warnings d)))
      else
        rbind (decode host arguments (u ''left'') (format_name, fmt) input_mode) (\<lambda>l.
        rbind (decode host arguments (u ''right'') (format_name, fmt) input_mode) (\<lambda>r.
        rbind (compare_decoded host fmt l r) (\<lambda>(comparison, numeric_equal, distance, difference).
        Inr (float_result action format_name input_mode (VDict (decoded_projection l)) (VDict (decoded_projection r))
               comparison numeric_equal (VBool (decoded_bits l = decoded_bits r)) distance difference
               (decoded_warnings l @ decoded_warnings r)))))))))"

section \<open>Patterns as numbers\<close>

text \<open>
  A pattern is a sign and a magnitude below \<open>sign_bit\<close>; \<open>magnitude_value\<close> is what the magnitude
  denotes. \<open>proper\<close> patterns fit the format and are no NaN.
\<close>

definition magnitude_value :: "float_format \<Rightarrow> int \<Rightarrow> rat" where
  "magnitude_value fmt m =
     (let e = m div 2 ^ fraction_width fmt; f = m mod 2 ^ fraction_width fmt in
      if e = 0 then of_int f * pow2 (min_exponent fmt)
      else of_int (2 ^ fraction_width fmt + f) * pow2 (e - 1 + min_exponent fmt))"

definition proper :: "float_format \<Rightarrow> int \<Rightarrow> bool" where
  "proper fmt b \<longleftrightarrow>
     0 \<le> b \<and> (b \<le> positive_infinity fmt \<or> sign_bit fmt \<le> b \<and> b \<le> sign_bit fmt + positive_infinity fmt)"

lemma format_numbers:
  "positive_infinity Binary32 = 2139095040" "sign_bit Binary32 = 2147483648" "bias Binary32 = 127"
  "positive_infinity Binary64 = 9218868437227405312" "sign_bit Binary64 = 9223372036854775808" "bias Binary64 = 1023"
  "min_exponent Binary32 = - 149" "min_exponent Binary64 = - 1074"
  by (simp_all add: positive_infinity_def sign_bit_def bias_def min_exponent_def push_bit_eq_mult)

lemma format_sizes:
  "0 < positive_infinity fmt" "positive_infinity fmt < sign_bit fmt"
  "positive_infinity fmt = (2 ^ exponent_width fmt - 1) * 2 ^ fraction_width fmt"
  "sign_bit fmt = 2 ^ (total_bits fmt - 1)" "sign_bit fmt = 2 ^ exponent_width fmt * 2 ^ fraction_width fmt"
  by (cases fmt; simp add: format_numbers)+

lemma and_ones: "b AND (push_bit n 1 - 1) = b mod 2 ^ n" for b :: int
  by (simp add: take_bit_eq_mod [symmetric] take_bit_eq_mask mask_eq_exp_minus_1 push_bit_eq_mult)

lemma and_sign:
  assumes "0 \<le> b" and "b < 2 * sign_bit fmt"
  shows "b AND sign_bit fmt \<noteq> 0 \<longleftrightarrow> sign_bit fmt \<le> b"
proof -
  let ?n = "total_bits fmt - 1"
  have range: "0 \<le> b div 2 ^ ?n" "b div 2 ^ ?n < 2"
    using assms by (cases fmt; simp add: format_numbers)+
  have "bit b ?n \<longleftrightarrow> odd (b div 2 ^ ?n)" by (simp add: bit_iff_odd)
  also have "\<dots> \<longleftrightarrow> 0 < b div 2 ^ ?n"
  proof -
    have "b div 2 ^ ?n = 0 \<or> b div 2 ^ ?n = 1" using range by linarith
    then show ?thesis by auto
  qed
  also have "\<dots> \<longleftrightarrow> 2 ^ ?n \<le> b" using assms(1) by (simp add: pos_imp_zdiv_pos_iff)
  finally have "bit b ?n \<longleftrightarrow> sign_bit fmt \<le> b" by (simp add: format_sizes(4))
  moreover have "b AND sign_bit fmt \<noteq> 0 \<longleftrightarrow> bit b ?n"
    by (simp add: sign_bit_def push_bit_of_1 and_exp_eq_0_iff_not_bit)
  ultimately show ?thesis by simp
qed

lemma pow2_pos [simp]: "0 < pow2 e" "0 \<le> pow2 e" "pow2 e \<noteq> 0" "\<not> pow2 e < 0" "\<not> pow2 e \<le> 0"
proof -
  show "0 < pow2 e" by (simp add: pow2_def)
  then show "0 \<le> pow2 e" "pow2 e \<noteq> 0" "\<not> pow2 e < 0" "\<not> pow2 e \<le> 0" by linarith+
qed

lemma pow2_succ: "pow2 (e + 1) = 2 * pow2 e"
proof -
  have "nat (- e) = Suc (nat (- (e + 1)))" if "e < 0" using that by simp
  then show ?thesis by (cases "0 \<le> e"; cases "e = - 1") (auto simp: pow2_def nat_add_distrib)
qed

lemma pow2_add_nat: "pow2 (e + int n) = 2 ^ n * pow2 e"
proof (induction n)
  case (Suc n)
  then show ?case using pow2_succ [of "e + int n"] by (simp add: ac_simps)
qed simp

lemma pow2_nat: "pow2 (int n) = 2 ^ n"
  by (simp add: pow2_def)

lemma pow2_mono: "e \<le> e' \<Longrightarrow> pow2 e \<le> pow2 e'"
proof -
  assume "e \<le> e'"
  then have "pow2 e' = 2 ^ nat (e' - e) * pow2 e" using pow2_add_nat [of e "nat (e' - e)"] by simp
  then show ?thesis by simp
qed

lemma pow2_less_iff: "pow2 e < pow2 e' \<longleftrightarrow> e < e'"
proof
  assume "e < e'"
  then have "pow2 (e + 1) \<le> pow2 e'" by (intro pow2_mono) simp
  then show "pow2 e < pow2 e'" using pow2_pos(1) [of e] unfolding pow2_succ by linarith
next
  assume "pow2 e < pow2 e'"
  then show "e < e'" using pow2_mono [of e' e] by linarith
qed

lemma magnitude_value_split:
  assumes "0 \<le> n" and "n \<le> 2 ^ (fraction_width fmt + 1)" and "0 \<le> k" and "k = 0 \<or> 2 ^ fraction_width fmt \<le> n"
  shows "magnitude_value fmt (k * 2 ^ fraction_width fmt + n) = of_int n * pow2 (k + min_exponent fmt)"
proof -
  define w :: int where "w = 2 ^ fraction_width fmt"
  have w: "0 < w" "2 ^ (fraction_width fmt + 1) = 2 * w" by (simp_all add: w_def)
  consider "n < w" | "w \<le> n" "n < 2 * w" | "n = 2 * w" using assms(2) unfolding w by linarith
  then show ?thesis
  proof cases
    case 1
    then have "k = 0" using assms(4) by (auto simp: w_def)
    then show ?thesis using 1 assms(1) by (simp add: magnitude_value_def w_def [symmetric] Let_def)
  next
    case 2
    have "k * w + n = (k + 1) * w + (n - w)" by (simp add: algebra_simps)
    then have "(k * w + n) div w = k + 1" "(k * w + n) mod w = n - w" using 2 w(1) by (simp_all add: int_div_pos_eq int_mod_pos_eq)
    then show ?thesis using assms(3) by (simp add: magnitude_value_def w_def [symmetric] Let_def del: of_int_add of_int_diff)
  next
    case 3
    then have "(k * w + n) div w = k + 2" "(k * w + n) mod w = 0" using w(1) by (simp_all add: int_div_pos_eq int_mod_pos_eq distrib_right)
    then show ?thesis
      using assms(3) 3 pow2_succ [of "k + min_exponent fmt"] by (simp add: magnitude_value_def w_def [symmetric] Let_def ac_simps)
  qed
qed

lemma magnitude_value_step: "0 \<le> m \<Longrightarrow> magnitude_value fmt m < magnitude_value fmt (m + 1)"
proof -
  assume "0 \<le> m"
  define w :: int where "w = 2 ^ fraction_width fmt"
  define e where "e = m div w"
  define f where "f = m mod w"
  define k where "k = max (e - 1) 0"
  have w: "0 < w" "2 ^ (fraction_width fmt + 1) = 2 * w" by (simp_all add: w_def)
  have ef: "0 \<le> e" "0 \<le> f" "f < w" "m = e * w + f"
    using \<open>0 \<le> m\<close> w(1) by (simp_all add: e_def f_def pos_imp_zdiv_nonneg_iff)
  define n where "n = m - k * w"
  have n: "0 \<le> n" "n + 1 \<le> 2 * w" "k = 0 \<or> w \<le> n" "0 \<le> k"
  proof -
    have "e = 0 \<or> e = 1 \<or> 2 \<le> e" using ef(1) by linarith
    then show "0 \<le> n" "n + 1 \<le> 2 * w" "k = 0 \<or> w \<le> n" "0 \<le> k"
      using ef by (auto simp: n_def k_def max_def algebra_simps)
  qed
  have "magnitude_value fmt (k * w + n) = of_int n * pow2 (k + min_exponent fmt)"
    by (rule magnitude_value_split [of _ fmt, folded w_def]) (use n in \<open>auto simp: w_def\<close>)
  moreover have "magnitude_value fmt (k * w + (n + 1)) = of_int (n + 1) * pow2 (k + min_exponent fmt)"
    by (rule magnitude_value_split [of _ fmt, folded w_def]) (use n in \<open>auto simp: w_def\<close>)
  ultimately show ?thesis by (simp add: n_def)
qed

lemma magnitude_value_mono:
  assumes "0 \<le> a" and "a < b" shows "magnitude_value fmt a < magnitude_value fmt b"
proof -
  have "magnitude_value fmt a < magnitude_value fmt (a + 1 + int n)" for n
  proof (induction n)
    case 0
    then show ?case using magnitude_value_step [OF assms(1)] by simp
  next
    case (Suc n)
    then show ?case using magnitude_value_step [of "a + 1 + int n" fmt] assms(1) by (simp add: ac_simps)
  qed
  from this [of "nat (b - a - 1)"] show ?thesis using assms(2) by simp
qed

lemma magnitude_value_less_iff:
  "0 \<le> a \<Longrightarrow> 0 \<le> b \<Longrightarrow> magnitude_value fmt a < magnitude_value fmt b \<longleftrightarrow> a < b"
  by (metis magnitude_value_mono not_less_iff_gr_or_eq)

lemma magnitude_value_inj:
  "0 \<le> a \<Longrightarrow> 0 \<le> b \<Longrightarrow> magnitude_value fmt a = magnitude_value fmt b \<longleftrightarrow> a = b"
  by (metis magnitude_value_mono not_less_iff_gr_or_eq)

lemma magnitude_value_zero: "magnitude_value fmt 0 = 0"
  by (simp add: magnitude_value_def)

subsection \<open>What a pattern denotes\<close>

lemma fraction_field_mod: "fraction_field fmt b = b mod 2 ^ fraction_width fmt"
  unfolding fraction_field_def and_ones ..

lemma exponent_field_div: "exponent_field fmt b = b div 2 ^ fraction_width fmt mod 2 ^ exponent_width fmt"
  unfolding exponent_field_def and_ones drop_bit_eq_div ..

lemma ones_eq: "push_bit n 1 - 1 = (2 ^ n - 1 :: int)"
  by (simp add: push_bit_eq_mult)

definition sign_of :: "float_format \<Rightarrow> int \<Rightarrow> bool" where
  "sign_of fmt b \<longleftrightarrow> sign_bit fmt \<le> b"

definition magnitude_of :: "float_format \<Rightarrow> int \<Rightarrow> int" where
  "magnitude_of fmt b = (if sign_of fmt b then b - sign_bit fmt else b)"

definition is_pattern :: "float_format \<Rightarrow> int \<Rightarrow> bool" where
  "is_pattern fmt b \<longleftrightarrow> 0 \<le> b \<and> b < push_bit (total_bits fmt) 1"

lemma pattern_limit: "push_bit (total_bits fmt) 1 = 2 * sign_bit fmt"
  by (cases fmt) (simp_all add: format_numbers push_bit_eq_mult)

lemma is_pattern_iff: "is_pattern fmt b \<longleftrightarrow> 0 \<le> b \<and> b < 2 * sign_bit fmt"
  unfolding is_pattern_def pattern_limit ..

lemma sign_field_eq: "is_pattern fmt b \<Longrightarrow> sign_field fmt b = (if sign_of fmt b then 1 else 0)"
  by (cases fmt) (auto simp: is_pattern_iff sign_field_def drop_bit_eq_div sign_of_def format_numbers)

lemma magnitude_of_bounds: "is_pattern fmt b \<Longrightarrow> 0 \<le> magnitude_of fmt b \<and> magnitude_of fmt b < sign_bit fmt"
  by (auto simp: is_pattern_iff magnitude_of_def sign_of_def)

lemma fields_of_magnitude:
  assumes "is_pattern fmt b"
  shows "exponent_field fmt b = magnitude_of fmt b div 2 ^ fraction_width fmt"
    and "fraction_field fmt b = magnitude_of fmt b mod 2 ^ fraction_width fmt"
proof -
  let ?m = "magnitude_of fmt b"
  have b: "b = ?m \<or> b = ?m + sign_bit fmt" by (simp add: magnitude_of_def)
  have bounds: "0 \<le> ?m" "?m < sign_bit fmt" using magnitude_of_bounds [OF assms] by auto
  have "b mod sign_bit fmt = ?m" using b bounds mod_add_self2 [of ?m "sign_bit fmt"] by (metis mod_pos_pos_trivial)
  then have m: "b mod (2 ^ fraction_width fmt * 2 ^ exponent_width fmt) = ?m" by (simp add: format_sizes(5) mult.commute)
  show "fraction_field fmt b = ?m mod 2 ^ fraction_width fmt"
    unfolding fraction_field_mod m [symmetric] by (simp add: mod_mod_cancel)
  show "exponent_field fmt b = ?m div 2 ^ fraction_width fmt"
    unfolding exponent_field_div m [symmetric] by (simp add: zmod_zmult2_eq)
qed

lemma infinite_exponent:
  assumes "0 \<le> m" and "m < sign_bit fmt"
  shows "m div 2 ^ fraction_width fmt = 2 ^ exponent_width fmt - 1 \<longleftrightarrow> positive_infinity fmt \<le> m"
  using assms by (cases fmt) (auto simp: format_numbers)

lemma infinite_fraction:
  assumes "positive_infinity fmt \<le> m" and "m < sign_bit fmt"
  shows "m mod 2 ^ fraction_width fmt = 0 \<longleftrightarrow> m = positive_infinity fmt"
proof -
  have "m mod 2 ^ fraction_width fmt = m - positive_infinity fmt"
    using assms int_mod_pos_eq [of m 8388608 255 "m - 2139095040"]
      int_mod_pos_eq [of m 4503599627370496 2047 "m - 9218868437227405312"]
    by (cases fmt) (simp_all add: format_numbers)
  then show ?thesis by simp
qed

lemma bits_to_float_eq:
  assumes "is_pattern fmt b"
  shows "bits_to_float fmt b =
    (if magnitude_of fmt b < positive_infinity fmt then DFin (sign_of fmt b) (magnitude_value fmt (magnitude_of fmt b))
     else if magnitude_of fmt b = positive_infinity fmt then DInf (sign_of fmt b) else DNan (sign_of fmt b))"
proof -
  have bounds: "0 \<le> magnitude_of fmt b" "magnitude_of fmt b < sign_bit fmt" using magnitude_of_bounds [OF assms] by auto
  show ?thesis
    using infinite_exponent [OF bounds] infinite_fraction [OF _ bounds(2)]
    by (auto simp: bits_to_float_def Let_def ones_eq fields_of_magnitude [OF assms] sign_field_eq [OF assms]
        magnitude_value_def push_bit_eq_mult)
qed

lemma classification_nan_iff:
  assumes "is_pattern fmt b"
  shows "classification_of fmt b = u ''nan'' \<longleftrightarrow> positive_infinity fmt < magnitude_of fmt b"
proof -
  have bounds: "0 \<le> magnitude_of fmt b" "magnitude_of fmt b < sign_bit fmt" using magnitude_of_bounds [OF assms] by auto
  show ?thesis
    using infinite_exponent [OF bounds] infinite_fraction [OF _ bounds(2)]
    by (auto simp: classification_of_def Let_def ones_eq fields_of_magnitude [OF assms] u_def)
qed

lemma bit_sign:
  "is_pattern fmt b \<Longrightarrow> b AND sign_bit fmt \<noteq> 0 \<longleftrightarrow> sign_of fmt b"
  by (simp add: is_pattern_iff and_sign sign_of_def)

subsection \<open>Neighbours\<close>

lemma mask_pattern: "is_pattern fmt b \<Longrightarrow> b AND (push_bit (total_bits fmt) 1 - 1) = b"
  unfolding and_ones by (simp add: is_pattern_def)

lemma or_sign: "is_pattern fmt b \<Longrightarrow> \<not> sign_of fmt b \<Longrightarrow> b OR sign_bit fmt = b + sign_bit fmt"
  using bit_sign [of fmt b] disjunctive_add_eq_or [of b "sign_bit fmt"] by simp

lemma negative_infinity_eq: "sign_bit fmt OR positive_infinity fmt = sign_bit fmt + positive_infinity fmt"
proof -
  have "is_pattern fmt (positive_infinity fmt)" "\<not> sign_of fmt (positive_infinity fmt)"
    using format_sizes(1,2) [of fmt] by (simp_all add: is_pattern_iff sign_of_def)
  then show ?thesis using or_sign [of fmt "positive_infinity fmt"] by (simp add: or.commute)
qed

lemma ordered_bits_eq:
  assumes "is_pattern fmt b"
  shows "ordered_bits fmt b =
    (if sign_of fmt b then sign_bit fmt - 1 - magnitude_of fmt b else sign_bit fmt + magnitude_of fmt b)"
proof (cases "sign_of fmt b")
  case True
  have "NOT b AND (push_bit (total_bits fmt) 1 - 1) = (- b - 1) mod (2 * sign_bit fmt)"
    unfolding and_ones pattern_limit [symmetric] by (simp add: not_int_def push_bit_eq_mult)
  also have "\<dots> = 2 * sign_bit fmt - 1 - b"
    by (rule int_mod_pos_eq [of _ _ "- 1"]) (use assms in \<open>auto simp: is_pattern_iff\<close>)
  finally show ?thesis using True bit_sign [OF assms] by (simp add: ordered_bits_def magnitude_of_def)
next
  case False
  then show ?thesis using bit_sign [OF assms] or_sign [OF assms] by (simp add: ordered_bits_def magnitude_of_def)
qed

lemma ordered_bits_inj:
  assumes "is_pattern fmt a" and "is_pattern fmt b" and "ordered_bits fmt a = ordered_bits fmt b"
  shows "a = b"
  using assms magnitude_of_bounds [OF assms(1)] magnitude_of_bounds [OF assms(2)]
  by (auto simp: ordered_bits_eq magnitude_of_def split: if_splits)

definition is_ordinary :: "float_format \<Rightarrow> int \<Rightarrow> bool" where
  "is_ordinary fmt b \<longleftrightarrow> is_pattern fmt b \<and> magnitude_of fmt b \<le> positive_infinity fmt"

lemma is_ordinary_iff: "is_ordinary fmt b \<longleftrightarrow> is_pattern fmt b \<and> classification_of fmt b \<noteq> u ''nan''"
  using classification_nan_iff [of fmt b] by (auto simp: is_ordinary_def)

lemma next_bits_eq:
  assumes "is_ordinary fmt b"
  shows "adjacent_bits fmt b 1 (classification_of fmt b) =
    (if b = positive_infinity fmt then None else if b = sign_bit fmt then Some 0
     else if sign_of fmt b then Some (b - 1) else Some (b + 1))"
proof -
  have b: "is_pattern fmt b" "classification_of fmt b \<noteq> u ''nan''" using assms by (simp_all add: is_ordinary_iff)
  show ?thesis using b(2) bit_sign [OF b(1)] format_sizes(1,2) [of fmt]
    by (auto simp: adjacent_bits_def Let_def negative_infinity_eq sign_of_def)
qed

lemma previous_bits_eq:
  assumes "is_ordinary fmt b"
  shows "adjacent_bits fmt b (- 1) (classification_of fmt b) =
    (if b = sign_bit fmt + positive_infinity fmt then None else if b = 0 then Some (sign_bit fmt)
     else if sign_of fmt b then Some (b + 1) else Some (b - 1))"
proof -
  have b: "is_pattern fmt b" "classification_of fmt b \<noteq> u ''nan''" using assms by (simp_all add: is_ordinary_iff)
  have top: "magnitude_of fmt b \<le> positive_infinity fmt" using assms by (simp add: is_ordinary_def)
  have up: "is_pattern fmt (b + 1)" if "sign_of fmt b" "b \<noteq> sign_bit fmt + positive_infinity fmt"
    using b(1) that top format_sizes(1,2) [of fmt] by (auto simp: is_pattern_iff magnitude_of_def)
  have down: "is_pattern fmt (b - 1)" if "b \<noteq> 0" using b(1) that by (auto simp: is_pattern_iff)
  have pinf: "\<not> sign_of fmt (positive_infinity fmt)" using format_sizes(1,2) [of fmt] by (simp add: sign_of_def)
  show ?thesis
    using b(2) bit_sign [OF b(1)] format_sizes(1,2) [of fmt] pinf mask_pattern [OF up] mask_pattern [OF down]
    by (auto simp: adjacent_bits_def Let_def negative_infinity_eq)
qed

lemma next_bits_step:
  assumes "is_ordinary fmt b" and "adjacent_bits fmt b 1 (classification_of fmt b) = Some c"
  shows "is_ordinary fmt c" and "ordered_bits fmt c = ordered_bits fmt b + 1"
    and "adjacent_bits fmt c (- 1) (classification_of fmt c) = Some b"
proof -
  have b: "is_pattern fmt b" "magnitude_of fmt b \<le> positive_infinity fmt" using assms(1) by (simp_all add: is_ordinary_def)
  note eqs = b format_sizes(1,2) [of fmt] assms(2) [unfolded next_bits_eq [OF assms(1)]]
  show c: "is_ordinary fmt c"
    using eqs by (auto simp: is_ordinary_def is_pattern_iff magnitude_of_def sign_of_def split: if_splits)
  then have "is_pattern fmt c" by (simp add: is_ordinary_def)
  then show "ordered_bits fmt c = ordered_bits fmt b + 1"
    using eqs by (auto simp: ordered_bits_eq [OF b(1)] ordered_bits_eq [of fmt c] magnitude_of_def sign_of_def is_pattern_iff split: if_splits)
  show "adjacent_bits fmt c (- 1) (classification_of fmt c) = Some b"
    unfolding previous_bits_eq [OF c] using eqs
    by (auto simp: magnitude_of_def sign_of_def is_pattern_iff split: if_splits)
qed

lemma previous_bits_step:
  assumes "is_ordinary fmt b" and "adjacent_bits fmt b (- 1) (classification_of fmt b) = Some c"
  shows "is_ordinary fmt c" and "ordered_bits fmt c = ordered_bits fmt b - 1"
    and "adjacent_bits fmt c 1 (classification_of fmt c) = Some b"
proof -
  have b: "is_pattern fmt b" "magnitude_of fmt b \<le> positive_infinity fmt" using assms(1) by (simp_all add: is_ordinary_def)
  note eqs = b format_sizes(1,2) [of fmt] assms(2) [unfolded previous_bits_eq [OF assms(1)]]
  show c: "is_ordinary fmt c"
    using eqs by (auto simp: is_ordinary_def is_pattern_iff magnitude_of_def sign_of_def split: if_splits)
  then have "is_pattern fmt c" by (simp add: is_ordinary_def)
  then show "ordered_bits fmt c = ordered_bits fmt b - 1"
    using eqs by (auto simp: ordered_bits_eq [OF b(1)] ordered_bits_eq [of fmt c] magnitude_of_def sign_of_def is_pattern_iff split: if_splits)
  show "adjacent_bits fmt c 1 (classification_of fmt c) = Some b"
    unfolding next_bits_eq [OF c] using eqs
    by (auto simp: magnitude_of_def sign_of_def is_pattern_iff split: if_splits)
qed

subsection \<open>Order and distance\<close>

lemma magnitude_value_nonneg: "0 \<le> m \<Longrightarrow> 0 \<le> magnitude_value fmt m"
  using magnitude_value_less_iff [of m 0 fmt] by (simp add: magnitude_value_zero linorder_not_less [symmetric])

lemma magnitude_value_pos_iff: "0 \<le> m \<Longrightarrow> 0 < magnitude_value fmt m \<longleftrightarrow> 0 < m"
  using magnitude_value_less_iff [of 0 m fmt] by (simp add: magnitude_value_zero)

lemma float_less_magnitudes:
  assumes "is_ordinary fmt a" and "is_ordinary fmt b"
  shows "float_less (bits_to_float fmt a) (bits_to_float fmt b) \<longleftrightarrow>
    (if sign_of fmt a then if sign_of fmt b then magnitude_of fmt b < magnitude_of fmt a
        else magnitude_of fmt a \<noteq> 0 \<or> magnitude_of fmt b \<noteq> 0
     else \<not> sign_of fmt b \<and> magnitude_of fmt a < magnitude_of fmt b)"
proof -
  have pats: "is_pattern fmt a" "is_pattern fmt b" using assms by (simp_all add: is_ordinary_def)
  have top: "magnitude_of fmt a \<le> positive_infinity fmt" "magnitude_of fmt b \<le> positive_infinity fmt"
    using assms by (simp_all add: is_ordinary_def)
  have nonneg: "0 \<le> magnitude_of fmt a" "0 \<le> magnitude_of fmt b" using pats magnitude_of_bounds by blast+
  note vals = magnitude_value_less_iff [OF nonneg(1) nonneg(2), of fmt] magnitude_value_less_iff [OF nonneg(2) nonneg(1), of fmt]
    magnitude_value_nonneg [OF nonneg(1), of fmt] magnitude_value_nonneg [OF nonneg(2), of fmt]
    magnitude_value_pos_iff [OF nonneg(1), of fmt] magnitude_value_pos_iff [OF nonneg(2), of fmt]
  have opposite: "- magnitude_value fmt (magnitude_of fmt a) < magnitude_value fmt (magnitude_of fmt b)
      \<longleftrightarrow> magnitude_of fmt a \<noteq> 0 \<or> magnitude_of fmt b \<noteq> 0"
    "\<not> magnitude_value fmt (magnitude_of fmt a) < - magnitude_value fmt (magnitude_of fmt b)"
    using vals nonneg by linarith+
  show ?thesis
    unfolding bits_to_float_eq [OF pats(1)] bits_to_float_eq [OF pats(2)]
    using vals(1,2) top opposite nonneg format_sizes(1) [of fmt]
    by (cases "sign_of fmt a"; cases "sign_of fmt b") auto
qed

lemma float_equal_magnitudes:
  assumes "is_ordinary fmt a" and "is_ordinary fmt b"
  shows "float_equal (bits_to_float fmt a) (bits_to_float fmt b) \<longleftrightarrow>
    magnitude_of fmt a = magnitude_of fmt b \<and> (sign_of fmt a = sign_of fmt b \<or> magnitude_of fmt a = 0)"
proof -
  have pats: "is_pattern fmt a" "is_pattern fmt b" using assms by (simp_all add: is_ordinary_def)
  have top: "magnitude_of fmt a \<le> positive_infinity fmt" "magnitude_of fmt b \<le> positive_infinity fmt"
    using assms by (simp_all add: is_ordinary_def)
  have nonneg: "0 \<le> magnitude_of fmt a" "0 \<le> magnitude_of fmt b" using pats magnitude_of_bounds by blast+
  note vals = magnitude_value_inj [OF nonneg, of fmt] magnitude_value_nonneg [OF nonneg(1), of fmt]
    magnitude_value_nonneg [OF nonneg(2), of fmt] magnitude_value_pos_iff [OF nonneg(1), of fmt]
    magnitude_value_pos_iff [OF nonneg(2), of fmt]
  have opposite: "- magnitude_value fmt (magnitude_of fmt a) = magnitude_value fmt (magnitude_of fmt b)
      \<longleftrightarrow> magnitude_of fmt a = 0 \<and> magnitude_of fmt b = 0"
    "magnitude_value fmt (magnitude_of fmt a) = - magnitude_value fmt (magnitude_of fmt b)
      \<longleftrightarrow> magnitude_of fmt a = 0 \<and> magnitude_of fmt b = 0"
    using vals nonneg by linarith+
  show ?thesis
    unfolding bits_to_float_eq [OF pats(1)] bits_to_float_eq [OF pats(2)]
    using vals(1) top opposite nonneg format_sizes(1) [of fmt]
    by (cases "sign_of fmt a"; cases "sign_of fmt b") auto
qed

fun advance :: "float_format \<Rightarrow> nat \<Rightarrow> int \<Rightarrow> int option" where
  "advance fmt 0 bits = Some bits"
| "advance fmt (Suc n) bits =
     (case adjacent_bits fmt bits 1 (classification_of fmt bits) of Some c \<Rightarrow> advance fmt n c | None \<Rightarrow> None)"

lemma advance_ordered:
  assumes "is_ordinary fmt b" and "advance fmt n b = Some c"
  shows "is_ordinary fmt c \<and> ordered_bits fmt c = ordered_bits fmt b + int n"
  using assms
proof (induction n arbitrary: b)
  case (Suc n)
  then obtain d where d: "adjacent_bits fmt b 1 (classification_of fmt b) = Some d" "advance fmt n d = Some c"
    by (auto split: option.splits)
  then show ?case using Suc.IH [OF next_bits_step(1) [OF Suc.prems(1) d(1)] d(2)] next_bits_step(2) [OF Suc.prems(1) d(1)] by simp
qed simp

lemma next_bits_exists:
  assumes "is_ordinary fmt b" and "is_ordinary fmt c" and "ordered_bits fmt b < ordered_bits fmt c"
  shows "\<exists>d. adjacent_bits fmt b 1 (classification_of fmt b) = Some d"
proof -
  have "b \<noteq> positive_infinity fmt"
  proof
    assume "b = positive_infinity fmt"
    moreover have "is_pattern fmt b" "is_pattern fmt c" "magnitude_of fmt c \<le> positive_infinity fmt"
      using assms by (simp_all add: is_ordinary_def)
    ultimately show False
      using assms(3) format_sizes(1,2) [of fmt] magnitude_of_bounds [of fmt c]
      by (auto simp: ordered_bits_eq magnitude_of_def sign_of_def split: if_splits)
  qed
  then show ?thesis unfolding next_bits_eq [OF assms(1)] by auto
qed

lemma advance_reaches:
  assumes "is_ordinary fmt b" and "is_ordinary fmt c" and "ordered_bits fmt c = ordered_bits fmt b + int n"
  shows "advance fmt n b = Some c"
  using assms
proof (induction n arbitrary: b)
  case 0
  then show ?case using ordered_bits_inj [of fmt c b] by (simp add: is_ordinary_def)
next
  case (Suc n)
  then obtain d where d: "adjacent_bits fmt b 1 (classification_of fmt b) = Some d"
    using next_bits_exists [of fmt b c] by auto
  from next_bits_step [OF Suc.prems(1) d] Suc.prems(2,3) have "advance fmt n d = Some c" by (intro Suc.IH) auto
  then show ?case using d by simp
qed

lemma float_less_ordered:
  assumes "is_ordinary fmt a" and "is_ordinary fmt b"
  shows "float_less (bits_to_float fmt a) (bits_to_float fmt b) \<longleftrightarrow>
    ordered_bits fmt a < ordered_bits fmt b \<and> \<not> (a = sign_bit fmt \<and> b = 0)"
proof -
  have "is_pattern fmt a" "is_pattern fmt b" using assms by (simp_all add: is_ordinary_def)
  then show ?thesis
    using magnitude_of_bounds [of fmt a] magnitude_of_bounds [of fmt b]
    unfolding float_less_magnitudes [OF assms] by (auto simp: ordered_bits_eq magnitude_of_def sign_of_def split: if_splits)
qed

lemma float_less_numbers:
  assumes "is_pattern fmt a" and "is_pattern fmt b" and "float_less (bits_to_float fmt a) (bits_to_float fmt b)"
  shows "is_ordinary fmt a \<and> is_ordinary fmt b"
  using assms(3) unfolding bits_to_float_eq [OF assms(1)] bits_to_float_eq [OF assms(2)]
  using assms(1,2) by (auto simp: is_ordinary_def split: if_splits)

lemma no_number_between:
  assumes "is_ordinary fmt a" and "is_ordinary fmt c" and "ordered_bits fmt c = ordered_bits fmt a + 1" and "is_pattern fmt b"
  shows "\<not> (float_less (bits_to_float fmt a) (bits_to_float fmt b) \<and> float_less (bits_to_float fmt b) (bits_to_float fmt c))"
proof
  assume less: "float_less (bits_to_float fmt a) (bits_to_float fmt b) \<and> float_less (bits_to_float fmt b) (bits_to_float fmt c)"
  moreover have "is_pattern fmt a" using assms(1) by (simp add: is_ordinary_def)
  ultimately have "is_ordinary fmt b" using float_less_numbers [OF _ assms(4)] by blast
  with less have "ordered_bits fmt a < ordered_bits fmt b" "ordered_bits fmt b < ordered_bits fmt c"
    using assms(1,2) by (simp_all add: float_less_ordered)
  with assms(3) show False by linarith
qed

text \<open>
  C27: The neighbours of a pattern that is no NaN: there is none only beyond the infinity of that side; a
  neighbour fits the format, is no NaN, is one place further in the order of \<open>_ulp_distance\<close>, leads
  back, and no float lies strictly between the two.
\<close>

theorem adjacent_bits_step:
  assumes "0 \<le> bits" and "bits < 2 ^ total_bits fmt" and "classification_of fmt bits \<noteq> u ''nan''"
    and "d = 1 \<or> d = - 1"
  shows "(adjacent_bits fmt bits d (classification_of fmt bits) = None
          \<longleftrightarrow> bits_to_float fmt bits = DInf (d = - 1))
    \<and> (\<forall>c. adjacent_bits fmt bits d (classification_of fmt bits) = Some c \<longrightarrow>
          0 \<le> c \<and> c < 2 ^ total_bits fmt \<and> classification_of fmt c \<noteq> u ''nan''
          \<and> ordered_bits fmt c = ordered_bits fmt bits + d
          \<and> adjacent_bits fmt c (- d) (classification_of fmt c) = Some bits
          \<and> (\<forall>b. 0 \<le> b \<and> b < 2 ^ total_bits fmt \<longrightarrow>
               \<not> (float_less (bits_to_float fmt (if d = 1 then bits else c)) (bits_to_float fmt b)
                 \<and> float_less (bits_to_float fmt b) (bits_to_float fmt (if d = 1 then c else bits)))))"
proof -
  have pat: "is_pattern fmt b \<longleftrightarrow> 0 \<le> b \<and> b < 2 ^ total_bits fmt" for b by (simp add: is_pattern_def)
  have p: "is_pattern fmt bits" using assms by (simp add: pat)
  then have n: "is_ordinary fmt bits" using assms(3) by (simp add: is_ordinary_iff)
  have ends: "bits_to_float fmt bits = DInf s \<longleftrightarrow> bits = (if s then sign_bit fmt + positive_infinity fmt else positive_infinity fmt)" for s
    unfolding bits_to_float_eq [OF p] using p format_sizes(1,2) [of fmt]
    by (auto simp: magnitude_of_def sign_of_def is_pattern_iff)
  note num = is_ordinary_iff pat
  show ?thesis
  proof (cases "d = 1")
    case True
    have none: "adjacent_bits fmt bits d (classification_of fmt bits) = None \<longleftrightarrow> bits_to_float fmt bits = DInf (d = - 1)"
      using True by (simp add: next_bits_eq [OF n] ends)
    have some: "is_ordinary fmt c \<and> ordered_bits fmt c = ordered_bits fmt bits + 1
        \<and> adjacent_bits fmt c (- 1) (classification_of fmt c) = Some bits
        \<and> (\<forall>b. is_pattern fmt b \<longrightarrow> \<not> (float_less (bits_to_float fmt bits) (bits_to_float fmt b)
            \<and> float_less (bits_to_float fmt b) (bits_to_float fmt c)))"
      if "adjacent_bits fmt bits 1 (classification_of fmt bits) = Some c" for c
      using next_bits_step [OF n that] no_number_between [OF n, of c] by blast
    show ?thesis using none some True unfolding num by simp
  next
    case False
    then have d: "d = - 1" using assms(4) by simp
    have none: "adjacent_bits fmt bits d (classification_of fmt bits) = None \<longleftrightarrow> bits_to_float fmt bits = DInf (d = - 1)"
      using d by (simp add: previous_bits_eq [OF n] ends)
    have some: "is_ordinary fmt c \<and> ordered_bits fmt c = ordered_bits fmt bits - 1
        \<and> adjacent_bits fmt c 1 (classification_of fmt c) = Some bits
        \<and> (\<forall>b. is_pattern fmt b \<longrightarrow> \<not> (float_less (bits_to_float fmt c) (bits_to_float fmt b)
            \<and> float_less (bits_to_float fmt b) (bits_to_float fmt bits)))"
      if "adjacent_bits fmt bits (- 1) (classification_of fmt bits) = Some c" for c
      using previous_bits_step [OF n that] no_number_between [OF _ n, of c] by simp
    show ?thesis using none some d unfolding num by simp
  qed
qed

theorem adjacent_bits_step_witness:
  "(adjacent_bits Binary32 8388608 (- 1) (classification_of Binary32 8388608) = Some 8388607)
   \<and> ordered_bits Binary32 8388607 = ordered_bits Binary32 8388608 - 1"
proof -
  have "adjacent_bits Binary32 8388608 (- 1) (classification_of Binary32 8388608) = Some 8388607" by code_simp
  moreover have "classification_of Binary32 8388608 \<noteq> u ''nan''" by code_simp
  ultimately show ?thesis using adjacent_bits_step [of 8388608 Binary32 "- 1"] by simp
qed

text \<open>
  C18: The distance of two patterns that are no NaN is the number of steps to the next float that lead
  from the smaller to the larger, both zeros counted; and the numeric comparison agrees with the order
  of the distance, except that the two zeros are equal.
\<close>

theorem ulp_distance_counts_steps:
  assumes "0 \<le> l" and "l < 2 ^ total_bits fmt" and "classification_of fmt l \<noteq> u ''nan''"
    and "0 \<le> r" and "r < 2 ^ total_bits fmt" and "classification_of fmt r \<noteq> u ''nan''"
  shows "(advance fmt (nat (ulp_distance fmt l r)) l = Some r \<or> advance fmt (nat (ulp_distance fmt l r)) r = Some l)
    \<and> (\<forall>n. advance fmt n l = Some r \<longrightarrow> ulp_distance fmt l r = int n)
    \<and> (float_less (bits_to_float fmt l) (bits_to_float fmt r)
         \<longleftrightarrow> ordered_bits fmt l < ordered_bits fmt r \<and> \<not> (l = sign_bit fmt \<and> r = 0))
    \<and> (float_equal (bits_to_float fmt l) (bits_to_float fmt r) \<longleftrightarrow> l = r \<or> {l, r} = {0, sign_bit fmt})"
proof -
  have p: "is_pattern fmt l" "is_pattern fmt r" using assms by (simp_all add: is_pattern_def)
  then have n: "is_ordinary fmt l" "is_ordinary fmt r" using assms by (simp_all add: is_ordinary_iff)
  have "advance fmt (nat (ulp_distance fmt l r)) l = Some r \<or> advance fmt (nat (ulp_distance fmt l r)) r = Some l"
  proof (cases "ordered_bits fmt l \<le> ordered_bits fmt r")
    case True
    then show ?thesis using advance_reaches [OF n, of "nat (ulp_distance fmt l r)"] by (simp add: ulp_distance_def)
  next
    case False
    then show ?thesis using advance_reaches [OF n(2) n(1), of "nat (ulp_distance fmt l r)"] by (simp add: ulp_distance_def)
  qed
  moreover have "ulp_distance fmt l r = int k" if "advance fmt k l = Some r" for k
    using advance_ordered [OF n(1) that] by (simp add: ulp_distance_def)
  moreover have "float_equal (bits_to_float fmt l) (bits_to_float fmt r) \<longleftrightarrow> l = r \<or> {l, r} = {0, sign_bit fmt}"
    unfolding float_equal_magnitudes [OF n] using p format_sizes(1,2) [of fmt]
    by (auto simp: magnitude_of_def sign_of_def is_pattern_iff doubleton_eq_iff split: if_splits)
  ultimately show ?thesis using float_less_ordered [OF n] by blast
qed

theorem ulp_distance_counts_steps_witness:
  "advance Binary32 3 2147483649 = Some 1 \<and> ulp_distance Binary32 2147483649 1 = 3"
proof -
  have "advance Binary32 3 2147483649 = Some 1" by code_simp
  moreover have "classification_of Binary32 2147483649 \<noteq> u ''nan''" "classification_of Binary32 1 \<noteq> u ''nan''" by code_simp+
  ultimately show ?thesis using ulp_distance_counts_steps [of 2147483649 Binary32 1] by simp
qed

section \<open>Rounding\<close>

lemma bit_length_power:
  assumes "0 < i" shows "2 ^ (bit_length i - 1) \<le> i" and "i < 2 ^ bit_length i" and "0 < bit_length i"
proof -
  show "i < 2 ^ bit_length i" using bit_length_le_iff [of i "bit_length i"] assms by simp
  show pos: "0 < bit_length i" using bit_length_le_iff [of i 0] assms by (cases "bit_length i") auto
  then have "\<not> bit_length i \<le> bit_length i - 1" by simp
  then show "2 ^ (bit_length i - 1) \<le> i" unfolding bit_length_le_iff using assms by simp
qed

lemma pow2_add: "pow2 (a + b) = pow2 a * pow2 b"
proof -
  have "pow2 e = 2 powi e" for e
    unfolding pow2_def power_int_def by (cases "0 \<le> e") (simp_all add: inverse_eq_divide power_one_over)
  then show ?thesis by (simp add: power_int_add)
qed

lemma of_int_power_bounds:
  "2 ^ k \<le> i \<Longrightarrow> pow2 (int k) \<le> of_int i" "i < 2 ^ k \<Longrightarrow> of_int i < pow2 (int k)"
  using of_int_le_iff [where 'a = rat, of "2 ^ k" i] of_int_less_iff [where 'a = rat, of i "2 ^ k"]
  by (simp_all add: pow2_nat)

lemma ilog2_bounds:
  assumes "0 < r" shows "pow2 (ilog2 r) \<le> r" and "r < pow2 (ilog2 r + 1)"
proof -
  define n where "n = numerator r"
  define d where "d = denominator r"
  have r: "r = of_int n / of_int d" and d: "0 < d" by (simp_all add: n_def d_def numerator_denominator)
  have n: "0 < n" using \<open>0 < r\<close> d unfolding r by (simp add: zero_less_divide_iff)
  define a where "a = int (bit_length n)"
  define b where "b = int (bit_length d)"
  have n': "pow2 (a - 1) \<le> of_int n" "of_int n < pow2 a"
    using of_int_power_bounds(1) [OF bit_length_power(1) [OF n]] of_int_power_bounds(2) [OF bit_length_power(2) [OF n]]
      bit_length_power(3) [OF n] by (simp_all add: a_def of_nat_diff)
  have d': "pow2 (b - 1) \<le> of_int d" "of_int d < pow2 b"
    using of_int_power_bounds(1) [OF bit_length_power(1) [OF d]] of_int_power_bounds(2) [OF bit_length_power(2) [OF d]]
      bit_length_power(3) [OF d] by (simp_all add: b_def of_nat_diff)
  have upper: "r < pow2 (a - b + 1)"
  proof -
    have "of_int n < pow2 (a - b + 1) * pow2 (b - 1)" using n'(2) pow2_add [of "a - b + 1" "b - 1"] by simp
    also have "\<dots> \<le> pow2 (a - b + 1) * of_int d" using d'(1) by (simp add: mult_left_mono)
    finally show ?thesis unfolding r using d by (simp add: divide_less_eq)
  qed
  have lower: "pow2 (a - b - 1) \<le> r"
  proof -
    have "pow2 (a - b - 1) * of_int d \<le> pow2 (a - b - 1) * pow2 b" using d'(2) by (simp add: mult_left_mono)
    also have "\<dots> \<le> of_int n" using n'(1) pow2_add [of "a - b - 1" b] by simp
    finally show ?thesis unfolding r using d by (simp add: le_divide_eq)
  qed
  have "ilog2 r = (if pow2 (a - b) \<le> r then a - b else a - b - 1)"
    by (simp add: ilog2_def Let_def n_def d_def a_def b_def)
  then show "pow2 (ilog2 r) \<le> r" "r < pow2 (ilog2 r + 1)" using upper lower by (auto split: if_splits)
qed

lemma ilog2_unique:
  assumes "pow2 e \<le> r" and "r < pow2 (e + 1)" shows "ilog2 r = e"
proof -
  have "0 < r" using assms(1) pow2_pos(1) [of e] by linarith
  with ilog2_bounds [OF this] assms have "pow2 (ilog2 r) < pow2 (e + 1)" "pow2 e < pow2 (ilog2 r + 1)" by linarith+
  then show ?thesis unfolding pow2_less_iff by linarith
qed

lemma nearest_even_cases:
  "(nearest_even x = \<lfloor>x\<rfloor> \<and> x - of_int \<lfloor>x\<rfloor> \<le> 1/2 \<and> (x - of_int \<lfloor>x\<rfloor> = 1/2 \<longrightarrow> even (nearest_even x)))
   \<or> (nearest_even x = \<lfloor>x\<rfloor> + 1 \<and> 1/2 \<le> x - of_int \<lfloor>x\<rfloor> \<and> (x - of_int \<lfloor>x\<rfloor> = 1/2 \<longrightarrow> even (nearest_even x)))"
  by (auto simp: nearest_even_def Let_def)

lemma nearest_magnitude_scaled:
  fixes fmt :: float_format and r :: rat
  assumes "0 < r"
  defines "q \<equiv> last_place fmt r"
  shows "0 \<le> q - min_exponent fmt" and "0 \<le> r / pow2 q" and "r / pow2 q < 2 ^ (fraction_width fmt + 1)"
    and "q = min_exponent fmt \<or> 2 ^ fraction_width fmt \<le> r / pow2 q"
proof -
  show "0 \<le> q - min_exponent fmt" by (simp add: q_def last_place_def)
  show "0 \<le> r / pow2 q" using assms(1) by simp
  have "r < pow2 (ilog2 r + 1)" using ilog2_bounds(2) [OF assms(1)] .
  also have "\<dots> \<le> pow2 (q + int (fraction_width fmt + 1))" by (intro pow2_mono) (simp add: q_def last_place_def)
  also have "\<dots> = 2 ^ (fraction_width fmt + 1) * pow2 q" by (rule pow2_add_nat)
  finally show "r / pow2 q < 2 ^ (fraction_width fmt + 1)" by (simp add: divide_less_eq)
  show "q = min_exponent fmt \<or> 2 ^ fraction_width fmt \<le> r / pow2 q"
  proof (cases "q = min_exponent fmt")
    case False
    then have "ilog2 r = q + int (fraction_width fmt)" by (auto simp: q_def last_place_def max_def split: if_splits)
    then have "2 ^ fraction_width fmt * pow2 q \<le> r" using ilog2_bounds(1) [OF assms(1)] by (simp add: pow2_add_nat)
    then show ?thesis by (simp add: le_divide_eq)
  qed simp
qed

lemma nearest_magnitude_floor:
  assumes "0 < r"
  obtains m where "0 \<le> m" and "magnitude_value fmt m \<le> r" and "r < magnitude_value fmt (m + 1)"
    and "(nearest_magnitude fmt r = m \<and> r - magnitude_value fmt m \<le> magnitude_value fmt (m + 1) - r
          \<and> (r - magnitude_value fmt m = magnitude_value fmt (m + 1) - r \<longrightarrow> even m))
        \<or> (nearest_magnitude fmt r = m + 1 \<and> magnitude_value fmt (m + 1) - r \<le> r - magnitude_value fmt m
          \<and> (r - magnitude_value fmt m = magnitude_value fmt (m + 1) - r \<longrightarrow> even (m + 1)))"
proof -
  define q where "q = last_place fmt r"
  define k where "k = q - min_exponent fmt"
  define x where "x = r / pow2 q"
  define w :: int where "w = 2 ^ fraction_width fmt"
  note scaled = nearest_magnitude_scaled [OF assms, of fmt, folded q_def, folded x_def, folded k_def]
  have r: "r = x * pow2 q" by (simp add: x_def)
  have f: "of_int \<lfloor>x\<rfloor> \<le> x" "x < of_int \<lfloor>x\<rfloor> + 1" by linarith+
  have floor0: "0 \<le> \<lfloor>x\<rfloor>" using scaled(2) by simp
  have floor1: "\<lfloor>x\<rfloor> < 2 ^ (fraction_width fmt + 1)"
  proof -
    have "x < of_int (2 ^ (fraction_width fmt + 1))" using scaled(3) by simp
    then show ?thesis unfolding floor_less_iff .
  qed
  have floor2: "k = 0 \<or> 2 ^ fraction_width fmt \<le> \<lfloor>x\<rfloor>"
  proof -
    have "k = 0 \<or> of_int (2 ^ fraction_width fmt) \<le> x" using scaled(4) by (auto simp: k_def)
    then show ?thesis unfolding le_floor_iff .
  qed
  define m where "m = k * w + \<lfloor>x\<rfloor>"
  have at: "magnitude_value fmt m = of_int \<lfloor>x\<rfloor> * pow2 q"
    unfolding m_def w_def using magnitude_value_split [OF floor0 _ scaled(1) floor2] floor1 by (simp add: k_def)
  have up: "magnitude_value fmt (m + 1) = (of_int \<lfloor>x\<rfloor> + 1) * pow2 q"
    unfolding m_def w_def using magnitude_value_split [of "\<lfloor>x\<rfloor> + 1" fmt k] floor0 floor1 floor2 scaled(1)
    by (auto simp: k_def add.assoc)
  have near: "nearest_magnitude fmt r = k * w + nearest_even x"
    using assms by (simp add: nearest_magnitude_def q_def [symmetric] k_def x_def w_def push_bit_eq_mult)
  have "even w" using fraction_width.simps by (cases fmt) (simp_all add: w_def)
  then have parity: "even (k * w + n) \<longleftrightarrow> even n" for n by simp
  have diffs: "r - magnitude_value fmt m = (x - of_int \<lfloor>x\<rfloor>) * pow2 q"
    "magnitude_value fmt (m + 1) - r = (1 - (x - of_int \<lfloor>x\<rfloor>)) * pow2 q"
    unfolding at up by (simp_all add: r algebra_simps)
  have "a * pow2 q \<le> b * pow2 q \<longleftrightarrow> a \<le> b" "a * pow2 q = b * pow2 q \<longleftrightarrow> a = b" for a b
    by (simp_all add: mult_le_cancel_right)
  note cancel = this
  have cmp: "r - magnitude_value fmt m \<le> magnitude_value fmt (m + 1) - r \<longleftrightarrow> x - of_int \<lfloor>x\<rfloor> \<le> 1/2"
    "magnitude_value fmt (m + 1) - r \<le> r - magnitude_value fmt m \<longleftrightarrow> 1/2 \<le> x - of_int \<lfloor>x\<rfloor>"
    "r - magnitude_value fmt m = magnitude_value fmt (m + 1) - r \<longleftrightarrow> x - of_int \<lfloor>x\<rfloor> = 1/2"
    unfolding diffs cancel by linarith+
  have evens: "even m \<longleftrightarrow> even \<lfloor>x\<rfloor>" "even (m + 1) \<longleftrightarrow> even (\<lfloor>x\<rfloor> + 1)"
    using parity [of "\<lfloor>x\<rfloor>"] parity [of "\<lfloor>x\<rfloor> + 1"] by (simp_all add: m_def)
  have chosen: "nearest_magnitude fmt r = m \<longleftrightarrow> nearest_even x = \<lfloor>x\<rfloor>"
    "nearest_magnitude fmt r = m + 1 \<longleftrightarrow> nearest_even x = \<lfloor>x\<rfloor> + 1"
    by (auto simp: near m_def)
  show thesis
  proof (rule that)
    show "0 \<le> m" using scaled(1) floor0 by (simp add: m_def w_def)
    show "magnitude_value fmt m \<le> r" "r < magnitude_value fmt (m + 1)"
      using f by (simp_all add: at up r mult_le_cancel_right mult_less_cancel_right)
    show "(nearest_magnitude fmt r = m \<and> r - magnitude_value fmt m \<le> magnitude_value fmt (m + 1) - r
          \<and> (r - magnitude_value fmt m = magnitude_value fmt (m + 1) - r \<longrightarrow> even m))
        \<or> (nearest_magnitude fmt r = m + 1 \<and> magnitude_value fmt (m + 1) - r \<le> r - magnitude_value fmt m
          \<and> (r - magnitude_value fmt m = magnitude_value fmt (m + 1) - r \<longrightarrow> even (m + 1)))"
      unfolding cmp evens chosen using nearest_even_cases [of x] by metis
  qed
qed

lemma nearer:
  fixes A B r V :: rat
  assumes "A \<le> r" and "r < B"
  shows "r - A \<le> B - r \<Longrightarrow> V < A \<or> B \<le> V \<Longrightarrow> \<bar>A - r\<bar> \<le> \<bar>V - r\<bar> \<and> (\<bar>A - r\<bar> = \<bar>V - r\<bar> \<longrightarrow> r - A = B - r)"
    and "B - r \<le> r - A \<Longrightarrow> V \<le> A \<or> B < V \<Longrightarrow> \<bar>B - r\<bar> \<le> \<bar>V - r\<bar> \<and> (\<bar>B - r\<bar> = \<bar>V - r\<bar> \<longrightarrow> r - A = B - r)"
proof -
  have abs: "\<bar>A - r\<bar> = r - A" "\<bar>B - r\<bar> = B - r" "V \<le> A \<Longrightarrow> \<bar>V - r\<bar> = r - V" "B \<le> V \<Longrightarrow> \<bar>V - r\<bar> = V - r"
    using assms by simp_all
  show "\<bar>A - r\<bar> \<le> \<bar>V - r\<bar> \<and> (\<bar>A - r\<bar> = \<bar>V - r\<bar> \<longrightarrow> r - A = B - r)"
    if "r - A \<le> B - r" "V < A \<or> B \<le> V" using that(2)
  proof
    assume "V < A" then show ?thesis using abs(1) abs(3) by simp
  next
    assume "B \<le> V" then show ?thesis using abs(1) abs(4) that(1) by simp
  qed
  show "\<bar>B - r\<bar> \<le> \<bar>V - r\<bar> \<and> (\<bar>B - r\<bar> = \<bar>V - r\<bar> \<longrightarrow> r - A = B - r)"
    if "B - r \<le> r - A" "V \<le> A \<or> B < V" using that(2)
  proof
    assume "V \<le> A" then show ?thesis using abs(2) abs(3) that(1) by simp
  next
    assume "B < V" then show ?thesis using abs(2) abs(4) by simp
  qed
qed

lemma nearest_magnitude_nearest:
  assumes "0 \<le> r" and "0 \<le> m'"
  shows "\<bar>magnitude_value fmt (nearest_magnitude fmt r) - r\<bar> \<le> \<bar>magnitude_value fmt m' - r\<bar>"
    and "magnitude_value fmt (nearest_magnitude fmt r) \<noteq> r \<Longrightarrow> m' \<noteq> nearest_magnitude fmt r \<Longrightarrow>
      \<bar>magnitude_value fmt (nearest_magnitude fmt r) - r\<bar> = \<bar>magnitude_value fmt m' - r\<bar> \<Longrightarrow> even (nearest_magnitude fmt r)"
    and "0 \<le> nearest_magnitude fmt r"
proof -
  consider "r = 0" | "0 < r" using assms(1) by linarith
  then have "\<bar>magnitude_value fmt (nearest_magnitude fmt r) - r\<bar> \<le> \<bar>magnitude_value fmt m' - r\<bar>
    \<and> (magnitude_value fmt (nearest_magnitude fmt r) \<noteq> r \<longrightarrow> m' \<noteq> nearest_magnitude fmt r \<longrightarrow>
      \<bar>magnitude_value fmt (nearest_magnitude fmt r) - r\<bar> = \<bar>magnitude_value fmt m' - r\<bar> \<longrightarrow> even (nearest_magnitude fmt r))
    \<and> 0 \<le> nearest_magnitude fmt r"
  proof cases
    case 1
    then show ?thesis by (simp add: nearest_magnitude_def magnitude_value_zero)
  next
    case 2
    obtain m where m: "0 \<le> m" "magnitude_value fmt m \<le> r" "r < magnitude_value fmt (m + 1)"
      "(nearest_magnitude fmt r = m \<and> r - magnitude_value fmt m \<le> magnitude_value fmt (m + 1) - r
          \<and> (r - magnitude_value fmt m = magnitude_value fmt (m + 1) - r \<longrightarrow> even m))
        \<or> (nearest_magnitude fmt r = m + 1 \<and> magnitude_value fmt (m + 1) - r \<le> r - magnitude_value fmt m
          \<and> (r - magnitude_value fmt m = magnitude_value fmt (m + 1) - r \<longrightarrow> even (m + 1)))"
      using nearest_magnitude_floor [OF 2] .
    let ?A = "magnitude_value fmt m" and ?B = "magnitude_value fmt (m + 1)" and ?V = "magnitude_value fmt m'"
    have apart: "?V < ?A \<or> m' = m \<or> m' = m + 1 \<or> ?B < ?V"
      using magnitude_value_mono [of m' m fmt] magnitude_value_mono [of "m + 1" m' fmt] assms(2) m(1) by linarith
    from m(4) show ?thesis
    proof (elim disjE conjE)
      assume near: "nearest_magnitude fmt r = m" "r - ?A \<le> ?B - r" "r - ?A = ?B - r \<longrightarrow> even m"
      have "\<bar>?A - r\<bar> \<le> \<bar>?V - r\<bar> \<and> (\<bar>?A - r\<bar> = \<bar>?V - r\<bar> \<and> m' \<noteq> m \<longrightarrow> r - ?A = ?B - r)"
        using nearer(1) [OF m(2,3) near(2), of ?V] apart by auto
      then show ?thesis unfolding near(1) using near(3) m(1) by auto
    next
      assume near: "nearest_magnitude fmt r = m + 1" "?B - r \<le> r - ?A" "r - ?A = ?B - r \<longrightarrow> even (m + 1)"
      have "\<bar>?B - r\<bar> \<le> \<bar>?V - r\<bar> \<and> (\<bar>?B - r\<bar> = \<bar>?V - r\<bar> \<and> m' \<noteq> m + 1 \<longrightarrow> r - ?A = ?B - r)"
        using nearer(2) [OF m(2,3) near(2), of ?V] apart by auto
      then show ?thesis unfolding near(1) using near(3) m(1) by auto
    qed
  qed
  then show "\<bar>magnitude_value fmt (nearest_magnitude fmt r) - r\<bar> \<le> \<bar>magnitude_value fmt m' - r\<bar>"
    "magnitude_value fmt (nearest_magnitude fmt r) \<noteq> r \<Longrightarrow> m' \<noteq> nearest_magnitude fmt r \<Longrightarrow>
      \<bar>magnitude_value fmt (nearest_magnitude fmt r) - r\<bar> = \<bar>magnitude_value fmt m' - r\<bar> \<Longrightarrow> even (nearest_magnitude fmt r)"
    "0 \<le> nearest_magnitude fmt r" by blast+
qed

subsection \<open>Exact values\<close>

lemma nearest_magnitude_exact:
  assumes "0 \<le> n" and "n < 2 ^ (fraction_width fmt + 1)" and "min_exponent fmt \<le> q"
  shows "magnitude_value fmt (nearest_magnitude fmt (of_int n * pow2 q)) = of_int n * pow2 q"
proof (cases "n = 0")
  case True
  then show ?thesis by (simp add: nearest_magnitude_def magnitude_value_zero)
next
  case False
  define r where "r = of_int n * pow2 q"
  have r: "0 < r" using False assms(1) by (simp add: r_def)
  define p where "p = last_place fmt r"
  note scaled = nearest_magnitude_scaled [OF r, of fmt, folded p_def]
  have "r < pow2 (int (fraction_width fmt + 1)) * pow2 q"
    using of_int_power_bounds(2) [OF assms(2)] by (simp add: r_def)
  then have "pow2 (ilog2 r) < pow2 (int (fraction_width fmt + 1) + q)" using ilog2_bounds(1) [OF r] by (simp add: pow2_add)
  then have "p \<le> q" using assms(3) unfolding pow2_less_iff by (simp add: p_def last_place_def)
  then have "q = p + int (nat (q - p))" by simp
  then have quotient: "r / pow2 p = of_int (n * 2 ^ nat (q - p))"
    using pow2_add_nat [of p "nat (q - p)"] by (simp add: r_def)
  have round: "nearest_even (of_int i) = i" for i by (simp add: nearest_even_def)
  let ?n = "n * 2 ^ nat (q - p)"
  have near: "nearest_magnitude fmt r = (p - min_exponent fmt) * 2 ^ fraction_width fmt + ?n"
    using r by (simp add: nearest_magnitude_def p_def [symmetric] quotient round push_bit_eq_mult del: of_int_mult of_int_power)
  have "?n < 2 ^ (fraction_width fmt + 1)"
    using scaled(3) unfolding quotient by (metis of_int_less_iff of_int_numeral of_int_power)
  moreover have "p - min_exponent fmt = 0 \<or> 2 ^ fraction_width fmt \<le> ?n"
    using scaled(4) unfolding quotient by (metis of_int_le_iff of_int_numeral of_int_power diff_self)
  ultimately have "magnitude_value fmt (nearest_magnitude fmt r) = of_int ?n * pow2 (p - min_exponent fmt + min_exponent fmt)"
    unfolding near using assms(1) scaled(1) by (intro magnitude_value_split) auto
  also have "\<dots> = r" using quotient by (simp add: field_simps)
  finally show ?thesis by (simp add: r_def)
qed

lemma nearest_magnitude_value: "0 \<le> m \<Longrightarrow> nearest_magnitude fmt (magnitude_value fmt m) = m"
  using nearest_magnitude_nearest(1,3) [of "magnitude_value fmt m" m fmt] magnitude_value_nonneg [of m fmt]
  by (simp add: magnitude_value_inj)

lemma magnitude_value_form:
  assumes "0 \<le> m" and "m < positive_infinity fmt"
  obtains n q where "magnitude_value fmt m = of_int n * pow2 q" and "0 \<le> n" and "n < 2 ^ (fraction_width fmt + 1)"
    and "min_exponent fmt \<le> q" and "q \<le> 2 ^ exponent_width fmt - 3 + min_exponent fmt"
proof -
  let ?w = "2 ^ fraction_width fmt :: int"
  have e: "0 \<le> m div ?w" "m div ?w < 2 ^ exponent_width fmt - 1"
    using assms by (simp add: pos_imp_zdiv_nonneg_iff, cases fmt, simp_all add: format_numbers)
  have f: "0 \<le> m mod ?w" "m mod ?w < ?w" by simp_all
  show thesis
  proof (cases "m div ?w = 0")
    case True
    have "(2::int) < 2 ^ exponent_width fmt" by (cases fmt) simp_all
    moreover have "m mod ?w < 2 * ?w" using f by linarith
    ultimately show thesis
      using True f(1) by (intro that [of "m mod ?w" "min_exponent fmt"]) (simp_all add: magnitude_value_def)
  next
    case False
    with e f show thesis
      by (intro that [of "?w + m mod ?w" "m div ?w - 1 + min_exponent fmt"]) (simp_all add: magnitude_value_def)
  qed
qed

lemma bit_length_power2: "bit_length (2 ^ i) = Suc i"
proof -
  have "bit_length (2 ^ i) \<le> k \<longleftrightarrow> Suc i \<le> k" for k
    unfolding bit_length_le_iff by (simp add: power_strict_increasing_iff Suc_le_eq)
  from this [of "Suc i"] this [of "bit_length (2 ^ i)"] show ?thesis by simp
qed

lemma divisor_of_power2: "0 < d \<Longrightarrow> d dvd 2 ^ j \<Longrightarrow> \<exists>i \<le> j. d = 2 ^ i" for d :: int
proof (induction j arbitrary: d)
  case 0
  then show ?case by simp
next
  case (Suc j)
  show ?case
  proof (cases "even d")
    case True
    then obtain e where e: "d = 2 * e" by (elim dvdE)
    with Suc.prems have "0 < e" "e dvd 2 ^ j" by simp_all
    then obtain i where "i \<le> j" "e = 2 ^ i" using Suc.IH by blast
    then show ?thesis by (intro exI [of _ "Suc i"]) (simp add: e)
  next
    case False
    then have "coprime d 2" by simp
    then have "d dvd 2 ^ j" using Suc.prems(2) by (simp add: coprime_dvd_mult_right_iff)
    then show ?thesis using Suc.IH [OF Suc.prems(1)] le_SucI by blast
  qed
qed

lemma dyadic_parts:
  assumes "x = of_int n / 2 ^ j"
  obtains i where "i \<le> j" and "denominator x = 2 ^ i" and "\<bar>numerator x\<bar> \<le> \<bar>n\<bar>" and "x = of_int (numerator x) / 2 ^ i"
proof -
  have parts: "of_int (numerator x) / of_int (denominator x) = x" "0 < denominator x"
    by (simp_all add: numerator_denominator)
  have "of_int (numerator x * 2 ^ j) = (of_int (n * denominator x) :: rat)"
    using parts unfolding assms of_int_mult of_int_power by (simp add: field_simps)
  then have cross: "numerator x * 2 ^ j = n * denominator x" by (simp only: of_int_eq_iff)
  have "coprime (numerator x) (denominator x)"
    by (rule quotient_of_coprime [of x]) (simp add: numerator_def denominator_def)
  then have "denominator x dvd 2 ^ j" using cross by (metis coprime_commute coprime_dvd_mult_right_iff dvd_triv_right)
  then obtain i where i: "i \<le> j" "denominator x = 2 ^ i"
    using parts(2) divisor_of_power2 by blast
  have "numerator x * 2 ^ (j - i) * 2 ^ i = n * 2 ^ i"
    using cross i power_add [of "2 :: int" "j - i" i] by (simp add: mult.assoc)
  then have "n = numerator x * 2 ^ (j - i)" by simp
  then have "\<bar>numerator x\<bar> * 1 \<le> \<bar>n\<bar>" unfolding \<open>n = _\<close> abs_mult by (intro mult_left_mono) simp_all
  then have "\<bar>numerator x\<bar> \<le> \<bar>n\<bar>" by simp
  then show thesis using i parts(1) by (intro that [of i]) simp_all
qed

lemma digit_count_le: "0 < w \<Longrightarrow> digit_count n \<le> w \<longleftrightarrow> n < 10 ^ w"
  by (simp add: digit_count_def length_nat_text_le)

lemma decimal_quotient_exact:
  assumes "x = of_int n / 2 ^ j" and "\<bar>n\<bar> * 5 ^ j < 10 ^ DECIMAL_PRECISION"
  shows "dec_value (decimal_quotient x) = Some x"
proof -
  obtain i where i: "i \<le> j" "denominator x = 2 ^ i" "\<bar>numerator x\<bar> \<le> \<bar>n\<bar>" "x = of_int (numerator x) / 2 ^ i"
    using dyadic_parts [OF assms(1)] .
  let ?c = "nat \<bar>numerator x\<bar> * 5 ^ i"
  have "\<bar>numerator x\<bar> * 5 ^ i \<le> \<bar>n\<bar> * 5 ^ j" using i(1,3) by (intro mult_mono power_increasing) simp_all
  then have "int ?c < int (10 ^ DECIMAL_PRECISION)" using assms(2) by simp
  then have "?c < 10 ^ DECIMAL_PRECISION" unfolding of_nat_less_iff .
  moreover have "0 < DECIMAL_PRECISION" by (simp add: DECIMAL_PRECISION_def)
  ultimately have "digit_count ?c \<le> DECIMAL_PRECISION" using digit_count_le by blast
  then have shape: "decimal_quotient x = DecFin (x < 0) ?c (- int i)"
    by (simp add: decimal_quotient_def i(2) bit_length_power2 Let_def)
  have "(if x < 0 then - 1 else 1) * of_int \<bar>numerator x\<bar> = (of_int (numerator x) :: rat)"
  proof -
    have "x < 0 \<longleftrightarrow> numerator x < 0" using i(4) by (metis divide_less_0_iff of_int_less_0_iff zero_less_power zero_less_numeral not_less_iff_gr_or_eq)
    then show ?thesis by simp
  qed
  then have "(if x < 0 then - 1 else 1) * of_nat ?c = of_int (numerator x) * (5 ^ i :: rat)" by simp
  moreover have "pow10 (- int i) = 1 / (2 ^ i * 5 ^ i)" by (simp add: pow10_def power_mult_distrib [symmetric])
  ultimately show ?thesis using i(4) by (simp add: shape)
qed

subsection \<open>Reading and packing\<close>

lemma number_cases:
  assumes "is_pattern fmt b"
  shows "finite_value (bits_to_float fmt b) =
    (if magnitude_of fmt b < positive_infinity fmt
     then Some ((if sign_of fmt b then - 1 else 1) * magnitude_value fmt (magnitude_of fmt b)) else None)"
  by (simp add: bits_to_float_eq [OF assms])

lemma signed_bits_pattern:
  assumes "0 \<le> m" and "m \<le> positive_infinity fmt"
  shows "is_pattern fmt (signed_bits fmt s m)" and "sign_of fmt (signed_bits fmt s m) = s"
    and "magnitude_of fmt (signed_bits fmt s m) = m"
  using assms format_sizes(1,2) [of fmt] by (auto simp: signed_bits_def is_pattern_iff sign_of_def magnitude_of_def)

lemma float_of_rational_eq:
  assumes "0 \<le> r"
  shows "float_of_rational s r =
    (if nearest_magnitude Binary64 r < positive_infinity Binary64
     then DFin s (magnitude_value Binary64 (nearest_magnitude Binary64 r)) else DInf s)"
proof -
  have nonneg: "0 \<le> nearest_magnitude Binary64 r" using nearest_magnitude_nearest(3) [OF assms, of 0] by simp
  show ?thesis
    using signed_bits_pattern [OF nonneg, of Binary64 s]
    by (simp add: float_of_rational_def bits_to_float_eq)
qed

lemma float_to_bits_value:
  assumes "0 \<le> m" and "m < positive_infinity fmt"
  shows "float_to_bits fmt (DFin s (magnitude_value fmt m)) = signed_bits fmt s m"
  using assms by (simp add: float_to_bits_def struct_pack_def nearest_magnitude_value)

lemma float_to_bits_inf: "float_to_bits fmt (DInf s) = signed_bits fmt s (positive_infinity fmt)"
  by (simp add: float_to_bits_def struct_pack_def)

lemma float_bits_roundtrip:
  assumes "is_ordinary fmt b"
  shows "float_to_bits fmt (bits_to_float fmt b) = b"
proof -
  have p: "is_pattern fmt b" and top: "magnitude_of fmt b \<le> positive_infinity fmt" using assms by (simp_all add: is_ordinary_def)
  have "signed_bits fmt (sign_of fmt b) (magnitude_of fmt b) = b" by (simp add: signed_bits_def magnitude_of_def)
  then show ?thesis
    unfolding bits_to_float_eq [OF p] using top magnitude_of_bounds [OF p]
    by (auto simp: float_to_bits_value float_to_bits_inf)
qed

lemma decimal_quotient_of_float:
  assumes "finite_value (bits_to_float fmt b) = Some y" and "is_pattern fmt b"
  shows "dec_value (decimal_quotient y) = Some y"
proof -
  let ?m = "magnitude_of fmt b"
  have m: "0 \<le> ?m" "?m < positive_infinity fmt" and y: "y = (if sign_of fmt b then - 1 else 1) * magnitude_value fmt ?m"
    using assms magnitude_of_bounds [OF assms(2)] by (auto simp: number_cases split: if_splits)
  obtain n q where nq: "magnitude_value fmt ?m = of_int n * pow2 q" "0 \<le> n" "n < 2 ^ (fraction_width fmt + 1)"
    "min_exponent fmt \<le> q" "q \<le> 2 ^ exponent_width fmt - 3 + min_exponent fmt"
    using magnitude_value_form [OF m] .
  define s :: int where "s = (if sign_of fmt b then - 1 else 1)"
  have s: "\<bar>s\<bar> = 1" by (simp add: s_def)
  have bounds: "n < 2 ^ 53" "- 1074 \<le> q" "q \<le> 971"
    using nq(3-5) by (cases fmt; simp add: format_numbers)+
  have exact: "y = of_int (s * n * 2 ^ nat q) / 2 ^ nat (- q)"
    using y nq(1) by (simp add: s_def pow2_def)
  have size: "53 + nat q \<le> DECIMAL_PRECISION" "nat (- q) \<le> DECIMAL_PRECISION"
    using bounds by (simp_all add: DECIMAL_PRECISION_def)
  have "\<bar>s * n * 2 ^ nat q\<bar> = n * 2 ^ nat q" using s nq(2) by (simp add: abs_mult)
  also have "\<dots> < 2 ^ 53 * 2 ^ nat q" using bounds by (intro mult_strict_right_mono) simp_all
  also have "\<dots> = 2 ^ (53 + nat q)" by (rule power_add [symmetric])
  also have "\<dots> \<le> 2 ^ DECIMAL_PRECISION" using size(1) by (intro power_increasing) simp_all
  finally have left: "\<bar>s * n * 2 ^ nat q\<bar> < 2 ^ DECIMAL_PRECISION" .
  have "(5::int) ^ nat (- q) \<le> 5 ^ DECIMAL_PRECISION" using size(2) by (intro power_increasing) simp_all
  then have "\<bar>s * n * 2 ^ nat q\<bar> * 5 ^ nat (- q) \<le> \<bar>s * n * 2 ^ nat q\<bar> * 5 ^ DECIMAL_PRECISION" by (intro mult_left_mono) simp_all
  also have "\<dots> < 2 ^ DECIMAL_PRECISION * 5 ^ DECIMAL_PRECISION" using left by (intro mult_strict_right_mono) simp_all
  also have "\<dots> = 10 ^ DECIMAL_PRECISION" using power_mult_distrib [of "2 :: int" 5 DECIMAL_PRECISION] by simp
  finally show ?thesis by (rule decimal_quotient_exact [OF exact])
qed

subsection \<open>Decimal input\<close>

lemma nearest_magnitude_tie:
  assumes "0 \<le> r" and "0 \<le> m'" and "m' \<noteq> nearest_magnitude fmt r"
    and "\<bar>magnitude_value fmt (nearest_magnitude fmt r) - r\<bar> = \<bar>magnitude_value fmt m' - r\<bar>"
  shows "even (nearest_magnitude fmt r)"
proof (cases "magnitude_value fmt (nearest_magnitude fmt r) = r")
  case True
  then have "magnitude_value fmt m' = magnitude_value fmt (nearest_magnitude fmt r)" using assms(4) by simp
  then show ?thesis using assms(2,3) nearest_magnitude_nearest(3) [OF assms(1,2), of fmt] by (simp add: magnitude_value_inj)
next
  case False
  then show ?thesis using nearest_magnitude_nearest(2) [OF assms(1,2)] assms(3,4) by blast
qed

lemma nearest_magnitude_overflow:
  assumes "0 \<le> r"
  shows "positive_infinity fmt \<le> nearest_magnitude fmt r \<longleftrightarrow>
    magnitude_value fmt (positive_infinity fmt - 1) + magnitude_value fmt (positive_infinity fmt) \<le> 2 * r"
proof -
  let ?p = "positive_infinity fmt" and ?n = "nearest_magnitude fmt r"
  have p: "1 \<le> ?p" "odd (?p - 1)" by (cases fmt; simp add: format_numbers)+
  have n0: "0 \<le> ?n" using nearest_magnitude_nearest(3) [OF assms, of 0] by simp
  have below: "magnitude_value fmt (?p - 1) < magnitude_value fmt ?p" using magnitude_value_step [of "?p - 1" fmt] p(1) by simp
  have low: "\<bar>magnitude_value fmt ?n - r\<bar> \<le> \<bar>magnitude_value fmt (?p - 1) - r\<bar>"
    and high: "\<bar>magnitude_value fmt ?n - r\<bar> \<le> \<bar>magnitude_value fmt ?p - r\<bar>"
    using nearest_magnitude_nearest(1) [OF assms] p(1) by auto
  show ?thesis
  proof
    assume "?p \<le> ?n"
    then have "magnitude_value fmt ?p \<le> magnitude_value fmt ?n"
      using magnitude_value_less_iff [of ?n ?p fmt] p(1) n0 by (simp add: linorder_not_less [symmetric])
    with low below show "magnitude_value fmt (?p - 1) + magnitude_value fmt ?p \<le> 2 * r" by (simp add: abs_if split: if_splits)
  next
    assume sum: "magnitude_value fmt (?p - 1) + magnitude_value fmt ?p \<le> 2 * r"
    show "?p \<le> ?n"
    proof (rule ccontr)
      assume "\<not> ?p \<le> ?n"
      then have "?n \<le> ?p - 1" by simp
      then have le: "magnitude_value fmt ?n \<le> magnitude_value fmt (?p - 1)"
        using magnitude_value_less_iff [of "?p - 1" ?n fmt] p(1) n0 by (simp add: linorder_not_less [symmetric])
      have "magnitude_value fmt ?n = magnitude_value fmt (?p - 1)"
        and tie: "\<bar>magnitude_value fmt ?n - r\<bar> = \<bar>magnitude_value fmt ?p - r\<bar>"
        using le high below sum by (simp_all add: abs_if split: if_splits)
      then have "?n = ?p - 1" using n0 p(1) by (simp add: magnitude_value_inj)
      moreover have "even ?n" using nearest_magnitude_tie [OF assms _ _ tie] p(1) \<open>\<not> ?p \<le> ?n\<close> by auto
      ultimately show False using p(2) by simp
    qed
  qed
qed

lemma overflow_limit:
  "magnitude_value Binary64 (positive_infinity Binary64 - 1) + magnitude_value Binary64 (positive_infinity Binary64)
    = 2 * ((2 ^ 54 - 1) * 2 ^ 970)"
  by (simp add: magnitude_value_def format_numbers Let_def pow2_def)

lemma float_of_decimal_nearest:
  assumes "dec_value d = Some x" and "is_pattern Binary64 b"
    and "finite_value (bits_to_float Binary64 b) = Some z" and "finite_value (float_of_decimal d) = Some y"
  shows "\<bar>y - x\<bar> \<le> \<bar>z - x\<bar> \<and> (\<bar>y - x\<bar> = \<bar>z - x\<bar> \<and> z \<noteq> y \<longrightarrow> even (float_to_bits Binary64 (float_of_decimal d)))"
proof -
  obtain s c e where d: "d = DecFin s c e" using assms(1) by (cases d) auto
  define r where "r = of_nat c * pow10 e"
  define m where "m = nearest_magnitude Binary64 r"
  define t :: rat where "t = (if s then - 1 else 1)"
  let ?v = "magnitude_value Binary64"
  have r: "0 \<le> r" using pow10_pos [of e] by (simp add: r_def less_imp_le)
  have t: "\<bar>t\<bar> = 1" "t * t = 1" by (simp_all add: t_def)
  have x: "x = t * r" using assms(1) by (auto simp: d r_def t_def)
  have m0: "0 \<le> m" using nearest_magnitude_nearest(3) [OF r, of 0] by (simp add: m_def)
  have v: "float_of_decimal d = DFin s (?v m)" and m1: "m < positive_infinity Binary64" and y: "y = t * ?v m"
    using assms(4) by (auto simp: d r_def [symmetric] float_of_rational_eq [OF r] m_def t_def split: if_splits)
  have bits: "even (float_to_bits Binary64 (float_of_decimal d)) \<longleftrightarrow> even m"
    unfolding v float_to_bits_value [OF m0 m1] by (simp add: signed_bits_def format_numbers)
  define k where "k = magnitude_of Binary64 b"
  have k: "0 \<le> k" "k < positive_infinity Binary64" and z: "z = ?v k \<or> z = - ?v k"
    using assms(3) magnitude_of_bounds [OF assms(2)] by (auto simp: number_cases [OF assms(2)] k_def split: if_splits)
  have vk: "0 \<le> ?v k" using magnitude_value_nonneg [OF k(1)] .
  have yx: "\<bar>y - x\<bar> = \<bar>?v m - r\<bar>" using t(1) by (simp add: x y right_diff_distrib [symmetric] abs_mult)
  have "\<bar>t * z - r\<bar> = \<bar>t\<bar> * \<bar>z - t * r\<bar>" using t(2) by (simp add: abs_mult [symmetric] right_diff_distrib mult.assoc [symmetric])
  then have zx: "\<bar>z - x\<bar> = \<bar>t * z - r\<bar>" using t(1) by (simp add: x)
  have tz: "t * z = ?v k \<or> t * z = - ?v k" using z by (auto simp: t_def)
  note near = nearest_magnitude_nearest(1) [OF r k(1), of Binary64, folded m_def]
  have far: "\<bar>?v k - r\<bar> \<le> \<bar>t * z - r\<bar>" using tz vk r by (auto simp: abs_if)
  have "even m" if eq: "\<bar>y - x\<bar> = \<bar>z - x\<bar>" and ne: "z \<noteq> y"
  proof -
    have same: "\<bar>?v m - r\<bar> = \<bar>?v k - r\<bar>" "\<bar>?v k - r\<bar> = \<bar>t * z - r\<bar>" using eq near far by (simp_all add: yx zx)
    have "k \<noteq> m"
    proof
      assume "k = m"
      with tz have "t * z = - ?v m \<and> ?v m \<noteq> 0" using ne t(2) by (auto simp: y t_def split: if_splits)
      with same(2) vk r \<open>k = m\<close> have "r = 0" by (auto simp: abs_if split: if_splits)
      then have "m = 0" by (simp add: m_def nearest_magnitude_def)
      with \<open>t * z = _ \<and> _\<close> show False by (simp add: magnitude_value_zero)
    qed
    then show ?thesis using nearest_magnitude_tie [OF r k(1), of Binary64, folded m_def] same(1) by blast
  qed
  then show ?thesis using near far by (auto simp: bits yx zx)
qed

lemma float_of_decimal_overflow:
  assumes "dec_value d = Some x"
  shows "finite_value (float_of_decimal d) = None \<longleftrightarrow> (2 ^ 54 - 1) * 2 ^ 970 \<le> \<bar>x\<bar>"
proof -
  obtain s c e where d: "d = DecFin s c e" using assms by (cases d) auto
  define r where "r = of_nat c * pow10 e"
  have r: "0 \<le> r" using pow10_pos [of e] by (simp add: r_def less_imp_le)
  have "x = (if s then - r else r)" using assms by (auto simp: d r_def)
  with r have "\<bar>x\<bar> = r" by simp
  moreover have "finite_value (float_of_decimal d) = None \<longleftrightarrow> positive_infinity Binary64 \<le> nearest_magnitude Binary64 r"
    by (simp add: d r_def [symmetric] float_of_rational_eq [OF r])
  ultimately show ?thesis unfolding nearest_magnitude_overflow [OF r] overflow_limit by simp
qed

lemma float_of_decimal_pattern:
  assumes "dec_value d = Some x"
  shows "is_pattern Binary64 (float_to_bits Binary64 (float_of_decimal d))"
    and "bits_to_float Binary64 (float_to_bits Binary64 (float_of_decimal d)) = float_of_decimal d"
proof -
  obtain s c e where d: "d = DecFin s c e" using assms by (cases d) auto
  define r where "r = of_nat c * pow10 e"
  have r: "0 \<le> r" using pow10_pos [of e] by (simp add: r_def less_imp_le)
  have m: "0 \<le> nearest_magnitude Binary64 r" using nearest_magnitude_nearest(3) [OF r, of 0] by simp
  have p: "0 \<le> positive_infinity Binary64" using format_sizes(1) [of Binary64] by simp
  show pat: "is_pattern Binary64 (float_to_bits Binary64 (float_of_decimal d))"
    using signed_bits_pattern(1) [OF m] signed_bits_pattern(1) [OF p]
    by (simp add: d r_def [symmetric] float_of_rational_eq [OF r] float_to_bits_value [OF m] float_to_bits_inf)
  show "bits_to_float Binary64 (float_to_bits Binary64 (float_of_decimal d)) = float_of_decimal d"
    unfolding bits_to_float_eq [OF pat]
    using signed_bits_pattern(2,3) [OF m] signed_bits_pattern(2,3) [OF p]
    by (simp add: d r_def [symmetric] float_of_rational_eq [OF r] float_to_bits_value [OF m] float_to_bits_inf)
qed

lemma decode_decimal:
  assumes "decode host arguments name fmt (u ''decimal'') = Inr r"
    and "string_arg arguments name VNone 256 = Inr s" and "map_of SPECIAL_DECIMALS (ascii_lower (strip s)) = None"
    and "decimal_of_text (decimal_digit host) s = Some d" and "dec_value d = Some x"
  shows "decoded_bits r = float_to_bits (snd fmt) (float_of_decimal d)"
    and "decoded_value r = bits_to_float (snd fmt) (decoded_bits r)"
    and "map_of (decoded_projection r) (u ''inputRounded'') = Some (VBool (fst (rounding_metadata (Some d) (decoded_value r))))"
    and "map_of (decoded_projection r) (u ''roundingDirection'') = Some (VStr (snd (rounding_metadata (Some d) (decoded_value r))))"
    and "decoded_warnings r = [] \<longleftrightarrow> \<not> fst (rounding_metadata (Some d) (decoded_value r))"
proof -
  let ?bits = "float_to_bits (snd fmt) (float_of_decimal d)"
  let ?v = "bits_to_float (snd fmt) ?bits"
  have input: "decimal_input host s name = Inr (Some d, float_of_decimal d)"
    using assms(3-5) by (simp add: decimal_input_def demand_def)
  obtain shown where shown: "projection host (snd fmt) ?bits ?v = Inr shown"
    using assms(1) by (auto simp: decode_def assms(2) input u_def Let_def rbind_def split: sum.splits)
  have r: "r = \<lparr>decoded_bits = ?bits, decoded_value = ?v,
      decoded_projection = AList.update (u ''roundingDirection'') (VStr (snd (rounding_metadata (Some d) ?v)))
        (AList.update (u ''inputRounded'') (VBool (fst (rounding_metadata (Some d) ?v))) shown),
      decoded_warnings = (if fst (rounding_metadata (Some d) ?v)
        then [name @ u '' was rounded to the nearest representable '' @ fst fmt @ u '' value using ties-to-even.''] else [])\<rparr>"
    using assms(1) by (auto simp: decode_def assms(2) input u_def Let_def shown split: prod.splits)
  show "decoded_bits r = ?bits" "decoded_value r = bits_to_float (snd fmt) (decoded_bits r)"
    "map_of (decoded_projection r) (u ''inputRounded'') = Some (VBool (fst (rounding_metadata (Some d) (decoded_value r))))"
    "map_of (decoded_projection r) (u ''roundingDirection'') = Some (VStr (snd (rounding_metadata (Some d) (decoded_value r))))"
    "decoded_warnings r = [] \<longleftrightarrow> \<not> fst (rounding_metadata (Some d) (decoded_value r))"
    by (simp_all add: r update_conv' u_def)
qed

text \<open>
  C17: A finite decimal text in binary64 becomes the float nearest to its exact value, ties to an even
  pattern, and an infinity exactly from the midpoint above the largest float on; the answer says that
  the input was rounded exactly when the value changed, and in which direction.
\<close>

theorem decimal_input_nearest:
  assumes "decode host arguments name (format_name, Binary64) (u ''decimal'') = Inr r"
    and "string_arg arguments name VNone 256 = Inr s" and "map_of SPECIAL_DECIMALS (ascii_lower (strip s)) = None"
    and "decimal_of_text (decimal_digit host) s = Some d" and "dec_value d = Some x"
  shows "(case finite_value (decoded_value r) of
      Some y \<Rightarrow>
        \<bar>x\<bar> < (2 ^ 54 - 1) * 2 ^ 970
        \<and> (\<forall>b z. 0 \<le> b \<and> b < 2 ^ 64 \<and> finite_value (bits_to_float Binary64 b) = Some z \<longrightarrow>
             \<bar>y - x\<bar> \<le> \<bar>z - x\<bar> \<and> (\<bar>y - x\<bar> = \<bar>z - x\<bar> \<and> z \<noteq> y \<longrightarrow> even (decoded_bits r)))
        \<and> map_of (decoded_projection r) (u ''inputRounded'') = Some (VBool (y \<noteq> x))
        \<and> map_of (decoded_projection r) (u ''roundingDirection'')
            = Some (VStr (if y = x then u ''exact'' else if x < y then u ''up'' else u ''down''))
        \<and> (decoded_warnings r = [] \<longleftrightarrow> y = x)
    | None \<Rightarrow>
        (2 ^ 54 - 1) * 2 ^ 970 \<le> \<bar>x\<bar>
        \<and> map_of (decoded_projection r) (u ''roundingDirection'') = Some (VStr (u ''overflow'')))"
proof -
  note read = decode_decimal [OF assms, simplified]
  have v: "decoded_value r = float_of_decimal d" using read(1,2) float_of_decimal_pattern(2) [OF assms(5)] by simp
  have pat: "is_pattern Binary64 (decoded_bits r)" using read(1) float_of_decimal_pattern(1) [OF assms(5)] by simp
  show ?thesis
  proof (cases "finite_value (decoded_value r)")
    case None
    then show ?thesis using float_of_decimal_overflow [OF assms(5)] read(4) by (simp add: v rounding_metadata_def)
  next
    case (Some y)
    have exact: "dec_value (decimal_quotient y) = Some y" using Some read(2) decimal_quotient_of_float [OF _ pat] by simp
    have meta: "rounding_metadata (Some d) (decoded_value r)
        = (if y = x then (False, u ''exact'') else (True, if x < y then u ''up'' else u ''down''))"
      by (simp add: rounding_metadata_def Some exact assms(5))
    have "\<bar>x\<bar> < (2 ^ 54 - 1) * 2 ^ 970"
      using float_of_decimal_overflow [OF assms(5)] Some by (simp add: v linorder_not_le [symmetric])
    moreover have "\<bar>y - x\<bar> \<le> \<bar>z - x\<bar> \<and> (\<bar>y - x\<bar> = \<bar>z - x\<bar> \<and> z \<noteq> y \<longrightarrow> even (decoded_bits r))"
      if "0 \<le> b \<and> b < 2 ^ 64 \<and> finite_value (bits_to_float Binary64 b) = Some z" for b z
      using float_of_decimal_nearest [OF assms(5), of b z y] that Some by (simp add: v read(1) is_pattern_def)
    ultimately show ?thesis using read(3-5) by (simp add: Some meta)
  qed
qed

subsection \<open>A concrete host\<close>

definition plain_host :: float_host where
  "plain_host = \<lparr>float_repr = (\<lambda>_. u ''0''), general_format = (\<lambda>_ _. u ''0''), decimal_digit = ascii_digit,
     float_python = \<lparr>float_text = (\<lambda>_. []), sha256 = (\<lambda>_. []), digit_limit = 0\<rparr>\<rparr>"

lemmas decimal_reading = decimal_of_text_def numeric_as_ascii_def ascii_digit_def split_at_def mantissa_of_def signed_digits_def
  Validation.unsigned_def starts_with_def ascii_lower_def is_digits_def strip_def is_space_def digits_val_def digit_val_def u_def Let_def

lemma zero_text: "decimal_of_text ascii_digit (u ''0'') = Some (DecFin False 0 0)"
  by (simp add: decimal_reading)

lemma nearest_even_near: "\<bar>x - of_int n\<bar> < 1/2 \<Longrightarrow> nearest_even x = n"
proof -
  assume near: "\<bar>x - of_int n\<bar> < 1/2"
  show ?thesis
  proof (cases "of_int n \<le> x")
    case True
    then have "\<lfloor>x\<rfloor> = n" using near by (intro floor_unique) (simp_all add: abs_if split: if_splits)
    then show ?thesis using near True by (simp add: nearest_even_def)
  next
    case False
    then have "\<lfloor>x\<rfloor> = n - 1" using near by (intro floor_unique) (simp_all add: abs_if split: if_splits)
    then show ?thesis using near False by (simp add: nearest_even_def abs_if)
  qed
qed

lemma nearest_magnitude_eval:
  assumes "pow2 k \<le> r" and "r < pow2 (k + 1)"
  shows "nearest_magnitude fmt r = (max (k - int (fraction_width fmt)) (min_exponent fmt) - min_exponent fmt) * 2 ^ fraction_width fmt
    + nearest_even (r / pow2 (max (k - int (fraction_width fmt)) (min_exponent fmt)))"
proof -
  have "r \<noteq> 0" using assms(1) pow2_pos(1) [of k] by auto
  then show ?thesis using ilog2_unique [OF assms] by (simp add: nearest_magnitude_def last_place_def push_bit_eq_mult)
qed

lemma nearest_tenth: "nearest_magnitude Binary64 (1/10) = 0x3FB999999999999A"
  by (subst nearest_magnitude_eval [of "- 4"])
    (simp_all add: pow2_def format_numbers nearest_even_near [of _ 7205759403792794])

lemma plain_fraction: "\<exists>v. fraction_value (float_python plain_host) x = Inr v"
  by (simp add: fraction_value_def fraction_text_def int_str_def digits_allowed_def plain_host_def)

lemma plain_shortest: "\<exists>t. shortest_round_trip plain_host v original ps = Inr t"
proof (induction ps)
  case (Cons p ps)
  then show ?case using zero_text by (simp add: plain_host_def float_of_text_def)
qed simp

lemma plain_round_trip: "\<exists>t. round_trip_decimal plain_host v fmt = Inr t"
  using plain_shortest by (cases v) (simp_all add: round_trip_decimal_def)

lemma plain_projection: "\<exists>p. projection plain_host fmt bits v = Inr p"
proof -
  have "\<exists>w. neighbor plain_host fmt b = Inr w" for b
  proof (cases b)
    case (Some a)
    obtain t where "round_trip_decimal plain_host (bits_to_float fmt a) fmt = Inr t" using plain_round_trip by blast
    then show ?thesis by (simp add: neighbor_def Some)
  qed (simp add: neighbor_def)
  then obtain w1 w2 where "neighbor plain_host fmt (adjacent_bits fmt bits (- 1) (classification_of fmt bits)) = Inr w1"
    "neighbor plain_host fmt (adjacent_bits fmt bits 1 (classification_of fmt bits)) = Inr w2" by metis
  moreover obtain t where "round_trip_decimal plain_host v fmt = Inr t" using plain_round_trip by blast
  moreover obtain ulp where "(if classification_of fmt bits \<in> {u ''zero'', u ''subnormal'', u ''normal''}
      then fraction_value (float_python plain_host) (pow2 (ulp_exponent fmt bits)) else Inr VNone) = Inr ulp"
    using plain_fraction by (cases "classification_of fmt bits \<in> {u ''zero'', u ''subnormal'', u ''normal''}") auto
  moreover obtain e where "(case finite_value v of None \<Rightarrow> Inr VNone | Some x \<Rightarrow> fraction_value (float_python plain_host) x) = Inr e"
    using plain_fraction by (cases "finite_value v") auto
  ultimately show ?thesis by (simp add: projection_def Let_def)
qed

lemma plain_decode:
  assumes "string_arg arguments name VNone 256 = Inr s" and "map_of SPECIAL_DECIMALS (ascii_lower (strip s)) = None"
    and "decimal_of_text (decimal_digit plain_host) s = Some d" and "dec_value d = Some x"
  shows "\<exists>r. decode plain_host arguments name fmt (u ''decimal'') = Inr r"
proof -
  have "decimal_input plain_host s name = Inr (Some d, float_of_decimal d)"
    using assms(2-4) by (simp add: decimal_input_def demand_def)
  moreover obtain p where "projection plain_host (snd fmt) (float_to_bits (snd fmt) (float_of_decimal d))
      (bits_to_float (snd fmt) (float_to_bits (snd fmt) (float_of_decimal d))) = Inr p" using plain_projection by blast
  ultimately show ?thesis by (simp add: decode_def assms(1) u_def Let_def split: prod.splits)
qed

theorem decimal_input_nearest_witness:
  "\<exists>r y. decode plain_host [(u ''value'', VStr (u ''0.1''))] (u ''value'') (u ''binary64'', Binary64) (u ''decimal'') = Inr r
     \<and> finite_value (decoded_value r) = Some y \<and> y \<noteq> 1/10 \<and> decoded_warnings r \<noteq> []"
proof -
  let ?arguments = "[(u ''value'', VStr (u ''0.1''))]"
  have s: "string_arg ?arguments (u ''value'') VNone 256 = Inr (u ''0.1'')"
    by (simp add: string_arg_def dget_def decimal_reading)
  have special: "map_of SPECIAL_DECIMALS (ascii_lower (strip (u ''0.1''))) = None"
    by (simp add: SPECIAL_DECIMALS_def decimal_reading)
  have d: "decimal_of_text (decimal_digit plain_host) (u ''0.1'') = Some (DecFin False 1 (- 1))"
    by (simp add: plain_host_def decimal_reading)
  have x: "dec_value (DecFin False 1 (- 1)) = Some (1/10)" by (simp add: pow10_def)
  obtain r where r: "decode plain_host ?arguments (u ''value'') (u ''binary64'', Binary64) (u ''decimal'') = Inr r"
    using plain_decode [OF s special d x] by blast
  note answer = decimal_input_nearest [OF r s special d x]
  from answer obtain y where y: "finite_value (decoded_value r) = Some y" by (cases "finite_value (decoded_value r)") auto
  have "decoded_value r = float_of_decimal (DecFin False 1 (- 1))"
    using decode_decimal(1,2) [OF r s special d x] float_of_decimal_pattern(2) [OF x] by simp
  then have "y \<noteq> 1/10"
    using y float_of_rational_eq [of "1/10" False] by (auto simp: pow10_def nearest_tenth magnitude_value_def format_numbers pow2_def Let_def)
  then show ?thesis using r y answer by auto
qed

definition twice_rounded_text :: pystr where
  "twice_rounded_text = u ''1.000000059604644775390625000001''"

text \<open>
  A decimal text in binary32 is rounded twice, first to binary64: this text is read as 1, with a
  warning that claims the nearest binary32 value, although the next binary32 value is nearer.
\<close>

theorem binary32_rounded_twice:
  assumes "decode host [(u ''value'', VStr twice_rounded_text)] (u ''value'') (u ''binary32'', Binary32) (u ''decimal'') = Inr r"
    and "\<forall>c < 128. decimal_digit host c = ascii_digit c"
  shows "\<exists>x y z. Option.bind (decimal_of_text (decimal_digit host) twice_rounded_text) dec_value = Some x
    \<and> decoded_bits r = 0x3F800000 \<and> finite_value (decoded_value r) = Some y
    \<and> finite_value (bits_to_float Binary32 0x3F800001) = Some z \<and> \<bar>z - x\<bar> < \<bar>y - x\<bar>
    \<and> decoded_warnings r \<noteq> []"
proof -
  let ?arguments = "[(u ''value'', VStr twice_rounded_text)]"
  define d where "d = DecFin False 1000000059604644775390625000001 (- 30)"
  define x :: rat where "x = 1000000059604644775390625000001 / 1000000000000000000000000000000"
  have s: "string_arg ?arguments (u ''value'') VNone 256 = Inr twice_rounded_text"
    by (simp add: twice_rounded_text_def string_arg_def dget_def decimal_reading)
  have special: "map_of SPECIAL_DECIMALS (ascii_lower (strip twice_rounded_text)) = None"
    by (simp add: twice_rounded_text_def SPECIAL_DECIMALS_def decimal_reading)
  have d: "decimal_of_text (decimal_digit host) twice_rounded_text = Some d"
    using assms(2) by (simp add: twice_rounded_text_def d_def decimal_reading)
  have x: "dec_value d = Some x" by (simp add: d_def x_def pow10_def)
  have "nearest_magnitude Binary64 x = 1023 * 2 ^ 52 + 2 ^ 28"
    by (subst nearest_magnitude_eval [of 0])
      (simp_all add: x_def pow2_def format_numbers nearest_even_near [of _ "2 ^ 52 + 2 ^ 28"])
  moreover have "float_of_decimal d = float_of_rational False x" by (simp add: d_def x_def pow10_def)
  ultimately have v: "float_of_decimal d = DFin False (1 + 1 / 2 ^ 24)"
    using float_of_rational_eq [of x False]
    by (simp add: x_def magnitude_value_def format_numbers pow2_def Let_def)
  have "\<lfloor>16777217 / 2 :: rat\<rfloor> = 8388608" by (rule floor_unique) simp_all
  then have "nearest_magnitude Binary32 (1 + 1 / 2 ^ 24) = 0x3F800000"
    by (subst nearest_magnitude_eval [of 0]) (simp_all add: pow2_def format_numbers nearest_even_def Let_def)
  then have bits: "decoded_bits r = 0x3F800000"
    using decode_decimal(1) [OF assms(1) s special d x]
    by (simp add: v float_to_bits_def struct_pack_def format_numbers signed_bits_def)
  have one: "bits_to_float Binary32 0x3F800000 = DFin False 1" and above: "bits_to_float Binary32 0x3F800001 = DFin False (1 + 1 / 2 ^ 23)"
    by (simp_all add: bits_to_float_eq is_pattern_iff format_numbers magnitude_of_def sign_of_def magnitude_value_def pow2_def Let_def)
  have y: "finite_value (decoded_value r) = Some 1"
    using decode_decimal(2) [OF assms(1) s special d x] by (simp add: bits one)
  have "is_pattern Binary32 (decoded_bits r)" by (simp add: bits is_pattern_iff format_numbers)
  then have "dec_value (decimal_quotient 1) = Some 1"
    using decimal_quotient_of_float [of Binary32 "decoded_bits r" 1] one by (simp add: bits)
  then have "decoded_warnings r \<noteq> []"
    using decode_decimal(5) [OF assms(1) s special d x] by (simp add: rounding_metadata_def y x) (simp add: x_def)
  then show ?thesis
    by (intro exI [of _ x] exI [of _ 1] exI [of _ "1 + 1 / 2 ^ 23"])
      (simp add: d x bits y above, simp add: x_def)
qed

theorem binary32_rounded_twice_witness:
  "\<exists>r. decode plain_host [(u ''value'', VStr twice_rounded_text)] (u ''value'') (u ''binary32'', Binary32) (u ''decimal'') = Inr r
     \<and> decoded_bits r = 0x3F800000"
proof -
  have "string_arg [(u ''value'', VStr twice_rounded_text)] (u ''value'') VNone 256 = Inr twice_rounded_text"
    by (simp add: twice_rounded_text_def string_arg_def dget_def decimal_reading)
  moreover have "map_of SPECIAL_DECIMALS (ascii_lower (strip twice_rounded_text)) = None"
    by (simp add: twice_rounded_text_def SPECIAL_DECIMALS_def decimal_reading)
  moreover have "decimal_of_text (decimal_digit plain_host) twice_rounded_text = Some (DecFin False 1000000059604644775390625000001 (- 30))"
    by (simp add: twice_rounded_text_def plain_host_def decimal_reading)
  ultimately obtain r where "decode plain_host [(u ''value'', VStr twice_rounded_text)] (u ''value'') (u ''binary32'', Binary32) (u ''decimal'') = Inr r"
    using plain_decode by fastforce
  moreover have "\<forall>c < 128. decimal_digit plain_host c = ascii_digit c" by (simp add: plain_host_def)
  ultimately show ?thesis using binary32_rounded_twice by blast
qed

end
