(* ===== verification/Currency.thy ===== *)
theory Currency
  imports Json_Reader Py_Decimal Step_Systems Validation
begin

text \<open>
  Currency conversion with the reference rates of the European Central Bank (\<^verbatim>\<open>currency.py\<close>): reading the
  rates, the cache file, the coordination of concurrent refreshes, and the conversion itself. The network,
  the clocks and the file system are inputs; what the standard library parses and formats is the record
  \<open>rate_host\<close>, whose laws the theorems name. The proofs show that at most one thread refreshes and that
  answers are honest, how refreshes are spaced, that the cache reads back, when the next rates are due, and
  how accurate a conversion is.
\<close>

section \<open>Instants and dates\<close>

text \<open>
  A UTC time stamp is the number of microseconds since the year 1, a date its proleptic ordinal. Results
  outside the years 1 to 9999 raise \<^verbatim>\<open>OverflowError\<close>. What the standard library parses, formats and knows of
  time zones is the record \<open>rate_host\<close>; \<open>wall_clock\<close> is a \<^verbatim>\<open>datetime\<close>: local microseconds and the offset,
  if any.
\<close>

type_synonym instant = int
type_synonym wall_clock = "int \<times> int option"

definition MAX_ORDINAL :: int where "MAX_ORDINAL = 3652059"

definition DAY :: int where "DAY = 24 * 3600 * 1000000"

definition overflow_error :: pyexn where
  "overflow_error = PyExn (u ''OverflowError'') (u ''date value out of range'')"

definition in_range :: "instant \<Rightarrow> pyexn + instant" where
  "in_range t = demand (0 \<le> t \<and> t < MAX_ORDINAL * DAY) overflow_error (Inr t)"

record rate_host =
  xml_attributes :: "nat list \<Rightarrow> (pystr \<times> pystr) list list option"
  date_of_text :: "pystr \<Rightarrow> int option"
  release_instant :: "int \<Rightarrow> instant"
  datetime_of_text :: "pystr \<Rightarrow> wall_clock option"
  datetime_of_http :: "pystr \<Rightarrow> wall_clock option"
  iso_text :: "instant \<Rightarrow> pystr"
  upper_text :: "pystr \<Rightarrow> pystr"
  numerals :: "nat \<Rightarrow> nat option"
  cache_python :: interp

definition CACHE_MAX_AGE :: int where "CACHE_MAX_AGE = DAY"

definition REFRESH_RETRY_INTERVAL :: int where "REFRESH_RETRY_INTERVAL = 15 * 60 * 1000000"

definition MAX_RESPONSE_BYTES :: nat where "MAX_RESPONSE_BYTES = 512 * 1024"

definition MAX_CACHE_BYTES :: nat where "MAX_CACHE_BYTES = 512 * 1024"

definition MINIMUM_RATE_COUNT :: nat where "MINIMUM_RATE_COUNT = 20"

definition as_utc :: "wall_clock \<Rightarrow> pyexn + instant" where
  "as_utc w = in_range (fst w - (case snd w of None \<Rightarrow> 0 | Some offset \<Rightarrow> offset))"

definition parse_iso :: "rate_host \<Rightarrow> pyval \<Rightarrow> pyexn + instant" where
  "parse_iso host v =
     (case v of
        VStr s \<Rightarrow>
          (case datetime_of_text host (replace_cp 90 (u ''+00:00'') s) of
             None \<Rightarrow> Inl (calc ''E_PROVIDER'' (u ''Currency rate timestamp is invalid.''))
           | Some w \<Rightarrow>
               demand (snd w \<noteq> None) (calc ''E_PROVIDER'' (u ''Currency rate timestamp is invalid.'')) (as_utc w))
      | _ \<Rightarrow> Inl (calc ''E_PROVIDER'' (u ''Currency rate timestamp is invalid.'')))"

definition parse_iso_optional :: "rate_host \<Rightarrow> pyval \<Rightarrow> pyexn + instant option" where
  "parse_iso_optional host v = (if v = VNone then Inr None else rbind (parse_iso host v) (\<lambda>t. Inr (Some t)))"

definition http_datetime :: "rate_host \<Rightarrow> pystr option \<Rightarrow> instant option" where
  "http_datetime host v =
     (case v of None \<Rightarrow> None
      | Some s \<Rightarrow> (case datetime_of_http host s of None \<Rightarrow> None
                 | Some w \<Rightarrow> (case as_utc w of Inl _ \<Rightarrow> None | Inr t \<Rightarrow> Some t)))"

definition iso_option :: "rate_host \<Rightarrow> instant option \<Rightarrow> pyval" where
  "iso_option host t = (case t of None \<Rightarrow> VNone | Some t \<Rightarrow> VStr (iso_text host t))"

text \<open>\<^verbatim>\<open>date.weekday\<close>: Monday is 0; the first of January of the year 1 was a Monday.\<close>

definition weekday :: "int \<Rightarrow> int" where
  "weekday day = (day - 1) mod 7"

definition add_day :: "int \<Rightarrow> pyexn + int" where
  "add_day day = demand (day + 1 \<le> MAX_ORDINAL) overflow_error (Inr (day + 1))"

function skip_weekend :: "int \<Rightarrow> pyexn + int" where
  "skip_weekend candidate =
     (if 5 \<le> weekday candidate then rbind (add_day candidate) skip_weekend else Inr candidate)"
  by pat_completeness auto
termination
proof (relation "measure (\<lambda>d. if 5 \<le> weekday d then nat (7 - weekday d) else 0)")
  fix d e assume "5 \<le> weekday d" "add_day d = Inr e"
  then have "e = d + 1" "(d - 1) mod 7 = 5 \<or> (d - 1) mod 7 = 6"
    by (auto simp: add_day_def demand_eq_Inr weekday_def)
  then show "(e, d) \<in> measure (\<lambda>d. if 5 \<le> weekday d then nat (7 - weekday d) else 0)"
    by (auto simp: weekday_def) presburger+
qed simp

declare skip_weekend.simps [simp del]

definition next_business_day :: "int \<Rightarrow> pyexn + int" where
  "next_business_day day = rbind (add_day day) skip_weekend"

definition parse_rate_date :: "rate_host \<Rightarrow> pystr \<Rightarrow> pyexn + int" where
  "parse_rate_date host s =
     (case date_of_text host s of
        None \<Rightarrow> Inl (calc ''E_PROVIDER'' (u ''Currency rate date is invalid.''))
      | Some day \<Rightarrow> Inr day)"

definition fresh_until :: "rate_host \<Rightarrow> int \<Rightarrow> instant \<Rightarrow> pyexn + instant" where
  "fresh_until host rate_day checked_at =
     rbind (next_business_day rate_day) (\<lambda>release_day.
     rbind (in_range (checked_at + CACHE_MAX_AGE)) (\<lambda>oldest.
       Inr (min oldest (release_instant host release_day))))"

section \<open>Snapshots\<close>

record rate_snapshot =
  rate_date :: pystr
  published_at :: "instant option"
  checked_at :: instant
  expires_at :: instant
  next_refresh_attempt_at :: instant
  rates :: "(pystr \<times> decimal) list"

definition positive_rate :: "decimal \<Rightarrow> bool" where
  "positive_rate d \<longleftrightarrow> (case dec_value d of None \<Rightarrow> False | Some x \<Rightarrow> 0 < x)"

definition decimal_or_invalid :: "rate_host \<Rightarrow> pystr \<Rightarrow> pyexn + decimal" where
  "decimal_or_invalid host s =
     (case decimal_of_text (numerals host) s of
        None \<Rightarrow> Inl (PyExn (u ''InvalidOperation'') (u ''[<class 'decimal.ConversionSyntax'>]''))
      | Some d \<Rightarrow> Inr d)"

text \<open>\<^verbatim>\<open>_parse_ecb_rates\<close> over the attributes of the elements in document order.\<close>

definition element_rate :: "rate_host \<Rightarrow> (pystr \<times> pystr) list \<Rightarrow> pystr option \<times> (pystr \<times> decimal) list
    \<Rightarrow> pyexn + pystr option \<times> (pystr \<times> decimal) list" where
  "element_rate host attributes found =
     (let date = (case map_of attributes (u ''time'') of Some t \<Rightarrow> Some t | None \<Rightarrow> fst found);
          currency = dget attributes (u ''currency'') []; rate = dget attributes (u ''rate'') [] in
      if currency \<noteq> [] \<and> rate \<noteq> [] then
        (case decimal_of_text (numerals host) rate of
           None \<Rightarrow> Inl (calc ''E_PROVIDER'' (u ''Currency rate response is invalid.''))
         | Some d \<Rightarrow>
             demand (positive_rate d) (calc ''E_PROVIDER'' (u ''Currency rate response contains an invalid rate.''))
               (Inr (date, AList.update (upper_text host currency) d (snd found))))
      else Inr (date, snd found))"

definition parse_ecb_rates :: "rate_host \<Rightarrow> nat list \<Rightarrow> pyexn + pystr \<times> int \<times> (pystr \<times> decimal) list" where
  "parse_ecb_rates host body =
     (case xml_attributes host body of
        None \<Rightarrow> Inl (calc ''E_PROVIDER'' (u ''Currency rate response is invalid.''))
      | Some elements \<Rightarrow>
          rbind (rfold (element_rate host) elements (None, [(u ''EUR'', DecFin False 1 0)])) (\<lambda>(date, found).
          (case date of
             None \<Rightarrow> Inl (calc ''E_PROVIDER'' (u ''Currency rate date is missing.''))
           | Some text \<Rightarrow>
               rbind (parse_rate_date host text) (\<lambda>day.
               demand (MINIMUM_RATE_COUNT \<le> length found)
                 (calc ''E_PROVIDER'' (u ''Currency rate response is incomplete.'')) (Inr (text, day, found))))))"

text \<open>
  What a request to the provider comes to: an exception of the opener, or the body (at most one byte over
  the limit is read) and the header \<^verbatim>\<open>Last-Modified\<close>.
\<close>

datatype provider_reply = Unreachable pyexn | Reply "nat list" "pystr option"

definition fetch :: "rate_host \<Rightarrow> instant \<Rightarrow> provider_reply \<Rightarrow> pyexn + rate_snapshot" where
  "fetch host now reply =
     (case reply of
        Unreachable e \<Rightarrow> Inl e
      | Reply body last_modified \<Rightarrow>
          demand (length body \<le> MAX_RESPONSE_BYTES) (calc ''E_PROVIDER'' (u ''Currency rate response is too large.''))
            (rbind (parse_ecb_rates host body) (\<lambda>(date, day, found).
             rbind (fresh_until host day now) (\<lambda>expires.
             rbind (in_range (now + REFRESH_RETRY_INTERVAL)) (\<lambda>next.
               Inr \<lparr>rate_date = date, published_at = http_datetime host last_modified, checked_at = now,
                    expires_at = expires, next_refresh_attempt_at = next, rates = found\<rparr>)))))"

section \<open>The cache\<close>

text \<open>
  The cache file is what \<^verbatim>\<open>json.loads\<close> reads from it, or \<open>None\<close> when it is missing, a link, unreadable, too
  large or no JSON.
\<close>

definition cached_rate :: "rate_host \<Rightarrow> pystr \<times> pyval \<Rightarrow> (pystr \<times> decimal) list \<Rightarrow> pyexn + (pystr \<times> decimal) list" where
  "cached_rate host item found =
     (case item of (currency, value) \<Rightarrow>
        demand (length currency = 3 \<and> is_str value) (calc ''E_PROVIDER'' (u ''Currency rate cache is invalid.''))
          (rbind (decimal_or_invalid host (str_val value)) (\<lambda>parsed.
             demand (positive_rate parsed) (calc ''E_PROVIDER'' (u ''Currency rate cache is invalid.''))
               (Inr (AList.update currency parsed found)))))"

definition euro_is_one :: "(pystr \<times> decimal) list \<Rightarrow> bool" where
  "euro_is_one found \<longleftrightarrow> (case map_of found (u ''EUR'') of None \<Rightarrow> False | Some d \<Rightarrow> dec_value d = Some 1)"

definition snapshot_from_json :: "rate_host \<Rightarrow> pyval \<Rightarrow> pyexn + rate_snapshot" where
  "snapshot_from_json host payload =
     (let invalid = calc ''E_PROVIDER'' (u ''Currency rate cache is invalid.''); d = dict_val payload in
      demand (is_dict payload) invalid
     (demand (py_eq (dget_none d (u ''version'')) (VInt 1)) invalid
     (demand (py_eq (dget_none d (u ''provider'')) (VStr (u ''ECB''))) invalid
     (demand (is_str (dget_none d (u ''rateDate''))) invalid
     (demand (is_dict (dget_none d (u ''rates''))) invalid
     (rbind (parse_rate_date host (str_val (dget_none d (u ''rateDate'')))) (\<lambda>day.
      rbind (rfold (cached_rate host) (dict_val (dget_none d (u ''rates''))) []) (\<lambda>found.
      demand (euro_is_one found \<and> MINIMUM_RATE_COUNT \<le> length found)
        (calc ''E_PROVIDER'' (u ''Currency rate cache is incomplete.''))
     (rbind (parse_iso host (dget_none d (u ''checkedAt''))) (\<lambda>checked.
      rbind (parse_iso host (dget_none d (u ''expiresAt''))) (\<lambda>stored.
      rbind (parse_iso_optional host (dget_none d (u ''publishedAt''))) (\<lambda>published.
      rbind (fresh_until host day checked) (\<lambda>expires.
      rbind (parse_iso_optional host (dget_none d (u ''nextRefreshAttemptAt''))) (\<lambda>next.
        Inr \<lparr>rate_date = str_val (dget_none d (u ''rateDate'')), published_at = published, checked_at = checked,
             expires_at = min stored expires,
             next_refresh_attempt_at = (case next of Some t \<Rightarrow> t | None \<Rightarrow> checked), rates = found\<rparr>))))))))))))))"

definition snapshot_json :: "rate_host \<Rightarrow> rate_snapshot \<Rightarrow> pydict" where
  "snapshot_json host s =
     [(u ''version'', VInt 1), (u ''provider'', VStr (u ''ECB'')), (u ''rateDate'', VStr (rate_date s)),
      (u ''publishedAt'', iso_option host (published_at s)), (u ''checkedAt'', VStr (iso_text host (checked_at s))),
      (u ''expiresAt'', VStr (iso_text host (expires_at s))),
      (u ''nextRefreshAttemptAt'', VStr (iso_text host (next_refresh_attempt_at s))),
      (u ''rates'', VDict (map (\<lambda>(c, d). (c, VStr (decimal_str d))) (rates s)))]"

text \<open>The exceptions \<^verbatim>\<open>_load_cache\<close> treats as a missing cache; \<^verbatim>\<open>OverflowError\<close> is none of them.\<close>

fun cache_error :: "pyexn \<Rightarrow> bool" where
  "cache_error (CalcError _ _ _) = True"
| "cache_error (PyExn cls _) \<longleftrightarrow> cls \<in> {u ''InvalidOperation'', u ''OSError'', u ''ValueError'', u ''TypeError'', u ''JSONDecodeError''}"
| "cache_error _ = False"

definition load_cache :: "rate_host \<Rightarrow> pyval option \<Rightarrow> pyexn + rate_snapshot option" where
  "load_cache host file =
     (case file of None \<Rightarrow> Inr None
      | Some payload \<Rightarrow>
          (case snapshot_from_json host payload of
             Inr s \<Rightarrow> Inr (Some s)
           | Inl e \<Rightarrow> if cache_error e then Inr None else Inl e))"

text \<open>\<^verbatim>\<open>json.dump\<close> with \<^verbatim>\<open>ensure_ascii\<close> escapes every character outside the printable ASCII range.\<close>

definition escaped_length :: "nat \<Rightarrow> nat" where
  "escaped_length c = (if 32 \<le> c \<and> c \<le> 126 then 1 else if c < 65536 then 6 else 12)"

definition ascii_length :: "interp \<Rightarrow> pyval \<Rightarrow> nat" where
  "ascii_length py v = (case json_text py False True v of Inl _ \<Rightarrow> 0 | Inr t \<Rightarrow> sum_list (map escaped_length t))"

text \<open>\<open>written\<close> tells whether the operating system let the file be replaced; a failure is ignored.\<close>

definition save_cache :: "rate_host \<Rightarrow> bool \<Rightarrow> rate_snapshot \<Rightarrow> pyval option \<Rightarrow> pyval option" where
  "save_cache host written s file =
     (let payload = VDict (snapshot_json host s) in
      if \<not> written then file
      else if MAX_CACHE_BYTES < ascii_length (cache_python host) payload then None else Some payload)"

section \<open>Refreshing\<close>

text \<open>
  The part of \<^verbatim>\<open>ECBRateService\<close> that its condition guards, and the local variables of one call of
  \<^verbatim>\<open>_snapshot_for_conversion\<close>.
\<close>

record refresh_state =
  refreshing :: bool
  refresh_generation :: nat
  last_refresh_succeeded :: "bool option"
  next_attempt_at :: "instant option"

record rate_call =
  call_now :: instant
  call_force :: bool
  coalesced :: bool
  wait_started_generation :: "nat option"
  wait_deadline :: rat

text \<open>An answer is the snapshot, whether it was fetched, whether a refresh failed, whether one was deferred.\<close>

type_synonym rate_answer = "rate_snapshot \<times> bool \<times> bool \<times> bool"

datatype decision = Answer rate_answer | Unavailable | Wait | Lead

definition unavailable :: pyexn where
  "unavailable = calc ''E_PROVIDER'' (u ''Currency rates are unavailable. Try again.'')"

definition remember_attempt :: "rate_snapshot option \<Rightarrow> refresh_state \<Rightarrow> refresh_state" where
  "remember_attempt cached s =
     (case cached of None \<Rightarrow> s
      | Some c \<Rightarrow>
          s\<lparr>next_attempt_at := Some (max (next_refresh_attempt_at c)
              (case next_attempt_at s of None \<Rightarrow> next_refresh_attempt_at c | Some t \<Rightarrow> t))\<rparr>)"

text \<open>One pass of the loop under the condition, at the monotonic time \<open>clock\<close>.\<close>

definition coalesced_answer :: "rate_call \<Rightarrow> rate_snapshot \<Rightarrow> refresh_state \<Rightarrow> rate_answer" where
  "coalesced_answer call c s =
     (let completed = (case wait_started_generation call of None \<Rightarrow> False | Some g \<Rightarrow> g < refresh_generation s);
          succeeded = (completed \<and> last_refresh_succeeded s = Some True);
          failed = (completed \<and> last_refresh_succeeded s = Some False) in
      (c, False, failed, \<not> succeeded \<and> \<not> failed \<and> call_now call < next_refresh_attempt_at c))"

definition enter_refresh ::
  "rat \<Rightarrow> rate_call \<Rightarrow> rate_snapshot option \<Rightarrow> refresh_state \<Rightarrow> decision \<times> rate_call \<times> refresh_state" where
  "enter_refresh clock call cached s0 =
     (let s = remember_attempt cached s0 in
      if refreshing s then
        (if wait_deadline call - clock \<le> 0 then
           ((case cached of Some c \<Rightarrow> Answer (c, False, True, True) | None \<Rightarrow> Unavailable), call, s)
         else
           (Wait, (if coalesced call then call else call\<lparr>wait_started_generation := Some (refresh_generation s)\<rparr>), s))
      else if coalesced call \<and> cached \<noteq> None then (Answer (coalesced_answer call (the cached) s), call, s)
      else if cached \<noteq> None \<and> \<not> call_force call \<and> call_now call < expires_at (the cached)
      then (Answer (the cached, False, False, False), call, s)
      else
        (let next_attempt = (case cached of Some c \<Rightarrow> Some (next_refresh_attempt_at c) | None \<Rightarrow> next_attempt_at s) in
         if \<not> call_force call \<and> (case next_attempt of None \<Rightarrow> False | Some t \<Rightarrow> call_now call < t) then
           ((case cached of None \<Rightarrow> Unavailable | Some c \<Rightarrow> Answer (c, False, False, True)), call, s)
         else (Lead, call, s\<lparr>refreshing := True\<rparr>)))"

text \<open>
  What the leader makes of its fetch: its result, the snapshot it saves, the time of the next attempt it
  publishes and whether it succeeded; then the \<^verbatim>\<open>finally\<close> block.
\<close>

definition lead ::
  "instant \<Rightarrow> rate_snapshot option \<Rightarrow> pyexn + rate_snapshot
    \<Rightarrow> (pyexn + rate_answer) \<times> rate_snapshot option \<times> instant option \<times> bool" where
  "lead now cached fetched =
     (case fetched of
        Inr s \<Rightarrow> (Inr (s, True, False, False), Some s, Some (next_refresh_attempt_at s), True)
      | Inl _ \<Rightarrow>
          (case in_range (now + REFRESH_RETRY_INTERVAL) of
             Inl e \<Rightarrow> (Inl e, None, None, False)
           | Inr next \<Rightarrow>
               (case cached of
                  None \<Rightarrow> (Inl unavailable, None, Some next, False)
                | Some c \<Rightarrow>
                    (let s = c\<lparr>next_refresh_attempt_at := next\<rparr> in (Inr (s, False, True, False), Some s, Some next, False)))))"

definition finish_refresh :: "instant option \<Rightarrow> bool \<Rightarrow> refresh_state \<Rightarrow> refresh_state" where
  "finish_refresh published succeeded s =
     s\<lparr>next_attempt_at := (case published of None \<Rightarrow> next_attempt_at s | Some t \<Rightarrow> Some t),
       refresh_generation := Suc (refresh_generation s), last_refresh_succeeded := Some succeeded, refreshing := False\<rparr>"

text \<open>
  A call that meets no other: the loop is passed once, and a leader fetches, saves and finishes. With the
  state and the file it leaves behind.
\<close>

definition snapshot_alone ::
  "rate_host \<Rightarrow> rate_call \<Rightarrow> provider_reply \<Rightarrow> bool \<Rightarrow> refresh_state \<times> pyval option
    \<Rightarrow> (pyexn + rate_answer) \<times> refresh_state \<times> pyval option" where
  "snapshot_alone host call reply written st =
     (case st of (s, file) \<Rightarrow>
        (case load_cache host file of
           Inl e \<Rightarrow> (Inl e, s, file)
         | Inr cached \<Rightarrow>
             (case enter_refresh 0 call cached s of
                (Answer a, _, s') \<Rightarrow> (Inr a, s', file)
              | (Lead, _, s') \<Rightarrow>
                  (case lead (call_now call) cached (fetch host (call_now call) reply) of
                     (result, saved, published, succeeded) \<Rightarrow>
                       (result, finish_refresh published succeeded s',
                        case saved of None \<Rightarrow> file | Some snapshot \<Rightarrow> save_cache host written snapshot file))
              | (_, _, s') \<Rightarrow> (Inl unavailable, s', file))))"

section \<open>Conversion\<close>

definition ascii_letter :: "nat \<Rightarrow> bool" where
  "ascii_letter c \<longleftrightarrow> (65 \<le> c \<and> c \<le> 90) \<or> (97 \<le> c \<and> c \<le> 122)"

definition currency_code :: "rate_host \<Rightarrow> pydict \<Rightarrow> pystr \<Rightarrow> pyexn + pystr" where
  "currency_code host arguments key =
     rbind (string_arg arguments key VNone 3) (\<lambda>text.
       (let value = upper_text host text in
        demand (length value = 3 \<and> list_all ascii_letter value)
          (calc ''E_INPUT'' (key @ u '' must be a three-letter currency code'')) (Inr value)))"

definition decimal_value :: "rate_host \<Rightarrow> pystr \<Rightarrow> pyexn + decimal" where
  "decimal_value host s =
     (case decimal_of_text (numerals host) s of
        None \<Rightarrow> Inl (calc ''E_INPUT'' (u ''value must be decimal text''))
      | Some d \<Rightarrow> demand (dec_value d \<noteq> None) (calc ''E_INPUT'' (u ''value must be finite decimal text'')) (Inr d))"

definition strip_right :: "nat \<Rightarrow> pystr \<Rightarrow> pystr" where
  "strip_right c s = rev (dropWhile (\<lambda>x. x = c) (rev s))"

definition decimal_text :: "decimal \<Rightarrow> nat \<Rightarrow> pystr" where
  "decimal_text d precision =
     (let text = general_text precision d;
          text = (if 101 \<notin> set text \<and> 46 \<in> set text then strip_right 46 (strip_right 48 text) else text) in
      if dec_value d = Some 0 \<or> text \<in> {u ''-0'', []} then u ''0'' else text)"

record conversion =
  amount_text :: pystr
  amount :: decimal
  from_currency :: pystr
  to_currency :: pystr
  conversion_precision :: int
  force_refresh :: bool

definition read_conversion :: "rate_host \<Rightarrow> pydict \<Rightarrow> pyexn + conversion" where
  "read_conversion host arguments =
     rbind (string_arg arguments (u ''value'') VNone 128) (\<lambda>value.
     rbind (currency_code host arguments (u ''fromCurrency'')) (\<lambda>source.
     rbind (currency_code host arguments (u ''toCurrency'')) (\<lambda>target.
     rbind (integer_arg arguments (u ''precision'') 12 2 16) (\<lambda>precision.
     rbind (case dget arguments (u ''forceRefresh'') (VBool False) of VBool b \<Rightarrow> Inr b
            | _ \<Rightarrow> Inl (calc ''E_INPUT'' (u ''forceRefresh must be a boolean''))) (\<lambda>force.
     rbind (decimal_value host value) (\<lambda>d.
       Inr \<lparr>amount_text = value, amount = d, from_currency = source, to_currency = target,
            conversion_precision = precision, force_refresh = force\<rparr>))))))"

definition converted :: "conversion \<Rightarrow> decimal \<Rightarrow> decimal \<Rightarrow> pyexn + decimal" where
  "converted c source target =
     (let prec = nat (max (conversion_precision c + 12) 32) in
      rbind (dec_divide HalfEven prec (amount c) source) (\<lambda>q. dec_times HalfEven prec q target))"

definition rate_warnings :: "bool \<Rightarrow> bool \<Rightarrow> pyval list" where
  "rate_warnings failed deferred =
     VStr (u ''ECB reference rates are for information only and are not transaction quotes.'')
     # (if failed then [VStr (u ''The latest refresh failed; a cached rate is being used.'')]
        else if deferred then
          [VStr (u ''The rate is expired; the next automatic refresh attempt is deferred to avoid repeated provider requests.'')]
        else [])"

definition convert_answer :: "rate_host \<Rightarrow> conversion \<Rightarrow> instant \<Rightarrow> rate_answer \<Rightarrow> pyexn + pydict" where
  "convert_answer host c now answer =
     (case answer of (s, fetched, failed, deferred) \<Rightarrow>
        (case map_of (rates s) (from_currency c) of
           None \<Rightarrow> Inl (calc ''E_CURRENCY'' (u ''currency is not available from ECB: '' @ from_currency c))
         | Some source \<Rightarrow>
        (case map_of (rates s) (to_currency c) of
           None \<Rightarrow> Inl (calc ''E_CURRENCY'' (u ''currency is not available from ECB: '' @ to_currency c))
         | Some target \<Rightarrow>
            rbind (converted c source target) (\<lambda>d.
              Inr [(u ''status'', VStr (u ''ok'')), (u ''operation'', VStr (u ''currency.convert'')),
                   (u ''kind'', VStr (u ''currency'')), (u ''exact'', VNone),
                   (u ''approx'', VStr (decimal_text d (nat (conversion_precision c)))),
                   (u ''precision'', VInt (conversion_precision c)), (u ''unit'', VStr (to_currency c)),
                   (u ''from'', VDict [(u ''value'', VStr (amount_text c)), (u ''currency'', VStr (from_currency c))]),
                   (u ''rate'', VDict
                     [(u ''sourceName'', VStr (u ''European Central Bank'')), (u ''sourceShortName'', VStr (u ''ECB'')),
                      (u ''sourceURL'', VStr (u ''https://www.ecb.europa.eu/stats/policy_and_exchange_rates/euro_reference_exchange_rates/html/index.en.html'')),
                      (u ''rateDate'', VStr (rate_date s)), (u ''publishedAt'', iso_option host (published_at s)),
                      (u ''checkedAt'', VStr (iso_text host (checked_at s))),
                      (u ''expiresAt'', VStr (iso_text host (expires_at s))),
                      (u ''nextRefreshAttemptAt'', VStr (iso_text host (next_refresh_attempt_at s))),
                      (u ''state'', VStr (if expires_at s \<le> now then u ''expired'' else u ''current'')),
                      (u ''isCached'', VBool (\<not> fetched)), (u ''refreshFailed'', VBool failed),
                      (u ''refreshDeferred'', VBool deferred)]),
                   (u ''warnings'', VList (rate_warnings failed deferred))]))))"

text \<open>The whole of \<^verbatim>\<open>convert\<close>, given what the coordination of the refresh answers.\<close>

definition convert :: "rate_host \<Rightarrow> (bool \<Rightarrow> pyexn + rate_answer) \<Rightarrow> instant \<Rightarrow> pydict \<Rightarrow> pyexn + pydict" where
  "convert host snapshot_for now arguments =
     rbind (read_conversion host arguments) (\<lambda>c.
     rbind (snapshot_for (force_refresh c)) (convert_answer host c now))"

section \<open>Concurrent conversions\<close>

text \<open>
  Several threads convert with one service, and other processes write the same file. \<open>phases\<close> says where
  each thread is: about to read the file, about to enter the condition with what it read, asleep in it, or
  leading: fetching, about to save what \<open>lead\<close> made of it, about to run the \<^verbatim>\<open>finally\<close> block.
\<close>

datatype rate_phase =
    Idle
  | Reading rate_call
  | Entering rate_call "rate_snapshot option"
  | Sleeping rate_call
  | Fetching rate_call "rate_snapshot option"
  | Saving rate_call rate_snapshot "pyexn + rate_answer" "instant option" bool
  | Finishing rate_call "pyexn + rate_answer" "instant option" bool
  | Done rate_call "pyexn + rate_answer"

record rate_system =
  refresh :: refresh_state
  cache_file :: "pyval option"
  phases :: "nat \<Rightarrow> rate_phase"

definition move :: "nat \<Rightarrow> rate_phase \<Rightarrow> rate_system \<Rightarrow> rate_system" where
  "move t p s = s\<lparr>phases := (phases s)(t := p)\<rparr>"

definition new_call :: "instant \<Rightarrow> bool \<Rightarrow> rat \<Rightarrow> rate_call" where
  "new_call now force deadline =
     \<lparr>call_now = now, call_force = force, coalesced = False, wait_started_generation = None, wait_deadline = deadline\<rparr>"

definition enter_phase :: "rate_call \<Rightarrow> rate_snapshot option \<Rightarrow> decision \<Rightarrow> rate_phase" where
  "enter_phase call cached d =
     (case d of Answer a \<Rightarrow> Done call (Inr a) | Unavailable \<Rightarrow> Done call (Inl unavailable)
      | Wait \<Rightarrow> Sleeping call | Lead \<Rightarrow> Fetching call cached)"

datatype rate_event = Start nat instant bool rat | Load nat | Enter nat rat | Wake nat | Fetched nat provider_reply
  | Save nat bool | Finish nat | ExternalWrite "pyval option"

inductive rate_step :: "rate_host \<Rightarrow> rate_system \<Rightarrow> rate_event \<Rightarrow> rate_system \<Rightarrow> bool" for host where
  start: "phases s t = Idle \<or> phases s t = Done c r \<Longrightarrow>
    rate_step host s (Start t now force deadline) (move t (Reading (new_call now force deadline)) s)"
| load: "phases s t = Reading c \<Longrightarrow>
    rate_step host s (Load t) (move t (case load_cache host (cache_file s) of Inl e \<Rightarrow> Done c (Inl e) | Inr cached \<Rightarrow> Entering c cached) s)"
| enter: "phases s t = Entering c cached \<Longrightarrow> enter_refresh clock c cached (refresh s) = (d, c', r) \<Longrightarrow>
    rate_step host s (Enter t clock) (move t (enter_phase c' cached d) (s\<lparr>refresh := r\<rparr>))"
| wake: "phases s t = Sleeping c \<Longrightarrow> rate_step host s (Wake t) (move t (Reading (c\<lparr>coalesced := True\<rparr>)) s)"
| fetched: "phases s t = Fetching c cached \<Longrightarrow>
    lead (call_now c) cached (fetch host (call_now c) reply) = (result, saved, published, succeeded) \<Longrightarrow>
    rate_step host s (Fetched t reply)
      (move t (case saved of Some snapshot \<Rightarrow> Saving c snapshot result published succeeded
               | None \<Rightarrow> Finishing c result published succeeded) s)"
| save: "phases s t = Saving c snapshot result published succeeded \<Longrightarrow>
    rate_step host s (Save t written)
      (move t (Finishing c result published succeeded) (s\<lparr>cache_file := save_cache host written snapshot (cache_file s)\<rparr>))"
| finish: "phases s t = Finishing c result published succeeded \<Longrightarrow>
    rate_step host s (Finish t) (move t (Done c result) (s\<lparr>refresh := finish_refresh published succeeded (refresh s)\<rparr>))"
| external_write: "rate_step host s (ExternalWrite file) (s\<lparr>cache_file := file\<rparr>)"

definition rate_init :: "rate_system \<Rightarrow> bool" where
  "rate_init s \<longleftrightarrow> refresh s = \<lparr>refreshing = False, refresh_generation = 0, last_refresh_succeeded = None, next_attempt_at = None\<rparr>
     \<and> (\<forall>t. phases s t = Idle)"

section \<open>What every snapshot satisfies\<close>

definition snapshot_ok :: "rate_snapshot \<Rightarrow> bool" where
  "snapshot_ok s \<longleftrightarrow>
     list_all (\<lambda>cd. positive_rate (snd cd)) (rates s) \<and> distinct (map fst (rates s)) \<and> u ''EUR'' \<in> set (map fst (rates s))
     \<and> MINIMUM_RATE_COUNT \<le> length (rates s) \<and> expires_at s \<le> checked_at s + CACHE_MAX_AGE"

definition rates_ok :: "(pystr \<times> decimal) list \<Rightarrow> bool" where
  "rates_ok found \<longleftrightarrow> list_all (\<lambda>cd. positive_rate (snd cd)) found \<and> distinct (map fst found)"

lemma rates_ok_update: "rates_ok found \<Longrightarrow> positive_rate d \<Longrightarrow> rates_ok (AList.update c d found)"
proof -
  assume "rates_ok found" "positive_rate d"
  moreover have "set (AList.update c d found) \<subseteq> insert (c, d) (set found)" by (induction found) auto
  ultimately show ?thesis by (auto simp: rates_ok_def list_all_iff distinct_update)
qed

lemma fresh_until_Inr:
  "fresh_until host day checked = Inr t \<Longrightarrow> t \<le> checked + CACHE_MAX_AGE"
  by (auto simp: fresh_until_def in_range_def rbind_eq_Inr demand_eq_Inr)

lemma parse_ecb_rates_ok:
  assumes "parse_ecb_rates host body = Inr (date, day, found)"
  shows "rates_ok found \<and> u ''EUR'' \<in> set (map fst found) \<and> MINIMUM_RATE_COUNT \<le> length found"
proof -
  obtain elements seen where fold: "rfold (element_rate host) elements (None, [(u ''EUR'', DecFin False 1 0)]) = Inr (seen, found)"
    and enough: "MINIMUM_RATE_COUNT \<le> length found"
    using assms by (auto simp: parse_ecb_rates_def rbind_eq_Inr demand_eq_Inr split: option.splits)
  have euro_ok: "rates_ok [(u ''EUR'', DecFin False (Suc 0) 0)]" by (simp add: rates_ok_def positive_rate_def)
  have "(\<lambda>s. rates_ok (snd s) \<and> u ''EUR'' \<in> set (map fst (snd s))) (seen, found)"
    by (rule rfold_invariant [OF fold])
      (auto simp: euro_ok element_rate_def Let_def demand_eq_Inr dom_update rates_ok_update split: if_splits option.splits)
  with enough show ?thesis by simp
qed

lemma fetch_ok:
  assumes "fetch host now reply = Inr s"
  shows "snapshot_ok s \<and> checked_at s = now \<and> next_refresh_attempt_at s = now + REFRESH_RETRY_INTERVAL"
  using assms
  by (auto simp: fetch_def snapshot_ok_def demand_eq_Inr rbind_eq_Inr in_range_def dest!: parse_ecb_rates_ok
      dest: fresh_until_Inr simp: rates_ok_def split: provider_reply.splits)

lemma cached_rates_ok:
  assumes "rfold (cached_rate host) items [] = Inr found" shows "rates_ok found"
  by (rule rfold_invariant [OF assms])
    (auto simp: cached_rate_def demand_eq_Inr rbind_eq_Inr rates_ok_update, simp add: rates_ok_def)

lemma snapshot_from_json_ok:
  assumes "snapshot_from_json host payload = Inr s"
  shows "snapshot_ok s \<and> euro_is_one (rates s)"
proof -
  obtain items found day checked stored expires where fold: "rfold (cached_rate host) items [] = Inr found"
    and euro: "euro_is_one found" "MINIMUM_RATE_COUNT \<le> length found"
    and expiry: "fresh_until host day checked = Inr expires"
    and s: "rates s = found" "checked_at s = checked" "expires_at s = min stored expires"
    using assms by (auto simp: snapshot_from_json_def Let_def demand_eq_Inr rbind_eq_Inr)
  have "u ''EUR'' \<in> set (map fst found)" using euro(1) by (auto simp: euro_is_one_def dest!: map_of_SomeD split: option.splits intro: rev_image_eqI)
  then show ?thesis
    using cached_rates_ok [OF fold] fresh_until_Inr [OF expiry] euro s by (auto simp: snapshot_ok_def rates_ok_def)
qed

lemma load_cache_ok: "load_cache host file = Inr (Some s) \<Longrightarrow> snapshot_ok s"
  using snapshot_from_json_ok by (fastforce simp: load_cache_def split: option.splits sum.splits if_splits)

section \<open>One refresh at a time, and honest answers\<close>

fun leading :: "rate_phase \<Rightarrow> bool" where
  "leading (Fetching _ _) = True"
| "leading (Saving _ _ _ _ _) = True"
| "leading (Finishing _ _ _ _) = True"
| "leading _ = False"

definition single_flight :: "rate_system \<Rightarrow> bool" where
  "single_flight s \<longleftrightarrow> (refreshing (refresh s) \<longleftrightarrow> (\<exists>t. leading (phases s t)))
     \<and> (\<forall>t t'. leading (phases s t) \<and> leading (phases s t') \<longrightarrow> t = t')"

text \<open>
  What an answer says is true: a fetched one was checked by this call, and an old one that reports no
  trouble is current, unless the call waited for the refresh of another.
\<close>

definition honest :: "rate_call \<Rightarrow> pyexn + rate_answer \<Rightarrow> bool" where
  "honest c r \<longleftrightarrow>
     (case r of Inl _ \<Rightarrow> True
      | Inr (s, fetched, failed, deferred) \<Rightarrow>
          snapshot_ok s \<and> (fetched \<longrightarrow> checked_at s = call_now c \<and> \<not> failed \<and> \<not> deferred)
          \<and> (\<not> fetched \<and> \<not> failed \<and> \<not> deferred \<and> \<not> coalesced c \<longrightarrow> \<not> call_force c \<and> call_now c < expires_at s)
          \<and> (deferred \<and> \<not> failed \<longrightarrow> call_now c < next_refresh_attempt_at s))"

fun phase_ok :: "rate_phase \<Rightarrow> bool" where
  "phase_ok (Entering c cached) = (\<forall>s. cached = Some s \<longrightarrow> snapshot_ok s)"
| "phase_ok (Fetching c cached) = (\<forall>s. cached = Some s \<longrightarrow> snapshot_ok s)"
| "phase_ok (Saving c s r _ _) = (snapshot_ok s \<and> honest c r)"
| "phase_ok (Finishing c r _ _) = honest c r"
| "phase_ok (Done c r) = honest c r"
| "phase_ok _ = True"

definition rate_inv :: "rate_system \<Rightarrow> bool" where
  "rate_inv s \<longleftrightarrow> single_flight s \<and> (\<forall>t. phase_ok (phases s t))"

lemma rate_inv_move:
  assumes "rate_inv s" and "leading p = leading (phases s t)" and "phase_ok p" and "refreshing r = refreshing (refresh s)"
  shows "rate_inv (move t p (s\<lparr>refresh := r, cache_file := f\<rparr>))"
proof -
  have same: "leading (phases (move t p (s\<lparr>refresh := r, cache_file := f\<rparr>)) x) = leading (phases s x)" for x
    using assms(2) by (simp add: move_def)
  have "phase_ok (phases (move t p (s\<lparr>refresh := r, cache_file := f\<rparr>)) x)" for x
    using assms(1,3) by (simp add: move_def rate_inv_def)
  then show ?thesis using assms(1,4) unfolding rate_inv_def single_flight_def same by (simp add: move_def)
qed

lemma rate_inv_moved:
  assumes "rate_inv s" and "phases s t = p'" and "leading p = leading p'" and "phase_ok p' \<Longrightarrow> phase_ok p"
  shows "rate_inv (move t p s)" and "rate_inv (move t p (s\<lparr>cache_file := f\<rparr>))"
    and "refreshing r = refreshing (refresh s) \<Longrightarrow> rate_inv (move t p (s\<lparr>refresh := r\<rparr>))"
proof -
  have "phase_ok p" using assms(1,2,4) by (auto simp: rate_inv_def)
  note moved = rate_inv_move [OF assms(1) _ this, of t]
  show "rate_inv (move t p s)" "rate_inv (move t p (s\<lparr>cache_file := f\<rparr>))"
    "refreshing r = refreshing (refresh s) \<Longrightarrow> rate_inv (move t p (s\<lparr>refresh := r\<rparr>))"
    using moved [of "refresh s" "cache_file s"] moved [of "refresh s" f] moved [of r "cache_file s"] assms(2,3) by simp_all
qed

lemma remember_attempt_keeps [simp]:
  "refreshing (remember_attempt cached r) = refreshing r" "refresh_generation (remember_attempt cached r) = refresh_generation r"
  "last_refresh_succeeded (remember_attempt cached r) = last_refresh_succeeded r"
  "remember_attempt None r = r"
  by (simp_all add: remember_attempt_def split: option.splits)

lemma enter_refresh_cases:
  assumes "enter_refresh clock c cached r = (d, c', r')"
  obtains (answer) a where "d = Answer a" "c' = c" "refreshing r' = refreshing r"
  | (none) "d = Unavailable" "c' = c" "refreshing r' = refreshing r"
  | (wait) "d = Wait" "refreshing r" "refreshing r'"
  | (lead) "d = Lead" "c' = c" "\<not> refreshing r" "refreshing r'"
proof (cases d)
  case (Answer a)
  then show thesis using assms by (intro answer) (auto simp: enter_refresh_def Let_def split: if_splits option.splits)
next
  case Unavailable
  then show thesis using assms by (intro none) (auto simp: enter_refresh_def Let_def split: if_splits option.splits)
next
  case Wait
  then show thesis using assms by (intro wait) (auto simp: enter_refresh_def Let_def split: if_splits option.splits)
next
  case Lead
  then show thesis using assms by (intro lead) (auto simp: enter_refresh_def Let_def split: if_splits option.splits)
qed

lemma enter_refresh_answer:
  assumes "enter_refresh clock c cached r = (Answer a, c', r')"
  obtains s where "cached = Some s" and "c' = c"
    and "a = (s, False, True, True) \<or> coalesced c \<and> a = coalesced_answer c s (remember_attempt cached r)
      \<or> a = (s, False, False, False) \<and> \<not> call_force c \<and> call_now c < expires_at s
      \<or> a = (s, False, False, True) \<and> call_now c < next_refresh_attempt_at s"
  using assms by (cases cached) (auto simp: enter_refresh_def Let_def split: if_splits)

lemma enter_refresh_honest:
  assumes "enter_refresh clock c cached r = (Answer a, c', r')" and "\<forall>s. cached = Some s \<longrightarrow> snapshot_ok s"
  shows "honest c' (Inr a)"
proof -
  obtain s where s: "cached = Some s" "c' = c"
    "a = (s, False, True, True) \<or> coalesced c \<and> a = coalesced_answer c s (remember_attempt cached r)
      \<or> a = (s, False, False, False) \<and> \<not> call_force c \<and> call_now c < expires_at s
      \<or> a = (s, False, False, True) \<and> call_now c < next_refresh_attempt_at s"
    using enter_refresh_answer [OF assms(1)] .
  then have "snapshot_ok s" using assms(2) by simp
  with s show ?thesis by (elim disjE conjE) (simp_all add: honest_def coalesced_answer_def Let_def)
qed

lemma lead_honest:
  assumes "lead (call_now c) cached (fetch host (call_now c) reply) = (r, saved, published, succeeded)"
    and "\<forall>s. cached = Some s \<longrightarrow> snapshot_ok s"
  shows "honest c r" and "saved = Some s \<Longrightarrow> snapshot_ok s"
  using assms fetch_ok [of host "call_now c" reply]
  by (auto simp: lead_def honest_def Let_def snapshot_ok_def split: sum.splits option.splits)

lemma rate_step_inv:
  assumes "rate_inv s" and "rate_step host s e s'" shows "rate_inv s'"
  using assms(2)
proof cases
  case (start t c r now force deadline)
  then have "leading (phases s t) = False" by auto
  then show ?thesis using rate_inv_moved(1) [OF assms(1) refl, of "Reading (new_call now force deadline)" t] start by simp
next
  case (load t c)
  have "phase_ok (case load_cache host (cache_file s) of Inl e \<Rightarrow> Done c (Inl e) | Inr cached \<Rightarrow> Entering c cached)"
    using load_cache_ok [of host "cache_file s"] by (auto simp: honest_def split: sum.splits)
  then show ?thesis unfolding load(2) by (intro rate_inv_moved(1) [OF assms(1) load(3)]) (simp_all split: sum.splits)
next
  case (enter t c cached clock d c' r)
  have ok: "\<forall>x. cached = Some x \<longrightarrow> snapshot_ok x" using assms(1) enter(3) by (metis phase_ok.simps(1) rate_inv_def)
  from enter(4) show ?thesis
  proof (cases rule: enter_refresh_cases)
    case (answer a)
    then have "honest c' (Inr a)" using enter_refresh_honest enter(4) ok by blast
    then show ?thesis using rate_inv_moved(3) [OF assms(1) enter(3), of "Done c' (Inr a)" r] answer enter(2) by (simp add: enter_phase_def)
  next
    case none
    then show ?thesis using rate_inv_moved(3) [OF assms(1) enter(3), of "Done c' (Inl unavailable)" r] enter(2)
      by (simp add: enter_phase_def honest_def)
  next
    case wait
    then show ?thesis using rate_inv_moved(3) [OF assms(1) enter(3), of "Sleeping c'" r] enter(2) by (simp add: enter_phase_def)
  next
    case lead
    then have "\<not> leading (phases s x)" for x using assms(1) by (auto simp: rate_inv_def single_flight_def)
    then show ?thesis using lead ok assms(1) by (simp add: enter(2) rate_inv_def single_flight_def enter_phase_def move_def)
  qed
next
  case (wake t c)
  then show ?thesis using rate_inv_moved(1) [OF assms(1) wake(3), of "Reading (c\<lparr>coalesced := True\<rparr>)"] by simp
next
  case (fetched t c cached reply r saved published succeeded)
  have ok: "\<forall>x. cached = Some x \<longrightarrow> snapshot_ok x" using assms(1) fetched(3) by (metis phase_ok.simps(2) rate_inv_def)
  show ?thesis unfolding fetched(2)
    by (rule rate_inv_moved(1) [OF assms(1) fetched(3)]) (use lead_honest [OF fetched(4) ok] in \<open>simp_all split: option.splits\<close>)
next
  case (save t c snapshot r published succeeded written)
  then show ?thesis using rate_inv_moved(2) [OF assms(1) save(3), of "Finishing c r published succeeded"] by simp
next
  case (finish t c r published succeeded)
  have "honest c r" using assms(1) finish(3) by (metis phase_ok.simps(4) rate_inv_def)
  moreover have "\<not> leading (phases s x)" if "x \<noteq> t" for x
    using assms(1) finish(3) that by (metis leading.simps(3) rate_inv_def single_flight_def)
  ultimately show ?thesis using assms(1) by (simp add: finish(2) rate_inv_def single_flight_def move_def finish_refresh_def)
next
  case (external_write written)
  then show ?thesis using assms(1) by (simp add: rate_inv_def single_flight_def)
qed

interpretation refresh_system: guarded_system rate_init "rate_step host" rate_inv for host
proof unfold_locales
  show "rate_inv s" if "rate_init s" for s using that by (simp add: rate_init_def rate_inv_def single_flight_def)
  show "rate_inv t" if "rate_inv s" "rate_step host s e t" for s e t using that by (rule rate_step_inv)
qed
definition seconds :: "instant \<Rightarrow> instant" where
  "seconds t = t - t mod 1000000"

definition whole_seconds :: "rate_snapshot \<Rightarrow> rate_snapshot" where
  "whole_seconds s = s\<lparr>published_at := map_option seconds (published_at s), checked_at := seconds (checked_at s),
     expires_at := seconds (expires_at s), next_refresh_attempt_at := seconds (next_refresh_attempt_at s)\<rparr>"


text \<open>
  C19: However conversions interleave and whatever other processes write, at most one thread refreshes,
  the service says that it refreshes exactly while one does, and every answer is honest: its rates are
  positive and complete and expire within a day of their check, a fetched snapshot was checked by this
  very call, a call that reports a deferred refresh came before the next attempt, and a call that reports
  no trouble and did not wait for another got rates that are still current.
\<close>

theorem refresh_single_and_honest:
  assumes "reach rate_init (rate_step host) s"
  shows "(refreshing (refresh s) \<longleftrightarrow> (\<exists>t. leading (phases s t)))
    \<and> (\<forall>t t'. leading (phases s t) \<and> leading (phases s t') \<longrightarrow> t = t')
    \<and> (\<forall>t c r. phases s t = Done c r \<longrightarrow> honest c r)"
proof -
  have inv: "rate_inv s" by (rule refresh_system.reach_inv [OF assms])
  then have "honest c r" if "phases s t = Done c r" for t c r
    using that by (metis phase_ok.simps(5) rate_inv_def)
  then show ?thesis using inv unfolding rate_inv_def single_flight_def by blast
qed

section \<open>Calls one after another\<close>

lemma enter_alone:
  assumes "\<not> refreshing s" and "\<not> coalesced call"
  shows "enter_refresh 0 call cached s =
    (if cached \<noteq> None \<and> \<not> call_force call \<and> call_now call < expires_at (the cached)
     then (Answer (the cached, False, False, False), call, remember_attempt cached s)
     else if \<not> call_force call \<and> (case (case cached of Some c \<Rightarrow> Some (next_refresh_attempt_at c) | None \<Rightarrow> next_attempt_at s) of
         None \<Rightarrow> False | Some t \<Rightarrow> call_now call < t)
     then ((case cached of None \<Rightarrow> Unavailable | Some c \<Rightarrow> Answer (c, False, False, True)), call, remember_attempt cached s)
     else (Lead, call, (remember_attempt cached s)\<lparr>refreshing := True\<rparr>))"
  using assms by (cases cached) (simp_all add: enter_refresh_def Let_def)

lemma alone_eq:
  assumes "\<not> refreshing s" and "\<not> coalesced call" and "load_cache host file = Inr cached"
  shows "snapshot_alone host call reply written (s, file) =
    (case fst (enter_refresh 0 call cached s) of
       Lead \<Rightarrow> (case lead (call_now call) cached (fetch host (call_now call) reply) of (r, saved, published, succeeded) \<Rightarrow>
         (r, finish_refresh published succeeded ((remember_attempt cached s)\<lparr>refreshing := True\<rparr>),
          case saved of None \<Rightarrow> file | Some snapshot \<Rightarrow> save_cache host written snapshot file))
     | Answer a \<Rightarrow> (Inr a, remember_attempt cached s, file)
     | _ \<Rightarrow> (Inl unavailable, remember_attempt cached s, file))"
  by (simp add: snapshot_alone_def assms(3) enter_alone [OF assms(1,2)] split: option.split)

text \<open>A call that leads is the only one that changes the generation.\<close>

lemma alone_generation:
  assumes "snapshot_alone host call reply written (s, file) = (r, s', file')" and "\<not> refreshing s" and "\<not> coalesced call"
    and "load_cache host file = Inr cached"
  shows "refresh_generation s' = refresh_generation s \<and> (fst (enter_refresh 0 call cached s) \<noteq> Lead)
    \<or> refresh_generation s' = Suc (refresh_generation s) \<and> fst (enter_refresh 0 call cached s) = Lead
      \<and> (\<exists>saved published succeeded. lead (call_now call) cached (fetch host (call_now call) reply) = (r, saved, published, succeeded)
         \<and> s' = finish_refresh published succeeded ((remember_attempt cached s)\<lparr>refreshing := True\<rparr>)
         \<and> file' = (case saved of None \<Rightarrow> file | Some snapshot \<Rightarrow> save_cache host written snapshot file))"
proof (cases "fst (enter_refresh 0 call cached s) = Lead")
  case True
  obtain result saved published succeeded where l: "lead (call_now call) cached (fetch host (call_now call) reply) = (result, saved, published, succeeded)"
    using prod_cases4 by blast
  then show ?thesis using assms(1) True unfolding alone_eq [OF assms(2-4)] by (auto simp: finish_refresh_def)
next
  case False
  then show ?thesis using assms(1) unfolding alone_eq [OF assms(2-4)]
    by (cases "fst (enter_refresh 0 call cached s)") auto
qed

lemma alone_not_refreshing:
  assumes "snapshot_alone host call reply written (s, file) = (r, s', file')" and "\<not> refreshing s" and "\<not> coalesced call"
  shows "\<not> refreshing s'"
proof (cases "load_cache host file")
  case (Inr cached)
  then show ?thesis
    using assms(1,2) unfolding alone_eq [OF assms(2,3) Inr]
    by (cases "fst (enter_refresh 0 call cached s)") (auto simp: finish_refresh_def split: prod.splits)
qed (use assms in \<open>simp add: snapshot_alone_def\<close>)

text \<open>What a conversion saves, the next conversion can read: the file is written and read back.\<close>

definition persists :: "rate_host \<Rightarrow> rate_snapshot \<Rightarrow> bool" where
  "persists host s \<longleftrightarrow>
     (\<forall>file. load_cache host (save_cache host True s file) = Inr (Some (whole_seconds s)))"

text \<open>
  After a call that fetched, successfully or not, no later unforced call fetches before the quarter of an
  hour is over, if what the first one wrote can be read back (as it can, for what the provider really answers).
\<close>

theorem refresh_spacing:
  assumes "snapshot_alone host c1 reply1 True (s, file) = (r1, s1, file1)"
    and "refresh_generation s1 \<noteq> refresh_generation s"
    and "snapshot_alone host c2 reply2 written2 (s1, file1) = (r2, s2, file2)"
    and "\<not> refreshing s" and "\<not> coalesced c1" and "\<not> coalesced c2" and "\<not> call_force c2"
    and "call_now c1 + REFRESH_RETRY_INTERVAL < MAX_ORDINAL * DAY" and "0 \<le> call_now c1"
    and "\<forall>x cached. fetch host (call_now c1) reply1 = Inr x \<or> load_cache host file = Inr (Some cached)
            \<and> x = cached\<lparr>next_refresh_attempt_at := call_now c1 + REFRESH_RETRY_INTERVAL\<rparr> \<longrightarrow> persists host x"
    and "call_now c2 < seconds (call_now c1 + REFRESH_RETRY_INTERVAL)"
  shows "refresh_generation s2 = refresh_generation s1"
proof -
  define next' where "next' = call_now c1 + REFRESH_RETRY_INTERVAL"
  have next': "in_range (call_now c1 + REFRESH_RETRY_INTERVAL) = Inr next'"
    using assms(8,9) by (simp add: in_range_def demand_eq_Inr next'_def REFRESH_RETRY_INTERVAL_def)
  obtain cached where cached: "load_cache host file = Inr cached"
    using assms(1,2) by (cases "load_cache host file") (auto simp: snapshot_alone_def)
  from alone_generation [OF assms(1,4,5) cached] assms(2)
  obtain saved published succeeded where led: "lead (call_now c1) cached (fetch host (call_now c1) reply1) = (r1, saved, published, succeeded)"
    and s1: "s1 = finish_refresh published succeeded ((remember_attempt cached s)\<lparr>refreshing := True\<rparr>)"
    and file1: "file1 = (case saved of None \<Rightarrow> file | Some snapshot \<Rightarrow> save_cache host True snapshot file)"
    by auto
  have quiet: "\<not> refreshing s1" by (simp add: s1 finish_refresh_def)
  have "\<exists>cached1. load_cache host file1 = Inr cached1 \<and>
      (case cached1 of Some c \<Rightarrow> next_refresh_attempt_at c = seconds next' | None \<Rightarrow> next_attempt_at s1 = Some next')"
  proof (cases "fetch host (call_now c1) reply1")
    case (Inr x)
    then have "saved = Some x" "next_refresh_attempt_at x = next'" using led fetch_ok [OF Inr] by (simp_all add: lead_def next'_def)
    moreover have "persists host x" using assms(10) Inr by blast
    ultimately show ?thesis by (simp add: file1 persists_def whole_seconds_def)
  next
    case (Inl e)
    show ?thesis
    proof (cases cached)
      case None
      then have "saved = None" "published = Some next'" using led by (simp_all add: lead_def Inl next')
      then show ?thesis using cached None by (simp add: file1 s1 finish_refresh_def)
    next
      case (Some c)
      then have "saved = Some (c\<lparr>next_refresh_attempt_at := next'\<rparr>)" using led by (auto simp: lead_def Inl next' Let_def)
      moreover have "persists host (c\<lparr>next_refresh_attempt_at := next'\<rparr>)" using assms(10) cached Some by (auto simp: next'_def)
      ultimately show ?thesis by (simp add: file1 persists_def whole_seconds_def)
    qed
  qed
  then obtain cached1 where cached1: "load_cache host file1 = Inr cached1"
    "case cached1 of Some c \<Rightarrow> next_refresh_attempt_at c = seconds next' | None \<Rightarrow> next_attempt_at s1 = Some next'" by blast
  have early: "call_now c2 < seconds next'" "call_now c2 < next'"
    using assms(11) pos_mod_sign [of 1000000 next'] by (simp_all add: next'_def seconds_def)
  have "fst (enter_refresh 0 c2 cached1 s1) \<noteq> Lead"
    using cached1(2) early assms(7) by (cases cached1) (auto simp: enter_alone [OF quiet assms(6)])
  then show ?thesis using alone_generation [OF assms(3) quiet assms(6) cached1(1)] by auto
qed

text \<open>
  When the cache cannot be written, nothing spaces the refreshes: the time of the next attempt is kept in
  memory, but with an old cache at hand nobody consults it, and every later call fetches again.
\<close>

theorem unwritable_cache_drops_backoff:
  assumes "snapshot_alone host c1 reply1 False (s, file) = (r1, s1, file1)"
    and "snapshot_alone host c2 reply2 written2 (s1, file1) = (r2, s2, file2)"
    and "\<not> refreshing s" and "\<not> coalesced c1" and "\<not> coalesced c2" and "load_cache host file = Inr (Some c)"
    and "expires_at c \<le> call_now c1" and "next_refresh_attempt_at c \<le> call_now c1" and "call_now c1 \<le> call_now c2"
  shows "refresh_generation s1 = Suc (refresh_generation s) \<and> refresh_generation s2 = Suc (refresh_generation s1)"
proof -
  have lead1: "fst (enter_refresh 0 c1 (Some c) s) = Lead"
    using assms(7,8) by (simp add: enter_alone [OF assms(3,4)])
  from alone_generation [OF assms(1,3,4,6)] lead1 have s1: "refresh_generation s1 = Suc (refresh_generation s)"
    and file1: "file1 = file" by (auto simp: save_cache_def split: option.splits)
  have quiet: "\<not> refreshing s1" using alone_not_refreshing [OF assms(1,3,4)] .
  have "fst (enter_refresh 0 c2 (Some c) s1) = Lead"
    using assms(7-9) by (simp add: enter_alone [OF quiet assms(5)])
  then show ?thesis using alone_generation [OF assms(2) quiet assms(5)] assms(6) s1 unfolding file1 by blast
qed

text \<open>The steps, executed.\<close>

definition rate_next :: "rate_host \<Rightarrow> rate_system \<Rightarrow> rate_event \<Rightarrow> rate_system option" where
  "rate_next host s e =
     (case e of
        Start t now force deadline \<Rightarrow>
          (case phases s t of Idle \<Rightarrow> Some (move t (Reading (new_call now force deadline)) s)
           | Done _ _ \<Rightarrow> Some (move t (Reading (new_call now force deadline)) s) | _ \<Rightarrow> None)
      | Load t \<Rightarrow>
          (case phases s t of
             Reading c \<Rightarrow> Some (move t (case load_cache host (cache_file s) of Inl e \<Rightarrow> Done c (Inl e) | Inr cached \<Rightarrow> Entering c cached) s)
           | _ \<Rightarrow> None)
      | Enter t clock \<Rightarrow>
          (case phases s t of
             Entering c cached \<Rightarrow>
               (case enter_refresh clock c cached (refresh s) of (d, c', r) \<Rightarrow> Some (move t (enter_phase c' cached d) (s\<lparr>refresh := r\<rparr>)))
           | _ \<Rightarrow> None)
      | Wake t \<Rightarrow> (case phases s t of Sleeping c \<Rightarrow> Some (move t (Reading (c\<lparr>coalesced := True\<rparr>)) s) | _ \<Rightarrow> None)
      | Fetched t reply \<Rightarrow>
          (case phases s t of
             Fetching c cached \<Rightarrow>
               (case lead (call_now c) cached (fetch host (call_now c) reply) of (result, saved, published, succeeded) \<Rightarrow>
                  Some (move t (case saved of Some snapshot \<Rightarrow> Saving c snapshot result published succeeded
                                | None \<Rightarrow> Finishing c result published succeeded) s))
           | _ \<Rightarrow> None)
      | Save t written \<Rightarrow>
          (case phases s t of
             Saving c snapshot result published succeeded \<Rightarrow>
               Some (move t (Finishing c result published succeeded) (s\<lparr>cache_file := save_cache host written snapshot (cache_file s)\<rparr>))
           | _ \<Rightarrow> None)
      | Finish t \<Rightarrow>
          (case phases s t of
             Finishing c result published succeeded \<Rightarrow>
               Some (move t (Done c result) (s\<lparr>refresh := finish_refresh published succeeded (refresh s)\<rparr>))
           | _ \<Rightarrow> None)
      | ExternalWrite file \<Rightarrow> Some (s\<lparr>cache_file := file\<rparr>))"

lemma rate_next_step: "rate_next host s e = Some s' \<Longrightarrow> rate_step host s e s'"
  by (cases e) (auto simp: rate_next_def intro: rate_step.intros split: rate_phase.splits prod.splits)

fun rate_execute :: "rate_host \<Rightarrow> rate_system \<Rightarrow> rate_event list \<Rightarrow> rate_system option" where
  "rate_execute host s [] = Some s"
| "rate_execute host s (e # es) = Option.bind (rate_next host s e) (\<lambda>s'. rate_execute host s' es)"

lemma rate_execute_run: "rate_execute host s es = Some s' \<Longrightarrow> run (rate_step host) s es s'"
  by (induction es arbitrary: s) (auto simp: bind_eq_Some_conv intro: run.intros dest: rate_next_step)

lemmas executing = rate_next_def move_def enter_phase_def

text \<open>
  C24: A forced call that waits for the refresh of another can read the cache before the other has saved and
  enter after it has finished: it is answered the old rates, with no word of a failure or a deferral.
\<close>

theorem waiting_call_gets_old_rates:
  assumes "load_cache host (Some payload) = Inr (Some old)" and "fetch host now reply = Inr fresh"
    and "phases s 0 = Idle" and "phases s 1 = Idle" and "\<not> refreshing (refresh s)" and "cache_file s = Some payload"
  shows "\<exists>es s' c. run (rate_step host) s es s'
    \<and> phases s' 0 = Done (new_call now True 1) (Inr (fresh, True, False, False))
    \<and> call_force c \<and> call_now c = now \<and> phases s' 1 = Done c (Inr (old, False, False, False))"
proof -
  let ?a = "new_call now True 1"
  define r0 where "r0 = remember_attempt (Some old) (refresh s)"
  define r1 where "r1 = r0\<lparr>refreshing := True\<rparr>"
  let ?b = "?a\<lparr>wait_started_generation := Some (refresh_generation (refresh s))\<rparr>"
  define r2 where "r2 = remember_attempt (Some old) r1"
  define r3 where "r3 = finish_refresh (Some (next_refresh_attempt_at fresh)) True r2"
  have enter0: "enter_refresh 0 ?a (Some old) (refresh s) = (Lead, ?a, r1)"
    using assms(5) by (simp add: enter_refresh_def new_call_def Let_def r0_def r1_def)
  have enter1: "enter_refresh 0 ?a (Some old) r1 = (Wait, ?b, r2)"
    by (simp add: enter_refresh_def new_call_def Let_def r0_def r1_def r2_def)
  have enter2: "enter_refresh 0 (?b\<lparr>coalesced := True\<rparr>) (Some old) r3
      = (Answer (old, False, False, False), ?b\<lparr>coalesced := True\<rparr>, remember_attempt (Some old) r3)"
    by (simp add: enter_refresh_def new_call_def Let_def r0_def r1_def r2_def r3_def finish_refresh_def coalesced_answer_def)
  have lead: "lead now (Some old) (fetch host now reply) = (Inr (fresh, True, False, False), Some fresh, Some (next_refresh_attempt_at fresh), True)"
    by (simp add: assms(2) lead_def)
  have calls: "call_now ?a = now" "call_force ?b" "call_now ?b = now" by (simp_all add: new_call_def)
  have "\<exists>s'. rate_execute host s [Start 0 now True 1, Load 0, Enter 0 0, Start 1 now True 1, Load 1, Enter 1 0, Wake 1, Load 1,
      Fetched 0 reply, Save 0 True, Finish 0, Enter 1 0] = Some s'
    \<and> phases s' 0 = Done ?a (Inr (fresh, True, False, False)) \<and> phases s' 1 = Done (?b\<lparr>coalesced := True\<rparr>) (Inr (old, False, False, False))"
    by (simp add: executing assms(1,3,6) assms(4) [unfolded One_nat_def] enter0 enter1 lead calls(1) r3_def [symmetric] enter2)
  then show ?thesis using rate_execute_run calls(2,3) by (metis rate_call.select_convs rate_call.update_convs(3) rate_call.surjective)
qed

section \<open>The next business day\<close>

lemma skip_weekend_least:
  assumes "c \<le> MAX_ORDINAL"
  shows "skip_weekend c = Inr n \<longleftrightarrow> c \<le> n \<and> n \<le> MAX_ORDINAL \<and> weekday n < 5 \<and> (\<forall>m. c \<le> m \<and> m < n \<longrightarrow> 5 \<le> weekday m)"
  using assms
proof (induction c rule: skip_weekend.induct)
  case (1 c)
  show ?case
  proof (cases "5 \<le> weekday c")
    case True
    show ?thesis
    proof (cases "c + 1 \<le> MAX_ORDINAL")
      case room: True
      have split: "c \<le> m \<longleftrightarrow> m = c \<or> c + 1 \<le> m" for m by linarith
      have "skip_weekend c = skip_weekend (c + 1)" using True room by (simp add: skip_weekend.simps [of c] add_day_def)
      moreover have "n \<noteq> c" if "weekday n < 5" using that True by auto
      ultimately show ?thesis using 1(1) [OF True, of "c + 1"] room True unfolding split by (auto simp: add_day_def)
    next
      case False
      then have "skip_weekend c = Inl overflow_error" using True by (simp add: skip_weekend.simps [of c] add_day_def)
      moreover have "n = c" if "c \<le> n" "n \<le> MAX_ORDINAL" using that False 1(2) by linarith
      ultimately show ?thesis using True by auto
    qed
  next
    case False
    then show ?thesis using 1(2) by (auto simp: skip_weekend.simps [of c] intro: antisym_conv1 [THEN iffD1] leI)
  qed
qed

text \<open>
  The day after which rates are expected is the first later day that is not a Saturday or a Sunday, if
  the calendar has one.
\<close>

theorem next_business_day_least:
  assumes "day \<le> MAX_ORDINAL"
  shows "next_business_day day = Inr n \<longleftrightarrow>
    day < n \<and> n \<le> MAX_ORDINAL \<and> weekday n < 5 \<and> (\<forall>m. day < m \<and> m < n \<longrightarrow> 5 \<le> weekday m)"
proof (cases "day + 1 \<le> MAX_ORDINAL")
  case True
  have "day < m \<longleftrightarrow> day + 1 \<le> m" for m by linarith
  then show ?thesis using skip_weekend_least [OF True] True by (simp add: next_business_day_def add_day_def)
next
  case False
  then show ?thesis by (auto simp: next_business_day_def add_day_def)
qed

theorem next_business_day_least_witness: "next_business_day 5 = Inr 8"
  unfolding next_business_day_least [of 5 8, unfolded MAX_ORDINAL_def, simplified]
  by (auto simp: MAX_ORDINAL_def weekday_def) presburger?

section \<open>The cache reads back\<close>

lemma positive_rate_finite: "positive_rate d \<Longrightarrow> \<exists>neg c e. d = DecFin neg c e"
  by (cases d) (simp_all add: positive_rate_def)

lemma update_new: "c \<notin> fst ` set found \<Longrightarrow> AList.update c d found = found @ [(c, d)]"
  by (induction found) auto

lemma cached_rates_back:
  assumes "\<forall>c < 128. numerals host c = ascii_digit c" and "list_all (\<lambda>cd. length (fst cd) = 3 \<and> positive_rate (snd cd)) items"
    and "distinct (map fst (found @ items))"
  shows "rfold (cached_rate host) (map (\<lambda>(c, d). (c, VStr (decimal_str d))) items) found = Inr (found @ items)"
  using assms(2,3)
proof (induction items arbitrary: found)
  case (Cons cd items)
  obtain c d where cd: "cd = (c, d)" by fastforce
  then obtain neg m e where d: "d = DecFin neg m e" using Cons.prems(1) positive_rate_finite [of d] by auto
  have "cached_rate host (c, VStr (decimal_str d)) found = Inr (found @ [(c, d)])"
    using Cons.prems cd by (simp add: cached_rate_def decimal_or_invalid_def d decimal_str_reads_back [OF assms(1)] update_new
        del: decimal_str.simps)
  moreover have "rfold (cached_rate host) (map (\<lambda>(c, d). (c, VStr (decimal_str d))) items) (found @ [(c, d)]) = Inr ((found @ [(c, d)]) @ items)"
    by (rule Cons.IH) (use Cons.prems cd in simp_all)
  ultimately show ?case by (simp add: cd)
qed simp

lemma seconds_bounds: "seconds t \<le> t" "0 \<le> t \<Longrightarrow> 0 \<le> seconds t" "seconds (t + CACHE_MAX_AGE) = seconds t + CACHE_MAX_AGE"
  "s \<le> t \<Longrightarrow> seconds s \<le> seconds t"
proof -
  have eq: "seconds x = 1000000 * (x div 1000000)" for x by (simp add: seconds_def minus_mod_eq_mult_div)
  show "seconds t \<le> t" by (simp add: seconds_def)
  show "0 \<le> t \<Longrightarrow> 0 \<le> seconds t" by (simp add: eq pos_imp_zdiv_nonneg_iff)
  show "s \<le> t \<Longrightarrow> seconds s \<le> seconds t" by (simp add: eq zdiv_mono1)
  have "t + 86400000000 = t + 86400 * 1000000" by simp
  then show "seconds (t + CACHE_MAX_AGE) = seconds t + CACHE_MAX_AGE"
    unfolding eq CACHE_MAX_AGE_def DAY_def by (simp del: div_mult_self1 add: div_mult_self3 [of 1000000 t 86400, simplified] div_add1_eq)
qed

lemma parse_iso_text:
  assumes "datetime_of_text host (replace_cp 90 (u ''+00:00'') (iso_text host t)) = Some (seconds t, Some 0)"
    and "0 \<le> t" "t < MAX_ORDINAL * DAY"
  shows "parse_iso host (VStr (iso_text host t)) = Inr (seconds t)"
  using assms seconds_bounds(1,2) [of t] by (simp add: parse_iso_def as_utc_def in_range_def)

lemma snapshot_json_back:
  assumes numerals: "\<forall>c < 128. numerals host c = ascii_digit c"
    and iso: "\<forall>t. 0 \<le> t \<and> t < MAX_ORDINAL * DAY \<longrightarrow> datetime_of_text host (replace_cp 90 (u ''+00:00'') (iso_text host t)) = Some (seconds t, Some 0)"
    and times: "\<forall>t \<in> set_option (published_at x) \<union> {checked_at x, expires_at x, next_refresh_attempt_at x}. 0 \<le> t \<and> t < MAX_ORDINAL * DAY"
    and rates: "list_all (\<lambda>cd. length (fst cd) = 3 \<and> positive_rate (snd cd)) (rates x)" "distinct (map fst (rates x))"
      "euro_is_one (rates x)" "MINIMUM_RATE_COUNT \<le> length (rates x)"
    and date: "date_of_text host (rate_date x) = Some day"
  shows "snapshot_from_json host (VDict (snapshot_json host x)) =
    rbind (fresh_until host day (seconds (checked_at x))) (\<lambda>expires.
      Inr (whole_seconds x\<lparr>expires_at := min (seconds (expires_at x)) expires\<rparr>))"
proof -
  let ?d = "snapshot_json host x"
  have fields: "dget_none ?d (u ''version'') = VInt 1" "dget_none ?d (u ''provider'') = VStr (u ''ECB'')"
    "dget_none ?d (u ''rateDate'') = VStr (rate_date x)" "dget_none ?d (u ''publishedAt'') = iso_option host (published_at x)"
    "dget_none ?d (u ''checkedAt'') = VStr (iso_text host (checked_at x))"
    "dget_none ?d (u ''expiresAt'') = VStr (iso_text host (expires_at x))"
    "dget_none ?d (u ''nextRefreshAttemptAt'') = VStr (iso_text host (next_refresh_attempt_at x))"
    "dget_none ?d (u ''rates'') = VDict (map (\<lambda>(c, d). (c, VStr (decimal_str d))) (rates x))"
    by (simp_all add: snapshot_json_def dget_none_def dget_def u_def)
  have reading: "rfold (cached_rate host) (map (\<lambda>(c, d). (c, VStr (decimal_str d))) (rates x)) [] = Inr (rates x)"
    using cached_rates_back [OF numerals rates(1), of "[]"] rates(2) by simp
  have parse: "parse_iso host (VStr (iso_text host t)) = Inr (seconds t)" if "0 \<le> t \<and> t < MAX_ORDINAL * DAY" for t
    using parse_iso_text iso that by blast
  have published: "parse_iso_optional host (iso_option host (published_at x)) = Inr (map_option seconds (published_at x))"
    using parse times by (cases "published_at x") (simp_all add: parse_iso_optional_def iso_option_def)
  have later: "parse_iso_optional host (VStr (iso_text host (next_refresh_attempt_at x))) = Inr (Some (seconds (next_refresh_attempt_at x)))"
    using parse times by (simp add: parse_iso_optional_def)
  have whole: "whole_seconds x\<lparr>expires_at := e\<rparr> = \<lparr>rate_date = rate_date x, published_at = map_option seconds (published_at x),
      checked_at = seconds (checked_at x), expires_at = e, next_refresh_attempt_at = seconds (next_refresh_attempt_at x), rates = rates x\<rparr>" for e
    by (simp add: whole_seconds_def)
  show ?thesis
    unfolding snapshot_from_json_def Let_def using parse times rates(3,4)
    by (simp add: fields reading published later parse_rate_date_def date whole)
qed

lemma http_datetime_range: "http_datetime host v = Some t \<Longrightarrow> 0 \<le> t \<and> t < MAX_ORDINAL * DAY"
  by (auto simp: http_datetime_def as_utc_def in_range_def demand_eq_Inr split: option.splits sum.splits)

text \<open>
  C26: What a conversion fetches, the next one reads back, to the second, when the provider's answer is what
  the cache admits: three-letter codes and one euro to the euro. The laws are those of the time stamps the
  standard library writes and reads and of the digits it reads.
\<close>

theorem fetched_cache_reads_back:
  assumes "\<forall>c < 128. numerals host c = ascii_digit c"
    and "\<forall>t. 0 \<le> t \<and> t < MAX_ORDINAL * DAY \<longrightarrow>
          datetime_of_text host (replace_cp 90 (u ''+00:00'') (iso_text host t)) = Some (seconds t, Some 0)"
    and "fetch host now reply = Inr x" and "0 \<le> now" and "\<forall>day. 0 \<le> release_instant host day"
    and "list_all (\<lambda>cd. length (fst cd) = 3) (rates x)" and "euro_is_one (rates x)"
    and "ascii_length (cache_python host) (VDict (snapshot_json host x)) \<le> MAX_CACHE_BYTES"
  shows "load_cache host (save_cache host True x file) = Inr (Some (whole_seconds x))"
proof -
  note ok = fetch_ok [OF assms(3)]
  obtain day body found expires next' where body: "parse_ecb_rates host body = Inr (rate_date x, day, rates x)"
    and expires: "fresh_until host day now = Inr (expires_at x)"
    and next': "in_range (now + REFRESH_RETRY_INTERVAL) = Inr (next_refresh_attempt_at x)" and checked: "checked_at x = now"
    and published: "\<forall>t. published_at x = Some t \<longrightarrow> 0 \<le> t \<and> t < MAX_ORDINAL * DAY"
    using assms(3) http_datetime_range
    by (auto simp: fetch_def demand_eq_Inr rbind_eq_Inr split: provider_reply.splits)
  obtain release where release: "next_business_day day = Inr release"
    and soon: "0 \<le> now + CACHE_MAX_AGE" "now + CACHE_MAX_AGE < MAX_ORDINAL * DAY"
    and x: "expires_at x = min (now + CACHE_MAX_AGE) (release_instant host release)"
    using expires by (auto simp: fresh_until_def in_range_def rbind_eq_Inr demand_eq_Inr)
  have day: "date_of_text host (rate_date x) = Some day"
    using body by (auto simp: parse_ecb_rates_def parse_rate_date_def rbind_eq_Inr demand_eq_Inr split: option.splits)
  have times: "\<forall>t \<in> set_option (published_at x) \<union> {checked_at x, expires_at x, next_refresh_attempt_at x}. 0 \<le> t \<and> t < MAX_ORDINAL * DAY"
    using published soon next' checked x assms(4,5) by (auto simp: in_range_def demand_eq_Inr CACHE_MAX_AGE_def DAY_def)
  have rates: "list_all (\<lambda>cd. length (fst cd) = 3 \<and> positive_rate (snd cd)) (rates x)" "distinct (map fst (rates x))"
    "MINIMUM_RATE_COUNT \<le> length (rates x)"
    using ok assms(6) by (auto simp: snapshot_ok_def list_all_iff)
  have "0 \<le> seconds now + CACHE_MAX_AGE" "seconds now + CACHE_MAX_AGE < MAX_ORDINAL * DAY"
    using seconds_bounds(1,2) [of now] assms(4) soon by (simp_all add: CACHE_MAX_AGE_def DAY_def)
  then have again: "fresh_until host day (seconds now) = Inr (min (seconds now + CACHE_MAX_AGE) (release_instant host release))"
    by (simp add: fresh_until_def release in_range_def)
  have "seconds (expires_at x) \<le> min (seconds now + CACHE_MAX_AGE) (release_instant host release)"
    using seconds_bounds(3) [of now] seconds_bounds(4) [of "expires_at x" "now + CACHE_MAX_AGE"] seconds_bounds(1) [of "expires_at x"]
    unfolding x by simp
  then have "whole_seconds x\<lparr>expires_at := min (seconds (expires_at x)) (min (seconds now + CACHE_MAX_AGE) (release_instant host release))\<rparr> = whole_seconds x"
    by (simp add: whole_seconds_def min_absorb1)
  then have "snapshot_from_json host (VDict (snapshot_json host x)) = Inr (whole_seconds x)"
    unfolding snapshot_json_back [OF assms(1,2) times rates(1,2) assms(7) rates(3) day] checked again by simp
  then show ?thesis using assms(8) by (simp add: load_cache_def save_cache_def Let_def)
qed

lemma last_day_overflows: "fresh_until host MAX_ORDINAL t = Inl overflow_error"
  by (simp add: fresh_until_def next_business_day_def add_day_def)

text \<open>
  A cache that names the last day of the calendar is not a missing cache: its next business day does not
  exist, and the error this raises is none of those the loading swallows, so every conversion fails and no
  refresh ever repairs the file.
\<close>

theorem last_day_cache_is_fatal:
  assumes "\<forall>c < 128. numerals host c = ascii_digit c"
    and "\<forall>t. 0 \<le> t \<and> t < MAX_ORDINAL * DAY \<longrightarrow>
          datetime_of_text host (replace_cp 90 (u ''+00:00'') (iso_text host t)) = Some (seconds t, Some 0)"
    and "\<forall>t \<in> set_option (published_at x) \<union> {checked_at x, expires_at x, next_refresh_attempt_at x}. 0 \<le> t \<and> t < MAX_ORDINAL * DAY"
    and "list_all (\<lambda>cd. length (fst cd) = 3 \<and> positive_rate (snd cd)) (rates x)" and "distinct (map fst (rates x))"
    and "euro_is_one (rates x)" and "MINIMUM_RATE_COUNT \<le> length (rates x)"
    and "date_of_text host (rate_date x) = Some MAX_ORDINAL"
  shows "snapshot_alone host call reply written (s, Some (VDict (snapshot_json host x)))
    = (Inl overflow_error, s, Some (VDict (snapshot_json host x)))"
proof -
  have "snapshot_from_json host (VDict (snapshot_json host x)) = Inl overflow_error"
    unfolding snapshot_json_back [OF assms] last_day_overflows by simp
  then show ?thesis by (simp add: snapshot_alone_def load_cache_def overflow_error_def u_def)
qed

section \<open>The accuracy of a conversion\<close>

lemma dec_fix_relative:
  assumes "0 \<le> x" and "0 < prec" and "dec_fix HalfEven prec negative x ideal = Inr d" and "0 < x \<longrightarrow> pow10 (- EMAX) \<le> x"
  obtains c e where "d = DecFin negative c e" and "\<bar>of_nat c * pow10 e - x\<bar> \<le> x * (pow10 (1 - int prec) / 2)"
proof -
  obtain c e where d: "d = DecFin negative c e" and near: "0 < x \<Longrightarrow> \<bar>of_nat c * pow10 e - x\<bar> \<le> pow10 (last_digit prec x) / 2"
    and zero: "x = 0 \<Longrightarrow> c = 0"
    using dec_fix_near [OF assms(1-3)] by metis
  have "\<bar>of_nat c * pow10 e - x\<bar> \<le> x * (pow10 (1 - int prec) / 2)"
  proof (cases "x = 0")
    case False
    then have x: "0 < x" using assms(1) by simp
    then have "pow10 (- EMAX) < pow10 (ilog10 x + 1)" using assms(4) ilog10_bounds(2) [OF x] by simp
    then have "- EMAX \<le> ilog10 x" unfolding pow10_less_iff by simp
    then have "last_digit prec x = ilog10 x + (1 - int prec)" by (simp add: last_digit_def etiny_def)
    then have "pow10 (last_digit prec x) \<le> x * pow10 (1 - int prec)"
      using ilog10_bounds(1) [OF x] by (simp add: pow10_add mult_right_mono)
    then show ?thesis using near [OF x] by simp
  qed (simp add: zero)
  then show thesis by (rule that [OF d])
qed

text \<open>Two roundings to 32 digits.\<close>

lemma two_roundings:
  fixes x y z t :: rat
  assumes "0 \<le> x" "0 < t" "\<bar>y - x\<bar> \<le> x * (h / 2)" "\<bar>z - y * t\<bar> \<le> y * t * (h / 2)" "0 \<le> h" "h \<le> 1/100"
  shows "\<bar>z - x * t\<bar> \<le> x * t * (h * (101/100))"
proof -
  have "y \<le> x + x * (h / 2)" using assms(3) by linarith
  also have "\<dots> = x * (1 + h / 2)" by algebra
  finally have "y \<le> x * (1 + h / 2)" .
  then have "y * t * (h / 2) \<le> x * (1 + h / 2) * t * (h / 2)" using assms(2,5) by (intro mult_right_mono) simp_all
  moreover have "\<bar>y * t - x * t\<bar> \<le> x * (h / 2) * t"
  proof -
    have "\<bar>y * t - x * t\<bar> = \<bar>y - x\<bar> * t" using assms(2) by (metis abs_mult abs_of_pos left_diff_distrib)
    then show ?thesis using assms(2,3) by (simp only: mult_right_mono)
  qed
  ultimately have "\<bar>z - x * t\<bar> \<le> x * (1 + h / 2) * t * (h / 2) + x * (h / 2) * t" using assms(4) by linarith
  also have "\<dots> = x * t * (h * (1 + h / 4))" by (simp add: field_simps)
  also have "\<dots> \<le> x * t * (h * (101/100))" using assms by (intro mult_left_mono) simp_all
  finally show ?thesis .
qed

lemma small_quotient:
  assumes "pow10 (1 - EMAX) \<le> x * t" "\<bar>y - x\<bar> \<le> x * (h / 2)" "0 < t" "0 \<le> x" "0 \<le> h" "h \<le> 1/100"
  shows "pow10 (- EMAX) \<le> y * t"
proof -
  have "x * (1/2) \<le> x * (1 - h / 2)" using assms(4-6) by (intro mult_left_mono) simp_all
  also have "x * (1 - h / 2) = x - x * (h / 2)" by algebra
  also have "\<dots> \<le> y" using assms(2) unfolding abs_le_iff by linarith
  finally have "x * (1/2) * t \<le> y * t" using assms(3) by (simp add: mult_right_mono)
  moreover have "pow10 (1 - EMAX) = 10 * pow10 (- EMAX)" using pow10_add [of 1 "- EMAX"] by (simp add: pow10_def [of 1])
  ultimately show ?thesis using assms(1) pow10_pos [of "- EMAX"] by linarith
qed

text \<open>
  C22: A conversion is the exact product of the amount and the ratio of the two rates, up to a relative error
  of little more than one unit of the 31st digit; the amount may be any that is not so small that the
  exponent range of the context matters.
\<close>

theorem conversion_accurate:
  assumes "converted c source target = Inr d" and "conversion_precision c \<le> 20"
    and "dec_value (amount c) = Some a" and "dec_value source = Some s" and "dec_value target = Some t" and "0 < s" and "0 < t"
    and "a = 0 \<or> pow10 (- EMAX) \<le> \<bar>a\<bar> / s \<and> pow10 (1 - EMAX) \<le> \<bar>a\<bar> / s * t"
  shows "\<exists>r. dec_value d = Some r \<and> \<bar>r - a / s * t\<bar> \<le> \<bar>a\<bar> / s * t * (101/100 * pow10 (- 31))"
proof -
  have prec: "nat (max (conversion_precision c + 12) 32) = 32" using assms(2) by simp
  obtain neg m e where a: "amount c = DecFin neg m e" using assms(3) by (cases "amount c") simp_all
  obtain sn sm se where s: "source = DecFin sn sm se" using assms(4) by (cases source) simp_all
  obtain tn tm te where t: "target = DecFin tn tm te" using assms(5) by (cases target) simp_all
  have signs: "\<not> sn" "\<not> tn" "0 < sm" using assms(4-7) s t by (auto simp: zero_less_mult_iff mult_less_0_iff split: if_splits)
  define x where "x = \<bar>a\<bar> / s"
  have abs_a: "\<bar>a\<bar> = of_nat m * pow10 e" "a = (if neg then - 1 else 1) * \<bar>a\<bar>" using assms(3) a by (auto simp: abs_mult)
  have s': "s = of_nat sm * pow10 se" and t': "t = of_nat tm * pow10 te" using assms(4,5) s t signs by simp_all
  have x: "of_nat m / of_nat sm * pow10 (e - se) = x" unfolding x_def abs_a(1) s' pow10_diff by simp
  have x0: "0 \<le> x" using assms(6) by (simp add: x_def)
  obtain q where q: "dec_divide HalfEven 32 (amount c) source = Inr q" "dec_times HalfEven 32 q target = Inr d"
    using assms(1) by (auto simp: converted_def prec rbind_eq_Inr Let_def)
  have "dec_fix HalfEven 32 neg x (e - se) = Inr q" using q(1) signs x by (simp add: a s demand_eq_Inr)
  moreover have "0 < x \<longrightarrow> pow10 (- EMAX) \<le> x" using assms(8) by (auto simp: x_def)
  ultimately obtain qm qe where qq: "q = DecFin neg qm qe" and near: "\<bar>of_nat qm * pow10 qe - x\<bar> \<le> x * (pow10 (- 31) / 2)"
    using x0 by (auto elim!: dec_fix_relative [rotated 2])
  define y where "y = of_nat qm * pow10 qe"
  have y: "0 \<le> y" by (simp add: y_def)
  have "dec_fix HalfEven 32 neg (y * t) (qe + te) = Inr d"
    using q(2) signs by (simp add: qq t y_def t' pow10_add mult.assoc mult.left_commute)
  moreover have "0 < y * t \<longrightarrow> pow10 (- EMAX) \<le> y * t"
  proof (cases "a = 0")
    case True
    then show ?thesis using near by (simp add: x_def y_def [symmetric])
  next
    case False
    then show ?thesis using small_quotient [OF _ near [folded y_def] assms(7) x0] assms(8) by (simp add: x_def pow10_def)
  qed
  ultimately obtain dm de where dd: "d = DecFin neg dm de" and near': "\<bar>of_nat dm * pow10 de - y * t\<bar> \<le> y * t * (pow10 (- 31) / 2)"
    using y assms(7) by (auto elim!: dec_fix_relative [rotated 2])
  have error: "\<bar>of_nat dm * pow10 de - x * t\<bar> \<le> x * t * (pow10 (- 31) * (101/100))"
    by (rule two_roundings [OF x0 assms(7) near [folded y_def] near']) (simp_all add: pow10_def)
  have "(if neg then - 1 else 1) * of_nat dm * pow10 de - a / s * t = (if neg then - 1 else 1) * (of_nat dm * pow10 de - x * t)"
    by (subst abs_a(2)) (simp add: x_def)
  then have "\<bar>(if neg then - 1 else 1) * of_nat dm * pow10 de - a / s * t\<bar> = \<bar>of_nat dm * pow10 de - x * t\<bar>"
    by (simp add: abs_mult)
  then show ?thesis using error by (simp add: dd x_def mult.commute)
qed

section \<open>A concrete host\<close>

text \<open>
  A host on which the laws of the time stamps hold: a stamp is written as its seconds in decimal digits. The
  provider always answers the rates of one Friday, two units of each of nineteen currencies to the euro.
\<close>

definition sample_codes :: "pystr list" where
  "sample_codes =
     [u ''AUD'', u ''BGN'', u ''BRL'', u ''CAD'', u ''CHF'', u ''CNY'', u ''CZK'', u ''DKK'', u ''GBP'', u ''HKD'', u ''HUF'', u ''IDR'',
      u ''ILS'', u ''INR'', u ''ISK'', u ''JPY'', u ''KRW'', u ''MXN'', u ''USD'']"

definition sample_day :: int where "sample_day = 738890"

definition sample_host :: rate_host where
  "sample_host =
     \<lparr>xml_attributes = (\<lambda>_. Some ([(u ''time'', u ''2024-01-05'')] # map (\<lambda>c. [(u ''currency'', c), (u ''rate'', u ''2'')]) sample_codes)),
      date_of_text = (\<lambda>s. Some (if s = u ''2024-01-05'' then sample_day else MAX_ORDINAL)),
      release_instant = (\<lambda>day. max 0 ((day - 1) * DAY + 15 * 3600 * 1000000)),
      datetime_of_text = (\<lambda>s. Some (1000000 * int (digits_val 10 s), Some 0)),
      datetime_of_http = (\<lambda>_. None),
      iso_text = (\<lambda>t. nat_text 10 (nat (t div 1000000))),
      upper_text = (\<lambda>s. s), numerals = ascii_digit,
      cache_python = \<lparr>float_text = (\<lambda>_. []), sha256 = (\<lambda>_. []), digit_limit = 4300\<rparr>\<rparr>"

lemma sample_numerals: "\<forall>c < 128. numerals sample_host c = ascii_digit c"
  by (simp add: sample_host_def)

lemma replace_cp_absent: "c \<notin> set s \<Longrightarrow> replace_cp c r s = s"
  by (induction s) (auto simp: replace_cp_def)

lemma sample_iso:
  "\<forall>t. 0 \<le> t \<and> t < MAX_ORDINAL * DAY \<longrightarrow>
     datetime_of_text sample_host (replace_cp 90 (u ''+00:00'') (iso_text sample_host t)) = Some (seconds t, Some 0)"
proof (intro allI impI)
  fix t :: int assume "0 \<le> t \<and> t < MAX_ORDINAL * DAY"
  have "90 \<notin> set (nat_text 10 (nat (t div 1000000)))"
    using nat_text_ascii [of "nat (t div 1000000)"] by (auto simp: is_digits_def list_all_iff)
  then have "replace_cp 90 (u ''+00:00'') (nat_text 10 (nat (t div 1000000))) = nat_text 10 (nat (t div 1000000))"
    by (rule replace_cp_absent)
  then show "datetime_of_text sample_host (replace_cp 90 (u ''+00:00'') (iso_text sample_host t)) = Some (seconds t, Some 0)"
    using \<open>0 \<le> t \<and> _\<close> by (simp add: sample_host_def digits_val_nat_text seconds_def minus_mod_eq_mult_div pos_imp_zdiv_nonneg_iff)
qed

lemma sample_release: "\<forall>day. 0 \<le> release_instant sample_host day"
  by (simp add: sample_host_def)

definition sample_now :: instant where "sample_now = (sample_day - 1) * DAY + 18 * 3600 * 1000000"

definition sample_rates :: "(pystr \<times> decimal) list" where
  "sample_rates = (u ''EUR'', DecFin False 1 0) # map (\<lambda>c. (c, DecFin False 2 0)) sample_codes"

definition sample_snapshot :: "instant \<Rightarrow> rate_snapshot" where
  "sample_snapshot now =
     \<lparr>rate_date = u ''2024-01-05'', published_at = None, checked_at = now, expires_at = now + CACHE_MAX_AGE,
      next_refresh_attempt_at = now + REFRESH_RETRY_INTERVAL, rates = sample_rates\<rparr>"

lemma sample_two: "decimal_of_text ascii_digit [50] = Some (DecFin False 2 0)"
  by (simp add: decimal_of_text_def numeric_as_ascii_def strip_def is_space_def ascii_digit_def ascii_lower_def unsigned_def
      starts_with_def split_at_def mantissa_of_def is_digits_def digits_val_def digit_val_def u_def)

lemma sample_fetch_rates: "parse_ecb_rates sample_host body = Inr (u ''2024-01-05'', sample_day, sample_rates)"
  by (simp add: parse_ecb_rates_def sample_host_def sample_codes_def element_rate_def sample_two Let_def dget_def u_def positive_rate_def
      parse_rate_date_def MINIMUM_RATE_COUNT_def sample_rates_def sample_day_def)

lemma sample_next_day: "next_business_day sample_day = Inr 738893"
  by (simp add: next_business_day_def add_day_def sample_day_def MAX_ORDINAL_def skip_weekend.simps weekday_def)

lemma sample_fetch:
  assumes "0 \<le> now" and "now \<le> sample_now" shows "fetch sample_host now (Reply [] None) = Inr (sample_snapshot now)"
proof -
  have "fresh_until sample_host sample_day now = Inr (now + CACHE_MAX_AGE)"
    unfolding fresh_until_def sample_next_day
    using assms by (simp add: in_range_def MAX_ORDINAL_def CACHE_MAX_AGE_def DAY_def sample_host_def
        sample_now_def sample_day_def demand_def)
  moreover have "in_range (now + REFRESH_RETRY_INTERVAL) = Inr (now + REFRESH_RETRY_INTERVAL)"
    using assms by (simp add: in_range_def MAX_ORDINAL_def DAY_def REFRESH_RETRY_INTERVAL_def sample_now_def sample_day_def)
  ultimately show ?thesis
    by (simp add: fetch_def sample_fetch_rates http_datetime_def sample_snapshot_def MAX_RESPONSE_BYTES_def)
qed

lemma sample_rates_good: "list_all (\<lambda>cd. length (fst cd) = 3) sample_rates" "euro_is_one sample_rates"
  "list_all (\<lambda>cd. length (fst cd) = 3 \<and> positive_rate (snd cd)) sample_rates" "distinct (map fst sample_rates)"
  "MINIMUM_RATE_COUNT \<le> length sample_rates"
  by (simp_all add: sample_rates_def sample_codes_def u_def euro_is_one_def positive_rate_def MINIMUM_RATE_COUNT_def)

lemma sample_length: "ascii_length (cache_python sample_host) (VDict (snapshot_json sample_host (sample_snapshot 0))) \<le> MAX_CACHE_BYTES"
proof -
  have "nat_text 10 0 = [48]" "nat_text 10 86400 = [56, 54, 52, 48, 48]" "nat_text 10 900 = [57, 48, 48]" "nat_text 10 (Suc 0) = [49]" "nat_text 10 2 = [50]"
    by (simp_all add: nat_text.simps digit_cp_def)
  note texts = this
  show ?thesis
    by (simp add: ascii_length_def snapshot_json_def sample_snapshot_def sample_rates_def sample_codes_def sample_host_def iso_option_def texts
        CACHE_MAX_AGE_def REFRESH_RETRY_INTERVAL_def DAY_def scientific_text_def item_order_def json_string_def json_escape_cp_def int_str_def int_text_def
        digits_allowed_def u_def escaped_length_def MAX_CACHE_BYTES_def demand_def)
qed

theorem fetched_cache_reads_back_witness:
  "load_cache sample_host (save_cache sample_host True (sample_snapshot 0) None) = Inr (Some (whole_seconds (sample_snapshot 0)))"
proof -
  have "fetch sample_host 0 (Reply [] None) = Inr (sample_snapshot 0)" by (rule sample_fetch) (simp_all add: sample_now_def sample_day_def DAY_def)
  from fetched_cache_reads_back [OF sample_numerals sample_iso this _ sample_release _ _ sample_length] show ?thesis
    using sample_rates_good by (simp add: sample_snapshot_def)
qed

lemma sample_payload:
  assumes "0 \<le> now" and "now \<le> sample_now" and "rate_date x = rate_date (sample_snapshot now)"
    and "x = sample_snapshot now"
  shows "load_cache sample_host (Some (VDict (snapshot_json sample_host x))) = Inr (Some (whole_seconds x))"
proof -
  have date: "date_of_text sample_host (rate_date x) = Some sample_day" using assms(3) by (simp add: sample_host_def sample_snapshot_def)
  have times: "\<forall>t \<in> set_option (published_at x) \<union> {checked_at x, expires_at x, next_refresh_attempt_at x}. 0 \<le> t \<and> t < MAX_ORDINAL * DAY"
    using assms by (simp add: sample_snapshot_def CACHE_MAX_AGE_def REFRESH_RETRY_INTERVAL_def DAY_def MAX_ORDINAL_def sample_now_def sample_day_def)
  have good: "list_all (\<lambda>cd. length (fst cd) = 3 \<and> positive_rate (snd cd)) (rates x)" "distinct (map fst (rates x))" "euro_is_one (rates x)"
    "MINIMUM_RATE_COUNT \<le> length (rates x)" using assms(4) sample_rates_good by (simp_all add: sample_snapshot_def)
  have "seconds now \<le> sample_now" "0 \<le> seconds now" using seconds_bounds(1,2) [of now] assms(1,2) by simp_all
  then have "fresh_until sample_host sample_day (seconds now) = Inr (seconds now + CACHE_MAX_AGE)"
    unfolding fresh_until_def sample_next_day
    by (simp add: in_range_def MAX_ORDINAL_def CACHE_MAX_AGE_def DAY_def sample_host_def sample_now_def sample_day_def demand_def)
  then show ?thesis
    unfolding load_cache_def option.case snapshot_json_back [OF sample_numerals sample_iso times good date]
    using assms(4) by (simp add: sample_snapshot_def whole_seconds_def seconds_bounds(3))
qed

lemma sample_cache:
  "load_cache sample_host (Some (VDict (snapshot_json sample_host (sample_snapshot 0)))) = Inr (Some (whole_seconds (sample_snapshot 0)))"
  by (rule sample_payload) (simp_all add: sample_now_def sample_day_def DAY_def)

lemma sample_fetched: "fetch sample_host 0 (Reply [] None) = Inr (sample_snapshot 0)"
  by (rule sample_fetch) (simp_all add: sample_now_def sample_day_def DAY_def)

definition quiet_refresh :: refresh_state where
  "quiet_refresh = \<lparr>refreshing = False, refresh_generation = 0, last_refresh_succeeded = None, next_attempt_at = None\<rparr>"

definition idle_rates :: rate_system where
  "idle_rates = \<lparr>refresh = quiet_refresh, cache_file = Some (VDict (snapshot_json sample_host (sample_snapshot 0))), phases = (\<lambda>_. Idle)\<rparr>"

theorem refresh_single_and_honest_witness:
  "\<exists>s :: rate_system. leading (phases s 0) \<and> refreshing (refresh s)"
proof -
  have "\<exists>s. rate_execute sample_host (idle_rates\<lparr>cache_file := None\<rparr>) [Start 0 0 False 1, Load 0, Enter 0 0] = Some s \<and> leading (phases s 0)"
    by (simp add: executing idle_rates_def quiet_refresh_def load_cache_def new_call_def enter_refresh_def Let_def)
  then obtain s where s: "rate_execute sample_host (idle_rates\<lparr>cache_file := None\<rparr>) [Start 0 0 False 1, Load 0, Enter 0 0] = Some s"
    "leading (phases s 0)" by blast
  have "rate_init (idle_rates\<lparr>cache_file := None\<rparr>)" by (simp add: rate_init_def idle_rates_def quiet_refresh_def)
  then have "reach rate_init (rate_step sample_host) s" by (intro reach_run [OF rate_execute_run [OF s(1)]] reach.reach_init)
  then have flag: "refreshing (refresh s) \<longleftrightarrow> (\<exists>t. leading (phases s t))" by (rule refresh_single_and_honest [THEN conjunct1])
  have "\<exists>t. leading (phases s t)" using s(2) by (rule exI)
  then have "refreshing (refresh s)" by (simp only: flag)
  from conjI [OF s(2) this] show ?thesis by (rule exI)
qed

theorem waiting_call_gets_old_rates_witness:
  "\<exists>es s' c. run (rate_step sample_host) idle_rates es s'
    \<and> phases s' 0 = Done (new_call 0 True 1) (Inr (sample_snapshot 0, True, False, False))
    \<and> call_force c \<and> call_now c = 0 \<and> phases s' 1 = Done c (Inr (whole_seconds (sample_snapshot 0), False, False, False))"
  by (rule waiting_call_gets_old_rates [OF sample_cache sample_fetched]) (simp_all add: idle_rates_def quiet_refresh_def)

theorem unwritable_cache_drops_backoff_witness:
  "case snapshot_alone sample_host (new_call (2 * DAY) False 1) (Unreachable overflow_error) False (quiet_refresh, cache_file idle_rates) of
     (r, s, file) \<Rightarrow> (case snapshot_alone sample_host (new_call (2 * DAY) False 1) (Unreachable overflow_error) False (s, file) of
       (r', s', file') \<Rightarrow> refresh_generation s = 1 \<and> refresh_generation s' = 2)"
proof (clarsimp split: prod.split)
  fix r s f r' s' f'
  let ?call = "new_call (2 * DAY) False 1"
  assume first: "snapshot_alone sample_host ?call (Unreachable overflow_error) False (quiet_refresh, cache_file idle_rates) = (r, s, f)"
    and second: "snapshot_alone sample_host ?call (Unreachable overflow_error) False (s, f) = (r', s', f')"
  have call: "\<not> coalesced ?call" "call_now ?call = 2 * DAY" by (simp_all add: new_call_def)
  have cached: "load_cache sample_host (cache_file idle_rates) = Inr (Some (whole_seconds (sample_snapshot 0)))"
    by (simp add: idle_rates_def sample_cache)
  have "expires_at (whole_seconds (sample_snapshot 0)) \<le> 2 * DAY" "next_refresh_attempt_at (whole_seconds (sample_snapshot 0)) \<le> 2 * DAY"
    by (simp_all add: whole_seconds_def sample_snapshot_def seconds_def CACHE_MAX_AGE_def REFRESH_RETRY_INTERVAL_def DAY_def)
  then show "refresh_generation s = Suc 0 \<and> refresh_generation s' = 2"
    using unwritable_cache_drops_backoff [OF first second _ call(1) call(1) cached] call(2) by (simp add: quiet_refresh_def)
qed

theorem refresh_spacing_witness:
  "case snapshot_alone sample_host (new_call 0 False 1) (Reply [] None) True (quiet_refresh, None) of
     (r, s, file) \<Rightarrow> (case snapshot_alone sample_host (new_call 5 False 1) (Reply [] None) True (s, file) of
       (r', s', file') \<Rightarrow> refresh_generation s' = refresh_generation s)"
proof (clarsimp split: prod.split)
  fix r s f r' s' f'
  assume first: "snapshot_alone sample_host (new_call 0 False 1) (Reply [] None) True (quiet_refresh, None) = (r, s, f)"
    and second: "snapshot_alone sample_host (new_call 5 False 1) (Reply [] None) True (s, f) = (r', s', f')"
  have call: "\<not> coalesced (new_call t False d)" "\<not> call_force (new_call t False d)" "call_now (new_call t False d) = t" for t d
    by (simp_all add: new_call_def)
  have quiet: "\<not> refreshing quiet_refresh" "refresh_generation quiet_refresh = 0" by (simp_all add: quiet_refresh_def)
  have "fst (enter_refresh 0 (new_call 0 False 1) None quiet_refresh) = Lead"
    by (simp add: enter_refresh_def quiet_refresh_def new_call_def Let_def)
  then have "refresh_generation s \<noteq> refresh_generation quiet_refresh"
    using alone_generation [OF first quiet(1) call(1), of None] by (auto simp: load_cache_def)
  moreover have "persists sample_host (sample_snapshot 0)"
    using sample_length sample_cache by (simp add: persists_def save_cache_def Let_def)
  ultimately show "refresh_generation s' = refresh_generation s"
    by (intro refresh_spacing [OF first _ second])
      (simp_all add: call quiet sample_fetched load_cache_def REFRESH_RETRY_INTERVAL_def MAX_ORDINAL_def DAY_def seconds_def)
qed

theorem last_day_cache_is_fatal_witness:
  "snapshot_alone sample_host (new_call 0 True 1) (Reply [] None) True
     (quiet_refresh, Some (VDict (snapshot_json sample_host (sample_snapshot 0\<lparr>rate_date := u ''9999-12-31''\<rparr>))))
   = (Inl overflow_error, quiet_refresh, Some (VDict (snapshot_json sample_host (sample_snapshot 0\<lparr>rate_date := u ''9999-12-31''\<rparr>))))"
  by (rule last_day_cache_is_fatal [OF sample_numerals sample_iso])
    (use sample_rates_good in \<open>simp_all add: sample_snapshot_def CACHE_MAX_AGE_def REFRESH_RETRY_INTERVAL_def DAY_def MAX_ORDINAL_def sample_host_def u_def\<close>)

lemma strip_zeros_power: "c mod 10 \<noteq> 0 \<Longrightarrow> strip_zeros k (c * 10 ^ k) = (c, k)"
  by (induction k) simp_all

lemma sample_quotient: "dec_fix HalfEven 32 False 5 0 = Inr (DecFin False 5 0)"
proof -
  have "digit_count 5 = 1" "digit_count (Suc 0) = 1" by (simp_all add: digit_count_def nat_text.simps)
  then have "ilog10 5 = 0" by (simp add: ilog10_def numerator_def denominator_def)
  then have "last_digit 32 5 = - 31" by (simp add: last_digit_def etiny_def EMAX_def)
  moreover have "round_magnitude HalfEven False (50000000000000000000000000000000) = 50000000000000000000000000000000"
    by (simp add: round_magnitude_def)
  moreover have "strip_zeros 31 50000000000000000000000000000000 = (5, 31)" using strip_zeros_power [of 5 31] by simp
  ultimately show ?thesis using \<open>digit_count 5 = 1\<close> by (simp add: dec_fix_def pow10_def EMAX_def demand_def)
qed

theorem conversion_accurate_witness:
  "\<exists>d r. converted \<lparr>amount_text = u ''10'', amount = DecFin False 10 0, from_currency = u ''USD'', to_currency = u ''EUR'',
      conversion_precision = 12, force_refresh = False\<rparr> (DecFin False 2 0) (DecFin False 1 0) = Inr d
    \<and> dec_value d = Some r \<and> \<bar>r - 5\<bar> \<le> 5 * (101/100 * pow10 (- 31))"
proof -
  let ?c = "\<lparr>amount_text = u ''10'', amount = DecFin False 10 0, from_currency = u ''USD'', to_currency = u ''EUR'',
      conversion_precision = 12, force_refresh = False\<rparr>"
  have d: "converted ?c (DecFin False 2 0) (DecFin False 1 0) = Inr (DecFin False 5 0)"
    by (simp add: converted_def sample_quotient demand_def)
  have "pow10 (- EMAX) \<le> pow10 0" "pow10 (1 - EMAX) \<le> pow10 0" by (rule pow10_mono, simp add: EMAX_def)+
  then show ?thesis using conversion_accurate [OF d, of 10 2 1] d by auto
qed

end
