(* ===== verification/App_Runtime.thy ===== *)
theory App_Runtime
  imports Worker_Protocol Currency "HOL-Library.Sublist"
begin

text \<open>
  The process behind the desktop application (\<^verbatim>\<open>app_runtime.py\<close>): a loop that answers one JSON request per
  line, and an executor of two threads that keeps currency conversions out of its way. Evaluation and unit
  conversion are the parameter \<open>local_operation\<close>; conversions are those of \<open>Currency\<close>. The proofs show that
  every line is answered exactly once, local requests in order, that the process ends, that responses carry
  the identifiers of their requests, and which requests end the process.
\<close>

section \<open>One request\<close>

text \<open>
  What the process reads of its surroundings: the interpreter and its JSON reader, the text of a JSON error
  and of any value, the two local operations under the guard of the evaluation time, and what the currency
  service reads: its host, the clock and the answer of its coordination. A number counts the requests.
\<close>

record app_env =
  app_python :: interp
  app_reader :: reader
  json_message :: "nat list \<Rightarrow> pystr"
  shown :: "pyval \<Rightarrow> pystr"
  local_operation :: "nat \<Rightarrow> pystr \<Rightarrow> pydict \<Rightarrow> pyexn + pydict"
  rate_source :: rate_host
  rates_for :: "nat \<Rightarrow> bool \<Rightarrow> pyexn + rate_answer"
  rates_now :: "nat \<Rightarrow> instant"

definition app_error :: "string \<Rightarrow> pystr \<Rightarrow> pydict" where
  "app_error code message =
     [(u ''status'', VStr (u ''error'')), (u ''error'', VDict [(u ''code'', VStr (u code)), (u ''message'', VStr message)])]"

definition currency_arguments :: "pydict \<Rightarrow> pydict" where
  "currency_arguments request =
     [(u ''value'', dget_none request (u ''value'')), (u ''fromCurrency'', dget_none request (u ''fromCurrency'')),
      (u ''toCurrency'', dget_none request (u ''toCurrency'')), (u ''precision'', dget request (u ''precision'') (VInt 12)),
      (u ''forceRefresh'', dget request (u ''forceRefresh'') (VBool False))]"

definition expression_arguments :: "pydict \<Rightarrow> pydict" where
  "expression_arguments request =
     [(u ''expression'', dget_none request (u ''expression'')), (u ''precision'', dget request (u ''precision'') (VInt 16))]"

definition units_arguments :: "pydict \<Rightarrow> pydict" where
  "units_arguments request =
     [(u ''value'', dget_none request (u ''value'')), (u ''fromUnit'', dget_none request (u ''fromUnit'')),
      (u ''toUnit'', dget_none request (u ''toUnit'')), (u ''precision'', dget request (u ''precision'') (VInt 12))]"

definition app_operation :: "pydict \<Rightarrow> pyval" where
  "app_operation request = dget request (u ''operation'') (VStr (u ''expression.evaluate''))"

definition perform :: "app_env \<Rightarrow> nat \<Rightarrow> pydict \<Rightarrow> pyexn + pydict" where
  "perform env n request =
     (let operation = app_operation request in
      if operation = VStr (u ''currency.convert'') then
        convert (rate_source env) (rates_for env n) (rates_now env n) (currency_arguments request)
      else if operation = VStr (u ''expression.evaluate'') then
        local_operation env n (u ''expression.evaluate'') (expression_arguments request)
      else if operation = VStr (u ''units.convert'') then
        local_operation env n (u ''units.convert'') (units_arguments request)
      else Inl (calc ''E_OPERATION'' (u ''unsupported app operation: '' @ shown env operation)))"

text \<open>\<^verbatim>\<open>{"id": request_id, **result}\<close>.\<close>

definition with_id :: "pystr \<Rightarrow> pydict \<Rightarrow> pydict" where
  "with_id i result = foldl (\<lambda>d kv. AList.update (fst kv) (snd kv) d) [(u ''id'', VStr i)] result"

definition handle :: "app_env \<Rightarrow> nat \<Rightarrow> pyval \<Rightarrow> pydict" where
  "handle env n request =
     (case request of
        VDict d \<Rightarrow>
          (case dget_none d (u ''id'') of
             VStr i \<Rightarrow>
               if i = [] then app_error ''E_INPUT'' (u ''request id must be a non-empty string'')
               else
                 (case perform env n d of
                    Inr result \<Rightarrow> with_id i result
                  | Inl (CalcError code message details) \<Rightarrow>
                      [(u ''id'', VStr i), (u ''status'', VStr (u ''error'')), (u ''error'', VDict (as_dict code message details))]
                  | Inl e \<Rightarrow> with_id i (app_error ''E_RUNTIME'' (u ''app runtime failed: '' @ exn_text e)))
           | _ \<Rightarrow> app_error ''E_INPUT'' (u ''request id must be a non-empty string''))
      | _ \<Rightarrow> app_error ''E_INPUT'' (u ''request must be an object''))"

text \<open>\<^verbatim>\<open>_write_response\<close>: standard output is UTF-8, which has no lone surrogates.\<close>

definition encode_error :: pyexn where
  "encode_error = PyExn (u ''UnicodeEncodeError'') (u ''surrogates not allowed'')"

definition response_text :: "app_env \<Rightarrow> pydict \<Rightarrow> pyexn + pystr" where
  "response_text env response =
     rbind (json_text (app_python env) False True (VDict response)) (\<lambda>t.
       demand (utf8_len t \<noteq> None) encode_error (Inr (t @ [10])))"

section \<open>One line\<close>

definition app_oversize :: pyexn where
  "app_oversize =
     PyExn (u ''ValueError'')
       (u ''app request exceeds the cumulative '' @ int_text (int MAX_REQUEST_BYTES) @ u ''-byte transport limit'')"

definition read_app_line :: "nat list \<Rightarrow> (pyexn + nat list option) \<times> nat list" where
  "read_app_line bs =
     (case readline (Suc MAX_REQUEST_BYTES) bs of (line, rest) \<Rightarrow>
        if line = [] then (Inr None, rest)
        else if MAX_REQUEST_BYTES < length line then (Inl app_oversize, drop_line line rest)
        else (Inr (Some line), rest))"

text \<open>
  What the loop makes of what it read: a response, a conversion for the executor, or the exception that
  ends the loop. \<open>_dispatch\<close> and the clause around it.
\<close>

datatype line_outcome = Said pystr | Queued pydict | Fatal pyexn

definition said :: "pyexn + pystr \<Rightarrow> line_outcome" where
  "said r = (case r of Inl e \<Rightarrow> Fatal e | Inr t \<Rightarrow> Said t)"

definition dispatch :: "app_env \<Rightarrow> nat \<Rightarrow> pyval \<Rightarrow> line_outcome" where
  "dispatch env n request =
     (if is_dict request \<and> dget_none (dict_val request) (u ''operation'') = VStr (u ''currency.convert'')
      then Queued (dict_val request)
      else said (response_text env (handle env n request)))"

definition app_line :: "app_env \<Rightarrow> nat \<Rightarrow> pyexn + nat list \<Rightarrow> line_outcome" where
  "app_line env n line =
     (case line of
        Inl e \<Rightarrow> said (response_text env (app_error ''E_LIMIT'' (exn_text e)))
      | Inr bytes \<Rightarrow>
          (case json_loads_bytes (app_reader env) bytes of
             Inr request \<Rightarrow> dispatch env n request
           | Inl (PyExn cls message) \<Rightarrow>
               if cls = u ''JSONDecodeError'' then
                 said (response_text env (app_error ''E_INPUT'' (u ''invalid JSON: '' @ json_message env bytes)))
               else if cls = u ''UnicodeDecodeError'' then
                 said (response_text env (app_error ''E_INPUT'' (u ''invalid JSON: invalid UTF-8'')))
               else Fatal (PyExn cls message)
           | Inl e \<Rightarrow> Fatal e))"

section \<open>The process\<close>

text \<open>
  The main loop reads while the two threads of the executor convert: requests wait in the order they were
  submitted, and whichever conversion ends first answers first. A conversion whose answer cannot be written
  leaves its exception in a future nobody looks at. After the loop has ended, also by an exception, the
  process waits for the executor.
\<close>

record app_state =
  app_input :: "nat list"
  app_output :: "pystr list"
  app_reads :: nat
  app_ended :: "pyexn option option"
  waiting :: "(nat \<times> pydict) list"
  converting :: "(nat \<times> pydict) list"

definition CONVERSION_THREADS :: nat where "CONVERSION_THREADS = 2"

definition ready_line :: pystr where
  "ready_line = u ''{'' @ [34] @ u ''status'' @ [34] @ u '':'' @ [34] @ u ''ready'' @ [34] @ u ''}'' @ [10]"

definition app_start :: "nat list \<Rightarrow> app_state" where
  "app_start bs = \<lparr>app_input = bs, app_output = [ready_line], app_reads = 0, app_ended = None, waiting = [], converting = []\<rparr>"

definition conversion_text :: "app_env \<Rightarrow> nat \<times> pydict \<Rightarrow> pyexn + pystr" where
  "conversion_text env r = response_text env (handle env (fst r) (VDict (snd r)))"

definition read_one :: "app_env \<Rightarrow> app_state \<Rightarrow> app_state" where
  "read_one env s =
     (case read_app_line (app_input s) of
        (Inr None, rest) \<Rightarrow> s\<lparr>app_input := rest, app_ended := Some None\<rparr>
      | (line, rest) \<Rightarrow>
          (let s = s\<lparr>app_input := rest, app_reads := Suc (app_reads s)\<rparr> in
           case app_line env (app_reads s - 1) (case line of Inl e \<Rightarrow> Inl e | Inr l \<Rightarrow> Inr (the l)) of
             Said t \<Rightarrow> s\<lparr>app_output := app_output s @ [t]\<rparr>
           | Queued d \<Rightarrow> s\<lparr>waiting := waiting s @ [(app_reads s - 1, d)]\<rparr>
           | Fatal e \<Rightarrow> s\<lparr>app_ended := Some (Some e)\<rparr>))"

datatype app_event = Read | Begin | Convert nat

inductive app_step :: "app_env \<Rightarrow> app_state \<Rightarrow> app_event \<Rightarrow> app_state \<Rightarrow> bool" for env where
  read: "app_ended s = None \<Longrightarrow> app_step env s Read (read_one env s)"
| begin_conversion: "waiting s = r # rs \<Longrightarrow> length (converting s) < CONVERSION_THREADS \<Longrightarrow>
    app_step env s Begin (s\<lparr>waiting := rs, converting := converting s @ [r]\<rparr>)"
| convert: "i < length (converting s) \<Longrightarrow>
    app_step env s (Convert i)
      (s\<lparr>converting := take i (converting s) @ drop (Suc i) (converting s),
         app_output := app_output s @ (case conversion_text env (converting s ! i) of Inl _ \<Rightarrow> [] | Inr t \<Rightarrow> [t])\<rparr>)"

definition app_finished :: "app_state \<Rightarrow> bool" where
  "app_finished s \<longleftrightarrow> app_ended s \<noteq> None \<and> waiting s = [] \<and> converting s = []"

inductive_cases app_step_cases: "app_step env s e s'"

section \<open>Every line is answered\<close>

lemma read_app_line_eq:
  "read_app_line bs = (case read_request_line bs of (r, rest) \<Rightarrow> (case r of Inl _ \<Rightarrow> Inl app_oversize | Inr l \<Rightarrow> Inr l, rest))"
  by (simp add: read_app_line_def read_request_line_def split: prod.split)

lemma read_app_line_line:
  "request_line l \<Longrightarrow> read_app_line (l @ rest) = (if MAX_REQUEST_BYTES < length l then Inl app_oversize else Inr (Some l), rest)"
  by (simp add: read_app_line_eq read_request_line_line)

lemma read_app_line_empty: "read_app_line [] = (Inr None, [])"
  by (simp add: read_app_line_def)

text \<open>What the line of number \<open>i\<close> comes to, and the texts it is answered in the end.\<close>

definition line_result :: "app_env \<Rightarrow> nat \<Rightarrow> nat list \<Rightarrow> line_outcome" where
  "line_result env i l = app_line env i (if MAX_REQUEST_BYTES < length l then Inl app_oversize else Inr l)"

definition conversion_answers :: "app_env \<Rightarrow> nat \<times> pydict \<Rightarrow> pystr list" where
  "conversion_answers env r = (case conversion_text env r of Inl _ \<Rightarrow> [] | Inr t \<Rightarrow> [t])"

definition answers :: "app_env \<Rightarrow> nat \<Rightarrow> nat list \<Rightarrow> pystr list" where
  "answers env i l =
     (case line_result env i l of Said t \<Rightarrow> [t] | Queued d \<Rightarrow> conversion_answers env (i, d) | Fatal _ \<Rightarrow> [])"

definition local_answers :: "app_env \<Rightarrow> nat \<Rightarrow> nat list \<Rightarrow> pystr list" where
  "local_answers env i l = (case line_result env i l of Said t \<Rightarrow> [t] | _ \<Rightarrow> [])"

fun all_lines :: "(nat \<Rightarrow> nat list \<Rightarrow> pystr list) \<Rightarrow> nat list list \<Rightarrow> nat \<Rightarrow> pystr list" where
  "all_lines f ls 0 = []"
| "all_lines f ls (Suc k) = all_lines f ls k @ f k (ls ! k)"

definition owed :: "app_env \<Rightarrow> app_state \<Rightarrow> pystr multiset" where
  "owed env s = mset (concat (map (conversion_answers env) (waiting s @ converting s)))"

text \<open>Whether the loop is over, and how, after the first \<open>k\<close> lines.\<close>

definition end_ok :: "app_env \<Rightarrow> nat list list \<Rightarrow> nat \<Rightarrow> pyexn option option \<Rightarrow> bool" where
  "end_ok env ls k ended \<longleftrightarrow>
     (case ended of
        None \<Rightarrow> \<forall>i < k. \<nexists>e. line_result env i (ls ! i) = Fatal e
      | Some None \<Rightarrow> k = length ls \<and> (\<forall>i < k. \<nexists>e. line_result env i (ls ! i) = Fatal e)
      | Some (Some e) \<Rightarrow> 0 < k \<and> line_result env (k - 1) (ls ! (k - 1)) = Fatal e
          \<and> (\<forall>i < k - 1. \<nexists>e. line_result env i (ls ! i) = Fatal e))"

definition app_inv :: "app_env \<Rightarrow> nat list list \<Rightarrow> app_state \<Rightarrow> bool" where
  "app_inv env ls s \<longleftrightarrow>
     (\<forall>l \<in> set ls. request_line l) \<and> app_reads s \<le> length ls \<and> app_input s = concat (drop (app_reads s) ls)
     \<and> end_ok env ls (app_reads s) (app_ended s) \<and> length (converting s) \<le> CONVERSION_THREADS
     \<and> mset (app_output s) + owed env s = {#ready_line#} + mset (all_lines (answers env) ls (app_reads s))
     \<and> subseq (ready_line # all_lines (local_answers env) ls (app_reads s)) (app_output s)"

definition app_init :: "nat list list \<Rightarrow> app_state \<Rightarrow> bool" where
  "app_init ls s \<longleftrightarrow> s = app_start (concat ls) \<and> (\<forall>l \<in> set ls. request_line l)"

lemma app_init_inv: "app_init ls s \<Longrightarrow> app_inv env ls s"
  by (auto simp: app_init_def app_inv_def app_start_def end_ok_def owed_def)

lemma subseq_more: "subseq xs ys \<Longrightarrow> subseq xs (ys @ zs)"
  using list_emb_append_mono [of "(=)" xs ys "[]" zs] by simp

lemma read_one_line:
  assumes "app_inv env ls s" and "app_ended s = None" and "app_reads s < length ls"
  shows "app_inv env ls (read_one env s)"
proof -
  let ?k = "app_reads s"
  let ?l = "ls ! ?k"
  have line: "request_line ?l" using assms by (simp add: app_inv_def)
  have input: "app_input s = ?l @ concat (drop (Suc ?k) ls)"
    using assms by (simp add: app_inv_def flip: Cons_nth_drop_Suc)
  have fine: "\<forall>i < ?k. \<nexists>e. line_result env i (ls ! i) = Fatal e" using assms by (simp add: app_inv_def end_ok_def)
  note keep = assms(1) [unfolded app_inv_def]
  have result: "read_one env s = (let s = s\<lparr>app_input := concat (drop (Suc ?k) ls), app_reads := Suc ?k\<rparr> in
      case line_result env ?k ?l of
        Said t \<Rightarrow> s\<lparr>app_output := app_output s @ [t]\<rparr>
      | Queued d \<Rightarrow> s\<lparr>waiting := waiting s @ [(?k, d)]\<rparr>
      | Fatal e \<Rightarrow> s\<lparr>app_ended := Some (Some e)\<rparr>)"
    unfolding read_one_def input read_app_line_line [OF line] by (simp add: line_result_def Let_def split: line_outcome.split)
  show ?thesis
  proof (cases "line_result env ?k ?l")
    case (Said t)
    have "subseq (ready_line # all_lines (local_answers env) ls ?k @ [t]) (app_output s @ [t])"
      using keep list_emb_append_mono [of "(=)" "ready_line # all_lines (local_answers env) ls ?k" "app_output s" "[t]" "[t]"] by simp
    then show ?thesis using keep assms(2,3) fine Said
      by (auto simp: result app_inv_def end_ok_def owed_def answers_def local_answers_def less_Suc_eq Let_def)
  next
    case (Queued d)
    then show ?thesis using keep assms(2,3) fine
      by (auto simp: result app_inv_def end_ok_def owed_def answers_def local_answers_def less_Suc_eq Let_def ac_simps)
  next
    case (Fatal e)
    then show ?thesis using keep assms(2,3) fine
      by (auto simp: result app_inv_def end_ok_def owed_def answers_def local_answers_def less_Suc_eq Let_def)
  qed
qed

lemma concat_map_remove:
  assumes "i < length rs"
  shows "mset (concat (map f rs)) = mset (f (rs ! i)) + mset (concat (map f (take i rs @ drop (Suc i) rs)))"
  by (subst id_take_nth_drop [OF assms]) simp

lemma app_step_inv:
  assumes "app_inv env ls s" and "app_step env s e s'" shows "app_inv env ls s'"
  using assms(2)
proof cases
  case read
  show ?thesis
  proof (cases "app_reads s < length ls")
    case True
    then show ?thesis using read_one_line [OF assms(1) read(3)] read by simp
  next
    case False
    then have "app_reads s = length ls" "app_input s = []" using assms(1) by (auto simp: app_inv_def)
    then show ?thesis using assms(1) read by (simp add: read_one_def read_app_line_empty app_inv_def end_ok_def owed_def)
  qed
next
  case (begin_conversion r rs)
  then show ?thesis using assms(1) by (auto simp: app_inv_def owed_def ac_simps)
next
  case (convert i)
  then show ?thesis
    using assms(1) concat_map_remove [OF convert(3), of "conversion_answers env"]
    by (auto simp: app_inv_def owed_def conversion_answers_def ac_simps intro: subseq_more split: sum.splits)
qed

interpretation app_system: guarded_system "app_init ls" "app_step env" "app_inv env ls" for ls env
  by unfold_locales (auto intro: app_init_inv app_step_inv)


section \<open>The process ends\<close>

definition app_work :: "app_state \<Rightarrow> nat" where
  "app_work s = 3 * length (app_input s) + 2 * length (waiting s) + length (converting s) + (if app_ended s = None then 1 else 0)"

lemma app_step_work:
  assumes "app_step env s e s'" shows "app_work s' < app_work s"
  using assms
proof cases
  case read
  obtain line rest where r: "read_app_line (app_input s) = (line, rest)" by fastforce
  then obtain line' where r': "read_request_line (app_input s) = (line', rest)" "line = Inr None \<longleftrightarrow> line' = Inr None"
    by (auto simp: read_app_line_eq split: prod.splits sum.splits)
  have "length rest < length (app_input s)" if "line \<noteq> Inr None" using read_request_progress [OF r'(1)] r'(2) that by simp
  moreover have "length rest \<le> length (app_input s)" if "line = Inr None"
    using r that readline_append [of "Suc MAX_REQUEST_BYTES" "app_input s"] by (auto simp: read_app_line_def split: prod.splits if_splits)
  ultimately show ?thesis using read
    by (cases line; cases "projr line") (auto simp: app_work_def read_one_def r Let_def split: line_outcome.splits option.splits)
next
  case (begin_conversion r rs)
  then show ?thesis by (simp add: app_work_def)
next
  case (convert i)
  then show ?thesis by (simp add: app_work_def)
qed

text \<open>
  The process ends: a run on finite input has at most three steps for each byte and one more, and the only
  states without a step are those in which the loop is over and nothing is left to convert. As long as the
  loop is not over it can read its next line, whatever the conversions do.
\<close>

theorem app_run_ends:
  "(\<forall>es s. run (app_step env) (app_start bs) es s \<longrightarrow> length es \<le> 3 * length bs + 1)
   \<and> (\<forall>s. (\<nexists>e s'. app_step env s e s') \<longleftrightarrow> app_finished s)
   \<and> (\<forall>s. app_ended s = None \<longrightarrow> (\<exists>s'. app_step env s Read s'))"
proof (intro conjI allI impI)
  fix es s assume "run (app_step env) (app_start bs) es s"
  moreover have "length es + app_work t \<le> app_work s" if "run (app_step env) s es t" for s es t
    using that by (induction rule: run.induct) (auto dest: app_step_work)
  ultimately show "length es \<le> 3 * length bs + 1" by (fastforce simp: app_work_def app_start_def)
next
  fix s :: app_state show "(\<nexists>e s'. app_step env s e s') \<longleftrightarrow> app_finished s"
  proof
    assume stuck: "\<nexists>e s'. app_step env s e s'"
    have "app_ended s \<noteq> None" using stuck app_step.read by blast
    moreover have none: "converting s = []" using stuck app_step.convert [of 0 s env] by blast
    moreover have "waiting s = []"
    proof (cases "waiting s")
      case (Cons r rs)
      then show ?thesis using stuck app_step.begin_conversion [OF Cons, of env] none by (auto simp: CONVERSION_THREADS_def)
    qed
    ultimately show "app_finished s" by (simp add: app_finished_def)
  next
    assume "app_finished s"
    then show "\<nexists>e s'. app_step env s e s'" by (auto simp: app_finished_def elim: app_step_cases)
  qed
next
  fix s :: app_state assume "app_ended s = None"
  then show "\<exists>s'. app_step env s Read s'" by (blast intro: app_step.read)
qed

section \<open>Responses and their identifiers\<close>

lemma with_id_keeps: "u ''id'' \<notin> fst ` set result \<Longrightarrow> dget_none (with_id i result) (u ''id'') = VStr i"
proof -
  have "dget_none (foldl (\<lambda>d kv. AList.update (fst kv) (snd kv) d) d result) k = dget_none d k" if "k \<notin> fst ` set result" for d k
    using that by (induction result arbitrary: d) (auto simp: dget_none_def dict_simps)
  then show "u ''id'' \<notin> fst ` set result \<Longrightarrow> ?thesis" by (simp add: with_id_def dget_none_def dget_def)
qed

lemma convert_keys:
  assumes "convert host f now arguments = Inr r"
  shows "map fst r = map u [''status'', ''operation'', ''kind'', ''exact'', ''approx'', ''precision'', ''unit'', ''from'', ''rate'', ''warnings'']"
proof -
  obtain c s flags where answer: "convert_answer host c now (s, flags) = Inr r" using assms by (auto simp: convert_def rbind_eq_Inr)
  then obtain source target where "map_of (rates s) (from_currency c) = Some source" "map_of (rates s) (to_currency c) = Some target"
    by (auto simp: convert_answer_def split: prod.splits option.splits)
  then show ?thesis using answer by (auto simp: convert_answer_def rbind_eq_Inr split: prod.splits)
qed

lemma convert_no_id: "convert host f now arguments = Inr r \<Longrightarrow> u ''id'' \<notin> fst ` set r"
  using convert_keys [of host f now arguments r] unfolding set_map [symmetric] by (simp add: u_def)

definition no_id :: "app_env \<Rightarrow> bool" where
  "no_id env \<longleftrightarrow> (\<forall>n op arguments r. local_operation env n op arguments = Inr r \<longrightarrow> u ''id'' \<notin> fst ` set r)"

lemma perform_no_id: "no_id env \<Longrightarrow> perform env n d = Inr r \<Longrightarrow> u ''id'' \<notin> fst ` set r"
  by (auto simp: perform_def no_id_def Let_def split: if_splits dest: convert_no_id)

text \<open>
  A response carries the identifier of its request, if the local operations put none of their own into
  their results, and what is no object with an identifier is refused with \<^verbatim>\<open>E_INPUT\<close>; an operation that
  fails is answered with the code of its error, or \<^verbatim>\<open>E_RUNTIME\<close>.
\<close>

theorem response_carries_id:
  assumes "no_id env"
  shows "(\<forall>d i. dget_none d (u ''id'') = VStr i \<and> i \<noteq> [] \<longrightarrow>
        dget_none (handle env n (VDict d)) (u ''id'') = VStr i
        \<and> (\<forall>e. perform env n d = Inl e \<longrightarrow> dget_none (handle env n (VDict d)) (u ''status'') = VStr (u ''error'')
            \<and> (\<exists>error. dget_none (handle env n (VDict d)) (u ''error'') = VDict error
                 \<and> dget_none error (u ''code'') = VStr (case e of CalcError code _ _ \<Rightarrow> code | _ \<Rightarrow> u ''E_RUNTIME''))))
    \<and> (\<forall>request. (\<forall>d i. request = VDict d \<longrightarrow> dget_none d (u ''id'') = VStr i \<longrightarrow> i = []) \<longrightarrow>
        (\<exists>message. handle env n request = app_error ''E_INPUT'' message))"
proof (intro conjI allI impI)
  fix d i assume i: "dget_none d (u ''id'') = VStr i \<and> i \<noteq> []"
  have error: "u ''id'' \<notin> fst ` set (app_error c m)" for c m by (simp add: app_error_def u_def)
  show "dget_none (handle env n (VDict d)) (u ''id'') = VStr i"
  proof (cases "perform env n d")
    case (Inl e)
    then show ?thesis using i with_id_keeps [OF error] by (cases e) (simp_all add: handle_def dget_none_def dget_def)
  next
    case (Inr r)
    then show ?thesis using i with_id_keeps [OF perform_no_id [OF assms Inr]] by (simp add: handle_def)
  qed
  fix e assume e: "perform env n d = Inl e"
  then show "dget_none (handle env n (VDict d)) (u ''status'') = VStr (u ''error'')"
    using i by (cases e) (simp_all add: handle_def with_id_def app_error_def dget_none_def dget_def u_def)
  show "\<exists>error. dget_none (handle env n (VDict d)) (u ''error'') = VDict error
      \<and> dget_none error (u ''code'') = VStr (case e of CalcError code _ _ \<Rightarrow> code | _ \<Rightarrow> u ''E_RUNTIME'')"
    using i e by (cases e) (simp_all add: handle_def with_id_def app_error_def dget_none_def dget_def u_def as_dict_def error_payload_def Let_def split: option.split)
next
  fix request assume "\<forall>d i. request = VDict d \<longrightarrow> dget_none d (u ''id'') = VStr i \<longrightarrow> i = []"
  then show "\<exists>message. handle env n request = app_error ''E_INPUT'' message"
    by (auto simp: handle_def split: pyval.splits)
qed

section \<open>What ends the process\<close>

lemma join_contains: "t \<in> set ts \<Longrightarrow> set t \<subseteq> set (join sep ts)"
  by (induction sep ts rule: join.induct) auto

lemma utf8_len_None: "utf8_len s = None \<longleftrightarrow> (\<exists>c \<in> set s. utf8_cp_len c = None)"
  by (induction s) (auto split: option.splits)

lemma rmap_image: "rmap f xs = Inr ys \<Longrightarrow> x \<in> set xs \<Longrightarrow> \<exists>y \<in> set ys. f x = Inr y"
  by (induction xs arbitrary: ys) (auto simp: rbind_eq_Inr)

lemma json_text_member:
  assumes "json_text py False nan (VDict d) = Inr t" and "(k, VStr s) \<in> set d" and "utf8_len s = None"
  shows "utf8_len t = None"
proof -
  obtain c where c: "c \<in> set s" "utf8_cp_len c = None" using assms(3) by (auto simp: utf8_len_None)
  then have "json_escape_cp c = [c]" by (auto simp: json_escape_cp_def utf8_cp_len_def split: if_splits)
  then have "c \<in> set (json_string s)" using c(1) by (force simp: json_string_def)
  obtain ts where ts: "rmap (\<lambda>kv. rbind (json_text py False nan (snd kv)) (\<lambda>t. Inr (json_string (fst kv) @ [58] @ t))) (item_order False d) = Inr ts"
    "t = [123] @ join [44] ts @ [125]" using assms(1) by (auto simp: rbind_eq_Inr)
  have "(k, VStr s) \<in> set (item_order False d)" using assms(2) by simp
  from rmap_image [OF ts(1) this] have "json_string k @ [58] @ json_string s \<in> set ts" by auto
  then have "c \<in> set t" using join_contains \<open>c \<in> set (json_string s)\<close> unfolding ts(2) by fastforce
  then show ?thesis using c(2) by (auto simp: utf8_len_None)
qed

lemma dget_none_mem: "dget_none d k = VStr s \<Longrightarrow> (k, VStr s) \<in> set d"
  by (auto simp: dget_none_def dget_def dest: map_of_SomeD split: option.splits)

text \<open>
  C25: The JSON escape of a lone surrogate is accepted where a response cannot contain it: a request whose
  identifier has one ends the process, or is never answered if it is a conversion.
\<close>

theorem surrogate_id_ends_runtime:
  assumes "no_id env" and "json_loads_bytes (app_reader env) l = Inr (VDict d)" and "dget_none d (u ''id'') = VStr i"
    and "utf8_len i = None"
  shows "if dget_none d (u ''operation'') = VStr (u ''currency.convert'')
    then app_line env n (Inr l) = Queued d \<and> conversion_answers env (m, d) = []
    else \<exists>e. app_line env n (Inr l) = Fatal e"
proof -
  have "i \<noteq> []" using assms(4) by auto
  then have "dget_none (handle env m (VDict d)) (u ''id'') = VStr i" for m
    using assms(3) perform_no_id [OF assms(1)] with_id_keeps
    by (auto simp: handle_def app_error_def u_def dget_none_def dget_def split: sum.splits pyexn.splits)
  then have "utf8_len t = None" if "json_text (app_python env) False True (VDict (handle env m (VDict d))) = Inr t" for m t
    using json_text_member [OF that dget_none_mem assms(4)] by blast
  then have "\<exists>e. response_text env (handle env m (VDict d)) = Inl e" for m
    by (cases "json_text (app_python env) False True (VDict (handle env m (VDict d)))")
      (simp_all add: response_text_def del: json_text.simps)
  then obtain e e' where "response_text env (handle env n (VDict d)) = Inl e" "response_text env (handle env m (VDict d)) = Inl e'"
    by blast
  then show ?thesis
    by (simp add: app_line_def assms(2) dispatch_def said_def conversion_answers_def conversion_text_def)
qed

lemma long_integer:
  assumes "int_digits rd < n" and "0 < int_digits rd"
  shows "json_decode rd (replicate n 49 @ [10]) = Inl digit_limit_error"
proof -
  obtain k where n: "n = Suc k" using assms(1) by (cases n) simp_all
  let ?s = "replicate n 49 @ [10]"
  have "skip_space ?s = ?s" by (simp add: n skip_space_def json_space_def)
  moreover have "takeWhile is_digit ?s = replicate n 49"
    by (simp add: takeWhile_append is_digit_def)
  then have "number_parts ?s = Some (replicate n 49, [], [10])"
    by (simp add: number_parts_def whole_part_def n frac_part_def exp_part_def Let_def)
  then have "scan_number rd ?s = Inl digit_limit_error" using assms n by (simp add: scan_number_def)
  then have "json_scalar rd ?s = Inl digit_limit_error"
    by (simp add: json_scalar_def n literals_def starts_with_def u_def)
  then have "json_value rd m ?s = Inl digit_limit_error" for m by (cases m) (simp_all add: n)
  ultimately show ?thesis by (simp add: json_decode_def)
qed

text \<open>
  A line that is an integer of more digits than the interpreter converts is valid JSON; the exception its
  reading raises is not one the loop catches, and the process ends.
\<close>

theorem long_integer_ends_runtime:
  assumes "int_digits (app_reader env) < n" and "0 < int_digits (app_reader env)" and "n < MAX_REQUEST_BYTES"
    and "bytes_text (app_reader env) (replicate n 49 @ [10]) = Inr (replicate n 49 @ [10])"
  shows "request_line (replicate n 49 @ [10]) \<and> line_result env i (replicate n 49 @ [10]) = Fatal digit_limit_error"
  using assms(3,4) long_integer [OF assms(1,2)]
  by (auto simp: request_line_def line_result_def app_line_def json_loads_bytes_def digit_limit_error_def u_def)

section \<open>A concrete process\<close>

definition sample_app :: app_env where
  "sample_app =
     \<lparr>app_python = \<lparr>float_text = (\<lambda>_. []), sha256 = (\<lambda>_. []), digit_limit = 4300\<rparr>,
      app_reader = \<lparr>text_float = (\<lambda>_. FFin 0), bytes_text = Inr, int_digits = 4300, max_nesting = 1000\<rparr>,
      json_message = (\<lambda>_. u ''Expecting value''), shown = (\<lambda>_. []),
      local_operation = (\<lambda>_ _ _. Inr [(u ''status'', VStr (u ''ok''))]),
      rate_source = sample_host, rates_for = (\<lambda>_ _. Inl unavailable), rates_now = (\<lambda>_. 0)\<rparr>"

lemma sample_no_id: "no_id sample_app"
  by (simp add: no_id_def sample_app_def u_def)

lemma sample_empty_line: "\<exists>t. line_result sample_app i [10] = Said t"
proof -
  have "json_loads_bytes (app_reader sample_app) [10] = Inl json_error"
    by (simp add: sample_app_def json_loads_bytes_def json_decode_def skip_space_def json_space_def
        eval_nat_numeral json_scalar_def literals_def starts_with_def u_def scan_number_def number_parts_def whole_part_def
        json_error_def del: json_value.simps(2)) (simp add: json_scalar_def literals_def starts_with_def u_def scan_number_def
        number_parts_def whole_part_def json_error_def)
  then show ?thesis
    by (simp add: line_result_def app_line_def json_error_def MAX_REQUEST_BYTES_def said_def response_text_def app_error_def sample_app_def
        item_order_def json_string_def json_escape_cp_def u_def utf8_cp_len_def)
qed


theorem app_run_ends_witness:
  "length [Read] \<le> 3 * length [10::nat] + 1 \<and> (\<exists>s. app_step sample_app (app_start [10]) Read s)"
proof -
  obtain s where s: "app_step sample_app (app_start [10]) Read s"
    using app_run_ends [of sample_app "[10]"] by (force simp: app_start_def)
  have "run (app_step sample_app) (app_start [10]) [Read] s" using s by (auto simp: run_Cons_iff)
  with app_run_ends [of sample_app "[10]"] have "length [Read] \<le> 3 * length [10::nat] + 1" by blast
  then show ?thesis using s by blast
qed

theorem response_carries_id_witness:
  "dget_none (handle sample_app 0 (VDict [(u ''id'', VStr (u ''7''))])) (u ''id'') = VStr (u ''7'')"
  using response_carries_id [OF sample_no_id, of 0] by (simp add: dget_none_def dget_def u_def)

theorem surrogate_id_ends_runtime_witness:
  "\<exists>e. app_line sample_app 0 (Inr (u ''{'' @ [34] @ u ''id'' @ [34] @ u '':'' @ [34, 92] @ u ''ud800'' @ [34] @ u ''}'' @ [10])) = Fatal e"
proof -
  let ?l = "u ''{'' @ [34] @ u ''id'' @ [34] @ u '':'' @ [34, 92] @ u ''ud800'' @ [34] @ u ''}'' @ [10]"
  have nest: "json_value rd 1000 (123 # s) = (let r = skip_space s in
      if take 1 r = [125] then Inr (VDict [], drop 1 r)
      else rbind (json_members (Suc (length s)) (json_value rd 999) [] r) (\<lambda>(d, r). Inr (VDict d, r)))" for rd s
    using json_value.simps(2) [of rd 999] by (simp add: Let_def)
  have scalar: "json_value rd 999 (34 # s) = json_scalar rd (34 # s)" for rd s
    using json_value.simps(2) [of rd 998] by simp
  have name: "scan_string [105, 100, 34, 58, 34, 92, 117, 100, 56, 48, 48, 34, 125, 10]
      = Inr ([105, 100], [58, 34, 92, 117, 100, 56, 48, 48, 34, 125, 10])" by simp
  have escape: "scan_string [92, 117, 100, 56, 48, 48, 34, 125, 10] = Inr ([55296], [125, 10])"
    by (simp add: unicode_escape_def hex4_def hex_digit_def)
  have "json_value rd 999 [34, 92, 117, 100, 56, 48, 48, 34, 125, 10] = Inr (VStr [55296], [125, 10])" for rd
    by (simp add: scalar json_scalar_def escape del: scan_string.simps)
  then have "json_members (Suc m) (json_value rd 999) [] [34, 105, 100, 34, 58, 34, 92, 117, 100, 56, 48, 48, 34, 125, 10]
      = Inr ([([105, 100], VStr [55296])], [10])" for rd m
    by (simp add: name skip_space_def json_space_def del: scan_string.simps)
  then have "json_loads_bytes (app_reader sample_app) ?l = Inr (VDict [(u ''id'', VStr [55296])])"
    by (simp add: sample_app_def json_loads_bytes_def json_decode_def skip_space_def json_space_def u_def nest
        del: json_value.simps json_members.simps scan_string.simps)
  from surrogate_id_ends_runtime [OF sample_no_id this, of "[55296]" 0 0] show ?thesis
    by (simp add: dget_none_def dget_def u_def utf8_cp_len_def)
qed

theorem long_integer_ends_runtime_witness:
  "line_result sample_app 0 (replicate 4301 49 @ [10]) = Fatal digit_limit_error"
proof -
  have "bytes_text (app_reader sample_app) b = Inr b" for b by (simp add: sample_app_def)
  moreover have "int_digits (app_reader sample_app) = 4300" by (simp add: sample_app_def)
  ultimately show ?thesis by (intro long_integer_ends_runtime [THEN conjunct2]) (simp_all only:, simp_all add: MAX_REQUEST_BYTES_def)
qed

end
