(* ===== verification/Rounding.thy ===== *)
theory Rounding
  imports Py_Decimal
begin

text \<open>
  Decimal quantization and integer division (\<^verbatim>\<open>operations/rounding.py\<close>). The proofs show that what the
  reader admits is quantized exactly in all seven modes, so that no precision error can occur, and that the
  three modes of integer division answer the pair they are defined by.
\<close>

section \<open>Quantization\<close>

text \<open>\<^verbatim>\<open>Decimal.quantize\<close> in a context.\<close>

definition dec_invalid :: pyexn where
  "dec_invalid = PyExn (u ''InvalidOperation'') (u ''[<class 'decimal.InvalidOperation'>]'')"

fun dec_quantize :: "rounding \<Rightarrow> nat \<Rightarrow> decimal \<Rightarrow> decimal \<Rightarrow> pyexn + decimal" where
  "dec_quantize mode prec (DecFin s c e) (DecFin t d f) =
     (let k = nat (round_magnitude mode s (of_nat c * pow10 (e - f))) in
      demand (etiny prec \<le> f \<and> f \<le> EMAX \<and> digit_count k \<le> prec \<and> (k = 0 \<or> f + int (digit_count k) - 1 \<le> EMAX)) dec_invalid
        (Inr (DecFin s k f)))"
| "dec_quantize mode prec _ _ = Inl dec_invalid"

definition ROUNDING_MODES :: "(pystr \<times> rounding) list" where
  "ROUNDING_MODES =
     [(u ''half_even'', HalfEven), (u ''half_up'', HalfUp), (u ''half_down'', HalfDown), (u ''toward_zero'', RoundDown),
      (u ''away_from_zero'', RoundUp), (u ''ceiling'', RoundCeiling), (u ''floor'', RoundFloor)]"

definition MAX_DECIMAL_ADJUSTED_EXPONENT :: int where "MAX_DECIMAL_ADJUSTED_EXPONENT = 10000"

definition DECIMAL_CONTEXT_PRECISION :: nat where "DECIMAL_CONTEXT_PRECISION = 25000"

fun adjusted :: "decimal \<Rightarrow> int" where
  "adjusted (DecFin s c e) = e + int (digit_count c) - 1"
| "adjusted _ = 0"

fun is_signed :: "decimal \<Rightarrow> bool" where
  "is_signed (DecFin s c e) = s"
| "is_signed (DecInf s) = s"
| "is_signed DecNan = False"

fun is_zero :: "decimal \<Rightarrow> bool" where
  "is_zero (DecFin s c e) = (c = 0)"
| "is_zero _ = False"

definition finite_decimal :: "(nat \<Rightarrow> nat option) \<Rightarrow> pystr \<Rightarrow> pystr \<Rightarrow> pyexn + decimal" where
  "finite_decimal udigit text name =
     (case decimal_of_text udigit text of
        None \<Rightarrow> Inl (calc ''E_INPUT'' (name @ u '' must be decimal text''))
      | Some d \<Rightarrow>
          demand (dec_value d \<noteq> None) (calc ''E_DOMAIN'' (name @ u '' must be finite''))
         (demand (\<bar>adjusted d\<bar> \<le> MAX_DECIMAL_ADJUSTED_EXPONENT)
           (calc ''E_LIMIT'' (name @ u '' exponent magnitude must not exceed '' @ int_text MAX_DECIMAL_ADJUSTED_EXPONENT))
           (Inr d)))"

text \<open>What the arguments come to: the value, the mode and the step, with the fields that are echoed.\<close>

record quantization =
  quantize_action :: pystr
  source_text :: pystr
  quantized :: decimal
  mode_name :: pystr
  quantum :: decimal
  decimal_places :: "int option"
  significant_digits :: "int option"
  increment_text :: "pystr option"

definition quantum_one :: "int \<Rightarrow> decimal" where
  "quantum_one e = DecFin False 1 e"

definition read_quantization :: "(nat \<Rightarrow> nat option) \<Rightarrow> pydict \<Rightarrow> pyexn + quantization" where
  "read_quantization udigit arguments =
     rbind (enum_arg arguments (u ''action'') [u ''decimal_places'', u ''significant_digits'', u ''increment''] (u ''decimal_places'')) (\<lambda>action.
     rbind (string_arg arguments (u ''value'') VNone 256) (\<lambda>source.
     rbind (finite_decimal udigit source (u ''value'')) (\<lambda>value.
     rbind (enum_arg arguments (u ''roundingMode'') (map fst ROUNDING_MODES) (u ''half_even'')) (\<lambda>mode.
       let q = (\<lambda>quantum places digits increment.
         \<lparr>quantize_action = action, source_text = source, quantized = value, mode_name = mode, quantum = quantum,
          decimal_places = places, significant_digits = digits, increment_text = increment\<rparr>) in
       if action = u ''decimal_places'' then
         rbind (integer_arg arguments (u ''decimalPlaces'') 2 (-100) 100) (\<lambda>places.
           Inr (q (quantum_one (- places)) (Some places) None None))
       else if action = u ''significant_digits'' then
         rbind (integer_arg arguments (u ''significantDigits'') 6 1 100) (\<lambda>digits.
           Inr (q (quantum_one (if is_zero value then - digits + 1 else adjusted value - digits + 1)) None (Some digits) None))
       else
         rbind (string_arg arguments (u ''increment'') VNone 256) (\<lambda>text.
         rbind (finite_decimal udigit text (u ''increment'')) (\<lambda>step.
           demand (\<exists>x. dec_value step = Some x \<and> 0 < x) (calc ''E_DOMAIN'' (u ''increment must be positive''))
             (Inr (q step None None (Some text)))))))))"

definition round_mode :: "quantization \<Rightarrow> rounding" where
  "round_mode q = the (map_of ROUNDING_MODES (mode_name q))"

definition rounded_decimal :: "quantization \<Rightarrow> pyexn + decimal" where
  "rounded_decimal q =
     (let mode = round_mode q; prec = DECIMAL_CONTEXT_PRECISION in
      if quantize_action q = u ''increment'' then
        rbind (dec_divide mode prec (quantized q) (quantum q)) (\<lambda>ratio.
        rbind (dec_quantize mode prec ratio (quantum_one 0)) (\<lambda>multiple.
        rbind (dec_times mode prec multiple (quantum q)) (\<lambda>product.
          dec_quantize mode prec product (quantum q))))
      else dec_quantize mode prec (quantized q) (quantum q))"

text \<open>The handler: an \<^verbatim>\<open>InvalidOperation\<close> becomes \<^verbatim>\<open>E_LIMIT\<close>, another decimal signal \<^verbatim>\<open>E_DOMAIN\<close>.\<close>

definition quantize_error :: "pyexn \<Rightarrow> pyexn" where
  "quantize_error e =
     (if e = dec_invalid then calc ''E_LIMIT'' (u ''decimal quantization exceeded the supported precision range'')
      else calc ''E_DOMAIN'' (u ''decimal quantization failed: '' @ (case e of PyExn _ m \<Rightarrow> m | _ \<Rightarrow> [])))"

definition option_int :: "int option \<Rightarrow> pyval" where
  "option_int v = (case v of None \<Rightarrow> VNone | Some i \<Rightarrow> VInt i)"

definition direction_of :: "rat \<Rightarrow> rat \<Rightarrow> pystr" where
  "direction_of rounded value = (if value < rounded then u ''up'' else if rounded < value then u ''down'' else u ''unchanged'')"

definition quantize :: "(nat \<Rightarrow> nat option) \<Rightarrow> pydict \<Rightarrow> pyexn + pydict" where
  "quantize udigit arguments =
     rbind (read_quantization udigit arguments) (\<lambda>q.
       case rounded_decimal q of
         Inl e \<Rightarrow> Inl (quantize_error e)
       | Inr rounded \<Rightarrow>
           (let value = the (dec_value (quantized q)); result = the (dec_value rounded) in
            Inr [(u ''status'', VStr (u ''ok'')), (u ''operation'', VStr (u ''decimal.quantize'')),
                 (u ''kind'', VStr (u ''decimal_quantization'')), (u ''action'', VStr (quantize_action q)),
                 (u ''input'', VStr (source_text q)), (u ''result'', VStr (fixed_text rounded)),
                 (u ''quantum'', VStr (fixed_text (quantum q))), (u ''roundingMode'', VStr (mode_name q)),
                 (u ''changed'', VBool (result \<noteq> value)), (u ''direction'', VStr (direction_of result value)),
                 (u ''negativeZero'', VBool (is_zero rounded \<and> is_signed rounded)),
                 (u ''decimalPlaces'', option_int (decimal_places q)),
                 (u ''significantDigits'', option_int (significant_digits q)),
                 (u ''increment'', case increment_text q of None \<Rightarrow> VNone | Some t \<Rightarrow> VStr t), (u ''warnings'', VList [])]))"

section \<open>Integer division\<close>

text \<open>\<^verbatim>\<open>divmod\<close> rounds the quotient down, as \<open>div\<close> and \<open>mod\<close> do.\<close>

definition integer_text :: "interp \<Rightarrow> pydict \<Rightarrow> pystr \<Rightarrow> pyexn + int" where
  "integer_text py arguments name =
     rbind (string_arg arguments name VNone 1000) (\<lambda>text.
       demand (ascii_integer text) (calc ''E_INPUT'' (name @ u '' must be ASCII integer text'')) (int_of_text py text))"

definition divide_modes :: "pystr list" where
  "divide_modes = [u ''truncating'', u ''floor'', u ''euclidean'']"

definition quotient_remainder :: "pystr \<Rightarrow> int \<Rightarrow> int \<Rightarrow> int \<times> int" where
  "quotient_remainder mode dividend divisor =
     (if mode = u ''truncating'' then
        (let quo = \<bar>dividend\<bar> div \<bar>divisor\<bar>;
             quo = (if (dividend < 0) \<noteq> (divisor < 0) then - quo else quo) in
         (quo, dividend - divisor * quo))
      else if mode = u ''floor'' then (dividend div divisor, dividend mod divisor)
      else (if divisor < 0 then - (dividend div \<bar>divisor\<bar>) else dividend div \<bar>divisor\<bar>, dividend mod \<bar>divisor\<bar>))"

definition divide_integer :: "interp \<Rightarrow> pydict \<Rightarrow> pyexn + pydict" where
  "divide_integer py arguments =
     rbind (integer_text py arguments (u ''dividend'')) (\<lambda>dividend.
     rbind (integer_text py arguments (u ''divisor'')) (\<lambda>divisor.
     demand (divisor \<noteq> 0) (calc ''E_DOMAIN'' (u ''divisor must not be zero''))
    (rbind (enum_arg arguments (u ''divisionMode'') divide_modes (u ''truncating'')) (\<lambda>mode.
     case quotient_remainder mode dividend divisor of (quo, rem) \<Rightarrow>
       demand (dividend = divisor * quo + rem) (calc ''E_RUNTIME'' (u ''integer division invariant violated''))
      (rbind (int_str py dividend) (\<lambda>dividend_text.
       rbind (int_str py divisor) (\<lambda>divisor_text.
       rbind (int_str py quo) (\<lambda>quotient_text.
       rbind (int_str py rem) (\<lambda>remainder_text.
         Inr [(u ''status'', VStr (u ''ok'')), (u ''operation'', VStr (u ''integer.divide'')),
              (u ''kind'', VStr (u ''integer_division'')), (u ''divisionMode'', VStr mode),
              (u ''dividend'', VStr dividend_text), (u ''divisor'', VStr divisor_text),
              (u ''quotient'', VStr quotient_text), (u ''remainder'', VStr remainder_text),
              (u ''remainderNonnegative'', VBool (0 \<le> rem)),
              (u ''remainderMagnitudeLessThanDivisor'', VBool (\<bar>rem\<bar> < \<bar>divisor\<bar>)),
              (u ''warnings'', VList [])])))))))))"

section \<open>When a result fits\<close>

lemma digit_count_bound: "0 < k \<Longrightarrow> digit_count c \<le> k \<longleftrightarrow> c < 10 ^ k"
  using length_nat_text_le [of 10 k c] by (simp add: digit_count_def)

lemma digit_count_pos: "0 < digit_count c"
  using nat_text_ascii [of c] by (simp add: digit_count_def is_digits_def)

lemma dec_fix_succeeds:
  assumes x: "0 < x" and "0 < prec" and low: "- EMAX \<le> ilog10 x" and high: "ilog10 x < EMAX"
  shows "\<exists>d. dec_fix mode prec negative x ideal = Inr d"
proof -
  define q where "q = last_digit prec x"
  have q: "q = ilog10 x - int prec + 1" using low by (simp add: q_def last_digit_def etiny_def)
  define y where "y = x / pow10 q"
  define c where "c = nat (round_magnitude mode negative y)"
  have "x < pow10 (int prec + q)" using ilog10_bounds(2) [OF x] q by simp
  then have y: "0 \<le> y" "y < 10 ^ prec" using x by (simp_all add: y_def divide_less_eq pow10_add pow10_nat)
  have "round_magnitude mode negative y \<le> \<lceil>y\<rceil>"
    by (auto simp: round_magnitude_def Let_def ceiling_altdef split: rounding.splits)
  also have "\<lceil>y\<rceil> \<le> 10 ^ prec" using y(2) by (simp add: ceiling_le_iff)
  finally have "round_magnitude mode negative y \<le> 10 ^ prec" .
  then have top: "c \<le> 10 ^ prec" unfolding c_def by (simp add: nat_le_iff)
  define pair where "pair = (if of_int \<lfloor>y\<rfloor> = y then strip_zeros (nat (ideal - q)) c
    else if c = 10 ^ prec then (10 ^ (prec - 1), 1) else (c, 0))"
  obtain c' n where pair': "pair = (c', n)" by fastforce
  have fits: "c' = 0 \<or> int (digit_count c') - 1 + q + int n \<le> EMAX"
  proof (cases "of_int \<lfloor>y\<rfloor> = y")
    case True
    then have "round_magnitude mode negative y = \<lfloor>y\<rfloor>" using round_magnitude_near(4) y(1) by simp
    then have "of_int (round_magnitude mode negative y) = y" using True by simp
    then have "c < 10 ^ prec"
      using y unfolding c_def by (metis nat_less_iff of_int_0_le_iff of_int_less_iff of_int_numeral of_int_power of_nat_numeral of_nat_power)
    moreover have "c = c' * 10 ^ n" using True pair' strip_zeros_value [of "nat (ideal - q)" c c' n] by (simp add: pair_def)
    ultimately have less: "c' * 10 ^ n < 10 ^ prec" by simp
    show ?thesis
    proof (cases "c' = 0")
      case False
      then have "10 ^ (digit_count c' - 1 + n) < (10 :: nat) ^ prec"
        using less digit_count_bounds(1) [of c'] by (simp add: power_add) (meson le_less_trans mult_le_mono1)
      then have "digit_count c' - 1 + n < prec" by (simp add: power_strict_increasing_iff)
      then show ?thesis using q high digit_count_pos [of c'] by linarith
    qed simp
  next
    case inexact: False
    show ?thesis
    proof (cases "c = 10 ^ prec")
      case True
      then have "c' = 10 ^ (prec - 1)" "n = 1" using inexact pair' by (auto simp: pair_def)
      moreover have "digit_count (10 ^ (prec - 1)) \<le> prec" using assms(2) by (simp add: digit_count_bound power_strict_increasing)
      ultimately show ?thesis using q high by simp
    next
      case False
      then have "c' = c" "n = 0" using inexact pair' by (simp_all add: pair_def)
      moreover have "digit_count c \<le> prec" using False top assms(2) by (simp add: digit_count_bound)
      ultimately show ?thesis using q high by simp
    qed
  qed
  show ?thesis
    unfolding dec_fix_def Let_def q_def [symmetric] y_def [symmetric] c_def [symmetric] pair_def [symmetric] pair'
    using x fits by (simp add: demand_def)
qed

section \<open>Rounding twice\<close>

lemma round_magnitude_int: "round_magnitude mode negative (of_int n) = n"
  by (simp add: round_magnitude_def)

lemma round_magnitude_cases:
  fixes n :: int
  assumes "of_int n \<le> x" and "x < of_int n + 1"
  shows "round_magnitude mode negative x =
    (if x = of_int n then n
     else if mode = RoundDown \<or> mode = RoundCeiling \<and> negative \<or> mode = RoundFloor \<and> \<not> negative then n
     else if mode = RoundUp \<or> mode = RoundCeiling \<and> \<not> negative \<or> mode = RoundFloor \<and> negative then n + 1
     else if x < of_int n + 1/2 then n else if of_int n + 1/2 < x then n + 1
     else if mode = HalfDown \<or> mode = HalfEven \<and> even n then n else n + 1)"
proof -
  have floor: "\<lfloor>x\<rfloor> = n" using assms by (simp add: floor_eq_iff)
  show ?thesis unfolding round_magnitude_def floor Let_def by (cases mode) (auto simp: field_simps)
qed

text \<open>
  Rounding to a fine enough grid first makes no difference, unless the number is close to the middle of two
  integers without being it.
\<close>

lemma double_rounding:
  assumes x: "0 \<le> x" and q: "q < 0"
    and apart: "x \<noteq> of_int \<lfloor>x\<rfloor> + 1/2 \<Longrightarrow> pow10 q \<le> \<bar>x - (of_int \<lfloor>x\<rfloor> + 1/2)\<bar>"
  shows "round_magnitude mode negative (of_int (round_magnitude mode negative (x / pow10 q)) * pow10 q) = round_magnitude mode negative x"
proof -
  define n where "n = \<lfloor>x\<rfloor>"
  define M where "M = (10::int) ^ nat (- q)"
  have M: "pow10 q = 1 / of_int M" "0 < M" using q by (simp_all add: M_def pow10_def)
  have "even M" using q by (simp add: M_def)
  define X where "X = x * of_int M"
  define F where "F = \<lfloor>X\<rfloor>"
  define Y where "Y = round_magnitude mode negative X"
  have n: "of_int n \<le> x" "x < of_int n + 1" unfolding n_def by linarith+
  have F: "of_int F \<le> X" "X < of_int F + 1" unfolding F_def by linarith+
  have XM: "x / pow10 q = X" by (simp add: M X_def)
  have goal: ?thesis if "round_magnitude mode negative (of_int Y / of_int M) = round_magnitude mode negative x"
    using that unfolding XM unfolding Y_def [symmetric] M(1) by simp
  have "rat_of_int (n * M) \<le> X" using n(1) M(2) by (simp add: X_def mult_right_mono)
  then have nF: "n * M \<le> F" by (simp add: F_def le_floor_iff)
  have "X < rat_of_int ((n + 1) * M)" using n(2) M(2) by (simp add: X_def)
  then have Fn: "F < (n + 1) * M" by (simp add: F_def floor_less_iff)
  have Y: "Y = (if X = of_int F then F
     else if mode = RoundDown \<or> mode = RoundCeiling \<and> negative \<or> mode = RoundFloor \<and> \<not> negative then F
     else if mode = RoundUp \<or> mode = RoundCeiling \<and> \<not> negative \<or> mode = RoundFloor \<and> negative then F + 1
     else if X < of_int F + 1/2 then F else if of_int F + 1/2 < X then F + 1
     else if mode = HalfDown \<or> mode = HalfEven \<and> even F then F else F + 1)"
    unfolding Y_def by (rule round_magnitude_cases [OF F])
  show ?thesis
  proof (cases "X = of_int F")
    case True
    then have "of_int Y / of_int M = x" using Y M(2) by (simp add: X_def flip: True)
    then show ?thesis by (intro goal) simp
  next
    case off: False
    have "x \<noteq> of_int n" using off by (auto simp: X_def F_def simp flip: of_int_mult)
    have "x \<noteq> of_int n + 1/2"
    proof
      assume "x = of_int n + 1/2"
      then have "X = of_int (n * M + M div 2)" using \<open>even M\<close> by (simp add: X_def distrib_right real_of_int_div flip: of_int_mult) (metis dvd_div_mult_self mult.commute of_int_mult of_int_numeral nonzero_mult_div_cancel_right zero_neq_numeral)
      then show False using off by (simp add: F_def)
    qed
    then have far: "pow10 q \<le> \<bar>x - (of_int n + 1/2)\<bar>" using apart by (simp add: n_def)
    let ?y = "rat_of_int Y / of_int M"
    have "Y = F \<or> Y = F + 1" by (simp add: Y)
    then have range: "n * M \<le> Y" "Y \<le> (n + 1) * M" using nF Fn by auto
    have y: "of_int n \<le> ?y" "?y \<le> of_int n + 1"
    proof -
      have "rat_of_int (n * M) \<le> of_int Y" "rat_of_int Y \<le> of_int ((n + 1) * M)" using range by (simp_all only: of_int_le_iff)
      then show "of_int n \<le> ?y" "?y \<le> of_int n + 1" using M(2) by (simp_all add: le_divide_eq divide_le_eq)
    qed
    consider (down) "mode = RoundDown \<or> mode = RoundCeiling \<and> negative \<or> mode = RoundFloor \<and> \<not> negative"
      | (up) "mode = RoundUp \<or> mode = RoundCeiling \<and> \<not> negative \<or> mode = RoundFloor \<and> negative"
      | (half) "mode \<in> {HalfEven, HalfUp, HalfDown}" by (cases mode; cases negative) auto
    then show ?thesis
    proof cases
      case down
      then have "Y = F" by (simp add: Y)
      then have "rat_of_int Y < of_int ((n + 1) * M)" using Fn by (simp only: of_int_less_iff)
      then have "?y < of_int n + 1" using M(2) by (simp add: divide_less_eq)
      show ?thesis
        by (rule goal, subst (1 2) round_magnitude_cases [of n]) (use y n down \<open>?y < of_int n + 1\<close> \<open>x \<noteq> of_int n\<close> in auto)
    next
      case up
      then have "Y = F + 1" using off by (auto simp: Y)
      then have "rat_of_int (n * M) < of_int Y" using nF by (simp only: of_int_less_iff)
      then have "of_int n < ?y" using M(2) by (simp add: less_divide_eq)
      moreover have "?y = of_int (n + 1) \<or> ?y < of_int n + 1" using y(2) by auto
      moreover have "round_magnitude mode negative x = n + 1"
        by (subst round_magnitude_cases [of n]) (use n up \<open>x \<noteq> of_int n\<close> in auto)
      moreover have "round_magnitude mode negative ?y = n + 1" if "?y < of_int n + 1"
        by (subst round_magnitude_cases [of n]) (use y up that \<open>of_int n < ?y\<close> in auto)
      ultimately show ?thesis by (intro goal) (metis round_magnitude_int)
    next
      case half
      have "\<bar>of_int Y - X\<bar> < 1" unfolding Y_def using round_magnitude_near(2) [of X mode negative] x M(2) by (simp add: X_def)
      moreover have "?y - x = (of_int Y - X) / of_int M" using M(2) by (simp add: X_def diff_divide_distrib)
      then have "\<bar>?y - x\<bar> = \<bar>of_int Y - X\<bar> / of_int M" using M(2) by simp
      ultimately have close: "\<bar>?y - x\<bar> < pow10 q" using M by (simp add: divide_strict_right_mono)
      show ?thesis
      proof (cases "x < of_int n + 1/2")
        case True
        then have "?y < of_int n + 1/2" using close far by linarith
        then have "round_magnitude mode negative ?y = n" by (subst round_magnitude_cases [of n]) (use y half in auto)
        moreover have "round_magnitude mode negative x = n" by (subst round_magnitude_cases [of n]) (use n half True in auto)
        ultimately show ?thesis by (intro goal) simp
      next
        case False
        then have above: "of_int n + 1/2 < x" using \<open>x \<noteq> of_int n + 1/2\<close> by simp
        then have "of_int n + 1/2 < ?y" using close far by linarith
        then have "round_magnitude mode negative ?y = n + 1" if "?y < of_int n + 1"
          by (subst round_magnitude_cases [of n]) (use y half that in auto)
        moreover have "?y = of_int (n + 1) \<or> ?y < of_int n + 1" using y(2) by auto
        moreover have "round_magnitude mode negative x = n + 1" by (subst round_magnitude_cases [of n]) (use n half above in auto)
        ultimately show ?thesis by (intro goal) (metis round_magnitude_int)
      qed
    qed
  qed
qed

section \<open>What the reader admits\<close>

lemma digits_val_bound: "list_all (\<lambda>c. 48 \<le> c \<and> c \<le> 57) s \<Longrightarrow> digits_val 10 s < 10 ^ length s"
proof (induction s rule: rev_induct)
  case (snoc c s)
  then have "digits_val 10 s + 1 \<le> 10 ^ length s" "\<exists>d. digit_val c = Some d \<and> d \<le> 9" by (auto simp: digit_val_def)
  then show ?case by auto
qed simp

lemma length_unsigned: "length (unsigned s) \<le> length s"
  by (cases s) (simp_all add: unsigned_def)

lemma decimal_of_text_bound:
  assumes "decimal_of_text udigit s = Some (DecFin neg c e)" shows "c < 10 ^ length s"
proof -
  let ?body = "unsigned (ascii_lower (numeric_as_ascii udigit s))"
  obtain m ex places where split: "split_at 101 ?body = (m, ex)" and m: "mantissa_of m = Some (c, places)"
    using assms by (auto simp: decimal_of_text_def Let_def split: if_splits prod.splits option.splits)
  obtain whole rest where w: "split_at 46 m = (whole, rest)" by fastforce
  let ?digits = "whole @ (case rest of None \<Rightarrow> [] | Some f \<Rightarrow> f)"
  have c: "is_digits ?digits" "c = digits_val 10 ?digits"
    using m w by (auto simp: mantissa_of_def Let_def split: if_splits)
  have "length ?digits \<le> length m"
  proof -
    have "m = whole @ dropWhile (\<lambda>x. x \<noteq> 46) m" using w by (auto simp: split_at_def takeWhile_dropWhile_id)
    then have "length m = length whole + length (dropWhile (\<lambda>x. x \<noteq> 46) m)" by (metis length_append)
    moreover have "length (case rest of None \<Rightarrow> [] | Some f \<Rightarrow> f) \<le> length (dropWhile (\<lambda>x. x \<noteq> 46) m)"
      using w by (auto simp: split_at_def split: list.splits)
    ultimately show ?thesis by simp
  qed
  also have "length m \<le> length ?body" using split by (auto simp: split_at_def length_takeWhile_le)
  also have "length ?body \<le> length (ascii_lower (numeric_as_ascii udigit s))" by (rule length_unsigned)
  also have "\<dots> \<le> length s"
    by (simp add: ascii_lower_def numeric_as_ascii_def le_trans [OF length_filter_le length_strip_le])
  finally have "length ?digits \<le> length s" .
  then have "(10::nat) ^ length ?digits \<le> 10 ^ length s" by (rule power_increasing) simp
  moreover have "c < 10 ^ length ?digits" unfolding c(2) using c(1) by (intro digits_val_bound) (simp only: is_digits_def)
  ultimately show ?thesis by linarith
qed

definition readable :: "decimal \<Rightarrow> bool" where
  "readable d \<longleftrightarrow> (\<exists>s c e. d = DecFin s c e \<and> c < 10 ^ 256 \<and> \<bar>adjusted d\<bar> \<le> MAX_DECIMAL_ADJUSTED_EXPONENT)"

lemma finite_decimal_readable:
  assumes "finite_decimal udigit t name = Inr d" and "length t \<le> 256" shows "readable d"
proof -
  obtain s c e where d: "d = DecFin s c e" "decimal_of_text udigit t = Some d" "\<bar>adjusted d\<bar> \<le> MAX_DECIMAL_ADJUSTED_EXPONENT"
    using assms(1) by (cases d) (auto simp: finite_decimal_def demand_eq_Inr split: option.splits)
  have "(10::nat) ^ length t \<le> 10 ^ 256" using assms(2) by (rule power_increasing) simp
  moreover have "c < 10 ^ length t" using decimal_of_text_bound [of udigit t s c e] d by simp
  ultimately have "c < 10 ^ 256" by (rule less_le_trans [rotated])
  then show ?thesis using d by (auto simp: readable_def)
qed

lemma magnitude_bounds:
  assumes "0 < c"
  shows "pow10 (adjusted (DecFin s c e)) \<le> of_nat c * pow10 e" and "of_nat c * pow10 e < pow10 (adjusted (DecFin s c e) + 1)"
proof -
  let ?k = "digit_count c"
  have k: "pow10 (int ?k - 1) \<le> of_nat c" "of_nat c < pow10 (int ?k)" using digit_count_pow10 [of "int c"] assms by simp_all
  have adj: "adjusted (DecFin s c e) = (int ?k - 1) + e" "adjusted (DecFin s c e) + 1 = int ?k + e" by simp_all
  show "pow10 (adjusted (DecFin s c e)) \<le> of_nat c * pow10 e" "of_nat c * pow10 e < pow10 (adjusted (DecFin s c e) + 1)"
    unfolding adj(2) unfolding adj(1) pow10_add using k by simp_all
qed

section \<open>Steps that fit\<close>

lemma quantize_fits:
  assumes "0 \<le> x" "x < pow10 (int k)" "0 < k" "k < prec" "etiny prec \<le> f" "f \<le> EMAX" "f + int k \<le> EMAX"
    and "of_nat c * pow10 (e - f) = x"
  shows "dec_quantize mode prec (DecFin s c e) (DecFin t d f) = Inr (DecFin s (nat (round_magnitude mode s x)) f)"
proof -
  have "round_magnitude mode s x \<le> \<lceil>x\<rceil>"
    by (auto simp: round_magnitude_def Let_def ceiling_altdef split: rounding.splits)
  also have "\<lceil>x\<rceil> \<le> 10 ^ k" using assms(2) by (simp add: ceiling_le_iff pow10_nat)
  finally have "nat (round_magnitude mode s x) \<le> 10 ^ k" by (simp add: nat_le_iff)
  then have "nat (round_magnitude mode s x) < 10 ^ (k + 1)" by (rule le_less_trans) simp
  then have "digit_count (nat (round_magnitude mode s x)) \<le> k + 1" by (simp only: digit_count_bound)
  then show ?thesis using assms(4-7) by (simp add: assms(8) Let_def demand_def)
qed

lemma readable_parts:
  assumes "readable (DecFin s c e)"
  shows "c < 10 ^ 256" "e \<le> 10000" "- 10255 \<le> e" "0 < c \<Longrightarrow> of_nat c * pow10 e < pow10 10001" "0 < c \<Longrightarrow> pow10 (- 10000) \<le> of_nat c * pow10 e"
proof -
  show c: "c < 10 ^ 256" using assms by (simp add: readable_def)
  have adj: "\<bar>e + int (digit_count c) - 1\<bar> \<le> 10000" using assms by (simp add: readable_def MAX_DECIMAL_ADJUSTED_EXPONENT_def)
  have "digit_count c \<le> 256" using c by (simp only: digit_count_bound)
  then show "e \<le> 10000" "- 10255 \<le> e" using adj digit_count_pos [of c] by linarith+
  assume "0 < c"
  note b = magnitude_bounds [OF this, where s = s and e = e]
  have "pow10 (adjusted (DecFin s c e) + 1) \<le> pow10 10001" "pow10 (- 10000) \<le> pow10 (adjusted (DecFin s c e))"
    using adj by (simp_all add: pow10_mono)
  then show "of_nat c * pow10 e < pow10 10001" "pow10 (- 10000) \<le> of_nat c * pow10 e" using b by linarith+
qed

lemma ilog10_le: "0 < x \<Longrightarrow> x < pow10 (k + 1) \<Longrightarrow> ilog10 x \<le> k"
  using ilog10_bounds(1) [of x] pow10_less_iff [of "ilog10 x" "k + 1"] by linarith

lemma le_ilog10: "0 < x \<Longrightarrow> pow10 k \<le> x \<Longrightarrow> k \<le> ilog10 x"
  using ilog10_bounds(2) [of x] pow10_less_iff [of k "ilog10 x + 1"] by linarith

text \<open>A quotient of two admitted numbers is either a middle between integers or far from all of them.\<close>

lemma quotient_apart:
  fixes x :: rat
  assumes P: "x = of_nat P / of_nat Q" and "0 < Q" and "x \<noteq> of_int n + 1/2"
  shows "1 / (2 * of_nat Q) \<le> \<bar>x - (of_int n + 1/2)\<bar>"
proof -
  have "x - (of_int n + 1/2) = of_int (2 * int P - (2 * n + 1) * int Q) / of_nat (2 * Q)"
    using assms(2) by (simp add: P diff_divide_distrib add_divide_distrib distrib_right)
  moreover have "2 * int P - (2 * n + 1) * int Q \<noteq> 0" using assms(3) calculation by (auto simp del: of_int_diff of_int_add of_int_mult)
  then have "1 \<le> \<bar>2 * int P - (2 * n + 1) * int Q\<bar>" by linarith
  then have "1 \<le> \<bar>rat_of_int (2 * int P - (2 * n + 1) * int Q)\<bar>" by (metis of_int_1 of_int_abs of_int_le_iff)
  ultimately show ?thesis using assms(2) by (simp add: divide_right_mono)
qed

lemma ratio_apart:
  assumes c: "c < 10 ^ 256" and d: "0 < d" "d < 10 ^ 256" and x: "x = of_nat c / of_nat d * pow10 k" and "0 \<le> x"
    and "x \<noteq> of_int \<lfloor>x\<rfloor> + 1/2"
  shows "pow10 (- 300) \<le> \<bar>x - (of_int \<lfloor>x\<rfloor> + 1/2)\<bar>"
proof (cases "x < 1/10")
  case True
  then have "\<lfloor>x\<rfloor> = 0" using assms(5) by (simp add: floor_eq_iff)
  moreover have "pow10 (- 300) \<le> 4/10" by (simp add: pow10_def)
  ultimately show ?thesis using True by simp
next
  case False
  have "\<exists>P Q. x = of_nat P / of_nat Q \<and> 0 < Q \<and> Q < 10 ^ 258"
  proof (cases "0 \<le> k")
    case True
    have "x = of_nat (c * 10 ^ nat k) / of_nat d" using True by (simp add: x pow10_def)
    moreover have "d < 10 ^ 258" using d(2) by (rule less_trans) simp
    ultimately show ?thesis using d(1) by blast
  next
    case neg: False
    let ?Q = "d * 10 ^ nat (- k)"
    have xQ: "x = of_nat c / of_nat ?Q" using neg by (simp add: x pow10_def)
    then have "1 / 10 \<le> rat_of_nat c / of_nat ?Q" using False by simp
    then have "rat_of_nat ?Q \<le> 10 * rat_of_nat c" using d(1) by (simp add: le_divide_eq del: of_nat_mult)
    then have "?Q \<le> 10 * c" by (metis of_nat_le_iff of_nat_mult of_nat_numeral)
    also have "10 * c < 10 * 10 ^ 256" using c by simp
    finally have "?Q < 10 ^ 258" by simp
    then show ?thesis using xQ d(1) by (metis nat_0_less_mult_iff zero_less_numeral zero_less_power)
  qed
  then obtain P Q where PQ: "x = of_nat P / of_nat Q" "0 < Q" "Q < 10 ^ 258" by blast
  have "rat_of_nat Q \<le> rat_of_nat (10 ^ 258)" using PQ(3) by (simp only: of_nat_le_iff)
  then have "1 / rat_of_nat (2 * 10 ^ 258) \<le> 1 / (2 * of_nat Q)" using PQ(2) by (intro divide_left_mono) simp_all
  moreover have "pow10 (- 300) \<le> 1 / rat_of_nat (2 * 10 ^ 258)" by (simp add: pow10_def)
  ultimately show ?thesis using quotient_apart [OF PQ(1,2) assms(6)] by linarith
qed

section \<open>Quantization is exact rounding\<close>

definition steps :: "quantization \<Rightarrow> int" where
  "steps q = round_magnitude (round_mode q) (is_signed (quantized q)) (\<bar>the (dec_value (quantized q))\<bar> / the (dec_value (quantum q)))"

lemma integer_arg_bounds: "integer_arg a name d lo hi = Inr i \<Longrightarrow> lo \<le> i \<and> i \<le> hi"
  by (simp add: integer_arg_Inr)

lemma read_quantization_parts:
  assumes "read_quantization udigit arguments = Inr q"
  shows "readable (quantized q)"
    and "quantize_action q \<noteq> u ''increment'' \<Longrightarrow> \<exists>e. quantum q = quantum_one e \<and> - 10100 \<le> e \<and> e \<le> 10000
          \<and> adjusted (quantized q) \<le> e + 10100"
    and "quantize_action q = u ''increment'' \<Longrightarrow> \<exists>d f. quantum q = DecFin False d f \<and> 0 < d \<and> readable (quantum q)"
    and "mode_name q \<in> set (map fst ROUNDING_MODES)"
proof -
  have neq: "u ''decimal_places'' \<noteq> u ''increment''" "u ''significant_digits'' \<noteq> u ''increment''" by (simp_all add: u_def)
  show val: "readable (quantized q)"
    using assms finite_decimal_readable
    by (auto simp: read_quantization_def result_simps string_arg_Inr Let_def split: if_splits)
  then have adj: "\<bar>adjusted (quantized q)\<bar> \<le> 10000" by (auto simp: readable_def MAX_DECIMAL_ADJUSTED_EXPONENT_def)
  obtain s c e where d: "quantized q = DecFin s c e" using val by (auto simp: readable_def)
  show "\<exists>e. quantum q = quantum_one e \<and> - 10100 \<le> e \<and> e \<le> 10000 \<and> adjusted (quantized q) \<le> e + 10100"
    if "quantize_action q \<noteq> u ''increment''"
    using assms that adj neq
    by (auto simp: read_quantization_def result_simps enum_arg_Inr Let_def dest!: integer_arg_bounds split: if_splits)
  show "\<exists>d f. quantum q = DecFin False d f \<and> 0 < d \<and> readable (quantum q)" if action: "quantize_action q = u ''increment''"
  proof -
    obtain t where t: "finite_decimal udigit t (u ''increment'') = Inr (quantum q)" "length t \<le> 256" "\<exists>x. dec_value (quantum q) = Some x \<and> 0 < x"
      using assms action neq by (auto simp: read_quantization_def result_simps string_arg_Inr Let_def split: if_splits)
    have r: "readable (quantum q)" by (rule finite_decimal_readable [OF t(1,2)])
    then obtain s c e where "quantum q = DecFin s c e" by (auto simp: readable_def)
    then show ?thesis using t(3) r by (cases s) (auto simp: zero_less_mult_iff mult_less_0_iff)
  qed
  show "mode_name q \<in> set (map fst ROUNDING_MODES)"
    using assms by (auto simp: read_quantization_def result_simps enum_arg_Inr Let_def intro: rev_image_eqI split: if_splits)
qed

text \<open>The division is rounded once, and the rounding to an integer after it is as if it were not.\<close>

lemma divided_and_rounded:
  assumes v: "readable (DecFin s c e)" and w: "readable (DecFin False d f)" "0 < d"
  obtains rc re where "dec_divide mode 25000 (DecFin s c e) (DecFin False d f) = Inr (DecFin s rc re)"
    and "round_magnitude mode s (of_nat rc * pow10 re) = round_magnitude mode s (of_nat c * pow10 e / (of_nat d * pow10 f))"
    and "0 \<le> of_nat rc * pow10 re" and "of_nat rc * pow10 re < pow10 20002"
proof -
  define x where "x = of_nat c / of_nat d * pow10 (e - f)"
  have x: "0 \<le> x" "x = of_nat c * pow10 e / (of_nat d * pow10 f)"
    using pow10_add [of "e - f" f] by (simp_all add: x_def field_simps)
  have divide: "dec_divide mode 25000 (DecFin s c e) (DecFin False d f) = dec_fix mode 25000 s x (e - f)"
    using w(2) by (simp add: x_def)
  show thesis
  proof (cases "c = 0")
    case True
    then have "x = 0" by (simp add: x_def)
    then show thesis using that [of 0 "max (etiny 25000) (min (e - f) EMAX)"] True divide by (simp add: dec_fix_zero round_magnitude_def)
  next
    case False
    note vp = readable_parts [OF v] and wp = readable_parts [OF w(1)]
    have num: "of_nat c * pow10 e < pow10 10001" "pow10 (- 10000) \<le> of_nat c * pow10 e" using vp(4,5) False by simp_all
    have den: "of_nat d * pow10 f < pow10 10001" "pow10 (- 10000) \<le> of_nat d * pow10 f" "0 < of_nat d * pow10 f" using wp(4,5) w(2) by simp_all
    have pos: "0 < x" using False w(2) by (simp add: x_def)
    have "x * pow10 (- 10000) \<le> x * (of_nat d * pow10 f)" using den(2) x(1) by (rule mult_left_mono)
    also have "x * (of_nat d * pow10 f) = of_nat c * pow10 e" using den(3) w(2) by (simp add: x(2))
    also have "\<dots> < pow10 (20001 + - 10000)" using num(1) by simp
    finally have "x < pow10 20001" unfolding pow10_add by simp
    have "pow10 (- 20001 + 10001) \<le> of_nat c * pow10 e" using num(2) by simp
    also have "of_nat c * pow10 e = x * (of_nat d * pow10 f)" using den(3) w(2) by (simp add: x(2))
    also have "\<dots> \<le> x * pow10 10001" using den(1) x(1) by (intro mult_left_mono) simp_all
    finally have low: "pow10 (- 20001) \<le> x" unfolding pow10_add by simp
    have ilog: "ilog10 x \<le> 20000" "- 20001 \<le> ilog10 x" using \<open>x < pow10 20001\<close> low pos by (simp_all add: ilog10_le le_ilog10)
    then have last: "last_digit 25000 x = ilog10 x - 24999" by (simp add: last_digit_def etiny_def EMAX_def)
    have "\<exists>r. dec_fix mode 25000 s x (e - f) = Inr r" using ilog by (intro dec_fix_succeeds [OF pos]) (simp_all add: EMAX_def)
    then obtain r where r: "dec_fix mode 25000 s x (e - f) = Inr r" ..
    obtain rc re where rr: "r = DecFin s rc re"
      and val: "of_nat rc * pow10 re = of_int (round_magnitude mode s (x / pow10 (ilog10 x - 24999))) * pow10 (ilog10 x - 24999)"
      using dec_fix_value [OF pos _ r] by (auto simp: last)
    have "pow10 (ilog10 x - 24999) \<le> \<bar>x - (of_int \<lfloor>x\<rfloor> + 1/2)\<bar>" if "x \<noteq> of_int \<lfloor>x\<rfloor> + 1/2"
    proof -
      have "pow10 (ilog10 x - 24999) \<le> pow10 (- 300)" using ilog by (intro pow10_mono) simp
      also have "\<dots> \<le> \<bar>x - (of_int \<lfloor>x\<rfloor> + 1/2)\<bar>" by (rule ratio_apart [OF vp(1) w(2) wp(1) x_def x(1) that])
      finally show ?thesis .
    qed
    then have same: "round_magnitude mode s (of_nat rc * pow10 re) = round_magnitude mode s x"
      unfolding val using ilog by (intro double_rounding [OF x(1)]) simp_all
    have "\<bar>of_int (round_magnitude mode s (x / pow10 (ilog10 x - 24999))) - x / pow10 (ilog10 x - 24999)\<bar> < 1"
      using x(1) by (intro round_magnitude_near(2)) simp
    then have "\<bar>of_nat rc * pow10 re - x\<bar> < pow10 (ilog10 x - 24999)"
      unfolding val by (simp add: abs_less_iff field_simps)
    moreover have "pow10 (ilog10 x - 24999) \<le> pow10 20001" using ilog by (intro pow10_mono) simp
    moreover have "2 * pow10 20001 \<le> pow10 20002" using pow10_add [of 1 20001] by (simp add: pow10_def [of 1])
    ultimately have "of_nat rc * pow10 re < pow10 20002" using \<open>x < pow10 20001\<close> unfolding abs_less_iff by linarith
    then show thesis using that [of rc re] divide r rr same x(2) by simp
  qed
qed

lemma round_magnitude_bounds:
  assumes "0 \<le> x" and "x < pow10 (int k)"
  shows "nat (round_magnitude mode s x) \<le> 10 ^ k" and "of_nat (nat (round_magnitude mode s x)) = rat_of_int (round_magnitude mode s x)"
proof -
  have "round_magnitude mode s x \<le> \<lceil>x\<rceil>"
    by (auto simp: round_magnitude_def Let_def ceiling_altdef split: rounding.splits)
  also have "\<lceil>x\<rceil> \<le> 10 ^ k" using assms(2) by (simp add: ceiling_le_iff pow10_nat)
  finally show "nat (round_magnitude mode s x) \<le> 10 ^ k" by (simp add: nat_le_iff)
  show "of_nat (nat (round_magnitude mode s x)) = rat_of_int (round_magnitude mode s x)"
    using round_magnitude_near(1) [OF assms(1)] by simp
qed

text \<open>The whole multiple of the step is a decimal of the context.\<close>

lemma exact_product:
  assumes "k \<le> 10 ^ m" and m: "m \<le> 20002" and w: "readable (DecFin False d f)" "0 < d"
  obtains c e where "dec_times mode 25000 (DecFin s k 0) (DecFin False d f) = Inr (DecFin s c e)"
    and "of_nat c * pow10 e = of_nat (k * d) * pow10 f"
proof (cases "k = 0")
  case True
  then show thesis using that [of 0 "max (etiny 25000) (min f EMAX)"] by (simp add: dec_fix_zero)
next
  case False
  note wp = readable_parts [OF w(1)]
  define x where "x = of_nat k * of_nat d * pow10 f"
  have times: "dec_times mode 25000 (DecFin s k 0) (DecFin False d f) = dec_fix mode 25000 s x f" by (simp add: x_def)
  have pos: "0 < x" using False w(2) by (simp add: x_def)
  have "k * d \<le> 10 ^ m * d" using assms(1) by simp
  also have "\<dots> < 10 ^ m * 10 ^ 256" using wp(1) by simp
  finally have kd: "k * d < 10 ^ (m + 256)" by (simp only: power_add)
  then have "rat_of_nat (k * d) < rat_of_nat (10 ^ (m + 256))" by (simp only: of_nat_less_iff)
  then have "rat_of_nat (k * d) < pow10 (int (m + 256))" unfolding pow10_nat by simp
  moreover have "pow10 (int (m + 256)) \<le> pow10 20258" using m by (intro pow10_mono) simp
  ultimately have "rat_of_nat (k * d) < pow10 20258" by (rule less_le_trans)
  then have "x < pow10 (20257 + f + 1)" using pow10_add [of 20258 f] by (simp add: x_def add.commute)
  then have high: "ilog10 x \<le> 20257 + f" using pos by (intro ilog10_le)
  have "1 \<le> k * d" using False w(2) by simp
  then have "1 \<le> rat_of_nat (k * d)" by (metis of_nat_1 of_nat_le_iff)
  then have "pow10 f \<le> x" using mult_right_mono [of 1 "rat_of_nat (k * d)" "pow10 f"] by (simp add: x_def)
  then have low: "f \<le> ilog10 x" using pos by (intro le_ilog10)
  have q: "last_digit 25000 x \<le> f" using high low wp(2,3) by (simp add: last_digit_def etiny_def EMAX_def)
  have "\<exists>r. dec_fix mode 25000 s x f = Inr r"
    using high low wp(2,3) by (intro dec_fix_succeeds [OF pos]) (simp_all add: EMAX_def)
  then obtain r where r: "dec_fix mode 25000 s x f = Inr r" ..
  have "x / pow10 (last_digit 25000 x) = of_nat (k * d) * pow10 (f - last_digit 25000 x)"
    unfolding pow10_diff by (simp add: x_def)
  also have "\<dots> = of_int (int (k * d) * 10 ^ nat (f - last_digit 25000 x))" using q by (simp add: pow10_def)
  finally have whole: "of_int \<lfloor>x / pow10 (last_digit 25000 x)\<rfloor> = x / pow10 (last_digit 25000 x)" by (metis floor_of_int)
  obtain c e where "r = DecFin s c e" "of_nat c * pow10 e = x"
    using dec_fix_near [OF _ _ r] pos whole by (metis less_imp_le zero_less_numeral)
  then show thesis using that times r by (simp add: x_def)
qed

lemma round_again: "round_magnitude mode s (of_nat n) = int n"
  using round_magnitude_int [of mode s "int n"] by simp

lemma quantize_multiple:
  assumes "of_nat c * pow10 e = of_nat n * pow10 f" and "n < 10 ^ m" and "m \<le> 24000" "0 < m" and "- 10255 \<le> f" "f \<le> 10000"
  shows "dec_quantize mode 25000 (DecFin s c e) (DecFin t d f) = Inr (DecFin s n f)"
proof -
  have "of_nat c * pow10 (e - f) = of_nat n" using assms(1) pow10_add [of "e - f" f] by (simp add: mult.assoc [symmetric])
  moreover have "digit_count n \<le> m" using assms(2,4) by (simp only: digit_count_bound)
  ultimately show ?thesis using assms(3,5,6) digit_count_pos [of n] by (simp add: round_again Let_def demand_def etiny_def EMAX_def)
qed

lemma rounded_decimal_exact:
  assumes "read_quantization udigit arguments = Inr q"
  obtains d f where "quantum q = DecFin False d f" and "0 < d"
    and "rounded_decimal q = Inr (DecFin (is_signed (quantized q)) (nat (steps q) * d) f)" and "0 \<le> steps q"
proof -
  note parts = read_quantization_parts [OF assms]
  obtain s c e where v: "quantized q = DecFin s c e" using parts(1) by (auto simp: readable_def)
  have rv: "readable (DecFin s c e)" using parts(1) v by simp
  note vp = readable_parts [OF rv]
  have absv: "\<bar>the (dec_value (quantized q))\<bar> = of_nat c * pow10 e" by (simp add: v abs_mult)
  show thesis
  proof (cases "quantize_action q = u ''increment''")
    case True
    obtain d f where w: "quantum q = DecFin False d f" "0 < d" and rw: "readable (DecFin False d f)" using parts(3) [OF True] by auto
    note wp = readable_parts [OF rw]
    obtain m :: nat where m: "m = 20002" by blast
    let ?x = "of_nat c * pow10 e / (of_nat d * pow10 f)"
    have steps: "steps q = round_magnitude (round_mode q) s ?x" unfolding steps_def absv by (simp add: v w)
    obtain rc re where div: "dec_divide (round_mode q) 25000 (DecFin s c e) (DecFin False d f) = Inr (DecFin s rc re)"
      and same: "round_magnitude (round_mode q) s (of_nat rc * pow10 re) = steps q"
      and range: "0 \<le> of_nat rc * pow10 re" "of_nat rc * pow10 re < pow10 (int m)"
      using divided_and_rounded [OF rv rw w(2), of "round_mode q"] unfolding steps m by (metis of_nat_numeral)
    have small: "nat (steps q) \<le> 10 ^ m" and nonneg: "0 \<le> steps q"
      using round_magnitude_bounds(1) [OF range, of "round_mode q" s] round_magnitude_near(1) [OF range(1), of "round_mode q" s] same by simp_all
    have one: "dec_quantize (round_mode q) 25000 (DecFin s rc re) (quantum_one 0) = Inr (DecFin s (nat (steps q)) 0)"
      unfolding quantum_one_def same [symmetric]
      by (rule quantize_fits [OF range]) (simp_all add: etiny_def EMAX_def m)
    obtain pc pe where times: "dec_times (round_mode q) 25000 (DecFin s (nat (steps q)) 0) (DecFin False d f) = Inr (DecFin s pc pe)"
      and p: "of_nat pc * pow10 pe = of_nat (nat (steps q) * d) * pow10 f"
      using exact_product [OF small _ rw w(2), of "round_mode q" s] m by blast
    have less: "nat (steps q) * d < 10 ^ (m + 256)"
    proof -
      have "nat (steps q) * d \<le> 10 ^ m * d" using small by simp
      also have "\<dots> < 10 ^ m * 10 ^ 256" using wp(1) by simp
      finally show ?thesis by (simp only: power_add)
    qed
    have two: "dec_quantize (round_mode q) 25000 (DecFin s pc pe) (DecFin False d f) = Inr (DecFin s (nat (steps q) * d) f)"
      by (intro quantize_multiple [OF p less]) (use wp(2,3) in \<open>simp_all add: m\<close>)
    have "rounded_decimal q = Inr (DecFin s (nat (steps q) * d) f)"
      using div one times two by (simp add: rounded_decimal_def True DECIMAL_CONTEXT_PRECISION_def v w Let_def del: dec_divide.simps dec_quantize.simps dec_times.simps)
    then show thesis using that [OF w] nonneg by (simp add: v)
  next
    case False
    obtain f where w: "quantum q = quantum_one f" and f: "- 10100 \<le> f" "f \<le> 10000" "adjusted (quantized q) \<le> f + 10100" using parts(2) [OF False] by blast
    let ?x = "of_nat c * pow10 e / pow10 f"
    have steps: "steps q = round_magnitude (round_mode q) s ?x" unfolding steps_def absv by (simp add: v w quantum_one_def)
    have x: "of_nat c * pow10 (e - f) = ?x" using pow10_add [of "e - f" f] by (simp add: field_simps)
    have less: "?x < pow10 (int 10101)"
    proof (cases "c = 0")
      case c: False
      have "of_nat c * pow10 e < pow10 (adjusted (DecFin s c e) + 1)" using c by (intro magnitude_bounds(2)) simp
      also have "\<dots> \<le> pow10 (int 10101 + f)" using f(3) v by (intro pow10_mono) simp
      finally show ?thesis unfolding pow10_add by (simp add: divide_less_eq)
    qed simp
    have "dec_quantize (round_mode q) 25000 (DecFin s c e) (quantum_one f) = Inr (DecFin s (nat (steps q)) f)"
      unfolding steps quantum_one_def using f(1,2) by (intro quantize_fits [OF _ less _ _ _ _ _ x]) (simp_all add: etiny_def EMAX_def)
    then have "rounded_decimal q = Inr (DecFin s (nat (steps q)) f)"
      by (simp add: rounded_decimal_def False DECIMAL_CONTEXT_PRECISION_def v w Let_def del: dec_quantize.simps)
    moreover have "0 \<le> steps q" unfolding steps by (intro round_magnitude_near(1)) simp
    ultimately show thesis using that [of 1 f] by (simp add: v w quantum_one_def)
  qed
qed

text \<open>
  C21: Whatever the reader admits is quantized, and exactly: the result is the value divided by the step,
  rounded once in the mode asked for, times the step. Neither the precision of the context nor the second
  rounding of an increment division shows, and the error codes for them never occur. In the three half modes
  the result is within half a step of the value, in the others within a step.
\<close>

theorem quantize_exact:
  assumes "read_quantization udigit arguments = Inr q"
  shows "\<exists>rounded result v w r. quantize udigit arguments = Inr result \<and> rounded_decimal q = Inr rounded
    \<and> dec_value (quantized q) = Some v \<and> dec_value (quantum q) = Some w \<and> 0 < w \<and> dec_value rounded = Some r
    \<and> r = (if is_signed (quantized q) then - 1 else 1) * of_int (round_magnitude (round_mode q) (is_signed (quantized q)) (\<bar>v\<bar> / w)) * w
    \<and> \<bar>r - v\<bar> < w \<and> (round_mode q \<in> {HalfEven, HalfUp, HalfDown} \<longrightarrow> \<bar>r - v\<bar> \<le> w / 2)
    \<and> dget_none result (u ''result'') = VStr (fixed_text rounded)
    \<and> dget_none result (u ''changed'') = VBool (r \<noteq> v) \<and> dget_none result (u ''direction'') = VStr (direction_of r v)"
proof -
  obtain d f where w: "quantum q = DecFin False d f" "0 < d"
    and rounded: "rounded_decimal q = Inr (DecFin (is_signed (quantized q)) (nat (steps q) * d) f)" and nonneg: "0 \<le> steps q"
    by (rule rounded_decimal_exact [OF assms])
  obtain s c e where v: "quantized q = DecFin s c e" using read_quantization_parts(1) [OF assms] by (auto simp: readable_def)
  define a where "a = of_nat c * pow10 e"
  define b where "b = of_nat d * pow10 f"
  have vals: "dec_value (quantized q) = Some ((if s then - 1 else 1) * a)" "dec_value (quantum q) = Some b" by (simp_all add: v w a_def b_def)
  have ab: "0 \<le> a" "0 < b" using w(2) by (simp_all add: a_def b_def)
  define k where "k = round_magnitude (round_mode q) s (a / b)"
  have k: "steps q = k" unfolding steps_def vals k_def using ab by (simp add: v abs_mult)
  have "of_nat (nat k) = rat_of_int k" using nonneg k by simp
  then have r: "dec_value (DecFin s (nat k * d) f) = Some ((if s then - 1 else 1) * of_int k * b)" by (simp add: b_def)
  note near = round_magnitude_near [OF divide_nonneg_pos [OF ab], of "round_mode q" s, folded k_def]
  have diff: "\<bar>(if s then - 1 else 1) * of_int k * b - (if s then - 1 else 1) * a\<bar> = \<bar>of_int k - a / b\<bar> * b"
  proof -
    have "(of_int k - a / b) * b = of_int k * b - a" using ab(2) by (simp add: left_diff_distrib)
    then have "\<bar>of_int k - a / b\<bar> * b = \<bar>of_int k * b - a\<bar>" using ab(2) by (metis abs_mult abs_of_pos)
    then show ?thesis by (cases s) (simp_all add: abs_minus_commute)
  qed
  have one: "\<bar>of_int k - a / b\<bar> * b < b" using near(2) ab(2) by simp
  have half: "\<bar>of_int k - a / b\<bar> * b \<le> b / 2" if "round_mode q \<in> {HalfEven, HalfUp, HalfDown}"
  proof -
    have "a / b < of_int \<lfloor>a / b\<rfloor> + 1" "of_int \<lfloor>a / b\<rfloor> \<le> a / b" by linarith+
    then have "k = (if a / b = of_int \<lfloor>a / b\<rfloor> then \<lfloor>a / b\<rfloor> else if a / b < of_int \<lfloor>a / b\<rfloor> + 1/2 then \<lfloor>a / b\<rfloor>
        else if of_int \<lfloor>a / b\<rfloor> + 1/2 < a / b then \<lfloor>a / b\<rfloor> + 1
        else if round_mode q = HalfDown \<or> round_mode q = HalfEven \<and> even \<lfloor>a / b\<rfloor> then \<lfloor>a / b\<rfloor> else \<lfloor>a / b\<rfloor> + 1)"
      unfolding k_def using that by (subst round_magnitude_cases [of "\<lfloor>a / b\<rfloor>"]) auto
    then have "k = \<lfloor>a / b\<rfloor> \<and> a / b \<le> of_int \<lfloor>a / b\<rfloor> + 1/2 \<or> k = \<lfloor>a / b\<rfloor> + 1 \<and> of_int \<lfloor>a / b\<rfloor> + 1/2 \<le> a / b"
      by (simp split: if_splits)
    then have "\<bar>of_int k - a / b\<bar> \<le> 1/2"
      using \<open>a / b < _\<close> \<open>of_int _ \<le> a / b\<close> unfolding abs_le_iff by (elim disjE conjE) (simp_all only: of_int_add of_int_1, linarith+)
    then show ?thesis using ab(2) mult_right_mono [of "\<bar>of_int k - a / b\<bar>" "1/2" b] by simp
  qed
  let ?v = "(if s then - 1 else 1) * a" and ?r = "(if s then - 1 else 1) * of_int k * b"
  have "\<exists>result. quantize udigit arguments = Inr result \<and> dget_none result (u ''result'') = VStr (fixed_text (DecFin s (nat k * d) f))
      \<and> dget_none result (u ''changed'') = VBool ((if s then - 1 else 1) * of_int k * b \<noteq> (if s then - 1 else 1) * a)
      \<and> dget_none result (u ''direction'') = VStr (direction_of ((if s then - 1 else 1) * of_int k * b) ((if s then - 1 else 1) * a))"
    unfolding quantize_def assms using rounded by (simp add: v k r vals [unfolded v] Let_def dget_none_def dget_def u_def del: dec_value.simps fixed_text.simps)
  then obtain result where result: "quantize udigit arguments = Inr result"
    "dget_none result (u ''result'') = VStr (fixed_text (DecFin s (nat k * d) f))"
    "dget_none result (u ''changed'') = VBool (?r \<noteq> ?v)" "dget_none result (u ''direction'') = VStr (direction_of ?r ?v)" by blast
  have abs: "\<bar>?v\<bar> = a" using ab by (simp add: abs_mult)
  have sign: "is_signed (quantized q) = s" by (simp add: v)
  show ?thesis
    unfolding sign
    by (intro exI [of _ "DecFin s (nat k * d) f"] exI [of _ result] exI [of _ ?v] exI [of _ b] exI [of _ ?r] conjI impI)
      (use result rounded vals ab r one half diff in \<open>simp_all only: abs k_def [symmetric] sign k\<close>)
qed

text \<open>
  In each of the three modes the handler answers the quotient and the remainder that mode is defined by:
  they satisfy the division law with a remainder smaller than the divisor, which has the sign of the dividend,
  has the sign of the divisor, or is not negative; and no other pair does. Its own check never fails.
\<close>

theorem division_law:
  fixes a b :: int
  assumes "b \<noteq> 0" and "mode \<in> set divide_modes"
  shows "quotient_remainder mode a b = (q, r) \<longleftrightarrow>
    a = b * q + r \<and> \<bar>r\<bar> < \<bar>b\<bar>
    \<and> (mode = u ''truncating'' \<longrightarrow> r = 0 \<or> (r < 0 \<longleftrightarrow> a < 0))
    \<and> (mode = u ''floor'' \<longrightarrow> r = 0 \<or> (r < 0 \<longleftrightarrow> b < 0))
    \<and> (mode = u ''euclidean'' \<longrightarrow> 0 \<le> r)"
proof -
  define law where "law = (\<lambda>q r. a = b * q + r \<and> \<bar>r\<bar> < \<bar>b\<bar>
    \<and> (mode = u ''truncating'' \<longrightarrow> r = 0 \<or> (r < 0 \<longleftrightarrow> a < 0))
    \<and> (mode = u ''floor'' \<longrightarrow> r = 0 \<or> (r < 0 \<longleftrightarrow> b < 0))
    \<and> (mode = u ''euclidean'' \<longrightarrow> 0 \<le> r))"
  have names: "u ''truncating'' \<noteq> u ''floor''" "u ''truncating'' \<noteq> u ''euclidean''" "u ''floor'' \<noteq> u ''euclidean''" by (simp_all add: u_def)
  consider "mode = u ''truncating''" | "mode = u ''floor''" | "mode = u ''euclidean''" using assms(2) by (auto simp: divide_modes_def)
  note modes = this
  then have holds: "law (fst (quotient_remainder mode a b)) (snd (quotient_remainder mode a b))"
  proof cases
    case 1
    have mod: "0 \<le> \<bar>a\<bar> mod \<bar>b\<bar>" "\<bar>a\<bar> mod \<bar>b\<bar> < \<bar>b\<bar>" using assms(1) by simp_all
    have "snd (quotient_remainder mode a b) = (if a < 0 then - (\<bar>a\<bar> mod \<bar>b\<bar>) else \<bar>a\<bar> mod \<bar>b\<bar>)"
      using minus_mult_div_eq_mod [of a b] minus_mult_div_eq_mod [of "- a" b] minus_mult_div_eq_mod [of a "- b"]
      by (auto simp: quotient_remainder_def 1 Let_def abs_if)
    moreover have "a = b * fst (quotient_remainder mode a b) + snd (quotient_remainder mode a b)"
      by (simp add: quotient_remainder_def 1 Let_def)
    ultimately show ?thesis using mod names by (auto simp: law_def 1)
  next
    case 2
    have "a mod b = 0 \<or> (a mod b < 0 \<longleftrightarrow> b < 0)"
      using assms(1) pos_mod_sign [of b a] neg_mod_sign [of b a] by linarith
    moreover have "\<bar>a mod b\<bar> < \<bar>b\<bar>" by (rule abs_mod_less [OF assms(1)])
    ultimately show ?thesis using names by (simp add: law_def 2 quotient_remainder_def)
  next
    case 3
    have "0 \<le> a mod \<bar>b\<bar>" "a mod \<bar>b\<bar> < \<bar>b\<bar>" using assms(1) by simp_all
    then show ?thesis using names mult_div_mod_eq [of "- b" a] by (auto simp: law_def 3 quotient_remainder_def abs_if split: if_splits)
  qed
  have unique: "q = q' \<and> r = r'" if "law q r" "law q' r'" for q r q' r'
  proof -
    have eq: "b * (q - q') = r' - r" using that by (simp add: law_def algebra_simps)
    have "0 \<le> r \<and> 0 \<le> r' \<or> r \<le> 0 \<and> r' \<le> 0"
      using modes
    proof cases
      case 1
      then have "r = 0 \<or> (r < 0 \<longleftrightarrow> a < 0)" "r' = 0 \<or> (r' < 0 \<longleftrightarrow> a < 0)" using that unfolding law_def by blast+
      then show ?thesis by linarith
    next
      case 2
      then have "r = 0 \<or> (r < 0 \<longleftrightarrow> b < 0)" "r' = 0 \<or> (r' < 0 \<longleftrightarrow> b < 0)" using that unfolding law_def by blast+
      then show ?thesis by linarith
    next
      case 3
      then show ?thesis using that unfolding law_def by blast
    qed
    moreover have "\<bar>r\<bar> < \<bar>b\<bar>" "\<bar>r'\<bar> < \<bar>b\<bar>" using that unfolding law_def by blast+
    ultimately have "\<bar>r' - r\<bar> < \<bar>b\<bar>" by linarith
    then have "\<bar>b\<bar> * \<bar>q - q'\<bar> < \<bar>b\<bar> * 1" unfolding eq [symmetric] abs_mult by simp
    then have "q = q'" using assms(1) by (simp only: mult_less_cancel_left) auto
    then show ?thesis using eq by simp
  qed
  obtain q0 r0 where qr: "quotient_remainder mode a b = (q0, r0)" by fastforce
  then have "law q0 r0" using holds by simp
  then have "quotient_remainder mode a b = (q, r) \<longleftrightarrow> law q r" using unique [of q r q0 r0] qr by auto
  then show ?thesis unfolding law_def .
qed

section \<open>Samples\<close>

lemmas reading = read_quantization_def string_arg_def integer_arg_def enum_arg_def dget_def strip_def is_space_def finite_decimal_def
  decimal_of_text_def numeric_as_ascii_def ascii_digit_def ascii_lower_def unsigned_def starts_with_def split_at_def mantissa_of_def
  is_digits_def digits_val_def digit_val_def digit_count_def nat_text.simps MAX_DECIMAL_ADJUSTED_EXPONENT_def

definition sample_quantization :: quantization where
  "sample_quantization = \<lparr>quantize_action = u ''increment'', source_text = u ''7'', quantized = DecFin False 7 0, mode_name = u ''half_up'',
     quantum = DecFin False 2 0, decimal_places = None, significant_digits = None, increment_text = Some (u ''2'')\<rparr>"

theorem quantize_exact_witness:
  "\<exists>rounded. rounded_decimal sample_quantization = Inr rounded \<and> dec_value rounded = Some 8"
proof -
  have "read_quantization ascii_digit [(u ''action'', VStr (u ''increment'')), (u ''value'', VStr (u ''7'')),
      (u ''increment'', VStr (u ''2'')), (u ''roundingMode'', VStr (u ''half_up''))] = Inr sample_quantization"
    by (simp add: reading sample_quantization_def ROUNDING_MODES_def u_def quantum_one_def)
  from quantize_exact [OF this] show ?thesis
    by (auto simp: sample_quantization_def round_mode_def ROUNDING_MODES_def u_def round_magnitude_def floor_divide_of_int_eq [where 'a = rat, of 7 2, simplified])
qed

theorem division_law_witness: "quotient_remainder (u ''floor'') (- 7) 2 = (- 4, 1)"
  using division_law [of 2 "u ''floor''" "- 7" "- 4" 1] by (simp add: divide_modes_def u_def)

end
