(* ===== verification/Integers.thy ===== *)
theory Integers
  imports Py_Decimal
begin

text \<open>
  Exact integer results (\<^verbatim>\<open>integer_format.py\<close>), counting (\<^verbatim>\<open>operations/combinatorics.py\<close>) and number theory
  (\<^verbatim>\<open>operations/number_theory.py\<close>). Factorization and primality of the algebra package are the record
  \<open>number_host\<close>. The proofs show that the texts are faithful, that counting loses nothing to its truncating
  divisions, and that divisors, multiples and residues are exact.
\<close>

section \<open>Exact and approximate text\<close>

text \<open>\<^verbatim>\<open>str(value)\<close>, or \<^verbatim>\<open>format(Decimal(value), "f")\<close> beyond the digit limit: the same digits.\<close>

definition exact_integer_text :: "interp \<Rightarrow> int \<Rightarrow> pystr" where
  "exact_integer_text py v =
     (case int_str py v of
        Inr t \<Rightarrow> t
      | Inl _ \<Rightarrow> fixed_text (DecFin (v < 0) (nat \<bar>v\<bar>) 0))"

text \<open>\<^verbatim>\<open>format(Decimal(value), ".<p-1>E")\<close> of a number with more than \<open>p\<close> digits, with a small \<^verbatim>\<open>e\<close>.\<close>

definition exponent_format :: "nat \<Rightarrow> int \<Rightarrow> pystr" where
  "exponent_format p v =
     (case round_digits p (nat \<bar>v\<bar>) 0 of (c, e) \<Rightarrow>
        (let digits = nat_text 10 c in
         (if v < 0 then u ''-'' else []) @ [hd digits] @ (if tl digits = [] then [] else u ''.'' @ tl digits)
         @ exponent_text 101 (e + int (length digits) - 1)))"

definition approximate_integer_text :: "int \<Rightarrow> pystr \<Rightarrow> nat \<Rightarrow> pystr" where
  "approximate_integer_text v exact precision =
     (let digits = length (dropWhile (\<lambda>c. c = 45) exact) in
      if digits \<le> precision then exact @ u ''.'' @ replicate (precision - digits) 48
      else exponent_format precision v)"

definition approximate_integer :: "interp \<Rightarrow> int \<Rightarrow> nat \<Rightarrow> pystr" where
  "approximate_integer py v precision =
     (if v = 0 then u ''0'' else approximate_integer_text v (exact_integer_text py v) precision)"

definition exact_integer_result :: "interp \<Rightarrow> string \<Rightarrow> string \<Rightarrow> int \<Rightarrow> nat \<Rightarrow> pydict \<Rightarrow> pydict" where
  "exact_integer_result py operation kind v precision metadata =
     (let exact = exact_integer_text py v in
      [(u ''status'', VStr (u ''ok'')), (u ''operation'', VStr (u operation)), (u ''kind'', VStr (u kind)),
       (u ''exact'', VStr exact), (u ''approx'', VStr (if v = 0 then u ''0'' else approximate_integer_text v exact precision)),
       (u ''precision'', VInt (int precision)), (u ''warnings'', VList [])] @ metadata)"

section \<open>Counting\<close>

definition MAX_COUNT :: int where "MAX_COUNT = 5000"

definition count_actions :: "pystr list" where
  "count_actions = [u ''binomial'', u ''permutations'', u ''multinomial'']"

definition multinomial :: "nat list \<Rightarrow> nat" where
  "multinomial counts = fold (\<lambda>k r. r div fact k) counts (fact (sum_list counts))"

definition permutations_of :: "nat \<Rightarrow> nat \<Rightarrow> nat" where
  "permutations_of n k = fact n div fact (n - k)"

definition int_val :: "pyval \<Rightarrow> int" where
  "int_val v = (case v of VInt i \<Rightarrow> i | _ \<Rightarrow> 0)"

definition counted :: "pydict \<Rightarrow> pystr \<Rightarrow> pyexn + nat" where
  "counted arguments action =
     (if action = u ''multinomial'' then
        rbind (list_arg arguments (u ''counts'') 1 128) (\<lambda>raw.
          demand (list_all is_plain_int raw) (calc ''E_INPUT'' (u ''counts must contain integers''))
         (demand (list_all (\<lambda>v. 0 \<le> int_val v) raw) (calc ''E_INPUT'' (u ''counts must be nonnegative''))
         (demand (sum_list (map int_val raw) \<le> MAX_COUNT)
            (calc ''E_LIMIT'' (u ''counts must sum to at most '' @ int_text MAX_COUNT))
            (Inr (multinomial (map (nat \<circ> int_val) raw))))))
      else
        rbind (integer_arg arguments (u ''n'') 0 0 MAX_COUNT) (\<lambda>n.
        rbind (integer_arg arguments (u ''k'') 0 0 MAX_COUNT) (\<lambda>k.
          demand (k \<le> n) (calc ''E_DOMAIN'' (u ''k must not exceed n''))
            (Inr (if action = u ''binomial'' then nat n choose nat k else permutations_of (nat n) (nat k))))))"

definition count_objects :: "interp \<Rightarrow> pydict \<Rightarrow> pyexn + pydict" where
  "count_objects py arguments =
     rbind (enum_arg arguments (u ''action'') count_actions (u ''binomial'')) (\<lambda>action.
     rbind (counted arguments action) (\<lambda>n.
       Inr (exact_integer_result py ''combinatorics.count'' ''integer_count'' (int n) 16 [(u ''action'', VStr action)])))"

section \<open>Number theory\<close>

definition MAX_INTEGER :: int where "MAX_INTEGER = 9007199254740991"

text \<open>\<^verbatim>\<open>sympy.factorint\<close> and \<^verbatim>\<open>sympy.isprime\<close> are the record \<open>number_host\<close>; \<open>factors\<close> is sorted by the prime.\<close>

record number_host =
  number_python :: interp
  factorint :: "nat \<Rightarrow> (nat \<times> nat) list"
  isprime :: "nat \<Rightarrow> bool"

definition factorization :: "number_host \<Rightarrow> pydict \<Rightarrow> pyexn + pydict" where
  "factorization host arguments =
     (let py = number_python host in
      rbind (exact_integer_arg py arguments (u ''value'') (- MAX_INTEGER) MAX_INTEGER) (\<lambda>value.
      demand (value \<noteq> 0) (calc ''E_DOMAIN'' (u ''zero does not have a finite prime factorization''))
     (let magnitude = nat \<bar>value\<bar>;
          factors = (if 1 < magnitude then sort_key fst (factorint host magnitude) else []) in
      rbind (int_str py value) (\<lambda>text.
      rbind (rmap (\<lambda>(p, e). rbind (int_str py (int p)) (\<lambda>t. Inr (VDict [(u ''prime'', VStr t), (u ''exponent'', VInt (int e))]))) factors) (\<lambda>items.
        Inr [(u ''status'', VStr (u ''ok'')), (u ''operation'', VStr (u ''integer.factorization'')),
             (u ''kind'', VStr (u ''factorization'')), (u ''value'', VStr text),
             (u ''sign'', VInt (if value < 0 then - 1 else 1)), (u ''isPrime'', VBool (1 < value \<and> isprime host (nat value))),
             (u ''factors'', VList items), (u ''warnings'', VList [])])))))"

definition parse_integer :: "interp \<Rightarrow> pyval \<Rightarrow> pystr \<Rightarrow> pyexn + int" where
  "parse_integer py v name =
     demand (is_plain_int v \<or> (is_str v \<and> ascii_integer (strip (str_val v))))
       (calc ''E_INPUT'' (name @ u '' must be an integer or integer text''))
    (rbind (if is_plain_int v then Inr (int_val v) else int_of_text py (str_val v)) (\<lambda>parsed.
       demand (\<bar>parsed\<bar> \<le> MAX_INTEGER) (calc ''E_LIMIT'' (name @ u '' is outside the supported range'')) (Inr parsed)))"

definition indexed_name :: "nat \<Rightarrow> pystr" where
  "indexed_name i = u ''values['' @ nat_text 10 i @ u '']''"

definition gcd_lcm :: "interp \<Rightarrow> pydict \<Rightarrow> pyexn + pydict" where
  "gcd_lcm py arguments =
     rbind (list_arg arguments (u ''values'') 1 128) (\<lambda>raw.
     rbind (rmap (\<lambda>(i, v). parse_integer py v (indexed_name i)) (enumerate 0 raw)) (\<lambda>ints.
       (let (g, l) = fold (\<lambda>v (g, l). (gcd g v, lcm l v)) ints (0, 1) in
        rbind (int_str py \<bar>g\<bar>) (\<lambda>gcd_text.
        rbind (int_str py \<bar>l\<bar>) (\<lambda>lcm_text.
          Inr [(u ''status'', VStr (u ''ok'')), (u ''operation'', VStr (u ''integer.gcd_lcm'')), (u ''kind'', VStr (u ''gcd_lcm'')),
               (u ''count'', VInt (int (length ints))), (u ''gcd'', VStr gcd_text), (u ''lcm'', VStr lcm_text),
               (u ''warnings'', VList [])])))))"

text \<open>\<^verbatim>\<open>pow(value, -1, modulus)\<close>; a \<^verbatim>\<open>ValueError\<close> without an inverse.\<close>

definition modular_inverse :: "int \<Rightarrow> int \<Rightarrow> int option" where
  "modular_inverse v m =
     (if coprime v m then Some (fst (bezw (nat (v mod m)) (nat m)) mod m) else None)"

definition modular_actions :: "pystr list" where
  "modular_actions = [u ''remainder'', u ''power'', u ''inverse'']"

definition modular_value :: "pydict \<Rightarrow> pystr \<Rightarrow> int \<Rightarrow> int \<Rightarrow> pyexn + int" where
  "modular_value arguments action v m =
     (if action = u ''remainder'' then Inr (v mod m)
      else if action = u ''power'' then
        rbind (integer_arg arguments (u ''exponent'') 0 0 1000000000) (\<lambda>e. Inr (v ^ nat e mod m))
      else (case modular_inverse v m of
              None \<Rightarrow> Inl (calc ''E_DOMAIN'' (u ''modular inverse does not exist for these inputs''))
            | Some x \<Rightarrow> Inr x))"

definition modular :: "interp \<Rightarrow> pydict \<Rightarrow> pyexn + pydict" where
  "modular py arguments =
     rbind (enum_arg arguments (u ''action'') modular_actions (u ''remainder'')) (\<lambda>action.
     rbind (exact_integer_arg py arguments (u ''value'') (- MAX_INTEGER) MAX_INTEGER) (\<lambda>v.
     rbind (exact_integer_arg py arguments (u ''modulus'') 2 MAX_INTEGER) (\<lambda>m.
     rbind (modular_value arguments action v m) (\<lambda>result.
     rbind (int_str py m) (\<lambda>modulus.
       Inr (exact_integer_result py ''integer.modular'' ''modular'' result 16
              [(u ''action'', VStr action), (u ''modulus'', VStr modulus)]))))))"

section \<open>The texts of an integer\<close>

lemma exact_text: "exact_integer_text py v = int_text v"
proof (cases "int_str py v")
  case (Inl e)
  then show ?thesis by (auto simp: exact_integer_text_def int_text_def abs_if)
next
  case (Inr t)
  then show ?thesis using int_str_Inr [of py v t] by (simp add: exact_integer_text_def)
qed

lemma digits_of_text: "dropWhile (\<lambda>c. c = 45) (int_text v) = nat_text 10 (nat \<bar>v\<bar>)"
proof -
  obtain c s where s: "nat_text 10 (nat \<bar>v\<bar>) = c # s" "c \<noteq> 45"
    using nat_text_ascii [of "nat \<bar>v\<bar>"] by (cases "nat_text 10 (nat \<bar>v\<bar>)") (auto simp: is_digits_def)
  then show ?thesis by (auto simp: int_text_def u_def abs_if)
qed

lemma exponent_format_reads:
  assumes ascii: "\<forall>c < 128. udigit c = ascii_digit c" and r: "round_digits p (nat \<bar>v\<bar>) 0 = (c, e)"
  shows "decimal_of_text udigit (exponent_format p v) = Some (DecFin (v < 0) c e)"
proof -
  obtain d rest where d: "nat_text 10 c = d # rest" using nat_text_ascii [of c] by (cases "nat_text 10 c") (auto simp: is_digits_def)
  have digits: "is_digits [d]" "list_all (\<lambda>c. 48 \<le> c \<and> c \<le> 57) rest" using nat_text_ascii [of c] d by (simp_all add: is_digits_def)
  have "digits_val 10 ([d] @ rest) = c" using digits_val_nat_text [of 10 c] d by simp
  then show ?thesis
    using decimal_of_written [OF ascii disjI2 [OF refl] digits, of "v < 0" "Some (e + int (length rest))"] d
    unfolding exponent_format_def r by (cases "v < 0"; cases "rest = []") (simp_all add: Let_def u_def)
qed

text \<open>
  Every integer result carries its exact decimal text, whatever the digit limit of the interpreter, and an
  approximation that reads back as a number within half a unit of the last of \<open>p\<close> significant digits, and as
  the integer itself when it has no more digits.
\<close>

theorem integer_texts_faithful:
  assumes "\<forall>c < 128. udigit c = ascii_digit c" and "0 < p"
  shows "exact_integer_text py v = int_text v
    \<and> (\<exists>d x. decimal_of_text udigit (approximate_integer py v p) = Some d \<and> dec_value d = Some x
        \<and> \<bar>x - of_int v\<bar> \<le> pow10 (int (digit_count (nat \<bar>v\<bar>)) - int p) / 2
        \<and> (digit_count (nat \<bar>v\<bar>) \<le> p \<longrightarrow> x = of_int v))"
proof -
  let ?n = "nat \<bar>v\<bar>"
  let ?goal = "\<lambda>d x. decimal_of_text udigit (approximate_integer py v p) = Some d \<and> dec_value d = Some x
        \<and> \<bar>x - of_int v\<bar> \<le> pow10 (int (digit_count ?n) - int p) / 2 \<and> (digit_count ?n \<le> p \<longrightarrow> x = of_int v)"
  have digits: "is_digits (nat_text 10 ?n)" by (rule nat_text_ascii)
  have val: "digits_val 10 (nat_text 10 n) = n" for n by (simp add: digits_val_nat_text)
  have sign: "rat_of_int v = (if v < 0 then - 1 else 1) * of_nat ?n" by simp
  have "\<exists>d x. ?goal d x"
  proof (cases "v = 0")
    case True
    have "u ''0'' = nat_text 10 0" by (simp add: nat_text.simps digit_cp_def u_def)
    then have "decimal_of_text udigit (u ''0'') = Some (DecFin False 0 0)"
      using decimal_of_written [OF assms(1) disjI1 [OF refl] nat_text_ascii [of 0], of "[]" False None] val [of 0] by simp
    then show ?thesis using True by (auto simp: approximate_integer_def)
  next
    case nonzero: False
    show ?thesis
    proof (cases "digit_count ?n \<le> p")
      case True
      define k where "k = p - digit_count ?n"
      let ?z = "replicate k (48::nat)"
      have written: "approximate_integer py v p = (if v < 0 then [45] else []) @ (nat_text 10 ?n @ 46 # ?z) @ []"
      proof -
        have "approximate_integer py v p = int_text v @ 46 # ?z"
          using True nonzero by (simp add: approximate_integer_def approximate_integer_text_def exact_text digits_of_text k_def digit_count_def u_def Let_def)
        then show ?thesis by (simp add: int_text_def u_def abs_if)
      qed
      have "digits_val 10 (nat_text 10 ?n @ replicate k 48) = ?n * 10 ^ k" for k
        by (induction k) (simp_all add: val replicate_append_same [symmetric] digit_val_def flip: append_assoc)
      then have read: "decimal_of_text udigit (approximate_integer py v p)
          = Some (DecFin (v < 0) (?n * 10 ^ k) (- int k))"
        using decimal_of_mantissa [OF assms(1) disjI1 [OF refl] digits, of ?z _ _ "v < 0" None, OF _ disjI1 [OF refl] refl] unfolding written
        by (simp add: list_all_length)
      have "rat_of_nat (?n * 10 ^ k) * pow10 (- int k) = of_nat ?n" for k
        by (simp add: pow10_powi power_int_minus)
      then have "dec_value (DecFin (v < 0) (?n * 10 ^ k) (- int k)) = Some (of_int v)"
        unfolding dec_value.simps mult.assoc by (subst sign) (simp only:)
      moreover have "(0::rat) \<le> pow10 (int (digit_count ?n) - int p) / 2" by simp
      ultimately show ?thesis using read by auto
    next
      case False
      obtain c e where r: "round_digits p ?n 0 = (c, e)" by fastforce
      have "approximate_integer py v p = exponent_format p v"
        using False nonzero by (simp add: approximate_integer_def approximate_integer_text_def exact_text digits_of_text digit_count_def)
      then have "decimal_of_text udigit (approximate_integer py v p) = Some (DecFin (v < 0) c e)"
        using exponent_format_reads [OF assms(1) r] by simp
      moreover have "\<bar>of_nat c * pow10 e - of_nat ?n\<bar> \<le> pow10 (int (digit_count ?n) - int p) / 2"
        using round_digits_near(1) [OF assms(2) r] by simp
      then have "\<bar>(if v < 0 then - 1 else 1) * of_nat c * pow10 e - of_int v\<bar> \<le> pow10 (int (digit_count ?n) - int p) / 2"
        by (cases "v < 0") (simp_all add: abs_minus_commute add.commute)
      ultimately show ?thesis using False by auto
    qed
  qed
  then show ?thesis using exact_text by simp
qed

section \<open>Counts\<close>

lemma prod_fact_dvd: "prod_list (map fact ks) dvd (fact (sum_list ks) :: nat)"
proof (induction ks)
  case (Cons k ks)
  have "fact k * fact (sum_list ks) dvd (fact (k + sum_list ks) :: nat)" by (rule fact_fact_dvd_fact)
  then show ?case using Cons by (simp add: dvd_trans [OF mult_dvd_mono [OF dvd_refl]])
qed simp

lemma fold_division:
  "prod_list (map fact ks) dvd (r::nat) \<Longrightarrow> fold (\<lambda>k r. r div fact k) ks r * prod_list (map fact ks) = r"
proof (induction ks arbitrary: r)
  case (Cons k ks)
  then obtain q where q: "r = fact k * prod_list (map fact ks) * q" by (auto elim: dvdE)
  then have "r div fact k = prod_list (map fact ks) * q" by simp
  then show ?case using Cons.IH [of "r div fact k"] q by (simp add: ac_simps)
qed simp

text \<open>
  Counting is exact. The loop of truncating divisions yields the multinomial coefficient, the number of
  ways to divide the factorial of the sum by the factorials of the parts, with nothing lost on the way; and
  the permutations are the binomial coefficient times the orders of the chosen.
\<close>

theorem counts_exact:
  "multinomial ks * prod_list (map fact ks) = fact (sum_list ks)
   \<and> (\<forall>j ks'. ks = j @ ks' \<longrightarrow> prod_list (map fact ks') dvd fold (\<lambda>k r. r div fact k) j (fact (sum_list ks) :: nat))
   \<and> (k \<le> n \<longrightarrow> permutations_of n k = (n choose k) * fact k)"
proof -
  have "prod_list (map fact ks') dvd fold (\<lambda>k r. r div fact k) j r" if "prod_list (map fact (j @ ks')) dvd (r::nat)" for j ks' r
    using that
  proof (induction j arbitrary: r)
    case (Cons a j)
    have "prod_list (map fact (j @ ks')) dvd r div fact a" using Cons.prems by (auto elim!: dvdE simp: mult.assoc)
    then show ?case using Cons.IH by simp
  qed simp
  note divides = this [of _ _ "fact (sum_list ks)"]
  have perm: "permutations_of n k = (n choose k) * fact k" if "k \<le> n"
    using that binomial_fact_lemma [OF that] by (metis fact_nonzero mult.assoc mult.commute nonzero_mult_div_cancel_right permutations_of_def)
  have "prod_list (map fact ks') dvd fold (\<lambda>k r. r div fact k) j (fact (sum_list ks) :: nat)" if "ks = j @ ks'" for j ks'
    using divides [of j ks'] prod_fact_dvd [of ks] that by simp
  then show ?thesis using perm fold_division [OF prod_fact_dvd [of ks]] by (simp add: multinomial_def)
qed

theorem counts_exact_witness: "permutations_of 5 2 = 20"
proof -
  have "permutations_of 5 2 = (5 choose 2) * fact 2" by (rule counts_exact [of "[]", THEN conjunct2, THEN conjunct2, THEN mp]) simp
  also have "\<dots> = 20" by (simp add: choose_two fact_2)
  finally show ?thesis .
qed

section \<open>Divisors, multiples and residues\<close>

lemma fold_gcd_lcm:
  "0 \<le> g \<Longrightarrow> 0 \<le> l \<Longrightarrow> fold (\<lambda>v (g, l). (gcd g v, lcm l v)) vs (g, l) = (gcd g (Gcd (set vs)), lcm (l::int) (Lcm (set vs)))"
  by (induction vs arbitrary: g l) (auto simp: gcd.assoc lcm.assoc)

lemma lcm_prod_bound: "(\<forall>v \<in> set vs. \<bar>v\<bar> \<le> M) \<Longrightarrow> 1 \<le> M \<Longrightarrow> Lcm (set vs) \<le> (M::int) ^ length vs"
proof (induction vs)
  case (Cons v vs)
  have "lcm v (Lcm (set vs)) \<le> \<bar>v\<bar> * Lcm (set vs)"
  proof (cases "v = 0 \<or> Lcm (set vs) = 0")
    case False
    then have "lcm v (Lcm (set vs)) dvd v * Lcm (set vs)" by simp
    then have "\<bar>lcm v (Lcm (set vs))\<bar> \<le> \<bar>v * Lcm (set vs)\<bar>" using False by (intro dvd_imp_le_int) simp_all
    then show ?thesis by (simp add: abs_mult)
  qed auto
  also have "\<dots> \<le> M * M ^ length vs" using Cons by (intro mult_mono) simp_all
  finally show ?case by simp
qed simp

text \<open>
  The greatest common divisor and the least common multiple of all the integers are answered, and the text
  of the multiple never meets a digit limit of at least 2048 digits.
\<close>

theorem gcd_lcm_exact:
  assumes "list_arg arguments (u ''values'') 1 128 = Inr raw"
    and "rmap (\<lambda>(i, v). parse_integer py v (indexed_name i)) (enumerate 0 raw) = Inr vs"
    and "digit_limit py = 0 \<or> 2048 \<le> digit_limit py"
  shows "\<exists>result. gcd_lcm py arguments = Inr result \<and> dget_none result (u ''gcd'') = VStr (int_text (Gcd (set vs)))
    \<and> dget_none result (u ''lcm'') = VStr (int_text (Lcm (set vs))) \<and> length vs = length raw"
proof -
  have len: "length vs = length raw" "length raw \<le> 128"
    using assms(1,2) by (auto simp: rmap_Inr_iff list_arg_Inr dest: list_all2_lengthD)
  have small: "\<bar>v\<bar> \<le> MAX_INTEGER" if "v \<in> set vs" for v
  proof -
    obtain i where i: "i < length vs" "vs ! i = v" using \<open>v \<in> set vs\<close> by (metis in_set_conv_nth)
    then have "parse_integer py (raw ! i) (indexed_name i) = Inr v"
      using assms(2) len by (auto simp: rmap_Inr_iff list_all2_conv_all_nth nth_enumerate_eq)
    then show ?thesis by (auto simp: parse_integer_def result_simps)
  qed
  have fold: "fold (\<lambda>v (g, l). (gcd g v, lcm l v)) vs (0, 1) = (Gcd (set vs), Lcm (set vs))" using fold_gcd_lcm [of 0 1 vs] by simp
  obtain b :: nat where b: "b = 16" by blast
  have fits: "int_str py i = Inr (int_text i)" if "\<bar>i\<bar> < 10 ^ (b * 128)" for i
  proof -
    have "nat \<bar>i\<bar> < 10 ^ (b * 128)" using that by (simp add: nat_less_iff)
    moreover have "0 < b * 128" by (simp add: b)
    ultimately have "length (nat_text 10 (nat \<bar>i\<bar>)) \<le> b * 128" using length_nat_text_le [of 10 "b * 128" "nat \<bar>i\<bar>"] by simp
    then show ?thesis using assms(3) b by (auto simp: int_str_def digits_allowed_def demand_def)
  qed
  have "Lcm (set vs) \<le> MAX_INTEGER ^ length vs" using small by (intro lcm_prod_bound) (simp_all add: MAX_INTEGER_def)
  also have "\<dots> \<le> MAX_INTEGER ^ 128" using len by (intro power_increasing) (simp_all add: MAX_INTEGER_def)
  also have "\<dots> < (10 ^ b) ^ 128" by (intro power_strict_mono) (simp_all add: MAX_INTEGER_def b)
  also have "(10 ^ b) ^ 128 = (10::int) ^ (b * 128)" by (simp only: power_mult)
  finally have lcm: "\<bar>Lcm (set vs)\<bar> < 10 ^ (b * 128)" by simp
  have "\<bar>Gcd (set vs)\<bar> < 10 ^ (b * 128)"
  proof -
    have "Gcd (set vs) \<le> MAX_INTEGER"
    proof (cases "set vs \<subseteq> {0}")
      case True
      then have "Gcd (set vs) = 0" by (simp add: Gcd_0_iff)
      then show ?thesis unfolding MAX_INTEGER_def by linarith
    next
      case False
      then obtain v where v: "v \<in> set vs" "v \<noteq> 0" by blast
      then have "Gcd (set vs) dvd v" by simp
      then have "\<bar>Gcd (set vs)\<bar> \<le> \<bar>v\<bar>" using v(2) by (rule dvd_imp_le_int [rotated])
      then show ?thesis using small [OF v(1)] by linarith
    qed
    also have "MAX_INTEGER < 10 ^ b" by (simp add: MAX_INTEGER_def b)
    also have "\<dots> \<le> 10 ^ (b * 128)" by (intro power_increasing) simp_all
    finally show ?thesis by simp
  qed
  then show ?thesis
    using fits [OF lcm] fits len assms(1,2) by (simp add: gcd_lcm_def fold dget_none_def dget_def u_def)
qed

lemma bezw_inverse:
  assumes "coprime v m" and "2 \<le> (m::int)"
  shows "v * (fst (bezw (nat (v mod m)) (nat m)) mod m) mod m = 1"
proof -
  let ?a = "nat (v mod m)" and ?m = "nat m"
  have "int (gcd ?a ?m) = gcd (v mod m) m" using assms(2) by (simp flip: gcd_int_int_eq)
  also have "\<dots> = gcd v m" using gcd_red_int [of v m] by (simp add: gcd.commute)
  also have "\<dots> = 1" using assms(1) by (simp add: coprime_iff_gcd_eq_1)
  finally have "gcd ?a ?m = 1" by simp
  then have "fst (bezw ?a ?m) * int ?a + snd (bezw ?a ?m) * int ?m = 1" using bezw_aux [of ?a ?m] by simp
  then have "(fst (bezw ?a ?m) * (v mod m) + snd (bezw ?a ?m) * m) mod m = 1 mod m" using assms(2) by simp
  then show ?thesis using assms(2) by (simp add: mod_simps mult.commute)
qed

text \<open>
  C23: The residues are exact: the answer lies between zero and the modulus, is congruent to the value, to its
  power, or to its inverse, and an inverse is refused just when there is none.
\<close>

theorem modular_exact:
  assumes "2 \<le> m"
  shows "(modular_value arguments action v m = Inr r \<longrightarrow> 0 \<le> r \<and> r < m)
   \<and> (action = u ''remainder'' \<longrightarrow> modular_value arguments action v m = Inr (v mod m))
   \<and> (action = u ''power'' \<and> integer_arg arguments (u ''exponent'') 0 0 1000000000 = Inr e
        \<longrightarrow> modular_value arguments action v m = Inr (v ^ nat e mod m))
   \<and> (action = u ''inverse'' \<longrightarrow>
        (\<forall>r. modular_value arguments action v m = Inr r \<longleftrightarrow> 0 \<le> r \<and> r < m \<and> v * r mod m = 1)
        \<and> ((\<exists>e. modular_value arguments action v m = Inl e) \<longleftrightarrow> \<not> coprime v m))"
proof -
  have range: "0 \<le> x mod m" "x mod m < m" for x using assms by simp_all
  have inverse: "modular_inverse v m = Some r \<longleftrightarrow> 0 \<le> r \<and> r < m \<and> v * r mod m = 1" for r
  proof
    assume "modular_inverse v m = Some r"
    then show "0 \<le> r \<and> r < m \<and> v * r mod m = 1"
      using bezw_inverse [OF _ assms, of v] range by (auto simp: modular_inverse_def split: if_splits)
  next
    assume r: "0 \<le> r \<and> r < m \<and> v * r mod m = 1"
    have "coprime v m"
    proof (rule coprimeI)
      fix c assume c: "c dvd v" "c dvd m"
      then have "c dvd v * r mod m" by (simp add: dvd_mod)
      then show "is_unit c" using r by simp
    qed
    let ?x = "fst (bezw (nat (v mod m)) (nat m)) mod m"
    have "r mod m = (v * ?x) * r mod m" using bezw_inverse [OF \<open>coprime v m\<close> assms] by (metis mod_mult_left_eq mult_1)
    also have "\<dots> = ?x * (v * r) mod m" by (simp add: ac_simps)
    also have "\<dots> = ?x" using r by (metis mod_mod_trivial mod_mult_right_eq mult.right_neutral)
    finally show "modular_inverse v m = Some r" using r \<open>coprime v m\<close> by (simp add: modular_inverse_def)
  qed
  have none: "modular_inverse v m = None \<longleftrightarrow> \<not> coprime v m" by (simp add: modular_inverse_def)
  have names: "u ''inverse'' \<noteq> u ''remainder''" "u ''inverse'' \<noteq> u ''power''" "u ''power'' \<noteq> u ''remainder''" by (simp_all add: u_def)
  have inv: "modular_value arguments (u ''inverse'') v m = (case modular_inverse v m of
      None \<Rightarrow> Inl (calc ''E_DOMAIN'' (u ''modular inverse does not exist for these inputs'')) | Some x \<Rightarrow> Inr x)"
    using names by (simp add: modular_value_def)
  show ?thesis
  proof (intro conjI impI allI)
    assume r: "modular_value arguments action v m = Inr r"
    then show "0 \<le> r" "r < m" using range inverse by (auto simp: modular_value_def rbind_eq_Inr split: option.splits if_splits)
  next
    assume action: "action = u ''inverse''"
    show "modular_value arguments action v m = Inr r \<longleftrightarrow> 0 \<le> r \<and> r < m \<and> v * r mod m = 1" for r
      unfolding action inv inverse [symmetric] by (simp split: option.split)
    show "(\<exists>e. modular_value arguments action v m = Inl e) \<longleftrightarrow> \<not> coprime v m"
      unfolding action inv none [symmetric] by (simp split: option.split)
  qed (use names in \<open>simp_all add: modular_value_def\<close>)
qed

theorem modular_exact_witness: "modular_value [] (u ''inverse'') 3 7 = Inr 5"
  using modular_exact [of 7 "[]" "u ''inverse''" 3] by (auto simp: u_def)


theorem integer_texts_faithful_witness:
  "\<exists>d x. decimal_of_text ascii_digit (approximate_integer \<lparr>float_text = (\<lambda>_. []), sha256 = (\<lambda>_. []), digit_limit = 4300\<rparr> 12345 3) = Some d
    \<and> dec_value d = Some x \<and> \<bar>x - 12345\<bar> \<le> 50"
proof -
  have "digit_count 12345 = 5" by (simp add: digit_count_def nat_text.simps)
  then have "pow10 (int (digit_count (nat \<bar>12345\<bar>)) - int 3) / 2 = 50" by (simp add: pow10_def)
  then show ?thesis
    using integer_texts_faithful [of ascii_digit 3 "\<lparr>float_text = (\<lambda>_. []), sha256 = (\<lambda>_. []), digit_limit = 4300\<rparr>" 12345]
    by (auto simp del: of_nat_numeral)
qed

theorem gcd_lcm_exact_witness:
  "\<exists>result. gcd_lcm \<lparr>float_text = (\<lambda>_. []), sha256 = (\<lambda>_. []), digit_limit = 4300\<rparr> [(u ''values'', VList [VInt 4, VInt 6])] = Inr result
    \<and> dget_none result (u ''lcm'') = VStr (int_text 12)"
proof -
  let ?py = "\<lparr>float_text = (\<lambda>_. []), sha256 = (\<lambda>_. []), digit_limit = 4300\<rparr> :: interp"
  have a: "list_arg [(u ''values'', VList [VInt 4, VInt 6])] (u ''values'') 1 128 = Inr [VInt 4, VInt 6]"
    by (simp add: list_arg_def dget_none_def dget_def)
  have b: "rmap (\<lambda>(i, v). parse_integer ?py v (indexed_name i)) (enumerate 0 [VInt 4, VInt 6]) = Inr [4, 6]"
    by (simp add: parse_integer_def int_val_def MAX_INTEGER_def)
  have "lcm 4 6 = (12::int)" by (simp add: lcm_int_def lcm_nat_def gcd_non_0_nat)
  then show ?thesis using gcd_lcm_exact [OF a b] by auto
qed

end
