(* ===== verification/Spec2Isabelle.thy ===== *)
theory Spec2Isabelle
  imports Obligation_Samples Runtime_System Sandbox Programmer Direct_Runtime Dimension_Groups Certificate_Samples Floating App_Runtime Rounding Integers
begin

text \<open>
  Verification development of the \<^verbatim>\<open>math_anchor\<close> runtime.
\<close>

end
